(* ===== verification/Prelude.thy ===== *)
theory Prelude
  imports Main "HOL-Library.Word" "HOL-Library.AList"
begin

text \<open>
  What the component theories share: the machine integers of the Rust sources as words, the
  overflow disciplines the sources name (wrapping in the release profile, \<open>saturating_*\<close>,
  \<open>checked_*\<close>), \<open>Result\<close> as a sum, the two map types of the standard library the
  sources use (\<open>HashMap\<close> as an association list without an order, \<open>BTreeMap\<close> as a
  list sorted by key), and the capped deque three components keep.

  The first locale is the interface of a keyed store: its laws are proved of both map types here,
  where they are provided, and its consequences (how the size moves) are what the bounded tables
  of the program rest on. The second is the interface of a capped deque; the components that keep
  one interpret it.
\<close>

named_theorems conv_simps \<open>reading word comparisons and bounded arithmetic on naturals\<close>

type_synonym u8 = "8 word"
type_synonym u16 = "16 word"
type_synonym u32 = "32 word"
type_synonym u64 = "64 word"
type_synonym u128 = "128 word"
type_synonym bytes = "u8 list"
type_synonym hash32 = "u8 list"

text \<open>A \<open>[u8; 32]\<close> is a byte list of length 32; the length is carried as a predicate.\<close>

definition is_hash32 :: "hash32 \<Rightarrow> bool" where
  "is_hash32 h \<longleftrightarrow> length h = 32"

definition zero_hash :: hash32 where
  "zero_hash = replicate 32 0"

lemma is_hash32_zero [simp]: "is_hash32 zero_hash"
  by (simp add: is_hash32_def zero_hash_def)

section \<open>Result values\<close>

abbreviation Err :: "'e \<Rightarrow> 'e + 'a" where "Err \<equiv> Inl"
abbreviation Ok :: "'a \<Rightarrow> 'e + 'a" where "Ok \<equiv> Inr"

text \<open>\<open>rbind\<close> is the question-mark operator: the first error is returned.\<close>

fun rbind :: "'e + 'a \<Rightarrow> ('a \<Rightarrow> 'e + 'b) \<Rightarrow> 'e + 'b" where
  "rbind (Inl e) f = Inl e"
| "rbind (Inr a) f = f a"

lemma rbind_eq_Ok [simp]: "rbind m f = Inr b \<longleftrightarrow> (\<exists>a. m = Inr a \<and> f a = Inr b)"
  by (cases m) auto

lemma rbind_eq_Err: "rbind m f = Inl e \<longleftrightarrow> m = Inl e \<or> (\<exists>a. m = Inr a \<and> f a = Inl e)"
  by (cases m) auto

definition ok_or :: "'e \<Rightarrow> 'a option \<Rightarrow> 'e + 'a" where
  "ok_or e x = (case x of None \<Rightarrow> Inl e | Some a \<Rightarrow> Inr a)"

lemma ok_or_simps [simp]: "ok_or e None = Inl e" "ok_or e (Some a) = Inr a"
  by (simp_all add: ok_or_def)

section \<open>Machine integers\<close>

text \<open>The largest value of a width, and the saturating operations of the standard library.\<close>

abbreviation umax :: "'a::len word" where "umax \<equiv> - 1"

definition sat_add :: "'a::len word \<Rightarrow> 'a word \<Rightarrow> 'a word" where
  "sat_add a b = (if unat a + unat b < 2 ^ LENGTH('a) then a + b else umax)"

definition sat_sub :: "'a::len word \<Rightarrow> 'a word \<Rightarrow> 'a word" where
  "sat_sub a b = (if b \<le> a then a - b else 0)"

definition sat_mul :: "'a::len word \<Rightarrow> 'a word \<Rightarrow> 'a word" where
  "sat_mul a b = (if unat a * unat b < 2 ^ LENGTH('a) then a * b else umax)"

definition checked_sub :: "'a::len word \<Rightarrow> 'a word \<Rightarrow> 'a word option" where
  "checked_sub a b = (if b \<le> a then Some (a - b) else None)"

lemma unat_umax: "unat (umax :: 'a::len word) = 2 ^ LENGTH('a) - 1"
  by transfer (simp add: take_bit_minus_one_eq_mask mask_eq_exp_minus_1 nat_diff_distrib' nat_power_eq)

lemma unat_lt_exp: "unat (a :: 'a::len word) < 2 ^ LENGTH('a)"
  by (rule unsigned_less)

lemma unat_sat_add:
  "unat (sat_add a (b :: 'a::len word)) = min (unat a + unat b) (2 ^ LENGTH('a) - 1)"
  by (auto simp: sat_add_def unat_umax unat_word_ariths min_def)

lemma unat_sat_sub: "unat (sat_sub a (b :: 'a::len word)) = unat a - unat b"
  by (auto simp: sat_sub_def unat_sub word_le_nat_alt)

lemma unat_sat_mul:
  "unat (sat_mul a (b :: 'a::len word)) = min (unat a * unat b) (2 ^ LENGTH('a) - 1)"
proof (cases "unat a * unat b < 2 ^ LENGTH('a)")
  case True
  then show ?thesis by (simp add: sat_mul_def unat_word_ariths)
next
  case False
  then show ?thesis by (simp add: sat_mul_def unat_umax del: mult_eq_0_iff)
qed

lemma unat_add_small: "unat a + unat b < 2 ^ LENGTH('a) \<Longrightarrow> unat (a + b :: 'a::len word) = unat a + unat b"
  by (simp add: unat_word_ariths)

lemma unat_mult_small: "unat a * unat b < 2 ^ LENGTH('a) \<Longrightarrow> unat (a * b :: 'a::len word) = unat a * unat b"
  by (simp add: unat_word_ariths)

lemma unat_plus_1: "unat a + 1 < 2 ^ LENGTH('a) \<Longrightarrow> unat (a + 1 :: 'a::len word) = unat a + 1"
  by (simp add: unat_word_ariths)

lemma unat_sub_le: "b \<le> a \<Longrightarrow> unat (a - b :: 'a::len word) = unat a - unat b"
  by (simp add: unat_sub)

lemma unat_min: "unat (min a (b :: 'a::len word)) = min (unat a) (unat b)"
  by (simp add: min_def word_le_nat_alt)

lemma unat_max: "unat (max a (b :: 'a::len word)) = max (unat a) (unat b)"
  by (simp add: max_def word_le_nat_alt)

lemma unat_of_nat_len: "n < 2 ^ LENGTH('a) \<Longrightarrow> unat (word_of_nat n :: 'a::len word) = n"
  by (simp add: unat_of_nat)

lemma nat_div_eq_iff: "0 < l \<Longrightarrow> h div l = e \<longleftrightarrow> e * l \<le> h \<and> h < (e + 1) * (l :: nat)"
  by (metis add.commute div_nat_eqI dividend_less_div_times div_times_less_eq_dividend mult.commute
      mult_Suc plus_1_eq_Suc)

lemma word_mod_eq_0: "a mod b = 0 \<longleftrightarrow> unat b dvd unat (a :: 'a::len word)"
  by (simp add: word_unat_eq_iff unat_mod mod_eq_0_iff_dvd)

lemma word_neq_0_unat: "a \<noteq> 0 \<longleftrightarrow> 0 < unat (a :: 'a::len word)"
  by (simp add: unat_gt_0)

text \<open>Widening \<open>as u128\<close> and narrowing \<open>as u64\<close>.\<close>

definition u128_of :: "u64 \<Rightarrow> u128" where "u128_of a = ucast a"
definition u64_of :: "u128 \<Rightarrow> u64" where "u64_of a = ucast a"

lemma unat_u128_of [simp]: "unat (u128_of a) = unat a"
  by (simp add: u128_of_def unsigned_ucast_eq take_bit_nat_eq_self_iff less_le_trans [OF unat_lt_exp])

lemma unat_u64_of: "unat (u64_of a) = unat a mod 2 ^ 64"
  by (simp add: u64_of_def unsigned_ucast_eq take_bit_eq_mod)

lemma unat_u64_of_small: "unat a < 2 ^ 64 \<Longrightarrow> unat (u64_of a) = unat a"
  by (simp add: unat_u64_of)

lemmas word_nat_conv = word_le_nat_alt word_less_nat_alt

declare unat_sat_add [conv_simps] unat_sat_sub [conv_simps] unat_sat_mul [conv_simps]
  unat_min [conv_simps] unat_max [conv_simps] word_le_nat_alt [conv_simps]
  word_less_nat_alt [conv_simps]

section \<open>Bits of words as naturals\<close>

unbundle bit_operations_syntax

lemma unat_drop_bit: "unat (drop_bit n (w::'a::len word)) = unat w div 2^n"
  by (simp only: unsigned_drop_bit_eq drop_bit_eq_div [where 'a = nat] take_bit_nat_eq_self [OF unat_lt_exp])

lemma unat_take_bit: "unat (take_bit n (w::'a::len word)) = unat w mod 2^n"
  by (simp only: unsigned_take_bit_eq take_bit_eq_mod [where 'a = nat])

lemma unat_push_bit: 
  fixes b :: "'a::len word"
  assumes "unat b * 2 ^ s < 2 ^ LENGTH('a)"
  shows "unat (push_bit s b) = unat b * 2 ^ s"
  using assms by (simp only: unsigned_push_bit_eq push_bit_eq_mult [where 'a = nat] take_bit_nat_eq_self)

lemma shifted_sum_bound:
  assumes "a < 2 ^ s" and "b * 2 ^ s < 2 ^ n" and "a < 2 ^ n"
  shows "a + b * 2 ^ s < (2 ^ n :: nat)"
proof (cases "b = 0")
  case False
  then have "(2::nat) ^ s \<le> b * 2 ^ s" by simp
  then have "(2::nat) ^ s < 2 ^ n" using assms(2) by (rule le_less_trans)
  then have sn: "s < n" by simp
  then have e: "(2::nat) ^ n = 2 ^ (n - s) * 2 ^ s" by (simp flip: power_add)
  with assms(2) have "b < 2 ^ (n - s)" by simp
  then have "(b + 1) * 2 ^ s \<le> 2 ^ n" unfolding e by (intro mult_le_mono1) simp
  with assms(1) show ?thesis by simp
qed (use assms in simp)

lemma unat_or_push:
  fixes a b :: "'a::len word"
  assumes "unat a < 2 ^ s" and "unat b * 2 ^ s < 2 ^ LENGTH('a)"
  shows "unat (a OR push_bit s b) = unat a + unat b * 2 ^ s"
proof -
  have "a OR push_bit s b = a + push_bit s b"
  proof (rule disjunctive_add [symmetric])
    fix n
    show "\<not> bit a n \<or> \<not> bit (push_bit s b) n"
    proof (cases "n < s")
      case True
      then show ?thesis by (simp add: bit_push_bit_iff)
    next
      case False
      then have "unat a < 2 ^ n" using assms(1)
        by (meson less_le_trans linorder_not_less one_le_numeral power_increasing)
      then have "\<not> bit (unat a) n" by (simp add: bit_iff_odd)
      then show ?thesis by (simp add: bit_unsigned_iff)
    qed
  qed
  then show ?thesis
    using assms by (simp add: unat_add_small unat_push_bit shifted_sum_bound unat_lt_exp)
qed

lemma unat_and_mask: "unat (w AND mask n :: 'a::len word) = unat w mod 2 ^ n"
  by (simp only: take_bit_eq_mask [symmetric] unat_take_bit)

section \<open>Little-endian and big-endian bytes\<close>

text \<open>\<open>le_bytes n x\<close> is the \<open>n\<close>-byte little-endian image of \<open>x\<close>, \<open>le_val\<close> its reading.\<close>

fun le_bytes :: "nat \<Rightarrow> nat \<Rightarrow> bytes" where
  "le_bytes 0 x = []"
| "le_bytes (Suc n) x = word_of_nat (x mod 256) # le_bytes n (x div 256)"

fun le_val :: "bytes \<Rightarrow> nat" where
  "le_val [] = 0"
| "le_val (b # bs) = unat b + 256 * le_val bs"

definition u64_le :: "u64 \<Rightarrow> bytes" where "u64_le a = le_bytes 8 (unat a)"
definition u32_le :: "u32 \<Rightarrow> bytes" where "u32_le a = le_bytes 4 (unat a)"
definition u16_le :: "u16 \<Rightarrow> bytes" where "u16_le a = le_bytes 2 (unat a)"
definition u64_from_le :: "bytes \<Rightarrow> u64" where "u64_from_le bs = word_of_nat (le_val bs)"
definition u32_from_le :: "bytes \<Rightarrow> u32" where "u32_from_le bs = word_of_nat (le_val bs)"
definition u16_from_le :: "bytes \<Rightarrow> u16" where "u16_from_le bs = word_of_nat (le_val bs)"
definition u64_from_be :: "bytes \<Rightarrow> u64" where "u64_from_be bs = word_of_nat (le_val (rev bs))"

lemma length_le_bytes [simp]: "length (le_bytes n x) = n"
  by (induction n arbitrary: x) auto

lemma length_u64_le [simp]: "length (u64_le a) = 8"
  by (simp add: u64_le_def)

lemma length_u32_le [simp]: "length (u32_le a) = 4"
  by (simp add: u32_le_def)

lemma length_u16_le [simp]: "length (u16_le a) = 2"
  by (simp add: u16_le_def)

lemma le_val_bound: "le_val bs < 256 ^ length bs"
proof (induction bs)
  case Nil
  then show ?case by simp
next
  case (Cons b bs)
  have "unat b < 256" using unat_lt_exp [of b] by simp
  with Cons show ?case by simp
qed

lemma unat_byte: "unat (word_of_nat (x mod 256) :: u8) = x mod 256"
  by (simp add: unat_of_nat)

lemma le_val_le_bytes: "le_val (le_bytes n x) = x mod 256 ^ n"
proof (induction n arbitrary: x)
  case 0
  then show ?case by simp
next
  case (Suc n)
  have "le_val (le_bytes (Suc n) x) = x mod 256 + 256 * (x div 256 mod 256 ^ n)"
    using Suc by (simp add: unat_byte)
  also have "\<dots> = x mod 256 ^ Suc n"
    by (simp add: mod_mult2_eq)
  finally show ?case .
qed

lemma le_bytes_le_val: "length bs = n \<Longrightarrow> le_bytes n (le_val bs) = bs"
proof (induction bs arbitrary: n)
  case Nil
  then show ?case by simp
next
  case (Cons b bs)
  have "unat b < 256" using unat_lt_exp [of b] by simp
  with Cons show ?case by auto
qed

lemma u64_from_le_u64_le [simp]: "u64_from_le (u64_le a) = a"
proof -
  have "unat a mod 256 ^ 8 = unat a" using unat_lt_exp [of a] by simp
  then show ?thesis by (simp add: u64_from_le_def u64_le_def le_val_le_bytes)
qed

lemma u32_from_le_u32_le [simp]: "u32_from_le (u32_le a) = a"
proof -
  have "unat a mod 256 ^ 4 = unat a" using unat_lt_exp [of a] by simp
  then show ?thesis by (simp add: u32_from_le_def u32_le_def le_val_le_bytes)
qed

lemma u16_from_le_u16_le [simp]: "u16_from_le (u16_le a) = a"
proof -
  have "unat a mod 256 ^ 2 = unat a" using unat_lt_exp [of a] by simp
  then show ?thesis by (simp add: u16_from_le_def u16_le_def le_val_le_bytes)
qed

lemma u64_le_u64_from_le: "length bs = 8 \<Longrightarrow> u64_le (u64_from_le bs) = bs"
  using le_val_bound [of bs] by (simp add: u64_le_def u64_from_le_def unat_of_nat le_bytes_le_val)

lemma u32_le_u32_from_le: "length bs = 4 \<Longrightarrow> u32_le (u32_from_le bs) = bs"
  using le_val_bound [of bs] by (simp add: u32_le_def u32_from_le_def unat_of_nat le_bytes_le_val)

lemma u16_le_u16_from_le: "length bs = 2 \<Longrightarrow> u16_le (u16_from_le bs) = bs"
  using le_val_bound [of bs] by (simp add: u16_le_def u16_from_le_def unat_of_nat le_bytes_le_val)

lemma u64_le_inject [simp]: "u64_le a = u64_le b \<longleftrightarrow> a = b"
  by (metis u64_from_le_u64_le)

text \<open>The slice_at \<open>&b[at..at + n]\<close>, for ranges the caller has checked.\<close>

definition slice_at :: "nat \<Rightarrow> nat \<Rightarrow> 'a list \<Rightarrow> 'a list" where
  "slice_at at n xs = take n (drop at xs)"

lemma length_slice_at [simp]: "at + n \<le> length xs \<Longrightarrow> length (slice_at at n xs) = n"
  by (simp add: slice_at_def)

lemma slice_at_0_append: "length xs = n \<Longrightarrow> slice_at 0 n (xs @ ys) = xs"
  by (simp add: slice_at_def)

lemma slice_at_append: "length xs \<le> at \<Longrightarrow> slice_at at n (xs @ ys) = slice_at (at - length xs) n ys"
  by (simp add: slice_at_def)

lemma slice_at_Cons: "0 < at \<Longrightarrow> slice_at at n (x # xs) = slice_at (at - 1) n xs"
  by (cases at) (simp_all add: slice_at_def)

lemma drop_slice_at: "drop a xs = slice_at a n xs @ drop (a + n) xs"
  by (simp add: slice_at_def) (metis append_take_drop_id drop_drop add.commute)

lemma slice_at_1: "a < length xs \<Longrightarrow> slice_at a 1 xs = [xs ! a]"
  by (simp add: slice_at_def take_Suc_conv_app_nth hd_drop_conv_nth take_Suc)

section \<open>Maps of the standard library\<close>

text \<open>
  A keyed store: reading after an insertion or a removal, and a size that counts the keys. The
  conclusions say how the size moves, which is what every capped table of the program needs.
\<close>

locale keyed_store =
  fixes get :: "'m \<Rightarrow> 'k \<Rightarrow> 'v option"
    and put :: "'k \<Rightarrow> 'v \<Rightarrow> 'm \<Rightarrow> 'm"
    and del :: "'k \<Rightarrow> 'm \<Rightarrow> 'm"
    and size_of :: "'m \<Rightarrow> nat"
    and ok :: "'m \<Rightarrow> bool"
  assumes get_put: "get (put k v m) = (get m)(k \<mapsto> v)"
    and get_del: "get (del k m) = (get m)(k := None)"
    and ok_put: "ok m \<Longrightarrow> ok (put k v m)"
    and ok_del: "ok m \<Longrightarrow> ok (del k m)"
    and fin: "finite (dom (get m))"
    and size_card: "ok m \<Longrightarrow> size_of m = card (dom (get m))"
begin

lemma get_put_same: "get (put k v m) k = Some v"
  by (simp add: get_put)

lemma get_put_other: "k' \<noteq> k \<Longrightarrow> get (put k v m) k' = get m k'"
  by (simp add: get_put)

lemma size_put_new: "ok m \<Longrightarrow> get m k = None \<Longrightarrow> size_of (put k v m) = Suc (size_of m)"
  using fin [of m] by (simp add: size_card ok_put get_put card_insert_if domIff)

lemma size_put_old:
  assumes "ok m" and "get m k \<noteq> None"
  shows "size_of (put k v m) = size_of m"
proof -
  from assms(2) have "k \<in> dom (get m)" by auto
  then have "insert k (dom (get m)) = dom (get m)" by auto
  with assms show ?thesis by (simp add: size_card ok_put get_put)
qed

lemma size_put_le: "ok m \<Longrightarrow> size_of (put k v m) \<le> Suc (size_of m)"
  using size_put_new [of m k v] size_put_old [of m k v] by (cases "get m k") auto

lemma size_del: "ok m \<Longrightarrow> size_of (del k m) = (if get m k = None then size_of m else size_of m - 1)"
proof -
  assume ok: "ok m"
  have d: "dom (get (del k m)) = dom (get m) - {k}" by (auto simp: get_del)
  show ?thesis
  proof (cases "get m k")
    case None
    then have "dom (get m) - {k} = dom (get m)" by auto
    with ok None d show ?thesis by (simp add: size_card ok_del)
  next
    case (Some v)
    then have "k \<in> dom (get m)" by auto
    then have "card (dom (get m) - {k}) = card (dom (get m)) - 1"
      by (rule card_Diff_singleton)
    with ok Some d show ?thesis by (simp add: size_card ok_del)
  qed
qed

lemma size_del_le: "ok m \<Longrightarrow> size_of (del k m) \<le> size_of m"
  by (simp add: size_del)

end

text \<open>\<open>HashMap\<close>: an association list with distinct keys; nothing reads its order.\<close>

definition hm_ok :: "('k \<times> 'v) list \<Rightarrow> bool" where
  "hm_ok m \<longleftrightarrow> distinct (map fst m)"

lemma length_card_dom: "distinct (map fst m) \<Longrightarrow> length m = card (dom (map_of m))"
  by (metis distinct_card dom_map_of_conv_image_fst length_map list.set_map)

interpretation hm: keyed_store map_of AList.update AList.delete length hm_ok
proof unfold_locales
  show "map_of (AList.update k v m) = (map_of m)(k \<mapsto> v)" for k v and m :: "('a \<times> 'b) list"
    by (simp add: update_conv')
  show "map_of (AList.delete k m) = (map_of m)(k := None)" for k and m :: "('a \<times> 'b) list"
    by (simp add: delete_conv')
  show "hm_ok m \<Longrightarrow> hm_ok (AList.update k v m)" for k v and m :: "('a \<times> 'b) list"
    by (simp add: hm_ok_def distinct_update)
  show "hm_ok m \<Longrightarrow> hm_ok (AList.delete k m)" for k and m :: "('a \<times> 'b) list"
    by (simp add: hm_ok_def distinct_delete)
  show "finite (dom (map_of m))" for m :: "('a \<times> 'b) list"
    by (rule finite_dom_map_of)
  show "hm_ok m \<Longrightarrow> length m = card (dom (map_of m))" for m :: "('a \<times> 'b) list"
    by (simp add: hm_ok_def length_card_dom)
qed

text \<open>\<open>BTreeMap\<close>: a list sorted by key, so that iteration is in key order.\<close>

fun bt_insert :: "'k::linorder \<Rightarrow> 'v \<Rightarrow> ('k \<times> 'v) list \<Rightarrow> ('k \<times> 'v) list" where
  "bt_insert k v [] = [(k, v)]"
| "bt_insert k v ((k', v') # m) =
     (if k < k' then (k, v) # (k', v') # m
      else if k = k' then (k, v) # m
      else (k', v') # bt_insert k v m)"

definition bt_remove :: "'k::linorder \<Rightarrow> ('k \<times> 'v) list \<Rightarrow> ('k \<times> 'v) list" where
  "bt_remove k m = filter (\<lambda>(k', v). k' \<noteq> k) m"

definition bt_retain :: "('k \<Rightarrow> 'v \<Rightarrow> bool) \<Rightarrow> ('k \<times> 'v) list \<Rightarrow> ('k \<times> 'v) list" where
  "bt_retain p m = filter (\<lambda>(k, v). p k v) m"

definition bt_ok :: "('k::linorder \<times> 'v) list \<Rightarrow> bool" where
  "bt_ok m \<longleftrightarrow> sorted_wrt (<) (map fst m)"

text \<open>\<open>entry(k).or_insert(v)\<close>.\<close>

definition bt_or_insert :: "'k::linorder \<Rightarrow> 'v \<Rightarrow> ('k \<times> 'v) list \<Rightarrow> ('k \<times> 'v) list" where
  "bt_or_insert k v m = (case map_of m k of None \<Rightarrow> bt_insert k v m | Some _ \<Rightarrow> m)"

lemma set_bt_insert_keys [simp]: "fst ` set (bt_insert k v m) = insert k (fst ` set m)"
  by (induction k v m rule: bt_insert.induct) auto

lemma bt_ok_distinct: "bt_ok m \<Longrightarrow> distinct (map fst m)"
  by (simp add: bt_ok_def strict_sorted_iff)

lemma bt_ok_Cons: "bt_ok ((k, v) # m) \<longleftrightarrow> (\<forall>k' \<in> fst ` set m. k < k') \<and> bt_ok m"
  by (auto simp: bt_ok_def)

lemma bt_ok_Nil [simp]: "bt_ok []"
  by (simp add: bt_ok_def)

lemma bt_insert_mem: "x \<in> set (bt_insert k v m) \<Longrightarrow> x = (k, v) \<or> x \<in> set m"
  by (induction k v m rule: bt_insert.induct) (auto split: if_splits)

lemma bt_ok_insert: "bt_ok m \<Longrightarrow> bt_ok (bt_insert k v m)"
  by (induction k v m rule: bt_insert.induct) (auto simp: bt_ok_Cons)

lemma bt_ok_filter: "bt_ok m \<Longrightarrow> bt_ok (filter p m)"
  by (induction m) (auto simp: bt_ok_Cons split_paired_all)

lemma map_of_bt_insert: "map_of (bt_insert k v m) = (map_of m)(k \<mapsto> v)"
  by (induction k v m rule: bt_insert.induct) auto

lemma map_of_filter_keys:
  "map_of (filter (\<lambda>(k, v). P k) m) = (\<lambda>k. if P k then map_of m k else None)"
  by (induction m) auto

lemma map_of_bt_remove: "map_of (bt_remove k m) = (map_of m)(k := None)"
  unfolding bt_remove_def by (auto simp: map_of_filter_keys)

interpretation bt: keyed_store map_of bt_insert bt_remove length bt_ok
proof unfold_locales
  show "map_of (bt_insert k v m) = (map_of m)(k \<mapsto> v)" for k :: "'a::linorder" and v :: 'b and m
    by (rule map_of_bt_insert)
  show "map_of (bt_remove k m) = (map_of m)(k := None)" for k :: 'a and m :: "('a \<times> 'b) list"
    by (rule map_of_bt_remove)
  show "bt_ok m \<Longrightarrow> bt_ok (bt_insert k v m)" for k :: 'a and v :: 'b and m
    by (rule bt_ok_insert)
  show "bt_ok m \<Longrightarrow> bt_ok (bt_remove k m)" for k :: 'a and m :: "('a \<times> 'b) list"
    by (simp add: bt_remove_def bt_ok_filter)
  show "finite (dom (map_of m))" for m :: "('a \<times> 'b) list"
    by (rule finite_dom_map_of)
  show "bt_ok m \<Longrightarrow> length m = card (dom (map_of m))" for m :: "('a \<times> 'b) list"
    by (simp add: bt_ok_distinct length_card_dom)
qed

lemma bt_ok_or_insert: "bt_ok m \<Longrightarrow> bt_ok (bt_or_insert k v m)"
  by (simp add: bt_or_insert_def bt_ok_insert split: option.splits)

lemma map_of_bt_or_insert:
  "map_of (bt_or_insert k v m) = (map_of m)(k \<mapsto> (case map_of m k of None \<Rightarrow> v | Some v' \<Rightarrow> v'))"
  by (auto simp: bt_or_insert_def map_of_bt_insert fun_upd_idem_iff split: option.splits)

lemma bt_ok_mem: "bt_ok m \<Longrightarrow> (k, v) \<in> set m \<longleftrightarrow> map_of m k = Some v"
  using bt_ok_distinct map_of_eq_Some_iff by metis

lemma bt_ok_remove: "bt_ok m \<Longrightarrow> bt_ok (bt_remove k m)"
  by (simp add: bt_remove_def bt_ok_filter)

lemma bt_ok_retain: "bt_ok m \<Longrightarrow> bt_ok (bt_retain p m)"
  by (simp add: bt_retain_def bt_ok_filter)

lemma map_of_bt_retain_keys:
  "map_of (bt_retain (\<lambda>k v. P k) m) k = (if P k then map_of m k else None)"
  by (simp add: bt_retain_def map_of_filter_keys)

text \<open>\<open>iter().position(..)\<close>: the index of the first element that passes.\<close>

fun position :: "('a \<Rightarrow> bool) \<Rightarrow> 'a list \<Rightarrow> nat option" where
  "position p [] = None"
| "position p (x # xs) = (if p x then Some 0 else map_option Suc (position p xs))"

lemma position_None: "position p xs = None \<longleftrightarrow> (\<forall>x \<in> set xs. \<not> p x)"
  by (induction xs) auto

lemma position_Some: "position p xs = Some i \<Longrightarrow> i < length xs \<and> p (xs ! i) \<and> (\<forall>j < i. \<not> p (xs ! j))"
proof (induction xs arbitrary: i)
  case (Cons x xs)
  then show ?case by (auto simp: nth_Cons' less_Suc_eq_0_disj split: if_splits)
qed simp

lemma find_update:
  assumes "distinct (map f xs)" and "i < length xs" and "f y = f (xs ! i)"
  shows "find (\<lambda>x. f x = c) (xs[i := y]) = (if c = f y then Some y else find (\<lambda>x. f x = c) xs)"
  using assms
proof (induction xs arbitrary: i)
  case (Cons x xs)
  then show ?case by (cases i) (auto split: if_splits)
qed simp

lemma find_nth:
  "distinct (map f xs) \<Longrightarrow> i < length xs \<Longrightarrow> find (\<lambda>x. f x = f (xs ! i)) xs = Some (xs ! i)"
  using find_update [of f xs i "xs ! i" "f (xs ! i)"] by simp

lemma find_append:
  "find p (xs @ ys) = (case find p xs of Some x \<Rightarrow> Some x | None \<Rightarrow> find p ys)"
  by (induction xs) auto

lemma map_f_update: "f y = f (xs ! i) \<Longrightarrow> map f (xs[i := y]) = map f xs"
  by (metis list_update_id map_update)

section \<open>Capped deques\<close>

text \<open>
  Three components keep the last \<open>cap\<close> things they saw: \<open>push_back\<close>, then
  \<open>pop_front\<close> while the deque is longer than its cap. The interface says what one push does
  to the contents; the conclusions are about any run of pushes.
\<close>

definition last_n :: "nat \<Rightarrow> 'a list \<Rightarrow> 'a list" where
  "last_n n xs = drop (length xs - n) xs"

lemma length_last_n [simp]: "length (last_n n xs) = min n (length xs)"
  by (auto simp: last_n_def)

lemma last_n_all [simp]: "length xs \<le> n \<Longrightarrow> last_n n xs = xs"
  by (simp add: last_n_def)

lemma last_n_last_n_append: "last_n n (last_n n xs @ ys) = last_n n (xs @ ys)"
proof (cases "length xs \<le> n")
  case False
  then have "length xs + length ys - (length xs - n + n) + (length xs - n) = length xs + length ys - n"
    by simp
  with False show ?thesis by (simp add: last_n_def)
qed simp

text \<open>The loop \<open>while len > n { pop_front }\<close>.\<close>

function pop_front_to :: "nat \<Rightarrow> 'a list \<Rightarrow> 'a list" where
  "pop_front_to n xs = (if length xs > n then pop_front_to n (tl xs) else xs)"
  by auto
termination by (relation "measure (\<lambda>(n, xs). length xs)") auto

declare pop_front_to.simps [simp del]

lemma pop_front_to_last_n: "pop_front_to n xs = last_n n xs"
proof (induction n xs rule: pop_front_to.induct)
  case (1 n xs)
  show ?case
  proof (cases "length xs > n")
    case True
    then obtain x ys where "xs = x # ys" by (cases xs) auto
    with 1 True show ?thesis by (subst pop_front_to.simps) (simp add: last_n_def Suc_diff_le)
  next
    case False
    then show ?thesis by (subst pop_front_to.simps) simp
  qed
qed

locale capped_deque =
  fixes push :: "'a \<Rightarrow> 'w \<Rightarrow> 'w"
    and contents :: "'w \<Rightarrow> 'a list"
    and cap :: "'w \<Rightarrow> nat"
  assumes contents_push: "contents (push x w) = last_n (cap w) (contents w @ [x])"
    and cap_push: "cap (push x w) = cap w"
begin

lemma cap_run: "cap (fold push xs w) = cap w"
  by (induction xs arbitrary: w) (simp_all add: cap_push)

lemma length_push: "length (contents (push x w)) \<le> cap w"
  by (simp add: contents_push)

lemma contents_run:
  assumes "length (contents w) \<le> cap w"
  shows "contents (fold push xs w) = last_n (cap w) (contents w @ xs)"
  using assms
proof (induction xs arbitrary: w)
  case Nil
  then show ?case by simp
next
  case (Cons x xs)
  have "contents (fold push (x # xs) w) = last_n (cap w) (contents (push x w) @ xs)"
    using Cons.IH [of "push x w"] by (simp add: cap_push length_push)
  then show ?case by (simp add: contents_push last_n_last_n_append)
qed

lemma length_run: "length (contents w) \<le> cap w \<Longrightarrow> length (contents (fold push xs w)) \<le> cap w"
  by (simp add: contents_run)

end

end
