(* ===== verification/Committee.thy ===== *)
theory Committee
  imports Prelude
begin

text \<open>
  The finality committee of \<open>qlab-devnet/src/committee.rs\<close>: the ordered member keys and the
  two-thirds quorum, checkpoints and their signing message, votes, and the mutable operational
  state (status, bond, cumulative slash) with its two penalties. ML-DSA-65 is not code of the
  repository: a signature check is the argument \<open>verify key message signature\<close>, and keys and
  signatures are the type variables \<open>'k\<close> and \<open>'s\<close>.
\<close>

type_synonym ('k, 's) verifier = "'k \<Rightarrow> bytes \<Rightarrow> 's \<Rightarrow> bool"

text \<open>\<open>b"qumbra:checkpoint:v1"\<close>\<close>

definition checkpoint_domain :: bytes where
  "checkpoint_domain = [113, 117, 109, 98, 114, 97, 58, 99, 104, 101, 99, 107, 112, 111, 105, 110, 116, 58, 118, 49]"

definition quorum_threshold :: "nat \<Rightarrow> nat" where
  "quorum_threshold n = (2 * n) div 3 + 1"

record 'k committee =
  members :: "'k list"

definition committee_size :: "'k committee \<Rightarrow> nat" where
  "committee_size c = length (members c)"

definition committee_quorum :: "'k committee \<Rightarrow> nat" where
  "committee_quorum c = quorum_threshold (length (members c))"

definition committee_member :: "'k committee \<Rightarrow> nat \<Rightarrow> 'k option" where
  "committee_member c idx = (if idx < length (members c) then Some (members c ! idx) else None)"

record checkpoint =
  cp_height :: u64
  cp_block_hash :: hash32
  cp_root :: hash32

definition signing_message :: "checkpoint \<Rightarrow> bytes" where
  "signing_message cp = checkpoint_domain @ u64_le (cp_height cp) @ cp_block_hash cp @ cp_root cp"

record 's vote =
  signer :: nat
  signature :: 's

definition verify_vote :: "('k, 's) verifier \<Rightarrow> 'k committee \<Rightarrow> checkpoint \<Rightarrow> 's vote \<Rightarrow> bool" where
  "verify_vote verify c cp v =
    (case committee_member c (signer v) of
       Some key \<Rightarrow> verify key (signing_message cp) (signature v)
     | None \<Rightarrow> False)"

datatype member_status = Active | Jailed u64 | Tombstoned

record 'k committee_state =
  cs_committee :: "'k committee"
  cs_status :: "member_status list"
  cs_bond :: "u64 list"
  cs_slashed :: "u64 list"

definition committee_state_new :: "'k committee \<Rightarrow> u64 \<Rightarrow> 'k committee_state" where
  "committee_state_new c bond_each =
    (let n = committee_size c
     in \<lparr>cs_committee = c, cs_status = replicate n Active, cs_bond = replicate n bond_each,
         cs_slashed = replicate n 0\<rparr>)"

text \<open>\<open>from_parts\<close> asserts that the parts agree in length; a failed assertion is \<open>None\<close>.\<close>

definition from_parts ::
  "'k committee \<Rightarrow> member_status list \<Rightarrow> u64 list \<Rightarrow> u64 list \<Rightarrow> 'k committee_state option" where
  "from_parts c status bond slashed =
    (let n = committee_size c
     in if length status = n \<and> length bond = n \<and> length slashed = n
        then Some \<lparr>cs_committee = c, cs_status = status, cs_bond = bond, cs_slashed = slashed\<rparr>
        else None)"

definition cs_size :: "'k committee_state \<Rightarrow> nat" where
  "cs_size s = committee_size (cs_committee s)"

definition status_at :: "'k committee_state \<Rightarrow> nat \<Rightarrow> member_status option" where
  "status_at s idx = (if idx < length (cs_status s) then Some (cs_status s ! idx) else None)"

definition bond_at :: "'k committee_state \<Rightarrow> nat \<Rightarrow> u64 option" where
  "bond_at s idx = (if idx < length (cs_bond s) then Some (cs_bond s ! idx) else None)"

definition slashed_at :: "'k committee_state \<Rightarrow> nat \<Rightarrow> u64 option" where
  "slashed_at s idx = (if idx < length (cs_slashed s) then Some (cs_slashed s ! idx) else None)"

definition is_active :: "'k committee_state \<Rightarrow> nat \<Rightarrow> u64 \<Rightarrow> bool" where
  "is_active s idx height =
    (case status_at s idx of
       Some Active \<Rightarrow> True
     | Some (Jailed until_height) \<Rightarrow> height \<ge> until_height
     | _ \<Rightarrow> False)"

definition active_count :: "'k committee_state \<Rightarrow> u64 \<Rightarrow> nat" where
  "active_count s height = length (filter (\<lambda>i. is_active s i height) [0..<cs_size s])"

text \<open>The two penalties return whether they changed the state, and the state.\<close>

definition tombstone :: "'k committee_state \<Rightarrow> nat \<Rightarrow> u64 \<Rightarrow> bool \<times> 'k committee_state" where
  "tombstone s idx amount =
    (if idx \<ge> cs_size s \<or> cs_status s ! idx = Tombstoned then (False, s)
     else
       let slash = min amount (cs_bond s ! idx)
       in (True, s\<lparr>cs_bond := (cs_bond s)[idx := cs_bond s ! idx - slash],
                   cs_slashed := (cs_slashed s)[idx := cs_slashed s ! idx + slash],
                   cs_status := (cs_status s)[idx := Tombstoned]\<rparr>))"

definition jail :: "'k committee_state \<Rightarrow> nat \<Rightarrow> u64 \<Rightarrow> bool \<times> 'k committee_state" where
  "jail s idx until_height =
    (if idx \<ge> cs_size s \<or> cs_status s ! idx = Tombstoned then (False, s)
     else (True, s\<lparr>cs_status := (cs_status s)[idx := Jailed until_height]\<rparr>))"

section \<open>The quorum\<close>

text \<open>
  What a quorum rule owes its clients: any two quorums of one committee share more members than
  a third of it can hold. The finality theorems use only this.
\<close>

locale quorum_rule =
  fixes need :: "nat \<Rightarrow> nat"
  assumes two_thirds: "2 * n < 3 * need n"
begin

lemma quorums_overlap:
  assumes "A \<subseteq> {..<n}" and "B \<subseteq> {..<n}" and "need n \<le> card A" and "need n \<le> card B"
  shows "n < 3 * card (A \<inter> B)"
proof -
  have fin: "finite A" "finite B" using assms(1,2) finite_subset by auto
  have "card (A \<union> B) \<le> n"
    using assms(1,2) card_mono [of "{..<n}" "A \<union> B"] by simp
  moreover have "card A + card B = card (A \<union> B) + card (A \<inter> B)"
    using fin by (rule card_Un_Int)
  ultimately show ?thesis using two_thirds [of n] assms(3,4) by linarith
qed

lemma quorum_majority: "n < 2 * need n"
  using two_thirds [of n] by linarith

end

interpretation quorum: quorum_rule quorum_threshold
  by unfold_locales (simp add: quorum_threshold_def)

lemma quorum_threshold_le: "0 < n \<Longrightarrow> quorum_threshold n \<le> n"
  by (simp add: quorum_threshold_def)

section \<open>Signing messages\<close>

definition wf_checkpoint :: "checkpoint \<Rightarrow> bool" where
  "wf_checkpoint cp \<longleftrightarrow> is_hash32 (cp_block_hash cp) \<and> is_hash32 (cp_root cp)"

lemma signing_message_inject:
  assumes "wf_checkpoint a" and "wf_checkpoint b" and "signing_message a = signing_message b"
  shows "a = b"
  using assms by (auto simp: signing_message_def wf_checkpoint_def is_hash32_def intro: checkpoint.equality)

section \<open>The state's shape and its penalties\<close>

definition wf_committee_state :: "'k committee_state \<Rightarrow> bool" where
  "wf_committee_state s \<longleftrightarrow>
     length (cs_status s) = cs_size s \<and> length (cs_bond s) = cs_size s \<and> length (cs_slashed s) = cs_size s"

lemma wf_committee_state_new [simp]: "wf_committee_state (committee_state_new c b)"
  by (simp add: wf_committee_state_def committee_state_new_def cs_size_def Let_def)

lemma wf_from_parts: "from_parts c st b sl = Some s \<Longrightarrow> wf_committee_state s"
  by (auto simp: from_parts_def wf_committee_state_def cs_size_def Let_def split: if_splits)

lemma tombstone_frame [simp]:
  "cs_committee (snd (tombstone s i a)) = cs_committee s" "cs_size (snd (tombstone s i a)) = cs_size s"
  by (simp_all add: tombstone_def cs_size_def Let_def)

lemma jail_frame [simp]:
  "cs_committee (snd (jail s i h)) = cs_committee s" "cs_size (snd (jail s i h)) = cs_size s"
  "cs_bond (snd (jail s i h)) = cs_bond s" "cs_slashed (snd (jail s i h)) = cs_slashed s"
  by (simp_all add: jail_def cs_size_def)

lemma wf_tombstone: "wf_committee_state s \<Longrightarrow> wf_committee_state (snd (tombstone s i a))"
  unfolding wf_committee_state_def tombstone_frame by (simp add: tombstone_def Let_def)

lemma wf_jail: "wf_committee_state s \<Longrightarrow> wf_committee_state (snd (jail s i h))"
  unfolding wf_committee_state_def jail_frame by (simp add: jail_def)

text \<open>The penalties as one machine, for statements about any sequence of them.\<close>

datatype penalty = Tombstone nat u64 | Jail nat u64

fun penalize_step :: "penalty \<Rightarrow> 'k committee_state \<Rightarrow> 'k committee_state" where
  "penalize_step (Tombstone i a) s = snd (tombstone s i a)"
| "penalize_step (Jail i h) s = snd (jail s i h)"

definition penalties :: "penalty list \<Rightarrow> 'k committee_state \<Rightarrow> 'k committee_state" where
  "penalties ps s = fold penalize_step ps s"

lemma penalties_Nil [simp]: "penalties [] s = s"
  by (simp add: penalties_def)

lemma penalties_Cons [simp]: "penalties (p # ps) s = penalties ps (penalize_step p s)"
  by (simp add: penalties_def)

lemma penalize_step_frame [simp]:
  "cs_committee (penalize_step p s) = cs_committee s" "cs_size (penalize_step p s) = cs_size s"
  by (cases p; simp)+

lemma wf_penalize_step: "wf_committee_state s \<Longrightarrow> wf_committee_state (penalize_step p s)"
  by (cases p) (simp_all add: wf_tombstone wf_jail)

lemma wf_penalties: "wf_committee_state s \<Longrightarrow> wf_committee_state (penalties ps s)"
  by (induction ps arbitrary: s) (simp_all add: wf_penalize_step)

lemma tombstone_stake:
  assumes "wf_committee_state s" and "j < cs_size s"
    and "unat (cs_bond s ! j) + unat (cs_slashed s ! j) < 2 ^ 64"
  shows "unat (cs_bond (snd (tombstone s i a)) ! j) + unat (cs_slashed (snd (tombstone s i a)) ! j)
      = unat (cs_bond s ! j) + unat (cs_slashed s ! j)
    \<and> cs_bond (snd (tombstone s i a)) ! j \<le> cs_bond s ! j"
proof -
  define sl where "sl = min a (cs_bond s ! j)"
  have le: "sl \<le> cs_bond s ! j" by (simp add: sl_def)
  then have sub: "unat (cs_bond s ! j - sl) = unat (cs_bond s ! j) - unat sl"
    by (rule unat_sub_le)
  have le': "unat sl \<le> unat (cs_bond s ! j)" using le by (simp add: word_le_nat_alt)
  then have add: "unat (cs_slashed s ! j + sl) = unat (cs_slashed s ! j) + unat sl"
    using assms(3) by (intro unat_add_small) simp
  show ?thesis
    using assms(1,2) sub add le' by (auto simp: tombstone_def wf_committee_state_def Let_def nth_list_update sl_def word_le_nat_alt)
qed

lemma penalize_step_stake:
  assumes "wf_committee_state s" and "j < cs_size s"
    and "unat (cs_bond s ! j) + unat (cs_slashed s ! j) < 2 ^ 64"
  shows "unat (cs_bond (penalize_step p s) ! j) + unat (cs_slashed (penalize_step p s) ! j)
      = unat (cs_bond s ! j) + unat (cs_slashed s ! j)
    \<and> cs_bond (penalize_step p s) ! j \<le> cs_bond s ! j"
  using tombstone_stake [OF assms] by (cases p) simp_all

lemma penalize_step_tombstoned:
  assumes "wf_committee_state s" and "j < cs_size s" and "cs_status s ! j = Tombstoned"
  shows "cs_status (penalize_step p s) ! j = Tombstoned
    \<and> cs_bond (penalize_step p s) ! j = cs_bond s ! j \<and> cs_slashed (penalize_step p s) ! j = cs_slashed s ! j"
proof (cases p)
  case (Tombstone i a)
  with assms show ?thesis by (cases "i = j") (simp_all add: tombstone_def Let_def)
next
  case (Jail i h)
  with assms show ?thesis by (cases "i = j") (simp_all add: jail_def)
qed

section \<open>Properties\<close>

text \<open>no sequence of penalties creates or destroys stake: for every member the bond and the
  cumulative slash always add up to what they were, the addition never wraps, and the bond never
  grows.\<close>

theorem penalties_conserve_stake:
  assumes "wf_committee_state s" and "j < cs_size s"
    and "unat (cs_bond s ! j) + unat (cs_slashed s ! j) < 2 ^ 64"
  shows "unat (cs_bond (penalties ps s) ! j) + unat (cs_slashed (penalties ps s) ! j)
      = unat (cs_bond s ! j) + unat (cs_slashed s ! j)
    \<and> cs_bond (penalties ps s) ! j \<le> cs_bond s ! j"
  using assms
proof (induction ps arbitrary: s)
  case Nil
  then show ?case by simp
next
  case (Cons p ps)
  note step = penalize_step_stake [OF Cons.prems, of p]
  have "unat (cs_bond (penalties ps (penalize_step p s)) ! j) + unat (cs_slashed (penalties ps (penalize_step p s)) ! j)
      = unat (cs_bond (penalize_step p s) ! j) + unat (cs_slashed (penalize_step p s) ! j)
    \<and> cs_bond (penalties ps (penalize_step p s)) ! j \<le> cs_bond (penalize_step p s) ! j"
    using Cons.prems step by (intro Cons.IH) (simp_all add: wf_penalize_step)
  then show ?case unfolding penalties_Cons using step by (elim conjE) (intro conjI, simp, erule order_trans, assumption)
qed

lemma penalties_conserve_stake_witness:
  "let s = committee_state_new \<lparr>members = [1, 2 :: nat]\<rparr> 100;
       s' = penalties [Tombstone 0 30, Jail 1 9, Tombstone 0 30] s
   in unat (cs_bond s' ! 0) + unat (cs_slashed s' ! 0) = unat (cs_bond s ! 0) + unat (cs_slashed s ! 0)
      \<and> cs_bond s' ! 0 \<le> cs_bond s ! 0"
  unfolding Let_def
  by (rule penalties_conserve_stake)
    (simp_all add: cs_size_def committee_state_new_def committee_size_def wf_committee_state_def Let_def)

text \<open>a tombstone is permanent: after it no sequence of penalties (a jail included) makes the
  member active at any height, and its bond and slash are frozen.\<close>

theorem tombstone_permanent:
  assumes "wf_committee_state s" and "j < cs_size s"
    and "s' = penalties ps (snd (tombstone s j a))"
  shows "status_at s' j = Some Tombstoned \<and> \<not> is_active s' j h
    \<and> cs_bond s' ! j = cs_bond (snd (tombstone s j a)) ! j
    \<and> cs_slashed s' ! j = cs_slashed (snd (tombstone s j a)) ! j"
proof -
  have inv: "cs_status (penalties ps s0) ! j = Tombstoned \<and> cs_bond (penalties ps s0) ! j = cs_bond s0 ! j
      \<and> cs_slashed (penalties ps s0) ! j = cs_slashed s0 ! j \<and> j < length (cs_status (penalties ps s0))"
    if "wf_committee_state s0" "j < cs_size s0" "cs_status s0 ! j = Tombstoned" for s0
    using that
  proof (induction ps arbitrary: s0)
    case Nil
    then show ?case by (simp add: wf_committee_state_def)
  next
    case (Cons p ps)
    note st = penalize_step_tombstoned [OF Cons.prems, of p]
    with Cons.prems Cons.IH [of "penalize_step p s0"] show ?case by (simp add: wf_penalize_step)
  qed
  have "cs_status (snd (tombstone s j a)) ! j = Tombstoned"
    using assms(1,2) by (auto simp: tombstone_def wf_committee_state_def Let_def)
  with inv [of "snd (tombstone s j a)"] assms show ?thesis
    by (simp add: wf_tombstone status_at_def is_active_def)
qed

lemma tombstone_permanent_witness:
  "\<not> is_active (penalties [Jail 0 5] (snd (tombstone (committee_state_new \<lparr>members = [1, 2 :: nat]\<rparr> 100) 0 10))) 0 1000"
proof -
  define s where "s = committee_state_new \<lparr>members = [1, 2 :: nat]\<rparr> 100"
  have "wf_committee_state s" by (simp add: s_def)
  moreover have "0 < cs_size s" by (simp add: s_def cs_size_def committee_state_new_def committee_size_def Let_def)
  ultimately show ?thesis
    using tombstone_permanent [of s 0 _ "[Jail 0 5]" 10 1000, OF _ _ refl] by (fold s_def) blast
qed

end
