(* ===== verification/Finality.thy ===== *)
theory Finality
  imports Committee
begin

text \<open>
  The finality tracker of \<open>qlab-devnet/src/finality.rs\<close>: the checkpoint slots, the
  finalization gate (strictly advancing, known, distinct and valid signers, a quorum of them), and
  the anchor queries over the record of finalized checkpoints.
\<close>

definition is_checkpoint_height :: "u64 \<Rightarrow> u64 \<Rightarrow> bool" where
  "is_checkpoint_height height cadence \<longleftrightarrow> cadence \<noteq> 0 \<and> height \<noteq> 0 \<and> height mod cadence = 0"

definition next_checkpoint_height :: "u64 option \<Rightarrow> u64 \<Rightarrow> u64 \<Rightarrow> u64 option" where
  "next_checkpoint_height fin tip cadence =
    (if cadence = 0 then None
     else
       let next_slot = (case fin of Some f \<Rightarrow> (f div cadence + 1) * cadence | None \<Rightarrow> cadence)
       in if next_slot \<le> tip then Some next_slot else None)"

datatype finalize_error =
    UnknownSigner nat
  | InvalidVote nat
  | DuplicateSigner nat
  | InsufficientQuorum nat nat
  | NotAdvancing u64 u64

record finality_tracker =
  finalized :: "checkpoint list"

definition finality_new :: finality_tracker where
  "finality_new = \<lparr>finalized = []\<rparr>"

definition from_restored_checkpoint :: "checkpoint \<Rightarrow> finality_tracker" where
  "from_restored_checkpoint cp = \<lparr>finalized = [cp]\<rparr>"

definition latest :: "finality_tracker \<Rightarrow> checkpoint option" where
  "latest t = (if finalized t = [] then None else Some (last (finalized t)))"

text \<open>The vote loop; \<open>seen\<close> is the set of signers inserted so far.\<close>

fun check_votes :: "('k, 's) verifier \<Rightarrow> 'k committee \<Rightarrow> checkpoint \<Rightarrow> nat list \<Rightarrow> 's vote list
    \<Rightarrow> finalize_error + nat list" where
  "check_votes verify c cp seen [] = Ok seen"
| "check_votes verify c cp seen (v # vs) =
    (if committee_member c (signer v) = None then Err (UnknownSigner (signer v))
     else if signer v \<in> set seen then Err (DuplicateSigner (signer v))
     else if \<not> verify_vote verify c cp v then Err (InvalidVote (signer v))
     else check_votes verify c cp (signer v # seen) vs)"

definition try_finalize :: "('k, 's) verifier \<Rightarrow> finality_tracker \<Rightarrow> checkpoint \<Rightarrow> 's vote list \<Rightarrow> 'k committee
    \<Rightarrow> finalize_error + finality_tracker" where
  "try_finalize verify t cp votes c =
    (case latest t of
       Some l \<Rightarrow>
         if cp_height cp \<le> cp_height l then Err (NotAdvancing (cp_height l) (cp_height cp))
         else rbind (check_votes verify c cp [] votes) (\<lambda>seen.
           let need = committee_quorum c; have_n = length seen
           in if have_n < need then Err (InsufficientQuorum have_n need)
              else Ok (t\<lparr>finalized := finalized t @ [cp]\<rparr>))
     | None \<Rightarrow>
         rbind (check_votes verify c cp [] votes) (\<lambda>seen.
           let need = committee_quorum c; have_n = length seen
           in if have_n < need then Err (InsufficientQuorum have_n need)
              else Ok (t\<lparr>finalized := finalized t @ [cp]\<rparr>)))"

definition finalized_height :: "finality_tracker \<Rightarrow> u64 option" where
  "finalized_height t = map_option cp_height (latest t)"

definition finalized_root :: "finality_tracker \<Rightarrow> hash32 option" where
  "finalized_root t = map_option cp_root (latest t)"

definition newest_anchor :: "finality_tracker \<Rightarrow> hash32 option" where
  "newest_anchor t = finalized_root t"

definition is_root_final :: "finality_tracker \<Rightarrow> hash32 \<Rightarrow> bool" where
  "is_root_final t root \<longleftrightarrow> (\<exists>c \<in> set (finalized t). cp_root c = root)"

definition anchor_age :: "finality_tracker \<Rightarrow> hash32 \<Rightarrow> u64 option" where
  "anchor_age t root =
    (case latest t of
       None \<Rightarrow> None
     | Some l \<Rightarrow>
         let ages = map (\<lambda>c. sat_sub (cp_height l) (cp_height c)) (filter (\<lambda>c. cp_root c = root) (finalized t))
         in if ages = [] then None else Some (Min (set ages)))"

definition is_anchor_acceptable :: "finality_tracker \<Rightarrow> hash32 \<Rightarrow> u64 \<Rightarrow> bool" where
  "is_anchor_acceptable t root max_age_blocks =
    (case anchor_age t root of None \<Rightarrow> False | Some age \<Rightarrow> age \<le> max_age_blocks)"

definition is_height_final :: "finality_tracker \<Rightarrow> u64 \<Rightarrow> bool" where
  "is_height_final t height = (case finalized_height t of None \<Rightarrow> False | Some fh \<Rightarrow> height \<le> fh)"

definition finalized_tail :: "finality_tracker \<Rightarrow> nat \<Rightarrow> checkpoint list" where
  "finalized_tail t n = drop (length (finalized t) - n) (finalized t)"

section \<open>The vote loop\<close>

definition good_votes :: "('k, 's) verifier \<Rightarrow> 'k committee \<Rightarrow> checkpoint \<Rightarrow> 's vote list \<Rightarrow> bool" where
  "good_votes verify c cp vs \<longleftrightarrow>
     distinct (map signer vs) \<and> (\<forall>v \<in> set vs. verify_vote verify c cp v)"

lemma verify_vote_in_range: "verify_vote verify c cp v \<Longrightarrow> signer v < committee_size c"
  by (auto simp: verify_vote_def committee_member_def committee_size_def split: if_splits)

lemma verify_vote_member: "verify_vote verify c cp v \<Longrightarrow> committee_member c (signer v) \<noteq> None"
  by (auto simp: verify_vote_def split: option.splits)

lemma check_votes_Ok:
  "check_votes verify c cp seen vs = Ok s \<longleftrightarrow>
     s = rev (map signer vs) @ seen \<and> good_votes verify c cp vs \<and> set (map signer vs) \<inter> set seen = {}"
  by (induction vs arbitrary: seen) (auto simp: good_votes_def verify_vote_member)

text \<open>The gate as one equivalence: what a successful finalization means.\<close>

definition advances :: "finality_tracker \<Rightarrow> checkpoint \<Rightarrow> bool" where
  "advances t cp \<longleftrightarrow> (case latest t of None \<Rightarrow> True | Some l \<Rightarrow> cp_height l < cp_height cp)"

lemma try_finalize_Ok:
  "try_finalize verify t cp vs c = Ok t' \<longleftrightarrow>
     advances t cp \<and> good_votes verify c cp vs \<and> committee_quorum c \<le> length vs
     \<and> t' = t\<lparr>finalized := finalized t @ [cp]\<rparr>"
  by (auto simp: try_finalize_def advances_def check_votes_Ok Let_def not_le not_less split: option.splits if_splits)

lemma signers_card:
  assumes "good_votes verify c cp vs"
  shows "card (signer ` set vs) = length vs" and "signer ` set vs \<subseteq> {..<committee_size c}"
proof -
  have "distinct (map signer vs)" using assms by (simp add: good_votes_def)
  then show "card (signer ` set vs) = length vs" by (metis distinct_card length_map list.set_map)
  show "signer ` set vs \<subseteq> {..<committee_size c}"
    using assms verify_vote_in_range by (fastforce simp: good_votes_def)
qed

section \<open>The record of finalized checkpoints\<close>

definition wf_tracker :: "finality_tracker \<Rightarrow> bool" where
  "wf_tracker t \<longleftrightarrow> sorted_wrt (<) (map cp_height (finalized t))"

lemma wf_tracker_new [simp]: "wf_tracker finality_new" "wf_tracker (from_restored_checkpoint cp)"
  by (simp_all add: wf_tracker_def finality_new_def from_restored_checkpoint_def)

lemma wf_tracker_le_last:
  assumes "wf_tracker t" and "c \<in> set (finalized t)"
  shows "cp_height c \<le> cp_height (last (finalized t))"
  using assms by (cases "finalized t" rule: rev_cases) (auto simp: wf_tracker_def sorted_wrt_append intro: less_imp_le)

lemma wf_try_finalize:
  assumes "wf_tracker t" and "try_finalize verify t cp vs c = Ok t'"
  shows "wf_tracker t'"
proof -
  have "advances t cp" and t': "finalized t' = finalized t @ [cp]"
    using assms(2) by (auto simp: try_finalize_Ok)
  then have "\<forall>x \<in> set (finalized t). cp_height x < cp_height cp"
    using wf_tracker_le_last [OF assms(1)] by (fastforce simp: advances_def latest_def split: if_splits)
  with assms(1) show ?thesis by (simp add: wf_tracker_def t' sorted_wrt_append)
qed

text \<open>Any sequence of finalization attempts; a refused one leaves the tracker alone.\<close>

definition attempt :: "('k, 's) verifier \<Rightarrow> checkpoint \<times> 's vote list \<times> 'k committee \<Rightarrow> finality_tracker \<Rightarrow> finality_tracker" where
  "attempt verify a t = (case a of (cp, vs, c) \<Rightarrow>
     (case try_finalize verify t cp vs c of Inl e \<Rightarrow> t | Inr t' \<Rightarrow> t'))"

definition attempts :: "('k, 's) verifier \<Rightarrow> (checkpoint \<times> 's vote list \<times> 'k committee) list \<Rightarrow> finality_tracker \<Rightarrow> finality_tracker" where
  "attempts verify as t = fold (attempt verify) as t"

lemma wf_attempt: "wf_tracker t \<Longrightarrow> wf_tracker (attempt verify a t)"
  by (auto simp: attempt_def wf_try_finalize split: prod.splits sum.splits)

lemma wf_attempts: "wf_tracker t \<Longrightarrow> wf_tracker (attempts verify as t)"
  unfolding attempts_def by (induction as arbitrary: t) (simp_all add: wf_attempt)

lemma attempt_prefix: "\<exists>s. finalized (attempt verify a t) = finalized t @ s"
  by (auto simp: attempt_def try_finalize_Ok split: prod.splits sum.splits)

lemma attempts_prefix: "\<exists>s. finalized (attempts verify as t) = finalized t @ s"
  unfolding attempts_def
proof (induction as arbitrary: t)
  case (Cons a as)
  obtain s1 where "finalized (attempt verify a t) = finalized t @ s1" using attempt_prefix by blast
  moreover obtain s2 where "finalized (fold (attempt verify) as (attempt verify a t)) = finalized (attempt verify a t) @ s2"
    using Cons.IH by blast
  ultimately show ?case by simp
qed simp

section \<open>Checkpoint slots\<close>

lemma is_checkpoint_height_unat:
  "is_checkpoint_height h cadence \<longleftrightarrow> 0 < unat cadence \<and> 0 < unat h \<and> unat cadence dvd unat h"
  unfolding is_checkpoint_height_def word_mod_eq_0 word_neq_0_unat by blast

lemma next_slot_unat:
  assumes "unat f + unat cadence < 2 ^ 64"
  shows "unat ((f div cadence + 1) * cadence :: u64) = (unat f div unat cadence + 1) * unat cadence"
proof -
  have b: "unat f div unat cadence * unat cadence \<le> unat f" by (rule div_times_less_eq_dividend)
  have one: "unat (f div cadence + 1) = unat f div unat cadence + 1" if "cadence \<noteq> 0"
  proof -
    have "unat f div unat cadence \<le> unat f" by simp
    moreover have "unat cadence > 0" using that by (simp add: unat_gt_0)
    ultimately have "unat f div unat cadence + 1 < 2 ^ 64" using assms by linarith
    then show ?thesis by (subst unat_plus_1) (simp_all add: unat_div)
  qed
  show ?thesis
  proof (cases "cadence = 0")
    case False
    have "(unat f div unat cadence + 1) * unat cadence = unat f div unat cadence * unat cadence + unat cadence"
      by simp
    also have "\<dots> < 2 ^ 64" using b assms by linarith
    finally have "(unat f div unat cadence + 1) * unat cadence < 2 ^ 64" .
    then show ?thesis using False by (subst unat_mult_small) (simp_all add: one)
  qed simp
qed

lemma least_multiple_above:
  fixes f c m :: nat
  assumes "0 < c" and "c dvd m" and "f < m"
  shows "(f div c + 1) * c \<le> m"
proof -
  obtain k where m: "m = c * k" using assms(2) by (rule dvdE)
  with assms(1,3) have "f div c < k" by (metis div_less_iff_less_mult mult.commute)
  then have "(f div c + 1) * c \<le> k * c" by (intro mult_le_mono1) simp
  with m show ?thesis by (simp add: mult.commute)
qed

section \<open>Properties\<close>

text \<open>the slot the coordinator works on next is the right one: it is a checkpoint height, above
  the last finalized one and within the tip, and the least such; when none is returned, no
  checkpoint height lies between the last finalized height and the tip. The hypothesis (one more
  cadence fits in 64 bits) is what the unchecked multiplication needs.\<close>

theorem next_checkpoint_height_least:
  assumes "unat (case fin of None \<Rightarrow> 0 | Some f \<Rightarrow> f) + unat cadence < 2 ^ 64"
  shows "next_checkpoint_height fin tip cadence =
    (let slots = {h. is_checkpoint_height h cadence \<and> (case fin of None \<Rightarrow> 0 | Some f \<Rightarrow> f) < h \<and> h \<le> tip}
     in if slots = {} then None else Some (Min slots))"
proof -
  define f where "f = (case fin of None \<Rightarrow> 0 | Some f \<Rightarrow> f)"
  define s where "s = (f div cadence + 1) * cadence"
  define slots where "slots = {h. is_checkpoint_height h cadence \<and> f < h \<and> h \<le> tip}"
  have next_eq: "next_checkpoint_height fin tip cadence = (if cadence \<noteq> 0 \<and> s \<le> tip then Some s else None)"
    by (auto simp: next_checkpoint_height_def s_def f_def split: option.splits)
  have us: "unat s = (unat f div unat cadence + 1) * unat cadence"
    using assms unfolding s_def f_def [symmetric] by (rule next_slot_unat)
  have above: "s \<le> h" if "h \<in> slots" for h
    using that least_multiple_above [of "unat cadence" "unat h" "unat f"]
    by (auto simp: slots_def is_checkpoint_height_unat us word_nat_conv)
  have slot: "is_checkpoint_height s cadence \<and> f < s" if "cadence \<noteq> 0"
    using that dividend_less_div_times [of "unat cadence" "unat f"]
    by (auto simp: is_checkpoint_height_unat us word_nat_conv unat_gt_0)
  have fin: "finite slots" by simp
  have "(if cadence \<noteq> 0 \<and> s \<le> tip then Some s else None) = (if slots = {} then None else Some (Min slots))"
  proof (cases "cadence \<noteq> 0 \<and> s \<le> tip")
    case True
    then have "s \<in> slots" using slot by (simp add: slots_def)
    moreover from this have "Min slots = s" using fin above by (intro Min_eqI)
    ultimately show ?thesis using True by auto
  next
    case False
    have "slots = {}"
    proof (rule ccontr)
      assume "slots \<noteq> {}"
      then obtain h where h: "h \<in> slots" by auto
      with above have "s \<le> h" by blast
      with h False show False by (auto simp: slots_def is_checkpoint_height_def)
    qed
    with False show ?thesis by auto
  qed
  then show ?thesis by (simp add: next_eq slots_def f_def)
qed

lemma next_checkpoint_height_least_witness:
  "next_checkpoint_height (Some 25) 100 10 = Some 30
   \<and> Some 30 = (let slots = {h. is_checkpoint_height h 10 \<and> 25 < h \<and> h \<le> 100} in if slots = {} then None else Some (Min slots))"
proof -
  have "next_checkpoint_height (Some 25) 100 10 = Some 30"
    by (simp add: next_checkpoint_height_def)
  then show ?thesis
    using next_checkpoint_height_least [of "Some 25" 10 100] by simp
qed

text \<open>the finality record only grows: whatever is attempted, in whatever order, with whatever
  committees and votes, the checkpoints already finalized stay as a prefix, and heights are strictly
  increasing, so finality never goes back.\<close>

theorem finality_append_only:
  assumes "wf_tracker t"
  shows "wf_tracker (attempts verify as t)
    \<and> (\<exists>new. finalized (attempts verify as t) = finalized t @ new
        \<and> (\<forall>c \<in> set (finalized t). \<forall>d \<in> set new. cp_height c < cp_height d))"
proof -
  obtain new where new: "finalized (attempts verify as t) = finalized t @ new"
    using attempts_prefix by blast
  have wf: "wf_tracker (attempts verify as t)" using assms by (rule wf_attempts)
  then have "\<forall>c \<in> set (finalized t). \<forall>d \<in> set new. cp_height c < cp_height d"
    by (simp add: wf_tracker_def new sorted_wrt_append)
  with wf new show ?thesis by blast
qed

lemma finality_append_only_witness:
  "wf_tracker (attempts (\<lambda>k m s. k = s)
     [(\<lparr>cp_height = 10, cp_block_hash = zero_hash, cp_root = zero_hash\<rparr>, [\<lparr>signer = 0, signature = 7 :: nat\<rparr>], \<lparr>members = [7]\<rparr>)]
     finality_new)"
  by (rule finality_append_only [THEN conjunct1]) simp

text \<open>an anchor root is acceptable exactly when some finalized checkpoint committed to it and is
  at most the allowed number of blocks older than the latest one; in particular a root with no
  finalized checkpoint is never accepted, and of several checkpoints with one root the youngest
  counts.\<close>

theorem anchor_acceptable_iff:
  "is_anchor_acceptable t root max_age \<longleftrightarrow>
    (\<exists>l c. latest t = Some l \<and> c \<in> set (finalized t) \<and> cp_root c = root
       \<and> unat (cp_height l) \<le> unat (cp_height c) + unat max_age)"
proof (cases "latest t")
  case None
  then show ?thesis by (simp add: is_anchor_acceptable_def anchor_age_def)
next
  case (Some l)
  define ages where "ages = map (\<lambda>c. sat_sub (cp_height l) (cp_height c)) (filter (\<lambda>c. cp_root c = root) (finalized t))"
  have age: "anchor_age t root = (if ages = [] then None else Some (Min (set ages)))"
    by (simp add: anchor_age_def Some ages_def Let_def)
  have "is_anchor_acceptable t root max_age \<longleftrightarrow> (\<exists>a \<in> set ages. a \<le> max_age)"
    by (auto simp: is_anchor_acceptable_def age Min_le_iff)
  also have "\<dots> \<longleftrightarrow> (\<exists>c \<in> set (finalized t). cp_root c = root \<and> unat (cp_height l) - unat (cp_height c) \<le> unat max_age)"
    by (auto simp: ages_def conv_simps)
  finally show ?thesis by (auto simp: Some add.commute le_diff_conv)
qed

end
