(* ===== verification/Ebbflow.thy ===== *)
theory Ebbflow
  imports Finality
begin

text \<open>
  Liveness and slashing of \<open>qlab-devnet/src/ebbflow.rs\<close>: the rolling window of checkpoint rounds
  that decides who is jailed, the finality regime, and equivocation evidence with its penalty. The
  window is a capped deque (the interface of the prelude, interpreted here). A \<open>HashSet\<close> of signers
  is the list it is collected from, used only through membership.
\<close>

section \<open>The signing window\<close>

record signing_window =
  window :: nat
  threshold_pct :: u64
  rounds :: "nat list list"

definition signing_window_new :: "nat \<Rightarrow> u64 \<Rightarrow> signing_window" where
  "signing_window_new w pct = \<lparr>window = max w 1, threshold_pct = pct, rounds = []\<rparr>"

definition record_round :: "nat list \<Rightarrow> signing_window \<Rightarrow> signing_window" where
  "record_round signers w = w\<lparr>rounds := pop_front_to (window w) (rounds w @ [signers])\<rparr>"

definition window_is_full :: "signing_window \<Rightarrow> bool" where
  "window_is_full w \<longleftrightarrow> length (rounds w) \<ge> window w"

definition signed_count :: "signing_window \<Rightarrow> nat \<Rightarrow> nat" where
  "signed_count w idx = length (filter (\<lambda>s. idx \<in> set s) (rounds w))"

definition jailable :: "signing_window \<Rightarrow> nat \<Rightarrow> bool" where
  "jailable w idx \<longleftrightarrow>
     window_is_full w
     \<and> (word_of_nat (signed_count w idx) :: u64) * 100 < threshold_pct w * word_of_nat (length (rounds w))"

definition window_reset :: "signing_window \<Rightarrow> signing_window" where
  "window_reset w = w\<lparr>rounds := []\<rparr>"

interpretation sw: capped_deque record_round rounds window
  by unfold_locales (simp_all add: record_round_def pop_front_to_last_n)

lemma record_round_pct [simp]: "threshold_pct (record_round s w) = threshold_pct w"
  by (simp add: record_round_def)

lemma record_rounds_pct [simp]: "threshold_pct (fold record_round rs w) = threshold_pct w"
  by (induction rs arbitrary: w) simp_all

section \<open>The finality regime\<close>

datatype finality_status_t = Final | Degraded | Halting | Halted

definition finality_status :: "u64 \<Rightarrow> u64 option \<Rightarrow> u64 \<Rightarrow> finality_status_t" where
  "finality_status tip_height fin max_lag =
    (case fin of
       Some fh \<Rightarrow> if sat_sub tip_height fh \<le> max_lag then Final else Degraded
     | None \<Rightarrow> Degraded)"

section \<open>Equivocation\<close>

record 's equivocation_evidence =
  cp_a :: checkpoint
  vote_a :: "'s vote"
  cp_b :: checkpoint
  vote_b :: "'s vote"

datatype evidence_error = NotSameSigner | NotSameSlot | NotConflicting | InvalidSignature

definition verify_equivocation :: "('k, 's) verifier \<Rightarrow> 's equivocation_evidence \<Rightarrow> 'k committee \<Rightarrow> evidence_error + nat" where
  "verify_equivocation verify ev c =
    (let sg = signer (vote_a ev)
     in if signer (vote_b ev) \<noteq> sg then Err NotSameSigner
        else if cp_height (cp_a ev) \<noteq> cp_height (cp_b ev) then Err NotSameSlot
        else if cp_a ev = cp_b ev then Err NotConflicting
        else if \<not> verify_vote verify c (cp_a ev) (vote_a ev) \<or> \<not> verify_vote verify c (cp_b ev) (vote_b ev)
          then Err InvalidSignature
        else Ok sg)"

definition equivocation_slash :: "u64 \<Rightarrow> u64" where
  "equivocation_slash bond = bond div 10"

definition punish_equivocation :: "('k, 's) verifier \<Rightarrow> 'k committee_state \<Rightarrow> 's equivocation_evidence \<Rightarrow> u64
    \<Rightarrow> (evidence_error + nat) \<times> 'k committee_state" where
  "punish_equivocation verify state ev slash_amount =
    (case verify_equivocation verify ev (cs_committee state) of
       Inl e \<Rightarrow> (Err e, state)
     | Inr sg \<Rightarrow> (Ok sg, snd (tombstone state sg slash_amount)))"

lemma verify_equivocation_Ok:
  "verify_equivocation verify ev c = Ok i \<longleftrightarrow>
     signer (vote_a ev) = i \<and> signer (vote_b ev) = i \<and> cp_height (cp_a ev) = cp_height (cp_b ev)
     \<and> cp_a ev \<noteq> cp_b ev \<and> verify_vote verify c (cp_a ev) (vote_a ev) \<and> verify_vote verify c (cp_b ev) (vote_b ev)"
  by (auto simp: verify_equivocation_def Let_def)

section \<open>Properties\<close>

text \<open>after any sequence of rounds a member is jailable exactly when the window has filled and it
  signed strictly less than the threshold share of the last \<open>window\<close> rounds; older rounds and
  rounds before the window is full never count. The hypothesis keeps the two products below
  \<open>2^64\<close>.\<close>

theorem jailable_iff:
  assumes "0 < w" and "w * 100 < 2 ^ 64" and "unat pct * w < 2 ^ 64"
  shows "jailable (fold record_round rs (signing_window_new w pct)) idx \<longleftrightarrow>
    w \<le> length rs \<and> length (filter (\<lambda>s. idx \<in> set s) (last_n w rs)) * 100 < unat pct * w"
proof -
  define sw where "sw = fold record_round rs (signing_window_new w pct)"
  have rounds: "rounds sw = last_n w rs"
    unfolding sw_def using assms(1) by (subst sw.contents_run) (simp_all add: signing_window_new_def)
  have win: "window sw = w" "threshold_pct sw = pct"
    unfolding sw_def using assms(1) by (simp_all add: sw.cap_run) (simp_all add: signing_window_new_def)
  define k where "k = length (filter (\<lambda>s. idx \<in> set s) (last_n w rs))"
  have k: "k \<le> w" unfolding k_def by (rule order_trans [OF length_filter_le]) simp
  then have k100: "k * 100 < 2 ^ 64" using assms(2) by simp
  have uk: "unat (word_of_nat k :: u64) = k" using k100 by (subst unat_of_nat_len) simp_all
  have uw: "unat (word_of_nat w :: u64) = w" using assms(2) by (subst unat_of_nat_len) simp_all
  have "jailable sw idx \<longleftrightarrow> w \<le> length rs \<and> (word_of_nat k :: u64) * 100 < pct * word_of_nat w"
    by (auto simp: jailable_def window_is_full_def signed_count_def rounds win k_def)
  also have "\<dots> \<longleftrightarrow> w \<le> length rs \<and> k * 100 < unat pct * w"
  proof -
    have "unat ((word_of_nat k :: u64) * 100) = k * 100"
      using k100 by (subst unat_mult_small) (simp_all add: uk)
    moreover have "unat (pct * word_of_nat w) = unat pct * w"
      using assms(3) by (subst unat_mult_small) (simp_all add: uw)
    ultimately show ?thesis by (simp add: word_less_nat_alt)
  qed
  finally show ?thesis by (simp add: sw_def k_def)
qed

lemma jailable_iff_witness:
  "jailable (fold record_round [[0, 1], [1], [1], [0]] (signing_window_new 2 60)) 0"
  by (subst jailable_iff) (simp_all add: last_n_def)

text \<open>C17: accountable safety: if two different checkpoints of one height are both finalized by one
  committee, in whatever trackers, then more than a third of the committee equivocated, and for each
  of them two of the very votes used are evidence that the verifier accepts.\<close>

theorem finality_accountable:
  assumes "try_finalize verify t1 cp1 vs1 c = Ok t1'" and "try_finalize verify t2 cp2 vs2 c = Ok t2'"
    and "cp_height cp1 = cp_height cp2" and "cp1 \<noteq> cp2"
  shows "\<exists>guilty. committee_size c < 3 * card guilty \<and> (\<forall>i \<in> guilty. \<exists>v1 \<in> set vs1. \<exists>v2 \<in> set vs2.
    verify_equivocation verify \<lparr>cp_a = cp1, vote_a = v1, cp_b = cp2, vote_b = v2\<rparr> c = Ok i)"
proof -
  have good: "good_votes verify c cp1 vs1" "good_votes verify c cp2 vs2"
    and q: "committee_quorum c \<le> length vs1" "committee_quorum c \<le> length vs2"
    using assms(1,2) by (auto simp: try_finalize_Ok)
  let ?A = "signer ` set vs1" and ?B = "signer ` set vs2"
  have "committee_size c < 3 * card (?A \<inter> ?B)"
    using quorum.quorums_overlap [of ?A "committee_size c" ?B] signers_card [OF good(1)] signers_card [OF good(2)] q
    by (simp add: committee_quorum_def committee_size_def)
  moreover have "\<exists>v1 \<in> set vs1. \<exists>v2 \<in> set vs2.
      verify_equivocation verify \<lparr>cp_a = cp1, vote_a = v1, cp_b = cp2, vote_b = v2\<rparr> c = Ok i" if "i \<in> ?A \<inter> ?B" for i
  proof -
    from that obtain v1 v2 where "v1 \<in> set vs1" "v2 \<in> set vs2" "signer v1 = i" "signer v2 = i" by auto
    with good assms(3,4) show ?thesis
      by (intro bexI [of _ v1] bexI [of _ v2]) (auto simp: verify_equivocation_Ok good_votes_def)
  qed
  ultimately show ?thesis by blast
qed

lemma finality_accountable_witness:
  "\<exists>guilty. 1 < 3 * card guilty \<and> (\<forall>i \<in> guilty. \<exists>ev. verify_equivocation (\<lambda>k m s. k = s) ev \<lparr>members = [7 :: nat]\<rparr> = Ok i)"
proof -
  define a where "a = \<lparr>cp_height = 8, cp_block_hash = [], cp_root = []\<rparr>"
  define b where "b = \<lparr>cp_height = 8, cp_block_hash = [1], cp_root = []\<rparr>"
  define vs where "vs = [\<lparr>signer = 0, signature = 7 :: nat\<rparr>]"
  define c where "c = \<lparr>members = [7 :: nat]\<rparr>"
  have fin: "\<exists>t. try_finalize (\<lambda>k m s. k = s) finality_new cp vs c = Ok t" for cp
    by (simp add: try_finalize_Ok advances_def latest_def finality_new_def good_votes_def verify_vote_def
        committee_member_def committee_quorum_def quorum_threshold_def vs_def c_def)
  obtain t1 where t1: "try_finalize (\<lambda>k m s. k = s) finality_new a vs c = Ok t1" using fin by blast
  obtain t2 where t2: "try_finalize (\<lambda>k m s. k = s) finality_new b vs c = Ok t2" using fin by blast
  have "\<exists>guilty. committee_size c < 3 * card guilty \<and> (\<forall>i \<in> guilty. \<exists>v1 \<in> set vs. \<exists>v2 \<in> set vs.
    verify_equivocation (\<lambda>k m s. k = s) \<lparr>cp_a = a, vote_a = v1, cp_b = b, vote_b = v2\<rparr> c = Ok i)"
    by (rule finality_accountable [OF t1 t2]) (simp_all add: a_def b_def)
  then obtain guilty where g: "committee_size c < 3 * card guilty"
      "\<forall>i \<in> guilty. \<exists>v1 \<in> set vs. \<exists>v2 \<in> set vs.
        verify_equivocation (\<lambda>k m s. k = s) \<lparr>cp_a = a, vote_a = v1, cp_b = b, vote_b = v2\<rparr> c = Ok i"
    by blast
  then have "\<forall>i \<in> guilty. \<exists>ev. verify_equivocation (\<lambda>k m s. k = s) ev c = Ok i" by blast
  moreover have "1 < 3 * card guilty" using g(1) by (simp add: committee_size_def c_def)
  ultimately show ?thesis unfolding c_def by blast
qed

text \<open>one offence, one penalty: once evidence against a member was accepted it is tombstoned and
  has lost at most the stated amount and at most its bond, no other member's record moved, and any
  further evidence against it, with whatever amount, changes nothing.\<close>

theorem punish_once:
  assumes "wf_committee_state s" and "punish_equivocation verify s ev amount = (Ok i, s')"
  shows "status_at s' i = Some Tombstoned
    \<and> unat (cs_bond s' ! i) = unat (cs_bond s ! i) - (if cs_status s ! i = Tombstoned then 0 else min (unat amount) (unat (cs_bond s ! i)))
    \<and> (\<forall>j. j \<noteq> i \<longrightarrow> status_at s' j = status_at s j \<and> bond_at s' j = bond_at s j \<and> slashed_at s' j = slashed_at s j)
    \<and> (\<forall>ev2 amount2. fst (punish_equivocation verify s' ev2 amount2) = Ok i \<longrightarrow>
        snd (punish_equivocation verify s' ev2 amount2) = s')"
proof -
  have ok: "verify_equivocation verify ev (cs_committee s) = Ok i" and s': "s' = snd (tombstone s i amount)"
    using assms(2) by (auto simp: punish_equivocation_def split: sum.splits)
  then have "verify_vote verify (cs_committee s) (cp_a ev) (vote_a ev)" "signer (vote_a ev) = i"
    by (auto simp: verify_equivocation_Ok)
  then have i: "i < cs_size s" using verify_vote_in_range by (fastforce simp: cs_size_def)
  have st: "cs_status s' ! i = Tombstoned"
    using i assms(1) by (auto simp: s' tombstone_def Let_def wf_committee_state_def)
  have "wf_committee_state s'" unfolding s' using assms(1) by (rule wf_tombstone)
  then have "status_at s' i = Some Tombstoned"
    using i st by (simp add: status_at_def wf_committee_state_def s')
  moreover have "unat (cs_bond s' ! i) = unat (cs_bond s ! i) - (if cs_status s ! i = Tombstoned then 0 else min (unat amount) (unat (cs_bond s ! i)))"
    using i assms(1) by (auto simp: s' tombstone_def Let_def wf_committee_state_def unat_sub_le unat_min)
  moreover have "status_at s' j = status_at s j \<and> bond_at s' j = bond_at s j \<and> slashed_at s' j = slashed_at s j" if "j \<noteq> i" for j
    using that by (simp add: s' tombstone_def Let_def status_at_def bond_at_def slashed_at_def)
  moreover have "snd (punish_equivocation verify s' ev2 amount2) = s'"
    if "fst (punish_equivocation verify s' ev2 amount2) = Ok i" for ev2 amount2
    using that st by (auto simp: punish_equivocation_def tombstone_def split: sum.splits)
  ultimately show ?thesis by blast
qed

lemma punish_once_witness:
  "\<exists>(s :: nat committee_state) ev s'. punish_equivocation (\<lambda>k m s. k = s) s ev 30 = (Ok 0, s')
     \<and> status_at s' 0 = Some Tombstoned \<and> unat (cs_bond s' ! 0) = 70"
proof -
  define s where "s = committee_state_new \<lparr>members = [7 :: nat]\<rparr> 100"
  define ev where "ev = \<lparr>cp_a = \<lparr>cp_height = 8, cp_block_hash = [], cp_root = []\<rparr>, vote_a = \<lparr>signer = 0, signature = 7 :: nat\<rparr>,
    cp_b = \<lparr>cp_height = 8, cp_block_hash = [1], cp_root = []\<rparr>, vote_b = \<lparr>signer = 0, signature = 7\<rparr>\<rparr>"
  have wf: "wf_committee_state s" by (simp add: s_def)
  have "\<exists>s'. punish_equivocation (\<lambda>k m s. k = s) s ev 30 = (Ok 0, s')"
    by (simp add: punish_equivocation_def verify_equivocation_def ev_def verify_vote_def committee_member_def
        s_def committee_state_new_def Let_def)
  then obtain s' where p: "punish_equivocation (\<lambda>k m s. k = s) s ev 30 = (Ok 0, s')" by blast
  have "cs_status s ! 0 = Active" "cs_bond s ! 0 = 100"
    by (simp_all add: s_def committee_state_new_def committee_size_def Let_def)
  then show ?thesis using p punish_once [OF wf p] by (intro exI [of _ s] exI [of _ ev] exI [of _ s']) simp
qed

end
