(* ===== verification/Hashing.thy ===== *)
theory Hashing
  imports Prelude
begin

text \<open>
  Keccak-256 as the consensus code computes it: the permutation of \<open>qlab-air/src/reference.rs\<close>
  (a flat state of 25 lanes, lane \<open>(x, y)\<close> at \<open>x + 5 * y\<close>) and the sponge of
  \<open>qlab-devnet/src/hash.rs\<close> (rate 136 bytes, original \<open>pad10*1\<close>).
\<close>

unbundle bit_operations_syntax

definition keccak_rho :: "nat list" where
  "keccak_rho =
    [0, 1, 62, 28, 27,
     36, 44, 6, 55, 20,
     3, 10, 43, 25, 39,
     41, 45, 15, 21, 8,
     18, 2, 61, 56, 14]"

definition keccak_rc :: "u64 list" where
  "keccak_rc =
    [0x0000000000000001, 0x0000000000008082, 0x800000000000808a, 0x8000000080008000,
     0x000000000000808b, 0x0000000080000001, 0x8000000080008081, 0x8000000000008009,
     0x000000000000008a, 0x0000000000000088, 0x0000000080008009, 0x000000008000000a,
     0x000000008000808b, 0x800000000000008b, 0x8000000000008089, 0x8000000000008003,
     0x8000000000008002, 0x8000000000000080, 0x000000000000800a, 0x800000008000000a,
     0x8000000080008081, 0x8000000000008080, 0x0000000080000001, 0x8000000080008008]"

definition rotate_left :: "u64 \<Rightarrow> nat \<Rightarrow> u64" where
  "rotate_left w n = (push_bit n w OR drop_bit (64 - n) w)"

text \<open>
  One round. Each array loop writes every index once, so the array it leaves is the list of the
  values over the indices; the pi step writes index \<open>y + 5 * ((2 * x + 3 * y) mod 5)\<close> from lane
  \<open>x + 5 * y\<close>, which is read here from the written index by folding the writes in loop order.
\<close>

definition keccak_theta :: "u64 list \<Rightarrow> u64 list" where
  "keccak_theta a =
    (let c = map (\<lambda>x. a ! x XOR a ! (x + 5) XOR a ! (x + 10) XOR a ! (x + 15) XOR a ! (x + 20)) [0..<5];
         d = map (\<lambda>x. c ! ((x + 4) mod 5) XOR rotate_left (c ! ((x + 1) mod 5)) 1) [0..<5]
     in map (\<lambda>l. a ! l XOR d ! (l mod 5)) [0..<25])"

definition keccak_rho_pi :: "u64 list \<Rightarrow> u64 list" where
  "keccak_rho_pi a =
    fold (\<lambda>l b. let x = l mod 5; y = l div 5
                in b[y + 5 * ((2 * x + 3 * y) mod 5) := rotate_left (a ! l) (keccak_rho ! l)])
      [0..<25] (replicate 25 0)"

definition keccak_chi :: "u64 list \<Rightarrow> u64 list" where
  "keccak_chi b =
    map (\<lambda>l. let x = l mod 5; y = l div 5
             in b ! l XOR (NOT (b ! ((x + 1) mod 5 + 5 * y)) AND b ! ((x + 2) mod 5 + 5 * y)))
      [0..<25]"

definition keccak_round :: "u64 list \<Rightarrow> u64 \<Rightarrow> u64 list" where
  "keccak_round a rc =
    (let s = keccak_chi (keccak_rho_pi (keccak_theta a)) in s[0 := s ! 0 XOR rc])"

definition keccak_f :: "u64 list \<Rightarrow> u64 list" where
  "keccak_f a = fold (\<lambda>rc s. keccak_round s rc) keccak_rc a"

definition keccak_rate :: nat where
  "keccak_rate = 136"

definition xor_rate :: "u64 list \<Rightarrow> bytes \<Rightarrow> u64 list" where
  "xor_rate st block =
    map (\<lambda>i. if i < 17 then st ! i XOR u64_from_le (slice_at (i * 8) 8 block) else st ! i) [0..<length st]"

text \<open>\<open>chunks_exact(RATE)\<close> and its remainder: full blocks are absorbed until fewer than
  136 bytes are left.\<close>

function keccak_absorb :: "u64 list \<Rightarrow> bytes \<Rightarrow> u64 list \<times> bytes" where
  "keccak_absorb st input =
    (if length input < keccak_rate then (st, input)
     else keccak_absorb (keccak_f (xor_rate st (take keccak_rate input))) (drop keccak_rate input))"
  by pat_completeness auto
termination
  by (relation "measure (\<lambda>(st, input). length input)") (auto simp: keccak_rate_def)

declare keccak_absorb.simps [simp del]

text \<open>The final block: remainder, \<open>0x01\<close> after it, \<open>0x80\<close> into the last byte (both by xor).\<close>

definition keccak_pad :: "bytes \<Rightarrow> bytes" where
  "keccak_pad rem =
    (let last = rem @ replicate (keccak_rate - length rem) 0;
         l1 = last[length rem := last ! length rem XOR 0x01]
     in l1[keccak_rate - 1 := l1 ! (keccak_rate - 1) XOR 0x80])"

definition keccak256 :: "bytes \<Rightarrow> hash32" where
  "keccak256 input =
    (let (st, rem) = keccak_absorb (replicate 25 0) input;
         s = keccak_f (xor_rate st (keccak_pad rem))
     in concat (map (\<lambda>i. u64_le (s ! i)) [0..<4]))"

lemma upt_0_4: "[0..<4] = [0, 1, 2, 3 :: nat]"
  by (simp add: upt_conv_Cons)

lemma length_keccak256 [simp]: "length (keccak256 input) = 32"
  by (simp add: keccak256_def upt_0_4 Let_def split_beta)

lemma is_hash32_keccak256 [simp]: "is_hash32 (keccak256 input)"
  by (simp add: is_hash32_def)

end
