(* ===== verification/Halt.thy ===== *)
theory Halt
  imports Ebbflow Hashing
begin

text \<open>
  The upgrade halt of \<open>qlab-devnet/src/halt.rs\<close>: a release names the height it stops at and, after
  an upgrade, the domain its proof of work moves to. \<open>describe\<close> and \<open>Display\<close> (text for people) are
  not modelled; a \<open>&'static str\<close> reason is a \<open>string\<close>. The cadence of
  \<open>params_devnet.rs\<close> is \<open>cadence_blocks\<close>.
\<close>

definition cadence_blocks :: u64 where "cadence_blocks = 8"

text \<open>\<open>b"qumbra:post-halt-pow:v1"\<close>\<close>

definition post_halt_pow_tag :: bytes where
  "post_halt_pow_tag = [113, 117, 109, 98, 114, 97, 58, 112, 111, 115, 116, 45, 104, 97, 108, 116, 45, 112, 111, 119, 58, 118, 49]"

datatype halt_error =
    NotOnCadenceGrid u64 u64
  | ZeroHeight
  | RuleBoundaryMismatch u64 u64

datatype halt_plan = NoHalt | Armed u64 | Cancelled u64 string

definition plan_halt_at :: "halt_plan \<Rightarrow> u64 option" where
  "plan_halt_at p = (case p of Armed height \<Rightarrow> Some height | NoHalt \<Rightarrow> None | Cancelled _ _ \<Rightarrow> None)"

definition named_height :: "halt_plan \<Rightarrow> u64 option" where
  "named_height p = (case p of Armed height \<Rightarrow> Some height | Cancelled height _ \<Rightarrow> Some height | NoHalt \<Rightarrow> None)"

definition plan_validate :: "halt_plan \<Rightarrow> halt_error + unit" where
  "plan_validate p =
    (case named_height p of
       None \<Rightarrow> Ok ()
     | Some height \<Rightarrow>
         if height = 0 then Err ZeroHeight
         else if height mod cadence_blocks \<noteq> 0 then Err (NotOnCadenceGrid height cadence_blocks)
         else Ok ())"

record post_halt_rules =
  from_height :: u64
  domain :: hash32

record rule_schedule =
  halt :: halt_plan
  post_halt :: "post_halt_rules option"

definition rules_v1_0 :: rule_schedule where
  "rules_v1_0 = \<lparr>halt = NoHalt, post_halt = None\<rparr>"

definition halt_at :: "rule_schedule \<Rightarrow> u64 option" where
  "halt_at r = plan_halt_at (halt r)"

definition accepts_height :: "rule_schedule \<Rightarrow> u64 \<Rightarrow> bool" where
  "accepts_height r height = (case halt_at r of None \<Rightarrow> True | Some h \<Rightarrow> height \<le> h)"

definition may_checkpoint :: "rule_schedule \<Rightarrow> u64 \<Rightarrow> bool" where
  "may_checkpoint r height = accepts_height r height"

definition domain_at :: "rule_schedule \<Rightarrow> u64 \<Rightarrow> hash32 option" where
  "domain_at r height =
    (case post_halt r of
       None \<Rightarrow> None
     | Some p \<Rightarrow> if height > from_height p then Some (domain p) else None)"

definition rules_validate :: "rule_schedule \<Rightarrow> halt_error + unit" where
  "rules_validate r =
    rbind (plan_validate (halt r)) (\<lambda>_.
      case post_halt r of
        None \<Rightarrow> Ok ()
      | Some p \<Rightarrow>
          if from_height p = 0 then Err ZeroHeight
          else if from_height p mod cadence_blocks \<noteq> 0 then Err (NotOnCadenceGrid (from_height p) cadence_blocks)
          else Ok ())"

definition pow_value :: "hash32 \<Rightarrow> u64 \<Rightarrow> rule_schedule \<Rightarrow> hash32" where
  "pow_value raw height rules =
    (case domain_at rules height of
       None \<Rightarrow> raw
     | Some d \<Rightarrow> keccak256 (post_halt_pow_tag @ d @ raw))"

definition halt_regime :: "u64 \<Rightarrow> u64 option \<Rightarrow> u64 option \<Rightarrow> finality_status_t option" where
  "halt_regime tip_height fin ha =
    (case ha of
       None \<Rightarrow> None
     | Some h \<Rightarrow>
         if tip_height < h then None
         else (case fin of
                 Some f \<Rightarrow> if f \<ge> h then Some Halted else Some Halting
               | None \<Rightarrow> Some Halting))"

definition regime :: "u64 \<Rightarrow> u64 option \<Rightarrow> u64 \<Rightarrow> u64 option \<Rightarrow> finality_status_t" where
  "regime tip_height fin max_lag ha =
    (case halt_regime tip_height fin ha of
       Some st \<Rightarrow> st
     | None \<Rightarrow> finality_status tip_height fin max_lag)"

section \<open>Properties\<close>

lemma halt_on_grid:
  assumes "rules_validate r = Ok ()" and "halt_at r = Some h"
  shows "is_checkpoint_height h cadence_blocks"
  using assms
  by (auto simp: rules_validate_def plan_validate_def halt_at_def plan_halt_at_def named_height_def
      is_checkpoint_height_def cadence_blocks_def split: halt_plan.splits if_splits)

text \<open>C28: an upgrade boundary can be finalized: under a validated schedule that halts at \<open>h\<close>, once the
  chain stands at \<open>h\<close> and finality is below it, the committee is still handed a checkpoint slot it
  may sign, at most \<open>h\<close>; and when the last finalized checkpoint is the one a cadence below, that slot
  is \<open>h\<close> itself. Blocks above \<open>h\<close> are never accepted.\<close>

theorem halt_boundary_finalizable:
  assumes "rules_validate r = Ok ()" and "halt_at r = Some h"
    and "case fin of None \<Rightarrow> True | Some f \<Rightarrow> f < h"
  shows "(\<exists>s. next_checkpoint_height fin h cadence_blocks = Some s \<and> s \<le> h \<and> may_checkpoint r s
            \<and> is_checkpoint_height s cadence_blocks)
    \<and> (\<forall>f. fin = Some f \<and> unat f + 8 = unat h \<longrightarrow> next_checkpoint_height fin h cadence_blocks = Some h)
    \<and> (\<forall>g. accepts_height r g \<longleftrightarrow> g \<le> h)"
proof -
  define f where "f = (case fin of None \<Rightarrow> 0 | Some f \<Rightarrow> f)"
  define s where "s = (f div cadence_blocks + 1) * cadence_blocks"
  have grid: "is_checkpoint_height h cadence_blocks" using assms(1,2) by (rule halt_on_grid)
  then have dvd: "8 dvd unat h" and pos: "0 < unat h" by (auto simp: is_checkpoint_height_unat cadence_blocks_def)
  have fh: "unat f < unat h" using assms(3) pos by (auto simp: f_def word_less_nat_alt split: option.splits)
  have least: "(unat f div 8 + 1) * 8 \<le> unat h" using least_multiple_above [OF _ dvd fh] by simp
  have "unat f div 8 * 8 + 8 \<le> unat h" using least by simp
  then have us: "unat s = (unat f div 8 + 1) * 8"
  proof -
    have "unat f div 8 + 1 < 2 ^ 64" using least unat_lt_exp [of h] by simp
    then have "unat (f div 8 + 1) = unat f div 8 + 1"
      using unat_plus_1 [of "f div 8"] by (simp add: unat_div)
    then show ?thesis using least unat_lt_exp [of h]
      unfolding s_def cadence_blocks_def by (subst unat_mult_small) simp_all
  qed
  have "next_checkpoint_height fin h cadence_blocks = Some s"
    using least us by (auto simp: next_checkpoint_height_def s_def f_def cadence_blocks_def word_le_nat_alt split: option.splits)
  moreover have "s \<le> h" using least us by (simp add: word_le_nat_alt)
  moreover have "is_checkpoint_height s cadence_blocks" by (simp add: is_checkpoint_height_unat us) (simp add: cadence_blocks_def)
  moreover have acc: "accepts_height r g \<longleftrightarrow> g \<le> h" for g using assms(2) by (simp add: accepts_height_def)
  moreover have "s = h" if "fin = Some g" "unat g + 8 = unat h" for g
  proof -
    have "unat f + 8 = unat h" using that by (simp add: f_def)
    moreover from this dvd have "8 dvd unat f" by (metis dvd_add_left_iff dvd_refl)
    ultimately show ?thesis using us by (simp add: word_unat_eq_iff)
  qed
  ultimately show ?thesis by (auto simp: may_checkpoint_def)
qed

lemma halt_boundary_finalizable_witness:
  "next_checkpoint_height (Some 8) 16 cadence_blocks = Some 16"
  using halt_boundary_finalizable [of "\<lparr>halt = Armed 16, post_halt = None\<rparr>" 16 "Some 8"]
  by (simp add: rules_validate_def plan_validate_def halt_at_def plan_halt_at_def named_height_def cadence_blocks_def)

text \<open>The regimes as a state machine over the tip and the finalized height.\<close>

definition regime_at :: "u64 \<Rightarrow> u64 \<Rightarrow> u64 \<times> u64 option \<Rightarrow> finality_status_t" where
  "regime_at max_lag h st = (case st of (tip, fin) \<Rightarrow> regime tip fin max_lag (Some h))"

inductive chain_advances :: "u64 \<times> u64 option \<Rightarrow> u64 \<times> u64 option \<Rightarrow> bool" where
  Grow: "tip \<le> tip' \<Longrightarrow> chain_advances (tip, fin) (tip', fin)"
| Finalize: "(case fin of None \<Rightarrow> True | Some f \<Rightarrow> f < f') \<Longrightarrow> chain_advances (tip, fin) (tip, Some f')"

inductive_cases chain_advancesE: "chain_advances st st'"

lemma regime_Halted:
  "regime tip fin max_lag (Some h) = Halted \<longleftrightarrow> h \<le> tip \<and> (\<exists>f. fin = Some f \<and> h \<le> f)"
  by (auto simp: regime_def halt_regime_def finality_status_def not_less split: option.splits)

lemma regime_Halting:
  "regime tip fin max_lag (Some h) = Halting \<longleftrightarrow> h \<le> tip \<and> \<not> (\<exists>f. fin = Some f \<and> h \<le> f)"
  by (auto simp: regime_def halt_regime_def finality_status_def not_less split: option.splits)

lemma advance_past_halt:
  assumes "chain_advances\<^sup>*\<^sup>* st st'"
  shows "fst st \<le> fst st' \<and> (\<forall>f. snd st = Some f \<longrightarrow> (\<exists>f'. snd st' = Some f' \<and> f \<le> f'))"
  using assms
proof (induction rule: rtranclp_induct)
  case (step y z)
  from step(2) show ?case
  proof (cases rule: chain_advances.cases)
    case (Finalize fin f' tip)
    with step(3) show ?thesis by (fastforce intro: less_imp_le less_le_trans)
  qed (use step(3) in auto)
qed simp

text \<open>the four regimes as a state machine: while the tip and finality only advance, a halted chain
  stays halted, a halting one is halting or halted, and \<open>Halted\<close> holds exactly when both the tip and
  finality reached the halt; without a halt the regime is the ordinary one.\<close>

theorem halted_absorbing:
  assumes "chain_advances\<^sup>*\<^sup>* st st'"
  shows "(regime_at max_lag h st = Halted \<longrightarrow> regime_at max_lag h st' = Halted)
    \<and> (regime_at max_lag h st = Halting \<longrightarrow> regime_at max_lag h st' \<in> {Halting, Halted})
    \<and> (regime_at max_lag h st' = Halted \<longleftrightarrow> h \<le> fst st' \<and> (\<exists>f. snd st' = Some f \<and> h \<le> f))"
proof -
  have reg: "regime_at max_lag h s = Halted \<longleftrightarrow> h \<le> fst s \<and> (\<exists>f. snd s = Some f \<and> h \<le> f)"
    "regime_at max_lag h s = Halting \<longleftrightarrow> h \<le> fst s \<and> \<not> (\<exists>f. snd s = Some f \<and> h \<le> f)" for s
    by (cases s; simp add: regime_at_def regime_Halted regime_Halting)+
  have "h \<le> fst st \<Longrightarrow> h \<le> fst st'" using advance_past_halt [OF assms] by auto
  moreover have "snd st = Some f \<Longrightarrow> h \<le> f \<Longrightarrow> \<exists>f'. snd st' = Some f' \<and> h \<le> f'" for f
    using advance_past_halt [OF assms] by (metis order_trans)
  ultimately show ?thesis unfolding insert_iff reg by blast
qed

lemma halted_absorbing_witness:
  "regime_at 16 16 (16, Some 16) = Halted \<and> regime_at 16 16 (20, Some 16) = Halted"
proof -
  have "chain_advances (16, Some 16) (20, Some 16)" by (rule chain_advances.Grow) simp
  then have "chain_advances\<^sup>*\<^sup>* (16, Some 16) (20, Some 16)" by (rule r_into_rtranclp)
  from halted_absorbing [OF this, of 16 16] show ?thesis by (simp add: regime_at_def regime_Halted)
qed

end
