(* ===== verification/Header.thy ===== *)
theory Header
  imports Halt
begin

text \<open>
  The genesis forms of \<open>qlab-devnet/src/forms.rs\<close> and the block header of \<open>header.rs\<close>: its three
  preimages, the hash over them, and the reader of the Annulet preimage. The zero-sized slots of the
  header have one value and are the unit of Rust's type; they appear only as their preimage tags. A
  failed \<open>assert!\<close> of a serializer is \<open>None\<close>.
\<close>

section \<open>Genesis forms\<close>

datatype genesis_form = V4 | V5 | Annulet
datatype body_sections = NoSections | V6
datatype l2_auth_form = NoAuth | CandidateA | CandidateAV3

definition annulet_genesis_format_version :: u32 where "annulet_genesis_format_version = 32"
definition annulet_auth_genesis_format_version :: u32 where "annulet_auth_genesis_format_version = 33"
definition annulet_auth_v3_genesis_format_version :: u32 where "annulet_auth_v3_genesis_format_version = 34"
definition v6_genesis_format_version :: u32 where "v6_genesis_format_version = 10"

definition annulet_forms_of_version :: "u32 \<Rightarrow> (genesis_form \<times> l2_auth_form) option" where
  "annulet_forms_of_version v =
    (if v = annulet_genesis_format_version then Some (Annulet, NoAuth)
     else if v = annulet_auth_genesis_format_version then Some (Annulet, CandidateA)
     else if v = annulet_auth_v3_genesis_format_version then Some (Annulet, CandidateAV3)
     else None)"

definition auth_genesis_format_version :: "l2_auth_form \<Rightarrow> u32" where
  "auth_genesis_format_version a =
    (case a of NoAuth \<Rightarrow> annulet_genesis_format_version
     | CandidateA \<Rightarrow> annulet_auth_genesis_format_version
     | CandidateAV3 \<Rightarrow> annulet_auth_v3_genesis_format_version)"

definition has_auth :: "l2_auth_form \<Rightarrow> bool" where
  "has_auth a = (case a of NoAuth \<Rightarrow> False | CandidateA \<Rightarrow> True | CandidateAV3 \<Rightarrow> True)"

definition sp_outputs :: "l2_auth_form \<Rightarrow> nat" where
  "sp_outputs a = (case a of NoAuth \<Rightarrow> 2 | CandidateA \<Rightarrow> 2 | CandidateAV3 \<Rightarrow> 3)"

definition form_of_version :: "u32 \<Rightarrow> genesis_form option" where
  "form_of_version v =
    (if v = 8 then Some V4 else if v = 9 then Some V5
     else if v = annulet_genesis_format_version then Some Annulet else None)"

definition form_version :: "genesis_form \<Rightarrow> u32" where
  "form_version f = (case f of V4 \<Rightarrow> 8 | V5 \<Rightarrow> 9 | Annulet \<Rightarrow> annulet_genesis_format_version)"

definition forms_of_version :: "u32 \<Rightarrow> (genesis_form \<times> body_sections) option" where
  "forms_of_version v =
    (if v = v6_genesis_format_version then Some (V5, V6)
     else map_option (\<lambda>f. (f, NoSections)) (form_of_version v))"

definition name_rule_boundary_height :: "u64 option" where
  "name_rule_boundary_height = Some 19008"

definition name_boundary :: "genesis_form \<Rightarrow> u64 option" where
  "name_boundary f = (case f of V4 \<Rightarrow> name_rule_boundary_height | V5 \<Rightarrow> None | Annulet \<Rightarrow> None)"

definition rider_admit_boundary :: "genesis_form \<Rightarrow> u64 option" where
  "rider_admit_boundary f = (case f of V4 \<Rightarrow> name_rule_boundary_height | V5 \<Rightarrow> Some 0 | Annulet \<Rightarrow> None)"

record chain_rules =
  cr_form :: genesis_form
  cr_halt :: rule_schedule

definition chain_rules_v4 :: "rule_schedule \<Rightarrow> chain_rules" where
  "chain_rules_v4 h = \<lparr>cr_form = V4, cr_halt = h\<rparr>"

section \<open>The header\<close>

definition header_version_byte_v5 :: u8 where "header_version_byte_v5 = 0x05"
definition header_version_byte_annulet :: u8 where "header_version_byte_annulet = 0x20"
definition header_preimage_len_annulet :: nat where "header_preimage_len_annulet = 153"
definition annulet_reserved_tags :: bytes where "annulet_reserved_tags = [0, 0]"
definition aggregate_proof_tag :: u8 where "aggregate_proof_tag = 0xA6"
definition epoch_supply_tag :: u8 where "epoch_supply_tag = 0x59"
definition v5_max_height :: u64 where "v5_max_height = push_bit 48 1 - 1"

text \<open>\<open>b"qumbra:annulet:header:v1"\<close>\<close>

definition annulet_header_signing_domain :: bytes where
  "annulet_header_signing_domain =
    [113, 117, 109, 98, 114, 97, 58, 97, 110, 110, 117, 108, 101, 116, 58, 104, 101, 97, 100, 101, 114, 58, 118, 49]"

record annulet_header_fields =
  l1_anchor_height :: u64
  l1_anchor_root :: hash32
  registry_root :: hash32

datatype header_ext = L1 | ExtAnnulet annulet_header_fields

record block_header =
  prev :: hash32
  height :: u64
  timestamp :: u64
  difficulty :: u64
  nonce :: u64
  tx_body_commitment :: hash32
  ext :: header_ext

datatype annulet_preimage_error = WrongLength nat | BadVersion u8 | BadReservedByte nat u8

definition preimage_v4 :: "block_header \<Rightarrow> bytes option" where
  "preimage_v4 h =
    (if ext h = L1
     then Some (prev h @ u64_le (height h) @ u64_le (timestamp h) @ u64_le (difficulty h) @ u64_le (nonce h)
            @ tx_body_commitment h @ [aggregate_proof_tag] @ [epoch_supply_tag])
     else None)"

definition preimage_v5 :: "block_header \<Rightarrow> bytes option" where
  "preimage_v5 h =
    (if ext h = L1 \<and> height h \<le> v5_max_height
     then Some (prev h @ [header_version_byte_v5] @ take 6 (u64_le (height h)) @ u64_le (nonce h)
            @ u64_le (timestamp h) @ u64_le (difficulty h) @ tx_body_commitment h
            @ [aggregate_proof_tag] @ [epoch_supply_tag])
     else None)"

definition preimage_annulet :: "block_header \<Rightarrow> bytes option" where
  "preimage_annulet h =
    (case ext h of
       L1 \<Rightarrow> None
     | ExtAnnulet x \<Rightarrow>
         if difficulty h = 0 \<and> nonce h = 0 \<and> height h \<le> v5_max_height
         then Some (prev h @ [header_version_byte_annulet] @ take 6 (u64_le (height h)) @ u64_le (timestamp h)
                @ u64_le (l1_anchor_height x) @ l1_anchor_root x @ registry_root x @ tx_body_commitment h
                @ annulet_reserved_tags)
         else None)"

definition preimage_for :: "genesis_form \<Rightarrow> block_header \<Rightarrow> bytes option" where
  "preimage_for f h = (case f of V4 \<Rightarrow> preimage_v4 h | V5 \<Rightarrow> preimage_v5 h | Annulet \<Rightarrow> preimage_annulet h)"

fun check_reserved :: "bytes \<Rightarrow> nat \<Rightarrow> bytes \<Rightarrow> annulet_preimage_error + unit" where
  "check_reserved bs i [] = Ok ()"
| "check_reserved bs i (want # ws) =
    (if bs ! (151 + i) \<noteq> want then Err (BadReservedByte (151 + i) (bs ! (151 + i)))
     else check_reserved bs (Suc i) ws)"

definition from_annulet_preimage :: "bytes \<Rightarrow> annulet_preimage_error + block_header" where
  "from_annulet_preimage bs =
    (if length bs \<noteq> header_preimage_len_annulet then Err (WrongLength (length bs))
     else if bs ! 32 \<noteq> header_version_byte_annulet then Err (BadVersion (bs ! 32))
     else rbind (check_reserved bs 0 annulet_reserved_tags) (\<lambda>_. Ok
       \<lparr>prev = slice_at 0 32 bs, height = u64_from_le (slice_at 33 6 bs @ [0, 0]),
        timestamp = u64_from_le (slice_at 39 8 bs), difficulty = 0, nonce = 0,
        tx_body_commitment = slice_at 119 32 bs,
        ext = ExtAnnulet \<lparr>l1_anchor_height = u64_from_le (slice_at 47 8 bs),
          l1_anchor_root = slice_at 55 32 bs, registry_root = slice_at 87 32 bs\<rparr>\<rparr>))"

definition annulet_signing_message :: "block_header \<Rightarrow> bytes option" where
  "annulet_signing_message h = map_option (\<lambda>p. annulet_header_signing_domain @ p) (preimage_annulet h)"

definition header_hash_for :: "genesis_form \<Rightarrow> block_header \<Rightarrow> hash32 option" where
  "header_hash_for f h = map_option keccak256 (preimage_for f h)"

definition child_of_for :: "genesis_form \<Rightarrow> block_header \<Rightarrow> u64 \<Rightarrow> u64 \<Rightarrow> hash32 \<Rightarrow> block_header option" where
  "child_of_for f parent ts diff body =
    (if f = Annulet then None
     else map_option (\<lambda>ph. \<lparr>prev = ph, height = height parent + 1, timestamp = ts, difficulty = diff, nonce = 0,
            tx_body_commitment = body, ext = L1\<rparr>) (header_hash_for f parent))"

definition genesis_annulet :: "annulet_header_fields \<Rightarrow> hash32 \<Rightarrow> u64 \<Rightarrow> block_header" where
  "genesis_annulet x body ts =
    \<lparr>prev = zero_hash, height = 0, timestamp = ts, difficulty = 0, nonce = 0, tx_body_commitment = body, ext = ExtAnnulet x\<rparr>"

definition child_of_annulet :: "block_header \<Rightarrow> u64 \<Rightarrow> annulet_header_fields \<Rightarrow> hash32 \<Rightarrow> block_header option" where
  "child_of_annulet parent ts x body =
    map_option (\<lambda>ph. \<lparr>prev = ph, height = height parent + 1, timestamp = ts, difficulty = 0, nonce = 0,
      tx_body_commitment = body, ext = ExtAnnulet x\<rparr>) (header_hash_for Annulet parent)"

section \<open>Sizes\<close>

definition wf_ext :: "header_ext \<Rightarrow> bool" where
  "wf_ext x = (case x of L1 \<Rightarrow> True | ExtAnnulet a \<Rightarrow> is_hash32 (l1_anchor_root a) \<and> is_hash32 (registry_root a))"

definition wf_header :: "block_header \<Rightarrow> bool" where
  "wf_header h \<longleftrightarrow> is_hash32 (prev h) \<and> is_hash32 (tx_body_commitment h) \<and> wf_ext (ext h)"

lemma length_preimage:
  assumes "wf_header h" and "preimage_for f h = Some p"
  shows "length p = (case f of V4 \<Rightarrow> 98 | V5 \<Rightarrow> 97 | Annulet \<Rightarrow> 153)"
  using assms
  by (auto simp: preimage_for_def preimage_v4_def preimage_v5_def preimage_annulet_def wf_header_def wf_ext_def
      is_hash32_def annulet_reserved_tags_def split: genesis_form.splits header_ext.splits if_splits)

text \<open>A 48-bit height is its low six bytes.\<close>

lemma unat_v5_max_height: "unat v5_max_height = 2 ^ 48 - 1"
  by (simp add: v5_max_height_def push_bit_eq_mult)

lemma le_bytes_high_zero: "x < 256 ^ n \<Longrightarrow> le_bytes (n + k) x = le_bytes n x @ replicate k 0"
proof (induction n arbitrary: x)
  case 0
  then show ?case by (induction k) simp_all
next
  case (Suc n)
  then show ?case by simp
qed

lemma u64_le_low6: "h \<le> v5_max_height \<Longrightarrow> u64_le h = take 6 (u64_le h) @ [0, 0]"
proof -
  assume "h \<le> v5_max_height"
  then have "unat h < 256 ^ 6" by (simp add: word_le_nat_alt unat_v5_max_height)
  from le_bytes_high_zero [OF this, of 2] show ?thesis by (simp add: u64_le_def numeral_2_eq_2)
qed

lemma height6_inject:
  assumes "a \<le> v5_max_height" and "b \<le> v5_max_height" and "take 6 (u64_le a) = take 6 (u64_le b)"
  shows "a = b"
  using u64_le_low6 [OF assms(1)] u64_le_low6 [OF assms(2)] assms(3) by (metis u64_le_inject)

lemma preimage_v4_inject:
  assumes "wf_header a" and "wf_header b" and "preimage_v4 a = Some p" and "preimage_v4 b = Some p"
  shows "a = b"
  using assms by (auto simp: preimage_v4_def wf_header_def is_hash32_def split: if_splits intro!: block_header.equality)

lemma preimage_v5_inject:
  assumes "wf_header a" and "wf_header b" and "preimage_v5 a = Some p" and "preimage_v5 b = Some p"
  shows "a = b"
proof -
  have h: "height a \<le> v5_max_height" "height b \<le> v5_max_height"
    using assms(3,4) by (auto simp: preimage_v5_def split: if_splits)
  have "take 6 (u64_le (height a)) = take 6 (u64_le (height b))"
    using assms by (auto simp: preimage_v5_def wf_header_def is_hash32_def split: if_splits)
  with h have "height a = height b" by (rule height6_inject)
  with assms show ?thesis
    by (auto simp: preimage_v5_def wf_header_def is_hash32_def split: if_splits intro!: block_header.equality)
qed

lemma from_preimage_annulet:
  assumes "wf_header h" and "preimage_annulet h = Some p"
  shows "from_annulet_preimage p = Ok h"
proof -
  obtain x where x: "ext h = ExtAnnulet x" "difficulty h = 0" "nonce h = 0" "height h \<le> v5_max_height"
      "is_hash32 (l1_anchor_root x)" "is_hash32 (registry_root x)"
    using assms by (auto simp: preimage_annulet_def wf_header_def wf_ext_def split: header_ext.splits if_splits)
  note len = assms(1) [unfolded wf_header_def is_hash32_def] x(5,6) [unfolded is_hash32_def]
  have p: "p = prev h @ [header_version_byte_annulet] @ take 6 (u64_le (height h)) @ u64_le (timestamp h)
                @ u64_le (l1_anchor_height x) @ l1_anchor_root x @ registry_root x @ tx_body_commitment h
                @ annulet_reserved_tags"
    using assms(2) x by (simp add: preimage_annulet_def)
  have l: "length p = header_preimage_len_annulet"
    by (simp add: p len annulet_reserved_tags_def header_preimage_len_annulet_def)
  have v: "p ! 32 = header_version_byte_annulet" by (simp add: p len nth_append)
  have r: "check_reserved p 0 annulet_reserved_tags = Ok ()"
    by (simp add: annulet_reserved_tags_def p len nth_append)
  have height6: "take 6 (u64_le (height h)) @ [0, 0] = u64_le (height h)" using u64_le_low6 [OF x(4)] by simp
  show ?thesis
    unfolding from_annulet_preimage_def using l v r x
    by (simp add: p len slice_at_append slice_at_0_append slice_at_Cons height6)
qed

lemma preimage_from_annulet:
  assumes "from_annulet_preimage p = Ok h"
  shows "wf_header h" and "preimage_annulet h = Some p"
proof -
  have len: "length p = 153" and v: "p ! 32 = header_version_byte_annulet"
    and r: "p ! 151 = 0" "p ! 152 = 0"
    and h: "h = \<lparr>prev = slice_at 0 32 p, height = u64_from_le (slice_at 33 6 p @ [0, 0]),
        timestamp = u64_from_le (slice_at 39 8 p), difficulty = 0, nonce = 0,
        tx_body_commitment = slice_at 119 32 p,
        ext = ExtAnnulet \<lparr>l1_anchor_height = u64_from_le (slice_at 47 8 p),
          l1_anchor_root = slice_at 55 32 p, registry_root = slice_at 87 32 p\<rparr>\<rparr>"
    using assms by (auto simp: from_annulet_preimage_def header_preimage_len_annulet_def annulet_reserved_tags_def split: if_splits)
  show "wf_header h" using len by (simp add: h wf_header_def wf_ext_def is_hash32_def)
  have low: "u64_le (u64_from_le (slice_at 33 6 p @ [0, 0])) = slice_at 33 6 p @ [0, 0]"
    using len by (intro u64_le_u64_from_le) simp
  have "le_val (slice_at 33 6 p @ [0, 0]) < 2 ^ 48"
  proof -
    have "le_val (xs @ [0, 0]) = le_val xs" for xs by (induction xs) simp_all
    then show ?thesis using le_val_bound [of "slice_at 33 6 p"] len by simp
  qed
  then have "u64_from_le (slice_at 33 6 p @ [0, 0]) \<le> v5_max_height"
    by (simp add: word_le_nat_alt unat_v5_max_height u64_from_le_def unat_of_nat_len)
  moreover have "slice_at 0 32 p @ header_version_byte_annulet # slice_at 33 6 p @ slice_at 39 8 p @ slice_at 47 8 p
      @ slice_at 55 32 p @ slice_at 87 32 p @ slice_at 119 32 p @ [0, 0] = p"
  proof -
    have "slice_at 32 1 p = [header_version_byte_annulet]" "slice_at 151 1 p = [0]" "slice_at 152 1 p = [0]"
      using len r v by (simp_all only: slice_at_1)
    with len drop_slice_at [of 0 p 32] drop_slice_at [of 32 p 1] drop_slice_at [of 33 p 6] drop_slice_at [of 39 p 8]
      drop_slice_at [of 47 p 8] drop_slice_at [of 55 p 32] drop_slice_at [of 87 p 32] drop_slice_at [of 119 p 32]
      drop_slice_at [of 151 p 1] drop_slice_at [of 152 p 1] show ?thesis by simp
  qed
  ultimately show "preimage_annulet h = Some p"
    using len by (simp add: preimage_annulet_def h low u64_le_u64_from_le annulet_reserved_tags_def)
qed

lemma preimage_for_inject:
  assumes "wf_header a" and "wf_header b" and "preimage_for f a = Some p" and "preimage_for f b = Some p"
  shows "a = b"
  using assms preimage_v4_inject preimage_v5_inject from_preimage_annulet
  by (cases f) (auto simp: preimage_for_def, metis sum.inject(2))

section \<open>Properties\<close>

text \<open>a header preimage commits to the whole header and to the form: two headers of any two forms
  with one preimage are the same header of the same form, so distinct blocks can share a hash only
  by a hash collision. The hypotheses are the fixed array sizes of the Rust types.\<close>

theorem preimage_commits:
  assumes "wf_header a" and "wf_header b" and "preimage_for f a = Some p" and "preimage_for g b = Some p"
  shows "f = g \<and> a = b"
proof -
  have "f = g"
    using length_preimage [OF assms(1,3)] length_preimage [OF assms(2,4)] by (cases f; cases g) simp_all
  with assms preimage_for_inject show ?thesis by blast
qed

lemma preimage_commits_witness:
  "\<exists>p. preimage_for V4 \<lparr>prev = zero_hash, height = 1, timestamp = 2, difficulty = 3, nonce = 4, tx_body_commitment = zero_hash, ext = L1\<rparr> = Some p
     \<and> (\<forall>b. wf_header b \<longrightarrow> preimage_for V5 b \<noteq> Some p)"
proof -
  define a where "a = \<lparr>prev = zero_hash, height = 1, timestamp = 2, difficulty = 3, nonce = 4, tx_body_commitment = zero_hash, ext = L1\<rparr>"
  have "wf_header a" by (simp add: a_def wf_header_def wf_ext_def)
  moreover obtain p where "preimage_for V4 a = Some p" by (simp add: preimage_for_def preimage_v4_def a_def)
  ultimately show ?thesis using preimage_commits [of a _ V4 p V5] unfolding a_def [symmetric] by blast
qed

text \<open>the Annulet preimage reader accepts exactly what the writer produces: it returns a header
  if and only if the bytes are the preimage of that well-sized header, so parsing is canonical and
  no byte string is read as two headers.\<close>

theorem annulet_preimage_roundtrip:
  "from_annulet_preimage p = Ok h \<longleftrightarrow> wf_header h \<and> preimage_annulet h = Some p"
  using from_preimage_annulet preimage_from_annulet by blast

text \<open>the format version of a genesis file and its form determine each other, for the L1 forms and
  for the authenticated Annulet forms.\<close>

theorem form_version_roundtrip:
  "(form_of_version v = Some f \<longleftrightarrow> form_version f = v)
    \<and> (annulet_forms_of_version v = Some (g, a) \<longleftrightarrow> g = Annulet \<and> auth_genesis_format_version a = v)
    \<and> (\<exists>f2. forms_of_version (form_version f) = Some (f2, NoSections) \<and> f2 = f)"
  by (cases f; cases a)
    (auto simp: form_of_version_def form_version_def annulet_forms_of_version_def auth_genesis_format_version_def
      forms_of_version_def annulet_genesis_format_version_def annulet_auth_genesis_format_version_def
      annulet_auth_v3_genesis_format_version_def v6_genesis_format_version_def split: if_splits)

end
