(* ===== verification/Chain.thy ===== *)
theory Chain
  imports Header "HOL-Library.Option_ord"
begin

text \<open>
  The header chain of \<open>qlab-devnet/src/chain.rs\<close>: the block table, the main chain indexed by height,
  heaviest-chain fork choice and the finality gate on it. The header hash is the argument \<open>hh\<close> (in
  the program \<open>header_hash_for\<close> of the previous theory), so that the theorems hold for any hash; a
  panic (an absent key, a failed assertion) is \<open>None\<close>.
\<close>

record entry =
  e_header :: block_header
  cumulative_work :: u128

datatype insert_error = Duplicate | UnknownParent | BadHeight
datatype finalize_mark_error = Unknown | NotDescendantOfFinalized | NotAdvancingMark
datatype restore_finalized_error = UnknownFinalized | HeightMismatch u64 u64 | NotOnMainChain

record final_point =
  fp_hash :: hash32
  fp_height :: u64

record chain_state =
  blocks :: "(hash32 \<times> entry) list"
  genesis :: hash32
  tip :: hash32
  main_chain_by_height :: "hash32 list"
  finalized_point :: "final_point option"
  form :: genesis_form

type_synonym header_hash = "genesis_form \<Rightarrow> block_header \<Rightarrow> hash32 option"

definition get_block :: "chain_state \<Rightarrow> hash32 \<Rightarrow> entry option" where
  "get_block c h = map_of (blocks c) h"

definition chain_new_for :: "header_hash \<Rightarrow> genesis_form \<Rightarrow> block_header \<Rightarrow> chain_state option" where
  "chain_new_for hh f g =
    (if height g = 0 \<and> prev g = zero_hash
     then (case hh f g of
             None \<Rightarrow> None
           | Some hash \<Rightarrow>
               Some \<lparr>blocks = AList.update hash \<lparr>e_header = g, cumulative_work = u128_of (difficulty g)\<rparr> [],
                     genesis = hash, tip = hash, main_chain_by_height = [hash], finalized_point = None, form = f\<rparr>)
     else None)"

definition rekey_genesis :: "header_hash \<Rightarrow> chain_state \<Rightarrow> genesis_form \<Rightarrow> chain_state option" where
  "rekey_genesis hh c f =
    (if f = form c then Some c
     else if length (blocks c) = 1 \<and> finalized_point c = None
       then (case get_block c (genesis c) of None \<Rightarrow> None | Some e \<Rightarrow> chain_new_for hh f (e_header e))
       else None)"

definition tip_height :: "chain_state \<Rightarrow> u64 option" where
  "tip_height c = map_option (height \<circ> e_header) (get_block c (tip c))"

definition tip_work :: "chain_state \<Rightarrow> u128 option" where
  "tip_work c = map_option cumulative_work (get_block c (tip c))"

text \<open>\<open>ancestor\<close>: \<open>depth\<close> steps along \<open>prev\<close>; the block arrived at must be stored.\<close>

fun ancestor_loop :: "chain_state \<Rightarrow> hash32 \<Rightarrow> nat \<Rightarrow> hash32 option" where
  "ancestor_loop c cur 0 = (case get_block c cur of None \<Rightarrow> None | Some _ \<Rightarrow> Some cur)"
| "ancestor_loop c cur (Suc n) =
    (case get_block c cur of
       None \<Rightarrow> None
     | Some e \<Rightarrow> if height (e_header e) = 0 then None else ancestor_loop c (prev (e_header e)) n)"

definition ancestor :: "chain_state \<Rightarrow> hash32 \<Rightarrow> u64 \<Rightarrow> hash32 option" where
  "ancestor c hash depth = ancestor_loop c hash (unat depth)"

definition is_descendant_of :: "chain_state \<Rightarrow> hash32 \<Rightarrow> hash32 \<Rightarrow> u64 \<Rightarrow> bool" where
  "is_descendant_of c descendant anc anc_height =
    (case get_block c descendant of
       None \<Rightarrow> False
     | Some e \<Rightarrow>
         if height (e_header e) < anc_height then False
         else ancestor c descendant (height (e_header e) - anc_height) = Some anc)"

definition descends_from_finalized :: "chain_state \<Rightarrow> hash32 \<Rightarrow> bool" where
  "descends_from_finalized c block_hash =
    (case finalized_point c of
       None \<Rightarrow> True
     | Some f \<Rightarrow> is_descendant_of c block_hash (fp_hash f) (fp_height f))"

definition chain_finalized_height :: "chain_state \<Rightarrow> u64 option" where
  "chain_finalized_height c = map_option fp_height (finalized_point c)"

definition main_chain_hash_at :: "chain_state \<Rightarrow> u64 \<Rightarrow> hash32 option" where
  "main_chain_hash_at c h =
    (if unat h < length (main_chain_by_height c) then Some (main_chain_by_height c ! unat h) else None)"

text \<open>The loop of \<open>adopt_tip\<close> down to the fork point: \<open>None\<close> when it panics or does not end. It
  returns the fork height and the suffix in the order it was pushed.\<close>

partial_function (option) fork_walk ::
  "chain_state \<Rightarrow> hash32 \<Rightarrow> hash32 list \<Rightarrow> (nat \<times> hash32 list) option" where
  "fork_walk c cursor reversed_suffix =
    (case get_block c cursor of
       None \<Rightarrow> None
     | Some e \<Rightarrow>
         let h = unat (height (e_header e))
         in if h < length (main_chain_by_height c) \<and> main_chain_by_height c ! h = cursor
            then Some (h, reversed_suffix)
            else if height (e_header e) > 0 then fork_walk c (prev (e_header e)) (reversed_suffix @ [cursor])
            else None)"

definition adopt_tip :: "chain_state \<Rightarrow> hash32 \<Rightarrow> chain_state option" where
  "adopt_tip c new_tip =
    (case get_block c new_tip of
       None \<Rightarrow> None
     | Some e \<Rightarrow>
         let new_header = e_header e; new_height = unat (height new_header)
         in if prev new_header = tip c \<and> new_height = length (main_chain_by_height c)
            then Some (c\<lparr>main_chain_by_height := main_chain_by_height c @ [new_tip], tip := new_tip\<rparr>)
            else (case fork_walk c new_tip [] of
                    None \<Rightarrow> None
                  | Some (fork_height, reversed_suffix) \<Rightarrow>
                      let mc = take (fork_height + 1) (main_chain_by_height c) @ rev reversed_suffix
                      in if mc \<noteq> [] \<and> last mc = new_tip \<and> length mc = new_height + 1
                         then Some (c\<lparr>main_chain_by_height := mc, tip := new_tip\<rparr>)
                         else None))"

definition insert_weight :: "genesis_form \<Rightarrow> block_header \<Rightarrow> u128" where
  "insert_weight f h = (case f of V4 \<Rightarrow> u128_of (difficulty h) | V5 \<Rightarrow> u128_of (difficulty h) | Annulet \<Rightarrow> 1)"

definition insert_header :: "header_hash \<Rightarrow> chain_state \<Rightarrow> block_header
    \<Rightarrow> ((insert_error + hash32) \<times> chain_state) option" where
  "insert_header hh c header =
    (case hh (form c) header of
       None \<Rightarrow> None
     | Some hash \<Rightarrow>
         if get_block c hash \<noteq> None then Some (Err Duplicate, c)
         else (case get_block c (prev header) of
                 None \<Rightarrow> Some (Err UnknownParent, c)
               | Some parent \<Rightarrow>
                   if height header \<noteq> height (e_header parent) + 1 then Some (Err BadHeight, c)
                   else
                     let work = cumulative_work parent + insert_weight (form c) header;
                         c1 = c\<lparr>blocks := AList.update hash \<lparr>e_header = header, cumulative_work = work\<rparr> (blocks c)\<rparr>
                     in case tip_work c1 of
                          None \<Rightarrow> None
                        | Some tw \<Rightarrow>
                            if work > tw \<and> descends_from_finalized c1 hash
                            then map_option (\<lambda>c2. (Ok hash, c2)) (adopt_tip c1 hash)
                            else Some (Ok hash, c1)))"

text \<open>\<open>set_finalized\<close> after its checks: the point moves and a tip that left it is re-anchored.\<close>

definition move_finalized :: "chain_state \<Rightarrow> hash32 \<Rightarrow> u64 \<Rightarrow> chain_state option" where
  "move_finalized c hash h =
    (let c1 = c\<lparr>finalized_point := Some \<lparr>fp_hash = hash, fp_height = h\<rparr>\<rparr>
     in if descends_from_finalized c1 (tip c1) then Some c1 else adopt_tip c1 hash)"

definition set_finalized :: "chain_state \<Rightarrow> hash32 \<Rightarrow> ((finalize_mark_error + unit) \<times> chain_state) option" where
  "set_finalized c hash =
    (case get_block c hash of
       None \<Rightarrow> Some (Err Unknown, c)
     | Some e \<Rightarrow>
         let h = height (e_header e)
         in case finalized_point c of
              Some cur \<Rightarrow>
                if h \<le> fp_height cur then Some (Err NotAdvancingMark, c)
                else if \<not> is_descendant_of c hash (fp_hash cur) (fp_height cur)
                  then Some (Err NotDescendantOfFinalized, c)
                else map_option (\<lambda>c2. (Ok (), c2)) (move_finalized c hash h)
            | None \<Rightarrow> map_option (\<lambda>c2. (Ok (), c2)) (move_finalized c hash h))"

definition restore_finalized :: "chain_state \<Rightarrow> hash32 \<Rightarrow> u64 \<Rightarrow> (restore_finalized_error + unit) \<times> chain_state" where
  "restore_finalized c hash snapshot_height =
    (case get_block c hash of
       None \<Rightarrow> (Err UnknownFinalized, c)
     | Some e \<Rightarrow>
         if height (e_header e) \<noteq> snapshot_height
         then (Err (HeightMismatch snapshot_height (height (e_header e))), c)
         else if \<not> is_descendant_of c (tip c) hash snapshot_height then (Err NotOnMainChain, c)
         else (Ok (), c\<lparr>finalized_point := Some \<lparr>fp_hash = hash, fp_height = snapshot_height\<rparr>\<rparr>))"

section \<open>Paths to the genesis\<close>

text \<open>
  The shape of the block table: every block but the genesis has a stored parent one lower, and its
  work is its parent's plus its own; heights stay below the number of blocks, which is why they never
  wrap.
\<close>

definition block_height :: "entry \<Rightarrow> nat" where
  "block_height e = unat (height (e_header e))"

definition extends_parent :: "chain_state \<Rightarrow> entry \<Rightarrow> bool" where
  "extends_parent c e \<longleftrightarrow>
     (\<exists>p. get_block c (prev (e_header e)) = Some p \<and> block_height e = block_height p + 1
        \<and> cumulative_work e = cumulative_work p + insert_weight (form c) (e_header e))"

definition wf_blocks :: "chain_state \<Rightarrow> bool" where
  "wf_blocks c \<longleftrightarrow>
     hm_ok (blocks c)
     \<and> (\<exists>g. get_block c (genesis c) = Some g \<and> block_height g = 0)
     \<and> (\<forall>h e. get_block c h = Some e \<longrightarrow> block_height e < length (blocks c) \<and> (h = genesis c \<or> extends_parent c e))"

fun path_n :: "chain_state \<Rightarrow> hash32 \<Rightarrow> nat \<Rightarrow> hash32 list" where
  "path_n c h 0 = [h]"
| "path_n c h (Suc n) =
    (case get_block c h of None \<Rightarrow> [] | Some e \<Rightarrow> path_n c (prev (e_header e)) n @ [h])"

definition path :: "chain_state \<Rightarrow> hash32 \<Rightarrow> hash32 list" where
  "path c h = (case get_block c h of None \<Rightarrow> [] | Some e \<Rightarrow> path_n c h (block_height e))"

lemma height_0_iff: "height (e_header e) = 0 \<longleftrightarrow> block_height e = 0"
  by (simp add: block_height_def unat_eq_zero)

lemma block_parent:
  assumes "wf_blocks c" and "get_block c h = Some e" and "0 < block_height e"
  obtains p where "get_block c (prev (e_header e)) = Some p" "block_height e = block_height p + 1"
    "cumulative_work e = cumulative_work p + insert_weight (form c) (e_header e)"
proof -
  have "h \<noteq> genesis c" using assms by (auto simp: wf_blocks_def)
  with assms(1,2) have "extends_parent c e" by (auto simp: wf_blocks_def)
  then show thesis using that by (auto simp: extends_parent_def)
qed

lemma block_genesis:
  assumes "wf_blocks c" and "get_block c h = Some e" and "block_height e = 0"
  shows "h = genesis c"
proof -
  have "h = genesis c \<or> extends_parent c e" using assms(1,2) unfolding wf_blocks_def by blast
  with assms(3) show ?thesis by (auto simp: extends_parent_def)
qed

lemma path_0: "get_block c h = Some e \<Longrightarrow> block_height e = 0 \<Longrightarrow> path c h = [h]"
  by (simp add: path_def)

lemma path_Suc:
  assumes "get_block c h = Some e" and "get_block c (prev (e_header e)) = Some p" and "block_height e = block_height p + 1"
  shows "path c h = path c (prev (e_header e)) @ [h]"
  using assms by (simp add: path_def)

text \<open>Induction over the blocks from the genesis up.\<close>

lemma block_induct [consumes 2, case_names Genesis Child]:
  assumes "wf_blocks c" and "get_block c h = Some e"
    and gen: "\<And>e. get_block c (genesis c) = Some e \<Longrightarrow> block_height e = 0 \<Longrightarrow> P (genesis c) e"
    and child: "\<And>h e p. get_block c h = Some e \<Longrightarrow> get_block c (prev (e_header e)) = Some p
      \<Longrightarrow> block_height e = block_height p + 1
      \<Longrightarrow> cumulative_work e = cumulative_work p + insert_weight (form c) (e_header e)
      \<Longrightarrow> path c h = path c (prev (e_header e)) @ [h] \<Longrightarrow> P (prev (e_header e)) p \<Longrightarrow> P h e"
  shows "P h e"
  using assms(2)
proof (induction "block_height e" arbitrary: h e)
  case 0
  then have "h = genesis c" using block_genesis [OF assms(1)] by simp
  with 0 gen show ?case by simp
next
  case (Suc n)
  then obtain p where p: "get_block c (prev (e_header e)) = Some p" "block_height e = block_height p + 1"
      "cumulative_work e = cumulative_work p + insert_weight (form c) (e_header e)"
    using block_parent [OF assms(1) Suc.prems] by auto
  then show ?case using Suc child path_Suc [OF Suc.prems p(1,2)] by simp
qed

lemma path_length:
  "wf_blocks c \<Longrightarrow> get_block c h = Some e \<Longrightarrow> length (path c h) = Suc (block_height e)"
  by (induction rule: block_induct) (simp_all add: path_0)

lemma path_last:
  "wf_blocks c \<Longrightarrow> get_block c h = Some e \<Longrightarrow> path c h \<noteq> [] \<and> last (path c h) = h"
  by (induction rule: block_induct) (simp_all add: path_0)

lemma path_nth_self: "wf_blocks c \<Longrightarrow> get_block c h = Some e \<Longrightarrow> path c h ! block_height e = h"
  using path_length [of c h e] path_last [of c h e] by (metis diff_Suc_1 last_conv_nth)

lemma path_nth:
  assumes "wf_blocks c" and "get_block c h = Some e" and "i \<le> block_height e"
  shows "\<exists>a. get_block c (path c h ! i) = Some a \<and> block_height a = i \<and> path c (path c h ! i) = take (Suc i) (path c h)"
  using assms
proof (induction arbitrary: i rule: block_induct)
  case (Genesis e)
  then show ?case by (simp add: path_0)
next
  case (Child h e p)
  have len: "length (path c (prev (e_header e))) = Suc (block_height p)"
    using assms(1) Child(2) by (rule path_length)
  show ?case
  proof (cases "i \<le> block_height p")
    case True
    then show ?thesis using Child(5) Child(6) [OF True] len by (simp add: nth_append)
  next
    case False
    then have "i = block_height e" using Child by simp
    then show ?thesis using Child len by (simp add: nth_append)
  qed
qed

lemma ancestor_loop_path:
  "wf_blocks c \<Longrightarrow> get_block c h = Some e \<Longrightarrow>
    ancestor_loop c h d = (if d \<le> block_height e then Some (path c h ! (block_height e - d)) else None)"
proof (induction d arbitrary: h e)
  case 0
  then show ?case by (simp add: path_nth_self)
next
  case (Suc d)
  show ?case
  proof (cases "block_height e = 0")
    case True
    with Suc.prems show ?thesis by (simp add: height_0_iff)
  next
    case False
    then obtain p where p: "get_block c (prev (e_header e)) = Some p" "block_height e = block_height p + 1"
      using block_parent [OF Suc.prems] by auto
    have step: "ancestor_loop c h (Suc d) = ancestor_loop c (prev (e_header e)) d"
      using Suc.prems(2) False by (simp add: height_0_iff)
    have path: "path c h = path c (prev (e_header e)) @ [h]" using Suc.prems(2) p by (rule path_Suc)
    have "length (path c (prev (e_header e))) = Suc (block_height p)" using Suc.prems(1) p(1) by (rule path_length)
    then show ?thesis unfolding step path Suc.IH [OF Suc.prems(1) p(1)] using p(2) by (auto simp: nth_append)
  qed
qed

lemma is_descendant_path:
  assumes "wf_blocks c"
  shows "is_descendant_of c h a ah \<longleftrightarrow> (\<exists>e. get_block c h = Some e \<and> unat ah \<le> block_height e \<and> path c h ! unat ah = a)"
proof (cases "get_block c h")
  case (Some e)
  have "ancestor c h (height (e_header e) - ah) = Some a \<longleftrightarrow> path c h ! unat ah = a" if "ah \<le> height (e_header e)"
  proof -
    have "unat (height (e_header e) - ah) = block_height e - unat ah"
      using that by (simp add: unat_sub_le block_height_def)
    moreover have "unat ah \<le> block_height e" using that by (simp add: block_height_def word_le_nat_alt)
    ultimately show ?thesis by (simp add: ancestor_def ancestor_loop_path [OF assms Some])
  qed
  then show ?thesis using Some by (auto simp: is_descendant_of_def block_height_def word_nat_conv not_less)
qed (simp add: is_descendant_of_def)

text \<open>Paths and the shape of the table depend only on the blocks, the genesis and the form.\<close>

lemma same_blocks:
  assumes "blocks c' = blocks c"
  shows "get_block c' = get_block c" and "path c' = path c"
    and "genesis c' = genesis c \<Longrightarrow> form c' = form c \<Longrightarrow> wf_blocks c' = wf_blocks c"
proof -
  show g: "get_block c' = get_block c" using assms by (simp add: get_block_def fun_eq_iff)
  have pn: "path_n c' h n = path_n c h n" for h n by (induction n arbitrary: h) (simp_all add: g split: option.splits)
  show "path c' = path c" by (simp add: path_def g pn fun_eq_iff split: option.splits)
  show "genesis c' = genesis c \<Longrightarrow> form c' = form c \<Longrightarrow> wf_blocks c' = wf_blocks c"
    by (simp add: wf_blocks_def extends_parent_def g assms)
qed

lemma same_fork_walk:
  assumes "wf_blocks c" and "get_block c h = Some e"
    and "blocks c' = blocks c" and "main_chain_by_height c' = main_chain_by_height c"
  shows "fork_walk c' h s = fork_walk c h s"
  using assms(1,2)
proof (induction arbitrary: s rule: block_induct)
  case (Genesis e)
  then have "height (e_header e) = 0" by (simp add: height_0_iff)
  with Genesis show ?case
    by (subst (1 2) fork_walk.simps) (simp add: assms(4) same_blocks(1) [OF assms(3)] Let_def)
next
  case (Child h e p)
  then show ?case
    by (subst (1 2) fork_walk.simps) (simp add: assms(4) same_blocks(1) [OF assms(3)] Let_def)
qed

section \<open>The chain invariant\<close>

definition finalized_on :: "chain_state \<Rightarrow> hash32 \<Rightarrow> bool" where
  "finalized_on c h \<longleftrightarrow>
     (\<forall>f. finalized_point c = Some f \<longrightarrow> unat (fp_height f) < length (path c h) \<and> path c h ! unat (fp_height f) = fp_hash f)"

definition wf_chain :: "chain_state \<Rightarrow> bool" where
  "wf_chain c \<longleftrightarrow>
     wf_blocks c \<and> get_block c (tip c) \<noteq> None \<and> main_chain_by_height c = path c (tip c) \<and> finalized_on c (tip c)"

lemma descends_from_finalized_path:
  assumes "wf_blocks c" and "get_block c h = Some e"
  shows "descends_from_finalized c h \<longleftrightarrow> finalized_on c h"
  using assms
  by (auto simp: descends_from_finalized_def finalized_on_def is_descendant_path path_length less_Suc_eq_le split: option.splits)

lemma fork_walk_finds:
  assumes wf: "wf_chain c" and "get_block c h = Some e"
  shows "\<exists>j \<le> block_height e. fork_walk c h suf = Some (j, suf @ rev (drop (Suc j) (path c h)))
    \<and> j < length (main_chain_by_height c) \<and> main_chain_by_height c ! j = path c h ! j"
proof -
  have wb: "wf_blocks c" using wf by (simp add: wf_chain_def)
  show ?thesis using wb assms(2)
  proof (induction arbitrary: suf rule: block_induct)
    case (Genesis e)
    have "main_chain_by_height c ! 0 = genesis c \<and> 0 < length (main_chain_by_height c)"
    proof -
      obtain t where t: "get_block c (tip c) = Some t" and m: "main_chain_by_height c = path c (tip c)"
        using wf by (auto simp: wf_chain_def)
      obtain a where "get_block c (path c (tip c) ! 0) = Some a" "block_height a = 0"
        using path_nth [OF wb t, of 0] by auto
      then show ?thesis using block_genesis [OF wb] path_length [OF wb t] m by simp
    qed
    with Genesis show ?case by (subst fork_walk.simps) (simp add: path_0 flip: block_height_def)
  next
    case (Child h e p)
    note len = path_length [OF wb Child(2)]
    show ?case
    proof (cases "block_height e < length (main_chain_by_height c) \<and> main_chain_by_height c ! block_height e = h")
      case True
      then have "fork_walk c h suf = Some (block_height e, suf)"
        using Child(1) by (subst fork_walk.simps) (simp add: Let_def flip: block_height_def)
      with True Child len show ?thesis
        by (intro exI [of _ "block_height e"]) (simp add: nth_append)
    next
      case False
      have "height (e_header e) > 0" using Child(3) by (simp add: word_less_nat_alt block_height_def)
      with False Child(1) have step: "fork_walk c h suf = fork_walk c (prev (e_header e)) (suf @ [h])"
        by (subst fork_walk.simps) (auto simp: Let_def simp flip: block_height_def)
      obtain j where j: "j \<le> block_height p" "j < length (main_chain_by_height c)"
          "main_chain_by_height c ! j = path c (prev (e_header e)) ! j"
          "fork_walk c (prev (e_header e)) (suf @ [h]) = Some (j, (suf @ [h]) @ rev (drop (Suc j) (path c (prev (e_header e)))))"
        using Child(6) by blast
      then show ?thesis using Child(3,5) len step by (intro exI [of _ j]) (simp add: nth_append)
    qed
  qed
qed

lemma adopt_tip_path:
  assumes wf: "wf_chain c" and new: "get_block c new = Some e"
  shows "adopt_tip c new = Some (c\<lparr>main_chain_by_height := path c new, tip := new\<rparr>)"
proof -
  have wb: "wf_blocks c" and mc: "main_chain_by_height c = path c (tip c)" using wf by (auto simp: wf_chain_def)
  obtain t where t: "get_block c (tip c) = Some t" using wf by (auto simp: wf_chain_def)
  have len: "length (path c new) = block_height e + 1" using path_length [OF wb new] by simp
  show ?thesis
  proof (cases "prev (e_header e) = tip c \<and> block_height e = length (main_chain_by_height c)")
    case True
    then have "block_height e = block_height t + 1" using path_length [OF wb t] mc by simp
    then have "path c new = path c (tip c) @ [new]" using path_Suc [OF new] True t by simp
    with True show ?thesis by (simp add: adopt_tip_def new Let_def mc flip: block_height_def)
  next
    case False
    obtain j where j: "j \<le> block_height e" "fork_walk c new [] = Some (j, rev (drop (Suc j) (path c new)))"
        "j < length (main_chain_by_height c)" "main_chain_by_height c ! j = path c new ! j"
      using fork_walk_finds [OF wf new, of "[]"] by auto
    have "j \<le> block_height t" using j(3) mc path_length [OF wb t] by simp
    then have "take (Suc j) (path c (tip c)) = path c (path c (tip c) ! j)" using path_nth [OF wb t, of j] by auto
    also have "\<dots> = take (Suc j) (path c new)" using path_nth [OF wb new j(1)] j(4) mc by auto
    finally have "take (j + 1) (main_chain_by_height c) @ rev (rev (drop (Suc j) (path c new))) = path c new"
      by (simp add: mc)
    with False len path_last [OF wb new] j(1,3) show ?thesis
      by (auto simp: adopt_tip_def new Let_def j(2) simp flip: block_height_def)
  qed
qed

lemma adopt_tip_wf:
  assumes wf: "wf_chain c" and new: "get_block c new = Some e" and f: "finalized_on c new"
  shows "wf_chain (c\<lparr>main_chain_by_height := path c new, tip := new\<rparr>)"
proof -
  define c' where "c' = c\<lparr>main_chain_by_height := path c new, tip := new\<rparr>"
  have sel: "blocks c' = blocks c" "genesis c' = genesis c" "form c' = form c" by (simp_all add: c'_def)
  note g = same_blocks(1) [OF sel(1)] and p = same_blocks(2) [OF sel(1)]
  have "wf_blocks c'" using wf same_blocks(3) [OF sel] by (simp add: wf_chain_def)
  with f new have "wf_chain c'" by (simp add: wf_chain_def finalized_on_def p g) (simp add: c'_def)
  then show ?thesis by (simp add: c'_def)
qed

section \<open>Adding a block\<close>

definition with_block :: "chain_state \<Rightarrow> hash32 \<Rightarrow> entry \<Rightarrow> chain_state" where
  "with_block c hash e = c\<lparr>blocks := AList.update hash e (blocks c)\<rparr>"

lemma get_with_block [simp]: "get_block (with_block c hash e) h = (if h = hash then Some e else get_block c h)"
  by (simp add: get_block_def with_block_def update_conv')

lemma with_block_sel [simp]:
  "genesis (with_block c hash e) = genesis c" "tip (with_block c hash e) = tip c"
  "main_chain_by_height (with_block c hash e) = main_chain_by_height c"
  "finalized_point (with_block c hash e) = finalized_point c" "form (with_block c hash e) = form c"
  by (simp_all add: with_block_def)

lemma path_with_block:
  assumes wb: "wf_blocks c" and "get_block c h = Some e" and fresh: "get_block c hash = None"
  shows "path (with_block c hash x) h = path c h"
  using wb assms(2)
proof (induction rule: block_induct)
  case (Genesis e)
  then have "genesis c \<noteq> hash" using fresh by auto
  with Genesis show ?case by (simp add: path_0)
next
  case (Child h e p)
  then have "h \<noteq> hash" "prev (e_header e) \<noteq> hash" using fresh by auto
  with Child show ?case using path_Suc [of "with_block c hash x" h e p] by simp
qed

lemma wf_with_block:
  assumes wf: "wf_chain c" and fresh: "get_block c hash = None" and parent: "get_block c (prev hdr) = Some p"
    and ht: "height hdr = height (e_header p) + 1" and small: "length (blocks c) < 2 ^ 63"
    and e: "e = \<lparr>e_header = hdr, cumulative_work = cumulative_work p + insert_weight (form c) hdr\<rparr>"
  shows "wf_chain (with_block c hash e)" and "length (blocks (with_block c hash e)) = Suc (length (blocks c))"
    and "block_height e = block_height p + 1"
proof -
  have wb: "wf_blocks c" using wf by (simp add: wf_chain_def)
  have ok: "hm_ok (blocks c)" using wb by (simp add: wf_blocks_def)
  show len: "length (blocks (with_block c hash e)) = Suc (length (blocks c))"
    using hm.size_put_new [OF ok] fresh by (simp add: with_block_def get_block_def)
  have hp: "block_height p < length (blocks c)" using wb parent by (auto simp: wf_blocks_def)
  then have "unat (height (e_header p)) + 1 < 2 ^ 64" using small by (simp add: block_height_def)
  then show he: "block_height e = block_height p + 1"
    by (simp add: e block_height_def ht unat_plus_1)
  have "get_block (with_block c hash e) h = Some x \<longrightarrow>
      block_height x < length (blocks (with_block c hash e)) \<and> (h = genesis c \<or> extends_parent (with_block c hash e) x)" for h x
  proof (intro impI)
    assume get: "get_block (with_block c hash e) h = Some x"
    show "block_height x < length (blocks (with_block c hash e)) \<and> (h = genesis c \<or> extends_parent (with_block c hash e) x)"
    proof (cases "h = hash")
      case True
      then have "x = e" using get by simp
      moreover have "prev hdr \<noteq> hash" using fresh parent by auto
      ultimately show ?thesis using hp parent he len by (simp add: extends_parent_def e)
    next
      case False
      then have old: "get_block c h = Some x" using get by simp
      then have "block_height x < length (blocks c)" "h = genesis c \<or> extends_parent c x"
        using wb by (auto simp: wf_blocks_def)
      then show ?thesis using len fresh by (auto simp: extends_parent_def)
    qed
  qed
  moreover have "hm_ok (blocks (with_block c hash e))" using ok by (simp add: with_block_def hm.ok_put)
  moreover have "genesis c \<noteq> hash" using wb fresh by (auto simp: wf_blocks_def)
  ultimately have "wf_blocks (with_block c hash e)" using wb by (simp add: wf_blocks_def)
  moreover obtain t where t: "get_block c (tip c) = Some t" using wf by (auto simp: wf_chain_def)
  moreover have "path (with_block c hash e) (tip c) = path c (tip c)" using wb t fresh by (rule path_with_block)
  ultimately show "wf_chain (with_block c hash e)" using wf fresh by (auto simp: wf_chain_def finalized_on_def)
qed

text \<open>What an insertion does, on every branch.\<close>

lemma insert_header_effect:
  assumes wf: "wf_chain c" and small: "length (blocks c) < 2 ^ 63" and "hh (form c) hdr = Some hash"
  shows "(\<exists>err. insert_header hh c hdr = Some (Err err, c))
    \<or> (\<exists>e c1. get_block c hash = None \<and> e_header e = hdr \<and> c1 = with_block c hash e \<and> wf_chain c1
        \<and> length (blocks c1) = Suc (length (blocks c))
        \<and> (if cumulative_work (the (get_block c (tip c))) < cumulative_work e \<and> finalized_on c1 hash
           then insert_header hh c hdr = Some (Ok hash, c1\<lparr>main_chain_by_height := path c1 hash, tip := hash\<rparr>)
             \<and> wf_chain (c1\<lparr>main_chain_by_height := path c1 hash, tip := hash\<rparr>)
           else insert_header hh c hdr = Some (Ok hash, c1)))"
proof (cases "get_block c hash \<noteq> None \<or> get_block c (prev hdr) = None
    \<or> height hdr \<noteq> height (e_header (the (get_block c (prev hdr)))) + 1")
  case True
  then show ?thesis using assms(3) by (auto simp: insert_header_def split: option.splits)
next
  case False
  then obtain p where fresh: "get_block c hash = None" and p: "get_block c (prev hdr) = Some p"
      and ht: "height hdr = height (e_header p) + 1" by auto
  define e where "e = \<lparr>e_header = hdr, cumulative_work = cumulative_work p + insert_weight (form c) hdr\<rparr>"
  define c1 where "c1 = with_block c hash e"
  have wf1: "wf_chain c1" "length (blocks c1) = Suc (length (blocks c))"
    unfolding c1_def using wf_with_block [OF wf fresh p ht small e_def] by auto
  have wb1: "wf_blocks c1" using wf1(1) by (simp add: wf_chain_def)
  have ge: "get_block c1 hash = Some e" by (simp add: c1_def)
  have "tip c \<noteq> hash" using wf fresh by (auto simp: wf_chain_def)
  then have tw: "tip_work c1 = Some (cumulative_work (the (get_block c (tip c))))"
    using wf by (auto simp: tip_work_def c1_def wf_chain_def)
  have desc: "descends_from_finalized c1 hash \<longleftrightarrow> finalized_on c1 hash"
    using wb1 ge by (rule descends_from_finalized_path)
  have ins: "insert_header hh c hdr =
      (if cumulative_work (the (get_block c (tip c))) < cumulative_work e \<and> finalized_on c1 hash
       then map_option (\<lambda>c2. (Ok hash, c2)) (adopt_tip c1 hash) else Some (Ok hash, c1))"
    using fresh p ht tw by (simp add: insert_header_def assms(3) Let_def e_def [symmetric] with_block_def [symmetric] c1_def [symmetric] desc)
      (simp add: e_def)
  have "e_header e = hdr" by (simp add: e_def)
  moreover have "adopt_tip c1 hash = Some (c1\<lparr>main_chain_by_height := path c1 hash, tip := hash\<rparr>)"
    using wf1(1) ge by (rule adopt_tip_path)
  moreover have "finalized_on c1 hash \<Longrightarrow> wf_chain (c1\<lparr>main_chain_by_height := path c1 hash, tip := hash\<rparr>)"
    using wf1(1) ge by (rule adopt_tip_wf)
  ultimately show ?thesis using fresh wf1 ins c1_def by (intro disjI2 exI [of _ e] exI [of _ c1]) simp
qed

section \<open>Moving finality\<close>

definition finalized_at :: "chain_state \<Rightarrow> hash32 \<Rightarrow> entry \<Rightarrow> chain_state" where
  "finalized_at c hash e = c\<lparr>finalized_point := Some \<lparr>fp_hash = hash, fp_height = height (e_header e)\<rparr>\<rparr>"

lemma move_finalized_effect:
  assumes wf: "wf_chain c" and e: "get_block c hash = Some e"
  shows "\<exists>c'. move_finalized c hash (height (e_header e)) = Some c' \<and> wf_chain c' \<and> blocks c' = blocks c
    \<and> genesis c' = genesis c \<and> form c' = form c
    \<and> finalized_point c' = Some \<lparr>fp_hash = hash, fp_height = height (e_header e)\<rparr>
    \<and> (if hash \<in> set (main_chain_by_height c) then tip c' = tip c else tip c' = hash)"
proof -
  define c1 where "c1 = finalized_at c hash e"
  have sel: "tip c1 = tip c" "main_chain_by_height c1 = main_chain_by_height c" "blocks c1 = blocks c"
    "genesis c1 = genesis c" "form c1 = form c"
    "finalized_point c1 = Some \<lparr>fp_hash = hash, fp_height = height (e_header e)\<rparr>"
    by (simp_all add: c1_def finalized_at_def)
  note same = same_blocks [OF sel(3)] same_blocks(3) [OF sel(3-5)]
  have wb: "wf_blocks c" and mc: "main_chain_by_height c = path c (tip c)" using wf by (auto simp: wf_chain_def)
  obtain t where t: "get_block c (tip c) = Some t" using wf by (auto simp: wf_chain_def)
  have on: "finalized_on c1 h \<longleftrightarrow> block_height e < length (path c h) \<and> path c h ! block_height e = hash" for h
    by (simp add: finalized_on_def sel same block_height_def)
  have main: "finalized_on c1 (tip c) \<longleftrightarrow> hash \<in> set (main_chain_by_height c)"
  proof
    assume "hash \<in> set (main_chain_by_height c)"
    then obtain i where i: "i < length (path c (tip c))" "path c (tip c) ! i = hash"
      by (auto simp: mc in_set_conv_nth)
    then obtain a where "get_block c hash = Some a" "block_height a = i"
      using path_nth [OF wb t, of i] path_length [OF wb t] by auto
    with i e show "finalized_on c1 (tip c)" by (simp add: on)
  qed (auto simp: on mc)
  have desc: "descends_from_finalized c1 (tip c1) \<longleftrightarrow> finalized_on c1 (tip c)"
    using descends_from_finalized_path [of c1 "tip c1" t] wb t by (simp add: same sel)
  have move: "move_finalized c hash (height (e_header e))
      = (if finalized_on c1 (tip c) then Some c1 else adopt_tip c1 hash)"
    using desc by (simp add: move_finalized_def Let_def c1_def finalized_at_def)
  show ?thesis
  proof (cases "hash \<in> set (main_chain_by_height c)")
    case True
    with main have "finalized_on c1 (tip c)" by simp
    moreover from this have "wf_chain c1" using wb t mc by (simp add: wf_chain_def same sel)
    ultimately show ?thesis using move True sel by simp
  next
    case False
    have "adopt_tip c1 hash = map_option (\<lambda>x. c1\<lparr>main_chain_by_height := main_chain_by_height x, tip := tip x\<rparr>) (adopt_tip c hash)"
      using same_fork_walk [OF wb e sel(3,2)] by (auto simp: adopt_tip_def sel same(1) Let_def e split: option.splits)
    then have adopt: "adopt_tip c1 hash = Some (c1\<lparr>main_chain_by_height := path c hash, tip := hash\<rparr>)"
      using adopt_tip_path [OF wf e] by simp
    define c3 where "c3 = c1\<lparr>main_chain_by_height := path c hash, tip := hash\<rparr>"
    have sel3: "blocks c3 = blocks c" "genesis c3 = genesis c" "form c3 = form c" by (simp_all add: c3_def sel)
    note g3 = same_blocks(1) [OF sel3(1)] and p3 = same_blocks(2) [OF sel3(1)]
    have "wf_blocks c3" using wb same_blocks(3) [OF sel3] by simp
    moreover have "finalized_on c3 hash"
      using path_nth_self [OF wb e] path_length [OF wb e]
      by (simp add: finalized_on_def p3) (simp add: c3_def sel block_height_def)
    ultimately have "wf_chain c3" using e by (simp add: wf_chain_def p3 g3) (simp add: c3_def)
    then show ?thesis using move main False adopt sel by (simp add: c3_def)
  qed
qed

lemma set_finalized_effect:
  assumes wf: "wf_chain c"
  shows "(\<exists>err. set_finalized c hash = Some (Err err, c))
    \<or> (\<exists>e c'. get_block c hash = Some e \<and> set_finalized c hash = Some (Ok (), c') \<and> wf_chain c'
        \<and> (\<forall>f. finalized_point c = Some f \<longrightarrow> fp_height f < height (e_header e) \<and> finalized_on c hash)
        \<and> blocks c' = blocks c \<and> genesis c' = genesis c \<and> form c' = form c
        \<and> finalized_point c' = Some \<lparr>fp_hash = hash, fp_height = height (e_header e)\<rparr>
        \<and> (if hash \<in> set (main_chain_by_height c) then tip c' = tip c else tip c' = hash))"
proof (cases "get_block c hash")
  case None
  then show ?thesis by (simp add: set_finalized_def)
next
  case (Some e)
  have wb: "wf_blocks c" using wf by (simp add: wf_chain_def)
  show ?thesis
  proof (cases "\<exists>f. finalized_point c = Some f \<and> (height (e_header e) \<le> fp_height f \<or> \<not> descends_from_finalized c hash)")
    case True
    then have "\<exists>err. set_finalized c hash = Some (Err err, c)"
      using Some by (auto simp: set_finalized_def descends_from_finalized_def Let_def)
    then show ?thesis by blast
  next
    case False
    then have "set_finalized c hash = map_option (\<lambda>c2. (Ok (), c2)) (move_finalized c hash (height (e_header e)))"
      using Some by (auto simp: set_finalized_def descends_from_finalized_def Let_def split: option.splits)
    moreover have "\<forall>f. finalized_point c = Some f \<longrightarrow> fp_height f < height (e_header e) \<and> finalized_on c hash"
      using False descends_from_finalized_path [OF wb Some] by (auto simp: not_le)
    ultimately show ?thesis using move_finalized_effect [OF wf Some] Some by auto
  qed
qed

section \<open>Reachable chains\<close>

inductive chain_step :: "header_hash \<Rightarrow> chain_state \<Rightarrow> chain_state \<Rightarrow> bool" for hh where
  Insert: "insert_header hh c hdr = Some (r, c') \<Longrightarrow> chain_step hh c c'"
| Mark: "set_finalized c hash = Some (r', c') \<Longrightarrow> chain_step hh c c'"

inductive_cases chain_stepE: "chain_step hh c c'"

text \<open>What every operation keeps, whether it succeeds or not.\<close>

definition keeps :: "chain_state \<Rightarrow> chain_state \<Rightarrow> bool" where
  "keeps c c' \<longleftrightarrow>
     wf_chain c' \<and> genesis c' = genesis c \<and> form c' = form c
     \<and> (\<forall>h e. get_block c h = Some e \<longrightarrow> get_block c' h = Some e)
     \<and> (\<forall>f. finalized_point c = Some f \<longrightarrow>
          (\<exists>f'. finalized_point c' = Some f' \<and> fp_height f \<le> fp_height f')
          \<and> take (Suc (unat (fp_height f))) (main_chain_by_height c') = take (Suc (unat (fp_height f))) (main_chain_by_height c))"

lemma keepsD:
  assumes "keeps c c'"
  shows "wf_chain c'" and "genesis c' = genesis c" and "form c' = form c"
    and "\<forall>h e. get_block c h = Some e \<longrightarrow> get_block c' h = Some e"
  by (insert assms, unfold keeps_def, elim conjE, assumption)+

lemma keeps_refl: "wf_chain c \<Longrightarrow> keeps c c"
  by (simp add: keeps_def)

lemma finalized_prefix:
  assumes "wf_blocks c" and "get_block c h = Some e" and "finalized_point c = Some f" and "finalized_on c h"
  shows "take (Suc (unat (fp_height f))) (path c h) = path c (fp_hash f)"
  using path_nth [OF assms(1,2), of "unat (fp_height f)"] path_length [OF assms(1,2)] assms(3,4)
  by (auto simp: finalized_on_def)

lemma insert_keeps:
  assumes wf: "wf_chain c" and small: "length (blocks c) < 2 ^ 63" and ins: "insert_header hh c hdr = Some (r, c')"
  shows "keeps c c' \<and> length (blocks c) \<le> length (blocks c')"
proof -
  have wb: "wf_blocks c" and mc: "main_chain_by_height c = path c (tip c)" and on: "finalized_on c (tip c)"
    using wf by (auto simp: wf_chain_def)
  obtain t where t: "get_block c (tip c) = Some t" using wf by (auto simp: wf_chain_def)
  obtain hash where hash: "hh (form c) hdr = Some hash"
    using ins by (auto simp: insert_header_def split: option.splits)
  from insert_header_effect [OF wf small, of hh hdr, OF hash] show ?thesis
  proof (elim disjE exE conjE)
    fix err assume "insert_header hh c hdr = Some (Err err, c)"
    then show ?thesis using ins wf by (simp add: keeps_refl)
  next
    fix e c1 assume fresh: "get_block c hash = None" and c1: "c1 = with_block c hash e"
      and wf1: "wf_chain c1" "length (blocks c1) = Suc (length (blocks c))"
      and res: "if cumulative_work (the (get_block c (tip c))) < cumulative_work e \<and> finalized_on c1 hash
        then insert_header hh c hdr = Some (Ok hash, c1\<lparr>main_chain_by_height := path c1 hash, tip := hash\<rparr>)
          \<and> wf_chain (c1\<lparr>main_chain_by_height := path c1 hash, tip := hash\<rparr>)
        else insert_header hh c hdr = Some (Ok hash, c1)"
    have kept: "\<forall>h e'. get_block c h = Some e' \<longrightarrow> get_block c1 h = Some e'" using fresh by (auto simp: c1)
    have wb1: "wf_blocks c1" using wf1 by (simp add: wf_chain_def)
    have t1: "get_block c1 (tip c) = Some t" using kept t by blast
    have old: "path c1 (tip c) = path c (tip c)" unfolding c1 using wb t fresh by (rule path_with_block)
    have sel: "finalized_point c1 = finalized_point c" "main_chain_by_height c1 = main_chain_by_height c"
      "genesis c1 = genesis c" "form c1 = form c"
      by (simp_all add: c1)
    show ?thesis
    proof (cases "cumulative_work (the (get_block c (tip c))) < cumulative_work e \<and> finalized_on c1 hash")
      case True
      with res ins have c': "c' = c1\<lparr>main_chain_by_height := path c1 hash, tip := hash\<rparr>" and wf': "wf_chain c'" by auto
      have ge: "get_block c1 hash = Some e" by (simp add: c1)
      have "take (Suc (unat (fp_height f))) (path c1 hash) = take (Suc (unat (fp_height f))) (main_chain_by_height c)"
        if f: "finalized_point c = Some f" for f
      proof -
        have "finalized_on c1 (tip c)" using on f by (simp add: finalized_on_def sel old)
        then show ?thesis
          using finalized_prefix [OF wb1 ge, of f] finalized_prefix [OF wb1 t1, of f] True f
          by (simp add: sel mc old)
      qed
      then show ?thesis using wf' kept wf1(2)
        by (simp add: keeps_def c' sel get_block_def)
    next
      case False
      with res ins have "c' = c1" by auto
      with wf1 kept sel show ?thesis by (simp add: keeps_def)
    qed
  qed
qed

lemma set_finalized_keeps:
  assumes wf: "wf_chain c" and set: "set_finalized c hash = Some (r, c')"
  shows "keeps c c' \<and> length (blocks c) \<le> length (blocks c')"
proof -
  have wb: "wf_blocks c" and mc: "main_chain_by_height c = path c (tip c)" and on: "finalized_on c (tip c)"
    using wf by (auto simp: wf_chain_def)
  obtain t where t: "get_block c (tip c) = Some t" using wf by (auto simp: wf_chain_def)
  from set_finalized_effect [OF wf, of hash] show ?thesis
  proof (elim disjE exE conjE)
    fix err assume "set_finalized c hash = Some (Err err, c)"
    then show ?thesis using set wf by (simp add: keeps_refl)
  next
    fix e c2 assume e: "get_block c hash = Some e" and res: "set_finalized c hash = Some (Ok (), c2)"
      and wf2: "wf_chain c2" and above: "\<forall>f. finalized_point c = Some f \<longrightarrow> fp_height f < height (e_header e) \<and> finalized_on c hash"
      and sel: "blocks c2 = blocks c" "genesis c2 = genesis c" "form c2 = form c"
        "finalized_point c2 = Some \<lparr>fp_hash = hash, fp_height = height (e_header e)\<rparr>"
      and tip: "if hash \<in> set (main_chain_by_height c) then tip c2 = tip c else tip c2 = hash"
    have c': "c' = c2" using set res by simp
    have mc2: "main_chain_by_height c2 = path c (tip c2)"
      using wf2 same_blocks(2) [OF sel(1)] by (simp add: wf_chain_def)
    have "take (Suc (unat (fp_height f))) (main_chain_by_height c2) = take (Suc (unat (fp_height f))) (main_chain_by_height c)"
      if f: "finalized_point c = Some f" for f
      using tip finalized_prefix [OF wb e f] finalized_prefix [OF wb t f] above f on mc mc2 by (auto split: if_splits)
    then show ?thesis using c' wf2 sel above same_blocks(1) [OF sel(1)] by (auto simp: keeps_def less_imp_le)
  qed
qed

lemma chain_step_keeps:
  "chain_step hh c c' \<Longrightarrow> wf_chain c \<Longrightarrow> length (blocks c) < 2 ^ 63 \<Longrightarrow> keeps c c' \<and> length (blocks c) \<le> length (blocks c')"
  by (erule chain_stepE) (auto dest: insert_keeps set_finalized_keeps)

text \<open>Blocks are never dropped, whatever the state, so the bound on their number is needed only at
  the end of a run.\<close>

lemma adopt_tip_blocks: "adopt_tip c h = Some c' \<Longrightarrow> blocks c' = blocks c"
  by (auto simp: adopt_tip_def Let_def split: option.splits if_splits)

lemma update_length: "length al \<le> length (AList.update k v al)"
  by (induction al) auto

lemma chain_step_blocks: "chain_step hh c c' \<Longrightarrow> length (blocks c) \<le> length (blocks c')"
proof (erule chain_stepE)
  fix hdr r assume "insert_header hh c hdr = Some (r, c')"
  then show ?thesis
    by (auto simp: insert_header_def Let_def update_length split: option.splits if_splits dest!: adopt_tip_blocks)
next
  fix hash r assume "set_finalized c hash = Some (r, c')"
  then show ?thesis
    by (auto simp: set_finalized_def move_finalized_def Let_def split: option.splits if_splits dest!: adopt_tip_blocks)
qed

lemma keeps_trans:
  assumes "keeps a b" and "keeps b c"
  shows "keeps a c"
proof -
  have "(\<exists>f'. finalized_point c = Some f' \<and> fp_height f \<le> fp_height f')
      \<and> take (Suc (unat (fp_height f))) (main_chain_by_height c) = take (Suc (unat (fp_height f))) (main_chain_by_height a)"
    if f: "finalized_point a = Some f" for f
  proof -
    obtain f' where f': "finalized_point b = Some f'" "fp_height f \<le> fp_height f'"
        "take (Suc (unat (fp_height f))) (main_chain_by_height b) = take (Suc (unat (fp_height f))) (main_chain_by_height a)"
      using assms(1) f by (auto simp: keeps_def)
    obtain f2 where f2: "finalized_point c = Some f2" "fp_height f' \<le> fp_height f2"
        "take (Suc (unat (fp_height f'))) (main_chain_by_height c) = take (Suc (unat (fp_height f'))) (main_chain_by_height b)"
      using assms(2) f' by (auto simp: keeps_def)
    have "Suc (unat (fp_height f)) \<le> Suc (unat (fp_height f'))" using f'(2) by (simp add: word_le_nat_alt)
    then have "take (Suc (unat (fp_height f))) (main_chain_by_height c) = take (Suc (unat (fp_height f))) (main_chain_by_height b)"
      using arg_cong [OF f2(3), of "take (Suc (unat (fp_height f)))"] by (simp only: take_take min.absorb1)
    with f'(2,3) f2(1,2) show ?thesis by (intro conjI exI [of _ f2]) (simp_all add: order_trans [of _ "fp_height f'"])
  qed
  then have "\<forall>f. finalized_point a = Some f \<longrightarrow>
      (\<exists>f'. finalized_point c = Some f' \<and> fp_height f \<le> fp_height f')
      \<and> take (Suc (unat (fp_height f))) (main_chain_by_height c) = take (Suc (unat (fp_height f))) (main_chain_by_height a)"
    by blast
  then show ?thesis
    unfolding keeps_def [of a c] using keepsD [OF assms(1)] keepsD [OF assms(2)] by (intro conjI; simp)
qed

lemma chain_run_blocks: "(chain_step hh)\<^sup>*\<^sup>* c c' \<Longrightarrow> length (blocks c) \<le> length (blocks c')"
  by (induction rule: rtranclp_induct) (auto dest: chain_step_blocks)

lemma chain_run_keeps:
  assumes "(chain_step hh)\<^sup>*\<^sup>* c c'" and "wf_chain c" and "length (blocks c') < 2 ^ 63"
  shows "keeps c c'"
  using assms
proof (induction rule: rtranclp_induct)
  case base
  then show ?case by (simp add: keeps_refl)
next
  case (step y z)
  have small: "length (blocks y) < 2 ^ 63" using chain_step_blocks [OF step(2)] step(5) by simp
  then have "keeps c y" using step by simp
  moreover have "keeps y z"
    using chain_step_keeps [OF step(2) _ small] \<open>keeps c y\<close> by (auto simp: keeps_def)
  ultimately show ?case by (rule keeps_trans)
qed

lemma wf_chain_new:
  assumes "chain_new_for hh f g = Some c"
  shows "wf_chain c"
proof -
  obtain hash where c: "c = \<lparr>blocks = [(hash, \<lparr>e_header = g, cumulative_work = u128_of (difficulty g)\<rparr>)],
      genesis = hash, tip = hash, main_chain_by_height = [hash], finalized_point = None, form = f\<rparr>"
      and g: "height g = 0"
    using assms by (auto simp: chain_new_for_def split: option.splits if_splits)
  have get: "get_block c h = (if h = hash then Some \<lparr>e_header = g, cumulative_work = u128_of (difficulty g)\<rparr> else None)" for h
    by (simp add: get_block_def c)
  have "wf_blocks c" by (simp add: wf_blocks_def get block_height_def g) (simp add: c hm_ok_def)
  moreover have "path c hash = [hash]" by (rule path_0 [OF get [THEN trans, OF if_P, OF refl]]) (simp add: block_height_def g)
  ultimately show ?thesis by (simp add: wf_chain_def finalized_on_def get) (simp add: c)
qed

section \<open>The heaviest tip\<close>

text \<open>The blocks that fork choice compares: \<open>contenders hh c0 c S\<close> runs from \<open>c0\<close> to \<open>c\<close> and
  collects in \<open>S\<close> the blocks stored along the way. A finality mark off the main chain makes its block
  the tip whatever the work of the others, so the comparison starts again at that block.\<close>

inductive contenders :: "header_hash \<Rightarrow> chain_state \<Rightarrow> chain_state \<Rightarrow> hash32 set \<Rightarrow> bool" for hh c0 where
  Start: "contenders hh c0 c0 {tip c0}"
| Stored: "contenders hh c0 c S \<Longrightarrow> insert_header hh c hdr = Some (Ok hash, c') \<Longrightarrow> contenders hh c0 c' (insert hash S)"
| Refused: "contenders hh c0 c S \<Longrightarrow> insert_header hh c hdr = Some (Err e, c') \<Longrightarrow> contenders hh c0 c' S"
| Mark_Main: "contenders hh c0 c S \<Longrightarrow> hash \<in> set (main_chain_by_height c)
    \<Longrightarrow> set_finalized c hash = Some (Ok (), c') \<Longrightarrow> contenders hh c0 c' S"
| Mark_Side: "contenders hh c0 c S \<Longrightarrow> hash \<notin> set (main_chain_by_height c)
    \<Longrightarrow> set_finalized c hash = Some (Ok (), c') \<Longrightarrow> contenders hh c0 c' {hash}"
| Mark_Refused: "contenders hh c0 c S \<Longrightarrow> set_finalized c hash = Some (Err e', c') \<Longrightarrow> contenders hh c0 c' S"

text \<open>Every run has its contenders; a run whose marks are all on the main chain has every block it
  stored among them.\<close>

lemma contenders_step:
  assumes "contenders hh c0 c S" and "chain_step hh c c'"
  shows "\<exists>S'. contenders hh c0 c' S'"
  using assms(2)
proof cases
  case (Insert hdr r)
  then show ?thesis using assms(1) by (cases r) (auto intro: contenders.intros)
next
  case (Mark hash r)
  then show ?thesis using assms(1) by (cases r; cases "hash \<in> set (main_chain_by_height c)") (auto intro: contenders.intros)
qed

lemma contenders_exist:
  assumes "(chain_step hh)\<^sup>*\<^sup>* c0 c"
  shows "\<exists>S. contenders hh c0 c S"
  using assms by (induction rule: rtranclp_induct) (blast intro: contenders.Start contenders_step)+

lemma contenders_run: "contenders hh c0 c S \<Longrightarrow> (chain_step hh)\<^sup>*\<^sup>* c0 c"
  by (induction rule: contenders.induct) (auto intro: chain_step.intros rtranclp.rtrancl_into_rtrancl)

definition work_of :: "chain_state \<Rightarrow> hash32 \<Rightarrow> u128" where
  "work_of c h = cumulative_work (the (get_block c h))"

definition heaviest :: "hash32 set \<Rightarrow> chain_state \<Rightarrow> bool" where
  "heaviest S c \<longleftrightarrow> tip c \<in> S
    \<and> (\<forall>h \<in> S. get_block c h \<noteq> None \<and> (finalized_on c h \<longrightarrow> work_of c h \<le> work_of c (tip c)))"

lemma insert_heaviest:
  assumes wf: "wf_chain c" and small: "length (blocks c) < 2 ^ 63" and ins: "insert_header hh c hdr = Some (Ok hash, c')"
    and heavy: "heaviest S c"
  shows "heaviest (insert hash S) c'"
proof -
  have wb: "wf_blocks c" using wf by (simp add: wf_chain_def)
  obtain t where t: "get_block c (tip c) = Some t" using wf by (auto simp: wf_chain_def)
  have hash: "hh (form c) hdr = Some hash"
    using ins by (auto simp: insert_header_def Let_def split: option.splits if_splits)
  from insert_header_effect [OF wf small, of hh hdr, OF hash] show ?thesis
  proof (elim disjE exE conjE)
    fix err assume "insert_header hh c hdr = Some (Err err, c)"
    then show ?thesis using ins by simp
  next
    fix e c1 assume fresh: "get_block c hash = None" and c1: "c1 = with_block c hash e"
      and res: "if cumulative_work (the (get_block c (tip c))) < cumulative_work e \<and> finalized_on c1 hash
        then insert_header hh c hdr = Some (Ok hash, c1\<lparr>main_chain_by_height := path c1 hash, tip := hash\<rparr>)
          \<and> wf_chain (c1\<lparr>main_chain_by_height := path c1 hash, tip := hash\<rparr>)
        else insert_header hh c hdr = Some (Ok hash, c1)"
    have old: "get_block c h \<noteq> None \<and> h \<noteq> hash \<and> (finalized_on c1 h \<longleftrightarrow> finalized_on c h)" if "h \<in> S" for h
      using that heavy fresh path_with_block [OF wb _ fresh, of h] by (auto simp: c1 finalized_on_def heaviest_def)
    have got: "get_block c1 h \<noteq> None" if "h \<in> insert hash S" for h using that old by (auto simp: c1)
    have w: "work_of c1 h = (if h = hash then cumulative_work e else work_of c h)" for h
      by (simp add: work_of_def c1)
    have S: "tip c \<in> S" "\<And>h. h \<in> S \<Longrightarrow> finalized_on c h \<Longrightarrow> work_of c h \<le> work_of c (tip c)"
      using heavy by (auto simp: heaviest_def)
    have tip: "tip c \<noteq> hash" using t fresh by auto
    show ?thesis
    proof (cases "work_of c (tip c) < cumulative_work e \<and> finalized_on c1 hash")
      case True
      with res ins have c': "c' = c1\<lparr>main_chain_by_height := path c1 hash, tip := hash\<rparr>" by (auto simp: work_of_def)
      then have b: "blocks c' = blocks c1" by simp
      have f: "finalized_on c' h \<longleftrightarrow> finalized_on c1 h" for h
        by (simp add: finalized_on_def same_blocks(2) [OF b]) (simp add: c')
      have "work_of c1 h \<le> work_of c1 hash" if "h \<in> insert hash S" "finalized_on c1 h" for h
        using that old [of h] S(2) [of h] True w by (cases "h = hash") (auto intro: less_imp_le le_less_trans)
      then show ?thesis using got by (simp add: heaviest_def work_of_def f same_blocks(1) [OF b]) (simp add: c')
    next
      case False
      with res ins have "c' = c1" by (auto simp: work_of_def)
      moreover have "work_of c1 h \<le> work_of c1 (tip c)" if "h \<in> insert hash S" "finalized_on c1 h" for h
        using that old [of h] S(2) [of h] False w tip by (cases "h = hash") (auto simp: not_less)
      ultimately show ?thesis using got S(1) by (simp add: heaviest_def c1)
    qed
  qed
qed

lemma mark_heaviest:
  assumes wf: "wf_chain c" and set: "set_finalized c hash = Some (Ok (), c')" and heavy: "heaviest S c"
  shows "heaviest (if hash \<in> set (main_chain_by_height c) then S else {hash}) c'"
proof -
  have wb: "wf_blocks c" using wf by (simp add: wf_chain_def)
  from set_finalized_effect [OF wf, of hash] show ?thesis
  proof (elim disjE exE conjE)
    fix err assume "set_finalized c hash = Some (Err err, c)"
    then show ?thesis using set by simp
  next
    fix e c2 assume e: "get_block c hash = Some e" and res: "set_finalized c hash = Some (Ok (), c2)"
      and above: "\<forall>f. finalized_point c = Some f \<longrightarrow> fp_height f < height (e_header e) \<and> finalized_on c hash"
      and sel: "blocks c2 = blocks c"
        "finalized_point c2 = Some \<lparr>fp_hash = hash, fp_height = height (e_header e)\<rparr>"
      and tip: "if hash \<in> set (main_chain_by_height c) then tip c2 = tip c else tip c2 = hash"
    have c': "c' = c2" using set res by simp
    note same = same_blocks(1,2) [OF sel(1)]
    have on: "finalized_on c h" if g: "get_block c h = Some x" and f2: "finalized_on c2 h" for h x
    proof -
      have H: "block_height e < length (path c h)" "path c h ! block_height e = hash"
        using f2 by (simp_all add: finalized_on_def sel same block_height_def)
      then have "take (Suc (block_height e)) (path c h) = path c hash"
        using path_nth [OF wb g, of "block_height e"] path_length [OF wb g] by auto
      then have "path c h ! k = path c hash ! k" if "k \<le> block_height e" for k
        using that by (metis le_imp_less_Suc nth_take)
      then show ?thesis
        using above H(1) path_length [OF wb e]
        by (auto simp: finalized_on_def block_height_def word_less_nat_alt)
    qed
    have "work_of c h \<le> work_of c (tip c)" if "h \<in> S" "finalized_on c2 h" for h
      using heavy on [of h] that by (auto simp: heaviest_def)
    then show ?thesis using tip heavy e by (auto simp: heaviest_def work_of_def c' same)
  qed
qed

lemma set_finalized_err:
  assumes "wf_chain c" and "set_finalized c hash = Some (Err e, c')"
  shows "c' = c"
  using set_finalized_effect [OF assms(1), of hash] assms(2) by auto

lemma insert_header_err: "insert_header hh c hdr = Some (Err e, c') \<Longrightarrow> c' = c"
  by (auto simp: insert_header_def Let_def split: option.splits if_splits)

lemma heaviest_run:
  assumes "contenders hh c0 c S" and "wf_chain c0" and "heaviest {tip c0} c0" and "length (blocks c) < 2 ^ 63"
  shows "heaviest S c"
proof -
  have wf: "wf_chain y" if "contenders hh c0 y T" "length (blocks y) < 2 ^ 63" for y T
    using chain_run_keeps [OF contenders_run [OF that(1)] assms(2) that(2)] by (rule keepsD)
  have shorter: "length (blocks y) < 2 ^ 63" if "chain_step hh y z" "length (blocks z) < 2 ^ 63" for y z
    using chain_step_blocks [OF that(1)] that(2) by simp
  show ?thesis
    using assms(1,4)
  proof (induction rule: contenders.induct)
    case Start
    then show ?case using assms(3) by simp
  next
    case (Stored c S hdr hash c')
    have small: "length (blocks c) < 2 ^ 63" using shorter [OF chain_step.Insert] Stored.hyps(2) Stored.prems by blast
    show ?case
      by (rule insert_heaviest [OF wf [OF Stored.hyps(1) small] small Stored.hyps(2) Stored.IH [OF small]])
  next
    case (Refused c S hdr e c')
    then show ?case using insert_header_err by blast
  next
    case (Mark_Main c S hash c')
    have small: "length (blocks c) < 2 ^ 63" using shorter [OF chain_step.Mark] Mark_Main by blast
    show ?case using mark_heaviest [OF wf [OF Mark_Main.hyps(1) small] Mark_Main.hyps(3) Mark_Main.IH [OF small]] Mark_Main.hyps(2)
      by simp
  next
    case (Mark_Side c S hash c')
    have small: "length (blocks c) < 2 ^ 63" using shorter [OF chain_step.Mark] Mark_Side by blast
    show ?case using mark_heaviest [OF wf [OF Mark_Side.hyps(1) small] Mark_Side.hyps(3) Mark_Side.IH [OF small]] Mark_Side.hyps(2)
      by simp
  next
    case (Mark_Refused c S hash e c')
    have small: "length (blocks c) < 2 ^ 63" using shorter [OF chain_step.Mark] Mark_Refused by blast
    show ?case using set_finalized_err [OF wf [OF Mark_Refused.hyps(1) small] Mark_Refused.hyps(2)] Mark_Refused.IH [OF small] by simp
  qed
qed

section \<open>Work without wrapping\<close>

definition block_weight :: "chain_state \<Rightarrow> hash32 \<Rightarrow> nat" where
  "block_weight c h = unat (insert_weight (form c) (e_header (the (get_block c h))))"

lemma insert_weight_bound: "unat (insert_weight f h) < 2 ^ 64"
  by (cases f) (simp_all add: insert_weight_def less_le_trans [OF unat_lt_exp])

lemma work_sum:
  assumes "wf_blocks c" and "get_block c h = Some e" and "length (blocks c) < 2 ^ 63"
    and "unat (work_of c (genesis c)) < 2 ^ 64"
  shows "unat (cumulative_work e) = unat (work_of c (genesis c)) + sum_list (map (block_weight c) (tl (path c h)))
    \<and> unat (cumulative_work e) < (block_height e + 1) * 2 ^ 64"
  using assms(1,2)
proof (induction rule: block_induct)
  case (Genesis e)
  then show ?case using assms(4) by (simp add: path_0 work_of_def)
next
  case (Child h e p)
  have "block_height p < length (blocks c)" using assms(1) Child(2) unfolding wf_blocks_def by blast
  then have "block_height p < 2 ^ 63" using assms(3) by simp
  then have "(block_height p + 1) * 2 ^ 64 \<le> 2 ^ 63 * (2 ^ 64 :: nat)" by (intro mult_le_mono1) simp
  then have "unat (cumulative_work p) + unat (insert_weight (form c) (e_header e)) < 2 ^ 128"
    using Child(6) insert_weight_bound [of "form c" "e_header e"] by simp
  then have "unat (cumulative_work e) = unat (cumulative_work p) + unat (insert_weight (form c) (e_header e))"
    unfolding Child(4) by (intro unat_add_small) simp
  moreover have "path c (prev (e_header e)) \<noteq> []" using path_last [OF assms(1) Child(2)] by simp
  ultimately show ?case
    using Child insert_weight_bound [of "form c" "e_header e"] by (simp add: block_weight_def)
qed

section \<open>A sample chain\<close>

text \<open>A hash that is cheap to compute (the nonce) and a chain of two blocks, for the witnesses.\<close>

definition sample_hash :: header_hash where
  "sample_hash f h = Some [ucast (nonce h)]"

definition sample_header :: "hash32 \<Rightarrow> u64 \<Rightarrow> u64 \<Rightarrow> block_header" where
  "sample_header p h n =
    \<lparr>prev = p, height = h, timestamp = h, difficulty = 5, nonce = n, tx_body_commitment = zero_hash, ext = L1\<rparr>"

definition sample_start :: chain_state where
  "sample_start = \<lparr>blocks = [([0], \<lparr>e_header = sample_header zero_hash 0 0, cumulative_work = 5\<rparr>)],
    genesis = [0], tip = [0], main_chain_by_height = [[0]], finalized_point = None, form = V4\<rparr>"

definition sample_next :: chain_state where
  "sample_next = \<lparr>blocks = [([0], \<lparr>e_header = sample_header zero_hash 0 0, cumulative_work = 5\<rparr>),
      ([1], \<lparr>e_header = sample_header [0] 1 1, cumulative_work = 10\<rparr>)],
    genesis = [0], tip = [1], main_chain_by_height = [[0], [1]], finalized_point = None, form = V4\<rparr>"

definition sample_final :: chain_state where
  "sample_final = sample_next\<lparr>finalized_point := Some \<lparr>fp_hash = [0], fp_height = 0\<rparr>\<rparr>"

lemma sample_new: "chain_new_for sample_hash V4 (sample_header zero_hash 0 0) = Some sample_start"
  by (simp add: chain_new_for_def sample_hash_def sample_header_def sample_start_def u128_of_def)

lemma sample_insert: "insert_header sample_hash sample_start (sample_header [0] 1 1) = Some (Ok [1], sample_next)"
  by (simp add: insert_header_def sample_hash_def sample_header_def sample_start_def sample_next_def get_block_def
      insert_weight_def tip_work_def descends_from_finalized_def adopt_tip_def Let_def u128_of_def word_less_nat_alt)

lemma sample_mark: "set_finalized sample_next [0] = Some (Ok (), sample_final)"
  by (simp add: set_finalized_def sample_next_def sample_final_def sample_header_def get_block_def
      move_finalized_def descends_from_finalized_def is_descendant_of_def ancestor_def Let_def)

lemma sample_runs:
  "(chain_step sample_hash)\<^sup>*\<^sup>* sample_start sample_next" "(chain_step sample_hash)\<^sup>*\<^sup>* sample_next sample_final"
  "(chain_step sample_hash)\<^sup>*\<^sup>* sample_start sample_final"
  "contenders sample_hash sample_start sample_next {[1], [0]}"
proof -
  show a: "(chain_step sample_hash)\<^sup>*\<^sup>* sample_start sample_next"
    using sample_insert by (blast intro: chain_step.Insert)
  show b: "(chain_step sample_hash)\<^sup>*\<^sup>* sample_next sample_final"
    using sample_mark by (blast intro: chain_step.Mark)
  from a b show "(chain_step sample_hash)\<^sup>*\<^sup>* sample_start sample_final" by (rule rtranclp_trans)
  have "contenders sample_hash sample_start sample_start {[0]}"
    using contenders.Start [of sample_hash sample_start] by (simp add: sample_start_def)
  then show "contenders sample_hash sample_start sample_next {[1], [0]}"
    using sample_insert by (rule contenders.Stored)
qed

section \<open>Properties\<close>



text \<open>C1: no reorganisation past finality, ever: once a block is finalized, after any sequence of
  insertions (of whatever work) and finality marks the finalized height has not gone down and the
  main chain up to that height is block for block the one it was, the finalized block on it.\<close>

theorem finality_irreversible:
  assumes "chain_new_for hh f g = Some c0" and "(chain_step hh)\<^sup>*\<^sup>* c0 c" and "(chain_step hh)\<^sup>*\<^sup>* c c'"
    and "length (blocks c') < 2 ^ 63" and "finalized_point c = Some fp"
  shows "(\<exists>fp'. finalized_point c' = Some fp' \<and> fp_height fp \<le> fp_height fp')
    \<and> main_chain_hash_at c' (fp_height fp) = Some (fp_hash fp)
    \<and> (\<forall>h \<le> fp_height fp. main_chain_hash_at c' h = main_chain_hash_at c h)"
proof -
  have "length (blocks c) < 2 ^ 63" using chain_run_blocks [OF assms(3)] assms(4) by simp
  then have wf: "wf_chain c" using assms(1,2) wf_chain_new chain_run_keeps keepsD(1) by blast
  have keep: "keeps c c'" using assms(3) wf assms(4) by (rule chain_run_keeps)
  define n where "n = unat (fp_height fp)"
  have "main_chain_by_height c = path c (tip c)" "finalized_on c (tip c)" using wf by (auto simp: wf_chain_def)
  then have on: "n < length (main_chain_by_height c)" "main_chain_by_height c ! n = fp_hash fp"
    using assms(5) by (auto simp: finalized_on_def n_def)
  have pre: "take (Suc n) (main_chain_by_height c') = take (Suc n) (main_chain_by_height c)"
    and up: "\<exists>fp'. finalized_point c' = Some fp' \<and> fp_height fp \<le> fp_height fp'"
    using keep assms(5) unfolding keeps_def n_def by blast+
  have "length (take (Suc n) (main_chain_by_height c')) = Suc n" unfolding pre using on(1) by simp
  then have len: "n < length (main_chain_by_height c')" by simp
  have nth: "main_chain_by_height c' ! k = main_chain_by_height c ! k" if "k \<le> n" for k
    using arg_cong [OF pre, of "\<lambda>xs. xs ! k"] that by simp
  have same: "main_chain_hash_at c' h = main_chain_hash_at c h" if "h \<le> fp_height fp" for h
  proof -
    have "unat h \<le> n" using that by (simp add: n_def word_le_nat_alt)
    with len on(1) nth show ?thesis by (simp add: main_chain_hash_at_def)
  qed
  have "main_chain_hash_at c' (fp_height fp) = Some (fp_hash fp)"
    using len nth [of n] on(2) by (simp add: main_chain_hash_at_def n_def)
  with up same show ?thesis by blast
qed

lemma finality_irreversible_witness:
  "main_chain_hash_at sample_final 0 = Some [0]"
  using finality_irreversible [OF sample_new sample_runs(3) rtranclp.rtrancl_refl, of "\<lparr>fp_hash = [0], fp_height = 0\<rparr>"]
  by (simp add: sample_final_def sample_next_def)

text \<open>C2: fork choice, on every run of insertions and finality marks: \<open>S\<close> holds the genesis and the
  blocks stored since, or, once a mark has been placed off the main chain, the marked block and
  those stored after it. The tip is one of the blocks of \<open>S\<close> that descend from the finalized block
  and carries the most work among these, and the work of every stored block is the exact sum of the
  weights of its path (it never wraps). When no mark was placed off the main chain \<open>S\<close> is every
  stored block; right after one, the tip is the marked block, whatever the others carry.\<close>

theorem tip_heaviest:
  assumes "chain_new_for hh f g = Some c0" and "contenders hh c0 c S" and "length (blocks c) < 2 ^ 63"
  shows "tip c \<in> S \<and> descends_from_finalized c (tip c)
    \<and> (\<forall>h \<in> S. \<exists>e. get_block c h = Some e
        \<and> (descends_from_finalized c h \<longrightarrow> Some (cumulative_work e) \<le> tip_work c))
    \<and> (\<forall>h e. get_block c h = Some e \<longrightarrow>
        unat (cumulative_work e) = unat (difficulty g) + sum_list (map (block_weight c) (tl (path c h))))"
proof -
  have wf0: "wf_chain c0" using assms(1) by (rule wf_chain_new)
  obtain hash where c0: "c0 = \<lparr>blocks = [(hash, \<lparr>e_header = g, cumulative_work = u128_of (difficulty g)\<rparr>)],
      genesis = hash, tip = hash, main_chain_by_height = [hash], finalized_point = None, form = f\<rparr>"
    using assms(1) by (auto simp: chain_new_for_def split: option.splits if_splits)
  have g0: "get_block c0 hash = Some \<lparr>e_header = g, cumulative_work = u128_of (difficulty g)\<rparr>" by (simp add: get_block_def c0)
  then have "heaviest {tip c0} c0" by (simp add: heaviest_def) (simp add: c0)
  with assms(2) wf0 have heavy: "heaviest S c" using assms(3) by (rule heaviest_run)
  have keep: "keeps c0 c" using contenders_run [OF assms(2)] wf0 assms(3) by (rule chain_run_keeps)
  have wf: "wf_chain c" using keep by (rule keepsD)
  then have wb: "wf_blocks c" by (simp add: wf_chain_def)
  have desc: "descends_from_finalized c h \<longleftrightarrow> finalized_on c h" if "get_block c h = Some e" for h e
    using descends_from_finalized_path [OF wb that] .
  have "get_block c hash = Some \<lparr>e_header = g, cumulative_work = u128_of (difficulty g)\<rparr>"
    using keepsD(4) [OF keep] g0 by blast
  then have gw: "work_of c (genesis c) = u128_of (difficulty g)"
    using keepsD(2) [OF keep] by (simp add: work_of_def c0)
  have tw: "tip_work c = Some (work_of c (tip c))" using wf by (auto simp: tip_work_def work_of_def wf_chain_def)
  have "\<forall>h \<in> S. \<exists>e. get_block c h = Some e \<and> (descends_from_finalized c h \<longrightarrow> Some (cumulative_work e) \<le> tip_work c)"
    using heavy by (auto simp: heaviest_def work_of_def tw desc)
  moreover have "\<forall>h e. get_block c h = Some e \<longrightarrow>
      unat (cumulative_work e) = unat (difficulty g) + sum_list (map (block_weight c) (tl (path c h)))"
    using work_sum [OF wb _ assms(3)] gw unat_lt_exp [of "difficulty g"] by simp
  moreover have "tip c \<in> S \<and> descends_from_finalized c (tip c)"
    using heavy wf desc by (auto simp: heaviest_def wf_chain_def)
  ultimately show ?thesis by blast
qed

lemma tip_heaviest_witness: "\<exists>e. get_block sample_next [0] = Some e \<and> Some (cumulative_work e) \<le> tip_work sample_next"
proof -
  have "descends_from_finalized sample_next [0]" "length (blocks sample_next) < 2 ^ 63"
    by (simp_all add: sample_next_def get_block_def descends_from_finalized_def)
  with tip_heaviest [OF sample_new sample_runs(4)] show ?thesis by blast
qed

end
