(* ===== verification/Varint.thy ===== *)
theory Varint
  imports Prelude
begin

text \<open>
  The unsigned LEB128 varint of \<open>qlab-note/src/compact.rs\<close>, which every codec of the program
  shares. The writer's loop and the reader's loop are the recursions below; the reader refuses a
  truncated, an overflowing and a non-canonical encoding by name. Positions are \<open>usize\<close> and are
  naturals here (they never exceed the buffer's length plus one).
\<close>

datatype codec_error =
    Truncated string
  | BadVersion u8
  | UnsupportedClue u8
  | VarintOverflow
  | NonCanonicalVarint nat
  | VarintRange u64 u64
  | TrailingBytes nat
  | PayloadSectionLen nat nat

text \<open>The bytes one call pushes; \<open>write_varint\<close> appends them to the output vector.\<close>

lemma drop7_less: "drop_bit 7 v \<noteq> 0 \<Longrightarrow> unat (drop_bit 7 v) < unat (v :: u64)"
proof -
  assume "drop_bit 7 v \<noteq> 0"
  then have "unat (drop_bit 7 v) \<noteq> 0"
    by (simp only: unsigned_eq_0_iff) simp
  then have "unat v div 128 \<noteq> 0"
    by (simp only: unat_drop_bit) simp
  then have "unat v div 128 < unat v"
    by (cases "unat v = 0") simp_all
  then show ?thesis by (simp only: unat_drop_bit) simp
qed

function varint_bytes :: "u64 \<Rightarrow> bytes" where
  "varint_bytes v =
    (let byte = (ucast (v AND 0x7f) :: u8); v' = drop_bit 7 v
     in if v' = 0 then [byte] else (byte OR 0x80) # varint_bytes v')"
  by pat_completeness auto
termination
  by (relation "measure unat") (auto intro: drop7_less)

declare varint_bytes.simps [simp del]

definition write_varint :: "bytes \<Rightarrow> u64 \<Rightarrow> bytes" where
  "write_varint out v = out @ varint_bytes v"

function read_varint_loop :: "bytes \<Rightarrow> nat \<Rightarrow> nat \<Rightarrow> u64 \<Rightarrow> nat \<Rightarrow> codec_error + (u64 \<times> nat)" where
  "read_varint_loop b start pos result shift =
    (if pos < length b then
       let byte = b ! pos; pos' = pos + 1 in
       if shift \<ge> 64 \<or> (shift = 63 \<and> byte > 1) then Err VarintOverflow
       else
         let result' = result OR push_bit shift (ucast (byte AND 0x7f)) in
         if byte AND 0x80 = 0 then
           let len = pos' - start in
           if len > 1 \<and> byte = 0 then Err (NonCanonicalVarint len) else Ok (result', pos')
         else read_varint_loop b start pos' result' (shift + 7)
     else Err (Truncated ''varint''))"
  by pat_completeness auto
termination
  by (relation "measure (\<lambda>(b, start, pos, result, shift). length b - pos)") auto

declare read_varint_loop.simps [simp del]

definition read_varint :: "bytes \<Rightarrow> nat \<Rightarrow> codec_error + (u64 \<times> nat)" where
  "read_varint b pos = read_varint_loop b pos pos 0 0"

definition read_varint_at_most :: "bytes \<Rightarrow> nat \<Rightarrow> u64 \<Rightarrow> codec_error + (u64 \<times> nat)" where
  "read_varint_at_most b pos mx =
    rbind (read_varint b pos) (\<lambda>(got, pos'). if got > mx then Err (VarintRange got mx) else Ok (got, pos'))"

text \<open>On the 64-bit targets \<open>usize::MAX as u64\<close> is \<open>u64::MAX\<close>.\<close>

definition read_varint_usize :: "bytes \<Rightarrow> nat \<Rightarrow> codec_error + (nat \<times> nat)" where
  "read_varint_usize b pos =
    rbind (read_varint_at_most b pos umax) (\<lambda>(got, pos'). Ok (unat got, pos'))"

definition read_varint_u32 :: "bytes \<Rightarrow> nat \<Rightarrow> codec_error + (u32 \<times> nat)" where
  "read_varint_u32 b pos =
    rbind (read_varint_at_most b pos 0xFFFFFFFF) (\<lambda>(got, pos'). Ok (ucast got, pos'))"

section \<open>One group of seven bits\<close>

lemma unat_low7: "unat (ucast (v AND 0x7f :: u64) :: u8) = unat v mod 128"
proof -
  have "unat (v AND 0x7f) = unat v mod 2 ^ 7"
    using unat_and_mask [of v 7] by (simp add: mask_eq_exp_minus_1)
  then show ?thesis
    by (simp add: unsigned_ucast_eq take_bit_eq_mod [where 'a = nat])
qed

lemma byte_and_7f: "unat (b AND 0x7f :: u8) = unat b mod 128"
  using unat_and_mask [of b 7] by (simp add: mask_eq_exp_minus_1)

lemma byte_or_80:
  assumes "unat b < 128"
  shows "unat (b OR 0x80 :: u8) = unat b + 128"
  using unat_or_push [of b 7 1] assms by simp

lemma byte_high_bit: "n < 256 \<Longrightarrow> even (n div 128) \<longleftrightarrow> n < (128 :: nat)"
proof (cases "n < 128")
  case False
  moreover assume "n < 256"
  ultimately have "n div 128 = 1" by (intro div_nat_eqI) auto
  with False show ?thesis by simp
qed simp

lemma byte_and_80: "(b AND 0x80 :: u8) = 0 \<longleftrightarrow> unat b < 128"
proof -
  have "b AND 0x80 = 0 \<longleftrightarrow> \<not> bit b 7"
    using and_exp_eq_0_iff_not_bit [of b 7] by simp
  also have "\<dots> \<longleftrightarrow> \<not> bit (unat b) 7"
    by (simp add: bit_unsigned_iff)
  also have "\<dots> \<longleftrightarrow> even (unat b div 128)"
    by (simp add: bit_iff_odd)
  also have "\<dots> \<longleftrightarrow> unat b < 128"
    using unat_lt_exp [of b] by (intro byte_high_bit) simp
  finally show ?thesis .
qed

lemma unat_ucast_low: "unat (ucast (b AND 0x7f :: u8) :: u64) = unat b mod 128"
proof -
  have "unat b mod 128 < 128" by simp
  then have "unat b mod 128 < (2::nat) ^ 64" by (rule less_trans) simp
  then show ?thesis
    by (simp add: unsigned_ucast_eq byte_and_7f take_bit_nat_eq_self)
qed

section \<open>Reading back what was written\<close>

lemma unat_or_group:
  assumes "unat r < 2 ^ s" and "(unat b mod 128) * 2 ^ s < 2 ^ 64"
  shows "unat (r OR push_bit s (ucast (b AND 0x7f :: u8)) :: u64) = unat r + (unat b mod 128) * 2 ^ s"
  using unat_or_push [of r s "ucast (b AND 0x7f)"] assms by (simp only: unat_ucast_low) simp

lemma read_varint_loop_bytes:
  assumes "unat r < 2 ^ shift" and "unat v * 2 ^ shift < 2 ^ 64"
    and "shift = 7 * k" and "k \<le> 9" and "0 < k \<longrightarrow> v \<noteq> 0"
    and "pos = length pre" and "pos = start + k"
  shows "\<exists>w. read_varint_loop (pre @ varint_bytes v @ rest) start pos r shift
           = Ok (w, pos + length (varint_bytes v)) \<and> unat w = unat r + unat v * 2 ^ shift"
  using assms
proof (induction v arbitrary: r shift k pos pre rule: varint_bytes.induct)
  case (1 v)
  define lo where "lo = (ucast (v AND 0x7f) :: u8)"
  define v' where "v' = drop_bit 7 v"
  have lo: "unat lo = unat v mod 128" and v': "unat v' = unat v div 128"
    by (simp_all only: lo_def v'_def unat_low7 unat_drop_bit) simp
  have lo_mod: "unat lo mod 128 = unat lo" by (simp add: lo)
  have split: "unat v = unat lo + 128 * unat v'" by (simp add: lo v')
  have sh: "shift < 64" and sh63: "shift = 63 \<longrightarrow> unat v \<le> 1"
    using "1.prems" by auto
  have lo_sh: "unat lo * 2 ^ shift < 2 ^ 64"
    using "1.prems"(2) by (rule le_less_trans [rotated]) (simp add: split)
  show ?case
  proof (cases "v' = 0")
    case True
    then have bytes: "varint_bytes v = [lo]"
      by (subst varint_bytes.simps) (simp add: lo_def v'_def)
    have vlo: "unat v = unat lo" using split True by simp
    have "lo AND 0x80 = 0" by (simp add: byte_and_80 lo)
    moreover have "\<not> (shift = 63 \<and> lo > 1)"
      using sh63 by (auto simp: vlo word_less_nat_alt)
    moreover have "\<not> (pos + 1 - start > 1 \<and> lo = 0)"
      using "1.prems"(5,7) vlo by (metis add_diff_cancel_left' add.assoc less_add_same_cancel2 unsigned_0 unsigned_eq_0_iff zero_less_diff not_gr0 add_0 less_irrefl)
    ultimately have "read_varint_loop (pre @ varint_bytes v @ rest) start pos r shift
        = Ok (r OR push_bit shift (ucast (lo AND 0x7f)), pos + 1)"
      using sh "1.prems"(6) by (subst read_varint_loop.simps) (simp add: bytes Let_def nth_append)
    moreover have "unat (r OR push_bit shift (ucast (lo AND 0x7f))) = unat r + unat v * 2 ^ shift"
      using unat_or_group [OF "1.prems"(1), of lo] lo_sh by (simp only: lo_mod vlo)
    ultimately show ?thesis by (simp add: bytes)
  next
    case False
    define b where "b = lo OR 0x80"
    have b: "unat b = unat lo + 128" by (simp add: b_def byte_or_80 lo)
    have bytes: "varint_bytes v = b # varint_bytes v'"
      using False by (subst varint_bytes.simps) (simp add: lo_def v'_def b_def Let_def)
    have v'_pos: "1 \<le> unat v'" using False by (metis less_one not_le unsigned_eq_0_iff)
    have prod: "unat v' * 2 ^ (shift + 7) < 2 ^ 64"
      using "1.prems"(2) by (rule le_less_trans [rotated]) (simp add: split power_add)
    have "k \<noteq> 9" using prod v'_pos "1.prems"(3) by (cases "k = 9") simp_all
    then have k: "Suc k \<le> 9" and nsh: "shift \<noteq> 63" using "1.prems"(3,4) by auto
    define r' where "r' = r OR push_bit shift (ucast (b AND 0x7f))"
    have ub: "unat b mod 128 = unat lo"
      by (simp add: b lo)
    have r': "unat r' = unat r + unat lo * 2 ^ shift"
      using unat_or_group [OF "1.prems"(1), of b] lo_sh by (simp only: ub r'_def)
    have r'_lt: "unat r' < 2 ^ (shift + 7)"
    proof -
      have "unat lo + 1 \<le> 128" by (simp add: lo)
      then have "(unat lo + 1) * 2 ^ shift \<le> 128 * 2 ^ shift" by (rule mult_le_mono1)
      then have "unat lo * 2 ^ shift + 2 ^ shift \<le> 128 * 2 ^ shift"
        by (simp only: distrib_right mult_1)
      moreover have "(2::nat) ^ (shift + 7) = 128 * 2 ^ shift" by (simp add: power_add)
      ultimately show ?thesis using "1.prems"(1) r' by linarith
    qed
    have IH: "\<exists>w. read_varint_loop ((pre @ [b]) @ varint_bytes v' @ rest) start (pos + 1) r' (shift + 7)
        = Ok (w, pos + 1 + length (varint_bytes v')) \<and> unat w = unat r' + unat v' * 2 ^ (shift + 7)"
      using "1.IH" [OF lo_def v'_def False r'_lt prod, of "Suc k" "pos + 1" "pre @ [b]"]
        False k "1.prems"(3,6,7) by simp
    have "b AND 0x80 \<noteq> 0" by (simp add: byte_and_80 b)
    then have "read_varint_loop (pre @ varint_bytes v @ rest) start pos r shift
        = read_varint_loop ((pre @ [b]) @ varint_bytes v' @ rest) start (pos + 1) r' (shift + 7)"
      using sh nsh "1.prems"(6)
      by (subst read_varint_loop.simps) (simp add: bytes Let_def nth_append r'_def)
    moreover have "unat r' + unat v' * 2 ^ (shift + 7) = unat r + unat v * 2 ^ shift"
      by (simp add: r' split power_add algebra_simps)
    ultimately show ?thesis using IH by (simp add: bytes)
  qed
qed

lemma read_varint_bytes:
  assumes "pos = length pre"
  shows "read_varint (pre @ varint_bytes v @ rest) pos = Ok (v, pos + length (varint_bytes v))"
proof -
  obtain w where w: "read_varint_loop (pre @ varint_bytes v @ rest) pos pos 0 0
      = Ok (w, pos + length (varint_bytes v))" and wv: "unat w = unat v"
    using read_varint_loop_bytes [of 0 0 v 0 pos pre pos rest] assms unat_lt_exp [of v] by auto
  from wv have "w = v" by (simp only: word_unat_eq_iff)
  with w show ?thesis by (simp add: read_varint_def)
qed


section \<open>What is read is what would have been written\<close>

lemma varint_bytes_single: "unat b < 128 \<Longrightarrow> varint_bytes (ucast (b AND 0x7f :: u8)) = [b]"
proof -
  assume b: "unat b < 128"
  define c where "c = (ucast (b AND 0x7f) :: u64)"
  have c: "unat c = unat b" using b by (simp only: c_def unat_ucast_low) simp
  have "unat (drop_bit 7 c) = 0" using b by (simp only: unat_drop_bit c) simp
  then have "drop_bit 7 c = 0" by (simp only: unsigned_eq_0_iff)
  moreover have "unat (ucast (c AND 0x7f) :: u8) = unat b"
    using b by (simp only: unat_low7 c) simp
  then have "ucast (c AND 0x7f) = b" by (simp only: word_unat_eq_iff)
  ultimately show ?thesis unfolding c_def [symmetric] by (subst varint_bytes.simps) (simp add: Let_def)
qed

lemma varint_bytes_cont:
  assumes "128 \<le> unat b" and "v' \<noteq> 0" and "unat v = unat b mod 128 + 128 * unat v'"
  shows "varint_bytes v = b # varint_bytes v'"
proof -
  have "unat (drop_bit 7 v) = unat v'" by (simp only: unat_drop_bit assms(3)) simp
  then have d: "drop_bit 7 v = v'" by (simp only: word_unat_eq_iff)
  have lo: "unat (ucast (v AND 0x7f) :: u8) = unat b mod 128"
    by (simp only: unat_low7 assms(3)) simp
  have "unat b < 256" using unat_lt_exp [of b] by simp
  then have "unat b mod 128 + 128 = unat b" using assms(1) by (auto simp: mod_if)
  then have "unat (ucast (v AND 0x7f) OR 0x80 :: u8) = unat b"
    by (subst byte_or_80) (simp_all add: lo)
  then have "ucast (v AND 0x7f) OR 0x80 = b" by (simp only: word_unat_eq_iff)
  with assms(2) d show ?thesis by (subst varint_bytes.simps) (simp add: Let_def)
qed

lemma read_varint_loop_canonical:
  assumes "read_varint_loop b start pos r shift = Ok (w, pos')"
    and "shift = 7 * k" and "k \<le> 9" and "pos = start + k" and "unat r < 2 ^ shift"
  shows "\<exists>v. unat w = unat r + unat v * 2 ^ shift \<and> unat v * 2 ^ shift < 2 ^ 64
    \<and> pos' \<le> length b \<and> drop pos b = varint_bytes v @ drop pos' b
    \<and> pos' = pos + length (varint_bytes v) \<and> (0 < k \<longrightarrow> v \<noteq> 0)"
  using assms
proof (induction b start pos r shift arbitrary: k rule: read_varint_loop.induct)
  case (1 b start pos r shift)
  define byte where "byte = b ! pos"
  define r' where "r' = r OR push_bit shift (ucast (byte AND 0x7f))"
  have pos: "pos < length b" and ov: "\<not> (shift \<ge> 64 \<or> (shift = 63 \<and> byte > 1))"
    using "1.prems"(1) by (auto simp: read_varint_loop.simps [of b start pos r shift] byte_def Let_def split: if_splits)
  have drop: "drop pos b = byte # drop (Suc pos) b"
    using pos by (simp add: byte_def Cons_nth_drop_Suc)
  have grp: "(unat byte mod 128) * 2 ^ shift < 2 ^ 64"
  proof (cases "k = 9")
    case True
    then have "unat byte \<le> 1" using ov "1.prems"(2) by (simp add: word_less_nat_alt)
    with True "1.prems"(2) show ?thesis by (simp add: mod_if)
  next
    case False
    then have "shift \<le> 56" using "1.prems"(2,3) by simp
    then have "(2::nat) ^ shift \<le> 2 ^ 56" by (intro power_increasing) simp_all
    moreover have "unat byte mod 128 \<le> 127" by simp
    ultimately have "(unat byte mod 128) * 2 ^ shift \<le> 127 * 2 ^ 56" by (intro mult_le_mono)
    then show ?thesis by (rule le_less_trans) simp
  qed
  have r': "unat r' = unat r + (unat byte mod 128) * 2 ^ shift"
    unfolding r'_def by (rule unat_or_group [OF "1.prems"(5) grp])
  show ?case
  proof (cases "byte AND 0x80 = 0")
    case True
    then have b: "unat byte < 128" by (simp only: byte_and_80)
    define v where "v = (ucast (byte AND 0x7f) :: u64)"
    have v: "unat v = unat byte" unfolding v_def unat_ucast_low using b by simp
    have nz: "\<not> (pos + 1 - start > 1 \<and> byte = 0)" and w: "w = r'" "pos' = pos + 1"
      using "1.prems"(1) pos ov True
      by (auto simp: read_varint_loop.simps [of b start pos r shift] byte_def r'_def Let_def split: if_splits)
    have "unat w = unat r + unat v * 2 ^ shift" and "unat v * 2 ^ shift < 2 ^ 64"
      using grp r' b by (simp_all add: w v)
    moreover have "drop pos b = varint_bytes v @ drop pos' b"
      using varint_bytes_single [OF b] by (simp add: drop w v_def)
    moreover have "pos' = pos + length (varint_bytes v)"
      using varint_bytes_single [OF b] by (simp add: w v_def)
    moreover have "0 < k \<longrightarrow> v \<noteq> 0"
    proof
      assume "0 < k"
      then have "byte \<noteq> 0" using nz "1.prems"(4) by auto
      then show "v \<noteq> 0" using v by (auto simp: word_unat_eq_iff)
    qed
    ultimately show ?thesis using pos w by (intro exI [of _ v]) simp
  next
    case False
    then have b: "128 \<le> unat byte" by (simp add: byte_and_80)
    have "k \<noteq> 9" using ov b "1.prems"(2) by (auto simp: word_less_nat_alt)
    then have k: "Suc k \<le> 9" using "1.prems"(3) by simp
    have rec: "read_varint_loop b start (pos + 1) r' (shift + 7) = Ok (w, pos')"
      using "1.prems"(1) pos ov False
      by (auto simp: read_varint_loop.simps [of b start pos r shift] byte_def r'_def Let_def split: if_splits)
    have r'_lt: "unat r' < 2 ^ (shift + 7)"
    proof -
      have "(unat byte mod 128 + 1) * 2 ^ shift \<le> 128 * 2 ^ shift" by (intro mult_le_mono1) simp
      then have "(unat byte mod 128) * 2 ^ shift + 2 ^ shift \<le> 128 * 2 ^ shift"
        by (simp only: distrib_right mult_1)
      moreover have "(2::nat) ^ (shift + 7) = 128 * 2 ^ shift" by (simp add: power_add)
      ultimately show ?thesis using "1.prems"(5) r' by linarith
    qed
    obtain v' where v': "unat w = unat r' + unat v' * 2 ^ (shift + 7)" "unat v' * 2 ^ (shift + 7) < 2 ^ 64"
        "pos' \<le> length b" "drop (pos + 1) b = varint_bytes v' @ drop pos' b"
        "pos' = pos + 1 + length (varint_bytes v')" "v' \<noteq> 0"
      using "1.IH" [OF pos byte_def refl ov r'_def False rec, of "Suc k"] k r'_lt "1.prems"(2,4) by auto
    define x where "x = unat byte mod 128 + 128 * unat v'"
    have wx: "unat w = unat r + x * 2 ^ shift"
      by (simp add: v' r' x_def power_add algebra_simps)
    then have xs: "x * 2 ^ shift < 2 ^ 64" using unat_lt_exp [of w] by simp
    then have "x < 2 ^ 64" by (rule le_less_trans [rotated]) simp
    then have v: "unat (word_of_nat x :: u64) = x" by (simp add: unat_of_nat)
    have "varint_bytes (word_of_nat x) = byte # varint_bytes v'"
      by (rule varint_bytes_cont [OF b v'(6) trans [OF v x_def]])
    moreover have "word_of_nat x \<noteq> (0 :: u64)"
      using v v'(6) by (auto simp: x_def word_unat_eq_iff)
    ultimately show ?thesis
      using v' wx xs v by (intro exI [of _ "word_of_nat x"]) (simp add: drop)
  qed
qed

lemma read_varint_canonical:
  assumes "read_varint b pos = Ok (v, pos')"
  shows "pos' \<le> length b \<and> drop pos b = varint_bytes v @ drop pos' b \<and> pos' = pos + length (varint_bytes v)"
proof -
  obtain w where "unat v = unat (0::u64) + unat w * 2 ^ 0"
      "pos' \<le> length b" "drop pos b = varint_bytes w @ drop pos' b" "pos' = pos + length (varint_bytes w)"
    using read_varint_loop_canonical [of b pos pos 0 0 v pos' 0] assms by (auto simp: read_varint_def)
  moreover from this(1) have "v = w" by (simp add: word_unat_eq_iff)
  ultimately show ?thesis by simp
qed

lemma varint_bytes_not_Nil [simp]: "varint_bytes v \<noteq> []"
  by (subst varint_bytes.simps) (simp add: Let_def)

section \<open>The writer and the reader as a codec\<close>

text \<open>
  A prefix codec: what \<open>enc\<close> wrote is read back wherever it stands in a buffer, and a successful
  read consumed exactly the bytes \<open>enc\<close> would have written. So encodings are unique and no
  encoding is a proper prefix of another, which is what a decoder that chains fields relies on.
\<close>

locale prefix_codec =
  fixes enc :: "'a \<Rightarrow> bytes"
    and dec :: "bytes \<Rightarrow> nat \<Rightarrow> 'e + ('a \<times> nat)"
    and ok :: "'a \<Rightarrow> bool"
  assumes dec_enc: "ok x \<Longrightarrow> dec (pre @ enc x @ rest) (length pre) = Ok (x, length pre + length (enc x))"
    and enc_dec: "dec b pos = Ok (x, pos') \<Longrightarrow> pos' \<le> length b \<and> drop pos b = enc x @ drop pos' b"
begin

lemma enc_prefix_free:
  assumes "ok x" and "ok y" and "enc x @ r = enc y @ s"
  shows "x = y \<and> r = s"
proof -
  have "dec (enc x @ r) 0 = Ok (x, length (enc x))" using dec_enc [OF assms(1), of "[]" r] by simp
  moreover have "dec (enc y @ s) 0 = Ok (y, length (enc y))" using dec_enc [OF assms(2), of "[]" s] by simp
  ultimately show ?thesis using assms(3) by simp
qed

lemma enc_inject: "ok x \<Longrightarrow> ok y \<Longrightarrow> enc x = enc y \<longleftrightarrow> x = y"
  using enc_prefix_free [of x y "[]" "[]"] by auto

lemma dec_bound: "dec b pos = Ok (x, pos') \<Longrightarrow> pos' \<le> length b"
  using enc_dec by blast

lemma dec_same_bytes:
  assumes "dec b pos = Ok (x, pos')" and "dec b' pos2 = Ok (x, pos2')"
  shows "take (length (enc x)) (drop pos b) = take (length (enc x)) (drop pos2 b')"
  using enc_dec [OF assms(1)] enc_dec [OF assms(2)] by simp

end

interpretation varint: prefix_codec varint_bytes read_varint "\<lambda>_. True"
proof unfold_locales
  show "read_varint (pre @ varint_bytes x @ rest) (length pre) = Ok (x, length pre + length (varint_bytes x))"
    for pre x rest by (rule read_varint_bytes) simp
  show "read_varint b pos = Ok (x, pos') \<Longrightarrow> pos' \<le> length b \<and> drop pos b = varint_bytes x @ drop pos' b"
    for b pos x pos' by (drule read_varint_canonical) simp
qed

text \<open>The length an encoding takes: one byte per started group of seven bits, so at most ten.\<close>

lemma length_varint_bytes: "0 < k \<Longrightarrow> unat v < 128 ^ k \<Longrightarrow> length (varint_bytes v) \<le> k"
proof (induction v arbitrary: k rule: varint_bytes.induct)
  case (1 v)
  show ?case
  proof (cases "drop_bit 7 v = 0")
    case True
    then show ?thesis using "1.prems" by (subst varint_bytes.simps) (simp add: Let_def)
  next
    case False
    have d: "unat (drop_bit 7 v) = unat v div 128" by (simp only: unat_drop_bit) simp
    have k: "1 < k"
    proof (rule ccontr)
      assume "\<not> 1 < k"
      with "1.prems" have "unat v < 128" by (simp add: not_less le_Suc_eq)
      then have "unat (drop_bit 7 v) = 0" by (simp only: d)
      with False show False by (simp only: unsigned_eq_0_iff)
    qed
    then have "unat v div 128 < 128 ^ (k - 1)"
      using "1.prems" by (simp add: less_mult_imp_div_less flip: power_Suc2 power_Suc)
    then have "length (varint_bytes (drop_bit 7 v)) \<le> k - 1"
      using "1.IH" [OF refl refl False, of "k - 1"] k by (simp only: d)
    then show ?thesis using False k by (subst varint_bytes.simps) (simp add: Let_def)
  qed
qed

section \<open>Properties\<close>

text \<open>every varint written is read back from anywhere in a buffer with the position moved past
  exactly its bytes, and it took at most ten bytes.\<close>

theorem varint_roundtrip:
  "read_varint (write_varint out v @ rest) (length out) = Ok (v, length (write_varint out v))
   \<and> length (varint_bytes v) \<le> 10"
proof
  show "read_varint (write_varint out v @ rest) (length out) = Ok (v, length (write_varint out v))"
    using varint.dec_enc [where x = v and pre = out and rest = rest] by (simp add: write_varint_def)
  have "unat v < 128 ^ 10" using unat_lt_exp [of v] by (rule less_trans) simp
  then show "length (varint_bytes v) \<le> 10" by (intro length_varint_bytes) simp_all
qed

text \<open>the reader accepts only the canonical encoding: two reads that give one value consumed
  the same bytes, namely those the writer produces (no second byte string decodes to a value).\<close>

theorem varint_canonical:
  assumes "read_varint b pos = Ok (v, pos')"
  shows "drop pos b = varint_bytes v @ drop pos' b \<and> pos' = pos + length (varint_bytes v) \<and> pos' \<le> length b"
  using read_varint_canonical [OF assms] by blast

lemma varint_canonical_witness:
  "read_varint [0xAC, 0x02] 0 = Ok (300, 2) \<and> drop 0 [0xAC, 0x02] = varint_bytes 300 @ drop 2 [0xAC, 0x02 :: u8]"
proof -
  have h: "read_varint [0xAC, 0x02] 0 = Ok (300, 2)"
    by (simp add: read_varint_def read_varint_loop.simps Let_def)
  show ?thesis using h varint_canonical [OF h] by blast
qed

end
