(* ===== verification/Compact.thy ===== *)
theory Compact
  imports Varint
begin

text \<open>
  The compact-group and committed-discovery codecs of \<open>qlab-note/src/compact.rs\<close> over the wire types
  of \<open>wire.rs\<close>. A fixed array is a byte list whose length the \<open>ok_*\<close> predicates state; a writer is the
  bytes it appends; an assertion of an encoder is \<open>None\<close>. Each level of the format is shown to be a
  prefix codec (the interface of the varint theory), from the one below it.
\<close>

section \<open>Reading a counted sequence\<close>

text \<open>The loop \<open>for _ in 0..n { out.push(read(b, pos)?) }\<close>, which the decoders share.\<close>

fun read_times :: "(bytes \<Rightarrow> nat \<Rightarrow> 'e + ('a \<times> nat)) \<Rightarrow> nat \<Rightarrow> bytes \<Rightarrow> nat \<Rightarrow> 'e + ('a list \<times> nat)" where
  "read_times rd 0 b pos = Ok ([], pos)"
| "read_times rd (Suc n) b pos =
    rbind (rd b pos) (\<lambda>(x, pos'). rbind (read_times rd n b pos') (\<lambda>(xs, pos2). Ok (x # xs, pos2)))"

locale sized_codec = prefix_codec enc dec ok
  for enc :: "'a \<Rightarrow> bytes" and dec :: "bytes \<Rightarrow> nat \<Rightarrow> 'e + ('a \<times> nat)" and ok :: "'a \<Rightarrow> bool" +
  assumes dec_ok: "dec b pos = Ok (x, pos') \<Longrightarrow> ok x"
begin

lemma read_times_enc:
  "\<forall>x \<in> set xs. ok x \<Longrightarrow>
    read_times dec (length xs) (pre @ concat (map enc xs) @ rest) (length pre)
      = Ok (xs, length pre + length (concat (map enc xs)))"
proof (induction xs arbitrary: pre)
  case (Cons x xs)
  have "dec (pre @ enc x @ concat (map enc xs) @ rest) (length pre) = Ok (x, length (pre @ enc x))"
    using Cons.prems dec_enc [of x pre "concat (map enc xs) @ rest"] by simp
  moreover have "read_times dec (length xs) ((pre @ enc x) @ concat (map enc xs) @ rest) (length (pre @ enc x))
      = Ok (xs, length (pre @ enc x) + length (concat (map enc xs)))"
    using Cons.prems by (intro Cons.IH) simp
  ultimately show ?case by simp
qed simp

lemma read_times_dec:
  "read_times dec n b pos = Ok (xs, pos') \<Longrightarrow> pos \<le> length b \<Longrightarrow>
    length xs = n \<and> (\<forall>x \<in> set xs. ok x) \<and> pos' \<le> length b \<and> drop pos b = concat (map enc xs) @ drop pos' b"
proof (induction n arbitrary: pos xs)
  case (Suc n)
  then obtain x pos1 ys where step: "dec b pos = Ok (x, pos1)" "read_times dec n b pos1 = Ok (ys, pos')" "xs = x # ys"
    by auto
  then show ?case using Suc.IH [OF step(2)] enc_dec [OF step(1)] dec_ok [OF step(1)] by simp
qed simp

text \<open>Reading a whole buffer: with nothing left over, the bytes and the value determine each other.\<close>

lemma whole_buffer: "dec b 0 = Ok (x, length b) \<longleftrightarrow> ok x \<and> enc x = b"
proof
  assume a: "dec b 0 = Ok (x, length b)"
  then show "ok x \<and> enc x = b" using enc_dec [OF a] dec_ok [OF a] by simp
next
  assume "ok x \<and> enc x = b"
  then show "dec b 0 = Ok (x, length b)" using dec_enc [of x "[]" "[]"] by auto
qed

end

section \<open>The wire types\<close>

definition cm_len :: nat where "cm_len = 32"
definition ct_len :: nat where "ct_len = 1088"
definition payload_len :: nat where "payload_len = 104 + 16"
definition payload_tag_len :: nat where "payload_tag_len = 16"

datatype clue_slot = ClueEmpty

record compact_entry =
  cm :: bytes
  tag :: bytes
  clue :: clue_slot

record recipient_bundle =
  ct :: bytes
  entries :: "compact_entry list"

record compact_group =
  tx_index :: u64
  recipients :: "recipient_bundle list"

definition contents_commitments :: "recipient_bundle list \<Rightarrow> bytes list" where
  "contents_commitments rs = concat (map (\<lambda>r. map cm (entries r)) rs)"

definition group_commitments :: "compact_group \<Rightarrow> bytes list" where
  "group_commitments g = concat (map (\<lambda>r. map cm (entries r)) (recipients g))"

definition n_outputs :: "compact_group \<Rightarrow> nat" where
  "n_outputs g = sum_list (map (\<lambda>r. length (entries r)) (recipients g))"

text \<open>The entry of \<open>wire.rs\<close>.\<close>

definition entry_to_bytes :: "compact_entry \<Rightarrow> bytes" where
  "entry_to_bytes e = cm e @ tag e @ (case clue e of ClueEmpty \<Rightarrow> [0])"

definition entry_from_bytes :: "bytes \<Rightarrow> (compact_entry \<times> nat) option" where
  "entry_from_bytes b =
    (if length b < 41 then None
     else if b ! 40 \<noteq> 0 then None
     else Some (\<lparr>cm = slice_at 0 32 b, tag = slice_at 32 8 b, clue = ClueEmpty\<rparr>, 41))"

definition bytes_per_note_amortized :: "nat \<Rightarrow> nat option" where
  "bytes_per_note_amortized k = (if k \<ge> 1 then Some (cm_len + 8 + 1 + (ct_len + k - 1) div k) else None)"

definition write_entry :: "compact_entry \<Rightarrow> bytes" where
  "write_entry e = cm e @ tag e @ (case clue e of ClueEmpty \<Rightarrow> [0])"

definition read_entry :: "bytes \<Rightarrow> nat \<Rightarrow> codec_error + (compact_entry \<times> nat)" where
  "read_entry b pos =
    (let end = pos + 32 + 8 + 1
     in if length b < end then Err (Truncated ''compact entry'')
        else
          let clue_len = b ! (pos + 40)
          in if clue_len \<noteq> 0 then Err (UnsupportedClue clue_len)
             else Ok (\<lparr>cm = slice_at pos 32 b, tag = slice_at (pos + 32) 8 b, clue = ClueEmpty\<rparr>, end))"

definition write_bundle :: "recipient_bundle \<Rightarrow> bytes" where
  "write_bundle r = ct r @ [word_of_nat (length (entries r))] @ concat (map write_entry (entries r))"

definition read_bundle :: "bytes \<Rightarrow> nat \<Rightarrow> codec_error + (recipient_bundle \<times> nat)" where
  "read_bundle b pos =
    (if length b < pos + ct_len then Err (Truncated ''ml_kem_ct'')
     else
       let pos1 = pos + ct_len
       in if length b \<le> pos1 then Err (Truncated ''n_outputs'')
          else rbind (read_times read_entry (unat (b ! pos1)) b (pos1 + 1)) (\<lambda>(es, pos2).
            Ok (\<lparr>ct = slice_at pos ct_len b, entries = es\<rparr>, pos2)))"

definition write_group_contents :: "recipient_bundle list \<Rightarrow> bytes" where
  "write_group_contents rs = [word_of_nat (length rs)] @ concat (map write_bundle rs)"

definition read_group_contents :: "bytes \<Rightarrow> nat \<Rightarrow> codec_error + (recipient_bundle list \<times> nat)" where
  "read_group_contents b pos =
    (if length b \<le> pos then Err (Truncated ''n_recipients'')
     else read_times read_bundle (unat (b ! pos)) b (pos + 1))"

definition decode_group_contents :: "bytes \<Rightarrow> codec_error + recipient_bundle list" where
  "decode_group_contents b =
    rbind (read_group_contents b 0) (\<lambda>(r, pos).
      if pos \<noteq> length b then Err (TrailingBytes (length b - pos)) else Ok r)"

definition payload_tag_is_zero :: "bytes \<Rightarrow> bool" where
  "payload_tag_is_zero p \<longleftrightarrow> length p \<ge> payload_tag_len \<and> (\<forall>b \<in> set (drop (length p - payload_tag_len) p). b = 0)"

definition contents_entry_count :: "recipient_bundle list \<Rightarrow> nat" where
  "contents_entry_count rs = sum_list (map (\<lambda>r. length (entries r)) rs)"

definition encode_committed_discovery_with_width ::
  "recipient_bundle list \<Rightarrow> bytes list \<Rightarrow> nat \<Rightarrow> bytes option" where
  "encode_committed_discovery_with_width rs ps width =
    (if length ps = contents_entry_count rs \<and> (\<forall>p \<in> set ps. length p = width)
     then Some (write_group_contents rs @ concat ps) else None)"

definition decode_committed_discovery_with_width ::
  "bytes \<Rightarrow> nat \<Rightarrow> codec_error + (recipient_bundle list \<times> bytes list)" where
  "decode_committed_discovery_with_width b width =
    rbind (read_group_contents b 0) (\<lambda>(rs, pos).
      let n = contents_entry_count rs; expected = n * width; got = length b - pos
      in if got \<noteq> expected then Err (PayloadSectionLen expected got)
         else Ok (rs, map (\<lambda>i. slice_at (pos + i * width) width b) [0..<n]))"

definition committed_contents_prefix :: "bytes \<Rightarrow> codec_error + bytes" where
  "committed_contents_prefix b = rbind (read_group_contents b 0) (\<lambda>(_, pos). Ok (take pos b))"

fun split_payloads :: "recipient_bundle list \<Rightarrow> bytes list \<Rightarrow> nat \<Rightarrow> bytes list list" where
  "split_payloads [] flat pos = []"
| "split_payloads (r # rs) flat pos =
    slice_at pos (length (entries r)) flat # split_payloads rs flat (pos + length (entries r))"

definition committed_payloads_per_recipient_with_width :: "bytes \<Rightarrow> nat \<Rightarrow> codec_error + bytes list list" where
  "committed_payloads_per_recipient_with_width b width =
    rbind (decode_committed_discovery_with_width b width) (\<lambda>(rs, flat). Ok (split_payloads rs flat 0))"

definition encode_group :: "compact_group \<Rightarrow> bytes" where
  "encode_group g = varint_bytes (tx_index g) @ write_group_contents (recipients g)"

definition read_group :: "bytes \<Rightarrow> nat \<Rightarrow> codec_error + (compact_group \<times> nat)" where
  "read_group b pos =
    rbind (read_varint b pos) (\<lambda>(ix, pos1).
      rbind (read_group_contents b pos1) (\<lambda>(rs, pos2). Ok (\<lparr>tx_index = ix, recipients = rs\<rparr>, pos2)))"

definition decode_group :: "bytes \<Rightarrow> codec_error + compact_group" where
  "decode_group b =
    rbind (read_group b 0) (\<lambda>(g, pos).
      if pos \<noteq> length b then Err (TrailingBytes (length b - pos)) else Ok g)"

section \<open>Every level is a codec\<close>

definition ok_entry :: "compact_entry \<Rightarrow> bool" where
  "ok_entry e \<longleftrightarrow> length (cm e) = 32 \<and> length (tag e) = 8"

definition ok_bundle :: "recipient_bundle \<Rightarrow> bool" where
  "ok_bundle r \<longleftrightarrow> length (ct r) = ct_len \<and> length (entries r) < 256 \<and> (\<forall>e \<in> set (entries r). ok_entry e)"

definition ok_contents :: "recipient_bundle list \<Rightarrow> bool" where
  "ok_contents rs \<longleftrightarrow> length rs < 256 \<and> (\<forall>r \<in> set rs. ok_bundle r)"

lemma clue_bytes [simp]: "(case c of ClueEmpty \<Rightarrow> x) = x"
  by (cases c) simp

lemma slice_at_mid: "slice_at (length pre) n (pre @ xs) = take n xs"
  by (simp add: slice_at_def)

lemma slice_at_mid_add: "slice_at (length pre + k) n (pre @ xs) = slice_at k n xs"
  by (simp add: slice_at_def)

lemma nth_slice: "pos < length b \<Longrightarrow> drop pos b = b ! pos # drop (pos + 1) b"
  by (simp add: Cons_nth_drop_Suc)

interpretation entry: sized_codec write_entry read_entry ok_entry
proof unfold_locales
  fix x and pre rest :: bytes assume "ok_entry x"
  then show "read_entry (pre @ write_entry x @ rest) (length pre) = Ok (x, length pre + length (write_entry x))"
    by (cases "clue x")
      (simp add: read_entry_def write_entry_def ok_entry_def nth_append slice_at_append slice_at_0_append
        slice_at_mid slice_at_mid_add)
next
  fix b pos x pos' assume a: "read_entry b pos = Ok (x, pos')"
  then have len: "pos + 41 \<le> length b" and z: "b ! (pos + 40) = 0" and pos': "pos' = pos + 41"
    and x: "x = \<lparr>cm = slice_at pos 32 b, tag = slice_at (pos + 32) 8 b, clue = ClueEmpty\<rparr>"
    by (auto simp: read_entry_def Let_def split: if_splits)
  then show "ok_entry x" by (simp add: ok_entry_def)
  have "drop pos b = slice_at pos 32 b @ slice_at (pos + 32) 8 b @ b ! (pos + 40) # drop (pos + 41) b"
    using drop_slice_at [of pos b 32] drop_slice_at [of "pos + 32" b 8] nth_slice [of "pos + 40" b] len
    by (simp add: ac_simps)
  then show "pos' \<le> length b \<and> drop pos b = write_entry x @ drop pos' b"
    using len z by (simp add: pos' x write_entry_def)
qed

lemma unat_len_byte: "n < 256 \<Longrightarrow> unat (word_of_nat n :: u8) = n"
  by (simp add: unat_of_nat_len)

lemma len_byte_unat: "word_of_nat (unat b) = (b :: u8)"
  by simp

interpretation bndl: sized_codec write_bundle read_bundle ok_bundle
proof unfold_locales
  fix x and pre rest :: bytes assume ok: "ok_bundle x"
  define n where "n = length (entries x)"
  let ?b = "pre @ write_bundle x @ rest"
  have n: "unat (word_of_nat n :: u8) = n" using ok by (simp add: n_def ok_bundle_def unat_len_byte)
  have b: "?b = (pre @ ct x @ [word_of_nat n]) @ concat (map write_entry (entries x)) @ rest"
    by (simp add: write_bundle_def n_def)
  have "read_times read_entry n ?b (length (pre @ ct x @ [word_of_nat n :: u8]))
      = Ok (entries x, length (pre @ ct x @ [word_of_nat n :: u8]) + length (concat (map write_entry (entries x))))"
    unfolding b n_def using ok by (intro entry.read_times_enc) (simp add: ok_bundle_def)
  moreover have "length (ct x) = ct_len" using ok by (simp add: ok_bundle_def)
  moreover have "?b ! (length pre + ct_len) = word_of_nat n" "slice_at (length pre) ct_len ?b = ct x"
    using \<open>length (ct x) = ct_len\<close> by (simp_all add: b nth_append slice_at_mid)
  ultimately show "read_bundle ?b (length pre) = Ok (x, length pre + length (write_bundle x))"
    using n by (simp add: read_bundle_def Let_def write_bundle_def n_def [symmetric])
next
  fix b pos x pos' assume a: "read_bundle b pos = Ok (x, pos')"
  then obtain es where len: "pos + ct_len < length b"
      and rd: "read_times read_entry (unat (b ! (pos + ct_len))) b (pos + ct_len + 1) = Ok (es, pos')"
      and x: "x = \<lparr>ct = slice_at pos ct_len b, entries = es\<rparr>"
    by (auto simp: read_bundle_def Let_def split: if_splits)
  have es: "length es = unat (b ! (pos + ct_len))" "\<forall>e \<in> set es. ok_entry e" "pos' \<le> length b"
      "drop (pos + ct_len + 1) b = concat (map write_entry es) @ drop pos' b"
    using entry.read_times_dec [OF rd] len by auto
  show "ok_bundle x" using es(1,2) len unat_lt_exp [of "b ! (pos + ct_len)"] by (simp add: ok_bundle_def x)
  have "drop pos b = slice_at pos ct_len b @ b ! (pos + ct_len) # drop (pos + ct_len + 1) b"
    using drop_slice_at [of pos b ct_len] nth_slice [of "pos + ct_len" b] len by simp
  then show "pos' \<le> length b \<and> drop pos b = write_bundle x @ drop pos' b"
    using es by (simp add: write_bundle_def x)
qed

interpretation contents: sized_codec write_group_contents read_group_contents ok_contents
proof unfold_locales
  fix x and pre rest :: bytes assume ok: "ok_contents x"
  let ?b = "pre @ write_group_contents x @ rest"
  have n: "unat (word_of_nat (length x) :: u8) = length x" using ok by (simp add: ok_contents_def unat_len_byte)
  have b: "?b = (pre @ [word_of_nat (length x)]) @ concat (map write_bundle x) @ rest"
    by (simp add: write_group_contents_def)
  have "read_times read_bundle (length x) ?b (length (pre @ [word_of_nat (length x) :: u8]))
      = Ok (x, length (pre @ [word_of_nat (length x) :: u8]) + length (concat (map write_bundle x)))"
    unfolding b using ok by (intro bndl.read_times_enc) (simp add: ok_contents_def)
  moreover have "?b ! length pre = word_of_nat (length x)" by (simp add: b nth_append)
  ultimately show "read_group_contents ?b (length pre) = Ok (x, length pre + length (write_group_contents x))"
    using n by (simp add: read_group_contents_def write_group_contents_def)
next
  fix b pos x pos' assume "read_group_contents b pos = Ok (x, pos')"
  then have len: "pos < length b" and rd: "read_times read_bundle (unat (b ! pos)) b (pos + 1) = Ok (x, pos')"
    by (auto simp: read_group_contents_def split: if_splits)
  have x: "length x = unat (b ! pos)" "\<forall>r \<in> set x. ok_bundle r" "pos' \<le> length b"
      "drop (pos + 1) b = concat (map write_bundle x) @ drop pos' b"
    using bndl.read_times_dec [OF rd] len by auto
  show "ok_contents x" using x(1,2) unat_lt_exp [of "b ! pos"] by (simp add: ok_contents_def)
  show "pos' \<le> length b \<and> drop pos b = write_group_contents x @ drop pos' b"
    using x nth_slice [OF len] by (simp add: write_group_contents_def)
qed

interpretation group: sized_codec encode_group read_group "\<lambda>g. ok_contents (recipients g)"
proof unfold_locales
  fix x :: compact_group and pre rest :: bytes assume ok: "ok_contents (recipients x)"
  have "read_varint (pre @ encode_group x @ rest) (length pre) = Ok (tx_index x, length (pre @ varint_bytes (tx_index x)))"
    using varint.dec_enc [where x = "tx_index x" and pre = pre and rest = "write_group_contents (recipients x) @ rest"] by (simp add: encode_group_def)
  moreover have "read_group_contents (pre @ encode_group x @ rest) (length (pre @ varint_bytes (tx_index x)))
      = Ok (recipients x, length (pre @ varint_bytes (tx_index x)) + length (write_group_contents (recipients x)))"
    using contents.dec_enc [OF ok, of "pre @ varint_bytes (tx_index x)" rest] by (simp add: encode_group_def)
  ultimately show "read_group (pre @ encode_group x @ rest) (length pre) = Ok (x, length pre + length (encode_group x))"
    by (simp add: read_group_def) (simp add: encode_group_def)
next
  fix b pos x pos' assume "read_group b pos = Ok (x, pos')"
  then obtain pos1 where a: "read_varint b pos = Ok (tx_index x, pos1)" "read_group_contents b pos1 = Ok (recipients x, pos')"
    by (auto simp: read_group_def)
  show "ok_contents (recipients x)" using contents.dec_ok [OF a(2)] .
  show "pos' \<le> length b \<and> drop pos b = encode_group x @ drop pos' b"
    using varint.enc_dec [OF a(1)] contents.enc_dec [OF a(2)] by (simp add: encode_group_def)
qed

section \<open>The payload section\<close>

lemma concat_blocks:
  "length xs = n * w \<Longrightarrow> concat (map (\<lambda>i. slice_at (i * w) w xs) [0..<n]) = xs"
proof (induction n arbitrary: xs)
  case (Suc n)
  have "length (take (n * w) xs) = n * w" using Suc.prems by simp
  then have "concat (map (\<lambda>i. slice_at (i * w) w (take (n * w) xs)) [0..<n]) = take (n * w) xs" by (rule Suc.IH)
  moreover have "map (\<lambda>i. slice_at (i * w) w (take (n * w) xs)) [0..<n] = map (\<lambda>i. slice_at (i * w) w xs) [0..<n]"
  proof (rule map_cong [OF refl])
    fix i assume "i \<in> set [0..<n]"
    then have "(i + 1) * w \<le> n * w" by (intro mult_le_mono1) simp
    then show "slice_at (i * w) w (take (n * w) xs) = slice_at (i * w) w xs"
      by (simp add: slice_at_def drop_take)
  qed
  moreover have "slice_at (n * w) w xs = drop (n * w) xs" using Suc.prems by (simp add: slice_at_def)
  ultimately show ?case by simp
qed simp

lemma blocks_concat:
  "\<forall>p \<in> set ps. length p = w \<Longrightarrow> map (\<lambda>i. slice_at (k + i * w) w (replicate k 0 @ concat ps)) [0..<length ps] = ps"
proof (induction ps arbitrary: k)
  case (Cons p ps)
  have "map (\<lambda>i. slice_at (k + Suc i * w) w (replicate k 0 @ concat (p # ps))) [0..<length ps]
      = map (\<lambda>i. slice_at ((k + w) + i * w) w (replicate (k + w) 0 @ concat ps)) [0..<length ps]"
    using Cons.prems by (simp add: slice_at_def)
  also have "\<dots> = ps" using Cons.prems by (intro Cons.IH) simp
  finally have "map (\<lambda>i. slice_at (k + Suc i * w) w (replicate k 0 @ concat (p # ps))) [0..<length ps] = ps" .
  moreover have "slice_at k w (replicate k 0 @ concat (p # ps)) = p" using Cons.prems by (simp add: slice_at_def)
  moreover have "[0..<length (p # ps)] = 0 # map Suc [0..<length ps]" by (simp add: map_Suc_upt upt_conv_Cons del: upt_Suc)
  ultimately show ?case by (simp add: comp_def)
qed simp

lemma length_concat_same: "\<forall>p \<in> set ps. length p = w \<Longrightarrow> length (concat ps) = length ps * w"
  by (induction ps) simp_all

lemma split_payloads_concat:
  "length flat = pos + contents_entry_count rs \<Longrightarrow>
    concat (split_payloads rs flat pos) = drop pos flat
    \<and> map length (split_payloads rs flat pos) = map (\<lambda>r. length (entries r)) rs"
proof (induction rs arbitrary: pos)
  case (Cons r rs)
  then show ?case using drop_slice_at [of pos flat "length (entries r)"] by (simp add: contents_entry_count_def)
qed (simp add: contents_entry_count_def)

lemma decode_discovery_split:
  "decode_committed_discovery_with_width b w = Ok (rs, ps) \<longleftrightarrow>
    (\<exists>pos. read_group_contents b 0 = Ok (rs, pos) \<and> length b - pos = contents_entry_count rs * w
       \<and> ps = map (\<lambda>i. slice_at (pos + i * w) w b) [0..<contents_entry_count rs])"
  by (auto simp: decode_committed_discovery_with_width_def Let_def)

lemma read_contents_prefix:
  assumes "read_group_contents b 0 = Ok (rs, pos)"
  shows "ok_contents rs \<and> pos \<le> length b \<and> pos = length (write_group_contents rs) \<and> take pos b = write_group_contents rs
    \<and> b = write_group_contents rs @ drop pos b"
proof -
  have b: "pos \<le> length b" "b = write_group_contents rs @ drop pos b" using contents.enc_dec [OF assms] by auto
  then have "length b = length (write_group_contents rs) + (length b - pos)" by (metis length_append length_drop)
  with b(1) have "pos = length (write_group_contents rs)" by simp
  with b contents.dec_ok [OF assms] show ?thesis by (metis append_eq_conv_conj)
qed

lemma decode_encode_discovery:
  "decode_committed_discovery_with_width b w = Ok (rs, ps) \<longleftrightarrow>
    ok_contents rs \<and> encode_committed_discovery_with_width rs ps w = Some b"
proof
  assume "decode_committed_discovery_with_width b w = Ok (rs, ps)"
  then obtain pos where rd: "read_group_contents b 0 = Ok (rs, pos)"
      and len: "length b - pos = contents_entry_count rs * w"
      and ps: "ps = map (\<lambda>i. slice_at (pos + i * w) w b) [0..<contents_entry_count rs]"
    by (auto simp: decode_discovery_split)
  note pre = read_contents_prefix [OF rd]
  have "ps = map (\<lambda>i. slice_at (i * w) w (drop pos b)) [0..<contents_entry_count rs]"
    by (simp add: ps slice_at_def add.commute)
  then have "concat ps = drop pos b" using concat_blocks [of "drop pos b"] len by simp
  moreover have "length p = w" if "p \<in> set ps" for p
  proof -
    from that obtain i where i: "i < contents_entry_count rs" "p = slice_at (pos + i * w) w b" by (auto simp: ps)
    then have "(i + 1) * w \<le> contents_entry_count rs * w" by (intro mult_le_mono1) simp
    moreover have "pos \<le> length b" using pre by blast
    ultimately have "pos + i * w + w \<le> length b" using len by simp
    then show ?thesis by (simp add: i(2))
  qed
  ultimately have "encode_committed_discovery_with_width rs ps w = Some (write_group_contents rs @ drop pos b)"
    by (simp add: encode_committed_discovery_with_width_def ps)
  moreover have "ok_contents rs" "write_group_contents rs @ drop pos b = b" using pre by (blast intro: sym)+
  ultimately show "ok_contents rs \<and> encode_committed_discovery_with_width rs ps w = Some b" by (simp only:)
next
  assume a: "ok_contents rs \<and> encode_committed_discovery_with_width rs ps w = Some b"
  then have b: "b = write_group_contents rs @ concat ps" and n: "length ps = contents_entry_count rs"
    and w: "\<forall>p \<in> set ps. length p = w"
    by (auto simp: encode_committed_discovery_with_width_def split: if_splits)
  define pos where "pos = length (write_group_contents rs)"
  have "read_group_contents b 0 = Ok (rs, pos)"
    using contents.dec_enc [of rs "[]" "concat ps"] a by (simp add: b pos_def)
  moreover have "length b - pos = contents_entry_count rs * w" using length_concat_same [OF w] n by (simp add: b pos_def)
  moreover have "map (\<lambda>i. slice_at (pos + i * w) w b) [0..<contents_entry_count rs] = ps"
    using blocks_concat [OF w, of pos] n by (simp add: slice_at_def b pos_def)
  ultimately show "decode_committed_discovery_with_width b w = Ok (rs, ps)" by (auto simp: decode_discovery_split)
qed

section \<open>Properties\<close>

text \<open>the committed discovery region admits one byte string per logical group: decoding accepts
  exactly the byte strings the encoder produces for well-sized contents (so decode and encode are
  inverse, nothing is truncated, padded or re-ordered).\<close>

theorem committed_discovery_roundtrip:
  "decode_committed_discovery_with_width b w = Ok (rs, ps) \<longleftrightarrow>
    ok_contents rs \<and> encode_committed_discovery_with_width rs ps w = Some b"
  by (rule decode_encode_discovery)

text \<open>serving is a projection of the committed bytes: when the region decodes, the served prefix is
  exactly the encoding of its contents, the served payload lists are, concatenated, exactly the
  committed payloads, and list \<open>i\<close> has one payload per output of recipient \<open>i\<close>.\<close>

theorem serving_is_projection:
  assumes "decode_committed_discovery_with_width b w = Ok (rs, ps)"
  shows "committed_contents_prefix b = Ok (write_group_contents rs)
    \<and> (\<exists>pss. committed_payloads_per_recipient_with_width b w = Ok pss \<and> concat pss = ps
        \<and> map length pss = map (\<lambda>r. length (entries r)) rs)
    \<and> b = write_group_contents rs @ concat ps"
proof -
  have enc: "encode_committed_discovery_with_width rs ps w = Some b"
    using assms by (simp add: decode_encode_discovery)
  obtain pos where rd: "read_group_contents b 0 = Ok (rs, pos)" using assms by (auto simp: decode_discovery_split)
  have n: "length ps = contents_entry_count rs" and b: "b = write_group_contents rs @ concat ps"
    using enc by (auto simp: encode_committed_discovery_with_width_def split: if_splits)
  have "committed_contents_prefix b = Ok (write_group_contents rs)"
  proof -
    have "take pos b = write_group_contents rs" using read_contents_prefix [OF rd] by blast
    with rd show ?thesis by (simp add: committed_contents_prefix_def)
  qed
  moreover have "concat (split_payloads rs ps 0) = ps" "map length (split_payloads rs ps 0) = map (\<lambda>r. length (entries r)) rs"
    using split_payloads_concat [of ps 0 rs] n by simp_all
  ultimately show ?thesis
    using assms b by (auto simp: committed_payloads_per_recipient_with_width_def)
qed

lemma serving_is_projection_witness:
  "committed_contents_prefix [0] = Ok (write_group_contents []) \<and> decode_committed_discovery_with_width [0] 120 = Ok ([], [])"
proof -
  have "decode_committed_discovery_with_width [0] 120 = Ok ([], [])"
    by (simp add: decode_encode_discovery ok_contents_def encode_committed_discovery_with_width_def
        contents_entry_count_def write_group_contents_def)
  from serving_is_projection [OF this] this show ?thesis by blast
qed

text \<open>the serving form of a group is canonical too: a whole buffer decodes to a group exactly when it
  is that group's encoding, the index varint included, and trailing bytes are refused.\<close>

theorem group_roundtrip:
  "decode_group b = Ok g \<longleftrightarrow> ok_contents (recipients g) \<and> encode_group g = b"
proof -
  have "decode_group b = Ok g \<longleftrightarrow> read_group b 0 = Ok (g, length b)"
    by (auto simp: decode_group_def)
  then show ?thesis using group.whole_buffer by simp
qed

end
