(* ===== verification/Names.thy ===== *)
theory Names
  imports Hashing "HOL-Library.List_Lexorder"
begin

text \<open>
  The name service of \<open>qlab-devnet/src/names.rs\<close> and the registry replay of \<open>name_registry.rs\<close>: the
  rider codec, the grammar, the fees, the rule check and the fold of a block's riders into the
  registry. The trait \<open>NameView\<close> is a record of its two functions; what a client may rely on is the
  locale \<open>commit_view\<close>, interpreted on the registry and on the empty view. A \<open>HashSet\<close> of names is a
  list used through membership.
\<close>

section \<open>Constants and fees\<close>

definition bessel_per_qmb :: u64 where "bessel_per_qmb = 100000000"
definition name_term_epochs :: u64 where "name_term_epochs = 365"
definition name_grace_epochs :: u64 where "name_grace_epochs = 90"
definition epoch_length_blocks :: u64 where "epoch_length_blocks = 1152"
definition name_term_blocks :: u64 where "name_term_blocks = name_term_epochs * epoch_length_blocks"
definition name_grace_blocks :: u64 where "name_grace_blocks = name_grace_epochs * epoch_length_blocks"
definition commit_min_age :: u64 where "commit_min_age = 8"
definition commit_max_age :: u64 where "commit_max_age = 2304"
definition record_kind_l1_address :: u8 where "record_kind_l1_address = 1"
definition l1_address_len :: nat where "l1_address_len = 1233"
definition max_name_len :: nat where "max_name_len = 63"

definition name_fee_bessel :: "nat \<Rightarrow> u64" where
  "name_fee_bessel len =
    (let qmb = (\<lambda>n. n * bessel_per_qmb)
     in if len = 0 then 0 else if len = 1 then qmb 2048 else if len = 2 then qmb 512
        else if len = 3 then qmb 128 else if len = 4 then qmb 32 else qmb 1)"

definition alnum :: "u8 \<Rightarrow> bool" where
  "alnum b \<longleftrightarrow> (97 \<le> b \<and> b \<le> 122) \<or> (48 \<le> b \<and> b \<le> 57)"

definition valid_name :: "bytes \<Rightarrow> bool" where
  "valid_name name =
    (if name = [] \<or> length name > max_name_len then False
     else if \<not> alnum (name ! 0) \<or> \<not> alnum (name ! (length name - 1)) then False
     else if \<not> (\<forall>b \<in> set name. alnum b \<or> b = 45) then False
     else if length name \<ge> 4 \<and> name ! 2 = 45 \<and> name ! 3 = 45 then False
     else True)"

section \<open>The rider codec\<close>

record name_record =
  nr_kind :: u8
  nr_name :: bytes
  nr_address :: bytes

datatype name_op = Commit hash32 | Reveal name_record bytes | Renew bytes

datatype rider_error =
    RiderEmpty
  | UnknownVersion u8
  | UnknownOp u8
  | RiderTruncated
  | RiderTrailingBytes
  | LengthOutOfBounds

definition rider_absent :: bytes where "rider_absent = [0]"
definition rider_v1 :: u8 where "rider_v1 = 1"
definition op_commit :: u8 where "op_commit = 1"
definition op_reveal :: u8 where "op_reveal = 2"
definition op_renew :: u8 where "op_renew = 3"

definition encode_record :: "name_record \<Rightarrow> bytes" where
  "encode_record r =
    [nr_kind r] @ [word_of_nat (length (nr_name r))] @ nr_name r
    @ u16_le (word_of_nat (length (nr_address r))) @ nr_address r"

definition decode_record :: "bytes \<Rightarrow> rider_error + (name_record \<times> nat)" where
  "decode_record b =
    (if length b < 2 then Err RiderTruncated
     else
       let kind = b ! 0; name_len = unat (b ! 1)
       in if name_len = 0 \<or> name_len > max_name_len then Err LengthOutOfBounds
          else if length b < 2 + name_len + 2 then Err RiderTruncated
          else
            let name = slice_at 2 name_len b; at = 2 + name_len;
                addr_len = unat (u16_from_le [b ! at, b ! (at + 1)]); at2 = at + 2
            in if addr_len > l1_address_len then Err LengthOutOfBounds
               else if length b < at2 + addr_len then Err RiderTruncated
               else Ok (\<lparr>nr_kind = kind, nr_name = name, nr_address = slice_at at2 addr_len b\<rparr>, at2 + addr_len))"

definition encode_rider :: "name_op option \<Rightarrow> bytes" where
  "encode_rider x =
    (case x of
       None \<Rightarrow> rider_absent
     | Some (Commit c) \<Rightarrow> [rider_v1] @ [op_commit] @ c
     | Some (Reveal r salt) \<Rightarrow> [rider_v1] @ [op_reveal] @ encode_record r @ salt
     | Some (Renew name) \<Rightarrow> [rider_v1] @ [op_renew] @ [word_of_nat (length name)] @ name)"

text \<open>The body of the version-1 branch, on the bytes after the operation byte.\<close>

definition decode_op :: "u8 \<Rightarrow> bytes \<Rightarrow> rider_error + name_op option" where
  "decode_op op rest =
    (if op = op_commit then
       (if length rest < 32 then Err RiderTruncated
        else if length rest > 32 then Err RiderTrailingBytes
        else Ok (Some (Commit rest)))
     else if op = op_reveal then
       rbind (decode_record rest) (\<lambda>(r, used).
         let tail = drop used rest
         in if length tail < 32 then Err RiderTruncated
            else if length tail > 32 then Err RiderTrailingBytes
            else Ok (Some (Reveal r tail)))
     else if op = op_renew then
       (case rest of
          [] \<Rightarrow> Err RiderTruncated
        | l # rest' \<Rightarrow>
            let len = unat l
            in if len = 0 \<or> len > max_name_len then Err LengthOutOfBounds
               else if length rest' < len then Err RiderTruncated
               else if length rest' > len then Err RiderTrailingBytes
               else Ok (Some (Renew rest')))
     else Err (UnknownOp op))"

definition decode_rider :: "bytes \<Rightarrow> rider_error + name_op option" where
  "decode_rider b =
    (case b of
       [] \<Rightarrow> Err RiderEmpty
     | version # rest \<Rightarrow>
         if version = 0 then (if rest = [] then Ok None else Err RiderTrailingBytes)
         else if version \<noteq> rider_v1 then Err (UnknownVersion version)
         else (case rest of [] \<Rightarrow> Err RiderTruncated | op # rest' \<Rightarrow> decode_op op rest'))"

definition rider_is_canonical :: "bytes \<Rightarrow> bool" where
  "rider_is_canonical b = (case decode_rider b of Inr op \<Rightarrow> encode_rider op = b | Inl _ \<Rightarrow> False)"

text \<open>\<open>b"qumbra:name:commit:v1"\<close>\<close>

definition name_commit_domain :: bytes where
  "name_commit_domain = [113, 117, 109, 98, 114, 97, 58, 110, 97, 109, 101, 58, 99, 111, 109, 109, 105, 116, 58, 118, 49]"

definition commit_hash :: "name_record \<Rightarrow> bytes \<Rightarrow> hash32" where
  "commit_hash r salt = keccak256 (name_commit_domain @ encode_record r @ salt)"

definition name_fee_for :: "name_op \<Rightarrow> u64" where
  "name_fee_for op =
    (case op of Commit _ \<Rightarrow> 0 | Reveal r _ \<Rightarrow> name_fee_bessel (length (nr_name r)) | Renew name \<Rightarrow> name_fee_bessel (length name))"

definition burn_of_riders :: "bytes list \<Rightarrow> u64" where
  "burn_of_riders rs =
    fold (\<lambda>r acc. acc + (case decode_rider r of Inr (Some op) \<Rightarrow> name_fee_for op | _ \<Rightarrow> 0)) rs 0"

definition riders_active_above :: "u64 option \<Rightarrow> u64 \<Rightarrow> bool" where
  "riders_active_above boundary h = (case boundary of Some b \<Rightarrow> h > b | None \<Rightarrow> False)"

definition reopens_at :: "u64 \<Rightarrow> u64" where
  "reopens_at expiry = sat_add expiry name_grace_blocks"

section \<open>The rules\<close>

record name_view =
  commit_included_in :: "hash32 \<Rightarrow> u64 \<Rightarrow> u64 \<Rightarrow> bool"
  registration_expiry :: "bytes \<Rightarrow> u64 option"

definition empty_name_view :: name_view where
  "empty_name_view = \<lparr>commit_included_in = (\<lambda>c lo hi. False), registration_expiry = (\<lambda>n. None)\<rparr>"

datatype name_rule_error =
    Grammar
  | UnknownRecordKind u8
  | WrongRecordSize u8 nat nat
  | CommitNotFound
  | NameTaken u64
  | UnknownForRenewal

definition check_op :: "name_view \<Rightarrow> u64 \<Rightarrow> name_op \<Rightarrow> bytes list \<Rightarrow> name_rule_error + unit" where
  "check_op view h op pending =
    (case op of
       Commit _ \<Rightarrow> Ok ()
     | Reveal r salt \<Rightarrow>
         if \<not> valid_name (nr_name r) then Err Grammar
         else if nr_kind r \<noteq> record_kind_l1_address then Err (UnknownRecordKind (nr_kind r))
         else if length (nr_address r) \<noteq> l1_address_len
           then Err (WrongRecordSize (nr_kind r) l1_address_len (length (nr_address r)))
         else
           let commit = commit_hash r salt; min_h = sat_sub h commit_max_age; max_h = sat_sub h commit_min_age
           in if h < commit_min_age \<or> \<not> commit_included_in view commit min_h max_h then Err CommitNotFound
              else if nr_name r \<in> set pending then Err (NameTaken (reopens_at (h + name_term_blocks)))
              else (case registration_expiry view (nr_name r) of
                      Some expiry \<Rightarrow>
                        let reopen = reopens_at expiry in if h < reopen then Err (NameTaken reopen) else Ok ()
                    | None \<Rightarrow> Ok ())
     | Renew name \<Rightarrow>
         if \<not> valid_name name then Err Grammar
         else if name \<in> set pending then Ok ()
         else (case registration_expiry view name of
                 Some expiry \<Rightarrow> if h < reopens_at expiry then Ok () else Err UnknownForRenewal
               | None \<Rightarrow> Err UnknownForRenewal))"

text \<open>The three refusals of \<open>BodyError\<close> that \<open>names_admit_op_above\<close> returns, all at index 0.\<close>

datatype admit_error = RiderMalformed rider_error | RiderBeforeBoundary | RiderRule name_rule_error

definition names_admit_op_above :: "u64 option \<Rightarrow> bytes \<Rightarrow> u64 \<Rightarrow> name_view \<Rightarrow> admit_error + name_op option" where
  "names_admit_op_above boundary rider h view =
    (case decode_rider rider of
       Inl e \<Rightarrow> Err (RiderMalformed e)
     | Inr None \<Rightarrow> Ok None
     | Inr (Some op) \<Rightarrow>
         if \<not> riders_active_above boundary h then Err RiderBeforeBoundary
         else (case check_op view h op [] of Inl e \<Rightarrow> Err (RiderRule e) | Inr _ \<Rightarrow> Ok (Some op)))"

definition extended_expiry :: "u64 option \<Rightarrow> u64 \<Rightarrow> u64" where
  "extended_expiry current h = max (case current of Some c \<Rightarrow> c | None \<Rightarrow> h) h + name_term_blocks"

section \<open>The registry\<close>

record name_entry =
  ne_kind :: u8
  ne_address :: bytes
  registered :: u64
  expiry :: u64

record name_registry =
  commits :: "(hash32 \<times> u64) list"
  names :: "(bytes \<times> name_entry) list"

definition name_registry_new :: name_registry where
  "name_registry_new = \<lparr>commits = [], names = []\<rparr>"

text \<open>One rider of the loop in \<open>apply_block_riders\<close>; on an error the earlier riders stay applied.\<close>

definition apply_op :: "u64 \<Rightarrow> name_op option \<Rightarrow> name_registry \<Rightarrow> name_registry" where
  "apply_op h op reg =
    (case op of
       None \<Rightarrow> reg
     | Some (Commit c) \<Rightarrow> reg\<lparr>commits := bt_or_insert c h (commits reg)\<rparr>
     | Some (Reveal r _) \<Rightarrow>
         reg\<lparr>names := bt_insert (nr_name r)
           \<lparr>ne_kind = nr_kind r, ne_address = nr_address r, registered = h, expiry = extended_expiry None h\<rparr> (names reg)\<rparr>
     | Some (Renew name) \<Rightarrow>
         (case map_of (names reg) name of
            Some e \<Rightarrow> reg\<lparr>names := bt_insert name (e\<lparr>expiry := extended_expiry (Some (expiry e)) h\<rparr>) (names reg)\<rparr>
          | None \<Rightarrow> reg))"

fun apply_riders :: "u64 \<Rightarrow> nat \<Rightarrow> bytes list \<Rightarrow> name_registry \<Rightarrow> ((nat \<times> rider_error) + unit) \<times> name_registry" where
  "apply_riders h i [] reg = (Ok (), reg)"
| "apply_riders h i (r # rs) reg =
    (case decode_rider r of
       Inl e \<Rightarrow> (Err (i, e), reg)
     | Inr op \<Rightarrow> apply_riders h (i + 1) rs (apply_op h op reg))"

definition apply_block_riders :: "name_registry \<Rightarrow> u64 \<Rightarrow> bytes list \<Rightarrow> ((nat \<times> rider_error) + unit) \<times> name_registry" where
  "apply_block_riders reg h riders =
    (let horizon = sat_sub h commit_max_age
     in apply_riders h 0 riders (reg\<lparr>commits := bt_retain (\<lambda>_ ch. ch \<ge> horizon) (commits reg)\<rparr>))"

definition registry_view :: "name_registry \<Rightarrow> name_view" where
  "registry_view reg =
    \<lparr>commit_included_in = (\<lambda>c lo hi. case map_of (commits reg) c of Some h \<Rightarrow> lo \<le> h \<and> h \<le> hi | None \<Rightarrow> False),
     registration_expiry = (\<lambda>n. map_option expiry (map_of (names reg) n))\<rparr>"

section \<open>The codec's laws\<close>

definition wf_record :: "name_record \<Rightarrow> bool" where
  "wf_record r \<longleftrightarrow> nr_name r \<noteq> [] \<and> length (nr_name r) \<le> max_name_len \<and> length (nr_address r) \<le> l1_address_len"

definition wf_op :: "name_op \<Rightarrow> bool" where
  "wf_op op =
    (case op of
       Commit c \<Rightarrow> is_hash32 c
     | Reveal r salt \<Rightarrow> wf_record r \<and> length salt = 32
     | Renew name \<Rightarrow> name \<noteq> [] \<and> length name \<le> max_name_len)"

lemmas name_consts = max_name_len_def l1_address_len_def rider_v1_def op_commit_def op_reveal_def op_renew_def rider_absent_def

lemma le_two: "length bs = 2 \<Longrightarrow> \<exists>x y. bs = [x, y]"
  by (auto simp: length_Suc_conv numeral_2_eq_2)

lemma decode_encode_record:
  assumes "wf_record r"
  shows "decode_record (encode_record r @ tail) = Ok (r, length (encode_record r))"
proof -
  define n where "n = length (nr_name r)"
  define a where "a = length (nr_address r)"
  have n: "0 < n" "n \<le> 63" and a: "a \<le> 1233" using assms by (auto simp: wf_record_def n_def a_def name_consts)
  have un: "unat (word_of_nat n :: u8) = n" using n by (intro unat_of_nat_len) simp
  have ua: "unat (word_of_nat a :: u16) = a" using a by (intro unat_of_nat_len) simp
  obtain x y where xy: "u16_le (word_of_nat a) = [x, y]" using le_two [OF length_u16_le] by blast
  have v: "unat (u16_from_le [x, y]) = a" using u16_from_le_u16_le [of "word_of_nat a"] ua by (simp add: xy)
  have e: "encode_record r @ tail = nr_kind r # word_of_nat n # nr_name r @ x # y # nr_address r @ tail"
    by (simp add: encode_record_def n_def [symmetric] a_def [symmetric] xy)
  have l: "length (encode_record r) = 4 + n + a"
    by (simp add: encode_record_def n_def [symmetric] a_def [symmetric])
  have s: "slice_at 2 n (encode_record r @ tail) = nr_name r"
    by (simp add: e slice_at_def n_def)
  have b: "(encode_record r @ tail) ! (2 + n) = x" "(encode_record r @ tail) ! (2 + n + 1) = y"
    by (simp_all add: e nth_append n_def)
  have ad: "slice_at (2 + n + 2) a (encode_record r @ tail) = nr_address r"
    by (simp add: e slice_at_def n_def a_def)
  have h: "(encode_record r @ tail) ! 0 = nr_kind r" "unat ((encode_record r @ tail) ! 1) = n"
    using un by (simp_all add: e)
  have lt: "length (encode_record r @ tail) = 4 + n + a + length tail" by (simp add: l)
  show ?thesis
    unfolding decode_record_def Let_def h b s v ad lt l
    using n a by (simp add: name_consts)
qed

lemma encode_decode_record:
  assumes "decode_record b = Ok (r, used)"
  shows "wf_record r \<and> used \<le> length b \<and> b = encode_record r @ drop used b"
proof -
  define n where "n = unat (b ! 1)"
  define a where "a = unat (u16_from_le [b ! (2 + n), b ! (2 + n + 1)])"
  have n: "0 < n" "n \<le> 63" and a: "a \<le> 1233" and len: "2 + n + 2 + a \<le> length b" and used: "used = 2 + n + 2 + a"
    and r: "r = \<lparr>nr_kind = b ! 0, nr_name = slice_at 2 n b, nr_address = slice_at (2 + n + 2) a b\<rparr>"
    using assms unfolding decode_record_def Let_def n_def [symmetric] a_def [symmetric]
    by (auto simp: name_consts split: if_splits)
  have wn: "(word_of_nat n :: u8) = b ! 1" by (simp add: n_def)
  have "u16_le (word_of_nat a) = [b ! (2 + n), b ! (2 + n + 1)]"
    unfolding a_def by (simp add: u16_le_u16_from_le)
  then have "encode_record r = [b ! 0] @ [b ! 1] @ slice_at 2 n b @ [b ! (2 + n), b ! (2 + n + 1)] @ slice_at (2 + n + 2) a b"
    using len by (simp add: encode_record_def r wn)
  moreover have "b = slice_at 0 1 b @ slice_at 1 1 b @ slice_at 2 n b @ slice_at (2 + n) 1 b @ slice_at (2 + n + 1) 1 b
      @ slice_at (2 + n + 2) a b @ drop used b"
    using drop_slice_at [of 0 b 1] drop_slice_at [of 1 b 1] drop_slice_at [of 2 b n] drop_slice_at [of "2 + n" b 1]
      drop_slice_at [of "2 + n + 1" b 1] drop_slice_at [of "2 + n + 2" b a] len
    by (simp add: used numeral_2_eq_2)
  moreover have "slice_at 0 1 b = [b ! 0]" "slice_at 1 1 b = [b ! 1]" "slice_at (2 + n) 1 b = [b ! (2 + n)]"
    "slice_at (2 + n + 1) 1 b = [b ! (2 + n + 1)]"
    using len by (simp_all only: slice_at_1)
  ultimately have "b = encode_record r @ drop used b" by (simp only: append_assoc append_Cons append_Nil)
  moreover have "wf_record r" using n a len by (auto simp: wf_record_def r name_consts slice_at_def)
  ultimately show ?thesis using len used by simp
qed

lemma rider_codec:
  "decode_rider b = Ok x \<longleftrightarrow> (case x of None \<Rightarrow> True | Some op \<Rightarrow> wf_op op) \<and> encode_rider x = b"
proof
  assume d: "decode_rider b = Ok x"
  show "(case x of None \<Rightarrow> True | Some op \<Rightarrow> wf_op op) \<and> encode_rider x = b"
  proof (cases x)
    case None
    with d show ?thesis
      by (auto simp: decode_rider_def decode_op_def encode_rider_def rider_absent_def Let_def
          split: list.splits if_splits)
  next
    case (Some op)
    with d obtain v rest where b: "b = rider_v1 # v # rest" and o: "decode_op v rest = Ok (Some op)"
      by (auto simp: decode_rider_def split: list.splits if_splits)
    show ?thesis
    proof (cases op)
      case (Commit c)
      with o b Some show ?thesis
        by (auto simp: decode_op_def encode_rider_def wf_op_def is_hash32_def Let_def split: list.splits if_splits)
    next
      case (Reveal r salt)
      with o obtain used where dr: "decode_record rest = Ok (r, used)" "salt = drop used rest" "length salt = 32" "v = op_reveal"
        by (auto simp: decode_op_def Let_def name_consts split: list.splits if_splits)
      with encode_decode_record [OF dr(1)] b Some Reveal show ?thesis by (auto simp: encode_rider_def wf_op_def)
    next
      case (Renew name)
      with o b Some show ?thesis
        by (auto simp: decode_op_def encode_rider_def wf_op_def Let_def split: list.splits if_splits)
    qed
  qed
next
  assume a: "(case x of None \<Rightarrow> True | Some op \<Rightarrow> wf_op op) \<and> encode_rider x = b"
  show "decode_rider b = Ok x"
  proof (cases x)
    case None
    with a show ?thesis by (auto simp: decode_rider_def encode_rider_def rider_absent_def)
  next
    case (Some op)
    show ?thesis
    proof (cases op)
      case (Commit c)
      with a Some show ?thesis by (auto simp: decode_rider_def decode_op_def encode_rider_def wf_op_def is_hash32_def name_consts)
    next
      case (Reveal r salt)
      with a Some show ?thesis
        using decode_encode_record [of r salt] by (auto simp: decode_rider_def decode_op_def encode_rider_def wf_op_def name_consts Let_def)
    next
      case (Renew name)
      with a Some have n: "name \<noteq> []" "length name \<le> 63" by (auto simp: wf_op_def name_consts)
      then have "unat (word_of_nat (length name) :: u8) = length name" by (intro unat_of_nat_len) simp
      with a Some Renew n show ?thesis by (auto simp: decode_rider_def decode_op_def encode_rider_def name_consts Let_def)
    qed
  qed
qed

section \<open>What a view promises\<close>

text \<open>
  The contract of \<open>NameView\<close>'s commit query: it answers from one inclusion height per commit. The
  reveal rule's age bounds follow from this alone, whatever keeps the commits.
\<close>

locale commit_view =
  fixes view :: name_view and included_at :: "hash32 \<Rightarrow> u64 option"
  assumes included_iff: "commit_included_in view c lo hi \<longleftrightarrow> (\<exists>h. included_at c = Some h \<and> lo \<le> h \<and> h \<le> hi)"
begin

lemma commit_age:
  assumes "commit_min_age \<le> h"
  shows "commit_included_in view c (sat_sub h commit_max_age) (sat_sub h commit_min_age) \<longleftrightarrow>
    (\<exists>hc. included_at c = Some hc \<and> unat hc + 8 \<le> unat h \<and> unat h \<le> unat hc + 2304)"
proof -
  have "8 \<le> unat h" using assms by (simp add: commit_min_age_def word_le_nat_alt)
  then have "(sat_sub h commit_max_age \<le> hc \<and> hc \<le> sat_sub h commit_min_age) \<longleftrightarrow>
      (unat hc + 8 \<le> unat h \<and> unat h \<le> unat hc + 2304)" for hc
    by (auto simp: conv_simps commit_max_age_def commit_min_age_def)
  then show ?thesis unfolding included_iff by blast
qed

lemma reveal_iff:
  "check_op view h (Reveal r salt) pending = Ok () \<longleftrightarrow>
    valid_name (nr_name r) \<and> nr_kind r = record_kind_l1_address \<and> length (nr_address r) = l1_address_len
    \<and> (\<exists>hc. included_at (commit_hash r salt) = Some hc \<and> unat hc + 8 \<le> unat h \<and> unat h \<le> unat hc + 2304)
    \<and> nr_name r \<notin> set pending
    \<and> (\<forall>ex. registration_expiry view (nr_name r) = Some ex \<longrightarrow> reopens_at ex \<le> h)"
proof (cases "commit_min_age \<le> h")
  case True
  then have le: "\<not> h < commit_min_age" by simp
  show ?thesis
    unfolding check_op_def name_op.case Let_def commit_age [OF True, symmetric]
    using le by (auto simp: not_less split: option.splits)
next
  case False
  then have "unat h < 8" by (simp add: commit_min_age_def word_le_nat_alt)
  with False show ?thesis by (auto simp: check_op_def Let_def not_le)
qed

end

interpretation registry: commit_view "registry_view reg" "map_of (commits reg)" for reg
  by unfold_locales (auto simp: registry_view_def split: option.splits)

interpretation empty_view: commit_view empty_name_view "\<lambda>_. None"
  by unfold_locales (simp add: empty_name_view_def)

section \<open>A block of riders\<close>

text \<open>
  The rider part of the body check (\<open>body.rs\<close> lines 1616--1646): every rider decodes and passes the
  rules against the parent's view, and the names revealed earlier in the block are pending.
\<close>

fun riders_valid :: "name_view \<Rightarrow> u64 \<Rightarrow> bytes list \<Rightarrow> bytes list \<Rightarrow> bool" where
  "riders_valid view h pending [] = True"
| "riders_valid view h pending (r # rs) =
    (case decode_rider r of
       Inl _ \<Rightarrow> False
     | Inr None \<Rightarrow> riders_valid view h pending rs
     | Inr (Some op) \<Rightarrow>
         check_op view h op pending = Ok ()
         \<and> riders_valid view h (case op of Reveal x _ \<Rightarrow> nr_name x # pending | _ \<Rightarrow> pending) rs)"

text \<open>The binding of a live name: everything of its entry but the expiry.\<close>

definition same_binding :: "name_entry \<Rightarrow> name_entry \<Rightarrow> bool" where
  "same_binding a b \<longleftrightarrow> ne_kind a = ne_kind b \<and> ne_address a = ne_address b \<and> registered a = registered b"

lemma same_binding_trans: "same_binding a b \<Longrightarrow> same_binding b c \<Longrightarrow> same_binding a c"
  by (simp add: same_binding_def)

lemma extended_expiry_ge:
  assumes "max (unat e) (unat h) + unat name_term_blocks < 2 ^ 64"
  shows "unat (extended_expiry (Some e) h) = max (unat e) (unat h) + unat name_term_blocks"
  using assms by (simp add: extended_expiry_def unat_add_small unat_max)

lemma unat_name_term: "unat name_term_blocks = 420480"
  by (simp add: name_term_blocks_def name_term_epochs_def epoch_length_blocks_def)

text \<open>A rider that is not a reveal of the name keeps the name's binding and can only push its expiry.\<close>

lemma apply_op_keeps:
  assumes "map_of (names reg) n = Some e" and "\<And>r salt. op = Some (Reveal r salt) \<Longrightarrow> nr_name r \<noteq> n"
  shows "\<exists>e'. map_of (names (apply_op h op reg)) n = Some e' \<and> same_binding e e'
    \<and> (e' = e \<or> expiry e' = extended_expiry (Some (expiry e)) h)"
  using assms
  by (auto simp: apply_op_def map_of_bt_insert same_binding_def split: option.splits name_op.splits)

lemma apply_riders_keeps:
  assumes "riders_valid (registry_view reg0) h pending rs"
    and "map_of (names reg0) n = Some e0" and "h < reopens_at (expiry e0)"
    and "map_of (names reg) n = Some e"
    and "max (unat (expiry e)) (unat h) + length rs * unat name_term_blocks < 2 ^ 64"
  shows "\<exists>reg' e'. apply_riders h i rs reg = (Ok (), reg') \<and> map_of (names reg') n = Some e' \<and> same_binding e e'
    \<and> expiry e \<le> expiry e'"
  using assms(1,4,5)
proof (induction rs arbitrary: i reg e pending)
  case Nil
  then show ?case by (simp add: same_binding_def)
next
  case (Cons r rs)
  obtain op where op: "decode_rider r = Ok op" using Cons.prems(1) by (auto split: sum.splits)
  obtain pending' where rest: "riders_valid (registry_view reg0) h pending' rs"
    using Cons.prems(1) op by (auto split: option.splits)
  have other: "nr_name x \<noteq> n" if "op = Some (Reveal x salt)" for x salt
  proof
    assume "nr_name x = n"
    moreover have "check_op (registry_view reg0) h (Reveal x salt) pending = Ok ()"
      using Cons.prems(1) op that by simp
    then have "\<forall>ex. registration_expiry (registry_view reg0) (nr_name x) = Some ex \<longrightarrow> reopens_at ex \<le> h"
      by (simp add: registry.reveal_iff)
    ultimately have "reopens_at (expiry e0) \<le> h" using assms(2) by (simp add: registry_view_def)
    with assms(3) show False by simp
  qed
  have "\<exists>e1. map_of (names (apply_op h op reg)) n = Some e1 \<and> same_binding e e1
    \<and> (e1 = e \<or> expiry e1 = extended_expiry (Some (expiry e)) h)"
    using Cons.prems(2) other by (rule apply_op_keeps)
  then obtain e1 where
    e1: "map_of (names (apply_op h op reg)) n = Some e1" "same_binding e e1"
      "e1 = e \<or> expiry e1 = extended_expiry (Some (expiry e)) h"
    by blast
  have "max (unat (expiry e)) (unat h) + unat name_term_blocks < 2 ^ 64"
    using Cons.prems(3) by simp
  then have ext: "unat (extended_expiry (Some (expiry e)) h) = max (unat (expiry e)) (unat h) + unat name_term_blocks"
    by (rule extended_expiry_ge)
  then have le: "expiry e \<le> expiry e1" using e1(3) by (auto simp: word_le_nat_alt)
  have "max (unat (expiry e1)) (unat h) \<le> max (unat (expiry e)) (unat h) + unat name_term_blocks"
    using e1(3) ext by auto
  moreover have "length (r # rs) * unat name_term_blocks = unat name_term_blocks + length rs * unat name_term_blocks"
    by simp
  ultimately have "max (unat (expiry e1)) (unat h) + length rs * unat name_term_blocks < 2 ^ 64"
    using Cons.prems(3) by linarith
  from Cons.IH [OF rest e1(1) this, of "i + 1"] obtain reg' e' where
    "apply_riders h (i + 1) rs (apply_op h op reg) = (Ok (), reg')" "map_of (names reg') n = Some e'"
      "same_binding e1 e'" "expiry e1 \<le> expiry e'"
    by blast
  with op e1(2) le show ?case by (auto intro: same_binding_trans order_trans)
qed

section \<open>Properties\<close>

text \<open>the rider codec is canonical: a byte string decodes to a rider exactly when it is the encoding
  of that (well-sized) rider, so every accepted rider re-encodes to itself and no two byte strings
  mean the same operation.\<close>

theorem rider_roundtrip:
  "decode_rider b = Ok x \<longleftrightarrow> (case x of None \<Rightarrow> True | Some op \<Rightarrow> wf_op op) \<and> encode_rider x = b"
  by (rule rider_codec)

text \<open>when a reveal may take a name: exactly when the name and record are well-formed, its commitment
  was included between 8 and 2304 blocks earlier, no earlier rider of the block took the name, and
  no registration of it is within its term and grace.\<close>

theorem reveal_rule:
  "check_op (registry_view reg) h (Reveal r salt) pending = Ok () \<longleftrightarrow>
    valid_name (nr_name r) \<and> nr_kind r = record_kind_l1_address \<and> length (nr_address r) = l1_address_len
    \<and> (\<exists>hc. map_of (commits reg) (commit_hash r salt) = Some hc \<and> unat hc + 8 \<le> unat h \<and> unat h \<le> unat hc + 2304)
    \<and> nr_name r \<notin> set pending
    \<and> (\<forall>e. map_of (names reg) (nr_name r) = Some e \<longrightarrow> unat (reopens_at (expiry e)) \<le> unat h)"
  unfolding registry.reveal_iff by (auto simp: registry_view_def word_le_nat_alt)

definition sample_record :: name_record where
  "sample_record = \<lparr>nr_kind = record_kind_l1_address, nr_name = [97], nr_address = replicate l1_address_len 0\<rparr>"

lemma reveal_rule_witness:
  "check_op (registry_view \<lparr>commits = [(commit_hash sample_record [1], 100)], names = []\<rparr>) 200 (Reveal sample_record [1]) [] = Ok ()"
  unfolding reveal_rule by (simp add: sample_record_def valid_name_def alnum_def name_consts)

text \<open>C33: a live name is never taken over: applying a block whose riders all pass the rules succeeds,
  and every name still inside its term or grace keeps its kind, address and registration height,
  with an expiry that only moves forward. The hypothesis keeps the renewals of one block in 64 bits.\<close>

theorem live_name_kept:
  assumes "riders_valid (registry_view reg) h [] riders"
    and "map_of (names reg) n = Some e" and "h < reopens_at (expiry e)"
    and "max (unat (expiry e)) (unat h) + length riders * 420480 < 2 ^ 64"
  shows "\<exists>reg' e'. apply_block_riders reg h riders = (Ok (), reg') \<and> map_of (names reg') n = Some e'
    \<and> ne_kind e' = ne_kind e \<and> ne_address e' = ne_address e \<and> registered e' = registered e
    \<and> expiry e \<le> expiry e'"
proof -
  define reg1 where "reg1 = reg\<lparr>commits := bt_retain (\<lambda>_ ch. ch \<ge> sat_sub h commit_max_age) (commits reg)\<rparr>"
  have "map_of (names reg1) n = Some e" using assms(2) by (simp add: reg1_def)
  moreover have "max (unat (expiry e)) (unat h) + length riders * unat name_term_blocks < 2 ^ 64"
    using assms(4) by (simp add: unat_name_term)
  ultimately have "\<exists>reg' e'. apply_riders h 0 riders reg1 = (Ok (), reg') \<and> map_of (names reg') n = Some e'
      \<and> same_binding e e' \<and> expiry e \<le> expiry e'"
    by (rule apply_riders_keeps [OF assms(1-3)])
  then show ?thesis by (auto simp: apply_block_riders_def Let_def reg1_def same_binding_def)
qed

lemma live_name_kept_witness:
  "\<exists>reg' e'. apply_block_riders
      \<lparr>commits = [], names = [([97], \<lparr>ne_kind = 1, ne_address = [7], registered = 5, expiry = 100\<rparr>)]\<rparr> 50
      [encode_rider (Some (Renew [97])), encode_rider None] = (Ok (), reg')
    \<and> map_of (names reg') [97] = Some e' \<and> ne_address e' = [7]"
proof -
  define reg where "reg = \<lparr>commits = [], names = [([97 :: u8], \<lparr>ne_kind = 1, ne_address = [7], registered = 5, expiry = 100\<rparr>)]\<rparr>"
  define e where "e = \<lparr>ne_kind = 1, ne_address = [7 :: u8], registered = 5, expiry = 100\<rparr>"
  have d: "decode_rider (encode_rider (Some (Renew [97]))) = Ok (Some (Renew [97]))" "decode_rider (encode_rider None) = Ok None"
    by (simp_all add: rider_codec wf_op_def name_consts)
  have live: "(50 :: u64) < reopens_at 100"
    by (simp add: reopens_at_def sat_add_def name_grace_blocks_def name_grace_epochs_def epoch_length_blocks_def)
  then have c: "check_op (registry_view reg) 50 (Renew [97]) [] = Ok ()"
    by (simp add: check_op_def valid_name_def alnum_def name_consts registry_view_def reg_def)
  have "riders_valid (registry_view reg) 50 [] [encode_rider (Some (Renew [97])), encode_rider None]"
    using c by (simp add: d)
  moreover have "map_of (names reg) [97] = Some e" by (simp add: reg_def e_def)
  ultimately show ?thesis
    using live_name_kept [of reg 50 "[encode_rider (Some (Renew [97])), encode_rider None]" "[97]" e] live
    unfolding reg_def [symmetric] by (auto simp: e_def)
qed

end
