(* ===== verification/Tally.thy ===== *)
theory Tally
  imports Finality
begin

text \<open>
  The vote tally of \<open>qlab-devnet/src/tally.rs\<close>: per height, a few competing checkpoint variants,
  each with the votes gathered for it by signer, under a cap on the slots and a cap on the variants
  of a slot. The two \<open>expect\<close> calls of the source are \<open>None\<close> here; that they are never reached is
  proved.
\<close>

definition max_tallied_slots :: nat where "max_tallied_slots = 8"
definition max_variants_per_slot :: nat where "max_variants_per_slot = 4"
definition tally_tip_slack :: u64 where "tally_tip_slack = 8"

definition in_window :: "u64 \<Rightarrow> u64 option \<Rightarrow> u64 \<Rightarrow> bool" where
  "in_window height fin tip =
    ((case fin of Some f \<Rightarrow> height > f | None \<Rightarrow> True) \<and> height \<le> sat_add tip tally_tip_slack)"

record 's variant =
  v_cp :: checkpoint
  v_votes :: "(nat \<times> 's vote) list"

record 's add_outcome =
  grew :: bool
  total :: nat
  accumulated :: "'s vote list"

record 's vote_tally =
  slots :: "(u64 \<times> 's variant list) list"

definition tally_new :: "'s vote_tally" where
  "tally_new = \<lparr>slots = []\<rparr>"

definition no_outcome :: "'s add_outcome" where
  "no_outcome = \<lparr>grew = False, total = 0, accumulated = []\<rparr>"

definition prune :: "'s vote_tally \<Rightarrow> u64 option \<Rightarrow> u64 \<Rightarrow> 's vote_tally" where
  "prune t fin tip =
    (let high = sat_add tip tally_tip_slack
     in t\<lparr>slots := bt_retain (\<lambda>h _. (case fin of Some f \<Rightarrow> h > f | None \<Rightarrow> True) \<and> h \<le> high) (slots t)\<rparr>)"

text \<open>The tail of \<open>add_inner\<close>: the votes go into the variant at \<open>idx\<close>, the first vote of a signer
  stays.\<close>

definition merge_votes :: "'s vote list \<Rightarrow> (nat \<times> 's vote) list \<Rightarrow> (nat \<times> 's vote) list" where
  "merge_votes vs m = fold (\<lambda>v m. bt_or_insert (signer v) v m) vs m"

definition add_votes :: "(u64 \<times> 's variant list) list \<Rightarrow> nat \<Rightarrow> checkpoint \<Rightarrow> 's vote list
    \<Rightarrow> ('s add_outcome \<times> 's vote_tally) option" where
  "add_votes sl idx cp active_votes =
    (case map_of sl (cp_height cp) of
       None \<Rightarrow> None
     | Some vs \<Rightarrow>
         if idx < length vs
         then let var = vs ! idx; before = length (v_votes var);
                  votes' = merge_votes active_votes (v_votes var); tot = length votes'
              in Some (\<lparr>grew = (tot > before), total = tot, accumulated = map snd votes'\<rparr>,
                       \<lparr>slots = bt_insert (cp_height cp) (vs[idx := var\<lparr>v_votes := votes'\<rparr>]) sl\<rparr>)
         else None)"

text \<open>The slot cap: the lowest slot goes, and the call gives up when that is the one just touched.\<close>

definition add_capped :: "(u64 \<times> 's variant list) list \<Rightarrow> nat \<Rightarrow> checkpoint \<Rightarrow> 's vote list
    \<Rightarrow> ('s add_outcome \<times> 's vote_tally) option" where
  "add_capped sl idx cp active_votes =
    (if length sl > max_tallied_slots
     then case sl of
            [] \<Rightarrow> None
          | (lowest, _) # _ \<Rightarrow>
              if lowest = cp_height cp then Some (no_outcome, \<lparr>slots = bt_remove (cp_height cp) sl\<rparr>)
              else add_votes (bt_remove lowest sl) idx cp active_votes
     else add_votes sl idx cp active_votes)"

text \<open>The middle of \<open>add_inner\<close>: the slot's variants (an absent slot is created empty), the
  variant of this checkpoint or a new one, unless the slot is full.\<close>

definition variants_or_default :: "(u64 \<times> 's variant list) list \<Rightarrow> u64 \<Rightarrow> 's variant list" where
  "variants_or_default sl h = (case map_of sl h of Some vs \<Rightarrow> vs | None \<Rightarrow> [])"

definition add_tracked :: "'s vote_tally \<Rightarrow> checkpoint \<Rightarrow> 's vote list \<Rightarrow> ('s add_outcome \<times> 's vote_tally) option" where
  "add_tracked t cp active_votes =
    (let sl = bt_or_insert (cp_height cp) [] (slots t); variants = variants_or_default sl (cp_height cp)
     in case position (\<lambda>v. v_cp v = cp) variants of
          Some i \<Rightarrow> add_capped sl i cp active_votes
        | None \<Rightarrow>
            if length variants \<ge> max_variants_per_slot then Some (no_outcome, \<lparr>slots = sl\<rparr>)
            else add_capped (bt_insert (cp_height cp) (variants @ [\<lparr>v_cp = cp, v_votes = []\<rparr>]) sl)
                   (length variants) cp active_votes)"

definition add_inner :: "'s vote_tally \<Rightarrow> checkpoint \<Rightarrow> 's vote list \<Rightarrow> u64 option \<Rightarrow> u64 \<Rightarrow> bool
    \<Rightarrow> ('s add_outcome \<times> 's vote_tally) option" where
  "add_inner t0 cp active_votes fin tip requested_complete =
    (let t = prune t0 fin tip;
         above_floor = (case fin of Some height \<Rightarrow> cp_height cp > height | None \<Rightarrow> True)
     in if \<not> above_floor \<or> (\<not> requested_complete \<and> \<not> in_window (cp_height cp) fin tip)
        then Some (no_outcome, t)
        else add_tracked t cp active_votes)"

definition add :: "'s vote_tally \<Rightarrow> checkpoint \<Rightarrow> 's vote list \<Rightarrow> u64 option \<Rightarrow> u64
    \<Rightarrow> ('s add_outcome \<times> 's vote_tally) option" where
  "add t cp active_votes fin tip = add_inner t cp active_votes fin tip False"

definition add_requested_complete :: "'s vote_tally \<Rightarrow> checkpoint \<Rightarrow> 's vote list \<Rightarrow> nat \<Rightarrow> u64 option \<Rightarrow> u64
    \<Rightarrow> ('s add_outcome \<times> 's vote_tally) option" where
  "add_requested_complete t cp active_votes quorum fin tip =
    (if length active_votes < quorum then Some (no_outcome, t)
     else add_inner t cp active_votes fin tip True)"

definition on_finalized :: "'s vote_tally \<Rightarrow> u64 \<Rightarrow> 's vote_tally" where
  "on_finalized t height = t\<lparr>slots := bt_remove height (slots t)\<rparr>"

definition variant_count :: "'s vote_tally \<Rightarrow> u64 \<Rightarrow> nat" where
  "variant_count t height = (case map_of (slots t) height of None \<Rightarrow> 0 | Some v \<Rightarrow> length v)"

definition slot_count :: "'s vote_tally \<Rightarrow> nat" where
  "slot_count t = length (slots t)"

definition variants_at :: "'s vote_tally \<Rightarrow> u64 \<Rightarrow> (checkpoint \<times> 's vote list) list" where
  "variants_at t height =
    (case map_of (slots t) height of
       None \<Rightarrow> []
     | Some vs \<Rightarrow> map (\<lambda>v. (v_cp v, map snd (v_votes v))) vs)"

definition total_for :: "'s vote_tally \<Rightarrow> checkpoint \<Rightarrow> nat" where
  "total_for t cp =
    (case map_of (slots t) (cp_height cp) of
       None \<Rightarrow> 0
     | Some vs \<Rightarrow> (case find (\<lambda>v. v_cp v = cp) vs of None \<Rightarrow> 0 | Some v \<Rightarrow> length (v_votes v)))"

section \<open>Merging votes\<close>

definition wf_votes :: "(nat \<times> 's vote) list \<Rightarrow> bool" where
  "wf_votes m \<longleftrightarrow> bt_ok m \<and> (\<forall>(k, v) \<in> set m. signer v = k)"

lemma merge_votes_Nil [simp]: "merge_votes [] m = m"
  by (simp add: merge_votes_def)

lemma merge_votes_Cons [simp]: "merge_votes (v # vs) m = merge_votes vs (bt_or_insert (signer v) v m)"
  by (simp add: merge_votes_def)

lemma wf_votes_or_insert: "wf_votes m \<Longrightarrow> wf_votes (bt_or_insert (signer v) v m)"
  by (auto simp: wf_votes_def bt_ok_insert bt_or_insert_def split: option.splits dest: bt_insert_mem)

lemma wf_merge_votes: "wf_votes m \<Longrightarrow> wf_votes (merge_votes vs m)"
  by (induction vs arbitrary: m) (simp_all add: wf_votes_or_insert)

lemma map_of_merge_votes:
  "map_of (merge_votes vs m) s = (case map_of m s of Some v \<Rightarrow> Some v | None \<Rightarrow> find (\<lambda>v. signer v = s) vs)"
  by (induction vs arbitrary: m) (auto simp: map_of_bt_or_insert split: option.splits)

lemma wf_votes_Nil [simp]: "wf_votes []"
  by (simp add: wf_votes_def)

lemma wf_votes_signers:
  assumes "wf_votes m"
  shows "map signer (map snd m) = map fst m" and "distinct (map signer (map snd m))"
proof -
  show e: "map signer (map snd m) = map fst m"
    using assms by (auto simp: wf_votes_def)
  show "distinct (map signer (map snd m))"
    unfolding e using assms by (simp add: wf_votes_def bt_ok_distinct)
qed

lemma keys_merge_votes: "fst ` set (merge_votes vs m) = fst ` set m \<union> signer ` set vs"
  by (induction vs arbitrary: m) (auto simp: bt_or_insert_def map_of_eq_None_iff image_iff split: option.splits,
    (metis domI dom_map_of_conv_image_fst imageE)+)

section \<open>The shape of a tally\<close>

definition wf_variants :: "u64 \<Rightarrow> 's variant list \<Rightarrow> bool" where
  "wf_variants h vs \<longleftrightarrow>
     length vs \<le> max_variants_per_slot \<and> distinct (map v_cp vs)
     \<and> (\<forall>v \<in> set vs. cp_height (v_cp v) = h \<and> wf_votes (v_votes v))"

definition wf_slots :: "(u64 \<times> 's variant list) list \<Rightarrow> bool" where
  "wf_slots sl \<longleftrightarrow> bt_ok sl \<and> (\<forall>(h, vs) \<in> set sl. wf_variants h vs)"

definition wf_tally :: "'s vote_tally \<Rightarrow> bool" where
  "wf_tally t \<longleftrightarrow> wf_slots (slots t) \<and> length (slots t) \<le> max_tallied_slots"

text \<open>The votes a slot table holds for a checkpoint.\<close>

definition votes_in :: "(u64 \<times> 's variant list) list \<Rightarrow> checkpoint \<Rightarrow> (nat \<times> 's vote) list" where
  "votes_in sl cp =
    (case map_of sl (cp_height cp) of
       None \<Rightarrow> []
     | Some vs \<Rightarrow> (case find (\<lambda>v. v_cp v = cp) vs of None \<Rightarrow> [] | Some v \<Rightarrow> v_votes v))"

definition votes_of :: "'s vote_tally \<Rightarrow> checkpoint \<Rightarrow> (nat \<times> 's vote) list" where
  "votes_of t cp = votes_in (slots t) cp"

lemma total_for_votes_of: "total_for t cp = length (votes_of t cp)"
  by (simp add: total_for_def votes_of_def votes_in_def split: option.splits)

lemma wf_slots_get: "wf_slots sl \<Longrightarrow> map_of sl h = Some vs \<Longrightarrow> wf_variants h vs"
  by (auto simp: wf_slots_def bt_ok_mem)

lemma wf_slots_insert: "wf_slots sl \<Longrightarrow> wf_variants h vs \<Longrightarrow> wf_slots (bt_insert h vs sl)"
  by (auto simp: wf_slots_def bt_ok_insert dest: bt_insert_mem)

lemma wf_slots_remove: "wf_slots sl \<Longrightarrow> wf_slots (bt_remove h sl)"
  by (auto simp: wf_slots_def bt_ok_remove) (auto simp: bt_remove_def)

lemma wf_variants_Nil [simp]: "wf_variants h []"
  by (simp add: wf_variants_def)

lemma wf_tally_new [simp]: "wf_tally tally_new"
  by (simp add: wf_tally_def tally_new_def wf_slots_def)

lemma wf_prune: "wf_tally t \<Longrightarrow> wf_tally (prune t fin tip)"
  by (auto simp: wf_tally_def prune_def wf_slots_def bt_ok_retain Let_def)
    (auto simp: bt_retain_def intro: order_trans [OF length_filter_le])

lemma wf_on_finalized: "wf_tally t \<Longrightarrow> wf_tally (on_finalized t h)"
  by (auto simp: wf_tally_def on_finalized_def wf_slots_remove)
    (auto simp: bt_remove_def intro: order_trans [OF length_filter_le])

lemma wf_variants_votes:
  "wf_variants h vs \<Longrightarrow> find (\<lambda>v. v_cp v = cp) vs = Some v \<Longrightarrow> wf_votes (v_votes v)"
  by (auto simp: wf_variants_def find_Some_iff)

lemma wf_votes_of: "wf_tally t \<Longrightarrow> wf_votes (votes_of t cp)"
  by (auto simp: wf_tally_def votes_of_def votes_in_def dest: wf_slots_get wf_variants_votes split: option.splits)

lemma wf_variants_update:
  assumes "wf_variants h vs" and "i < length vs" and "wf_votes m"
  shows "wf_variants h (vs[i := (vs ! i)\<lparr>v_votes := m\<rparr>])"
proof -
  have "map v_cp (vs[i := (vs ! i)\<lparr>v_votes := m\<rparr>]) = map v_cp vs" by (rule map_f_update) simp
  moreover have "cp_height (v_cp v) = h \<and> wf_votes (v_votes v)" if "v \<in> set (vs[i := (vs ! i)\<lparr>v_votes := m\<rparr>])" for v
  proof -
    have "v = (vs ! i)\<lparr>v_votes := m\<rparr> \<or> v \<in> set vs" using that set_update_subset_insert by fast
    then show ?thesis using assms by (auto simp: wf_variants_def)
  qed
  ultimately show ?thesis using assms(1) by (simp add: wf_variants_def)
qed

section \<open>What one addition does\<close>

definition counted :: "(nat \<times> 's vote) list \<Rightarrow> checkpoint \<Rightarrow> 's vote list \<Rightarrow> 's add_outcome \<Rightarrow> 's vote_tally \<Rightarrow> bool" where
  "counted before cp av r t' \<longleftrightarrow>
     votes_of t' cp = merge_votes av before \<and> total r = length (votes_of t' cp)
     \<and> accumulated r = map snd (votes_of t' cp) \<and> (grew r \<longleftrightarrow> length before < total r)"

lemma votes_in_bt_insert:
  "votes_in (bt_insert h vs sl) c =
    (if cp_height c = h then (case find (\<lambda>v. v_cp v = c) vs of None \<Rightarrow> [] | Some v \<Rightarrow> v_votes v) else votes_in sl c)"
  by (simp add: votes_in_def map_of_bt_insert)

lemma votes_in_bt_remove:
  "votes_in (bt_remove h sl) c = (if cp_height c = h then [] else votes_in sl c)"
  by (simp add: votes_in_def map_of_bt_remove)

lemma add_votes_effect:
  assumes wf: "wf_slots sl" and vs: "map_of sl (cp_height cp) = Some vs" and i: "i < length vs" "v_cp (vs ! i) = cp"
  shows "\<exists>r t'. add_votes sl i cp av = Some (r, t') \<and> wf_slots (slots t') \<and> length (slots t') = length sl
    \<and> counted (votes_in sl cp) cp av r t' \<and> (\<forall>c. c \<noteq> cp \<longrightarrow> votes_of t' c = votes_in sl c)"
proof -
  define w where "w = (vs ! i)\<lparr>v_votes := merge_votes av (v_votes (vs ! i))\<rparr>"
  define sl' where "sl' = bt_insert (cp_height cp) (vs[i := w]) sl"
  have wfv: "wf_variants (cp_height cp) vs" using wf vs by (rule wf_slots_get)
  have dist: "distinct (map v_cp vs)" using wfv by (simp add: wf_variants_def)
  have old: "votes_in sl cp = v_votes (vs ! i)"
    using find_nth [OF dist i(1)] by (simp add: votes_in_def vs i(2))
  have wcp: "v_cp w = cp" by (simp add: w_def i(2))
  have find: "find (\<lambda>v. v_cp v = c) (vs[i := w]) = (if c = cp then Some w else find (\<lambda>v. v_cp v = c) vs)" for c
    using find_update [OF dist i(1), of w c] by (simp add: wcp i(2))
  have new: "votes_in sl' c = (if c = cp then v_votes w else votes_in sl c)" for c
    by (auto simp: sl'_def votes_in_bt_insert find) (simp add: votes_in_def vs)
  have "wf_votes (v_votes (vs ! i))" using wfv i by (simp add: wf_variants_def)
  then have "wf_variants (cp_height cp) (vs[i := w])"
    unfolding w_def by (intro wf_variants_update wfv i wf_merge_votes)
  with wf have "wf_slots sl'" unfolding sl'_def by (rule wf_slots_insert)
  moreover have "length sl' = length sl"
    unfolding sl'_def using wf vs by (intro bt.size_put_old) (simp_all add: wf_slots_def)
  moreover have "add_votes sl i cp av = Some
      (\<lparr>grew = length (v_votes w) > length (v_votes (vs ! i)), total = length (v_votes w),
        accumulated = map snd (v_votes w)\<rparr>, \<lparr>slots = sl'\<rparr>)"
    by (simp add: add_votes_def vs i(1) Let_def w_def sl'_def)
  ultimately show ?thesis
    by (simp add: counted_def votes_of_def new old) (simp add: w_def)
qed

text \<open>\<open>evicted sl c\<close>: the slot of \<open>c\<close> is the one the cap removes.\<close>

definition lowest_slot :: "(u64 \<times> 's variant list) list \<Rightarrow> u64 \<Rightarrow> bool" where
  "lowest_slot sl h \<longleftrightarrow> sl \<noteq> [] \<and> fst (hd sl) = h"

lemma add_capped_effect:
  assumes wf: "wf_slots sl" and vs: "map_of sl (cp_height cp) = Some vs" and i: "i < length vs" "v_cp (vs ! i) = cp"
    and len: "length sl \<le> Suc max_tallied_slots"
  shows "\<exists>r t'. add_capped sl i cp av = Some (r, t') \<and> wf_tally t'
    \<and> ((r = no_outcome \<and> length sl = Suc max_tallied_slots \<and> lowest_slot sl (cp_height cp)
         \<and> slots t' = bt_remove (cp_height cp) sl)
       \<or> (counted (votes_in sl cp) cp av r t'
          \<and> (\<forall>c. c \<noteq> cp \<longrightarrow> votes_of t' c =
               (if length sl = Suc max_tallied_slots \<and> lowest_slot sl (cp_height c) then [] else votes_in sl c))))"
proof (cases "length sl \<le> max_tallied_slots")
  case True
  then have "add_capped sl i cp av = add_votes sl i cp av" by (simp add: add_capped_def)
  moreover obtain r t' where "add_votes sl i cp av = Some (r, t')" "wf_slots (slots t')" "length (slots t') = length sl"
      "counted (votes_in sl cp) cp av r t'" "\<forall>c. c \<noteq> cp \<longrightarrow> votes_of t' c = votes_in sl c"
    using add_votes_effect [OF wf vs i] by blast
  ultimately show ?thesis using True by (simp add: wf_tally_def)
next
  case False
  with len have n: "length sl = Suc max_tallied_slots" by simp
  then obtain lowest lvs rest where sl: "sl = (lowest, lvs) # rest" by (cases sl) auto
  have low: "lowest_slot sl h \<longleftrightarrow> h = lowest" for h by (auto simp: lowest_slot_def sl)
  have "length (bt_remove lowest sl) = length sl - 1"
    using wf by (subst bt.size_del) (simp_all add: wf_slots_def sl)
  then have shorter: "length (bt_remove lowest sl) = max_tallied_slots" using n by simp
  have wf': "wf_slots (bt_remove lowest sl)" using wf by (rule wf_slots_remove)
  show ?thesis
  proof (cases "lowest = cp_height cp")
    case True
    have "add_capped sl i cp av = Some (no_outcome, \<lparr>slots = bt_remove (cp_height cp) sl\<rparr>)"
      using n True by (simp add: add_capped_def sl)
    with n True low wf' shorter show ?thesis by (simp add: wf_tally_def)
  next
    case False
    have step: "add_capped sl i cp av = add_votes (bt_remove lowest sl) i cp av"
      using n False by (simp add: add_capped_def sl)
    have "map_of (bt_remove lowest sl) (cp_height cp) = Some vs"
      using vs False by (simp add: map_of_bt_remove)
    from add_votes_effect [OF wf' this i] obtain r t' where
      *: "add_votes (bt_remove lowest sl) i cp av = Some (r, t')" "wf_slots (slots t')"
        "length (slots t') = length (bt_remove lowest sl)"
        "counted (votes_in (bt_remove lowest sl) cp) cp av r t'"
        "\<forall>c. c \<noteq> cp \<longrightarrow> votes_of t' c = votes_in (bt_remove lowest sl) c"
      by blast
    have "counted (votes_in sl cp) cp av r t'" using *(4) False by (simp add: votes_in_bt_remove)
    moreover have "votes_of t' c = (if length sl = Suc max_tallied_slots \<and> lowest_slot sl (cp_height c) then [] else votes_in sl c)"
      if "c \<noteq> cp" for c
      using *(5) that n by (simp add: low votes_in_bt_remove)
    moreover have "wf_tally t'" using *(2,3) shorter by (simp add: wf_tally_def)
    ultimately show ?thesis using *(1) unfolding step by blast
  qed
qed

lemma lowest_slot_least: "bt_ok sl \<Longrightarrow> lowest_slot sl h \<Longrightarrow> k \<in> fst ` set sl \<Longrightarrow> h \<le> k"
  by (cases sl) (auto simp: lowest_slot_def bt_ok_def intro: less_imp_le)

lemma prune_pruned: "slots (prune t fin tip) = sl \<Longrightarrow> wf_tally t \<Longrightarrow> wf_slots sl \<and> length sl \<le> max_tallied_slots"
  using wf_prune [of t fin tip] by (simp add: wf_tally_def)

text \<open>The evicted checkpoints of an accepted addition: the whole lowest slot, when the tally was full
  and the slot is a new one above it.\<close>

definition may_evict :: "'s vote_tally \<Rightarrow> checkpoint \<Rightarrow> checkpoint \<Rightarrow> bool" where
  "may_evict t cp c \<longleftrightarrow>
     slot_count t = max_tallied_slots \<and> map_of (slots t) (cp_height cp) = None
     \<and> cp_height c < cp_height cp \<and> (\<forall>h \<in> fst ` set (slots t). cp_height c \<le> h)"

text \<open>Looking a slot up creates it empty, which no reader of the votes can see.\<close>

lemma touch_slot:
  fixes t :: "'s vote_tally" and h :: u64
  assumes "wf_tally t"
  defines "sl \<equiv> bt_or_insert h [] (slots t)"
  shows "wf_slots sl" and "map_of sl h = Some (variants_or_default sl h)"
    and "length sl = (if map_of (slots t) h = None then Suc (length (slots t)) else length (slots t))"
    and "votes_in sl c = votes_of t c" and "fst ` set sl = insert h (fst ` set (slots t))"
    and "variants_or_default sl h \<noteq> [] \<Longrightarrow> sl = slots t"
proof -
  have ws: "wf_slots (slots t)" using assms(1) by (simp add: wf_tally_def)
  then have ok: "bt_ok (slots t)" by (simp add: wf_slots_def)
  show "wf_slots sl" using ws by (auto simp: sl_def bt_or_insert_def wf_slots_insert split: option.splits)
  show "map_of sl h = Some (variants_or_default sl h)"
    by (auto simp: variants_or_default_def sl_def map_of_bt_or_insert)
  show "length sl = (if map_of (slots t) h = None then Suc (length (slots t)) else length (slots t))"
    using bt.size_put_new [OF ok, of h "[]"] by (auto simp: sl_def bt_or_insert_def split: option.splits)
  show "votes_in sl c = votes_of t c"
    by (auto simp: votes_of_def votes_in_def sl_def map_of_bt_or_insert split: option.splits)
  show "fst ` set sl = insert h (fst ` set (slots t))"
    by (auto simp: sl_def bt_or_insert_def split: option.splits dest!: map_of_SomeD intro: rev_image_eqI)
  show "variants_or_default sl h \<noteq> [] \<Longrightarrow> sl = slots t"
    by (auto simp: variants_or_default_def sl_def map_of_bt_insert bt_or_insert_def split: option.splits)
qed

text \<open>What every addition guarantees.\<close>

definition addition :: "'s vote_tally \<Rightarrow> checkpoint \<Rightarrow> 's vote list \<Rightarrow> 's add_outcome \<Rightarrow> 's vote_tally \<Rightarrow> bool" where
  "addition t cp av r t' \<longleftrightarrow>
     (r = no_outcome \<and> (\<forall>c. votes_of t' c = votes_of t c))
     \<or> (counted (votes_of t cp) cp av r t'
        \<and> (\<forall>c. c \<noteq> cp \<longrightarrow> votes_of t' c = votes_of t c \<or> (votes_of t' c = [] \<and> may_evict t cp c)))"

lemma add_fresh_effect:
  fixes t :: "'s vote_tally" and cp :: checkpoint
  assumes wt: "wf_tally t" and new: "cp \<notin> v_cp ` set vs" and room: "length vs < max_variants_per_slot"
  defines "h \<equiv> cp_height cp"
  defines "sl \<equiv> bt_or_insert h [] (slots t)"
  assumes vs: "vs = variants_or_default sl h"
  defines "sl2 \<equiv> bt_insert h (vs @ [\<lparr>v_cp = cp, v_votes = []\<rparr>]) sl"
  shows "\<exists>r t'. add_capped sl2 (length vs) cp av = Some (r, t') \<and> wf_tally t' \<and> addition t cp av r t'"
proof -
  note touch = touch_slot [OF wt, of h, folded sl_def]
  have "wf_variants h vs" using touch(1,2) unfolding vs by (rule wf_slots_get)
  then have "wf_variants h (vs @ [\<lparr>v_cp = cp, v_votes = []\<rparr>])"
    using room new by (auto simp: wf_variants_def h_def)
  with touch(1) have ws2: "wf_slots sl2" unfolding sl2_def by (rule wf_slots_insert)
  have len2: "length sl2 = length sl"
    unfolding sl2_def using touch(1,2) by (intro bt.size_put_old) (simp_all add: wf_slots_def)
  have bound: "length sl2 \<le> Suc max_tallied_slots"
    using wt len2 touch(3) by (simp add: wf_tally_def split: if_splits)
  have get2: "map_of sl2 h = Some (vs @ [\<lparr>v_cp = cp, v_votes = []\<rparr>])"
    by (simp add: sl2_def map_of_bt_insert)
  have keep2: "votes_in sl2 c = votes_of t c" for c
    unfolding sl2_def votes_in_bt_insert touch(4) [symmetric]
    by (auto simp: find_append votes_in_def touch(2) vs split: option.splits)
  have full: "length (slots t) = max_tallied_slots \<and> map_of (slots t) h = None" if "length sl2 = Suc max_tallied_slots"
    using that wt len2 touch(3) by (simp add: wf_tally_def split: if_splits)
  have gone: "votes_of t c = []" if "length sl2 = Suc max_tallied_slots" "cp_height c = h" for c
    using full [OF that(1)] that(2) by (simp add: votes_of_def votes_in_def)
  have keys: "fst ` set sl2 = insert h (fst ` set (slots t))"
    by (simp add: sl2_def touch(5))
  have low: "may_evict t cp c" if "length sl2 = Suc max_tallied_slots" "lowest_slot sl2 (cp_height c)" "cp_height c \<noteq> h" for c
  proof -
    have "cp_height c \<le> k" if "k \<in> insert h (fst ` set (slots t))" for k
      using that lowest_slot_least [OF _ \<open>lowest_slot sl2 (cp_height c)\<close>] ws2
      by (simp add: wf_slots_def keys)
    with that full show ?thesis by (auto simp: may_evict_def slot_count_def h_def less_le)
  qed
  from add_capped_effect [OF ws2 get2 [unfolded h_def] _ _ bound, of "length vs" av] obtain r t' where
    eff: "add_capped sl2 (length vs) cp av = Some (r, t')" "wf_tally t'"
      "(r = no_outcome \<and> length sl2 = Suc max_tallied_slots \<and> slots t' = bt_remove h sl2)
       \<or> (counted (votes_of t cp) cp av r t' \<and> (\<forall>c. c \<noteq> cp \<longrightarrow> votes_of t' c =
          (if length sl2 = Suc max_tallied_slots \<and> lowest_slot sl2 (cp_height c) then [] else votes_of t c)))"
    unfolding keep2 h_def by auto
  have "addition t cp av r t'" using eff(3)
  proof (elim disjE conjE)
    assume a: "r = no_outcome" "length sl2 = Suc max_tallied_slots" "slots t' = bt_remove h sl2"
    have "votes_of t' c = votes_of t c" for c
      using gone [OF a(2)] keep2 by (simp add: votes_of_def [of t'] a(3) votes_in_bt_remove)
    with a(1) show ?thesis by (simp add: addition_def)
  next
    assume c: "counted (votes_of t cp) cp av r t'"
      and o: "\<forall>c. c \<noteq> cp \<longrightarrow> votes_of t' c =
        (if length sl2 = Suc max_tallied_slots \<and> lowest_slot sl2 (cp_height c) then [] else votes_of t c)"
    have "votes_of t' c = votes_of t c \<or> (votes_of t' c = [] \<and> may_evict t cp c)" if "c \<noteq> cp" for c
      using o [rule_format, OF that] gone [of c] low [of c] by (cases "cp_height c = h") (auto split: if_splits)
    with c show ?thesis unfolding addition_def by blast
  qed
  with eff(1,2) show ?thesis by blast
qed

lemma add_tracked_effect:
  assumes wt: "wf_tally t"
  shows "\<exists>r t'. add_tracked t cp av = Some (r, t') \<and> wf_tally t' \<and> addition t cp av r t'"
proof -
  define h where "h = cp_height cp"
  define sl where "sl = bt_or_insert h [] (slots t)"
  define vs where "vs = variants_or_default sl h"
  note touch = touch_slot [OF wt, of h, folded sl_def, folded vs_def]
  show ?thesis
  proof (cases "position (\<lambda>v. v_cp v = cp) vs")
    case (Some i)
    then have i: "i < length vs" "v_cp (vs ! i) = cp" using position_Some by fast+
    with touch(6) have "sl = slots t" by fastforce
    with wt have le: "length sl \<le> max_tallied_slots" by (simp add: wf_tally_def)
    have "add_tracked t cp av = add_capped sl i cp av"
      using Some by (simp add: add_tracked_def Let_def h_def sl_def vs_def)
    with le add_capped_effect [OF touch(1) touch(2) [unfolded h_def] i, of av, folded touch(4)] show ?thesis
      unfolding addition_def touch(4) by (metis Suc_n_not_le_n le_SucI)
  next
    case None
    then have new: "cp \<notin> v_cp ` set vs" by (auto simp: position_None)
    show ?thesis
    proof (cases "length vs \<ge> max_variants_per_slot")
      case True
      then have "vs \<noteq> []" by (auto simp: max_variants_per_slot_def)
      then have "sl = slots t" by (rule touch(6))
      then have "add_tracked t cp av = Some (no_outcome, t)"
        using None True by (simp add: add_tracked_def Let_def h_def sl_def vs_def)
      with wt show ?thesis by (simp add: addition_def)
    next
      case False
      then have "add_tracked t cp av = add_capped (bt_insert h (vs @ [\<lparr>v_cp = cp, v_votes = []\<rparr>]) sl) (length vs) cp av"
        using None by (simp add: add_tracked_def Let_def h_def sl_def vs_def)
      then show ?thesis
        using add_fresh_effect [OF wt new, of av] False by (simp add: h_def sl_def vs_def)
    qed
  qed
qed

lemma add_inner_effect:
  assumes "wf_tally t"
  shows "\<exists>r t'. add_inner t cp av fin tip rc = Some (r, t') \<and> wf_tally t' \<and> addition (prune t fin tip) cp av r t'"
  using wf_prune [OF assms, of fin tip] add_tracked_effect [OF wf_prune [OF assms], of fin tip cp av]
  by (simp add: add_inner_def Let_def) (auto simp: addition_def)

section \<open>Reachable tallies\<close>

inductive tally_step :: "'s vote_tally \<Rightarrow> 's vote_tally \<Rightarrow> bool" where
  Add: "add t cp av fin tip = Some (r, t') \<Longrightarrow> tally_step t t'"
| Add_Complete: "add_requested_complete t cp av quorum fin tip = Some (r, t') \<Longrightarrow> tally_step t t'"
| Prune: "tally_step t (prune t fin tip)"
| On_Finalized: "tally_step t (on_finalized t h)"

inductive_cases tally_stepE: "tally_step t t'"

lemma add_effect:
  "wf_tally t \<Longrightarrow> \<exists>r t'. add t cp av fin tip = Some (r, t') \<and> wf_tally t' \<and> addition (prune t fin tip) cp av r t'"
  unfolding add_def by (rule add_inner_effect)

lemma add_requested_complete_effect:
  "wf_tally t \<Longrightarrow> \<exists>r t'. add_requested_complete t cp av quorum fin tip = Some (r, t') \<and> wf_tally t'
    \<and> (t' = t \<and> r = no_outcome \<or> addition (prune t fin tip) cp av r t')"
  using add_inner_effect [of t cp av fin tip True] by (auto simp: add_requested_complete_def)

lemma wf_add: "wf_tally t \<Longrightarrow> add t cp av fin tip = Some (r, t') \<Longrightarrow> wf_tally t' \<and> addition (prune t fin tip) cp av r t'"
  using add_effect [of t cp av fin tip] by auto

lemma wf_add_requested_complete:
  "wf_tally t \<Longrightarrow> add_requested_complete t cp av quorum fin tip = Some (r, t') \<Longrightarrow>
    wf_tally t' \<and> (t' = t \<and> r = no_outcome \<or> addition (prune t fin tip) cp av r t')"
  using add_requested_complete_effect [of t cp av quorum fin tip] by auto

lemma wf_tally_step: "tally_step t t' \<Longrightarrow> wf_tally t \<Longrightarrow> wf_tally t'"
  by (induction rule: tally_step.induct) (auto dest: wf_add wf_add_requested_complete intro: wf_prune wf_on_finalized)

lemma wf_tally_reach: "tally_step\<^sup>*\<^sup>* tally_new t \<Longrightarrow> wf_tally t"
  by (induction rule: rtranclp_induct) (auto dest: wf_tally_step)

lemma votes_of_prune_sub: "set (votes_of (prune t fin tip) c) \<subseteq> set (votes_of t c)"
  by (auto simp: votes_of_def votes_in_def prune_def Let_def map_of_bt_retain_keys split: option.splits if_splits)

lemma votes_of_on_finalized_sub: "set (votes_of (on_finalized t h) c) \<subseteq> set (votes_of t c)"
  by (simp add: votes_of_def on_finalized_def votes_in_bt_remove)

lemma set_merge_votes: "set (map snd (merge_votes vs m)) \<subseteq> set vs \<union> set (map snd m)"
proof (induction vs arbitrary: m)
  case (Cons v vs)
  have "set (map snd (bt_or_insert (signer v) v m)) \<subseteq> insert v (set (map snd m))"
    by (auto simp: bt_or_insert_def split: option.splits dest: bt_insert_mem)
  with Cons [of "bt_or_insert (signer v) v m"] show ?case by auto
qed simp

text \<open>A tally that is only fed votes the committee's check accepted, as its callers do.\<close>

inductive verified_tally :: "('k, 's) verifier \<Rightarrow> 'k committee \<Rightarrow> 's vote_tally \<Rightarrow> bool" for verify c where
  VNew: "verified_tally verify c tally_new"
| VAdd: "verified_tally verify c t \<Longrightarrow> \<forall>v \<in> set av. verify_vote verify c cp v
    \<Longrightarrow> add t cp av fin tip = Some (r, t') \<Longrightarrow> verified_tally verify c t'"
| VComplete: "verified_tally verify c t \<Longrightarrow> \<forall>v \<in> set av. verify_vote verify c cp v
    \<Longrightarrow> add_requested_complete t cp av quorum fin tip = Some (r, t') \<Longrightarrow> verified_tally verify c t'"
| VFinalized: "verified_tally verify c t \<Longrightarrow> verified_tally verify c (on_finalized t h)"

definition votes_verified :: "('k, 's) verifier \<Rightarrow> 'k committee \<Rightarrow> 's vote_tally \<Rightarrow> bool" where
  "votes_verified verify c t \<longleftrightarrow> (\<forall>cp. \<forall>v \<in> set (map snd (votes_of t cp)). verify_vote verify c cp v)"

lemma votes_verified_addition:
  assumes vv: "votes_verified verify c t" and av: "\<forall>v \<in> set av. verify_vote verify c cp v"
    and add: "addition (prune t fin tip) cp av r t'"
  shows "votes_verified verify c t'"
proof -
  have old: "verify_vote verify c d v" if "v \<in> snd ` set (votes_of (prune t fin tip) d)" for d v
    using that vv votes_of_prune_sub [of t fin tip d] by (auto simp: votes_verified_def)
  have "verify_vote verify c d v" if "v \<in> snd ` set (votes_of t' d)" for d v
    using add unfolding addition_def
  proof (elim disjE conjE)
    assume "\<forall>d. votes_of t' d = votes_of (prune t fin tip) d"
    then show ?thesis using that old by metis
  next
    assume c: "counted (votes_of (prune t fin tip) cp) cp av r t'"
      and o: "\<forall>d. d \<noteq> cp \<longrightarrow> votes_of t' d = votes_of (prune t fin tip) d \<or> votes_of t' d = [] \<and> may_evict (prune t fin tip) cp d"
    show ?thesis
    proof (cases "d = cp")
      case True
      have "snd ` set (votes_of t' cp) \<subseteq> set av \<union> snd ` set (votes_of (prune t fin tip) cp)"
        using c set_merge_votes [of av "votes_of (prune t fin tip) cp"] by (simp add: counted_def)
      with that True av old show ?thesis by blast
    next
      case False
      with o have "votes_of t' d = votes_of (prune t fin tip) d \<or> votes_of t' d = []" by blast
      with that old [of v d] show ?thesis by (elim disjE) simp_all
    qed
  qed
  then show ?thesis by (simp add: votes_verified_def)
qed

lemma verified_tally_invariant: "verified_tally verify c t \<Longrightarrow> wf_tally t \<and> votes_verified verify c t"
proof (induction rule: verified_tally.induct)
  case VNew
  have "votes_verified verify c tally_new"
    by (simp add: votes_verified_def votes_of_def votes_in_def tally_new_def)
  then show ?case by simp
next
  case (VAdd t av cp fin tip r t')
  then show ?case using wf_add votes_verified_addition by metis
next
  case (VComplete t av cp quorum fin tip r t')
  then show ?case using wf_add_requested_complete votes_verified_addition by metis
next
  case (VFinalized t h)
  then show ?case using votes_of_on_finalized_sub [of t h] by (fastforce simp: wf_on_finalized votes_verified_def)
qed

section \<open>Properties\<close>

text \<open>whatever is tallied, in whatever order and at whatever heights, the tally stays bounded (at
  most eight slots of at most four variants, each for its own height, each signer once) and no
  addition can reach one of the source's panics.\<close>

theorem tally_bounded:
  assumes "tally_step\<^sup>*\<^sup>* tally_new t"
  shows "slot_count t \<le> max_tallied_slots \<and> variant_count t h \<le> max_variants_per_slot
    \<and> (\<forall>(cp, vs) \<in> set (variants_at t h). cp_height cp = h \<and> distinct (map signer vs))
    \<and> add t cp av fin tip \<noteq> None \<and> add_requested_complete t cp av quorum fin tip \<noteq> None"
proof -
  have wf: "wf_tally t" using assms by (rule wf_tally_reach)
  have "slot_count t \<le> max_tallied_slots" using wf by (simp add: wf_tally_def slot_count_def)
  moreover have "variant_count t h \<le> max_variants_per_slot"
    using wf by (auto simp: wf_tally_def variant_count_def wf_variants_def dest: wf_slots_get split: option.splits)
  moreover have "cp_height cp = h \<and> distinct (map signer vs)" if mem: "(cp, vs) \<in> set (variants_at t h)" for cp vs
  proof -
    obtain vars where vars: "map_of (slots t) h = Some vars"
      using mem by (cases "map_of (slots t) h") (simp_all add: variants_at_def)
    with mem obtain var where var: "var \<in> set vars" "cp = v_cp var" "vs = map snd (v_votes var)"
      by (auto simp: variants_at_def)
    with wf vars have "cp_height cp = h" "wf_votes (v_votes var)"
      using wf_slots_get by (fastforce simp: wf_tally_def wf_variants_def)+
    with var(3) show ?thesis using wf_votes_signers(2) by simp
  qed
  moreover have "add t cp av fin tip \<noteq> None" using add_effect [OF wf, of cp av fin tip] by auto
  moreover have "add_requested_complete t cp av quorum fin tip \<noteq> None"
    using add_requested_complete_effect [OF wf, of cp av quorum fin tip] by auto
  ultimately show ?thesis by blast
qed

lemma tally_bounded_witness:
  "slot_count (prune (tally_new :: nat vote_tally) (Some 8) 20) \<le> max_tallied_slots"
  by (rule tally_bounded [THEN conjunct1]) (blast intro: tally_step.Prune)

text \<open>an accepted addition counts each signer once and keeps the first vote of each: afterwards
  the votes held for the checkpoint are the old ones plus the first vote of every new signer, the
  reported total is the number of distinct signers, and \<open>grew\<close> says whether one is new. No other
  checkpoint loses a vote, except all of the lowest slot when the tally is full and this is a
  newer slot. A refused addition changes no votes.\<close>

theorem tally_add_counts:
  assumes "tally_step\<^sup>*\<^sup>* tally_new t0" and "t = prune t0 fin tip"
  shows "\<exists>r t'. add t0 cp av fin tip = Some (r, t')
    \<and> (r = no_outcome \<and> (\<forall>c. votes_of t' c = votes_of t c)
       \<or> (\<forall>s. map_of (votes_of t' cp) s =
             (case map_of (votes_of t cp) s of Some v \<Rightarrow> Some v | None \<Rightarrow> find (\<lambda>v. signer v = s) av))
         \<and> total r = card (fst ` set (votes_of t cp) \<union> signer ` set av)
         \<and> (grew r \<longleftrightarrow> \<not> signer ` set av \<subseteq> fst ` set (votes_of t cp))
         \<and> (\<forall>c. c \<noteq> cp \<longrightarrow> votes_of t' c = votes_of t c \<or> votes_of t' c = [] \<and> may_evict t cp c))"
proof -
  have wf: "wf_tally t0" using assms(1) by (rule wf_tally_reach)
  obtain r t' where res: "add t0 cp av fin tip = Some (r, t')" "wf_tally t'" "addition t cp av r t'"
    using add_effect [OF wf] assms(2) by blast
  define old where "old = votes_of t cp"
  define K where "K = fst ` set old"
  have wfo: "wf_votes old" unfolding old_def assms(2) using wf by (intro wf_votes_of wf_prune)
  have card_old: "length old = card K"
    using wf_votes_signers(2) [OF wfo] wf_votes_signers(1) [OF wfo] unfolding K_def
    by (metis distinct_card length_map list.set_map)
  have count: "total r = card (K \<union> signer ` set av) \<and> (grew r \<longleftrightarrow> \<not> signer ` set av \<subseteq> K)"
    if "counted old cp av r t'"
  proof -
    have wfm: "wf_votes (merge_votes av old)" using wfo by (rule wf_merge_votes)
    have "length (merge_votes av old) = card (fst ` set (merge_votes av old))"
      using wf_votes_signers(2) [OF wfm] wf_votes_signers(1) [OF wfm]
      by (metis distinct_card length_map list.set_map)
    then have tot: "total r = card (K \<union> signer ` set av)"
      using that by (simp add: counted_def keys_merge_votes K_def)
    have "card K < card (K \<union> signer ` set av) \<longleftrightarrow> \<not> signer ` set av \<subseteq> K"
    proof -
      have fin: "finite (K \<union> signer ` set av)" by (simp add: K_def)
      show ?thesis
        using psubset_card_mono [OF fin, of K] by (cases "signer ` set av \<subseteq> K") (auto simp: Un_absorb2)
    qed
    with that tot card_old show ?thesis by (simp add: counted_def)
  qed
  from res(3) show ?thesis
  proof (unfold addition_def, elim disjE conjE)
    assume c: "counted (votes_of t cp) cp av r t'"
      and o: "\<forall>c. c \<noteq> cp \<longrightarrow> votes_of t' c = votes_of t c \<or> votes_of t' c = [] \<and> may_evict t cp c"
    have "map_of (votes_of t' cp) s =
        (case map_of (votes_of t cp) s of Some v \<Rightarrow> Some v | None \<Rightarrow> find (\<lambda>v. signer v = s) av)" for s
      using c by (simp add: counted_def map_of_merge_votes)
    with res(1) o count [unfolded old_def, OF c] show ?thesis unfolding K_def old_def by blast
  qed (use res(1) in blast)
qed

lemma tally_add_counts_witness:
  "\<exists>r t'. add (tally_new :: nat vote_tally) \<lparr>cp_height = 8, cp_block_hash = [], cp_root = []\<rparr>
     [\<lparr>signer = 3, signature = 0\<rparr>, \<lparr>signer = 3, signature = 1\<rparr>] None 10 = Some (r, t') \<and> total r \<le> 1"
proof -
  define cp where "cp = \<lparr>cp_height = 8, cp_block_hash = [], cp_root = []\<rparr>"
  define av where "av = [\<lparr>signer = 3, signature = 0\<rparr>, \<lparr>signer = 3, signature = (1::nat)\<rparr>]"
  define t0 where "t0 = (tally_new :: nat vote_tally)"
  have empty: "votes_of (prune t0 None 10) cp = []"
    by (simp add: votes_of_def votes_in_def prune_def t0_def tally_new_def bt_retain_def Let_def)
  obtain r t' where "add t0 cp av None 10 = Some (r, t')"
      "r = no_outcome \<or> total r = card (fst ` set (votes_of (prune t0 None 10) cp) \<union> signer ` set av)"
    using tally_add_counts [OF rtranclp.rtrancl_refl refl, of cp av None 10, folded t0_def] by blast
  then have "add t0 cp av None 10 = Some (r, t') \<and> total r \<le> 1"
    by (auto simp: empty av_def no_outcome_def)
  then show ?thesis unfolding cp_def av_def t0_def by blast
qed

text \<open>C22: the tally feeds the finality gate correctly: when every vote tallied was checked against
  the committee, an addition whose total reaches the quorum hands over a vote set with which
  \<open>try_finalize\<close> succeeds for any advancing checkpoint.\<close>

theorem tally_quorum_finalizes:
  assumes "verified_tally verify c t" and "\<forall>v \<in> set av. verify_vote verify c cp v"
    and "add t cp av fin tip = Some (r, t')" and "committee_quorum c \<le> total r"
    and "case finalized_height tr of None \<Rightarrow> True | Some h \<Rightarrow> h < cp_height cp"
  shows "try_finalize verify tr cp (accumulated r) c = Ok (tr\<lparr>finalized := finalized tr @ [cp]\<rparr>)"
proof -
  have inv: "wf_tally t" "votes_verified verify c t" using verified_tally_invariant [OF assms(1)] by auto
  have add: "wf_tally t'" "addition (prune t fin tip) cp av r t'" using wf_add [OF inv(1) assms(3)] by auto
  have "0 < total r" using assms(4) by (simp add: committee_quorum_def quorum_threshold_def)
  then have "counted (votes_of (prune t fin tip) cp) cp av r t'"
    using add(2) by (auto simp: addition_def no_outcome_def)
  then have acc: "accumulated r = map snd (votes_of t' cp)" "total r = length (votes_of t' cp)"
    by (auto simp: counted_def)
  have "votes_verified verify c t'" using inv(2) assms(2) add(2) by (rule votes_verified_addition)
  then have "good_votes verify c cp (accumulated r)"
    unfolding good_votes_def acc(1) using wf_votes_signers(2) [OF wf_votes_of [OF add(1)]]
    by (auto simp: votes_verified_def)
  moreover have "advances tr cp"
    using assms(5) by (auto simp: advances_def finalized_height_def split: option.splits)
  ultimately show ?thesis using assms(4) by (simp add: try_finalize_Ok acc)
qed

lemma tally_quorum_finalizes_witness:
  "\<exists>r t' tr'. add tally_new \<lparr>cp_height = 8, cp_block_hash = [], cp_root = []\<rparr>
      [\<lparr>signer = 0, signature = 7 :: nat\<rparr>] None 10 = Some (r, t')
    \<and> try_finalize (\<lambda>k m s. k = s) finality_new \<lparr>cp_height = 8, cp_block_hash = [], cp_root = []\<rparr>
        (accumulated r) \<lparr>members = [7]\<rparr> = Ok tr'"
proof -
  define cp where "cp = \<lparr>cp_height = 8, cp_block_hash = [], cp_root = []\<rparr>"
  define v where "v = \<lparr>signer = 0, signature = 7 :: nat\<rparr>"
  have add: "add tally_new cp [v] None 10 = Some (\<lparr>grew = True, total = 1, accumulated = [v]\<rparr>,
      \<lparr>slots = [(8, [\<lparr>v_cp = cp, v_votes = [(0, v)]\<rparr>])]\<rparr>)"
    by (simp add: add_def add_inner_def tally_new_def prune_def bt_retain_def in_window_def sat_add_def
        tally_tip_slack_def add_tracked_def variants_or_default_def bt_or_insert_def add_capped_def
        max_variants_per_slot_def max_tallied_slots_def add_votes_def merge_votes_def cp_def v_def Let_def)
  have "verify_vote (\<lambda>k m s. k = s) \<lparr>members = [7]\<rparr> cp v"
    by (simp add: verify_vote_def committee_member_def v_def)
  then have "try_finalize (\<lambda>k m s. k = s) finality_new cp [v] \<lparr>members = [7]\<rparr>
      = Ok (finality_new\<lparr>finalized := finalized finality_new @ [cp]\<rparr>)"
    using tally_quorum_finalizes [OF verified_tally.VNew _ add, of "\<lambda>k m s. k = s" "\<lparr>members = [7]\<rparr>" finality_new]
    by (simp add: committee_quorum_def quorum_threshold_def finalized_height_def latest_def finality_new_def)
  with add show ?thesis unfolding cp_def v_def by fastforce
qed

end
