(* ===== verification/Epoch.thy ===== *)
theory Epoch
  imports Committee
begin

text \<open>
  Committee epochs of \<open>qlab-devnet/src/epoch.rs\<close>: the height-to-epoch map, membership changes
  staged for the next boundary, and the sealed history that answers for past heights. The
  \<open>expect\<close> calls and the assertion of \<open>from_parts\<close> are \<open>None\<close>.
\<close>

record epoch_schedule =
  epoch_length :: u64

definition epoch_schedule_new :: "u64 \<Rightarrow> epoch_schedule option" where
  "epoch_schedule_new len = (if len > 0 then Some \<lparr>epoch_length = len\<rparr> else None)"

definition epoch_of :: "epoch_schedule \<Rightarrow> u64 \<Rightarrow> u64" where
  "epoch_of s height = height div epoch_length s"

definition epoch_start :: "epoch_schedule \<Rightarrow> u64 \<Rightarrow> u64" where
  "epoch_start s epoch = epoch * epoch_length s"

definition is_boundary :: "epoch_schedule \<Rightarrow> u64 \<Rightarrow> bool" where
  "is_boundary s height \<longleftrightarrow> height mod epoch_length s = 0"

datatype 'k membership_change = Admit 'k u64 | Remove nat

record 'k epoch_committee =
  ec_schedule :: epoch_schedule
  current_epoch :: u64
  ec_current :: "'k committee_state"
  ec_pending :: "'k membership_change list"
  ec_history :: "(u64 \<times> 'k committee_state) list"

definition epoch_genesis :: "epoch_schedule \<Rightarrow> 'k committee_state \<Rightarrow> 'k epoch_committee" where
  "epoch_genesis schedule g =
    \<lparr>ec_schedule = schedule, current_epoch = 0, ec_current = g, ec_pending = [], ec_history = []\<rparr>"

definition state_for_height :: "'k epoch_committee \<Rightarrow> u64 \<Rightarrow> 'k committee_state" where
  "state_for_height e height =
    (let n = epoch_of (ec_schedule e) height
     in if n \<ge> current_epoch e then ec_current e
        else (case map_of (ec_history e) n of Some s \<Rightarrow> s | None \<Rightarrow> ec_current e))"

definition stage :: "'k epoch_committee \<Rightarrow> 'k membership_change \<Rightarrow> 'k epoch_committee" where
  "stage e change = e\<lparr>ec_pending := ec_pending e @ [change]\<rparr>"

text \<open>The four parallel vectors of \<open>seal\<close> are one list of rows, split at the end.\<close>

type_synonym 'k roster_row = "'k \<times> member_status \<times> u64 \<times> u64"

definition removing :: "'k membership_change list \<Rightarrow> nat list" where
  "removing p = List.map_filter (\<lambda>c. case c of Remove i \<Rightarrow> Some i | Admit _ _ \<Rightarrow> None) p"

definition roster_row :: "'k committee_state \<Rightarrow> nat \<Rightarrow> 'k roster_row option" where
  "roster_row cur i =
    (case (committee_member (cs_committee cur) i, status_at cur i, bond_at cur i, slashed_at cur i) of
       (Some k, Some st, Some b, Some sl) \<Rightarrow> Some (k, st, b, sl)
     | _ \<Rightarrow> None)"

fun seal_rows :: "'k committee_state \<Rightarrow> nat list \<Rightarrow> nat list \<Rightarrow> 'k roster_row list option" where
  "seal_rows cur rm [] = Some []"
| "seal_rows cur rm (i # is) =
    (if i \<in> set rm \<or> status_at cur i = Some Tombstoned then seal_rows cur rm is
     else case roster_row cur i of
            None \<Rightarrow> None
          | Some row \<Rightarrow> map_option ((#) row) (seal_rows cur rm is))"

definition admit_rows :: "'k membership_change list \<Rightarrow> 'k roster_row list" where
  "admit_rows p = List.map_filter (\<lambda>c. case c of Admit key b \<Rightarrow> Some (key, Active, b, 0) | Remove _ \<Rightarrow> None) p"

definition seal :: "'k epoch_committee \<Rightarrow> 'k epoch_committee option" where
  "seal e =
    (let cur = ec_current e
     in case seal_rows cur (removing (ec_pending e)) [0..<cs_size cur] of
          None \<Rightarrow> None
        | Some kept \<Rightarrow>
            let rows = kept @ admit_rows (ec_pending e)
            in case from_parts \<lparr>members = map fst rows\<rparr> (map (fst \<circ> snd) rows)
                 (map (fst \<circ> snd \<circ> snd) rows) (map (snd \<circ> snd \<circ> snd) rows) of
                 None \<Rightarrow> None
               | Some next \<Rightarrow>
                   Some (e\<lparr>ec_current := next, ec_pending := [],
                           ec_history := AList.update (current_epoch e) cur (ec_history e),
                           current_epoch := current_epoch e + 1\<rparr>))"

lemma seal_epoch: "seal e = Some e' \<Longrightarrow> current_epoch e' = current_epoch e + 1"
  by (auto simp: seal_def Let_def split: option.splits)

function advance_loop :: "u64 \<Rightarrow> 'k epoch_committee \<Rightarrow> 'k epoch_committee option" where
  "advance_loop target e =
    (if current_epoch e < target
     then (case seal e of None \<Rightarrow> None | Some e' \<Rightarrow> advance_loop target e')
     else Some e)"
  by auto
termination
proof (relation "measure (\<lambda>(target, e). unat target - unat (current_epoch e))")
  fix target e and e' :: "'k epoch_committee"
  assume lt: "current_epoch e < target" and s: "seal e = Some e'"
  have "unat (current_epoch e) + 1 \<le> unat target" using lt by (simp add: word_less_nat_alt)
  then have "unat (current_epoch e + 1) = unat (current_epoch e) + 1"
    using unat_lt_exp [of target] by (intro unat_plus_1) simp
  with lt show "((target, e'), target, e) \<in> measure (\<lambda>(target, e). unat target - unat (current_epoch e))"
    by (simp add: seal_epoch [OF s] word_less_nat_alt)
qed simp

declare advance_loop.simps [simp del]

definition advance_to :: "'k epoch_committee \<Rightarrow> u64 \<Rightarrow> 'k epoch_committee option" where
  "advance_to e height = advance_loop (epoch_of (ec_schedule e) height) e"

section \<open>Sealing an epoch\<close>

text \<open>A row of a well-formed roster, and the members a boundary keeps.\<close>

definition row_at :: "'k committee_state \<Rightarrow> nat \<Rightarrow> 'k roster_row" where
  "row_at s i = (members (cs_committee s) ! i, cs_status s ! i, cs_bond s ! i, cs_slashed s ! i)"

definition survives :: "'k epoch_committee \<Rightarrow> nat \<Rightarrow> bool" where
  "survives e i \<longleftrightarrow> Remove i \<notin> set (ec_pending e) \<and> cs_status (ec_current e) ! i \<noteq> Tombstoned"

definition roster :: "'k committee_state \<Rightarrow> 'k roster_row list" where
  "roster s = map (row_at s) [0..<cs_size s]"

lemma set_removing: "set (removing p) = {i. Remove i \<in> set p}"
  by (induction p) (auto simp: removing_def map_filter_simps split: membership_change.splits)

lemma roster_row_at:
  "wf_committee_state s \<Longrightarrow> i < cs_size s \<Longrightarrow> roster_row s i = Some (row_at s i)"
  by (simp add: roster_row_def row_at_def committee_member_def status_at_def bond_at_def slashed_at_def
      wf_committee_state_def cs_size_def committee_size_def)

lemma seal_rows_kept:
  assumes "wf_committee_state s" and "\<forall>i \<in> set is. i < cs_size s"
  shows "seal_rows s rm is = Some (map (row_at s) (filter (\<lambda>i. i \<notin> set rm \<and> cs_status s ! i \<noteq> Tombstoned) is))"
  using assms(2)
proof (induction "is")
  case (Cons i "is")
  moreover have "status_at s i = Some (cs_status s ! i)"
    using assms(1) Cons.prems by (simp add: status_at_def wf_committee_state_def)
  ultimately show ?case using roster_row_at [OF assms(1), of i] by simp
qed simp

lemma seal_effect:
  assumes "wf_committee_state (ec_current e)"
  shows "\<exists>next. seal e = Some (e\<lparr>ec_current := next, ec_pending := [],
        ec_history := AList.update (current_epoch e) (ec_current e) (ec_history e), current_epoch := current_epoch e + 1\<rparr>)
    \<and> wf_committee_state next
    \<and> roster next = map (row_at (ec_current e)) (filter (survives e) [0..<cs_size (ec_current e)]) @ admit_rows (ec_pending e)"
proof -
  define rows where "rows = map (row_at (ec_current e)) (filter (survives e) [0..<cs_size (ec_current e)]) @ admit_rows (ec_pending e)"
  define nx where "nx = \<lparr>cs_committee = \<lparr>members = map fst rows\<rparr>, cs_status = map (fst \<circ> snd) rows,
    cs_bond = map (fst \<circ> snd \<circ> snd) rows, cs_slashed = map (snd \<circ> snd \<circ> snd) rows\<rparr>"
  have "(\<lambda>i. i \<notin> set (removing (ec_pending e)) \<and> cs_status (ec_current e) ! i \<noteq> Tombstoned) = survives e"
    by (auto simp: set_removing survives_def fun_eq_iff)
  then have kept: "seal_rows (ec_current e) (removing (ec_pending e)) [0..<cs_size (ec_current e)]
      = Some (map (row_at (ec_current e)) (filter (survives e) [0..<cs_size (ec_current e)]))"
    using seal_rows_kept [OF assms, of "[0..<cs_size (ec_current e)]" "removing (ec_pending e)"] by simp
  have parts: "from_parts \<lparr>members = map fst rows\<rparr> (map (fst \<circ> snd) rows)
      (map (fst \<circ> snd \<circ> snd) rows) (map (snd \<circ> snd \<circ> snd) rows) = Some nx"
    by (simp add: from_parts_def committee_size_def nx_def)
  have "seal e = Some (e\<lparr>ec_current := nx, ec_pending := [],
        ec_history := AList.update (current_epoch e) (ec_current e) (ec_history e), current_epoch := current_epoch e + 1\<rparr>)"
    using parts by (simp add: seal_def Let_def kept rows_def)
  moreover have "wf_committee_state nx" using parts by (rule wf_from_parts)
  moreover have "roster nx = rows"
    by (rule nth_equalityI) (simp_all add: roster_def row_at_def nx_def cs_size_def committee_size_def)
  ultimately show ?thesis unfolding rows_def by blast
qed

section \<open>Epochs in order\<close>

text \<open>The history answers for exactly the epochs before the current one.\<close>

definition wf_epochs :: "'k epoch_committee \<Rightarrow> bool" where
  "wf_epochs e \<longleftrightarrow>
     wf_committee_state (ec_current e)
     \<and> (\<forall>n. n < current_epoch e \<longleftrightarrow> map_of (ec_history e) n \<noteq> None)"

lemma wf_epoch_genesis: "wf_committee_state g \<Longrightarrow> wf_epochs (epoch_genesis sch g)"
  by (simp add: wf_epochs_def epoch_genesis_def)

lemma wf_stage: "wf_epochs e \<Longrightarrow> wf_epochs (stage e c)"
  by (simp add: wf_epochs_def stage_def)

lemma word_less_plus_1:
  assumes "unat c + 1 < 2 ^ LENGTH('a)"
  shows "n < c + 1 \<longleftrightarrow> n \<le> (c :: 'a::len word)"
  using unat_plus_1 [OF assms] by (simp add: word_nat_conv less_Suc_eq_le)

lemma wf_seal:
  assumes wf: "wf_epochs e" and small: "unat (current_epoch e) + 1 < 2 ^ 64" and seal: "seal e = Some e'"
  shows "wf_epochs e'" and "ec_schedule e' = ec_schedule e"
    and "n \<le> current_epoch e \<Longrightarrow>
      map_of (ec_history e') n = (if n = current_epoch e then Some (ec_current e) else map_of (ec_history e) n)"
proof -
  have wc: "wf_committee_state (ec_current e)" using wf by (simp add: wf_epochs_def)
  obtain nx where e': "e' = e\<lparr>ec_current := nx, ec_pending := [],
        ec_history := AList.update (current_epoch e) (ec_current e) (ec_history e), current_epoch := current_epoch e + 1\<rparr>"
      and nx: "wf_committee_state nx"
    using seal_effect [OF wc] seal by auto
  show "ec_schedule e' = ec_schedule e" by (simp add: e')
  show "n \<le> current_epoch e \<Longrightarrow>
      map_of (ec_history e') n = (if n = current_epoch e then Some (ec_current e) else map_of (ec_history e) n)"
    by (simp add: e' update_conv')
  have "n < current_epoch e + 1 \<longleftrightarrow> n = current_epoch e \<or> n < current_epoch e" for n
    using word_less_plus_1 [of "current_epoch e" n] small by auto
  with wf nx show "wf_epochs e'" by (simp add: wf_epochs_def e' update_conv')
qed

lemma advance_loop_effect:
  assumes "wf_epochs e"
  shows "\<exists>e'. advance_loop target e = Some e' \<and> wf_epochs e' \<and> ec_schedule e' = ec_schedule e
    \<and> current_epoch e' = max (current_epoch e) target
    \<and> (\<forall>n < current_epoch e. map_of (ec_history e') n = map_of (ec_history e) n)
    \<and> (current_epoch e < target \<longrightarrow> map_of (ec_history e') (current_epoch e) = Some (ec_current e))
    \<and> (\<not> current_epoch e < target \<longrightarrow> e' = e)"
  using assms
proof (induction target e rule: advance_loop.induct)
  case (1 target e)
  show ?case
  proof (cases "current_epoch e < target")
    case False
    then have "advance_loop target e = Some e" by (subst advance_loop.simps) simp
    with 1(2) False show ?thesis by (intro exI [of _ e]) (simp add: max_def)
  next
    case True
    have small: "unat (current_epoch e) + 1 < 2 ^ 64"
      using True unat_lt_exp [of target] by (simp add: word_less_nat_alt)
    obtain e1 where e1: "seal e = Some e1" using seal_effect [of e] 1(2) by (auto simp: wf_epochs_def)
    note w = wf_seal [OF 1(2) small e1]
    have cur: "current_epoch e1 = current_epoch e + 1" using e1 by (rule seal_epoch)
    from 1(1) [OF True e1 w(1)] obtain e' where
      e': "advance_loop target e1 = Some e'" "wf_epochs e'" "ec_schedule e' = ec_schedule e1"
        "current_epoch e' = max (current_epoch e1) target"
        "\<forall>n < current_epoch e1. map_of (ec_history e') n = map_of (ec_history e1) n"
      by blast
    have "map_of (ec_history e') n = (if n = current_epoch e then Some (ec_current e) else map_of (ec_history e) n)"
      if "n \<le> current_epoch e" for n
      using that e'(5) w(3) word_less_plus_1 [of "current_epoch e" n] small by (simp add: cur)
    moreover have "max (current_epoch e1) target = max (current_epoch e) target"
      using True small unat_plus_1 [of "current_epoch e"]
      by (auto simp: cur max_def word_nat_conv)
    moreover have "advance_loop target e = Some e'"
      using True e1 e'(1) by (subst advance_loop.simps) simp
    ultimately show ?thesis using True e' w(2) by (intro exI [of _ e']) (auto simp: less_imp_le)
  qed
qed

section \<open>Properties\<close>

text \<open>epochs partition the heights: a height belongs to the epoch that starts at or below it and
  ends above it, and the boundaries are exactly the first heights of epochs. The hypotheses keep
  \<open>(epoch + 1) * length\<close> in 64 bits.\<close>

theorem epoch_partition:
  assumes "0 < epoch_length s" and "(unat e + 1) * unat (epoch_length s) < 2 ^ 64"
  shows "(epoch_of s h = e \<longleftrightarrow> epoch_start s e \<le> h \<and> h < epoch_start s (e + 1))
    \<and> (is_boundary s h \<longleftrightarrow> epoch_start s (epoch_of s h) = h)"
proof -
  define l where "l = unat (epoch_length s)"
  have l: "0 < l" using assms(1) by (simp add: l_def word_less_nat_alt)
  have e1: "unat e + 1 < 2 ^ 64"
  proof -
    have "unat e + 1 \<le> (unat e + 1) * l" using l mult_le_mono2 [of 1 l "unat e + 1"] by simp
    with assms(2) show ?thesis unfolding l_def by (rule le_less_trans [rotated])
  qed
  have s0: "unat (epoch_start s e) = unat e * l"
    using assms(2) by (simp add: epoch_start_def l_def unat_mult_small)
  have s1: "unat (epoch_start s (e + 1)) = (unat e + 1) * l"
    using assms(2) unat_plus_1 [of e] e1 by (simp add: epoch_start_def l_def unat_mult_small)
  have "epoch_of s h = e \<longleftrightarrow> unat h div l = unat e"
    by (simp add: epoch_of_def l_def unat_div word_unat_eq_iff)
  also have "\<dots> \<longleftrightarrow> unat e * l \<le> unat h \<and> unat h < (unat e + 1) * l"
    using l by (rule nat_div_eq_iff)
  finally have "epoch_of s h = e \<longleftrightarrow> epoch_start s e \<le> h \<and> h < epoch_start s (e + 1)"
    by (simp add: word_nat_conv s0 s1)
  moreover have "is_boundary s h \<longleftrightarrow> epoch_start s (epoch_of s h) = h"
  proof -
    have "unat h div l * l < 2 ^ 64"
      using unat_lt_exp [of h] by (simp add: le_less_trans [OF div_times_less_eq_dividend])
    then have "unat (epoch_start s (epoch_of s h)) = unat h div l * l"
      unfolding epoch_start_def epoch_of_def l_def by (subst unat_mult_small) (simp_all add: unat_div)
    moreover have "is_boundary s h \<longleftrightarrow> l dvd unat h" by (simp add: is_boundary_def word_mod_eq_0 l_def)
    ultimately show ?thesis by (auto simp: word_unat_eq_iff dvd_div_mult_self) (metis dvd_triv_right)
  qed
  ultimately show ?thesis by blast
qed

lemma epoch_partition_witness: "epoch_of \<lparr>epoch_length = 10\<rparr> 25 = 2"
  by (subst epoch_partition [THEN conjunct1]) (simp_all add: epoch_start_def)

text \<open>crossing epochs never panics and lands in the epoch of the height (never going back), and it
  never rewrites the past: every height of the current epoch or an earlier one is answered by the
  same committee before and after, whatever was staged.\<close>

theorem advance_keeps_past:
  assumes "wf_epochs e"
  shows "\<exists>e'. advance_to e height = Some e' \<and> wf_epochs e'
    \<and> current_epoch e' = max (current_epoch e) (epoch_of (ec_schedule e) height)
    \<and> (\<forall>h. epoch_of (ec_schedule e) h \<le> current_epoch e \<longrightarrow> state_for_height e' h = state_for_height e h)"
proof -
  define target where "target = epoch_of (ec_schedule e) height"
  from advance_loop_effect [OF assms, of target] obtain e' where
    e': "advance_loop target e = Some e'" "wf_epochs e'" "ec_schedule e' = ec_schedule e"
      "current_epoch e' = max (current_epoch e) target"
      "\<forall>n < current_epoch e. map_of (ec_history e') n = map_of (ec_history e) n"
      "current_epoch e < target \<longrightarrow> map_of (ec_history e') (current_epoch e) = Some (ec_current e)"
      "\<not> current_epoch e < target \<longrightarrow> e' = e"
    by blast
  have "state_for_height e' h = state_for_height e h" if le: "epoch_of (ec_schedule e) h \<le> current_epoch e" for h
  proof (cases "current_epoch e < target")
    case True
    define n where "n = epoch_of (ec_schedule e) h"
    have "\<not> current_epoch e' \<le> n" using True le e'(4) by (simp add: n_def)
    then have new: "state_for_height e' h = (case map_of (ec_history e') n of Some s \<Rightarrow> s | None \<Rightarrow> ec_current e')"
      unfolding state_for_height_def Let_def e'(3) n_def by (rule if_not_P)
    show ?thesis
    proof (cases "n = current_epoch e")
      case True
      then show ?thesis using new e'(6) \<open>current_epoch e < target\<close> by (simp add: state_for_height_def Let_def n_def)
    next
      case False
      with le have lt: "n < current_epoch e" by (simp add: n_def)
      then obtain s where "map_of (ec_history e) n = Some s" using assms by (auto simp: wf_epochs_def)
      with lt new e'(5) show ?thesis by (simp add: state_for_height_def Let_def n_def)
    qed
  qed (use e'(7) in simp)
  with e'(1,2,4) show ?thesis by (auto simp: advance_to_def target_def)
qed

lemma advance_keeps_past_witness:
  "\<exists>e'. advance_to (stage (epoch_genesis \<lparr>epoch_length = 10\<rparr> (committee_state_new \<lparr>members = [7 :: nat]\<rparr> 100)) (Remove 0)) 25 = Some e'"
  using advance_keeps_past [OF wf_stage [OF wf_epoch_genesis [OF wf_committee_state_new]], of "\<lparr>epoch_length = 10\<rparr>" "\<lparr>members = [7 :: nat]\<rparr>" 100 "Remove 0" 25]
  by blast

text \<open>what a boundary does to the roster: sealing succeeds, the members kept are exactly those
  neither tombstoned nor staged for removal, in their order and each with its key, status, bond and
  slash, the admitted ones follow in staging order as active with their bond and no slash, and
  nothing stays staged.\<close>

theorem seal_roster:
  assumes "wf_epochs e"
  shows "\<exists>e'. seal e = Some e' \<and> ec_pending e' = []
    \<and> roster (ec_current e') =
        filter (\<lambda>(k, st, b, sl). st \<noteq> Tombstoned)
          (map snd (filter (\<lambda>(i, r). Remove i \<notin> set (ec_pending e)) (enumerate 0 (roster (ec_current e)))))
        @ admit_rows (ec_pending e)"
proof -
  have wf: "wf_committee_state (ec_current e)" using assms by (simp add: wf_epochs_def)
  have "map (row_at s) (filter (survives e) is)
      = filter (\<lambda>(k, st, b, sl). st \<noteq> Tombstoned)
          (map snd (filter (\<lambda>(i, r). Remove i \<notin> set (ec_pending e)) (map (\<lambda>i. (i, row_at s i)) is)))"
    if "s = ec_current e" for s "is"
    by (induction "is") (auto simp: survives_def row_at_def that)
  moreover have "enumerate 0 (roster s) = map (\<lambda>i. (i, row_at s i)) [0..<cs_size s]" for s :: "'a committee_state"
    by (rule nth_equalityI) (simp_all add: roster_def nth_enumerate_eq)
  ultimately show ?thesis using seal_effect [OF wf] by auto
qed

lemma seal_roster_witness:
  "\<exists>e'. seal (stage (epoch_genesis \<lparr>epoch_length = 10\<rparr> (committee_state_new \<lparr>members = [7 :: nat]\<rparr> 100)) (Admit 9 50)) = Some e'
     \<and> ec_pending e' = []"
  using seal_roster [OF wf_stage [OF wf_epoch_genesis [OF wf_committee_state_new]], of "\<lparr>epoch_length = 10\<rparr>" "\<lparr>members = [7 :: nat]\<rparr>" 100 "Admit 9 50"]
  by blast

end
