(* ===== verification/Pow_Schedule.thy ===== *)
theory Pow_Schedule
  imports Prelude
begin

text \<open>
  The difficulty retarget and the RandomX key schedule of \<open>qlab-pow\<close>. The retarget computes in
  \<open>u128\<close> words as the source does; the reference it is compared with computes the formula of the
  module's documentation on naturals, with no width.
\<close>

section \<open>LWMA-1 (lwma.rs)\<close>

definition lwma_window :: nat where
  "lwma_window = 120"

text \<open>The loop over the timestamps after the first: \<open>prev\<close> is the last timestamp taken,
  \<open>i\<close> the zero-based index, \<open>acc\<close> the weighted sum.\<close>

fun lwma_loop :: "u128 \<Rightarrow> u64 \<Rightarrow> nat \<Rightarrow> u64 list \<Rightarrow> u128 \<Rightarrow> u128" where
  "lwma_loop six_t prev i [] acc = acc"
| "lwma_loop six_t prev i (nxt # ts) acc =
     (let this = (if nxt > prev then nxt else prev + 1);
          solvetime = u128_of (min (this - prev) (u64_of six_t));
          weight = word_of_nat i + 1
      in lwma_loop six_t this (i + 1) ts (acc + weight * solvetime))"

definition lwma_next_difficulty :: "u64 list \<Rightarrow> u64 list \<Rightarrow> u64 \<Rightarrow> u64" where
  "lwma_next_difficulty timestamps difficulties t_target =
    (let n = length difficulties in
     if n = 0 \<or> length timestamps \<noteq> n + 1 then 1
     else
       let t = u128_of (max t_target 1);
           n_u = (word_of_nat n :: u128);
           six_t = 6 * t;
           weighted = lwma_loop six_t (hd timestamps) 0 (tl timestamps) 0;
           l_floor = n_u * (n_u + 1) * t div 20;
           l = max (max weighted l_floor) 1;
           sum_d = sum_list (map u128_of difficulties);
           nxt = sum_d * t * (n_u + 1) div (2 * l)
       in u64_of (max 1 (min nxt (u128_of umax))))"

section \<open>The reference retarget on naturals\<close>

text \<open>One solvetime: a timestamp that does not increase counts one second, a gap at most \<open>6 T\<close>;
  the weighted sum gives the newest the largest weight.\<close>

fun lwma_ref_sum :: "nat \<Rightarrow> nat \<Rightarrow> nat \<Rightarrow> nat list \<Rightarrow> nat" where
  "lwma_ref_sum t prev i [] = 0"
| "lwma_ref_sum t prev i (nxt # ts) =
     (let this = (if nxt > prev then nxt else prev + 1)
      in (i + 1) * min (this - prev) (6 * t) + lwma_ref_sum t this (i + 1) ts)"

definition lwma_ref :: "nat list \<Rightarrow> nat list \<Rightarrow> nat \<Rightarrow> nat" where
  "lwma_ref ts ds t =
    (let n = length ds;
         l = max (max (lwma_ref_sum t (hd ts) 0 (tl ts)) (n * (n + 1) * t div 20)) 1
     in max 1 (min (sum_list ds * t * (n + 1) div (2 * l)) (2 ^ 64 - 1)))"

text \<open>The window is inside the range where the \<open>u128\<close> arithmetic is exact and no timestamp can
  be pushed over the top by the out-of-sequence guard.\<close>

definition lwma_in_range :: "u64 list \<Rightarrow> u64 list \<Rightarrow> u64 \<Rightarrow> bool" where
  "lwma_in_range ts ds t \<longleftrightarrow>
     0 < length ds \<and> length ts = length ds + 1 \<and> length ds < 2 ^ 15 \<and> 0 < t \<and> t < 2 ^ 32 \<and>
     (\<forall>x \<in> set ts. x < 2 ^ 63)"

lemma sum_u128_of: "length ds \<le> 2 ^ 32 \<Longrightarrow>
  unat (sum_list (map u128_of ds)) = sum_list (map unat ds) \<and> sum_list (map unat ds) \<le> length ds * (2 ^ 64 - 1)"
proof (induction ds)
  case Nil
  then show ?case by simp
next
  case (Cons d ds)
  have d: "unat d \<le> 2 ^ 64 - 1" using unat_lt_exp [of d] by simp
  have IH: "unat (sum_list (map u128_of ds)) = sum_list (map unat ds)"
    "sum_list (map unat ds) \<le> length ds * (2 ^ 64 - 1)" using Cons by simp_all
  have le: "unat d + sum_list (map unat ds) \<le> Suc (length ds) * (2 ^ 64 - 1)"
    using d IH(2) by simp
  also have "\<dots> \<le> 2 ^ 32 * (2 ^ 64 - 1)" using Cons.prems by (intro mult_le_mono1) simp
  also have "\<dots> < 2 ^ 128" by simp
  finally have "unat (u128_of d) + unat (sum_list (map u128_of ds)) < 2 ^ LENGTH(128)"
    using IH by simp
  then show ?case using le IH by (simp add: unat_add_small)
qed

lemma lwma_step_solvetime:
  assumes "unat prev < 2 ^ 64 - 1" and "unat t < 2 ^ 32"
  shows "unat (u128_of (min ((if nxt > prev then nxt else prev + 1) - prev) (u64_of (6 * t)))) =
    min ((if unat nxt > unat prev then unat nxt else unat prev + 1) - unat prev) (6 * unat t)"
proof -
  have six: "unat (6 * t :: u128) = 6 * unat t"
    using assms(2) by (subst unat_mult_small) simp_all
  have c: "unat (u64_of (6 * t)) = 6 * unat t"
    using assms(2) by (subst unat_u64_of_small) (simp_all add: six)
  have p: "unat (prev + 1) = unat prev + 1" using assms(1) by (simp add: unat_plus_1)
  show ?thesis
    using p by (auto simp: unat_min c word_less_nat_alt unat_sub_le word_le_nat_alt)
qed

lemma lwma_loop_ref:
  assumes "unat prev + length ts < 2 ^ 64" and "\<forall>x \<in> set ts. unat x + length ts < 2 ^ 64"
    and "unat t < 2 ^ 32" and "i + length ts \<le> 2 ^ 15"
    and "unat acc + (\<Sum>j<length ts. (i + j + 1) * (6 * unat t)) < 2 ^ 128"
  shows "unat (lwma_loop (6 * t) prev i ts acc) = unat acc + lwma_ref_sum (unat t) (unat prev) i (map unat ts)"
  using assms
proof (induction ts arbitrary: prev i acc)
  case Nil
  then show ?case by simp
next
  case (Cons nxt ts)
  define this_w where "this_w = (if nxt > prev then nxt else prev + 1)"
  define this_n where "this_n = (if unat nxt > unat prev then unat nxt else unat prev + 1)"
  define st where "st = u128_of (min (this_w - prev) (u64_of (6 * t)))"
  have thisw: "unat this_w = this_n"
    using Cons.prems(1) by (auto simp: this_w_def this_n_def word_less_nat_alt unat_plus_1)
  have st: "unat st = min (this_n - unat prev) (6 * unat t)"
    unfolding st_def this_w_def this_n_def using Cons.prems(1,3) by (intro lwma_step_solvetime) simp_all
  have w: "unat (word_of_nat i + 1 :: u128) = i + 1"
  proof -
    have "i < 2 ^ 128" using Cons.prems(4) by simp
    then have i: "unat (word_of_nat i :: u128) = i" by (simp add: unat_of_nat)
    show ?thesis using Cons.prems(4) by (subst unat_plus_1) (simp_all add: i)
  qed
  have total: "(\<Sum>j<length (nxt # ts). (i + j + 1) * (6 * unat t))
      = (i + 1) * (6 * unat t) + (\<Sum>j<length ts. (Suc i + j + 1) * (6 * unat t))"
    by (simp add: sum.lessThan_Suc_shift del: sum.lessThan_Suc)
  have step_le: "(i + 1) * unat st \<le> (i + 1) * (6 * unat t)"
    by (intro mult_le_mono2) (simp add: st)
  have small: "(i + 1) * unat st < 2 ^ 128" and acc_small: "unat acc + (i + 1) * unat st < 2 ^ 128"
    using Cons.prems(5) total step_le by linarith+
  have ws: "unat ((word_of_nat i + 1) * st) = (i + 1) * unat st"
    using unat_mult_small [of "word_of_nat i + 1 :: u128" st] small by (simp add: w)
  have acc': "unat (acc + (word_of_nat i + 1) * st) = unat acc + (i + 1) * unat st"
    using acc_small by (subst unat_add_small) (simp_all only: ws, simp)
  have len: "unat this_w + length ts < 2 ^ 64"
    using Cons.prems(1,2) by (auto simp: thisw this_n_def)
  have acc_next: "unat (acc + (word_of_nat i + 1) * st) + (\<Sum>j<length ts. (Suc i + j + 1) * (6 * unat t)) < 2 ^ 128"
    using Cons.prems(5) total step_le acc' by linarith
  have "unat (lwma_loop (6 * t) this_w (Suc i) ts (acc + (word_of_nat i + 1) * st))
      = unat acc + (i + 1) * unat st + lwma_ref_sum (unat t) this_n (Suc i) (map unat ts)"
  proof -
    have "\<forall>x \<in> set ts. unat x + length ts < 2 ^ 64" using Cons.prems(2) by auto
    from Cons.IH [OF len this Cons.prems(3) _ acc_next] show ?thesis
      using Cons.prems(4) by (simp add: thisw acc')
  qed
  moreover have "lwma_loop (6 * t) prev i (nxt # ts) acc
      = lwma_loop (6 * t) this_w (Suc i) ts (acc + (word_of_nat i + 1) * st)"
    by (simp add: this_w_def st_def Let_def)
  moreover have "lwma_ref_sum (unat t) (unat prev) i (map unat (nxt # ts))
      = (i + 1) * unat st + lwma_ref_sum (unat t) this_n (Suc i) (map unat ts)"
    by (simp add: this_n_def st Let_def)
  ultimately show ?case by simp
qed

lemma lwma_ref_sum_le: "lwma_ref_sum t prev i ts \<le> (\<Sum>j<length ts. (i + j + 1) * (6 * t))"
proof (induction ts arbitrary: prev i)
  case (Cons nxt ts)
  define this_n where "this_n = (if nxt > prev then nxt else prev + 1)"
  have "(i + 1) * min (this_n - prev) (6 * t) \<le> (i + 1) * (6 * t)"
    by (intro mult_le_mono2) simp
  moreover have "lwma_ref_sum t this_n (Suc i) ts \<le> (\<Sum>j<length ts. (Suc i + j + 1) * (6 * t))"
    by (rule Cons.IH)
  moreover have "lwma_ref_sum t prev i (nxt # ts)
      = (i + 1) * min (this_n - prev) (6 * t) + lwma_ref_sum t this_n (Suc i) ts"
    by (simp add: this_n_def Let_def)
  moreover have "(\<Sum>j<length (nxt # ts). (i + j + 1) * (6 * t))
      = (i + 1) * (6 * t) + (\<Sum>j<length ts. (Suc i + j + 1) * (6 * t))"
    by (simp add: sum.lessThan_Suc_shift del: sum.lessThan_Suc)
  ultimately show ?case by linarith
qed simp

lemma lwma_weight_sum: "n \<le> 2 ^ 15 \<Longrightarrow> t < 2 ^ 32 \<Longrightarrow> (\<Sum>j<n. (0 + j + 1) * (6 * t)) < (2 ^ 80 :: nat)"
proof -
  assume n: "n \<le> 2 ^ 15" and t: "t < (2 :: nat) ^ 32"
  have "(\<Sum>j<n. (0 + j + 1) * (6 * t)) \<le> (\<Sum>j<n. 2 ^ 15 * (6 * 2 ^ 32))"
    using n t by (intro sum_mono mult_le_mono) auto
  also have "\<dots> \<le> 2 ^ 15 * (2 ^ 15 * (6 * 2 ^ 32))" using n by simp
  finally show ?thesis by (rule le_less_trans) simp
qed


section \<open>The retarget computes the reference\<close>

lemma unat_div: "unat (a div b :: 'a::len word) = unat a div unat b"
  by (rule unat_div_distrib)

lemma unat_clamp64: "unat (u64_of (max 1 (min (x :: u128) (u128_of umax)))) = max 1 (min (unat x) (2 ^ 64 - 1))"
  by (subst unat_u64_of_small) (simp_all add: unat_max unat_min unat_umax)

lemma lwma_in_range_hd:
  assumes "lwma_in_range ts ds t"
  shows "unat (hd ts) + length (tl ts) < 2 ^ 64" and "\<forall>x \<in> set (tl ts). unat x + length (tl ts) < 2 ^ 64"
proof -
  from assms obtain a as where ts: "ts = a # as"
    by (cases ts) (auto simp: lwma_in_range_def)
  have "unat x + length as < 2 ^ 64" if "x \<in> set ts" for x
  proof -
    have "unat x < 2 ^ 63" using assms that by (auto simp: lwma_in_range_def word_less_nat_alt)
    moreover have "length as < 2 ^ 15" using assms by (auto simp: lwma_in_range_def ts)
    ultimately show ?thesis by simp
  qed
  then show "unat (hd ts) + length (tl ts) < 2 ^ 64" and "\<forall>x \<in> set (tl ts). unat x + length (tl ts) < 2 ^ 64"
    by (simp_all add: ts)
qed

lemma lwma_num_bound:
  assumes "s \<le> n * (2 ^ 64 - 1)" and "n < 2 ^ 15" and "t < (2 :: nat) ^ 32"
  shows "s * t < 2 ^ 111" and "s * t * (n + 1) < 2 ^ 128"
proof -
  have "s \<le> 2 ^ 15 * (2 ^ 64 - 1)"
    using assms(1,2) by (rule_tac order_trans [OF assms(1)]) (intro mult_le_mono1, simp)
  then have "s < 2 ^ 79" by (rule le_less_trans) simp
  then have "s * t < 2 ^ 79 * 2 ^ 32" using assms(3) by (intro mult_strict_mono) simp_all
  then show st: "s * t < 2 ^ 111" by simp
  have "s * t * (n + 1) < 2 ^ 111 * 2 ^ 16" using st assms(2) by (intro mult_strict_mono) simp_all
  then show "s * t * (n + 1) < 2 ^ 128" by simp
qed

lemma lwma_exact_aux:
  assumes "lwma_in_range ts ds t"
  shows "unat (lwma_next_difficulty ts ds t) = lwma_ref (map unat ts) (map unat ds) (unat t)"
proof -
  define n where "n = length ds"
  have n: "0 < n" "n < 2 ^ 15" and len: "length ts = n + 1" and t: "0 < t" "unat t < 2 ^ 32"
    using assms by (auto simp: lwma_in_range_def n_def word_less_nat_alt)
  have "1 \<le> t" using t(1) by (simp add: word_le_nat_alt word_less_nat_alt)
  then have t': "max t 1 = t" by (rule max_absorb1)
  define tw where "tw = u128_of t"
  have tw: "unat tw = unat t" by (simp add: tw_def)
  have tl: "length (tl ts) = n" using len by simp
  note hd = lwma_in_range_hd [OF assms]
  have wsum: "(\<Sum>j<n. (0 + j + 1) * (6 * unat t)) < 2 ^ 80"
    using n t by (intro lwma_weight_sum) simp_all
  define L where "L = lwma_ref_sum (unat t) (unat (hd ts)) 0 (map unat (tl ts))"
  have L: "unat (lwma_loop (6 * tw) (hd ts) 0 (tl ts) 0) = L"
    using lwma_loop_ref [OF hd, of tw 0 0] t(2) n tl wsum by (simp add: L_def tw)
  have L_lt: "L < 2 ^ 80"
    using lwma_ref_sum_le [of "unat t" "unat (hd ts)" 0 "map unat (tl ts)"] wsum tl by (simp add: L_def)
  have nu: "unat (word_of_nat n :: u128) = n" using n by (simp add: unat_of_nat)
  have nu1: "unat (word_of_nat n + 1 :: u128) = n + 1"
    using n by (subst unat_plus_1) (simp_all add: nu)
  have nn: "n * (n + 1) < 2 ^ 31"
  proof -
    have "n * (n + 1) \<le> 2 ^ 15 * 2 ^ 15" using n by (intro mult_le_mono) simp_all
    then show ?thesis by simp
  qed
  have nnt: "n * (n + 1) * unat t < 2 ^ 63"
    using mult_strict_mono [OF nn t(2)] by simp
  have fl: "unat (word_of_nat n * (word_of_nat n + 1) * tw div 20 :: u128) = n * (n + 1) * unat t div 20"
  proof -
    have a: "unat (word_of_nat n * (word_of_nat n + 1) :: u128) = n * (n + 1)"
      using nn by (subst unat_mult_small) (simp_all only: nu nu1, simp)
    have b: "unat (word_of_nat n * (word_of_nat n + 1) * tw) = n * (n + 1) * unat t"
      using nnt by (subst unat_mult_small) (simp_all only: a tw, simp)
    have "unat (20 :: u128) = 20" by simp
    with b show ?thesis by (simp only: unat_div)
  qed
  define l where "l = max (max (lwma_loop (6 * tw) (hd ts) 0 (tl ts) 0) (word_of_nat n * (word_of_nat n + 1) * tw div 20)) 1"
  define ln where "ln = max (max L (n * (n + 1) * unat t div 20)) 1"
  have l: "unat l = ln" by (simp only: l_def ln_def unat_max L fl unsigned_1)
  have "n * (n + 1) * unat t div 20 < 2 ^ 80" using nnt by (simp add: div_less_dividend less_le_trans)
  then have ln_lt: "ln < 2 ^ 80" using L_lt by (simp add: ln_def)
  have l2: "unat (2 * l) = 2 * ln" using ln_lt by (subst unat_mult_small) (simp_all add: l)
  define s where "s = sum_list (map unat ds)"
  have s: "unat (sum_list (map u128_of ds)) = s" "s \<le> n * (2 ^ 64 - 1)"
    using sum_u128_of [of ds] n by (simp_all add: s_def n_def)
  note b = lwma_num_bound [OF s(2) n(2) t(2)]
  have num1: "unat (sum_list (map u128_of ds) * tw) = s * unat t"
    using b(1) by (subst unat_mult_small) (simp_all add: s(1) tw)
  have num: "unat (sum_list (map u128_of ds) * tw * (word_of_nat n + 1)) = s * unat t * (n + 1)"
    using b(2) by (subst unat_mult_small) (simp_all only: num1 nu1, simp)
  have "lwma_next_difficulty ts ds t
      = u64_of (max 1 (min (sum_list (map u128_of ds) * tw * (word_of_nat n + 1) div (2 * l)) (u128_of umax)))"
    using n(1) len by (simp add: lwma_next_difficulty_def n_def [symmetric] Let_def t' tw_def [symmetric] l_def)
  also have "unat \<dots> = max 1 (min (s * unat t * (n + 1) div (2 * ln)) (2 ^ 64 - 1))"
    by (simp only: unat_clamp64 unat_div num l2)
  also have "\<dots> = lwma_ref (map unat ts) (map unat ds) (unat t)"
    using len by (cases ts) (simp_all add: lwma_ref_def Let_def n_def [symmetric] s_def ln_def L_def)
  finally show ?thesis .
qed


lemma lwma_ref_sum_steady:
  assumes "0 < t" and "\<forall>j<length ts. (prev # ts) ! Suc j = (prev # ts) ! j + t"
  shows "lwma_ref_sum t prev i ts = (\<Sum>j<length ts. (i + j + 1) * t)"
  using assms(2)
proof (induction ts arbitrary: prev i)
  case (Cons nxt ts)
  have nxt: "nxt = prev + t" using Cons.prems by auto
  have "lwma_ref_sum t nxt (Suc i) ts = (\<Sum>j<length ts. (Suc i + j + 1) * t)"
  proof (intro Cons.IH allI impI)
    fix j
    assume "j < length ts"
    then show "(nxt # ts) ! Suc j = (nxt # ts) ! j + t"
      using Cons.prems [rule_format, of "Suc j"] by simp
  qed
  moreover have "(\<Sum>j<length (nxt # ts). (i + j + 1) * t)
      = (i + 1) * t + (\<Sum>j<length ts. (Suc i + j + 1) * t)"
    by (simp add: sum.lessThan_Suc_shift del: sum.lessThan_Suc)
  ultimately show ?case using assms(1) by (simp add: nxt Let_def)
qed simp

lemma weight_sum_twice: "2 * (\<Sum>j<n. (0 + j + 1) * t) = n * (n + 1) * (t :: nat)"
  by (induction n) (simp_all add: algebra_simps)

lemma lwma_ref_steady:
  assumes "0 < t" and "0 < length ds" and "length ts = length ds + 1"
    and "\<forall>j<length ds. ts ! Suc j = ts ! j + t" and "\<forall>d \<in> set ds. d < 2 ^ 64"
  shows "lwma_ref ts ds t = max 1 (sum_list ds div length ds)"
proof -
  define n where "n = length ds"
  obtain a as where ts: "ts = a # as" and as: "length as = n"
    using assms(3) by (cases ts) (simp_all add: n_def)
  define L where "L = lwma_ref_sum t a 0 as"
  have "L = (\<Sum>j<n. (0 + j + 1) * t)"
    unfolding L_def as [symmetric] using assms(1,4) as by (intro lwma_ref_sum_steady) (simp_all add: ts n_def)
  then have L2: "2 * L = n * (n + 1) * t" by (simp only: weight_sum_twice)
  have n: "0 < n" using assms(2) by (simp add: n_def)
  have "0 < 2 * L" unfolding L2 using n assms(1) by simp
  then have "1 \<le> L" by simp
  moreover have "n * (n + 1) * t div 20 \<le> L" by (simp only: L2 [symmetric])
  ultimately have l: "max (max L (n * (n + 1) * t div 20)) 1 = L" by simp
  have "sum_list ds * t * (n + 1) div (2 * L) = (sum_list ds * (t * (n + 1))) div (n * (t * (n + 1)))"
    by (simp only: L2 mult.assoc mult.commute [of t])
  also have "\<dots> = sum_list ds div n" using assms(1) by (simp del: mult_Suc_right)
  finally have q: "sum_list ds * t * (n + 1) div (2 * L) = sum_list ds div n" .
  have "sum_list ds \<le> n * (2 ^ 64 - 1)"
    unfolding n_def using assms(5) by (induction ds) fastforce+
  then have "sum_list ds div n \<le> 2 ^ 64 - 1" using div_le_mono [of _ "n * (2 ^ 64 - 1)" n] n by simp
  then show ?thesis
    using q l by (simp add: lwma_ref_def Let_def n_def [symmetric] ts L_def [symmetric])
qed

lemma lwma_ref_rise_cap:
  assumes "0 < t" and "0 < length ds" and "20 dvd length ds * (length ds + 1) * t"
  shows "lwma_ref ts ds t \<le> max 1 (10 * sum_list ds div length ds)"
proof -
  define n where "n = length ds"
  define s where "s = sum_list ds"
  define f where "f = n * (n + 1) * t div 20"
  define l where "l = max (max (lwma_ref_sum t (hd ts) 0 (tl ts)) f) 1"
  have n: "0 < n" using assms(2) by (simp add: n_def)
  have f: "20 * f = n * (n + 1) * t" using assms(3) by (simp only: f_def n_def dvd_mult_div_cancel)
  have "0 < 20 * f" unfolding f using n assms(1) by simp
  then have fpos: "0 < f" by simp
  have "s * t * (n + 1) div (2 * l) \<le> s * t * (n + 1) div (2 * f)"
    using fpos by (intro div_le_mono2) (simp_all add: l_def)
  also have "\<dots> = 10 * (s * t * (n + 1)) div (10 * (2 * f))" by (rule div_mult_mult1 [symmetric]) simp
  also have "10 * (2 * f) = n * (t * (n + 1))" using f by (simp add: algebra_simps)
  also have "10 * (s * t * (n + 1)) = 10 * s * (t * (n + 1))" by (simp only: mult.assoc)
  also have "10 * s * (t * (n + 1)) div (n * (t * (n + 1))) = 10 * s div n"
    using assms(1) by (simp del: mult_Suc_right)
  finally have q: "s * t * (n + 1) div (2 * l) \<le> 10 * s div n" .
  have "lwma_ref ts ds t = max 1 (min (s * t * (n + 1) div (2 * l)) (2 ^ 64 - 1))"
    by (simp only: lwma_ref_def Let_def n_def s_def l_def f_def)
  then show ?thesis using q unfolding n_def s_def by linarith
qed


section \<open>RandomX key blocks (keyblock.rs)\<close>

definition key_seed_height :: "u64 \<Rightarrow> u64 \<Rightarrow> u64 \<Rightarrow> u64" where
  "key_seed_height height epoch lag =
    (if epoch = 0 \<or> height \<le> epoch + lag then 0
     else ((height - lag - 1) div epoch) * epoch)"

record key_block_schedule =
  kbs_epoch :: u64
  kbs_lag :: u64

definition monero_epoch_blocks :: u64 where "monero_epoch_blocks = 2048"
definition monero_epoch_lag :: u64 where "monero_epoch_lag = 64"

definition schedule_default :: key_block_schedule where
  "schedule_default = \<lparr>kbs_epoch = monero_epoch_blocks, kbs_lag = monero_epoch_lag\<rparr>"

definition seed_height :: "key_block_schedule \<Rightarrow> u64 \<Rightarrow> u64" where
  "seed_height s height = key_seed_height height (kbs_epoch s) (kbs_lag s)"

definition is_rotation_height :: "key_block_schedule \<Rightarrow> u64 \<Rightarrow> bool" where
  "is_rotation_height s height \<longleftrightarrow> height > 0 \<and> seed_height s height \<noteq> seed_height s (height - 1)"

lemma unat_key_seed_height:
  assumes "unat epoch + unat lag < 2 ^ 64"
  shows "unat (key_seed_height height epoch lag) =
    (if epoch = 0 \<or> unat height \<le> unat epoch + unat lag then 0
     else (unat height - unat lag - 1) div unat epoch * unat epoch)"
proof (cases "epoch = 0 \<or> unat height \<le> unat epoch + unat lag")
  case True
  then show ?thesis using assms by (auto simp: key_seed_height_def word_le_nat_alt unat_add_small)
next
  case False
  have e: "unat (epoch + lag) = unat epoch + unat lag" using assms by (simp add: unat_add_small)
  have pos: "0 < unat epoch" using False by (metis gr0I unsigned_eq_0_iff)
  have sub: "unat (height - lag - 1) = unat height - unat lag - 1"
  proof -
    have l: "unat (height - lag) = unat height - unat lag"
      using False by (intro unat_sub_le) (simp add: word_le_nat_alt)
    have "unat lag < unat height" using False pos by linarith
    then have "1 \<le> height - lag" by (simp add: word_le_nat_alt l)
    then show ?thesis using l by (simp add: unat_sub_le)
  qed
  have "(unat height - unat lag - 1) div unat epoch * unat epoch \<le> unat height - unat lag - 1"
    by (rule div_times_less_eq_dividend)
  also have "\<dots> \<le> unat height" by simp
  also have "\<dots> < 2 ^ 64" using unat_lt_exp [of height] by simp
  finally have "unat ((height - lag - 1) div epoch * epoch) = (unat height - unat lag - 1) div unat epoch * unat epoch"
    by (subst unat_mult_small) (simp_all add: unat_div sub)
  then show ?thesis using False e by (simp add: key_seed_height_def word_le_nat_alt)
qed

section \<open>Properties\<close>



text \<open>a window whose every solvetime is exactly the target retargets to the floor of the
  average difficulty of the window, so a steady chain does not drift.\<close>

theorem lwma_steady:
  assumes "lwma_in_range ts ds t" and "\<forall>j<length ds. unat (ts ! Suc j) = unat (ts ! j) + unat t"
  shows "unat (lwma_next_difficulty ts ds t) = max 1 (sum_list (map unat ds) div length ds)"
proof -
  have "lwma_ref (map unat ts) (map unat ds) (unat t) = max 1 (sum_list (map unat ds) div length (map unat ds))"
    using assms unat_lt_exp [where 'a = 64]
    by (intro lwma_ref_steady) (auto simp: lwma_in_range_def word_less_nat_alt)
  then show ?thesis by (simp add: lwma_exact_aux [OF assms(1)])
qed

lemma lwma_steady_witness:
  "unat (lwma_next_difficulty [0, 75, 150] [1000, 3001] 75) = 2000"
proof -
  have "lwma_in_range [0, 75, 150] [1000, 3001] 75" by (simp add: lwma_in_range_def)
  moreover have "\<forall>j<length [1000, 3001 :: u64]. unat ([0, 75, 150 :: u64] ! Suc j) = unat ([0, 75, 150 :: u64] ! j) + unat (75 :: u64)"
    by (auto simp: less_Suc_eq)
  ultimately show ?thesis
    using lwma_steady [of "[0, 75, 150]" "[1000, 3001]" 75] by (simp add: numeral_2_eq_2 [symmetric])
qed

text \<open>one retarget raises the difficulty to at most ten times the window's average, whatever the
  timestamps say, and never returns zero.\<close>

theorem lwma_rise_cap:
  assumes "lwma_in_range ts ds t" and "20 dvd length ds * (length ds + 1) * unat t"
  shows "unat (lwma_next_difficulty ts ds t) \<le> max 1 (10 * sum_list (map unat ds) div length ds)
    \<and> 0 < lwma_next_difficulty ts ds t"
proof
  have "lwma_ref (map unat ts) (map unat ds) (unat t) \<le> max 1 (10 * sum_list (map unat ds) div length (map unat ds))"
    using assms by (intro lwma_ref_rise_cap) (auto simp: lwma_in_range_def word_less_nat_alt)
  then show "unat (lwma_next_difficulty ts ds t) \<le> max 1 (10 * sum_list (map unat ds) div length ds)"
    by (simp add: lwma_exact_aux [OF assms(1)])
  have "1 \<le> unat (lwma_next_difficulty ts ds t)"
    by (simp add: lwma_exact_aux [OF assms(1)] lwma_ref_def Let_def)
  then show "0 < lwma_next_difficulty ts ds t" by (simp add: word_less_nat_alt)
qed

lemma lwma_rise_cap_witness:
  "unat (lwma_next_difficulty [7, 7, 7, 7, 7] [1000, 1000, 1000, 1000] 75)
    \<le> max 1 (10 * sum_list (map unat [1000, 1000, 1000, 1000 :: u64]) div length [1000, 1000, 1000, 1000 :: u64])"
proof -
  have "lwma_in_range [7, 7, 7, 7, 7] [1000, 1000, 1000, 1000] 75" by (simp add: lwma_in_range_def)
  moreover have "20 dvd length [1000, 1000, 1000, 1000 :: u64] * (length [1000, 1000, 1000, 1000 :: u64] + 1) * unat (75 :: u64)"
    by simp
  ultimately show ?thesis
    using lwma_rise_cap [of "[7, 7, 7, 7, 7]" "[1000, 1000, 1000, 1000]" 75] by blast
qed

text \<open>the seed height of a block is an epoch boundary buried at least \<open>lag\<close> blocks below it
  (or genesis during the first \<open>epoch + lag\<close> blocks), it lies less than one epoch below that
  bound, and it never moves back as the height grows.\<close>

theorem key_seed_height_schedule:
  assumes "0 < epoch" and "unat epoch + unat lag < 2 ^ 64" and "h \<le> h'"
  shows "unat epoch dvd unat (key_seed_height h epoch lag)
    \<and> (unat h \<le> unat epoch + unat lag \<longrightarrow> key_seed_height h epoch lag = 0)
    \<and> (unat epoch + unat lag < unat h \<longrightarrow>
         unat (key_seed_height h epoch lag) + unat lag < unat h
         \<and> unat h \<le> unat (key_seed_height h epoch lag) + unat lag + unat epoch
         \<and> epoch \<le> key_seed_height h epoch lag)
    \<and> key_seed_height h epoch lag \<le> key_seed_height h' epoch lag"
proof -
  have e: "epoch \<noteq> 0" "0 < unat epoch" using assms(1) by (auto simp: word_less_nat_alt)
  have hh: "unat h \<le> unat h'" using assms(3) by (simp add: word_le_nat_alt)
  note u = unat_key_seed_height [OF assms(2)]
  have dvd: "unat epoch dvd unat (key_seed_height h epoch lag)" by (simp add: u)
  have low: "unat h \<le> unat epoch + unat lag \<longrightarrow> key_seed_height h epoch lag = 0"
    using u [of h] by (auto simp: unsigned_eq_0_iff)
  have high: "unat (key_seed_height h epoch lag) + unat lag < unat h
      \<and> unat h \<le> unat (key_seed_height h epoch lag) + unat lag + unat epoch
      \<and> epoch \<le> key_seed_height h epoch lag" if "unat epoch + unat lag < unat h"
  proof -
    define x where "x = unat h - unat lag - 1"
    have s: "unat (key_seed_height h epoch lag) = x div unat epoch * unat epoch"
      using that e by (simp add: u x_def)
    have m: "x = x div unat epoch * unat epoch + x mod unat epoch" by simp
    have "x mod unat epoch < unat epoch" using e by simp
    moreover have "1 \<le> x div unat epoch" using that e by (simp add: x_def Suc_le_eq div_greater_zero_iff)
    then have "unat epoch \<le> x div unat epoch * unat epoch" by simp
    moreover have "unat h = x + unat lag + 1" using that by (simp add: x_def)
    ultimately show ?thesis unfolding word_le_nat_alt s using m by linarith
  qed
  have "unat (key_seed_height h epoch lag) \<le> unat (key_seed_height h' epoch lag)"
    unfolding u using hh e by (auto intro!: mult_le_mono1 div_le_mono)
  then show ?thesis using dvd low high by (simp add: word_le_nat_alt)
qed

lemma key_seed_height_schedule_witness:
  "key_seed_height 2113 2048 64 = 2048 \<and> key_seed_height 2112 2048 64 = 0
   \<and> key_seed_height 2112 2048 64 \<le> key_seed_height 2113 2048 64"
  using key_seed_height_schedule [of 2048 64 2112 2113] by (simp add: key_seed_height_def)

text \<open>for a power-of-two epoch the division form is bit for bit Monero's mask
  \<open>(height - lag - 1) & !(epoch - 1)\<close>.\<close>

theorem key_seed_height_mask:
  assumes "epoch = 2 ^ k" and "k < 64" and "epoch + lag < height"
  shows "key_seed_height height epoch lag = (height - lag - 1) AND NOT (epoch - 1)"
proof -
  define x where "x = height - lag - 1"
  have "epoch \<noteq> 0" using assms(1,2) by simp
  moreover have "\<not> height \<le> epoch + lag" using assms(3) by simp
  ultimately have "key_seed_height height epoch lag = x div 2 ^ k * 2 ^ k"
    using assms(1) by (simp add: key_seed_height_def x_def)
  also have "\<dots> = push_bit k (drop_bit k x)"
    by (simp only: push_bit_eq_mult drop_bit_eq_div)
  also have "\<dots> = x AND NOT (mask k)"
    by (rule bit_word_eqI) (auto simp: bit_simps)
  finally show ?thesis using assms(1) by (simp add: x_def mask_eq_exp_minus_1)
qed

lemma key_seed_height_mask_witness:
  "key_seed_height 5000 2048 64 = (5000 - 64 - 1) AND NOT (2048 - 1)"
  using key_seed_height_mask [of 2048 11 64 5000] by simp

end
