(* ===== verification/Weight.thy ===== *)
theory Weight
  imports Prelude
begin

text \<open>
  The dynamic block weight of \<open>qlab-devnet/src/weight.rs\<close> (median, limit, quadratic penalty, the
  two-window governor) and the posted fees of \<open>fees.rs\<close>. A division by zero is a panic and is
  \<open>None\<close>.
\<close>

section \<open>Fees\<close>

datatype arity_bucket = TwoByTwo | FourByFour | EightByEight

definition fee_marginal_units :: u64 where "fee_marginal_units = 500000"
definition fee_grace_actions :: u32 where "fee_grace_actions = 2"

definition logical_actions :: "arity_bucket \<Rightarrow> u32" where
  "logical_actions b = (case b of TwoByTwo \<Rightarrow> 2 | FourByFour \<Rightarrow> 4 | EightByEight \<Rightarrow> 8)"

definition for_arity :: "u32 \<Rightarrow> u32 \<Rightarrow> arity_bucket option" where
  "for_arity inputs outputs =
    (let n = max inputs outputs
     in if n \<le> 2 then Some TwoByTwo else if n \<le> 4 then Some FourByFour
        else if n \<le> 8 then Some EightByEight else None)"

definition wire_discriminant :: "arity_bucket \<Rightarrow> u8" where
  "wire_discriminant b = (case b of TwoByTwo \<Rightarrow> 0 | FourByFour \<Rightarrow> 1 | EightByEight \<Rightarrow> 2)"

definition from_wire_discriminant :: "u8 \<Rightarrow> arity_bucket option" where
  "from_wire_discriminant v =
    (if v = 0 then Some TwoByTwo else if v = 1 then Some FourByFour else if v = 2 then Some EightByEight else None)"

definition posted_fee :: "arity_bucket \<Rightarrow> u64" where
  "posted_fee b = (let actions = max (logical_actions b) fee_grace_actions in fee_marginal_units * ucast actions)"

section \<open>Weights\<close>

record weight_params =
  short_window :: nat
  long_window :: nat
  min_weight :: u64
  lt_cap_num :: u64
  lt_cap_den :: u64
  st_cap :: u64
  max_multiple :: u64

definition devnet_default :: weight_params where
  "devnet_default = \<lparr>short_window = 100, long_window = 5000, min_weight = 10000000, lt_cap_num = 7,
    lt_cap_den = 5, st_cap = 50, max_multiple = 2\<rparr>"

definition median :: "u64 list \<Rightarrow> u64" where
  "median xs =
    (if xs = [] then 0
     else
       let v = sort xs; n = length v
       in if n mod 2 = 0 then u64_of ((u128_of (v ! (n div 2 - 1)) + u128_of (v ! (n div 2))) div 2)
          else v ! (n div 2))"

definition weight_limit :: "u64 \<Rightarrow> weight_params \<Rightarrow> u64" where
  "weight_limit m p = sat_mul m (max_multiple p)"

definition is_weight_admissible :: "u64 \<Rightarrow> u64 \<Rightarrow> weight_params \<Rightarrow> bool" where
  "is_weight_admissible weight m p \<longleftrightarrow> weight \<le> weight_limit m p"

definition quadratic_penalty :: "u64 \<Rightarrow> u64 \<Rightarrow> u64 \<Rightarrow> weight_params \<Rightarrow> u64" where
  "quadratic_penalty base_reward weight m p =
    (if weight \<le> m \<or> m = 0 then 0
     else
       let w = min weight (weight_limit m p); d = u128_of (w - m); m2 = u128_of m * u128_of m;
           pen = sat_mul (sat_mul (u128_of base_reward) d) d div m2
       in u64_of (min pen (u128_of base_reward)))"

record weight_governor =
  params :: weight_params
  weights :: "u64 list"
  lt_weights :: "u64 list"
  lt_effective_median :: u64

definition governor_new :: "weight_params \<Rightarrow> weight_governor" where
  "governor_new p = \<lparr>params = p, weights = [], lt_weights = [], lt_effective_median = min_weight p\<rparr>"

definition push_block :: "weight_governor \<Rightarrow> u64 \<Rightarrow> weight_governor option" where
  "push_block g weight =
    (if lt_cap_den (params g) = 0 then None
     else
       let cap = u64_of (u128_of (lt_effective_median g) * u128_of (lt_cap_num (params g)) div u128_of (lt_cap_den (params g)));
           lt_weight = min weight cap;
           lts = lt_weights g @ [lt_weight];
           med = median (last_n (long_window (params g)) lts)
       in Some (g\<lparr>weights := weights g @ [weight], lt_weights := lts,
                  lt_effective_median := max med (min_weight (params g))\<rparr>))"

definition short_term_median :: "weight_governor \<Rightarrow> u64" where
  "short_term_median g = median (last_n (short_window (params g)) (weights g))"

definition effective_median :: "weight_governor \<Rightarrow> u64" where
  "effective_median g =
    (let short_floored = max (short_term_median g) (min_weight (params g));
         st_ceiling = sat_mul (lt_effective_median g) (st_cap (params g))
     in min short_floored st_ceiling)"

section \<open>The median\<close>

lemma unat_avg:
  "unat (u64_of ((u128_of a + u128_of b) div 2)) = (unat a + unat b) div 2"
proof -
  have ab: "unat a + unat b < 2 ^ 65" using unat_lt_exp [of a] unat_lt_exp [of b] by simp
  then have "unat (u128_of a + u128_of b) = unat a + unat b" by (subst unat_add_small) simp_all
  then have "unat ((u128_of a + u128_of b) div 2) = (unat a + unat b) div 2" by (simp add: unat_div)
  moreover have "(unat a + unat b) div 2 < 2 ^ 64" using ab by simp
  ultimately show ?thesis by (simp add: unat_u64_of)
qed

lemma sorted_count_below:
  assumes "sorted v" and "k < length v" and "m \<le> v ! k"
  shows "length (filter (\<lambda>x. x < m) v) \<le> k"
proof -
  have "filter (\<lambda>x. x < m) (drop k v) = []"
  proof (rule filter_False, rule ballI)
    fix x assume "x \<in> set (drop k v)"
    then obtain i where "i < length v - k" "x = v ! (k + i)" by (auto simp: in_set_conv_nth)
    then have "v ! k \<le> x" using assms(1) by (simp add: sorted_nth_mono)
    with assms(3) show "\<not> x < m" by simp
  qed
  then have "filter (\<lambda>x. x < m) v = filter (\<lambda>x. x < m) (take k v)"
    by (metis append.right_neutral append_take_drop_id filter_append)
  then show ?thesis using length_filter_le [of _ "take k v"] by (metis length_take min.boundedE)
qed

lemma sorted_count_above:
  assumes "sorted v" and "k < length v" and "v ! k \<le> m"
  shows "length (filter (\<lambda>x. m < x) v) \<le> length v - Suc k"
proof -
  have "filter (\<lambda>x. m < x) (take (Suc k) v) = []"
  proof (rule filter_False, rule ballI)
    fix x assume "x \<in> set (take (Suc k) v)"
    then obtain i where "i < Suc k" "x = v ! i" by (auto simp: in_set_conv_nth)
    then have "x \<le> v ! k" using assms(1,2) by (simp add: sorted_nth_mono)
    with assms(3) show "\<not> m < x" by simp
  qed
  then have "filter (\<lambda>x. m < x) v = filter (\<lambda>x. m < x) (drop (Suc k) v)"
    by (metis append_Nil append_take_drop_id filter_append)
  then show ?thesis using length_filter_le [of _ "drop (Suc k) v"] by (metis length_drop)
qed

lemma length_filter_sort: "length (filter p (sort xs)) = length (filter p xs)"
  by (metis filter_sort length_sort map_ident sort_key_def)

lemma median_bounds:
  assumes "xs \<noteq> []"
  defines "n \<equiv> length xs"
  shows "(if n mod 2 = 0 then sort xs ! (n div 2 - 1) else sort xs ! (n div 2)) \<le> median xs"
    and "median xs \<le> sort xs ! (n div 2)"
proof -
  have "sort xs ! (n div 2 - 1) \<le> sort xs ! (n div 2)"
    using assms by (intro sorted_nth_mono) simp_all
  then have "unat (sort xs ! (n div 2 - 1)) \<le> unat (sort xs ! (n div 2))" by (simp add: word_le_nat_alt)
  then show "(if n mod 2 = 0 then sort xs ! (n div 2 - 1) else sort xs ! (n div 2)) \<le> median xs"
    and "median xs \<le> sort xs ! (n div 2)"
    using assms(1) by (auto simp: median_def Let_def n_def word_le_nat_alt unat_avg)
qed

section \<open>Properties\<close>

text \<open>the median is a median: at most half of the samples are strictly below it and at most half
  strictly above it, also when the count is even and the two middle samples are averaged in 128
  bits.\<close>

theorem median_middle:
  assumes "xs \<noteq> []"
  shows "2 * length (filter (\<lambda>x. x < median xs) xs) \<le> length xs
    \<and> 2 * length (filter (\<lambda>x. median xs < x) xs) \<le> length xs"
proof -
  define n where "n = length xs"
  define lo where "lo = (if n mod 2 = 0 then n div 2 - 1 else n div 2)"
  have n: "0 < n" using assms by (simp add: n_def)
  have lo: "lo < n" using n by (auto simp: lo_def)
  have ge: "sort xs ! lo \<le> median xs" using median_bounds(1) [OF assms] by (simp add: lo_def n_def if_distrib split: if_splits)
  have le: "median xs \<le> sort xs ! (n div 2)" using median_bounds(2) [OF assms] by (simp add: n_def)
  have "length (filter (\<lambda>x. x < median xs) (sort xs)) \<le> n div 2"
    using n le by (intro sorted_count_below) (simp_all add: n_def)
  moreover have "length (filter (\<lambda>x. median xs < x) (sort xs)) \<le> n - Suc lo"
    using lo ge sorted_count_above [of "sort xs" lo "median xs"] by (simp add: n_def)
  moreover have "2 * (n - Suc lo) \<le> n" using n by (auto simp: lo_def)
  ultimately show ?thesis by (simp add: length_filter_sort n_def [symmetric])
qed

lemma median_middle_witness:
  "2 * length (filter (\<lambda>x. x < median [7, 1, 4, 4]) [7, 1, 4, 4]) \<le> length [7, 1, 4, 4 :: u64]"
  by (rule median_middle [THEN conjunct1]) simp

text \<open>the penalty is the exact floor of \<open>base * (w - m)^2 / m^2\<close> at the weight capped to the limit,
  never more than the base reward and zero up to the median. The hypotheses: the limit is at least
  the median, and the product fits in 128 bits (the saturating product is exact).\<close>

theorem penalty_exact:
  assumes "1 \<le> max_multiple p" and "unat base * (unat (min w (weight_limit m p)) - unat m) ^ 2 < 2 ^ 128"
  shows "unat (quadratic_penalty base w m p) =
    (if w \<le> m \<or> m = 0 then 0
     else min (unat base) (unat base * (unat (min w (weight_limit m p)) - unat m) ^ 2 div (unat m) ^ 2))"
proof (cases "w \<le> m \<or> m = 0")
  case True
  then show ?thesis by (auto simp: quadratic_penalty_def)
next
  case False
  define c where "c = min w (weight_limit m p)"
  define d where "d = unat c - unat m"
  have "unat m * 1 \<le> unat m * unat (max_multiple p)"
    using assms(1) by (intro mult_le_mono2) (simp add: word_le_nat_alt)
  then have "m \<le> weight_limit m p"
    using unat_lt_exp [of m] by (simp add: weight_limit_def word_le_nat_alt unat_sat_mul)
  then have mc: "m \<le> c" using False by (auto simp: c_def)
  have bd: "unat base * d * d < 2 ^ 128" using assms(2) by (simp add: c_def d_def power2_eq_square algebra_simps)
  have ud: "unat (c - m) = d" using mc by (simp add: d_def unat_sub_le)
  have "d < 2 ^ 64" unfolding d_def using unat_lt_exp [of c] by simp
  then have "unat base * d < 2 ^ 64 * 2 ^ 64" using unat_lt_exp [of base] by (intro mult_strict_mono') simp_all
  then have p1: "unat (sat_mul (u128_of base) (u128_of (c - m))) = unat base * d"
    by (simp add: unat_sat_mul ud)
  have p2: "unat (sat_mul (sat_mul (u128_of base) (u128_of (c - m))) (u128_of (c - m))) = unat base * d * d"
    using bd by (simp add: unat_sat_mul [of "sat_mul _ _"] p1 ud)
  have "unat m * unat m < 2 ^ 64 * 2 ^ 64" using unat_lt_exp [of m] by (intro mult_strict_mono') simp_all
  then have m2: "unat (u128_of m * u128_of m) = unat m * unat m" by (subst unat_mult_small) simp_all
  have "min (unat base * d * d div (unat m * unat m)) (unat base) < 2 ^ 64"
    using unat_lt_exp [of base] by (simp add: min_less_iff_disj)
  then have "unat (quadratic_penalty base w m p) = min (unat base * d * d div (unat m * unat m)) (unat base)"
    using False by (simp add: quadratic_penalty_def Let_def c_def [symmetric] unat_u64_of unat_min unat_div p2 m2)
  then show ?thesis using False by (simp add: c_def [symmetric] d_def [symmetric] power2_eq_square mult.assoc min.commute)
qed

lemma penalty_exact_witness: "unat (quadratic_penalty 1000 15 10 devnet_default) = 250"
  by (subst penalty_exact)
    (simp_all add: devnet_default_def weight_limit_def sat_mul_def min_def word_le_nat_alt word_less_nat_alt)

inductive governor_reach :: "weight_params \<Rightarrow> weight_governor \<Rightarrow> bool" for p where
  Governor_New: "governor_reach p (governor_new p)"
| Governor_Push: "governor_reach p g \<Longrightarrow> push_block g w = Some g' \<Longrightarrow> governor_reach p g'"

lemma governor_invariant:
  "governor_reach p g \<Longrightarrow> params g = p \<and> min_weight p \<le> lt_effective_median g \<and> length (lt_weights g) = length (weights g)"
  by (induction rule: governor_reach.induct) (auto simp: governor_new_def push_block_def Let_def split: if_splits)

text \<open>the governor's bounds on every reachable state: the long-term median never falls below the
  floor, and the effective median lies between the floor and \<open>st_cap\<close> times the long-term median, so
  a flood of heavy blocks in the short window cannot lift the limit beyond that.\<close>

theorem governor_bounds:
  assumes "governor_reach p g" and "1 \<le> st_cap p"
  shows "min_weight p \<le> lt_effective_median g \<and> min_weight p \<le> effective_median g
    \<and> unat (effective_median g) \<le> unat (lt_effective_median g) * unat (st_cap p)
    \<and> (lt_cap_den p \<noteq> 0 \<longrightarrow> push_block g w \<noteq> None)"
proof -
  note inv = governor_invariant [OF assms(1)]
  have one: "1 \<le> unat (st_cap p)" using assms(2) by (simp add: word_le_nat_alt)
  have "unat (lt_effective_median g) * 1 \<le> unat (lt_effective_median g) * unat (st_cap p)"
    using one by (rule mult_le_mono2)
  then have "lt_effective_median g \<le> sat_mul (lt_effective_median g) (st_cap p)"
    using unat_lt_exp [of "lt_effective_median g"] by (simp add: word_le_nat_alt unat_sat_mul)
  then have "min_weight p \<le> sat_mul (lt_effective_median g) (st_cap p)" using inv by (blast intro: order_trans)
  then have "min_weight p \<le> effective_median g"
    using inv by (simp add: effective_median_def Let_def le_max_iff_disj)
  moreover have "unat (effective_median g) \<le> unat (lt_effective_median g) * unat (st_cap p)"
  proof -
    have "effective_median g \<le> sat_mul (lt_effective_median g) (st_cap p)"
      using inv by (simp add: effective_median_def Let_def)
    then show ?thesis by (simp add: word_le_nat_alt unat_sat_mul)
  qed
  ultimately show ?thesis using inv by (simp add: push_block_def Let_def)
qed

lemma governor_bounds_witness: "min_weight devnet_default \<le> effective_median (governor_new devnet_default)"
proof -
  have "1 \<le> st_cap devnet_default" by (simp add: devnet_default_def)
  from governor_bounds [OF Governor_New this] show ?thesis by blast
qed

end
