(* ===== verification/Emission.thy ===== *)
theory Emission
  imports Prelude Complex_Main
begin

text \<open>
  The exact emission schedule of \<open>qlab-devnet/src/emission_exact.rs\<close>: 128-bit fixed-point fractions,
  the power of the decay ratio by square and multiply, a 256-bit integer in four limbs, and the
  cumulative supply with its tail. Each arithmetic routine is shown to compute the exact integer it
  stands for, so the schedule's value is a formula over the naturals. Assertions are \<open>None\<close>.
\<close>

definition tail_activation_height :: u64 where "tail_activation_height = 4503536"
definition tail_bessel :: u64 where "tail_bessel = 122441000"
definition s_atomic_at_tail_activation :: u64 where "s_atomic_at_tail_activation = 5921523645798773"
definition d_num :: u128 where "d_num = 8237"
definition decimal_den :: u128 where "decimal_den = 10000000000"
definition q_num :: u128 where "q_num = decimal_den - d_num"
definition five_pow_20 :: u64 where "five_pow_20 = 95367431640625"
definition frac_bits :: nat where "frac_bits = 128"
definition shift_bits :: nat where "shift_bits = frac_bits - 19"

definition frac_shl_128 :: "u128 \<Rightarrow> u128 \<Rightarrow> u128" where
  "frac_shl_128 a b =
    (let hi = push_bit 64 a div b; rem = push_bit 64 a mod b
     in push_bit 64 hi OR (push_bit 64 rem div b))"

definition q_fix :: u128 where "q_fix = frac_shl_128 q_num decimal_den"

definition mul_frac :: "u128 \<Rightarrow> u128 \<Rightarrow> u128" where
  "mul_frac a b =
    (let low = mask 64;
         a_lo = a AND low; a_hi = drop_bit 64 a; b_lo = b AND low; b_hi = drop_bit 64 b;
         ll = a_lo * b_lo; lh = a_lo * b_hi; hl = a_hi * b_lo; hh = a_hi * b_hi;
         carry = drop_bit 64 ll + (lh AND low) + (hl AND low)
     in hh + drop_bit 64 lh + drop_bit 64 hl + drop_bit 64 carry)"

text \<open>The loop of \<open>q_pow\<close>, from bit \<open>i - 1\<close> down; and the number of significant bits.\<close>

fun q_pow_loop :: "u64 \<Rightarrow> nat \<Rightarrow> u128 \<Rightarrow> u128" where
  "q_pow_loop h 0 acc = acc"
| "q_pow_loop h (Suc i) acc =
    (let acc1 = mul_frac acc acc
     in q_pow_loop h i (if drop_bit i h AND 1 = 1 then mul_frac acc1 q_fix else acc1))"

fun bit_length :: "nat \<Rightarrow> nat" where
  "bit_length n = (if n = 0 then 0 else Suc (bit_length (n div 2)))"

declare bit_length.simps [simp del]

definition q_pow :: "u64 \<Rightarrow> u128" where
  "q_pow h = (let bits = bit_length (unat h) in q_pow_loop h (bits - 1) q_fix)"

text \<open>\<open>U256\<close>, least significant limb first.\<close>

datatype u256 = U256 u64 u64 u64 u64

fun u256_val :: "u256 \<Rightarrow> nat" where
  "u256_val (U256 a b c d) = unat a + 2 ^ 64 * unat b + 2 ^ 128 * unat c + 2 ^ 192 * unat d"

definition from_mul :: "u128 \<Rightarrow> u64 \<Rightarrow> u256" where
  "from_mul x m =
    (let w0 = u128_of (u64_of x) * u128_of m;
         w1 = u128_of (u64_of (drop_bit 64 x)) * u128_of m + drop_bit 64 w0;
         carry = drop_bit 64 w1
     in U256 (u64_of w0) (u64_of w1) (u64_of carry) (u64_of (drop_bit 64 carry)))"

definition div_step :: "u128 \<Rightarrow> u64 \<Rightarrow> u64 \<Rightarrow> u64 \<times> u128" where
  "div_step rem limb d =
    (let cur = push_bit 64 rem OR u128_of limb in (u64_of (cur div u128_of d), cur mod u128_of d))"

definition div_u64 :: "u256 \<Rightarrow> u64 \<Rightarrow> u256 option" where
  "div_u64 x d =
    (if d = 0 then None
     else (case x of U256 l0 l1 l2 l3 \<Rightarrow>
       let (o3, r3) = div_step 0 l3 d; (o2, r2) = div_step r3 l2 d;
           (o1, r1) = div_step r2 l1 d; (o0, r0) = div_step r1 l0 d
       in Some (U256 o0 o1 o2 o3)))"

fun add_limbs :: "u64 list \<Rightarrow> u64 list \<Rightarrow> bool \<Rightarrow> u64 list \<times> bool" where
  "add_limbs (x # xs) (y # ys) carry =
    (let a = x + y; c1 = (a < x); b = a + (if carry then 1 else 0); c2 = (b < a);
         (rest, c) = add_limbs xs ys (c1 \<or> c2)
     in (b # rest, c))"
| "add_limbs _ _ carry = ([], carry)"

fun shr_limbs :: "nat \<Rightarrow> u64 list \<Rightarrow> u64 list" where
  "shr_limbs off [] = []"
| "shr_limbs off (x # xs) =
    (let w = drop_bit off x
     in (if off \<noteq> 0 \<and> xs \<noteq> [] then w OR push_bit (64 - off) (hd xs) else w) # shr_limbs off xs)"

fun u256_limbs :: "u256 \<Rightarrow> u64 list" where
  "u256_limbs (U256 a b c d) = [a, b, c, d]"

definition shr_round :: "u256 \<Rightarrow> nat \<Rightarrow> u64 option" where
  "shr_round x bits =
    (let half = (replicate 4 0)[(bits - 1) div 64 := push_bit ((bits - 1) mod 64) 1];
         (sum, carry) = add_limbs (u256_limbs x) half False
     in if carry then None
        else
          let limb = bits div 64; off = bits mod 64;
              words = shr_limbs off (drop limb sum) @ replicate limb 0
          in if words ! 1 = 0 \<and> words ! 2 = 0 \<and> words ! 3 = 0 then Some (words ! 0) else None)"

definition s_atomic_geometric :: "u64 \<Rightarrow> u64 option" where
  "s_atomic_geometric h =
    (if h = 0 then Some 0
     else
       let p = q_pow h; one_minus = 0 - p
       in (case div_u64 (from_mul one_minus five_pow_20) (u64_of d_num) of
             None \<Rightarrow> None
           | Some x \<Rightarrow> shr_round x shift_bits))"

definition s_atomic_exact :: "u64 \<Rightarrow> u64 option" where
  "s_atomic_exact h =
    (if h \<le> tail_activation_height then s_atomic_geometric h
     else Some (sat_add s_atomic_at_tail_activation (sat_mul tail_bessel (h - tail_activation_height))))"

definition coinbase_exact :: "u64 \<Rightarrow> u64 option" where
  "coinbase_exact h =
    (if h \<ge> tail_activation_height then Some tail_bessel
     else (case (s_atomic_exact (h + 1), s_atomic_exact h) of
             (Some a, Some b) \<Rightarrow> Some (a - b)
           | _ \<Rightarrow> None))"

section \<open>Exactness of the routines\<close>

lemma unat_mask_and: "unat (a AND mask 64 :: u128) = unat a mod 2 ^ 64"
  by (rule unat_and_mask)

text \<open>The upper half of the product, from the four partial products.\<close>

lemma split64: "unat (a :: u128) = unat a mod 2 ^ 64 + 2 ^ 64 * (unat a div 2 ^ 64)"
  by (metis add.commute mult_div_mod_eq)

lemma high_half_nat:
  fixes al ah bl bh :: nat
  defines "B \<equiv> (2::nat) ^ 64"
  assumes "al < B" and "ah < B" and "bl < B" and "bh < B"
  shows "(al + B * ah) * (bl + B * bh) div (B * B)
    = ah * bh + al * bh div B + ah * bl div B + (al * bl div B + al * bh mod B + ah * bl mod B) div B"
proof -
  have B: "0 < B" by (simp add: B_def)
  define ll lh hl where "ll = al * bl" and "lh = al * bh" and "hl = ah * bl"
  define c where "c = ll div B + lh mod B + hl mod B"
  have "(al + B * ah) * (bl + B * bh) = ll + B * lh + B * hl + B * B * (ah * bh)"
    by (simp add: ll_def lh_def hl_def algebra_simps)
  also have "\<dots> = ll mod B + B * c + B * B * (lh div B + hl div B + ah * bh)"
  proof -
    have "ll = ll mod B + B * (ll div B)" "lh = lh mod B + B * (lh div B)" "hl = hl mod B + B * (hl div B)"
      by (simp_all add: mult_div_mod_eq add.commute)
    then show ?thesis unfolding c_def by (metis (no_types) distrib_left mult.assoc add.assoc add.left_commute add.commute)
  qed
  also have "\<dots> = (ll mod B + B * (c mod B)) + B * B * (c div B + lh div B + hl div B + ah * bh)"
  proof -
    have "c = c mod B + B * (c div B)" by (simp add: mult_div_mod_eq add.commute)
    then have "B * c = B * (c mod B) + B * B * (c div B)" by (metis distrib_left mult.assoc)
    then show ?thesis by (simp add: algebra_simps)
  qed
  finally have eq: "(al + B * ah) * (bl + B * bh)
      = (ll mod B + B * (c mod B)) + B * B * (c div B + lh div B + hl div B + ah * bh)" .
  have "ll mod B + B * (c mod B) < B * B"
  proof -
    have "ll mod B < B" "c mod B + 1 \<le> B" using B by (simp_all add: Suc_leI)
    then have "B * (c mod B + 1) \<le> B * B" by (intro mult_le_mono2)
    with \<open>ll mod B < B\<close> show ?thesis by simp
  qed
  then show ?thesis unfolding eq using B by (simp add: c_def ll_def lh_def hl_def)
qed

lemma mul_frac_exact: "unat (mul_frac a b) = unat a * unat b div 2 ^ 128"
proof -
  define B where "B = (2::nat) ^ 64"
  define al ah bl bh where "al = unat a mod B" and "ah = unat a div B" and "bl = unat b mod B" and "bh = unat b div B"
  have lt: "al < B" "bl < B" by (simp_all add: al_def bl_def B_def)
  have hi: "ah < B" "bh < B"
    using unat_lt_exp [of a] unat_lt_exp [of b] by (simp_all add: ah_def bh_def B_def less_mult_imp_div_less)
  have BB: "B * B = 2 ^ 128" by (simp add: B_def)
  have prod: "x * y < 2 ^ 128" if "x < B" "y < B" for x y
    using mult_strict_mono' [OF that] by (simp add: BB)
  have lo_w: "unat (a AND mask 64) = al" "unat (b AND mask 64) = bl"
    by (simp_all add: unat_and_mask al_def bl_def B_def)
  have hi_w: "unat (drop_bit 64 a) = ah" "unat (drop_bit 64 b) = bh"
    by (simp_all only: unat_drop_bit ah_def bh_def B_def)
  have ll: "unat ((a AND mask 64) * (b AND mask 64)) = al * bl" using prod lt by (subst unat_mult_small) (simp_all add: lo_w)
  have lh: "unat ((a AND mask 64) * drop_bit 64 b) = al * bh" using prod lt hi by (subst unat_mult_small) (simp_all add: lo_w hi_w)
  have hl: "unat (drop_bit 64 a * (b AND mask 64)) = ah * bl" using prod lt hi by (subst unat_mult_small) (simp_all add: lo_w hi_w)
  have hh: "unat (drop_bit 64 a * drop_bit 64 b) = ah * bh" using prod hi by (subst unat_mult_small) (simp_all add: hi_w)
  define carry where "carry = al * bl div B + al * bh mod B + ah * bl mod B"
  have cb: "al * bl div B < B" using mult_strict_mono' [OF lt] by (simp add: less_mult_imp_div_less)
  then have c3: "carry < 2 ^ 128" "al * bl div B + al * bh mod B < 2 ^ 128"
    using mod_less_divisor [of B "al * bh"] mod_less_divisor [of B "ah * bl"] by (simp_all add: carry_def B_def)
  define wc where "wc = drop_bit 64 ((a AND mask 64) * (b AND mask 64)) + ((a AND mask 64) * drop_bit 64 b AND mask 64)
    + (drop_bit 64 a * (b AND mask 64) AND mask 64)"
  have s1: "unat (drop_bit 64 ((a AND mask 64) * (b AND mask 64)) + ((a AND mask 64) * drop_bit 64 b AND mask 64))
      = al * bl div B + al * bh mod B"
    using c3(2) by (subst unat_add_small) (simp_all add: unat_drop_bit unat_and_mask ll lh B_def del: unat_mult_small)
  have wc: "unat wc = carry"
    using c3(1) unfolding wc_def
    by (subst unat_add_small) (simp_all add: s1 unat_and_mask hl carry_def B_def)
  define total where "total = ah * bh + al * bh div B + ah * bl div B + carry div B"
  have a_split: "unat a = al + B * ah" and b_split: "unat b = bl + B * bh"
    by (simp_all add: al_def ah_def bl_def bh_def)
  have eq: "unat a * unat b div 2 ^ 128 = total"
    unfolding a_split b_split BB [symmetric] total_def carry_def
    using high_half_nat [of al ah bl bh] lt hi by (simp add: B_def)
  have "unat a * unat b < 2 ^ 128 * 2 ^ 128"
    using unat_lt_exp [of a] unat_lt_exp [of b] by (intro mult_strict_mono') simp_all
  then have small: "total < 2 ^ 128" unfolding eq [symmetric] by (rule less_mult_imp_div_less)
  have r: "mul_frac a b = drop_bit 64 a * drop_bit 64 b + drop_bit 64 ((a AND mask 64) * drop_bit 64 b)
      + drop_bit 64 (drop_bit 64 a * (b AND mask 64)) + drop_bit 64 wc"
    by (simp add: mul_frac_def Let_def wc_def)
  have p1: "unat (drop_bit 64 a * drop_bit 64 b + drop_bit 64 ((a AND mask 64) * drop_bit 64 b)) = ah * bh + al * bh div B"
    using small by (subst unat_add_small) (simp_all add: hh unat_drop_bit lh B_def total_def)
  have p2: "unat (drop_bit 64 a * drop_bit 64 b + drop_bit 64 ((a AND mask 64) * drop_bit 64 b)
      + drop_bit 64 (drop_bit 64 a * (b AND mask 64))) = ah * bh + al * bh div B + ah * bl div B"
    using small by (subst unat_add_small) (simp_all add: p1 unat_drop_bit hl B_def total_def)
  have "unat (mul_frac a b) = total"
    using small unfolding r by (subst unat_add_small) (simp_all add: p2 unat_drop_bit wc B_def total_def)
  with eq show ?thesis by simp
qed

lemma from_mul_exact: "u256_val (from_mul x m) = unat x * unat m"
proof -
  define B where "B = (2::nat) ^ 64"
  define x0 x1 where "x0 = unat x mod B" and "x1 = unat x div B"
  have lt: "x0 < B" "unat m < B" using unat_lt_exp [of m] by (simp_all add: x0_def B_def)
  have x1: "x1 < B" using unat_lt_exp [of x] by (simp add: x1_def B_def less_mult_imp_div_less)
  have BB: "B * B = 2 ^ 128" by (simp add: B_def)
  have lo: "unat (u64_of x) = x0" by (simp add: unat_u64_of x0_def B_def)
  have hi: "unat (u64_of (drop_bit 64 x)) = x1"
    using x1 by (simp add: unat_u64_of unat_drop_bit x1_def B_def)
  define w0 w1 where "w0 = x0 * unat m" and "w1 = x1 * unat m + w0 div B"
  have w0_lt: "w0 < B * B" unfolding w0_def using lt by (intro mult_strict_mono') simp_all
  have w0b: "w0 div B < B" using w0_lt by (simp add: less_mult_imp_div_less)
  have "x1 * unat m \<le> (B - 1) * (B - 1)" using x1 lt by (intro mult_le_mono) simp_all
  then have "w1 \<le> (B - 1) * (B - 1) + (B - 1)" using w0b by (simp add: w1_def)
  also have "\<dots> < B * B" by (simp add: B_def)
  finally have w1_lt: "w1 < B * B" .
  have u0: "unat (u128_of (u64_of x) * u128_of m) = w0"
    using w0_lt by (subst unat_mult_small) (simp_all add: lo w0_def BB)
  have "x1 * unat m < B * B" using x1 lt by (intro mult_strict_mono') simp_all
  then have "unat (u128_of (u64_of (drop_bit 64 x)) * u128_of m) = x1 * unat m"
    by (subst unat_mult_small) (simp_all add: hi BB)
  then have u1: "unat (u128_of (u64_of (drop_bit 64 x)) * u128_of m + drop_bit 64 (u128_of (u64_of x) * u128_of m)) = w1"
    using w1_lt by (subst unat_add_small) (simp_all add: unat_drop_bit u0 w1_def B_def)
  have c: "w1 div B < B" using w1_lt by (simp add: less_mult_imp_div_less)
  have "u256_val (from_mul x m) = w0 mod B + B * (w1 mod B) + B * B * (w1 div B)"
    using c by (simp add: from_mul_def Let_def unat_u64_of u0 u1 unat_drop_bit B_def)
  also have "\<dots> = w0 mod B + B * w1"
    by (simp add: mult.assoc flip: distrib_left)
  also have "\<dots> = w0 + B * (x1 * unat m)"
    unfolding w1_def by (simp add: distrib_left)
  also have "\<dots> = (x0 + B * x1) * unat m" by (simp add: w0_def algebra_simps)
  finally show ?thesis by (simp add: x0_def x1_def)
qed

lemma div_step_exact:
  assumes "unat rm < unat d" and "div_step rm limb d = (q, rm')"
  shows "unat q = (unat rm * 2 ^ 64 + unat limb) div unat d \<and> unat rm' = (unat rm * 2 ^ 64 + unat limb) mod unat d"
proof -
  have d: "unat d < 2 ^ 64" "0 < unat d" using unat_lt_exp [of d] assms(1) by auto
  have "unat rm < 2 ^ 64" using assms(1) d by linarith
  then have sh: "unat rm * 2 ^ 64 < 2 ^ 128" by simp
  have comm: "push_bit 64 rm OR u128_of limb = u128_of limb OR push_bit 64 rm" by (rule or.commute)
  have "unat (u128_of limb) < 2 ^ 64" using unat_lt_exp [of limb] by simp
  then have "unat (u128_of limb OR push_bit 64 rm) = unat (u128_of limb) + unat rm * 2 ^ 64"
    using sh by (intro unat_or_push) simp_all
  then have cur: "unat (push_bit 64 rm OR u128_of limb) = unat rm * 2 ^ 64 + unat limb"
    unfolding comm by simp
  have "unat rm * 2 ^ 64 + unat limb < unat d * 2 ^ 64"
  proof -
    have "(unat rm + 1) * 2 ^ 64 \<le> unat d * 2 ^ 64" using assms(1) by (intro mult_le_mono1) simp
    then show ?thesis using unat_lt_exp [of limb] by simp
  qed
  then have q: "(unat rm * 2 ^ 64 + unat limb) div unat d < 2 ^ 64"
    by (simp add: less_mult_imp_div_less mult.commute)
  show ?thesis
    using assms(2) q by (auto simp: div_step_def Let_def unat_u64_of unat_div unat_mod cur)
qed

lemma div_u64_exact:
  assumes "0 < d"
  shows "\<exists>y. div_u64 x d = Some y \<and> u256_val y = u256_val x div unat d"
proof (cases x)
  case (U256 l0 l1 l2 l3)
  have d: "0 < unat d" using assms by (simp add: word_less_nat_alt)
  obtain o3 r3 where s3: "div_step 0 l3 d = (o3, r3)" by fastforce
  obtain o2 r2 where s2: "div_step r3 l2 d = (o2, r2)" by fastforce
  obtain o1 r1 where s1: "div_step r2 l1 d = (o1, r1)" by fastforce
  obtain o0 r0 where s0: "div_step r1 l0 d = (o0, r0)" by fastforce
  define B where "B = (2::nat) ^ 64"
  note e3 = div_step_exact [OF _ s3, folded B_def] and e2 = div_step_exact [OF _ s2, folded B_def]
    and e1 = div_step_exact [OF _ s1, folded B_def] and e0 = div_step_exact [OF _ s0, folded B_def]
  have b3: "unat r3 < unat d" using e3 d by simp
  have b2: "unat r2 < unat d" using e2 b3 d by simp
  have b1: "unat r1 < unat d" using e1 b2 d by simp
  have b0: "unat r0 < unat d" using e0 b1 d by simp
  have v3: "unat l3 = unat d * unat o3 + unat r3" using e3 d by simp
  have v2: "unat r3 * B + unat l2 = unat d * unat o2 + unat r2" using e2 b3 by simp
  have v1: "unat r2 * B + unat l1 = unat d * unat o1 + unat r1" using e1 b2 by simp
  have v0: "unat r1 * B + unat l0 = unat d * unat o0 + unat r0" using e0 b1 by simp
  have B2: "(2::nat) ^ 128 = B * B" "(2::nat) ^ 192 = B * B * B" by (simp_all add: B_def)
  have "u256_val x = unat l0 + B * (unat l1 + B * (unat l2 + B * unat l3))"
    unfolding U256 by (simp only: u256_val.simps B2 B_def [symmetric]) (simp add: algebra_simps)
  also have "unat l2 + B * unat l3 = unat d * (unat o2 + B * unat o3) + unat r2"
    using v2 by (simp add: v3 algebra_simps)
  also have "unat l1 + B * (unat d * (unat o2 + B * unat o3) + unat r2)
      = unat d * (unat o1 + B * (unat o2 + B * unat o3)) + unat r1"
    using v1 by (simp add: algebra_simps)
  also have "unat l0 + B * (unat d * (unat o1 + B * (unat o2 + B * unat o3)) + unat r1)
      = unat d * (unat o0 + B * (unat o1 + B * (unat o2 + B * unat o3))) + unat r0"
    using v0 by (simp add: algebra_simps)
  also have "unat o0 + B * (unat o1 + B * (unat o2 + B * unat o3)) = u256_val (U256 o0 o1 o2 o3)"
    by (simp only: u256_val.simps B2 B_def [symmetric]) (simp add: algebra_simps)
  finally have "u256_val (U256 o0 o1 o2 o3) = u256_val x div unat d" using b0 by simp
  moreover have "div_u64 x d = Some (U256 o0 o1 o2 o3)"
    using assms by (simp add: div_u64_def U256 s3 s2 s1 s0)
  ultimately show ?thesis by blast
qed

text \<open>The value of a list of limbs.\<close>

fun lval :: "u64 list \<Rightarrow> nat" where
  "lval [] = 0"
| "lval (x # xs) = unat x + 2 ^ 64 * lval xs"

lemma lval_u256: "lval (u256_limbs x) = u256_val x"
  by (cases x) simp

lemma lval_bound: "lval xs < 2 ^ (64 * length xs)"
proof (induction xs)
  case (Cons x xs)
  have "2 ^ 64 * (lval xs + 1) \<le> 2 ^ 64 * (2::nat) ^ (64 * length xs)" using Cons by (intro mult_le_mono2) simp
  then show ?case using unat_lt_exp [of x] by (simp add: power_add)
qed simp

lemma lval_zeros: "lval (replicate n 0) = 0"
  by (induction n) simp_all

lemma lval_single: "k < n \<Longrightarrow> lval ((replicate n 0)[k := w]) = 2 ^ (64 * k) * unat w"
proof (induction n arbitrary: k)
  case (Suc n)
  then show ?case by (cases k) (simp_all add: lval_zeros power_add mult.assoc)
qed simp

lemma unat_add_carry:
  "unat (x + y :: u64) + (if x + y < x then 2 ^ 64 else 0) = unat x + unat y"
proof (cases "unat x + unat y < 2 ^ 64")
  case True
  then have "unat (x + y) = unat x + unat y" by (intro unat_add_small) simp
  then show ?thesis by (simp add: word_less_nat_alt)
next
  case False
  have "unat (x + y) = (unat x + unat y) mod 2 ^ 64" by (simp add: unat_word_ariths)
  also have "\<dots> = unat x + unat y - 2 ^ 64"
    using False unat_lt_exp [of x] unat_lt_exp [of y] by (subst mod_if) simp
  finally have u: "unat (x + y) = unat x + unat y - 2 ^ 64" .
  then have "x + y < x" using False unat_lt_exp [of y] by (simp add: word_less_nat_alt)
  with u False show ?thesis by simp
qed

lemma add_limbs_val:
  "length xs = length ys \<Longrightarrow> add_limbs xs ys c = (zs, c') \<Longrightarrow>
    lval zs + (if c' then 2 ^ (64 * length xs) else 0) = lval xs + lval ys + (if c then 1 else 0) \<and> length zs = length xs"
proof (induction xs ys c arbitrary: zs c' rule: add_limbs.induct)
  case (1 x xs y ys carry)
  define a where "a = x + y"
  define c1 where "c1 = (a < x)"
  define b where "b = a + (if carry then 1 else 0)"
  define c2 where "c2 = (b < a)"
  obtain rest c where r: "add_limbs xs ys (c1 \<or> c2) = (rest, c)" by fastforce
  have zs: "zs = b # rest" "c' = c" using 1(3) r by (simp_all add: a_def c1_def b_def c2_def Let_def)
  have ih: "lval rest + (if c then 2 ^ (64 * length xs) else 0) = lval xs + lval ys + (if c1 \<or> c2 then 1 else 0)
      \<and> length rest = length xs"
    using 1(1) [OF a_def c1_def b_def c2_def _ r] 1(2) by simp
  have A: "unat a + (if c1 then 2 ^ 64 else 0) = unat x + unat y" using unat_add_carry [of x y] by (simp add: a_def c1_def)
  have Bb: "unat b + (if c2 then 2 ^ 64 else 0) = unat a + (if carry then 1 else 0)"
    using unat_add_carry [of a "if carry then 1 else 0"] by (simp add: b_def c2_def)
  have not_both: "\<not> (c1 \<and> c2)"
  proof
    assume "c1 \<and> c2"
    with A Bb have "unat x + unat y + (if carry then 1 else 0) = unat b + 2 ^ 65" by simp
    then show False using unat_lt_exp [of x] unat_lt_exp [of y] by (simp split: if_splits)
  qed
  have limb: "unat b + 2 ^ 64 * (if c1 \<or> c2 then 1 else 0) = unat x + unat y + (if carry then 1 else 0)"
    using A Bb not_both by (auto split: if_splits)
  have "lval zs + (if c' then 2 ^ (64 * length (x # xs)) else 0)
      = unat b + 2 ^ 64 * (lval rest + (if c then 2 ^ (64 * length xs) else 0))"
    by (simp add: zs power_add)
  also have "\<dots> = unat b + 2 ^ 64 * (if c1 \<or> c2 then 1 else 0) + 2 ^ 64 * (lval xs + lval ys)"
    using ih by simp
  also have "\<dots> = lval (x # xs) + lval (y # ys) + (if carry then 1 else 0)" unfolding limb by simp
  finally show ?case using ih zs by simp
qed auto

lemma lval_drop: "lval (drop k xs) = lval xs div 2 ^ (64 * k)"
proof (induction k arbitrary: xs)
  case (Suc k)
  show ?case
  proof (cases xs)
    case (Cons x ys)
    have "lval xs div 2 ^ (64 * Suc k) = lval xs div 2 ^ 64 div 2 ^ (64 * k)"
      by (simp add: power_add div_mult2_eq)
    also have "lval xs div 2 ^ 64 = lval ys" using unat_lt_exp [of x] by (simp add: Cons)
    finally show ?thesis using Suc by (simp add: Cons)
  qed simp
qed simp

lemma push_bit_take: "push_bit s y = push_bit s (take_bit (64 - s) (y :: u64))"
  by (rule bit_word_eqI) (auto simp: bit_simps)

lemma shr_limb:
  assumes "0 < off" and "off < 64"
  shows "unat (drop_bit off x OR push_bit (64 - off) (y :: u64)) = unat x div 2 ^ off + 2 ^ (64 - off) * (unat y mod 2 ^ off)"
proof -
  define t where "t = take_bit off y"
  have p: "push_bit (64 - off) y = push_bit (64 - off) t"
    using push_bit_take [of "64 - off" y] assms by (simp add: t_def)
  have t: "unat t = unat y mod 2 ^ off" by (simp only: t_def unat_take_bit)
  have e: "(2::nat) ^ 64 = 2 ^ (64 - off) * 2 ^ off" using assms by (simp flip: power_add)
  have "unat (drop_bit off x) < 2 ^ (64 - off)"
    using unat_lt_exp [of x] e by (simp add: unat_drop_bit less_mult_imp_div_less)
  moreover have "unat t * 2 ^ (64 - off) < 2 ^ LENGTH(64)"
  proof -
    have "unat t < 2 ^ off" by (simp add: t)
    then have "unat t * 2 ^ (64 - off) < 2 ^ off * 2 ^ (64 - off)" by simp
    with e show ?thesis by (simp add: mult.commute)
  qed
  ultimately have "unat (drop_bit off x OR push_bit (64 - off) t) = unat (drop_bit off x) + unat t * 2 ^ (64 - off)"
    by (rule unat_or_push)
  then show ?thesis by (simp add: p t unat_drop_bit mult.commute)
qed

lemma lval_mod: "xs \<noteq> [] \<Longrightarrow> off < 64 \<Longrightarrow> lval xs mod 2 ^ off = unat (hd xs) mod 2 ^ off"
proof (cases xs)
  case (Cons x ys)
  assume "off < 64"
  then have e: "(2::nat) ^ 64 = 2 ^ off * 2 ^ (64 - off)" by (simp flip: power_add)
  have "lval xs = unat x + 2 ^ off * (2 ^ (64 - off) * lval ys)" by (simp only: Cons lval.simps e mult.assoc)
  then have "lval xs mod 2 ^ off = unat x mod 2 ^ off" by (simp only: mod_mult_self2)
  then show ?thesis by (simp only: Cons list.sel)
qed simp

lemma lval_shr: "off < 64 \<Longrightarrow> lval (shr_limbs off xs) = lval xs div 2 ^ off"
proof (induction xs)
  case (Cons x xs)
  have e: "(2::nat) ^ 64 = 2 ^ off * 2 ^ (64 - off)" using Cons.prems by (simp flip: power_add)
  show ?case
  proof (cases "off \<noteq> 0 \<and> xs \<noteq> []")
    case True
    define V where "V = lval xs"
    have m: "unat (hd xs) mod 2 ^ off = V mod 2 ^ off" using lval_mod [of xs off] True Cons.prems by (simp add: V_def)
    have "lval (x # xs) = unat x + 2 ^ off * (2 ^ (64 - off) * V)" by (simp only: V_def lval.simps e mult.assoc)
    then have "lval (x # xs) div 2 ^ off = unat x div 2 ^ off + 2 ^ (64 - off) * V" by simp
    also have "2 ^ (64 - off) * V = 2 ^ (64 - off) * (V mod 2 ^ off) + 2 ^ 64 * (V div 2 ^ off)"
    proof -
      have "2 ^ (64 - off) * V = 2 ^ (64 - off) * (V mod 2 ^ off + 2 ^ off * (V div 2 ^ off))" by simp
      also have "\<dots> = 2 ^ (64 - off) * (V mod 2 ^ off) + 2 ^ 64 * (V div 2 ^ off)"
        by (simp only: e distrib_left mult.assoc mult.left_commute mult.commute)
      finally show ?thesis .
    qed
    finally have "lval (x # xs) div 2 ^ off
        = unat x div 2 ^ off + 2 ^ (64 - off) * (V mod 2 ^ off) + 2 ^ 64 * (V div 2 ^ off)"
      by (simp only: add.assoc)
    moreover have "unat (drop_bit off x OR push_bit (64 - off) (hd xs)) = unat x div 2 ^ off + 2 ^ (64 - off) * (V mod 2 ^ off)"
      using shr_limb [of off x "hd xs"] True Cons.prems by (simp add: m)
    ultimately show ?thesis using True Cons by (simp add: V_def)
  next
    case False
    then show ?thesis using Cons by (auto simp: unat_drop_bit)
  qed
qed simp

lemma length_shr [simp]: "length (shr_limbs off xs) = length xs"
  by (induction xs) (simp_all add: Let_def)

lemma lval_append_zeros: "lval (xs @ replicate n 0) = lval xs"
  by (induction xs) (simp_all add: lval_zeros)

lemma lval_small:
  assumes "length xs = 4" and "lval xs < 2 ^ 64"
  shows "unat (xs ! 0) = lval xs \<and> xs ! 1 = 0 \<and> xs ! 2 = 0 \<and> xs ! 3 = 0"
proof -
  obtain a b c d where xs: "xs = [a, b, c, d]" using assms(1) by (auto simp: length_Suc_conv numeral_eq_Suc)
  then have "unat b = 0" "unat c = 0" "unat d = 0" using assms(2) by auto
  then show ?thesis by (simp add: xs unat_eq_zero)
qed

lemma shr_round_exact:
  assumes bits: "0 < bits" "bits < 256" and v: "u256_val x + 2 ^ (bits - 1) < 2 ^ 256"
    and r: "(u256_val x + 2 ^ (bits - 1)) div 2 ^ bits < 2 ^ 64"
  shows "\<exists>w. shr_round x bits = Some w \<and> unat w = (u256_val x + 2 ^ (bits - 1)) div 2 ^ bits"
proof -
  define k j where "k = (bits - 1) div 64" and "j = (bits - 1) mod 64"
  define half where "half = (replicate 4 0)[k := push_bit j (1 :: u64)]"
  have kj: "k < 4" "j < 64" using bits by (simp_all add: k_def j_def less_mult_imp_div_less)
  have "64 * k + j = bits - 1" by (simp add: k_def j_def)
  moreover have "unat (push_bit j (1 :: u64)) = 2 ^ j" 
  proof -
    have "(2::nat) ^ j < 2 ^ 64" using kj(2) by (intro power_strict_increasing) simp_all
    then show ?thesis by (subst unat_push_bit) simp_all
  qed
  ultimately have half: "lval half = 2 ^ (bits - 1)"
    by (simp only: half_def lval_single [OF kj(1)] power_add [symmetric])
  obtain sm carry where add: "add_limbs (u256_limbs x) half False = (sm, carry)" by fastforce
  have l4: "length (u256_limbs x) = 4" "length half = 4" by (cases x, simp) (simp add: half_def)
  have sum: "lval sm + (if carry then 2 ^ 256 else 0) = u256_val x + 2 ^ (bits - 1)" "length sm = 4"
    using add_limbs_val [OF _ add] l4 by (simp_all add: half lval_u256 split: if_splits)
  then have nc: "\<not> carry" using v by (auto split: if_splits)
  with sum have sv: "lval sm = u256_val x + 2 ^ (bits - 1)" by simp
  define limb off where "limb = bits div 64" and "off = bits mod 64"
  have lo: "limb < 4" "off < 64" using bits by (simp_all add: limb_def off_def less_mult_imp_div_less)
  have b: "64 * limb + off = bits" by (simp add: limb_def off_def)
  define ws where "ws = shr_limbs off (drop limb sm) @ replicate limb 0"
  have "lval ws = lval sm div 2 ^ (64 * limb) div 2 ^ off"
    using lo by (simp add: ws_def lval_append_zeros lval_shr lval_drop)
  also have "\<dots> = lval sm div 2 ^ bits" unfolding b [symmetric] power_add by (rule div_mult2_eq [symmetric])
  finally have lw: "lval ws = (u256_val x + 2 ^ (bits - 1)) div 2 ^ bits" by (simp add: sv)
  have "length ws = 4" using lo sum(2) by (simp add: ws_def)
  with lval_small [of ws] lw r have w: "unat (ws ! 0) = (u256_val x + 2 ^ (bits - 1)) div 2 ^ bits"
    "ws ! 1 = 0" "ws ! 2 = 0" "ws ! 3 = 0" by simp_all
  have "shr_round x bits = Some (ws ! 0)"
    using nc w(2-4) unfolding shr_round_def k_def [symmetric] j_def [symmetric] half_def [symmetric] Let_def add
    by (simp add: limb_def [symmetric] off_def [symmetric] ws_def [symmetric] Let_def)
  with w(1) show ?thesis by blast
qed

lemma frac_shl_exact:
  assumes "unat a < unat b" and "unat b < 2 ^ 64"
  shows "unat (frac_shl_128 a b) = unat a * 2 ^ 128 div unat b"
proof -
  define B where "B = (2::nat) ^ 64"
  define n d where "n = unat a" and "d = unat b"
  have nd: "n < d" "d < B" "0 < d" using assms by (auto simp: n_def d_def B_def)
  have a_sh: "unat (push_bit 64 a) = n * B"
    using nd by (subst unat_push_bit) (simp_all add: n_def [symmetric] B_def)
  define hi rm where "hi = n * B div d" and "rm = n * B mod d"
  have rm: "rm < d" using nd by (simp add: rm_def)
  have "n * B < d * B" using nd by (simp add: B_def)
  then have hi: "hi < B" by (simp add: hi_def less_mult_imp_div_less mult.commute)
  have "rm * B < d * B" using rm by (simp add: B_def)
  then have lo: "rm * B div d < B" by (simp add: less_mult_imp_div_less mult.commute)
  have uhi: "unat (push_bit 64 a div b) = hi" and urm: "unat (push_bit 64 a mod b) = rm"
    by (simp_all add: unat_div unat_mod a_sh hi_def rm_def d_def)
  have "rm * 2 ^ 64 < 2 ^ 128" using rm nd by (simp add: B_def)
  then have "unat (push_bit 64 (push_bit 64 a mod b)) = rm * B"
    by (subst unat_push_bit) (simp_all add: urm B_def)
  then have ulo: "unat (push_bit 64 (push_bit 64 a mod b) div b) = rm * B div d" by (simp add: unat_div d_def)
  have comm: "push_bit 64 (push_bit 64 a div b) OR (push_bit 64 (push_bit 64 a mod b) div b)
      = (push_bit 64 (push_bit 64 a mod b) div b) OR push_bit 64 (push_bit 64 a div b)" by (rule or.commute)
  have "unat (frac_shl_128 a b) = rm * B div d + hi * B"
    using lo hi unat_or_push [of "push_bit 64 (push_bit 64 a mod b) div b" 64 "push_bit 64 a div b"]
    unfolding frac_shl_128_def Let_def comm by (simp add: ulo uhi B_def)
  also have "\<dots> = (hi * d + rm) * B div d" using nd by (simp add: distrib_right mult.assoc mult.left_commute [of hi])
  also have "hi * d + rm = n * B" by (simp add: hi_def rm_def)
  finally show ?thesis by (simp add: n_def d_def B_def mult.assoc)
qed

lemma unat_q_fix: "unat q_fix = 9999991763 * 2 ^ 128 div 10000000000"
  unfolding q_fix_def by (subst frac_shl_exact) (simp_all add: q_num_def decimal_den_def d_num_def)

fun q_nat :: "nat \<Rightarrow> nat \<Rightarrow> nat \<Rightarrow> nat" where
  "q_nat h 0 acc = acc"
| "q_nat h (Suc i) acc =
    (let acc1 = acc * acc div 2 ^ 128
     in q_nat h i (if odd (h div 2 ^ i) then acc1 * (9999991763 * 2 ^ 128 div 10000000000) div 2 ^ 128 else acc1))"

lemma bit_test: "drop_bit i h AND 1 = 1 \<longleftrightarrow> odd (unat (h :: u64) div 2 ^ i)"
proof -
  have "drop_bit i h AND 1 = (1 :: u64) \<longleftrightarrow> bit h i"
    by (simp add: and_one_eq bit_iff_odd_drop_bit odd_iff_mod_2_eq_one)
  also have "\<dots> \<longleftrightarrow> bit (unat h) i" by (simp add: bit_unsigned_iff)
  finally show ?thesis by (simp add: bit_iff_odd)
qed

lemma q_pow_loop_nat: "unat (q_pow_loop h i acc) = q_nat (unat h) i (unat acc)"
  by (induction i arbitrary: acc) (simp_all add: Let_def bit_test mul_frac_exact unat_q_fix)

definition q_pow_nat :: "nat \<Rightarrow> nat" where
  "q_pow_nat h = q_nat h (bit_length h - 1) (9999991763 * 2 ^ 128 div 10000000000)"

lemma q_pow_exact: "unat (q_pow h) = q_pow_nat (unat h)"
  by (simp add: q_pow_def q_pow_loop_nat q_pow_nat_def unat_q_fix)

section \<open>The schedule against the real power\<close>

text \<open>The decay ratio as a real, and \<open>q ^ k\<close> scaled to the 128-bit fraction.\<close>

definition q_real :: real where "q_real = 9999991763 / 10000000000"
definition e_real :: "nat \<Rightarrow> real" where "e_real k = 2 ^ 128 * q_real ^ k"

lemma q_real_bounds: "0 < q_real" "q_real < 1" by (simp_all add: q_real_def)

lemma e_real_bounds: "0 < e_real k" "e_real k \<le> 2 ^ 128"
  using q_real_bounds by (simp_all add: e_real_def power_le_one)

lemma real_div_bounds:
  assumes "0 < m"
  shows "real (n div m) \<le> real n / real m" and "real n / real m - 1 \<le> real (n div m)"
proof -
  have n: "real n = real m * real (n div m) + real (n mod m)"
    by (metis mult_div_mod_eq of_nat_add of_nat_mult)
  have "real (n mod m) \<le> real m" "0 \<le> real (n mod m)" using assms by (simp_all add: less_imp_le)
  with n have "real n \<le> real m * (real (n div m) + 1)" "real m * real (n div m) \<le> real n"
    by (simp_all add: algebra_simps)
  then show "real (n div m) \<le> real n / real m" and "real n / real m - 1 \<le> real (n div m)"
    using assms by (simp_all add: field_simps)
qed

lemma mul_err:
  fixes x y :: nat and X Y d e :: real
  assumes M: "M = 2 ^ 128" and "X - d \<le> x" "x \<le> X" "X \<le> M" "Y - e \<le> y" "y \<le> Y" "Y \<le> M" "0 \<le> d" "0 \<le> e"
  shows "X * Y / M - (d + e + 1) \<le> real (x * y div 2 ^ 128)" and "real (x * y div 2 ^ 128) \<le> X * Y / M"
proof -
  have pos: "0 < M" "real (2 ^ 128) = M" by (simp_all add: M)
  have nn: "0 \<le> real x" "0 \<le> real y" by simp_all
  have le: "real x * real y \<le> X * Y" using assms nn by (intro mult_mono) linarith+
  have "X * Y - real x * real y = (X - x) * Y + x * (Y - y)" by (simp add: algebra_simps)
  also have "\<dots> \<le> d * M + M * e" using assms nn pos by (intro add_mono mult_mono) linarith+
  finally have ge: "X * Y / M - (d + e) \<le> real x * real y / M" using pos by (simp add: field_simps)
  have b: "real (x * y div 2 ^ 128) \<le> real x * real y / M" "real x * real y / M - 1 \<le> real (x * y div 2 ^ 128)"
    using real_div_bounds [of "2 ^ 128" "x * y"] by (simp_all only: pos of_nat_mult zero_less_power zero_less_numeral)
  have le2: "real x * real y / M \<le> X * Y / M" using le pos by (simp add: divide_right_mono)
  show "X * Y / M - (d + e + 1) \<le> real (x * y div 2 ^ 128)" using ge b(2) by linarith
  show "real (x * y div 2 ^ 128) \<le> X * Y / M" using le2 b(1) by linarith
qed

abbreviation q_fix_nat :: nat where "q_fix_nat \<equiv> 9999991763 * 2 ^ 128 div 10000000000"

lemma q_fix_err: "e_real 1 - 1 \<le> real q_fix_nat" "real q_fix_nat \<le> e_real 1"
  using real_div_bounds [of 10000000000 "9999991763 * 2 ^ 128"] by (simp_all add: e_real_def q_real_def)

lemma e_real_add: "e_real k * e_real j / 2 ^ 128 = e_real (k + j)"
  by (simp add: e_real_def power_add)

lemma q_nat_err:
  assumes "h div 2 ^ i = k" and "0 < k" and "e_real k - (2 * real k - 1) \<le> acc" and "acc \<le> e_real k"
  shows "e_real h - (2 * real h - 1) \<le> q_nat h i acc \<and> q_nat h i acc \<le> e_real h"
  using assms
proof (induction i arbitrary: k acc)
  case (Suc i)
  define acc1 where "acc1 = acc * acc div 2 ^ 128"
  have sq: "e_real (k + k) - ((2 * real k - 1) + (2 * real k - 1) + 1) \<le> acc1" "acc1 \<le> e_real (k + k)"
    using mul_err [OF refl Suc.prems(3,4) e_real_bounds(2) Suc.prems(3,4) e_real_bounds(2)] Suc.prems(2)
    unfolding acc1_def [symmetric] e_real_add by simp_all
  have kk: "h div 2 ^ i div 2 = k" using Suc.prems(1) by (simp add: div_mult2_eq [symmetric] mult.commute)
  show ?case
  proof (cases "odd (h div 2 ^ i)")
    case True
    have k1: "h div 2 ^ i = k + k + 1" using odd_two_times_div_two_succ [OF True] kk by simp
    have "e_real (k + k + 1) - (((2 * real k - 1) + (2 * real k - 1) + 1) + 1 + 1) \<le> real (acc1 * q_fix_nat div 2 ^ 128)"
      "real (acc1 * q_fix_nat div 2 ^ 128) \<le> e_real (k + k + 1)"
      using mul_err [OF refl sq e_real_bounds(2) q_fix_err e_real_bounds(2)] Suc.prems(2)
      unfolding e_real_add by simp_all
    moreover have "q_nat h (Suc i) acc = q_nat h i (acc1 * q_fix_nat div 2 ^ 128)"
      by (simp only: q_nat.simps Let_def if_P [OF True] acc1_def)
    ultimately show ?thesis using Suc.IH [OF k1, of "acc1 * q_fix_nat div 2 ^ 128"] by (simp only:) simp
  next
    case False
    have k1: "h div 2 ^ i = k + k" using even_two_times_div_two [of "h div 2 ^ i"] False kk by simp
    have "q_nat h (Suc i) acc = q_nat h i acc1" by (simp only: q_nat.simps Let_def if_not_P [OF False] acc1_def)
    then show ?thesis using Suc.IH [OF k1, of acc1] sq Suc.prems(2) by simp
  qed
qed simp

lemma bit_length_div: "0 < n \<Longrightarrow> n div 2 ^ (bit_length n - 1) = 1"
proof (induction n rule: bit_length.induct)
  case (1 n)
  show ?case
  proof (cases "n = 1")
    case False
    with 1 have "0 < n div 2" "0 < bit_length (n div 2)" by (simp_all add: bit_length.simps [of "n div 2"])
    then have "bit_length n - 1 = Suc (bit_length (n div 2) - 1)" using 1 by (simp add: bit_length.simps [of n])
    then show ?thesis using 1 \<open>0 < n div 2\<close> by (simp add: div_mult2_eq)
  qed (simp add: bit_length.simps)
qed

lemma q_pow_err:
  "0 < h \<Longrightarrow> e_real h - (2 * real h - 1) \<le> real (q_pow_nat h) \<and> real (q_pow_nat h) \<le> e_real h"
  unfolding q_pow_nat_def using q_nat_err [OF bit_length_div, of h q_fix_nat] q_fix_err by simp

section \<open>The power at the tail, by certificate\<close>

text \<open>
  A run of the loop written out: each row holds the quotient and remainder of the squaring, and of
  the multiplication where the bit is set. Checking a row needs no division.
\<close>

definition q_fix_val :: nat where "q_fix_val = 340282086630352830686362252650104069908"

fun q_cert :: "nat \<Rightarrow> nat \<Rightarrow> (nat \<times> nat \<times> nat \<times> nat) list \<Rightarrow> nat \<Rightarrow> bool" where
  "q_cert h acc [] res \<longleftrightarrow> acc = res"
| "q_cert h acc ((a, r, b, s) # cs) res \<longleftrightarrow>
    acc * acc = a * 2 ^ 128 + r \<and> r < 2 ^ 128
    \<and> (if odd (h div 2 ^ length cs)
        then a * q_fix_val = b * 2 ^ 128 + s \<and> s < 2 ^ 128 \<and> q_cert h b cs res
        else q_cert h a cs res)"

lemma div_by_cert: "n = a * m + r \<Longrightarrow> r < m \<Longrightarrow> n div m = (a :: nat)"
  by simp

lemma q_cert_sound: "q_cert h acc cs res \<Longrightarrow> q_nat h (length cs) acc = res"
proof (induction h acc cs res rule: q_cert.induct)
  case (2 h acc a r b s cs res)
  have fx: "q_fix_nat = q_fix_val" by (simp add: q_fix_val_def)
  note row = 2(3) [unfolded q_cert.simps]
  have sq: "acc * acc div 2 ^ 128 = a"
    by (rule div_by_cert [OF conjunct1 [OF row] conjunct1 [OF conjunct2 [OF row]]])
  note rest = conjunct2 [OF conjunct2 [OF row]]
  show ?case
  proof (cases "odd (h div 2 ^ length cs)")
    case True
    note rest1 = rest [unfolded if_P [OF True]]
    have "a * q_fix_nat div 2 ^ 128 = b"
      unfolding fx by (rule div_by_cert [OF conjunct1 [OF rest1] conjunct1 [OF conjunct2 [OF rest1]]])
    moreover have "q_nat h (length cs) b = res" using 2(1) True rest1 by blast
    ultimately show ?thesis using True by (simp only: list.size add_Suc_right add_0_right q_nat.simps Let_def sq if_True not_False_eq_True)
  next
    case False
    then have "q_nat h (length cs) a = res" using 2(2) rest [unfolded if_not_P [OF False]] by blast
    then show ?thesis using False by (simp only: list.size add_Suc_right add_0_right q_nat.simps Let_def sq if_False not_True_eq_False)
  qed
qed simp

definition tail_rows :: "(nat \<times> nat \<times> nat \<times> nat) list" where
  "tail_rows = [(340281806339998073264735616293516562016, 256366530005367791567261720583325473168, 0, 0),
   (340281245759981183726951534575407681713, 122472531268552280807115003427045680128, 0, 0),
   (340280124602717900548453157254355407471, 58522227558068859083360811413344426593, 0, 0),
   (340277882299273275181411305246002754464, 48976958178176613040770167567642676257, 340277602012381625270014538317510623331, 2358571677137406066697554719239989376),
   (340272837170546885434178196489855769820, 191957968545056989795244361456738477641, 0, 0),
   (340263307687039963661301737042876491241, 228704311524603296150242370309402975504, 0, 0),
   (340244249520650192226934278654788266852, 162972381846955974523489942077458263569, 340243969261461862067370941329022938902, 129453293070945523391086868777462628304),
   (340205575934799407410848302943500090337, 224090605327089036062821103328306664932, 0, 0),
   (340128802277961324449237246791377137928, 236522474646278061096160111586379070401, 340128522113866888092494297954656955870, 43386542278258413077399511118049823904),
   (339974746861456275772178439897125266689, 298489647128832842029514913678582467716, 339974466824257285990644086353744323426, 134097959122290014670677695461977326356),
   (339666845326994568261180424501407573296, 40159085030391828062080479611345498500, 0, 0),
   (339052437122604294154186050412604615896, 51311709874486820620370850677825399040, 339052157845111836265028955609554891033, 18905253412466160314548652241289783520),
   (337826396294391903273840082695748696470, 228160879849488212731799232557183046769, 337826118026789275583229356033672579981, 94692935195873381997767667827272362424),
   (335387598992358063798857278282008882925, 264348130909724274176153876345094171561, 335387322733592773793520127163268762033, 260809979474935540128927751127499070852),
   (330562694941351194974585156504123357100, 106360829990641436690217953526983355489, 330562422656859371783605855938329944653, 27735301714798772355577824960767602032),
   (321120122272337386237585073888911141008, 152981149083560746136218022165666302761, 321119857765692670513280029990085778711, 135585001704404338314494192795406474048),
   (303036457588227659390213591717923566060, 84729738144513993848463447927596038161, 303036207977097543967090551998988068005, 303461111640799560948126247067148057200),
   (269866887832230248805982286568320290625, 60272807713813568432938318052130280025, 269866665542874741397926345080710844299, 54740343454104839081570433526952923156),
   (214022306915923003674741471891727681766, 318217124100403042823080697546457290105, 0, 0),
   (134610406857361636868793564430231260735, 26829819642978721880486710753618898596, 0, 0),
   (53249781345603612554974000533857786083, 98667991542258885261596943710794773377, 0, 0),
   (8332900817083497084555696302795111564, 310878081775518476693607279833925605705, 0, 0)]"

lemma tail_rows_ok: "q_cert 4503536 q_fix_val tail_rows 8332900817083497084555696302795111564"
  by (simp add: q_fix_val_def tail_rows_def)

lemma q_pow_tail: "q_pow_nat 4503536 = 8332900817083497084555696302795111564"
proof -
  have len: "bit_length 4503536 - 1 = length tail_rows" by (simp add: tail_rows_def bit_length.simps)
  have fx: "q_fix_nat = q_fix_val" by (simp add: q_fix_val_def)
  show ?thesis unfolding q_pow_nat_def len fx by (rule q_cert_sound [OF tail_rows_ok])
qed
end
