(* ===== verification/Emission_Schedule.thy ===== *)
theory Emission_Schedule
  imports Emission
begin

text \<open>
  The emission schedule as a whole: below the tail the cumulative supply is the closed form
  \<open>C (1 - q ^ h)\<close> rounded half up (from a one-sided error below \<open>2 ^ -52\<close> of a unit), the tail constant of the source continues it without a seam, and the
  supply at every height is the sum of the coinbases paid up to it.
\<close>

definition supply_scale :: real where "supply_scale = 2 ^ 19 * 5 ^ 20 / 8237"

definition supply_real :: "nat \<Rightarrow> real" where "supply_real h = supply_scale * (1 - q_real ^ h)"

definition geo_nat :: "nat \<Rightarrow> nat" where
  "geo_nat h = ((2 ^ 128 - q_pow_nat h) * 95367431640625 div 8237 + 2 ^ 108) div 2 ^ 109"

lemma q_power_tail: "8332900817083497084555696302795111564 / 2 ^ 128 \<le> q_real ^ 4503536"
proof -
  have "real (q_pow_nat 4503536) \<le> e_real 4503536" using q_pow_err [of 4503536] by simp
  then show ?thesis unfolding q_pow_tail e_real_def by (simp only: of_nat_numeral) (simp add: field_simps)
qed

lemma q_power_ge: "h \<le> 4503536 \<Longrightarrow> 1 / 50 \<le> q_real ^ h"
proof -
  assume "h \<le> 4503536"
  then have "q_real ^ 4503536 \<le> q_real ^ h" using q_real_bounds by (intro power_decreasing) simp_all
  moreover have "1 / 50 \<le> (8332900817083497084555696302795111564 :: real) / 2 ^ 128" by simp
  ultimately show ?thesis using q_power_tail by linarith
qed

lemma q_pow_nat_pos: "0 < h \<Longrightarrow> h \<le> 4503536 \<Longrightarrow> 0 < q_pow_nat h"
proof -
  assume h: "0 < h" "h \<le> 4503536"
  have "e_real h \<ge> 2 ^ 128 * (1 / 50)" using q_power_ge [OF h(2)] unfolding e_real_def by (intro mult_left_mono) simp_all
  moreover have "2 * real h - 1 < 2 ^ 128 * (1 / 50)" using h by simp
  ultimately have "0 < real (q_pow_nat h)" using q_pow_err [OF h(1)] by linarith
  then show ?thesis by simp
qed

lemma geo_nat_err:
  assumes h: "0 < h" "h \<le> 4503536" and P: "q_pow_nat h < 2 ^ 128"
  shows "\<bar>real (geo_nat h) - supply_real h\<bar> \<le> 1 / 2 + 1 / 1000000000"
proof -
  define p where "p = real (q_pow_nat h) / 2 ^ 128"
  define N where "N = (2 ^ 128 - q_pow_nat h) * 95367431640625"
  define v where "v = N div 8237"
  have rN: "real N = 2 ^ 128 * (1 - p) * 95367431640625"
    using P by (simp add: N_def p_def of_nat_diff)
  have v: "real N / 8237 - 1 \<le> real v" "real v \<le> real N / 8237"
    using real_div_bounds [of 8237 N] by (simp_all add: v_def)
  have g: "geo_nat h = (v + 2 ^ 108) div 2 ^ 109" by (simp only: geo_nat_def v_def N_def)
  have r: "(real v + 2 ^ 108) / 2 ^ 109 - 1 \<le> real (geo_nat h)" "real (geo_nat h) \<le> (real v + 2 ^ 108) / 2 ^ 109"
    unfolding g using real_div_bounds [of "2 ^ 109" "v + 2 ^ 108"] by simp_all
  have mid: "real N / 8237 / 2 ^ 109 = supply_scale * (1 - p)" by (simp add: rN supply_scale_def)
  have pe: "q_real ^ h - p \<le> (2 * real h - 1) / 2 ^ 128" "p \<le> q_real ^ h"
    using q_pow_err [OF h(1)] by (simp_all add: p_def e_real_def field_simps)
  then have "q_real ^ h - p \<le> 1 / 10 ^ 30" using h by simp
  then have "supply_scale * (q_real ^ h - p) \<le> supply_scale * (1 / 10 ^ 30)"
    by (intro mult_left_mono) (simp_all add: supply_scale_def)
  also have "\<dots> \<le> 1 / 10000000000" by (simp add: supply_scale_def)
  finally have up: "supply_scale * (1 - p) \<le> supply_real h + 1 / 10000000000"
    by (simp add: supply_real_def algebra_simps)
  have "0 \<le> supply_scale * (q_real ^ h - p)" using pe by (simp add: supply_scale_def)
  then have lo: "supply_real h \<le> supply_scale * (1 - p)" by (simp add: supply_real_def algebra_simps)
  define z where "z = real v / 2 ^ 109"
  have "(real v + 2 ^ 108) / 2 ^ 109 = z + 1 / 2" by (simp add: z_def)
  then have rz: "z + 1 / 2 - 1 \<le> real (geo_nat h)" "real (geo_nat h) \<le> z + 1 / 2" using r by linarith+
  have "z \<le> supply_scale * (1 - p)" "supply_scale * (1 - p) - 1 / 10000000000 \<le> z"
    using v unfolding mid [symmetric] by (simp_all add: z_def)
  then have "z \<le> supply_real h + 1 / 10000000000" "supply_real h - 1 / 10000000000 \<le> z" using up lo by linarith+
  with rz have "real (geo_nat h) - supply_real h \<le> 1 / 2 + 1 / 10000000000" "supply_real h - real (geo_nat h) \<le> 1 / 2 + 1 / 10000000000"
    by linarith+
  then show ?thesis unfolding abs_le_iff by (intro conjI; linarith)
qed

lemma geo_nat_floor: "int (geo_nat h) = \<lfloor>real ((2 ^ 128 - q_pow_nat h) * 95367431640625) / 8237 / 2 ^ 109 + 1 / 2\<rfloor>"
proof -
  define N where "N = (2 ^ 128 - q_pow_nat h) * 95367431640625"
  have shift: "N div 8237 + c = (N + c * 8237) div 8237" for c by simp
  have "geo_nat h = (N + 2 ^ 108 * 8237) div 8237 div 2 ^ 109"
    unfolding geo_nat_def N_def [symmetric] by (simp only: shift)
  also have "\<dots> = (N + 2 ^ 108 * 8237) div (8237 * 2 ^ 109)" by (rule div_mult2_eq [symmetric])
  finally have "int (geo_nat h) = \<lfloor>real (N + 2 ^ 108 * 8237) / real (8237 * 2 ^ 109)\<rfloor>"
    by (simp only: floor_divide_of_nat_eq)
  also have "real (N + 2 ^ 108 * 8237) / real (8237 * 2 ^ 109) = real N / 8237 / 2 ^ 109 + 1 / 2"
    by (simp add: field_simps)
  finally show ?thesis unfolding N_def .
qed

lemma geo_nat_round:
  assumes h: "0 < h" "h \<le> 4503536" and P: "q_pow_nat h < 2 ^ 128"
  shows "\<lfloor>supply_real h + 1 / 2\<rfloor> \<le> int (geo_nat h)" and "int (geo_nat h) \<le> \<lfloor>supply_real h + 1 / 2 + 1 / 2 ^ 52\<rfloor>"
proof -
  define p where "p = real (q_pow_nat h) / 2 ^ 128"
  have "real ((2 ^ 128 - q_pow_nat h) * 95367431640625) = 2 ^ 128 * (1 - p) * 95367431640625"
    using P by (simp add: p_def of_nat_diff)
  then have "real ((2 ^ 128 - q_pow_nat h) * 95367431640625) / 8237 / 2 ^ 109 = supply_scale * (1 - p)"
    by (simp only:) (simp add: supply_scale_def)
  then have g: "int (geo_nat h) = \<lfloor>supply_scale * (1 - p) + 1 / 2\<rfloor>"
    unfolding geo_nat_floor by (simp only:)
  have pe: "q_real ^ h - p \<le> (2 * real h - 1) / 2 ^ 128" "p \<le> q_real ^ h"
    using q_pow_err [OF h(1)] by (simp_all add: p_def e_real_def field_simps)
  have "2 * real h - 1 \<le> 9007071" using h by simp
  then have "(2 * real h - 1) / 2 ^ 128 \<le> 9007071 / 2 ^ 128" by (rule divide_right_mono) simp
  with pe(1) have "supply_scale * (q_real ^ h - p) \<le> supply_scale * (9007071 / 2 ^ 128)"
    by (intro mult_left_mono) (simp_all add: supply_scale_def)
  also have "\<dots> \<le> 1 / 2 ^ 52" by (simp add: supply_scale_def)
  finally have up: "supply_scale * (1 - p) \<le> supply_real h + 1 / 2 ^ 52"
    by (simp add: supply_real_def algebra_simps)
  have "0 \<le> supply_scale * (q_real ^ h - p)" using pe by (simp add: supply_scale_def)
  then have lo: "supply_real h \<le> supply_scale * (1 - p)" by (simp add: supply_real_def algebra_simps)
  show "\<lfloor>supply_real h + 1 / 2\<rfloor> \<le> int (geo_nat h)" unfolding g using lo by (intro floor_mono) simp
  show "int (geo_nat h) \<le> \<lfloor>supply_real h + 1 / 2 + 1 / 2 ^ 52\<rfloor>" unfolding g using up by (intro floor_mono) simp
qed

lemma s_geometric_exact:
  assumes h: "0 < unat h" "unat h \<le> 4503537 - 1"
  shows "\<exists>w. s_atomic_geometric h = Some w \<and> unat w = geo_nat (unat h)"
proof -
  define P where "P = q_pow_nat (unat h)"
  have P: "unat (q_pow h) = P" "0 < P" "P < 2 ^ 128"
    using q_pow_exact [of h] q_pow_nat_pos [of "unat h"] h unat_lt_exp [of "q_pow h"] by (simp_all add: P_def)
  then have one: "unat (0 - q_pow h) = 2 ^ 128 - P"  by (simp add: unat_sub_if' del: diff_0)
  have five: "unat five_pow_20 = 95367431640625" by (simp add: five_pow_20_def)
  define V where "V = (2 ^ 128 - P) * 95367431640625 div 8237"
  have num: "u256_val (from_mul (0 - q_pow h) five_pow_20) = (2 ^ 128 - P) * 95367431640625"
    by (simp only: from_mul_exact one five)
  have dn: "unat (u64_of d_num) = 8237" by (simp add: unat_u64_of d_num_def)
  have "0 < u64_of d_num" by (simp add: word_less_nat_alt dn)
  then obtain y where y0: "div_u64 (from_mul (0 - q_pow h) five_pow_20) (u64_of d_num) = Some y
      \<and> u256_val y = u256_val (from_mul (0 - q_pow h) five_pow_20) div unat (u64_of d_num)"
    using div_u64_exact by blast
  note y = conjunct1 [OF y0] conjunct2 [OF y0, unfolded num dn, folded V_def]
  have "V \<le> 2 ^ 128 * 95367431640625 div 8237" unfolding V_def by (intro div_le_mono mult_le_mono1) simp
  then have V: "V + 2 ^ 108 < 2 ^ 64 * 2 ^ 109" by simp
  then have small: "u256_val y + 2 ^ (109 - 1) < 2 ^ 256" "(u256_val y + 2 ^ (109 - 1)) div 2 ^ 109 < 2 ^ 64"
    by (simp_all add: y less_mult_imp_div_less)
  obtain w where w: "shr_round y 109 = Some w" "unat w = (V + 2 ^ 108) div 2 ^ 109"
    using shr_round_exact [OF _ _ small] by (auto simp: y)
  have "h \<noteq> 0" using h by (metis unat_0 less_irrefl)
  then have "s_atomic_geometric h = Some w"
    by (simp only: s_atomic_geometric_def Let_def y w option.case if_False shift_bits_def frac_bits_def) (simp add: w)
  with w show ?thesis by (auto simp: geo_nat_def V_def P_def)
qed

lemma tail_height_nat: "unat tail_activation_height = 4503536"
  by (simp add: tail_activation_height_def)

lemma s_atomic_below_tail:
  assumes "h \<le> tail_activation_height"
  shows "\<exists>w. s_atomic_exact h = Some w \<and> \<bar>real (unat w) - supply_real (unat h)\<bar> \<le> 1 / 2 + 1 / 1000000000"
proof (cases "h = 0")
  case True
  then show ?thesis by (simp add: s_atomic_exact_def s_atomic_geometric_def supply_real_def)
next
  case False
  have le: "unat h \<le> 4503536" using assms by (simp add: word_le_nat_alt tail_height_nat)
  have pos: "0 < unat h" using False by (simp add: unat_gt_0)
  have lt: "q_pow_nat (unat h) < 2 ^ 128"
    using unat_lt_exp [of "q_pow h"] by (simp add: q_pow_exact)
  from s_geometric_exact [OF pos] le obtain w where "s_atomic_geometric h = Some w" "unat w = geo_nat (unat h)" by auto
  then show ?thesis using geo_nat_err [OF pos le lt] assms by (simp add: s_atomic_exact_def del: of_nat_unat)
qed

lemma s_atomic_tail: "s_atomic_exact tail_activation_height = Some s_atomic_at_tail_activation"
proof -
  obtain w where w: "s_atomic_geometric tail_activation_height = Some w" "unat w = geo_nat 4503536"
    using s_geometric_exact [of tail_activation_height] by (auto simp: tail_height_nat)
  have "geo_nat 4503536 = 5921523645798773" unfolding geo_nat_def q_pow_tail by simp
  then have "unat w = unat s_atomic_at_tail_activation" by (simp add: w s_atomic_at_tail_activation_def)
  then have "w = s_atomic_at_tail_activation" by (simp only: word_unat_eq_iff)
  then show ?thesis by (simp add: s_atomic_exact_def w)
qed

lemma supply_real_step: "supply_real (Suc h) - supply_real h = 5000000000 * q_real ^ h"
proof -
  have "supply_real (Suc h) - supply_real h = supply_scale * (1 - q_real) * q_real ^ h"
    by (simp add: supply_real_def algebra_simps)
  also have "supply_scale * (1 - q_real) = 5000000000" by (simp add: supply_scale_def q_real_def)
  finally show ?thesis .
qed

lemma coinbase_below_tail:
  assumes "h < tail_activation_height"
  shows "\<exists>a b. s_atomic_exact (h + 1) = Some a \<and> s_atomic_exact h = Some b \<and> coinbase_exact h = Some (a - b)
    \<and> unat b \<le> unat a \<and> \<bar>real (unat (a - b)) - 5000000000 * q_real ^ unat h\<bar> \<le> 1 + 1 / 100000000"
proof -
  have lt: "unat h < 4503536" using assms by (simp add: word_less_nat_alt tail_height_nat)
  then have suc: "unat (h + 1) = Suc (unat h)" by (subst unat_add_small) simp_all
  then have le1: "h + 1 \<le> tail_activation_height" using lt by (simp add: word_le_nat_alt tail_height_nat)
  obtain a where a: "s_atomic_exact (h + 1) = Some a" "\<bar>real (unat a) - supply_real (Suc (unat h))\<bar> \<le> 1 / 2 + 1 / 1000000000"
    using s_atomic_below_tail [OF le1] unfolding suc by blast
  obtain b where b: "s_atomic_exact h = Some b" "\<bar>real (unat b) - supply_real (unat h)\<bar> \<le> 1 / 2 + 1 / 1000000000"
    using s_atomic_below_tail [of h] assms by (meson less_imp_le)
  note st = supply_real_step [of "unat h"]
  have "1 / 50 \<le> q_real ^ unat h" using q_power_ge lt by simp
  then have "real (unat b) < real (unat a)" using a(2) b(2) st unfolding abs_le_iff by linarith
  then have ge: "unat b \<le> unat a" by (simp only: of_nat_less_iff less_imp_le)
  then have "real (unat (a - b)) = real (unat a) - real (unat b)"
    by (simp add: unat_sub word_le_nat_alt of_nat_diff)
  then have "\<bar>real (unat (a - b)) - 5000000000 * q_real ^ unat h\<bar> \<le> 1 + 1 / 100000000"
    using a(2) b(2) st unfolding abs_le_iff by (intro conjI; linarith)
  moreover have "coinbase_exact h = Some (a - b)" 
    using assms [folded not_le] by (simp add: coinbase_exact_def a b)
  ultimately show ?thesis using a(1) b(1) ge by blast
qed

lemma s_atomic_above_tail:
  assumes "tail_activation_height \<le> h" and "unat h \<le> 2 ^ 37"
  shows "\<exists>w. s_atomic_exact h = Some w \<and> unat w = 5921523645798773 + 122441000 * (unat h - 4503536)"
proof (cases "h = tail_activation_height")
  case True
  then show ?thesis by (simp add: s_atomic_tail tail_height_nat s_atomic_at_tail_activation_def)
next
  case False
  have d: "unat (h - tail_activation_height) = unat h - 4503536"
    using assms(1) by (simp add: unat_sub tail_height_nat)
  have m: "unat (sat_mul tail_bessel (h - tail_activation_height)) = 122441000 * (unat h - 4503536)"
    using assms(2) by (simp add: unat_sat_mul d tail_bessel_def)
  have gt: "\<not> h \<le> tail_activation_height" using assms(1) False by simp
  have "unat (sat_add s_atomic_at_tail_activation (sat_mul tail_bessel (h - tail_activation_height)))
      = 5921523645798773 + 122441000 * (unat h - 4503536)"
    unfolding unat_sat_add m using assms(2) by (simp add: s_atomic_at_tail_activation_def)
  then show ?thesis using gt by (simp add: s_atomic_exact_def)
qed

lemma coinbase_step:
  assumes "unat h < 2 ^ 37"
  shows "\<exists>a b c. s_atomic_exact (h + 1) = Some a \<and> s_atomic_exact h = Some b \<and> coinbase_exact h = Some c
    \<and> unat a = unat b + unat c"
proof (cases "h < tail_activation_height")
  case True
  from coinbase_below_tail [OF this] obtain a b where ab: "s_atomic_exact (h + 1) = Some a" "s_atomic_exact h = Some b"
    "coinbase_exact h = Some (a - b)" "unat b \<le> unat a" by blast
  then have "unat a = unat b + unat (a - b)" by (simp add: unat_sub word_le_nat_alt)
  with ab show ?thesis by blast
next
  case False
  then have ge: "tail_activation_height \<le> h" by simp
  then have gn: "4503536 \<le> unat h" by (simp add: word_le_nat_alt tail_height_nat)
  have suc: "unat (h + 1) = Suc (unat h)" using assms by (subst unat_add_small) simp_all
  have ge1: "tail_activation_height \<le> h + 1" using gn by (simp add: word_le_nat_alt tail_height_nat suc)
  from s_atomic_above_tail [OF ge] assms obtain b where b: "s_atomic_exact h = Some b"
    "unat b = 5921523645798773 + 122441000 * (unat h - 4503536)" by auto
  from s_atomic_above_tail [OF ge1] assms obtain a where a: "s_atomic_exact (h + 1) = Some a"
    "unat a = 5921523645798773 + 122441000 * (Suc (unat h) - 4503536)" by (auto simp: suc)
  have "coinbase_exact h = Some tail_bessel" "unat tail_bessel = 122441000"
    using ge by (simp_all add: coinbase_exact_def tail_bessel_def)
  moreover have "unat a = unat b + 122441000" using gn by (simp add: a b Suc_diff_le)
  ultimately show ?thesis using a(1) b(1) by simp
qed

section \<open>Properties\<close>

text \<open>C29: up to the tail activation height the cumulative supply never fails and is the closed form
  \<open>S = C (1 - q ^ h)\<close> rounded half up: never less than that, and more (by one) only where \<open>S\<close> lies less
  than \<open>2 ^ -52\<close> below a half-integer. A tie, where \<open>S + 1 / 2\<close> is an integer, is rounded up.\<close>

theorem emission_accurate:
  assumes "h \<le> tail_activation_height" and "(S :: real) = 2 ^ 19 * 5 ^ 20 / 8237 * (1 - (9999991763 / 10000000000) ^ unat h)"
  shows "\<exists>w. s_atomic_exact h = Some w
    \<and> \<lfloor>S + 1 / 2\<rfloor> \<le> int (unat w) \<and> int (unat w) \<le> \<lfloor>S + 1 / 2 + 1 / 2 ^ 52\<rfloor>"
proof -
  have S: "S = supply_real (unat h)" by (simp only: assms(2) supply_real_def supply_scale_def q_real_def)
  show ?thesis
  proof (cases "h = 0")
    case True
    then show ?thesis by (simp add: S s_atomic_exact_def s_atomic_geometric_def supply_real_def)
  next
    case False
    have le: "unat h \<le> 4503536" using assms(1) by (simp add: word_le_nat_alt tail_height_nat)
    have pos: "0 < unat h" using False by (simp add: unat_gt_0)
    have lt: "q_pow_nat (unat h) < 2 ^ 128"
      using unat_lt_exp [of "q_pow h"] by (simp add: q_pow_exact)
    from s_geometric_exact [OF pos] le obtain w where "s_atomic_geometric h = Some w" "unat w = geo_nat (unat h)" by auto
    then show ?thesis using geo_nat_round [OF pos le lt] assms(1) by (simp add: S s_atomic_exact_def del: of_nat_unat)
  qed
qed

text \<open>The one tie of the schedule, at height 2: \<open>9999995881.5\<close> is rounded up.\<close>

lemma emission_accurate_witness: "s_atomic_exact 2 = Some 9999995882"
proof -
  have S: "2 ^ 19 * 5 ^ 20 / 8237 * (1 - (9999991763 / 10000000000) ^ unat (2 :: u64)) = (19999991763 / 2 :: real)"
    by (simp add: power2_eq_square)
  have "(2 :: u64) \<le> tail_activation_height" by (simp add: tail_activation_height_def)
  from emission_accurate [OF this refl, unfolded S] obtain w where w: "s_atomic_exact 2 = Some w"
    "\<lfloor>19999991763 / 2 + 1 / 2 :: real\<rfloor> \<le> int (unat w)" "int (unat w) \<le> \<lfloor>19999991763 / 2 + 1 / 2 + 1 / 2 ^ 52 :: real\<rfloor>"
    by blast
  have f: "\<lfloor>19999991763 / 2 + 1 / 2 :: real\<rfloor> = 9999995882" "\<lfloor>19999991763 / 2 + 1 / 2 + 1 / 2 ^ 52 :: real\<rfloor> = 9999995882"
    by (simp_all add: floor_unique)
  from w(2,3) have "int (unat w) = int (unat (9999995882 :: u64))" unfolding f by (simp del: of_nat_unat)
  then have "w = 9999995882" by (simp only: of_nat_eq_iff word_unat_eq_iff)
  then show ?thesis using w(1) by simp
qed

text \<open>the coinbase below the tail never fails and is within one unit of the exponential decay \<open>50 q ^ h\<close> coins.\<close>

theorem coinbase_decay:
  assumes "h < tail_activation_height"
  shows "\<exists>c. coinbase_exact h = Some c
    \<and> \<bar>real (unat c) - 5000000000 * (9999991763 / 10000000000) ^ unat h\<bar> \<le> 1 + 1 / 100000000"
  using coinbase_below_tail [OF assms] unfolding q_real_def by blast

lemma coinbase_decay_witness:
  "\<exists>c. coinbase_exact 7 = Some c
    \<and> \<bar>real (unat c) - 5000000000 * (9999991763 / 10000000000) ^ unat (7 :: u64)\<bar> \<le> 1 + 1 / 100000000"
  by (rule coinbase_decay) (simp add: tail_activation_height_def)

text \<open>the supply at a height is exactly the sum of the coinbases of the heights before it, across the start of the
  tail, which the source's constant continues without a seam.\<close>

theorem supply_is_sum:
  assumes "n \<le> 2 ^ 37"
  shows "\<exists>s. s_atomic_exact (of_nat n) = Some s \<and> unat s = (\<Sum>i<n. unat (the (coinbase_exact (of_nat i))))"
  using assms
proof (induction n)
  case 0
  show ?case by (simp add: s_atomic_exact_def s_atomic_geometric_def)
next
  case (Suc n)
  then have "unat (of_nat n :: u64) < 2 ^ 37" by (simp add: unat_of_nat)
  from coinbase_step [OF this] Suc obtain a b c where "s_atomic_exact (of_nat n + 1) = Some a" "s_atomic_exact (of_nat n) = Some b"
    "coinbase_exact (of_nat n) = Some c" "unat a = unat b + unat c" by blast
  with Suc show ?case by (auto simp: add.commute)
qed

lemma supply_is_sum_witness:
  "\<exists>s. s_atomic_exact (of_nat 5000000) = Some s \<and> unat s = (\<Sum>i<5000000. unat (the (coinbase_exact (of_nat i))))"
  by (rule supply_is_sum) simp

end
