(* ===== verification/Rate_Limit.thy ===== *)
theory Rate_Limit
  imports Prelude "HOL-Library.List_Lexorder" "HOL-Library.Product_Lexorder" "HOL-Library.Multiset"
begin

text \<open>
  The inbound rate limits of \<open>qlab-p2p/src/ratelimit.rs\<close>: the key a budget is charged against, the
  token bucket in milli-tokens with saturating arithmetic, the per-key buckets with their batch
  eviction of the oldest keys, and the operations that charge them. Strings are byte lists. The
  constructor's window is at least one, so no division here is by zero.
\<close>

section \<open>Constants and keys\<close>

definition msg_burst_default :: u64 where "msg_burst_default = 256"
definition msg_refill_default :: u64 where "msg_refill_default = 64"
definition byte_burst_default :: u64 where "byte_burst_default = 32 * 1024 * 1024"
definition byte_refill_default :: u64 where "byte_refill_default = 8 * 1024 * 1024"
definition getaddr_interval_default :: u64 where "getaddr_interval_default = 30000"
definition max_rate_keys :: nat where "max_rate_keys = 4096"
definition cp_query_interval_default :: u64 where "cp_query_interval_default = 5000"
definition max_getdata_items_default :: nat where "max_getdata_items_default = 256"
definition max_body_bytes_default :: u64 where "max_body_bytes_default = 16 * 1024 * 1024"
definition body_serve_burst_default :: u64 where "body_serve_burst_default = 32 * 1024 * 1024"
definition body_serve_rate_default :: u64 where "body_serve_rate_default = 8 * 1024 * 1024"
definition evict_fraction :: nat where "evict_fraction = 4"

datatype rate_key = Host bytes | Handle u64

text \<open>The derived order: every host before every handle.\<close>

instantiation rate_key :: linorder
begin

fun less_rate_key :: "rate_key \<Rightarrow> rate_key \<Rightarrow> bool" where
  "Host a < Host b \<longleftrightarrow> a < b"
| "Host _ < Handle _ \<longleftrightarrow> True"
| "Handle _ < Host _ \<longleftrightarrow> False"
| "Handle a < Handle b \<longleftrightarrow> a < b"

definition less_eq_rate_key :: "rate_key \<Rightarrow> rate_key \<Rightarrow> bool" where
  "less_eq_rate_key a b \<longleftrightarrow> a < b \<or> a = b"

instance
proof
  fix a b c :: rate_key
  show "a < b \<longleftrightarrow> a \<le> b \<and> \<not> b \<le> a"
    by (cases a; cases b) (auto simp: less_eq_rate_key_def)
  show "a \<le> a" by (simp add: less_eq_rate_key_def)
  show "a \<le> b \<Longrightarrow> b \<le> c \<Longrightarrow> a \<le> c"
    by (cases a; cases b; cases c) (auto simp: less_eq_rate_key_def)
  show "a \<le> b \<Longrightarrow> b \<le> a \<Longrightarrow> a = b"
    by (cases a; cases b) (auto simp: less_eq_rate_key_def)
  show "a \<le> b \<or> b \<le> a"
    by (cases a; cases b) (auto simp: less_eq_rate_key_def)
qed

end

text \<open>\<open>rsplit_once(':')\<close> splits at the last colon (byte 58).\<close>

fun rsplit_once :: "u8 \<Rightarrow> bytes \<Rightarrow> (bytes \<times> bytes) option" where
  "rsplit_once c [] = None"
| "rsplit_once c (x # xs) =
     (case rsplit_once c xs of
        Some (a, b) \<Rightarrow> Some (x # a, b)
      | None \<Rightarrow> if x = c then Some ([], xs) else None)"

definition host_of :: "bytes \<Rightarrow> bytes option" where
  "host_of addr =
    (case rsplit_once 58 addr of
       Some (host, _) \<Rightarrow> if host \<noteq> [] then Some host else None
     | None \<Rightarrow> Some addr)"

definition to_ascii_lowercase :: "bytes \<Rightarrow> bytes" where
  "to_ascii_lowercase s = map (\<lambda>c. if 65 \<le> c \<and> c \<le> 90 then c + 32 else c) s"

definition rate_key_new :: "bytes option \<Rightarrow> u64 \<Rightarrow> rate_key" where
  "rate_key_new peer_addr pid =
    (case Option.bind peer_addr host_of of
       Some h \<Rightarrow> Host (to_ascii_lowercase h)
     | None \<Rightarrow> Handle pid)"

section \<open>The token bucket\<close>

record token_bucket =
  capacity_milli :: u64
  refill_tokens :: u64
  refill_window_ms :: u64
  tokens_milli :: u64
  last_ms :: u64

definition bucket_new :: "u64 \<Rightarrow> u64 \<Rightarrow> u64 \<Rightarrow> token_bucket" where
  "bucket_new capacity refill window =
    (let cap = sat_mul capacity 1000
     in \<lparr>capacity_milli = cap, refill_tokens = refill, refill_window_ms = max window 1,
         tokens_milli = cap, last_ms = 0\<rparr>)"

definition bucket_per_sec :: "u64 \<Rightarrow> u64 \<Rightarrow> token_bucket" where
  "bucket_per_sec capacity refill_per_sec = bucket_new capacity refill_per_sec 1000"

definition bucket_every :: "u64 \<Rightarrow> token_bucket" where
  "bucket_every interval_ms = bucket_new 1 1 interval_ms"

definition refill :: "u64 \<Rightarrow> token_bucket \<Rightarrow> token_bucket" where
  "refill now b =
    (if tokens_milli b \<ge> capacity_milli b then b\<lparr>last_ms := now\<rparr>
     else
       let elapsed = sat_sub now (last_ms b)
       in if elapsed = 0 \<or> refill_tokens b = 0 then b
          else
            let added = sat_mul (sat_mul elapsed (refill_tokens b)) 1000 div refill_window_ms b
            in if added = 0 then b
               else
                 let used = sat_mul added (refill_window_ms b) div max (sat_mul (refill_tokens b) 1000) 1
                 in b\<lparr>last_ms := min (sat_add (last_ms b) used) now,
                      tokens_milli := min (sat_add (tokens_milli b) added) (capacity_milli b)\<rparr>)"

definition try_take :: "u64 \<Rightarrow> u64 \<Rightarrow> token_bucket \<Rightarrow> bool \<times> token_bucket" where
  "try_take n now b =
    (let b1 = refill now b; want = sat_mul n 1000
     in if tokens_milli b1 \<ge> want then (True, b1\<lparr>tokens_milli := tokens_milli b1 - want\<rparr>) else (False, b1))"

definition available :: "token_bucket \<Rightarrow> u64" where
  "available b = tokens_milli b div 1000"

definition available_at :: "u64 \<Rightarrow> token_bucket \<Rightarrow> u64 \<times> token_bucket" where
  "available_at now b = (let b1 = refill now b in (available b1, b1))"

section \<open>The limiter\<close>

record rate_limits =
  msg_burst :: u64
  msg_refill_per_sec :: u64
  byte_burst :: u64
  byte_refill_per_sec :: u64
  getaddr_serve_interval_ms :: u64
  cp_query_serve_interval_ms :: u64
  body_serve_byte_burst :: u64
  body_serve_bytes_per_sec :: u64
  max_getdata_items :: nat
  max_body_bytes_per_getdata :: u64
  max_keys :: nat

definition rate_limits_default :: rate_limits where
  "rate_limits_default =
    \<lparr>msg_burst = msg_burst_default, msg_refill_per_sec = msg_refill_default,
     byte_burst = byte_burst_default, byte_refill_per_sec = byte_refill_default,
     getaddr_serve_interval_ms = getaddr_interval_default,
     cp_query_serve_interval_ms = cp_query_interval_default,
     body_serve_byte_burst = body_serve_burst_default,
     body_serve_bytes_per_sec = body_serve_rate_default,
     max_getdata_items = max_getdata_items_default,
     max_body_bytes_per_getdata = max_body_bytes_default, max_keys = max_rate_keys\<rparr>"

definition rate_limits_unlimited :: rate_limits where
  "rate_limits_unlimited =
    (let big = (umax :: u64) div 1000
     in \<lparr>msg_burst = big, msg_refill_per_sec = big, byte_burst = big, byte_refill_per_sec = big,
         getaddr_serve_interval_ms = 0, cp_query_serve_interval_ms = 0,
         body_serve_byte_burst = big, body_serve_bytes_per_sec = big,
         max_getdata_items = 2 ^ 64 - 1, max_body_bytes_per_getdata = umax, max_keys = max_rate_keys\<rparr>)"

datatype verdict = Allow | TooManyFrames | TooManyBytes

definition verdict_allowed :: "verdict \<Rightarrow> bool" where
  "verdict_allowed v \<longleftrightarrow> v = Allow"

record rate_stats =
  throttled_frames :: u64
  throttled_bytes :: u64
  throttled_getaddr :: u64
  throttled_cp_query :: u64
  throttled_body_serve :: u64
  getdata_items_dropped :: u64
  evicted_keys :: u64
  live_keys :: nat

record rate_entry =
  e_msgs :: token_bucket
  e_bytes :: token_bucket
  e_getaddr :: token_bucket
  e_cp_query :: token_bucket
  e_body_serve :: token_bucket
  last_seen_ms :: u64

record rate_limiter =
  rl_limits :: rate_limits
  rl_entries :: "(rate_key \<times> rate_entry) list"
  rl_stats :: rate_stats

definition limiter_new :: "rate_limits \<Rightarrow> rate_limiter" where
  "limiter_new limits =
    \<lparr>rl_limits = limits, rl_entries = [],
     rl_stats = \<lparr>throttled_frames = 0, throttled_bytes = 0, throttled_getaddr = 0, throttled_cp_query = 0,
       throttled_body_serve = 0, getdata_items_dropped = 0, evicted_keys = 0, live_keys = 0\<rparr>\<rparr>"

definition set_limits :: "rate_limits \<Rightarrow> rate_limiter \<Rightarrow> rate_limiter" where
  "set_limits limits r = r\<lparr>rl_limits := limits, rl_entries := []\<rparr>"

definition stats :: "rate_limiter \<Rightarrow> rate_stats" where
  "stats r = (rl_stats r)\<lparr>live_keys := length (rl_entries r)\<rparr>"

definition interval_bucket :: "u64 \<Rightarrow> token_bucket" where
  "interval_bucket ms = (if ms = 0 then bucket_per_sec (umax div 1000) (umax div 1000) else bucket_every ms)"

definition entry_fresh :: "rate_limits \<Rightarrow> u64 \<Rightarrow> rate_entry" where
  "entry_fresh l now =
    \<lparr>e_msgs = bucket_per_sec (msg_burst l) (msg_refill_per_sec l),
     e_bytes = bucket_per_sec (byte_burst l) (byte_refill_per_sec l),
     e_getaddr = interval_bucket (getaddr_serve_interval_ms l),
     e_cp_query = interval_bucket (cp_query_serve_interval_ms l),
     e_body_serve = bucket_per_sec (body_serve_byte_burst l) (body_serve_bytes_per_sec l),
     last_seen_ms = now\<rparr>"

text \<open>The ages are sorted as pairs, so the order of the hash map does not matter.\<close>

definition ages :: "(rate_key \<times> rate_entry) list \<Rightarrow> (u64 \<times> rate_key) list" where
  "ages m = sort (map (\<lambda>(k, e). (last_seen_ms e, k)) m)"

fun evict_each :: "(u64 \<times> rate_key) list \<Rightarrow> rate_limiter \<Rightarrow> rate_limiter" where
  "evict_each [] r = r"
| "evict_each ((_, k) # as) r =
     evict_each as (r\<lparr>rl_entries := AList.delete k (rl_entries r),
                      rl_stats := (rl_stats r)\<lparr>evicted_keys := evicted_keys (rl_stats r) + 1\<rparr>\<rparr>)"

definition evict_oldest :: "rate_limiter \<Rightarrow> rate_limiter" where
  "evict_oldest r =
    (let drop_n = max (length (rl_entries r) div evict_fraction) 1
     in evict_each (take drop_n (ages (rl_entries r))) r)"

text \<open>
  \<open>entry\<close> hands out a mutable reference: here it returns the entry with the limiter that holds it,
  and \<open>put_entry\<close> writes the updated entry back.
\<close>

definition entry_for :: "rate_key \<Rightarrow> u64 \<Rightarrow> rate_limiter \<Rightarrow> rate_entry \<times> rate_limiter" where
  "entry_for key now r =
    (let r1 = (if map_of (rl_entries r) key = None \<and> length (rl_entries r) \<ge> max_keys (rl_limits r)
               then evict_oldest r else r);
         e0 = (case map_of (rl_entries r1) key of Some e \<Rightarrow> e | None \<Rightarrow> entry_fresh (rl_limits r1) now);
         e = e0\<lparr>last_seen_ms := now\<rparr>
     in (e, r1\<lparr>rl_entries := AList.update key e (rl_entries r1)\<rparr>))"

definition put_entry :: "rate_key \<Rightarrow> rate_entry \<Rightarrow> rate_limiter \<Rightarrow> rate_limiter" where
  "put_entry key e r = r\<lparr>rl_entries := AList.update key e (rl_entries r)\<rparr>"

definition frame_headroom :: "rate_key \<Rightarrow> u64 \<Rightarrow> rate_limiter \<Rightarrow> u64 \<times> rate_limiter" where
  "frame_headroom key now r =
    (case map_of (rl_entries r) key of
       Some e \<Rightarrow> (let (n, b) = available_at now (e_msgs e) in (n, put_entry key (e\<lparr>e_msgs := b\<rparr>) r))
     | None \<Rightarrow> (msg_burst (rl_limits r), r))"

definition charge_frame :: "rate_key \<Rightarrow> nat \<Rightarrow> u64 \<Rightarrow> rate_limiter \<Rightarrow> verdict \<times> rate_limiter" where
  "charge_frame key frame_len now r =
    (let (e, r1) = entry_for key now r;
         (ok_m, m) = try_take 1 now (e_msgs e);
         e1 = e\<lparr>e_msgs := m\<rparr>
     in if \<not> ok_m
        then (TooManyFrames, (put_entry key e1 r1)\<lparr>rl_stats :=
                (rl_stats r1)\<lparr>throttled_frames := throttled_frames (rl_stats r1) + 1\<rparr>\<rparr>)
        else
          let (ok_b, b) = try_take (word_of_nat frame_len) now (e_bytes e1);
              e2 = e1\<lparr>e_bytes := b\<rparr>
          in if \<not> ok_b
             then (TooManyBytes, (put_entry key e2 r1)\<lparr>rl_stats :=
                     (rl_stats r1)\<lparr>throttled_bytes := throttled_bytes (rl_stats r1) + 1\<rparr>\<rparr>)
             else (Allow, put_entry key e2 r1))"

definition may_serve_getaddr :: "rate_key \<Rightarrow> u64 \<Rightarrow> rate_limiter \<Rightarrow> bool \<times> rate_limiter" where
  "may_serve_getaddr key now r =
    (let (e, r1) = entry_for key now r;
         (ok, b) = try_take 1 now (e_getaddr e);
         r2 = put_entry key (e\<lparr>e_getaddr := b\<rparr>) r1
     in if ok then (True, r2)
        else (False, r2\<lparr>rl_stats := (rl_stats r2)\<lparr>throttled_getaddr := throttled_getaddr (rl_stats r2) + 1\<rparr>\<rparr>))"

definition may_serve_cp_query :: "rate_key \<Rightarrow> u64 \<Rightarrow> rate_limiter \<Rightarrow> bool \<times> rate_limiter" where
  "may_serve_cp_query key now r =
    (let (e, r1) = entry_for key now r;
         (ok, b) = try_take 1 now (e_cp_query e);
         r2 = put_entry key (e\<lparr>e_cp_query := b\<rparr>) r1
     in if ok then (True, r2)
        else (False, r2\<lparr>rl_stats := (rl_stats r2)\<lparr>throttled_cp_query := throttled_cp_query (rl_stats r2) + 1\<rparr>\<rparr>))"

definition body_serve_has_budget :: "rate_key \<Rightarrow> u64 \<Rightarrow> rate_limiter \<Rightarrow> bool \<times> rate_limiter" where
  "body_serve_has_budget key now r =
    (let (e, r1) = entry_for key now r;
         (ok, b) = try_take 0 now (e_body_serve e)
     in (ok \<and> available b > 0, put_entry key (e\<lparr>e_body_serve := b\<rparr>) r1))"

definition may_serve_body_bytes :: "rate_key \<Rightarrow> u64 \<Rightarrow> u64 \<Rightarrow> rate_limiter \<Rightarrow> bool \<times> rate_limiter" where
  "may_serve_body_bytes key n now r =
    (let (e, r1) = entry_for key now r;
         (ok, b) = try_take n now (e_body_serve e);
         r2 = put_entry key (e\<lparr>e_body_serve := b\<rparr>) r1
     in if ok then (True, r2)
        else (False, r2\<lparr>rl_stats := (rl_stats r2)\<lparr>throttled_body_serve := throttled_body_serve (rl_stats r2) + 1\<rparr>\<rparr>))"

definition note_getdata_items_dropped :: "nat \<Rightarrow> rate_limiter \<Rightarrow> rate_limiter" where
  "note_getdata_items_dropped n r =
    r\<lparr>rl_stats := (rl_stats r)\<lparr>getdata_items_dropped := sat_add (getdata_items_dropped (rl_stats r)) (word_of_nat n)\<rparr>\<rparr>"

section \<open>What a bucket grants over time\<close>

text \<open>Milli-tokens per window, and the buckets whose rounding is exact: one of the two divides the other.\<close>

definition rate :: "token_bucket \<Rightarrow> nat" where
  "rate b = unat (refill_tokens b) * 1000"

definition window :: "token_bucket \<Rightarrow> nat" where
  "window b = unat (refill_window_ms b)"

definition exact_bucket :: "token_bucket \<Rightarrow> bool" where
  "exact_bucket b \<longleftrightarrow> 0 < window b \<and> (window b dvd rate b \<or> rate b dvd window b)
    \<and> tokens_milli b \<le> capacity_milli b \<and> unat (capacity_milli b) < 2 ^ 64 - 1"

text \<open>The budget: what is in the bucket and what the time since \<open>last_ms\<close> is still worth.\<close>

definition budget :: "nat \<Rightarrow> token_bucket \<Rightarrow> nat" where
  "budget now b = unat (tokens_milli b) * window b + (now - unat (last_ms b)) * rate b"

lemma scale_exact:
  fixes e r w :: nat
  assumes "0 < w" and "w dvd r \<or> r dvd w"
  shows "e * r div w * w div r * r = e * r div w * w"
  using assms
proof (elim disjE)
  assume "w dvd r"
  then obtain c where c: "r = w * c" by auto
  then show ?thesis using assms(1) by (cases "c = 0") (simp_all add: mult.left_commute mult.assoc)
next
  assume "r dvd w"
  then obtain c where c: "w = r * c" by auto
  then show ?thesis by (simp add: mult.left_commute mult.assoc)
qed

lemma refill_frame [simp]:
  "capacity_milli (refill now b) = capacity_milli b" "refill_tokens (refill now b) = refill_tokens b"
  "refill_window_ms (refill now b) = refill_window_ms b"
  "rate (refill now b) = rate b" "window (refill now b) = window b"
  by (simp_all add: refill_def Let_def rate_def window_def)

text \<open>A refill in the naturals, when no product saturates.\<close>

lemma refill_nat:
  assumes "\<not> capacity_milli b \<le> tokens_milli b" and lim: "(unat now - unat (last_ms b)) * rate b < 2 ^ 64"
    and e: "e = unat now - unat (last_ms b)" and added: "added = e * rate b div window b"
    and pos: "0 < e" "0 < rate b" "0 < added"
  shows "unat (tokens_milli (refill now b)) = min (unat (tokens_milli b) + added) (unat (capacity_milli b))"
    and "unat (last_ms (refill now b)) = min (unat (last_ms b) + added * window b div rate b) (unat now)"
proof -
  define el where "el = sat_sub now (last_ms b)"
  have el: "unat el = e" by (simp add: el_def e unat_sat_sub)
  have er: "e * rate b < 2 ^ 64" using lim e by simp
  have "1 * rate b \<le> e * rate b" using pos by (intro mult_le_mono1) simp
  then have r: "rate b < 2 ^ 64" using er by linarith
  have "e * unat (refill_tokens b) \<le> e * rate b" by (intro mult_le_mono2) (simp add: rate_def)
  then have "e * unat (refill_tokens b) < 2 ^ 64" using er by linarith
  then have m: "unat (sat_mul (sat_mul el (refill_tokens b)) 1000) = e * rate b"
    using er by (simp add: unat_sat_mul el rate_def mult.assoc)
  define ad where "ad = sat_mul (sat_mul el (refill_tokens b)) 1000 div refill_window_ms b"
  have ad: "unat ad = added" by (simp add: ad_def unat_div m added window_def)
  have "added * window b \<le> e * rate b" by (simp add: added)
  then have aw: "added * window b < 2 ^ 64" using er by linarith
  define us where "us = sat_mul ad (refill_window_ms b) div max (sat_mul (refill_tokens b) 1000) 1"
  have rt: "unat (sat_mul (refill_tokens b) 1000) = rate b" using r by (simp add: unat_sat_mul rate_def)
  have "unat (sat_mul ad (refill_window_ms b)) = added * window b" using aw by (simp add: unat_sat_mul ad window_def)
  then have us: "unat us = added * window b div rate b"
    using pos by (simp add: us_def unat_div unat_max rt)
  have nz: "el \<noteq> 0" "refill_tokens b \<noteq> 0" "ad \<noteq> 0"
    using pos el ad by (auto simp: rate_def)
  have eq: "refill now b = b\<lparr>last_ms := min (sat_add (last_ms b) us) now,
      tokens_milli := min (sat_add (tokens_milli b) ad) (capacity_milli b)\<rparr>"
    using assms(1) nz by (simp add: refill_def Let_def el_def ad_def us_def)
  show "unat (tokens_milli (refill now b)) = min (unat (tokens_milli b) + added) (unat (capacity_milli b))"
    using unat_lt_exp [of "capacity_milli b"] by (simp add: eq unat_min unat_sat_add ad)
  show "unat (last_ms (refill now b)) = min (unat (last_ms b) + added * window b div rate b) (unat now)"
    using unat_lt_exp [of now] by (simp add: eq unat_min unat_sat_add us)
qed

lemma refill_idle:
  assumes "\<not> capacity_milli b \<le> tokens_milli b" and lim: "(unat now - unat (last_ms b)) * rate b < 2 ^ 64"
    and "(unat now - unat (last_ms b)) * rate b div window b = 0" and "0 < window b"
  shows "refill now b = b"
proof -
  define el where "el = sat_sub now (last_ms b)"
  define e where "e = unat now - unat (last_ms b)"
  have el: "unat el = e" by (simp add: el_def e_def unat_sat_sub)
  have "e * unat (refill_tokens b) \<le> e * rate b" by (intro mult_le_mono2) (simp add: rate_def)
  then have "unat (sat_mul (sat_mul el (refill_tokens b)) 1000) = e * rate b"
    using lim by (simp add: unat_sat_mul el rate_def mult.assoc e_def [symmetric])
  then have "unat (sat_mul (sat_mul el (refill_tokens b)) 1000 div refill_window_ms b) = 0"
    using assms(3) by (simp add: unat_div window_def e_def)
  then show ?thesis using assms(1) by (simp add: refill_def Let_def el_def unat_eq_zero)
qed

lemma refill_budget:
  assumes ex: "exact_bucket b" and now: "unat (last_ms b) \<le> unat now" and lim: "unat now * rate b < 2 ^ 64"
  shows "budget (unat now) (refill now b) \<le> budget (unat now) b
    \<and> exact_bucket (refill now b) \<and> unat (last_ms (refill now b)) \<le> unat now"
proof (cases "capacity_milli b \<le> tokens_milli b")
  case True
  then have "refill now b = b\<lparr>last_ms := now\<rparr>" by (simp add: refill_def)
  with ex show ?thesis by (simp add: budget_def exact_bucket_def rate_def window_def)
next
  case False
  define e added used where "e = unat now - unat (last_ms b)" and "added = e * rate b div window b"
    and "used = added * window b div rate b"
  have w: "0 < window b" using ex by (simp add: exact_bucket_def)
  have "e * rate b \<le> unat now * rate b" by (intro mult_le_mono1) (simp add: e_def)
  then have er: "e * rate b < 2 ^ 64" using lim by linarith
  show ?thesis
  proof (cases "added = 0")
    case True
    then have "refill now b = b" using refill_idle [OF False _ _ w] er by (simp add: e_def added_def)
    with ex now show ?thesis by simp
  next
    case added: False
    then have pos: "0 < e" "0 < rate b" by (auto simp: added_def intro: ccontr)
    note r = refill_nat [OF False er [unfolded e_def] e_def added_def pos]
    have ur: "used * rate b = added * window b"
      using scale_exact [of "window b" "rate b" e] ex w by (simp add: used_def added_def exact_bucket_def)
    have "added * window b \<le> e * rate b" by (simp add: added_def)
    with ur have "used * rate b \<le> e * rate b" by simp
    with pos have ue: "used \<le> e" by simp
    have tok: "unat (tokens_milli (refill now b)) = min (unat (tokens_milli b) + added) (unat (capacity_milli b))"
      using r(1) added by simp
    have "unat (last_ms (refill now b)) = min (unat (last_ms b) + used) (unat now)"
      using r(2) added by (simp add: used_def)
    then have last: "unat (last_ms (refill now b)) = unat (last_ms b) + used" using ue now by (simp add: e_def)
    have "budget (unat now) (refill now b) = unat (tokens_milli (refill now b)) * window b + (e - used) * rate b"
      by (simp add: budget_def last e_def)
    also have "\<dots> \<le> (unat (tokens_milli b) + added) * window b + (e - used) * rate b"
      by (simp add: tok)
    also have "\<dots> = unat (tokens_milli b) * window b + (used * rate b + (e - used) * rate b)"
      by (simp add: ur distrib_right)
    also have "used * rate b + (e - used) * rate b = e * rate b"
      using ue by (simp add: distrib_right [symmetric])
    finally have "budget (unat now) (refill now b) \<le> budget (unat now) b" by (simp add: budget_def e_def)
    moreover have "exact_bucket (refill now b)"
      using ex tok by (simp add: exact_bucket_def word_le_nat_alt)
    ultimately show ?thesis using last ue now by (simp add: e_def)
  qed
qed

lemma take_budget:
  assumes ex: "exact_bucket b" and now: "unat (last_ms b) \<le> unat now" and lim: "unat now * rate b < 2 ^ 64"
    and t: "try_take n now b = (ok, b')"
  shows "budget (unat now) b' + (if ok then unat n * 1000 * window b else 0) \<le> budget (unat now) b
    \<and> exact_bucket b' \<and> unat (last_ms b') \<le> unat now \<and> rate b' = rate b \<and> window b' = window b"
proof -
  define b1 where "b1 = refill now b"
  note r = refill_budget [OF ex now lim, folded b1_def]
  define want where "want = sat_mul n 1000"
  show ?thesis
  proof (cases "want \<le> tokens_milli b1")
    case True
    then have b': "ok" "b' = b1\<lparr>tokens_milli := tokens_milli b1 - want\<rparr>"
      using t by (simp_all add: try_take_def Let_def b1_def want_def)
    have "unat (tokens_milli b1) < 2 ^ 64 - 1" using r by (simp add: exact_bucket_def word_le_nat_alt)
    then have "unat want < 2 ^ 64 - 1" using True by (simp add: word_le_nat_alt)
    then have want: "unat want = unat n * 1000" by (simp add: want_def unat_sat_mul min_def split: if_splits)
    have tk: "unat (tokens_milli b') = unat (tokens_milli b1) - unat n * 1000" "unat n * 1000 \<le> unat (tokens_milli b1)"
      using True want by (simp_all add: b' unat_sub word_le_nat_alt)
    have fr: "window b' = window b" "rate b' = rate b" "last_ms b' = last_ms b1" "capacity_milli b' = capacity_milli b1"
      by (simp_all add: b' b1_def window_def rate_def)
    have bw: "window b1 = window b" "rate b1 = rate b" by (simp_all add: b1_def)
    have "budget (unat now) b' + unat n * 1000 * window b = budget (unat now) b1"
      using tk by (simp add: budget_def fr bw distrib_right [symmetric])
    moreover have "exact_bucket b'" using r tk by (auto simp: exact_bucket_def fr bw word_le_nat_alt)
    ultimately show ?thesis using r b'(1) by (simp add: fr)
  next
    case False
    then have "\<not> ok" "b' = b1" using t by (simp_all add: try_take_def Let_def b1_def want_def)
    then show ?thesis using r by (simp add: b1_def)
  qed
qed

text \<open>What a run of requests \<open>(n, time)\<close> is granted in all.\<close>

fun granted :: "token_bucket \<Rightarrow> (u64 \<times> u64) list \<Rightarrow> nat" where
  "granted b [] = 0"
| "granted b ((n, t) # rs) = (let (ok, b') = try_take n t b in (if ok then unat n else 0) + granted b' rs)"

lemma granted_budget:
  assumes "exact_bucket b" and "sorted_wrt (\<le>) (map snd rs)" and "\<forall>(n, t) \<in> set rs. last_ms b \<le> t \<and> t \<le> e"
    and "unat e * rate b < 2 ^ 64" and "last_ms b \<le> e"
  shows "granted b rs * 1000 * window b \<le> budget (unat e) b"
  using assms
proof (induction b rs rule: granted.induct)
  case (2 b n t rs)
  obtain ok b' where tk: "try_take n t b = (ok, b')" by fastforce
  have te: "last_ms b \<le> t" "t \<le> e" using 2(4) by auto
  have "unat t * rate b \<le> unat e * rate b" using te by (intro mult_le_mono1) (simp add: word_le_nat_alt)
  then have "unat t * rate b < 2 ^ 64" using 2(5) by linarith
  note s = take_budget [OF 2(2) _ this tk] 
  have s: "budget (unat t) b' + (if ok then unat n * 1000 * window b else 0) \<le> budget (unat t) b"
    "exact_bucket b'" "last_ms b' \<le> t" "rate b' = rate b" "window b' = window b"
    using s te by (simp_all add: word_le_nat_alt)
  have later: "\<forall>(n, t') \<in> set rs. last_ms b' \<le> t' \<and> t' \<le> e"
    using 2(3,4) s(3) by (auto intro: order_trans)
  have ih: "granted b' rs * 1000 * window b' \<le> budget (unat e) b'"
    using 2(1) [OF tk [symmetric] refl] s later 2(3,5) te by (auto intro: order_trans)
  have shift: "budget (unat e) x = budget (unat t) x + (unat e - unat t) * rate x" if "last_ms x \<le> t" for x
    using that te by (simp add: budget_def word_le_nat_alt distrib_right [symmetric])
  have "granted b ((n, t) # rs) * 1000 * window b
      = (if ok then unat n * 1000 * window b else 0) + granted b' rs * 1000 * window b'"
    by (simp add: tk s distrib_right)
  also have "\<dots> \<le> (if ok then unat n * 1000 * window b else 0) + (budget (unat t) b' + (unat e - unat t) * rate b)"
    using ih shift [OF s(3)] s(4) by simp
  also have "\<dots> \<le> budget (unat e) b" using s(1) shift [OF te(1)] by simp
  finally show ?case .
qed (simp add: budget_def)

section \<open>The key table\<close>

lemma map_of_evict_each:
  "map_of (rl_entries (evict_each as r)) = (\<lambda>k. if k \<in> snd ` set as then None else map_of (rl_entries r) k)"
  by (induction as r rule: evict_each.induct) (auto simp: hm.get_del)

lemma evict_each_ok: "hm_ok (rl_entries r) \<Longrightarrow> hm_ok (rl_entries (evict_each as r))"
  by (induction as r rule: evict_each.induct) (simp_all add: hm.ok_del)

lemma evict_each_limits [simp]: "rl_limits (evict_each as r) = rl_limits r"
  by (induction as r rule: evict_each.induct) simp_all

lemma ages_keys: "mset (map snd (ages m)) = mset (map fst m)" "length (ages m) = length m"
proof -
  have "mset (map snd (ages m)) = image_mset snd (mset (map (\<lambda>(k, e). (last_seen_ms e, k)) m))"
    by (simp add: ages_def)
  then show "mset (map snd (ages m)) = mset (map fst m)"
    by (simp add: image_mset.compositionality comp_def split_def)
qed (simp add: ages_def)

lemma ages_distinct: "hm_ok m \<Longrightarrow> distinct (map snd (ages m)) \<and> set (map snd (ages m)) = fst ` set m"
  using ages_keys [of m] by (metis hm_ok_def list.set_map mset_eq_imp_distinct_iff mset_eq_setD)

text \<open>One batch removes exactly its share of the keys: never one seen later than a key it keeps.\<close>

lemma evict_oldest_size:
  assumes "hm_ok (rl_entries r)" and "rl_entries r \<noteq> []"
  shows "length (rl_entries (evict_oldest r)) = length (rl_entries r) - max (length (rl_entries r) div evict_fraction) 1"
proof -
  define n where "n = max (length (rl_entries r) div evict_fraction) 1"
  define as where "as = take n (ages (rl_entries r))"
  have e: "evict_oldest r = evict_each as r" by (simp only: evict_oldest_def Let_def as_def n_def)
  have n: "n \<le> length (rl_entries r)" using assms(2) by (cases "rl_entries r") (simp_all add: n_def evict_fraction_def)
  have ok: "hm_ok (rl_entries (evict_oldest r))" using evict_each_ok [OF assms(1)] by (simp add: evict_oldest_def Let_def)
  have d: "distinct (map snd (ages (rl_entries r)))" "set (map snd (ages (rl_entries r))) = dom (map_of (rl_entries r))"
    using ages_distinct [OF assms(1)] by (simp_all add: dom_map_of_conv_image_fst)
  have ks: "snd ` set as = set (take n (map snd (ages (rl_entries r))))" by (simp add: as_def take_map)
  have "card (snd ` set as) = n"
    using d(1) n ages_keys(2) [of "rl_entries r"] unfolding ks by (simp add: distinct_card)
  moreover have sub: "snd ` set as \<subseteq> dom (map_of (rl_entries r))" unfolding ks using d(2) set_take_subset by metis
  moreover have "dom (map_of (rl_entries (evict_oldest r))) = dom (map_of (rl_entries r)) - snd ` set as"
    unfolding e map_of_evict_each by (intro set_eqI) (simp add: domIff)
  moreover have "finite (snd ` set as)" by simp
  ultimately show ?thesis
    using hm.size_card [OF ok] hm.size_card [OF assms(1)] by (simp add: card_Diff_subset n_def)
qed

definition wf_limiter :: "rate_limiter \<Rightarrow> bool" where
  "wf_limiter r \<longleftrightarrow> hm_ok (rl_entries r) \<and> length (rl_entries r) \<le> max (max_keys (rl_limits r)) 1"

lemma entry_for_limits [simp]: "rl_limits (snd (entry_for key now r)) = rl_limits r"
  by (simp add: entry_for_def Let_def evict_oldest_def)

lemma wf_entry_for:
  assumes "wf_limiter r"
  shows "wf_limiter (snd (entry_for key now r)) \<and> map_of (rl_entries (snd (entry_for key now r))) key \<noteq> None"
proof -
  define r1 where "r1 = (if map_of (rl_entries r) key = None \<and> length (rl_entries r) \<ge> max_keys (rl_limits r)
    then evict_oldest r else r)"
  have ok: "hm_ok (rl_entries r1)"
    using assms evict_each_ok by (simp add: r1_def wf_limiter_def evict_oldest_def Let_def)
  have len: "length (rl_entries r1) + (if map_of (rl_entries r1) key = None then 1 else 0) \<le> max (max_keys (rl_limits r)) 1"
  proof (cases "map_of (rl_entries r) key = None \<and> length (rl_entries r) \<ge> max_keys (rl_limits r)")
    case True
    then have r1: "r1 = evict_oldest r" by (simp add: r1_def)
    show ?thesis
    proof (cases "rl_entries r = []")
      case True
      then show ?thesis by (simp add: r1 evict_oldest_def Let_def ages_def)
    next
      case False
      then have "length (rl_entries r) \<noteq> 0" by simp
      then have "length (rl_entries r1) < length (rl_entries r)"
        using evict_oldest_size [of r] assms False by (simp add: r1 wf_limiter_def)
      then show ?thesis using assms by (simp add: wf_limiter_def)
    qed
  next
    case False
    then have "r1 = r" unfolding r1_def by (simp only: if_not_P not_False_eq_True)
    with assms False show ?thesis by (auto simp: wf_limiter_def)
  qed
  have "length (AList.update key e (rl_entries r1)) \<le> max (max_keys (rl_limits r)) 1" for e
    using hm.size_put_new [OF ok, of key e] hm.size_put_old [OF ok, of key e] len
    by (cases "map_of (rl_entries r1) key") auto
  moreover have "rl_limits r1 = rl_limits r" by (simp add: r1_def evict_oldest_def Let_def)
  moreover have "\<exists>e. snd (entry_for key now r) = r1\<lparr>rl_entries := AList.update key e (rl_entries r1)\<rparr>"
    unfolding entry_for_def Let_def r1_def snd_conv by blast
  ultimately show ?thesis using ok by (auto simp: wf_limiter_def hm.ok_put hm.get_put)
qed

lemma wf_put_entry: "wf_limiter r \<Longrightarrow> map_of (rl_entries r) key \<noteq> None \<Longrightarrow> wf_limiter (put_entry key e r)"
  using hm.size_put_old [of "rl_entries r" key e] by (simp add: wf_limiter_def put_entry_def hm.ok_put)

text \<open>Every operation on the table, as one step.\<close>

inductive limiter_step :: "rate_limiter \<Rightarrow> rate_limiter \<Rightarrow> bool" where
  frame: "limiter_step r (snd (charge_frame k n t r))"
| getaddr: "limiter_step r (snd (may_serve_getaddr k t r))"
| cp_query: "limiter_step r (snd (may_serve_cp_query k t r))"
| has_budget: "limiter_step r (snd (body_serve_has_budget k t r))"
| body: "limiter_step r (snd (may_serve_body_bytes k m t r))"
| headroom: "limiter_step r (snd (frame_headroom k t r))"
| limits: "limiter_step r (set_limits l r)"
| dropped: "limiter_step r (note_getdata_items_dropped n r)"

lemma wf_stats [simp]: "wf_limiter (rl_stats_update f r) = wf_limiter r"
  by (simp add: wf_limiter_def)

lemma entry_for_others:
  assumes "entry_for k now r = (e, r1)" and "j \<noteq> k"
  shows "map_of (rl_entries r1) j = map_of (rl_entries r) j
    \<or> length (rl_entries r) \<ge> max_keys (rl_limits r) \<and> map_of (rl_entries r) k = None \<and> map_of (rl_entries r1) j = None"
proof (cases "map_of (rl_entries r) k = None \<and> length (rl_entries r) \<ge> max_keys (rl_limits r)")
  case True
  then have "r1 = (evict_oldest r)\<lparr>rl_entries := AList.update k e (rl_entries (evict_oldest r))\<rparr>"
    using assms(1) by (auto simp: entry_for_def Let_def)
  then show ?thesis using True assms(2) by (simp add: hm.get_put evict_oldest_def Let_def map_of_evict_each)
next
  case False
  then have "r1 = r\<lparr>rl_entries := AList.update k e (rl_entries r)\<rparr>"
    using assms(1) unfolding entry_for_def if_not_P [OF False] by (auto simp: Let_def)
  then show ?thesis using assms(2) by (simp add: hm.get_put)
qed

lemma charge_frame_others:
  assumes "entry_for k now r = (e, r1)" and "j \<noteq> k"
  shows "map_of (rl_entries (snd (charge_frame k n now r))) j = map_of (rl_entries r1) j"
  using assms(2) unfolding charge_frame_def assms(1)
  by (simp add: put_entry_def hm.get_put Let_def split: prod.splits)

lemma wf_serve:
  assumes "wf_limiter r" and "entry_for key now r = (e0, r1)"
  shows "wf_limiter (put_entry key e r1)"
  using wf_entry_for [OF assms(1), of key now] assms(2) by (simp add: wf_put_entry)

lemma wf_step: "limiter_step r r' \<Longrightarrow> wf_limiter r \<Longrightarrow> wf_limiter r'"
proof (induction rule: limiter_step.induct)
  case (headroom r k t)
  then show ?case by (auto simp: frame_headroom_def available_at_def Let_def wf_put_entry split: option.splits)
next
  case (limits r l)
  then show ?case by (simp add: set_limits_def wf_limiter_def hm_ok_def)
next
  case (dropped r n)
  then show ?case by (simp add: note_getdata_items_dropped_def)
qed (auto simp: charge_frame_def may_serve_getaddr_def may_serve_cp_query_def body_serve_has_budget_def
      may_serve_body_bytes_def Let_def wf_serve split: prod.splits)

lemma wf_reachable: "limiter_step\<^sup>*\<^sup>* (limiter_new l) r \<Longrightarrow> wf_limiter r"
proof (induction rule: rtranclp_induct)
  case base
  show ?case by (simp add: limiter_new_def wf_limiter_def hm_ok_def)
qed (rule wf_step)

section \<open>Properties\<close>

text \<open>a token bucket never grants more than its burst plus its rate times the elapsed time: over any
  requests at non-decreasing times the tokens granted are at most the capacity plus the refill of
  the time between the first and the last request. The hypotheses: the window divides the refill
  in milli-tokens or the other way round (true of every bucket the limiter builds per second and
  of the default intervals), and the products stay in 64 bits.\<close>

theorem bucket_rate_bound:
  assumes "0 < w" and "unat w dvd unat rf * 1000 \<or> unat rf * 1000 dvd unat w" and "unat cap * 1000 < 2 ^ 64 - 1"
    and "rs \<noteq> []" and "sorted_wrt (\<le>) (map snd rs)" and "unat (snd (last rs)) * (unat rf * 1000) < 2 ^ 64"
  shows "granted (bucket_new cap rf w) rs * unat w
    \<le> unat cap * unat w + (unat (snd (last rs)) - unat (snd (hd rs))) * unat rf"
proof -
  define b where "b = bucket_new cap rf w"
  define t0 e where "t0 = snd (hd rs)" and "e = snd (last rs)"
  obtain n rest where rs: "rs = (n, t0) # rest" using assms(4) by (cases rs) (auto simp: t0_def)
  have capw: "unat (sat_mul cap 1000) = unat cap * 1000" using assms(3) by (simp add: unat_sat_mul)
  have mw: "max w 1 = w" using assms(1) by (intro max.absorb1) (simp add: word_le_nat_alt word_less_nat_alt)
  have b: "rate b = unat rf * 1000" "window b = unat w" "capacity_milli b = tokens_milli b"
    "unat (tokens_milli b) = unat cap * 1000"
    by (simp_all add: b_def bucket_new_def Let_def rate_def window_def capw mw)
  define b0 where "b0 = b\<lparr>last_ms := t0\<rparr>"
  have ex: "exact_bucket b0"
    using assms(1-3) by (simp add: exact_bucket_def b0_def rate_def window_def word_less_nat_alt)
      (use b in \<open>simp add: rate_def window_def\<close>)
  have same: "granted b rs = granted b0 rs"
    by (simp add: rs try_take_def refill_def b b0_def)
  have le: "t0 \<le> t" if "(m, t) \<in> set rs" for m t using assms(5) that by (auto simp: rs)
  have ge: "t \<le> e" if "(m, t) \<in> set rs" for m t
  proof -
    obtain i where i: "i < length rs" "rs ! i = (m, t)" using \<open>(m, t) \<in> set rs\<close> by (auto simp: in_set_conv_nth)
    have "map snd rs ! i \<le> map snd rs ! (length rs - 1)"
      using assms(5) [unfolded sorted_wrt_iff_nth_less, rule_format, of i "length rs - 1"] i
      by (cases "i = length rs - 1") auto
    then show ?thesis using i by (simp add: e_def last_conv_nth assms(4))
  qed
  have "t0 \<le> e" using ge [of n t0] by (simp add: rs)
  moreover have "\<forall>(m, t) \<in> set rs. last_ms b0 \<le> t \<and> t \<le> e" using le ge by (auto simp: b0_def)
  moreover have "unat e * rate b0 < 2 ^ 64" using assms(6) b(1) by (simp add: b0_def rate_def e_def)
  ultimately have "granted b0 rs * 1000 * window b0 \<le> budget (unat e) b0"
    using granted_budget [OF ex assms(5)] by (simp add: b0_def)
  then have "1000 * (granted b rs * unat w) \<le> 1000 * (unat cap * unat w + (unat e - unat t0) * unat rf)"
    by (simp add: same budget_def b0_def) (use b in \<open>simp add: rate_def window_def algebra_simps\<close>)
  then show ?thesis by (simp add: b_def e_def t0_def)
qed

lemma bucket_rate_bound_witness:
  "granted (bucket_new 2 1 1000) [(1, 10), (1, 20), (1, 30), (1, 1030)] * 1000 \<le> 3020"
  using bucket_rate_bound [of 1000 1 2 "[(1, 10), (1, 20), (1, 30), (1, 1030)]"] by simp

text \<open>the key table stays bounded whatever is charged, served or reconfigured: on every reachable state
  it holds at most \<open>max_keys\<close> keys (one when the limit is zero), each once; and charging one key
  leaves every other key's buckets alone unless the table was full and evicted it.\<close>

theorem rate_keys_bounded:
  assumes "limiter_step\<^sup>*\<^sup>* (limiter_new l) r"
  shows "live_keys (stats r) \<le> max (max_keys (rl_limits r)) 1 \<and> distinct (map fst (rl_entries r))
    \<and> (\<forall>k j n t. j \<noteq> k \<longrightarrow> map_of (rl_entries (snd (charge_frame k n t r))) j = map_of (rl_entries r) j
        \<or> length (rl_entries r) \<ge> max_keys (rl_limits r) \<and> map_of (rl_entries r) k = None
          \<and> map_of (rl_entries (snd (charge_frame k n t r))) j = None)"
proof -
  have "map_of (rl_entries (snd (charge_frame k n t r))) j = map_of (rl_entries r) j
        \<or> length (rl_entries r) \<ge> max_keys (rl_limits r) \<and> map_of (rl_entries r) k = None
          \<and> map_of (rl_entries (snd (charge_frame k n t r))) j = None" if "j \<noteq> k" for k j n t
  proof -
    obtain e r1 where "entry_for k t r = (e, r1)" by fastforce
    with entry_for_others [OF this that] charge_frame_others [OF this that] show ?thesis by simp
  qed
  then show ?thesis using wf_reachable [OF assms] by (simp add: wf_limiter_def stats_def hm_ok_def)
qed

lemma rate_keys_bounded_witness:
  "live_keys (stats (limiter_new rate_limits_default)) \<le> 4096"
  using rate_keys_bounded [of rate_limits_default "limiter_new rate_limits_default", OF rtranclp.rtrancl_refl]
  by (simp add: limiter_new_def rate_limits_default_def max_rate_keys_def)

definition interval_bucket_at :: "u64 \<Rightarrow> u64 \<Rightarrow> u64 \<Rightarrow> token_bucket" where
  "interval_bucket_at k tokens ms = \<lparr>capacity_milli = 1000, refill_tokens = 1, refill_window_ms = k,
    tokens_milli = tokens, last_ms = ms\<rparr>"

lemma interval_bucket_first:
  assumes "1 \<le> k"
  shows "try_take 1 1 (bucket_every k) = (True, interval_bucket_at k 0 1)"
  using max.absorb1 [OF assms] by (simp add: bucket_every_def bucket_new_def interval_bucket_at_def try_take_def refill_def Let_def
      sat_mul_def)

text \<open>A poll one millisecond later adds \<open>1000 div k\<close> milli-tokens and, where \<open>k\<close> does not divide a
  second, charges no time for them.\<close>

lemma interval_bucket_poll:
  assumes k: "3 \<le> unat k" "unat k < 1000" "\<not> unat k dvd 1000" and t: "unat t < 1000"
  shows "\<exists>b. try_take 1 2 (interval_bucket_at k t 1)
      = (if 1000 \<le> unat t + 1000 div unat k then (True, interval_bucket_at k 0 1) else (False, interval_bucket_at k b 1))
    \<and> unat b = unat t + 1000 div unat k"
proof -
  define a where "a = (1000 :: u64) div k"
  have a: "unat a = 1000 div unat k" by (simp add: a_def unat_div)
  have a1: "0 < unat a" "unat a \<le> 333"
    using k(1,2) div_le_mono2 [of 3 "unat k" 1000] by (simp_all add: a div_greater_zero_iff)
  have nz: "a \<noteq> 0" using a1(1) by auto
  have "unat a * unat k \<noteq> 1000" using k(3) by (metis dvd_triv_right)
  moreover have le: "unat a * unat k \<le> 1000" unfolding a by (rule div_times_less_eq_dividend)
  ultimately have lt: "unat a * unat k < 1000" by simp
  have m: "unat (sat_mul a k) = unat a * unat k" using le by (simp add: unat_sat_mul)
  have used: "sat_mul a k div 1000 = 0" using lt by (simp add: word_unat_eq_iff unat_div m)
  have s: "unat (sat_add t a) = unat t + unat a" using t a1 by (simp add: unat_sat_add)
  have ev: "sat_sub 2 1 = (1 :: u64)" "sat_mul (sat_mul 1 1) 1000 = (1000 :: u64)" "max (sat_mul 1 1000) 1 = (1000 :: u64)"
    "sat_add 1 0 = (1 :: u64)" "min 1 2 = (1 :: u64)" "sat_mul 1 1 = (1 :: u64)" "sat_mul 1 1000 = (1000 :: u64)"
    by (simp_all add: sat_sub_def sat_mul_def sat_add_def max_def word_le_nat_alt)
  have "refill 2 (interval_bucket_at k t 1) = interval_bucket_at k (min (sat_add t a) 1000) 1"
    using t a1 by (simp add: refill_def interval_bucket_at_def Let_def ev nz a_def [symmetric] used word_le_nat_alt word_neq_0_unat)
  moreover have "min (sat_add t a) 1000 = (if 1000 \<le> unat t + unat a then 1000 else sat_add t a)"
    by (simp add: min_def word_le_nat_alt s) (simp add: word_unat_eq_iff s)
  moreover have "sat_mul 1 1000 = (1000 :: u64)" by (simp add: sat_mul_def)
  ultimately show ?thesis
    using s by (auto simp: try_take_def Let_def interval_bucket_at_def word_le_nat_alt a [symmetric] intro!: exI [of _ "sat_add t a"])
qed

lemma interval_bucket_grants:
  assumes k: "3 \<le> unat k" "unat k < 1000" "\<not> unat k dvd 1000"
  shows "unat t < 1000 \<Longrightarrow> n + unat t \<le> 1000 * granted (interval_bucket_at k t 1) (replicate n (1, 2)) + 999"
proof (induction n arbitrary: t)
  case (Suc n)
  obtain b where b: "try_take 1 2 (interval_bucket_at k t 1)
      = (if 1000 \<le> unat t + 1000 div unat k then (True, interval_bucket_at k 0 1) else (False, interval_bucket_at k b 1))"
    "unat b = unat t + 1000 div unat k" using interval_bucket_poll [OF k Suc.prems] by blast
  have "0 < 1000 div unat k" using k by (simp add: div_greater_zero_iff)
  then show ?case using b Suc.IH [of 0] Suc.IH [of b] Suc.prems by (cases "1000 \<le> unat t + 1000 div unat k") auto
qed simp

text \<open>C34: an interval below a second that does not divide a second is no limit at all: the time charged for
  the milli-tokens of one elapsed millisecond rounds to zero, so requests repeated at one instant
  fill the bucket again and again. Of \<open>1000 m\<close> requests for one token, all made one millisecond after
  the first, a bucket of one token every \<open>k\<close> milliseconds grants at least \<open>m\<close>.\<close>

theorem short_interval_overgrants:
  assumes "3 \<le> unat k" and "unat k < 1000" and "\<not> unat k dvd 1000"
  shows "granted (bucket_every k) ((1, 1) # replicate (1000 * m) (1, 2)) \<ge> 1 + m"
proof -
  have "try_take 1 1 (bucket_every k) = (True, interval_bucket_at k 0 1)"
    using assms(1) by (intro interval_bucket_first) (simp add: word_le_nat_alt)
  then show ?thesis using interval_bucket_grants [OF assms, of 0 "1000 * m"] by simp
qed

text \<open>An interval of 30 milliseconds, and seven tokens within one.\<close>

lemma short_interval_overgrants_witness: "granted (bucket_every 30) ((1, 1) # replicate 6000 (1, 2)) \<ge> 7"
  using short_interval_overgrants [of 30 6] by simp

end
