(* ===== verification/Spent.thy ===== *)
theory Spent
  imports Prelude "HOL-Library.List_Lexorder"
begin

text \<open>
  The wallet's judgement of what is spent (\<open>qlab-ledger/src/spent.rs\<close>, \<open>coverage.rs\<close> and
  \<open>vocab.rs\<close>): the paged nullifier stream and its checks, the set it yields, the range it covers,
  the merge of covered ranges, and the split of the notes into spendable and spent. The source of
  pages is a parameter (a network endpoint), and so is the derivation of a note's nullifier (the
  circuit's hash). Error texts are byte strings; how an error is printed is a parameter.
\<close>

type_synonym range = "u64 \<times> u64"

section \<open>Covered ranges\<close>

datatype coverage = Empty | Range u64 u64

record coverage_gap =
  gap_left :: range
  gap_right :: range
  gap_missing :: range

definition coverage_range :: "u64 \<Rightarrow> u64 \<Rightarrow> coverage" where
  "coverage_range from to = (if from > to then Empty else Range from to)"

definition from_served :: "range option \<Rightarrow> coverage" where
  "from_served served = (case served of Some (a, b) \<Rightarrow> coverage_range a b | None \<Rightarrow> Empty)"

definition as_served :: "coverage \<Rightarrow> range option" where
  "as_served c = (case c of Empty \<Rightarrow> None | Range from to \<Rightarrow> Some (from, to))"

definition watermark :: "coverage \<Rightarrow> u64 option" where
  "watermark c = (case c of Empty \<Rightarrow> None | Range from to \<Rightarrow> Some to)"

definition contains_range :: "coverage \<Rightarrow> u64 \<Rightarrow> u64 \<Rightarrow> bool" where
  "contains_range c from to = (case c of Empty \<Rightarrow> from > to | Range a b \<Rightarrow> a \<le> from \<and> b \<ge> to)"

fun merge :: "coverage \<Rightarrow> coverage \<Rightarrow> coverage_gap + coverage" where
  "merge Empty x = Ok x"
| "merge x Empty = Ok x"
| "merge (Range a0 a1) (Range b0 b1) =
     (let (lo, hi) = (if a0 \<le> b0 then ((a0, a1), (b0, b1)) else ((b0, b1), (a0, a1)))
      in if sat_add (snd lo) 1 < fst hi
         then Err \<lparr>gap_left = lo, gap_right = hi, gap_missing = (snd lo + 1, fst hi - 1)\<rparr>
         else Ok (Range (fst lo) (max (snd lo) (snd hi))))"

section \<open>The nullifier stream\<close>

record nullifier_chunk =
  nc_from :: u64
  nc_to :: u64
  nc_blocks :: "(u64 \<times> hash32 list) list"

datatype spent_refusal =
    Endpoint bytes
  | RangeMismatch range range
  | OutOfRange u64 range
  | NotAscending u64 u64
  | Gap u64 u64
  | NotCovered "range option" range

record spent_set =
  covered :: "range option"
  nullifiers :: "(hash32 \<times> u64) list"

fun insert_first :: "(u64 \<times> hash32) list \<Rightarrow> (hash32 \<times> u64) list \<Rightarrow> (hash32 \<times> u64) list" where
  "insert_first [] m = m"
| "insert_first ((h, nf) # xs) m = insert_first xs (bt_or_insert nf h m)"

definition spent_from_parts :: "range option \<Rightarrow> (u64 \<times> hash32) list \<Rightarrow> spent_set" where
  "spent_from_parts cov nfs = \<lparr>covered = cov, nullifiers = insert_first nfs []\<rparr>"

definition contains :: "spent_set \<Rightarrow> hash32 \<Rightarrow> bool" where
  "contains s nf \<longleftrightarrow> map_of (nullifiers s) nf \<noteq> None"

definition height_of :: "spent_set \<Rightarrow> hash32 \<Rightarrow> u64 option" where
  "height_of s nf = map_of (nullifiers s) nf"

definition covers_outputs :: "spent_set \<Rightarrow> range option \<Rightarrow> spent_refusal + unit" where
  "covers_outputs s outputs =
    (case outputs of
       None \<Rightarrow> Ok ()
     | Some os \<Rightarrow>
         (case covered s of
            Some (from, to) \<Rightarrow> if from \<le> fst os \<and> to \<ge> snd os then Ok () else Err (NotCovered (covered s) os)
          | None \<Rightarrow> Err (NotCovered (covered s) os)))"

record catch_up =
  cu_set :: spent_set
  cursor :: u64
  cu_to :: u64
  cu_done :: bool

definition catch_new :: "u64 \<Rightarrow> u64 \<Rightarrow> catch_up" where
  "catch_new from to = \<lparr>cu_set = \<lparr>covered = None, nullifiers = []\<rparr>, cursor = from, cu_to = to, cu_done = False\<rparr>"

definition want :: "catch_up \<Rightarrow> range option" where
  "want c = (if \<not> cu_done c then Some (cursor c, cu_to c) else None)"

text \<open>The loop over one page's blocks, threading the set.\<close>

fun supply_blocks :: "u64 \<Rightarrow> u64 \<Rightarrow> (u64 \<times> hash32 list) list \<Rightarrow> spent_set \<Rightarrow> spent_refusal + spent_set" where
  "supply_blocks cur to [] s = Ok s"
| "supply_blocks cur to ((h, nfs) # bs) s =
    (if h < cur \<or> h > to then Err (OutOfRange h (cur, to))
     else
       let step = supply_blocks cur to bs
             \<lparr>covered = Some (case covered s of None \<Rightarrow> h | Some (f, _) \<Rightarrow> f, h),
              nullifiers = insert_first (map (\<lambda>nf. (h, nf)) nfs) (nullifiers s)\<rparr>
       in (case covered s of
             Some (_, prev) \<Rightarrow>
               (if h \<le> prev then Err (NotAscending prev h)
                else if h \<noteq> prev + 1 then Err (Gap (prev + 1) h)
                else step)
           | None \<Rightarrow> step))"

text \<open>\<open>why_done\<close> is the fixed text of the late-page refusal.\<close>

definition why_done :: bytes where
  "why_done = map (\<lambda>c. word_of_nat (of_char c)) ''a page was supplied after the stream completed''"

text \<open>
  A page is either taken or refused; a refused one ends the fetch, and its half-updated catch-up is
  dropped. The result is \<open>None\<close> where the source panics (\<open>expect\<close>).
\<close>

definition catch_supply :: "nullifier_chunk \<Rightarrow> catch_up \<Rightarrow> (spent_refusal + catch_up) option" where
  "catch_supply page c =
    (if cu_done c then Some (Err (Endpoint why_done))
     else if (nc_from page, nc_to page) \<noteq> (cursor c, cu_to c)
     then Some (Err (RangeMismatch (cursor c, cu_to c) (nc_from page, nc_to page)))
     else if nc_blocks page = [] then Some (Ok (c\<lparr>cu_done := True\<rparr>))
     else (case supply_blocks (cursor c) (cu_to c) (nc_blocks page) (cu_set c) of
             Inl e \<Rightarrow> Some (Err e)
           | Inr s \<Rightarrow>
               (case covered s of
                  None \<Rightarrow> None
                | Some (_, lst) \<Rightarrow>
                    if lst \<ge> cu_to c then Some (Ok (c\<lparr>cu_set := s, cu_done := True\<rparr>))
                    else Some (Ok (c\<lparr>cu_set := s, cursor := lst + 1\<rparr>)))))"

definition finish :: "catch_up \<Rightarrow> spent_set" where
  "finish c = cu_set c"

text \<open>Every taken page ends the stream or moves the cursor: the progress that ends the loop.\<close>

lemma supply_blocks_end:
  "supply_blocks cur to bs s = Ok s' \<Longrightarrow> bs \<noteq> [] \<Longrightarrow> \<exists>f l. covered s' = Some (f, l) \<and> cur \<le> l \<and> l \<le> to"
proof (induction bs arbitrary: s)
  case (Cons b bs)
  obtain h nfs where b: "b = (h, nfs)" by fastforce
  define s1 where "s1 = \<lparr>covered = Some (case covered s of None \<Rightarrow> h | Some (f, _) \<Rightarrow> f, h),
    nullifiers = insert_first (map (\<lambda>nf. (h, nf)) nfs) (nullifiers s)\<rparr>"
  have h: "cur \<le> h" "h \<le> to" and rest: "supply_blocks cur to bs s1 = Ok s'"
    using Cons.prems(1) by (auto simp: b Let_def s1_def split: if_splits option.splits)
  show ?case
  proof (cases "bs = []")
    case True
    then show ?thesis using rest h by (auto simp: s1_def)
  qed (rule Cons.IH [OF rest])
qed simp

lemma catch_supply_progress:
  assumes "catch_supply page c = Some (Ok c')"
  shows "\<not> cu_done c \<and> (cu_done c' \<or> cursor c < cursor c')"
proof -
  have nd: "\<not> cu_done c" using assms by (auto simp: catch_supply_def)
  show ?thesis
  proof (cases "nc_blocks page = []")
    case True
    then show ?thesis using assms nd by (auto simp: catch_supply_def split: if_splits)
  next
    case False
    then obtain s where s: "supply_blocks (cursor c) (cu_to c) (nc_blocks page) (cu_set c) = Ok s"
      using assms nd by (auto simp: catch_supply_def split: if_splits sum.splits)
    from supply_blocks_end [OF this False] obtain f l where l: "covered s = Some (f, l)" "cursor c \<le> l" "l \<le> cu_to c"
      by blast
    show ?thesis
    proof (cases "l \<ge> cu_to c")
      case True
      then show ?thesis using assms nd False s l by (auto simp: catch_supply_def split: if_splits)
    next
      case lt: False
      then have "cursor c' = l + 1" using assms nd False s l by (auto simp: catch_supply_def split: if_splits)
      moreover have "unat (l + 1) = unat l + 1"
        using lt unat_lt_exp [of "cu_to c"] by (intro unat_plus_1) (simp add: word_less_nat_alt not_le)
      then have "l < l + 1" by (simp add: word_less_nat_alt)
      ultimately show ?thesis using nd l(2) by (metis le_less_trans)
    qed
  qed
qed

function fetch_loop :: "(u64 \<Rightarrow> u64 \<Rightarrow> bytes + nullifier_chunk) \<Rightarrow> catch_up \<Rightarrow> (spent_refusal + spent_set) option" where
  "fetch_loop src c =
    (case want c of
       None \<Rightarrow> Some (Ok (finish c))
     | Some (f, t) \<Rightarrow>
         (case src f t of
            Inl why \<Rightarrow> Some (Err (Endpoint why))
          | Inr page \<Rightarrow>
              (case catch_supply page c of
                 None \<Rightarrow> None
               | Some (Inl e) \<Rightarrow> Some (Err e)
               | Some (Inr c') \<Rightarrow> fetch_loop src c')))"
  by pat_completeness auto
termination
proof (relation "measure (\<lambda>(src, c). if cu_done c then 0 else 2 ^ 64 - unat (cursor c))")
  fix src :: "u64 \<Rightarrow> u64 \<Rightarrow> bytes + nullifier_chunk" and c x2 x y x2a x2b x2c
  assume "x2b = Inr x2c" and "catch_supply x2a c = Some x2b"
  then have p: "\<not> cu_done c \<and> (cu_done x2c \<or> cursor c < cursor x2c)" by (intro catch_supply_progress) simp
  have "unat (cursor c) < 2 ^ 64" using unat_lt_exp [of "cursor c"] by simp
  then show "((src, x2c), (src, c)) \<in> measure (\<lambda>(src, c). if cu_done c then 0 else 2 ^ 64 - unat (cursor c))"
    using p by (auto simp: word_less_nat_alt)
qed simp

declare fetch_loop.simps [simp del]

definition fetch_spent :: "(u64 \<Rightarrow> u64 \<Rightarrow> bytes + nullifier_chunk) \<Rightarrow> u64 \<Rightarrow> u64 \<Rightarrow> (spent_refusal + spent_set) option" where
  "fetch_spent src from to = fetch_loop src (catch_new from to)"

section \<open>What is quotable\<close>

fun reduce :: "('a \<Rightarrow> 'a \<Rightarrow> 'a) \<Rightarrow> 'a list \<Rightarrow> 'a option" where
  "reduce f [] = None"
| "reduce f (x # xs) = Some (foldl f x xs)"

definition widest_range :: "range option list \<Rightarrow> range option" where
  "widest_range ranges =
    reduce (\<lambda>a b. (min (fst a) (fst b), max (snd a) (snd b))) (List.map_filter (\<lambda>r. r) ranges)"

datatype spent_coverage = Covered "range option" | Unavailable bytes

definition coverage_of ::
  "(spent_refusal \<Rightarrow> bytes) \<Rightarrow> spent_refusal + spent_set \<Rightarrow> range option \<Rightarrow> spent_coverage \<times> spent_set option" where
  "coverage_of display stream outputs =
    (case stream of
       Inl e \<Rightarrow> (Unavailable (display e), None)
     | Inr s \<Rightarrow>
         (case covers_outputs s outputs of
            Inl e \<Rightarrow> (Unavailable (display e), None)
          | Inr _ \<Rightarrow> (Covered (covered s), Some s)))"

definition coverage_for ::
  "(spent_refusal \<Rightarrow> bytes) \<Rightarrow> (u64 \<Rightarrow> u64 \<Rightarrow> bytes + nullifier_chunk) \<Rightarrow> u64 \<Rightarrow> u64 \<Rightarrow> range option
    \<Rightarrow> (spent_coverage \<times> spent_set option) option" where
  "coverage_for display src from to outputs =
    map_option (\<lambda>stream. coverage_of display stream outputs) (fetch_spent src from to)"

record 'n spent_note =
  sn_note :: 'n
  sn_nullifier :: hash32
  spent_height :: u64

record 'n spent_report =
  spendable :: "'n list"
  spent :: "'n spent_note list"

definition spendable_value :: "('n \<Rightarrow> u64) \<Rightarrow> 'n spent_report \<Rightarrow> u128" where
  "spendable_value val r = sum_list (map (\<lambda>n. u128_of (val n)) (spendable r))"

definition spent_value :: "('n \<Rightarrow> u64) \<Rightarrow> 'n spent_report \<Rightarrow> u128" where
  "spent_value val r = sum_list (map (\<lambda>x. u128_of (val (sn_note x))) (spent r))"

fun subtract_spent :: "('n \<Rightarrow> hash32) \<Rightarrow> spent_set \<Rightarrow> 'n list \<Rightarrow> 'n spent_report \<Rightarrow> 'n spent_report" where
  "subtract_spent note_nullifier s [] report = report"
| "subtract_spent note_nullifier s (n # ns) report =
    (let nf = note_nullifier n
     in subtract_spent note_nullifier s ns
          (case height_of s nf of
             Some h \<Rightarrow> report\<lparr>spent := spent report @ [\<lparr>sn_note = n, sn_nullifier = nf, spent_height = h\<rparr>]\<rparr>
           | None \<Rightarrow> report\<lparr>spendable := spendable report @ [n]\<rparr>))"

section \<open>What the stream establishes\<close>

text \<open>
  A source that tells the truth block by block: whatever a page says of a height is what the chain
  holds there. It may leave blocks out, answer short or refuse.
\<close>

definition truthful :: "(u64 \<Rightarrow> u64 \<Rightarrow> bytes + nullifier_chunk) \<Rightarrow> (u64 \<Rightarrow> hash32 list) \<Rightarrow> bool" where
  "truthful src chain \<longleftrightarrow> (\<forall>f t page. src f t = Ok page \<longrightarrow> (\<forall>(h, nfs) \<in> set (nc_blocks page). nfs = chain h))"

definition first_spent :: "(u64 \<Rightarrow> hash32 list) \<Rightarrow> u64 \<Rightarrow> u64 \<Rightarrow> hash32 \<Rightarrow> u64 \<Rightarrow> bool" where
  "first_spent chain f l nf h \<longleftrightarrow> f \<le> h \<and> h \<le> l \<and> nf \<in> set (chain h) \<and> (\<forall>h'. f \<le> h' \<and> h' < h \<longrightarrow> nf \<notin> set (chain h'))"

definition set_exact :: "(u64 \<Rightarrow> hash32 list) \<Rightarrow> spent_set \<Rightarrow> bool" where
  "set_exact chain s \<longleftrightarrow>
    (case covered s of
       None \<Rightarrow> nullifiers s = []
     | Some (f, l) \<Rightarrow> f \<le> l \<and> (\<forall>nf h. map_of (nullifiers s) nf = Some h \<longleftrightarrow> first_spent chain f l nf h))"

lemma map_of_insert_first:
  "map_of (insert_first (map (\<lambda>nf. (h, nf)) nfs) m) nf
    = (case map_of m nf of Some x \<Rightarrow> Some x | None \<Rightarrow> if nf \<in> set nfs then Some h else None)"
  by (induction nfs arbitrary: m) (auto simp: map_of_bt_or_insert split: option.splits)

lemma first_spent_same: "first_spent chain h h nf x \<longleftrightarrow> x = h \<and> nf \<in> set (chain h)"
  by (auto simp: first_spent_def)

lemma word_le_suc: "prev < umax \<Longrightarrow> (x :: u64) \<le> prev + 1 \<longleftrightarrow> x \<le> prev \<or> x = prev + 1"
proof -
  assume "prev < umax"
  then have "unat (prev + 1) = unat prev + 1" by (intro unat_plus_1) (simp add: word_less_nat_alt unat_umax)
  then show ?thesis by (auto simp: word_le_nat_alt word_unat_eq_iff)
qed

lemma first_spent_exists:
  assumes "f \<le> y" and "y \<le> l" and "nf \<in> set (chain y)"
  shows "\<exists>x. first_spent chain f l nf x"
proof -
  define P where "P = (\<lambda>n. \<exists>z. unat z = n \<and> f \<le> z \<and> z \<le> l \<and> nf \<in> set (chain z))"
  have "P (unat y)" using assms by (auto simp: P_def)
  then have L: "P (LEAST n. P n)" by (rule LeastI)
  then obtain z where z: "unat z = (LEAST n. P n)" "f \<le> z" "z \<le> l" "nf \<in> set (chain z)" by (auto simp: P_def)
  have "nf \<notin> set (chain h')" if "f \<le> h'" "h' < z" for h'
  proof
    assume "nf \<in> set (chain h')"
    then have "P (unat h')" using that z(3) by (auto simp: P_def intro: less_imp_le order.strict_trans2)
    then show False using not_less_Least [of "unat h'" P] that z(1) by (simp add: word_less_nat_alt)
  qed
  with z show ?thesis by (auto simp: first_spent_def)
qed

lemma first_spent_step:
  assumes "f \<le> prev" and "prev < umax"
  shows "first_spent chain f (prev + 1) nf h \<longleftrightarrow>
    first_spent chain f prev nf h \<or> h = prev + 1 \<and> nf \<in> set (chain h) \<and> \<not> (\<exists>x. first_spent chain f prev nf x)"
proof -
  note least = first_spent_exists [of f _ prev nf chain]
  have pl: "prev < prev + 1" "f \<le> prev + 1"
    using word_le_suc [OF assms(2), of prev] word_le_suc [OF assms(2), of f] assms
    by (auto simp: order.strict_iff_order)
  note le = word_le_suc [OF assms(2)]
  have lt: "x \<le> prev" if "x < prev + 1" for x using le [of x] that by auto
  show ?thesis (is "?L \<longleftrightarrow> ?R")
  proof
    assume L: ?L
    show ?R
    proof (cases "h \<le> prev")
      case True
      then show ?thesis using L by (simp add: first_spent_def)
    next
      case False
      then have h: "h = prev + 1" using L le by (auto simp: first_spent_def)
      have "\<not> first_spent chain f prev nf x" for x
      proof
        assume x: "first_spent chain f prev nf x"
        then have "x < prev + 1" using pl(1) by (auto simp: first_spent_def intro: order.strict_trans1)
        then show False using L x h by (auto simp: first_spent_def)
      qed
      with L h show ?thesis by (auto simp: first_spent_def)
    qed
  next
    assume R: ?R
    then show ?L
    proof
      assume "first_spent chain f prev nf h"
      then show ?L using pl(1) by (auto simp: first_spent_def intro: less_imp_le order.strict_trans1)
    next
      assume N: "h = prev + 1 \<and> nf \<in> set (chain h) \<and> \<not> (\<exists>x. first_spent chain f prev nf x)"
      then have "nf \<notin> set (chain h')" if "f \<le> h'" "h' < h" for h' using least [of h'] lt that by blast
      with N pl(2) show ?L unfolding first_spent_def by blast
    qed
  qed
qed

lemma supply_blocks_exact:
  "supply_blocks cur to bs s = Ok s' \<Longrightarrow> set_exact chain s \<Longrightarrow> (\<forall>(h, nfs) \<in> set bs. nfs = chain h) \<Longrightarrow> set_exact chain s'"
proof (induction bs arbitrary: s)
  case (Cons b bs)
  obtain h nfs where b: "b = (h, nfs)" by fastforce
  define s1 where "s1 = \<lparr>covered = Some (case covered s of None \<Rightarrow> h | Some (f, _) \<Rightarrow> f, h),
    nullifiers = insert_first (map (\<lambda>nf. (h, nf)) nfs) (nullifiers s)\<rparr>"
  have rest: "supply_blocks cur to bs s1 = Ok s'"
    using Cons.prems(1) by (auto simp: b Let_def s1_def split: if_splits option.splits)
  have nfs: "nfs = chain h" using Cons.prems(3) by (simp add: b)
  have "set_exact chain s1"
  proof (cases "covered s")
    case None
    with Cons.prems(2) have "nullifiers s = []" by (simp add: set_exact_def)
    then show ?thesis
      by (auto simp: set_exact_def s1_def None map_of_insert_first first_spent_same nfs)
  next
    case (Some r)
    obtain f prev where r: "covered s = Some (f, prev)" using Some by (cases r) auto
    have h: "h = prev + 1" "\<not> h \<le> prev" using Cons.prems(1) by (auto simp: b r Let_def split: if_splits)
    have "prev < umax"
    proof (rule ccontr)
      assume "\<not> prev < umax"
      then have "prev = umax" by (simp add: word_less_nat_alt not_less) (metis antisym_conv word_le_nat_alt word_order.extremum)
      with h show False by simp
    qed
    note step = first_spent_step [OF _ this, of f chain]
    have ex: "f \<le> prev" "\<And>nf h. map_of (nullifiers s) nf = Some h \<longleftrightarrow> first_spent chain f prev nf h"
      using Cons.prems(2) by (simp_all add: set_exact_def r)
    have "map_of (nullifiers s1) nf = Some x \<longleftrightarrow> first_spent chain f (prev + 1) nf x" for nf x
      using step [OF ex(1), of nf x] ex(2) [of nf]
      by (cases "map_of (nullifiers s) nf") (auto simp: s1_def map_of_insert_first nfs h(1))
    then show ?thesis using ex(1) h
      by (simp add: set_exact_def s1_def r)
  qed
  with Cons.IH [OF rest] Cons.prems(3) show ?case by simp
qed simp

lemma catch_supply_exact:
  assumes "catch_supply page c = Some (Ok c')" and "set_exact chain (cu_set c)"
    and "\<forall>(h, nfs) \<in> set (nc_blocks page). nfs = chain h"
  shows "set_exact chain (cu_set c')"
proof (cases "nc_blocks page = []")
  case True
  then show ?thesis using assms by (auto simp: catch_supply_def split: if_splits)
next
  case False
  then obtain s where s: "supply_blocks (cursor c) (cu_to c) (nc_blocks page) (cu_set c) = Ok s" "cu_set c' = s"
    using assms(1) by (auto simp: catch_supply_def split: if_splits sum.splits option.splits)
  with supply_blocks_exact [OF s(1) assms(2,3)] show ?thesis by simp
qed

lemma catch_supply_no_panic: "catch_supply page c \<noteq> None"
proof
  assume n: "catch_supply page c = None"
  then obtain s where "supply_blocks (cursor c) (cu_to c) (nc_blocks page) (cu_set c) = Ok s"
    "nc_blocks page \<noteq> []" "covered s = None"
    by (auto simp: catch_supply_def split: if_splits sum.splits option.splits)
  with supply_blocks_end show False by fastforce
qed

lemma fetch_loop_no_panic: "fetch_loop src c \<noteq> None"
  by (induction src c rule: fetch_loop.induct)
    (subst fetch_loop.simps, auto split: option.splits sum.splits simp: catch_supply_no_panic)

lemma fetch_loop_exact:
  "fetch_loop src c = Some (Ok s) \<Longrightarrow> truthful src chain \<Longrightarrow> set_exact chain (cu_set c) \<Longrightarrow> set_exact chain s"
proof (induction src c rule: fetch_loop.induct)
  case (1 src c)
  show ?case
  proof (cases "want c")
    case None
    then show ?thesis using 1 by (simp add: fetch_loop.simps [of src c] finish_def)
  next
    case (Some ft)
    obtain f t where ft: "ft = (f, t)" by fastforce
    from 1(2) Some obtain page c' where p: "src f t = Ok page" "catch_supply page c = Some (Ok c')"
      and rest: "fetch_loop src c' = Some (Ok s)"
      by (subst (asm) fetch_loop.simps) (auto simp: ft split: sum.splits option.splits)
    have "\<forall>(h, nfs) \<in> set (nc_blocks page). nfs = chain h" using 1(3) p(1) by (auto simp: truthful_def)
    from 1(1) [OF Some ft [symmetric] p(1) p(2) refl rest 1(3) catch_supply_exact [OF p(2) 1(4) this]] show ?thesis .
  qed
qed

section \<open>Properties\<close>

text \<open>C23: the spent set is complete over what it is quoted for: from an endpoint that tells the truth about
  each block it serves but may leave any block out, the fetch never panics, and when the set it
  yields passes the coverage check for a range of outputs, a nullifier that is not in the set was
  published in no block of that range, and one that is in the set was published at the recorded
  height and at no earlier one of the range.\<close>

theorem spent_set_complete:
  assumes "truthful src chain" and "fetch_spent src from to = Some (Ok s)"
    and "covers_outputs s (Some (a, b)) = Ok ()"
  shows "(\<not> contains s nf \<longrightarrow> (\<forall>h. a \<le> h \<and> h \<le> b \<longrightarrow> nf \<notin> set (chain h)))
    \<and> (\<forall>h. height_of s nf = Some h \<longrightarrow> nf \<in> set (chain h) \<and> (\<forall>h'. a \<le> h' \<and> h' < h \<longrightarrow> nf \<notin> set (chain h')))
    \<and> fetch_spent src from' to' \<noteq> None"
proof -
  have "set_exact chain (cu_set (catch_new from to))" by (simp add: catch_new_def set_exact_def)
  with fetch_loop_exact assms(1,2) have ex: "set_exact chain s" by (auto simp: fetch_spent_def)
  obtain f l where c: "covered s = Some (f, l)" "f \<le> a" "b \<le> l"
    using assms(3) by (auto simp: covers_outputs_def split: option.splits if_splits)
  with ex have iff: "f \<le> l" "\<And>x h. map_of (nullifiers s) x = Some h \<longleftrightarrow> first_spent chain f l x h"
    by (auto simp: set_exact_def)
  note hit = first_spent_exists [of f _ l nf chain]
  have "nf \<notin> set (chain h)" if "\<not> contains s nf" "a \<le> h" "h \<le> b" for h
    using hit [of h] that c iff(2) [of nf] by (auto simp: contains_def intro: order_trans)
  moreover have "nf \<in> set (chain h)" "a \<le> h' \<Longrightarrow> h' < h \<Longrightarrow> nf \<notin> set (chain h')" if "height_of s nf = Some h" for h h'
    using that iff(2) [of nf h] c(2) by (auto simp: height_of_def first_spent_def intro: order_trans)
  ultimately show ?thesis by (auto simp: fetch_spent_def fetch_loop_no_panic)
qed

definition sample_source :: "u64 \<Rightarrow> u64 \<Rightarrow> bytes + nullifier_chunk" where
  "sample_source f t = Ok \<lparr>nc_from = f, nc_to = t, nc_blocks = [(1, [[7]]), (2, [])]\<rparr>"

definition sample_chain :: "u64 \<Rightarrow> hash32 list" where
  "sample_chain h = (if h = 1 then [[7]] else [])"

lemma sample_fetch: "fetch_spent sample_source 1 2 = Some (Ok \<lparr>covered = Some (1, 2), nullifiers = [([7], 1)]\<rparr>)"
  by (simp add: fetch_spent_def catch_new_def fetch_loop.simps want_def sample_source_def catch_supply_def
      bt_or_insert_def finish_def word_le_nat_alt)

lemma spent_set_complete_witness:
  "[8] \<notin> set (sample_chain 2) \<and> fetch_spent sample_source 0 5 \<noteq> None"
proof -
  have t: "truthful sample_source sample_chain" by (auto simp: truthful_def sample_source_def sample_chain_def)
  show ?thesis
    using spent_set_complete [OF t sample_fetch, of 1 2 "[8]" 0 5] by (simp add: covers_outputs_def contains_def word_le_nat_alt)
qed

text \<open>The heights a range stands for.\<close>

definition heights :: "coverage \<Rightarrow> u64 set" where
  "heights c = (case c of Empty \<Rightarrow> {} | Range a b \<Rightarrow> {a..b})"

definition wf_coverage :: "coverage \<Rightarrow> bool" where
  "wf_coverage c \<longleftrightarrow> (case c of Empty \<Rightarrow> True | Range a b \<Rightarrow> a \<le> b)"

lemma merge_ordered:
  fixes a b c d :: u64
  assumes "a \<le> b" and "c \<le> d" and "a \<le> c"
  shows "\<not> sat_add b 1 < c \<Longrightarrow> {a..b} \<union> {c..d} = {a..max b d}"
    and "sat_add b 1 < c \<Longrightarrow> b + 1 \<le> c - 1 \<and> {b + 1..c - 1} \<inter> ({a..b} \<union> {c..d}) = {} \<and> {a..b} \<union> {c..d} \<noteq> {x..y}"
proof -
  have s: "unat (sat_add b 1) = min (unat b + 1) (2 ^ 64 - 1)" by (simp add: unat_sat_add)
  show "{a..b} \<union> {c..d} = {a..max b d}" if "\<not> sat_add b 1 < c"
  proof -
    have "c \<le> b \<or> unat c \<le> unat b + 1" using that s by (auto simp: word_less_nat_alt not_less)
    then have m: "x \<le> b \<or> c \<le> x" for x by (auto simp: word_le_nat_alt)
    have "x \<in> {a..b} \<union> {c..d} \<longleftrightarrow> x \<in> {a..max b d}" for x
      using m [of x] assms by (auto simp: le_max_iff_disj)
    then show ?thesis by blast
  qed
  assume g: "sat_add b 1 < c"
  then have bc: "unat b + 1 < unat c" using s unat_lt_exp [of c] by (simp add: word_less_nat_alt min_def split: if_splits)
  have u1: "unat (b + 1) = unat b + 1" using bc unat_lt_exp [of c] by (intro unat_plus_1) simp
  have u2: "unat (c - 1) = unat c - 1" using bc by (subst unat_sub_le) (simp_all add: word_le_nat_alt)
  have le: "b + 1 \<le> c - 1" using bc by (simp add: word_le_nat_alt u1 u2)
  have out: "b + 1 \<notin> {a..b} \<union> {c..d}" using bc by (simp add: word_le_nat_alt u1)
  have "{a..b} \<union> {c..d} \<noteq> {x..y}"
  proof
    assume eq: "{a..b} \<union> {c..d} = {x..y}"
    have "b \<in> {x..y}" "c \<in> {x..y}" using assms(1,2) by (simp_all add: eq [symmetric])
    then have "b + 1 \<in> {x..y}" using bc by (simp add: word_le_nat_alt u1)
    with eq out show False by blast
  qed
  moreover have "{b + 1..c - 1} \<inter> ({a..b} \<union> {c..d}) = {}" using bc by (auto simp: word_le_nat_alt u1 u2)
  ultimately show "b + 1 \<le> c - 1 \<and> {b + 1..c - 1} \<inter> ({a..b} \<union> {c..d}) = {} \<and> {a..b} \<union> {c..d} \<noteq> {x..y}"
    using le by blast
qed

text \<open>merging two covered ranges is exact: it succeeds just when the heights covered by either form one
  range, the result covers those heights and no other, and a refusal names heights that neither
  covers and that separate the two.\<close>

theorem merge_exact:
  assumes "wf_coverage x" and "wf_coverage y"
  shows "case merge x y of
      Inr c \<Rightarrow> heights c = heights x \<union> heights y \<and> wf_coverage c
    | Inl g \<Rightarrow> (\<forall>a b. heights x \<union> heights y \<noteq> {a..b}) \<and> fst (gap_missing g) \<le> snd (gap_missing g)
        \<and> {fst (gap_missing g)..snd (gap_missing g)} \<inter> (heights x \<union> heights y) = {}"
proof (cases "x = Empty \<or> y = Empty")
  case True
  then show ?thesis using assms by (cases x; cases y) (auto simp: heights_def wf_coverage_def)
next
  case False
  then obtain a b c d where xy: "x = Range a b" "y = Range c d" by (cases x; cases y) auto
  then have le: "a \<le> b" "c \<le> d" using assms by (simp_all add: wf_coverage_def)
  show ?thesis
  proof (cases "a \<le> c")
    case True
    then show ?thesis using merge_ordered [OF le True] le
      by (simp add: xy heights_def wf_coverage_def le_max_iff_disj)
  next
    case f: False
    then have "c \<le> a" by simp
    then show ?thesis using merge_ordered [OF le(2,1) \<open>c \<le> a\<close>] le f
      by (simp add: xy heights_def wf_coverage_def le_max_iff_disj Un_commute)
  qed
qed

lemma merge_exact_witness:
  "heights (Range 1 9) = heights (Range 5 9) \<union> heights (Range 1 4)"
  using merge_exact [of "Range 5 9" "Range 1 4"] by (simp add: wf_coverage_def sat_add_def word_less_nat_alt word_le_nat_alt max_def)

text \<open>Subtraction, row by row.\<close>

lemma subtract_rows:
  "spendable (subtract_spent nn s ns r0) = spendable r0 @ filter (\<lambda>n. \<not> contains s (nn n)) ns"
  "map sn_note (spent (subtract_spent nn s ns r0)) = map sn_note (spent r0) @ filter (\<lambda>n. contains s (nn n)) ns"
  by (induction ns arbitrary: r0) (auto simp: Let_def contains_def height_of_def split: option.splits)

lemma subtract_heights:
  assumes "\<forall>x \<in> set (spent r0). sn_nullifier x = nn (sn_note x) \<and> height_of s (nn (sn_note x)) = Some (spent_height x)"
    and "x \<in> set (spent (subtract_spent nn s ns r0))"
  shows "sn_nullifier x = nn (sn_note x) \<and> height_of s (nn (sn_note x)) = Some (spent_height x)"
  using assms
proof (induction ns arbitrary: r0)
  case (Cons n ns)
  define r1 where "r1 = (case height_of s (nn n) of
      Some h \<Rightarrow> r0\<lparr>spent := spent r0 @ [\<lparr>sn_note = n, sn_nullifier = nn n, spent_height = h\<rparr>]\<rparr>
    | None \<Rightarrow> r0\<lparr>spendable := spendable r0 @ [n]\<rparr>)"
  have "\<forall>x \<in> set (spent r1). sn_nullifier x = nn (sn_note x) \<and> height_of s (nn (sn_note x)) = Some (spent_height x)"
    using Cons.prems(1) by (auto simp: r1_def split: option.splits)
  moreover have "x \<in> set (spent (subtract_spent nn s ns r1))" using Cons.prems(2) by (simp only: subtract_spent.simps Let_def r1_def)
  ultimately show ?case by (rule Cons.IH)
qed simp

lemma u128_sum_exact:
  assumes "length xs < 2 ^ 64"
  shows "unat (sum_list (map (\<lambda>n. u128_of (f n)) xs)) = sum_list (map (\<lambda>n. unat (f n)) xs)
    \<and> sum_list (map (\<lambda>n. unat (f n)) xs) \<le> length xs * 2 ^ 64"
  using assms
proof (induction xs)
  case (Cons x xs)
  have fx: "unat (f x) < 2 ^ 64" using unat_lt_exp [of "f x"] by simp
  have ih: "unat (sum_list (map (\<lambda>n. u128_of (f n)) xs)) = sum_list (map (\<lambda>n. unat (f n)) xs)"
    "sum_list (map (\<lambda>n. unat (f n)) xs) \<le> length xs * 2 ^ 64" using Cons by simp_all
  have "length (x # xs) * 2 ^ 64 < 2 ^ 64 * 2 ^ 64" using Cons.prems by simp
  then have "unat (u128_of (f x)) + unat (sum_list (map (\<lambda>n. u128_of (f n)) xs)) < 2 ^ 128"
    using ih fx by simp
  then show ?case using ih fx by (simp add: unat_add_small)
qed simp

lemma sum_list_filter_split:
  "sum_list (map f (filter (\<lambda>n. \<not> P n) xs)) + sum_list (map f (filter P xs)) = sum_list (map (f :: _ \<Rightarrow> nat) xs)"
  by (induction xs) simp_all

text \<open>subtracting the spent notes loses nothing: the spendable notes are those whose nullifier is not in
  the set, in order, the spent ones the others with the height the set records, and the two values
  add up to the value of all notes (fewer than \<open>2^64\<close> of them, so the 128-bit sums are exact).\<close>

theorem subtract_partition:
  assumes "length ns < 2 ^ 64" and "r = subtract_spent nn s ns \<lparr>spendable = [], spent = []\<rparr>"
  shows "spendable r = filter (\<lambda>n. \<not> contains s (nn n)) ns
    \<and> map sn_note (spent r) = filter (\<lambda>n. contains s (nn n)) ns
    \<and> (\<forall>x \<in> set (spent r). sn_nullifier x = nn (sn_note x) \<and> height_of s (nn (sn_note x)) = Some (spent_height x))
    \<and> unat (spendable_value val r) + unat (spent_value val r) = sum_list (map (\<lambda>n. unat (val n)) ns)"
proof -
  have r: "spendable r = filter (\<lambda>n. \<not> contains s (nn n)) ns" "map sn_note (spent r) = filter (\<lambda>n. contains s (nn n)) ns"
    by (simp_all add: assms(2) subtract_rows)
  have sp: "spent_value val r = sum_list (map (\<lambda>n. u128_of (val n)) (filter (\<lambda>n. contains s (nn n)) ns))"
    unfolding spent_value_def r(2) [symmetric] by (simp add: comp_def)
  have lens: "length (filter P ns) < 2 ^ 64" for P using assms(1) length_filter_le [of P ns] by linarith
  have "unat (spendable_value val r) + unat (spent_value val r) = sum_list (map (\<lambda>n. unat (val n)) ns)"
    using u128_sum_exact [OF lens] sum_list_filter_split [of "\<lambda>n. unat (val n)" "\<lambda>n. contains s (nn n)" ns]
    by (simp add: spendable_value_def r sp)
  moreover have "\<forall>x \<in> set (spent r). sn_nullifier x = nn (sn_note x) \<and> height_of s (nn (sn_note x)) = Some (spent_height x)"
    unfolding assms(2) by (intro ballI, rule subtract_heights) simp_all
  ultimately show ?thesis using r by blast
qed

lemma subtract_partition_witness:
  "unat (spendable_value (\<lambda>n. if n = 7 then 10 else 20) (subtract_spent (\<lambda>n. [n]) \<lparr>covered = Some (1, 2), nullifiers = [([7], 1)]\<rparr>
      [7, 8] \<lparr>spendable = [], spent = []\<rparr>))
    + unat (spent_value (\<lambda>n. if n = 7 then 10 else 20) (subtract_spent (\<lambda>n. [n]) \<lparr>covered = Some (1, 2), nullifiers = [([7], 1)]\<rparr>
      [7, 8] \<lparr>spendable = [], spent = []\<rparr>)) = 30"
  using subtract_partition [OF _ refl, of "[7, 8]" "\<lambda>n. [n]" "\<lparr>covered = Some (1, 2), nullifiers = [([7], 1)]\<rparr>"
      "\<lambda>n. if n = 7 then 10 else 20"] by simp

end
