(* ===== verification/Auth_Tree.thy ===== *)
theory Auth_Tree
  imports Hashing
begin

text \<open>
  The authorisation tree of \<open>qlab-remote-auth\<close> (\<open>tree.rs\<close>, \<open>rotation.rs\<close> and the tree and cursor of
  \<open>annulet.rs\<close>): the root of all leaves at once, the streaming accumulator that keeps one node per
  level, the path of a leaf and its folding, and the secret order in which leaves are used. An error
  text is a constructor; ML-DSA key generation is the argument \<open>vk_of\<close>, from a seed to the bytes of
  the verifying key. A panic (an index out of range, an exhausted counter) is \<open>None\<close>.
\<close>

unbundle bit_operations_syntax

section \<open>Nodes\<close>

text \<open>\<open>b"qumbra:remote-auth:mldsa44-leaf:v1"\<close> and the other domains, by their characters.\<close>

definition ascii :: "string \<Rightarrow> bytes" where
  "ascii s = map (\<lambda>c. word_of_nat (of_char c)) s"

definition mldsa_leaf_domain :: bytes where "mldsa_leaf_domain = ascii ''qumbra:remote-auth:mldsa44-leaf:v1''"
definition node_domain :: bytes where "node_domain = ascii ''qumbra:remote-auth:tree-node:v1''"

definition mldsa_leaf :: "u32 \<Rightarrow> bytes \<Rightarrow> hash32" where
  "mldsa_leaf index verifying_key = keccak256 (mldsa_leaf_domain @ u32_le index @ verifying_key)"

definition parent :: "u32 \<Rightarrow> hash32 \<Rightarrow> hash32 \<Rightarrow> hash32" where
  "parent level left right = keccak256 (node_domain @ u32_le level @ left @ right)"

datatype tree_version = SpikeV1 | AirMerkle

definition air_node :: "hash32 \<Rightarrow> hash32 \<Rightarrow> hash32" where
  "air_node left right = keccak256 (left @ right)"

definition node_hash :: "tree_version \<Rightarrow> u32 \<Rightarrow> hash32 \<Rightarrow> hash32 \<Rightarrow> hash32" where
  "node_hash v level left right = (case v of SpikeV1 \<Rightarrow> parent level left right | AirMerkle \<Rightarrow> air_node left right)"

datatype tree_error =
    LeavesNotPowerOfTwo
  | DepthOver31
  | TreeFull
  | FrontierInconsistent
  | TreeIncomplete u64 u64
  | RootMissing
  | DepthOutside u8
  | RotationDepth
  | CursorBeyond u32 nat

section \<open>The root of all the leaves\<close>

fun pair_up :: "tree_version \<Rightarrow> u32 \<Rightarrow> hash32 list \<Rightarrow> hash32 list" where
  "pair_up v level (a # b # xs) = node_hash v level a b # pair_up v level xs"
| "pair_up v level _ = []"

lemma length_pair_up [simp]: "length (pair_up v level xs) = length xs div 2"
  by (induction v level xs rule: pair_up.induct) auto

function root_loop :: "tree_version \<Rightarrow> u32 \<Rightarrow> hash32 list \<Rightarrow> hash32 list" where
  "root_loop v level leaves = (if length leaves > 1 then root_loop v (level + 1) (pair_up v level leaves) else leaves)"
  by pat_completeness auto
termination by (relation "measure (\<lambda>(_, _, leaves). length leaves)") auto

declare root_loop.simps [simp del]

definition is_power_of_two :: "nat \<Rightarrow> bool" where
  "is_power_of_two n \<longleftrightarrow> (\<exists>k \<in> set [0..<64]. n = 2 ^ k)"

definition root_with :: "tree_version \<Rightarrow> hash32 list \<Rightarrow> tree_error + hash32" where
  "root_with v leaves =
    (if leaves = [] \<or> \<not> is_power_of_two (length leaves) then Err LeavesNotPowerOfTwo else Ok (hd (root_loop v 0 leaves)))"

definition tree_root :: "hash32 list \<Rightarrow> tree_error + hash32" where
  "tree_root leaves = root_with SpikeV1 leaves"

section \<open>The streaming accumulator\<close>

record root_accumulator =
  ra_version :: tree_version
  ra_depth :: u8
  ra_leaves :: u64
  frontier :: "hash32 option list"

definition acc_new_with :: "tree_version \<Rightarrow> u8 \<Rightarrow> tree_error + root_accumulator" where
  "acc_new_with v depth =
    (if depth > 31 then Err DepthOver31
     else Ok \<lparr>ra_version = v, ra_depth = depth, ra_leaves = 0, frontier = replicate (unat depth + 1) None\<rparr>)"

definition acc_new :: "u8 \<Rightarrow> tree_error + root_accumulator" where
  "acc_new depth = acc_new_with SpikeV1 depth"

definition expected_leaves :: "root_accumulator \<Rightarrow> u64" where
  "expected_leaves a = push_bit (unat (ra_depth a)) 1"

text \<open>The loop of \<open>push\<close>: the low bits of the position say which levels already hold a left node.\<close>

function push_loop :: "tree_version \<Rightarrow> u64 \<Rightarrow> nat \<Rightarrow> hash32 \<Rightarrow> hash32 option list
    \<Rightarrow> ((tree_error + (hash32 \<times> nat)) \<times> hash32 option list) option" where
  "push_loop v pos level node fr =
    (if pos AND 1 = 1
     then (if level < length fr
           then (case fr ! level of
                   None \<Rightarrow> Some (Err FrontierInconsistent, fr)
                 | Some left \<Rightarrow>
                     push_loop v (drop_bit 1 pos) (level + 1) (node_hash v (word_of_nat level) left node) (fr[level := None]))
           else None)
     else Some (Ok (node, level), fr))"
  by pat_completeness auto
termination by (relation "measure (\<lambda>(_, _, level, _, fr). length fr - level)") auto

declare push_loop.simps [simp del]

definition acc_push :: "hash32 \<Rightarrow> root_accumulator \<Rightarrow> ((tree_error + unit) \<times> root_accumulator) option" where
  "acc_push leaf a =
    (if ra_leaves a \<ge> expected_leaves a then Some (Err TreeFull, a)
     else (case push_loop (ra_version a) (ra_leaves a) 0 leaf (frontier a) of
             None \<Rightarrow> None
           | Some (Inl e, fr) \<Rightarrow> Some (Err e, a\<lparr>frontier := fr\<rparr>)
           | Some (Inr (node, level), fr) \<Rightarrow>
               if level < length fr
               then Some (Ok (), a\<lparr>frontier := fr[level := Some node], ra_leaves := ra_leaves a + 1\<rparr>)
               else None))"

definition acc_finish :: "root_accumulator \<Rightarrow> (tree_error + hash32) option" where
  "acc_finish a =
    (if ra_leaves a \<noteq> expected_leaves a then Some (Err (TreeIncomplete (ra_leaves a) (expected_leaves a)))
     else if unat (ra_depth a) < length (frontier a)
     then Some (case frontier a ! unat (ra_depth a) of None \<Rightarrow> Err RootMissing | Some r \<Rightarrow> Ok r)
     else None)"

fun push_all :: "hash32 list \<Rightarrow> root_accumulator \<Rightarrow> (tree_error + root_accumulator) option" where
  "push_all [] a = Some (Ok a)"
| "push_all (x # xs) a =
    (case acc_push x a of
       None \<Rightarrow> None
     | Some (Inl e, _) \<Rightarrow> Some (Err e)
     | Some (Inr _, a') \<Rightarrow> push_all xs a')"

section \<open>Paths\<close>

fun fold_path_loop :: "tree_version \<Rightarrow> u32 \<Rightarrow> hash32 \<Rightarrow> u32 \<Rightarrow> hash32 list \<Rightarrow> hash32" where
  "fold_path_loop v level node index [] = node"
| "fold_path_loop v level node index (sibling # path) =
    fold_path_loop v (level + 1)
      (if index AND 1 = 0 then node_hash v level node sibling else node_hash v level sibling node) (drop_bit 1 index) path"

definition fold_path_with :: "tree_version \<Rightarrow> hash32 \<Rightarrow> u32 \<Rightarrow> hash32 list \<Rightarrow> hash32" where
  "fold_path_with v leaf index path = fold_path_loop v 0 leaf index path"

definition fold_path :: "hash32 \<Rightarrow> u32 \<Rightarrow> hash32 list \<Rightarrow> hash32" where
  "fold_path leaf index path = fold_path_with SpikeV1 leaf index path"

definition fold_auth_path :: "hash32 \<Rightarrow> u32 \<Rightarrow> hash32 list \<Rightarrow> hash32" where
  "fold_auth_path leaf index path = fold_path_with AirMerkle leaf index path"

section \<open>The tree of one master secret\<close>

definition auth_master_domain :: bytes where "auth_master_domain = ascii ''qumbra:remote-auth:annulet-auth-master:v1''"
definition auth_master_v2_domain :: bytes where "auth_master_v2_domain = ascii ''qumbra:remote-auth:annulet-auth-master:v2''"
definition leaf_seed_domain :: bytes where "leaf_seed_domain = ascii ''qumbra:remote-auth:mldsa44-seed:v1''"
definition order_domain :: bytes where "order_domain = ascii ''qumbra:remote-auth:mldsa44-order:v1''"
definition max_measurable_depth :: u8 where "max_measurable_depth = 24"

definition auth_master :: "hash32 \<Rightarrow> u32 \<Rightarrow> hash32" where
  "auth_master sk generation = keccak256 (auth_master_domain @ sk @ u32_le generation)"

definition auth_master_v2 :: "hash32 \<Rightarrow> u32 \<Rightarrow> hash32 \<Rightarrow> hash32" where
  "auth_master_v2 sk generation genesis = keccak256 (auth_master_v2_domain @ sk @ u32_le generation @ genesis)"

datatype auth_net = NetV1 | NetV2 hash32

definition auth_net_of :: "u8 \<Rightarrow> hash32 \<Rightarrow> u8 + auth_net" where
  "auth_net_of d genesis = (if d = 1 then Ok NetV1 else if d = 2 then Ok (NetV2 genesis) else Err d)"

definition net_derivation :: "auth_net \<Rightarrow> u8" where
  "net_derivation n = (case n of NetV1 \<Rightarrow> 1 | NetV2 _ \<Rightarrow> 2)"

definition net_master :: "auth_net \<Rightarrow> hash32 \<Rightarrow> u32 \<Rightarrow> hash32" where
  "net_master n sk generation =
    (case n of NetV1 \<Rightarrow> auth_master sk generation | NetV2 genesis \<Rightarrow> auth_master_v2 sk generation genesis)"

definition leaf_seed :: "hash32 \<Rightarrow> u32 \<Rightarrow> hash32" where
  "leaf_seed master index = keccak256 (leaf_seed_domain @ master @ u32_le index)"

record auth_tree =
  at_depth :: u8
  at_leaves :: "hash32 list"
  at_root :: hash32

definition check_depth :: "u8 \<Rightarrow> tree_error + unit" where
  "check_depth depth = (if depth = 0 \<or> depth > max_measurable_depth then Err (DepthOutside depth) else Ok ())"

definition from_leaves :: "u8 \<Rightarrow> hash32 list \<Rightarrow> (tree_error + auth_tree) option" where
  "from_leaves depth leaves =
    (case acc_new_with AirMerkle depth of
       Inl e \<Rightarrow> Some (Err e)
     | Inr acc \<Rightarrow>
         (case push_all leaves acc of
            None \<Rightarrow> None
          | Some (Inl e) \<Rightarrow> Some (Err e)
          | Some (Inr acc') \<Rightarrow>
              (case acc_finish acc' of
                 None \<Rightarrow> None
               | Some (Inl e) \<Rightarrow> Some (Err e)
               | Some (Inr r) \<Rightarrow> Some (Ok \<lparr>at_depth = depth, at_leaves = leaves, at_root = r\<rparr>))))"

definition tree_build :: "(hash32 \<Rightarrow> bytes) \<Rightarrow> hash32 \<Rightarrow> u8 \<Rightarrow> (tree_error + auth_tree) option" where
  "tree_build vk_of master depth =
    (case check_depth depth of
       Inl e \<Rightarrow> Some (Err e)
     | Inr _ \<Rightarrow>
         from_leaves depth
           (map (\<lambda>i. mldsa_leaf (word_of_nat i) (vk_of (leaf_seed master (word_of_nat i)))) [0..<2 ^ unat depth]))"

function path_loop :: "hash32 list \<Rightarrow> nat \<Rightarrow> hash32 list option" where
  "path_loop level i =
    (if length level > 1
     then (let s = i XOR 1
           in if s < length level then map_option (\<lambda>p. level ! s # p) (path_loop (pair_up AirMerkle 0 level) (drop_bit 1 i))
              else None)
     else Some [])"
  by pat_completeness auto
termination by (relation "measure (\<lambda>(level, _). length level)") auto

declare path_loop.simps [simp del]

definition tree_path :: "auth_tree \<Rightarrow> u32 \<Rightarrow> hash32 list option" where
  "tree_path t index = path_loop (at_leaves t) (unat index)"

section \<open>The order in which leaves are used\<close>

text \<open>\<open>draw_below\<close> repeats until a draw is not biased, which need not happen: the value \<open>None\<close> is a run
  that does not return, or that exhausts the counter.\<close>

definition draw_step :: "bytes \<Rightarrow> hash32 \<Rightarrow> u64 \<Rightarrow> u64 \<Rightarrow> u128" where
  "draw_step domain seed counter upper =
    u128_of (u64_from_le (take 8 (keccak256 (domain @ seed @ u64_le counter)))) * u128_of upper"

partial_function (option) draw_below :: "bytes \<Rightarrow> hash32 \<Rightarrow> u64 \<Rightarrow> u64 \<Rightarrow> (u64 \<times> u64) option" where
  "draw_below domain seed counter upper =
    (if counter = umax then None
     else let product = draw_step domain seed counter upper
          in if u64_of product \<ge> (- upper) mod upper then Some (u64_of (drop_bit 64 product), counter + 1)
             else draw_below domain seed (counter + 1) upper)"

fun shuffle :: "bytes \<Rightarrow> hash32 \<Rightarrow> nat \<Rightarrow> u64 \<Rightarrow> u32 list \<Rightarrow> u32 list option" where
  "shuffle domain seed 0 counter order = Some order"
| "shuffle domain seed (Suc n) counter order =
    (if n = 0 then Some order
     else (case draw_below domain seed counter (word_of_nat (Suc n)) of
             None \<Rightarrow> None
           | Some (i, counter1) \<Rightarrow>
               if n < length order \<and> unat i < length order
               then shuffle domain seed n counter1 (order[n := order ! unat i, unat i := order ! n])
               else None))"

definition selection_order_with :: "bytes \<Rightarrow> hash32 \<Rightarrow> u8 \<Rightarrow> (tree_error + u32 list) option" where
  "selection_order_with domain seed depth =
    (if depth = 0 \<or> depth > max_measurable_depth then Some (Err RotationDepth)
     else map_option Ok (shuffle domain seed (2 ^ unat depth) 0 (map word_of_nat [0..<2 ^ unat depth])))"

definition rotation_order_domain :: bytes where
  "rotation_order_domain = ascii ''qumbra:remote-auth:mldsa44-order:spike-v1''"

definition selection_order :: "hash32 \<Rightarrow> u8 \<Rightarrow> (tree_error + u32 list) option" where
  "selection_order seed depth = selection_order_with rotation_order_domain seed depth"

record auth_cursor =
  cu_depth :: u8
  cu_order :: "u32 list"
  cu_position :: "u32 list"
  cu_next :: u32

text \<open>The positions: entry \<open>order ! p\<close> is set to \<open>p\<close>.\<close>

definition inverse_order :: "u32 list \<Rightarrow> u32 list option" where
  "inverse_order order =
    fold (\<lambda>(p, index) acc. Option.bind acc (\<lambda>ps. if unat index < length ps then Some (ps[unat index := p]) else None))
      (zip (map word_of_nat [0..<length order]) order) (Some (replicate (length order) 0))"

definition cursor_new :: "hash32 \<Rightarrow> u8 \<Rightarrow> u32 \<Rightarrow> (tree_error + auth_cursor) option" where
  "cursor_new master depth nxt =
    (case check_depth depth of
       Inl e \<Rightarrow> Some (Err e)
     | Inr _ \<Rightarrow>
         (case selection_order_with order_domain master depth of
            None \<Rightarrow> None
          | Some (Inl e) \<Rightarrow> Some (Err e)
          | Some (Inr order) \<Rightarrow>
              if unat nxt > length order then Some (Err (CursorBeyond nxt (length order)))
              else map_option (\<lambda>ps. Ok \<lparr>cu_depth = depth, cu_order = order, cu_position = ps, cu_next = nxt\<rparr>)
                (inverse_order order)))"

definition cursor_remaining :: "auth_cursor \<Rightarrow> u32" where
  "cursor_remaining c = word_of_nat (length (cu_order c)) - cu_next c"

definition is_consumed :: "auth_cursor \<Rightarrow> u32 \<Rightarrow> bool" where
  "is_consumed c index \<longleftrightarrow> (if unat index < length (cu_position c) then cu_position c ! unat index < cu_next c else True)"

definition cursor_take :: "auth_cursor \<Rightarrow> u32 option \<times> auth_cursor" where
  "cursor_take c =
    (if unat (cu_next c) < length (cu_order c)
     then (Some (cu_order c ! unat (cu_next c)), c\<lparr>cu_next := cu_next c + 1\<rparr>)
     else (None, c))"

fun take_many :: "nat \<Rightarrow> auth_cursor \<Rightarrow> u32 option list \<times> auth_cursor" where
  "take_many 0 c = ([], c)"
| "take_many (Suc n) c = (let (i, c1) = cursor_take c; (is, c2) = take_many n c1 in (i # is, c2))"

section \<open>Perfect trees\<close>

text \<open>The root of a perfect tree over the leaves, whose lowest nodes are at level \<open>l\<close>: what all three
  algorithms compute.\<close>

fun perfect :: "tree_version \<Rightarrow> u32 \<Rightarrow> nat \<Rightarrow> hash32 list \<Rightarrow> hash32" where
  "perfect v l 0 xs = hd xs"
| "perfect v l (Suc k) xs =
    node_hash v (l + word_of_nat k) (perfect v l k (take (2 ^ k) xs)) (perfect v l k (drop (2 ^ k) xs))"

lemma pair_up_take_drop:
  "pair_up v l (take (2 * m) xs) = take m (pair_up v l xs) \<and> pair_up v l (drop (2 * m) xs) = drop m (pair_up v l xs)"
proof (induction m arbitrary: xs)
  case (Suc m)
  show ?case
  proof (cases xs)
    case (Cons a ys)
    then show ?thesis using Suc.IH by (cases ys) simp_all
  qed simp
qed simp

lemma perfect_pair_up:
  "length xs = 2 ^ Suc k \<Longrightarrow> perfect v (l + 1) k (pair_up v l xs) = perfect v l (Suc k) xs"
proof (induction k arbitrary: xs)
  case 0
  then obtain a b where "xs = [a, b]" by (auto simp: length_Suc_conv numeral_2_eq_2)
  then show ?case by simp
next
  case (Suc k)
  note td = pair_up_take_drop [of v l "2 ^ k" xs]
  have "perfect v (l + 1) k (take (2 ^ k) (pair_up v l xs)) = perfect v l (Suc k) (take (2 ^ Suc k) xs)"
    using Suc.IH [of "take (2 ^ Suc k) xs"] Suc.prems td by simp
  moreover have "perfect v (l + 1) k (drop (2 ^ k) (pair_up v l xs)) = perfect v l (Suc k) (drop (2 ^ Suc k) xs)"
    using Suc.IH [of "drop (2 ^ Suc k) xs"] Suc.prems td by simp
  ultimately show ?case
    by (simp only: perfect.simps(2) [of v "l + 1" k] perfect.simps(2) [of v l "Suc k"]) (simp add: add.commute add.left_commute)
qed

lemma root_loop_perfect: "length xs = 2 ^ k \<Longrightarrow> root_loop v l xs = [perfect v l k xs]"
proof (induction k arbitrary: l xs)
  case 0
  then show ?case by (auto simp: root_loop.simps [of v l xs] length_Suc_conv)
next
  case (Suc k)
  have "(1 :: nat) < 2 ^ Suc k" by (rule one_less_power) simp_all
  then have "1 < length xs" using Suc.prems by simp
  then have "root_loop v l xs = root_loop v (l + 1) (pair_up v l xs)" by (simp add: root_loop.simps [of v l xs])
  also have "\<dots> = [perfect v (l + 1) k (pair_up v l xs)]" by (rule Suc.IH) (use Suc.prems in simp)
  finally show ?case using perfect_pair_up [OF Suc.prems] by simp
qed

lemma root_with_perfect:
  assumes "length xs = 2 ^ d" and "d < 64"
  shows "root_with v xs = Ok (perfect v 0 d xs)"
proof -
  have "is_power_of_two (length xs)" using assms by (auto simp: is_power_of_two_def)
  moreover have "xs \<noteq> []" using assms(1) by auto
  ultimately show ?thesis using root_loop_perfect [OF assms(1)] by (simp add: root_with_def)
qed

section \<open>The accumulator is a binary counter\<close>

text \<open>The frontier from level \<open>k\<close> up stands for the leaves pushed so far, the latest at the lowest level.\<close>

fun rep :: "tree_version \<Rightarrow> nat \<Rightarrow> hash32 option list \<Rightarrow> hash32 list \<Rightarrow> bool" where
  "rep v k [] xs \<longleftrightarrow> xs = []"
| "rep v k (None # fr) xs \<longleftrightarrow> rep v (Suc k) fr xs"
| "rep v k (Some h # fr) xs \<longleftrightarrow>
    (\<exists>ys zs. xs = ys @ zs \<and> length zs = 2 ^ k \<and> h = perfect v 0 k zs \<and> rep v (Suc k) fr ys)"

lemma rep_dvd: "rep v k fr xs \<Longrightarrow> 2 ^ k dvd length xs"
proof (induction v k fr xs rule: rep.induct)
  case (2 v k fr xs)
  then show ?case by (auto intro: dvd_mult_right)
next
  case (3 v k h fr xs)
  then obtain ys zs where "xs = ys @ zs" "length zs = 2 ^ k" "2 ^ Suc k dvd length ys" by auto
  then show ?case by (auto intro: dvd_add dvd_mult_right)
qed simp

lemma rep_parity:
  assumes "rep v k (f # fr) xs"
  shows "(f = None) = even (length xs div 2 ^ k)"
proof (cases f)
  case None
  then have "2 ^ Suc k dvd length xs" using assms rep_dvd [of v "Suc k" fr xs] by simp
  then obtain m where "length xs = 2 ^ k * (2 * m)" by (auto simp: dvd_def mult.assoc)
  then show ?thesis using None by simp
next
  case (Some h)
  then obtain ys zs where x: "xs = ys @ zs" "length zs = 2 ^ k" "rep v (Suc k) fr ys" using assms by auto
  then obtain m where "length ys = 2 ^ k * (2 * m)" using rep_dvd [OF x(3)] by (auto simp: dvd_def mult.assoc)
  then have "length xs = 2 ^ k * (2 * m + 1)" using x by simp
  then have "length xs div 2 ^ k = 2 * m + 1" by simp
  then show ?thesis using Some by simp
qed

lemma rep_nones: "rep v k (replicate n None @ fr) xs = rep v (k + n) fr xs"
  by (induction n arbitrary: k) simp_all

lemma word_low_bit: "pos AND 1 = 1 \<longleftrightarrow> odd (unat (pos :: u64))"
proof -
  have "unat (pos AND 1) = unat pos mod 2" unfolding and_one_eq unat_mod by simp
  then show ?thesis by (simp add: word_unat_eq_iff odd_iff_mod_2_eq_one)
qed

text \<open>One carry chain: the leaves \<open>zs\<close> below level \<open>k\<close> join the ones the frontier holds from \<open>k\<close> up.\<close>

lemma push_loop_rep:
  assumes "drop k fr = fs" and "rep v k fs xs" and "length zs = 2 ^ k" and "unat pos = length xs div 2 ^ k"
    and "length xs + 2 ^ k < 2 ^ length fr" and "\<forall>i < k. fr ! i = None" and "k \<le> length fr"
  shows "\<exists>n j fr'. push_loop v pos k (perfect v 0 k zs) fr = Some (Ok (n, j), fr') \<and> j < length fr' \<and> length fr' = length fr
    \<and> rep v 0 (fr'[j := Some n]) (xs @ zs)"
  using assms
proof (induction fs arbitrary: k fr xs zs pos)
  case Nil
  then have "2 ^ k \<le> (2 :: nat) ^ length fr" "length fr \<le> k" by auto
  then have "(2 :: nat) ^ length fr \<le> 2 ^ k" by (intro power_increasing) simp_all
  then have False using Nil.prems(5) by linarith
  then show ?case ..
next
  case (Cons f fs)
  have kl: "k < length fr" using Cons.prems(1) by (metis drop_all list.distinct(1) not_less)
  have fk: "fr ! k = f" "drop (Suc k) fr = fs" using Cons.prems(1) by (metis kl Cons_nth_drop_Suc list.inject)+
  note par = rep_parity [OF Cons.prems(2)]
  have bit: "pos AND 1 = 1 \<longleftrightarrow> f \<noteq> None"
    unfolding word_low_bit Cons.prems(4) using par by blast
  show ?case
  proof (cases f)
    case None
    have "fr[k := Some (perfect v 0 k zs)] = replicate k None @ Some (perfect v 0 k zs) # fs"
    proof (rule nth_equalityI)
      show "length (fr[k := Some (perfect v 0 k zs)]) = length (replicate k None @ Some (perfect v 0 k zs) # fs)"
        using kl fk(2) by auto
      fix i assume i: "i < length (fr[k := Some (perfect v 0 k zs)])"
      show "fr[k := Some (perfect v 0 k zs)] ! i = (replicate k None @ Some (perfect v 0 k zs) # fs) ! i"
        using i Cons.prems(6) kl fk(2) by (cases "i < k"; cases "i = k") (auto simp: nth_append nth_Cons')
    qed
    then have "rep v 0 (fr[k := Some (perfect v 0 k zs)]) (xs @ zs)"
      using Cons.prems(2,3) None by (auto simp: rep_nones)
    then show ?thesis using bit None kl by (simp add: push_loop.simps [of v pos])
  next
    case (Some left)
    obtain ys ws where x: "xs = ys @ ws" "length ws = 2 ^ k" "left = perfect v 0 k ws" "rep v (Suc k) fs ys"
      using Cons.prems(2) Some by auto
    have node: "node_hash v (word_of_nat k) left (perfect v 0 k zs) = perfect v 0 (Suc k) (ws @ zs)"
      using x(2,3) by simp
    obtain m where m: "length ys = 2 ^ Suc k * m" using rep_dvd [OF x(4)] by (auto simp: dvd_def)
    have "length xs = 2 ^ k * (2 * m + 1)" using x(1,2) m by simp
    then have "length xs div 2 ^ k = 2 * m + 1" by simp
    moreover have "length ys div 2 ^ Suc k = m" using m by simp
    ultimately have u: "unat (drop_bit 1 pos) = length ys div 2 ^ Suc k"
      using Cons.prems(4) by (simp add: unat_drop_bit)
    have nones: "\<forall>i < Suc k. fr[k := None] ! i = None" using Cons.prems(6) kl by (auto simp: nth_list_update less_Suc_eq)
    have "\<exists>n j fr'. push_loop v (drop_bit 1 pos) (Suc k) (perfect v 0 (Suc k) (ws @ zs)) (fr[k := None]) = Some (Ok (n, j), fr')
        \<and> j < length fr' \<and> length fr' = length (fr[k := None]) \<and> rep v 0 (fr'[j := Some n]) (ys @ (ws @ zs))"
      by (rule Cons.IH [OF _ x(4) _ u _ nones]) (use fk(2) x(1,2) Cons.prems(3,5) kl in \<open>simp_all\<close>)
    then show ?thesis using bit Some kl fk(1) node x(1) by (simp add: push_loop.simps [of v pos])
  qed
qed

definition acc_holds :: "root_accumulator \<Rightarrow> hash32 list \<Rightarrow> bool" where
  "acc_holds a xs \<longleftrightarrow> rep (ra_version a) 0 (frontier a) xs \<and> unat (ra_leaves a) = length xs
    \<and> length (frontier a) = unat (ra_depth a) + 1 \<and> unat (ra_depth a) \<le> 31"

lemma expected_leaves_nat: "acc_holds a xs \<Longrightarrow> unat (expected_leaves a) = 2 ^ unat (ra_depth a)"
proof -
  assume "acc_holds a xs"
  then have "unat (ra_depth a) < 64" by (simp add: acc_holds_def)
  then have "(2 :: nat) ^ unat (ra_depth a) < 2 ^ 64" by (intro power_strict_increasing) simp_all
  then have "unat (1 :: u64) * 2 ^ unat (ra_depth a) < 2 ^ LENGTH(64)" by simp
  from unat_push_bit [OF this] show ?thesis by (simp only: expected_leaves_def unat_1 mult_1)
qed

lemma acc_new_holds: "unat depth \<le> 31 \<Longrightarrow> \<exists>a. acc_new_with v depth = Ok a \<and> acc_holds a [] \<and> ra_version a = v \<and> ra_depth a = depth"
proof -
  assume d: "unat depth \<le> 31"
  have "rep v 0 (replicate n None) []" for n using rep_nones [of v 0 n "[]" "[]"] by simp
  moreover have "\<not> depth > 31" using d by (simp add: word_less_nat_alt)
  ultimately show ?thesis using d by (simp add: acc_new_with_def acc_holds_def del: replicate_Suc)
qed

lemma acc_push_holds:
  assumes "acc_holds a xs"
  shows "if length xs < 2 ^ unat (ra_depth a)
    then \<exists>a'. acc_push x a = Some (Ok (), a') \<and> acc_holds a' (xs @ [x]) \<and> ra_version a' = ra_version a \<and> ra_depth a' = ra_depth a
    else acc_push x a = Some (Err TreeFull, a)"
proof (cases "length xs < 2 ^ unat (ra_depth a)")
  case True
  note h = assms [unfolded acc_holds_def]
  have room: "\<not> expected_leaves a \<le> ra_leaves a"
    using True h expected_leaves_nat [OF assms] by (simp add: word_le_nat_alt)
  have "2 ^ unat (ra_depth a) \<le> (2 :: nat) ^ 31" using h by (intro power_increasing) simp_all
  then have suc: "unat (ra_leaves a + 1) = Suc (length xs)" using True h by (subst unat_plus_1) simp_all
  have "length xs + 2 ^ 0 < 2 ^ length (frontier a)" using True h by simp
  then obtain n j fr' where pl: "push_loop (ra_version a) (ra_leaves a) 0 (perfect (ra_version a) 0 0 [x]) (frontier a) = Some (Ok (n, j), fr')"
    "j < length fr'" "length fr' = length (frontier a)" "rep (ra_version a) 0 (fr'[j := Some n]) (xs @ [x])"
    using push_loop_rep [of 0 "frontier a" "frontier a" "ra_version a" xs "[x]" "ra_leaves a"] h by auto
  then show ?thesis using True room suc h by (simp add: acc_push_def acc_holds_def)
next
  case False
  then have "expected_leaves a \<le> ra_leaves a"
    using assms expected_leaves_nat [OF assms] by (simp add: word_le_nat_alt acc_holds_def)
  then show ?thesis using False by (simp add: acc_push_def)
qed

lemma push_all_holds:
  "acc_holds a ys \<Longrightarrow> length ys \<le> 2 ^ unat (ra_depth a) \<Longrightarrow>
    (if length ys + length xs \<le> 2 ^ unat (ra_depth a)
     then \<exists>a'. push_all xs a = Some (Ok a') \<and> acc_holds a' (ys @ xs) \<and> ra_version a' = ra_version a \<and> ra_depth a' = ra_depth a
     else push_all xs a = Some (Err TreeFull))"
proof (induction xs arbitrary: a ys)
  case (Cons x xs)
  show ?case
  proof (cases "length ys < 2 ^ unat (ra_depth a)")
    case True
    then obtain a' where a': "acc_push x a = Some (Ok (), a')" "acc_holds a' (ys @ [x])" "ra_version a' = ra_version a" "ra_depth a' = ra_depth a"
      using acc_push_holds [OF Cons.prems(1), of x] by auto
    then show ?thesis using Cons.IH [OF a'(2)] True by auto
  next
    case False
    then show ?thesis using acc_push_holds [OF Cons.prems(1), of x] by simp
  qed
qed simp

lemma rep_full:
  "rep v k fr xs \<Longrightarrow> length xs = 2 ^ (k + n) \<Longrightarrow> n < length fr \<Longrightarrow> fr ! n = Some (perfect v 0 (k + n) xs)"
proof (induction n arbitrary: k fr)
  case 0
  then obtain f fs where fr: "fr = f # fs" by (cases fr) auto
  then have "f \<noteq> None" using rep_parity [of v k f fs xs] 0 by simp
  then show ?case using 0 fr by auto
next
  case (Suc n)
  then obtain f fs where fr: "fr = f # fs" by (cases fr) auto
  have "length xs div 2 ^ k = 2 * 2 ^ n" using Suc.prems(2) by (simp add: power_add)
  then have "f = None" using rep_parity [of v k f fs xs] Suc.prems(1) fr by simp
  then show ?case using Suc.IH [of "Suc k" fs] Suc.prems fr by simp
qed

lemma acc_finish_root:
  assumes "acc_holds a xs"
  shows "acc_finish a = Some (if length xs = 2 ^ unat (ra_depth a) then root_with (ra_version a) xs
    else Err (TreeIncomplete (ra_leaves a) (expected_leaves a)))"
proof -
  note h = assms [unfolded acc_holds_def]
  have "ra_leaves a = expected_leaves a \<longleftrightarrow> length xs = 2 ^ unat (ra_depth a)"
    using h expected_leaves_nat [OF assms] by (simp add: word_unat_eq_iff)
  moreover have "frontier a ! unat (ra_depth a) = Some (perfect (ra_version a) 0 (unat (ra_depth a)) xs)"
    if "length xs = 2 ^ unat (ra_depth a)"
    using rep_full [of "ra_version a" 0 "frontier a" xs "unat (ra_depth a)"] h that by simp
  ultimately show ?thesis using h root_with_perfect [of xs "unat (ra_depth a)"] by (auto simp: acc_finish_def)
qed

section \<open>Paths fold to the root\<close>

lemma pair_up_nth: "2 * j + 1 < length xs \<Longrightarrow> pair_up v l xs ! j = node_hash v l (xs ! (2 * j)) (xs ! (2 * j + 1))"
proof (induction v l xs arbitrary: j rule: pair_up.induct)
  case (1 v level a b xs)
  then show ?case by (cases j) simp_all
qed simp_all

lemma air_level [simp]: "node_hash AirMerkle l a b = air_node a b"
  by (simp add: node_hash_def)

lemma air_perfect_level: "perfect AirMerkle l k xs = perfect AirMerkle 0 k xs"
  by (induction k arbitrary: l xs) (metis perfect.simps(1), metis air_level perfect.simps(2))

lemma path_folds:
  "length xs = 2 ^ k \<Longrightarrow> unat i < 2 ^ k \<Longrightarrow>
    \<exists>p. path_loop xs (unat i) = Some p \<and> length p = k \<and> fold_path_loop AirMerkle l (xs ! unat i) i p = perfect AirMerkle 0 k xs"
proof (induction k arbitrary: xs i l)
  case 0
  then obtain x where "xs = [x]" by (auto simp: length_Suc_conv)
  then show ?case using 0 by (simp add: path_loop.simps [of "[x]"])
next
  case (Suc k)
  define n where "n = unat i"
  define m where "m = n div 2"
  have len: "length (pair_up AirMerkle 0 xs) = 2 ^ k" using Suc.prems(1) by simp
  have d: "unat (drop_bit 1 i) = m" by (simp add: unat_drop_bit m_def n_def)
  have mk: "m < 2 ^ k" using Suc.prems(2) by (simp add: m_def n_def less_mult_imp_div_less)
  then have inb: "2 * m + 1 < length xs" using Suc.prems(1) by simp
  obtain p where p: "path_loop (pair_up AirMerkle 0 xs) m = Some p" "length p = k"
    "fold_path_loop AirMerkle (l + 1) (pair_up AirMerkle 0 xs ! m) (drop_bit 1 i) p = perfect AirMerkle 0 k (pair_up AirMerkle 0 xs)"
    using Suc.IH [OF len, of "drop_bit 1 i" "l + 1"] d mk by auto
  have top: "perfect AirMerkle 0 k (pair_up AirMerkle 0 xs) = perfect AirMerkle 0 (Suc k) xs"
    using perfect_pair_up [OF Suc.prems(1), of AirMerkle 0] by (metis air_perfect_level)
  have "(1 :: nat) < 2 ^ Suc k" by (rule one_less_power) simp_all
  then have many: "1 < length xs" using Suc.prems(1) by simp
  have low: "i AND 1 = 0 \<longleftrightarrow> even n"
  proof -
    have "unat (i AND 1) = n mod 2" unfolding and_one_eq unat_mod n_def by simp
    then show ?thesis by (simp add: word_unat_eq_iff even_iff_mod_2_eq_zero)
  qed
  have sib: "n XOR 1 = (if even n then 2 * m + 1 else 2 * m)" "n = (if even n then 2 * m else 2 * m + 1)"
    unfolding xor_one_eq m_def by (auto elim!: evenE oddE simp del: One_nat_def)
  have node: "pair_up AirMerkle 0 xs ! m = air_node (xs ! (2 * m)) (xs ! (2 * m + 1))" using pair_up_nth [OF inb] by simp
  have dn: "drop_bit 1 n = m" by (simp add: drop_bit_eq_div m_def)
  have "path_loop xs n = Some (xs ! (n XOR 1) # p)"
    using many sib(1) inb p(1) dn by (subst path_loop.simps) (auto simp: Let_def)
  moreover have "fold_path_loop AirMerkle l (xs ! n) i (xs ! (n XOR 1) # p) = perfect AirMerkle 0 (Suc k) xs"
  proof (cases "even n")
    case True
    then show ?thesis using low sib p(3) node top by simp
  next
    case False
    then show ?thesis using low sib p(3) node top by simp
  qed
  ultimately show ?case using p(2) unfolding n_def [symmetric] by auto
qed

section \<open>The order is a permutation\<close>

lemma draw_step_bound:
  assumes "upper \<noteq> 0"
  shows "u64_of (drop_bit 64 (draw_step domain seed counter upper)) < upper"
proof -
  define r where "r = u64_from_le (take 8 (keccak256 (domain @ seed @ u64_le counter)))"
  have u: "0 < unat upper" using assms by (simp add: unat_gt_0)
  have "unat r * unat upper < 2 ^ 64 * unat upper" using unat_lt_exp [of r] u by (intro mult_strict_right_mono) simp_all
  also have "\<dots> < 2 ^ 64 * 2 ^ 64" using unat_lt_exp [of upper] by (intro mult_strict_left_mono) simp_all
  finally have "unat r * unat upper < 2 ^ 128" by simp
  then have p: "unat (draw_step domain seed counter upper) = unat r * unat upper"
    by (simp add: draw_step_def r_def [symmetric] unat_word_ariths)
  have q: "unat r * unat upper div 2 ^ 64 < unat upper"
    using unat_lt_exp [of r] u by (intro less_mult_imp_div_less) (simp add: mult.commute)
  then have "unat (drop_bit 64 (draw_step domain seed counter upper)) < 2 ^ 64"
    unfolding unat_drop_bit p using unat_lt_exp [of upper] by simp
  then show ?thesis using q by (simp add: word_less_nat_alt unat_u64_of_small unat_drop_bit p)
qed

lemma draw_below_less: "draw_below domain seed counter upper = Some r \<Longrightarrow> upper \<noteq> 0 \<longrightarrow> fst r < upper"
  by (rule draw_below.raw_induct [where P = "\<lambda>_ _ _ u r. u \<noteq> 0 \<longrightarrow> fst r < u", rotated])
    (auto simp: Let_def draw_step_bound split: if_splits)

lemma shuffle_permutes:
  "shuffle domain seed n counter order = Some order' \<Longrightarrow> n < 2 ^ 64
    \<Longrightarrow> length order' = length order \<and> set order' = set order \<and> distinct order' = distinct order"
proof (induction domain seed n counter order rule: shuffle.induct)
  case (2 domain seed n counter order)
  show ?case
  proof (cases "n = 0")
    case False
    then obtain i c where d: "draw_below domain seed counter (word_of_nat (Suc n)) = Some (i, c)" "n < length order" "unat i < length order"
      "shuffle domain seed n c (order[n := order ! unat i, unat i := order ! n]) = Some order'"
      using 2(2) by (auto split: option.splits if_splits)
    have "n < 2 ^ 64" using 2(3) by simp
    from 2(1) [OF False d(1) refl _ d(4) this] d(2,3) show ?thesis by (simp add: set_swap distinct_swap)
  qed (use 2(2) in simp)
qed simp

lemma shuffle_no_panic:
  assumes "n \<le> length order" and "length order < 2 ^ 64"
    and "\<forall>ct u. u \<noteq> 0 \<longrightarrow> draw_below domain seed ct u \<noteq> None"
  shows "shuffle domain seed n ct order \<noteq> None"
  using assms(1,2)
proof (induction n arbitrary: ct order)
  case (Suc n)
  have u: "unat (word_of_nat (Suc n) :: u64) = Suc n" using Suc.prems by (intro unat_of_nat_len) simp
  then have nz: "(word_of_nat (Suc n) :: u64) \<noteq> 0" by (metis unat_0 nat.distinct(1))
  then obtain i c where d: "draw_below domain seed ct (word_of_nat (Suc n)) = Some (i, c)" using assms(3) by fastforce
  have "unat i < Suc n" using draw_below_less [OF d] nz u by (simp add: word_less_nat_alt)
  then show ?case using Suc d by (auto simp del: of_nat_Suc)
qed simp

section \<open>The cursor never hands out a leaf twice\<close>

lemma inverse_fold:
  assumes "length qs = length os" and "distinct (map unat os)" and "\<forall>w \<in> set os. unat w < length ps"
  shows "\<exists>ps'. fold (\<lambda>(p, index) acc. Option.bind acc (\<lambda>ps. if unat index < length ps then Some (ps[unat index := p]) else None))
      (zip qs os) (Some ps) = Some ps' \<and> length ps' = length ps
    \<and> (\<forall>j < length os. ps' ! unat (os ! j) = qs ! j) \<and> (\<forall>k. k \<notin> unat ` set os \<longrightarrow> ps' ! k = ps ! k)"
  using assms
proof (induction qs os arbitrary: ps rule: list_induct2)
  case (Cons q qs w ws)
  obtain ps' where ps': "fold (\<lambda>(p, index) acc. Option.bind acc (\<lambda>ps. if unat index < length ps then Some (ps[unat index := p]) else None))
      (zip qs ws) (Some (ps[unat w := q])) = Some ps'" "length ps' = length ps"
    "\<forall>j < length ws. ps' ! unat (ws ! j) = qs ! j" "\<forall>k. k \<notin> unat ` set ws \<longrightarrow> ps' ! k = ps[unat w := q] ! k"
    using Cons.IH [of "ps[unat w := q]"] Cons.prems by auto
  have "ps' ! unat w = q" using ps'(4) Cons.prems by auto
  then have "ps' ! unat ((w # ws) ! j) = (q # qs) ! j" if "j < length (w # ws)" for j
    using that ps'(3) by (cases j) auto
  moreover have "ps' ! k = ps ! k" if "k \<notin> unat ` set (w # ws)" for k using that ps'(4) by auto
  ultimately show ?case using ps'(1,2) Cons.prems by auto
qed simp

text \<open>What a cursor satisfies: its order is a permutation of the leaves and its table the inverse.\<close>

definition wf_cursor :: "auth_cursor \<Rightarrow> bool" where
  "wf_cursor c \<longleftrightarrow> distinct (cu_order c) \<and> length (cu_position c) = length (cu_order c) \<and> length (cu_order c) < 2 ^ 32
    \<and> unat ` set (cu_order c) = {..<length (cu_order c)} \<and> unat (cu_next c) \<le> length (cu_order c)
    \<and> (\<forall>p < length (cu_order c). cu_position c ! unat (cu_order c ! p) = word_of_nat p)"

lemma unat_small_depth: "depth \<le> max_measurable_depth \<Longrightarrow> (2 :: nat) ^ unat depth \<le> 2 ^ 24"
  by (intro power_increasing) (simp_all add: word_le_nat_alt max_measurable_depth_def)

lemma cursor_new_wf:
  assumes "cursor_new master depth nxt = Some (Ok c)"
  shows "wf_cursor c \<and> length (cu_order c) = 2 ^ unat depth \<and> cu_next c = nxt"
proof -
  define n where "n = (2 :: nat) ^ unat depth"
  define start where "start = map (word_of_nat :: nat \<Rightarrow> u32) [0..<n]"
  obtain order ps where o: "check_depth depth = Ok ()" "shuffle order_domain master n 0 start = Some order"
    "inverse_order order = Some ps" "c = \<lparr>cu_depth = depth, cu_order = order, cu_position = ps, cu_next = nxt\<rparr>"
    "unat nxt \<le> length order"
    using assms by (auto simp: cursor_new_def selection_order_with_def n_def start_def split: sum.splits option.splits if_splits)
  have n24: "n \<le> 2 ^ 24" using o(1) unat_small_depth [of depth] by (simp add: check_depth_def n_def not_less split: if_splits)
  have um: "map unat start = [0..<n]" unfolding start_def map_map comp_def
    using n24 by (intro map_idI) (simp add: unat_of_nat_len)
  have "distinct (map unat start)" by (simp add: um)
  then have ds: "distinct start" by (simp add: distinct_map)
  have perm: "length order = n" "set order = set start" "distinct order"
    using shuffle_permutes [OF o(2)] n24 ds by (auto simp: start_def)
  have img: "unat ` set order = {..<n}"
    unfolding perm(2) set_map [symmetric] um by (simp add: lessThan_atLeast0)
  have dm: "distinct (map unat order)" using perm(3) by (simp add: distinct_map inj_on_def word_unat_eq_iff)
  have "\<forall>w \<in> set order. unat w < n" using img by blast
  then obtain ps' where "inverse_order order = Some ps'" "length ps' = n" "\<forall>j < n. ps' ! unat (order ! j) = word_of_nat j"
    using inverse_fold [of "map word_of_nat [0..<n]" order "replicate n 0"] perm(1) dm by (auto simp: inverse_order_def)
  then show ?thesis using o(3,4,5) perm img n24 by (simp add: wf_cursor_def n_def)
qed

lemma consumed_iff:
  assumes "wf_cursor c" and "w \<in> set (cu_order c)"
  shows "is_consumed c w \<longleftrightarrow> w \<in> set (take (unat (cu_next c)) (cu_order c))"
proof -
  note wf = assms(1) [unfolded wf_cursor_def]
  obtain p where p: "p < length (cu_order c)" "w = cu_order c ! p" using assms(2) by (auto simp: in_set_conv_nth)
  have "unat w < length (cu_position c)" using wf assms(2) by (metis imageI lessThan_iff)
  moreover have "unat (word_of_nat p :: u32) = p" using p(1) wf by (intro unat_of_nat_len) simp
  ultimately have c: "is_consumed c w \<longleftrightarrow> p < unat (cu_next c)" using p wf by (simp add: is_consumed_def word_less_nat_alt)
  show ?thesis
  proof
    assume "is_consumed c w"
    then show "w \<in> set (take (unat (cu_next c)) (cu_order c))" using c p by (auto simp: in_set_conv_nth)
  next
    assume "w \<in> set (take (unat (cu_next c)) (cu_order c))"
    then obtain q where "q < unat (cu_next c)" "q < length (cu_order c)" "w = cu_order c ! q" by (auto simp: in_set_conv_nth)
    then show "is_consumed c w" using c p wf nth_eq_iff_index_eq by metis
  qed
qed

lemma take_many_from:
  "wf_cursor c \<Longrightarrow> unat (cu_next c) + n \<le> length (cu_order c) \<Longrightarrow>
    take_many n c = (map Some (take n (drop (unat (cu_next c)) (cu_order c))), c\<lparr>cu_next := word_of_nat (unat (cu_next c) + n)\<rparr>)
    \<and> wf_cursor (c\<lparr>cu_next := word_of_nat (unat (cu_next c) + n)\<rparr>)"
proof (induction n arbitrary: c)
  case (Suc n)
  note wf = Suc.prems(1) [unfolded wf_cursor_def]
  have lt: "unat (cu_next c) < length (cu_order c)" using Suc.prems(2) by simp
  define c1 where "c1 = c\<lparr>cu_next := cu_next c + 1\<rparr>"
  have n1: "unat (cu_next c1) = Suc (unat (cu_next c))" using lt wf by (simp add: c1_def unat_plus_1)
  have "wf_cursor c1" using wf lt n1 by (simp add: wf_cursor_def) (simp add: c1_def)
  moreover have "unat (cu_next c1) + n \<le> length (cu_order c1)" using Suc.prems(2) n1 by (simp add: c1_def)
  ultimately have ih: "take_many n c1 = (map Some (take n (drop (unat (cu_next c1)) (cu_order c1))), c1\<lparr>cu_next := word_of_nat (unat (cu_next c1) + n)\<rparr>)
    \<and> wf_cursor (c1\<lparr>cu_next := word_of_nat (unat (cu_next c1) + n)\<rparr>)" by (rule Suc.IH)
  have "take (Suc n) (drop (unat (cu_next c)) (cu_order c))
      = cu_order c ! unat (cu_next c) # take n (drop (Suc (unat (cu_next c))) (cu_order c))"
    using lt by (simp add: Cons_nth_drop_Suc [symmetric])
  moreover have "take_many (Suc n) c = (Some (cu_order c ! unat (cu_next c)) # fst (take_many n c1), snd (take_many n c1))"
    using lt by (simp add: cursor_take_def c1_def split_beta Let_def)
  ultimately show ?case using ih n1 by (simp add: c1_def ac_simps)
qed simp

section \<open>Properties\<close>

text \<open>the streaming accumulator computes the root of the batch routine: fed all the leaves of a tree of the given
  depth it returns that root, whatever the node hash; with fewer it reports how many are missing, with
  more it refuses the first surplus leaf, and it never panics or finds its frontier inconsistent.\<close>

theorem accumulator_is_root:
  assumes "unat depth \<le> 31"
  shows "\<exists>a0. acc_new_with v depth = Ok a0 \<and>
    (if length leaves > 2 ^ unat depth then push_all leaves a0 = Some (Err TreeFull)
     else \<exists>a. push_all leaves a0 = Some (Ok a) \<and>
       acc_finish a = Some (if length leaves = 2 ^ unat depth then root_with v leaves
         else Err (TreeIncomplete (word_of_nat (length leaves)) (2 ^ unat depth))))"
proof -
  obtain a0 where a0: "acc_new_with v depth = Ok a0" "acc_holds a0 []" "ra_version a0 = v" "ra_depth a0 = depth"
    using acc_new_holds [OF assms] by blast
  show ?thesis
  proof (cases "length leaves > 2 ^ unat depth")
    case True
    then show ?thesis using push_all_holds [OF a0(2), of leaves] a0 by simp
  next
    case False
    then obtain a where a: "push_all leaves a0 = Some (Ok a)" "acc_holds a leaves" "ra_version a = v" "ra_depth a = depth"
      using push_all_holds [OF a0(2), of leaves] a0 by auto
    have "ra_leaves a = word_of_nat (unat (ra_leaves a))" by simp
    then have "ra_leaves a = word_of_nat (length leaves)" using a(2) by (simp only: acc_holds_def)
    moreover have "expected_leaves a = 2 ^ unat depth" using a(4) by (simp add: expected_leaves_def push_bit_of_1)
    ultimately show ?thesis using False a0(1) a acc_finish_root [OF a(2)] by auto
  qed
qed

lemma accumulator_is_root_witness:
  "\<exists>a0 a. acc_new_with SpikeV1 1 = Ok a0 \<and> push_all [[1], [2]] a0 = Some (Ok a) \<and> acc_finish a = Some (root_with SpikeV1 [[1], [2]])"
  using accumulator_is_root [of 1 SpikeV1 "[[1], [2]]"] by auto

text \<open>the path the wallet extracts for a leaf folds back to the root of its tree, for every leaf, and is as
  long as the tree is deep.\<close>

theorem auth_path_verifies:
  assumes "from_leaves depth leaves = Some (Ok t)" and "unat depth \<le> 31" and "unat i < 2 ^ unat depth"
  shows "\<exists>p. tree_path t i = Some p \<and> length p = unat depth \<and> fold_auth_path (leaves ! unat i) i p = at_root t"
proof -
  obtain a0 where a0: "acc_new_with AirMerkle depth = Ok a0" "acc_holds a0 []" "ra_version a0 = AirMerkle" "ra_depth a0 = depth"
    using acc_new_holds [OF assms(2)] by blast
  obtain a where a: "push_all leaves a0 = Some (Ok a)" "acc_finish a = Some (Ok (at_root t))" "at_leaves t = leaves"
    using assms(1) a0(1) by (auto simp: from_leaves_def split: option.splits sum.splits)
  then have h: "acc_holds a leaves" "ra_version a = AirMerkle" "ra_depth a = depth"
    using push_all_holds [OF a0(2), of leaves] a0 by (auto split: if_splits)
  then have full: "length leaves = 2 ^ unat depth" "root_with AirMerkle leaves = Ok (at_root t)"
    using acc_finish_root [OF h(1)] a(2) by (auto split: if_splits)
  then have "at_root t = perfect AirMerkle 0 (unat depth) leaves"
    using root_with_perfect [OF full(1), of AirMerkle] assms(2) by simp
  then show ?thesis
    using path_folds [OF full(1) assms(3), of 0] a(3) by (simp add: tree_path_def fold_auth_path_def fold_path_with_def)
qed

lemma auth_path_verifies_witness:
  "\<exists>t p. from_leaves 1 [[1], [2]] = Some (Ok t) \<and> tree_path t 1 = Some p \<and> fold_auth_path [2] 1 p = at_root t"
proof -
  obtain r where "from_leaves 1 [[1], [2]] = Some (Ok \<lparr>at_depth = 1, at_leaves = [[1], [2]], at_root = r\<rparr>)"
    using accumulator_is_root [of 1 AirMerkle "[[1], [2]]"] root_with_perfect [of "[[1], [2]]" 1 AirMerkle]
    by (auto simp: from_leaves_def)
  with auth_path_verifies [OF this, of 1] show ?thesis by auto
qed

text \<open>a wallet's cursor never hands out a one-time leaf twice: from a cursor restored at any position, the
  leaves of any number of takes are all different, none was consumed before the run, all are consumed
  after it, each is a leaf of the tree, and a take fails only when no leaf is left.\<close>

theorem cursor_never_reuses:
  assumes "cursor_new master depth nxt = Some (Ok c)" and "take_many n c = (is, c')"
  shows "\<exists>ws. is = map Some ws @ replicate (n - length ws) None \<and> length ws = min n (2 ^ unat depth - unat nxt) \<and> distinct ws
    \<and> (\<forall>w \<in> set ws. unat w < 2 ^ unat depth \<and> \<not> is_consumed c w \<and> is_consumed c' w)"
proof -
  have wf: "wf_cursor c" and len: "length (cu_order c) = 2 ^ unat depth" and nx: "cu_next c = nxt"
    using cursor_new_wf [OF assms(1)] by auto
  note w = wf [unfolded wf_cursor_def]
  define m where "m = min n (2 ^ unat depth - unat nxt)"
  define c1 where "c1 = c\<lparr>cu_next := word_of_nat (unat nxt + m)\<rparr>"
  define ws where "ws = take m (drop (unat nxt) (cu_order c))"
  have fit: "unat nxt + m \<le> length (cu_order c)" using w unfolding m_def nx [symmetric] len [symmetric] by auto
  have run: "take_many m c = (map Some ws, c1)" "wf_cursor c1" using take_many_from [OF wf, of m] fit nx by (simp_all add: ws_def c1_def)
  have u1: "unat (cu_next c1) = unat nxt + m" unfolding c1_def using fit w by (simp add: unat_of_nat_len del: of_nat_add)
  have all: "is = map Some ws @ replicate (n - m) None \<and> c' = c1"
  proof -
    have stuck: "take_many k c1 = (replicate k None, c1)" if "unat (cu_next c1) = length (cu_order c1)" for k
      using that by (induction k) (simp_all add: cursor_take_def)
    have split: "take_many (a + b) d = (fst (take_many a d) @ fst (take_many b (snd (take_many a d))), snd (take_many b (snd (take_many a d))))"
      for a b d by (induction a arbitrary: d) (simp_all add: split_beta Let_def)
    show ?thesis
    proof (cases "m = n")
      case False
      then have "unat (cu_next c1) = length (cu_order c1)" using u1 len w nx by (simp add: c1_def m_def min_def split: if_splits)
      from stuck [OF this] show ?thesis using split [of m "n - m" c] run(1) assms(2) by (simp add: m_def)
    qed (use run(1) assms(2) in simp)
  qed
  have lw: "length ws = m" using fit by (simp add: ws_def)
  have "distinct ws" using w by (simp add: ws_def)
  moreover have "unat x < 2 ^ unat depth \<and> \<not> is_consumed c x \<and> is_consumed c' x" if "x \<in> set ws" for x
  proof -
    have mem: "x \<in> set (cu_order c)" using that by (auto simp: ws_def dest: in_set_takeD in_set_dropD)
    have "distinct (take (unat nxt) (cu_order c) @ drop (unat nxt) (cu_order c))" using w by simp
    then have "x \<notin> set (take (unat nxt) (cu_order c))" using that by (auto simp: ws_def dest: in_set_takeD simp del: append_take_drop_id)
    then have "\<not> is_consumed c x" using consumed_iff [OF wf mem] nx by simp
    moreover have "x \<in> set (take (unat nxt + m) (cu_order c))" using that by (simp add: ws_def take_add)
    then have "is_consumed c1 x" using consumed_iff [OF run(2), of x] mem u1 by (simp add: c1_def)
    ultimately show ?thesis using mem w len all by (metis imageI lessThan_iff)
  qed
  ultimately show ?thesis using all lw m_def by (intro exI [of _ ws]) simp
qed

lemma cursor_never_reuses_witness:
  "\<exists>c ws c'. cursor_new [7] 1 0 = Some (Ok c) \<and> take_many 2 c = (map Some ws, c') \<and> distinct ws \<and> length ws = 2"
proof -
  have depth: "\<not> max_measurable_depth < 1" "max_measurable_depth \<noteq> 0" by (simp_all add: max_measurable_depth_def)
  have "(- 2 :: u64) mod 2 = 0" by simp
  then have "draw_below order_domain [7] 0 2 = Some (u64_of (drop_bit 64 (draw_step order_domain [7] 0 2)), 1)"
    by (subst draw_below.simps) (simp add: Let_def)
  moreover have "u64_of (drop_bit 64 (draw_step order_domain [7] 0 2)) < 2" by (rule draw_step_bound) simp
  ultimately obtain i where i: "draw_below order_domain [7] 0 2 = Some (i, 1)" "unat i < 2" by (auto simp: word_less_nat_alt)
  then have "selection_order_with order_domain [7] 1 = Some (Ok ([0, 1][1 := [0, 1] ! unat i, unat i := 1]))"
    by (simp add: selection_order_with_def depth numeral_2_eq_2)
  moreover from i(2) have "inverse_order ([0, 1][1 := [0, 1] ! unat i, unat i := 1]) \<noteq> None"
    by (auto simp: less_Suc_eq numeral_2_eq_2 inverse_order_def)
  ultimately obtain c where c: "cursor_new [7] 1 0 = Some (Ok c)"
    by (auto simp: cursor_new_def check_depth_def max_measurable_depth_def)
  obtain ls c' where t: "take_many 2 c = (ls, c')" by fastforce
  from cursor_never_reuses [OF c t] show ?thesis using c t by auto
qed

end
