(* ===== verification/Annulet_Auth.thy ===== *)
theory Annulet_Auth
  imports Auth_Tree Compact
begin

text \<open>
  Spend authorisation of \<open>qlab-remote-auth/src/annulet.rs\<close>: the intent an authorisation signs, the
  section that carries the signatures, its byte form, and the check of a section against an intent.
  The ML-DSA library is the argument \<open>lib_verify key message signature\<close> (decoding of key and signature
  included); a signing key is the pair of its public bytes and its signing function. An error text
  \<open>Malformed(String)\<close> is one constructor per text.
\<close>

section \<open>Descriptors, shapes and errors\<close>

datatype auth_descriptor = MlDsa44 u32 hash32 | WotsSha2 hash32 u32 hash32

definition descriptor_leaf_index :: "auth_descriptor \<Rightarrow> u32" where
  "descriptor_leaf_index d = (case d of MlDsa44 i _ \<Rightarrow> i | WotsSha2 _ i _ \<Rightarrow> i)"

definition descriptor_leaf :: "auth_descriptor \<Rightarrow> hash32" where
  "descriptor_leaf d = (case d of MlDsa44 _ l \<Rightarrow> l | WotsSha2 _ _ l \<Rightarrow> l)"

definition descriptor_public_seed :: "auth_descriptor \<Rightarrow> hash32 option" where
  "descriptor_public_seed d = (case d of MlDsa44 _ _ \<Rightarrow> None | WotsSha2 s _ _ \<Rightarrow> Some s)"

definition mldsa_encoded_bytes :: nat where "mldsa_encoded_bytes = 4 + 32"
definition verifying_key_bytes :: nat where "verifying_key_bytes = 1312"
definition signature_bytes :: nat where "signature_bytes = 2420"

datatype auth_shape = ShapeS | ShapeP | ShapeR

definition shape_tag :: "auth_shape \<Rightarrow> u8" where
  "shape_tag s = (case s of ShapeS \<Rightarrow> 1 | ShapeP \<Rightarrow> 2 | ShapeR \<Rightarrow> 3)"

definition shape_from_tag :: "u8 \<Rightarrow> auth_shape option" where
  "shape_from_tag t = (if t = 1 then Some ShapeS else if t = 2 then Some ShapeP else if t = 3 then Some ShapeR else None)"

definition shape_slots :: "auth_shape \<Rightarrow> nat" where
  "shape_slots s = (case s of ShapeS \<Rightarrow> 3 | ShapeP \<Rightarrow> 3 | ShapeR \<Rightarrow> 1)"

definition annulet_v3_genesis_format :: u32 where "annulet_v3_genesis_format = 34"

definition intent_outputs :: "u32 \<Rightarrow> auth_shape \<Rightarrow> nat" where
  "intent_outputs genesis_format s = (if s \<noteq> ShapeR \<and> genesis_format = annulet_v3_genesis_format then 3 else 2)"

datatype auth_error =
    DescriptorNotMlDsa nat
  | NotAnnuletShape nat
  | SlotNotMlDsa nat
  | SlotWidth nat
  | ShortSection nat
  | WrongMagic
  | SectionVersion u16
  | WrongSectionLength nat nat
  | Scheme u8
  | SlotCount nat nat
  | OutputCount nat nat
  | ValidityMismatch
  | DescriptorMismatch nat
  | LeafMismatch nat
  | BadAuthSignature nat
  | AuthExpired u64 u64

definition check_expiry :: "u64 \<Rightarrow> u64 \<Rightarrow> auth_error + unit" where
  "check_expiry valid_until h = (if h > valid_until then Err (AuthExpired valid_until h) else Ok ())"

section \<open>The intent\<close>

definition intent_domain :: bytes where "intent_domain = ascii ''qumbra:remote-auth:intent:annulet:v1''"
definition intent_version :: u16 where "intent_version = 1"
definition scheme_mldsa44 :: u8 where "scheme_mldsa44 = 1"

record annulet_intent =
  in_genesis_format :: u32
  in_genesis_hash :: hash32
  in_shape :: auth_shape
  in_anchor :: hash32
  in_nullifiers :: "hash32 list"
  in_commitments :: "hash32 list"
  in_bucket :: u8
  in_valid_until :: u64
  in_fee :: u64
  in_registry_root :: hash32
  in_surface_hash :: hash32
  in_discovery_hash :: hash32
  in_auth :: "auth_descriptor list"

definition is_mldsa :: "auth_descriptor \<Rightarrow> bool" where
  "is_mldsa d = (case d of MlDsa44 _ _ \<Rightarrow> True | WotsSha2 _ _ _ \<Rightarrow> False)"

definition validate_shape :: "annulet_intent \<Rightarrow> auth_error + unit" where
  "validate_shape i =
    (let expected = shape_slots (in_shape i); outputs = intent_outputs (in_genesis_format i) (in_shape i)
     in if length (in_nullifiers i) \<noteq> expected then Err (SlotCount expected (length (in_nullifiers i)))
        else if length (in_auth i) \<noteq> expected then Err (SlotCount expected (length (in_auth i)))
        else if length (in_commitments i) \<noteq> outputs then Err (OutputCount outputs (length (in_commitments i)))
        else (case position (\<lambda>d. \<not> is_mldsa d) (in_auth i) of Some s \<Rightarrow> Err (DescriptorNotMlDsa s) | None \<Rightarrow> Ok ()))"

definition descriptor_bytes :: "auth_descriptor \<Rightarrow> bytes" where
  "descriptor_bytes d = u32_le (descriptor_leaf_index d) @ descriptor_leaf d"

definition intent_encode :: "annulet_intent \<Rightarrow> auth_error + bytes" where
  "intent_encode i =
    rbind (validate_shape i) (\<lambda>_. Ok
      (intent_domain @ u16_le intent_version @ u32_le (in_genesis_format i) @ in_genesis_hash i @ [shape_tag (in_shape i)]
       @ in_anchor i @ concat (in_nullifiers i) @ concat (in_commitments i) @ [in_bucket i] @ u64_le (in_valid_until i)
       @ u64_le (in_fee i) @ in_registry_root i @ in_surface_hash i @ in_discovery_hash i @ [scheme_mldsa44]
       @ concat (map descriptor_bytes (in_auth i))))"

definition intent_digest :: "annulet_intent \<Rightarrow> auth_error + hash32" where
  "intent_digest i = rbind (intent_encode i) (\<lambda>b. Ok (keccak256 b))"

section \<open>The section\<close>

record auth_slot =
  sl_descriptor :: auth_descriptor
  sl_key :: bytes
  sl_signature :: bytes

record auth_section =
  se_valid_until :: u64
  se_slots :: "auth_slot list"

definition section_magic :: bytes where "section_magic = ascii ''QRA1''"
definition section_version :: u16 where "section_version = 2"
definition section_header_bytes :: nat where "section_header_bytes = 4 + 2 + 1 + 1 + 8"
definition slot_bytes :: nat where "slot_bytes = mldsa_encoded_bytes + verifying_key_bytes + signature_bytes"

definition section_encoded_len :: "auth_shape \<Rightarrow> nat" where
  "section_encoded_len s = section_header_bytes + shape_slots s * slot_bytes"

definition section_sign :: "annulet_intent \<Rightarrow> (bytes \<times> (hash32 \<Rightarrow> bytes)) list \<Rightarrow> auth_error + auth_section" where
  "section_sign i keys =
    rbind (validate_shape i) (\<lambda>_.
      if length keys \<noteq> length (in_auth i) then Err (SlotCount (length (in_auth i)) (length keys))
      else rbind (intent_digest i) (\<lambda>digest.
        Ok \<lparr>se_valid_until = in_valid_until i,
          se_slots = map (\<lambda>((vk, sign), d). \<lparr>sl_descriptor = d, sl_key = vk, sl_signature = sign digest\<rparr>) (zip keys (in_auth i))\<rparr>))"

fun encode_slots :: "nat \<Rightarrow> auth_slot list \<Rightarrow> auth_error + bytes" where
  "encode_slots i [] = Ok []"
| "encode_slots i (s # ss) =
    (case sl_descriptor s of
       WotsSha2 _ _ _ \<Rightarrow> Err (SlotNotMlDsa i)
     | MlDsa44 leaf_index leaf \<Rightarrow>
         if length (sl_key s) \<noteq> verifying_key_bytes \<or> length (sl_signature s) \<noteq> signature_bytes then Err (SlotWidth i)
         else rbind (encode_slots (Suc i) ss) (\<lambda>rest. Ok (u32_le leaf_index @ leaf @ sl_key s @ sl_signature s @ rest)))"

definition section_encode :: "auth_section \<Rightarrow> auth_error + bytes" where
  "section_encode s =
    (let n = length (se_slots s)
     in if n \<noteq> 1 \<and> n \<noteq> 3 then Err (NotAnnuletShape n)
        else rbind (encode_slots 0 (se_slots s)) (\<lambda>rest.
          Ok (section_magic @ u16_le section_version @ [scheme_mldsa44] @ [word_of_nat n] @ u64_le (se_valid_until s) @ rest)))"

definition decode_slot :: "bytes \<Rightarrow> auth_slot" where
  "decode_slot c =
    \<lparr>sl_descriptor = MlDsa44 (u32_from_le (take 4 c)) (slice_at 4 32 c),
     sl_key = slice_at mldsa_encoded_bytes verifying_key_bytes c,
     sl_signature = drop (mldsa_encoded_bytes + verifying_key_bytes) c\<rparr>"

definition section_decode :: "auth_shape \<Rightarrow> bytes \<Rightarrow> auth_error + auth_section" where
  "section_decode shape b =
    (if length b < section_header_bytes then Err (ShortSection (length b))
     else if take 4 b \<noteq> section_magic then Err WrongMagic
     else
       let version = u16_from_le [b ! 4, b ! 5]
       in if version \<noteq> section_version then Err (SectionVersion version)
          else if b ! 6 \<noteq> scheme_mldsa44 then Err (Scheme (b ! 6))
          else
            let got = unat (b ! 7)
            in if got \<noteq> shape_slots shape then Err (SlotCount (shape_slots shape) got)
               else if length b \<noteq> section_encoded_len shape then Err (WrongSectionLength (length b) (section_encoded_len shape))
               else Ok \<lparr>se_valid_until = u64_from_le (slice_at 8 8 b),
                 se_slots = map (\<lambda>i. decode_slot (slice_at (section_header_bytes + i * slot_bytes) slot_bytes b))
                   [0..<(length b - section_header_bytes) div slot_bytes]\<rparr>)"

section \<open>The check of a section against an intent\<close>

definition mldsa_verify :: "(bytes \<Rightarrow> hash32 \<Rightarrow> bytes \<Rightarrow> bool) \<Rightarrow> auth_descriptor \<Rightarrow> bytes \<Rightarrow> bytes \<Rightarrow> hash32 \<Rightarrow> bool" where
  "mldsa_verify lib_verify d verifying_key sig digest =
    (if length verifying_key \<noteq> verifying_key_bytes \<or> length sig \<noteq> signature_bytes then False
     else (case d of
             WotsSha2 _ _ _ \<Rightarrow> False
           | MlDsa44 leaf_index leaf \<Rightarrow> if mldsa_leaf leaf_index verifying_key \<noteq> leaf then False else lib_verify verifying_key digest sig))"

definition verify_intent :: "(bytes \<Rightarrow> hash32 \<Rightarrow> bytes \<Rightarrow> bool) \<Rightarrow> auth_section \<Rightarrow> annulet_intent \<Rightarrow> auth_error + unit" where
  "verify_intent lib_verify s i =
    rbind (validate_shape i) (\<lambda>_.
      let expected = shape_slots (in_shape i)
      in if length (se_slots s) \<noteq> expected then Err (SlotCount expected (length (se_slots s)))
         else if se_valid_until s \<noteq> in_valid_until i then Err ValidityMismatch
         else
           (case position (\<lambda>(sl, d). sl_descriptor sl \<noteq> d) (zip (se_slots s) (in_auth i)) of
              Some k \<Rightarrow> Err (DescriptorMismatch k)
            | None \<Rightarrow>
                (case position (\<lambda>sl. mldsa_leaf (descriptor_leaf_index (sl_descriptor sl)) (sl_key sl) \<noteq> descriptor_leaf (sl_descriptor sl))
                        (se_slots s) of
                   Some k \<Rightarrow> Err (LeafMismatch k)
                 | None \<Rightarrow>
                     rbind (intent_digest i) (\<lambda>digest.
                       case position (\<lambda>sl. \<not> mldsa_verify lib_verify (sl_descriptor sl) (sl_key sl) (sl_signature sl) digest) (se_slots s) of
                         Some k \<Rightarrow> Err (BadAuthSignature k)
                       | None \<Rightarrow> Ok ()))))"

section \<open>The section's byte form\<close>

lemmas width_defs = mldsa_encoded_bytes_def verifying_key_bytes_def signature_bytes_def slot_bytes_def section_header_bytes_def

lemma magic_bytes: "section_magic = [81, 82, 65, 49]"
  by (simp add: section_magic_def ascii_def)

lemma version_bytes: "u16_le section_version = [2, 0]"
  by code_simp

definition slot_raw :: "auth_slot \<Rightarrow> bytes" where
  "slot_raw s = descriptor_bytes (sl_descriptor s) @ sl_key s @ sl_signature s"

definition good_slot :: "auth_slot \<Rightarrow> bool" where
  "good_slot s \<longleftrightarrow> is_mldsa (sl_descriptor s) \<and> length (descriptor_leaf (sl_descriptor s)) = 32
    \<and> length (sl_key s) = verifying_key_bytes \<and> length (sl_signature s) = signature_bytes"

lemma encode_slots_Ok:
  "encode_slots i ss = Ok rest \<longleftrightarrow>
    (\<forall>s \<in> set ss. is_mldsa (sl_descriptor s) \<and> length (sl_key s) = verifying_key_bytes \<and> length (sl_signature s) = signature_bytes)
    \<and> rest = concat (map slot_raw ss)"
proof (induction ss arbitrary: i rest)
  case (Cons s ss)
  then show ?case
    by (cases "sl_descriptor s")
      (auto simp: rbind_eq_Ok slot_raw_def descriptor_bytes_def descriptor_leaf_index_def descriptor_leaf_def is_mldsa_def)
qed auto

lemma decode_slot_raw: "length c = slot_bytes \<Longrightarrow> good_slot (decode_slot c) \<and> slot_raw (decode_slot c) = c"
proof -
  assume l: "length c = slot_bytes"
  have "c = take 4 c @ slice_at 4 32 c @ slice_at 36 1312 c @ drop 1348 c"
  proof -
    have "drop 4 c = slice_at 4 32 c @ slice_at 36 1312 c @ drop 1348 c"
      using drop_slice_at [of 4 c 32] drop_slice_at [of 36 c 1312] by simp
    then show ?thesis by (metis append_take_drop_id)
  qed
  then show ?thesis
    using l by (simp add: good_slot_def decode_slot_def slot_raw_def descriptor_bytes_def descriptor_leaf_index_def descriptor_leaf_def
        is_mldsa_def width_defs u32_le_u32_from_le)
qed

lemma raw_decode_slot: "good_slot s \<Longrightarrow> length (slot_raw s) = slot_bytes \<and> decode_slot (slot_raw s) = s"
  by (cases s; cases "sl_descriptor s")
    (auto simp: good_slot_def decode_slot_def slot_raw_def descriptor_bytes_def descriptor_leaf_index_def descriptor_leaf_def
        is_mldsa_def width_defs slice_at_append slice_at_0_append)

lemma section_header_split:
  assumes "16 \<le> length b"
  shows "b = take 4 b @ [b ! 4, b ! 5] @ [b ! 6] @ [b ! 7] @ slice_at 8 8 b @ drop 16 b"
proof -
  have "drop 4 b = [b ! 4] @ [b ! 5] @ [b ! 6] @ [b ! 7] @ drop 8 b"
    using assms by (simp add: Cons_nth_drop_Suc numeral_eq_Suc)
  moreover have "drop 8 b = slice_at 8 8 b @ drop 16 b" using drop_slice_at [of 8 b 8] by simp
  ultimately show ?thesis by (metis append.assoc append_Cons append_Nil append_take_drop_id)
qed

lemma section_decode_Ok:
  assumes "section_decode shape b = Ok s"
  shows "section_encode s = Ok b \<and> length (se_slots s) = shape_slots shape \<and> (\<forall>sl \<in> set (se_slots s). good_slot sl)"
proof -
  have d: "16 \<le> length b" "take 4 b = section_magic" "u16_from_le [b ! 4, b ! 5] = section_version" "b ! 6 = scheme_mldsa44"
    "unat (b ! 7) = shape_slots shape" "length b = section_encoded_len shape"
    and s: "s = \<lparr>se_valid_until = u64_from_le (slice_at 8 8 b),
       se_slots = map (\<lambda>i. decode_slot (slice_at (section_header_bytes + i * slot_bytes) slot_bytes b))
         [0..<(length b - section_header_bytes) div slot_bytes]\<rparr>"
    using assms by (auto simp: section_decode_def Let_def section_header_bytes_def split: if_splits)
  define n where "n = shape_slots shape"
  have len: "length (drop 16 b) = n * slot_bytes" using d(6) by (simp add: section_encoded_len_def n_def section_header_bytes_def)
  have sw: "0 < slot_bytes" by (simp add: width_defs)
  define cs where "cs = map (\<lambda>i. slice_at (i * slot_bytes) slot_bytes (drop 16 b)) [0..<n]"
  have "(length b - section_header_bytes) div slot_bytes = n" using len sw by (simp add: section_header_bytes_def)
  moreover have "slice_at (section_header_bytes + k) slot_bytes b = slice_at k slot_bytes (drop 16 b)" for k
    by (simp add: slice_at_def section_header_bytes_def add.commute)
  ultimately have slots: "se_slots s = map decode_slot cs" by (simp add: s cs_def comp_def)
  have w: "length c = slot_bytes" if "c \<in> set cs" for c
  proof -
    from that obtain i where i: "i < n" "c = slice_at (i * slot_bytes) slot_bytes (drop 16 b)" by (auto simp: cs_def)
    then have "(i + 1) * slot_bytes \<le> n * slot_bytes" by (intro mult_le_mono1) simp
    then show ?thesis unfolding i(2) by (intro length_slice_at) (simp only: len add_mult_distrib mult_1)
  qed
  have good: "\<forall>sl \<in> set (se_slots s). good_slot sl" using slots w decode_slot_raw by auto
  have "map slot_raw (se_slots s) = cs" unfolding slots map_map comp_def using w decode_slot_raw by (intro map_idI) blast
  moreover have "concat cs = drop 16 b" unfolding cs_def by (rule concat_blocks [OF len])
  ultimately have rest: "encode_slots 0 (se_slots s) = Ok (drop 16 b)" using good by (auto simp: encode_slots_Ok good_slot_def)
  have ls: "length (se_slots s) = n" by (simp add: slots cs_def)
  have n13: "n = 1 \<or> n = 3" by (cases shape) (simp_all add: n_def shape_slots_def)
  have b7: "word_of_nat n = b ! 7" unfolding n_def d(5) [symmetric] by simp
  have v: "u16_le section_version = [b ! 4, b ! 5]" using d(3) u16_le_u16_from_le [of "[b ! 4, b ! 5]"] by simp
  have u: "u64_le (se_valid_until s) = slice_at 8 8 b"
    using d(1) u64_le_u64_from_le [of "slice_at 8 8 b"] by (simp add: s)
  have "section_encode s = Ok (take 4 b @ [b ! 4, b ! 5] @ [b ! 6] @ [b ! 7] @ slice_at 8 8 b @ drop 16 b)"
    unfolding section_encode_def ls Let_def rest v u b7 d(2,4) using n13 by auto
  then show ?thesis using section_header_split [OF d(1)] ls good by (simp add: n_def)
qed

lemma section_encode_Ok:
  assumes "section_encode s = Ok b" and "length (se_slots s) = shape_slots shape" and "\<forall>sl \<in> set (se_slots s). good_slot sl"
  shows "section_decode shape b = Ok s"
proof -
  define n rest where "n = length (se_slots s)" and "rest = concat (map slot_raw (se_slots s))"
  have b: "b = [81, 82, 65, 49, 2, 0, 1, word_of_nat n] @ u64_le (se_valid_until s) @ rest"
    using assms(1) by (auto simp: section_encode_def Let_def rbind_eq_Ok encode_slots_Ok n_def rest_def magic_bytes version_bytes
        scheme_mldsa44_def split: if_splits)
  have w: "\<forall>p \<in> set (map slot_raw (se_slots s)). length p = slot_bytes" using assms(3) raw_decode_slot by auto
  have len: "length rest = n * slot_bytes" using length_concat_same [OF w] by (simp add: rest_def n_def)
  have n13: "n \<le> 3" using assms(2) by (cases shape) (simp_all add: n_def shape_slots_def)
  have h: "take 4 b = section_magic" "b ! 4 = 2" "b ! 5 = 0" "b ! 6 = scheme_mldsa44" "b ! 7 = word_of_nat n"
    "slice_at 8 8 b = u64_le (se_valid_until s)" "length b = 16 + n * slot_bytes"
    by (simp_all add: b magic_bytes scheme_mldsa44_def slice_at_def len)
  have drop: "drop 16 b = rest" by (simp add: b)
  have sw: "0 < slot_bytes" by (simp add: width_defs)
  have "map (\<lambda>i. slice_at (i * slot_bytes) slot_bytes rest) [0..<n] = map slot_raw (se_slots s)"
    using blocks_concat [OF w, of 0] by (simp add: rest_def n_def)
  then have "map decode_slot (map (\<lambda>i. slice_at (i * slot_bytes) slot_bytes rest) [0..<n]) = map decode_slot (map slot_raw (se_slots s))"
    by (rule arg_cong)
  also have "\<dots> = se_slots s" unfolding map_map comp_def using assms(3) raw_decode_slot by (intro map_idI) blast
  finally have slots: "map (\<lambda>i. decode_slot (slice_at (i * slot_bytes) slot_bytes rest)) [0..<n] = se_slots s" by (simp add: comp_def)
  have sl: "slice_at (16 + k) slot_bytes b = slice_at k slot_bytes rest" for k
    unfolding drop [symmetric] by (simp add: slice_at_def add.commute)
  have un: "unat (word_of_nat n :: u8) = n" using n13 by (intro unat_of_nat_len) simp
  have v: "u16_from_le [2, 0] = section_version" by (metis u16_from_le_u16_le version_bytes)
  show ?thesis
    unfolding section_decode_def Let_def h v un sl
    using slots assms(2) sw by (simp add: section_header_bytes_def section_encoded_len_def h n_def [symmetric] un v sl)
qed

section \<open>The intent's byte form\<close>

text \<open>The sizes of the Rust types.\<close>

definition wf_intent :: "annulet_intent \<Rightarrow> bool" where
  "wf_intent i \<longleftrightarrow> is_hash32 (in_genesis_hash i) \<and> is_hash32 (in_anchor i) \<and> (\<forall>x \<in> set (in_nullifiers i). is_hash32 x)
    \<and> (\<forall>x \<in> set (in_commitments i). is_hash32 x) \<and> is_hash32 (in_registry_root i) \<and> is_hash32 (in_surface_hash i)
    \<and> is_hash32 (in_discovery_hash i) \<and> (\<forall>d \<in> set (in_auth i). is_hash32 (descriptor_leaf d))"

lemma validate_shape_Ok:
  "validate_shape i = Ok () \<longleftrightarrow> length (in_nullifiers i) = shape_slots (in_shape i) \<and> length (in_auth i) = shape_slots (in_shape i)
    \<and> length (in_commitments i) = intent_outputs (in_genesis_format i) (in_shape i) \<and> (\<forall>d \<in> set (in_auth i). is_mldsa d)"
  using position_None [of "\<lambda>d. \<not> is_mldsa d" "in_auth i"]
  by (cases "position (\<lambda>d. \<not> is_mldsa d) (in_auth i)") (auto simp: validate_shape_def Let_def)

lemma shape_tag_inj: "shape_tag a = shape_tag b \<longleftrightarrow> a = b"
  by (cases a; cases b) (simp_all add: shape_tag_def)

lemma app_eq_len: "length x = length y \<Longrightarrow> x @ r = y @ s \<longleftrightarrow> x = y \<and> r = s"
  by simp

lemma descriptor_bytes_inj:
  "is_mldsa d \<Longrightarrow> is_mldsa e \<Longrightarrow> descriptor_bytes d = descriptor_bytes e \<longleftrightarrow> d = e"
  by (cases d; cases e)
    (auto simp: is_mldsa_def descriptor_bytes_def descriptor_leaf_index_def descriptor_leaf_def app_eq_len dest!: arg_cong [of "u32_le _" _ u32_from_le])

lemma concat_same_inj:
  "\<forall>x \<in> set xs \<union> set ys. length x = n \<Longrightarrow> length xs = length ys \<Longrightarrow> concat xs @ r = concat ys @ s \<longleftrightarrow> xs = ys \<and> r = s"
proof (induction xs arbitrary: ys)
  case (Cons x xs)
  then show ?case by (cases ys) auto
qed simp

lemma map_inj_eq: "length xs = length ys \<Longrightarrow> \<forall>x \<in> set xs. \<forall>y \<in> set ys. f x = f y \<longrightarrow> x = y \<Longrightarrow> map f xs = map f ys \<Longrightarrow> xs = ys"
  by (induction xs ys rule: list_induct2) auto

lemma intent_encode_Ok:
  "intent_encode i = Ok b \<longleftrightarrow> validate_shape i = Ok () \<and> b =
    intent_domain @ u16_le intent_version @ u32_le (in_genesis_format i) @ in_genesis_hash i @ [shape_tag (in_shape i)]
       @ in_anchor i @ concat (in_nullifiers i) @ concat (in_commitments i) @ [in_bucket i] @ u64_le (in_valid_until i)
       @ u64_le (in_fee i) @ in_registry_root i @ in_surface_hash i @ in_discovery_hash i @ [scheme_mldsa44]
       @ concat (map descriptor_bytes (in_auth i))"
  by (auto simp: intent_encode_def rbind_eq_Ok)

lemma intent_encode_inj:
  assumes "wf_intent i" and "wf_intent j" and "intent_encode i = Ok b" and "intent_encode j = Ok b"
  shows "i = j"
proof -
  note w = assms(1,2) [unfolded wf_intent_def is_hash32_def]
  note vi = assms(3) [unfolded intent_encode_Ok validate_shape_Ok] and vj = assms(4) [unfolded intent_encode_Ok validate_shape_Ok]
  define ti where "ti k = in_anchor k @ concat (in_nullifiers k) @ concat (in_commitments k) @ [in_bucket k] @ u64_le (in_valid_until k)
       @ u64_le (in_fee k) @ in_registry_root k @ in_surface_hash k @ in_discovery_hash k @ [scheme_mldsa44]
       @ concat (map descriptor_bytes (in_auth k))" for k :: annulet_intent
  have "u32_le (in_genesis_format i) @ in_genesis_hash i @ [shape_tag (in_shape i)] @ ti i
      = u32_le (in_genesis_format j) @ in_genesis_hash j @ [shape_tag (in_shape j)] @ ti j"
    using vi vj by (simp add: ti_def)
  then have 1: "in_genesis_format i = in_genesis_format j" "in_genesis_hash i = in_genesis_hash j" "in_shape i = in_shape j" "ti i = ti j"
    using w by (auto simp: app_eq_len shape_tag_inj dest: arg_cong [of "u32_le _" _ u32_from_le])
  define ui where "ui k = [in_bucket k] @ u64_le (in_valid_until k) @ u64_le (in_fee k) @ in_registry_root k @ in_surface_hash k
      @ in_discovery_hash k @ [scheme_mldsa44] @ concat (map descriptor_bytes (in_auth k))" for k :: annulet_intent
  have 2: "in_anchor i = in_anchor j" "concat (in_nullifiers i) @ concat (in_commitments i) @ ui i
      = concat (in_nullifiers j) @ concat (in_commitments j) @ ui j"
    using 1(4) w by (simp_all add: ti_def ui_def app_eq_len)
  have ln: "length (in_nullifiers i) = length (in_nullifiers j)" "length (in_commitments i) = length (in_commitments j)"
    "length (in_auth i) = length (in_auth j)" using vi vj 1 by simp_all
  have "\<forall>x \<in> set (in_nullifiers i) \<union> set (in_nullifiers j). length x = 32" using w by blast
  from concat_same_inj [OF this ln(1), THEN iffD1, OF 2(2)]
  have 3: "in_nullifiers i = in_nullifiers j" "concat (in_commitments i) @ ui i = concat (in_commitments j) @ ui j" by simp_all
  have "\<forall>x \<in> set (in_commitments i) \<union> set (in_commitments j). length x = 32" using w by blast
  from concat_same_inj [OF this ln(2), THEN iffD1, OF 3(2)]
  have 4: "in_commitments i = in_commitments j" "ui i = ui j" by simp_all
  have 5: "in_bucket i = in_bucket j" "in_valid_until i = in_valid_until j" "in_fee i = in_fee j" "in_registry_root i = in_registry_root j"
    "in_surface_hash i = in_surface_hash j" "in_discovery_hash i = in_discovery_hash j"
    "concat (map descriptor_bytes (in_auth i)) = concat (map descriptor_bytes (in_auth j))"
    using 4(2) w by (simp_all add: ui_def app_eq_len)
  have dl: "\<forall>x \<in> set (map descriptor_bytes (in_auth i)) \<union> set (map descriptor_bytes (in_auth j)). length x = 36"
    using w by (auto simp: descriptor_bytes_def)
  have "map descriptor_bytes (in_auth i) = map descriptor_bytes (in_auth j)"
    using concat_same_inj [OF dl, of "[]" "[]"] 5(7) ln(3) by simp
  then have "in_auth i = in_auth j" using vi vj descriptor_bytes_inj by (intro map_inj_eq [OF ln(3)]) auto
  then show ?thesis using 1 2 3 4 5 by (simp add: annulet_intent.equality)
qed

section \<open>What verification establishes\<close>

lemma verify_intent_Ok:
  "verify_intent lib_verify s i = Ok () \<longleftrightarrow>
    validate_shape i = Ok () \<and> se_valid_until s = in_valid_until i \<and> map sl_descriptor (se_slots s) = in_auth i
    \<and> (\<exists>digest. intent_digest i = Ok digest \<and>
        (\<forall>sl \<in> set (se_slots s). mldsa_leaf (descriptor_leaf_index (sl_descriptor sl)) (sl_key sl) = descriptor_leaf (sl_descriptor sl)
          \<and> mldsa_verify lib_verify (sl_descriptor sl) (sl_key sl) (sl_signature sl) digest))"
proof (cases "validate_shape i = Ok () \<and> length (se_slots s) = shape_slots (in_shape i)")
  case True
  then have len: "length (se_slots s) = length (in_auth i)" by (simp add: validate_shape_Ok)
  have zip: "(\<forall>x \<in> set (zip ss ds). \<not> (case x of (sl, d) \<Rightarrow> sl_descriptor sl \<noteq> d)) \<longleftrightarrow> map sl_descriptor ss = ds"
    if "length ss = length ds" for ss ds using that by (induction ss ds rule: list_induct2) auto
  obtain digest where "intent_digest i = Ok digest" using True by (auto simp: intent_digest_def intent_encode_def)
  then show ?thesis
    using True zip [OF len, folded position_None]
      position_None [of "\<lambda>sl. mldsa_leaf (descriptor_leaf_index (sl_descriptor sl)) (sl_key sl) \<noteq> descriptor_leaf (sl_descriptor sl)" "se_slots s"]
      position_None [of "\<lambda>sl. \<not> mldsa_verify lib_verify (sl_descriptor sl) (sl_key sl) (sl_signature sl) digest" "se_slots s"]
    by (auto simp: verify_intent_def Let_def split: option.splits)
next
  case False
  then show ?thesis
    by (cases "validate_shape i") (auto simp: verify_intent_def Let_def validate_shape_Ok dest: arg_cong [of _ _ length])
qed

section \<open>Properties\<close>

text \<open>the section's byte form is canonical: a byte string decodes, for a shape, to a section exactly when it is that
  section's encoding, the section has the shape's number of slots, and every slot has an ML-DSA
  descriptor and fields of the fixed widths.\<close>

theorem auth_section_roundtrip:
  "section_decode shape b = Ok s \<longleftrightarrow>
    section_encode s = Ok b \<and> length (se_slots s) = shape_slots shape \<and> list_all good_slot (se_slots s)"
  unfolding list_all_iff using section_decode_Ok section_encode_Ok by metis

text \<open>an authorisation covers every field of what it authorises: two intents of well-sized fields with the same signed
  bytes are the same intent (network, anchor, nullifiers, commitments, fee, expiry, surface, discovery
  and the authorising leaves), although the bytes carry no counts.\<close>

theorem intent_covers_every_field:
  assumes "wf_intent i" and "wf_intent j" and "intent_encode i = Ok b" and "intent_encode j = Ok b"
  shows "i = j"
  by (rule intent_encode_inj [OF assms])

definition sample_key :: bytes where "sample_key = replicate verifying_key_bytes 1"
definition sample_signature :: bytes where "sample_signature = replicate signature_bytes 2"

definition sample_intent :: "annulet_intent" where
  "sample_intent = \<lparr>in_genesis_format = 33, in_genesis_hash = replicate 32 1, in_shape = ShapeR, in_anchor = replicate 32 2,
    in_nullifiers = [replicate 32 3], in_commitments = [replicate 32 4, replicate 32 5], in_bucket = 2, in_valid_until = 100,
    in_fee = 7, in_registry_root = replicate 32 6, in_surface_hash = replicate 32 7, in_discovery_hash = replicate 32 8,
    in_auth = [MlDsa44 9 (mldsa_leaf 9 sample_key)]\<rparr>"

lemma sample_intent_shape: "validate_shape sample_intent = Ok ()"
  by (simp add: validate_shape_Ok sample_intent_def shape_slots_def intent_outputs_def is_mldsa_def)

lemma intent_covers_every_field_witness:
  "\<exists>b. intent_encode sample_intent = Ok b \<and> sample_intent = sample_intent\<lparr>in_fee := 7\<rparr>"
proof -
  have w: "wf_intent sample_intent" "wf_intent (sample_intent\<lparr>in_fee := 7\<rparr>)"
    by (simp_all add: wf_intent_def sample_intent_def is_hash32_def descriptor_leaf_def mldsa_leaf_def)
  obtain b where b: "intent_encode sample_intent = Ok b" using sample_intent_shape by (auto simp: intent_encode_def)
  moreover have "intent_encode (sample_intent\<lparr>in_fee := 7\<rparr>) = Ok b" using b by (simp add: sample_intent_def)
  ultimately show ?thesis using intent_covers_every_field [OF w] by blast
qed

text \<open>what a wallet signs, a node accepts: a section signed over an intent, with keys of the fixed widths that are the
  intent's leaves and signatures the library verifies, passes the check against that intent, and its
  encoding decodes to it.\<close>

theorem signed_section_verifies:
  assumes "section_sign i keys = Ok s"
    and "\<forall>k < length keys. length (fst (keys ! k)) = verifying_key_bytes
      \<and> in_auth i ! k = MlDsa44 (descriptor_leaf_index (in_auth i ! k)) (mldsa_leaf (descriptor_leaf_index (in_auth i ! k)) (fst (keys ! k)))
      \<and> (\<forall>d. length (snd (keys ! k) d) = signature_bytes \<and> lib_verify (fst (keys ! k)) d (snd (keys ! k) d))"
  shows "verify_intent lib_verify s i = Ok ()
    \<and> (\<exists>b. section_encode s = Ok b \<and> section_decode (in_shape i) b = Ok s)"
proof -
  obtain digest where d: "validate_shape i = Ok ()" "length keys = length (in_auth i)" "intent_digest i = Ok digest"
    and s: "s = \<lparr>se_valid_until = in_valid_until i,
      se_slots = map (\<lambda>((vk, sign), d). \<lparr>sl_descriptor = d, sl_key = vk, sl_signature = sign digest\<rparr>) (zip keys (in_auth i))\<rparr>"
    using assms(1) by (auto simp: section_sign_def rbind_eq_Ok split: if_splits)
  have desc: "map sl_descriptor (se_slots s) = in_auth i"
    using d(2) by (intro nth_equalityI) (auto simp: s split_beta)
  have slot: "good_slot sl \<and> mldsa_leaf (descriptor_leaf_index (sl_descriptor sl)) (sl_key sl) = descriptor_leaf (sl_descriptor sl)
      \<and> mldsa_verify lib_verify (sl_descriptor sl) (sl_key sl) (sl_signature sl) digest" if "sl \<in> set (se_slots s)" for sl
  proof -
    from that obtain k where k: "k < length keys" "sl = \<lparr>sl_descriptor = in_auth i ! k, sl_key = fst (keys ! k), sl_signature = snd (keys ! k) digest\<rparr>"
      using d(2) by (auto simp: s set_zip split_beta)
    obtain ix l where dk: "in_auth i ! k = MlDsa44 ix l" using assms(2) k(1) by metis
    then have "l = mldsa_leaf ix (fst (keys ! k))" using assms(2) k(1) by (metis auth_descriptor.inject(1) descriptor_leaf_index_def auth_descriptor.simps(5))
    then show ?thesis
      using assms(2) k dk by (simp add: good_slot_def is_mldsa_def descriptor_leaf_def descriptor_leaf_index_def mldsa_verify_def
          mldsa_leaf_def)
  qed
  have "verify_intent lib_verify s i = Ok ()"
    unfolding verify_intent_Ok using d(1,3) desc slot by (auto simp: s)
  moreover have ls: "length (se_slots s) = shape_slots (in_shape i)" using d(1,2) by (simp add: s validate_shape_Ok)
  have n13: "shape_slots (in_shape i) = 1 \<or> shape_slots (in_shape i) = 3" by (cases "in_shape i") (simp_all add: shape_slots_def)
  have "\<exists>b. section_encode s = Ok b"
    using n13 ls slot encode_slots_Ok [of 0 "se_slots s" "concat (map slot_raw (se_slots s))"]
    by (auto simp: section_encode_def Let_def good_slot_def)
  ultimately show ?thesis using section_encode_Ok [OF _ ls] slot by blast
qed

lemma signed_section_verifies_witness:
  "\<exists>s b. section_sign sample_intent [(sample_key, \<lambda>_. sample_signature)] = Ok s
    \<and> verify_intent (\<lambda>_ _ sig. sig = sample_signature) s sample_intent = Ok () \<and> section_encode s = Ok b \<and> section_decode ShapeR b = Ok s"
proof -
  obtain digest where "intent_digest sample_intent = Ok digest" using sample_intent_shape by (auto simp: intent_digest_def intent_encode_def)
  then obtain s where s: "section_sign sample_intent [(sample_key, \<lambda>_. sample_signature)] = Ok s"
    using sample_intent_shape by (auto simp: section_sign_def) (simp add: sample_intent_def)
  have "in_shape sample_intent = ShapeR" by (simp add: sample_intent_def)
  then show ?thesis
    using signed_section_verifies [OF s, of "\<lambda>_ _ sig. sig = sample_signature"] s
    by (auto simp: sample_intent_def descriptor_leaf_index_def sample_key_def sample_signature_def)
qed

end
