(* ===== verification/Body_Form.thy ===== *)
theory Body_Form
  imports Compact Names Weight Header
begin

text \<open>
  The block body of \<open>qlab-devnet/src/body.rs\<close> as data: transactions, coinbase payees, the two v6
  sections, the four commitment preimages and the figures read off a body. An assertion or
  \<open>expect\<close> that fails is \<open>None\<close>. The key of a payee is its list of four 64-bit lanes.
\<close>

text \<open>\<open>b"qumbra:body:v2"\<close> and its successors.\<close>

definition body_preimage_domain :: bytes where
  "body_preimage_domain = [113, 117, 109, 98, 114, 97, 58, 98, 111, 100, 121, 58, 118, 50]"
definition body_preimage_domain_v3 :: bytes where
  "body_preimage_domain_v3 = [113, 117, 109, 98, 114, 97, 58, 98, 111, 100, 121, 58, 118, 51]"
definition body_preimage_domain_v5 :: bytes where
  "body_preimage_domain_v5 = [113, 117, 109, 98, 114, 97, 58, 98, 111, 100, 121, 58, 118, 53]"
definition body_preimage_domain_v6 :: bytes where
  "body_preimage_domain_v6 = [113, 117, 109, 98, 114, 97, 58, 98, 111, 100, 121, 58, 118, 54]"

definition coinbase_payee_cap_v6 :: nat where "coinbase_payee_cap_v6 = 1"
definition max_v6_body_bytes :: nat where "max_v6_body_bytes = 15 * 1024 * 1024"
definition payee_cap_v5_raised :: nat where "payee_cap_v5_raised = 8"
definition payee_cap_v5_at_birth :: nat where "payee_cap_v5_at_birth = 1"
definition payee_cap_v5_boundary :: "u64 option" where "payee_cap_v5_boundary = None"
definition l2_surface_absent :: bytes where "l2_surface_absent = [0]"
definition l2_auth_absent :: bytes where "l2_auth_absent = [0]"

definition coinbase_payee_cap_v5_above :: "u64 option \<Rightarrow> u64 \<Rightarrow> nat" where
  "coinbase_payee_cap_v5_above boundary h =
    (if (case boundary of Some b \<Rightarrow> h > b | None \<Rightarrow> False) then payee_cap_v5_raised else payee_cap_v5_at_birth)"

definition coinbase_payee_cap_v5 :: "u64 \<Rightarrow> nat" where
  "coinbase_payee_cap_v5 h = coinbase_payee_cap_v5_above payee_cap_v5_boundary h"

datatype body_preimage_form = FormV2 | FormV3 | FormV5 | FormV6

record coinbase_payee =
  rkm :: "u64 list"
  amount :: u64

record tx_public =
  anchor :: hash32
  tx_nullifiers :: "hash32 list"
  commitments :: "hash32 list"
  bucket :: arity_bucket
  fee :: u64

record tx_entry =
  proof_bytes :: bytes
  public :: tx_public
  discovery :: bytes
  rider :: bytes
  l2 :: bytes
  auth :: bytes

record block_body =
  txs :: "tx_entry list"
  coinbase_payees :: "coinbase_payee list"
  finality_section :: bytes
  bundle_section :: bytes

definition encode_committed_discovery :: "recipient_bundle list \<Rightarrow> bytes list \<Rightarrow> bytes option" where
  "encode_committed_discovery rs ps = encode_committed_discovery_with_width rs ps payload_len"

definition tx_entry_new :: "bytes \<Rightarrow> tx_public \<Rightarrow> recipient_bundle list \<Rightarrow> bytes list \<Rightarrow> tx_entry option" where
  "tx_entry_new pf p rs ps =
    map_option (\<lambda>d. \<lparr>proof_bytes = pf, public = p, discovery = d, rider = rider_absent, l2 = l2_surface_absent, auth = l2_auth_absent\<rparr>)
      (encode_committed_discovery rs ps)"

definition with_name_op :: "name_op \<Rightarrow> tx_entry \<Rightarrow> tx_entry" where
  "with_name_op op t = t\<lparr>rider := encode_rider (Some op)\<rparr>"

definition body_new :: "tx_entry list \<Rightarrow> coinbase_payee list \<Rightarrow> block_body" where
  "body_new ts ps = \<lparr>txs = ts, coinbase_payees = ps, finality_section = [], bundle_section = []\<rparr>"

definition has_v6_sections :: "block_body \<Rightarrow> bool" where
  "has_v6_sections b \<longleftrightarrow> finality_section b \<noteq> [] \<or> bundle_section b \<noteq> []"

definition from_single_payee :: "tx_entry list \<Rightarrow> u64 \<Rightarrow> u64 list \<Rightarrow> block_body" where
  "from_single_payee ts amt key =
    body_new ts (if amt = 0 \<and> key = [0, 0, 0, 0] then [] else [\<lparr>rkm = key, amount = amt\<rparr>])"

definition coinbase_total :: "block_body \<Rightarrow> u64" where
  "coinbase_total b = u64_of (min (sum_list (map (\<lambda>p. u128_of (amount p)) (coinbase_payees b))) (u128_of umax))"

definition single_payee_parts :: "block_body \<Rightarrow> (u64 \<times> u64 list) option" where
  "single_payee_parts b =
    (case coinbase_payees b of
       [] \<Rightarrow> Some (0, [0, 0, 0, 0])
     | [p] \<Rightarrow> Some (amount p, rkm p)
     | _ \<Rightarrow> None)"

section \<open>The commitment preimage\<close>

definition len_prefixed :: "bytes \<Rightarrow> bytes" where
  "len_prefixed b = u64_le (word_of_nat (length b)) @ b"

definition tx_preimage :: "body_preimage_form \<Rightarrow> tx_entry \<Rightarrow> bytes option" where
  "tx_preimage form t =
    (let v5 = form \<in> {FormV5, FormV6}; p = public t
     in if v5 \<and> (length (tx_nullifiers p) > 255 \<or> length (commitments p) > 255) then None
        else Some (anchor p
          @ (if v5 then [word_of_nat (length (tx_nullifiers p))] else []) @ concat (tx_nullifiers p)
          @ (if v5 then [word_of_nat (length (commitments p))] else []) @ concat (commitments p)
          @ [if v5 then wire_discriminant (bucket p) else ucast (logical_actions (bucket p))]
          @ u64_le (fee p) @ len_prefixed (proof_bytes t) @ len_prefixed (discovery t)
          @ (if form \<noteq> FormV2 then len_prefixed (rider t) else [])))"

fun txs_preimage :: "body_preimage_form \<Rightarrow> tx_entry list \<Rightarrow> bytes option" where
  "txs_preimage form [] = Some []"
| "txs_preimage form (t # ts) =
    Option.bind (tx_preimage form t) (\<lambda>a. map_option (\<lambda>b. a @ b) (txs_preimage form ts))"

definition payee_bytes :: "coinbase_payee \<Rightarrow> bytes" where
  "payee_bytes p = concat (map u64_le (rkm p)) @ u64_le (amount p)"

definition payees_preimage :: "body_preimage_form \<Rightarrow> nat \<Rightarrow> block_body \<Rightarrow> bytes option" where
  "payees_preimage form cap b =
    (if form \<in> {FormV2, FormV3}
     then map_option (\<lambda>(amt, key). u64_le amt @ concat (map u64_le key)) (single_payee_parts b)
     else if length (coinbase_payees b) \<le> cap
     then Some (word_of_nat (length (coinbase_payees b)) # concat (map payee_bytes (coinbase_payees b)))
     else None)"

definition form_domain :: "body_preimage_form \<Rightarrow> bytes" where
  "form_domain form =
    (case form of FormV2 \<Rightarrow> body_preimage_domain | FormV3 \<Rightarrow> body_preimage_domain_v3
     | FormV5 \<Rightarrow> body_preimage_domain_v5 | FormV6 \<Rightarrow> body_preimage_domain_v6)"

definition preimage_form :: "body_preimage_form \<Rightarrow> nat \<Rightarrow> block_body \<Rightarrow> bytes option" where
  "preimage_form form cap b =
    Option.bind (txs_preimage form (txs b)) (\<lambda>ts.
    map_option (\<lambda>ps. form_domain form @ ts @ ps
        @ (if form = FormV6 then len_prefixed (finality_section b) @ len_prefixed (bundle_section b) else []))
      (payees_preimage form cap b))"

definition body_preimage :: "bool \<Rightarrow> block_body \<Rightarrow> bytes option" where
  "body_preimage v3 b = preimage_form (if v3 then FormV3 else FormV2) payee_cap_v5_at_birth b"

definition body_commitment :: "block_body \<Rightarrow> hash32 option" where
  "body_commitment b = map_option keccak256 (body_preimage False b)"

definition commitment_above :: "u64 option \<Rightarrow> u64 \<Rightarrow> block_body \<Rightarrow> hash32 option" where
  "commitment_above boundary h b =
    map_option keccak256 (body_preimage (case boundary of Some x \<Rightarrow> h > x | None \<Rightarrow> False) b)"

definition commitment_at :: "u64 \<Rightarrow> block_body \<Rightarrow> hash32 option" where
  "commitment_at h b = commitment_above name_rule_boundary_height h b"

definition preimage_v6 :: "block_body \<Rightarrow> bytes option" where
  "preimage_v6 b = preimage_form FormV6 coinbase_payee_cap_v6 b"

definition commitment_v6 :: "block_body \<Rightarrow> hash32 option" where
  "commitment_v6 b = map_option keccak256 (preimage_v6 b)"

definition commitment_v5_above :: "u64 option \<Rightarrow> u64 \<Rightarrow> block_body \<Rightarrow> hash32 option" where
  "commitment_v5_above boundary h b =
    map_option keccak256 (preimage_form FormV5 (coinbase_payee_cap_v5_above boundary h) b)"

definition commitment_v5_at :: "u64 \<Rightarrow> block_body \<Rightarrow> hash32 option" where
  "commitment_v5_at h b = commitment_v5_above payee_cap_v5_boundary h b"

definition total_fees :: "block_body \<Rightarrow> u64" where
  "total_fees b = sum_list (map (\<lambda>t. fee (public t)) (txs b))"

definition total_name_burn :: "block_body \<Rightarrow> u64" where
  "total_name_burn b = burn_of_riders (map rider (txs b))"

definition mints_without_payee :: "block_body \<Rightarrow> bool" where
  "mints_without_payee b \<longleftrightarrow> (\<exists>p \<in> set (coinbase_payees b). rkm p = [0, 0, 0, 0])"

section \<open>What a preimage determines\<close>

text \<open>The sizes the Rust types fix, and what of a transaction and of a body the preimage carries.\<close>

definition wf_tx :: "tx_entry \<Rightarrow> bool" where
  "wf_tx t \<longleftrightarrow> is_hash32 (anchor (public t)) \<and> (\<forall>x \<in> set (tx_nullifiers (public t)). is_hash32 x)
    \<and> (\<forall>x \<in> set (commitments (public t)). is_hash32 x)
    \<and> length (proof_bytes t) < 2 ^ 64 \<and> length (discovery t) < 2 ^ 64 \<and> length (rider t) < 2 ^ 64"

definition wf_body :: "block_body \<Rightarrow> bool" where
  "wf_body b \<longleftrightarrow> (\<forall>t \<in> set (txs b). wf_tx t) \<and> (\<forall>p \<in> set (coinbase_payees b). length (rkm p) = 4)
    \<and> length (finality_section b) < 2 ^ 64 \<and> length (bundle_section b) < 2 ^ 64"

definition committed_tx :: "tx_entry \<Rightarrow> bytes \<times> tx_public \<times> bytes \<times> bytes" where
  "committed_tx t = (proof_bytes t, public t, discovery t, rider t)"

lemma append_cancel_len: "length x = length y \<Longrightarrow> x @ r = y @ s \<longleftrightarrow> x = y \<and> r = s"
  by simp

lemma u64_le_cancel: "u64_le a @ r = u64_le b @ s \<longleftrightarrow> a = b \<and> r = s"
  by (simp add: append_cancel_len)

lemma word_of_nat_eq_iff_small:
  assumes "n < 2 ^ LENGTH('a)" and "m < 2 ^ LENGTH('a)"
  shows "(word_of_nat n :: 'a::len word) = word_of_nat m \<longleftrightarrow> n = m"
proof
  assume "(word_of_nat n :: 'a word) = word_of_nat m"
  then have "unat (word_of_nat n :: 'a word) = unat (word_of_nat m :: 'a word)" by (rule arg_cong)
  then show "n = m" by (simp only: unat_of_nat_len [OF assms(1)] unat_of_nat_len [OF assms(2)])
qed simp

lemma len_prefixed_cancel:
  assumes "length x < 2 ^ 64" and "length y < 2 ^ 64"
  shows "len_prefixed x @ r = len_prefixed y @ s \<longleftrightarrow> x = y \<and> r = s"
proof -
  have "(word_of_nat (length x) :: u64) = word_of_nat (length y) \<longleftrightarrow> length x = length y"
    using assms by (intro word_of_nat_eq_iff_small) simp_all
  then show ?thesis unfolding len_prefixed_def append_assoc u64_le_cancel by auto
qed

lemma concat_cancel:
  "\<forall>x \<in> set xs \<union> set ys. length x = n \<Longrightarrow> length xs = length ys \<Longrightarrow> concat xs @ r = concat ys @ s \<longleftrightarrow> xs = ys \<and> r = s"
proof (induction xs arbitrary: ys)
  case (Cons x xs)
  then show ?case by (cases ys) auto
qed simp

lemma u8_count: "n \<le> 255 \<Longrightarrow> m \<le> 255 \<Longrightarrow> (word_of_nat n :: u8) = word_of_nat m \<longleftrightarrow> n = m"
  by (intro word_of_nat_eq_iff_small) simp_all

lemma wire_discriminant_inj: "wire_discriminant a = wire_discriminant b \<longleftrightarrow> a = b"
  by (cases a; cases b) (simp_all add: wire_discriminant_def)

lemma counted_hashes_cancel:
  assumes "length xs \<le> 255" and "length ys \<le> 255" and "\<forall>x \<in> set xs. is_hash32 x" and "\<forall>x \<in> set ys. is_hash32 x"
  shows "(word_of_nat (length xs) :: u8) # concat xs @ r = word_of_nat (length ys) # concat ys @ s \<longleftrightarrow> xs = ys \<and> r = s"
  using concat_cancel [of xs ys 32 r s] assms u8_count [of "length xs" "length ys"]
  by (auto simp: is_hash32_def)

lemma tx_preimage_v5:
  assumes "form \<in> {FormV5, FormV6}" and "tx_preimage form t = Some a"
  shows "length (tx_nullifiers (public t)) \<le> 255 \<and> length (commitments (public t)) \<le> 255
    \<and> a = anchor (public t) @ word_of_nat (length (tx_nullifiers (public t))) # concat (tx_nullifiers (public t))
      @ word_of_nat (length (commitments (public t))) # concat (commitments (public t))
      @ wire_discriminant (bucket (public t)) # u64_le (fee (public t)) @ len_prefixed (proof_bytes t)
      @ len_prefixed (discovery t) @ len_prefixed (rider t)"
  using assms by (auto simp: tx_preimage_def Let_def split: if_splits)

lemma fields_cancel:
  fixes ns ns' cs cs' :: "hash32 list"
  assumes n: "length ns \<le> 255" "length ns' \<le> 255" "length cs \<le> 255" "length cs' \<le> 255"
    and h: "is_hash32 an" "is_hash32 an'" "\<forall>x \<in> set ns. is_hash32 x" "\<forall>x \<in> set ns'. is_hash32 x"
      "\<forall>x \<in> set cs. is_hash32 x" "\<forall>x \<in> set cs'. is_hash32 x"
    and l: "length p < 2 ^ 64" "length p' < 2 ^ 64" "length d < 2 ^ 64" "length d' < 2 ^ 64" "length e < 2 ^ 64" "length e' < 2 ^ 64"
    and eq: "an @ word_of_nat (length ns) # concat ns @ word_of_nat (length cs) # concat cs
        @ bk # u64_le f @ len_prefixed p @ len_prefixed d @ len_prefixed e @ r
      = an' @ word_of_nat (length ns') # concat ns' @ word_of_nat (length cs') # concat cs'
        @ bk' # u64_le f' @ len_prefixed p' @ len_prefixed d' @ len_prefixed e' @ r'"
  shows "an = an' \<and> ns = ns' \<and> cs = cs' \<and> bk = bk' \<and> f = f' \<and> p = p' \<and> d = d' \<and> e = e' \<and> r = r'"
proof -
  define t u where "t = bk # u64_le f @ len_prefixed p @ len_prefixed d @ len_prefixed e @ r"
    and "u = bk' # u64_le f' @ len_prefixed p' @ len_prefixed d' @ len_prefixed e' @ r'"
  have "length an = length an'" using h(1,2) by (simp add: is_hash32_def)
  then have 1: "an = an'" "word_of_nat (length ns) # concat ns @ word_of_nat (length cs) # concat cs @ t
      = (word_of_nat (length ns') :: u8) # concat ns' @ word_of_nat (length cs') # concat cs' @ u"
    using eq [folded t_def u_def] by simp_all
  note 2 = counted_hashes_cancel [THEN iffD1, OF n(1,2) h(3,4) 1(2)]
  note 3 = counted_hashes_cancel [THEN iffD1, OF n(3,4) h(5,6) conjunct2 [OF 2]]
  have 4: "bk = bk'" "f = f'" "len_prefixed p @ len_prefixed d @ len_prefixed e @ r = len_prefixed p' @ len_prefixed d' @ len_prefixed e' @ r'"
    using conjunct2 [OF 3] by (simp_all add: t_def u_def u64_le_cancel)
  note 5 = len_prefixed_cancel [THEN iffD1, OF l(1,2) 4(3)]
  note 6 = len_prefixed_cancel [THEN iffD1, OF l(3,4) conjunct2 [OF 5]]
  note 7 = len_prefixed_cancel [THEN iffD1, OF l(5,6) conjunct2 [OF 6]]
  show ?thesis using 1(1) 2 3 4(1,2) 5 6 7 by blast
qed

lemma tx_preimage_cancel:
  assumes "form \<in> {FormV5, FormV6}" and "wf_tx t" and "wf_tx t'"
    and "tx_preimage form t = Some a" and "tx_preimage form t' = Some a'" and "a @ r = a' @ r'"
  shows "committed_tx t = committed_tx t' \<and> r = r'"
proof -
  note A = tx_preimage_v5 [OF assms(1,4)] and B = tx_preimage_v5 [OF assms(1,5)]
  note w = assms(2,3) [unfolded wf_tx_def]
  have "anchor (public t) = anchor (public t') \<and> tx_nullifiers (public t) = tx_nullifiers (public t')
      \<and> commitments (public t) = commitments (public t') \<and> wire_discriminant (bucket (public t)) = wire_discriminant (bucket (public t'))
      \<and> fee (public t) = fee (public t') \<and> proof_bytes t = proof_bytes t' \<and> discovery t = discovery t' \<and> rider t = rider t' \<and> r = r'"
    by (rule fields_cancel) (use A B w assms(6) in simp_all)
  then show ?thesis by (simp add: committed_tx_def wire_discriminant_inj)
qed

lemma tx_preimage_length: "form \<in> {FormV5, FormV6} \<Longrightarrow> wf_tx t \<Longrightarrow> tx_preimage form t = Some a \<Longrightarrow> 67 \<le> length a"
  by (drule (1) tx_preimage_v5) (simp add: wf_tx_def is_hash32_def len_prefixed_def)

lemma txs_preimage_cancel:
  assumes "form \<in> {FormV5, FormV6}"
  shows "txs_preimage form ts = Some a \<Longrightarrow> txs_preimage form us = Some b \<Longrightarrow> a @ r = b @ s
    \<Longrightarrow> \<forall>t \<in> set ts \<union> set us. wf_tx t \<Longrightarrow> length ts = length us \<or> length r < 67 \<and> length s < 67
    \<Longrightarrow> map committed_tx ts = map committed_tx us \<and> r = s"
proof (induction ts arbitrary: us a b)
  case Nil
  then show ?case
  proof (cases us)
    case (Cons u us')
    then obtain c d where "tx_preimage form u = Some c" "b = c @ d" using Nil.prems(2) by (auto simp: bind_eq_Some_conv)
    then have "67 \<le> length b" using tx_preimage_length [OF assms] Nil.prems(4) Cons by fastforce
    then have "67 \<le> length r" using Nil.prems(1,3) by (metis append_Nil length_append option.inject trans_le_add1 txs_preimage.simps(1))
    then show ?thesis using Nil.prems(5) Cons by simp
  qed simp
next
  case (Cons t ts)
  obtain c d where t: "tx_preimage form t = Some c" "txs_preimage form ts = Some d" "a = c @ d"
    using Cons.prems(1) by (auto simp: bind_eq_Some_conv)
  show ?case
  proof (cases us)
    case Nil
    then have "length a + length r = length s" using Cons.prems(2,3) by (metis append_Nil length_append option.inject txs_preimage.simps(1))
    moreover have "67 \<le> length a" using tx_preimage_length [OF assms _ t(1)] Cons.prems(4) t(3) by simp
    ultimately show ?thesis using Cons.prems(5) Nil by simp
  next
    case us: (Cons u us')
    obtain c' d' where u: "tx_preimage form u = Some c'" "txs_preimage form us' = Some d'" "b = c' @ d'"
      using Cons.prems(2) us by (auto simp: bind_eq_Some_conv)
    have "committed_tx t = committed_tx u \<and> d @ r = d' @ s"
      using tx_preimage_cancel [OF assms _ _ t(1) u(1)] Cons.prems(3,4) t(3) u(3) us by simp
    then show ?thesis using Cons.IH [OF t(2) u(2)] Cons.prems(4,5) us by simp
  qed
qed

lemma four_lanes: "length xs = 4 \<Longrightarrow> \<exists>a b c d. xs = [a, b, c, d]"
  by (auto simp: numeral_eq_Suc length_Suc_conv)

lemma payee_bytes_length: "length (rkm p) = 4 \<Longrightarrow> length (payee_bytes p) = 40"
  by (drule four_lanes) (auto simp: payee_bytes_def)

lemma payee_bytes_inj:
  assumes "length (rkm p) = 4" and "length (rkm q) = 4"
  shows "payee_bytes p = payee_bytes q \<longleftrightarrow> p = q"
proof -
  obtain a b c d a' b' c' d' where "rkm p = [a, b, c, d]" "rkm q = [a', b', c', d']"
    using assms [THEN four_lanes] by blast
  then show ?thesis by (cases p; cases q) (auto simp: payee_bytes_def u64_le_cancel)
qed

lemma payees_cancel:
  assumes "length ps \<le> 255" and "length qs \<le> 255" and "\<forall>p \<in> set ps \<union> set qs. length (rkm p) = 4"
    and "(word_of_nat (length ps) :: u8) # concat (map payee_bytes ps) @ r = word_of_nat (length qs) # concat (map payee_bytes qs) @ s"
  shows "ps = qs \<and> r = s"
proof -
  have len: "length ps = length qs" using assms u8_count by auto
  have "\<forall>x \<in> set (map payee_bytes ps) \<union> set (map payee_bytes qs). length x = 40"
    using assms(3) by (auto simp: payee_bytes_length)
  then have m: "map payee_bytes ps = map payee_bytes qs \<and> r = s"
    by (rule concat_cancel [THEN iffD1]) (use len assms(4) in simp_all)
  have "ps = qs"
  proof (rule nth_equalityI [OF len])
    fix i assume i: "i < length ps"
    then have "payee_bytes (ps ! i) = payee_bytes (qs ! i)" using m len by (metis nth_map)
    then show "ps ! i = qs ! i" using payee_bytes_inj assms(3) i len by (metis Un_iff nth_mem)
  qed
  with m show ?thesis by simp
qed

section \<open>Properties\<close>

text \<open>C31: what the v5 and v6 commitment preimages determine: two bodies of well-sized fields with one
  preimage have the same payees, for v6 the same two sections, and transactions that agree, in order,
  on proof, public part, discovery and rider (the layer-2 surface and authorisation of a transaction
  are not in these preimages). At the shipped v5 cap of one payee this holds outright; for v6, and for
  v5 under a larger cap, it needs the two bodies to have the same number of transactions.\<close>

theorem body_preimage_commits:
  assumes "wf_body a" and "wf_body b" and "preimage_form form cap a = Some p" and "preimage_form form cap b = Some p"
    and "form = FormV5 \<and> cap \<le> 1 \<or> form \<in> {FormV5, FormV6} \<and> cap \<le> 255 \<and> length (txs a) = length (txs b)"
  shows "map committed_tx (txs a) = map committed_tx (txs b) \<and> coinbase_payees a = coinbase_payees b
    \<and> (form = FormV6 \<longrightarrow> finality_section a = finality_section b \<and> bundle_section a = bundle_section b)"
proof -
  have form: "form \<in> {FormV5, FormV6}" and cap: "cap \<le> 255" using assms(5) by auto
  define sec where "sec c = (if form = FormV6 then len_prefixed (finality_section c) @ len_prefixed (bundle_section c) else [])" for c :: block_body
  define pays where "pays c = (word_of_nat (length (coinbase_payees c)) :: u8) # concat (map payee_bytes (coinbase_payees c))" for c :: block_body
  have split: "\<exists>t. txs_preimage form (txs c) = Some t \<and> p = form_domain form @ t @ pays c @ sec c \<and> length (coinbase_payees c) \<le> cap"
    if "preimage_form form cap c = Some p" for c
    using that form by (auto simp: preimage_form_def payees_preimage_def pays_def sec_def bind_eq_Some_conv split: if_splits)
  obtain t where t: "txs_preimage form (txs a) = Some t" "p = form_domain form @ t @ pays a @ sec a" "length (coinbase_payees a) \<le> cap"
    using split [OF assms(3)] by blast
  obtain u where u: "txs_preimage form (txs b) = Some u" "p = form_domain form @ u @ pays b @ sec b" "length (coinbase_payees b) \<le> cap"
    using split [OF assms(4)] by blast
  have short: "length (pays c @ sec c) < 67" if "form = FormV5" "length (coinbase_payees c) \<le> 1" "wf_body c" for c
    using that by (cases "coinbase_payees c") (auto simp: pays_def sec_def wf_body_def payee_bytes_length)
  have "length (txs a) = length (txs b) \<or> length (pays a @ sec a) < 67 \<and> length (pays b @ sec b) < 67"
    using assms(1,2,5) short t(3) u(3) by (meson le_trans)
  moreover have "\<forall>x \<in> set (txs a) \<union> set (txs b). wf_tx x" using assms(1,2) by (auto simp: wf_body_def)
  moreover have "t @ pays a @ sec a = u @ pays b @ sec b" using t(2) u(2) by simp
  ultimately have 1: "map committed_tx (txs a) = map committed_tx (txs b)" "pays a @ sec a = pays b @ sec b"
    using txs_preimage_cancel [OF form t(1) u(1)] by blast+
  have 2: "coinbase_payees a = coinbase_payees b \<and> sec a = sec b"
    by (rule payees_cancel)
      (use 1(2) t(3) u(3) cap assms(1,2) in \<open>auto simp: pays_def wf_body_def\<close>)
  have "finality_section a = finality_section b \<and> bundle_section a = bundle_section b" if "form = FormV6"
  proof -
    have "len_prefixed (finality_section a) @ len_prefixed (bundle_section a) @ []
        = len_prefixed (finality_section b) @ len_prefixed (bundle_section b) @ []"
      using 2 that by (simp add: sec_def)
    then show ?thesis using assms(1,2) by (simp only: len_prefixed_cancel wf_body_def)
  qed
  with 1(1) 2 show ?thesis by blast
qed

definition sample_tx :: tx_entry where
  "sample_tx = \<lparr>proof_bytes = [], public = \<lparr>anchor = 0 # u64_le 69 @ replicate 23 0, tx_nullifiers = [], commitments = [],
      bucket = TwoByTwo, fee = 0\<rparr>, discovery = [0], rider = [0], l2 = [0], auth = [0]\<rparr>"

definition sample_body :: block_body where
  "sample_body = body_new [sample_tx] []"

lemma sample_body_wf: "wf_body sample_body"
  by (simp add: wf_body_def wf_tx_def sample_body_def sample_tx_def body_new_def is_hash32_def)

lemma body_preimage_commits_witness:
  "map committed_tx (txs sample_body) = map committed_tx (txs sample_body)
    \<and> coinbase_payees sample_body = coinbase_payees sample_body"
proof -
  have "preimage_form FormV5 1 sample_body \<noteq> None"
    by (simp add: preimage_form_def sample_body_def body_new_def tx_preimage_def Let_def sample_tx_def payees_preimage_def)
  then obtain p where "preimage_form FormV5 1 sample_body = Some p" by blast
  with body_preimage_commits [OF sample_body_wf sample_body_wf this this] show ?thesis by simp
qed

definition sample_body2 :: block_body where
  "sample_body2 = \<lparr>txs = [], coinbase_payees = [],
    finality_section = replicate 23 0 @ [0, 0, wire_discriminant TwoByTwo] @ u64_le 0 @ u64_le 0 @ u64_le 1 @ [0] @ u64_le 1 @ [0]
      @ [0] @ u64_le 0,
    bundle_section = []\<rparr>"

text \<open>C32: the v6 preimage is not unambiguous across transaction counts: it writes no count of transactions,
  and a transaction whose anchor starts with a zero byte and a suitable length reads as an empty
  payee list followed by a finality section. The two bodies below are different and have one
  preimage, so one commitment.\<close>

theorem v6_preimage_ambiguous:
  "wf_body sample_body \<and> wf_body sample_body2 \<and> map committed_tx (txs sample_body) \<noteq> map committed_tx (txs sample_body2)
    \<and> finality_section sample_body \<noteq> finality_section sample_body2
    \<and> preimage_v6 sample_body \<noteq> None \<and> preimage_v6 sample_body = preimage_v6 sample_body2"
  using sample_body_wf
  by (simp add: wf_body_def sample_body_def sample_body2_def body_new_def preimage_v6_def preimage_form_def sample_tx_def
      tx_preimage_def payees_preimage_def Let_def len_prefixed_def)

end
