(* ===== verification/Annulet_Surface.thy ===== *)
theory Annulet_Surface
  imports Annulet_Auth Body_Form
begin

text \<open>
  The layer-2 surface of an Annulet transaction (\<open>qlab-devnet/src/annulet.rs\<close>): its three shapes, the byte
  form, the fee table, the intent a transaction's authorisation must sign, and the check of that
  authorisation. Fixed arrays are lists whose lengths \<open>wf_surface\<close> states; the encoder's panics are
  \<open>None\<close>. The ML-DSA library is the argument \<open>lib_verify\<close> of the previous theory.
\<close>

section \<open>The surface\<close>

datatype l2_shape_tag = TagS | TagP | TagR

definition tag_byte :: "l2_shape_tag \<Rightarrow> u8" where
  "tag_byte t = (case t of TagS \<Rightarrow> 1 | TagP \<Rightarrow> 2 | TagR \<Rightarrow> 3)"

definition tag_from_byte :: "u8 \<Rightarrow> l2_shape_tag option" where
  "tag_from_byte b = (if b = 1 then Some TagS else if b = 2 then Some TagP else if b = 3 then Some TagR else None)"

record vpublic_term =
  vt_redeem :: bool
  vt_amount :: u64
  vt_asset :: u16

record registry_write_surface =
  rw_new_root :: hash32
  rw_leaf_lanes :: "u64 list"

record l2_surface =
  sf_shape :: l2_shape_tag
  sf_registry_root :: hash32
  sf_vpublic :: "vpublic_term list option"
  sf_write :: "registry_write_surface option"
  sf_exit_rkm :: hash32

definition registry_write_asset :: "registry_write_surface \<Rightarrow> u64" where
  "registry_write_asset w = rw_leaf_lanes w ! 0"

definition l2_surface_len_s :: nat where "l2_surface_len_s = 1 + 32"
definition l2_surface_len_p :: nat where "l2_surface_len_p = l2_surface_len_s + 2 * (1 + 8 + 2) + 32"
definition l2_surface_len_r :: nat where "l2_surface_len_r = l2_surface_len_s + 32 + 15 * 8"

datatype l2_surface_error =
    SurfaceEmpty
  | UnknownShape u8
  | SurfaceLength nat nat
  | BadRedeemByte u8
  | NonCanonicalZeroTerm nat

definition term_bytes :: "vpublic_term \<Rightarrow> bytes" where
  "term_bytes t = (if vt_redeem t then 1 else 0) # u64_le (vt_amount t) @ u16_le (vt_asset t)"

definition surface_encode :: "l2_surface \<Rightarrow> bytes option" where
  "surface_encode s =
    (if sf_shape s \<noteq> TagP \<and> sf_exit_rkm s \<noteq> zero_hash then None
     else map_option (\<lambda>tail. tag_byte (sf_shape s) # sf_registry_root s @ tail)
       (case (sf_shape s, sf_vpublic s, sf_write s) of
          (TagS, None, None) \<Rightarrow> Some []
        | (TagP, Some terms, None) \<Rightarrow> Some (concat (map term_bytes terms) @ sf_exit_rkm s)
        | (TagR, None, Some w) \<Rightarrow> Some (rw_new_root w @ concat (map u64_le (rw_leaf_lanes w)))
        | _ \<Rightarrow> None))"

definition read_term :: "bytes \<Rightarrow> nat \<Rightarrow> l2_surface_error + vpublic_term" where
  "read_term rest row =
    (let at = 32 + row * 11
     in rbind (if rest ! at = 0 then Ok False else if rest ! at = 1 then Ok True else Err (BadRedeemByte (rest ! at))) (\<lambda>redeem.
       let amt = u64_from_le (slice_at (at + 1) 8 rest); asset = u16_from_le (slice_at (at + 9) 2 rest)
       in if amt = 0 \<and> (redeem \<or> asset \<noteq> 0) then Err (NonCanonicalZeroTerm row)
          else Ok \<lparr>vt_redeem = redeem, vt_amount = amt, vt_asset = asset\<rparr>))"

definition surface_want :: "l2_shape_tag \<Rightarrow> nat" where
  "surface_want shape = (case shape of TagS \<Rightarrow> l2_surface_len_s | TagP \<Rightarrow> l2_surface_len_p | TagR \<Rightarrow> l2_surface_len_r)"

definition surface_decode :: "bytes \<Rightarrow> l2_surface_error + l2_surface option" where
  "surface_decode b =
    (case b of
       [] \<Rightarrow> Err SurfaceEmpty
     | tg # rest \<Rightarrow>
         if b = l2_surface_absent then Ok None
         else (case tag_from_byte tg of
                 None \<Rightarrow> Err (UnknownShape tg)
               | Some shape \<Rightarrow>
                   if length b \<noteq> surface_want shape then Err (SurfaceLength (length b) (surface_want shape))
                   else
                     rbind (case shape of
                              TagP \<Rightarrow> rbind (read_term rest 0) (\<lambda>t0. rbind (read_term rest 1) (\<lambda>t1. Ok (Some [t0, t1])))
                            | _ \<Rightarrow> Ok None) (\<lambda>vpublic.
                       Ok (Some \<lparr>sf_shape = shape, sf_registry_root = take 32 rest, sf_vpublic = vpublic,
                         sf_write = (if shape = TagR
                           then Some \<lparr>rw_new_root = slice_at 32 32 rest,
                             rw_leaf_lanes = map (\<lambda>i. u64_from_le (slice_at (64 + 8 * i) 8 rest)) [0..<15]\<rparr> else None),
                         sf_exit_rkm = (if shape = TagP then slice_at (32 + 2 * 11) 32 rest else zero_hash)\<rparr>))))"

record l2_fee_table =
  tier_s :: u64
  tier_p :: u64
  tier_r :: u64

definition posted_fee_l2 :: "l2_fee_table \<Rightarrow> l2_shape_tag \<Rightarrow> u64" where
  "posted_fee_l2 f shape = (case shape of TagS \<Rightarrow> tier_s f | TagP \<Rightarrow> tier_p f | TagR \<Rightarrow> tier_r f)"

definition with_surface :: "tx_entry \<Rightarrow> l2_surface \<Rightarrow> tx_entry option" where
  "with_surface t s = map_option (\<lambda>b. t\<lparr>l2 := b\<rparr>) (surface_encode s)"

section \<open>The authorisation of a transaction\<close>

definition auth_shape_of :: "l2_shape_tag \<Rightarrow> auth_shape" where
  "auth_shape_of t = (case t of TagS \<Rightarrow> ShapeS | TagP \<Rightarrow> ShapeP | TagR \<Rightarrow> ShapeR)"

datatype intent_error =
    NoSurface
  | IntentSurface l2_surface_error
  | IntentDiscovery codec_error
  | IntentCommitments nat
  | GenesisFormat u32
  | IntentAuth auth_error

definition l2_payload_len :: nat where "l2_payload_len = 112 + 16"

text \<open>The two outer panics: the surface re-encoded (it was just decoded) and the discovery re-encoded.\<close>

definition intent_for :: "tx_entry \<Rightarrow> u32 \<Rightarrow> hash32 \<Rightarrow> u64 \<Rightarrow> auth_descriptor list \<Rightarrow> (intent_error + annulet_intent) option" where
  "intent_for t genesis_format genesis_hash valid_until descriptors =
    (case surface_decode (l2 t) of
       Inl e \<Rightarrow> Some (Err (IntentSurface e))
     | Inr None \<Rightarrow> Some (Err NoSurface)
     | Inr (Some surface) \<Rightarrow>
         (case decode_committed_discovery_with_width (discovery t) l2_payload_len of
            Inl e \<Rightarrow> Some (Err (IntentDiscovery e))
          | Inr (rs, ps) \<Rightarrow>
              (case encode_committed_discovery_with_width rs ps l2_payload_len of
                 None \<Rightarrow> None
               | Some disc \<Rightarrow>
                   (case annulet_forms_of_version genesis_format of
                      None \<Rightarrow> Some (Err (GenesisFormat genesis_format))
                    | Some (_, form) \<Rightarrow>
                        if \<not> has_auth form then Some (Err (GenesisFormat genesis_format))
                        else
                          let want = (case sf_shape surface of TagR \<Rightarrow> 2 | _ \<Rightarrow> sp_outputs form)
                          in if length (commitments (public t)) \<noteq> want
                             then Some (Err (IntentCommitments (length (commitments (public t)))))
                             else (case surface_encode surface of
                                     None \<Rightarrow> None
                                   | Some sb \<Rightarrow>
                                       let i = \<lparr>in_genesis_format = genesis_format, in_genesis_hash = genesis_hash,
                                         in_shape = auth_shape_of (sf_shape surface), in_anchor = anchor (public t),
                                         in_nullifiers = tx_nullifiers (public t), in_commitments = commitments (public t),
                                         in_bucket = wire_discriminant (bucket (public t)), in_valid_until = valid_until,
                                         in_fee = fee (public t), in_registry_root = sf_registry_root surface,
                                         in_surface_hash = keccak256 sb, in_discovery_hash = keccak256 disc, in_auth = descriptors\<rparr>
                                       in Some (case validate_shape i of Inl e \<Rightarrow> Err (IntentAuth e) | Inr _ \<Rightarrow> Ok i))))))"

definition max_auth_validity_blocks :: u64 where "max_auth_validity_blocks = 1152"

record auth_context =
  ac_form :: l2_auth_form
  ac_genesis_hash :: hash32

definition auth_context_none :: auth_context where
  "auth_context_none = \<lparr>ac_form = NoAuth, ac_genesis_hash = zero_hash\<rparr>"

definition candidate_a :: "hash32 \<Rightarrow> auth_context" where "candidate_a g = \<lparr>ac_form = CandidateA, ac_genesis_hash = g\<rparr>"
definition candidate_a_v3 :: "hash32 \<Rightarrow> auth_context" where "candidate_a_v3 g = \<lparr>ac_form = CandidateAV3, ac_genesis_hash = g\<rparr>"

definition context_genesis_format :: "auth_context \<Rightarrow> u32" where
  "context_genesis_format ctx = auth_genesis_format_version (ac_form ctx)"

datatype auth_refusal =
    AuthOnV1Net
  | AuthMissing
  | AuthMalformed auth_error
  | Expired u64 u64
  | ValidityTooFar u64 u64
  | RefusedIntent intent_error
  | Unauthorized auth_error

definition check_auth :: "(bytes \<Rightarrow> hash32 \<Rightarrow> bytes \<Rightarrow> bool) \<Rightarrow> tx_entry \<Rightarrow> auth_context \<Rightarrow> u64 \<Rightarrow> (auth_refusal + u64 option) option" where
  "check_auth lib_verify t ctx h =
    (let present = (auth t \<noteq> l2_auth_absent)
     in if \<not> has_auth (ac_form ctx) \<and> \<not> present then Some (Ok None)
        else if \<not> has_auth (ac_form ctx) then Some (Err AuthOnV1Net)
        else if \<not> present then Some (Err AuthMissing)
        else (case surface_decode (l2 t) of
                Inl e \<Rightarrow> Some (Err (RefusedIntent (IntentSurface e)))
              | Inr None \<Rightarrow> Some (Err (RefusedIntent NoSurface))
              | Inr (Some surface) \<Rightarrow>
                  (case section_decode (auth_shape_of (sf_shape surface)) (auth t) of
                     Inl e \<Rightarrow> Some (Err (AuthMalformed e))
                   | Inr section \<Rightarrow>
                       let v = se_valid_until section; limit = sat_add h max_auth_validity_blocks
                       in if h > v then Some (Err (Expired v h))
                          else if v > limit then Some (Err (ValidityTooFar v limit))
                          else (case intent_for t (context_genesis_format ctx) (ac_genesis_hash ctx) v (map sl_descriptor (se_slots section)) of
                                  None \<Rightarrow> None
                                | Some (Inl e) \<Rightarrow> Some (Err (RefusedIntent e))
                                | Some (Inr i) \<Rightarrow>
                                    (case verify_intent lib_verify section i of
                                       Inl e \<Rightarrow> Some (Err (Unauthorized e))
                                     | Inr _ \<Rightarrow> Some (Ok (Some v)))))))"

definition auth_validity_ok :: "u64 option \<Rightarrow> u64 \<Rightarrow> bool" where
  "auth_validity_ok valid_until h =
    (case valid_until of None \<Rightarrow> True | Some v \<Rightarrow> h \<le> v \<and> v \<le> sat_add h max_auth_validity_blocks)"

section \<open>The surface's byte form\<close>

definition canonical_term :: "vpublic_term \<Rightarrow> bool" where
  "canonical_term t \<longleftrightarrow> (vt_amount t = 0 \<longrightarrow> \<not> vt_redeem t \<and> vt_asset t = 0)"

definition wf_surface :: "l2_surface \<Rightarrow> bool" where
  "wf_surface s \<longleftrightarrow> is_hash32 (sf_registry_root s) \<and> is_hash32 (sf_exit_rkm s)
    \<and> (case sf_vpublic s of None \<Rightarrow> True | Some ts \<Rightarrow> length ts = 2 \<and> list_all canonical_term ts)
    \<and> (case sf_write s of None \<Rightarrow> True | Some w \<Rightarrow> is_hash32 (rw_new_root w) \<and> length (rw_leaf_lanes w) = 15)"

lemmas surface_lens = l2_surface_len_s_def l2_surface_len_p_def l2_surface_len_r_def surface_want_def

lemma tag_byte_inverse: "tag_from_byte b = Some t \<longleftrightarrow> b = tag_byte t"
  by (cases t) (auto simp: tag_from_byte_def tag_byte_def)

lemma length_zero_hash [simp]: "length zero_hash = 32"
  by (simp add: zero_hash_def)

lemma tag_byte_neq_0: "tag_byte t \<noteq> 0"
  by (cases t) (simp_all add: tag_byte_def)

lemma length_term_bytes: "length (term_bytes t) = 11"
  by (simp add: term_bytes_def)

lemma read_term_at:
  "length pre = 32 + row * 11 \<Longrightarrow> canonical_term t \<Longrightarrow> read_term (pre @ term_bytes t @ post) row = Ok t"
  by (cases t) (auto simp: read_term_def Let_def term_bytes_def canonical_term_def nth_append slice_at_append slice_at_0_append slice_at_Cons)

lemma read_term_Ok:
  assumes "read_term rest row = Ok t" and "43 + row * 11 \<le> length rest"
  shows "term_bytes t = slice_at (32 + row * 11) 11 rest \<and> canonical_term t"
proof -
  define at where "at = 32 + row * 11"
  have b: "rest ! at = (if vt_redeem t then 1 else 0)" "vt_amount t = u64_from_le (slice_at (at + 1) 8 rest)"
    "vt_asset t = u16_from_le (slice_at (at + 9) 2 rest)" "canonical_term t"
    using assms(1) by (auto simp: read_term_def Let_def at_def canonical_term_def split: if_splits)
  have split: "slice_at at 11 rest = rest ! at # slice_at (at + 1) 8 rest @ slice_at (at + 9) 2 rest"
  proof -
    have len: "at + 11 \<le> length rest" using assms(2) by (simp add: at_def)
    then have "drop at rest = rest ! at # drop (at + 1) rest" by (simp add: Cons_nth_drop_Suc)
    moreover have "drop (at + 1) rest = slice_at (at + 1) 8 rest @ slice_at (at + 9) 2 rest @ drop (at + 11) rest"
      using drop_slice_at [of "at + 1" rest 8] drop_slice_at [of "at + 9" rest 2] by (simp add: add.commute)
    ultimately have "drop at rest = (rest ! at # slice_at (at + 1) 8 rest @ slice_at (at + 9) 2 rest) @ drop (at + 11) rest" by simp
    moreover have "length (rest ! at # slice_at (at + 1) 8 rest @ slice_at (at + 9) 2 rest) = 11" using len by simp
    ultimately show ?thesis unfolding slice_at_def [of at 11] by (metis append_eq_conv_conj)
  qed
  have "at + 9 \<le> length rest" "at + 11 \<le> length rest" using assms(2) by (simp_all add: at_def)
  then have "u64_le (vt_amount t) = slice_at (at + 1) 8 rest" "u16_le (vt_asset t) = slice_at (at + 9) 2 rest"
    using u64_le_u64_from_le [of "slice_at (at + 1) 8 rest"] u16_le_u16_from_le [of "slice_at (at + 9) 2 rest"] b by simp_all
  then show ?thesis using split b by (simp add: term_bytes_def at_def)
qed

lemma lanes_read:
  assumes "length rest = 64 + 15 * 8"
  shows "concat (map u64_le (map (\<lambda>i. u64_from_le (slice_at (64 + 8 * i) 8 rest)) [0..<15])) = drop 64 rest"
proof -
  have "u64_le (u64_from_le (slice_at (64 + 8 * i) 8 rest)) = slice_at (i * 8) 8 (drop 64 rest)" if "i < 15" for i
    using u64_le_u64_from_le [of "slice_at (64 + 8 * i) 8 rest"] that assms by (simp add: slice_at_def mult.commute add.commute)
  then have "map u64_le (map (\<lambda>i. u64_from_le (slice_at (64 + 8 * i) 8 rest)) [0..<15]) = map (\<lambda>i. slice_at (i * 8) 8 (drop 64 rest)) [0..<15]"
    by (intro nth_equalityI) simp_all
  moreover have "length (drop 64 rest) = 15 * 8" using assms by simp
  from concat_blocks [OF this] have "concat (map (\<lambda>i. slice_at (i * 8) 8 (drop 64 rest)) [0..<15]) = drop 64 rest" .
  ultimately show ?thesis by (simp only:)
qed

lemma lanes_written:
  assumes "length pre = 64" and "length ls = 15"
  shows "map (\<lambda>i. u64_from_le (slice_at (64 + 8 * i) 8 (pre @ concat (map u64_le ls)))) [0..<15] = ls"
proof -
  have "map (\<lambda>i. slice_at (i * 8) 8 (concat (map u64_le ls))) [0..<15] = map u64_le ls"
    using blocks_concat [of "map u64_le ls" 8 0] assms(2) by simp
  moreover have "slice_at (64 + 8 * i) 8 (pre @ concat (map u64_le ls)) = slice_at (i * 8) 8 (concat (map u64_le ls))" for i
    using assms(1) by (simp add: slice_at_append mult.commute)
  ultimately have "map (\<lambda>i. slice_at (64 + 8 * i) 8 (pre @ concat (map u64_le ls))) [0..<15] = map u64_le ls" by simp
  then have "map u64_from_le (map (\<lambda>i. slice_at (64 + 8 * i) 8 (pre @ concat (map u64_le ls))) [0..<15]) = map u64_from_le (map u64_le ls)"
    by (rule arg_cong)
  then show ?thesis by (simp add: comp_def)
qed

lemma surface_decode_Ok:
  assumes "surface_decode b = Ok (Some s)"
  shows "surface_encode s = Some b \<and> wf_surface s"
proof -
  obtain tg rest where b: "b = tg # rest" using assms by (cases b) (auto simp: surface_decode_def)
  obtain shape where sh: "tg = tag_byte shape" "length rest + 1 = surface_want shape" "tag_from_byte tg = Some shape"
    using assms b by (auto simp: surface_decode_def tag_byte_inverse split: if_splits option.splits)
  show ?thesis
  proof (cases shape)
    case TagS
    then show ?thesis using assms b sh
      by (auto simp: surface_decode_def surface_lens surface_encode_def wf_surface_def is_hash32_def split: if_splits)
  next
    case TagP
    have len: "length rest = 86" using sh(2) TagP by (simp add: surface_lens)
    obtain t0 t1 where t: "read_term rest 0 = Ok t0" "read_term rest 1 = Ok t1"
      "s = \<lparr>sf_shape = TagP, sf_registry_root = take 32 rest, sf_vpublic = Some [t0, t1], sf_write = None, sf_exit_rkm = slice_at 54 32 rest\<rparr>"
      using assms b sh TagP by (auto simp: surface_decode_def split: if_splits)
    have c: "term_bytes t0 = slice_at 32 11 rest" "term_bytes t1 = slice_at 43 11 rest" "canonical_term t0" "canonical_term t1"
      using read_term_Ok [OF t(1)] read_term_Ok [OF t(2)] len by simp_all
    have "drop 32 rest = slice_at 32 11 rest @ slice_at 43 11 rest @ slice_at 54 32 rest"
      using drop_slice_at [of 32 rest 11] drop_slice_at [of 43 rest 11] drop_slice_at [of 54 rest 32] len by simp
    then have "rest = take 32 rest @ slice_at 32 11 rest @ slice_at 43 11 rest @ slice_at 54 32 rest" by (metis append_take_drop_id)
    then show ?thesis using t(3) c b sh(1) TagP len by (simp add: surface_encode_def wf_surface_def is_hash32_def)
  next
    case TagR
    have len: "length rest = 184" using sh(2) TagR by (simp add: surface_lens)
    have s: "s = \<lparr>sf_shape = TagR, sf_registry_root = take 32 rest, sf_vpublic = None,
        sf_write = Some \<lparr>rw_new_root = slice_at 32 32 rest, rw_leaf_lanes = map (\<lambda>i. u64_from_le (slice_at (64 + 8 * i) 8 rest)) [0..<15]\<rparr>,
        sf_exit_rkm = zero_hash\<rparr>"
      using assms b sh TagR by (auto simp: surface_decode_def split: if_splits)
    have "surface_encode s = Some (tag_byte TagR # take 32 rest @ slice_at 32 32 rest
        @ concat (map u64_le (map (\<lambda>i. u64_from_le (slice_at (64 + 8 * i) 8 rest)) [0..<15])))"
      unfolding s surface_encode_def by simp
    also have "\<dots> = Some (tag_byte TagR # take 32 rest @ slice_at 32 32 rest @ drop 64 rest)"
      using lanes_read [of rest] len by simp
    also have "take 32 rest @ slice_at 32 32 rest @ drop 64 rest = rest"
      using drop_slice_at [of 32 rest 32] by (metis append_take_drop_id numeral_Bit0)
    finally have "surface_encode s = Some b" using b sh(1) TagR by simp
    moreover have "wf_surface s" unfolding s wf_surface_def is_hash32_def using len by simp
    ultimately show ?thesis ..
  qed
qed

lemma surface_encode_Some:
  assumes "surface_encode s = Some b" and "wf_surface s"
  shows "surface_decode b = Ok (Some s)"
proof -
  note w = assms(2) [unfolded wf_surface_def is_hash32_def]
  have tag: "tag_from_byte (tag_byte x) = Some x" for x by (simp add: tag_byte_inverse)
  have ne: "tag_byte x # y \<noteq> l2_surface_absent" for x y by (simp add: l2_surface_absent_def tag_byte_neq_0)
  show ?thesis
  proof (cases "sf_shape s")
    case TagS
    then show ?thesis using assms(1) w tag ne
      by (cases s) (auto simp: surface_encode_def surface_decode_def surface_lens split: option.splits if_splits)
  next
    case TagP
    obtain ts where ts: "sf_vpublic s = Some ts" "sf_write s = None" using assms(1) TagP by (auto simp: surface_encode_def split: option.splits if_splits)
    then obtain t0 t1 where t: "ts = [t0, t1]" "canonical_term t0" "canonical_term t1"
      using w by (auto simp: length_Suc_conv numeral_2_eq_2)
    define root ex where "root = sf_registry_root s" and "ex = sf_exit_rkm s"
    have l: "length root = 32" "length ex = 32" using w by (simp_all add: root_def ex_def)
    have b: "b = tag_byte TagP # root @ term_bytes t0 @ term_bytes t1 @ ex"
      using assms(1) TagP ts t by (simp add: surface_encode_def root_def ex_def)
    have r: "read_term (root @ term_bytes t0 @ term_bytes t1 @ ex) 0 = Ok t0" "read_term (root @ term_bytes t0 @ term_bytes t1 @ ex) 1 = Ok t1"
      using read_term_at [of root 0 t0 "term_bytes t1 @ ex"] read_term_at [of "root @ term_bytes t0" 1 t1 ex] t l
      by (simp_all add: length_term_bytes)
    have "surface_decode b = Ok (Some \<lparr>sf_shape = TagP, sf_registry_root = root, sf_vpublic = Some [t0, t1], sf_write = None, sf_exit_rkm = ex\<rparr>)"
      using b r ne tag l by (simp add: surface_decode_def surface_lens length_term_bytes slice_at_append slice_at_def)
    then show ?thesis using TagP ts t by (cases s) (simp add: root_def ex_def)
  next
    case TagR
    obtain wr where wr: "sf_vpublic s = None" "sf_write s = Some wr" "sf_exit_rkm s = zero_hash"
      using assms(1) TagR by (auto simp: surface_encode_def split: option.splits if_splits)
    define root nr ls where "root = sf_registry_root s" and "nr = rw_new_root wr" and "ls = rw_leaf_lanes wr"
    have l: "length root = 32" "length nr = 32" "length ls = 15" using w wr by (simp_all add: root_def nr_def ls_def)
    have b: "b = tag_byte TagR # root @ nr @ concat (map u64_le ls)"
      using assms(1) TagR wr by (simp add: surface_encode_def root_def nr_def ls_def)
    have lanes: "map (\<lambda>i. u64_from_le (slice_at (64 + 8 * i) 8 (root @ nr @ concat (map u64_le ls)))) [0..<15] = ls"
      using lanes_written [of "root @ nr" ls] l by simp
    have lc: "length (concat (map u64_le ls)) = 120" using l(3) length_concat_same [of "map u64_le ls" 8] by simp
    have "surface_decode b = Ok (Some \<lparr>sf_shape = TagR, sf_registry_root = root, sf_vpublic = None,
        sf_write = Some \<lparr>rw_new_root = nr, rw_leaf_lanes = ls\<rparr>, sf_exit_rkm = zero_hash\<rparr>)"
      using b ne tag l lc lanes by (simp add: surface_decode_def surface_lens slice_at_append slice_at_0_append)
    then show ?thesis using TagR wr by (cases s; cases wr) (simp add: root_def nr_def ls_def)
  qed
qed

section \<open>What the check of an authorisation establishes\<close>

lemma intent_for_Ok:
  "intent_for t gf gh v ds = Some (Ok i) \<longleftrightarrow>
    (\<exists>surface rs ps form. surface_decode (l2 t) = Ok (Some surface)
      \<and> decode_committed_discovery_with_width (discovery t) l2_payload_len = Ok (rs, ps)
      \<and> annulet_forms_of_version gf = Some (Annulet, form) \<and> has_auth form
      \<and> length (commitments (public t)) = (case sf_shape surface of TagR \<Rightarrow> 2 | _ \<Rightarrow> sp_outputs form)
      \<and> i = \<lparr>in_genesis_format = gf, in_genesis_hash = gh,
           in_shape = auth_shape_of (sf_shape surface), in_anchor = anchor (public t),
           in_nullifiers = tx_nullifiers (public t), in_commitments = commitments (public t),
           in_bucket = wire_discriminant (bucket (public t)), in_valid_until = v,
           in_fee = fee (public t), in_registry_root = sf_registry_root surface,
           in_surface_hash = keccak256 (l2 t), in_discovery_hash = keccak256 (discovery t), in_auth = ds\<rparr>
      \<and> validate_shape i = Ok ())"
proof -
  have enc: "surface_encode s = Some (l2 t)" if "surface_decode (l2 t) = Ok (Some s)" for s using surface_decode_Ok [OF that] by simp
  have disc: "encode_committed_discovery_with_width rs ps l2_payload_len = Some (discovery t)"
    if "decode_committed_discovery_with_width (discovery t) l2_payload_len = Ok (rs, ps)" for rs ps
    using that by (simp add: decode_encode_discovery)
  have form: "annulet_forms_of_version gf = Some (g, f) \<Longrightarrow> g = Annulet" for g f
    by (auto simp: annulet_forms_of_version_def split: if_splits)
  show ?thesis
    unfolding intent_for_def
    by (auto simp: enc disc Let_def dest: form split: sum.splits option.splits if_splits)
qed

lemma intent_for_no_panic: "intent_for t gf gh v ds \<noteq> None"
proof -
  have "surface_encode s \<noteq> None" if "surface_decode (l2 t) = Ok (Some s)" for s using surface_decode_Ok [OF that] by simp
  moreover have "encode_committed_discovery_with_width rs ps l2_payload_len \<noteq> None"
    if "decode_committed_discovery_with_width (discovery t) l2_payload_len = Ok (rs, ps)" for rs ps
    using that by (simp add: decode_encode_discovery)
  ultimately show ?thesis
    unfolding intent_for_def by (auto simp: Let_def split: sum.splits option.splits if_splits)
qed

lemma check_auth_no_panic: "check_auth lib_verify t ctx h \<noteq> None"
  by (auto simp: check_auth_def Let_def intent_for_no_panic simp del: not_None_eq
      split: sum.splits option.splits if_splits)

lemma check_auth_Ok:
  assumes "check_auth lib_verify t ctx h = Some (Ok v)"
  shows "if has_auth (ac_form ctx)
    then \<exists>surface sec i valid. v = Some valid \<and> surface_decode (l2 t) = Ok (Some surface)
      \<and> section_decode (auth_shape_of (sf_shape surface)) (auth t) = Ok sec \<and> se_valid_until sec = valid
      \<and> h \<le> valid \<and> valid \<le> sat_add h max_auth_validity_blocks
      \<and> intent_for t (context_genesis_format ctx) (ac_genesis_hash ctx) valid (map sl_descriptor (se_slots sec)) = Some (Ok i)
      \<and> verify_intent lib_verify sec i = Ok ()
    else v = None \<and> auth t = l2_auth_absent"
  using assms
  by (auto simp: check_auth_def Let_def not_less split: sum.splits option.splits if_splits)

section \<open>Properties\<close>

text \<open>C35: the surface's byte form is canonical: a byte string decodes to a surface exactly when it is that surface's
  encoding and the surface is well formed (both terms present on shape P and canonical when zero, the
  fifteen lanes of a registry write); the encoder never panics on what the decoder returns.\<close>

theorem surface_roundtrip:
  "surface_decode b = Ok (Some s) \<longleftrightarrow> surface_encode s = Some b \<and> wf_surface s"
  using surface_decode_Ok surface_encode_Some by blast

text \<open>C27: what an admitted authorisation proves: on a net that carries authorisations, when the check
  accepts, every slot's signature verifies under a key that is the leaf its descriptor names, over the
  digest of an intent that binds the net, the anchor, every nullifier and commitment, the fee, the
  surface and the discovery of this very transaction, and an expiry that has not passed and lies within
  the permitted window.\<close>

theorem authorisation_binds_transaction:
  assumes "check_auth lib_verify t ctx h = Some (Ok v)" and "has_auth (ac_form ctx)"
  shows "\<exists>valid i digest sec. v = Some valid \<and> auth_validity_ok v h \<and> intent_digest i = Ok digest
    \<and> in_genesis_format i = context_genesis_format ctx \<and> in_genesis_hash i = ac_genesis_hash ctx
    \<and> in_anchor i = anchor (public t) \<and> in_nullifiers i = tx_nullifiers (public t) \<and> in_commitments i = commitments (public t)
    \<and> in_fee i = fee (public t) \<and> in_bucket i = wire_discriminant (bucket (public t)) \<and> in_valid_until i = valid
    \<and> in_surface_hash i = keccak256 (l2 t) \<and> in_discovery_hash i = keccak256 (discovery t)
    \<and> section_decode (in_shape i) (auth t) = Ok sec \<and> length (se_slots sec) = length (tx_nullifiers (public t))
    \<and> (\<forall>sl \<in> set (se_slots sec). lib_verify (sl_key sl) digest (sl_signature sl)
        \<and> (\<exists>ix. sl_descriptor sl = MlDsa44 ix (mldsa_leaf ix (sl_key sl))))"
proof -
  obtain surface sec i valid where c: "v = Some valid" "section_decode (auth_shape_of (sf_shape surface)) (auth t) = Ok sec"
    "h \<le> valid" "valid \<le> sat_add h max_auth_validity_blocks" "surface_decode (l2 t) = Ok (Some surface)"
    "intent_for t (context_genesis_format ctx) (ac_genesis_hash ctx) valid (map sl_descriptor (se_slots sec)) = Some (Ok i)"
    "verify_intent lib_verify sec i = Ok ()"
    using check_auth_Ok [OF assms(1)] assms(2) by auto
  obtain digest where d: "intent_digest i = Ok digest" "map sl_descriptor (se_slots sec) = in_auth i" "validate_shape i = Ok ()"
    "\<forall>sl \<in> set (se_slots sec). mldsa_leaf (descriptor_leaf_index (sl_descriptor sl)) (sl_key sl) = descriptor_leaf (sl_descriptor sl)
          \<and> mldsa_verify lib_verify (sl_descriptor sl) (sl_key sl) (sl_signature sl) digest"
    using c(7) by (auto simp: verify_intent_Ok)
  have slots: "lib_verify (sl_key sl) digest (sl_signature sl) \<and> (\<exists>ix. sl_descriptor sl = MlDsa44 ix (mldsa_leaf ix (sl_key sl)))"
    if "sl \<in> set (se_slots sec)" for sl
    using bspec [OF d(4) that] by (cases "sl_descriptor sl") (auto simp: mldsa_verify_def split: if_splits)
  have ok: "auth_validity_ok v h" using c(1,3,4) by (simp add: auth_validity_ok_def)
  from c(6) obtain surface2 where i: "surface_decode (l2 t) = Ok (Some surface2)" "in_shape i = auth_shape_of (sf_shape surface2)"
    "in_genesis_format i = context_genesis_format ctx" "in_genesis_hash i = ac_genesis_hash ctx" "in_anchor i = anchor (public t)"
    "in_nullifiers i = tx_nullifiers (public t)" "in_commitments i = commitments (public t)" "in_fee i = fee (public t)"
    "in_bucket i = wire_discriminant (bucket (public t))" "in_valid_until i = valid"
    "in_surface_hash i = keccak256 (l2 t)" "in_discovery_hash i = keccak256 (discovery t)"
    by (auto simp: intent_for_Ok)
  have "length (se_slots sec) = length (in_nullifiers i)"
    using arg_cong [OF d(2), of length] d(3) by (simp add: validate_shape_Ok)
  then have len: "length (se_slots sec) = length (tx_nullifiers (public t))" by (simp only: i(6))
  have "section_decode (in_shape i) (auth t) = Ok sec" using c(2,5) i(1,2) by simp
  then show ?thesis using c(1) ok d(1) i slots len by blast
qed

definition sample_surface :: l2_surface where
  "sample_surface = \<lparr>sf_shape = TagR, sf_registry_root = zero_hash, sf_vpublic = None,
    sf_write = Some \<lparr>rw_new_root = zero_hash, rw_leaf_lanes = replicate 15 0\<rparr>, sf_exit_rkm = zero_hash\<rparr>"

definition sample_section :: auth_section where
  "sample_section = \<lparr>se_valid_until = 20,
    se_slots = [\<lparr>sl_descriptor = MlDsa44 0 (mldsa_leaf 0 sample_key), sl_key = sample_key, sl_signature = sample_signature\<rparr>]\<rparr>"

definition sample_l2_tx :: tx_entry where
  "sample_l2_tx = \<lparr>proof_bytes = [9], public = \<lparr>anchor = replicate 32 5, tx_nullifiers = [replicate 32 1],
      commitments = [replicate 32 2, replicate 32 3], bucket = TwoByTwo, fee = 4\<rparr>,
    discovery = write_group_contents [], rider = [0], l2 = the (surface_encode sample_surface), auth = projr (section_encode sample_section)\<rparr>"

lemma sample_surface_decodes: "surface_decode (l2 sample_l2_tx) = Ok (Some sample_surface)"
proof -
  have "\<exists>b. surface_encode sample_surface = Some b"
    by (simp add: surface_encode_def sample_surface_def)
  then show ?thesis
    using surface_encode_Some [of sample_surface]
    by (auto simp: sample_l2_tx_def wf_surface_def is_hash32_def) (simp_all add: sample_surface_def is_hash32_def)
qed

lemma sample_auth_section_decodes: "section_decode ShapeR (auth sample_l2_tx) = Ok sample_section" "auth sample_l2_tx \<noteq> l2_auth_absent"
proof -
  have good: "good_slot sl" if "sl \<in> set (se_slots sample_section)" for sl
    using that by (auto simp: sample_section_def good_slot_def is_mldsa_def mldsa_leaf_def descriptor_leaf_def sample_key_def sample_signature_def)
  have len: "length (se_slots sample_section) = shape_slots ShapeR" by (simp add: sample_section_def shape_slots_def)
  obtain b where b: "section_encode sample_section = Ok b"
    using encode_slots_Ok [of 0 "se_slots sample_section" "concat (map slot_raw (se_slots sample_section))"] good
    by (auto simp: section_encode_def Let_def good_slot_def) (simp add: sample_section_def)
  then show d: "section_decode ShapeR (auth sample_l2_tx) = Ok sample_section"
    using section_encode_Ok [OF _ len] good by (auto simp: sample_l2_tx_def)
  show "auth sample_l2_tx \<noteq> l2_auth_absent"
    using d by (auto simp: section_decode_def l2_auth_absent_def section_header_bytes_def)
qed

lemma sample_discovery_decodes:
  "decode_committed_discovery_with_width (discovery sample_l2_tx) l2_payload_len = Ok ([], [])"
  by (simp add: sample_l2_tx_def decode_encode_discovery ok_contents_def encode_committed_discovery_with_width_def
      contents_entry_count_def)

lemma sample_fields:
  "public sample_l2_tx = \<lparr>anchor = replicate 32 5, tx_nullifiers = [replicate 32 1],
    commitments = [replicate 32 2, replicate 32 3], bucket = TwoByTwo, fee = 4\<rparr>"
  "sf_shape sample_surface = TagR"
  by (simp_all add: sample_l2_tx_def sample_surface_def)

lemma sample_forms: "annulet_forms_of_version (context_genesis_format (candidate_a g)) = Some (Annulet, CandidateA)"
  by (simp add: candidate_a_def context_genesis_format_def annulet_forms_of_version_def auth_genesis_format_version_def
      annulet_genesis_format_version_def annulet_auth_genesis_format_version_def)

lemma sample_intent_for:
  assumes "decode_committed_discovery_with_width d l2_payload_len = Ok (rs, ps)"
  shows "\<exists>i. intent_for (sample_l2_tx\<lparr>discovery := d\<rparr>) (context_genesis_format (candidate_a zero_hash)) zero_hash 20 [MlDsa44 0 (mldsa_leaf 0 sample_key)] = Some (Ok i)"
  unfolding intent_for_Ok sample_forms
  by (intro exI conjI) (rule assms refl
      | simp add: sample_surface_decodes assms sample_forms sample_fields has_auth_def validate_shape_Ok auth_shape_of_def shape_slots_def intent_outputs_def is_mldsa_def
          context_genesis_format_def candidate_a_def auth_genesis_format_version_def annulet_v3_genesis_format_def)+

text \<open>The sample with any discovery that decodes is authorised.\<close>

lemma sample_authorised:
  assumes "decode_committed_discovery_with_width d l2_payload_len = Ok (rs, ps)"
  shows "check_auth (\<lambda>_ _ sig. sig = sample_signature) (sample_l2_tx\<lparr>discovery := d\<rparr>) (candidate_a zero_hash) 10 = Some (Ok (Some 20))"
proof -
  let ?ds = "[MlDsa44 0 (mldsa_leaf 0 sample_key)]"
  obtain i where i: "intent_for (sample_l2_tx\<lparr>discovery := d\<rparr>) (context_genesis_format (candidate_a zero_hash)) zero_hash 20 ?ds = Some (Ok i)"
    using sample_intent_for [OF assms] by blast
  then have f: "validate_shape i = Ok ()" "in_valid_until i = 20" "in_auth i = ?ds" by (auto simp: intent_for_Ok)
  then obtain digest where "intent_digest i = Ok digest" by (auto simp: intent_digest_def intent_encode_def)
  then have ok: "verify_intent (\<lambda>_ _ sig. sig = sample_signature) sample_section i = Ok ()"
    unfolding verify_intent_Ok using f
    by (simp add: sample_section_def mldsa_verify_def descriptor_leaf_def descriptor_leaf_index_def)
      (simp add: sample_key_def sample_signature_def)
  have s: "se_valid_until sample_section = 20" "map sl_descriptor (se_slots sample_section) = ?ds" by (simp_all add: sample_section_def)
  have c: "ac_form (candidate_a zero_hash) = CandidateA" "ac_genesis_hash (candidate_a zero_hash) = zero_hash"
    by (simp_all add: candidate_a_def)
  have l: "(20 :: u64) \<le> sat_add 10 max_auth_validity_blocks" by (simp add: word_le_nat_alt unat_sat_add max_auth_validity_blocks_def)
  have h: "has_auth CandidateA" "auth_shape_of TagR = ShapeR" "\<not> (20 :: u64) < 10"
    by (simp_all add: has_auth_def auth_shape_of_def)
  have l: "\<not> sat_add 10 max_auth_validity_blocks < (20 :: u64)" by (simp only: not_less l)
  have u: "auth (sample_l2_tx\<lparr>discovery := d\<rparr>) = auth sample_l2_tx" "l2 (sample_l2_tx\<lparr>discovery := d\<rparr>) = l2 sample_l2_tx"
    by simp_all
  show ?thesis
    unfolding check_auth_def Let_def
    by (simp only: l u sample_surface_decodes sample_auth_section_decodes i ok s c h sample_fields sum.case option.case if_False if_True
        simp_thms)
qed

lemma authorisation_binds_transaction_witness:
  "\<exists>digest i sec. intent_digest i = Ok digest \<and> in_nullifiers i = [replicate 32 1] \<and> in_valid_until i = 20
    \<and> section_decode (in_shape i) (auth sample_l2_tx) = Ok sec \<and> length (se_slots sec) = 1"
proof -
  have "has_auth (ac_form (candidate_a zero_hash))" by (simp add: candidate_a_def has_auth_def)
  from authorisation_binds_transaction [OF sample_authorised [OF sample_discovery_decodes] this] show ?thesis
    by (simp add: sample_fields) blast
qed

end
