(* ===== verification/Finality_Record.thy ===== *)
theory Finality_Record
  imports Halt Varint
begin

text \<open>
  The finality record a v6 block carries (\<open>qlab-devnet/src/finality_record.rs\<close>): its byte form, the
  structural rules, the full check against the chain and the first committee, and the two functions
  that read what is recorded. The signature's own encoding belongs to the ML-DSA library: it is the
  pair of arguments \<open>sig_enc\<close> and \<open>sig_dec\<close>.
\<close>

definition frozen_committee_size :: nat where "frozen_committee_size = 21"
definition frozen_quorum :: nat where "frozen_quorum = 15"
definition max_anchor_age_blocks :: u64 where "max_anchor_age_blocks = 24 * 3600 div 75"
definition sig_len :: nat where "sig_len = 3309"

record 's finality_record =
  fr_cp :: checkpoint
  fr_votes :: "'s vote list"

datatype record_error =
    Malformed string
  | VoteCount nat
  | SignerOrder
  | SignerRange nat
  | SigLen nat
  | RootMismatch
  | NotCanonical
  | NotCadence u64
  | NotMonotone u64 u64
  | NotAncestor u64
  | BadSignature nat

section \<open>The byte form\<close>

definition vote_bytes :: "('s \<Rightarrow> bytes) \<Rightarrow> 's vote \<Rightarrow> bytes" where
  "vote_bytes sig_enc v =
    varint_bytes (word_of_nat (signer v)) @ varint_bytes (word_of_nat (length (sig_enc (signature v)))) @ sig_enc (signature v)"

definition fr_encode :: "('s \<Rightarrow> bytes) \<Rightarrow> 's finality_record \<Rightarrow> bytes" where
  "fr_encode sig_enc r =
    u64_le (cp_height (fr_cp r)) @ cp_block_hash (fr_cp r) @ cp_root (fr_cp r)
    @ varint_bytes (word_of_nat (length (fr_votes r))) @ concat (map (vote_bytes sig_enc) (fr_votes r))"

definition take_at :: "bytes \<Rightarrow> nat \<Rightarrow> nat \<Rightarrow> string \<Rightarrow> record_error + (bytes \<times> nat)" where
  "take_at b pos n what = (if pos + n \<le> length b then Ok (slice_at pos n b, pos + n) else Err (Malformed what))"

definition vint :: "bytes \<Rightarrow> nat \<Rightarrow> string \<Rightarrow> record_error + (u64 \<times> nat)" where
  "vint b pos what = (case read_varint b pos of Inl _ \<Rightarrow> Err (Malformed what) | Inr r \<Rightarrow> Ok r)"

fun read_votes :: "(bytes \<Rightarrow> 's option) \<Rightarrow> bytes \<Rightarrow> nat \<Rightarrow> nat option \<Rightarrow> nat \<Rightarrow> record_error + ('s vote list \<times> nat)" where
  "read_votes sig_dec b 0 prev pos = Ok ([], pos)"
| "read_votes sig_dec b (Suc n) prev pos =
    rbind (vint b pos ''signer'') (\<lambda>(sg, p1).
      if unat sg \<ge> frozen_committee_size then Err (SignerRange (unat sg))
      else if (case prev of None \<Rightarrow> False | Some l \<Rightarrow> unat sg \<le> l) then Err SignerOrder
      else rbind (vint b p1 ''signature length'') (\<lambda>(len, p2).
        if unat len \<noteq> sig_len then Err (SigLen (unat len))
        else rbind (take_at b p2 sig_len ''signature'') (\<lambda>(raw, p3).
          case sig_dec raw of
            None \<Rightarrow> Err (Malformed ''signature'')
          | Some s \<Rightarrow>
              rbind (read_votes sig_dec b n (Some (unat sg)) p3) (\<lambda>(vs, p4).
                Ok (\<lparr>signer = unat sg, signature = s\<rparr> # vs, p4)))))"

definition fr_decode :: "('s \<Rightarrow> bytes) \<Rightarrow> (bytes \<Rightarrow> 's option) \<Rightarrow> bytes \<Rightarrow> record_error + 's finality_record" where
  "fr_decode sig_enc sig_dec b =
    rbind (take_at b 0 8 ''height'') (\<lambda>(hb, p1).
    rbind (take_at b p1 32 ''block_hash'') (\<lambda>(block_hash, p2).
    rbind (take_at b p2 32 ''root'') (\<lambda>(root, p3).
      if root \<noteq> block_hash then Err RootMismatch
      else rbind (vint b p3 ''vote count'') (\<lambda>(n, p4).
        if unat n < frozen_quorum \<or> unat n > frozen_committee_size then Err (VoteCount (unat n))
        else rbind (read_votes sig_dec b (unat n) None p4) (\<lambda>(votes, p5).
          if p5 \<noteq> length b then Err (Malformed ''trailing bytes'')
          else
            let r = \<lparr>fr_cp = \<lparr>cp_height = u64_from_le hb, cp_block_hash = block_hash, cp_root = root\<rparr>, fr_votes = votes\<rparr>
            in if fr_encode sig_enc r \<noteq> b then Err NotCanonical else Ok r)))))"

section \<open>The rules\<close>

fun signer_order :: "nat option \<Rightarrow> 's vote list \<Rightarrow> record_error + unit" where
  "signer_order prev [] = Ok ()"
| "signer_order prev (v # vs) =
    (if signer v \<ge> frozen_committee_size then Err (SignerRange (signer v))
     else if (case prev of None \<Rightarrow> False | Some l \<Rightarrow> signer v \<le> l) then Err SignerOrder
     else signer_order (Some (signer v)) vs)"

definition fr_structural :: "'s finality_record \<Rightarrow> record_error + unit" where
  "fr_structural r =
    (let n = length (fr_votes r)
     in if \<not> (frozen_quorum \<le> n \<and> n \<le> frozen_committee_size) then Err (VoteCount n)
        else rbind (signer_order None (fr_votes r)) (\<lambda>_.
          if cp_root (fr_cp r) \<noteq> cp_block_hash (fr_cp r) then Err RootMismatch else Ok ()))"

fun all_signed :: "('k, 's) verifier \<Rightarrow> 'k committee \<Rightarrow> checkpoint \<Rightarrow> 's vote list \<Rightarrow> record_error + unit" where
  "all_signed verify c cp [] = Ok ()"
| "all_signed verify c cp (v # vs) =
    (if \<not> verify_vote verify c cp v then Err (BadSignature (signer v)) else all_signed verify c cp vs)"

definition fr_check :: "('k, 's) verifier \<Rightarrow> 's finality_record \<Rightarrow> u64 option \<Rightarrow> (u64 \<Rightarrow> hash32 option) \<Rightarrow> 'k committee
    \<Rightarrow> record_error + unit" where
  "fr_check verify r prior ancestor_at committee0 =
    rbind (fr_structural r) (\<lambda>_.
      let h = cp_height (fr_cp r)
      in if \<not> is_checkpoint_height h cadence_blocks then Err (NotCadence h)
         else
           (case prior of
              Some p \<Rightarrow>
                if h \<le> p then Err (NotMonotone h p)
                else if ancestor_at h \<noteq> Some (cp_block_hash (fr_cp r)) then Err (NotAncestor h)
                else all_signed verify committee0 (fr_cp r) (fr_votes r)
            | None \<Rightarrow>
                if ancestor_at h \<noteq> Some (cp_block_hash (fr_cp r)) then Err (NotAncestor h)
                else all_signed verify committee0 (fr_cp r) (fr_votes r)))"

definition recorded_after :: "u64 option \<Rightarrow> 's finality_record option \<Rightarrow> u64 option" where
  "recorded_after prior own = (case own of Some r \<Rightarrow> Some (cp_height (fr_cp r)) | None \<Rightarrow> prior)"

definition anchor_ok :: "u64 \<Rightarrow> u64 \<Rightarrow> u64 option \<Rightarrow> bool" where
  "anchor_ok root_h block_h recorded \<longleftrightarrow>
    (case recorded of None \<Rightarrow> False | Some f \<Rightarrow> root_h \<le> f) \<and> root_h < block_h \<and> block_h - root_h \<le> max_anchor_age_blocks"

section \<open>Reading what was written\<close>

lemma vint_at: "vint (pre @ varint_bytes x @ rest) (length pre) what = Ok (x, length (pre @ varint_bytes x))"
  using varint.dec_enc [where x = x and pre = pre and rest = rest] by (simp add: vint_def)

lemma take_at_at: "length raw = n \<Longrightarrow> take_at (pre @ raw @ rest) (length pre) n what = Ok (raw, length (pre @ raw))"
  by (simp add: take_at_def slice_at_append slice_at_0_append)

lemma take_at_Ok: "take_at b pos n what = Ok (raw, p) \<Longrightarrow> length raw = n \<and> p = pos + n"
  by (auto simp: take_at_def split: if_splits)

definition sig_codec :: "('s \<Rightarrow> bytes) \<Rightarrow> (bytes \<Rightarrow> 's option) \<Rightarrow> bool" where
  "sig_codec sig_enc sig_dec \<longleftrightarrow> (\<forall>s. length (sig_enc s) = sig_len \<and> sig_dec (sig_enc s) = Some s)"

lemma small_of_nat [simp]: "n \<le> frozen_committee_size \<Longrightarrow> unat (word_of_nat n :: u64) = n"
  by (rule unat_of_nat_len) (simp add: frozen_committee_size_def)

lemma unat_sig_len [simp]: "unat (word_of_nat sig_len :: u64) = sig_len"
  by (rule unat_of_nat_len) (simp add: sig_len_def)

lemma read_votes_written:
  assumes "sig_codec sig_enc sig_dec" and "signer_order prev vs = Ok ()"
  shows "read_votes sig_dec (pre @ concat (map (vote_bytes sig_enc) vs) @ rest) (length vs) prev (length pre)
    = Ok (vs, length (pre @ concat (map (vote_bytes sig_enc) vs)))"
  using assms(2)
proof (induction vs arbitrary: prev pre)
  case (Cons v vs)
  define sg raw where "sg = (word_of_nat (signer v) :: u64)" and "raw = sig_enc (signature v)"
  define tl where "tl = concat (map (vote_bytes sig_enc) vs) @ rest"
  have raw: "length raw = sig_len" "sig_dec raw = Some (signature v)"
    using assms(1) by (simp_all add: sig_codec_def raw_def)
  have bound: "signer v < frozen_committee_size" and order: "\<not> (case prev of None \<Rightarrow> False | Some l \<Rightarrow> signer v \<le> l)"
    and rest: "signer_order (Some (signer v)) vs = Ok ()"
    using Cons.prems by (auto split: if_splits)
  have sg: "unat sg = signer v" using bound by (simp add: sg_def)
  have vb: "vote_bytes sig_enc v = varint_bytes sg @ varint_bytes (word_of_nat sig_len) @ raw"
    using raw by (simp add: vote_bytes_def sg_def raw_def)
  have s1: "vint (pre @ vote_bytes sig_enc v @ tl) (length pre) ''signer'' = Ok (sg, length (pre @ varint_bytes sg))"
    using vint_at [of pre sg "varint_bytes (word_of_nat sig_len) @ raw @ tl"] by (simp add: vb)
  have s2: "vint (pre @ vote_bytes sig_enc v @ tl) (length (pre @ varint_bytes sg)) ''signature length''
      = Ok (word_of_nat sig_len, length (pre @ varint_bytes sg @ varint_bytes (word_of_nat sig_len)))"
    using vint_at [of "pre @ varint_bytes sg" "word_of_nat sig_len" "raw @ tl"] by (simp add: vb)
  have s3: "take_at (pre @ vote_bytes sig_enc v @ tl) (length (pre @ varint_bytes sg @ varint_bytes (word_of_nat sig_len))) sig_len ''signature''
      = Ok (raw, length (pre @ vote_bytes sig_enc v))"
    using take_at_at [OF raw(1), of "pre @ varint_bytes sg @ varint_bytes (word_of_nat sig_len)" tl] by (simp add: vb)
  have s4: "read_votes sig_dec (pre @ vote_bytes sig_enc v @ tl) (length vs) (Some (signer v)) (length (pre @ vote_bytes sig_enc v))
      = Ok (vs, length ((pre @ vote_bytes sig_enc v) @ concat (map (vote_bytes sig_enc) vs)))"
    using Cons.IH [OF rest, of "pre @ vote_bytes sig_enc v"] by (simp add: tl_def)
  have order_sg: "\<not> (case prev of None \<Rightarrow> False | Some l \<Rightarrow> unat sg \<le> l)" unfolding sg by (rule order)
  show ?case using bound order_sg raw(2) s1 s2 s3 s4 by (simp add: tl_def [symmetric] sg)
qed simp

lemma read_votes_Ok: "read_votes sig_dec b n prev pos = Ok (vs, p) \<Longrightarrow> length vs = n \<and> signer_order prev vs = Ok ()"
proof (induction n arbitrary: prev pos vs)
  case (Suc n)
  then show ?case by (fastforce split: if_splits option.splits)
qed simp

lemma structural_iff:
  "fr_structural r = Ok () \<longleftrightarrow> frozen_quorum \<le> length (fr_votes r) \<and> length (fr_votes r) \<le> frozen_committee_size
    \<and> signer_order None (fr_votes r) = Ok () \<and> cp_root (fr_cp r) = cp_block_hash (fr_cp r)"
  by (auto simp: fr_structural_def Let_def)

lemma fr_decode_Ok:
  assumes "fr_decode sig_enc sig_dec b = Ok r"
  shows "wf_checkpoint (fr_cp r) \<and> fr_structural r = Ok () \<and> fr_encode sig_enc r = b"
  using assms
  by (auto simp: fr_decode_def Let_def structural_iff wf_checkpoint_def is_hash32_def not_less
      dest!: take_at_Ok read_votes_Ok split: if_splits)

lemma fr_decode_encode:
  assumes "sig_codec sig_enc sig_dec" and "wf_checkpoint (fr_cp r)" and "fr_structural r = Ok ()"
  shows "fr_decode sig_enc sig_dec (fr_encode sig_enc r) = Ok r"
proof -
  define hb bh rt where "hb = u64_le (cp_height (fr_cp r))" and "bh = cp_block_hash (fr_cp r)" and "rt = cp_root (fr_cp r)"
  define n where "n = (word_of_nat (length (fr_votes r)) :: u64)"
  define vb where "vb = concat (map (vote_bytes sig_enc) (fr_votes r))"
  define b where "b = fr_encode sig_enc r"
  have b: "b = hb @ bh @ rt @ varint_bytes n @ vb" by (simp add: b_def fr_encode_def hb_def bh_def rt_def n_def vb_def)
  have len: "length hb = 8" "length bh = 32" "length rt = 32"
    using assms(2) by (simp_all add: hb_def bh_def rt_def wf_checkpoint_def is_hash32_def)
  note st = assms(3) [unfolded structural_iff]
  have n: "unat n = length (fr_votes r)" using st by (simp add: n_def)
  have t1: "take_at b 0 8 ''height'' = Ok (hb, 8)" using take_at_at [OF len(1), of "[]"] len by (simp add: b)
  have t2: "take_at b 8 32 ''block_hash'' = Ok (bh, 40)" using take_at_at [OF len(2), of hb] len by (simp add: b)
  have t3: "take_at b 40 32 ''root'' = Ok (rt, 72)" using take_at_at [OF len(3), of "hb @ bh"] len by (simp add: b)
  have t4: "vint b 72 ''vote count'' = Ok (n, 72 + length (varint_bytes n))"
    using vint_at [of "hb @ bh @ rt" n vb] len by (simp add: b)
  have t5: "read_votes sig_dec b (length (fr_votes r)) None (72 + length (varint_bytes n)) = Ok (fr_votes r, length b)"
    using read_votes_written [OF assms(1), of None "fr_votes r" "hb @ bh @ rt @ varint_bytes n" "[]"] st len
    by (simp add: b vb_def)
  have eq: "rt = bh" using st by (simp add: rt_def bh_def)
  have rec: "\<lparr>fr_cp = \<lparr>cp_height = u64_from_le hb, cp_block_hash = bh, cp_root = bh\<rparr>, fr_votes = fr_votes r\<rparr> = r"
    using eq by (simp add: hb_def bh_def rt_def)
  show ?thesis
    using st eq by (simp add: fr_decode_def b_def [symmetric] t1 t2 t3 t4 n t5 Let_def rec not_less)
qed

section \<open>From the record to finality\<close>

lemma signer_order_distinct:
  "signer_order prev vs = Ok () \<Longrightarrow> sorted_wrt (<) (map signer vs)
    \<and> (\<forall>v \<in> set vs. signer v < frozen_committee_size \<and> (case prev of None \<Rightarrow> True | Some l \<Rightarrow> l < signer v))"
proof (induction vs arbitrary: prev)
  case (Cons v vs)
  then have "signer_order (Some (signer v)) vs = Ok ()" by (auto split: if_splits)
  from Cons.IH [OF this] Cons.prems show ?case by (fastforce split: if_splits option.splits)
qed simp

lemma all_signed_iff: "all_signed verify c cp vs = Ok () \<longleftrightarrow> (\<forall>v \<in> set vs. verify_vote verify c cp v)"
  by (induction vs) auto

lemma fr_check_iff:
  "fr_check verify r prior anc c = Ok () \<longleftrightarrow>
    fr_structural r = Ok () \<and> is_checkpoint_height (cp_height (fr_cp r)) cadence_blocks
    \<and> (case prior of None \<Rightarrow> True | Some p \<Rightarrow> p < cp_height (fr_cp r))
    \<and> anc (cp_height (fr_cp r)) = Some (cp_block_hash (fr_cp r))
    \<and> (\<forall>v \<in> set (fr_votes r). verify_vote verify c (fr_cp r) v)"
  by (auto simp: fr_check_def Let_def all_signed_iff not_le split: option.splits if_splits)

lemma fr_check_finalizes:
  assumes "fr_check verify r prior anc c = Ok ()" and "committee_size c = frozen_committee_size"
    and "finalized_height t = prior"
  shows "\<exists>t'. try_finalize verify t (fr_cp r) (fr_votes r) c = Ok t'
    \<and> finalized_height t' = recorded_after prior (Some r)"
proof -
  note ck = assms(1) [unfolded fr_check_iff structural_iff]
  have d: "distinct (map signer (fr_votes r))"
    using signer_order_distinct [of None "fr_votes r"] ck strict_sorted_iff by blast
  then have "good_votes verify c (fr_cp r) (fr_votes r)" using ck by (simp add: good_votes_def)
  moreover have "committee_quorum c \<le> length (fr_votes r)"
    using ck assms(2) by (simp add: committee_quorum_def committee_size_def quorum_threshold_def frozen_committee_size_def frozen_quorum_def)
  moreover have "advances t (fr_cp r)"
    using ck assms(3) by (auto simp: advances_def finalized_height_def split: option.splits)
  ultimately have "try_finalize verify t (fr_cp r) (fr_votes r) c = Ok (t\<lparr>finalized := finalized t @ [fr_cp r]\<rparr>)"
    by (simp add: try_finalize_Ok)
  then show ?thesis by (simp add: finalized_height_def latest_def recorded_after_def)
qed

section \<open>Properties\<close>

text \<open>the record's byte form is canonical: a byte string decodes to a record exactly when it is the
  encoding of that record and the record satisfies the structural rules (between 15 and 21 votes,
  signers in strictly increasing order and in range, the root equal to the block hash). The
  hypothesis is the signature library's own round trip at its fixed length.\<close>

theorem record_roundtrip:
  assumes "sig_codec sig_enc sig_dec"
  shows "fr_decode sig_enc sig_dec b = Ok r \<longleftrightarrow>
    wf_checkpoint (fr_cp r) \<and> fr_structural r = Ok () \<and> fr_encode sig_enc r = b"
  using fr_decode_Ok fr_decode_encode [OF assms] by blast

definition sample_votes :: "u8 vote list" where
  "sample_votes = map (\<lambda>i. \<lparr>signer = i, signature = 7\<rparr>) [0..<15]"

definition sample_fr :: "u8 finality_record" where
  "sample_fr = \<lparr>fr_cp = \<lparr>cp_height = 16, cp_block_hash = replicate 32 1, cp_root = replicate 32 1\<rparr>, fr_votes = sample_votes\<rparr>"

lemma sample_fr_structural: "fr_structural sample_fr = Ok ()"
  by (simp add: structural_iff sample_fr_def sample_votes_def frozen_quorum_def frozen_committee_size_def upt_conv_Cons)

lemma record_roundtrip_witness:
  "fr_decode (\<lambda>s. replicate sig_len s) (\<lambda>b. if b = [] then None else Some (hd b))
    (fr_encode (\<lambda>s. replicate sig_len s) sample_fr) = Ok sample_fr"
proof -
  have "sig_codec (\<lambda>s. replicate sig_len (s :: u8)) (\<lambda>b. if b = [] then None else Some (hd b))"
    by (simp add: sig_codec_def sig_len_def)
  moreover have "wf_checkpoint (fr_cp sample_fr)" by (simp add: sample_fr_def wf_checkpoint_def is_hash32_def)
  ultimately show ?thesis using record_roundtrip sample_fr_structural by blast
qed

text \<open>a record that passes the check is enough for the finality gate: with the committee of 21 members,
  \<open>try_finalize\<close> accepts its checkpoint with its votes on any tracker whose finalized height is what
  the chain had recorded, and what is recorded afterwards is the height the tracker finalized.\<close>

theorem record_check_finalizes:
  assumes "fr_check verify r prior anc c = Ok ()" and "committee_size c = frozen_committee_size"
    and "finalized_height t = prior"
  shows "\<exists>t'. try_finalize verify t (fr_cp r) (fr_votes r) c = Ok t'
    \<and> finalized_height t' = recorded_after prior (Some r)"
  by (rule fr_check_finalizes [OF assms])

lemma record_check_finalizes_witness:
  "\<exists>t'. try_finalize (\<lambda>k m s. s = (7 :: u8)) finality_new (fr_cp sample_fr) (fr_votes sample_fr) \<lparr>members = replicate 21 ()\<rparr> = Ok t'
    \<and> finalized_height t' = Some 16"
proof -
  have "fr_check (\<lambda>k m s. s = (7 :: u8)) sample_fr None (\<lambda>_. Some (replicate 32 1)) \<lparr>members = replicate 21 ()\<rparr> = Ok ()"
    using sample_fr_structural
    by (auto simp: fr_check_iff sample_fr_def sample_votes_def is_checkpoint_height_def cadence_blocks_def
        verify_vote_def committee_member_def)
  from record_check_finalizes [OF this, of finality_new] show ?thesis
    by (simp add: committee_size_def frozen_committee_size_def finality_new_def finalized_height_def latest_def
        recorded_after_def sample_fr_def)
qed

end
