(* ===== verification/Block_Body.thy ===== *)
theory Block_Body
  imports Annulet_Surface Emission_Schedule Finality_Record
begin

text \<open>
  Validation of a block body against its header (\<open>qlab-devnet/src/body.rs\<close>) in its three rule forms:
  the binding of body to header, the coinbase schedule, the v6 finality record and bundle, and the
  per-transaction rules in the order the code runs them. The proof verifier, the bundle verifier,
  the chain a v6 block extends and the signature scheme are parameters. Where the code can panic (the
  schedule's assertions, the preimage's) the result is \<open>None\<close>. The refusals only an Annulet body
  can draw are part of the error type; the Annulet rule itself is in a later theory.
\<close>

section \<open>Results that can panic\<close>

type_synonym ('e, 'a) run = "('e + 'a) option"

fun and_then :: "('e, 'a) run \<Rightarrow> ('a \<Rightarrow> ('e, 'b) run) \<Rightarrow> ('e, 'b) run" where
  "and_then None f = None"
| "and_then (Some (Inl e)) f = Some (Inl e)"
| "and_then (Some (Inr a)) f = f a"

lemma and_then_Ok: "and_then m f = Some (Ok b) \<longleftrightarrow> (\<exists>a. m = Some (Ok a) \<and> f a = Some (Ok b))"
  by (cases "(m, f)" rule: and_then.cases) auto

lemma and_then_None: "and_then m f = None \<longleftrightarrow> m = None \<or> (\<exists>a. m = Some (Ok a) \<and> f a = None)"
  by (cases "(m, f)" rule: and_then.cases) auto

section \<open>Refusals and parameters\<close>

datatype bundle_refusal =
    NoRule
  | Codec bytes
  | SurfaceState
  | L2Id u64 u64
  | Spacing u64 u64
  | TooManyExits nat nat
  | ZeroExitRkm nat
  | ZeroExitValue nat
  | NoStatedSurface
  | BundleSignature
  | Wrapper bytes
  | StatedSurface
  | ExitCommitment
  | ExitSum
  | Counters

datatype body_error =
    CommitmentMismatch hash32 hash32
  | MissingCoinbasePayee
  | WrongScheduledCoinbase u64 u64 u64
  | TooManyCoinbasePayees nat nat
  | AnchorNotFinal nat
  | WrongFee nat u64 u64
  | DoubleSpendInBlock nat
  | ProofInvalid nat
  | DiscoveryMalformed nat codec_error
  | DiscoveryNotCanonical nat
  | DiscoveryDoesNotBind nat nat nat "nat option"
  | RiderMalformed nat rider_error
  | RiderBeforeBoundary nat
  | RiderRule nat name_rule_error
  | L2SurfaceOnL1 nat
  | L2SurfaceMissing nat
  | L2SurfaceMalformed nat l2_surface_error
  | L2WrongArity nat
  | L2V2SpendOnV3Net nat
  | L2V3SpendOnV2Net nat
  | TxEntriesOverByte nat
  | CoinbaseOnAnnulet nat
  | GenesisPlaintextInBody nat nat
  | L2RegistryRootStale nat
  | L2AuthRefused nat auth_refusal
  | L2RegistryWriteArity nat
  | L2SecondRegistryWrite nat
  | L2ExitWithoutBridge nat
  | L2RegistryWriteRootMismatch nat
  | SectionOnForm string
  | FinalityRecord record_error
  | Bundle bundle_refusal
  | BodyTooLarge nat nat
  | AnchorOutsideRecord nat

record 'k v6_chain_view =
  recorded_finality :: "u64 option"
  ancestor_at :: "u64 \<Rightarrow> hash32 option"
  committee0 :: "'k committee"
  root_heights :: "hash32 \<Rightarrow> u64 list"
  wrapper_surface :: bytes
  last_bundle_height :: "u64 option"

record bundle_context =
  bc_surface :: bytes
  bc_last_bundle_height :: "u64 option"
  bc_anchor_ok :: "hash32 \<Rightarrow> bool"

record bundle_outcome =
  bo_surface :: bytes
  bo_exits :: "(hash32 \<times> u64) list"
  bo_d_batch :: u64
  bo_e_batch :: u64

type_synonym bundle_verifier = "block_header \<Rightarrow> bytes \<Rightarrow> bundle_context \<Rightarrow> bundle_refusal + bundle_outcome"

definition refuse_all_bundles :: bundle_verifier where
  "refuse_all_bundles h b ctx = Err NoRule"

record ('k, 's) sig_scheme =
  sg_verify :: "('k, 's) verifier"
  sg_enc :: "'s \<Rightarrow> bytes"
  sg_dec :: "bytes \<Rightarrow> 's option"

datatype 'k body_rule_form =
    RuleV4 "u64 option"
  | RuleV5 "u64 option"
  | RuleV6 "'k v6_chain_view" bundle_verifier

section \<open>The coinbase schedule\<close>

definition rule_boundary_height :: u64 where "rule_boundary_height = 8640"

definition check_committed_against_exact :: "u64 \<Rightarrow> u64 \<Rightarrow> (body_error, unit) run" where
  "check_committed_against_exact h committed =
    (case coinbase_exact h of
       None \<Rightarrow> None
     | Some expected \<Rightarrow>
         if committed \<noteq> expected then Some (Err (WrongScheduledCoinbase h expected committed)) else Some (Ok ()))"

definition check_scheduled_coinbase_above :: "u64 \<Rightarrow> u64 \<Rightarrow> u64 \<Rightarrow> (body_error, unit) run" where
  "check_scheduled_coinbase_above boundary h committed =
    (if h \<le> boundary then Some (Ok ()) else check_committed_against_exact h committed)"

definition check_scheduled_coinbase :: "u64 \<Rightarrow> u64 \<Rightarrow> (body_error, unit) run" where
  "check_scheduled_coinbase h committed = check_scheduled_coinbase_above rule_boundary_height h committed"

definition payee_total :: "coinbase_payee list \<Rightarrow> u128" where
  "payee_total ps = sum_list (map (\<lambda>p. u128_of (amount p)) ps)"

definition check_payees_capped_and_scheduled :: "nat \<Rightarrow> u64 \<Rightarrow> coinbase_payee list \<Rightarrow> (body_error, unit) run" where
  "check_payees_capped_and_scheduled cap h ps =
    (if length ps > cap then Some (Err (TooManyCoinbasePayees (length ps) cap))
     else
       let total = payee_total ps
       in if h = 0
          then (if total = 0 then Some (Ok ())
                else Some (Err (WrongScheduledCoinbase 0 0 (u64_of (min total (u128_of umax))))))
          else if total \<le> u128_of umax then check_committed_against_exact h (u64_of total)
          else (case coinbase_exact h of
                  None \<Rightarrow> None
                | Some expected \<Rightarrow> Some (Err (WrongScheduledCoinbase h expected umax))))"

definition check_scheduled_coinbase_payees_above :: "u64 option \<Rightarrow> u64 \<Rightarrow> coinbase_payee list \<Rightarrow> (body_error, unit) run" where
  "check_scheduled_coinbase_payees_above boundary h ps =
    check_payees_capped_and_scheduled (coinbase_payee_cap_v5_above boundary h) h ps"

definition check_scheduled_coinbase_payees :: "u64 \<Rightarrow> coinbase_payee list \<Rightarrow> (body_error, unit) run" where
  "check_scheduled_coinbase_payees h ps = check_scheduled_coinbase_payees_above payee_cap_v5_boundary h ps"

section \<open>The binding\<close>

definition check_tx_entry_counts :: "block_body \<Rightarrow> body_error + unit" where
  "check_tx_entry_counts b =
    (case position (\<lambda>t. length (tx_nullifiers (public t)) > 255 \<or> length (commitments (public t)) > 255) (txs b) of
       Some i \<Rightarrow> Err (TxEntriesOverByte i)
     | None \<Rightarrow> Ok ())"

definition match_commitment :: "block_header \<Rightarrow> hash32 option \<Rightarrow> (body_error, unit) run" where
  "match_commitment hdr got =
    (case got of
       None \<Rightarrow> None
     | Some g \<Rightarrow>
         if tx_body_commitment hdr \<noteq> g then Some (Err (CommitmentMismatch (tx_body_commitment hdr) g)) else Some (Ok ()))"

definition check_body_binding_above :: "u64 option \<Rightarrow> block_header \<Rightarrow> block_body \<Rightarrow> (body_error, unit) run" where
  "check_body_binding_above boundary hdr b =
    (if length (coinbase_payees b) > payee_cap_v5_at_birth
     then Some (Err (TooManyCoinbasePayees (length (coinbase_payees b)) payee_cap_v5_at_birth))
     else and_then (Some (check_tx_entry_counts b)) (\<lambda>_.
       match_commitment hdr (commitment_above boundary (height hdr) b)))"

definition check_body_binding :: "block_header \<Rightarrow> block_body \<Rightarrow> (body_error, unit) run" where
  "check_body_binding hdr b = check_body_binding_above name_rule_boundary_height hdr b"

definition check_body_binding_v5_above :: "u64 option \<Rightarrow> block_header \<Rightarrow> block_body \<Rightarrow> (body_error, unit) run" where
  "check_body_binding_v5_above boundary hdr b =
    (let cap = coinbase_payee_cap_v5_above boundary (height hdr)
     in if length (coinbase_payees b) > cap
        then Some (Err (TooManyCoinbasePayees (length (coinbase_payees b)) cap))
        else and_then (Some (check_tx_entry_counts b)) (\<lambda>_.
          match_commitment hdr (commitment_v5_above boundary (height hdr) b)))"

definition check_body_binding_v5 :: "block_header \<Rightarrow> block_body \<Rightarrow> (body_error, unit) run" where
  "check_body_binding_v5 hdr b = check_body_binding_v5_above payee_cap_v5_boundary hdr b"

definition check_body_binding_v6 :: "block_header \<Rightarrow> block_body \<Rightarrow> (body_error, unit) run" where
  "check_body_binding_v6 hdr b =
    (if length (coinbase_payees b) > coinbase_payee_cap_v6
     then Some (Err (TooManyCoinbasePayees (length (coinbase_payees b)) coinbase_payee_cap_v6))
     else and_then (Some (check_tx_entry_counts b)) (\<lambda>_.
       case preimage_v6 b of
         None \<Rightarrow> None
       | Some pre \<Rightarrow>
           if length pre > max_v6_body_bytes then Some (Err (BodyTooLarge (length pre) max_v6_body_bytes))
           else match_commitment hdr (Some (keccak256 pre))))"

section \<open>Discovery\<close>

definition decode_committed_discovery :: "bytes \<Rightarrow> codec_error + (recipient_bundle list \<times> bytes list)" where
  "decode_committed_discovery b = decode_committed_discovery_with_width b payload_len"

definition discovery_parts :: "nat \<Rightarrow> tx_entry \<Rightarrow> body_error + (recipient_bundle list \<times> bytes list)" where
  "discovery_parts index t =
    (case decode_committed_discovery (discovery t) of Inl e \<Rightarrow> Err (DiscoveryMalformed index e) | Inr r \<Rightarrow> Ok r)"

definition discovery_served_prefix :: "nat \<Rightarrow> tx_entry \<Rightarrow> body_error + bytes" where
  "discovery_served_prefix index t =
    (case committed_contents_prefix (discovery t) of Inl e \<Rightarrow> Err (DiscoveryMalformed index e) | Inr r \<Rightarrow> Ok r)"

definition check_discovery_binds :: "nat \<Rightarrow> recipient_bundle list \<Rightarrow> tx_entry \<Rightarrow> body_error + unit" where
  "check_discovery_binds index rs t =
    (let described = contents_commitments rs; declared = commitments (public t);
         first_mismatch = (if length described = length declared
           then position (\<lambda>(a, b). a \<noteq> b) (zip described declared) else None)
     in if length described \<noteq> length declared \<or> first_mismatch \<noteq> None
        then Err (DiscoveryDoesNotBind index (length declared) (length described) first_mismatch)
        else Ok ())"

definition check_tx_discovery :: "nat \<Rightarrow> tx_entry \<Rightarrow> (body_error, unit) run" where
  "check_tx_discovery index t =
    and_then (Some (discovery_parts index t)) (\<lambda>(rs, ps).
      case encode_committed_discovery rs ps of
        None \<Rightarrow> None
      | Some e \<Rightarrow>
          if e \<noteq> discovery t then Some (Err (DiscoveryNotCanonical index))
          else Some (check_discovery_binds index rs t))"

definition placeholder_discovery :: "hash32 list \<Rightarrow> bytes option" where
  "placeholder_discovery cms =
    (if cms = [] then encode_committed_discovery [] []
     else encode_committed_discovery
       [\<lparr>ct = replicate ct_len 0, entries = map (\<lambda>c. \<lparr>cm = c, tag = replicate 8 0, clue = ClueEmpty\<rparr>) cms\<rparr>]
       (replicate (length cms) (replicate payload_len 0)))"

fun find_repeated :: "hash32 list \<Rightarrow> hash32 list \<Rightarrow> hash32 option" where
  "find_repeated seen [] = None"
| "find_repeated seen (x # xs) = (if x \<in> set seen then Some x else find_repeated (x # seen) xs)"

definition repeated_nullifier_in_tx :: "tx_public \<Rightarrow> hash32 option" where
  "repeated_nullifier_in_tx p = find_repeated [] (tx_nullifiers p)"

section \<open>The v6 sections\<close>

definition finality_record_of :: "('k, 's) sig_scheme \<Rightarrow> block_body \<Rightarrow> record_error + 's finality_record option" where
  "finality_record_of sg b =
    (if finality_section b = [] then Ok None
     else (case fr_decode (sg_enc sg) (sg_dec sg) (finality_section b) of Inl e \<Rightarrow> Err e | Inr r \<Rightarrow> Ok (Some r)))"

text \<open>\<open>partition_point\<close> of a sorted slice: how many of its elements are at most the ceiling.\<close>

definition v6_anchor_ok :: "u64 list \<Rightarrow> u64 \<Rightarrow> u64 option \<Rightarrow> bool" where
  "v6_anchor_ok hs block_h recorded =
    (case recorded of
       None \<Rightarrow> False
     | Some f \<Rightarrow>
         let ceiling = min f (sat_sub block_h 1); upto = length (takeWhile (\<lambda>h. h \<le> ceiling) hs)
         in upto > 0 \<and> anchor_ok (hs ! (upto - 1)) block_h recorded)"

definition v6_sections :: "('k, 's) sig_scheme \<Rightarrow> 'k v6_chain_view \<Rightarrow> bundle_verifier \<Rightarrow> block_header \<Rightarrow> block_body
    \<Rightarrow> body_error + u64 option" where
  "v6_sections sg chain bundles hdr b =
    (case finality_record_of sg b of
       Inl e \<Rightarrow> Err (FinalityRecord e)
     | Inr rec \<Rightarrow>
         rbind (case rec of
                  None \<Rightarrow> Ok ()
                | Some r \<Rightarrow>
                    (case fr_check (sg_verify sg) r (recorded_finality chain) (ancestor_at chain) (committee0 chain) of
                       Inl e \<Rightarrow> Err (FinalityRecord e) | Inr _ \<Rightarrow> Ok ())) (\<lambda>_.
           let recorded = recorded_after (recorded_finality chain) rec
           in if bundle_section b \<noteq> []
              then
                let ctx = \<lparr>bc_surface = wrapper_surface chain, bc_last_bundle_height = last_bundle_height chain,
                  bc_anchor_ok = (\<lambda>root. v6_anchor_ok (root_heights chain root) (height hdr) recorded)\<rparr>
                in (case bundles hdr (bundle_section b) ctx of Inl e \<Rightarrow> Err (Bundle e) | Inr _ \<Rightarrow> Ok recorded)
              else Ok recorded))"

section \<open>The per-transaction rules\<close>

definition insert_nullifiers :: "hash32 list \<Rightarrow> hash32 list \<Rightarrow> hash32 list option" where
  "insert_nullifiers seen nfs =
    (if find_repeated seen nfs = None then Some (rev nfs @ seen) else None)"

definition riders_active :: "'k body_rule_form \<Rightarrow> u64 \<Rightarrow> bool" where
  "riders_active form h =
    (case form of RuleV4 boundary \<Rightarrow> riders_active_above boundary h | RuleV5 _ \<Rightarrow> h > 0 | RuleV6 _ _ \<Rightarrow> h > 0)"

definition check_anchor :: "'k body_rule_form \<Rightarrow> u64 \<Rightarrow> (hash32 \<Rightarrow> bool) \<Rightarrow> u64 option \<Rightarrow> nat \<Rightarrow> tx_entry \<Rightarrow> body_error + unit" where
  "check_anchor form h is_anchor_final recorded i t =
    (case form of
       RuleV6 chain _ \<Rightarrow>
         if \<not> v6_anchor_ok (root_heights chain (anchor (public t))) h recorded then Err (AnchorOutsideRecord i) else Ok ()
     | _ \<Rightarrow> if \<not> is_anchor_final (anchor (public t)) then Err (AnchorNotFinal i) else Ok ())"

text \<open>The rider and the fee; the result is the names claimed so far in the block.\<close>

definition check_rider_fee :: "'k body_rule_form \<Rightarrow> u64 \<Rightarrow> name_view \<Rightarrow> nat \<Rightarrow> bytes list \<Rightarrow> tx_entry \<Rightarrow> body_error + bytes list" where
  "check_rider_fee form h view i pending t =
    (case decode_rider (rider t) of
       Inl e \<Rightarrow> Err (RiderMalformed i e)
     | Inr op \<Rightarrow>
         if op \<noteq> None \<and> \<not> riders_active form h then Err (RiderBeforeBoundary i)
         else
           let expected = posted_fee (bucket (public t)) + (case op of None \<Rightarrow> 0 | Some o1 \<Rightarrow> name_fee_for o1)
           in if fee (public t) \<noteq> expected then Err (WrongFee i expected (fee (public t)))
              else (case op of
                      None \<Rightarrow> Ok pending
                    | Some o1 \<Rightarrow>
                        (case check_op view h o1 pending of
                           Inl e \<Rightarrow> Err (RiderRule i e)
                         | Inr _ \<Rightarrow> Ok (case o1 of Reveal r _ \<Rightarrow> nr_name r # pending | _ \<Rightarrow> pending))))"

fun validate_txs :: "'k body_rule_form \<Rightarrow> u64 \<Rightarrow> (tx_entry \<Rightarrow> bool) \<Rightarrow> (hash32 \<Rightarrow> bool) \<Rightarrow> name_view \<Rightarrow> u64 option
    \<Rightarrow> nat \<Rightarrow> hash32 list \<Rightarrow> bytes list \<Rightarrow> tx_entry list \<Rightarrow> (body_error, unit) run" where
  "validate_txs form h verify_tx fin view recorded i seen pending [] = Some (Ok ())"
| "validate_txs form h verify_tx fin view recorded i seen pending (t # ts) =
    and_then (Some (check_anchor form h fin recorded i t)) (\<lambda>_.
    and_then (Some (check_rider_fee form h view i pending t)) (\<lambda>pending1.
      if l2 t \<noteq> l2_surface_absent then Some (Err (L2SurfaceOnL1 i))
      else (case insert_nullifiers seen (tx_nullifiers (public t)) of
              None \<Rightarrow> Some (Err (DoubleSpendInBlock i))
            | Some seen1 \<Rightarrow>
                and_then (check_tx_discovery i t) (\<lambda>_.
                  if \<not> verify_tx t then Some (Err (ProofInvalid i))
                  else validate_txs form h verify_tx fin view recorded (Suc i) seen1 pending1 ts))))"

section \<open>The whole body\<close>

definition payee_cap :: "'k body_rule_form \<Rightarrow> u64 \<Rightarrow> nat" where
  "payee_cap form h =
    (case form of RuleV4 _ \<Rightarrow> payee_cap_v5_at_birth
     | RuleV5 boundary \<Rightarrow> coinbase_payee_cap_v5_above boundary h
     | RuleV6 _ _ \<Rightarrow> coinbase_payee_cap_v6)"

definition check_sections :: "'k body_rule_form \<Rightarrow> block_body \<Rightarrow> body_error + unit" where
  "check_sections form b =
    (case form of
       RuleV6 _ _ \<Rightarrow> Ok ()
     | _ \<Rightarrow>
         if finality_section b \<noteq> [] then Err (SectionOnForm ''finality'')
         else if bundle_section b \<noteq> [] then Err (SectionOnForm ''bundle'')
         else Ok ())"

definition check_binding :: "'k body_rule_form \<Rightarrow> block_header \<Rightarrow> block_body \<Rightarrow> (body_error, unit) run" where
  "check_binding form hdr b =
    (case form of
       RuleV4 boundary \<Rightarrow> check_body_binding_above boundary hdr b
     | RuleV5 boundary \<Rightarrow> check_body_binding_v5_above boundary hdr b
     | RuleV6 _ _ \<Rightarrow> check_body_binding_v6 hdr b)"

definition check_schedule :: "'k body_rule_form \<Rightarrow> block_header \<Rightarrow> block_body \<Rightarrow> (body_error, unit) run" where
  "check_schedule form hdr b =
    (case form of
       RuleV4 _ \<Rightarrow> check_scheduled_coinbase (height hdr) (coinbase_total b)
     | RuleV5 boundary \<Rightarrow> check_scheduled_coinbase_payees_above boundary (height hdr) (coinbase_payees b)
     | RuleV6 _ _ \<Rightarrow> check_payees_capped_and_scheduled coinbase_payee_cap_v6 (height hdr) (coinbase_payees b))"

definition validate_body_form :: "('k, 's) sig_scheme \<Rightarrow> 'k body_rule_form \<Rightarrow> block_header \<Rightarrow> block_body \<Rightarrow> (tx_entry \<Rightarrow> bool)
    \<Rightarrow> (hash32 \<Rightarrow> bool) \<Rightarrow> name_view \<Rightarrow> (body_error, unit) run" where
  "validate_body_form sg form hdr b verify_tx fin view =
    and_then (Some (check_sections form b)) (\<lambda>_.
      if length (coinbase_payees b) > payee_cap form (height hdr)
      then Some (Err (TooManyCoinbasePayees (length (coinbase_payees b)) (payee_cap form (height hdr))))
      else and_then (check_binding form hdr b) (\<lambda>_.
        if mints_without_payee b then Some (Err MissingCoinbasePayee)
        else and_then (check_schedule form hdr b) (\<lambda>_.
             and_then (Some (case form of RuleV6 chain bundles \<Rightarrow> v6_sections sg chain bundles hdr b | _ \<Rightarrow> Ok None)) (\<lambda>recorded.
               validate_txs form (height hdr) verify_tx fin view recorded 0 [] [] (txs b)))))"

definition validate_body_above :: "('k, 's) sig_scheme \<Rightarrow> u64 option \<Rightarrow> block_header \<Rightarrow> block_body \<Rightarrow> (tx_entry \<Rightarrow> bool)
    \<Rightarrow> (hash32 \<Rightarrow> bool) \<Rightarrow> name_view \<Rightarrow> (body_error, unit) run" where
  "validate_body_above sg boundary hdr b verify_tx fin view = validate_body_form sg (RuleV4 boundary) hdr b verify_tx fin view"

definition validate_body_with_names :: "('k, 's) sig_scheme \<Rightarrow> block_header \<Rightarrow> block_body \<Rightarrow> (tx_entry \<Rightarrow> bool)
    \<Rightarrow> (hash32 \<Rightarrow> bool) \<Rightarrow> name_view \<Rightarrow> (body_error, unit) run" where
  "validate_body_with_names sg hdr b verify_tx fin view = validate_body_above sg name_rule_boundary_height hdr b verify_tx fin view"

definition validate_body :: "('k, 's) sig_scheme \<Rightarrow> block_header \<Rightarrow> block_body \<Rightarrow> (tx_entry \<Rightarrow> bool) \<Rightarrow> (hash32 \<Rightarrow> bool)
    \<Rightarrow> (body_error, unit) run" where
  "validate_body sg hdr b verify_tx fin = validate_body_with_names sg hdr b verify_tx fin empty_name_view"

definition validate_body_v5_above :: "('k, 's) sig_scheme \<Rightarrow> u64 option \<Rightarrow> block_header \<Rightarrow> block_body \<Rightarrow> (tx_entry \<Rightarrow> bool)
    \<Rightarrow> (hash32 \<Rightarrow> bool) \<Rightarrow> name_view \<Rightarrow> (body_error, unit) run" where
  "validate_body_v5_above sg boundary hdr b verify_tx fin view = validate_body_form sg (RuleV5 boundary) hdr b verify_tx fin view"

definition validate_body_v5 :: "('k, 's) sig_scheme \<Rightarrow> block_header \<Rightarrow> block_body \<Rightarrow> (tx_entry \<Rightarrow> bool)
    \<Rightarrow> (hash32 \<Rightarrow> bool) \<Rightarrow> name_view \<Rightarrow> (body_error, unit) run" where
  "validate_body_v5 sg hdr b verify_tx fin view = validate_body_v5_above sg payee_cap_v5_boundary hdr b verify_tx fin view"

definition validate_body_v6 :: "('k, 's) sig_scheme \<Rightarrow> block_header \<Rightarrow> block_body \<Rightarrow> (tx_entry \<Rightarrow> bool)
    \<Rightarrow> 'k v6_chain_view \<Rightarrow> bundle_verifier \<Rightarrow> name_view \<Rightarrow> (body_error, unit) run" where
  "validate_body_v6 sg hdr b verify_tx chain bundles view =
    validate_body_form sg (RuleV6 chain bundles) hdr b verify_tx (\<lambda>_. False) view"

section \<open>What each check accepts\<close>

lemma find_repeated_None: "find_repeated seen xs = None \<longleftrightarrow> distinct xs \<and> set xs \<inter> set seen = {}"
  by (induction xs arbitrary: seen) auto

lemma insert_nullifiers_Some:
  "insert_nullifiers seen nfs = Some s \<longleftrightarrow> distinct nfs \<and> set nfs \<inter> set seen = {} \<and> s = rev nfs @ seen"
  by (auto simp: insert_nullifiers_def find_repeated_None)

lemma zip_mismatch_None: "length xs = length ys \<Longrightarrow> position (\<lambda>(a, b). a \<noteq> b) (zip xs ys) = None \<longleftrightarrow> xs = ys"
  by (induction xs ys rule: list_induct2) auto

lemma discovery_binds_iff: "check_discovery_binds i rs t = Ok () \<longleftrightarrow> contents_commitments rs = commitments (public t)"
  using zip_mismatch_None [of "contents_commitments rs" "commitments (public t)"]
  by (auto simp: check_discovery_binds_def Let_def split: option.splits)

definition discovery_ok :: "tx_entry \<Rightarrow> bool" where
  "discovery_ok t \<longleftrightarrow> (\<exists>rs ps. decode_committed_discovery (discovery t) = Ok (rs, ps) \<and> contents_commitments rs = commitments (public t))"

lemma decoded_reencodes:
  "decode_committed_discovery b = Ok (rs, ps) \<Longrightarrow> encode_committed_discovery rs ps = Some b"
  unfolding decode_committed_discovery_def encode_committed_discovery_def decode_encode_discovery by simp

lemma check_tx_discovery_iff: "check_tx_discovery i t = Some (Ok ()) \<longleftrightarrow> discovery_ok t"
  by (auto simp: check_tx_discovery_def and_then_Ok discovery_parts_def discovery_ok_def decoded_reencodes discovery_binds_iff
      split: sum.splits option.splits)

lemma check_tx_discovery_no_panic: "check_tx_discovery i t \<noteq> None"
  by (auto simp: check_tx_discovery_def and_then_None discovery_parts_def decoded_reencodes split: sum.splits)

text \<open>The rider's operation and the fee it adds.\<close>

definition rider_fee :: "tx_entry \<Rightarrow> u64" where
  "rider_fee t = (case decode_rider (rider t) of Inr (Some op) \<Rightarrow> name_fee_for op | _ \<Rightarrow> 0)"

definition rider_silent :: "tx_entry \<Rightarrow> bool" where
  "rider_silent t \<longleftrightarrow> decode_rider (rider t) = Ok None"

definition tx_rules :: "'k body_rule_form \<Rightarrow> u64 \<Rightarrow> (tx_entry \<Rightarrow> bool) \<Rightarrow> (hash32 \<Rightarrow> bool) \<Rightarrow> u64 option \<Rightarrow> tx_entry \<Rightarrow> bool" where
  "tx_rules form h verify_tx fin recorded t \<longleftrightarrow>
    check_anchor form h fin recorded 0 t = Ok () \<and> l2 t = l2_surface_absent \<and> discovery_ok t \<and> verify_tx t
    \<and> fee (public t) = posted_fee (bucket (public t)) + rider_fee t \<and> (rider_silent t \<or> riders_active form h)"

lemma check_anchor_index: "check_anchor form h fin recorded i t = Ok () \<longleftrightarrow> check_anchor form h fin recorded 0 t = Ok ()"
  by (auto simp: check_anchor_def split: body_rule_form.splits)

lemma check_rider_fee_Ok:
  "check_rider_fee form h view i pending t = Ok p \<longleftrightarrow>
    (\<exists>op. decode_rider (rider t) = Ok op \<and> (op = None \<or> riders_active form h)
      \<and> fee (public t) = posted_fee (bucket (public t)) + rider_fee t
      \<and> (case op of None \<Rightarrow> p = pending
         | Some o1 \<Rightarrow> check_op view h o1 pending = Ok () \<and> p = (case o1 of Reveal r _ \<Rightarrow> nr_name r # pending | _ \<Rightarrow> pending)))"
  by (auto simp: check_rider_fee_def Let_def rider_fee_def split: sum.splits option.splits if_splits)

lemma validate_txs_iff:
  "validate_txs form h verify_tx fin view recorded i seen pending ts = Some (Ok ()) \<longleftrightarrow>
    distinct (concat (map (\<lambda>t. tx_nullifiers (public t)) ts))
    \<and> set (concat (map (\<lambda>t. tx_nullifiers (public t)) ts)) \<inter> set seen = {}
    \<and> (\<forall>t \<in> set ts. tx_rules form h verify_tx fin recorded t)
    \<and> riders_valid view h pending (map rider ts)"
proof (induction ts arbitrary: i seen pending)
  case (Cons t ts)
  define ns rest where "ns = tx_nullifiers (public t)" and "rest = concat (map (\<lambda>t. tx_nullifiers (public t)) ts)"
  have "validate_txs form h verify_tx fin view recorded i seen pending (t # ts) = Some (Ok ()) \<longleftrightarrow>
    check_anchor form h fin recorded 0 t = Ok () \<and> l2 t = l2_surface_absent \<and> discovery_ok t \<and> verify_tx t
    \<and> distinct ns \<and> set ns \<inter> set seen = {}
    \<and> (\<exists>p. check_rider_fee form h view i pending t = Ok p
        \<and> validate_txs form h verify_tx fin view recorded (Suc i) (rev ns @ seen) p ts = Some (Ok ()))"
    by (auto simp: and_then_Ok check_anchor_index [of form h fin recorded i] insert_nullifiers_Some ns_def [symmetric]
        check_tx_discovery_iff split: option.splits if_splits)
  also have "\<dots> \<longleftrightarrow> distinct (ns @ rest) \<and> set (ns @ rest) \<inter> set seen = {}
    \<and> (\<forall>x \<in> set (t # ts). tx_rules form h verify_tx fin recorded x) \<and> riders_valid view h pending (map rider (t # ts))"
    unfolding Cons.IH rest_def [symmetric] check_rider_fee_Ok
    by (cases "decode_rider (rider t)") (auto simp: tx_rules_def rider_silent_def split: option.splits name_op.splits)
  finally show ?case by (simp add: ns_def rest_def)
qed simp

end
