(* ===== verification/Body_Validation.thy ===== *)
theory Body_Validation
  imports Block_Body
begin

text \<open>
  What validation of a block body (theory \<open>Block_Body\<close>) establishes: a characterisation of the accepted
  v5 bodies, freedom from panics in every rule form, the supply minted by a chain of accepted
  bodies, the split of fees, and the anchor and finality rules of v6.
\<close>

section \<open>No panics\<close>

lemma and_then_total: "and_then m f \<noteq> None \<longleftrightarrow> m \<noteq> None \<and> (\<forall>a. m = Some (Ok a) \<longrightarrow> f a \<noteq> None)"
  by (auto simp del: not_None_eq simp: and_then_None)

lemma coinbase_exact_total: "coinbase_exact h \<noteq> None"
proof (cases "h < tail_activation_height")
  case True
  from coinbase_below_tail [OF this] show ?thesis by auto
qed (simp add: coinbase_exact_def not_less)

lemma payees_scheduled_no_panic: "check_payees_capped_and_scheduled cap h ps \<noteq> None"
  using coinbase_exact_total [of h]
  by (auto simp: check_payees_capped_and_scheduled_def check_committed_against_exact_def Let_def)

lemma check_schedule_no_panic: "check_schedule form hdr b \<noteq> None"
proof -
  have "check_scheduled_coinbase h c \<noteq> None" for h c
    using coinbase_exact_total [of h]
    by (auto simp: check_scheduled_coinbase_def check_scheduled_coinbase_above_def check_committed_against_exact_def)
  then show ?thesis
    unfolding check_schedule_def check_scheduled_coinbase_payees_above_def
    by (cases form) (simp_all del: not_None_eq add: payees_scheduled_no_panic)
qed

lemma tx_preimage_total:
  "form \<in> {FormV2, FormV3} \<or> length (tx_nullifiers (public t)) \<le> 255 \<and> length (commitments (public t)) \<le> 255
    \<Longrightarrow> tx_preimage form t \<noteq> None"
  by (auto simp: tx_preimage_def Let_def)

lemma txs_preimage_total: "txs_preimage form ts \<noteq> None \<longleftrightarrow> (\<forall>t \<in> set ts. tx_preimage form t \<noteq> None)"
  by (induction ts) (auto split: bind_splits)

lemma counts_Ok:
  "check_tx_entry_counts b = Ok () \<longleftrightarrow>
    (\<forall>t \<in> set (txs b). length (tx_nullifiers (public t)) \<le> 255 \<and> length (commitments (public t)) \<le> 255)"
  using position_None [of "\<lambda>t. length (tx_nullifiers (public t)) > 255 \<or> length (commitments (public t)) > 255" "txs b"]
  by (cases "position (\<lambda>t. length (tx_nullifiers (public t)) > 255 \<or> length (commitments (public t)) > 255) (txs b)")
    (auto simp: check_tx_entry_counts_def not_less)

lemma single_payee_parts_total: "length (coinbase_payees b) \<le> 1 \<Longrightarrow> single_payee_parts b \<noteq> None"
  by (cases "coinbase_payees b" rule: remdups_adj.cases) (auto simp: single_payee_parts_def)

lemma preimage_form_total:
  assumes "form \<in> {FormV2, FormV3} \<or> check_tx_entry_counts b = Ok ()"
    and "length (coinbase_payees b) \<le> cap" and "form \<in> {FormV2, FormV3} \<Longrightarrow> cap \<le> 1"
  shows "preimage_form form cap b \<noteq> None"
proof -
  have "txs_preimage form (txs b) \<noteq> None"
    using assms(1) unfolding txs_preimage_total counts_Ok by (meson tx_preimage_total)
  moreover have "payees_preimage form cap b \<noteq> None"
    using assms(2,3) single_payee_parts_total [of b] by (auto simp: payees_preimage_def)
  ultimately show ?thesis by (auto simp: preimage_form_def)
qed

lemma match_commitment_None: "match_commitment hdr got = None \<longleftrightarrow> got = None"
  by (auto simp: match_commitment_def split: option.splits)

lemma check_binding_no_panic: "check_binding form hdr b \<noteq> None"
proof -
  have "check_body_binding_above boundary hdr b \<noteq> None" for boundary
    using preimage_form_total [of FormV2 b 1] preimage_form_total [of FormV3 b 1]
    by (auto simp del: not_None_eq simp: check_body_binding_above_def and_then_None match_commitment_None commitment_above_def body_preimage_def
        payee_cap_v5_at_birth_def)
  moreover have "check_body_binding_v5_above boundary hdr b \<noteq> None" for boundary
    using preimage_form_total [of FormV5 b "coinbase_payee_cap_v5_above boundary (height hdr)"]
    by (auto simp del: not_None_eq simp: check_body_binding_v5_above_def Let_def and_then_None match_commitment_None commitment_v5_above_def)
  moreover have "check_body_binding_v6 hdr b \<noteq> None"
    using preimage_form_total [of FormV6 b coinbase_payee_cap_v6]
    by (auto simp del: not_None_eq simp: check_body_binding_v6_def and_then_None match_commitment_None preimage_v6_def split: option.splits)
  ultimately show ?thesis by (simp add: check_binding_def split: body_rule_form.splits)
qed

lemma validate_txs_no_panic: "validate_txs form h verify_tx fin view recorded i seen pending ts \<noteq> None"
  by (induction ts arbitrary: i seen pending)
    (simp_all del: not_None_eq add: and_then_None check_tx_discovery_no_panic split: option.split)

section \<open>The schedule over the payees\<close>

lemma payee_total_exact: "length ps \<le> 255 \<Longrightarrow> unat (payee_total ps) = (\<Sum>p\<leftarrow>ps. unat (amount p))"
proof (induction ps)
  case (Cons p ps)
  have "(\<Sum>p\<leftarrow>ps. unat (amount p)) \<le> length ps * 2 ^ 64"
    using sum_list_mono [of ps "\<lambda>p. unat (amount p)" "\<lambda>_. 2 ^ 64"] unat_lt_exp [where 'a = 64]
    by (simp add: sum_list_triv less_imp_le)
  also have "\<dots> \<le> 255 * 2 ^ 64" using Cons.prems by (intro mult_right_mono) simp_all
  finally have "unat (amount p) + (\<Sum>p\<leftarrow>ps. unat (amount p)) < 2 ^ 128"
    using unat_lt_exp [of "amount p"] by simp
  then show ?case using Cons unfolding payee_total_def by (simp add: unat_word_ariths)
qed (simp add: payee_total_def)

text \<open>What the coinbase of a height must add up to, as a number.\<close>

definition scheduled :: "u64 \<Rightarrow> nat" where
  "scheduled h = (if h = 0 then 0 else unat (the (coinbase_exact h)))"

lemma payees_scheduled_iff:
  assumes "cap \<le> 255"
  shows "check_payees_capped_and_scheduled cap h ps = Some (Ok ()) \<longleftrightarrow>
    length ps \<le> cap \<and> (\<Sum>p\<leftarrow>ps. unat (amount p)) = scheduled h"
proof (cases "length ps \<le> cap")
  case True
  then have t: "unat (payee_total ps) = (\<Sum>p\<leftarrow>ps. unat (amount p))" using assms by (simp add: payee_total_exact)
  obtain c where c: "coinbase_exact h = Some c" using coinbase_exact_total [of h] by blast
  have z: "payee_total ps = 0 \<longleftrightarrow> (\<Sum>p\<leftarrow>ps. unat (amount p)) = 0" unfolding t [symmetric] by (rule unat_eq_0 [symmetric])
  have u: "unat (u128_of umax) = 2 ^ 64 - 1" by (simp add: unat_umax)
  have le: "payee_total ps \<le> u128_of umax \<longleftrightarrow> unat (payee_total ps) \<le> 2 ^ 64 - 1"
    unfolding word_le_nat_alt u by (rule refl)
  have eq: "u64_of (payee_total ps) = c \<longleftrightarrow> unat (payee_total ps) = unat c" if "unat (payee_total ps) \<le> 2 ^ 64 - 1"
    using that by (simp add: word_unat_eq_iff unat_u64_of_small)
  have big: "unat (payee_total ps) \<noteq> unat c" if "\<not> unat (payee_total ps) \<le> 2 ^ 64 - 1"
    using that unat_lt_exp [of c] by auto
  show ?thesis
    using True z eq big
    by (auto simp: check_payees_capped_and_scheduled_def check_committed_against_exact_def Let_def scheduled_def c le t [symmetric])
qed (simp add: check_payees_capped_and_scheduled_def)

lemma payee_cap_v5_le: "coinbase_payee_cap_v5_above boundary h \<le> 8"
  by (simp add: coinbase_payee_cap_v5_above_def payee_cap_v5_raised_def payee_cap_v5_at_birth_def)


section \<open>Acceptance\<close>

lemma match_commitment_Ok: "match_commitment hdr got = Some (Ok ()) \<longleftrightarrow> got = Some (tx_body_commitment hdr)"
  by (auto simp: match_commitment_def split: option.splits)

lemma txs_preimage_v5_counts:
  assumes "preimage_form FormV5 cap b \<noteq> None"
  shows "check_tx_entry_counts b = Ok ()"
proof -
  have "\<forall>t \<in> set (txs b). tx_preimage FormV5 t \<noteq> None"
    using assms unfolding txs_preimage_total [symmetric] by (cases "txs_preimage FormV5 (txs b)") (simp_all add: preimage_form_def)
  then show ?thesis unfolding counts_Ok by (auto simp: tx_preimage_def Let_def not_less split: if_splits)
qed

lemma binding_v5_Ok:
  "check_body_binding_v5_above boundary hdr b = Some (Ok ()) \<longleftrightarrow>
    length (coinbase_payees b) \<le> coinbase_payee_cap_v5_above boundary (height hdr)
    \<and> commitment_v5_above boundary (height hdr) b = Some (tx_body_commitment hdr)"
proof (cases "commitment_v5_above boundary (height hdr) b = Some (tx_body_commitment hdr)")
  case True
  then have "check_tx_entry_counts b = Ok ()"
    using txs_preimage_v5_counts by (auto simp: commitment_v5_above_def)
  with True show ?thesis by (auto simp: check_body_binding_v5_above_def Let_def and_then_Ok match_commitment_Ok)
qed (auto simp: check_body_binding_v5_above_def Let_def and_then_Ok match_commitment_Ok)

text \<open>All the nullifiers of a body, in order.\<close>

definition body_nullifiers :: "block_body \<Rightarrow> hash32 list" where
  "body_nullifiers b = concat (map (\<lambda>t. tx_nullifiers (public t)) (txs b))"

lemma validate_body_form_Ok:
  "validate_body_form sg form hdr b verify_tx fin view = Some (Ok ()) \<longleftrightarrow>
    check_sections form b = Ok () \<and> length (coinbase_payees b) \<le> payee_cap form (height hdr)
    \<and> check_binding form hdr b = Some (Ok ()) \<and> \<not> mints_without_payee b \<and> check_schedule form hdr b = Some (Ok ())
    \<and> (\<exists>recorded. (case form of RuleV6 chain bundles \<Rightarrow> v6_sections sg chain bundles hdr b | _ \<Rightarrow> Ok None) = Ok recorded
      \<and> distinct (body_nullifiers b) \<and> (\<forall>t \<in> set (txs b). tx_rules form (height hdr) verify_tx fin recorded t)
      \<and> riders_valid view (height hdr) [] (map rider (txs b)))"
  unfolding validate_body_form_def and_then_Ok body_nullifiers_def
  by (auto simp: and_then_Ok validate_txs_iff not_less)

lemma rules_fees:
  assumes "\<forall>t \<in> set ts. tx_rules form h verify_tx fin recorded t"
  shows "(\<Sum>t\<leftarrow>ts. fee (public t)) = (\<Sum>t\<leftarrow>ts. posted_fee (bucket (public t))) + burn_of_riders (map rider ts)"
proof -
  have fold: "fold (\<lambda>r acc. acc + (case decode_rider r of Inr (Some op) \<Rightarrow> name_fee_for op | _ \<Rightarrow> 0)) (map rider ts) a
      = a + (\<Sum>t\<leftarrow>ts. rider_fee t)" for a
    by (induction ts arbitrary: a) (simp_all add: rider_fee_def algebra_simps)
  have "map (\<lambda>t. fee (public t)) ts = map (\<lambda>t. posted_fee (bucket (public t)) + rider_fee t) ts"
    using assms by (simp add: tx_rules_def)
  then have "(\<Sum>t\<leftarrow>ts. fee (public t)) = (\<Sum>t\<leftarrow>ts. posted_fee (bucket (public t)) + rider_fee t)" by (rule arg_cong)
  then show ?thesis by (simp add: burn_of_riders_def fold sum_list_addf)
qed

text \<open>The two rule forms after v4 hold every block to the exact schedule.\<close>

text \<open>The V4 rule carries one payee at most, and above its boundary height it is held to the schedule too.\<close>

lemma minted:
  assumes "validate_body_form sg form hdr b verify_tx fin view = Some (Ok ())"
    and above: "\<forall>x. form = RuleV4 x \<longrightarrow> rule_boundary_height < height hdr"
  shows "(\<Sum>p\<leftarrow>coinbase_payees b. unat (amount p)) = scheduled (height hdr)"
proof -
  have ok: "check_schedule form hdr b = Some (Ok ())" using assms(1) by (simp only: validate_body_form_Ok)
  have v5: "coinbase_payee_cap_v5_above boundary (height hdr) \<le> 255" for boundary
    by (rule le_trans [OF payee_cap_v5_le]) simp
  have v6: "coinbase_payee_cap_v6 \<le> 255" by (simp add: coinbase_payee_cap_v6_def)
  show ?thesis
  proof (cases form)
    case (RuleV4 boundary)
    have cap: "length (coinbase_payees b) \<le> 1"
      using assms(1) by (simp add: validate_body_form_Ok payee_cap_def payee_cap_v5_at_birth_def RuleV4)
    have one: "unat (coinbase_total b) = (\<Sum>p\<leftarrow>coinbase_payees b. unat (amount p))"
    proof (cases "coinbase_payees b")
      case (Cons p ps)
      then have "ps = []" using cap by simp
      have "u128_of (amount p) \<le> u128_of umax" by (simp add: word_le_nat_alt unat_umax) (use unat_lt_exp [of "amount p"] in simp)
      then show ?thesis using Cons \<open>ps = []\<close> using unat_lt_exp [of "amount p"] by (simp add: coinbase_total_def min_absorb1 unat_u64_of_small)
    qed (simp add: coinbase_total_def unat_u64_of)
    have "\<not> height hdr \<le> rule_boundary_height" "height hdr \<noteq> 0" using above RuleV4 by (auto simp: not_le word_less_nat_alt)
    moreover obtain c where "coinbase_exact (height hdr) = Some c" using coinbase_exact_total [of "height hdr"] by blast
    ultimately have "unat (coinbase_total b) = scheduled (height hdr)"
      using ok by (simp add: RuleV4 check_schedule_def check_scheduled_coinbase_def check_scheduled_coinbase_above_def
          check_committed_against_exact_def scheduled_def split: if_splits)
    then show ?thesis using one by simp
  next
    case (RuleV5 boundary)
    then show ?thesis
      using ok payees_scheduled_iff [OF v5] by (simp only: check_schedule_def check_scheduled_coinbase_payees_above_def body_rule_form.case)
  next
    case (RuleV6 chain bundles)
    then show ?thesis using ok payees_scheduled_iff [OF v6] by (simp only: check_schedule_def body_rule_form.case)
  qed
qed

lemma sorted_last_max: "sorted xs \<Longrightarrow> x \<in> set xs \<Longrightarrow> x \<le> last xs"
  by (induction xs) auto

lemma takeWhile_mem: "sorted xs \<Longrightarrow> x \<in> set xs \<Longrightarrow> x \<le> c \<Longrightarrow> x \<in> set (takeWhile (\<lambda>h. h \<le> c) xs)"
  by (induction xs) fastforce+

lemma anchor_ceiling: "h \<le> min f (sat_sub n 1) \<and> 0 < n \<longleftrightarrow> h \<le> f \<and> h < (n :: u64)"
  by (auto simp: word_le_nat_alt word_less_nat_alt unat_sat_sub min_le_iff_disj min_def)

lemma anchor_age_mono:
  assumes "h \<le> l" and "l < (n :: u64)" and "n - h \<le> m" shows "n - l \<le> m"
proof -
  have "unat (n - l) = unat n - unat l" "unat (n - h) = unat n - unat h"
    using assms by (auto simp: unat_sub word_le_nat_alt word_less_nat_alt)
  then show ?thesis using assms by (simp add: word_le_nat_alt)
qed

lemma v6_anchor_iff:
  assumes "sorted hs"
  shows "v6_anchor_ok hs n recorded \<longleftrightarrow> (\<exists>h \<in> set hs. anchor_ok h n recorded)"
proof (cases recorded)
  case (Some f)
  define c p where "c = min f (sat_sub n 1)" and "p = takeWhile (\<lambda>h. h \<le> c) hs"
  have code: "v6_anchor_ok hs n recorded \<longleftrightarrow> p \<noteq> [] \<and> anchor_ok (last p) n recorded"
  proof -
    have "hs ! (length p - 1) = last p" if "p \<noteq> []"
      using that takeWhile_nth [of "length p - 1" "\<lambda>h. h \<le> c" hs] unfolding p_def [symmetric] by (simp add: last_conv_nth)
    then show ?thesis by (auto simp: v6_anchor_ok_def Some Let_def c_def [symmetric] p_def [symmetric])
  qed
  have "p \<noteq> [] \<and> anchor_ok (last p) n recorded" if h: "h \<in> set hs" "anchor_ok h n recorded" for h
  proof -
    have ok: "h \<le> f" "h < n" "n - h \<le> max_anchor_age_blocks" using h(2) by (simp_all add: anchor_ok_def Some)
    then have hc: "h \<le> c" and pos: "0 < n" using anchor_ceiling [of h f n] by (auto simp: c_def)
    have hp: "h \<in> set p" unfolding p_def using takeWhile_mem [OF assms h(1) hc] .
    then have ne: "p \<noteq> []" by auto
    have le: "h \<le> last p" using sorted_last_max [OF _ hp] assms by (simp add: p_def sorted_wrt_takeWhile)
    have "last p \<le> c" using last_in_set [OF ne] unfolding p_def by (blast dest: set_takeWhileD)
    then have l: "last p \<le> f" "last p < n" using anchor_ceiling [of "last p" f n] pos by (auto simp: c_def)
    then show ?thesis using ne anchor_age_mono [OF le l(2) ok(3)] by (simp add: anchor_ok_def Some)
  qed
  moreover have "last p \<in> set hs" if "p \<noteq> []" using last_in_set [OF that] unfolding p_def by (blast dest: set_takeWhileD)
  ultimately show ?thesis using code by blast
qed (simp add: v6_anchor_ok_def anchor_ok_def)

lemma v6_sections_Ok:
  assumes "v6_sections sg chain bundles hdr b = Ok recorded"
  shows "\<exists>own. finality_record_of sg b = Ok own \<and> recorded = recorded_after (recorded_finality chain) own
    \<and> (\<forall>r. own = Some r \<longrightarrow> fr_check (sg_verify sg) r (recorded_finality chain) (ancestor_at chain) (committee0 chain) = Ok ())"
  using assms by (auto simp: v6_sections_def Let_def split: sum.splits option.splits if_splits)

section \<open>Sample bodies\<close>

text \<open>A transaction without inputs or outputs, and bodies of it with one payee, under v5 and under v6.\<close>

definition plain_tx :: tx_entry where
  "plain_tx = \<lparr>proof_bytes = [9], public = \<lparr>anchor = replicate 32 5, tx_nullifiers = [], commitments = [],
      bucket = TwoByTwo, fee = posted_fee TwoByTwo\<rparr>, discovery = write_group_contents [], rider = [0], l2 = [0], auth = [0]\<rparr>"

definition minted_body :: "u64 \<Rightarrow> bytes \<Rightarrow> block_body" where
  "minted_body h sec = \<lparr>txs = [plain_tx], coinbase_payees = [\<lparr>rkm = [1, 2, 3, 4], amount = the (coinbase_exact h)\<rparr>],
    finality_section = sec, bundle_section = []\<rparr>"

definition header_over :: "u64 \<Rightarrow> hash32 \<Rightarrow> block_header" where
  "header_over h c = \<lparr>prev = [], height = h, timestamp = 0, difficulty = 1, nonce = 0, tx_body_commitment = c, ext = L1\<rparr>"

definition header_v5 :: "u64 \<Rightarrow> block_header" where
  "header_v5 h = header_over h (the (commitment_v5_above None h (minted_body h [])))"

definition header_v6 :: "u64 \<Rightarrow> bytes \<Rightarrow> block_header" where
  "header_v6 h sec = header_over h (the (commitment_v6 (minted_body h sec)))"

lemma plain_discovery: "discovery_ok plain_tx"
proof -
  have "decode_committed_discovery (write_group_contents []) = Ok ([], [])"
    by (simp add: decode_committed_discovery_def decode_encode_discovery ok_contents_def
        encode_committed_discovery_with_width_def contents_entry_count_def)
  then show ?thesis by (simp add: discovery_ok_def plain_tx_def contents_commitments_def)
qed

lemma plain_rider: "decode_rider (rider plain_tx) = Ok None"
  by (simp add: plain_tx_def decode_rider_def)

lemma plain_rules:
  "check_anchor form h fin recorded 0 plain_tx = Ok () \<Longrightarrow> verify_tx plain_tx \<Longrightarrow> tx_rules form h verify_tx fin recorded plain_tx"
  using plain_rider
  by (simp add: tx_rules_def rider_fee_def rider_silent_def plain_discovery)
    (simp add: plain_tx_def l2_surface_absent_def)

lemma minted_schedule: "0 < h \<Longrightarrow> (\<Sum>p\<leftarrow>coinbase_payees (minted_body h sec). unat (amount p)) = scheduled h"
  by (auto simp: minted_body_def scheduled_def)

lemma minted_counts: "check_tx_entry_counts (minted_body h sec) = Ok ()"
  by (simp add: counts_Ok minted_body_def plain_tx_def)

lemma minted_cap: "length (coinbase_payees (minted_body h sec)) = 1"
  by (simp add: minted_body_def)

lemma height_header_v5 [simp]: "height (header_v5 h) = h"
  by (simp add: header_v5_def header_over_def)

lemma minted_v5_valid:
  assumes "0 < h"
  shows "validate_body_form sg (RuleV5 None) (header_v5 h) (minted_body h []) (\<lambda>_. True) (\<lambda>_. True) empty_name_view = Some (Ok ())"
proof -
  have c: "commitment_v5_above None h (minted_body h []) \<noteq> None"
    using preimage_form_total [of FormV5 "minted_body h []" 1] minted_counts minted_cap
    by (simp add: commitment_v5_above_def coinbase_payee_cap_v5_above_def payee_cap_v5_at_birth_def)
  have cap: "coinbase_payee_cap_v5_above None h = 1" by (simp add: coinbase_payee_cap_v5_above_def payee_cap_v5_at_birth_def)
  have bind: "check_body_binding_v5_above None (header_v5 h) (minted_body h []) = Some (Ok ())"
    using c by (auto simp: binding_v5_Ok cap minted_cap) (simp add: header_v5_def header_over_def)
  have sch: "check_payees_capped_and_scheduled 1 h (coinbase_payees (minted_body h [])) = Some (Ok ())"
    using payees_scheduled_iff [of 1 h] minted_schedule [OF assms] minted_cap by simp
  have rules: "tx_rules (RuleV5 None) h (\<lambda>_. True) (\<lambda>_. True) None plain_tx"
    by (rule plain_rules) (simp_all add: check_anchor_def)
  show ?thesis
    using bind sch rules plain_rider
    by (simp add: validate_body_form_Ok check_binding_def check_schedule_def check_scheduled_coinbase_payees_above_def cap
        payee_cap_def minted_cap)
      (simp add: minted_body_def check_sections_def mints_without_payee_def body_nullifiers_def plain_tx_def)
qed

text \<open>The v6 sample carries the finality record of fifteen votes at height 16, and a chain whose only root
  of interest stood at height 12.\<close>

definition sample_sig :: "(unit, u8) sig_scheme" where
  "sample_sig = \<lparr>sg_verify = (\<lambda>k m s. s = 7), sg_enc = (\<lambda>s. replicate sig_len s),
    sg_dec = (\<lambda>b. if b = [] then None else Some (hd b))\<rparr>"

definition sample_section :: bytes where "sample_section = fr_encode (\<lambda>s. replicate sig_len s) sample_fr"

definition sample_chain :: "unit v6_chain_view" where
  "sample_chain = \<lparr>recorded_finality = None, ancestor_at = (\<lambda>_. Some (replicate 32 1)),
    committee0 = \<lparr>members = replicate 21 ()\<rparr>, root_heights = (\<lambda>_. [12]), wrapper_surface = [], last_bundle_height = None\<rparr>"

lemma sample_section_decodes: "fr_decode (sg_enc sample_sig) (sg_dec sample_sig) sample_section = Ok sample_fr"
proof -
  have "sig_codec (\<lambda>s. replicate sig_len (s :: u8)) (\<lambda>b. if b = [] then None else Some (hd b))"
    by (simp add: sig_codec_def sig_len_def)
  moreover have "wf_checkpoint (fr_cp sample_fr)" by (simp add: sample_fr_def wf_checkpoint_def is_hash32_def)
  ultimately show ?thesis using fr_decode_encode sample_fr_structural by (simp add: sample_sig_def sample_section_def)
qed

lemma sample_record_checks:
  "fr_check (sg_verify sample_sig) sample_fr None (ancestor_at sample_chain) (committee0 sample_chain) = Ok ()"
  using sample_fr_structural
  by (auto simp: fr_check_iff sample_fr_def sample_votes_def is_checkpoint_height_def cadence_blocks_def
      verify_vote_def committee_member_def sample_sig_def sample_chain_def)

lemma varint_bytes_le: "length (varint_bytes x) \<le> 10"
  using unat_lt_exp [of x] by (intro length_varint_bytes) simp_all

lemma sample_section_size: "sample_section \<noteq> [] \<and> length sample_section \<le> 60000"
proof -
  have v: "length (vote_bytes (\<lambda>s. replicate sig_len s) v) \<le> 3329" for v :: "u8 vote"
    using varint_bytes_le [of "word_of_nat (signer v)"] varint_bytes_le [of "word_of_nat sig_len"]
    by (simp add: vote_bytes_def sig_len_def)
  have "length (concat (map (vote_bytes (\<lambda>s. replicate sig_len s)) sample_votes)) \<le> (\<Sum>v\<leftarrow>sample_votes. 3329)"
    unfolding length_concat map_map comp_def by (rule sum_list_mono) (rule v)
  also have "\<dots> = 49935" by (simp add: sample_votes_def comp_def sum_list_triv)
  finally have "length (concat (map (vote_bytes (\<lambda>s. replicate sig_len s)) sample_votes)) \<le> 49935" .
  then show ?thesis
    using varint_bytes_le [of "word_of_nat (length sample_votes)"]
    by (simp add: sample_section_def fr_encode_def sample_fr_def)
qed

lemma minted_v6_valid:
  "validate_body_v6 sample_sig (header_v6 20 sample_section) (minted_body 20 sample_section) (\<lambda>_. True) sample_chain
    refuse_all_bundles empty_name_view = Some (Ok ())"
proof -
  define b where "b = minted_body 20 sample_section"
  have bind: "check_body_binding_v6 (header_v6 20 sample_section) b = Some (Ok ())"
  proof -
    have "preimage_v6 b \<noteq> None"
      using preimage_form_total [of FormV6 b coinbase_payee_cap_v6] minted_counts minted_cap
      by (simp add: preimage_v6_def b_def coinbase_payee_cap_v6_def)
    then obtain p where p: "preimage_v6 b = Some p" by blast
    have "length p \<le> 60000 + 4000"
      using p sample_section_size
      by (auto simp: preimage_v6_def preimage_form_def b_def minted_body_def plain_tx_def tx_preimage_def Let_def
          payees_preimage_def coinbase_payee_cap_v6_def payee_bytes_def len_prefixed_def form_domain_def body_preimage_domain_v6_def
          write_group_contents_def)
    then show ?thesis
      using p minted_counts minted_cap
      by (auto simp: check_body_binding_v6_def b_def match_commitment_Ok coinbase_payee_cap_v6_def max_v6_body_bytes_def)
        (simp add: header_v6_def header_over_def commitment_v6_def)
  qed
  have hh: "height (header_v6 20 sample_section) = 20" by (simp add: header_v6_def header_over_def)
  have sec: "v6_sections sample_sig sample_chain refuse_all_bundles (header_v6 20 sample_section) b = Ok (Some 16)"
    using sample_section_size sample_section_decodes sample_record_checks
    by (simp add: v6_sections_def finality_record_of_def b_def minted_body_def)
      (simp add: sample_chain_def recorded_after_def sample_fr_def)
  have sch: "check_payees_capped_and_scheduled coinbase_payee_cap_v6 20 (coinbase_payees b) = Some (Ok ())"
    using payees_scheduled_iff [of coinbase_payee_cap_v6 20] minted_schedule minted_cap by (simp add: coinbase_payee_cap_v6_def b_def)
  have "v6_anchor_ok [12] 20 (Some 16)" by (simp add: v6_anchor_iff anchor_ok_def max_anchor_age_blocks_def)
  then have rules: "tx_rules (RuleV6 sample_chain refuse_all_bundles) 20 (\<lambda>_. True) (\<lambda>_. False) (Some 16) plain_tx"
    by (intro plain_rules) (simp_all add: check_anchor_def sample_chain_def)
  show ?thesis
    using bind sch rules plain_rider sec
    by (simp add: validate_body_v6_def b_def [symmetric] validate_body_form_Ok check_binding_def check_schedule_def hh
        payee_cap_def coinbase_payee_cap_v6_def)
      (simp add: b_def minted_body_def check_sections_def mints_without_payee_def body_nullifiers_def plain_tx_def)
qed

section \<open>Properties\<close>

text \<open>C7: exactly which v5 bodies are accepted. No v6 section; the payees within the cap, none the null key, and
  their amounts adding up, as numbers, to the scheduled coinbase; the body's commitment in the
  header; no nullifier twice anywhere in the block; every transaction anchored at a final root,
  without an L2 surface, with canonical discovery describing its own commitments, a valid proof and
  the exact fee; and the riders admissible in order.\<close>

theorem body_v5_accepted_iff:
  "validate_body_v5_above sg boundary hdr b verify_tx fin view = Some (Ok ()) \<longleftrightarrow>
    \<not> has_v6_sections b
    \<and> length (coinbase_payees b) \<le> coinbase_payee_cap_v5_above boundary (height hdr)
    \<and> (\<forall>p \<in> set (coinbase_payees b). rkm p \<noteq> [0, 0, 0, 0])
    \<and> (\<Sum>p\<leftarrow>coinbase_payees b. unat (amount p)) = (if height hdr = 0 then 0 else unat (the (coinbase_exact (height hdr))))
    \<and> commitment_v5_above boundary (height hdr) b = Some (tx_body_commitment hdr)
    \<and> distinct (concat (map (\<lambda>t. tx_nullifiers (public t)) (txs b)))
    \<and> (\<forall>t \<in> set (txs b). fin (anchor (public t)) \<and> l2 t = l2_surface_absent \<and> discovery_ok t \<and> verify_tx t
        \<and> fee (public t) = posted_fee (bucket (public t)) + rider_fee t \<and> (rider_silent t \<or> 0 < height hdr))
    \<and> riders_valid view (height hdr) [] (map rider (txs b))"
proof -
  have cap: "coinbase_payee_cap_v5_above boundary (height hdr) \<le> 255" by (rule le_trans [OF payee_cap_v5_le]) simp
  have sec: "check_sections (RuleV5 boundary) b = Ok () \<longleftrightarrow> \<not> has_v6_sections b"
    by (simp add: check_sections_def has_v6_sections_def)
  have bind: "check_binding (RuleV5 boundary) hdr b = check_body_binding_v5_above boundary hdr b"
    by (simp add: check_binding_def)
  have sch: "check_schedule (RuleV5 boundary) hdr b = Some (Ok ()) \<longleftrightarrow>
      length (coinbase_payees b) \<le> coinbase_payee_cap_v5_above boundary (height hdr)
      \<and> (\<Sum>p\<leftarrow>coinbase_payees b. unat (amount p)) = scheduled (height hdr)"
    by (simp add: check_schedule_def check_scheduled_coinbase_payees_above_def payees_scheduled_iff [OF cap])
  have rules: "tx_rules (RuleV5 boundary) h verify_tx fin None t \<longleftrightarrow>
      fin (anchor (public t)) \<and> l2 t = l2_surface_absent \<and> discovery_ok t \<and> verify_tx t
        \<and> fee (public t) = posted_fee (bucket (public t)) + rider_fee t \<and> (rider_silent t \<or> 0 < h)" for h t
    by (simp add: tx_rules_def check_anchor_def riders_active_def)
  note rules' = rules [abs_def]
  show ?thesis
    unfolding validate_body_v5_above_def validate_body_form_Ok sec bind sch binding_v5_Ok scheduled_def body_nullifiers_def
      mints_without_payee_def payee_cap_def body_rule_form.case sum.inject
    unfolding simp_thms rules' by blast
qed

lemma body_v5_accepted_iff_witness:
  "(\<Sum>p\<leftarrow>coinbase_payees (minted_body 7 []). unat (amount p)) = unat (the (coinbase_exact 7))
    \<and> commitment_v5_above None 7 (minted_body 7 []) = Some (tx_body_commitment (header_v5 7))
    \<and> discovery_ok plain_tx \<and> fee (public plain_tx) = posted_fee TwoByTwo + rider_fee plain_tx"
proof -
  have "validate_body_v5_above \<lparr>sg_verify = (\<lambda>_ _ _. True), sg_enc = (\<lambda>_ :: unit. []), sg_dec = (\<lambda>_. None)\<rparr> None
      (header_v5 7) (minted_body 7 []) (\<lambda>_. True) (\<lambda>_. True) empty_name_view = Some (Ok ())"
    unfolding validate_body_v5_above_def by (rule minted_v5_valid) simp
  from this [unfolded body_v5_accepted_iff] have "(\<Sum>p\<leftarrow>coinbase_payees (minted_body 7 []). unat (amount p)) = (if (7 :: u64) = 0 then 0 else unat (the (coinbase_exact 7)))"
    "commitment_v5_above None 7 (minted_body 7 []) = Some (tx_body_commitment (header_v5 7))"
    "\<forall>t \<in> set (txs (minted_body 7 [])). discovery_ok t \<and> fee (public t) = posted_fee (bucket (public t)) + rider_fee t"
    unfolding height_header_v5 by blast+
  moreover have "bucket (public plain_tx) = TwoByTwo" "plain_tx \<in> set (txs (minted_body 7 []))"
    by (simp_all add: plain_tx_def minted_body_def)
  ultimately show ?thesis by simp
qed

text \<open>C10: validation never panics: in every rule form, for every header and body of any height, it returns an
  acceptance or a refusal (the schedule's and the preimages' assertions are unreachable behind
  the checks that precede them).\<close>

theorem body_validation_total: "validate_body_form sg form hdr b verify_tx fin view \<noteq> None"
  unfolding validate_body_form_def
  by (simp del: not_None_eq add: and_then_total check_binding_no_panic check_schedule_no_panic validate_txs_no_panic)

text \<open>C8: what a chain of accepted bodies mints: bodies accepted at heights \<open>m + 1\<close> to \<open>n\<close>, each under any rule
  form that holds its height to the schedule (v5 and v6 at every height, v4 above its boundary height
  8640; the v4 bodies up to there are grandfathered), pay out, over all their payees, exactly the
  growth of the exact supply curve.\<close>

theorem accepted_bodies_mint_supply:
  assumes "\<forall>i \<in> {m<..n}. validate_body_form sg (form i) (hdr i) (body i) verify_tx fin (view i) = Some (Ok ())
      \<and> height (hdr i) = word_of_nat i \<and> (\<forall>x. form i = RuleV4 x \<longrightarrow> rule_boundary_height < height (hdr i))"
    and "m \<le> n" and "n < 2 ^ 37"
  shows "\<exists>s s0. s_atomic_exact (word_of_nat (Suc n)) = Some s \<and> s_atomic_exact (word_of_nat (Suc m)) = Some s0
    \<and> unat s = unat s0 + (\<Sum>i \<in> {m<..n}. \<Sum>p\<leftarrow>coinbase_payees (body i). unat (amount p))"
  using assms(2,1,3)
proof (induction n rule: dec_induct)
  case base
  have u: "unat (word_of_nat m :: u64) = m" using base(2) by (simp add: unat_of_nat_len)
  then show ?case using coinbase_step [of "word_of_nat m"] base(2) by (auto simp: add.commute)
next
  case (step n)
  have "\<forall>i \<in> {m<..n}. validate_body_form sg (form i) (hdr i) (body i) verify_tx fin (view i) = Some (Ok ())
      \<and> height (hdr i) = word_of_nat i \<and> (\<forall>x. form i = RuleV4 x \<longrightarrow> rule_boundary_height < height (hdr i))"
    and "n < 2 ^ 37" using step.prems by auto
  from step.IH [OF this] obtain s s1 where s: "s_atomic_exact (word_of_nat (Suc n)) = Some s" "s_atomic_exact (word_of_nat (Suc m)) = Some s1"
    "unat s = unat s1 + (\<Sum>i \<in> {m<..n}. \<Sum>p\<leftarrow>coinbase_payees (body i). unat (amount p))" by blast
  have u: "unat (word_of_nat (Suc n) :: u64) = Suc n" using step.prems(2) by (simp add: unat_of_nat_len del: of_nat_Suc)
  then have nz: "(word_of_nat (Suc n) :: u64) \<noteq> 0" by (metis unat_0 nat.distinct(1))
  from coinbase_step [of "word_of_nat (Suc n)"] step.prems(2) s(1) u
  obtain a c where a: "s_atomic_exact (word_of_nat (Suc n) + 1) = Some a" "coinbase_exact (word_of_nat (Suc n)) = Some c"
    "unat a = unat s + unat c" by (auto simp del: of_nat_Suc)
  have i: "Suc n \<in> {m<..Suc n}" using step.hyps by simp
  have "(\<Sum>p\<leftarrow>coinbase_payees (body (Suc n)). unat (amount p)) = scheduled (word_of_nat (Suc n))"
    using minted bspec [OF step.prems(1) i] by metis
  also have "\<dots> = unat c" unfolding scheduled_def using nz a(2) by (simp del: of_nat_Suc)
  finally have "(\<Sum>p\<leftarrow>coinbase_payees (body (Suc n)). unat (amount p)) = unat c" .
  moreover have "{m<..Suc n} = insert (Suc n) {m<..n}" using step.hyps by auto
  ultimately have "(\<Sum>i \<in> {m<..Suc n}. \<Sum>p\<leftarrow>coinbase_payees (body i). unat (amount p))
      = (\<Sum>i \<in> {m<..n}. \<Sum>p\<leftarrow>coinbase_payees (body i). unat (amount p)) + unat c" by simp
  moreover have "s_atomic_exact (word_of_nat (Suc (Suc n))) = Some a" using a(1) by (simp add: add.commute add.left_commute)
  ultimately show ?case using s(2,3) a(3) by simp
qed

lemma accepted_bodies_mint_supply_witness:
  "\<exists>s s1. s_atomic_exact (word_of_nat 3) = Some s \<and> s_atomic_exact (word_of_nat 1) = Some s1
    \<and> unat s = unat s1 + (\<Sum>i \<in> {0<..2}. \<Sum>p\<leftarrow>coinbase_payees (minted_body (word_of_nat i) []). unat (amount p))"
proof -
  have "0 < (word_of_nat i :: u64)" if "i \<in> {0<..2}" for i
    using that by (auto simp: numeral_2_eq_2 le_Suc_eq)
  then have "\<forall>i \<in> {0<..2}. validate_body_form \<lparr>sg_verify = (\<lambda>_ _ _. True), sg_enc = (\<lambda>_ :: unit. []), sg_dec = (\<lambda>_. None)\<rparr>
      (RuleV5 None) (header_v5 (word_of_nat i)) (minted_body (word_of_nat i) []) (\<lambda>_. True) (\<lambda>_. True) empty_name_view = Some (Ok ())
      \<and> height (header_v5 (word_of_nat i)) = word_of_nat i
      \<and> (\<forall>x. RuleV5 None = (RuleV4 x :: unit body_rule_form) \<longrightarrow> rule_boundary_height < height (header_v5 (word_of_nat i)))"
    by (intro ballI conjI minted_v5_valid) simp_all
  note ok = this
  have lt: "(0 :: nat) \<le> 2" "2 < (2 :: nat) ^ 37" by simp_all
  have three: "Suc 2 = 3" "Suc 0 = 1" by simp_all
  show ?thesis by (rule accepted_bodies_mint_supply [OF ok lt, unfolded three])
qed

text \<open>fees: the fees of an accepted body are the posted fees of its transactions plus the names it burns
  for, so what remains after the burn is exactly what the arity buckets post, whatever the riders.\<close>

theorem accepted_body_fees:
  assumes "validate_body_form sg form hdr b verify_tx fin view = Some (Ok ())"
  shows "total_fees b - total_name_burn b = (\<Sum>t\<leftarrow>txs b. posted_fee (bucket (public t)))"
proof -
  obtain recorded where "\<forall>t \<in> set (txs b). tx_rules form (height hdr) verify_tx fin recorded t"
    using assms by (auto simp: validate_body_form_Ok)
  from rules_fees [OF this] show ?thesis by (simp add: total_fees_def total_name_burn_def)
qed

lemma accepted_body_fees_witness:
  "total_fees (minted_body 5 []) - total_name_burn (minted_body 5 []) = posted_fee TwoByTwo"
  using accepted_body_fees [OF minted_v5_valid [of 5 "\<lparr>sg_verify = (\<lambda>_ _ _. True), sg_enc = (\<lambda>_ :: unit. []), sg_dec = (\<lambda>_. None)\<rparr>"]]
  by (simp add: minted_body_def plain_tx_def)

text \<open>C9: what an accepted v6 body settles: if it carries a finality section, the section decodes to a
  record whose votes make \<open>try_finalize\<close> accept its checkpoint on a tracker that stands where the
  chain had recorded; and every transaction is anchored to a root that stood at a height which
  finality has recorded once that record counts, below the block and within the maximal age.\<close>

theorem accepted_v6_body_finalizes:
  assumes "validate_body_v6 sg hdr b verify_tx chain bundles view = Some (Ok ())"
    and "committee_size (committee0 chain) = frozen_committee_size" and "finalized_height t = recorded_finality chain"
    and "\<forall>root. sorted (root_heights chain root)"
  shows "\<exists>own t'. (if finality_section b = [] then own = None \<and> t' = t
        else \<exists>r. own = Some r \<and> fr_decode (sg_enc sg) (sg_dec sg) (finality_section b) = Ok r
          \<and> try_finalize (sg_verify sg) t (fr_cp r) (fr_votes r) (committee0 chain) = Ok t')
      \<and> finalized_height t' = recorded_after (recorded_finality chain) own
      \<and> (\<forall>x \<in> set (txs b). \<exists>h \<in> set (root_heights chain (anchor (public x))). anchor_ok h (height hdr) (finalized_height t'))"
proof -
  obtain recorded where rec: "v6_sections sg chain bundles hdr b = Ok recorded"
    "\<forall>x \<in> set (txs b). tx_rules (RuleV6 chain bundles) (height hdr) verify_tx (\<lambda>_. False) recorded x"
    using assms(1) by (auto simp: validate_body_v6_def validate_body_form_Ok)
  obtain own where own: "finality_record_of sg b = Ok own" "recorded = recorded_after (recorded_finality chain) own"
    "\<forall>r. own = Some r \<longrightarrow> fr_check (sg_verify sg) r (recorded_finality chain) (ancestor_at chain) (committee0 chain) = Ok ()"
    using v6_sections_Ok [OF rec(1)] by blast
  have anchors: "\<exists>h \<in> set (root_heights chain (anchor (public x))). anchor_ok h (height hdr) recorded" if "x \<in> set (txs b)" for x
    using that rec(2) v6_anchor_iff assms(4) by (fastforce simp: tx_rules_def check_anchor_def split: if_splits)
  show ?thesis
  proof (cases "finality_section b = []")
    case True
    then have "own = None" using own(1) by (simp add: finality_record_of_def)
    then show ?thesis using True own(2) anchors assms(3) by (auto simp: recorded_after_def)
  next
    case False
    then obtain r where r: "own = Some r" "fr_decode (sg_enc sg) (sg_dec sg) (finality_section b) = Ok r"
      using own(1) by (auto simp: finality_record_of_def split: sum.splits)
    obtain t' where "try_finalize (sg_verify sg) t (fr_cp r) (fr_votes r) (committee0 chain) = Ok t'"
      "finalized_height t' = recorded_after (recorded_finality chain) (Some r)"
      using fr_check_finalizes [OF _ assms(2,3)] own(3) r(1) by blast
    then show ?thesis using False r own(2) anchors by auto
  qed
qed

lemma accepted_v6_body_finalizes_witness:
  "\<exists>t'. try_finalize (sg_verify sample_sig) finality_new (fr_cp sample_fr) (fr_votes sample_fr) \<lparr>members = replicate 21 ()\<rparr> = Ok t'
    \<and> finalized_height t' = Some 16 \<and> anchor_ok 12 20 (finalized_height t')"
proof -
  have "committee_size (committee0 sample_chain) = frozen_committee_size" "finalized_height finality_new = recorded_finality sample_chain"
    "\<forall>root. sorted (root_heights sample_chain root)"
    by (simp_all add: sample_chain_def committee_size_def frozen_committee_size_def finality_new_def finalized_height_def latest_def)
  from accepted_v6_body_finalizes [OF minted_v6_valid this] sample_section_size sample_section_decodes
  obtain t' where "try_finalize (sg_verify sample_sig) finality_new (fr_cp sample_fr) (fr_votes sample_fr) (committee0 sample_chain) = Ok t'"
    "finalized_height t' = Some 16" "\<exists>h \<in> {12}. anchor_ok h 20 (finalized_height t')"
    by (auto simp: minted_body_def header_v6_def header_over_def recorded_after_def sample_fr_def sample_chain_def)
  then show ?thesis by (simp add: sample_chain_def)
qed

end
