(* ===== verification/Annulet_Body.thy ===== *)
theory Annulet_Body
  imports Body_Validation
begin

text \<open>
  The Annulet body form (\<open>qlab-devnet/src/annulet.rs\<close>): its commitments, the genesis notes, the registry
  write, the shape rules, the supply an Annulet body issues and redeems, and the body rule itself. The
  STARK verifier and the ML-DSA library are parameters. The counts of \<open>annulet_supply_delta\<close> are
  \<open>int\<close>s: the code's \<open>i128\<close> holds them (\<open>supply_delta_fits\<close>).
\<close>

section \<open>Commitments\<close>

definition body_preimage_domain_annulet :: bytes where "body_preimage_domain_annulet = ascii ''qumbra:body:annulet:v1''"
definition body_preimage_domain_annulet_v2 :: bytes where "body_preimage_domain_annulet_v2 = ascii ''qumbra:body:annulet:v2''"
definition body_preimage_domain_annulet_v3 :: bytes where "body_preimage_domain_annulet_v3 = ascii ''qumbra:body:annulet:v3''"

text \<open>The loop both commitments run over a body's transactions; they differ in the last length-prefixed field.\<close>

definition annulet_tx_bytes :: "bool \<Rightarrow> tx_entry \<Rightarrow> bytes option" where
  "annulet_tx_bytes with_auth t =
    (let p = public t
     in if length (tx_nullifiers p) > 255 \<or> length (commitments p) > 255 then None
        else Some (anchor p @ [word_of_nat (length (tx_nullifiers p))] @ concat (tx_nullifiers p)
          @ [word_of_nat (length (commitments p))] @ concat (commitments p)
          @ [wire_discriminant (bucket p)] @ u64_le (fee p)
          @ len_prefixed (proof_bytes t) @ len_prefixed (discovery t) @ len_prefixed (l2 t)
          @ (if with_auth then len_prefixed (auth t) else [])))"

fun annulet_txs_bytes :: "bool \<Rightarrow> tx_entry list \<Rightarrow> bytes option" where
  "annulet_txs_bytes with_auth [] = Some []"
| "annulet_txs_bytes with_auth (t # ts) =
    Option.bind (annulet_tx_bytes with_auth t) (\<lambda>a. map_option (\<lambda>b. a @ b) (annulet_txs_bytes with_auth ts))"

definition body_commitment_annulet :: "block_body \<Rightarrow> hash32 option" where
  "body_commitment_annulet b =
    map_option (\<lambda>ts. keccak256 (body_preimage_domain_annulet @ ts)) (annulet_txs_bytes False (txs b))"

definition body_commitment_annulet_for :: "block_body \<Rightarrow> l2_auth_form \<Rightarrow> hash32 option" where
  "body_commitment_annulet_for b form =
    (case form of
       NoAuth \<Rightarrow> body_commitment_annulet b
     | CandidateA \<Rightarrow> map_option (\<lambda>ts. keccak256 (body_preimage_domain_annulet_v2 @ ts)) (annulet_txs_bytes True (txs b))
     | CandidateAV3 \<Rightarrow> map_option (\<lambda>ts. keccak256 (body_preimage_domain_annulet_v3 @ ts)) (annulet_txs_bytes True (txs b)))"

record genesis_note =
  gn_cm :: hash32
  gn_payload :: bytes

definition genesis_body_domain_annulet :: bytes where
  "genesis_body_domain_annulet = ascii ''qumbra:body:annulet:genesis:v1''"
definition genesis_body_domain_annulet_v2 :: bytes where
  "genesis_body_domain_annulet_v2 = ascii ''qumbra:body:annulet:genesis:v2''"
definition genesis_body_domain_annulet_v3 :: bytes where
  "genesis_body_domain_annulet_v3 = ascii ''qumbra:body:annulet:genesis:v3''"

definition empty_body :: block_body where "empty_body = body_new [] []"

fun genesis_note_bytes :: "genesis_note list \<Rightarrow> bytes option" where
  "genesis_note_bytes [] = Some []"
| "genesis_note_bytes (n # ns) =
    (if length (gn_payload n) \<noteq> l2_payload_len then None
     else map_option (\<lambda>rest. gn_cm n @ gn_payload n @ rest) (genesis_note_bytes ns))"

definition genesis_body_commitment_annulet :: "genesis_note list \<Rightarrow> hash32 option" where
  "genesis_body_commitment_annulet ns =
    Option.bind (body_commitment_annulet empty_body) (\<lambda>c.
    map_option (\<lambda>rest. keccak256 (genesis_body_domain_annulet @ c @ u32_le (word_of_nat (length ns)) @ rest)) (genesis_note_bytes ns))"

definition genesis_body_commitment_annulet_for :: "genesis_note list \<Rightarrow> l2_auth_form \<Rightarrow> hash32 option" where
  "genesis_body_commitment_annulet_for ns form =
    (let commit = (\<lambda>domain.
       Option.bind (body_commitment_annulet_for empty_body form) (\<lambda>c.
       map_option (\<lambda>rest. keccak256 (domain @ c @ u32_le (word_of_nat (length ns)) @ rest)) (genesis_note_bytes ns)))
     in case form of
          NoAuth \<Rightarrow> genesis_body_commitment_annulet ns
        | CandidateA \<Rightarrow> commit genesis_body_domain_annulet_v2
        | CandidateAV3 \<Rightarrow> commit genesis_body_domain_annulet_v3)"

section \<open>The rules of one transaction\<close>

definition check_tx_discovery_annulet :: "nat \<Rightarrow> tx_entry \<Rightarrow> (body_error, unit) run" where
  "check_tx_discovery_annulet index t =
    (case decode_committed_discovery_with_width (discovery t) l2_payload_len of
       Inl e \<Rightarrow> Some (Err (DiscoveryMalformed index e))
     | Inr (rs, ps) \<Rightarrow>
         (case encode_committed_discovery_with_width rs ps l2_payload_len of
            None \<Rightarrow> None
          | Some d \<Rightarrow>
              if d \<noteq> discovery t then Some (Err (DiscoveryNotCanonical index))
              else and_then (Some (check_discovery_binds index rs t)) (\<lambda>_.
                case position payload_tag_is_zero ps of
                  Some entry \<Rightarrow> Some (Err (GenesisPlaintextInBody index entry))
                | None \<Rightarrow> Some (Ok ()))))"

definition placeholder_discovery_annulet :: "hash32 list \<Rightarrow> bytes option" where
  "placeholder_discovery_annulet cms =
    encode_committed_discovery_with_width
      [\<lparr>ct = replicate ct_len 0, entries = map (\<lambda>c. \<lparr>cm = c, tag = replicate 8 0, clue = ClueEmpty\<rparr>) cms\<rparr>]
      (replicate (length cms) (replicate l2_payload_len 0xA5)) l2_payload_len"

definition check_l2_arity :: "tx_public \<Rightarrow> l2_shape_tag \<Rightarrow> l2_auth_form \<Rightarrow> nat \<Rightarrow> body_error + unit" where
  "check_l2_arity p shape form index =
    (if bucket p \<noteq> TwoByTwo then Err (L2WrongArity index)
     else
       let (want_nf, want_cm) = (case shape of TagR \<Rightarrow> (1, 2) | _ \<Rightarrow> (3, sp_outputs form));
           nf = length (tx_nullifiers p); cms = length (commitments p)
       in if nf \<noteq> want_nf \<or> cms \<noteq> want_cm
          then (if shape = TagR then Err (L2RegistryWriteArity index)
                else if form = CandidateAV3 \<and> nf = 3 \<and> cms = 2 then Err (L2V2SpendOnV3Net index)
                else if form = CandidateA \<and> nf = 3 \<and> cms = 3 then Err (L2V3SpendOnV2Net index)
                else Err (L2WrongArity index))
          else Ok ())"

definition surface_terms :: "l2_surface \<Rightarrow> vpublic_term list" where
  "surface_terms s = (case sf_vpublic s of None \<Rightarrow> [] | Some ts \<Rightarrow> ts)"

definition check_l2_no_exit :: "l2_surface \<Rightarrow> nat \<Rightarrow> body_error + unit" where
  "check_l2_no_exit s index =
    (if (\<exists>t \<in> set (surface_terms s). vt_redeem t \<and> vt_asset t = 0 \<and> vt_amount t > 0) \<or> sf_exit_rkm s \<noteq> zero_hash
     then Err (L2ExitWithoutBridge index) else Ok ())"

section \<open>The registry write and the supply\<close>

fun registry_write_scan :: "nat \<Rightarrow> (nat \<times> hash32 \<times> registry_write_surface) option \<Rightarrow> tx_entry list
    \<Rightarrow> body_error + (nat \<times> hash32 \<times> registry_write_surface) option" where
  "registry_write_scan i found [] = Ok found"
| "registry_write_scan i found (t # ts) =
    (case surface_decode (l2 t) of
       Inr (Some s) \<Rightarrow>
         (case sf_write s of
            None \<Rightarrow> registry_write_scan (Suc i) found ts
          | Some w \<Rightarrow>
              if found \<noteq> None then Err (L2SecondRegistryWrite i)
              else registry_write_scan (Suc i) (Some (i, sf_registry_root s, w)) ts)
     | _ \<Rightarrow> registry_write_scan (Suc i) found ts)"

definition annulet_registry_write :: "block_body \<Rightarrow> body_error + (nat \<times> hash32 \<times> registry_write_surface) option" where
  "annulet_registry_write b = registry_write_scan 0 None (txs b)"

definition signed_term :: "vpublic_term \<Rightarrow> int" where
  "signed_term t = (if vt_redeem t then - uint (vt_amount t) else uint (vt_amount t))"

definition add_term :: "vpublic_term \<Rightarrow> (u16 \<times> int) list \<Rightarrow> (u16 \<times> int) list" where
  "add_term t m =
    (if vt_amount t = 0 then m
     else bt_insert (vt_asset t) ((case map_of m (vt_asset t) of None \<Rightarrow> 0 | Some v \<Rightarrow> v) + signed_term t) m)"

definition tx_terms :: "tx_entry \<Rightarrow> vpublic_term list" where
  "tx_terms t = (case surface_decode (l2 t) of Inr (Some s) \<Rightarrow> surface_terms s | _ \<Rightarrow> [])"

definition annulet_supply_delta :: "block_body \<Rightarrow> (u16 \<times> int) list" where
  "annulet_supply_delta b =
    bt_retain (\<lambda>_ v. v \<noteq> 0) (fold (\<lambda>t m. fold add_term (tx_terms t) m) (txs b) [])"

section \<open>The body rule\<close>

fun validate_txs_annulet :: "(bytes \<Rightarrow> hash32 \<Rightarrow> bytes \<Rightarrow> bool) \<Rightarrow> u64 \<Rightarrow> (tx_entry \<Rightarrow> bool) \<Rightarrow> (hash32 \<Rightarrow> bool) \<Rightarrow> l2_fee_table
    \<Rightarrow> auth_context \<Rightarrow> hash32 option \<Rightarrow> nat \<Rightarrow> hash32 list \<Rightarrow> tx_entry list \<Rightarrow> (body_error, unit) run" where
  "validate_txs_annulet lib h verify_tx fin fees ctx pre_root i seen [] = Some (Ok ())"
| "validate_txs_annulet lib h verify_tx fin fees ctx pre_root i seen (t # ts) =
    (if \<not> fin (anchor (public t)) then Some (Err (AnchorNotFinal i))
     else if rider t \<noteq> rider_absent then Some (Err (RiderBeforeBoundary i))
     else (case surface_decode (l2 t) of
             Inl e \<Rightarrow> Some (Err (L2SurfaceMalformed i e))
           | Inr None \<Rightarrow> Some (Err (L2SurfaceMissing i))
           | Inr (Some s) \<Rightarrow>
               and_then (Some (check_l2_arity (public t) (sf_shape s) (ac_form ctx) i)) (\<lambda>_.
               and_then (Some (check_l2_no_exit s i)) (\<lambda>_.
                 if Some (sf_registry_root s) \<noteq> pre_root then Some (Err (L2RegistryRootStale i))
                 else
                   let expected = posted_fee_l2 fees (sf_shape s)
                   in if fee (public t) \<noteq> expected then Some (Err (WrongFee i expected (fee (public t))))
                      else (case insert_nullifiers seen (tx_nullifiers (public t)) of
                              None \<Rightarrow> Some (Err (DoubleSpendInBlock i))
                            | Some seen1 \<Rightarrow>
                                and_then (check_tx_discovery_annulet i t) (\<lambda>_.
                                and_then (map_option (\<lambda>r. case r of Inl e \<Rightarrow> Err (L2AuthRefused i e) | Inr v \<Rightarrow> Ok v)
                                    (check_auth lib t ctx h)) (\<lambda>_.
                                  if \<not> verify_tx t then Some (Err (ProofInvalid i))
                                  else validate_txs_annulet lib h verify_tx fin fees ctx pre_root (Suc i) seen1 ts)))))))"

definition header_registry_root :: "block_header \<Rightarrow> hash32 option" where
  "header_registry_root hdr = (case ext hdr of ExtAnnulet e \<Rightarrow> Some (registry_root e) | L1 \<Rightarrow> None)"

definition validate_body_annulet_for :: "(bytes \<Rightarrow> hash32 \<Rightarrow> bytes \<Rightarrow> bool) \<Rightarrow> block_header \<Rightarrow> block_body \<Rightarrow> (tx_entry \<Rightarrow> bool)
    \<Rightarrow> (hash32 \<Rightarrow> bool) \<Rightarrow> l2_fee_table \<Rightarrow> auth_context \<Rightarrow> (body_error, unit) run" where
  "validate_body_annulet_for lib hdr b verify_tx fin fees ctx =
    (if coinbase_payees b \<noteq> [] then Some (Err (CoinbaseOnAnnulet (length (coinbase_payees b))))
     else and_then (Some (check_tx_entry_counts b)) (\<lambda>_.
          and_then (match_commitment hdr (body_commitment_annulet_for b (ac_form ctx))) (\<lambda>_.
          and_then (Some (annulet_registry_write b)) (\<lambda>write.
            case write of
              None \<Rightarrow> validate_txs_annulet lib (height hdr) verify_tx fin fees ctx (header_registry_root hdr) 0 [] (txs b)
            | Some (i, old_root, w) \<Rightarrow>
                if Some (rw_new_root w) \<noteq> header_registry_root hdr then Some (Err (L2RegistryWriteRootMismatch i))
                else validate_txs_annulet lib (height hdr) verify_tx fin fees ctx (Some old_root) 0 [] (txs b)))))"

definition validate_body_annulet :: "block_header \<Rightarrow> block_body \<Rightarrow> (tx_entry \<Rightarrow> bool) \<Rightarrow> (hash32 \<Rightarrow> bool) \<Rightarrow> l2_fee_table
    \<Rightarrow> (bytes \<Rightarrow> hash32 \<Rightarrow> bytes \<Rightarrow> bool) \<Rightarrow> (body_error, unit) run" where
  "validate_body_annulet hdr b verify_tx fin fees lib =
    validate_body_annulet_for lib hdr b verify_tx fin fees auth_context_none"

section \<open>What each check accepts\<close>

definition discovery_annulet_ok :: "tx_entry \<Rightarrow> bool" where
  "discovery_annulet_ok t \<longleftrightarrow> (\<exists>rs ps. decode_committed_discovery_with_width (discovery t) l2_payload_len = Ok (rs, ps)
    \<and> contents_commitments rs = commitments (public t) \<and> \<not> (\<exists>p \<in> set ps. payload_tag_is_zero p))"

lemma decoded_annulet_reencodes:
  "decode_committed_discovery_with_width b l2_payload_len = Ok (rs, ps) \<Longrightarrow> encode_committed_discovery_with_width rs ps l2_payload_len = Some b"
  unfolding decode_encode_discovery by simp

lemma position_exists: "position p xs = Some i \<Longrightarrow> \<exists>x \<in> set xs. p x"
  by (meson nth_mem position_Some)

lemma check_tx_discovery_annulet_iff: "check_tx_discovery_annulet i t = Some (Ok ()) \<longleftrightarrow> discovery_annulet_ok t"
  by (auto simp: check_tx_discovery_annulet_def discovery_annulet_ok_def decoded_annulet_reencodes and_then_Ok discovery_binds_iff
      position_None dest: position_exists split: sum.splits option.splits)

lemma check_tx_discovery_annulet_no_panic: "check_tx_discovery_annulet i t \<noteq> None"
  by (auto simp: check_tx_discovery_annulet_def decoded_annulet_reencodes and_then_None simp del: not_None_eq
      split: sum.splits option.splits)

definition l2_arity_ok :: "tx_public \<Rightarrow> l2_shape_tag \<Rightarrow> l2_auth_form \<Rightarrow> bool" where
  "l2_arity_ok p shape form \<longleftrightarrow> bucket p = TwoByTwo
    \<and> length (tx_nullifiers p) = (if shape = TagR then 1 else 3)
    \<and> length (commitments p) = (if shape = TagR then 2 else sp_outputs form)"

lemma check_l2_arity_Ok: "check_l2_arity p shape form i = Ok () \<longleftrightarrow> l2_arity_ok p shape form"
  by (cases shape) (auto simp: check_l2_arity_def l2_arity_ok_def Let_def)

definition exits_native :: "l2_surface \<Rightarrow> bool" where
  "exits_native s \<longleftrightarrow> (\<exists>t \<in> set (surface_terms s). vt_redeem t \<and> vt_asset t = 0 \<and> vt_amount t > 0)"

lemma check_l2_no_exit_Ok: "check_l2_no_exit s i = Ok () \<longleftrightarrow> \<not> exits_native s \<and> sf_exit_rkm s = zero_hash"
  by (auto simp: check_l2_no_exit_def exits_native_def)

text \<open>The write a transaction carries, and the scan for the block's only one.\<close>

definition tx_write :: "tx_entry \<Rightarrow> (hash32 \<times> registry_write_surface) option" where
  "tx_write t = (case surface_decode (l2 t) of
      Inr (Some s) \<Rightarrow> map_option (\<lambda>w. (sf_registry_root s, w)) (sf_write s) | _ \<Rightarrow> None)"

definition tx_writes :: "tx_entry list \<Rightarrow> (hash32 \<times> registry_write_surface) list" where
  "tx_writes ts = List.map_filter tx_write ts"

lemma tx_writes_simps: "tx_writes [] = []" "tx_writes (t # ts) = (case tx_write t of None \<Rightarrow> tx_writes ts | Some w \<Rightarrow> w # tx_writes ts)"
  by (simp_all add: tx_writes_def map_filter_simps split: option.splits)

lemma registry_write_scan_step:
  "registry_write_scan i found (t # ts) =
    (case tx_write t of
       None \<Rightarrow> registry_write_scan (Suc i) found ts
     | Some (r, w) \<Rightarrow> if found \<noteq> None then Err (L2SecondRegistryWrite i) else registry_write_scan (Suc i) (Some (i, r, w)) ts)"
  by (auto simp: tx_write_def split: sum.splits option.splits)

lemma registry_write_scan_found:
  "registry_write_scan i (Some x) ts = Ok f \<longleftrightarrow> tx_writes ts = [] \<and> f = Some x"
  by (induction ts arbitrary: i)
    (auto simp: tx_writes_simps registry_write_scan_step simp del: registry_write_scan.simps(2) split: option.splits)

lemma registry_write_scan_None: "registry_write_scan i None ts = Ok None \<longleftrightarrow> tx_writes ts = []"
  by (induction ts arbitrary: i)
    (auto simp: tx_writes_simps registry_write_scan_step registry_write_scan_found simp del: registry_write_scan.simps(2)
      split: option.splits)

lemma registry_write_scan_Some: "(\<exists>k. registry_write_scan i None ts = Ok (Some (k, r, w))) \<longleftrightarrow> tx_writes ts = [(r, w)]"
  by (induction ts arbitrary: i)
    (auto simp: tx_writes_simps registry_write_scan_step registry_write_scan_found simp del: registry_write_scan.simps(2)
      split: option.splits)

lemma registry_write_cases:
  "(\<exists>f. annulet_registry_write b = Ok f \<and> P f) \<longleftrightarrow>
    (tx_writes (txs b) = [] \<and> P None) \<or> (\<exists>k r w. annulet_registry_write b = Ok (Some (k, r, w)) \<and> P (Some (k, r, w)))"
  unfolding annulet_registry_write_def
  by (metis (no_types, lifting) not_Some_eq registry_write_scan_None prod_cases3)

text \<open>What the loop asks of one transaction against the registry root it must be proven under.\<close>

definition annulet_tx_rules :: "(bytes \<Rightarrow> hash32 \<Rightarrow> bytes \<Rightarrow> bool) \<Rightarrow> u64 \<Rightarrow> (tx_entry \<Rightarrow> bool) \<Rightarrow> (hash32 \<Rightarrow> bool) \<Rightarrow> l2_fee_table
    \<Rightarrow> auth_context \<Rightarrow> hash32 option \<Rightarrow> tx_entry \<Rightarrow> bool" where
  "annulet_tx_rules lib h verify_tx fin fees ctx pre_root t \<longleftrightarrow>
    fin (anchor (public t)) \<and> rider t = rider_absent \<and> discovery_annulet_ok t \<and> verify_tx t
    \<and> (\<exists>v. check_auth lib t ctx h = Some (Ok v))
    \<and> (\<exists>s. surface_decode (l2 t) = Ok (Some s) \<and> l2_arity_ok (public t) (sf_shape s) (ac_form ctx)
        \<and> \<not> exits_native s \<and> sf_exit_rkm s = zero_hash \<and> pre_root = Some (sf_registry_root s)
        \<and> fee (public t) = posted_fee_l2 fees (sf_shape s))"

lemma insert_nullifiers_None: "insert_nullifiers seen nfs = None \<longleftrightarrow> \<not> (distinct nfs \<and> set nfs \<inter> set seen = {})"
  by (auto simp: insert_nullifiers_def find_repeated_None)

lemma validate_txs_annulet_iff:
  "validate_txs_annulet lib h verify_tx fin fees ctx pre_root i seen ts = Some (Ok ()) \<longleftrightarrow>
    distinct (concat (map (\<lambda>t. tx_nullifiers (public t)) ts))
    \<and> set (concat (map (\<lambda>t. tx_nullifiers (public t)) ts)) \<inter> set seen = {}
    \<and> (\<forall>t \<in> set ts. annulet_tx_rules lib h verify_tx fin fees ctx pre_root t)"
proof (induction ts arbitrary: i seen)
  case (Cons t ts)
  define ns rest where "ns = tx_nullifiers (public t)" and "rest = concat (map (\<lambda>t. tx_nullifiers (public t)) ts)"
  have auth: "map_option (\<lambda>r. case r of Inl e \<Rightarrow> Err (L2AuthRefused i e) | Inr v \<Rightarrow> Ok v) m = Some (Ok v) \<longleftrightarrow> m = Some (Ok v)" for m v
    by (cases m; cases "the m") auto
  have "validate_txs_annulet lib h verify_tx fin fees ctx pre_root i seen (t # ts) = Some (Ok ()) \<longleftrightarrow>
    annulet_tx_rules lib h verify_tx fin fees ctx pre_root t \<and> distinct ns \<and> set ns \<inter> set seen = {}
    \<and> validate_txs_annulet lib h verify_tx fin fees ctx pre_root (Suc i) (rev ns @ seen) ts = Some (Ok ())"
    by (auto simp: annulet_tx_rules_def and_then_Ok auth check_l2_arity_Ok check_l2_no_exit_Ok insert_nullifiers_Some insert_nullifiers_None
        check_tx_discovery_annulet_iff Let_def ns_def simp del: map_option_eq_Some split: sum.splits option.splits if_splits)
  also have "\<dots> \<longleftrightarrow> distinct (ns @ rest) \<and> set (ns @ rest) \<inter> set seen = {}
    \<and> (\<forall>x \<in> set (t # ts). annulet_tx_rules lib h verify_tx fin fees ctx pre_root x)"
    unfolding Cons.IH rest_def [symmetric] by auto
  finally show ?case by (simp add: ns_def rest_def)
qed simp

lemma annulet_auth_no_panic:
  "map_option (\<lambda>r. case r of Inl e \<Rightarrow> Err (L2AuthRefused i e) | Inr v \<Rightarrow> Ok v) (check_auth lib t ctx h) \<noteq> None"
  by (simp add: check_auth_no_panic del: not_None_eq)

lemma validate_txs_annulet_no_panic: "validate_txs_annulet lib h verify_tx fin fees ctx pre_root i seen ts \<noteq> None"
  by (induction ts arbitrary: i seen)
    (auto simp: and_then_None check_tx_discovery_annulet_no_panic annulet_auth_no_panic check_auth_no_panic [simplified] Let_def
      simp del: not_None_eq option.map_disc_iff split: sum.splits option.splits)

lemma annulet_txs_bytes_total:
  "annulet_txs_bytes a ts \<noteq> None \<longleftrightarrow>
    (\<forall>t \<in> set ts. length (tx_nullifiers (public t)) \<le> 255 \<and> length (commitments (public t)) \<le> 255)"
  by (induction ts) (auto simp: annulet_tx_bytes_def Let_def not_less)

lemma commitment_annulet_total:
  "check_tx_entry_counts b = Ok () \<Longrightarrow> body_commitment_annulet_for b form \<noteq> None"
  using annulet_txs_bytes_total
  by (auto simp: body_commitment_annulet_for_def body_commitment_annulet_def counts_Ok simp del: not_None_eq split: l2_auth_form.splits)

text \<open>Which root the transactions must be proven under: the header's, or the old root of the block's one write, whose new
  root must then be the header's.\<close>

definition write_rule :: "block_header \<Rightarrow> tx_entry list \<Rightarrow> hash32 option \<Rightarrow> bool" where
  "write_rule hdr ts pre_root \<longleftrightarrow>
    (case tx_writes ts of
       [] \<Rightarrow> pre_root = header_registry_root hdr
     | [(old_root, w)] \<Rightarrow> header_registry_root hdr = Some (rw_new_root w) \<and> pre_root = Some old_root
     | _ \<Rightarrow> False)"

lemma registry_root_rule:
  "(\<exists>f. annulet_registry_write b = Ok f \<and> (case f of None \<Rightarrow> all (header_registry_root hdr)
      | Some (k, r, w) \<Rightarrow> Some (rw_new_root w) = header_registry_root hdr \<and> all (Some r)))
    \<longleftrightarrow> (\<exists>pre_root. write_rule hdr (txs b) pre_root \<and> all pre_root)" (is "(\<exists>f. _ \<and> ?via f) \<longleftrightarrow> _")
proof -
  have one: "(\<exists>k. annulet_registry_write b = Ok (Some (k, r, w))) \<longleftrightarrow> tx_writes (txs b) = [(r, w)]" for r w
    unfolding annulet_registry_write_def by (rule registry_write_scan_Some)
  have "(\<exists>f. annulet_registry_write b = Ok f \<and> ?via f) \<longleftrightarrow> (tx_writes (txs b) = [] \<and> all (header_registry_root hdr))
      \<or> (\<exists>r w. tx_writes (txs b) = [(r, w)] \<and> Some (rw_new_root w) = header_registry_root hdr \<and> all (Some r))"
    unfolding registry_write_cases one [symmetric] by auto
  also have "\<dots> \<longleftrightarrow> (\<exists>pre_root. write_rule hdr (txs b) pre_root \<and> all pre_root)"
    unfolding write_rule_def by (cases "tx_writes (txs b)"; cases "tl (tx_writes (txs b))") auto
  finally show ?thesis .
qed

lemma annulet_rules_counts:
  "list_all (annulet_tx_rules lib h verify_tx fin fees ctx r) (txs b) \<Longrightarrow> check_tx_entry_counts b = Ok ()"
  unfolding counts_Ok list_all_iff
  by (cases "ac_form ctx") (fastforce simp: annulet_tx_rules_def l2_arity_ok_def sp_outputs_def split: if_splits)+

lemma annulet_accepted:
  "validate_body_annulet_for lib hdr b verify_tx fin fees ctx = Some (Ok ()) \<longleftrightarrow>
    coinbase_payees b = [] \<and> body_commitment_annulet_for b (ac_form ctx) = Some (tx_body_commitment hdr)
    \<and> distinct (concat (map (\<lambda>t. tx_nullifiers (public t)) (txs b)))
    \<and> (\<exists>pre_root. write_rule hdr (txs b) pre_root
        \<and> list_all (annulet_tx_rules lib (height hdr) verify_tx fin fees ctx pre_root) (txs b))"
proof -
  define all where "all = (\<lambda>r. list_all (annulet_tx_rules lib (height hdr) verify_tx fin fees ctx r) (txs b))"
  define nfs where "nfs = concat (map (\<lambda>t. tx_nullifiers (public t)) (txs b))"
  define via where "via = (\<lambda>f :: (nat \<times> hash32 \<times> registry_write_surface) option. case f of None \<Rightarrow> all (header_registry_root hdr)
        | Some (k, r, w) \<Rightarrow> Some (rw_new_root w) = header_registry_root hdr \<and> all (Some r))"
  have loop: "validate_txs_annulet lib (height hdr) verify_tx fin fees ctx r 0 [] (txs b) = Some (Ok ()) \<longleftrightarrow> distinct nfs \<and> all r" for r
    by (simp add: validate_txs_annulet_iff nfs_def all_def list_all_iff)
  have tail: "(case f of None \<Rightarrow> validate_txs_annulet lib (height hdr) verify_tx fin fees ctx (header_registry_root hdr) 0 [] (txs b)
        | Some (i, r, w) \<Rightarrow> if Some (rw_new_root w) \<noteq> header_registry_root hdr then Some (Err (L2RegistryWriteRootMismatch i))
            else validate_txs_annulet lib (height hdr) verify_tx fin fees ctx (Some r) 0 [] (txs b)) = Some (Ok ())
      \<longleftrightarrow> distinct nfs \<and> via f" for f
    by (cases f) (auto simp: via_def loop split: prod.splits)
  have "validate_body_annulet_for lib hdr b verify_tx fin fees ctx = Some (Ok ()) \<longleftrightarrow>
      coinbase_payees b = [] \<and> check_tx_entry_counts b = Ok () \<and> body_commitment_annulet_for b (ac_form ctx) = Some (tx_body_commitment hdr)
      \<and> distinct nfs \<and> (\<exists>f. annulet_registry_write b = Ok f \<and> via f)"
    by (auto simp: validate_body_annulet_for_def and_then_Ok match_commitment_Ok tail)
  moreover have "(\<exists>f. annulet_registry_write b = Ok f \<and> via f) \<longleftrightarrow> (\<exists>pre_root. write_rule hdr (txs b) pre_root \<and> all pre_root)"
    unfolding via_def by (rule registry_root_rule)
  ultimately show ?thesis unfolding nfs_def all_def using annulet_rules_counts by blast
qed

section \<open>The supply of a body\<close>

definition asset_sum :: "u16 \<Rightarrow> vpublic_term list \<Rightarrow> int" where
  "asset_sum a ts = (\<Sum>t\<leftarrow>ts. if vt_asset t = a then signed_term t else 0)"

definition tally_of :: "(u16 \<times> int) list \<Rightarrow> u16 \<Rightarrow> int" where
  "tally_of m a = (case map_of m a of None \<Rightarrow> 0 | Some v \<Rightarrow> v)"

lemma add_term_tally: "bt_ok m \<Longrightarrow> bt_ok (add_term t m) \<and> tally_of (add_term t m) a = tally_of m a + (if vt_asset t = a then signed_term t else 0)"
  by (auto simp: add_term_def tally_of_def bt_ok_insert map_of_bt_insert signed_term_def)

lemma add_terms_tally: "bt_ok m \<Longrightarrow> bt_ok (fold add_term ts m) \<and> tally_of (fold add_term ts m) a = tally_of m a + asset_sum a ts"
proof (induction ts arbitrary: m)
  case (Cons t ts)
  then show ?case using add_term_tally [OF Cons.prems, of t a] by (simp add: asset_sum_def)
qed (simp add: asset_sum_def)

lemma add_txs_tally:
  "bt_ok m \<Longrightarrow> bt_ok (fold (\<lambda>t m. fold add_term (tx_terms t) m) ts m)
    \<and> tally_of (fold (\<lambda>t m. fold add_term (tx_terms t) m) ts m) a = tally_of m a + asset_sum a (concat (map tx_terms ts))"
proof (induction ts arbitrary: m)
  case (Cons t ts)
  then show ?case using add_terms_tally [OF Cons.prems, of "tx_terms t" a] by (simp add: asset_sum_def)
qed (simp add: asset_sum_def)

lemma map_of_retain_values: "distinct (map fst m) \<Longrightarrow> map_of (bt_retain (\<lambda>_ v. P v) m) k = (case map_of m k of Some v \<Rightarrow> if P v then Some v else None | None \<Rightarrow> None)"
  by (induction m) (force simp: bt_retain_def map_of_eq_None_iff split: option.splits)+

lemma supply_delta_is:
  "bt_ok (annulet_supply_delta b)
    \<and> map_of (annulet_supply_delta b) a = (let v = asset_sum a (concat (map tx_terms (txs b))) in if v = 0 then None else Some v)"
proof -
  define m where "m = fold (\<lambda>t m. fold add_term (tx_terms t) m) (txs b) []"
  have m: "bt_ok m" "tally_of m a = asset_sum a (concat (map tx_terms (txs b)))"
    using add_txs_tally [of "[]" "txs b" a] by (simp_all add: m_def tally_of_def)
  have "annulet_supply_delta b = bt_retain (\<lambda>_ v. v \<noteq> 0) m" by (simp add: annulet_supply_delta_def m_def)
  then show ?thesis
    using m map_of_retain_values [OF bt_ok_distinct [OF m(1)], of "\<lambda>v. v \<noteq> 0" a] bt_ok_retain [OF m(1)]
    by (auto simp: tally_of_def Let_def split: option.splits)
qed

lemma abs_signed_term: "\<bar>signed_term t\<bar> < 2 ^ 64"
proof -
  have "uint (vt_amount t) < 2 ^ LENGTH(64)" "0 \<le> uint (vt_amount t)" by (rule uint_bounded) simp
  then show ?thesis by (simp add: signed_term_def)
qed

lemma asset_sum_bound: "\<bar>asset_sum a ts\<bar> \<le> int (length ts) * 2 ^ 64"
proof (induction ts)
  case (Cons t ts)
  then show ?case using abs_signed_term [of t] by (auto simp: asset_sum_def algebra_simps)
qed (simp add: asset_sum_def)

lemma supply_delta_fits:
  assumes "length (concat (map tx_terms (txs b))) < 2 ^ 62"
  shows "\<bar>tally_of (annulet_supply_delta b) a\<bar> < 2 ^ 127"
proof -
  have "\<bar>asset_sum a (concat (map tx_terms (txs b)))\<bar> \<le> int (length (concat (map tx_terms (txs b)))) * 2 ^ 64" by (rule asset_sum_bound)
  also have "\<dots> \<le> 2 ^ 62 * 2 ^ 64" using assms by (intro mult_right_mono) simp_all
  finally show ?thesis using supply_delta_is [of b a] by (simp add: tally_of_def Let_def)
qed

lemma native_sum_nonneg:
  "\<forall>t \<in> set ts. \<not> (vt_redeem t \<and> vt_asset t = 0 \<and> vt_amount t \<noteq> 0) \<Longrightarrow> 0 \<le> asset_sum 0 ts"
  by (induction ts) (auto simp: asset_sum_def signed_term_def)

lemma rules_terms_native:
  assumes "annulet_tx_rules lib h verify_tx fin fees ctx r t" and "x \<in> set (tx_terms t)"
  shows "\<not> (vt_redeem x \<and> vt_asset x = 0 \<and> vt_amount x \<noteq> 0)"
  using assms by (auto simp: annulet_tx_rules_def tx_terms_def exits_native_def word_neq_0_conv)

section \<open>What the commitment determines\<close>

definition wf_l2_tx :: "tx_entry \<Rightarrow> bool" where
  "wf_l2_tx t \<longleftrightarrow> wf_tx t \<and> length (l2 t) < 2 ^ 64 \<and> length (auth t) < 2 ^ 64"

definition bound_fields :: "bool \<Rightarrow> tx_entry \<Rightarrow> bytes \<times> tx_public \<times> bytes \<times> bytes \<times> bytes" where
  "bound_fields a t = (proof_bytes t, public t, discovery t, l2 t, if a then auth t else [])"

lemma annulet_tx_cancel:
  assumes "wf_l2_tx t" and "wf_l2_tx u" and "annulet_tx_bytes a t = Some x" and "annulet_tx_bytes a u = Some y" and "x @ r = y @ s"
  shows "bound_fields a t = bound_fields a u \<and> r = s"
proof -
  define rt ru where "rt = (if a then len_prefixed (auth t) else []) @ r" and "ru = (if a then len_prefixed (auth u) else []) @ s"
  note w = assms(1,2) [unfolded wf_l2_tx_def wf_tx_def]
  have "anchor (public t) = anchor (public u) \<and> tx_nullifiers (public t) = tx_nullifiers (public u)
      \<and> commitments (public t) = commitments (public u) \<and> wire_discriminant (bucket (public t)) = wire_discriminant (bucket (public u))
      \<and> fee (public t) = fee (public u) \<and> proof_bytes t = proof_bytes u \<and> discovery t = discovery u \<and> l2 t = l2 u \<and> rt = ru"
    by (rule fields_cancel) (use assms(3-5) w in \<open>auto simp: annulet_tx_bytes_def Let_def rt_def ru_def split: if_splits\<close>)
  then have p: "public t = public u" "proof_bytes t = proof_bytes u" "discovery t = discovery u" "l2 t = l2 u" "rt = ru"
    by (cases "public t"; cases "public u"; simp add: wire_discriminant_inj)+
  have "(if a then auth t else []) = (if a then auth u else []) \<and> r = s"
    using p(5) w len_prefixed_cancel [of "auth t" "auth u" r s] by (cases a) (simp_all add: rt_def ru_def)
  then show ?thesis using p(1-4) by (simp add: bound_fields_def)
qed

lemma annulet_tx_bytes_nonempty: "wf_l2_tx t \<Longrightarrow> annulet_tx_bytes a t = Some x \<Longrightarrow> x \<noteq> []"
  by (auto simp: annulet_tx_bytes_def Let_def split: if_splits)

lemma annulet_txs_cancel:
  "annulet_txs_bytes a ts = Some x \<Longrightarrow> annulet_txs_bytes a us = Some x \<Longrightarrow> \<forall>t \<in> set ts \<union> set us. wf_l2_tx t
    \<Longrightarrow> map (bound_fields a) ts = map (bound_fields a) us"
proof (induction ts arbitrary: us x)
  case Nil
  then show ?case using annulet_tx_bytes_nonempty by (cases us) (auto simp: bind_eq_Some_conv)
next
  case (Cons t ts)
  obtain c d where t: "annulet_tx_bytes a t = Some c" "annulet_txs_bytes a ts = Some d" "x = c @ d"
    using Cons.prems(1) by (auto simp: bind_eq_Some_conv)
  then have "x \<noteq> []" using annulet_tx_bytes_nonempty [OF _ t(1)] Cons.prems(3) by simp
  then obtain u us' where us: "us = u # us'" using Cons.prems(2) by (cases us) auto
  obtain c' d' where u: "annulet_tx_bytes a u = Some c'" "annulet_txs_bytes a us' = Some d'" "x = c' @ d'"
    using Cons.prems(2) us by (auto simp: bind_eq_Some_conv)
  have "bound_fields a t = bound_fields a u \<and> d = d'"
    using annulet_tx_cancel [OF _ _ t(1) u(1), of d d'] t(3) u(3) Cons.prems(3) us by simp
  then show ?case using Cons.IH [OF t(2)] u(2) Cons.prems(3) us by simp
qed

definition annulet_domain :: "l2_auth_form \<Rightarrow> bytes" where
  "annulet_domain f = (case f of NoAuth \<Rightarrow> body_preimage_domain_annulet | CandidateA \<Rightarrow> body_preimage_domain_annulet_v2
     | CandidateAV3 \<Rightarrow> body_preimage_domain_annulet_v3)"

lemma commitment_annulet_preimage:
  "body_commitment_annulet_for b f = map_option (\<lambda>ts. keccak256 (annulet_domain f @ ts)) (annulet_txs_bytes (has_auth f) (txs b))"
  by (cases f) (simp_all add: body_commitment_annulet_for_def body_commitment_annulet_def annulet_domain_def has_auth_def)

lemma rules_bound:
  assumes "annulet_tx_rules lib h v fin fees ctx r t" and "annulet_tx_rules lib h v' fin' fees' ctx r' u"
    and "bound_fields (has_auth (ac_form ctx)) t = bound_fields (has_auth (ac_form ctx)) u"
  shows "t = u"
proof -
  obtain x y where "check_auth lib t ctx h = Some (Ok x)" "check_auth lib u ctx h = Some (Ok y)" "rider t = rider u"
    using assms(1,2) by (auto simp: annulet_tx_rules_def)
  then have "auth t = auth u" using check_auth_Ok [of lib t ctx h x] check_auth_Ok [of lib u ctx h y] assms(3)
    by (auto simp: bound_fields_def split: if_splits)
  then show ?thesis using assms(3) \<open>rider t = rider u\<close> by (cases t; cases u) (simp add: bound_fields_def)
qed

text \<open>The placeholder discovery of a list of commitments passes the rule for a transaction that declares them.\<close>

lemma placeholder_decodes:
  assumes "length cms < 256" and "\<forall>c \<in> set cms. is_hash32 c"
  shows "\<exists>d rs ps. placeholder_discovery_annulet cms = Some d \<and> decode_committed_discovery_with_width d l2_payload_len = Ok (rs, ps)
    \<and> contents_commitments rs = cms \<and> set ps \<subseteq> {replicate l2_payload_len 0xA5}"
proof -
  define rs :: "recipient_bundle list" where
    "rs = [\<lparr>ct = replicate ct_len 0, entries = map (\<lambda>c. \<lparr>cm = c, tag = replicate 8 0, clue = ClueEmpty\<rparr>) cms\<rparr>]"
  define ps where "ps = replicate (length cms) (replicate l2_payload_len (0xA5 :: u8))"
  have ok: "ok_contents rs" using assms by (auto simp: ok_contents_def ok_bundle_def ok_entry_def is_hash32_def rs_def)
  obtain d where d: "encode_committed_discovery_with_width rs ps l2_payload_len = Some d"
    by (auto simp: encode_committed_discovery_with_width_def contents_entry_count_def rs_def ps_def)
  then have "decode_committed_discovery_with_width d l2_payload_len = Ok (rs, ps)"
    using ok by (simp add: decode_encode_discovery)
  moreover have "placeholder_discovery_annulet cms = Some d" using d by (simp add: placeholder_discovery_annulet_def rs_def ps_def)
  moreover have "contents_commitments rs = cms" by (simp add: contents_commitments_def rs_def comp_def)
  moreover have "set ps \<subseteq> {replicate l2_payload_len 0xA5}" by (auto simp: ps_def)
  ultimately show ?thesis by blast
qed

lemma placeholder_payload_sealed: "\<not> payload_tag_is_zero (replicate l2_payload_len 0xA5)"
  by (simp add: payload_tag_is_zero_def payload_tag_len_def l2_payload_len_def)

section \<open>What the surfaces say\<close>

text \<open>A transaction spells a surface when its layer-2 field is the encoding of that (well-formed) surface,
  and none when it is the encoding of no surface.\<close>

definition spells :: "tx_entry \<Rightarrow> l2_surface option \<Rightarrow> bool" where
  "spells t s \<longleftrightarrow>
    (case s of
       Some sf \<Rightarrow> wf_surface sf \<and> surface_encode sf = Some (l2 t)
     | None \<Rightarrow> \<forall>sf. wf_surface sf \<longrightarrow> surface_encode sf \<noteq> Some (l2 t))"

definition flow_of :: "bool \<Rightarrow> u16 \<Rightarrow> l2_surface option \<Rightarrow> int" where
  "flow_of redeem a s =
    (case s of
       None \<Rightarrow> 0
     | Some sf \<Rightarrow>
         (case sf_vpublic sf of
            None \<Rightarrow> 0
          | Some vs \<Rightarrow> (\<Sum>v\<leftarrow>vs. if vt_asset v = a \<and> vt_redeem v = redeem then int (unat (vt_amount v)) else 0)))"

lemma every_tx_spells: "\<exists>s. spells t s"
proof (cases "\<exists>sf. wf_surface sf \<and> surface_encode sf = Some (l2 t)")
  case True
  then obtain sf where "wf_surface sf \<and> surface_encode sf = Some (l2 t)" by blast
  then have "spells t (Some sf)" by (simp add: spells_def)
  then show ?thesis by blast
next
  case False
  then have "spells t None" by (auto simp: spells_def)
  then show ?thesis by blast
qed

lemma every_body_spells: "\<exists>ss. list_all2 spells ts ss"
proof (induction ts)
  case (Cons t ts)
  obtain s ss where "spells t s" "list_all2 spells ts ss" using every_tx_spells Cons by blast
  then have "list_all2 spells (t # ts) (s # ss)" by simp
  then show ?case by blast
qed simp

lemma spells_terms:
  assumes "spells t s"
  shows "asset_sum a (tx_terms t) = flow_of False a s - flow_of True a s"
proof (cases s)
  case None
  then have "surface_decode (l2 t) \<noteq> Ok (Some sf)" for sf
    using assms surface_decode_Ok [of "l2 t" sf] by (auto simp: spells_def)
  then have "tx_terms t = []" by (auto simp: tx_terms_def split: sum.splits option.splits)
  then show ?thesis by (simp add: None flow_of_def asset_sum_def)
next
  case (Some sf)
  then have "surface_decode (l2 t) = Ok (Some sf)" using assms surface_encode_Some by (auto simp: spells_def)
  then have terms: "tx_terms t = (case sf_vpublic sf of None \<Rightarrow> [] | Some vs \<Rightarrow> vs)"
    by (simp add: tx_terms_def surface_terms_def)
  have "(\<Sum>v\<leftarrow>vs. if vt_asset v = a then signed_term v else 0)
      = (\<Sum>v\<leftarrow>vs. if vt_asset v = a \<and> vt_redeem v = False then int (unat (vt_amount v)) else 0)
      - (\<Sum>v\<leftarrow>vs. if vt_asset v = a \<and> vt_redeem v = True then int (unat (vt_amount v)) else 0)" for vs
    by (induction vs) (auto simp: signed_term_def)
  then show ?thesis by (simp add: terms Some flow_of_def asset_sum_def split: option.splits)
qed

lemma spells_body:
  "list_all2 spells ts ss \<Longrightarrow> asset_sum a (concat (map tx_terms ts)) = (\<Sum>s\<leftarrow>ss. flow_of False a s) - (\<Sum>s\<leftarrow>ss. flow_of True a s)"
proof (induction ts ss rule: list_all2_induct)
  case (Cons t ts s ss)
  then show ?case using spells_terms [of t s a] by (simp add: asset_sum_def)
qed (simp add: asset_sum_def)

section \<open>Properties\<close>

text \<open>C11: exactly which Annulet bodies the rule accepts: no coinbase, a commitment equal to the header's, no nullifier twice
  in the block, at most one registry write and it must produce the header's root, and every transaction
  final, of its shape's arity, priced by the table, discoverable, authorised, without a native exit and
  proven under the one registry root.\<close>

theorem annulet_body_accepted_iff:
  "validate_body_annulet_for lib hdr b verify_tx fin fees ctx = Some (Ok ()) \<longleftrightarrow>
    coinbase_payees b = [] \<and> body_commitment_annulet_for b (ac_form ctx) = Some (tx_body_commitment hdr)
    \<and> distinct (concat (map (\<lambda>t. tx_nullifiers (public t)) (txs b)))
    \<and> (\<exists>pre_root. write_rule hdr (txs b) pre_root
        \<and> list_all (annulet_tx_rules lib (height hdr) verify_tx fin fees ctx pre_root) (txs b))"
  by (rule annulet_accepted)

text \<open>the rule never panics, whatever the header and the body.\<close>

theorem annulet_validation_total: "validate_body_annulet_for lib hdr b verify_tx fin fees ctx \<noteq> None"
  by (auto simp: validate_body_annulet_for_def and_then_None validate_txs_annulet_no_panic match_commitment_None
      commitment_annulet_total simp del: not_None_eq split: option.splits)

text \<open>C13: the supply change a body reports: with the surfaces its transactions spell, an asset's entry is the sum of
  the amounts their public terms issue of it less the sum of the amounts they redeem; there is no
  entry where the two are equal, and the assets are in increasing order, each once.\<close>

theorem annulet_supply_exact:
  assumes "list_all2 spells (txs b) ss"
  shows "bt_ok (annulet_supply_delta b)
    \<and> map_of (annulet_supply_delta b) a =
        (let issued = (\<Sum>s\<leftarrow>ss. flow_of False a s); redeemed = (\<Sum>s\<leftarrow>ss. flow_of True a s)
         in if issued = redeemed then None else Some (issued - redeemed))"
  using supply_delta_is [of b a] spells_body [OF assms] by (simp add: Let_def)

text \<open>no accepted Annulet body redeems the native asset: its outstanding supply never falls.\<close>

theorem native_never_redeemed:
  assumes "validate_body_annulet_for lib hdr b verify_tx fin fees ctx = Some (Ok ())"
  shows "0 \<le> tally_of (annulet_supply_delta b) 0"
proof -
  obtain r where "list_all (annulet_tx_rules lib (height hdr) verify_tx fin fees ctx r) (txs b)"
    using assms by (auto simp: annulet_accepted)
  then have "\<forall>x \<in> set (concat (map tx_terms (txs b))). \<not> (vt_redeem x \<and> vt_asset x = 0 \<and> vt_amount x \<noteq> 0)"
    using rules_terms_native by (fastforce simp: list_all_iff)
  then have "0 \<le> asset_sum 0 (concat (map tx_terms (txs b)))" by (rule native_sum_nonneg)
  then show ?thesis using supply_delta_is [of b 0] by (simp add: tally_of_def Let_def)
qed

definition annulet_preimage :: "l2_auth_form \<Rightarrow> block_body \<Rightarrow> bytes option" where
  "annulet_preimage form b = map_option (\<lambda>x. annulet_domain form @ x) (annulet_txs_bytes (has_auth form) (txs b))"

text \<open>C12: a header binds the transactions of the body accepted under it, authorisations and riders included: two bodies
  of well-sized fields accepted under one header have the same transactions, or the two preimages
  of these bodies are different and a Keccak collision.\<close>

theorem annulet_header_binds:
  assumes "validate_body_annulet_for lib hdr b v fin fees ctx = Some (Ok ())"
    and "validate_body_annulet_for lib hdr b' v' fin' fees' ctx = Some (Ok ())"
    and "list_all wf_l2_tx (txs b @ txs b')"
  shows "txs b = txs b' \<and> coinbase_payees b = coinbase_payees b'
    \<or> (\<exists>x y. annulet_preimage (ac_form ctx) b = Some x \<and> annulet_preimage (ac_form ctx) b' = Some y \<and> x \<noteq> y \<and> keccak256 x = keccak256 y)"
proof -
  let ?a = "has_auth (ac_form ctx)"
  obtain r r' where R: "coinbase_payees b = []" "coinbase_payees b' = []"
      "list_all (annulet_tx_rules lib (height hdr) v fin fees ctx r) (txs b)"
      "list_all (annulet_tx_rules lib (height hdr) v' fin' fees' ctx r') (txs b')"
      "body_commitment_annulet_for b (ac_form ctx) = body_commitment_annulet_for b' (ac_form ctx)"
      "body_commitment_annulet_for b (ac_form ctx) \<noteq> None"
    using assms(1,2) by (auto simp: annulet_accepted)
  then obtain x y where xy: "annulet_txs_bytes ?a (txs b) = Some x" "annulet_txs_bytes ?a (txs b') = Some y"
      "keccak256 (annulet_domain (ac_form ctx) @ x) = keccak256 (annulet_domain (ac_form ctx) @ y)"
    by (auto simp: commitment_annulet_preimage)
  show ?thesis
  proof (cases "x = y")
    case True
    have m: "map (bound_fields ?a) (txs b) = map (bound_fields ?a) (txs b')"
      by (rule annulet_txs_cancel [OF xy(1)]) (use xy(2) True assms(3) in \<open>simp_all add: list_all_iff ball_Un\<close>)
    have "t = u" if "t \<in> set (txs b)" "u \<in> set (txs b')" "bound_fields ?a t = bound_fields ?a u" for t u
      by (rule rules_bound [OF _ _ that(3)]) (use R(3,4) that(1,2) in \<open>auto simp: list_all_iff\<close>)
    then have "txs b = txs b'" by (intro map_inj_eq [OF map_eq_imp_length_eq [OF m] _ m]) blast
    then show ?thesis using R by simp
  next
    case False
    then have "annulet_domain (ac_form ctx) @ x \<noteq> annulet_domain (ac_form ctx) @ y" by simp
    moreover have "annulet_preimage (ac_form ctx) b = Some (annulet_domain (ac_form ctx) @ x)"
        "annulet_preimage (ac_form ctx) b' = Some (annulet_domain (ac_form ctx) @ y)"
      using xy(1,2) by (simp_all add: annulet_preimage_def)
    ultimately show ?thesis using xy(3) by (intro disjI2 exI conjI)
  qed
qed

text \<open>C36: the Annulet rule neither commits to nor refuses the two v6 sections: adding any to an accepted body leaves it
  accepted under the same header.\<close>

theorem annulet_ignores_sections:
  "validate_body_annulet_for lib hdr (b\<lparr>finality_section := x, bundle_section := y\<rparr>) verify_tx fin fees ctx =
    validate_body_annulet_for lib hdr b verify_tx fin fees ctx"
proof -
  have t: "txs (b\<lparr>finality_section := x, bundle_section := y\<rparr>) = txs b"
    and p: "coinbase_payees (b\<lparr>finality_section := x, bundle_section := y\<rparr>) = coinbase_payees b" by simp_all
  show ?thesis
    unfolding validate_body_annulet_for_def check_tx_entry_counts_def body_commitment_annulet_for_def body_commitment_annulet_def
      annulet_registry_write_def t p by (rule refl)
qed

section \<open>A concrete body\<close>

definition sample_annulet_tx :: tx_entry where
  "sample_annulet_tx = sample_l2_tx\<lparr>discovery := the (placeholder_discovery_annulet [replicate 32 2, replicate 32 3])\<rparr>"

definition sample_annulet_body :: block_body where
  "sample_annulet_body = body_new [sample_annulet_tx] []"

definition sample_annulet_header :: block_header where
  "sample_annulet_header = \<lparr>prev = [], height = 10, timestamp = 0, difficulty = 1, nonce = 0,
    tx_body_commitment = the (body_commitment_annulet_for sample_annulet_body CandidateA),
    ext = ExtAnnulet \<lparr>l1_anchor_height = 0, l1_anchor_root = zero_hash, registry_root = zero_hash\<rparr>\<rparr>"

definition sample_fees :: l2_fee_table where "sample_fees = \<lparr>tier_s = 2, tier_p = 3, tier_r = 4\<rparr>"

lemma sample_annulet_fields:
  "public sample_annulet_tx = public sample_l2_tx" "l2 sample_annulet_tx = l2 sample_l2_tx" "rider sample_annulet_tx = [0]"
  "proof_bytes sample_annulet_tx = [9]"
  by (simp_all add: sample_annulet_tx_def) (simp_all add: sample_l2_tx_def)

lemma sample_annulet_rules:
  "annulet_tx_rules (\<lambda>_ _ sig. sig = sample_signature) 10 (\<lambda>t. proof_bytes t = [9]) (\<lambda>r. r = replicate 32 5) sample_fees
    (candidate_a zero_hash) (Some zero_hash) sample_annulet_tx"
proof -
  obtain d rs ps where d: "placeholder_discovery_annulet [replicate 32 2, replicate 32 3] = Some d"
      "decode_committed_discovery_with_width d l2_payload_len = Ok (rs, ps)" "contents_commitments rs = [replicate 32 2, replicate 32 3]"
      "set ps \<subseteq> {replicate l2_payload_len 0xA5}"
    using placeholder_decodes [of "[replicate 32 2, replicate 32 3]"] by (auto simp: is_hash32_def)
  have t: "sample_annulet_tx = sample_l2_tx\<lparr>discovery := d\<rparr>" by (simp add: sample_annulet_tx_def d(1))
  have disc: "discovery_annulet_ok sample_annulet_tx"
    unfolding discovery_annulet_ok_def using d(2-4) placeholder_payload_sealed by (fastforce simp: t sample_fields)
  have "check_auth (\<lambda>_ _ sig. sig = sample_signature) sample_annulet_tx (candidate_a zero_hash) 10 = Some (Ok (Some 20))"
    unfolding t by (rule sample_authorised [OF d(2)])
  then show ?thesis
    unfolding annulet_tx_rules_def using disc sample_surface_decodes
    by (auto simp: sample_annulet_fields sample_fields rider_absent_def l2_arity_ok_def sample_fees_def posted_fee_l2_def)
      (auto simp: sample_surface_def exits_native_def surface_terms_def)
qed

lemma sample_write: "tx_write sample_annulet_tx = Some (zero_hash, \<lparr>rw_new_root = zero_hash, rw_leaf_lanes = replicate 15 0\<rparr>)"
  using sample_surface_decodes by (simp add: tx_write_def sample_annulet_fields) (simp add: sample_surface_def)

lemma sample_annulet_accepted:
  "validate_body_annulet_for (\<lambda>_ _ sig. sig = sample_signature) sample_annulet_header sample_annulet_body (\<lambda>t. proof_bytes t = [9])
    (\<lambda>r. r = replicate 32 5) sample_fees (candidate_a zero_hash) = Some (Ok ())"
proof -
  have b: "txs sample_annulet_body = [sample_annulet_tx]" "coinbase_payees sample_annulet_body = []"
    by (simp_all add: sample_annulet_body_def body_new_def)
  have h: "height sample_annulet_header = 10" "header_registry_root sample_annulet_header = Some zero_hash"
    "tx_body_commitment sample_annulet_header = the (body_commitment_annulet_for sample_annulet_body CandidateA)"
    by (simp_all add: sample_annulet_header_def header_registry_root_def)
  have w: "write_rule sample_annulet_header (txs sample_annulet_body) (Some zero_hash)"
    by (simp add: write_rule_def b h tx_writes_simps sample_write)
  have c: "ac_form (candidate_a zero_hash) = CandidateA" by (simp add: candidate_a_def)
  have "check_tx_entry_counts sample_annulet_body = Ok ()"
    unfolding counts_Ok by (simp add: b sample_annulet_fields sample_fields)
  then have "body_commitment_annulet_for sample_annulet_body CandidateA \<noteq> None" by (rule commitment_annulet_total)
  then have "body_commitment_annulet_for sample_annulet_body CandidateA = Some (tx_body_commitment sample_annulet_header)"
    by (simp add: h(3))
  moreover have "list_all (annulet_tx_rules (\<lambda>_ _ sig. sig = sample_signature) (height sample_annulet_header) (\<lambda>t. proof_bytes t = [9])
      (\<lambda>r. r = replicate 32 5) sample_fees (candidate_a zero_hash) (Some zero_hash)) (txs sample_annulet_body)"
    using sample_annulet_rules by (simp add: b h)
  moreover have "distinct (concat (map (\<lambda>t. tx_nullifiers (public t)) (txs sample_annulet_body)))"
    by (simp add: b sample_annulet_fields sample_fields)
  ultimately show ?thesis unfolding annulet_accepted c using b(2) w by blast
qed

definition payout_surface :: l2_surface where
  "payout_surface = \<lparr>sf_shape = TagP, sf_registry_root = zero_hash,
    sf_vpublic = Some [\<lparr>vt_redeem = False, vt_amount = 70, vt_asset = 3\<rparr>, \<lparr>vt_redeem = True, vt_amount = 20, vt_asset = 3\<rparr>],
    sf_write = None, sf_exit_rkm = zero_hash\<rparr>"

lemma annulet_supply_exact_witness:
  "map_of (annulet_supply_delta \<lparr>txs = [sample_annulet_tx\<lparr>l2 := the (surface_encode payout_surface)\<rparr>, sample_annulet_tx],
     coinbase_payees = [], finality_section = [], bundle_section = []\<rparr>) 3 = Some 50"
proof -
  have "list_all2 spells [sample_annulet_tx\<lparr>l2 := the (surface_encode payout_surface)\<rparr>, sample_annulet_tx] [Some payout_surface, Some sample_surface]"
    by (simp add: spells_def payout_surface_def sample_annulet_tx_def sample_l2_tx_def sample_surface_def wf_surface_def
        canonical_term_def surface_encode_def is_hash32_def zero_hash_def)
  then show ?thesis
    using annulet_supply_exact [of "\<lparr>txs = [sample_annulet_tx\<lparr>l2 := the (surface_encode payout_surface)\<rparr>, sample_annulet_tx],
      coinbase_payees = [], finality_section = [], bundle_section = []\<rparr>" "[Some payout_surface, Some sample_surface]" 3]
    by (simp add: flow_of_def payout_surface_def sample_surface_def)
qed

lemma native_never_redeemed_witness: "0 \<le> tally_of (annulet_supply_delta sample_annulet_body) 0"
  using native_never_redeemed [OF sample_annulet_accepted] .

lemma sample_annulet_wf: "wf_l2_tx sample_annulet_tx"
proof -
  obtain d rs ps where d: "placeholder_discovery_annulet [replicate 32 2, replicate 32 3] = Some d"
    using placeholder_decodes [of "[replicate 32 2, replicate 32 3]"] by (auto simp: is_hash32_def)
  then have "length d < 2 ^ 64"
    by (auto simp: placeholder_discovery_annulet_def encode_committed_discovery_with_width_def write_group_contents_def
        contents_entry_count_def write_bundle_def write_entry_def ct_len_def l2_payload_len_def split: if_splits)
  moreover have "length (l2 sample_l2_tx) < 2 ^ 64"
    using sample_surface_decodes
    by (auto simp: surface_decode_def surface_want_def surface_lens rbind_eq_Ok split: list.splits if_splits option.splits l2_shape_tag.splits)
  moreover have "length (auth sample_l2_tx) < 2 ^ 64"
    using sample_auth_section_decodes(1)
    by (auto simp: section_decode_def Let_def section_encoded_len_def width_defs shape_slots_def split: if_splits)
  ultimately show ?thesis
    using sample_annulet_fields
    by (simp add: wf_l2_tx_def wf_tx_def sample_annulet_fields sample_fields is_hash32_def) (simp add: sample_annulet_tx_def d)
qed

lemma annulet_header_binds_witness:
  "txs sample_annulet_body = txs sample_annulet_body \<and> coinbase_payees sample_annulet_body = coinbase_payees sample_annulet_body
    \<or> (\<exists>x y. annulet_preimage (ac_form (candidate_a zero_hash)) sample_annulet_body = Some x \<and> annulet_preimage (ac_form (candidate_a zero_hash)) sample_annulet_body = Some y \<and> x \<noteq> y
      \<and> keccak256 x = keccak256 y)"
  by (rule annulet_header_binds [OF sample_annulet_accepted sample_annulet_accepted])
    (simp add: sample_annulet_body_def body_new_def sample_annulet_wf)

lemma annulet_body_accepted_iff_witness:
  "coinbase_payees sample_annulet_body = []
    \<and> body_commitment_annulet_for sample_annulet_body CandidateA = Some (tx_body_commitment sample_annulet_header)
    \<and> (\<exists>pre_root. write_rule sample_annulet_header (txs sample_annulet_body) pre_root)"
  using annulet_body_accepted_iff [THEN iffD1, OF sample_annulet_accepted] by (simp add: candidate_a_def) blast

end
