(* ===== verification/Coinbase.thy ===== *)
theory Coinbase
  imports Body_Validation
begin

text \<open>
  Coinbase notes (\<open>qlab-node/src/coinbase.rs\<close>), the reward split and the dispatch over the emission curves
  (\<open>qlab-node/src/emission.rs\<close>), and the note itself (\<open>qlab-note/src/note.rs\<close>, \<open>hash.rs\<close>). The curve below the
  rule boundary is floating-point arithmetic and is the parameter \<open>pre\<close>. Arrays of four lanes are lists.
\<close>

section \<open>Notes and digests\<close>

definition note_plaintext_len :: nat where "note_plaintext_len = 8 + 32 + 32 + 32"

record note_t =
  nt_value :: u64
  nt_rkm :: "u64 list"
  nt_rho :: "u64 list"
  nt_rseed :: "u64 list"

definition note_commitment :: "u64 \<Rightarrow> u64 list \<Rightarrow> u64 list \<Rightarrow> u64 list \<Rightarrow> u64 list" where
  "note_commitment v key rho rseed =
    take 4 (keccak_f ([v] @ key @ rho @ rseed @ [1, 0, 0, push_bit 63 1] @ replicate 8 0))"

definition commitment :: "note_t \<Rightarrow> u64 list" where
  "commitment n = note_commitment (nt_value n) (nt_rkm n) (nt_rho n) (nt_rseed n)"

definition to_plaintext :: "note_t \<Rightarrow> bytes" where
  "to_plaintext n = u64_le (nt_value n) @ concat (map u64_le (nt_rkm n)) @ concat (map u64_le (nt_rho n)) @ concat (map u64_le (nt_rseed n))"

definition read_lanes :: "nat \<Rightarrow> bytes \<Rightarrow> u64 list" where
  "read_lanes off b = map (\<lambda>i. u64_from_le (slice_at (off + 8 * i) 8 b)) [0..<4]"

definition from_plaintext :: "bytes \<Rightarrow> note_t option" where
  "from_plaintext b =
    (if length b \<noteq> note_plaintext_len then None
     else Some \<lparr>nt_value = u64_from_le (slice_at 0 8 b), nt_rkm = read_lanes 8 b, nt_rho = read_lanes 40 b, nt_rseed = read_lanes 72 b\<rparr>)"

definition digest_bytes :: "u64 list \<Rightarrow> hash32" where
  "digest_bytes d = concat (map u64_le d)"

definition digest_from_bytes :: "hash32 \<Rightarrow> u64 list" where
  "digest_from_bytes b = read_lanes 0 b"

section \<open>The reward\<close>

definition bessel_per_qmb :: u64 where "bessel_per_qmb = 100000000"
definition coinbase_maturity_blocks :: u64 where "coinbase_maturity_blocks = 144"
definition split_miner_pct :: u64 where "split_miner_pct = 65"
definition split_committee_pct :: u64 where "split_committee_pct = 15"
definition split_treasury_pct :: u64 where "split_treasury_pct = 20"

definition coinbase_pre_boundary :: "(u64 \<Rightarrow> u64) \<Rightarrow> u64 \<Rightarrow> u64" where
  "coinbase_pre_boundary pre h = sat_sub (pre (h + 1)) (pre h)"

definition pinned_s_atomic_at_boundary :: "u64 option" where "pinned_s_atomic_at_boundary = Some 43051624039164"
definition pinned_committee_accrual_at_boundary :: "u64 option" where "pinned_committee_accrual_at_boundary = Some 6457743601807"

definition s_atomic_at_boundary :: "(u64 \<Rightarrow> u64) \<Rightarrow> u64" where
  "s_atomic_at_boundary pre =
    (case pinned_s_atomic_at_boundary of Some pinned \<Rightarrow> pinned | None \<Rightarrow> pre (rule_boundary_height + 1))"

definition s_atomic :: "(u64 \<Rightarrow> u64) \<Rightarrow> u64 \<Rightarrow> u64 option" where
  "s_atomic pre h =
    (if h \<le> rule_boundary_height + 1 then Some (pre h)
     else (case (s_atomic_exact h, s_atomic_exact (rule_boundary_height + 1)) of
             (Some a, Some b) \<Rightarrow> Some (s_atomic_at_boundary pre + (a - b))
           | _ \<Rightarrow> None))"

definition coinbase :: "(u64 \<Rightarrow> u64) \<Rightarrow> u64 \<Rightarrow> u64 option" where
  "coinbase pre h = (if h > rule_boundary_height then coinbase_exact h else Some (coinbase_pre_boundary pre h))"

definition coinbase_for :: "(u64 \<Rightarrow> u64) \<Rightarrow> genesis_form \<Rightarrow> u64 \<Rightarrow> u64 option" where
  "coinbase_for pre form h = (case form of V4 \<Rightarrow> coinbase pre h | V5 \<Rightarrow> coinbase_exact h | Annulet \<Rightarrow> Some 0)"

record reward_split =
  rs_miner :: u64
  rs_committee :: u64
  rs_treasury :: u64

definition reward_split_of :: "u64 \<Rightarrow> reward_split" where
  "reward_split_of cb =
    (let committee = u64_of (u128_of cb * u128_of split_committee_pct div 100);
         treasury = u64_of (u128_of cb * u128_of split_treasury_pct div 100)
     in \<lparr>rs_miner = cb - committee - treasury, rs_committee = committee, rs_treasury = treasury\<rparr>)"

definition reward_total :: "reward_split \<Rightarrow> u64" where
  "reward_total r = rs_miner r + rs_committee r + rs_treasury r"

section \<open>The coinbase note\<close>

definition coinbase_rho_domain :: bytes where "coinbase_rho_domain = ascii ''qumbra:coinbase-note-rho:v1''"
definition coinbase_rseed_domain :: bytes where "coinbase_rseed_domain = ascii ''qumbra:coinbase-note-rseed:v1''"
definition coinbase_rho_domain_v5 :: bytes where "coinbase_rho_domain_v5 = ascii ''qumbra:coinbase-note-rho:v2''"
definition coinbase_rseed_domain_v5 :: bytes where "coinbase_rseed_domain_v5 = ascii ''qumbra:coinbase-note-rseed:v2''"
definition exit_rho_domain :: bytes where "exit_rho_domain = ascii ''qumbra:exit-note-rho:v1''"
definition exit_rseed_domain :: bytes where "exit_rseed_domain = ascii ''qumbra:exit-note-rseed:v1''"

definition derive_lanes :: "bytes \<Rightarrow> u64 \<Rightarrow> u64 list \<Rightarrow> u64 list" where
  "derive_lanes dom_tag h key = digest_from_bytes (keccak256 (dom_tag @ u64_le h @ concat (map u64_le key)))"

definition coinbase_rho :: "u64 \<Rightarrow> u64 list \<Rightarrow> u64 list" where
  "coinbase_rho h key = derive_lanes coinbase_rho_domain h key"

definition coinbase_rseed :: "u64 \<Rightarrow> u64 list \<Rightarrow> u64 list" where
  "coinbase_rseed h key = derive_lanes coinbase_rseed_domain h key"

definition derive_lanes_v5 :: "bytes \<Rightarrow> u64 \<Rightarrow> u8 \<Rightarrow> u64 list \<Rightarrow> u64 list" where
  "derive_lanes_v5 dom_tag h payee_index key =
    digest_from_bytes (keccak256 (dom_tag @ u64_le h @ [payee_index] @ concat (map u64_le key)))"

definition coinbase_rho_v5 :: "u64 \<Rightarrow> u8 \<Rightarrow> u64 list \<Rightarrow> u64 list" where
  "coinbase_rho_v5 h i key = derive_lanes_v5 coinbase_rho_domain_v5 h i key"

definition coinbase_rseed_v5 :: "u64 \<Rightarrow> u8 \<Rightarrow> u64 list \<Rightarrow> u64 list" where
  "coinbase_rseed_v5 h i key = derive_lanes_v5 coinbase_rseed_domain_v5 h i key"

definition exit_note :: "u64 \<Rightarrow> u8 \<Rightarrow> u64 list \<Rightarrow> u64 \<Rightarrow> note_t" where
  "exit_note h index key v =
    \<lparr>nt_value = v, nt_rkm = key, nt_rho = derive_lanes_v5 exit_rho_domain h index key,
     nt_rseed = derive_lanes_v5 exit_rseed_domain h index key\<rparr>"

definition exit_note_leaf :: "u64 \<Rightarrow> u8 \<Rightarrow> u64 list \<Rightarrow> u64 \<Rightarrow> hash32" where
  "exit_note_leaf h index key v = digest_bytes (commitment (exit_note h index key v))"

definition coinbase_note_value_parts :: "u64 \<Rightarrow> u64 \<Rightarrow> u64 \<Rightarrow> u64" where
  "coinbase_note_value_parts cb fees burn = sat_sub (sat_add (rs_miner (reward_split_of cb)) fees) burn"

definition coinbase_note_value :: "block_body \<Rightarrow> u64" where
  "coinbase_note_value b = coinbase_note_value_parts (coinbase_total b) (total_fees b) (total_name_burn b)"

definition coinbase_note_parts :: "u64 \<Rightarrow> u64 list \<Rightarrow> u64 \<Rightarrow> u64 \<Rightarrow> u64 \<Rightarrow> note_t option" where
  "coinbase_note_parts h key cb fees burn =
    (if cb = 0 \<or> key = [0, 0, 0, 0] then None
     else Some \<lparr>nt_value = coinbase_note_value_parts cb fees burn, nt_rkm = key, nt_rho = coinbase_rho h key, nt_rseed = coinbase_rseed h key\<rparr>)"

definition coinbase_note_parts_v5 :: "u64 \<Rightarrow> u8 \<Rightarrow> u64 list \<Rightarrow> u64 \<Rightarrow> u64 \<Rightarrow> u64 \<Rightarrow> note_t option" where
  "coinbase_note_parts_v5 h i key cb fees burn =
    (if cb = 0 \<or> key = [0, 0, 0, 0] then None
     else Some \<lparr>nt_value = coinbase_note_value_parts cb fees burn, nt_rkm = key, nt_rho = coinbase_rho_v5 h i key,
       nt_rseed = coinbase_rseed_v5 h i key\<rparr>)"

definition coinbase_note :: "u64 \<Rightarrow> block_body \<Rightarrow> note_t option" where
  "coinbase_note h b =
    Option.bind (single_payee_parts b) (\<lambda>(amt, key). coinbase_note_parts h key amt (total_fees b) (total_name_burn b))"

definition coinbase_note_leaf :: "u64 \<Rightarrow> block_body \<Rightarrow> hash32 option" where
  "coinbase_note_leaf h b = map_option (\<lambda>n. digest_bytes (commitment n)) (coinbase_note h b)"

definition v5_single_payee_index :: u8 where "v5_single_payee_index = 0"

definition coinbase_note_parts_for :: "genesis_form \<Rightarrow> u64 \<Rightarrow> u64 list \<Rightarrow> u64 \<Rightarrow> u64 \<Rightarrow> u64 \<Rightarrow> note_t option" where
  "coinbase_note_parts_for form h key cb fees burn =
    (case form of
       V4 \<Rightarrow> coinbase_note_parts h key cb fees burn
     | V5 \<Rightarrow> coinbase_note_parts_v5 h v5_single_payee_index key cb fees burn
     | Annulet \<Rightarrow> None)"

definition coinbase_note_for :: "genesis_form \<Rightarrow> u64 \<Rightarrow> block_body \<Rightarrow> note_t option" where
  "coinbase_note_for form h b =
    Option.bind (single_payee_parts b) (\<lambda>(amt, key). coinbase_note_parts_for form h key amt (total_fees b) (total_name_burn b))"

definition coinbase_note_leaf_for :: "genesis_form \<Rightarrow> u64 \<Rightarrow> block_body \<Rightarrow> hash32 option" where
  "coinbase_note_leaf_for form h b = map_option (\<lambda>n. digest_bytes (commitment n)) (coinbase_note_for form h b)"

section \<open>Maturity\<close>

definition matures_coinbase_minted_at :: "u64 \<Rightarrow> u64 option" where
  "matures_coinbase_minted_at h = (if h < coinbase_maturity_blocks then None else Some (h - coinbase_maturity_blocks))"

definition coinbase_leaf_appears_at :: "u64 \<Rightarrow> u64" where
  "coinbase_leaf_appears_at minted = minted + coinbase_maturity_blocks"

definition matured_coinbase_leaf_for :: "genesis_form \<Rightarrow> u64 \<Rightarrow> (u64 \<Rightarrow> block_body option) \<Rightarrow> hash32 option" where
  "matured_coinbase_leaf_for form h ancestor_body =
    Option.bind (matures_coinbase_minted_at h) (\<lambda>minted_at.
    Option.bind (ancestor_body minted_at) (\<lambda>b. coinbase_note_leaf_for form minted_at b))"

definition matured_coinbase_leaf :: "u64 \<Rightarrow> (u64 \<Rightarrow> block_body option) \<Rightarrow> hash32 option" where
  "matured_coinbase_leaf h ancestor_body = matured_coinbase_leaf_for V4 h ancestor_body"

datatype coinbase_maturity_t = Matured u64 | Immature u64 u64

definition coinbase_maturity :: "u64 \<Rightarrow> u64 \<Rightarrow> coinbase_maturity_t" where
  "coinbase_maturity minted tip =
    (let leaf_at = coinbase_leaf_appears_at minted
     in if leaf_at \<le> tip then Matured leaf_at else Immature leaf_at (leaf_at - tip))"

section \<open>Lanes and plaintexts\<close>

lemma length_concat_lanes: "length (concat (map u64_le ls)) = 8 * length ls"
  by (induction ls) simp_all

lemma lanes_inject: "length xs = length ys \<Longrightarrow> concat (map u64_le xs) @ r = concat (map u64_le ys) @ s \<longleftrightarrow> xs = ys \<and> r = s"
  by (induction xs ys rule: list_induct2) (auto simp: u64_le_cancel)

lemma slice_append_left: "off + n \<le> length xs \<Longrightarrow> slice_at off n (xs @ ys) = slice_at off n xs"
  by (simp add: slice_at_def)

lemma read_lanes_at:
  assumes "length ls = 4"
  shows "read_lanes (length pre) (pre @ concat (map u64_le ls) @ rest) = ls"
proof (rule nth_equalityI)
  fix i assume "i < length (read_lanes (length pre) (pre @ concat (map u64_le ls) @ rest))"
  then have i: "i < 4" by (simp add: read_lanes_def)
  have "slice_at (length pre + 8 * i) 8 (pre @ concat (map u64_le ls) @ rest) = slice_at (i * 8) 8 (concat (map u64_le ls) @ rest)"
    by (simp add: slice_at_append mult.commute)
  also have "\<dots> = slice_at (i * 8) 8 (concat (map u64_le ls))"
    using i assms by (intro slice_append_left) (simp add: length_concat_lanes)
  also have "\<dots> = map (\<lambda>i. slice_at (i * 8) 8 (concat (map u64_le ls))) [0..<4] ! i" using i by simp
  also have "\<dots> = u64_le (ls ! i)" using blocks_concat [of "map u64_le ls" 8 0] assms i by simp
  finally show "read_lanes (length pre) (pre @ concat (map u64_le ls) @ rest) ! i = ls ! i" using i by (simp add: read_lanes_def)
qed (simp add: assms read_lanes_def)

lemma lanes_read_back:
  assumes "off + 32 \<le> length b"
  shows "concat (map u64_le (read_lanes off b)) = slice_at off 32 b"
proof -
  have "u64_le (u64_from_le (slice_at (off + 8 * i) 8 b)) = slice_at (i * 8) 8 (slice_at off 32 b)" if "i < 4" for i
  proof -
    have "8 \<le> 32 - i * 8" using that by simp
    then have "slice_at (i * 8) 8 (slice_at off 32 b) = slice_at (off + 8 * i) 8 b"
      by (simp add: slice_at_def drop_take mult.commute add.commute min_def)
    moreover have "length (slice_at (off + 8 * i) 8 b) = 8" using that assms by simp
    ultimately show ?thesis by (simp only: u64_le_u64_from_le)
  qed
  then have "map u64_le (read_lanes off b) = map (\<lambda>i. slice_at (i * 8) 8 (slice_at off 32 b)) [0..<4]"
    unfolding read_lanes_def by (intro nth_equalityI) simp_all
  moreover have "length (slice_at off 32 b) = 4 * 8" using assms by simp
  from concat_blocks [OF this] have "concat (map (\<lambda>i. slice_at (i * 8) 8 (slice_at off 32 b)) [0..<4]) = slice_at off 32 b" .
  ultimately show ?thesis by (simp only:)
qed

definition wf_note :: "note_t \<Rightarrow> bool" where
  "wf_note n \<longleftrightarrow> length (nt_rkm n) = 4 \<and> length (nt_rho n) = 4 \<and> length (nt_rseed n) = 4"

lemma length_read_lanes [simp]: "length (read_lanes off b) = 4"
  by (simp add: read_lanes_def)

lemma length_digest_bytes: "length d = 4 \<Longrightarrow> length (digest_bytes d) = 32"
  by (simp add: digest_bytes_def length_concat_lanes)

lemma digest_bytes_from: "is_hash32 x \<Longrightarrow> digest_bytes (digest_from_bytes x) = x"
  using lanes_read_back [of 0 x] by (simp add: digest_from_bytes_def digest_bytes_def is_hash32_def slice_at_def)

lemma digest_from_bytes_inj: "is_hash32 x \<Longrightarrow> is_hash32 y \<Longrightarrow> digest_from_bytes x = digest_from_bytes y \<Longrightarrow> x = y"
  by (metis digest_bytes_from)

lemma derive_lanes_inj:
  assumes "digest_from_bytes (keccak256 p) = digest_from_bytes (keccak256 q)"
  shows "keccak256 p = keccak256 q"
  by (rule digest_from_bytes_inj [OF is_hash32_keccak256 is_hash32_keccak256 assms])

section \<open>The split and the maturity rule\<close>

lemma unat_pct:
  assumes "unat p \<le> 100"
  shows "unat (u64_of (u128_of cb * u128_of p div 100)) = unat cb * unat p div 100"
proof -
  have b: "unat cb < 2 ^ 64" using unat_lt_exp [of cb] by simp
  then have "unat cb * unat p < 2 ^ 128" using mult_le_mono [OF less_imp_le [OF b] assms] by simp
  then have m: "unat (u128_of cb * u128_of p) = unat cb * unat p"
    by (subst unat_mult_small) (simp_all add: unat_u128_of)
  have "unat cb * unat p div 100 \<le> unat cb" using div_le_mono [OF mult_le_mono2 [OF assms, of "unat cb"], of 100] by simp
  then show ?thesis using b m by (subst unat_u64_of_small) (simp_all add: unat_div)
qed

lemma reward_split_nat:
  "unat (rs_committee (reward_split_of cb)) = unat cb * 15 div 100"
  "unat (rs_treasury (reward_split_of cb)) = unat cb * 20 div 100"
  "unat (rs_miner (reward_split_of cb)) = unat cb - unat cb * 15 div 100 - unat cb * 20 div 100"
proof -
  have c: "unat (u64_of (u128_of cb * u128_of split_committee_pct div 100)) = unat cb * 15 div 100"
    and t: "unat (u64_of (u128_of cb * u128_of split_treasury_pct div 100)) = unat cb * 20 div 100"
    by (simp_all add: unat_pct split_committee_pct_def split_treasury_pct_def)
  then show "unat (rs_committee (reward_split_of cb)) = unat cb * 15 div 100"
    and "unat (rs_treasury (reward_split_of cb)) = unat cb * 20 div 100"
    by (simp_all add: reward_split_of_def Let_def)
  have le: "unat cb * 15 div 100 + unat cb * 20 div 100 \<le> unat cb" by linarith
  show "unat (rs_miner (reward_split_of cb)) = unat cb - unat cb * 15 div 100 - unat cb * 20 div 100"
    using c t le by (simp add: reward_split_of_def Let_def unat_sub_le word_le_nat_alt)
qed

text \<open>Where a coinbase or exit note's nullifier seed comes from.\<close>

datatype note_origin = CoinbaseV4 u64 "u64 list" | CoinbaseV5 u64 u8 "u64 list" | ExitPaid u64 u8 "u64 list"

definition origin_rho :: "note_origin \<Rightarrow> u64 list" where
  "origin_rho x = (case x of CoinbaseV4 h key \<Rightarrow> coinbase_rho h key | CoinbaseV5 h i key \<Rightarrow> coinbase_rho_v5 h i key
     | ExitPaid h i key \<Rightarrow> derive_lanes_v5 exit_rho_domain h i key)"

definition origin_key :: "note_origin \<Rightarrow> u64 list" where
  "origin_key x = (case x of CoinbaseV4 h key \<Rightarrow> key | CoinbaseV5 h i key \<Rightarrow> key | ExitPaid h i key \<Rightarrow> key)"

definition origin_preimage :: "note_origin \<Rightarrow> bytes" where
  "origin_preimage x = (case x of
      CoinbaseV4 h key \<Rightarrow> coinbase_rho_domain @ u64_le h @ concat (map u64_le key)
    | CoinbaseV5 h i key \<Rightarrow> coinbase_rho_domain_v5 @ u64_le h @ [i] @ concat (map u64_le key)
    | ExitPaid h i key \<Rightarrow> exit_rho_domain @ u64_le h @ [i] @ concat (map u64_le key))"

lemma origin_rho_preimage: "origin_rho x = digest_from_bytes (keccak256 (origin_preimage x))"
  by (simp add: origin_rho_def origin_preimage_def coinbase_rho_def coinbase_rho_v5_def derive_lanes_def derive_lanes_v5_def
      split: note_origin.splits)

lemma rho_domains:
  "length coinbase_rho_domain = 27" "length coinbase_rho_domain_v5 = 27" "length exit_rho_domain = 23"
  "coinbase_rho_domain \<noteq> coinbase_rho_domain_v5" "take 23 coinbase_rho_domain_v5 \<noteq> exit_rho_domain"
  "take 23 coinbase_rho_domain \<noteq> exit_rho_domain"
  by (simp_all add: coinbase_rho_domain_def coinbase_rho_domain_v5_def exit_rho_domain_def ascii_def)

lemma origin_preimage_inj:
  assumes "length (origin_key x) = 4" and "length (origin_key y) = 4" and "origin_preimage x = origin_preimage y"
  shows "x = y"
proof -
  let ?tag = "\<lambda>z. case z of CoinbaseV4 _ _ \<Rightarrow> coinbase_rho_domain | CoinbaseV5 _ _ _ \<Rightarrow> coinbase_rho_domain_v5
      | ExitPaid h _ _ \<Rightarrow> exit_rho_domain @ take 4 (u64_le h)"
  have "take 27 (origin_preimage z) = ?tag z" for z
    by (simp add: origin_preimage_def rho_domains split: note_origin.splits)
  then have tag: "?tag x = ?tag y" using assms(3) by metis
  have head: "d = exit_rho_domain @ r \<Longrightarrow> take 23 d = exit_rho_domain" for d r by (simp add: rho_domains(3))
  have exit: "coinbase_rho_domain \<noteq> exit_rho_domain @ r" "coinbase_rho_domain_v5 \<noteq> exit_rho_domain @ r" for r
    using head rho_domains(5,6) by blast+
  note lanes = lanes_inject [of "origin_key x" "origin_key y" "[]" "[]"]
  show ?thesis
    using assms tag rho_domains(4) exit exit [symmetric] lanes
    by (cases x; cases y) (auto simp: origin_preimage_def origin_key_def u64_le_cancel)
qed

section \<open>Properties\<close>

text \<open>a block reward is split without loss: the committee and the treasury get their percentages rounded down and the
  miner the rest, which is at least 65 percent; nothing wraps.\<close>

theorem reward_split_exact:
  "unat (rs_committee (reward_split_of cb)) = unat cb * 15 div 100 \<and> unat (rs_treasury (reward_split_of cb)) = unat cb * 20 div 100
    \<and> unat (rs_miner (reward_split_of cb)) + unat cb * 15 div 100 + unat cb * 20 div 100 = unat cb
    \<and> 65 * unat cb \<le> 100 * unat (rs_miner (reward_split_of cb)) \<and> reward_total (reward_split_of cb) = cb"
proof -
  have le: "unat cb * 15 div 100 + unat cb * 20 div 100 \<le> unat cb" by linarith
  have s: "unat (rs_miner (reward_split_of cb)) + unat cb * 15 div 100 + unat cb * 20 div 100 = unat cb"
    using le by (simp add: reward_split_nat)
  have "reward_total (reward_split_of cb) = word_of_nat (unat (rs_miner (reward_split_of cb)) + unat (rs_committee (reward_split_of cb))
      + unat (rs_treasury (reward_split_of cb)))"
    by (simp add: reward_total_def)
  also have "\<dots> = word_of_nat (unat cb)" using s by (simp only: reward_split_nat(1,2))
  finally have "reward_total (reward_split_of cb) = cb" by simp
  moreover have "65 * unat cb \<le> 100 * unat (rs_miner (reward_split_of cb))" using s by linarith
  ultimately show ?thesis using s by (simp add: reward_split_nat(1,2))
qed

text \<open>no two coinbase or exit notes share a nullifier seed: equal seeds of two notes, of any form, height, index and
  payee key, mean the notes have the same origin, or the two derivation preimages differ and are a Keccak
  collision.\<close>

theorem note_seeds_unique:
  assumes "length (origin_key x) = 4" and "length (origin_key y) = 4" and "origin_rho x = origin_rho y"
  shows "x = y \<or> origin_preimage x \<noteq> origin_preimage y \<and> keccak256 (origin_preimage x) = keccak256 (origin_preimage y)"
proof (cases "origin_preimage x = origin_preimage y")
  case True
  then show ?thesis by (intro disjI1 origin_preimage_inj [OF assms(1,2)])
next
  case False
  then show ?thesis by (intro disjI2 conjI derive_lanes_inj [OF assms(3) [unfolded origin_rho_preimage]])
qed

text \<open>the note's byte form: exactly the encodings of notes of four-lane fields decode, and to their note.\<close>

theorem note_plaintext_roundtrip:
  "from_plaintext b = Some n \<longleftrightarrow> wf_note n \<and> b = to_plaintext n"
proof
  assume "from_plaintext b = Some n"
  then have l: "length b = 104" and n: "n = \<lparr>nt_value = u64_from_le (slice_at 0 8 b), nt_rkm = read_lanes 8 b, nt_rho = read_lanes 40 b,
      nt_rseed = read_lanes 72 b\<rparr>"
    by (auto simp: from_plaintext_def note_plaintext_len_def split: if_splits)
  have "to_plaintext n = slice_at 0 8 b @ slice_at 8 32 b @ slice_at 40 32 b @ slice_at 72 32 b"
    using l by (simp add: n to_plaintext_def lanes_read_back u64_le_u64_from_le)
  also have "\<dots> = b"
    using l take_add [of 8 32 b] take_add [of 40 32 b] take_add [of 72 32 b] by (simp add: slice_at_def)
  finally show "wf_note n \<and> b = to_plaintext n" by (simp add: n wf_note_def)
next
  assume a: "wf_note n \<and> b = to_plaintext n"
  define r1 r2 r3 where "r1 = concat (map u64_le (nt_rkm n))" and "r2 = concat (map u64_le (nt_rho n))" and "r3 = concat (map u64_le (nt_rseed n))"
  have l: "length r1 = 32" "length r2 = 32" "length r3 = 32" using a by (simp_all add: wf_note_def length_concat_lanes r1_def r2_def r3_def)
  have b: "b = u64_le (nt_value n) @ r1 @ r2 @ r3" using a by (simp add: to_plaintext_def r1_def r2_def r3_def)
  have "read_lanes 8 b = nt_rkm n" "read_lanes 40 b = nt_rho n" "read_lanes 72 b = nt_rseed n"
    using read_lanes_at [of "nt_rkm n" "u64_le (nt_value n)" "r2 @ r3"] read_lanes_at [of "nt_rho n" "u64_le (nt_value n) @ r1" r3]
      read_lanes_at [of "nt_rseed n" "u64_le (nt_value n) @ r1 @ r2" "[]"] a l
    by (simp_all add: b wf_note_def r1_def r2_def r3_def)
  moreover have "slice_at 0 8 b = u64_le (nt_value n)" by (simp add: b slice_at_def)
  moreover have "length b = 104" using l by (simp add: b)
  ultimately show "from_plaintext b = Some n" by (simp add: from_plaintext_def note_plaintext_len_def)
qed

text \<open>a coinbase leaf is appended exactly once, 144 blocks after its block, and the maturity answer says so: for a
  note minted at a height, it reads matured exactly when some block up to the tip has appended the leaf.\<close>

theorem maturity_is_append:
  assumes "unat minted + 144 < 2 ^ 64"
  shows "(matures_coinbase_minted_at h = Some minted \<longleftrightarrow> h = coinbase_leaf_appears_at minted)
    \<and> coinbase_maturity minted tip =
      (if \<exists>h. h \<le> tip \<and> matures_coinbase_minted_at h = Some minted then Matured (minted + 144)
       else Immature (minted + 144) (minted + 144 - tip))"
proof -
  have c: "unat (minted + 144) = unat minted + 144" using assms by (subst unat_add_small) simp_all
  have m: "matures_coinbase_minted_at h = Some minted \<longleftrightarrow> h = coinbase_leaf_appears_at minted" for h
    using c by (auto simp: matures_coinbase_minted_at_def coinbase_leaf_appears_at_def coinbase_maturity_blocks_def word_less_nat_alt)
  show ?thesis
    unfolding m by (simp add: coinbase_maturity_def Let_def coinbase_leaf_appears_at_def coinbase_maturity_blocks_def)
qed

lemma maturity_is_append_witness:
  "matures_coinbase_minted_at 154 = Some 10 \<and> coinbase_maturity 10 100 = Immature 154 54 \<and> coinbase_maturity 10 154 = Matured 154"
  using maturity_is_append [of 10 154 100] maturity_is_append [of 10 154 154]
  by (auto simp: coinbase_leaf_appears_at_def coinbase_maturity_blocks_def coinbase_maturity_def)

lemma note_seeds_unique_witness:
  "CoinbaseV5 7 0 [1, 2, 3, 4] = CoinbaseV5 7 0 [1, 2, 3, 4]
    \<or> origin_preimage (CoinbaseV5 7 0 [1, 2, 3, 4]) \<noteq> origin_preimage (CoinbaseV5 7 0 [1, 2, 3, 4])
      \<and> keccak256 (origin_preimage (CoinbaseV5 7 0 [1, 2, 3, 4])) = keccak256 (origin_preimage (CoinbaseV5 7 0 [1, 2, 3, 4]))"
  by (rule note_seeds_unique) (simp_all add: origin_key_def)

end
