(* ===== verification/Commit_Tree.thy ===== *)
theory Commit_Tree
  imports Coinbase
begin

text \<open>
  The commitment tree (\<open>qlab-cbserver/src/tree.rs\<close>): the append-only Merkle tree of depth 32 whose root
  anchors every spend, its streaming frontier, the recursive roots it must agree with, authentication paths
  (\<open>MerkleWitness\<close> of \<open>qlab-air/src/narrow.rs\<close>) and the byte form of a frontier. A node hash is one
  Keccak permutation. Positions and counts are at most the number of leaves, so at most \<open>2 ^ 32\<close>; the
  \<open>u64\<close> arithmetic on them cannot wrap and is written over the naturals. A failed assertion is \<open>None\<close>.
\<close>

section \<open>The tree\<close>

type_synonym digest = "u64 list"

definition tree_depth :: nat where "tree_depth = 32"
definition empty_leaf :: digest where "empty_leaf = [0, 0, 0, 0]"

definition merkle_node_state :: "digest \<Rightarrow> digest \<Rightarrow> u64 list" where
  "merkle_node_state l r = keccak_f (l @ r @ [1] @ replicate 7 0 @ [push_bit 63 1] @ replicate 8 0)"

definition hash_node :: "digest \<Rightarrow> digest \<Rightarrow> digest" where
  "hash_node l r = take 4 (merkle_node_state l r)"

fun zero_at :: "nat \<Rightarrow> digest" where
  "zero_at 0 = empty_leaf"
| "zero_at (Suc i) = hash_node (zero_at i) (zero_at i)"

definition zeros :: "digest list" where
  "zeros = map zero_at [0..<tree_depth + 1]"

record commitment_tree =
  ct_leaves :: "digest list"
  ct_filled :: "digest list"
  ct_root :: digest

definition tree_new :: commitment_tree where
  "tree_new = \<lparr>ct_leaves = [], ct_filled = replicate (tree_depth + 1) [0, 0, 0, 0], ct_root = zeros ! tree_depth\<rparr>"

text \<open>The loop of \<open>append\<close>: climb while the low bit of the index is set.\<close>

function climb :: "digest list \<Rightarrow> digest \<Rightarrow> nat \<Rightarrow> nat \<Rightarrow> digest \<times> nat" where
  "climb filled node level idx =
    (if idx mod 2 = 1 then climb filled (hash_node (filled ! level) node) (level + 1) (idx div 2) else (node, level))"
  by pat_completeness auto
termination
  by (relation "measure (\<lambda>(filled, node, level, idx). idx)") (auto elim: oddE)

declare climb.simps [simp del]

definition fold_frontier :: "digest list \<Rightarrow> nat \<Rightarrow> nat \<Rightarrow> digest" where
  "fold_frontier filled n d =
    fold (\<lambda>i node. if n div 2 ^ i mod 2 = 1 then hash_node (filled ! i) node else hash_node node (zeros ! i))
      [0..<d] (zeros ! 0)"

definition fold_frontier_root :: "commitment_tree \<Rightarrow> digest" where
  "fold_frontier_root t =
    (let n = length (ct_leaves t)
     in if n = 2 ^ tree_depth then ct_filled t ! tree_depth else fold_frontier (ct_filled t) n tree_depth)"

definition tree_append :: "digest \<Rightarrow> commitment_tree \<Rightarrow> (u64 \<times> commitment_tree) option" where
  "tree_append c t =
    (let pos = length (ct_leaves t)
     in if pos < 2 ^ tree_depth
        then (let (node, level) = climb (ct_filled t) c 0 pos;
                  t' = t\<lparr>ct_filled := (ct_filled t)[level := node], ct_leaves := ct_leaves t @ [c]\<rparr>
              in Some (word_of_nat pos, t'\<lparr>ct_root := fold_frontier_root t'\<rparr>))
        else None)"

definition tree_append_bytes :: "hash32 \<Rightarrow> commitment_tree \<Rightarrow> (u64 \<times> commitment_tree) option" where
  "tree_append_bytes c t = tree_append (digest_from_bytes c) t"

definition tree_len :: "commitment_tree \<Rightarrow> nat" where
  "tree_len t = length (ct_leaves t)"

fun subtree_root :: "digest list \<Rightarrow> nat \<Rightarrow> nat \<Rightarrow> nat \<Rightarrow> digest" where
  "subtree_root leaves 0 offset count = (if offset \<ge> count then zeros ! 0 else leaves ! offset)"
| "subtree_root leaves (Suc level) offset count =
    (if offset * 2 ^ Suc level \<ge> count then zeros ! Suc level
     else hash_node (subtree_root leaves level (offset * 2) count) (subtree_root leaves level (offset * 2 + 1) count))"

definition root_at :: "commitment_tree \<Rightarrow> nat \<Rightarrow> digest" where
  "root_at t count = subtree_root (ct_leaves t) tree_depth 0 (min count (tree_len t))"

section \<open>Authentication paths\<close>

record merkle_witness =
  mw_siblings :: "digest list"
  mw_path_bits :: "bool list"

definition fold_root :: "merkle_witness \<Rightarrow> digest \<Rightarrow> digest" where
  "fold_root w leaf =
    fold (\<lambda>(sib, b) d. if b then take 4 (merkle_node_state sib d) else take 4 (merkle_node_state d sib))
      (zip (mw_siblings w) (mw_path_bits w)) leaf"

definition sibling_of :: "nat \<Rightarrow> nat" where
  "sibling_of n = (if n mod 2 = 1 then n - 1 else n + 1)"

definition auth_path :: "commitment_tree \<Rightarrow> nat \<Rightarrow> nat \<Rightarrow> merkle_witness option" where
  "auth_path t pos0 count =
    (let count = min count (tree_len t)
     in if pos0 < count
        then Some \<lparr>mw_siblings = map (\<lambda>i. subtree_root (ct_leaves t) i (sibling_of (pos0 div 2 ^ i)) count) [0..<tree_depth],
                   mw_path_bits = map (\<lambda>i. pos0 div 2 ^ i mod 2 = 1) [0..<tree_depth]\<rparr>
        else None)"

definition position_of :: "commitment_tree \<Rightarrow> digest \<Rightarrow> nat option" where
  "position_of t c = position (\<lambda>l. l = c) (ct_leaves t)"

section \<open>The frontier\<close>

record frontier =
  fr_n_leaves :: u64
  fr_leaf :: digest
  fr_ommers :: "digest list"

definition frontier_at :: "commitment_tree \<Rightarrow> nat \<Rightarrow> frontier" where
  "frontier_at t count =
    (let count = min count (tree_len t)
     in if count = 0 then \<lparr>fr_n_leaves = 0, fr_leaf = empty_leaf, fr_ommers = []\<rparr>
        else (let pos0 = count - 1
              in \<lparr>fr_n_leaves = word_of_nat count, fr_leaf = ct_leaves t ! pos0,
                  fr_ommers = concat (map (\<lambda>i. if pos0 div 2 ^ i mod 2 = 1
                    then [subtree_root (ct_leaves t) i (pos0 div 2 ^ i - 1) count] else []) [0..<tree_depth])\<rparr>))"

definition tree_frontier :: "commitment_tree \<Rightarrow> frontier" where
  "tree_frontier t = frontier_at t (tree_len t)"

text \<open>\<open>root\<close> and \<open>to_bytes\<close> walk the levels with an iterator over the ommers; a missing one reads as the empty leaf.\<close>

fun fold_ommers :: "nat \<Rightarrow> nat list \<Rightarrow> digest list \<Rightarrow> digest \<Rightarrow> digest" where
  "fold_ommers pos0 [] ommers node = node"
| "fold_ommers pos0 (i # is) ommers node =
    (if pos0 div 2 ^ i mod 2 = 1
     then fold_ommers pos0 is (tl ommers) (hash_node (case ommers of [] \<Rightarrow> empty_leaf | o1 # _ \<Rightarrow> o1) node)
     else fold_ommers pos0 is ommers (hash_node node (zeros ! i)))"

definition frontier_root :: "frontier \<Rightarrow> digest" where
  "frontier_root f =
    (if fr_n_leaves f = 0 then zeros ! tree_depth
     else fold_ommers (unat (fr_n_leaves f - 1)) [0..<tree_depth] (fr_ommers f) (fr_leaf f))"

definition wire_version :: u8 where "wire_version = 1"

fun write_ommers :: "nat \<Rightarrow> nat list \<Rightarrow> digest list \<Rightarrow> bytes" where
  "write_ommers pos0 [] ommers = []"
| "write_ommers pos0 (i # is) ommers =
    (if pos0 div 2 ^ i mod 2 = 1
     then 1 # digest_bytes (case ommers of [] \<Rightarrow> empty_leaf | o1 # _ \<Rightarrow> o1) @ write_ommers pos0 is (tl ommers)
     else 0 # write_ommers pos0 is ommers)"

definition frontier_to_bytes :: "frontier \<Rightarrow> bytes" where
  "frontier_to_bytes f =
    write_varint [wire_version, word_of_nat tree_depth] (fr_n_leaves f)
    @ (if fr_n_leaves f = 0 then []
       else digest_bytes (fr_leaf f) @ write_ommers (unat (fr_n_leaves f - 1)) [0..<tree_depth] (fr_ommers f))"

definition read32 :: "bytes \<Rightarrow> nat \<Rightarrow> codec_error + (digest \<times> nat)" where
  "read32 b pos =
    (if length b < pos + 32 then Err (codec_error.Truncated ''frontier node'')
     else Ok (digest_from_bytes (slice_at pos 32 b), pos + 32))"

fun read_ommers :: "bytes \<Rightarrow> nat \<Rightarrow> nat list \<Rightarrow> nat \<Rightarrow> codec_error + (digest list \<times> nat)" where
  "read_ommers b pos0 [] pos = Ok ([], pos)"
| "read_ommers b pos0 (i # is) pos =
    (if pos < length b
     then (let present = b ! pos
           in if (present = 1) \<noteq> (pos0 div 2 ^ i mod 2 = 1) then Err (codec_error.UnsupportedClue present)
              else if present = 1
              then rbind (read32 b (pos + 1)) (\<lambda>(o1, pos).
                     rbind (read_ommers b pos0 is pos) (\<lambda>(os, pos). Ok (o1 # os, pos)))
              else read_ommers b pos0 is (pos + 1))
     else Err (codec_error.Truncated ''frontier present flag''))"

definition frontier_from_bytes :: "bytes \<Rightarrow> codec_error + frontier" where
  "frontier_from_bytes b =
    (if b = [] then Err (codec_error.Truncated ''version'')
     else if b ! 0 \<noteq> wire_version then Err (codec_error.BadVersion (b ! 0))
     else if length b < 2 then Err (codec_error.Truncated ''depth'')
     else if unat (b ! 1) \<noteq> tree_depth then Err (codec_error.BadVersion (b ! 1))
     else rbind (read_varint b 2) (\<lambda>(n, pos).
       if n = 0 then (if pos \<noteq> length b then Err (codec_error.TrailingBytes (length b - pos))
                      else Ok \<lparr>fr_n_leaves = 0, fr_leaf = empty_leaf, fr_ommers = []\<rparr>)
       else rbind (read32 b pos) (\<lambda>(leaf, pos).
            rbind (read_ommers b (unat (n - 1)) [0..<tree_depth] pos) (\<lambda>(ommers, pos).
              if pos \<noteq> length b then Err (codec_error.TrailingBytes (length b - pos))
              else Ok \<lparr>fr_n_leaves = n, fr_leaf = leaf, fr_ommers = ommers\<rparr>))))"

section \<open>Node trees\<close>

text \<open>
  What the commitment tree and the asset registry share: the digests \<open>nd level offset\<close> of a binary tree of
  depth \<open>d\<close>. A path of siblings folds a leaf to the root, and equal roots mean equal leaves unless the node
  hash collides.
\<close>

lemma div_pow_Suc: "n div 2 ^ Suc i = n div 2 ^ i div (2::nat)"
  by (metis div_mult2_eq power_Suc2)

lemma half_cases: "n div 2 = k \<Longrightarrow> n = 2 * k \<or> n = 2 * k + (1::nat)"
  by presburger

lemma zeros_nth: "i \<le> tree_depth \<Longrightarrow> zeros ! i = zero_at i"
  unfolding zeros_def by (subst nth_map) (auto simp del: upt_Suc)

lemma zeros_Suc: "i < tree_depth \<Longrightarrow> zeros ! Suc i = hash_node (zeros ! i) (zeros ! i)"
  by (simp add: zeros_nth)

lemma fold_root_hash_node:
  "fold_root w leaf = fold (\<lambda>(sib, b) d. if b then hash_node sib d else hash_node d sib) (zip (mw_siblings w) (mw_path_bits w)) leaf"
  unfolding fold_root_def hash_node_def by (rule refl)

lemma sibling_odd: "n mod 2 = 1 \<Longrightarrow> sibling_of n = 2 * (n div 2) \<and> n = 2 * (n div 2) + 1"
  unfolding sibling_of_def by presburger

lemma sibling_even: "n mod 2 \<noteq> 1 \<Longrightarrow> sibling_of n = 2 * (n div 2) + 1 \<and> n = 2 * (n div 2)"
  unfolding sibling_of_def by presburger

locale node_tree =
  fixes nd :: "nat \<Rightarrow> nat \<Rightarrow> digest" and d :: nat
  assumes node: "i < d \<Longrightarrow> nd (Suc i) k = hash_node (nd i (2 * k)) (nd i (2 * k + 1))"
begin

definition path :: "nat \<Rightarrow> nat \<Rightarrow> (digest \<times> bool) list" where
  "path p j = map (\<lambda>i. (nd i (sibling_of (p div 2 ^ i)), p div 2 ^ i mod 2 = 1)) [0..<j]"

lemma tree_path_folds:
  assumes "j \<le> d"
  shows "fold (\<lambda>(sib, b) x. if b then hash_node sib x else hash_node x sib) (path p j) (nd 0 p) = nd j (p div 2 ^ j)"
  using assms
proof (induction j)
  case 0
  then show ?case by (simp add: path_def)
next
  case (Suc j)
  let ?q = "p div 2 ^ j"
  have "nd (Suc j) (p div 2 ^ Suc j) = hash_node (nd j (2 * (?q div 2))) (nd j (2 * (?q div 2) + 1))"
    using Suc.prems node [of j "?q div 2"] unfolding div_pow_Suc by simp
  moreover have "fold (\<lambda>(sib, b) x. if b then hash_node sib x else hash_node x sib) (path p (Suc j)) (nd 0 p)
      = (if ?q mod 2 = 1 then hash_node (nd j (sibling_of ?q)) (nd j ?q) else hash_node (nd j ?q) (nd j (sibling_of ?q)))"
    using Suc by (simp add: path_def)
  ultimately show ?case
    using sibling_odd [of ?q] sibling_even [of ?q] by (cases "?q mod 2 = 1") (simp_all del: power_Suc)
qed

lemma witness_folds:
  assumes "mw_siblings w = map (\<lambda>i. nd i (sibling_of (p div 2 ^ i))) [0..<d]"
    and "mw_path_bits w = map (\<lambda>i. p div 2 ^ i mod 2 = 1) [0..<d]" and "p < 2 ^ d"
  shows "fold_root w (nd 0 p) = nd d 0"
proof -
  have "zip (mw_siblings w) (mw_path_bits w) = path p d" unfolding assms(1,2) path_def zip_map_map by (simp add: zip_same_conv_map)
  then show ?thesis using tree_path_folds [of d p] assms(3) by (simp add: fold_root_hash_node)
qed

end

lemma node_trees_differ:
  assumes "node_tree nd d" and "node_tree nd' d" and "nd d k = nd' d k" and "nd 0 p \<noteq> nd' 0 p" and "p div 2 ^ d = k"
  shows "\<exists>i < d. \<exists>k. (nd i (2 * k), nd i (2 * k + 1)) \<noteq> (nd' i (2 * k), nd' i (2 * k + 1))
    \<and> hash_node (nd i (2 * k)) (nd i (2 * k + 1)) = hash_node (nd' i (2 * k)) (nd' i (2 * k + 1))"
proof -
  have "\<exists>i < d. \<exists>k. nd (Suc i) k = nd' (Suc i) k \<and> (nd i (2 * k) \<noteq> nd' i (2 * k) \<or> nd i (2 * k + 1) \<noteq> nd' i (2 * k + 1))"
    using assms(3-5)
  proof (induction d arbitrary: k)
    case (Suc d)
    show ?case
    proof (cases "nd d (p div 2 ^ d) = nd' d (p div 2 ^ d)")
      case True
      then show ?thesis using Suc.IH [of "p div 2 ^ d"] Suc.prems(2) less_SucI by blast
    next
      case False
      have "p div 2 ^ d = 2 * k \<or> p div 2 ^ d = 2 * k + 1" using Suc.prems(3) unfolding div_pow_Suc by (rule half_cases)
      then show ?thesis using False Suc.prems(1) by (intro exI [of _ d] conjI exI [of _ k]) auto
    qed
  qed simp
  then obtain i k where i: "i < d" "nd (Suc i) k = nd' (Suc i) k" "nd i (2 * k) \<noteq> nd' i (2 * k) \<or> nd i (2 * k + 1) \<noteq> nd' i (2 * k + 1)"
    by blast
  then show ?thesis
    using node_tree.node [OF assms(1) i(1)] node_tree.node [OF assms(2) i(1)] by (intro exI [of _ i] conjI exI [of _ k]) auto
qed

section \<open>Subtree roots\<close>

lemma subtree_empty: "count \<le> k * 2 ^ i \<Longrightarrow> subtree_root ls i k count = zeros ! i"
  by (cases i) auto

lemma subtree_node:
  assumes "i < tree_depth"
  shows "subtree_root ls (Suc i) k count = hash_node (subtree_root ls i (2 * k) count) (subtree_root ls i (2 * k + 1) count)"
proof (cases "count \<le> k * 2 ^ Suc i")
  case True
  then have "subtree_root ls i (2 * k) count = zeros ! i" "subtree_root ls i (2 * k + 1) count = zeros ! i"
    by (auto intro!: subtree_empty simp: algebra_simps)
  then show ?thesis using True assms by (simp add: subtree_empty zeros_Suc)
qed (simp add: mult.commute)

interpretation ct: node_tree "\<lambda>i k. subtree_root ls i k count" tree_depth for ls count
  by unfold_locales (rule subtree_node)

lemma subtree_full:
  assumes "(k + 1) * 2 ^ i \<le> count" and "(k + 1) * 2 ^ i \<le> count'" and "\<And>j. j < (k + 1) * 2 ^ i \<Longrightarrow> ls ! j = ls' ! j"
  shows "subtree_root ls i k count = subtree_root ls' i k count'"
  using assms
proof (induction i arbitrary: k)
  case (Suc i)
  have b: "(2 * k + 1) * 2 ^ i \<le> (k + 1) * 2 ^ Suc i" "(2 * k + 1 + 1) * 2 ^ i = (k + 1) * 2 ^ Suc i" by (simp_all add: algebra_simps)
  have "subtree_root ls i (2 * k) count = subtree_root ls' i (2 * k) count'"
    using Suc.prems b by (intro Suc.IH) (auto intro: order.trans)
  moreover have "subtree_root ls i (2 * k + 1) count = subtree_root ls' i (2 * k + 1) count'"
    using Suc.prems unfolding b(2) [symmetric] by (intro Suc.IH) auto
  moreover have "\<not> count \<le> k * 2 ^ Suc i" "\<not> count' \<le> k * 2 ^ Suc i"
    using Suc.prems(1,2) by (simp_all add: not_le less_le_trans [of "k * 2 ^ Suc i" "(k + 1) * 2 ^ Suc i"] del: power_Suc)
  ultimately show ?case by (simp add: mult.commute del: power_Suc)
qed auto

declare subtree_root.simps(2) [simp del]

section \<open>The streaming frontier\<close>

definition wf_tree :: "commitment_tree \<Rightarrow> bool" where
  "wf_tree t \<longleftrightarrow>
    (let n = length (ct_leaves t)
     in n \<le> 2 ^ tree_depth \<and> length (ct_filled t) = tree_depth + 1
        \<and> (\<forall>i \<le> tree_depth. n div 2 ^ i mod 2 = 1 \<longrightarrow> ct_filled t ! i = subtree_root (ct_leaves t) i (n div 2 ^ i - 1) n)
        \<and> ct_root t = subtree_root (ct_leaves t) tree_depth 0 n)"

lemma odd_bit_bound:
  assumes "q mod 2 = (1::nat)" and "n + 1 = (q + 1) * 2 ^ l" and "n < 2 ^ d"
  shows "l < d"
proof (rule ccontr)
  assume "\<not> l < d"
  then have "(2::nat) ^ d \<le> 2 ^ l" by (simp add: power_increasing)
  moreover have "2 \<le> q + 1" using assms(1) by presburger
  then have "2 * 2 ^ l \<le> (q + 1) * 2 ^ l" by (rule mult_right_mono) simp
  moreover have "(1::nat) \<le> 2 ^ l" by simp
  ultimately show False using assms(2,3) by linarith
qed

lemma climb_reaches:
  assumes "climb filled node l q = (node', l')"
    and "pos + 1 = (q + 1) * 2 ^ l" and "pos div 2 ^ l = q" and "pos < 2 ^ tree_depth" and "pos = length ls"
    and "\<And>i. i \<le> tree_depth \<Longrightarrow> pos div 2 ^ i mod 2 = 1 \<Longrightarrow> filled ! i = subtree_root ls i (pos div 2 ^ i - 1) pos"
    and "node = subtree_root (ls @ [c]) l q (pos + 1)"
  shows "\<exists>q'. q' mod 2 = 0 \<and> pos + 1 = (q' + 1) * 2 ^ l' \<and> pos div 2 ^ l' = q' \<and> node' = subtree_root (ls @ [c]) l' q' (pos + 1)"
  using assms(1-3,6,7)
proof (induction filled node l q rule: climb.induct)
  case (1 filled node l q)
  show ?case
  proof (cases "q mod 2 = 1")
    case False
    then have "q mod 2 = 0" by simp
    then show ?thesis using "1.prems" by (subst (asm) climb.simps) auto
  next
    case True
    define k where "k = q div 2"
    have q: "q = 2 * k + 1" using True unfolding k_def by presburger
    have l: "l < tree_depth" by (rule odd_bit_bound [OF True "1.prems"(2) assms(4)])
    have pos: "pos + 1 = (k + 1) * 2 ^ Suc l" using "1.prems"(2) by (simp add: q algebra_simps)
    have dpos: "pos div 2 ^ Suc l = k" unfolding div_pow_Suc "1.prems"(3) k_def by (rule refl)
    have "filled ! l = subtree_root ls l (2 * k) pos" using "1.prems"(4) [of l] l True "1.prems"(3) by (simp add: q)
    also have "\<dots> = subtree_root (ls @ [c]) l (2 * k) (pos + 1)"
    proof (rule subtree_full)
      have "(2 * k + 1) * 2 ^ l + 2 ^ l = pos + 1" unfolding "1.prems"(2) q by (simp add: algebra_simps)
      moreover have "(1::nat) \<le> 2 ^ l" by simp
      ultimately show le: "(2 * k + 1) * 2 ^ l \<le> pos" by linarith
      then show "(2 * k + 1) * 2 ^ l \<le> pos + 1" by simp
      show "j < (2 * k + 1) * 2 ^ l \<Longrightarrow> ls ! j = (ls @ [c]) ! j" for j using le assms(5) by (simp add: nth_append)
    qed
    finally have "hash_node (filled ! l) node = subtree_root (ls @ [c]) (l + 1) k (pos + 1)"
      using subtree_node [OF l, of "ls @ [c]" k "pos + 1"] "1.prems"(5) by (simp add: q)
    then show ?thesis
      using "1.IH" [OF True] "1.prems"(1) pos dpos "1.prems"(4) True by (subst (asm) climb.simps) (simp add: k_def)
  qed
qed

lemma bits_after:
  assumes "q mod 2 = (0::nat)" and "n + 1 = (q + 1) * 2 ^ l" and "n div 2 ^ l = q"
  shows "i < l \<Longrightarrow> (n + 1) div 2 ^ i mod 2 = 0" and "(n + 1) div 2 ^ l = q + 1" and "l < i \<Longrightarrow> (n + 1) div 2 ^ i = n div 2 ^ i"
proof -
  show "(n + 1) div 2 ^ l = q + 1" unfolding assms(2) by simp
  have "(n + 1) div 2 ^ i = (q + 1) * 2 ^ (l - i)" if "i \<le> l"
    using that unfolding assms(2) by (simp add: power_diff div_mult_swap le_imp_power_dvd)
  then show "i < l \<Longrightarrow> (n + 1) div 2 ^ i mod 2 = 0" by simp
  have "(m + 1) div 2 ^ Suc j = m div 2 ^ Suc j" if "m mod 2 = 0" for m j :: nat
  proof -
    have "(m + 1) div 2 = m div 2" using that by presburger
    then show ?thesis by (simp add: div_mult2_eq)
  qed
  note half = this
  assume "l < i"
  then obtain j where i: "i = l + Suc j" using less_imp_Suc_add by auto
  have "m div 2 ^ i = m div 2 ^ l div 2 ^ Suc j" for m :: nat unfolding i power_add by (rule div_mult2_eq)
  then show "(n + 1) div 2 ^ i = n div 2 ^ i" using half [OF assms(1)] \<open>(n + 1) div 2 ^ l = q + 1\<close> assms(3) by metis
qed
lemma fold_frontier_reaches:
  assumes "j \<le> tree_depth"
    and "\<And>i. i < tree_depth \<Longrightarrow> n div 2 ^ i mod 2 = 1 \<Longrightarrow> filled ! i = subtree_root ls i (n div 2 ^ i - 1) n"
  shows "fold_frontier filled n j = subtree_root ls j (n div 2 ^ j) n"
  using assms(1)
proof (induction j)
  case (Suc j)
  define q where "q = n div 2 ^ j"
  have j: "j < tree_depth" using Suc.prems by simp
  have step: "fold_frontier filled n (Suc j) =
      (if q mod 2 = 1 then hash_node (filled ! j) (subtree_root ls j q n) else hash_node (subtree_root ls j q n) (zeros ! j))"
    using Suc unfolding fold_frontier_def q_def by simp
  note root = subtree_node [OF j, of ls "q div 2" n]
  have nxt: "n div 2 ^ Suc j = q div 2" unfolding q_def by (rule div_pow_Suc)
  show ?case
  proof (cases "q mod 2 = 1")
    case True
    then have "q = 2 * (q div 2) + 1" by presburger
    then show ?thesis
      unfolding nxt root step using True assms(2) [OF j] unfolding q_def [symmetric] by (metis add_diff_cancel_right')
  next
    case False
    then have q: "q = 2 * (q div 2)" by presburger
    have "n < (q + 1) * 2 ^ j" unfolding q_def by (metis Suc_eq_plus1 div_less_iff_less_mult lessI zero_less_numeral zero_less_power)
    then have "subtree_root ls j (2 * (q div 2) + 1) n = zeros ! j" using q by (intro subtree_empty) simp
    then show ?thesis unfolding nxt root step using False q by simp
  qed
qed (simp add: fold_frontier_def subtree_empty)

lemma wf_tree_new: "wf_tree tree_new"
  by (simp add: wf_tree_def tree_new_def tree_depth_def subtree_empty)

lemma wf_tree_append:
  assumes "wf_tree t" and "length (ct_leaves t) < 2 ^ tree_depth"
  shows "\<exists>t'. tree_append c t = Some (word_of_nat (length (ct_leaves t)), t') \<and> wf_tree t' \<and> ct_leaves t' = ct_leaves t @ [c]"
proof -
  define n where "n = length (ct_leaves t)"
  note wf = assms(1) [unfolded wf_tree_def Let_def, folded n_def]
  obtain node l where cl: "climb (ct_filled t) c 0 n = (node, l)" by fastforce
  have n: "n < 2 ^ tree_depth" using assms(2) by (simp add: n_def)
  obtain q where q: "q mod 2 = 0" "n + 1 = (q + 1) * 2 ^ l" "n div 2 ^ l = q" "node = subtree_root (ct_leaves t @ [c]) l q (n + 1)"
  proof -
    have e: "n + 1 = (n + 1) * 2 ^ 0" "n div 2 ^ 0 = n" "c = subtree_root (ct_leaves t @ [c]) 0 n (n + 1)"
      by (simp_all add: n_def)
    have F: "ct_filled t ! i = subtree_root (ct_leaves t) i (n div 2 ^ i - 1) n" if "i \<le> tree_depth" "n div 2 ^ i mod 2 = 1" for i
      using wf that by blast
    have "\<exists>q'. q' mod 2 = 0 \<and> n + 1 = (q' + 1) * 2 ^ l \<and> n div 2 ^ l = q' \<and> node = subtree_root (ct_leaves t @ [c]) l q' (n + 1)"
      by (rule climb_reaches [OF cl e(1,2) n n_def _ e(3)]) (rule F)
    then show ?thesis by (elim exE conjE) (rule that)
  qed
  note bits = bits_after [OF q(1-3)]
  define filled where "filled = (ct_filled t)[l := node]"
  have l: "l \<le> tree_depth"
  proof -
    have "(2::nat) ^ l \<le> n + 1" unfolding q(2) by simp
    then have "(2::nat) ^ l \<le> 2 ^ tree_depth" using n by linarith
    then show ?thesis by simp
  qed
  have fill: "filled ! i = subtree_root (ct_leaves t @ [c]) i ((n + 1) div 2 ^ i - 1) (n + 1)"
    if i: "i \<le> tree_depth" and b: "(n + 1) div 2 ^ i mod 2 = 1" for i
  proof (cases "i = l")
    case True
    then show ?thesis using q(4) bits(2) wf l by (simp add: filled_def)
  next
    case False
    then have li: "l < i" using bits(1) [of i] b by fastforce
    have same: "(n + 1) div 2 ^ i = n div 2 ^ i" by (rule bits(3) [OF li])
    have pos: "0 < n div 2 ^ i" using b unfolding same by (metis gr0I mod_0 zero_neq_one)
    have le: "(n div 2 ^ i - 1 + 1) * 2 ^ i \<le> n" using pos by simp
    have "ct_filled t ! i = subtree_root (ct_leaves t) i (n div 2 ^ i - 1) n" using wf i b unfolding same by blast
    also have "\<dots> = subtree_root (ct_leaves t @ [c]) i (n div 2 ^ i - 1) (n + 1)"
      using le by (intro subtree_full) (auto simp: nth_append n_def simp del: add_diff_cancel_right')
    finally show ?thesis using False unfolding same by (simp add: filled_def)
  qed
  define t' where "t' = t\<lparr>ct_filled := filled, ct_leaves := ct_leaves t @ [c]\<rparr>"
  have root: "fold_frontier_root t' = subtree_root (ct_leaves t @ [c]) tree_depth 0 (n + 1)"
  proof (cases "n + 1 = 2 ^ tree_depth")
    case True
    then have "(n + 1) div 2 ^ tree_depth = 1" by simp
    then show ?thesis using True fill [of tree_depth] by (simp add: fold_frontier_root_def t'_def n_def)
  next
    case False
    then have "(n + 1) div 2 ^ tree_depth = 0" using n by simp
    then show ?thesis
      using False fold_frontier_reaches [OF order.refl, of "n + 1" filled "ct_leaves t @ [c]"] fill
      by (simp add: fold_frontier_root_def t'_def n_def)
  qed
  have "tree_append c t = Some (word_of_nat n, t'\<lparr>ct_root := fold_frontier_root t'\<rparr>)"
    using n by (simp add: tree_append_def n_def [symmetric] cl t'_def filled_def Let_def)
  moreover have "wf_tree (t'\<lparr>ct_root := fold_frontier_root t'\<rparr>)"
    using n wf fill unfolding root by (simp add: wf_tree_def t'_def n_def [symmetric] filled_def)
  ultimately show ?thesis by (simp add: n_def t'_def)
qed

text \<open>All appends of a list, in order, as the node appends the commitments of a block.\<close>

fun append_all :: "digest list \<Rightarrow> commitment_tree \<Rightarrow> commitment_tree option" where
  "append_all [] t = Some t"
| "append_all (c # cs) t = Option.bind (tree_append c t) (\<lambda>(p, t'). append_all cs t')"

lemma append_all_wf:
  assumes "wf_tree t" and "length (ct_leaves t) + length cs \<le> 2 ^ tree_depth"
  shows "\<exists>t'. append_all cs t = Some t' \<and> wf_tree t' \<and> ct_leaves t' = ct_leaves t @ cs"
  using assms
proof (induction cs arbitrary: t)
  case (Cons c cs)
  then obtain t' where "tree_append c t = Some (word_of_nat (length (ct_leaves t)), t')" "wf_tree t'" "ct_leaves t' = ct_leaves t @ [c]"
    using wf_tree_append [of t c] by auto
  then show ?case using Cons.IH [of t'] Cons.prems(2) by simp
qed simp
section \<open>Frontiers\<close>

lemma left_siblings:
  assumes "i < tree_depth"
  shows "subtree_root ls (Suc i) (p div 2 ^ Suc i) (p + 1) =
    (if p div 2 ^ i mod 2 = 1 then hash_node (subtree_root ls i (p div 2 ^ i - 1) (p + 1)) (subtree_root ls i (p div 2 ^ i) (p + 1))
     else hash_node (subtree_root ls i (p div 2 ^ i) (p + 1)) (zeros ! i))"
proof -
  define q where "q = p div 2 ^ i"
  have n: "subtree_root ls (Suc i) (p div 2 ^ Suc i) (p + 1)
      = hash_node (subtree_root ls i (2 * (q div 2)) (p + 1)) (subtree_root ls i (2 * (q div 2) + 1) (p + 1))"
    unfolding div_pow_Suc q_def [symmetric] by (rule subtree_node [OF assms])
  show ?thesis
  proof (cases "q mod 2 = 1")
    case True
    then have "2 * (q div 2) = q - 1" "2 * (q div 2) + 1 = q" by presburger+
    then show ?thesis unfolding n q_def [symmetric] using True by simp
  next
    case False
    then have q: "2 * (q div 2) = q" by presburger
    have "p < (q + 1) * 2 ^ i" unfolding q_def by (metis Suc_eq_plus1 div_less_iff_less_mult lessI zero_less_numeral zero_less_power)
    then have "subtree_root ls i (q + 1) (p + 1) = zeros ! i" by (intro subtree_empty) simp
    then show ?thesis unfolding n q_def [symmetric] q using False by simp
  qed
qed

lemma fold_ommers_reaches:
  assumes "j \<le> tree_depth" and "i \<le> j"
  shows "fold_ommers p [i..<j] (concat (map (\<lambda>i. if p div 2 ^ i mod 2 = 1 then [subtree_root ls i (p div 2 ^ i - 1) (p + 1)] else []) [i..<j]))
      (subtree_root ls i (p div 2 ^ i) (p + 1)) = subtree_root ls j (p div 2 ^ j) (p + 1)"
  using assms(2)
proof (induction "j - i" arbitrary: i)
  case (Suc m)
  then have ij: "i < j" "m = j - Suc i" by simp_all
  then have "i < tree_depth" using assms(1) by simp
  then have step: "subtree_root ls (Suc i) (p div 2 ^ Suc i) (p + 1) =
    (if p div 2 ^ i mod 2 = 1 then hash_node (subtree_root ls i (p div 2 ^ i - 1) (p + 1)) (subtree_root ls i (p div 2 ^ i) (p + 1))
     else hash_node (subtree_root ls i (p div 2 ^ i) (p + 1)) (zeros ! i))"
    by (rule left_siblings)
  have "Suc i \<le> j" using ij(1) by simp
  from Suc.hyps(1) [OF ij(2) this, unfolded step] show ?case
    by (cases "p div 2 ^ i mod 2 = 1") (simp_all add: upt_conv_Cons [OF ij(1)])
qed simp
section \<open>The byte form of a frontier\<close>

definition set_bits :: "nat \<Rightarrow> nat list \<Rightarrow> nat" where
  "set_bits p is = length (filter (\<lambda>i. p div 2 ^ i mod 2 = 1) is)"

definition wf_frontier :: "frontier \<Rightarrow> bool" where
  "wf_frontier f \<longleftrightarrow>
    length (fr_leaf f) = 4 \<and> list_all (\<lambda>o1. length o1 = 4) (fr_ommers f)
    \<and> (if fr_n_leaves f = 0 then fr_leaf f = empty_leaf \<and> fr_ommers f = []
       else length (fr_ommers f) = set_bits (unat (fr_n_leaves f - 1)) [0..<tree_depth])"

lemma read32_written: "length d = 4 \<Longrightarrow> read32 (pre @ digest_bytes d @ rest) (length pre) = Ok (d, length pre + 32)"
  using read_lanes_at [of d "[]" "[]"] slice_at_0_append [of "digest_bytes d" 32 rest]
  by (simp add: read32_def length_digest_bytes digest_from_bytes_def slice_at_append) (simp add: digest_bytes_def)

lemma read32_Ok:
  assumes "read32 b pos = Ok (d, pos')"
  shows "length d = 4 \<and> pos' = pos + 32 \<and> pos' \<le> length b \<and> drop pos b = digest_bytes d @ drop pos' b"
proof -
  have l: "pos + 32 \<le> length b" and d: "d = digest_from_bytes (slice_at pos 32 b)" and p: "pos' = pos + 32"
    using assms by (auto simp: read32_def split: if_splits)
  have "digest_bytes d = slice_at pos 32 b" unfolding d using l by (intro digest_bytes_from) (simp add: is_hash32_def)
  moreover have "drop pos b = slice_at pos 32 b @ drop (pos + 32) b" using l by (metis append_take_drop_id drop_drop add.commute slice_at_def)
  ultimately show ?thesis using l by (simp add: d p digest_from_bytes_def length_read_lanes)
qed

lemma read_ommers_written:
  assumes "list_all (\<lambda>o1. length o1 = 4) os" and "length os = set_bits p is"
  shows "read_ommers (pre @ write_ommers p is os @ rest) p is (length pre) = Ok (os, length pre + length (write_ommers p is os))"
  using assms
proof (induction "is" arbitrary: os pre)
  case Nil
  then show ?case by (simp add: set_bits_def)
next
  case (Cons i "is")
  show ?case
  proof (cases "p div 2 ^ i mod 2 = 1")
    case True
    then obtain o1 os' where os: "os = o1 # os'" "length o1 = 4" "list_all (\<lambda>o1. length o1 = 4) os'" "length os' = set_bits p is"
      using Cons.prems by (cases os) (auto simp: set_bits_def)
    note r = read32_written [OF os(2), of "pre @ [1]" "write_ommers p is os' @ rest"]
    note IH = Cons.IH [OF os(3,4), of "pre @ [1] @ digest_bytes o1"]
    show ?thesis using True r IH os(2) by (simp add: os(1) Let_def nth_append length_digest_bytes ac_simps)
  next
    case False
    then have "length os = set_bits p is" using Cons.prems(2) by (simp add: set_bits_def)
    from Cons.IH [OF Cons.prems(1) this, of "pre @ [0]"] show ?thesis using False by (simp add: Let_def nth_append)
  qed
qed

lemma read_ommers_Ok:
  assumes "read_ommers b p is pos = Ok (os, pos')"
  shows "list_all (\<lambda>o1. length o1 = 4) os \<and> length os = set_bits p is \<and> pos \<le> pos'"
  using assms
proof (induction b p "is" pos arbitrary: os pos' rule: read_ommers.induct)
  case (2 b p i "is" pos)
  show ?case
  proof (cases "b ! pos = 1")
    case True
    obtain o1 p1 os2 where r: "read32 b (pos + 1) = Ok (o1, p1)" "read_ommers b p is p1 = Ok (os2, pos')" "os = o1 # os2"
      and bit: "p div 2 ^ i mod 2 = 1" and pos: "pos < length b"
      using "2.prems" True by (auto simp: Let_def split: if_splits)
    show ?thesis using "2.IH"(1) [OF pos refl _ True r(2)] bit True read32_Ok [OF r(1)] r(3) by (simp add: set_bits_def)
  next
    case False
    then have r: "read_ommers b p is (pos + 1) = Ok (os, pos')" "p div 2 ^ i mod 2 \<noteq> 1" "pos < length b"
      using "2.prems" by (auto simp: Let_def split: if_splits)
    show ?thesis using "2.IH"(2) [OF r(3) refl _ False r(1)] r(2) False by (simp add: set_bits_def)
  qed
qed (simp add: set_bits_def)
section \<open>The reference tree\<close>

fun merkle :: "nat \<Rightarrow> digest list \<Rightarrow> digest" where
  "merkle 0 xs = (case xs of [] \<Rightarrow> empty_leaf | x # _ \<Rightarrow> x)"
| "merkle (Suc d) xs = hash_node (merkle d (take (2 ^ d) xs)) (merkle d (drop (2 ^ d) xs))"

lemma merkle_Nil: "merkle d [] = zero_at d"
  by (induction d) simp_all

context node_tree begin

lemma node_merkle: "i \<le> d \<Longrightarrow> nd i k = merkle i (map (nd 0) [k * 2 ^ i..<(k + 1) * 2 ^ i])"
proof (induction i arbitrary: k)
  case (Suc i)
  have "take (2 ^ i) [k * 2 ^ Suc i..<(k + 1) * 2 ^ Suc i] = [2 * k * 2 ^ i..<(2 * k + 1) * 2 ^ i]"
    by (subst take_upt) (simp_all add: algebra_simps)
  moreover have "drop (2 ^ i) [k * 2 ^ Suc i..<(k + 1) * 2 ^ Suc i] = [(2 * k + 1) * 2 ^ i..<(2 * k + 1 + 1) * 2 ^ i]"
    by (simp add: drop_upt algebra_simps)
  ultimately show ?case using Suc node [of i k] by (simp add: take_map drop_map del: power_Suc)
qed (simp add: upt_conv_Cons)

end

lemma subtree_merkle:
  assumes "i \<le> tree_depth" and "count \<le> length ls"
  shows "subtree_root ls i k count = merkle i (take (2 ^ i) (drop (k * 2 ^ i) (take count ls)))"
  using assms(1)
proof (induction i arbitrary: k)
  case 0
  then show ?case using assms(2) by (auto simp: zeros_nth Cons_nth_drop_Suc [symmetric] split: list.splits)
next
  case (Suc i)
  have i: "i < tree_depth" using Suc.prems by simp
  have "take (2 ^ i) (take (2 ^ Suc i) (drop (k * 2 ^ Suc i) xs)) = take (2 ^ i) (drop (2 * k * 2 ^ i) xs)" for xs :: "digest list"
    by (simp add: min_def ac_simps)
  moreover have "drop (2 ^ i) (take (2 ^ Suc i) (drop (k * 2 ^ Suc i) xs)) = take (2 ^ i) (drop ((2 * k + 1) * 2 ^ i) xs)" for xs :: "digest list"
    by (simp add: drop_take algebra_simps)
  ultimately show ?case unfolding subtree_node [OF i] using Suc.IH [OF less_imp_le [OF i]] by simp
qed

lemma root_at_merkle: "root_at t count = merkle tree_depth (take (2 ^ tree_depth) (take count (ct_leaves t)))"
proof -
  have "take (min count (length xs)) xs = take count xs" for xs :: "digest list" by (simp add: min_def)
  then show ?thesis
    using subtree_merkle [of tree_depth "min count (tree_len t)" "ct_leaves t" 0] by (simp add: root_at_def tree_len_def del: take_take)
qed

lemma length_keccak_round: "length (keccak_round a rc) = 25"
  by (simp add: keccak_round_def keccak_chi_def Let_def)

lemma length_keccak_f [simp]: "length (keccak_f a) = 25"
proof -
  have "length (fold (\<lambda>rc s. keccak_round s rc) rcs s) = 25" if "length s = 25 \<or> rcs \<noteq> []" for rcs s
    using that by (induction rcs arbitrary: s) (auto simp: length_keccak_round)
  moreover have "keccak_rc \<noteq> []" by (simp add: keccak_rc_def)
  ultimately show ?thesis unfolding keccak_f_def by blast
qed

lemma length_hash_node [simp]: "length (hash_node l r) = 4"
  by (simp add: hash_node_def merkle_node_state_def)

lemma length_zero_at [simp]: "length (zero_at i) = 4"
  by (cases i) (simp_all add: empty_leaf_def)

lemma length_subtree_root:
  assumes "i \<le> tree_depth" and "list_all (\<lambda>c. length c = 4) ls" and "count \<le> length ls"
  shows "length (subtree_root ls i k count) = 4"
  using assms by (cases i) (auto simp: subtree_root.simps zeros_nth list_all_length empty_leaf_def)

lemma wf_frontier_at:
  assumes "list_all (\<lambda>c. length c = 4) (ct_leaves t)" and "length (ct_leaves t) \<le> 2 ^ tree_depth"
  shows "wf_frontier (frontier_at t count)"
proof -
  define n where "n = min count (tree_len t)"
  have n: "n \<le> length (ct_leaves t)" by (simp add: n_def tree_len_def)
  then have "n < 2 ^ 64" using assms(2) unfolding tree_depth_def by (rule le_less_trans [OF order.trans]) simp
  then have u: "unat (word_of_nat n :: u64) = n" by (simp add: unat_of_nat_len)
  have len: "length (concat (map (\<lambda>i. if p div 2 ^ i mod 2 = 1 then [f i :: digest] else []) is)) = set_bits p is" for p f "is"
    by (induction "is") (auto simp: set_bits_def)
  have four: "list_all (\<lambda>o1. length o1 = 4) (concat (map (\<lambda>i. if p div 2 ^ i mod 2 = 1
      then [subtree_root (ct_leaves t) i (p div 2 ^ i - 1) n] else []) [0..<tree_depth]))" for p
    using length_subtree_root [OF _ assms(1) n] by (auto simp: list_all_iff)
  show ?thesis
  proof (cases "n = 0")
    case False
    then have "(word_of_nat n :: u64) \<noteq> 0" using u by (metis unat_0)
    moreover have "unat (word_of_nat n - 1 :: u64) = n - 1" using False u by (metis calculation unat_minus_one)
    moreover have "length (ct_leaves t ! (n - 1)) = 4" using False n assms(1) by (simp add: list_all_length)
    ultimately show ?thesis
      using False len four by (simp add: frontier_at_def n_def [symmetric] Let_def wf_frontier_def)
  qed (simp add: frontier_at_def n_def [symmetric] wf_frontier_def empty_leaf_def)
qed

lemma unat_count: "n \<le> 2 ^ tree_depth \<Longrightarrow> unat (word_of_nat n :: u64) = n"
  unfolding tree_depth_def by (rule unat_of_nat_len) simp

lemma frontier_at_nonempty:
  assumes "length (ct_leaves t) \<le> 2 ^ tree_depth" and "min count (tree_len t) = Suc p"
  shows "fr_n_leaves (frontier_at t count) \<noteq> 0 \<and> unat (fr_n_leaves (frontier_at t count) - 1) = p
    \<and> fr_leaf (frontier_at t count) = ct_leaves t ! p
    \<and> fr_ommers (frontier_at t count) = concat (map (\<lambda>i. if p div 2 ^ i mod 2 = 1
        then [subtree_root (ct_leaves t) i (p div 2 ^ i - 1) (p + 1)] else []) [0..<tree_depth])"
proof -
  have u: "unat (word_of_nat (Suc p) :: u64) = Suc p"
    using assms by (intro unat_count) (simp add: tree_len_def)
  then have "(word_of_nat (Suc p) :: u64) \<noteq> 0" by (metis nat.simps(3) unat_0)
  moreover have "unat (word_of_nat (Suc p) - 1 :: u64) = p" using u calculation by (metis diff_Suc_1 unat_minus_one)
  ultimately show ?thesis unfolding frontier_at_def assms(2) Let_def Suc_eq_plus1 [symmetric] diff_Suc_1 by simp
qed

lemma frontier_root_at:
  assumes "length (ct_leaves t) \<le> 2 ^ tree_depth"
  shows "frontier_root (frontier_at t count) = root_at t count"
proof (cases "min count (tree_len t)")
  case 0
  then show ?thesis by (simp add: frontier_at_def frontier_root_def root_at_def subtree_empty)
next
  case (Suc p)
  note f = frontier_at_nonempty [OF assms Suc]
  have "p div 2 ^ tree_depth = 0" using Suc assms by (simp add: tree_len_def)
  moreover have "subtree_root (ct_leaves t) 0 (p div 2 ^ 0) (p + 1) = ct_leaves t ! p" by simp
  ultimately show ?thesis
    using f fold_ommers_reaches [of tree_depth 0 p "ct_leaves t"] Suc by (simp add: frontier_root_def root_at_def del: subtree_root.simps)
qed

lemma subtree_prefix:
  assumes "i \<le> tree_depth"
  shows "subtree_root (cs @ ds) i k (length cs) = subtree_root cs i k (length cs)"
  using assms by (simp add: subtree_merkle)

lemma frontier_prefix:
  assumes "ct_leaves t = cs" and "ct_leaves t' = cs @ ds"
  shows "frontier_at t' (length cs) = tree_frontier t"
proof (cases cs)
  case Nil
  then show ?thesis using assms by (simp add: frontier_at_def tree_frontier_def tree_len_def)
next
  case (Cons c rest)
  have "length cs - 1 < length cs" using Cons by simp
  then have "(cs @ ds) ! (length cs - 1) = cs ! (length cs - 1)" by (simp only: nth_append if_True)
  moreover have "map (\<lambda>i. if p div 2 ^ i mod 2 = 1 then [subtree_root (cs @ ds) i (p div 2 ^ i - 1) (length cs)] else []) [0..<tree_depth]
      = map (\<lambda>i. if p div 2 ^ i mod 2 = 1 then [subtree_root cs i (p div 2 ^ i - 1) (length cs)] else []) [0..<tree_depth]" for p
    by (auto simp: subtree_prefix)
  moreover have "min (length cs) (length (cs @ ds)) = length cs" by simp
  ultimately show ?thesis unfolding frontier_at_def tree_frontier_def tree_len_def Let_def assms by (simp only: min.idem)
qed

section \<open>Properties\<close>

text \<open>C38: the streaming tree is the Merkle tree: appending any leaves, up to the capacity, never panics, numbers them in
  order, and leaves the root the recursive definition gives them, which the frontier alone reproduces; and
  the root of every earlier prefix can still be recomputed.\<close>

theorem streaming_root_is_merkle:
  assumes "length cs + length ds \<le> 2 ^ tree_depth"
  shows "\<exists>t t'. append_all cs tree_new = Some t \<and> append_all ds t = Some t' \<and> ct_leaves t' = cs @ ds
    \<and> ct_root t = merkle tree_depth cs \<and> frontier_root (tree_frontier t) = ct_root t
    \<and> root_at t' (length cs) = ct_root t \<and> frontier_at t' (length cs) = tree_frontier t"
proof -
  obtain t where t: "append_all cs tree_new = Some t" "wf_tree t" "ct_leaves t = cs"
    using append_all_wf [OF wf_tree_new, of cs] assms by (auto simp: tree_new_def)
  obtain t' where t': "append_all ds t = Some t'" "ct_leaves t' = cs @ ds"
    using append_all_wf [OF t(2), of ds] assms t(3) by auto
  have len: "length cs \<le> 2 ^ tree_depth" using assms by simp
  have "ct_root t = root_at t (length cs)" using t(2,3) by (simp add: wf_tree_def Let_def root_at_def tree_len_def)
  moreover have "root_at t (length cs) = merkle tree_depth cs" "root_at t' (length cs) = merkle tree_depth cs"
    using len by (simp_all add: root_at_merkle t(3) t'(2))
  moreover have "frontier_root (tree_frontier t) = root_at t (length cs)"
    unfolding tree_frontier_def using frontier_root_at [of t "tree_len t"] len by (simp add: t(3) tree_len_def)
  ultimately show ?thesis using t(1) t' frontier_prefix [OF t(3) t'(2)] by auto
qed

text \<open>a path is issued exactly for a leaf among the counted ones, and folds it to the root at that count.\<close>

theorem auth_path_folds:
  assumes "length (ct_leaves t) \<le> 2 ^ tree_depth"
  shows "(case auth_path t p count of
      Some w \<Rightarrow> p < count \<and> p < length (ct_leaves t) \<and> fold_root w (ct_leaves t ! p) = root_at t count
    | None \<Rightarrow> p \<ge> count \<or> p \<ge> length (ct_leaves t))"
proof -
  define n where "n = min count (tree_len t)"
  show ?thesis
  proof (cases "p < n \<and> p < 2 ^ tree_depth")
    case True
    define w where "w = \<lparr>mw_siblings = map (\<lambda>i. subtree_root (ct_leaves t) i (sibling_of (p div 2 ^ i)) n) [0..<tree_depth],
      mw_path_bits = map (\<lambda>i. p div 2 ^ i mod 2 = 1) [0..<tree_depth]\<rparr>"
    have w: "auth_path t p count = Some w"
        "mw_siblings w = map (\<lambda>i. subtree_root (ct_leaves t) i (sibling_of (p div 2 ^ i)) n) [0..<tree_depth]"
        "mw_path_bits w = map (\<lambda>i. p div 2 ^ i mod 2 = 1) [0..<tree_depth]"
      using True by (simp_all add: auth_path_def n_def [symmetric] w_def Let_def)
    have "fold_root w (subtree_root (ct_leaves t) 0 p n) = subtree_root (ct_leaves t) tree_depth 0 n"
      by (rule ct.witness_folds [OF w(2,3)]) (use True in simp)
    moreover have "subtree_root (ct_leaves t) 0 p n = ct_leaves t ! p" using True by simp
    moreover have "root_at t count = subtree_root (ct_leaves t) tree_depth 0 n" by (simp add: root_at_def n_def)
    ultimately show ?thesis using True w(1) by (simp add: n_def tree_len_def)
  next
    case False
    then have "\<not> p < n" using assms by (auto simp: n_def tree_len_def)
    then have "auth_path t p count = None" by (simp add: auth_path_def n_def [symmetric])
    then show ?thesis using \<open>\<not> p < n\<close> by (auto simp: n_def tree_len_def)
  qed
qed

text \<open>the byte form of a frontier decodes to it, for every frontier a tree of 32-byte leaves has.\<close>

theorem frontier_roundtrip:
  assumes "list_all (\<lambda>c. length c = 4) (ct_leaves t)" and "length (ct_leaves t) \<le> 2 ^ tree_depth"
  shows "frontier_from_bytes (frontier_to_bytes (frontier_at t count)) = Ok (frontier_at t count)"
proof -
  define f where "f = frontier_at t count"
  define pre where "pre = [wire_version, word_of_nat tree_depth] @ varint_bytes (fr_n_leaves f)"
  have wf: "wf_frontier f" unfolding f_def by (rule wf_frontier_at [OF assms])
  have head: "b ! 0 = wire_version" "unat (b ! 1) = tree_depth" "\<not> length b < 2" "b \<noteq> []"
      "read_varint b 2 = Ok (fr_n_leaves f, length pre)" if "b = pre @ rest" for b rest
    using that read_varint_bytes [of 2 "[wire_version, word_of_nat tree_depth]" "fr_n_leaves f" rest]
    by (simp_all add: pre_def tree_depth_def)
  show ?thesis
  proof (cases "fr_n_leaves f = 0")
    case True
    then have b: "frontier_to_bytes f = pre @ []" by (simp add: frontier_to_bytes_def write_varint_def pre_def)
    have "f = \<lparr>fr_n_leaves = 0, fr_leaf = empty_leaf, fr_ommers = []\<rparr>" using wf True by (simp add: wf_frontier_def)
    then show ?thesis using head [OF b] b True unfolding f_def [symmetric] by (simp add: frontier_from_bytes_def)
  next
    case False
    let ?w = "write_ommers (unat (fr_n_leaves f - 1)) [0..<tree_depth] (fr_ommers f)"
    have b: "frontier_to_bytes f = pre @ digest_bytes (fr_leaf f) @ ?w"
      using False by (simp add: frontier_to_bytes_def write_varint_def pre_def)
    have w: "length (fr_leaf f) = 4" "list_all (\<lambda>o1. length o1 = 4) (fr_ommers f)"
        "length (fr_ommers f) = set_bits (unat (fr_n_leaves f - 1)) [0..<tree_depth]"
      using wf False by (simp_all add: wf_frontier_def)
    have "read_ommers (frontier_to_bytes f) (unat (fr_n_leaves f - 1)) [0..<tree_depth] (length pre + 32)
        = Ok (fr_ommers f, length (frontier_to_bytes f))"
      using read_ommers_written [OF w(2,3), of "pre @ digest_bytes (fr_leaf f)" "[]"] by (simp add: b length_digest_bytes w(1))
    moreover have "read32 (frontier_to_bytes f) (length pre) = Ok (fr_leaf f, length pre + 32)"
      using read32_written [OF w(1), of pre ?w] by (simp add: b)
    ultimately show ?thesis
      unfolding f_def [symmetric] frontier_from_bytes_def using head [OF b] False by simp
  qed
qed

text \<open>the decoder is not the inverse of the encoder: a flag byte other than zero and one reads as absent, so one frontier
  has several byte forms.\<close>

theorem frontier_flags_malleable:
  "\<exists>b b' f. b \<noteq> b' \<and> frontier_from_bytes b = Ok f \<and> frontier_from_bytes b' = Ok f"
proof -
  define form where "form = (\<lambda>x. [wire_version, 32, 1] @ digest_bytes empty_leaf @ replicate 32 (x :: u8))"
  have "frontier_from_bytes (form x) = Ok \<lparr>fr_n_leaves = 1, fr_leaf = empty_leaf, fr_ommers = []\<rparr>" if "x \<noteq> 1" for x
  proof -
    have none: "read_ommers b 0 is pos = Ok ([], pos + length is)"
      if "pos + length is \<le> length b" "\<forall>k. pos \<le> k \<and> k < length b \<longrightarrow> b ! k \<noteq> 1" for b "is" pos
      using that by (induction "is" arbitrary: pos) (auto simp: Let_def)
    have len: "length (form x) = 67" by (simp add: form_def length_digest_bytes empty_leaf_def)
    have "form x ! k \<noteq> 1" if "35 \<le> k" "k < 67" for k
    proof -
      have "length ([wire_version, 32, 1] @ digest_bytes empty_leaf) = 35" by (simp add: length_digest_bytes empty_leaf_def)
      then have "(([wire_version, 32, 1] @ digest_bytes empty_leaf) @ replicate 32 x) ! k = x"
        using that unfolding nth_append by simp
      then show ?thesis using \<open>x \<noteq> 1\<close> by (simp add: form_def)
    qed
    then have "read_ommers (form x) 0 [0..<tree_depth] 35 = Ok ([], 67)" using none [of 35 "[0..<tree_depth]" "form x"] len by (simp add: tree_depth_def)
    moreover have "read32 (form x) 3 = Ok (empty_leaf, 35)"
      using read32_written [of empty_leaf "[wire_version, 32, 1]" "replicate 32 x"] by (simp add: form_def empty_leaf_def numeral_3_eq_3)
    moreover have "read_varint (form x) 2 = Ok (1, 3)"
      using read_varint_bytes [of 2 "[wire_version, 32]" 1] varint_bytes_single [of 1] by (simp add: form_def)
    moreover have "form x ! 0 = wire_version" "unat (form x ! 1) = tree_depth" "form x \<noteq> []" by (simp_all add: form_def tree_depth_def)
    ultimately show ?thesis using len by (simp add: frontier_from_bytes_def)
  qed
  then have "frontier_from_bytes (form 0) = frontier_from_bytes (form 2)" "\<exists>f. frontier_from_bytes (form 0) = Ok f" by simp_all
  moreover have "form 0 \<noteq> form 2" by (simp add: form_def)
  ultimately show ?thesis by metis
qed
section \<open>A concrete tree\<close>

definition sample_tree :: commitment_tree where
  "sample_tree = \<lparr>ct_leaves = [[1, 2, 3, 4], [5, 6, 7, 8]], ct_filled = [], ct_root = []\<rparr>"

lemma streaming_root_is_merkle_witness:
  "\<exists>t t'. append_all [[1, 2, 3, 4]] tree_new = Some t \<and> append_all [[5, 6, 7, 8]] t = Some t' \<and> ct_root t = merkle tree_depth [[1, 2, 3, 4]]
    \<and> root_at t' 1 = ct_root t"
  using streaming_root_is_merkle [of "[[1, 2, 3, 4]]" "[[5, 6, 7, 8]]"] by (auto simp: tree_depth_def)

lemma auth_path_folds_witness:
  "\<exists>w. auth_path sample_tree 1 2 = Some w \<and> fold_root w [5, 6, 7, 8] = root_at sample_tree 2"
proof (cases "auth_path sample_tree 1 2")
  case None
  then show ?thesis using auth_path_folds [where t = sample_tree and p = 1 and count = 2] by (simp add: sample_tree_def tree_depth_def)
next
  case (Some w)
  then show ?thesis using auth_path_folds [where t = sample_tree and p = 1 and count = 2] by (simp add: sample_tree_def tree_depth_def)
qed

lemma frontier_roundtrip_witness: "frontier_from_bytes (frontier_to_bytes (frontier_at sample_tree 2)) = Ok (frontier_at sample_tree 2)"
  by (rule frontier_roundtrip) (simp_all add: sample_tree_def tree_depth_def)

end
