(* ===== verification/Registry.thy ===== *)
theory Registry
  imports Commit_Tree Annulet_Surface
begin

text \<open>
  The asset registry of layer 2 (\<open>qlab-cbserver/src/registry.rs\<close>, \<open>qlab-node/src/registry_store.rs\<close>, the leaf of
  \<open>qlab-air/src/l2.rs\<close>): a sparse Merkle tree of depth 16 whose slot of an asset holds that asset's leaf. A
  slot index is below \<open>2 ^ 16\<close> and is a natural. \<open>RegistryWitness\<close> has the fields and the fold of
  \<open>MerkleWitness\<close> and is the same record here. The levels are \<open>BTreeMap\<close>s, kept as sorted association lists.
\<close>

section \<open>Leaves\<close>

definition registry_depth :: nat where "registry_depth = 16"

record registry_leaf =
  rl_asset :: u64
  rl_issuer_key :: digest
  rl_mode :: u64
  rl_freeze_root :: digest
  rl_allow_root :: digest
  rl_flags :: u64

definition mode_cloaked :: u64 where "mode_cloaked = 0"

definition leaf_cloaked :: "u64 \<Rightarrow> registry_leaf" where
  "leaf_cloaked a = \<lparr>rl_asset = a, rl_issuer_key = [0, 0, 0, 0], rl_mode = mode_cloaked, rl_freeze_root = [0, 0, 0, 0],
     rl_allow_root = [0, 0, 0, 0], rl_flags = 0\<rparr>"

definition leaf_state :: "registry_leaf \<Rightarrow> u64 list" where
  "leaf_state l =
    [rl_asset l] @ rl_issuer_key l @ [rl_mode l] @ rl_freeze_root l @ rl_allow_root l @ [rl_flags l] @ [1, push_bit 63 1] @ replicate 8 0"

definition leaf_hash :: "registry_leaf \<Rightarrow> digest" where
  "leaf_hash l = take 4 (keccak_f (leaf_state l))"

definition lanes_of :: "registry_leaf \<Rightarrow> u64 list" where
  "lanes_of l = take 15 (leaf_state l)"

definition leaf_of :: "u64 list \<Rightarrow> registry_leaf" where
  "leaf_of x = \<lparr>rl_asset = x ! 0, rl_issuer_key = [x ! 1, x ! 2, x ! 3, x ! 4], rl_mode = x ! 5,
     rl_freeze_root = [x ! 6, x ! 7, x ! 8, x ! 9], rl_allow_root = [x ! 10, x ! 11, x ! 12, x ! 13], rl_flags = x ! 14\<rparr>"

section \<open>The tree\<close>

datatype registry_error =
    AssetOutOfRange u64
  | DuplicateAsset u16
  | AssetZeroNotWritable
  | SlotAssetMismatch u64 u64

type_synonym registry_level = "(nat \<times> digest) list"

record registry_tree =
  rt_leaves :: "(u16 \<times> registry_leaf) list"
  rt_levels :: "registry_level list"

fun gather_leaves :: "registry_leaf list \<Rightarrow> (u16 \<times> registry_leaf) list \<Rightarrow> registry_error + (u16 \<times> registry_leaf) list" where
  "gather_leaves [] by_asset = Ok by_asset"
| "gather_leaves (l # ls) by_asset =
    (if unat (rl_asset l) \<ge> 2 ^ registry_depth then Err (AssetOutOfRange (rl_asset l))
     else (let a = (ucast (rl_asset l) :: u16)
           in if map_of by_asset a \<noteq> None then Err (DuplicateAsset a)
              else gather_leaves ls (bt_insert a l by_asset)))"

definition slot_get :: "nat \<Rightarrow> registry_level \<Rightarrow> nat \<Rightarrow> digest" where
  "slot_get lvl m i = (case map_of m i of None \<Rightarrow> zeros ! lvl | Some x \<Rightarrow> x)"

definition level_up :: "nat \<Rightarrow> registry_level \<Rightarrow> registry_level" where
  "level_up lvl below =
    fold (\<lambda>i up. let parent = i div 2
                 in if map_of up parent \<noteq> None then up
                    else bt_insert parent (hash_node (slot_get lvl below (2 * (i div 2))) (slot_get lvl below (2 * (i div 2) + 1))) up)
      (map fst below) []"

fun build_levels :: "nat \<Rightarrow> nat \<Rightarrow> registry_level \<Rightarrow> registry_level list" where
  "build_levels 0 lvl below = [below]"
| "build_levels (Suc n) lvl below = below # build_levels n (lvl + 1) (level_up lvl below)"

definition bottom_level :: "(u16 \<times> registry_leaf) list \<Rightarrow> registry_level" where
  "bottom_level by_asset = map (\<lambda>(a, l). (unat a, leaf_hash l)) by_asset"

fun check_slots :: "(u16 \<times> registry_leaf) list \<Rightarrow> registry_level \<Rightarrow> registry_error + unit" where
  "check_slots leaves [] = Ok ()"
| "check_slots leaves ((slot, x) # rest) =
    (case map_of leaves (word_of_nat slot) of
       Some l \<Rightarrow> if unat (rl_asset l) = slot \<and> leaf_hash l = x then check_slots leaves rest
                 else Err (SlotAssetMismatch (word_of_nat slot) (rl_asset l))
     | None \<Rightarrow> Err (SlotAssetMismatch (word_of_nat slot) umax))"

definition check_invariant :: "registry_tree \<Rightarrow> registry_error + unit" where
  "check_invariant t = check_slots (rt_leaves t) (rt_levels t ! 0)"

definition from_leaves :: "registry_leaf list \<Rightarrow> registry_error + registry_tree" where
  "from_leaves ls =
    rbind (gather_leaves ls []) (\<lambda>by_asset.
      let t = \<lparr>rt_leaves = by_asset, rt_levels = build_levels registry_depth 0 (bottom_level by_asset)\<rparr>
      in rbind (check_invariant t) (\<lambda>_. Ok t))"

definition registry_root :: "registry_tree \<Rightarrow> digest" where
  "registry_root t = slot_get registry_depth (rt_levels t ! registry_depth) 0"

definition leaf_at :: "registry_tree \<Rightarrow> u16 \<Rightarrow> registry_leaf option" where
  "leaf_at t a = map_of (rt_leaves t) a"

definition witness_at :: "registry_level list \<Rightarrow> u16 \<Rightarrow> merkle_witness" where
  "witness_at levels a =
    \<lparr>mw_siblings = map (\<lambda>lvl. slot_get lvl (levels ! lvl) (sibling_of (unat a div 2 ^ lvl))) [0..<registry_depth],
     mw_path_bits = map (\<lambda>lvl. unat a div 2 ^ lvl mod 2 = 1) [0..<registry_depth]\<rparr>"

definition registry_witness :: "registry_tree \<Rightarrow> u16 \<Rightarrow> merkle_witness option" where
  "registry_witness t a = map_option (\<lambda>_. witness_at (rt_levels t) a) (leaf_at t a)"

definition opening_at :: "registry_tree \<Rightarrow> u16 \<Rightarrow> merkle_witness" where
  "opening_at t slot = witness_at (rt_levels t) slot"

definition path_bits_of :: "u16 \<Rightarrow> bool list" where
  "path_bits_of a = map (\<lambda>lvl. unat a div 2 ^ lvl mod 2 = 1) [0..<registry_depth]"

definition apply_update :: "registry_leaf \<Rightarrow> registry_tree \<Rightarrow> registry_error + registry_tree" where
  "apply_update l t =
    (if unat (rl_asset l) \<ge> 2 ^ registry_depth then Err (AssetOutOfRange (rl_asset l))
     else if rl_asset l = 0 then Err AssetZeroNotWritable
     else from_leaves (map snd (bt_insert (ucast (rl_asset l)) l (rt_leaves t))))"

section \<open>The store\<close>

text \<open>\<open>MemRegistryStore\<close> wraps the tree; its sidecar file holds a version, a height and the leaves' lanes.\<close>

definition apply_write :: "u64 list \<Rightarrow> registry_tree \<Rightarrow> registry_error + registry_tree" where
  "apply_write lanes t = apply_update (leaf_of lanes) t"

definition registry_root_bytes :: "registry_tree \<Rightarrow> hash32" where
  "registry_root_bytes t = digest_bytes (registry_root t)"

record registry_sidecar =
  rs_format_version :: u32
  rs_applied_height :: u64
  rs_leaves :: "u64 list list"

definition registry_format_version :: u32 where "registry_format_version = 1"

definition save_sidecar :: "registry_tree \<Rightarrow> u64 \<Rightarrow> registry_sidecar" where
  "save_sidecar t h = \<lparr>rs_format_version = registry_format_version, rs_applied_height = h, rs_leaves = map (lanes_of \<circ> snd) (rt_leaves t)\<rparr>"

datatype sidecar_error = SidecarVersion u32 | SidecarRegistry registry_error

definition load_sidecar :: "registry_sidecar \<Rightarrow> sidecar_error + registry_tree \<times> u64" where
  "load_sidecar s =
    (if rs_format_version s \<noteq> registry_format_version then Err (SidecarVersion (rs_format_version s))
     else (case from_leaves (map leaf_of (rs_leaves s)) of
             Inl e \<Rightarrow> Err (SidecarRegistry e)
           | Inr t \<Rightarrow> Ok (t, rs_applied_height s)))"

section \<open>Wire forms\<close>

datatype registry_wire_error =
    WrongLength nat nat
  | BadVersion u8
  | WireAssetOutOfRange u64
  | BadOccupancy u8
  | EmptySlotCarriesLeaf
  | WireSlotMismatch u16 u64

record registry_opening =
  ro_height :: u64
  ro_root :: digest
  ro_leaf :: registry_leaf
  ro_witness :: merkle_witness

record registry_slot_opening =
  so_height :: u64
  so_root :: digest
  so_slot :: u16
  so_leaf :: "registry_leaf option"
  so_witness :: merkle_witness

definition registry_wire_version :: u8 where "registry_wire_version = 1"
definition registry_root_len :: nat where "registry_root_len = 1 + 8 + 32"
definition registry_opening_len :: nat where "registry_opening_len = registry_root_len + 15 * 8 + registry_depth * 32"
definition registry_slot_opening_len :: nat where
  "registry_slot_opening_len = registry_root_len + 2 + 1 + 15 * 8 + registry_depth * 32"

definition slot_leaf_digest :: "registry_slot_opening \<Rightarrow> digest" where
  "slot_leaf_digest s = (case so_leaf s of None \<Rightarrow> [0, 0, 0, 0] | Some l \<Rightarrow> leaf_hash l)"

definition encode_registry_root :: "u64 \<Rightarrow> digest \<Rightarrow> bytes" where
  "encode_registry_root h r = registry_wire_version # u64_le h @ digest_bytes r"

definition registry_head :: "bytes \<Rightarrow> registry_wire_error + (u64 \<times> digest)" where
  "registry_head b =
    (if b ! 0 \<noteq> registry_wire_version then Err (BadVersion (b ! 0))
     else Ok (u64_from_le (slice_at 1 8 b), digest_from_bytes (slice_at 9 32 b)))"

definition decode_registry_root :: "bytes \<Rightarrow> registry_wire_error + (u64 \<times> digest)" where
  "decode_registry_root b =
    (if length b \<noteq> registry_root_len then Err (WrongLength (length b) registry_root_len) else registry_head b)"

definition encode_opening_parts :: "u64 \<Rightarrow> digest \<Rightarrow> registry_leaf \<Rightarrow> digest list \<Rightarrow> bytes" where
  "encode_opening_parts h r l sibs =
    encode_registry_root h r @ concat (map u64_le (take 15 (leaf_state l))) @ concat (map digest_bytes sibs)"

definition encode_registry_opening :: "registry_tree \<Rightarrow> u64 \<Rightarrow> u16 \<Rightarrow> bytes option" where
  "encode_registry_opening t h a =
    Option.bind (leaf_at t a) (\<lambda>l. map_option (\<lambda>w. encode_opening_parts h (registry_root t) l (mw_siblings w)) (registry_witness t a))"

definition lane_at :: "nat \<Rightarrow> bytes \<Rightarrow> nat \<Rightarrow> u64" where
  "lane_at base b i = u64_from_le (slice_at (base + i * 8) 8 b)"

definition read_leaf :: "nat \<Rightarrow> bytes \<Rightarrow> registry_leaf" where
  "read_leaf base b = leaf_of (map (lane_at base b) [0..<15])"

definition read_siblings :: "nat \<Rightarrow> bytes \<Rightarrow> digest list" where
  "read_siblings base b = map (\<lambda>i. digest_from_bytes (slice_at (base + i * 32) 32 b)) [0..<registry_depth]"

definition decode_registry_opening :: "bytes \<Rightarrow> registry_wire_error + registry_opening" where
  "decode_registry_opening b =
    (if length b \<noteq> registry_opening_len then Err (WrongLength (length b) registry_opening_len)
     else rbind (registry_head b) (\<lambda>(h, r).
       let l = read_leaf registry_root_len b
       in if unat (rl_asset l) \<ge> 2 ^ registry_depth then Err (WireAssetOutOfRange (rl_asset l))
          else Ok \<lparr>ro_height = h, ro_root = r, ro_leaf = l,
                 ro_witness = \<lparr>mw_siblings = read_siblings (registry_root_len + 15 * 8) b, mw_path_bits = path_bits_of (ucast (rl_asset l))\<rparr>\<rparr>))"

definition encode_registry_slot :: "registry_tree \<Rightarrow> u64 \<Rightarrow> u16 \<Rightarrow> bytes" where
  "encode_registry_slot t h slot =
    encode_registry_root h (registry_root t) @ u16_le slot @ [if leaf_at t slot \<noteq> None then 1 else 0]
    @ concat (map u64_le (case leaf_at t slot of Some l \<Rightarrow> take 15 (leaf_state l) | None \<Rightarrow> replicate 15 0))
    @ concat (map digest_bytes (mw_siblings (opening_at t slot)))"

definition read_slot_leaf :: "u16 \<Rightarrow> u8 \<Rightarrow> nat \<Rightarrow> bytes \<Rightarrow> registry_wire_error + registry_leaf option" where
  "read_slot_leaf slot occupied lane0 b =
    (if occupied = 0 then (if list_all (\<lambda>i. lane_at lane0 b i = 0) [0..<15] then Ok None else Err EmptySlotCarriesLeaf)
     else if occupied = 1
     then (if lane_at lane0 b 0 \<noteq> ucast slot then Err (WireSlotMismatch slot (lane_at lane0 b 0)) else Ok (Some (read_leaf lane0 b)))
     else Err (BadOccupancy occupied))"

definition decode_registry_slot :: "bytes \<Rightarrow> registry_wire_error + registry_slot_opening" where
  "decode_registry_slot b =
    (if length b \<noteq> registry_slot_opening_len then Err (WrongLength (length b) registry_slot_opening_len)
     else rbind (registry_head b) (\<lambda>(h, r).
       let slot = u16_from_le (slice_at registry_root_len 2 b); occupied = b ! (registry_root_len + 2); lane0 = registry_root_len + 3
       in rbind (read_slot_leaf slot occupied lane0 b) (\<lambda>l.
            Ok \<lparr>so_height = h, so_root = r, so_slot = slot, so_leaf = l,
                 so_witness = \<lparr>mw_siblings = read_siblings (lane0 + 15 * 8) b, mw_path_bits = path_bits_of slot\<rparr>\<rparr>)))"
section \<open>Building\<close>

definition leaf_key :: "registry_leaf \<Rightarrow> u16" where
  "leaf_key l = ucast (rl_asset l)"

definition in_slot :: "(u16 \<times> registry_leaf) list \<Rightarrow> bool" where
  "in_slot m \<longleftrightarrow> bt_ok m \<and> (\<forall>(a, l) \<in> set m. unat (rl_asset l) = unat a)"

lemma unat_leaf_key: "unat (rl_asset l) < 2 ^ registry_depth \<Longrightarrow> unat (leaf_key l) = unat (rl_asset l)"
  by (simp add: leaf_key_def registry_depth_def unsigned_ucast_eq take_bit_nat_eq_self)

lemma in_slotD: "in_slot m \<Longrightarrow> map_of m a = Some l \<Longrightarrow> unat (rl_asset l) = unat a"
  using map_of_SomeD [of m a l] by (auto simp: in_slot_def)

lemma in_slot_insert:
  assumes "in_slot m" and "unat (rl_asset l) < 2 ^ registry_depth"
  shows "in_slot (bt_insert (leaf_key l) l m)"
proof -
  have ok: "bt_ok m" "bt_ok (bt_insert (leaf_key l) l m)" using assms(1) by (simp_all add: in_slot_def bt_ok_insert)
  have "unat (rl_asset x) = unat a" if "(a, x) \<in> set (bt_insert (leaf_key l) l m)" for a x
    using that unat_leaf_key [OF assms(2)] in_slotD [OF assms(1)]
    by (auto simp: bt_ok_mem [OF ok(2)] map_of_bt_insert split: if_splits)
  then show ?thesis using ok(2) by (auto simp: in_slot_def)
qed

lemma gather_Ok:
  assumes "gather_leaves ls m = Ok m'" and "in_slot m"
  shows "in_slot m' \<and> (\<forall>l \<in> set ls. unat (rl_asset l) < 2 ^ registry_depth) \<and> distinct (map rl_asset ls)
    \<and> (\<forall>l \<in> set ls. map_of m (leaf_key l) = None)
    \<and> (\<forall>a l. map_of m' a = Some l \<longleftrightarrow> map_of m a = Some l \<or> l \<in> set ls \<and> leaf_key l = a)"
  using assms
proof (induction ls arbitrary: m)
  case (Cons l ls)
  have r: "unat (rl_asset l) < 2 ^ registry_depth" and none: "map_of m (leaf_key l) = None"
      and rest: "gather_leaves ls (bt_insert (leaf_key l) l m) = Ok m'"
    using Cons.prems(1) by (auto simp: Let_def leaf_key_def split: if_splits)
  note IH = Cons.IH [OF rest in_slot_insert [OF Cons.prems(2) r]]
  have fresh: "leaf_key x \<noteq> leaf_key l \<and> map_of m (leaf_key x) = None" if "x \<in> set ls" for x
    using IH that by (auto simp: map_of_bt_insert split: if_splits)
  have "rl_asset l \<notin> rl_asset ` set ls"
  proof
    assume "rl_asset l \<in> rl_asset ` set ls"
    then obtain x where "x \<in> set ls" "rl_asset l = rl_asset x" by blast
    then show False using fresh [of x] by (simp add: leaf_key_def)
  qed
  then show ?case using IH r none fresh by (auto simp: map_of_bt_insert)
qed auto

lemma gather_exists:
  assumes "\<forall>l \<in> set ls. unat (rl_asset l) < 2 ^ registry_depth" and "distinct (map rl_asset ls)"
    and "\<forall>l \<in> set ls. map_of m (leaf_key l) = None"
  shows "\<exists>m'. gather_leaves ls m = Ok m'"
  using assms
proof (induction ls arbitrary: m)
  case (Cons l ls)
  have "leaf_key x \<noteq> leaf_key l" if "x \<in> set ls" for x
  proof
    assume "leaf_key x = leaf_key l"
    then have "unat (rl_asset x) = unat (rl_asset l)" using Cons.prems(1) that by (metis unat_leaf_key list.set_intros)
    then have "rl_asset x = rl_asset l" by (rule word_unat_eq_iff [THEN iffD2])
    then show False using Cons.prems(2) that by (metis distinct.simps(2) image_eqI list.map(2) set_map)
  qed
  then have "\<forall>x \<in> set ls. map_of (bt_insert (leaf_key l) l m) (leaf_key x) = None"
    using Cons.prems(3) by (auto simp: map_of_bt_insert)
  then show ?case using Cons.IH [of "bt_insert (leaf_key l) l m"] Cons.prems by (auto simp: Let_def leaf_key_def)
qed simp

lemma word_of_nat_slot: "(word_of_nat (unat a) :: u16) = a"
  by simp

lemma bottom_level_map:
  assumes "p < 2 ^ registry_depth"
  shows "map_of (bottom_level m) p = map_option leaf_hash (map_of m (word_of_nat p))"
proof -
  have u: "unat (word_of_nat p :: u16) = p" using assms by (intro unat_of_nat_len) (simp add: registry_depth_def)
  show ?thesis
  proof (induction m)
    case (Cons x m)
    obtain a l where x: "x = (a, l)" by fastforce
    show ?case
    proof (cases "a = word_of_nat p")
      case True
      then show ?thesis using u by (simp add: x bottom_level_def)
    next
      case False
      then have "p \<noteq> unat a" by auto
      then show ?thesis using False Cons by (simp add: x bottom_level_def)
    qed
  qed (simp add: bottom_level_def)
qed

lemma check_slots_total:
  assumes "in_slot m" and "\<forall>(a, l) \<in> set n. map_of m a = Some l"
  shows "check_slots m (bottom_level n) = Ok ()"
proof -
  have "unat (rl_asset l) = unat a" if "map_of m a = Some l" for a l
    using that assms(1) map_of_SomeD [OF that] by (auto simp: in_slot_def)
  then show ?thesis using assms(2) by (induction n) (auto simp: bottom_level_def)
qed

section \<open>Levels\<close>

lemma level_fold_map:
  "map_of (fold (\<lambda>i up. let parent = i div 2 in if map_of up parent \<noteq> None then up else bt_insert parent (H (i div 2)) up) is up) p
    = (case map_of up p of Some x \<Rightarrow> Some x | None \<Rightarrow> if \<exists>i \<in> set is. i div 2 = p then Some (H p) else None)"
  by (induction "is" arbitrary: up) (auto simp: Let_def map_of_bt_insert split: option.splits)

lemma slot_get_level_up:
  assumes "lvl < tree_depth"
  shows "slot_get (Suc lvl) (level_up lvl m) p = hash_node (slot_get lvl m (2 * p)) (slot_get lvl m (2 * p + 1))"
proof -
  let ?H = "\<lambda>p. hash_node (slot_get lvl m (2 * p)) (slot_get lvl m (2 * p + 1))"
  have "map_of (level_up lvl m) p = (if \<exists>i \<in> fst ` set m. i div 2 = p then Some (?H p) else None)"
    using level_fold_map [of ?H "map fst m" "[]" p] by (simp add: level_up_def)
  moreover have "slot_get lvl m (2 * p) = zeros ! lvl" "slot_get lvl m (2 * p + 1) = zeros ! lvl"
    if "\<not> (\<exists>i \<in> fst ` set m. i div 2 = p)"
  proof -
    have "2 * p \<notin> fst ` set m" "2 * p + 1 \<notin> fst ` set m" using that by force+
    then show "slot_get lvl m (2 * p) = zeros ! lvl" "slot_get lvl m (2 * p + 1) = zeros ! lvl"
      by (simp_all add: slot_get_def map_of_eq_None_iff [THEN iffD2])
  qed
  ultimately show ?thesis using zeros_Suc [OF assms] by (auto simp: slot_get_def)
qed

lemma build_levels_0: "build_levels n lvl m ! 0 = m"
  by (cases n) simp_all

lemma build_levels_Suc: "k < n \<Longrightarrow> build_levels n lvl m ! Suc k = level_up (lvl + k) (build_levels n lvl m ! k)"
proof (induction n lvl m arbitrary: k rule: build_levels.induct)
  case (2 n lvl m)
  show ?case
  proof (cases k)
    case 0
    then show ?thesis by (simp add: build_levels_0)
  next
    case (Suc j)
    then show ?thesis using "2.IH" [of j] "2.prems" by simp
  qed
qed simp

definition slot_node :: "registry_level \<Rightarrow> nat \<Rightarrow> nat \<Rightarrow> digest" where
  "slot_node m i k = slot_get i (build_levels registry_depth 0 m ! i) k"

interpretation reg: node_tree "slot_node m" registry_depth for m
proof
  show "slot_node m (Suc i) k = hash_node (slot_node m i (2 * k)) (slot_node m i (2 * k + 1))" if "i < registry_depth" for i k
    using slot_get_level_up [of i] build_levels_Suc [OF that, of 0 m] that
    by (simp add: slot_node_def registry_depth_def tree_depth_def)
qed

lemma slot_node_0: "slot_node m 0 p = slot_get 0 m p"
  by (simp add: slot_node_def build_levels_0)

text \<open>What a registry is, once built: its leaves in their slots, its levels over them.\<close>

definition wf_registry :: "registry_tree \<Rightarrow> bool" where
  "wf_registry t \<longleftrightarrow> in_slot (rt_leaves t) \<and> rt_levels t = build_levels registry_depth 0 (bottom_level (rt_leaves t))"

lemma from_leaves_Ok:
  assumes "from_leaves ls = Ok t"
  shows "wf_registry t \<and> (\<forall>l \<in> set ls. unat (rl_asset l) < 2 ^ registry_depth) \<and> distinct (map rl_asset ls)
    \<and> (\<forall>a l. leaf_at t a = Some l \<longleftrightarrow> l \<in> set ls \<and> leaf_key l = a)"
proof -
  obtain m where m: "gather_leaves ls [] = Ok m" "t = \<lparr>rt_leaves = m, rt_levels = build_levels registry_depth 0 (bottom_level m)\<rparr>"
    using assms by (auto simp: from_leaves_def Let_def)
  show ?thesis using gather_Ok [OF m(1)] by (auto simp: m(2) wf_registry_def leaf_at_def in_slot_def)
qed

lemma from_leaves_exists:
  assumes "\<forall>l \<in> set ls. unat (rl_asset l) < 2 ^ registry_depth" and "distinct (map rl_asset ls)"
  shows "\<exists>t. from_leaves ls = Ok t"
proof -
  obtain m where m: "gather_leaves ls [] = Ok m" using gather_exists [OF assms, of "[]"] by auto
  then have ok: "in_slot m" using gather_Ok [OF m] by (simp add: in_slot_def)
  have "check_slots m (bottom_level m) = Ok ()"
    by (rule check_slots_total [OF ok]) (use ok in \<open>auto simp: in_slot_def bt_ok_mem\<close>)
  then show ?thesis using m by (simp add: from_leaves_def Let_def check_invariant_def build_levels_0)
qed

lemma registry_slot_digest:
  assumes "wf_registry t"
  shows "slot_node (bottom_level (rt_leaves t)) 0 (unat a) = (case leaf_at t a of None \<Rightarrow> empty_leaf | Some l \<Rightarrow> leaf_hash l)"
proof -
  have "unat a < 2 ^ registry_depth" using unat_lt_exp [of a] by (simp add: registry_depth_def)
  then show ?thesis by (simp add: slot_node_0 slot_get_def bottom_level_map leaf_at_def zeros_nth split: option.splits)
qed

lemma registry_root_node: "wf_registry t \<Longrightarrow> registry_root t = slot_node (bottom_level (rt_leaves t)) registry_depth 0"
  by (simp add: wf_registry_def registry_root_def slot_node_def)

lemma length_leaf_hash [simp]: "length (leaf_hash l) = 4"
  by (simp add: leaf_hash_def)

lemma length_slot_node:
  assumes "i \<le> registry_depth"
  shows "length (slot_node (bottom_level m) i k) = 4"
proof (cases i)
  case 0
  have "length (slot_get 0 (bottom_level m) k) = 4"
  proof (cases "map_of (bottom_level m) k")
    case None
    then show ?thesis by (simp add: slot_get_def zeros_nth empty_leaf_def)
  next
    case (Some x)
    then show ?thesis using map_of_SomeD [OF Some] by (auto simp: slot_get_def bottom_level_def)
  qed
  then show ?thesis by (simp add: 0 slot_node_0)
next
  case (Suc j)
  then show ?thesis using reg.node [of j "bottom_level m" k] assms by simp
qed
section \<open>Updates\<close>

lemma bt_ok_unique:
  assumes "bt_ok m" and "bt_ok n" and "map_of m = map_of n"
  shows "m = n"
proof (rule map_sorted_distinct_set_unique [where f = fst])
  have "set m = set n" using bt_ok_mem [OF assms(1)] bt_ok_mem [OF assms(2)] assms(3) by auto
  then show "set m = set n" "inj_on fst (set m \<union> set n)"
    using bt_ok_distinct [OF assms(1)] by (auto simp: distinct_map)
qed (use assms(1,2) in \<open>auto simp: bt_ok_def strict_sorted_iff\<close>)

lemma in_slot_assets:
  assumes "in_slot m"
  shows "distinct (map rl_asset (map snd m)) \<and> (\<forall>l \<in> set (map snd m). unat (rl_asset l) < 2 ^ registry_depth)
    \<and> (\<forall>(a, l) \<in> set m. leaf_key l = a)"
proof -
  have u: "unat (rl_asset l) = unat a" if "(a, l) \<in> set m" for a l using that assms by (auto simp: in_slot_def)
  have r: "unat (rl_asset l) < 2 ^ registry_depth" if "(a, l) \<in> set m" for a l
    using u [OF that] unat_lt_exp [of a] by (simp add: registry_depth_def)
  have "leaf_key l = a" if "(a, l) \<in> set m" for a l
    using u [OF that] unat_leaf_key [OF r [OF that]] by (intro word_unat_eq_iff [THEN iffD2]) simp
  moreover have "distinct (map rl_asset (map snd m))"
  proof -
    have "map (\<lambda>l. unat (rl_asset l)) (map snd m) = map unat (map fst m)" using u by auto
    moreover have "distinct (map unat (map fst m))"
    proof -
      have "inj_on unat A" for A :: "u16 set" by (simp add: inj_on_def word_unat_eq_iff)
      moreover have "distinct (map fst m)" using assms by (simp add: in_slot_def bt_ok_distinct)
      ultimately show ?thesis by (simp only: distinct_map [of unat "map fst m"])
    qed
    ultimately have "distinct (map (\<lambda>l. unat (rl_asset l)) (map snd m))" by (simp only:)
    moreover have "map (\<lambda>l. unat (rl_asset l)) (map snd m) = map unat (map rl_asset (map snd m))" by simp
    ultimately have "distinct (map unat (map rl_asset (map snd m)))" by (simp only:)
    then show ?thesis by (rule distinct_map [THEN iffD1, THEN conjunct1])
  qed
  ultimately show ?thesis using r by auto
qed

lemma from_leaves_values:
  assumes "in_slot m"
  shows "from_leaves (map snd m) = Ok \<lparr>rt_leaves = m, rt_levels = build_levels registry_depth 0 (bottom_level m)\<rparr>"
proof -
  note a = in_slot_assets [OF assms]
  obtain t where t: "from_leaves (map snd m) = Ok t" using from_leaves_exists [of "map snd m"] a by blast
  note ok = from_leaves_Ok [OF t]
  have bt: "bt_ok m" "bt_ok (rt_leaves t)" using assms ok by (simp_all add: in_slot_def wf_registry_def)
  have "leaf_at t k = Some l \<longleftrightarrow> map_of m k = Some l" for k l
    using ok a bt_ok_mem [OF bt(1)] by (auto simp: case_prod_beta image_iff) (metis fst_conv snd_conv)+
  then have "map_of (rt_leaves t) = map_of m" unfolding leaf_at_def by (metis option.collapse ext)
  then have "rt_leaves t = m" by (rule bt_ok_unique [OF bt(2,1)])
  then show ?thesis using t ok by (cases t) (simp add: wf_registry_def)
qed

lemma registry_rebuilds: "wf_registry t \<Longrightarrow> from_leaves (map snd (rt_leaves t)) = Ok t"
  using from_leaves_values [of "rt_leaves t"] by (cases t) (simp add: wf_registry_def)

lemma apply_update_Ok:
  assumes "wf_registry t" and "unat (rl_asset l) < 2 ^ registry_depth" and "rl_asset l \<noteq> 0"
  shows "\<exists>t'. apply_update l t = Ok t' \<and> wf_registry t' \<and> rt_leaves t' = bt_insert (leaf_key l) l (rt_leaves t)"
proof -
  have "in_slot (bt_insert (leaf_key l) l (rt_leaves t))" using assms(1,2) by (intro in_slot_insert) (simp_all add: wf_registry_def)
  from from_leaves_values [OF this] this show ?thesis
    using assms(2,3) by (simp add: apply_update_def wf_registry_def leaf_key_def not_le)
qed

text \<open>The registry states: genesis leaves, then any attempted updates.\<close>

inductive registry_reach :: "registry_tree \<Rightarrow> bool" where
  Reg_Genesis: "from_leaves ls = Ok t \<Longrightarrow> registry_reach t"
| Reg_Update: "registry_reach t \<Longrightarrow> apply_update l t = Ok t' \<Longrightarrow> registry_reach t'"

lemma registry_reach_wf: "registry_reach t \<Longrightarrow> wf_registry t"
proof (induction rule: registry_reach.induct)
  case (Reg_Genesis ls t)
  then show ?case using from_leaves_Ok by blast
next
  case (Reg_Update t l t')
  then have "unat (rl_asset l) < 2 ^ registry_depth" "rl_asset l \<noteq> 0" by (auto simp: apply_update_def not_le split: if_splits)
  then obtain t'' where "apply_update l t = Ok t''" "wf_registry t''" using apply_update_Ok [OF Reg_Update.IH] by blast
  then show ?case using Reg_Update.hyps(2) by simp
qed

definition slot_digest :: "registry_tree \<Rightarrow> u16 \<Rightarrow> digest" where
  "slot_digest t a = (case leaf_at t a of None \<Rightarrow> empty_leaf | Some l \<Rightarrow> leaf_hash l)"

definition node_at :: "registry_tree \<Rightarrow> nat \<Rightarrow> nat \<Rightarrow> digest" where
  "node_at t i k = slot_get i (rt_levels t ! i) k"

lemma node_at_slot_node: "wf_registry t \<Longrightarrow> node_at t i k = slot_node (bottom_level (rt_leaves t)) i k"
  by (simp add: wf_registry_def node_at_def slot_node_def)

lemma node_at_slot: "wf_registry t \<Longrightarrow> node_at t 0 (unat a) = slot_digest t a"
  by (simp add: node_at_slot_node registry_slot_digest slot_digest_def)

lemma node_at_tree: "wf_registry t \<Longrightarrow> node_tree (node_at t) registry_depth"
  using reg.node_tree_axioms [of "bottom_level (rt_leaves t)"] node_at_slot_node [of t] by presburger

lemma opening_folds:
  assumes "wf_registry t"
  shows "fold_root (opening_at t a) (slot_digest t a) = registry_root t"
proof -
  let ?nd = "slot_node (bottom_level (rt_leaves t))"
  have "fold_root (opening_at t a) (?nd 0 (unat a)) = ?nd registry_depth 0"
  proof (rule reg.witness_folds)
    show "mw_siblings (opening_at t a) = map (\<lambda>i. ?nd i (sibling_of (unat a div 2 ^ i))) [0..<registry_depth]"
      using assms by (simp add: opening_at_def witness_at_def slot_node_def wf_registry_def)
    show "mw_path_bits (opening_at t a) = map (\<lambda>i. unat a div 2 ^ i mod 2 = 1) [0..<registry_depth]"
      by (simp add: opening_at_def witness_at_def)
    show "unat a < 2 ^ registry_depth" using unat_lt_exp [of a] by (simp add: registry_depth_def)
  qed
  then show ?thesis by (simp add: registry_slot_digest [OF assms] slot_digest_def registry_root_node [OF assms])
qed

section \<open>Properties\<close>

text \<open>the registry's root is the root of the full Merkle tree of depth 16 over its slots, empty slots included, and every
  slot's opening, of an asset or of an empty slot, folds to it.\<close>

theorem registry_root_is_merkle:
  assumes "registry_reach t"
  shows "registry_root t = merkle registry_depth (map (\<lambda>p. slot_digest t (word_of_nat p)) [0..<2 ^ registry_depth])
    \<and> fold_root (opening_at t a) (slot_digest t a) = registry_root t"
proof -
  have wf: "wf_registry t" by (rule registry_reach_wf [OF assms])
  let ?nd = "slot_node (bottom_level (rt_leaves t))"
  have "?nd 0 p = slot_digest t (word_of_nat p)" if "p < 2 ^ registry_depth" for p
  proof -
    have "unat (word_of_nat p :: u16) = p" using that by (intro unat_of_nat_len) (simp add: registry_depth_def)
    then show ?thesis using registry_slot_digest [OF wf, of "word_of_nat p"] by (simp add: slot_digest_def)
  qed
  then have "map (?nd 0) [0 * 2 ^ registry_depth..<(0 + 1) * 2 ^ registry_depth] = map (\<lambda>p. slot_digest t (word_of_nat p)) [0..<2 ^ registry_depth]"
    by (intro map_cong) auto
  then have "registry_root t = merkle registry_depth (map (\<lambda>p. slot_digest t (word_of_nat p)) [0..<2 ^ registry_depth])"
    using reg.node_merkle [OF order.refl, of "bottom_level (rt_leaves t)" 0] registry_root_node [OF wf] by (simp only:)
  then show ?thesis using opening_folds [OF wf] by simp
qed

text \<open>an update writes its leaf into the asset's own slot and nothing else, and is refused exactly for the fee unit's slot
  and for an asset outside the registry; the rebuild never reports a broken invariant.\<close>

theorem registry_update_exact:
  assumes "registry_reach t"
  shows "(case apply_update l t of
      Inr t' \<Rightarrow> rl_asset l \<noteq> 0 \<and> unat (rl_asset l) < 65536 \<and> leaf_at t' = (leaf_at t)(ucast (rl_asset l) \<mapsto> l) \<and> check_invariant t' = Ok ()
    | Inl e \<Rightarrow> (if rl_asset l = 0 then e = AssetZeroNotWritable else 65536 \<le> unat (rl_asset l) \<and> e = AssetOutOfRange (rl_asset l)))"
proof (cases "rl_asset l \<noteq> 0 \<and> unat (rl_asset l) < 65536")
  case True
  then obtain t' where t': "apply_update l t = Ok t'" "wf_registry t'" "rt_leaves t' = bt_insert (leaf_key l) l (rt_leaves t)"
    using apply_update_Ok [OF registry_reach_wf [OF assms]] by (auto simp: registry_depth_def)
  have "in_slot (rt_leaves t')" using t'(2) by (simp add: wf_registry_def)
  moreover from this have "\<forall>(a, l) \<in> set (rt_leaves t'). map_of (rt_leaves t') a = Some l" by (auto simp: in_slot_def bt_ok_mem)
  ultimately have "check_invariant t' = Ok ()"
    using check_slots_total t'(2) by (simp add: check_invariant_def wf_registry_def build_levels_0)
  then show ?thesis using True t' by (simp add: leaf_at_def [abs_def] map_of_bt_insert leaf_key_def)
next
  case False
  then show ?thesis by (auto simp: apply_update_def registry_depth_def)
qed

text \<open>C39: a registry root binds the registry: two registries with one root have the same leaf in every slot, or a node of the
  two trees, or a slot, is where two different preimages hash alike.\<close>

theorem registry_root_binds:
  assumes "registry_reach t" and "registry_reach t'" and "registry_root t = registry_root t'"
  shows "leaf_at t = leaf_at t'
    \<or> (\<exists>i < registry_depth. \<exists>k. (node_at t i (2 * k), node_at t i (2 * k + 1)) \<noteq> (node_at t' i (2 * k), node_at t' i (2 * k + 1))
        \<and> hash_node (node_at t i (2 * k)) (node_at t i (2 * k + 1)) = hash_node (node_at t' i (2 * k)) (node_at t' i (2 * k + 1)))
    \<or> (\<exists>a. leaf_at t a \<noteq> leaf_at t' a \<and> slot_digest t a = slot_digest t' a)"
proof (cases "leaf_at t = leaf_at t'")
  case False
  then obtain a where a: "leaf_at t a \<noteq> leaf_at t' a" by blast
  have wf: "wf_registry t" "wf_registry t'" using assms(1,2) registry_reach_wf by blast+
  show ?thesis
  proof (cases "slot_digest t a = slot_digest t' a")
    case True
    then show ?thesis using a by blast
  next
    case False
    have "unat a div 2 ^ registry_depth = 0" using unat_lt_exp [of a] by (simp add: registry_depth_def)
    moreover have "node_at t 0 (unat a) \<noteq> node_at t' 0 (unat a)" using False wf by (simp add: node_at_slot)
    moreover have "node_at t registry_depth 0 = node_at t' registry_depth 0" using assms(3) by (simp add: node_at_def registry_root_def)
    ultimately show ?thesis using node_trees_differ [OF node_at_tree [OF wf(1)] node_at_tree [OF wf(2)]] by blast
  qed
qed blast
section \<open>Codecs\<close>

definition wf_leaf :: "registry_leaf \<Rightarrow> bool" where
  "wf_leaf l \<longleftrightarrow> length (rl_issuer_key l) = 4 \<and> length (rl_freeze_root l) = 4 \<and> length (rl_allow_root l) = 4"

lemma four: "length xs = 4 \<Longrightarrow> xs = [xs ! 0, xs ! 1, xs ! 2, xs ! 3]"
  by (rule nth_equalityI) (auto simp: nth_Cons' numeral_eq_Suc less_Suc_eq)

lemma leaf_lanes:
  assumes "wf_leaf l"
  shows "take 15 (leaf_state l) = [rl_asset l] @ rl_issuer_key l @ [rl_mode l] @ rl_freeze_root l @ rl_allow_root l @ [rl_flags l]"
    and "length (take 15 (leaf_state l)) = 15"
  using assms by (simp_all add: leaf_state_def wf_leaf_def)

lemma leaf_of_lanes: "wf_leaf l \<Longrightarrow> leaf_of (take 15 (leaf_state l)) = l"
  using four [of "rl_issuer_key l"] four [of "rl_freeze_root l"] four [of "rl_allow_root l"]
  unfolding leaf_lanes(1) by (cases l) (simp add: leaf_of_def wf_leaf_def nth_append)

lemma leaf_of_lanes_of: "wf_leaf l \<Longrightarrow> leaf_of (lanes_of l) = l"
  unfolding lanes_of_def by (rule leaf_of_lanes)

lemma slice_concat_block:
  assumes "i < length xs" and "\<And>x. x \<in> set xs \<Longrightarrow> length (f x) = n"
  shows "slice_at (length pre + i * n) n (pre @ concat (map f xs) @ rest) = f (xs ! i)"
proof -
  have "concat (map f xs) = concat (map f (take i xs)) @ f (xs ! i) @ concat (map f (drop (Suc i) xs))"
    using id_take_nth_drop [OF assms(1)] by (metis concat.simps(2) concat_append list.simps(9) map_append)
  moreover have "length (concat (map f (take i xs))) = i * n"
    using length_concat_same [of "map f (take i xs)" n] assms(1) in_set_takeD [of _ i xs] assms(2) by auto
  ultimately show ?thesis using assms by (simp add: slice_at_append slice_at_0_append)
qed

lemma lanes_at_written:
  "map (lane_at (length pre) (pre @ concat (map u64_le ls) @ rest)) [0..<length ls] = ls"
  by (rule nth_equalityI) (simp_all add: lane_at_def slice_concat_block)

lemma read_leaf_written:
  assumes "wf_leaf l" and "length pre = base"
  shows "read_leaf base (pre @ concat (map u64_le (take 15 (leaf_state l))) @ rest) = l"
  using lanes_at_written [of pre "take 15 (leaf_state l)" rest] assms leaf_lanes(2) [OF assms(1)] leaf_of_lanes
  by (simp add: read_leaf_def)

lemma read_siblings_written:
  assumes "length ss = registry_depth" and "list_all (\<lambda>s. length s = 4) ss" and "length pre = base"
  shows "read_siblings base (pre @ concat (map digest_bytes ss)) = ss"
proof (rule nth_equalityI)
  fix i assume "i < length (read_siblings base (pre @ concat (map digest_bytes ss)))"
  then have i: "i < length ss" using assms(1) by (simp add: read_siblings_def)
  then have four: "length (ss ! i) = 4" using assms(2) by (simp add: list_all_length)
  have "slice_at (length pre + i * 32) 32 (pre @ concat (map digest_bytes ss) @ []) = digest_bytes (ss ! i)"
    by (rule slice_concat_block [OF i]) (use assms(2) in \<open>simp add: list_all_iff length_digest_bytes\<close>)
  then show "read_siblings base (pre @ concat (map digest_bytes ss)) ! i = ss ! i"
    using i assms(1,3) read_lanes_at [OF four, of "[]" "[]"]
    by (simp add: read_siblings_def digest_from_bytes_def) (simp add: digest_bytes_def)
qed (simp add: read_siblings_def assms(1))

lemma head_written:
  assumes "length r = 4" and "b = encode_registry_root h r @ rest"
  shows "registry_head b = Ok (h, r)"
proof -
  have "slice_at 1 8 b = u64_le h" "slice_at 9 32 b = digest_bytes r"
    using length_digest_bytes [OF assms(1)] by (simp_all add: assms(2) encode_registry_root_def slice_at_def)
  then show ?thesis
    using read_lanes_at [OF assms(1), of "[]" "[]"]
    by (simp add: registry_head_def assms(2) encode_registry_root_def digest_from_bytes_def) (simp add: digest_bytes_def)
qed

lemma length_encoded_root: "length r = 4 \<Longrightarrow> length (encode_registry_root h r) = registry_root_len"
  by (simp add: encode_registry_root_def registry_root_len_def length_digest_bytes)

lemma siblings_four:
  assumes "wf_registry t"
  shows "length (mw_siblings (opening_at t a)) = registry_depth \<and> list_all (\<lambda>s. length s = 4) (mw_siblings (opening_at t a))
    \<and> mw_path_bits (opening_at t a) = path_bits_of a"
  using length_slot_node [of _ "rt_leaves t"] assms
  by (auto simp: opening_at_def witness_at_def path_bits_of_def list_all_iff wf_registry_def slot_node_def)

lemma length_registry_root: "wf_registry t \<Longrightarrow> length (registry_root t) = 4"
  by (simp add: registry_root_node length_slot_node)

lemma length_concat_lanes15: "length ls = 15 \<Longrightarrow> length (concat (map u64_le ls)) = 15 * 8"
  by (simp add: length_concat_lanes)

lemma length_siblings: "length ss = registry_depth \<Longrightarrow> list_all (\<lambda>s. length s = 4) ss \<Longrightarrow> length (concat (map digest_bytes ss)) = registry_depth * 32"
  using length_concat_same [of "map digest_bytes ss" 32] by (auto simp: list_all_iff length_digest_bytes)
text \<open>a slot opening a server sends decodes to the slot's own contents, and the client's check of it, the fold of the leaf
  along the path, succeeds against the root; for occupied and for empty slots.\<close>

theorem slot_opening_verifies:
  assumes "registry_reach t" and "list_all (\<lambda>(a, l). wf_leaf l) (rt_leaves t)"
  shows "\<exists>s. decode_registry_slot (encode_registry_slot t h slot) = Ok s \<and> so_height s = h \<and> so_slot s = slot
    \<and> so_root s = registry_root t \<and> so_leaf s = leaf_at t slot \<and> fold_root (so_witness s) (slot_leaf_digest s) = registry_root t"
proof -
  have wf: "wf_registry t" by (rule registry_reach_wf [OF assms(1)])
  define ls where "ls = (case leaf_at t slot of Some l \<Rightarrow> take 15 (leaf_state l) | None \<Rightarrow> replicate 15 0)"
  define ss where "ss = mw_siblings (opening_at t slot)"
  define pre where "pre = encode_registry_root h (registry_root t) @ u16_le slot @ [if leaf_at t slot \<noteq> None then 1 else (0 :: u8)]"
  define b where "b = encode_registry_slot t h slot"
  have b: "b = pre @ concat (map u64_le ls) @ concat (map digest_bytes ss)"
    by (simp add: b_def encode_registry_slot_def pre_def ls_def ss_def)
  have lwf: "wf_leaf l" if "leaf_at t slot = Some l" for l
    using that assms(2) map_of_SomeD [of "rt_leaves t" slot l] by (auto simp: leaf_at_def list_all_iff)
  have len: "length ls = 15" using lwf leaf_lanes(2) by (auto simp: ls_def split: option.splits)
  have lpre: "length pre = registry_root_len + 3" using length_encoded_root [OF length_registry_root [OF wf]] by (simp add: pre_def)
  have ss: "length ss = registry_depth" "list_all (\<lambda>s. length s = 4) ss" "mw_path_bits (opening_at t slot) = path_bits_of slot"
    using siblings_four [OF wf] by (simp_all add: ss_def)
  have total: "length b = registry_slot_opening_len"
    by (simp add: b lpre length_concat_lanes15 [OF len] length_siblings [OF ss(1,2)] registry_slot_opening_len_def)
  have head: "registry_head b = Ok (h, registry_root t)"
    by (rule head_written [OF length_registry_root [OF wf]]) (simp add: b pre_def)
  have slot: "u16_from_le (slice_at registry_root_len 2 b) = slot"
    using length_encoded_root [OF length_registry_root [OF wf], of h] by (simp add: b pre_def slice_at_append slice_at_0_append)
  have occ: "b ! (registry_root_len + 2) = (if leaf_at t slot \<noteq> None then 1 else 0)"
    using length_encoded_root [OF length_registry_root [OF wf], of h] by (simp add: b pre_def nth_append)
  have lanes: "map (lane_at (registry_root_len + 3) b) [0..<15] = ls"
    using lanes_at_written [of pre ls "concat (map digest_bytes ss)"] len lpre by (simp add: b)
  have sibs: "read_siblings (registry_root_len + 3 + 15 * 8) b = ss"
    using read_siblings_written [OF ss(1,2), of "pre @ concat (map u64_le ls)"] lpre length_concat_lanes15 [OF len] by (simp add: b)
  have leaf: "read_slot_leaf slot (b ! (registry_root_len + 2)) (registry_root_len + 3) b = Ok (leaf_at t slot)"
  proof (cases "leaf_at t slot")
    case None
    then have "ls = replicate 15 0" by (simp add: ls_def)
    then have "lane_at (registry_root_len + 3) b i = 0" if "i < 15" for i
      using that lanes by (metis diff_zero length_upt nth_map nth_replicate nth_upt add_0)
    then show ?thesis using None occ by (simp add: list_all_iff read_slot_leaf_def)
  next
    case (Some l)
    then have ls: "ls = take 15 (leaf_state l)" by (simp add: ls_def)
    have "lane_at (registry_root_len + 3) b 0 = rl_asset l"
      using lanes leaf_lanes(1) [OF lwf [OF Some]] unfolding ls by (simp add: upt_conv_Cons)
    moreover have "rl_asset l = ucast slot"
      using in_slotD [of "rt_leaves t" slot l] wf Some less_trans [OF unat_lt_exp [of slot], of "2 ^ 64"]
      by (intro word_unat_eq_iff [THEN iffD2]) (simp add: leaf_at_def wf_registry_def unsigned_ucast_eq take_bit_nat_eq_self)
    moreover have "read_leaf (registry_root_len + 3) b = l"
      unfolding b ls by (rule read_leaf_written [OF lwf [OF Some] lpre])
    ultimately show ?thesis using Some occ by (simp add: read_slot_leaf_def)
  qed
  let ?s = "\<lparr>so_height = h, so_root = registry_root t, so_slot = slot, so_leaf = leaf_at t slot,
    so_witness = \<lparr>mw_siblings = ss, mw_path_bits = path_bits_of slot\<rparr>\<rparr>"
  have "decode_registry_slot b = Ok ?s"
    using total head slot leaf sibs unfolding decode_registry_slot_def Let_def by (simp add: add.assoc)
  moreover have "so_witness ?s = opening_at t slot" by (simp add: ss_def ss(3) [symmetric])
  moreover have "slot_leaf_digest ?s = slot_digest t slot" by (simp add: slot_leaf_digest_def slot_digest_def empty_leaf_def split: option.split)
  ultimately show ?thesis
    unfolding b_def using opening_folds [OF wf, of slot] by (intro exI [of _ ?s]) simp
qed

text \<open>the sidecar a node saves restores the registry it was saved from.\<close>

theorem sidecar_roundtrip:
  assumes "registry_reach t" and "list_all (\<lambda>(a, l). wf_leaf l) (rt_leaves t)"
  shows "load_sidecar (save_sidecar t h) = Ok (t, h)"
proof -
  have "map (leaf_of \<circ> (lanes_of \<circ> snd)) (rt_leaves t) = map snd (rt_leaves t)"
    using assms(2) by (auto simp: list_all_iff leaf_of_lanes_of)
  then have "map leaf_of (rs_leaves (save_sidecar t h)) = map snd (rt_leaves t)" by (simp add: save_sidecar_def)
  then have "from_leaves (map leaf_of (rs_leaves (save_sidecar t h))) = Ok t"
    using registry_rebuilds [OF registry_reach_wf [OF assms(1)]] by (simp only:)
  then show ?thesis by (simp add: load_sidecar_def) (simp add: save_sidecar_def)
qed

section \<open>A concrete registry\<close>

lemma sample_registry: "\<exists>t. from_leaves [leaf_cloaked 0, leaf_cloaked 7] = Ok t \<and> registry_reach t \<and> list_all (\<lambda>(a, l). wf_leaf l) (rt_leaves t)"
proof -
  obtain t where t: "from_leaves [leaf_cloaked 0, leaf_cloaked 7] = Ok t"
    using from_leaves_exists [of "[leaf_cloaked 0, leaf_cloaked 7]"] by (auto simp: leaf_cloaked_def registry_depth_def)
  note ok = from_leaves_Ok [OF t]
  have bt: "bt_ok (rt_leaves t)" using ok by (simp add: wf_registry_def in_slot_def)
  have "wf_leaf l" if "(a, l) \<in> set (rt_leaves t)" for a l
  proof -
    have "leaf_at t a = Some l" using that bt_ok_mem [OF bt] by (simp add: leaf_at_def)
    then have "l \<in> {leaf_cloaked 0, leaf_cloaked 7}" using ok by auto
    then show ?thesis by (auto simp: leaf_cloaked_def wf_leaf_def)
  qed
  then show ?thesis using t Reg_Genesis [OF t] by (auto simp: list_all_iff)
qed

lemma slot_opening_verifies_witness:
  "\<exists>t s. from_leaves [leaf_cloaked 0, leaf_cloaked 7] = Ok t \<and> decode_registry_slot (encode_registry_slot t 5 7) = Ok s
    \<and> fold_root (so_witness s) (slot_leaf_digest s) = registry_root t"
proof -
  obtain t where t: "from_leaves [leaf_cloaked 0, leaf_cloaked 7] = Ok t" "registry_reach t" "list_all (\<lambda>(a, l). wf_leaf l) (rt_leaves t)"
    using sample_registry by blast
  from slot_opening_verifies [OF t(2,3), of 5 7] t(1) show ?thesis by blast
qed

lemma sidecar_roundtrip_witness:
  "\<exists>t. from_leaves [leaf_cloaked 0, leaf_cloaked 7] = Ok t \<and> load_sidecar (save_sidecar t 9) = Ok (t, 9)"
  using sample_registry sidecar_roundtrip by blast

lemma registry_root_is_merkle_witness:
  "\<exists>t. from_leaves [leaf_cloaked 0, leaf_cloaked 7] = Ok t \<and> fold_root (opening_at t 3) (slot_digest t 3) = registry_root t"
  using sample_registry registry_root_is_merkle by blast

lemma registry_update_exact_witness:
  "\<exists>t t'. from_leaves [leaf_cloaked 0, leaf_cloaked 7] = Ok t \<and> apply_update (leaf_cloaked 9) t = Ok t' \<and> leaf_at t' 9 = Some (leaf_cloaked 9)"
proof -
  obtain t where t: "from_leaves [leaf_cloaked 0, leaf_cloaked 7] = Ok t" "registry_reach t" using sample_registry by blast
  have a: "rl_asset (leaf_cloaked 9) = 9" by (simp add: leaf_cloaked_def)
  obtain t' where "apply_update (leaf_cloaked 9) t = Ok t'" "leaf_at t' = (leaf_at t)(9 \<mapsto> leaf_cloaked 9)"
    using registry_update_exact [OF t(2), of "leaf_cloaked 9"] by (auto simp: a split: sum.splits)
  then show ?thesis using t(1) by auto
qed

lemma registry_root_binds_witness:
  "\<exists>t. from_leaves [leaf_cloaked 0, leaf_cloaked 7] = Ok t \<and> (leaf_at t = leaf_at t
    \<or> (\<exists>i < registry_depth. \<exists>k. (node_at t i (2 * k), node_at t i (2 * k + 1)) \<noteq> (node_at t i (2 * k), node_at t i (2 * k + 1))
        \<and> hash_node (node_at t i (2 * k)) (node_at t i (2 * k + 1)) = hash_node (node_at t i (2 * k)) (node_at t i (2 * k + 1)))
    \<or> (\<exists>a. leaf_at t a \<noteq> leaf_at t a \<and> slot_digest t a = slot_digest t a))"
proof -
  obtain t where t: "from_leaves [leaf_cloaked 0, leaf_cloaked 7] = Ok t" "registry_reach t" using sample_registry by blast
  show ?thesis using registry_root_binds [OF t(2) t(2) refl] t(1) by (intro exI conjI)
qed

end
