(* ===== verification/Mempool.thy ===== *)
theory Mempool
  imports Annulet_Body Registry "HOL-Library.List_Lexorder" "HOL-Library.Product_Lexorder"
    "HOL-Library.Sublist"
begin

text \<open>
  The transaction pool and block assembly (\<open>qlab-node/src/mempool.rs\<close>). The node the pool asks is the
  record \<open>node_state\<close>, one field per method of the trait \<open>NodeState\<close>; the name registry is the
  \<open>name_view\<close> of the name rules. The proof verifier, the ML-DSA library and the floating-point curve below
  the rule boundary are parameters. The \<open>BTreeMap\<close> of transactions is an association list in key order,
  the nullifier index (a \<open>HashMap\<close>) a map. The two \<open>expect\<close>s of the Annulet branch and the one of
  \<open>assemble\<close> are \<open>None\<close>.
\<close>

section \<open>The node and the pool\<close>

record node_state =
  ns_form :: genesis_form
  ns_fee_table :: "l2_fee_table option"
  ns_registry_root :: "hash32 option"
  ns_outstanding :: "u16 \<Rightarrow> int"
  ns_write_root :: "u64 list \<Rightarrow> (registry_error + hash32) option"
  ns_auth_context :: auth_context
  ns_tip_height :: u64
  ns_tip_hash :: hash32
  ns_finalized_height :: "u64 option"
  ns_commitment_root :: hash32
  ns_commitment_count :: u64
  ns_is_spent :: "hash32 \<Rightarrow> bool"
  ns_nullifier_count :: nat
  ns_is_valid_anchor :: "hash32 \<Rightarrow> bool"

definition frozen_weight_long_window :: nat where "frozen_weight_long_window = 100000"

definition consensus_weight_params :: weight_params where
  "consensus_weight_params = devnet_default\<lparr>long_window := frozen_weight_long_window\<rparr>"

datatype mempool_error =
    WrongPoolFee u64 u64
  | L2SurfaceInvalid body_error
  | RedeemExceedsOutstanding u16
  | RegistryWriteAlreadyPooled
  | RegistryWriteInvalid
  | AnchorNotValid
  | AlreadySpent hash32
  | NullifierRepeatedInTx hash32
  | NullifierConflictInPool hash32
  | DuplicateTx
  | DiscoveryInvalid body_error
  | RiderInvalid body_error
  | PoolAuthRefused auth_refusal
  | PoolProofInvalid

datatype assembly_error =
    TemplateOverWeight u64 u64
  | UnknownTx hash32

record mempool_tx =
  mt_txid :: hash32
  mt_entry :: tx_entry
  mt_weight :: u64
  mt_name_op :: "name_op option"
  mt_valid_until :: "u64 option"

record mempool =
  mp_weight :: weight_params
  mp_txs :: "(hash32 \<times> mempool_tx) list"
  mp_nf_index :: "hash32 \<rightharpoonup> hash32"

definition mempool_new :: "weight_params \<Rightarrow> mempool" where
  "mempool_new w = \<lparr>mp_weight = w, mp_txs = [], mp_nf_index = Map.empty\<rparr>"

definition signed_surface_terms :: "l2_surface \<Rightarrow> (u16 \<times> int) list" where
  "signed_surface_terms s = map (\<lambda>t. (vt_asset t, signed_term t)) (filter (\<lambda>t. vt_amount t \<noteq> 0) (surface_terms s))"

definition annulet_root_stale :: "tx_entry \<Rightarrow> node_state \<Rightarrow> bool" where
  "annulet_root_stale t st =
    (case ns_registry_root st of
       None \<Rightarrow> False
     | Some rt \<Rightarrow> (case surface_decode (l2 t) of Inr (Some s) \<Rightarrow> sf_registry_root s \<noteq> rt | _ \<Rightarrow> False))"

definition txid_bytes :: "tx_entry \<Rightarrow> bytes" where
  "txid_bytes t =
    (let p = public t
     in anchor p @ concat (tx_nullifiers p) @ concat (commitments p) @ [ucast (logical_actions (bucket p))] @ u64_le (fee p)
        @ len_prefixed (proof_bytes t)
        @ (if rider t \<noteq> rider_absent then len_prefixed (rider t) else [])
        @ (if l2 t \<noteq> l2_surface_absent then len_prefixed (l2 t) else []))"

definition txid :: "tx_entry \<Rightarrow> hash32" where
  "txid t = keccak256 (txid_bytes t)"

definition tx_weight :: "tx_entry \<Rightarrow> u64" where
  "tx_weight t =
    (let p = public t; pub = 32 + length (tx_nullifiers p) * 32 + length (commitments p) * 32 + 1 + 8;
         rid = (if rider t \<noteq> rider_absent then 8 + length (rider t) else 0)
     in word_of_nat (length (proof_bytes t) + pub + rid))"

definition check_tx_discovery_for :: "genesis_form \<Rightarrow> nat \<Rightarrow> tx_entry \<Rightarrow> (body_error, unit) run" where
  "check_tx_discovery_for form index t =
    (case form of V4 \<Rightarrow> check_tx_discovery index t | V5 \<Rightarrow> check_tx_discovery index t | Annulet \<Rightarrow> check_tx_discovery_annulet index t)"

section \<open>Admission\<close>

text \<open>The refusals of the name rule as \<open>BodyError\<close>s at index 0, as \<open>names_admit_op_above\<close> returns them.\<close>

definition admit_refusal :: "admit_error \<Rightarrow> body_error" where
  "admit_refusal = case_admit_error (\<lambda>e. Block_Body.RiderMalformed 0 e) (Block_Body.RiderBeforeBoundary 0) (\<lambda>e. Block_Body.RiderRule 0 e)"

definition name_admit :: "u64 option \<Rightarrow> tx_entry \<Rightarrow> u64 \<Rightarrow> name_view \<Rightarrow> body_error + name_op option" where
  "name_admit boundary t h view =
    (case names_admit_op_above boundary (rider t) h view of Inl e \<Rightarrow> Err (admit_refusal e) | Inr op \<Rightarrow> Ok op)"

definition pooled_surface :: "mempool_tx \<Rightarrow> l2_surface option" where
  "pooled_surface m = (case surface_decode (l2 (mt_entry m)) of Inr (Some s) \<Rightarrow> Some s | _ \<Rightarrow> None)"

definition pooled_redeems :: "mempool \<Rightarrow> u16 \<Rightarrow> int" where
  "pooled_redeems p asset =
    sum_list (map snd (filter (\<lambda>(a, v). a = asset \<and> v < 0)
      (concat (map (\<lambda>(k, m). case pooled_surface m of None \<Rightarrow> [] | Some s \<Rightarrow> signed_surface_terms s) (mp_txs p)))))"

definition check_redeems :: "node_state \<Rightarrow> mempool \<Rightarrow> (u16 \<times> int) list \<Rightarrow> mempool_error + unit" where
  "check_redeems st p ts =
    (case find (\<lambda>(asset, d). d < 0 \<and> ns_outstanding st asset + pooled_redeems p asset + d < 0) ts of
       Some (asset, _) \<Rightarrow> Err (RedeemExceedsOutstanding asset)
     | None \<Rightarrow> Ok ())"

definition check_pool_write :: "node_state \<Rightarrow> mempool \<Rightarrow> registry_write_surface option \<Rightarrow> mempool_error + unit" where
  "check_pool_write st p write =
    (case write of
       None \<Rightarrow> Ok ()
     | Some w \<Rightarrow>
         (case ns_write_root st (rw_leaf_lanes w) of
            Some (Inr reached) \<Rightarrow>
              if reached \<noteq> rw_new_root w then Err RegistryWriteInvalid
              else if list_ex (\<lambda>(k, m). case pooled_surface m of Some s \<Rightarrow> sf_write s \<noteq> None | None \<Rightarrow> False) (mp_txs p)
              then Err RegistryWriteAlreadyPooled
              else Ok ()
          | _ \<Rightarrow> Err RegistryWriteInvalid))"

text \<open>The form's own rules: what the transaction's name operation is and the fee it owes.\<close>

definition admit_annulet :: "tx_entry \<Rightarrow> node_state \<Rightarrow> mempool \<Rightarrow> (mempool_error, name_op option \<times> u64) run" where
  "admit_annulet t st p =
    (if rider t \<noteq> rider_absent then Some (Err (RiderInvalid (Block_Body.RiderBeforeBoundary 0)))
     else (case surface_decode (l2 t) of
             Inl e \<Rightarrow> Some (Err (L2SurfaceInvalid (L2SurfaceMalformed 0 e)))
           | Inr None \<Rightarrow> Some (Err (L2SurfaceInvalid (L2SurfaceMissing 0)))
           | Inr (Some s) \<Rightarrow>
               (case check_l2_arity (public t) (sf_shape s) (ac_form (ns_auth_context st)) 0 of
                  Inl e \<Rightarrow> Some (Err (L2SurfaceInvalid e))
                | Inr _ \<Rightarrow>
               (case check_l2_no_exit s 0 of
                  Inl e \<Rightarrow> Some (Err (L2SurfaceInvalid e))
                | Inr _ \<Rightarrow>
               (case ns_registry_root st of
                  None \<Rightarrow> None
                | Some rt \<Rightarrow>
                    if sf_registry_root s \<noteq> rt then Some (Err (L2SurfaceInvalid (L2RegistryRootStale 0)))
                    else and_then (Some (check_pool_write st p (sf_write s))) (\<lambda>_.
                         and_then (Some (check_redeems st p (signed_surface_terms s))) (\<lambda>_.
                           case ns_fee_table st of
                             None \<Rightarrow> None
                           | Some fees \<Rightarrow> Some (Ok (None, posted_fee_l2 fees (sf_shape s))))))))))"

definition admit_l1 :: "u64 option \<Rightarrow> tx_entry \<Rightarrow> u64 \<Rightarrow> name_view \<Rightarrow> (mempool_error, name_op option \<times> u64) run" where
  "admit_l1 boundary t h view =
    (if l2 t \<noteq> l2_surface_absent then Some (Err (L2SurfaceInvalid (L2SurfaceOnL1 0)))
     else (case name_admit boundary t h view of
             Inl e \<Rightarrow> Some (Err (RiderInvalid e))
           | Inr op \<Rightarrow> Some (Ok (op, posted_fee (bucket (public t)) + (case op of None \<Rightarrow> 0 | Some o1 \<Rightarrow> name_fee_for o1)))))"

definition admit_form :: "u64 option \<Rightarrow> tx_entry \<Rightarrow> node_state \<Rightarrow> name_view \<Rightarrow> mempool \<Rightarrow> (mempool_error, name_op option \<times> u64) run" where
  "admit_form boundary t st view p =
    (case ns_form st of
       V4 \<Rightarrow> admit_l1 boundary t (ns_tip_height st + 1) view
     | V5 \<Rightarrow> admit_l1 boundary t (ns_tip_height st + 1) view
     | Annulet \<Rightarrow> admit_annulet t st p)"

definition admit_auth :: "(bytes \<Rightarrow> hash32 \<Rightarrow> bytes \<Rightarrow> bool) \<Rightarrow> tx_entry \<Rightarrow> node_state \<Rightarrow> (mempool_error, u64 option) run" where
  "admit_auth lib t st =
    (case ns_form st of
       Annulet \<Rightarrow> map_option (\<lambda>r. case r of Inl e \<Rightarrow> Err (PoolAuthRefused e) | Inr v \<Rightarrow> Ok v)
         (check_auth lib t (ns_auth_context st) (ns_tip_height st + 1))
     | _ \<Rightarrow> Some (Ok None))"

text \<open>All the checks, in order; the result is what the pooled transaction records.\<close>

definition admit_check :: "(bytes \<Rightarrow> hash32 \<Rightarrow> bytes \<Rightarrow> bool) \<Rightarrow> u64 option \<Rightarrow> tx_entry \<Rightarrow> node_state \<Rightarrow> (tx_entry \<Rightarrow> bool) \<Rightarrow> name_view
    \<Rightarrow> mempool \<Rightarrow> (mempool_error, name_op option \<times> u64 option) run" where
  "admit_check lib boundary t st verify_tx view p =
    and_then (admit_form boundary t st view p) (\<lambda>(op, expected).
      if fee (public t) \<noteq> expected then Some (Err (WrongPoolFee expected (fee (public t))))
      else (case repeated_nullifier_in_tx (public t) of
              Some nf \<Rightarrow> Some (Err (NullifierRepeatedInTx nf))
            | None \<Rightarrow>
      if \<not> ns_is_valid_anchor st (anchor (public t)) then Some (Err AnchorNotValid)
      else (case find (ns_is_spent st) (tx_nullifiers (public t)) of
              Some nf \<Rightarrow> Some (Err (AlreadySpent nf))
            | None \<Rightarrow>
      if map_of (mp_txs p) (txid t) \<noteq> None then Some (Err DuplicateTx)
      else (case find (\<lambda>nf. mp_nf_index p nf \<noteq> None) (tx_nullifiers (public t)) of
              Some nf \<Rightarrow> Some (Err (NullifierConflictInPool nf))
            | None \<Rightarrow>
      (case check_tx_discovery_for (ns_form st) 0 t of
         None \<Rightarrow> None
       | Some (Inl e) \<Rightarrow> Some (Err (DiscoveryInvalid e))
       | Some (Inr _) \<Rightarrow>
           and_then (admit_auth lib t st) (\<lambda>valid_until.
             if \<not> verify_tx t then Some (Err PoolProofInvalid) else Some (Ok (op, valid_until))))))))"

definition pool_insert :: "tx_entry \<Rightarrow> name_op option \<Rightarrow> u64 option \<Rightarrow> mempool \<Rightarrow> mempool" where
  "pool_insert t op valid_until p =
    (let k = txid t
     in p\<lparr>mp_nf_index := fold (\<lambda>nf ix. ix(nf \<mapsto> k)) (tx_nullifiers (public t)) (mp_nf_index p),
          mp_txs := bt_insert k \<lparr>mt_txid = k, mt_entry = t, mt_weight = tx_weight t, mt_name_op = op, mt_valid_until = valid_until\<rparr> (mp_txs p)\<rparr>)"

definition admit_above :: "(bytes \<Rightarrow> hash32 \<Rightarrow> bytes \<Rightarrow> bool) \<Rightarrow> u64 option \<Rightarrow> tx_entry \<Rightarrow> node_state \<Rightarrow> (tx_entry \<Rightarrow> bool) \<Rightarrow> name_view
    \<Rightarrow> mempool \<Rightarrow> ((mempool_error + hash32) \<times> mempool) option" where
  "admit_above lib boundary t st verify_tx view p =
    (case admit_check lib boundary t st verify_tx view p of
       None \<Rightarrow> None
     | Some (Inl e) \<Rightarrow> Some (Err e, p)
     | Some (Inr (op, valid_until)) \<Rightarrow> Some (Ok (txid t), pool_insert t op valid_until p))"

definition admit :: "(bytes \<Rightarrow> hash32 \<Rightarrow> bytes \<Rightarrow> bool) \<Rightarrow> tx_entry \<Rightarrow> node_state \<Rightarrow> (tx_entry \<Rightarrow> bool) \<Rightarrow> name_view \<Rightarrow> mempool
    \<Rightarrow> ((mempool_error + hash32) \<times> mempool) option" where
  "admit lib t st verify_tx view p = admit_above lib name_rule_boundary_height t st verify_tx view p"

section \<open>Removal and connected blocks\<close>

definition remove_tx :: "hash32 \<Rightarrow> mempool \<Rightarrow> mempool_tx option \<times> mempool" where
  "remove_tx k p =
    (case map_of (mp_txs p) k of
       None \<Rightarrow> (None, p)
     | Some m \<Rightarrow> (Some m, p\<lparr>mp_txs := bt_remove k (mp_txs p),
         mp_nf_index := fold (\<lambda>nf ix. ix(nf := None)) (tx_nullifiers (public (mt_entry m))) (mp_nf_index p)\<rparr>))"

definition remove_all :: "hash32 list \<Rightarrow> mempool \<Rightarrow> mempool" where
  "remove_all ids p = fold (\<lambda>k q. snd (remove_tx k q)) ids p"

definition doomed_by :: "hash32 list \<Rightarrow> node_state \<Rightarrow> mempool_tx \<Rightarrow> bool" where
  "doomed_by spent st m \<longleftrightarrow>
    list_ex (\<lambda>nf. nf \<in> set spent) (tx_nullifiers (public (mt_entry m)))
    \<or> \<not> ns_is_valid_anchor st (anchor (public (mt_entry m)))
    \<or> annulet_root_stale (mt_entry m) st
    \<or> \<not> auth_validity_ok (mt_valid_until m) (ns_tip_height st + 1)"

definition outraced_by :: "u64 option \<Rightarrow> node_state \<Rightarrow> name_view \<Rightarrow> mempool_tx \<Rightarrow> bool" where
  "outraced_by boundary st view m \<longleftrightarrow>
    mt_name_op m \<noteq> None \<and> (case name_admit boundary (mt_entry m) (ns_tip_height st + 1) view of Inl _ \<Rightarrow> True | Inr _ \<Rightarrow> False)"

definition on_block_connected_above :: "u64 option \<Rightarrow> block_body \<Rightarrow> node_state \<Rightarrow> name_view \<Rightarrow> mempool \<Rightarrow> mempool" where
  "on_block_connected_above boundary b st view p =
    (let spent = body_nullifiers b;
         doomed = map mt_txid (filter (doomed_by spent st) (map snd (mp_txs p)));
         q = remove_all doomed p;
         outraced = map mt_txid (filter (outraced_by boundary st view) (map snd (mp_txs q)))
     in remove_all outraced q)"

definition on_block_connected :: "block_body \<Rightarrow> node_state \<Rightarrow> name_view \<Rightarrow> mempool \<Rightarrow> mempool" where
  "on_block_connected b st view p = on_block_connected_above name_rule_boundary_height b st view p"

section \<open>Assembly\<close>

record block_template =
  bt_height :: u64
  bt_txs :: "tx_entry list"
  bt_total_weight :: u64
  bt_effective_median :: u64
  bt_coinbase_total :: u64
  bt_reward_split :: reward_split
  bt_total_fees :: u64
  bt_weight_penalty :: u64
  bt_miner_take :: u64
  bt_coinbase_rkm :: "u64 list"
  bt_coinbase_note :: "hash32 option"
  bt_body :: block_body

definition template_build :: "(u64 \<Rightarrow> u64) \<Rightarrow> genesis_form \<Rightarrow> u64 \<Rightarrow> tx_entry list \<Rightarrow> u64 \<Rightarrow> u64 \<Rightarrow> weight_params \<Rightarrow> u64 list
    \<Rightarrow> (assembly_error, block_template) run" where
  "template_build pre form h chosen tw med w key =
    (if \<not> is_weight_admissible tw med w then Some (Err (TemplateOverWeight tw (weight_limit med w)))
     else (case coinbase_for pre form h of
             None \<Rightarrow> None
           | Some cb \<Rightarrow>
               let split = reward_split_of cb; fees = sum_list (map (\<lambda>t. fee (public t)) chosen);
                   penalty = quadratic_penalty cb tw med w; b = from_single_payee chosen cb key
               in Some (Ok \<lparr>bt_height = h, bt_txs = chosen, bt_total_weight = tw, bt_effective_median = med,
                    bt_coinbase_total = cb, bt_reward_split = split, bt_total_fees = fees, bt_weight_penalty = penalty,
                    bt_miner_take = sat_sub (rs_miner split) penalty + fees, bt_coinbase_rkm = key,
                    bt_coinbase_note = coinbase_note_leaf_for form h b, bt_body = b\<rparr>)))"

text \<open>The greedy fill: state is the chosen entries (newest last), their weight and the names claimed.\<close>

definition reveal_name :: "mempool_tx \<Rightarrow> bytes option" where
  "reveal_name m = (case mt_name_op m of Some (Reveal r _) \<Rightarrow> Some (nr_name r) | _ \<Rightarrow> None)"

fun fill_block :: "u64 \<Rightarrow> u64 \<Rightarrow> mempool_tx list \<Rightarrow> tx_entry list \<times> u64 \<times> bytes list \<Rightarrow> tx_entry list \<times> u64 \<times> bytes list" where
  "fill_block h med [] acc = acc"
| "fill_block h med (m # ms) (chosen, weight, pending) =
    (if \<not> auth_validity_ok (mt_valid_until m) h then fill_block h med ms (chosen, weight, pending)
     else if (case reveal_name m of Some n \<Rightarrow> n \<in> set pending | None \<Rightarrow> False) then fill_block h med ms (chosen, weight, pending)
     else if weight + mt_weight m \<le> med
     then fill_block h med ms (chosen @ [mt_entry m], weight + mt_weight m, (case reveal_name m of Some n \<Rightarrow> n # pending | None \<Rightarrow> pending))
     else fill_block h med ms (chosen, weight, pending))"

definition candidates :: "mempool \<Rightarrow> mempool_tx list" where
  "candidates p = sort_key (\<lambda>m. (- uint (fee (public (mt_entry m))), mt_txid m)) (map snd (mp_txs p))"

definition assemble :: "(u64 \<Rightarrow> u64) \<Rightarrow> mempool \<Rightarrow> node_state \<Rightarrow> u64 \<Rightarrow> u64 list \<Rightarrow> block_template option" where
  "assemble pre p st med key =
    (let h = ns_tip_height st + 1; (chosen, weight, _) = fill_block h med (candidates p) ([], 0, [])
     in case template_build pre (ns_form st) h chosen weight med (mp_weight p) key of
          Some (Inr t) \<Rightarrow> Some t
        | _ \<Rightarrow> None)"

fun select_txs :: "mempool \<Rightarrow> hash32 list \<Rightarrow> tx_entry list \<Rightarrow> u64 \<Rightarrow> assembly_error + tx_entry list \<times> u64" where
  "select_txs p [] chosen weight = Ok (chosen, weight)"
| "select_txs p (k # ids) chosen weight =
    (case map_of (mp_txs p) k of
       None \<Rightarrow> Err (UnknownTx k)
     | Some m \<Rightarrow> select_txs p ids (chosen @ [mt_entry m]) (weight + mt_weight m))"

definition assemble_selection :: "(u64 \<Rightarrow> u64) \<Rightarrow> mempool \<Rightarrow> node_state \<Rightarrow> u64 \<Rightarrow> hash32 list \<Rightarrow> u64 list
    \<Rightarrow> (assembly_error, block_template) run" where
  "assemble_selection pre p st med ids key =
    and_then (Some (select_txs p ids [] 0)) (\<lambda>(chosen, weight).
      template_build pre (ns_form st) (ns_tip_height st + 1) chosen weight med (mp_weight p) key)"

definition pool_hard_cap :: "mempool \<Rightarrow> u64 \<Rightarrow> u64" where
  "pool_hard_cap p med = weight_limit med (mp_weight p)"

definition pool_effective_median :: "mempool \<Rightarrow> u64 list \<Rightarrow> u64 option" where
  "pool_effective_median p recent =
    map_option effective_median (fold (\<lambda>w g. Option.bind g (\<lambda>x. push_block x w)) recent (Some (governor_new (mp_weight p))))"

section \<open>The shape of the pool\<close>

text \<open>The nullifiers of a pooled transaction.\<close>

definition pool_nfs :: "mempool_tx \<Rightarrow> hash32 list" where
  "pool_nfs m = tx_nullifiers (public (mt_entry m))"

definition wf_pool :: "mempool \<Rightarrow> bool" where
  "wf_pool p \<longleftrightarrow> bt_ok (mp_txs p)
    \<and> (\<forall>k m. map_of (mp_txs p) k = Some m \<longrightarrow>
        mt_txid m = k \<and> txid (mt_entry m) = k \<and> mt_weight m = tx_weight (mt_entry m) \<and> distinct (pool_nfs m))
    \<and> (\<forall>nf k. mp_nf_index p nf = Some k \<longleftrightarrow> (\<exists>m. map_of (mp_txs p) k = Some m \<and> nf \<in> set (pool_nfs m)))"

lemma wf_pool_new: "wf_pool (mempool_new w)"
  by (simp add: wf_pool_def mempool_new_def)

lemma wf_pool_entry:
  "wf_pool p \<Longrightarrow> map_of (mp_txs p) k = Some m \<Longrightarrow>
    mt_txid m = k \<and> txid (mt_entry m) = k \<and> mt_weight m = tx_weight (mt_entry m) \<and> distinct (pool_nfs m)"
  by (simp add: wf_pool_def)

lemma wf_pool_mem: "wf_pool p \<Longrightarrow> (k, m) \<in> set (mp_txs p) \<longleftrightarrow> map_of (mp_txs p) k = Some m"
  by (simp add: wf_pool_def bt_ok_distinct map_of_eq_Some_iff)

lemma pool_owner_unique:
  assumes "wf_pool p" and "map_of (mp_txs p) k = Some m" and "map_of (mp_txs p) k' = Some m'"
    and "nf \<in> set (pool_nfs m)" and "nf \<in> set (pool_nfs m')"
  shows "k = k'"
proof -
  have "mp_nf_index p nf = Some k" "mp_nf_index p nf = Some k'" using assms by (auto simp: wf_pool_def)
  then show ?thesis by simp
qed

lemma fold_upd_map: "fold (\<lambda>nf ix. ix(nf \<mapsto> k)) nfs ix = (\<lambda>x. if x \<in> set nfs then Some k else ix x)"
  by (induction nfs arbitrary: ix) auto

lemma fold_del_map: "fold (\<lambda>nf ix. ix(nf := None)) nfs ix = (\<lambda>x. if x \<in> set nfs then None else ix x)"
  by (induction nfs arbitrary: ix) auto

lemma wf_pool_insert:
  assumes "wf_pool p" and "map_of (mp_txs p) (txid t) = None" and "distinct (tx_nullifiers (public t))"
    and "\<forall>nf \<in> set (tx_nullifiers (public t)). mp_nf_index p nf = None"
  shows "wf_pool (pool_insert t op v p)"
proof -
  have ix: "mp_nf_index p nf = Some k \<longleftrightarrow> (\<exists>m. map_of (mp_txs p) k = Some m \<and> nf \<in> set (pool_nfs m))" for nf k
    using assms(1) by (simp add: wf_pool_def)
  have none: "\<not> (\<exists>k m. map_of (mp_txs p) k = Some m \<and> nf \<in> set (pool_nfs m))" if "nf \<in> set (tx_nullifiers (public t))" for nf
    using assms(4) that ix by (metis option.simps(3))
  have fresh: "map_of (mp_txs p) k = Some m \<Longrightarrow> k \<noteq> txid t" for k m using assms(2) by auto
  show ?thesis
    unfolding wf_pool_def pool_insert_def Let_def
    using assms(1,2,3) none fresh
    by (auto simp: bt_ok_insert map_of_bt_insert fold_upd_map ix pool_nfs_def wf_pool_def split: if_splits)
qed

lemma remove_tx_maps:
  "map_of (mp_txs (snd (remove_tx k p))) = (map_of (mp_txs p))(k := None)"
  "mp_weight (snd (remove_tx k p)) = mp_weight p"
  by (auto simp: remove_tx_def map_of_bt_remove fun_eq_iff split: option.splits)

lemma wf_remove_tx:
  assumes "wf_pool p"
  shows "wf_pool (snd (remove_tx k p))"
proof (cases "map_of (mp_txs p) k")
  case None
  then show ?thesis using assms by (simp add: remove_tx_def)
next
  case (Some m)
  have ix: "mp_nf_index p nf = Some j \<longleftrightarrow> (\<exists>m. map_of (mp_txs p) j = Some m \<and> nf \<in> set (pool_nfs m))" for nf j
    using assms by (simp add: wf_pool_def)
  have own: "nf \<in> set (pool_nfs m) \<Longrightarrow> map_of (mp_txs p) j = Some m' \<Longrightarrow> nf \<in> set (pool_nfs m') \<Longrightarrow> j = k" for nf j m'
    using pool_owner_unique [OF assms Some] by blast
  have txs: "bt_ok (mp_txs (snd (remove_tx k p)))" using assms Some by (simp add: remove_tx_def bt_ok_remove wf_pool_def)
  have index: "mp_nf_index (snd (remove_tx k p)) = (\<lambda>nf. if nf \<in> set (pool_nfs m) then None else mp_nf_index p nf)"
    using Some by (simp add: remove_tx_def fold_del_map pool_nfs_def)
  have mine: "nf \<in> set (pool_nfs m) \<Longrightarrow> map_of (mp_txs p) j = Some m' \<Longrightarrow> j \<noteq> k \<Longrightarrow> nf \<notin> set (pool_nfs m')" for nf j m'
    using own by blast
  have "mp_nf_index (snd (remove_tx k p)) nf = Some j \<longleftrightarrow> (\<exists>m. map_of (mp_txs (snd (remove_tx k p))) j = Some m \<and> nf \<in> set (pool_nfs m))" for nf j
    unfolding index remove_tx_maps using ix [of nf j] mine [of nf j] Some by (cases "j = k") auto
  then show ?thesis
    using txs wf_pool_entry [OF assms] unfolding wf_pool_def by (auto simp: remove_tx_maps split: if_splits)
qed

lemma remove_all_maps:
  "map_of (mp_txs (remove_all ks p)) = (\<lambda>k. if k \<in> set ks then None else map_of (mp_txs p) k)"
  "mp_weight (remove_all ks p) = mp_weight p"
  by (induction ks arbitrary: p) (auto simp: remove_all_def remove_tx_maps fun_eq_iff)

lemma wf_remove_all: "wf_pool p \<Longrightarrow> wf_pool (remove_all ks p)"
  by (induction ks arbitrary: p) (auto simp: remove_all_def wf_remove_tx)

text \<open>A sweep removes exactly the entries its test names.\<close>

lemma sweep_maps:
  assumes "wf_pool p"
  shows "map_of (mp_txs (remove_all (map mt_txid (filter bad (map snd (mp_txs p)))) p)) k =
    (case map_of (mp_txs p) k of Some m \<Rightarrow> if bad m then None else Some m | None \<Rightarrow> None)"
proof -
  have "k \<in> set (map mt_txid (filter bad (map snd (mp_txs p)))) \<longleftrightarrow> (\<exists>m. map_of (mp_txs p) k = Some m \<and> bad m)"
  proof
    assume "k \<in> set (map mt_txid (filter bad (map snd (mp_txs p))))"
    then obtain j m where "(j, m) \<in> set (mp_txs p)" "bad m" "mt_txid m = k" by auto
    then show "\<exists>m. map_of (mp_txs p) k = Some m \<and> bad m"
      using wf_pool_mem [OF assms] wf_pool_entry [OF assms] by metis
  next
    assume "\<exists>m. map_of (mp_txs p) k = Some m \<and> bad m"
    then obtain m where m: "map_of (mp_txs p) k = Some m" "bad m" by blast
    then have "mt_txid m = k" "(k, m) \<in> set (mp_txs p)" using wf_pool_entry [OF assms] map_of_SomeD by fast+
    then show "k \<in> set (map mt_txid (filter bad (map snd (mp_txs p))))" using m(2) by force
  qed
  then show ?thesis unfolding remove_all_maps by (auto split: option.splits)
qed

lemma on_block_connected_maps:
  assumes "wf_pool p"
  shows "map_of (mp_txs (on_block_connected_above boundary b st view p)) k =
    (case map_of (mp_txs p) k of
       Some m \<Rightarrow> if doomed_by (body_nullifiers b) st m \<or> outraced_by boundary st view m then None else Some m
     | None \<Rightarrow> None)"
  unfolding on_block_connected_above_def Let_def sweep_maps [OF wf_remove_all [OF assms]] sweep_maps [OF assms]
  by (auto split: option.splits)

lemma wf_on_block_connected: "wf_pool p \<Longrightarrow> wf_pool (on_block_connected_above boundary b st view p)"
  by (simp add: on_block_connected_above_def Let_def wf_remove_all)

lemma on_block_connected_weight: "mp_weight (on_block_connected_above boundary b st view p) = mp_weight p"
  by (simp add: on_block_connected_above_def Let_def remove_all_maps)

section \<open>What admission accepts\<close>

lemma repeated_None: "repeated_nullifier_in_tx q = None \<longleftrightarrow> distinct (tx_nullifiers q)"
  by (simp add: repeated_nullifier_in_tx_def find_repeated_None)

text \<open>A check passes to the next one exactly when it does not refuse.\<close>

lemma refusal_passes:
  "(if c then Some (Err e) else x) = Some (Ok y) \<longleftrightarrow> \<not> c \<and> x = Some (Ok y)"
  "(case f of None \<Rightarrow> x | Some nf \<Rightarrow> Some (Err (g nf))) = Some (Ok y) \<longleftrightarrow> f = None \<and> x = Some (Ok y)"
  "(case d of None \<Rightarrow> None | Some (Inl e) \<Rightarrow> Some (Err (h e)) | Some (Inr (u :: unit)) \<Rightarrow> x) = Some (Ok y)
    \<longleftrightarrow> d = Some (Ok ()) \<and> x = Some (Ok y)"
  by (auto split: option.splits sum.splits)

lemma mempool_new_weight [simp]: "mp_weight (mempool_new w) = w"
  by (simp add: mempool_new_def)

lemma pool_insert_weight [simp]: "mp_weight (pool_insert t op v p) = mp_weight p"
  by (simp add: pool_insert_def Let_def)

lemma admit_check_Ok:
  "admit_check lib boundary t st verify_tx view p = Some (Ok (op, v)) \<longleftrightarrow>
    admit_form boundary t st view p = Some (Ok (op, fee (public t))) \<and> distinct (tx_nullifiers (public t))
    \<and> ns_is_valid_anchor st (anchor (public t)) \<and> (\<forall>nf \<in> set (tx_nullifiers (public t)). \<not> ns_is_spent st nf)
    \<and> map_of (mp_txs p) (txid t) = None \<and> (\<forall>nf \<in> set (tx_nullifiers (public t)). mp_nf_index p nf = None)
    \<and> check_tx_discovery_for (ns_form st) 0 t = Some (Ok ()) \<and> admit_auth lib t st = Some (Ok v) \<and> verify_tx t"
  by (auto simp: admit_check_def and_then_Ok refusal_passes repeated_None find_None_iff split: if_splits)

lemma name_admit_Ok:
  "name_admit boundary t h view = Ok op \<longleftrightarrow> decode_rider (rider t) = Ok op
    \<and> (case op of None \<Rightarrow> True | Some o1 \<Rightarrow> riders_active_above boundary h \<and> check_op view h o1 [] = Ok ())"
  by (auto simp: name_admit_def names_admit_op_above_def split: sum.splits option.splits)

definition op_fee :: "name_op option \<Rightarrow> u64" where
  "op_fee op = (case op of None \<Rightarrow> 0 | Some o1 \<Rightarrow> name_fee_for o1)"

lemma admit_l1_Ok:
  "admit_l1 boundary t h view = Some (Ok (op, f)) \<longleftrightarrow> l2 t = l2_surface_absent \<and> name_admit boundary t h view = Ok op
    \<and> f = posted_fee (bucket (public t)) + op_fee op"
  by (cases "name_admit boundary t h view") (auto simp: admit_l1_def op_fee_def)

text \<open>What the pool holds of each of its transactions on an L1 form, at the node's tip and under its name registry.\<close>

definition pooled_ok :: "(tx_entry \<Rightarrow> bool) \<Rightarrow> u64 option \<Rightarrow> node_state \<Rightarrow> name_view \<Rightarrow> mempool_tx \<Rightarrow> bool" where
  "pooled_ok verify_tx boundary st view m \<longleftrightarrow>
    (let t = mt_entry m in
      l2 t = l2_surface_absent \<and> discovery_ok t \<and> verify_tx t \<and> mt_valid_until m = None
      \<and> fee (public t) = posted_fee (bucket (public t)) + op_fee (mt_name_op m)
      \<and> name_admit boundary t (ns_tip_height st + 1) view = Ok (mt_name_op m)
      \<and> ns_is_valid_anchor st (anchor (public t)) \<and> \<not> list_ex (ns_is_spent st) (pool_nfs m))"

lemma admitted_pooled_ok:
  assumes "admit_check lib boundary t st verify_tx view p = Some (Ok (op, v))" and "ns_form st \<noteq> Annulet"
  shows "pooled_ok verify_tx boundary st view
    \<lparr>mt_txid = txid t, mt_entry = t, mt_weight = tx_weight t, mt_name_op = op, mt_valid_until = v\<rparr>"
  using assms
  by (cases "ns_form st")
    (auto simp: admit_check_Ok admit_form_def admit_l1_Ok pooled_ok_def Let_def check_tx_discovery_for_def check_tx_discovery_iff
      admit_auth_def pool_nfs_def list_ex_iff)

lemma surviving_pooled_ok:
  assumes "pooled_ok verify_tx boundary st view m"
    and "\<not> doomed_by (body_nullifiers b) st' m" and "\<not> outraced_by boundary st' view' m"
    and "\<forall>nf. ns_is_spent st' nf \<longrightarrow> ns_is_spent st nf \<or> nf \<in> set (body_nullifiers b)"
  shows "pooled_ok verify_tx boundary st' view' m"
proof -
  have old: "name_admit boundary (mt_entry m) (ns_tip_height st + 1) view = Ok (mt_name_op m)"
    using assms(1) by (simp add: pooled_ok_def Let_def)
  have "name_admit boundary (mt_entry m) (ns_tip_height st' + 1) view' = Ok (mt_name_op m)"
  proof (cases "mt_name_op m")
    case None
    then show ?thesis using old by (simp add: name_admit_Ok)
  next
    case (Some o1)
    then obtain op where "name_admit boundary (mt_entry m) (ns_tip_height st' + 1) view' = Ok op"
      using assms(3) by (auto simp: outraced_by_def split: sum.splits)
    then show ?thesis using old by (auto simp: name_admit_Ok)
  qed
  then show ?thesis
    using assms(1,2,4) by (auto simp: pooled_ok_def Let_def doomed_by_def list_ex_iff pool_nfs_def)
qed

section \<open>Reachable pools\<close>

text \<open>
  A pool beside the node it follows: created, offered transactions, transactions withdrawn, and told of each
  block the node connects. What the node promises of a connected block is that every nullifier spent
  after it was spent before or is the block's.
\<close>

inductive pool_reach :: "(bytes \<Rightarrow> hash32 \<Rightarrow> bytes \<Rightarrow> bool) \<Rightarrow> (tx_entry \<Rightarrow> bool) \<Rightarrow> u64 option \<Rightarrow> genesis_form \<Rightarrow> weight_params
    \<Rightarrow> node_state \<Rightarrow> name_view \<Rightarrow> mempool \<Rightarrow> bool"
  for lib verify_tx boundary form w where
  Pool_New: "ns_form st = form \<Longrightarrow> pool_reach lib verify_tx boundary form w st view (mempool_new w)"
| Pool_Admit: "pool_reach lib verify_tx boundary form w st view p \<Longrightarrow> admit_above lib boundary t st verify_tx view p = Some (r, p')
    \<Longrightarrow> pool_reach lib verify_tx boundary form w st view p'"
| Pool_Remove: "pool_reach lib verify_tx boundary form w st view p \<Longrightarrow> pool_reach lib verify_tx boundary form w st view (snd (remove_tx k p))"
| Pool_Block: "pool_reach lib verify_tx boundary form w st view p \<Longrightarrow> ns_form st' = form
    \<Longrightarrow> \<forall>nf. ns_is_spent st' nf \<longrightarrow> ns_is_spent st nf \<or> nf \<in> set (body_nullifiers b)
    \<Longrightarrow> pool_reach lib verify_tx boundary form w st' view' (on_block_connected_above boundary b st' view' p)"

lemma admit_above_cases:
  assumes "admit_above lib boundary t st verify_tx view p = Some (r, p')"
  obtains (refused) e where "r = Err e" "p' = p"
  | (admitted) op v where "admit_check lib boundary t st verify_tx view p = Some (Ok (op, v))" "r = Ok (txid t)" "p' = pool_insert t op v p"
  using assms by (auto simp: admit_above_def split: option.splits sum.splits)

lemma pool_reach_wf:
  "pool_reach lib verify_tx boundary form w st view p \<Longrightarrow> wf_pool p \<and> mp_weight p = w \<and> ns_form st = form"
proof (induction rule: pool_reach.induct)
  case (Pool_Admit st view p t r p')
  from Pool_Admit.hyps(2) show ?case
    by (cases rule: admit_above_cases)
      (use Pool_Admit.IH in \<open>auto simp: admit_check_Ok intro!: wf_pool_insert\<close>)
next
  case (Pool_Block st view p st' b view')
  then show ?case by (simp add: wf_on_block_connected on_block_connected_weight)
qed (auto simp: wf_pool_new wf_remove_tx remove_tx_maps)

lemma pool_reach_entries:
  assumes "pool_reach lib verify_tx boundary form w st view p" and "form \<noteq> Annulet"
  shows "map_of (mp_txs p) k = Some m \<Longrightarrow> pooled_ok verify_tx boundary st view m"
  using assms(1)
proof (induction arbitrary: k m rule: pool_reach.induct)
  case (Pool_Admit st view p t r p')
  have form: "ns_form st \<noteq> Annulet" using pool_reach_wf [OF Pool_Admit.hyps(1)] assms(2) by simp
  from Pool_Admit.hyps(2) show ?case
  proof (cases rule: admit_above_cases)
    case (admitted op v)
    then show ?thesis
      using Pool_Admit.IH Pool_Admit.prems admitted_pooled_ok [OF admitted(1) form]
      by (auto simp: pool_insert_def Let_def map_of_bt_insert split: if_splits)
  qed (use Pool_Admit in auto)
next
  case (Pool_Block st view p st' b view')
  have wf: "wf_pool p" using pool_reach_wf [OF Pool_Block.hyps(1)] by simp
  from Pool_Block.prems have "map_of (mp_txs p) k = Some m" "\<not> doomed_by (body_nullifiers b) st' m" "\<not> outraced_by boundary st' view' m"
    unfolding on_block_connected_maps [OF wf] by (auto split: option.splits if_splits)
  then show ?case using surviving_pooled_ok [OF Pool_Block.IH] Pool_Block.hyps(3) by blast
qed (auto simp: mempool_new_def remove_tx_maps split: if_splits)

section \<open>Every pool\<close>

text \<open>
  The pools that any sequence of admissions, withdrawals and connected blocks leaves, whatever the node
  answers at each of them: its form, its chain state and its name registry are free at every step, so the
  node may have rewound or reorganised in between.
\<close>

inductive pool_run :: "weight_params \<Rightarrow> mempool \<Rightarrow> bool" for w where
  Run_New: "pool_run w (mempool_new w)"
| Run_Admit: "pool_run w p \<Longrightarrow> admit_above lib boundary t st verify_tx view p = Some (r, p') \<Longrightarrow> pool_run w p'"
| Run_Remove: "pool_run w p \<Longrightarrow> pool_run w (snd (remove_tx k p))"
| Run_Block: "pool_run w p \<Longrightarrow> pool_run w (on_block_connected_above boundary b st view p)"

text \<open>What an entry records of its transaction.\<close>

definition entry_recorded :: "mempool_tx \<Rightarrow> bool" where
  "entry_recorded m \<longleftrightarrow> decode_rider (rider (mt_entry m)) = Ok (mt_name_op m)"

lemma admitted_rider:
  assumes "admit_check lib boundary t st verify_tx view p = Some (Ok (op, v))"
  shows "decode_rider (rider t) = Ok op"
proof (cases "ns_form st = Annulet")
  case True
  then have "admit_annulet t st p = Some (Ok (op, fee (public t)))"
    using assms by (simp add: admit_check_Ok admit_form_def)
  then have "rider t = rider_absent" "op = None"
    by (auto simp: admit_annulet_def and_then_Ok split: if_splits sum.splits option.splits)
  then show ?thesis by (simp add: decode_rider_def rider_absent_def)
next
  case False
  then have "admit_l1 boundary t (ns_tip_height st + 1) view = Some (Ok (op, fee (public t)))"
    using assms by (cases "ns_form st") (simp_all add: admit_check_Ok admit_form_def)
  then show ?thesis by (simp add: admit_l1_Ok name_admit_Ok)
qed

lemma pool_run_wf: "pool_run w p \<Longrightarrow> wf_pool p \<and> mp_weight p = w"
proof (induction rule: pool_run.induct)
  case (Run_Admit p lib boundary t st verify_tx view r p')
  from Run_Admit.hyps(2) show ?case
    by (cases rule: admit_above_cases) (use Run_Admit.IH in \<open>auto simp: admit_check_Ok intro!: wf_pool_insert\<close>)
qed (auto simp: wf_pool_new wf_remove_tx remove_tx_maps wf_on_block_connected on_block_connected_weight)

lemma pool_run_recorded: "pool_run w p \<Longrightarrow> map_of (mp_txs p) k = Some m \<Longrightarrow> entry_recorded m"
proof (induction arbitrary: k m rule: pool_run.induct)
  case (Run_Admit p lib boundary t st verify_tx view r p')
  from Run_Admit.hyps(2) show ?case
  proof (cases rule: admit_above_cases)
    case (admitted op v)
    then show ?thesis
      using Run_Admit.IH Run_Admit.prems admitted_rider [OF admitted(1)]
      by (auto simp: pool_insert_def Let_def map_of_bt_insert entry_recorded_def split: if_splits)
  qed (use Run_Admit in auto)
next
  case (Run_Block p boundary b st view)
  have "wf_pool p" using pool_run_wf [OF Run_Block.hyps] by simp
  from Run_Block.prems [unfolded on_block_connected_maps [OF this]] Run_Block.IH show ?case
    by (auto split: option.splits if_splits)
qed (auto simp: mempool_new_def remove_tx_maps split: if_splits)

lemma pool_reach_run: "pool_reach lib verify_tx boundary form w st view p \<Longrightarrow> pool_run w p"
  by (induction rule: pool_reach.induct) (auto intro: pool_run.intros)

text \<open>When a connected block makes a pooled transaction leave, in the terms of the block, of the
  transaction and of the node after the block: the block published a nullifier of it; its anchor is not
  valid any more; its surface was made under another registry root; the expiry recorded with it has
  passed or lies too far ahead; or its rider asks for a name operation that is not open at the next height.\<close>

definition swept_by :: "u64 option \<Rightarrow> block_body \<Rightarrow> node_state \<Rightarrow> name_view \<Rightarrow> mempool_tx \<Rightarrow> bool" where
  "swept_by boundary b st view m \<longleftrightarrow>
    (let t = mt_entry m; h = ns_tip_height st + 1
     in (\<exists>u \<in> set (txs b). set (tx_nullifiers (public u)) \<inter> set (tx_nullifiers (public t)) \<noteq> {})
      \<or> \<not> ns_is_valid_anchor st (anchor (public t))
      \<or> (\<exists>s rt. wf_surface s \<and> surface_encode s = Some (l2 t) \<and> ns_registry_root st = Some rt \<and> sf_registry_root s \<noteq> rt)
      \<or> (\<exists>v. mt_valid_until m = Some v \<and> (unat v < unat h \<or> unat h + 1152 < unat v))
      \<or> (\<exists>op. decode_rider (rider t) = Ok (Some op)
          \<and> (boundary = None \<or> (\<exists>bd. boundary = Some bd \<and> h \<le> bd) \<or> check_op view h op [] \<noteq> Ok ())))"

lemma doomed_spec:
  "doomed_by (body_nullifiers b) st m \<longleftrightarrow>
    (\<exists>u \<in> set (txs b). set (tx_nullifiers (public u)) \<inter> set (tx_nullifiers (public (mt_entry m))) \<noteq> {})
    \<or> \<not> ns_is_valid_anchor st (anchor (public (mt_entry m)))
    \<or> (\<exists>s rt. wf_surface s \<and> surface_encode s = Some (l2 (mt_entry m)) \<and> ns_registry_root st = Some rt \<and> sf_registry_root s \<noteq> rt)
    \<or> (\<exists>v. mt_valid_until m = Some v
        \<and> (unat v < unat (ns_tip_height st + 1) \<or> unat (ns_tip_height st + 1) + 1152 < unat v))"
proof -
  have "list_ex (\<lambda>nf. nf \<in> set (body_nullifiers b)) (tx_nullifiers (public (mt_entry m)))
      \<longleftrightarrow> (\<exists>u \<in> set (txs b). set (tx_nullifiers (public u)) \<inter> set (tx_nullifiers (public (mt_entry m))) \<noteq> {})"
    by (auto simp: list_ex_iff body_nullifiers_def)
  moreover have "annulet_root_stale (mt_entry m) st
      \<longleftrightarrow> (\<exists>s rt. wf_surface s \<and> surface_encode s = Some (l2 (mt_entry m)) \<and> ns_registry_root st = Some rt \<and> sf_registry_root s \<noteq> rt)"
  proof -
    have "surface_decode (l2 (mt_entry m)) = Ok (Some s) \<longleftrightarrow> wf_surface s \<and> surface_encode s = Some (l2 (mt_entry m))" for s
      using surface_decode_Ok surface_encode_Some by blast
    note d = this
    have "annulet_root_stale (mt_entry m) st
        \<longleftrightarrow> (\<exists>s rt. surface_decode (l2 (mt_entry m)) = Ok (Some s) \<and> ns_registry_root st = Some rt \<and> sf_registry_root s \<noteq> rt)"
      by (auto simp: annulet_root_stale_def split: option.splits sum.splits)
    then show ?thesis using d by blast
  qed
  moreover have "\<not> auth_validity_ok x h \<longleftrightarrow> (\<exists>v. x = Some v \<and> (unat v < unat h \<or> unat h + 1152 < unat v))" for x h
  proof -
    have "v \<le> sat_add h max_auth_validity_blocks \<longleftrightarrow> unat v \<le> unat h + 1152" for v h :: u64
      using unat_lt_exp [of v] by (auto simp: word_le_nat_alt unat_sat_add max_auth_validity_blocks_def min_def)
    then show ?thesis by (auto simp: auth_validity_ok_def word_le_nat_alt not_le split: option.splits)
  qed
  ultimately show ?thesis unfolding doomed_by_def by blast
qed

lemma outraced_spec:
  assumes "entry_recorded m"
  shows "outraced_by boundary st view m \<longleftrightarrow>
    (\<exists>op. decode_rider (rider (mt_entry m)) = Ok (Some op)
      \<and> (boundary = None \<or> (\<exists>bd. boundary = Some bd \<and> ns_tip_height st + 1 \<le> bd)
        \<or> check_op view (ns_tip_height st + 1) op [] \<noteq> Ok ()))"
proof -
  have refused: "(case x of Inl _ \<Rightarrow> True | Inr _ \<Rightarrow> False) \<longleftrightarrow> (\<forall>y. x \<noteq> Ok y)" for x :: "body_error + name_op option"
    by (cases x) auto
  show ?thesis
    using assms unfolding outraced_by_def refused name_admit_Ok entry_recorded_def riders_active_above_def
    by (auto simp: not_less split: option.splits)
qed

section \<open>The greedy fill\<close>

text \<open>No two reveals of one name, and none of a name already claimed.\<close>

fun names_fresh :: "bytes list \<Rightarrow> mempool_tx list \<Rightarrow> bool" where
  "names_fresh pending [] = True"
| "names_fresh pending (m # ms) =
    (case reveal_name m of None \<Rightarrow> names_fresh pending ms | Some n \<Rightarrow> n \<notin> set pending \<and> names_fresh (n # pending) ms)"

lemma fill_block_takes:
  "fill_block h med ms (c, w, pending) = (c', w', pending') \<Longrightarrow>
    \<exists>sel. subseq sel ms \<and> c' = c @ map mt_entry sel \<and> w' = w + sum_list (map mt_weight sel)
      \<and> (w \<le> med \<longrightarrow> w' \<le> med) \<and> names_fresh pending sel
      \<and> list_all (\<lambda>m. auth_validity_ok (mt_valid_until m) h) sel"
proof (induction ms arbitrary: c w pending)
  case Nil
  then show ?case by (intro exI [of _ "[]"]) simp
next
  case (Cons m ms)
  show ?case
  proof (cases "\<not> auth_validity_ok (mt_valid_until m) h \<or> (case reveal_name m of Some n \<Rightarrow> n \<in> set pending | None \<Rightarrow> False)
      \<or> \<not> w + mt_weight m \<le> med")
    case True
    then have "fill_block h med ms (c, w, pending) = (c', w', pending')" using Cons.prems by (auto split: if_splits)
    from Cons.IH [OF this] show ?thesis by (auto intro: list_emb_Cons)
  next
    case False
    define pending1 where "pending1 = (case reveal_name m of Some n \<Rightarrow> n # pending | None \<Rightarrow> pending)"
    have "fill_block h med ms (c @ [mt_entry m], w + mt_weight m, pending1) = (c', w', pending')"
      using Cons.prems False by (auto simp: pending1_def split: if_splits)
    from Cons.IH [OF this] obtain sel where sel: "subseq sel ms" "c' = (c @ [mt_entry m]) @ map mt_entry sel"
        "w' = (w + mt_weight m) + sum_list (map mt_weight sel)" "w' \<le> med" "names_fresh pending1 sel"
        "list_all (\<lambda>m. auth_validity_ok (mt_valid_until m) h) sel"
      using False by auto
    have "names_fresh pending (m # sel)" using sel(5) False by (auto simp: pending1_def split: option.splits)
    then show ?thesis using sel False by (intro exI [of _ "m # sel"]) (simp add: add.assoc)
  qed
qed

lemma check_op_pending:
  "check_op view h op [] = Ok () \<Longrightarrow> (case op of Reveal r _ \<Rightarrow> nr_name r \<notin> set pending | _ \<Rightarrow> True) \<Longrightarrow> check_op view h op pending = Ok ()"
  by (auto simp: check_op_def Let_def split: name_op.splits if_splits option.splits)

lemma chosen_riders_valid:
  assumes "\<forall>m \<in> set sel. name_admit boundary (mt_entry m) h view = Ok (mt_name_op m)"
  shows "names_fresh pending sel \<Longrightarrow> riders_valid view h pending (map (\<lambda>m. rider (mt_entry m)) sel)"
  using assms
proof (induction sel arbitrary: pending)
  case (Cons m sel)
  then have m: "name_admit boundary (mt_entry m) h view = Ok (mt_name_op m)" by simp
  show ?case
  proof (cases "mt_name_op m")
    case None
    then show ?thesis using m Cons by (simp add: name_admit_Ok reveal_name_def)
  next
    case (Some op)
    have old: "decode_rider (rider (mt_entry m)) = Ok (Some op)" "check_op view h op [] = Ok ()"
      using m Some by (simp_all add: name_admit_Ok)
    have rest: "riders_valid view h q (map (\<lambda>m. rider (mt_entry m)) sel)" if "names_fresh q sel" for q
      using Cons.IH [OF that] Cons.prems(2) by simp
    show ?thesis
    proof (cases op)
      case (Reveal r salt)
      then have n: "reveal_name m = Some (nr_name r)" using Some by (simp add: reveal_name_def)
      then have "check_op view h op pending = Ok ()" using Cons.prems(1) Reveal by (intro check_op_pending [OF old(2)]) simp
      then show ?thesis using old(1) rest Cons.prems(1) n Reveal by simp
    qed (use old rest Cons.prems(1) Some check_op_pending [OF old(2), of pending] in \<open>simp_all add: reveal_name_def\<close>)
  qed
qed simp

lemma candidates_set: "set (candidates p) = snd ` set (mp_txs p)"
  by (simp add: candidates_def)

lemma candidates_distinct:
  assumes "wf_pool p"
  shows "distinct (map mt_txid (candidates p))"
proof -
  have "map mt_txid (map snd (mp_txs p)) = map fst (mp_txs p)"
    using wf_pool_mem [OF assms] wf_pool_entry [OF assms] by auto
  moreover have "distinct (map fst (mp_txs p))" using assms by (simp add: wf_pool_def bt_ok_distinct)
  ultimately have d: "distinct (map mt_txid (map snd (mp_txs p)))" by (simp only:)
  then have "distinct (map snd (mp_txs p)) \<and> inj_on mt_txid (set (map snd (mp_txs p)))" by (simp only: distinct_map)
  then show ?thesis by (simp add: candidates_def distinct_map)
qed

lemma pooled_nullifiers_distinct:
  assumes "wf_pool p" and "distinct (map mt_txid sel)" and "set sel \<subseteq> snd ` set (mp_txs p)"
  shows "distinct (concat (map pool_nfs sel))"
  using assms(2,3)
proof (induction sel)
  case (Cons m sel)
  have mem: "map_of (mp_txs p) (mt_txid x) = Some x" if "x \<in> set (m # sel)" for x
  proof -
    have "x \<in> snd ` set (mp_txs p)" using that Cons.prems(2) by (rule rev_subsetD)
    then obtain k where "(k, x) \<in> set (mp_txs p)" by auto
    then have "map_of (mp_txs p) k = Some x" using wf_pool_mem [OF assms(1)] by simp
    moreover from this have "mt_txid x = k" using wf_pool_entry [OF assms(1)] by simp
    ultimately show ?thesis by simp
  qed
  have "set (pool_nfs m) \<inter> set (pool_nfs x) = {}" if "x \<in> set sel" for x
  proof -
    have "mt_txid m \<noteq> mt_txid x" using that Cons.prems(1) by auto
    then show ?thesis using pool_owner_unique [OF assms(1) mem mem, of m x] that by auto
  qed
  moreover have "distinct (pool_nfs m)" using wf_pool_entry [OF assms(1) mem [of m]] by simp
  ultimately show ?case using Cons by auto
qed simp

lemma fill_within_limit:
  assumes "weight \<le> med" and "1 \<le> max_multiple w"
  shows "is_weight_admissible weight med w"
proof -
  have "unat med \<le> unat med * unat (max_multiple w)" using assms(2) by (simp add: word_le_nat_alt)
  then have "med \<le> sat_mul med (max_multiple w)" using unat_lt_exp [of med] by (simp add: word_le_nat_alt unat_sat_mul)
  then show ?thesis using assms(1) by (simp add: is_weight_admissible_def weight_limit_def)
qed

section \<open>From a template to a block\<close>

lemma assemble_template:
  assumes "assemble pre p st med key = Some tmpl"
  shows "\<exists>sel. subseq sel (candidates p) \<and> bt_txs tmpl = map mt_entry sel \<and> bt_total_weight tmpl = sum_list (map mt_weight sel)
    \<and> bt_total_weight tmpl \<le> med \<and> names_fresh [] sel
    \<and> (\<exists>cb. coinbase_for pre (ns_form st) (ns_tip_height st + 1) = Some cb \<and> bt_coinbase_total tmpl = cb
        \<and> bt_body tmpl = from_single_payee (map mt_entry sel) cb key)
    \<and> bt_height tmpl = ns_tip_height st + 1"
proof -
  obtain c w pend where f: "fill_block (ns_tip_height st + 1) med (candidates p) ([], 0, []) = (c, w, pend)"
    by (cases "fill_block (ns_tip_height st + 1) med (candidates p) ([], 0, [])") auto
  obtain sel where sel: "subseq sel (candidates p)" "c = map mt_entry sel" "w = sum_list (map mt_weight sel)" "w \<le> med" "names_fresh [] sel"
    using fill_block_takes [OF f] by auto
  have "template_build pre (ns_form st) (ns_tip_height st + 1) c w med (mp_weight p) key = Some (Ok tmpl)"
    using assms f by (simp add: assemble_def Let_def split: option.splits sum.splits)
  then show ?thesis
    using sel by (auto simp: template_build_def Let_def split: if_splits option.splits)
qed

lemma chosen_rules:
  assumes ok: "\<forall>m \<in> set sel. pooled_ok verify_tx boundary st view m"
    and rule: "rule = RuleV4 boundary \<or> (\<exists>cap. rule = RuleV5 cap) \<and> boundary = Some 0"
    and t: "t \<in> set (map mt_entry sel)"
  shows "tx_rules rule (ns_tip_height st + 1) verify_tx (ns_is_valid_anchor st) recorded t"
proof -
  obtain m where m: "m \<in> set sel" "t = mt_entry m" using t by auto
  then have p: "pooled_ok verify_tx boundary st view m" using ok by blast
  then have n: "decode_rider (rider t) = Ok (mt_name_op m)"
      "case mt_name_op m of None \<Rightarrow> True | Some o1 \<Rightarrow> riders_active_above boundary (ns_tip_height st + 1)"
    by (auto simp: pooled_ok_def Let_def name_admit_Ok m(2) split: option.splits)
  then have "rider_fee t = op_fee (mt_name_op m)" by (simp add: rider_fee_def op_fee_def split: option.splits)
  moreover have "rider_silent t \<or> riders_active rule (ns_tip_height st + 1)"
    using n rule by (cases "mt_name_op m") (auto simp: rider_silent_def riders_active_def riders_active_above_def)
  moreover have "check_anchor rule (ns_tip_height st + 1) (ns_is_valid_anchor st) recorded 0 t = Ok ()"
    using p rule m(2) by (auto simp: check_anchor_def pooled_ok_def Let_def)
  ultimately show ?thesis using p m(2) by (simp add: tx_rules_def pooled_ok_def Let_def)
qed

text \<open>A header that commits to a body under a rule form.\<close>

definition sealed_over :: "'k body_rule_form \<Rightarrow> block_header \<Rightarrow> block_body \<Rightarrow> bool" where
  "sealed_over rule hdr b \<longleftrightarrow>
    (case rule of RuleV4 bd \<Rightarrow> commitment_above bd (height hdr) b | RuleV5 cap \<Rightarrow> commitment_v5_above cap (height hdr) b
     | RuleV6 _ _ \<Rightarrow> None) = Some (tx_body_commitment hdr)"

lemma single_payee_body:
  assumes "key \<noteq> [0, 0, 0, 0]"
  shows "txs (from_single_payee ts cb key) = ts" "coinbase_payees (from_single_payee ts cb key) = [\<lparr>rkm = key, amount = cb\<rparr>]"
    "finality_section (from_single_payee ts cb key) = []" "bundle_section (from_single_payee ts cb key) = []"
    "coinbase_total (from_single_payee ts cb key) = cb"
  using assms unat_lt_exp [of cb]
  by (simp_all add: from_single_payee_def body_new_def coinbase_total_def min_def word_le_nat_alt unat_u128_of unat_umax word_unat_eq_iff unat_u64_of_small)

lemma single_payee_scheduled:
  assumes "coinbase_for pre form h = Some cb" and "key \<noteq> [0, 0, 0, 0]" and "h \<noteq> 0" and "height hdr = h"
    and "rule = RuleV4 boundary \<and> form = V4 \<or> (\<exists>cap. rule = RuleV5 cap) \<and> form = V5"
  shows "check_schedule rule hdr (from_single_payee ts cb key) = Some (Ok ())"
proof (cases rule)
  case (RuleV4 bd)
  then have "coinbase pre h = Some cb" using assms(1,5) by (auto simp: coinbase_for_def)
  then have "h \<le> rule_boundary_height \<or> coinbase_exact h = Some cb" by (auto simp: coinbase_def split: if_splits)
  then show ?thesis
    using RuleV4 assms(2,4)
    by (auto simp: check_schedule_def check_scheduled_coinbase_def check_scheduled_coinbase_above_def check_committed_against_exact_def
        single_payee_body)
next
  case (RuleV5 cap)
  then have c: "coinbase_exact h = Some cb" using assms(1,5) by (auto simp: coinbase_for_def)
  have "coinbase_payee_cap_v5_above cap h \<le> 255" by (rule le_trans [OF payee_cap_v5_le]) simp
  moreover have "1 \<le> coinbase_payee_cap_v5_above cap h"
    by (simp add: coinbase_payee_cap_v5_above_def payee_cap_v5_raised_def payee_cap_v5_at_birth_def)
  ultimately show ?thesis
    using RuleV5 c assms(2,3,4) payees_scheduled_iff [of "coinbase_payee_cap_v5_above cap h" h "[\<lparr>rkm = key, amount = cb\<rparr>]"]
    by (simp add: check_schedule_def check_scheduled_coinbase_payees_above_def single_payee_body scheduled_def)
qed (use assms(5) in auto)

lemma sealed_binding:
  assumes "sealed_over rule hdr b" and "coinbase_payees b = [py]" and "check_tx_entry_counts b = Ok ()"
  shows "check_binding rule hdr b = Some (Ok ())"
  using assms
  by (cases rule)
    (auto simp: sealed_over_def check_binding_def check_body_binding_above_def check_body_binding_v5_above_def Let_def and_then_Ok
      match_commitment_Ok payee_cap_v5_at_birth_def coinbase_payee_cap_v5_above_def payee_cap_v5_raised_def)

lemma distinct_subseq: "subseq xs ys \<Longrightarrow> distinct ys \<Longrightarrow> distinct xs"
proof (induction rule: list_emb.induct)
  case (list_emb_Cons2 x y xs ys)
  then show ?case using list_emb_set [of "(=)" xs ys] by auto
qed auto

lemma assemble_returns:
  assumes "1 \<le> max_multiple (mp_weight p)"
  shows "\<exists>tmpl. assemble pre p st med key = Some tmpl"
proof -
  obtain c w pend where f: "fill_block (ns_tip_height st + 1) med (candidates p) ([], 0, []) = (c, w, pend)"
    by (cases "fill_block (ns_tip_height st + 1) med (candidates p) ([], 0, [])") auto
  then have "w \<le> med" using fill_block_takes [OF f] by auto
  then have "is_weight_admissible w med (mp_weight p)" by (rule fill_within_limit [OF _ assms])
  moreover have "coinbase_for pre (ns_form st) (ns_tip_height st + 1) \<noteq> None"
    using coinbase_exact_total by (auto simp: coinbase_for_def coinbase_def split: genesis_form.splits)
  ultimately show ?thesis
    using f by (auto simp: assemble_def template_build_def Let_def)
qed

section \<open>Properties\<close>

text \<open>C15: what the pool assembles on a V4 or V5 net, the node accepts: for a pool that was offered and
  withdrew transactions and was told of every block the node connected, the block built from an assembled
  template and sealed over it passes the whole validation of that form's rule at the next height, provided
  the proof verifier bounds a transaction's counts by 255 (its circuits have fixed arities), the producer
  names a payee, and the height is not at the top of its range. The V6 rule, which judges anchors by the
  finality recorded on chain, and the Annulet rule are not covered: the pool admits by the node's own finality.\<close>

theorem assembled_block_accepted:
  assumes "pool_reach lib verify_tx boundary form w st view p"
    and "rule = RuleV4 boundary \<and> form = V4 \<or> (\<exists>cap. rule = RuleV5 cap) \<and> form = V5 \<and> boundary = Some 0"
    and "assemble pre p st med key = Some tmpl"
    and "height hdr = ns_tip_height st + 1" and "sealed_over rule hdr (bt_body tmpl)"
    and "key \<noteq> [0, 0, 0, 0]" and "ns_tip_height st + 1 \<noteq> 0"
    and "\<forall>t. verify_tx t \<longrightarrow> length (tx_nullifiers (public t)) \<le> 255 \<and> length (commitments (public t)) \<le> 255"
  shows "validate_body_form sg rule hdr (bt_body tmpl) verify_tx (ns_is_valid_anchor st) view = Some (Ok ())"
proof -
  have r: "wf_pool p" "ns_form st = form" "form \<noteq> Annulet" using pool_reach_wf [OF assms(1)] assms(2) by auto
  obtain sel cb where sel: "subseq sel (candidates p)" "names_fresh [] sel" "coinbase_for pre form (ns_tip_height st + 1) = Some cb"
      and body: "bt_body tmpl = from_single_payee (map mt_entry sel) cb key"
    using assemble_template [OF assms(3)] r(2) by blast
  have mem: "set sel \<subseteq> snd ` set (mp_txs p)" using list_emb_set [OF sel(1)] unfolding candidates_set [symmetric] by blast
  have ok: "\<forall>m \<in> set sel. pooled_ok verify_tx boundary st view m"
  proof
    fix m assume "m \<in> set sel"
    then obtain k where "map_of (mp_txs p) k = Some m" using mem wf_pool_mem [OF r(1)] by fastforce
    then show "pooled_ok verify_tx boundary st view m" by (rule pool_reach_entries [OF assms(1) r(3)])
  qed
  have dist: "distinct (concat (map pool_nfs sel))"
    by (rule pooled_nullifiers_distinct [OF r(1) _ mem]) (use subseq_map [OF sel(1), of mt_txid] candidates_distinct [OF r(1)] in \<open>blast intro: distinct_subseq\<close>)
  have rules: "\<forall>t \<in> set (map mt_entry sel). tx_rules rule (height hdr) verify_tx (ns_is_valid_anchor st) None t"
    unfolding assms(4) using chosen_rules [OF ok] assms(2) by blast
  have riders: "riders_valid view (height hdr) [] (map (\<lambda>m. rider (mt_entry m)) sel)"
    unfolding assms(4) by (rule chosen_riders_valid [OF _ sel(2), where boundary = boundary]) (use ok in \<open>simp add: pooled_ok_def Let_def\<close>)
  note b = single_payee_body [OF assms(6), of "map mt_entry sel" cb, folded body]
  have counts: "check_tx_entry_counts (bt_body tmpl) = Ok ()"
    unfolding counts_Ok b(1) using ok assms(8) by (simp add: pooled_ok_def Let_def)
  have schedule: "check_schedule rule hdr (bt_body tmpl) = Some (Ok ())"
    unfolding body by (rule single_payee_scheduled [OF sel(3) assms(6,7,4)]) (use assms(2) in auto)
  have binding: "check_binding rule hdr (bt_body tmpl) = Some (Ok ())" by (rule sealed_binding [OF assms(5) b(2) counts])
  have "check_sections rule (bt_body tmpl) = Ok ()" "length (coinbase_payees (bt_body tmpl)) \<le> payee_cap rule (height hdr)"
      "\<not> mints_without_payee (bt_body tmpl)" "\<forall>chain bundles. rule \<noteq> RuleV6 chain bundles"
    using assms(2,6) by (auto simp: check_sections_def b payee_cap_def payee_cap_v5_at_birth_def coinbase_payee_cap_v5_above_def
        payee_cap_v5_raised_def mints_without_payee_def)
  then show ?thesis
    unfolding validate_body_form_Ok body_nullifiers_def b(1)
    using schedule binding rules riders dist assms(2) by (auto simp: comp_def pool_nfs_def [abs_def])
qed

text \<open>C24: the pool's books. On any form, after any sequence of admissions, withdrawals and connected blocks and
  whatever chain states the node answered from (rewinds included), every pooled transaction stands under its
  own id with its own weight, the nullifier index holds the nullifiers of the pooled transactions and
  nothing else, and no two of them, nor one twice, spend a note. And while a node of an L1 form only connects
  blocks, each pooled transaction passes, at the node's tip, the rules a block will hold it to.\<close>

theorem pool_invariant:
  assumes "pool_run w p"
  shows "(\<forall>k m. map_of (mp_txs p) k = Some m \<longrightarrow>
      k = mt_txid m \<and> k = txid (mt_entry m) \<and> mt_weight m = tx_weight (mt_entry m) \<and> distinct (pool_nfs m))
    \<and> (\<forall>nf k. mp_nf_index p nf = Some k \<longleftrightarrow> (\<exists>m. map_of (mp_txs p) k = Some m \<and> nf \<in> set (pool_nfs m)))
    \<and> (\<forall>k m k' m'. map_of (mp_txs p) k = Some m \<and> map_of (mp_txs p) k' = Some m' \<and> k \<noteq> k' \<longrightarrow>
        set (pool_nfs m) \<inter> set (pool_nfs m') = {})
    \<and> (\<forall>lib verify_tx boundary form st view k m. pool_reach lib verify_tx boundary form w st view p \<and> form \<noteq> Annulet
        \<and> map_of (mp_txs p) k = Some m \<longrightarrow> pooled_ok verify_tx boundary st view m)"
proof -
  have wf: "wf_pool p" using pool_run_wf [OF assms] by simp
  have "set (pool_nfs m) \<inter> set (pool_nfs m') = {}"
    if "map_of (mp_txs p) k = Some m \<and> map_of (mp_txs p) k' = Some m' \<and> k \<noteq> k'" for k m k' m'
    using that pool_owner_unique [OF wf] by blast
  moreover have "\<forall>nf k. mp_nf_index p nf = Some k \<longleftrightarrow> (\<exists>m. map_of (mp_txs p) k = Some m \<and> nf \<in> set (pool_nfs m))"
    using wf by (simp add: wf_pool_def)
  moreover have "\<forall>k m. map_of (mp_txs p) k = Some m \<longrightarrow>
      k = mt_txid m \<and> k = txid (mt_entry m) \<and> mt_weight m = tx_weight (mt_entry m) \<and> distinct (pool_nfs m)"
    using wf_pool_entry [OF wf] by simp
  moreover have "pooled_ok verify_tx boundary st view m"
    if "pool_reach lib verify_tx boundary form w st view p \<and> form \<noteq> Annulet \<and> map_of (mp_txs p) k = Some m"
    for lib verify_tx boundary form st view k m
    using that pool_reach_entries by blast
  ultimately show ?thesis by (intro conjI) blast+
qed

text \<open>C25: assembly always returns a template, within the median it was given, when the weight limit is at least one median
  (the frozen parameters have two): its \<open>expect\<close> cannot fail.\<close>

theorem assemble_total:
  assumes "1 \<le> max_multiple (mp_weight p)"
  shows "\<exists>tmpl. assemble pre p st med key = Some tmpl \<and> bt_total_weight tmpl \<le> med"
  using assemble_returns [OF assms] assemble_template by blast

text \<open>C26: a connected block sweeps the pool exactly, whatever led to the pool: an entry leaves if and only if
  the block published one of its nullifiers, its anchor is not valid at the new tip, its surface was made
  under another registry root than the node's, the expiry recorded with it has passed or lies more than
  1152 blocks ahead of the next height, or its rider asks for a name operation that is refused there; every
  other entry stays as it was.\<close>

theorem block_sweep_exact:
  assumes "pool_run w p"
  shows "map_of (mp_txs (on_block_connected_above bd b st view p)) k =
    (case map_of (mp_txs p) k of
       Some m \<Rightarrow> if swept_by bd b st view m then None else Some m
     | None \<Rightarrow> None)"
proof -
  have "swept_by bd b st view m \<longleftrightarrow> doomed_by (body_nullifiers b) st m \<or> outraced_by bd st view m"
    if "map_of (mp_txs p) k = Some m" for m
    unfolding swept_by_def Let_def doomed_spec outraced_spec [OF pool_run_recorded [OF assms that]] by blast
  then show ?thesis using on_block_connected_maps pool_run_wf [OF assms] by (auto split: option.splits)
qed

text \<open>C37: a transaction's id is not an injective encoding of it: where its nullifiers end and its commitments begin is not
  encoded, so two different transactions have one id.\<close>

theorem txid_not_injective:
  "\<exists>t u. tx_nullifiers (public t) \<noteq> tx_nullifiers (public u) \<and> wf_tx t \<and> wf_tx u \<and> txid t = txid u"
proof -
  define split where "split = (\<lambda>ns cs. plain_tx\<lparr>public := (public plain_tx)\<lparr>tx_nullifiers := ns, commitments := cs\<rparr>\<rparr>)"
  let ?a = "replicate 32 1 :: bytes" and ?b = "replicate 32 2 :: bytes"
  have "txid (split [?a] [?b]) = txid (split [?a, ?b] [])" by (simp add: txid_def txid_bytes_def split_def Let_def)
  moreover have "wf_tx (split [?a] [?b])" "wf_tx (split [?a, ?b] [])"
    by (simp_all add: split_def wf_tx_def is_hash32_def plain_tx_def write_group_contents_def)
  moreover have "tx_nullifiers (public (split [?a] [?b])) \<noteq> tx_nullifiers (public (split [?a, ?b] []))" by (simp add: split_def)
  ultimately show ?thesis by blast
qed

section \<open>A concrete pool\<close>

definition sample_node :: node_state where
  "sample_node = \<lparr>ns_form = V5, ns_fee_table = None, ns_registry_root = None, ns_outstanding = (\<lambda>_. 0), ns_write_root = (\<lambda>_. None),
    ns_auth_context = auth_context_none, ns_tip_height = 9, ns_tip_hash = zero_hash, ns_finalized_height = None,
    ns_commitment_root = zero_hash, ns_commitment_count = 0, ns_is_spent = (\<lambda>_. False), ns_nullifier_count = 0,
    ns_is_valid_anchor = (\<lambda>r. r = replicate 32 5)\<rparr>"

definition sample_pool_tx :: tx_entry where
  "sample_pool_tx = plain_tx\<lparr>public := (public plain_tx)\<lparr>tx_nullifiers := [replicate 32 1]\<rparr>\<rparr>"

definition sample_verify :: "tx_entry \<Rightarrow> bool" where
  "sample_verify t \<longleftrightarrow> length (tx_nullifiers (public t)) \<le> 2 \<and> length (commitments (public t)) \<le> 2"

definition sample_pool :: mempool where
  "sample_pool = pool_insert sample_pool_tx None None (mempool_new devnet_default)"

lemma sample_pool_tx_fields:
  "tx_nullifiers (public sample_pool_tx) = [replicate 32 1]" "rider sample_pool_tx = rider plain_tx" "l2 sample_pool_tx = l2_surface_absent"
  "fee (public sample_pool_tx) = posted_fee (bucket (public sample_pool_tx))" "anchor (public sample_pool_tx) = replicate 32 5"
  "commitments (public sample_pool_tx) = []"
  by (simp_all add: sample_pool_tx_def) (simp_all add: plain_tx_def l2_surface_absent_def)

lemma sample_pool_discovery: "discovery_ok sample_pool_tx"
  using plain_discovery by (simp add: discovery_ok_def sample_pool_tx_def)

lemma sample_admitted:
  "admit_above lib (Some 0) sample_pool_tx sample_node sample_verify empty_name_view (mempool_new devnet_default)
    = Some (Ok (txid sample_pool_tx), sample_pool)"
proof -
  have "admit_check lib (Some 0) sample_pool_tx sample_node sample_verify empty_name_view (mempool_new devnet_default) = Some (Ok (None, None))"
    unfolding admit_check_Ok
    by (simp add: admit_form_def admit_l1_Ok sample_node_def sample_pool_tx_fields name_admit_Ok plain_rider op_fee_def mempool_new_def
        check_tx_discovery_for_def check_tx_discovery_iff sample_pool_discovery admit_auth_def sample_verify_def)
  then show ?thesis by (simp add: admit_above_def sample_pool_def)
qed

lemma sample_pool_reach:
  "pool_reach lib sample_verify (Some 0) V5 devnet_default sample_node empty_name_view sample_pool"
  by (rule Pool_Admit [OF Pool_New sample_admitted]) (simp add: sample_node_def)

lemma sample_pool_lookup:
  "map_of (mp_txs sample_pool) (txid sample_pool_tx) =
    Some \<lparr>mt_txid = txid sample_pool_tx, mt_entry = sample_pool_tx, mt_weight = tx_weight sample_pool_tx, mt_name_op = None, mt_valid_until = None\<rparr>"
  by (simp add: sample_pool_def pool_insert_def Let_def mempool_new_def)

lemma pool_invariant_witness:
  "mp_nf_index sample_pool (replicate 32 1) = Some (txid sample_pool_tx) \<and> mp_nf_index sample_pool (replicate 32 2) = None"
proof -
  have ix: "mp_nf_index sample_pool nf = Some k \<longleftrightarrow> (\<exists>m. map_of (mp_txs sample_pool) k = Some m \<and> nf \<in> set (pool_nfs m))" for nf k
    using pool_invariant [OF pool_reach_run [OF sample_pool_reach]] by blast
  have "map_of (mp_txs sample_pool) k = Some m \<Longrightarrow> pool_nfs m = [replicate 32 1]" for k m
    by (auto simp: sample_pool_def pool_insert_def Let_def mempool_new_def pool_nfs_def sample_pool_tx_fields split: if_splits)
  then have "mp_nf_index sample_pool (replicate 32 2) \<noteq> Some k" for k unfolding ix by auto
  then have "mp_nf_index sample_pool (replicate 32 2) = None" by auto
  then show ?thesis using sample_pool_lookup by (auto simp: ix pool_nfs_def sample_pool_tx_fields)
qed

lemma assemble_total_witness: "\<exists>tmpl. assemble (\<lambda>_. 0) sample_pool sample_node 100000 [1, 2, 3, 4] = Some tmpl \<and> bt_total_weight tmpl \<le> 100000"
  by (rule assemble_total) (simp add: sample_pool_def devnet_default_def)

lemma block_sweep_exact_witness:
  "map_of (mp_txs (on_block_connected_above (Some 0) (body_new [sample_pool_tx] []) sample_node empty_name_view sample_pool)) (txid sample_pool_tx) = None"
  unfolding block_sweep_exact [OF pool_reach_run [OF sample_pool_reach]]
  by (simp add: sample_pool_lookup swept_by_def Let_def body_new_def sample_pool_tx_fields)

lemma assembled_seals:
  assumes "assemble pre p st med key = Some tmpl" and "ns_form st \<noteq> Annulet" and "key \<noteq> [0, 0, 0, 0]"
    and "\<forall>m \<in> set (candidates p). length (tx_nullifiers (public (mt_entry m))) \<le> 255 \<and> length (commitments (public (mt_entry m))) \<le> 255"
  shows "sealed_over (RuleV5 None) (header_over h (the (commitment_v5_above None h (bt_body tmpl)))) (bt_body tmpl)"
proof -
  obtain sel cb where sel: "subseq sel (candidates p)" and body: "bt_body tmpl = from_single_payee (map mt_entry sel) cb key"
    using assemble_template [OF assms(1)] by blast
  note b = single_payee_body [OF assms(3), of "map mt_entry sel" cb, folded body]
  have "check_tx_entry_counts (bt_body tmpl) = Ok ()"
    unfolding counts_Ok b(1) using assms(4) list_emb_set [OF sel] by fastforce
  then show ?thesis
    using preimage_form_total [of FormV5 "bt_body tmpl" 1]
    by (auto simp: sealed_over_def header_over_def commitment_v5_above_def b coinbase_payee_cap_v5_above_def payee_cap_v5_at_birth_def)
qed

lemma sample_candidates: "map mt_entry (candidates sample_pool) = [sample_pool_tx]"
  by (simp add: candidates_def sample_pool_def pool_insert_def Let_def mempool_new_def)

lemma assembled_block_accepted_witness:
  "\<exists>tmpl hdr. assemble (\<lambda>_. 0) sample_pool sample_node 100000 [1, 2, 3, 4] = Some tmpl \<and> height hdr = 10
    \<and> validate_body_form sample_sig (RuleV5 None) hdr (bt_body tmpl) sample_verify (ns_is_valid_anchor sample_node) empty_name_view = Some (Ok ())"
proof -
  let ?key = "[1, 2, 3, 4] :: u64 list"
  obtain tmpl where t: "assemble (\<lambda>_. 0) sample_pool sample_node 100000 ?key = Some tmpl"
    using assemble_returns [of sample_pool "\<lambda>_. 0" sample_node 100000 ?key] by (auto simp: sample_pool_def devnet_default_def)
  let ?hdr = "header_over 10 (the (commitment_v5_above None 10 (bt_body tmpl)))"
  have few: "\<forall>m \<in> set (candidates sample_pool).
      length (tx_nullifiers (public (mt_entry m))) \<le> 255 \<and> length (commitments (public (mt_entry m))) \<le> 255"
    using sample_candidates by (auto simp: sample_pool_tx_fields map_eq_Cons_conv)
  have "validate_body_form sample_sig (RuleV5 None) ?hdr (bt_body tmpl) sample_verify (ns_is_valid_anchor sample_node) empty_name_view = Some (Ok ())"
    by (rule assembled_block_accepted [OF sample_pool_reach _ t _ assembled_seals [OF t _ _ few]])
      (auto simp: sample_node_def header_over_def sample_verify_def)
  moreover have "height ?hdr = 10" by (simp add: header_over_def)
  ultimately show ?thesis using t by blast
qed

end
