(* ===== verification/Node_Store.thy ===== *)
theory Node_Store
  imports Chain Mempool Coinbase
begin

text \<open>
  What a node keeps of the blocks it applied (\<open>qlab-node/src/store.rs\<close>) and the bodies it retains across
  a rewind (\<open>RetainedBodies\<close> of \<open>node.rs\<close>). A stored block is the header, the transactions with the bucket
  as its action count, the single coinbase payee, the Annulet seal and the V6 sections. A bundle is held
  resident, with its id and length: the other source of a \<open>BundleRef\<close>, an offset into \<open>blocks.log\<close> that is
  read back and compared with the id, is file input and is not modelled. The header hash is the parameter
  \<open>hh\<close>, as in the chain. A \<open>panic!\<close> or a failed \<open>expect\<close> is \<open>None\<close>.
\<close>

section \<open>Stored blocks\<close>

record stored_header =
  sh_prev :: hash32
  sh_height :: u64
  sh_timestamp :: u64
  sh_difficulty :: u64
  sh_nonce :: u64
  sh_tx_body_commitment :: hash32

record stored_tx =
  st_anchor :: hash32
  st_nullifiers :: "hash32 list"
  st_commitments :: "hash32 list"
  st_bucket_actions :: u32
  st_fee :: u64
  st_proof :: bytes
  st_discovery :: bytes
  st_rider :: bytes
  st_l2 :: bytes
  st_auth :: bytes

record annulet_stored_seal =
  as_ext :: annulet_header_fields
  as_sig :: "bytes option"

record bundle_ref =
  br_id :: hash32
  br_len :: u32
  br_bytes :: bytes

record stored_sections =
  ss_finality :: bytes
  ss_bundle :: "bundle_ref option"

record stored_block =
  sb_header :: stored_header
  sb_txs :: "stored_tx list"
  sb_coinbase :: u64
  sb_coinbase_rkm :: "u64 list"
  sb_annulet :: "annulet_stored_seal option"
  sb_sections :: "stored_sections option"

record sealed_header =
  sl_header :: block_header
  sl_sig :: bytes

definition header_fields :: "block_header \<Rightarrow> stored_header" where
  "header_fields h =
    \<lparr>sh_prev = prev h, sh_height = height h, sh_timestamp = timestamp h, sh_difficulty = difficulty h,
     sh_nonce = nonce h, sh_tx_body_commitment = tx_body_commitment h\<rparr>"

definition stored_header_of :: "block_header \<Rightarrow> stored_header option" where
  "stored_header_of h = (if ext h = L1 then Some (header_fields h) else None)"

definition block_header_of :: "stored_header \<Rightarrow> block_header" where
  "block_header_of s =
    \<lparr>prev = sh_prev s, height = sh_height s, timestamp = sh_timestamp s, difficulty = sh_difficulty s,
     nonce = sh_nonce s, tx_body_commitment = sh_tx_body_commitment s, ext = L1\<rparr>"

definition bucket_from_actions :: "u32 \<Rightarrow> arity_bucket option" where
  "bucket_from_actions a =
    (if a = 2 then Some TwoByTwo else if a = 4 then Some FourByFour else if a = 8 then Some EightByEight else None)"

definition stored_tx_of :: "tx_entry \<Rightarrow> stored_tx" where
  "stored_tx_of t =
    \<lparr>st_anchor = anchor (public t), st_nullifiers = tx_nullifiers (public t), st_commitments = commitments (public t),
     st_bucket_actions = logical_actions (bucket (public t)), st_fee = fee (public t), st_proof = proof_bytes t,
     st_discovery = discovery t, st_rider = rider t, st_l2 = l2 t, st_auth = auth t\<rparr>"

definition tx_entry_of :: "stored_tx \<Rightarrow> tx_entry option" where
  "tx_entry_of s =
    (case bucket_from_actions (st_bucket_actions s) of
       None \<Rightarrow> None
     | Some b \<Rightarrow>
         Some \<lparr>proof_bytes = st_proof s,
           public = \<lparr>anchor = st_anchor s, tx_nullifiers = st_nullifiers s, commitments = st_commitments s, bucket = b, fee = st_fee s\<rparr>,
           discovery = st_discovery s, rider = st_rider s, l2 = st_l2 s, auth = st_auth s\<rparr>)"

fun tx_entries_of :: "stored_tx list \<Rightarrow> tx_entry list option" where
  "tx_entries_of [] = Some []"
| "tx_entries_of (s # ss) =
    (case tx_entry_of s of
       None \<Rightarrow> None
     | Some t \<Rightarrow> (case tx_entries_of ss of None \<Rightarrow> None | Some ts \<Rightarrow> Some (t # ts)))"

definition bundle_resident :: "bytes \<Rightarrow> bundle_ref option option" where
  "bundle_resident b =
    (if b = [] then Some None
     else if length b < 2 ^ 32 then Some (Some \<lparr>br_id = keccak256 b, br_len = word_of_nat (length b), br_bytes = b\<rparr>)
     else None)"

definition from_parts :: "block_header \<Rightarrow> block_body \<Rightarrow> stored_block option" where
  "from_parts h b =
    (case (single_payee_parts b, stored_header_of h) of
       (Some (cb, key), Some sh) \<Rightarrow>
         let block = \<lparr>sb_header = sh, sb_txs = map stored_tx_of (txs b), sb_coinbase = cb, sb_coinbase_rkm = key,
               sb_annulet = None, sb_sections = None\<rparr>
         in if has_v6_sections b
            then map_option (\<lambda>r. block\<lparr>sb_sections := Some \<lparr>ss_finality = finality_section b, ss_bundle = r\<rparr>\<rparr>)
                   (bundle_resident (bundle_section b))
            else Some block
     | _ \<Rightarrow> None)"

definition annulet_block :: "block_header \<Rightarrow> block_body \<Rightarrow> bytes option \<Rightarrow> stored_block option" where
  "annulet_block h b sig =
    (case ext h of
       L1 \<Rightarrow> None
     | ExtAnnulet e \<Rightarrow>
         Some \<lparr>sb_header = header_fields h, sb_txs = map stored_tx_of (txs b), sb_coinbase = 0, sb_coinbase_rkm = [0, 0, 0, 0],
           sb_annulet = Some \<lparr>as_ext = e, as_sig = sig\<rparr>, sb_sections = None\<rparr>)"

definition from_sealed_parts :: "sealed_header \<Rightarrow> block_body \<Rightarrow> stored_block option" where
  "from_sealed_parts s b = (if coinbase_payees b = [] then annulet_block (sl_header s) b (Some (sl_sig s)) else None)"

definition annulet_genesis :: "block_header \<Rightarrow> stored_block option" where
  "annulet_genesis h = (if height h = 0 then annulet_block h empty_body None else None)"

text \<open>\<open>StoredBlock::header\<close>, \<open>sealed_header\<close>, \<open>coinbase_view\<close> and \<open>body\<close>.\<close>

definition full_header :: "stored_block \<Rightarrow> block_header" where
  "full_header b =
    (case sb_annulet b of None \<Rightarrow> block_header_of (sb_header b)
     | Some a \<Rightarrow> (block_header_of (sb_header b))\<lparr>ext := ExtAnnulet (as_ext a)\<rparr>)"

definition sealed_header_of :: "stored_block \<Rightarrow> sealed_header option" where
  "sealed_header_of b =
    (case sb_annulet b of None \<Rightarrow> None
     | Some a \<Rightarrow> map_option (\<lambda>s. \<lparr>sl_header = full_header b, sl_sig = s\<rparr>) (as_sig a))"

definition coinbase_view :: "stored_block \<Rightarrow> block_body option" where
  "coinbase_view b = map_option (\<lambda>ts. from_single_payee ts (sb_coinbase b) (sb_coinbase_rkm b)) (tx_entries_of (sb_txs b))"

definition bundle_ref_of :: "stored_block \<Rightarrow> bundle_ref option" where
  "bundle_ref_of b = (case sb_sections b of None \<Rightarrow> None | Some s \<Rightarrow> ss_bundle s)"

definition with_sections :: "stored_block \<Rightarrow> block_body \<Rightarrow> block_body" where
  "with_sections b body =
    (case sb_sections b of
       None \<Rightarrow> body
     | Some s \<Rightarrow> body\<lparr>finality_section := ss_finality s,
                   bundle_section := (case ss_bundle s of None \<Rightarrow> [] | Some r \<Rightarrow> br_bytes r)\<rparr>)"

definition stored_body :: "stored_block \<Rightarrow> block_body option" where
  "stored_body b = map_option (with_sections b) (coinbase_view b)"

abbreviation sb_height :: "stored_block \<Rightarrow> u64" where "sb_height b \<equiv> sh_height (sb_header b)"
abbreviation sb_prev :: "stored_block \<Rightarrow> hash32" where "sb_prev b \<equiv> sh_prev (sb_header b)"

section \<open>The chain store\<close>

datatype rewind_error =
    UnknownTarget
  | NotAnAncestorOfTip
  | PastFinalized u64 u64
  | MissingBlockOnPath u64

record mem_chain_store =
  ms_chain :: chain_state
  ms_blocks :: "(hash32 \<times> stored_block) list"
  ms_genesis :: hash32

definition store_new_for :: "header_hash \<Rightarrow> genesis_form \<Rightarrow> stored_block \<Rightarrow> mem_chain_store option" where
  "store_new_for hh f g =
    (case (chain_new_for hh f (full_header g), hh f (full_header g)) of
       (Some c, Some hash) \<Rightarrow> Some \<lparr>ms_chain = c, ms_blocks = AList.update hash g [], ms_genesis = hash\<rparr>
     | _ \<Rightarrow> None)"

definition store_block :: "mem_chain_store \<Rightarrow> hash32 \<Rightarrow> stored_block option" where
  "store_block s h = map_of (ms_blocks s) h"

definition put_block :: "header_hash \<Rightarrow> stored_block \<Rightarrow> mem_chain_store \<Rightarrow> ((insert_error + hash32) \<times> mem_chain_store) option" where
  "put_block hh b s =
    (case insert_header hh (ms_chain s) (full_header b) of
       None \<Rightarrow> None
     | Some (Inl e, c) \<Rightarrow> Some (Err e, s\<lparr>ms_chain := c\<rparr>)
     | Some (Inr hash, c) \<Rightarrow> Some (Ok hash, s\<lparr>ms_chain := c, ms_blocks := AList.update hash b (ms_blocks s)\<rparr>))"

text \<open>The walk of \<open>rewind_path\<close> from the target down to the genesis; \<open>None\<close> when the height underflows.\<close>

fun collect_path :: "mem_chain_store \<Rightarrow> nat \<Rightarrow> hash32 \<Rightarrow> (rewind_error + stored_block list) option" where
  "collect_path s n cur =
    (case store_block s cur of
       None \<Rightarrow> Some (Err (MissingBlockOnPath (word_of_nat n)))
     | Some b \<Rightarrow>
         if sb_height b = 0 then Some (Ok [b])
         else (case n of
                 0 \<Rightarrow> None
               | Suc m \<Rightarrow> and_then (collect_path s m (sb_prev b)) (\<lambda>bs. Some (Ok (bs @ [b])))))"

declare collect_path.simps [simp del]

definition past_finalized :: "chain_state \<Rightarrow> hash32 \<Rightarrow> u64 \<Rightarrow> (rewind_error + unit)" where
  "past_finalized c target th =
    (case finalized_point c of
       None \<Rightarrow> Ok ()
     | Some f \<Rightarrow>
         if th < fp_height f \<or> \<not> is_descendant_of c target (fp_hash f) (fp_height f)
         then Err (PastFinalized th (fp_height f)) else Ok ())"

definition rewind_path :: "mem_chain_store \<Rightarrow> hash32 \<Rightarrow> (rewind_error + stored_block list) option" where
  "rewind_path s target =
    (let c = ms_chain s
     in case get_block c target of
          None \<Rightarrow> Some (Err UnknownTarget)
        | Some e \<Rightarrow>
            (case tip_height c of
               None \<Rightarrow> None
             | Some tiph \<Rightarrow>
                 let th = height (e_header e)
                 in if th > tiph \<or> ancestor c (tip c) (tiph - th) \<noteq> Some target then Some (Err NotAnAncestorOfTip)
                    else and_then (Some (past_finalized c target th)) (\<lambda>_. collect_path s (unat th) target)))"

fun put_blocks :: "header_hash \<Rightarrow> stored_block list \<Rightarrow> mem_chain_store \<Rightarrow> mem_chain_store option" where
  "put_blocks hh [] s = Some s"
| "put_blocks hh (b # bs) s =
    (case put_block hh b s of Some (Inr _, s') \<Rightarrow> put_blocks hh bs s' | _ \<Rightarrow> None)"

definition store_restore_finalized :: "(hash32 \<times> u64) option \<Rightarrow> mem_chain_store \<Rightarrow> mem_chain_store option" where
  "store_restore_finalized fin s =
    (case fin of
       None \<Rightarrow> Some s
     | Some (hash, h) \<Rightarrow>
         (case restore_finalized (ms_chain s) hash h of
            (Inl _, _) \<Rightarrow> None | (Inr _, c) \<Rightarrow> Some (s\<lparr>ms_chain := c\<rparr>)))"

definition finalized_pair :: "mem_chain_store \<Rightarrow> (hash32 \<times> u64) option" where
  "finalized_pair s = map_option (\<lambda>f. (fp_hash f, fp_height f)) (finalized_point (ms_chain s))"

text \<open>\<open>MemChainStore::rewind_to\<close>: the retained path, and the store it leaves.\<close>

definition store_rewind_to :: "header_hash \<Rightarrow> hash32 \<Rightarrow> mem_chain_store \<Rightarrow> ((rewind_error + stored_block list) \<times> mem_chain_store) option" where
  "store_rewind_to hh target s =
    (case rewind_path s target of
       None \<Rightarrow> None
     | Some (Inl e) \<Rightarrow> Some (Err e, s)
     | Some (Inr kept) \<Rightarrow>
         (case store_new_for hh (form (ms_chain s)) (hd kept) of
            None \<Rightarrow> None
          | Some s0 \<Rightarrow>
              (case put_blocks hh (tl kept) s0 of
                 None \<Rightarrow> None
               | Some s1 \<Rightarrow> map_option (\<lambda>s2. (Ok kept, s2)) (store_restore_finalized (finalized_pair s) s1))))"

definition store_set_finalized :: "hash32 \<Rightarrow> mem_chain_store \<Rightarrow> ((finalize_mark_error + unit) \<times> mem_chain_store) option" where
  "store_set_finalized hash s = map_option (\<lambda>(r, c). (r, s\<lparr>ms_chain := c\<rparr>)) (set_finalized (ms_chain s) hash)"

text \<open>\<open>Node::ancestor_at\<close>: down the stored blocks to a height.\<close>

partial_function (option) ancestor_block :: "mem_chain_store \<Rightarrow> u64 \<Rightarrow> hash32 \<Rightarrow> stored_block option option" where
  "ancestor_block s h cur =
    (case store_block s cur of
       None \<Rightarrow> Some None
     | Some b \<Rightarrow> if sb_height b > h then ancestor_block s h (sb_prev b) else Some (if sb_height b = h then Some b else None))"

section \<open>Retained bodies\<close>

text \<open>\<open>RetainedBodies\<close>: the hash map of the bodies kept across a rewind, their weight in bytes (a count far
  below the machine word, since an eviction follows every insertion), and the eviction loop, lowest height
  first, which runs at most once per body held.\<close>

definition max_retained_bodies :: nat where "max_retained_bodies = 64"
definition max_retained_body_bytes :: nat where "max_retained_body_bytes = 64 * 1024 * 1024"

record retained_bodies =
  rb_by_hash :: "(hash32 \<times> stored_block) list"
  rb_bytes :: nat
  rb_form :: genesis_form

definition retained_new :: "genesis_form \<Rightarrow> retained_bodies" where
  "retained_new f = \<lparr>rb_by_hash = [], rb_bytes = 0, rb_form = f\<rparr>"

definition retained_weight :: "stored_block \<Rightarrow> nat" where
  "retained_weight b =
    sum_list (map (\<lambda>t. length (st_proof t) + 32 * (1 + length (st_nullifiers t) + length (st_commitments t)) + 16) (sb_txs b)) + 40"

definition retained_get :: "retained_bodies \<Rightarrow> hash32 \<Rightarrow> stored_block option" where
  "retained_get r h = map_of (rb_by_hash r) h"

definition retained_forget :: "hash32 \<Rightarrow> retained_bodies \<Rightarrow> retained_bodies" where
  "retained_forget h r =
    (case retained_get r h of
       None \<Rightarrow> r
     | Some b \<Rightarrow> r\<lparr>rb_by_hash := AList.delete h (rb_by_hash r), rb_bytes := rb_bytes r - retained_weight b\<rparr>)"

definition retained_victim :: "(hash32 \<times> stored_block) list \<Rightarrow> hash32 option" where
  "retained_victim m =
    (case m of [] \<Rightarrow> None
     | _ \<Rightarrow> Some (snd (Min (set (map (\<lambda>(h, b). (sb_height b, h)) m)))))"

definition over_budget :: "retained_bodies \<Rightarrow> bool" where
  "over_budget r \<longleftrightarrow>
    length (rb_by_hash r) > max_retained_bodies \<or> (rb_bytes r > max_retained_body_bytes \<and> length (rb_by_hash r) > 1)"

fun evict_loop :: "nat \<Rightarrow> retained_bodies \<Rightarrow> retained_bodies" where
  "evict_loop 0 r = r"
| "evict_loop (Suc n) r =
    (if over_budget r
     then (case retained_victim (rb_by_hash r) of None \<Rightarrow> r | Some h \<Rightarrow> evict_loop n (retained_forget h r))
     else r)"

definition retained_evict :: "retained_bodies \<Rightarrow> retained_bodies" where
  "retained_evict r = evict_loop (length (rb_by_hash r)) r"

definition retained_insert :: "header_hash \<Rightarrow> stored_block \<Rightarrow> retained_bodies \<Rightarrow> retained_bodies option" where
  "retained_insert hh b r =
    (case hh (rb_form r) (full_header b) of
       None \<Rightarrow> None
     | Some hash \<Rightarrow>
         let r1 = (case retained_get r hash of None \<Rightarrow> r | Some old \<Rightarrow> r\<lparr>rb_bytes := rb_bytes r - retained_weight old\<rparr>)
         in Some (retained_evict (r1\<lparr>rb_by_hash := AList.update hash b (rb_by_hash r), rb_bytes := rb_bytes r1 + retained_weight b\<rparr>)))"

definition retained_prune_below :: "u64 \<Rightarrow> retained_bodies \<Rightarrow> retained_bodies" where
  "retained_prune_below tiph r =
    (let floor = sat_sub tiph (word_of_nat max_retained_bodies); dead = filter (\<lambda>(h, b). sb_height b \<le> floor) (rb_by_hash r)
     in r\<lparr>rb_by_hash := filter (\<lambda>(h, b). sb_height b > floor) (rb_by_hash r),
          rb_bytes := foldl (\<lambda>n (h, b). n - retained_weight b) (rb_bytes r) dead\<rparr>)"

fun retain_all :: "header_hash \<Rightarrow> stored_block list \<Rightarrow> retained_bodies \<Rightarrow> retained_bodies option" where
  "retain_all hh [] r = Some r"
| "retain_all hh (b # bs) r = (case retained_insert hh b r of None \<Rightarrow> None | Some r1 \<Rightarrow> retain_all hh bs r1)"

fun forget_all :: "header_hash \<Rightarrow> stored_block list \<Rightarrow> retained_bodies \<Rightarrow> retained_bodies option" where
  "forget_all hh [] r = Some r"
| "forget_all hh (b # bs) r =
    (case hh (rb_form r) (full_header b) of None \<Rightarrow> None | Some hash \<Rightarrow> forget_all hh bs (retained_forget hash r))"

section \<open>What a stored block keeps\<close>

lemma full_header_sel [simp]:
  "height (full_header b) = sb_height b" "prev (full_header b) = sb_prev b"
  "tx_body_commitment (full_header b) = sh_tx_body_commitment (sb_header b)" "difficulty (full_header b) = sh_difficulty (sb_header b)"
  by (simp_all add: full_header_def block_header_of_def split: option.splits)

lemma bucket_actions_roundtrip [simp]: "bucket_from_actions (logical_actions b) = Some b"
  by (cases b) (simp_all add: bucket_from_actions_def logical_actions_def)

lemma tx_entry_roundtrip [simp]: "tx_entry_of (stored_tx_of t) = Some t"
  by (simp add: tx_entry_of_def stored_tx_of_def)

lemma tx_entries_roundtrip [simp]: "tx_entries_of (map stored_tx_of ts) = Some ts"
  by (induction ts) simp_all

lemma header_roundtrip: "ext h = L1 \<Longrightarrow> block_header_of (header_fields h) = h"
  by (simp add: block_header_of_def header_fields_def)

lemma header_roundtrip_ext: "(block_header_of (header_fields h))\<lparr>ext := ext h\<rparr> = h"
  by (simp add: block_header_of_def header_fields_def)

lemma from_parts_header: "from_parts h b = Some s \<Longrightarrow> full_header s = h \<and> sb_annulet s = None"
  by (auto simp: from_parts_def stored_header_of_def full_header_def header_roundtrip Let_def split: option.splits if_splits)

lemma from_sealed_header:
  "from_sealed_parts s b = Some x \<Longrightarrow> full_header x = sl_header s \<and> sb_annulet x \<noteq> None"
  by (auto simp: from_sealed_parts_def annulet_block_def full_header_def header_roundtrip_ext split: header_ext.splits if_splits)
    (metis header_roundtrip_ext)

lemma from_parts_txs: "from_parts h b = Some s \<Longrightarrow> sb_txs s = map stored_tx_of (txs b)"
  by (auto simp: from_parts_def Let_def split: option.splits if_splits)

lemma from_sealed_txs: "from_sealed_parts s b = Some x \<Longrightarrow> sb_txs x = map stored_tx_of (txs b)"
  by (auto simp: from_sealed_parts_def annulet_block_def split: header_ext.splits if_splits)

section \<open>The retained archive keeps its budget\<close>

definition retained_ok :: "retained_bodies \<Rightarrow> bool" where
  "retained_ok r \<longleftrightarrow> hm_ok (rb_by_hash r) \<and> rb_bytes r = sum_list (map (retained_weight \<circ> snd) (rb_by_hash r))"

lemma weight_delete:
  "hm_ok m \<Longrightarrow> map_of m h = Some b \<Longrightarrow>
    sum_list (map (retained_weight \<circ> snd) m) = retained_weight b + sum_list (map (retained_weight \<circ> snd) (AList.delete h m))"
proof (induction m)
  case (Cons x m)
  show ?case
  proof (cases "fst x = h")
    case True
    then have "AList.delete h m = m" using Cons.prems by (intro delete_id) (auto simp: hm_ok_def)
    with True Cons.prems show ?thesis by (cases x) simp
  next
    case False
    with Cons show ?thesis by (cases x) (simp add: hm_ok_def)
  qed
qed simp

lemma retained_forget_ok:
  assumes "retained_ok r"
  shows "retained_ok (retained_forget h r)"
    and "length (rb_by_hash (retained_forget h r)) = (if retained_get r h = None then length (rb_by_hash r) else length (rb_by_hash r) - 1)"
    and "retained_get (retained_forget h r) = (retained_get r)(h := None)"
  using assms weight_delete [of "rb_by_hash r" h]
  by (auto simp: retained_ok_def retained_forget_def retained_get_def hm.ok_del hm.size_del delete_conv' split: option.splits)

lemma retained_victim_held:
  assumes "rb_by_hash r \<noteq> []"
  shows "\<exists>h b. retained_victim (rb_by_hash r) = Some h \<and> retained_get r h = Some b"
proof -
  define ks where "ks = (\<lambda>(h, b). (sb_height b, h)) ` set (rb_by_hash r)"
  have "Min ks \<in> ks" using assms by (intro Min_in) (auto simp: ks_def)
  then obtain h b where hb: "(h, b) \<in> set (rb_by_hash r)" "Min ks = (sb_height b, h)" by (auto simp: ks_def)
  have "retained_victim (rb_by_hash r) = Some (snd (Min ks))"
    using assms by (cases "rb_by_hash r") (simp_all add: retained_victim_def ks_def)
  then have "retained_victim (rb_by_hash r) = Some h" using hb(2) by simp
  moreover have "\<exists>b. retained_get r h = Some b"
    using weak_map_of_SomeI [OF hb(1)] by (simp add: retained_get_def)
  ultimately show ?thesis by blast
qed

lemma evict_loop_ok:
  assumes "retained_ok r" and "length (rb_by_hash r) \<le> n"
  shows "retained_ok (evict_loop n r) \<and> \<not> over_budget (evict_loop n r)
    \<and> retained_get (evict_loop n r) \<subseteq>\<^sub>m retained_get r"
  using assms
proof (induction n arbitrary: r)
  case 0
  then show ?case by (simp add: over_budget_def max_retained_bodies_def)
next
  case (Suc n)
  show ?case
  proof (cases "over_budget r")
    case True
    then have "rb_by_hash r \<noteq> []" by (auto simp: over_budget_def max_retained_bodies_def)
    then obtain h b where v: "retained_victim (rb_by_hash r) = Some h" "retained_get r h = Some b"
      using retained_victim_held by blast
    note f = retained_forget_ok [OF Suc.prems(1), of h]
    have "length (rb_by_hash (retained_forget h r)) \<le> n" using f(2) v(2) Suc.prems(2) by simp
    from Suc.IH [OF f(1) this] show ?thesis using True v f(3)
      by (auto simp: map_le_def split: if_splits) (metis domI)
  qed (use Suc.prems in simp)
qed

lemma weight_update:
  "hm_ok m \<Longrightarrow> sum_list (map (retained_weight \<circ> snd) (AList.update h b m))
    = retained_weight b + sum_list (map (retained_weight \<circ> snd) (AList.delete h m))"
proof (induction m)
  case (Cons x m)
  show ?case
  proof (cases "fst x = h")
    case True
    then have "AList.delete h m = m" using Cons.prems by (intro delete_id) (auto simp: hm_ok_def)
    with True Cons.prems show ?thesis by (cases x) simp
  next
    case False
    with Cons show ?thesis by (cases x) (simp add: hm_ok_def)
  qed
qed simp

lemma retained_insert_ok:
  assumes ok: "retained_ok r" and ins: "retained_insert hh b r = Some r'"
  shows "retained_ok r' \<and> \<not> over_budget r'"
proof -
  obtain hash where hash: "hh (rb_form r) (full_header b) = Some hash"
    using ins by (auto simp: retained_insert_def split: option.splits)
  define r1 where "r1 = (case retained_get r hash of None \<Rightarrow> r | Some old \<Rightarrow> r\<lparr>rb_bytes := rb_bytes r - retained_weight old\<rparr>)"
  define r2 where "r2 = r1\<lparr>rb_by_hash := AList.update hash b (rb_by_hash r), rb_bytes := rb_bytes r1 + retained_weight b\<rparr>"
  have r': "r' = retained_evict r2" using ins hash by (simp add: retained_insert_def Let_def r1_def r2_def)
  have m: "hm_ok (rb_by_hash r)" "rb_bytes r = sum_list (map (retained_weight \<circ> snd) (rb_by_hash r))"
    using ok by (auto simp: retained_ok_def)
  have "rb_bytes r1 = sum_list (map (retained_weight \<circ> snd) (AList.delete hash (rb_by_hash r)))"
  proof (cases "retained_get r hash")
    case None
    then have "AList.delete hash (rb_by_hash r) = rb_by_hash r"
      by (intro delete_id) (simp add: retained_get_def map_of_eq_None_iff)
    with None m show ?thesis by (simp add: r1_def)
  next
    case (Some old)
    with m weight_delete [OF m(1), of hash old] show ?thesis by (simp add: r1_def retained_get_def)
  qed
  then have "retained_ok r2" using m by (simp add: r2_def retained_ok_def weight_update hm.ok_put)
  then show ?thesis using evict_loop_ok [of r2] by (simp add: r' retained_evict_def)
qed

section \<open>A store that follows one branch\<close>

text \<open>The node only inserts children of its tip, so its store is one branch: \<open>holds hh s bs\<close> says that the
  store \<open>s\<close> is the branch \<open>bs\<close>, from the genesis up.\<close>

definition holds :: "header_hash \<Rightarrow> mem_chain_store \<Rightarrow> stored_block list \<Rightarrow> bool" where
  "holds hh s bs \<longleftrightarrow>
    (let c = ms_chain s; hs = main_chain_by_height c
     in wf_chain c \<and> unat (work_of c (Chain.genesis c)) < 2 ^ 64 \<and> length (blocks c) = length bs \<and> length bs < 2 ^ 63
        \<and> bs \<noteq> [] \<and> length hs = length bs \<and> ms_genesis s = hd hs
        \<and> (\<forall>h. get_block c h \<noteq> None \<longleftrightarrow> h \<in> set hs)
        \<and> (\<forall>h. store_block s h \<noteq> None \<longleftrightarrow> h \<in> set hs)
        \<and> (\<forall>i < length bs. hh (form c) (full_header (bs ! i)) = Some (hs ! i) \<and> store_block s (hs ! i) = Some (bs ! i)
            \<and> (\<exists>w. get_block c (hs ! i) = Some \<lparr>e_header = full_header (bs ! i), cumulative_work = w\<rparr>)))"

lemma holdsD:
  assumes "holds hh s bs"
  shows "wf_chain (ms_chain s)" and "unat (work_of (ms_chain s) (Chain.genesis (ms_chain s))) < 2 ^ 64"
    and "length (blocks (ms_chain s)) = length bs" and "length bs < 2 ^ 63" and "bs \<noteq> []"
    and "length (main_chain_by_height (ms_chain s)) = length bs" and "ms_genesis s = hd (main_chain_by_height (ms_chain s))"
    and "get_block (ms_chain s) h \<noteq> None \<longleftrightarrow> h \<in> set (main_chain_by_height (ms_chain s))"
    and "store_block s h \<noteq> None \<longleftrightarrow> h \<in> set (main_chain_by_height (ms_chain s))"
  using assms by (simp_all add: holds_def Let_def)

lemma holds_nth:
  assumes "holds hh s bs" and "i < length bs"
  shows "hh (form (ms_chain s)) (full_header (bs ! i)) = Some (main_chain_by_height (ms_chain s) ! i)"
    and "store_block s (main_chain_by_height (ms_chain s) ! i) = Some (bs ! i)"
    and "\<exists>w. get_block (ms_chain s) (main_chain_by_height (ms_chain s) ! i) = Some \<lparr>e_header = full_header (bs ! i), cumulative_work = w\<rparr>"
  using assms unfolding holds_def Let_def by auto

lemma holds_path: "holds hh s bs \<Longrightarrow> main_chain_by_height (ms_chain s) = path (ms_chain s) (tip (ms_chain s))"
  using holdsD(1) by (simp add: wf_chain_def)

lemma holds_tip:
  assumes "holds hh s bs"
  shows "tip (ms_chain s) = last (main_chain_by_height (ms_chain s))"
    and "tip (ms_chain s) = main_chain_by_height (ms_chain s) ! (length bs - 1)"
proof -
  note h = holdsD [OF assms]
  show "tip (ms_chain s) = last (main_chain_by_height (ms_chain s))"
    using h(1) path_last [of "ms_chain s" "tip (ms_chain s)"] by (auto simp: wf_chain_def)
  moreover have "main_chain_by_height (ms_chain s) \<noteq> []" using h(5,6) by auto
  ultimately show "tip (ms_chain s) = main_chain_by_height (ms_chain s) ! (length bs - 1)"
    using h(6) by (simp add: last_conv_nth)
qed

text \<open>The block at index \<open>i\<close> has height \<open>i\<close> and its predecessor's hash as its parent.\<close>

lemma holds_height:
  assumes "holds hh s bs" and "i < length bs"
  shows "unat (sb_height (bs ! i)) = i" and "sb_height (bs ! i) = word_of_nat i"
    and "0 < i \<Longrightarrow> sb_prev (bs ! i) = main_chain_by_height (ms_chain s) ! (i - 1)"
proof -
  define c where "c = ms_chain s"
  note h = holdsD [OF assms(1)]
  have wb: "wf_blocks c" using h(1) by (simp add: wf_chain_def c_def)
  obtain t where t: "get_block c (tip c) = Some t" using h(1) by (auto simp: wf_chain_def c_def)
  have mc: "main_chain_by_height c = path c (tip c)" using holds_path [OF assms(1)] by (simp add: c_def)
  have le: "i \<le> block_height t" using path_length [OF wb t] h(6) assms(2) mc by (simp add: c_def)
  obtain a where a: "get_block c (path c (tip c) ! i) = Some a" "block_height a = i"
      "path c (path c (tip c) ! i) = take (Suc i) (path c (tip c))"
    using path_nth [OF wb t le] by auto
  obtain w where w: "get_block c (path c (tip c) ! i) = Some \<lparr>e_header = full_header (bs ! i), cumulative_work = w\<rparr>"
    using holds_nth(3) [OF assms] mc by (auto simp: c_def)
  have "a = \<lparr>e_header = full_header (bs ! i), cumulative_work = w\<rparr>" using a(1) w by simp
  then have ea: "e_header a = full_header (bs ! i)" by simp
  show u: "unat (sb_height (bs ! i)) = i" using a(2) by (simp add: block_height_def ea)
  show "sb_height (bs ! i) = word_of_nat i" using arg_cong [OF u, of "word_of_nat :: nat \<Rightarrow> u64"] by simp
  assume pos: "0 < i"
  obtain p where p: "get_block c (prev (e_header a)) = Some p" "block_height a = block_height p + 1"
    using block_parent [OF wb a(1)] pos a(2) by auto
  have "path c (path c (tip c) ! i) = path c (prev (e_header a)) @ [path c (tip c) ! i]"
    using a(1) p by (rule path_Suc)
  then have "path c (prev (e_header a)) = take i (path c (tip c))"
    using a(3) le path_length [OF wb t] by (simp add: take_Suc_conv_app_nth)
  then have "prev (e_header a) = last (take i (path c (tip c)))" using path_last [OF wb p(1)] by simp
  also have "\<dots> = path c (tip c) ! (i - 1)"
    using pos le path_length [OF wb t] by (subst last_conv_nth) auto
  finally show "sb_prev (bs ! i) = main_chain_by_height (ms_chain s) ! (i - 1)" using mc by (simp add: c_def ea)
qed

lemma holds_distinct:
  assumes "holds hh s bs"
  shows "distinct (main_chain_by_height (ms_chain s))"
proof -
  have "i = j" if "i < length bs" "j < length bs" "main_chain_by_height (ms_chain s) ! i = main_chain_by_height (ms_chain s) ! j" for i j
  proof -
    have "Some (bs ! i) = Some (bs ! j)"
      using holds_nth(2) [OF assms that(1)] holds_nth(2) [OF assms that(2)] unfolding that(3) by metis
    then have "bs ! i = bs ! j" by simp
    with holds_height(1) [OF assms] that show ?thesis by metis
  qed
  then show ?thesis using holdsD(6) [OF assms] by (auto simp: distinct_conv_nth)
qed

lemma holds_tip_height:
  assumes "holds hh s bs"
  shows "tip_height (ms_chain s) = Some (word_of_nat (length bs - 1))"
proof -
  have i: "length bs - 1 < length bs" using holdsD(5) [OF assms] by simp
  obtain w where "get_block (ms_chain s) (tip (ms_chain s)) = Some \<lparr>e_header = full_header (bs ! (length bs - 1)), cumulative_work = w\<rparr>"
    using holds_nth(3) [OF assms i] holds_tip(2) [OF assms] by auto
  then show ?thesis using holds_height(2) [OF assms i] by (simp add: tip_height_def)
qed

lemma holds_stored:
  assumes "holds hh s bs" and "store_block s h = Some b"
  obtains i where "i < length bs" "h = main_chain_by_height (ms_chain s) ! i" "b = bs ! i"
proof -
  have "h \<in> set (main_chain_by_height (ms_chain s))" using holdsD(9) [OF assms(1)] assms(2) by auto
  then obtain i where i: "i < length bs" "h = main_chain_by_height (ms_chain s) ! i"
    using holdsD(6) [OF assms(1)] by (metis in_set_conv_nth)
  then show thesis using that holds_nth(2) [OF assms(1), of i] assms(2) by auto
qed

text \<open>The genesis starts a branch of one block.\<close>

lemma store_new_sel:
  assumes "store_new_for hh f g = Some s"
  obtains hash where "hh f (full_header g) = Some hash" "sb_height g = 0" "sb_prev g = zero_hash"
    "s = \<lparr>ms_chain = \<lparr>blocks = [(hash, \<lparr>e_header = full_header g, cumulative_work = u128_of (difficulty (full_header g))\<rparr>)],
        genesis = hash, tip = hash, main_chain_by_height = [hash], finalized_point = None, form = f\<rparr>,
      ms_blocks = [(hash, g)], ms_genesis = hash\<rparr>"
  using assms by (auto simp: store_new_for_def chain_new_for_def split: option.splits if_splits)

lemma holds_new:
  assumes "store_new_for hh f g = Some s"
  shows "holds hh s [g]"
proof -
  obtain c where c: "chain_new_for hh f (full_header g) = Some c"
    using assms by (auto simp: store_new_for_def split: option.splits)
  obtain hash where h: "hh f (full_header g) = Some hash"
    "s = \<lparr>ms_chain = \<lparr>blocks = [(hash, \<lparr>e_header = full_header g, cumulative_work = u128_of (difficulty (full_header g))\<rparr>)],
        genesis = hash, tip = hash, main_chain_by_height = [hash], finalized_point = None, form = f\<rparr>,
      ms_blocks = [(hash, g)], ms_genesis = hash\<rparr>"
    using store_new_sel [OF assms] by metis
  have "ms_chain s = c" using assms c h by (simp add: store_new_for_def)
  then have "wf_chain (ms_chain s)" using wf_chain_new [OF c] by simp
  moreover have "unat (u128_of (difficulty (full_header g))) < 2 ^ 64" 
    using unat_lt_exp [of "difficulty (full_header g)"] by (simp add: unat_u128_of)
  ultimately show ?thesis using h by (simp add: holds_def get_block_def store_block_def work_of_def)
qed

text \<open>Inserting a child of the tip, as an equation that does not mention the finalized point.\<close>

definition chain_extend :: "hash32 \<Rightarrow> block_header \<Rightarrow> u128 \<Rightarrow> chain_state \<Rightarrow> chain_state" where
  "chain_extend hash hdr w c =
    c\<lparr>blocks := AList.update hash \<lparr>e_header = hdr, cumulative_work = w\<rparr> (blocks c),
      main_chain_by_height := main_chain_by_height c @ [hash], tip := hash\<rparr>"

definition store_extend :: "hash32 \<Rightarrow> stored_block \<Rightarrow> mem_chain_store \<Rightarrow> mem_chain_store" where
  "store_extend hash b s =
    s\<lparr>ms_chain := chain_extend hash (full_header b)
        (work_of (ms_chain s) (tip (ms_chain s)) + insert_weight (form (ms_chain s)) (full_header b)) (ms_chain s),
      ms_blocks := AList.update hash b (ms_blocks s)\<rparr>"

lemma insert_at_tip:
  assumes hold: "holds hh s bs" and c: "c = ms_chain s" and prev: "prev hdr = tip c" and w: "insert_weight (form c) hdr \<noteq> 0"
  shows "insert_header hh c hdr =
    (case hh (form c) hdr of
       None \<Rightarrow> None
     | Some hash \<Rightarrow>
         if get_block c hash \<noteq> None then Some (Err Duplicate, c)
         else if height hdr \<noteq> word_of_nat (length bs) then Some (Err BadHeight, c)
         else Some (Ok hash, chain_extend hash hdr (work_of c (tip c) + insert_weight (form c) hdr) c))"
proof (cases "hh (form c) hdr")
  case (Some hash)
  note h = holdsD [OF hold]
  have wf: "wf_chain c" using h(1) c by simp
  then have wb: "wf_blocks c" by (simp add: wf_chain_def)
  obtain t where t: "get_block c (tip c) = Some t" using wf by (auto simp: wf_chain_def)
  have th: "height (e_header t) = word_of_nat (length bs - 1)"
    using holds_tip_height [OF hold] t by (simp add: tip_height_def c)
  have next_h: "height (e_header t) + 1 = word_of_nat (length bs)"
    unfolding th using h(5) by (cases bs) (simp_all add: add.commute)
  have bound: "unat (cumulative_work t) < (block_height t + 1) * 2 ^ 64"
    using work_sum [OF wb t] h(2-4) c by simp
  have "block_height t < 2 ^ 63" using wb t h(3,4) c unfolding wf_blocks_def by (metis order.strict_trans)
  then have "(block_height t + 1) * 2 ^ 64 \<le> 2 ^ 63 * (2 ^ 64 :: nat)" by (intro mult_le_mono1) simp
  then have small: "unat (cumulative_work t) + unat (insert_weight (form c) hdr) < 2 ^ 128"
    using bound insert_weight_bound [of "form c" hdr] by simp
  have more: "cumulative_work t < cumulative_work t + insert_weight (form c) hdr"
    using small w by (simp add: word_less_nat_alt unat_add_small word_neq_0_unat)
  show ?thesis
  proof (cases "get_block c hash \<noteq> None \<or> height hdr \<noteq> height (e_header t) + 1")
    case True
    then show ?thesis using Some prev t next_h by (auto simp: insert_header_def)
  next
    case False
    define e where "e = \<lparr>e_header = hdr, cumulative_work = cumulative_work t + insert_weight (form c) hdr\<rparr>"
    define c1 where "c1 = with_block c hash e"
    have fresh: "get_block c hash = None" and ht: "height hdr = height (e_header t) + 1" using False by auto
    have pt: "get_block c (prev hdr) = Some t" using t prev by simp
    have l: "length (blocks c) < 2 ^ 63" using h(3,4) c by simp
    note wf1 = wf_with_block [OF wf fresh pt ht l e_def, folded c1_def]
    have wb1: "wf_blocks c1" using wf1(1) by (simp add: wf_chain_def)
    have ge: "get_block c1 hash = Some e" by (simp add: c1_def)
    have pe: "get_block c1 (prev (e_header e)) = Some t"
      using fresh t prev by (auto simp: c1_def e_def)
    have old: "path c1 (tip c) = path c (tip c)" unfolding c1_def using wb t fresh by (rule path_with_block)
    have p: "path c1 hash = path c (tip c) @ [hash]"
      using path_Suc [OF ge pe] wf1(3) prev old by (simp add: e_def)
    have "finalized_point c1 = finalized_point c" by (simp add: c1_def)
    then have "finalized_on c1 hash"
      using wf by (auto simp: finalized_on_def wf_chain_def p nth_append)
    then have desc: "descends_from_finalized c1 hash" using descends_from_finalized_path [OF wb1 ge] by simp
    have tw: "tip_work c1 = Some (cumulative_work t)"
      using t fresh by (auto simp: tip_work_def c1_def)
    have "adopt_tip c1 hash = Some (c1\<lparr>main_chain_by_height := path c1 hash, tip := hash\<rparr>)"
      using wf1(1) ge by (rule adopt_tip_path)
    then have "insert_header hh c hdr = Some (Ok hash, c1\<lparr>main_chain_by_height := path c1 hash, tip := hash\<rparr>)"
      using Some fresh t prev ht tw desc more
      by (simp add: insert_header_def Let_def e_def [symmetric] with_block_def [symmetric] c1_def [symmetric])
    also have "c1\<lparr>main_chain_by_height := path c1 hash, tip := hash\<rparr>
        = chain_extend hash hdr (work_of c (tip c) + insert_weight (form c) hdr) c"
      using holds_path [OF hold] t p by (simp add: chain_extend_def c1_def with_block_def e_def work_of_def c)
    finally show ?thesis using Some False next_h by simp
  qed
qed (simp add: insert_header_def)

lemma put_at_tip:
  assumes hold: "holds hh s bs" and prev: "sb_prev b = tip (ms_chain s)"
    and w: "insert_weight (form (ms_chain s)) (full_header b) \<noteq> 0"
  shows "put_block hh b s =
    (case hh (form (ms_chain s)) (full_header b) of
       None \<Rightarrow> None
     | Some hash \<Rightarrow>
         if get_block (ms_chain s) hash \<noteq> None then Some (Err Duplicate, s)
         else if sb_height b \<noteq> word_of_nat (length bs) then Some (Err BadHeight, s)
         else Some (Ok hash, store_extend hash b s))"
  using insert_at_tip [OF hold refl, of "full_header b"] prev w
  by (auto simp: put_block_def store_extend_def split: option.splits)

lemma holds_extend:
  assumes hold: "holds hh s bs" and prev: "sb_prev b = tip (ms_chain s)"
    and w: "insert_weight (form (ms_chain s)) (full_header b) \<noteq> 0" and small: "length bs + 1 < 2 ^ 63"
    and put: "put_block hh b s = Some (Ok hash, s')"
  shows "s' = store_extend hash b s" and "holds hh s' (bs @ [b])"
    and "hh (form (ms_chain s)) (full_header b) = Some hash" and "get_block (ms_chain s) hash = None"
    and "sb_height b = word_of_nat (length bs)"
proof -
  define c where "c = ms_chain s"
  note h = holdsD [OF hold]
  from put put_at_tip [OF hold prev w]
  show s': "s' = store_extend hash b s" and hash: "hh (form (ms_chain s)) (full_header b) = Some hash"
    and fresh: "get_block (ms_chain s) hash = None" and ht: "sb_height b = word_of_nat (length bs)"
    by (auto split: option.splits if_splits)
  have ins: "insert_header hh c (full_header b) = Some (Ok hash, ms_chain s')"
    using put by (auto simp: put_block_def c_def split: option.splits sum.splits)
  have "wf_chain (ms_chain s')"
    using insert_keeps [OF _ _ ins] h(1,3,4) by (simp add: keeps_def c_def)
  moreover have "hash \<noteq> Chain.genesis c" using fresh h(1) by (auto simp: wf_chain_def wf_blocks_def c_def)
  moreover have "length (blocks (ms_chain s')) = length (bs @ [b])"
  proof -
    have ok: "hm_ok (blocks c)" using h(1) by (simp add: wf_chain_def wf_blocks_def c_def)
    then show ?thesis using hm.size_put_new [OF ok, of hash] fresh h(3)
      by (simp add: s' store_extend_def chain_extend_def get_block_def c_def)
  qed
  moreover have sb: "store_block s' x = (if x = hash then Some b else store_block s x)" for x
    by (simp add: s' store_extend_def store_block_def update_conv')
  moreover have gb: "get_block (ms_chain s') x = (if x = hash then Some \<lparr>e_header = full_header b,
      cumulative_work = work_of c (tip c) + insert_weight (form c) (full_header b)\<rparr> else get_block c x)" for x
    by (simp add: s' store_extend_def chain_extend_def get_block_def update_conv' c_def)
  moreover have mc: "main_chain_by_height (ms_chain s') = main_chain_by_height c @ [hash]"
    "Chain.genesis (ms_chain s') = Chain.genesis c" "ms_genesis s' = ms_genesis s" "form (ms_chain s') = form c"
    by (simp_all add: s' store_extend_def chain_extend_def c_def)
  moreover have nil: "main_chain_by_height c \<noteq> []" using h(5,6) by (auto simp: c_def)
  moreover have notin: "hash \<notin> set (main_chain_by_height c)" using fresh h(8) [of hash] by (auto simp: c_def)
  moreover have "hh (form c) (full_header ((bs @ [b]) ! i)) = Some ((main_chain_by_height c @ [hash]) ! i)
      \<and> store_block s' ((main_chain_by_height c @ [hash]) ! i) = Some ((bs @ [b]) ! i)
      \<and> (\<exists>w. get_block (ms_chain s') ((main_chain_by_height c @ [hash]) ! i)
            = Some \<lparr>e_header = full_header ((bs @ [b]) ! i), cumulative_work = w\<rparr>)" if "i < length (bs @ [b])" for i
  proof (cases "i < length bs")
    case True
    then have "main_chain_by_height c ! i \<noteq> hash" using notin h(6) by (metis nth_mem c_def)
    with True holds_nth [OF hold True] h(6) show ?thesis by (simp add: nth_append c_def sb gb)
  next
    case False
    with that have "i = length bs" by simp
    then show ?thesis using h(6) hash by (simp add: nth_append c_def sb gb)
  qed
  ultimately show "holds hh s' (bs @ [b])"
    using h small unfolding holds_def Let_def by (simp add: work_of_def c_def)
qed

section \<open>Finality on one branch\<close>

definition set_fin :: "final_point option \<Rightarrow> mem_chain_store \<Rightarrow> mem_chain_store" where
  "set_fin f s = s\<lparr>ms_chain := (ms_chain s)\<lparr>finalized_point := f\<rparr>\<rparr>"

definition fin_ok :: "final_point option \<Rightarrow> hash32 list \<Rightarrow> bool" where
  "fin_ok f hs \<longleftrightarrow> (\<forall>p. f = Some p \<longrightarrow> unat (fp_height p) < length hs \<and> hs ! unat (fp_height p) = fp_hash p)"

abbreviation main_hashes :: "mem_chain_store \<Rightarrow> hash32 list" where
  "main_hashes s \<equiv> main_chain_by_height (ms_chain s)"

abbreviation fin_of :: "mem_chain_store \<Rightarrow> final_point option" where
  "fin_of s \<equiv> finalized_point (ms_chain s)"

lemma set_fin_sel [simp]:
  "main_chain_by_height (ms_chain (set_fin f s)) = main_hashes s" "finalized_point (ms_chain (set_fin f s)) = f"
  "tip (ms_chain (set_fin f s)) = tip (ms_chain s)" "form (ms_chain (set_fin f s)) = form (ms_chain s)"
  "blocks (ms_chain (set_fin f s)) = blocks (ms_chain s)" "Chain.genesis (ms_chain (set_fin f s)) = Chain.genesis (ms_chain s)"
  "ms_blocks (set_fin f s) = ms_blocks s" "ms_genesis (set_fin f s) = ms_genesis s"
  "set_fin g (set_fin f s) = set_fin g s" "set_fin (finalized_point (ms_chain s)) s = s"
  by (simp_all add: set_fin_def)

lemma set_fin_get [simp]:
  "get_block (ms_chain (set_fin f s)) = get_block (ms_chain s)" "store_block (set_fin f s) = store_block s"
  by (simp_all add: get_block_def store_block_def fun_eq_iff)

lemma set_fin_work [simp]: "work_of (ms_chain (set_fin f s)) h = work_of (ms_chain s) h"
  by (simp add: work_of_def)

lemma fin_ok_None [simp]: "fin_ok None hs"
  by (simp add: fin_ok_def)

lemma fin_ok_append: "fin_ok f hs \<Longrightarrow> fin_ok f (hs @ xs)"
  by (auto simp: fin_ok_def nth_append)

lemma holds_fin_ok: "holds hh s bs \<Longrightarrow> fin_ok (fin_of s) (main_hashes s)"
  using holdsD(1) holds_path by (auto simp: fin_ok_def wf_chain_def finalized_on_def)

lemma holds_set_fin:
  assumes "holds hh s bs" and "fin_ok f (main_hashes s)"
  shows "holds hh (set_fin f s) bs"
proof -
  have wf: "wf_chain (ms_chain s)" using holdsD(1) [OF assms(1)] .
  note same = same_blocks(1,2) [OF set_fin_sel(5)] same_blocks(3) [OF set_fin_sel(5,6,4)]
  have "wf_chain (ms_chain (set_fin f s))"
    using wf assms(2) by (simp add: wf_chain_def same finalized_on_def fin_ok_def)
  then show ?thesis using assms(1) unfolding holds_def Let_def by simp
qed

lemma put_set_fin:
  assumes hold: "holds hh s bs" and prev: "sb_prev b = tip (ms_chain s)"
    and w: "insert_weight (form (ms_chain s)) (full_header b) \<noteq> 0" and f: "fin_ok f (main_hashes s)"
  shows "put_block hh b (set_fin f s) = map_option (\<lambda>(r, s'). (r, set_fin f s')) (put_block hh b s)"
proof -
  have "store_extend hash b (set_fin f s) = set_fin f (store_extend hash b s)" for hash
    by (simp add: store_extend_def chain_extend_def)
  then show ?thesis
    using put_at_tip [OF hold prev w] put_at_tip [OF holds_set_fin [OF hold f], of b] prev w by (simp split: option.splits)
qed

lemma holds_entry:
  assumes "holds hh s bs" and "i < length bs"
  obtains e where "get_block (ms_chain s) (main_hashes s ! i) = Some e" "e_header e = full_header (bs ! i)" "block_height e = i"
    "path (ms_chain s) (main_hashes s ! i) = take (Suc i) (main_hashes s)"
proof -
  note h = holdsD [OF assms(1)]
  have wb: "wf_blocks (ms_chain s)" using h(1) by (simp add: wf_chain_def)
  obtain t where t: "get_block (ms_chain s) (tip (ms_chain s)) = Some t" using h(1) by (auto simp: wf_chain_def)
  have le: "i \<le> block_height t" using path_length [OF wb t] h(6) assms(2) holds_path [OF assms(1)] by simp
  obtain a where a: "get_block (ms_chain s) (main_hashes s ! i) = Some a" "block_height a = i"
      "path (ms_chain s) (main_hashes s ! i) = take (Suc i) (main_hashes s)"
    using path_nth [OF wb t le] holds_path [OF assms(1)] by auto
  obtain w where w: "get_block (ms_chain s) (main_hashes s ! i) = Some \<lparr>e_header = full_header (bs ! i), cumulative_work = w\<rparr>"
    using holds_nth(3) [OF assms] by blast
  from a(1) w have "a = \<lparr>e_header = full_header (bs ! i), cumulative_work = w\<rparr>" by simp
  then have "e_header a = full_header (bs ! i)" by simp
  with a that show thesis by blast
qed

lemma holds_descends:
  assumes "holds hh s bs" and "i < length bs"
  shows "is_descendant_of (ms_chain s) (main_hashes s ! i) a ah \<longleftrightarrow> unat ah \<le> i \<and> main_hashes s ! unat ah = a"
proof -
  have wb: "wf_blocks (ms_chain s)" using holdsD(1) [OF assms(1)] by (simp add: wf_chain_def)
  obtain e where e: "get_block (ms_chain s) (main_hashes s ! i) = Some e" "block_height e = i"
    "path (ms_chain s) (main_hashes s ! i) = take (Suc i) (main_hashes s)"
    using holds_entry [OF assms] by metis
  show ?thesis unfolding is_descendant_path [OF wb] using e by auto
qed

text \<open>Marking a block final: what \<open>set_finalized\<close> does to a branch.\<close>

definition mark_result :: "final_point option \<Rightarrow> hash32 list \<Rightarrow> nat \<Rightarrow> (finalize_mark_error + unit) \<times> final_point option" where
  "mark_result f hs i =
    (case f of
       Some p \<Rightarrow> if i \<le> unat (fp_height p) then (Err NotAdvancingMark, f)
                 else (Ok (), Some \<lparr>fp_hash = hs ! i, fp_height = word_of_nat i\<rparr>)
     | None \<Rightarrow> (Ok (), Some \<lparr>fp_hash = hs ! i, fp_height = word_of_nat i\<rparr>))"

lemma mark_branch:
  assumes hold: "holds hh s bs" and i: "i < length bs"
  shows "store_set_finalized (main_hashes s ! i) s
      = Some (fst (mark_result (fin_of s) (main_hashes s) i), set_fin (snd (mark_result (fin_of s) (main_hashes s) i)) s)"
    and "fin_ok (snd (mark_result (fin_of s) (main_hashes s) i)) (main_hashes s)"
proof -
  note h = holdsD [OF hold]
  have len: "unat (word_of_nat i :: u64) = i"
    using i h(4) by (intro unat_of_nat_len) (simp add: less_trans [of _ "length bs"])
  show fin: "fin_ok (snd (mark_result (fin_of s) (main_hashes s) i)) (main_hashes s)"
    using holds_fin_ok [OF hold] i h(6) len
    by (auto simp: mark_result_def fin_ok_def split: option.splits)
  obtain e where e: "get_block (ms_chain s) (main_hashes s ! i) = Some e" "e_header e = full_header (bs ! i)" "block_height e = i"
    using holds_entry [OF hold i] by metis
  have ht: "height (e_header e) = word_of_nat i" using holds_height(2) [OF hold i] e(2) by simp
  have desc: "is_descendant_of (ms_chain s) (main_hashes s ! i) (fp_hash p) (fp_height p)"
    if "fin_of s = Some p" "unat (fp_height p) < i" for p
    using holds_descends [OF hold i] holds_fin_ok [OF hold] that by (simp add: fin_ok_def)
  have move: "move_finalized (ms_chain s) (main_hashes s ! i) (word_of_nat i)
      = Some ((ms_chain s)\<lparr>finalized_point := Some \<lparr>fp_hash = main_hashes s ! i, fp_height = word_of_nat i\<rparr>\<rparr>)"
  proof -
    define f where "f = Some \<lparr>fp_hash = main_hashes s ! i, fp_height = word_of_nat i :: u64\<rparr>"
    have "fin_ok f (main_hashes s)" using i h(6) len by (simp add: f_def fin_ok_def)
    then have hold': "holds hh (set_fin f s) bs" using holds_set_fin [OF hold] by simp
    have "wf_blocks (ms_chain (set_fin f s))" "get_block (ms_chain (set_fin f s)) (tip (ms_chain s)) \<noteq> None"
      "finalized_on (ms_chain (set_fin f s)) (tip (ms_chain s))"
      using holdsD(1) [OF hold'] by (simp_all add: wf_chain_def)
    then have "descends_from_finalized (ms_chain (set_fin f s)) (tip (ms_chain s))"
      using descends_from_finalized_path by blast
    then show ?thesis by (simp add: move_finalized_def Let_def set_fin_def f_def)
  qed
  show "store_set_finalized (main_hashes s ! i) s
      = Some (fst (mark_result (fin_of s) (main_hashes s) i), set_fin (snd (mark_result (fin_of s) (main_hashes s) i)) s)"
  proof (cases "fin_of s")
    case None
    then show ?thesis using e(1) ht move
      by (simp add: store_set_finalized_def set_finalized_def Let_def mark_result_def set_fin_def)
  next
    case (Some p)
    have "word_of_nat i \<le> fp_height p \<longleftrightarrow> i \<le> unat (fp_height p)" by (simp add: word_le_nat_alt len)
    then show ?thesis using Some e(1) ht move desc [OF Some]
      by (simp add: store_set_finalized_def set_finalized_def Let_def mark_result_def set_fin_def)
  qed
qed

lemma mark_unknown: "holds hh s bs \<Longrightarrow> hash \<notin> set (main_hashes s) \<Longrightarrow> store_set_finalized hash s = Some (Err Unknown, s)"
  using holdsD(8) [of hh s bs hash] by (simp add: store_set_finalized_def set_finalized_def)

lemma restore_branch:
  assumes hold: "holds hh s bs" and f: "fin_ok f (main_hashes s)" and none: "f = None \<Longrightarrow> fin_of s = None"
  shows "store_restore_finalized (map_option (\<lambda>p. (fp_hash p, fp_height p)) f) s = Some (set_fin f s)"
proof (cases f)
  case None
  then show ?thesis using none set_fin_sel(10) [of s] by (simp add: store_restore_finalized_def)
next
  case (Some p)
  note h = holdsD [OF hold]
  have i: "unat (fp_height p) < length bs" "main_hashes s ! unat (fp_height p) = fp_hash p"
    using f h(6) Some by (auto simp: fin_ok_def)
  obtain e where e: "get_block (ms_chain s) (main_hashes s ! unat (fp_height p)) = Some e"
      "e_header e = full_header (bs ! unat (fp_height p))"
    using holds_entry [OF hold i(1)] by metis
  have ht: "height (e_header e) = fp_height p" using holds_height(2) [OF hold i(1)] e(2) by simp
  have last: "length bs - 1 < length bs" using h(5) by simp
  have "is_descendant_of (ms_chain s) (tip (ms_chain s)) (fp_hash p) (fp_height p)"
    using holds_descends [OF hold last] holds_tip(2) [OF hold] i by simp
  then show ?thesis using e(1) ht i(2) Some
    by (simp add: store_restore_finalized_def restore_finalized_def set_fin_def)
qed

section \<open>Walking and rewinding one branch\<close>

lemma collect_branch:
  assumes hold: "holds hh s bs" and "i < length bs"
  shows "collect_path s i (main_hashes s ! i) = Some (Ok (take (Suc i) bs))"
  using assms(2)
proof (induction i)
  case 0
  then show ?case
    using holds_nth(2) [OF hold, of 0] holds_height(2) [OF hold, of 0]
    by (subst collect_path.simps) (simp add: take_Suc hd_conv_nth)
next
  case (Suc i)
  have ne: "sb_height (bs ! Suc i) \<noteq> 0" using holds_height(1) [OF hold Suc.prems] by force
  have "sb_prev (bs ! Suc i) = main_hashes s ! i" using holds_height(3) [OF hold Suc.prems] by simp
  then show ?case
    using holds_nth(2) [OF hold Suc.prems] ne Suc by (subst collect_path.simps) (simp add: take_Suc_conv_app_nth)
qed

definition rewind_result :: "final_point option \<Rightarrow> stored_block list \<Rightarrow> nat \<Rightarrow> rewind_error + stored_block list" where
  "rewind_result f bs i =
    (case f of
       Some p \<Rightarrow> if i < unat (fp_height p) then Err (PastFinalized (word_of_nat i) (fp_height p)) else Ok (take (Suc i) bs)
     | None \<Rightarrow> Ok (take (Suc i) bs))"

lemma rewind_branch:
  assumes hold: "holds hh s bs" and i: "i < length bs"
  shows "rewind_path s (main_hashes s ! i) = Some (rewind_result (fin_of s) bs i)"
proof -
  note h = holdsD [OF hold]
  have wb: "wf_blocks (ms_chain s)" using h(1) by (simp add: wf_chain_def)
  obtain e where e: "get_block (ms_chain s) (main_hashes s ! i) = Some e" "e_header e = full_header (bs ! i)"
    using holds_entry [OF hold i] by metis
  have last: "length bs - 1 < length bs" using h(5) by simp
  obtain t where t: "get_block (ms_chain s) (tip (ms_chain s)) = Some t" "block_height t = length bs - 1"
      "path (ms_chain s) (tip (ms_chain s)) = main_hashes s"
    using holds_entry [OF hold last] holds_tip(2) [OF hold] h(6) by auto
  have ht: "height (e_header e) = word_of_nat i" using holds_height(2) [OF hold i] e(2) by simp
  obtain m where m: "length bs = Suc m" using i by (cases "length bs") auto
  have u: "unat (word_of_nat i :: u64) = i" "unat (word_of_nat m :: u64) = m"
    by (rule unat_of_nat_len, use i h(4) m in simp)+
  have le: "word_of_nat i \<le> (word_of_nat m :: u64)" using i m by (simp add: word_le_nat_alt u)
  have "unat (word_of_nat m - word_of_nat i :: u64) = m - i" using le by (simp add: unat_sub_le u)
  then have anc: "ancestor (ms_chain s) (tip (ms_chain s)) (word_of_nat m - word_of_nat i) = Some (main_hashes s ! i)"
    using ancestor_loop_path [OF wb t(1)] t(2,3) i m by (simp add: ancestor_def)
  have coll: "collect_path s i (main_hashes s ! i) = Some (Ok (take (Suc i) bs))" using collect_branch [OF hold i] .
  have past: "past_finalized (ms_chain s) (main_hashes s ! i) (word_of_nat i)
      = (case fin_of s of None \<Rightarrow> Ok () | Some p \<Rightarrow> if i < unat (fp_height p) then Err (PastFinalized (word_of_nat i) (fp_height p)) else Ok ())"
    using holds_descends [OF hold i] holds_fin_ok [OF hold]
    by (auto simp: past_finalized_def word_less_nat_alt u fin_ok_def split: option.splits)
  have "\<not> word_of_nat i > (word_of_nat m :: u64)" using le by simp
  then show ?thesis
    using e(1) ht holds_tip_height [OF hold] anc coll past m
    by (simp add: rewind_path_def Let_def u rewind_result_def split: option.splits)
qed

lemma rewind_unknown: "holds hh s bs \<Longrightarrow> hash \<notin> set (main_hashes s) \<Longrightarrow> rewind_path s hash = Some (Err UnknownTarget)"
  using holdsD(8) [of hh s bs hash] by (simp add: rewind_path_def)

lemma ancestor_branch:
  assumes hold: "holds hh s bs" and "i < length bs"
  shows "ancestor_block s h (main_hashes s ! i) = Some (if unat h \<le> i then Some (bs ! unat h) else None)"
  using assms(2)
proof (induction i)
  case 0
  have "sb_height (bs ! 0) = 0" using holds_height(2) [OF hold 0] by simp
  moreover have "unat h = 0 \<longleftrightarrow> h = 0" by (simp add: unat_eq_zero)
  ultimately show ?case using holds_nth(2) [OF hold 0] by (subst ancestor_block.simps) auto
next
  case (Suc i)
  have u: "unat (sb_height (bs ! Suc i)) = Suc i" using holds_height(1) [OF hold Suc.prems] .
  have "sb_prev (bs ! Suc i) = main_hashes s ! i" using holds_height(3) [OF hold Suc.prems] by simp
  moreover have "sb_height (bs ! Suc i) > h \<longleftrightarrow> unat h \<le> i" using u by (simp add: word_less_nat_alt) arith
  moreover have "sb_height (bs ! Suc i) = h \<longleftrightarrow> unat h = Suc i" using u by (metis word_unat_eq_iff)
  ultimately show ?case
    using holds_nth(2) [OF hold Suc.prems] Suc by (subst ancestor_block.simps) auto
qed

end
