(* ===== verification/Asset_Supply.thy ===== *)
theory Asset_Supply
  imports Annulet_Body Coinbase Registry
begin

text \<open>
  Genesis issuance and the supply ledger of an Annulet chain recomputed from public bodies
  (\<open>qlab-node/src/asset_supply.rs\<close>, with the L2 note of \<open>qlab-note/src/l2note.rs\<close> and its commitment
  \<open>l2_cm\<close> of \<open>qlab-air/src/l2.rs\<close>). The amounts are natural numbers and integers: a \<open>u128\<close> or \<open>i128\<close> sum
  of 64-bit amounts would need more than \<open>2^63\<close> terms to wrap. The error strings are a datatype. The
  attestation document and its printing are not modelled.
\<close>

section \<open>L2 notes\<close>

definition l2_note_plaintext_len :: nat where "l2_note_plaintext_len = note_plaintext_len + 8"
definition asset_bits :: nat where "asset_bits = 16"

record l2_note =
  ln_value :: u64
  ln_asset :: u64
  ln_rkm :: "u64 list"
  ln_rho :: "u64 list"
  ln_rseed :: "u64 list"

definition l2_cm :: "u64 \<Rightarrow> u64 \<Rightarrow> u64 list \<Rightarrow> u64 list \<Rightarrow> u64 list \<Rightarrow> u64 list" where
  "l2_cm v asset key rho rseed =
    take 4 (keccak_f ([v, asset] @ key @ rho @ rseed @ [1, 0, push_bit 63 1] @ replicate 8 0))"

definition l2_commitment :: "l2_note \<Rightarrow> u64 list" where
  "l2_commitment n = l2_cm (ln_value n) (ln_asset n) (ln_rkm n) (ln_rho n) (ln_rseed n)"

definition l2_to_plaintext :: "l2_note \<Rightarrow> bytes" where
  "l2_to_plaintext n =
    u64_le (ln_value n) @ u64_le (ln_asset n) @ concat (map u64_le (ln_rkm n)) @ concat (map u64_le (ln_rho n))
      @ concat (map u64_le (ln_rseed n))"

definition l2_from_plaintext :: "bytes \<Rightarrow> l2_note option" where
  "l2_from_plaintext b =
    (if length b \<noteq> l2_note_plaintext_len then None
     else let asset = u64_from_le (slice_at 8 8 b)
          in if drop_bit asset_bits asset \<noteq> 0 then None
             else Some \<lparr>ln_value = u64_from_le (slice_at 0 8 b), ln_asset = asset, ln_rkm = read_lanes 16 b,
                    ln_rho = read_lanes 48 b, ln_rseed = read_lanes 80 b\<rparr>)"

definition genesis_plaintext_of :: "l2_note \<Rightarrow> bytes" where
  "genesis_plaintext_of n = l2_to_plaintext n @ replicate 16 0"

definition genesis_plaintext_open :: "bytes \<Rightarrow> l2_note option" where
  "genesis_plaintext_open p =
    (if length p \<noteq> l2_payload_len \<or> \<not> payload_tag_is_zero p then None else l2_from_plaintext (take l2_note_plaintext_len p))"

section \<open>Genesis issuance\<close>

datatype issuance_error =
    NotAPlaintext nat
  | NotAnOpening nat
  | AssetBeyond16 nat
  | IssuanceBeyond u16

fun issuance_from :: "nat \<Rightarrow> (u16 \<times> nat) list \<Rightarrow> genesis_note list \<Rightarrow> issuance_error + (u16 \<times> nat) list" where
  "issuance_from i out [] = Ok (bt_retain (\<lambda>_ v. v \<noteq> 0) out)"
| "issuance_from i out (n # ns) =
    (case genesis_plaintext_open (gn_payload n) of
       None \<Rightarrow> Err (NotAPlaintext i)
     | Some nt \<Rightarrow>
         if digest_bytes (l2_commitment nt) \<noteq> gn_cm n then Err (NotAnOpening i)
         else if unat (ln_asset nt) \<ge> 2 ^ 16 then Err (AssetBeyond16 i)
         else let a = (ucast (ln_asset nt) :: u16)
              in issuance_from (Suc i) (bt_insert a ((case map_of out a of None \<Rightarrow> 0 | Some v \<Rightarrow> v) + unat (ln_value nt)) out) ns)"

definition genesis_issuance :: "genesis_note list \<Rightarrow> issuance_error + (u16 \<times> nat) list" where
  "genesis_issuance ns = issuance_from 0 [] ns"

end
