(* ===== verification/Node.thy ===== *)
theory Node
  imports Node_Store Asset_Supply
begin

text \<open>
  The node's state machine (\<open>qlab-node/src/node.rs\<close>): applying a block at the tip under the live and the
  settled-history anchor rule, the sealed blocks of an Annulet node, finality, rewinding, and rebuilding a
  node from its block log. The directory is modelled by its log, the list of records appended
  (\<open>None\<close> for a node in memory): reading and writing files, their errors, snapshots and the sidecars are
  not modelled. The bundle verdict cache holds what the rule returned for the same header and parent and
  is left out. Parameters: the header hash \<open>hh\<close>, the signature scheme and record codec \<open>sg\<close>, the
  transaction verifier, the ML-DSA library of the Annulet authorisations and the wrapper rule (a trait
  object). The height of the tip is read through the chain's own look-up, which always finds it
  (\<open>holds_tip_height\<close>); its panic is the value 0. The supplies are integers.
\<close>

section \<open>State\<close>

record wrapper_setup =
  ws_verify :: bundle_verifier
  ws_recheck :: "block_header \<Rightarrow> bytes \<Rightarrow> bundle_context \<Rightarrow> bundle_refusal + unit"
  ws_fold :: "bytes \<Rightarrow> bytes \<Rightarrow> bundle_refusal + bundle_outcome"
  ws_bundle_surface :: "bytes \<Rightarrow> bundle_refusal + bytes"
  ws_exits :: "bytes \<Rightarrow> bundle_refusal + (hash32 \<times> u64) list"
  ws_genesis_surface :: bytes

datatype log_record = LogBlock stored_block | LogFinalize hash32

datatype node_error =
    NotExtendingTip hash32 hash32
  | NodeBody body_error
  | BodyCommitmentMismatch u64 hash32 hash32
  | NullifierSpent nat
  | NodeChain insert_error
  | WrapperWalkBroken hash32
  | NodeRewind rewind_error
  | FormNotServed genesis_form string
  | UnsealedOnAnnulet
  | AnnuletFinality finalize_mark_error
  | LogFormMismatch genesis_form u64
  | RegistryRootMismatch u64 hash32 hash32
  | RegistryWriteNotOnParent u64 hash32 hash32
  | RegistryWriteRootMismatch u64 hash32 hash32
  | RegistryWriteFailed u64 registry_error
  | GenesisIssuance issuance_error
  | RegistryGenesis registry_error
  | SupplyUnderflow u64 u16 int int

record 'k v6_setup =
  vs_committee0 :: "'k committee"
  vs_wrapper :: "wrapper_setup option"

record annulet_setup =
  an_fees :: l2_fee_table
  an_registry :: registry_tree
  an_genesis_cms :: "hash32 list"
  an_genesis_supply :: "(u16 \<times> int) list"
  an_auth :: auth_context

record 'k node =
  nd_chain :: mem_chain_store
  nd_nullifiers :: "hash32 set"
  nd_commitments :: commitment_tree
  nd_roots_by_height :: "(u64 \<times> hash32) list"
  nd_anchor_heights :: "hash32 \<Rightarrow> u64 list option"
  nd_commitments_ordered :: "hash32 list"
  nd_nullifiers_ordered :: "hash32 list"
  nd_retained :: retained_bodies
  nd_log :: "log_record list option"
  nd_names :: name_registry
  nd_form :: genesis_form
  nd_sections :: body_sections
  nd_committee0 :: "'k committee option"
  nd_recorded :: "(u64 \<times> u64) list"
  nd_wrapper :: "wrapper_setup option"
  nd_surface :: bytes
  nd_last_bundle_height :: "u64 option"
  nd_fees :: "l2_fee_table option"
  nd_auth :: auth_context
  nd_registry :: "registry_tree option"
  nd_registry_genesis :: "registry_tree option"
  nd_genesis_supply :: "(u16 \<times> int) list"
  nd_annulet_genesis_cms :: "hash32 list"
  nd_outstanding :: "(u16 \<times> int) list"
  nd_supply_deltas :: "(u64 \<times> (u16 \<times> int) list) list"

abbreviation node_tip :: "'k node \<Rightarrow> hash32" where "node_tip n \<equiv> tip (ms_chain (nd_chain n))"

definition node_tip_height :: "'k node \<Rightarrow> u64" where
  "node_tip_height n = (case tip_height (ms_chain (nd_chain n)) of None \<Rightarrow> 0 | Some h \<Rightarrow> h)"

definition node_finalized_height :: "'k node \<Rightarrow> u64 option" where
  "node_finalized_height n = chain_finalized_height (ms_chain (nd_chain n))"

section \<open>Anchors\<close>

definition is_valid_anchor :: "'k node \<Rightarrow> hash32 \<Rightarrow> bool" where
  "is_valid_anchor n rt =
    (case node_finalized_height n of
       None \<Rightarrow> False
     | Some fin \<Rightarrow>
         list_ex (\<lambda>(h, r). r = rt \<and> h \<le> fin \<and> sat_sub (node_tip_height n) h \<le> max_anchor_age_blocks) (nd_roots_by_height n))"

definition is_valid_anchor_as_of :: "'k node \<Rightarrow> hash32 \<Rightarrow> u64 \<Rightarrow> bool" where
  "is_valid_anchor_as_of n rt block_h =
    (let floor = sat_sub block_h max_anchor_age_blocks
     in case nd_anchor_heights n rt of
          None \<Rightarrow> False
        | Some hs \<Rightarrow> (case drop (length (takeWhile (\<lambda>h. h < floor) hs)) hs of [] \<Rightarrow> False | h # _ \<Rightarrow> h < block_h))"

text \<open>\<open>valid_anchor_roots\<close>: the roots of the window up to the finalized height, each once, by their last height, the
  newest first. The sort is on distinct keys, so its instability cannot be seen.\<close>

fun first_seen :: "hash32 list \<Rightarrow> (u64 \<times> hash32) list \<Rightarrow> hash32 list" where
  "first_seen seen [] = []"
| "first_seen seen ((h, r) # xs) = (if r \<in> set seen then first_seen seen xs else r # first_seen (r # seen) xs)"

definition valid_anchor_roots :: "'k node \<Rightarrow> hash32 list" where
  "valid_anchor_roots n =
    (case node_finalized_height n of
       None \<Rightarrow> []
     | Some fin \<Rightarrow>
         let floor = sat_sub (node_tip_height n) max_anchor_age_blocks
         in if floor > fin then []
            else let window = filter (\<lambda>(h, r). floor \<le> h \<and> h \<le> fin) (nd_roots_by_height n);
                     keyed = map (\<lambda>r. (last (the (nd_anchor_heights n r)), r)) (first_seen [] window)
                 in map snd (rev (sort_key fst keyed)))"

section \<open>Building a node\<close>

definition append_commitment :: "hash32 \<Rightarrow> 'k node \<Rightarrow> 'k node option" where
  "append_commitment x n =
    (case tree_append_bytes x (nd_commitments n) of
       None \<Rightarrow> None
     | Some (_, t) \<Rightarrow> Some (n\<lparr>nd_commitments := t, nd_commitments_ordered := nd_commitments_ordered n @ [x]\<rparr>))"

fun append_commitments :: "hash32 list \<Rightarrow> 'k node \<Rightarrow> 'k node option" where
  "append_commitments [] n = Some n"
| "append_commitments (x # xs) n = (case append_commitment x n of None \<Rightarrow> None | Some n1 \<Rightarrow> append_commitments xs n1)"

definition node_root :: "'k node \<Rightarrow> hash32" where
  "node_root n = digest_bytes (ct_root (nd_commitments n))"

definition record_root_at :: "u64 \<Rightarrow> 'k node \<Rightarrow> 'k node" where
  "record_root_at h n =
    (let rt = node_root n; hs = (case nd_anchor_heights n rt of None \<Rightarrow> [] | Some hs \<Rightarrow> hs)
     in n\<lparr>nd_roots_by_height := bt_insert h rt (nd_roots_by_height n), nd_anchor_heights := (nd_anchor_heights n)(rt \<mapsto> hs @ [h])\<rparr>)"

definition from_bound_genesis :: "header_hash \<Rightarrow> genesis_form \<Rightarrow> body_sections \<Rightarrow> stored_block \<Rightarrow> log_record list option \<Rightarrow> 'k node option" where
  "from_bound_genesis hh fm sections g lg =
    map_option (\<lambda>s.
      let rt = digest_bytes (ct_root tree_new)
      in \<lparr>nd_chain = s, nd_nullifiers = {}, nd_commitments = tree_new, nd_roots_by_height = [(0, rt)],
          nd_anchor_heights = [rt \<mapsto> [0]], nd_commitments_ordered = [], nd_nullifiers_ordered = [],
          nd_retained = retained_new fm, nd_log = lg, nd_names = name_registry_new, nd_form = fm, nd_sections = sections,
          nd_committee0 = None, nd_recorded = [], nd_wrapper = None, nd_surface = [], nd_last_bundle_height = None,
          nd_fees = None, nd_auth = auth_context_none, nd_registry = None, nd_registry_genesis = None,
          nd_genesis_supply = [], nd_annulet_genesis_cms = [], nd_outstanding = [], nd_supply_deltas = []\<rparr>)
     (store_new_for hh fm g)"

definition genesis_binding :: "genesis_form \<Rightarrow> body_sections \<Rightarrow> block_body \<Rightarrow> hash32 option" where
  "genesis_binding fm sections b =
    (case (fm, sections) of
       (V5, V6) \<Rightarrow> commitment_v6 b
     | (_, V6) \<Rightarrow> None
     | (V4, _) \<Rightarrow> body_commitment b
     | (V5, _) \<Rightarrow> commitment_v5_at 0 b
     | (Annulet, _) \<Rightarrow> None)"

definition from_genesis :: "header_hash \<Rightarrow> genesis_form \<Rightarrow> body_sections \<Rightarrow> stored_block \<Rightarrow> log_record list option \<Rightarrow> 'k node option" where
  "from_genesis hh fm sections g lg =
    (case stored_body g of
       None \<Rightarrow> None
     | Some b \<Rightarrow>
         if sb_height g = 0 \<and> genesis_binding fm sections b = Some (sh_tx_body_commitment (sb_header g))
         then from_bound_genesis hh fm sections g lg else None)"

definition annulet_registry_root :: "block_header \<Rightarrow> hash32" where
  "annulet_registry_root h = (case ext h of ExtAnnulet e \<Rightarrow> Header.registry_root e | L1 \<Rightarrow> zero_hash)"

definition bound_to :: "block_header \<Rightarrow> genesis_note list \<Rightarrow> l2_fee_table \<Rightarrow> registry_leaf list \<Rightarrow> node_error + annulet_setup" where
  "bound_to g notes fees leaves =
    (case from_leaves leaves of
       Inl e \<Rightarrow> Err (RegistryGenesis e)
     | Inr reg \<Rightarrow>
         let header_root = annulet_registry_root g
         in if header_root \<noteq> registry_root_bytes reg then Err (RegistryRootMismatch 0 header_root (registry_root_bytes reg))
            else (case genesis_issuance notes of
                    Inl e \<Rightarrow> Err (GenesisIssuance e)
                  | Inr issued \<Rightarrow>
                      (case find (\<lambda>(a, v). v \<ge> 2 ^ 127) issued of
                         Some (a, _) \<Rightarrow> Err (GenesisIssuance (IssuanceBeyond a))
                       | None \<Rightarrow>
                           Ok \<lparr>an_fees = fees, an_registry = reg, an_genesis_cms = map gn_cm notes,
                             an_genesis_supply = map (\<lambda>(a, v). (a, int v)) issued, an_auth = auth_context_none\<rparr>)))"

definition from_genesis_with :: "header_hash \<Rightarrow> genesis_form \<Rightarrow> body_sections \<Rightarrow> stored_block \<Rightarrow> log_record list option
    \<Rightarrow> annulet_setup option \<Rightarrow> 'k node option" where
  "from_genesis_with hh fm sections g lg annulet =
    (case (fm, annulet) of
       (Annulet, Some setup) \<Rightarrow>
         (case from_bound_genesis hh fm sections g lg of
            None \<Rightarrow> None
          | Some n \<Rightarrow>
              let n1 = n\<lparr>nd_fees := Some (an_fees setup), nd_auth := an_auth setup, nd_registry_genesis := Some (an_registry setup),
                nd_registry := Some (an_registry setup), nd_outstanding := an_genesis_supply setup,
                nd_genesis_supply := an_genesis_supply setup, nd_roots_by_height := [], nd_anchor_heights := (\<lambda>_. None)\<rparr>
              in (case append_commitments (an_genesis_cms setup) n1 of
                    None \<Rightarrow> None
                  | Some n2 \<Rightarrow>
                      let n3 = (record_root_at 0 n2)\<lparr>nd_annulet_genesis_cms := an_genesis_cms setup\<rparr>
                      in (case store_set_finalized (ms_genesis (nd_chain n3)) (nd_chain n3) of
                            Some (Inr _, s) \<Rightarrow> Some (n3\<lparr>nd_chain := s\<rparr>)
                          | _ \<Rightarrow> None)))
     | (Annulet, None) \<Rightarrow> None
     | (_, None) \<Rightarrow> from_genesis hh fm sections g lg
     | (_, Some _) \<Rightarrow> None)"

definition install_v6 :: "'k v6_setup option \<Rightarrow> 'k node \<Rightarrow> 'k node" where
  "install_v6 v6 n =
    (case v6 of
       None \<Rightarrow> n
     | Some v \<Rightarrow>
         n\<lparr>nd_committee0 := Some (vs_committee0 v),
           nd_surface := (case vs_wrapper v of None \<Rightarrow> [] | Some w \<Rightarrow> ws_genesis_surface w),
           nd_last_bundle_height := None, nd_wrapper := vs_wrapper v\<rparr>)"

definition v6_setup_of :: "'k node \<Rightarrow> 'k v6_setup option" where
  "v6_setup_of n = map_option (\<lambda>c. \<lparr>vs_committee0 = c, vs_wrapper = nd_wrapper n\<rparr>) (nd_committee0 n)"

definition annulet_setup_of :: "'k node \<Rightarrow> annulet_setup option" where
  "annulet_setup_of n =
    (case (nd_fees n, nd_registry_genesis n) of
       (Some fees, Some reg) \<Rightarrow>
         Some \<lparr>an_fees = fees, an_registry = reg, an_genesis_cms = nd_annulet_genesis_cms n,
           an_genesis_supply = nd_genesis_supply n, an_auth = nd_auth n\<rparr>
     | _ \<Rightarrow> None)"

text \<open>\<open>in_memory_for\<close>, \<open>in_memory_v6\<close> and \<open>in_memory_annulet_with_auth\<close>, with the log an opened directory adds.\<close>

definition open_l1 :: "header_hash \<Rightarrow> genesis_form \<Rightarrow> stored_block \<Rightarrow> log_record list option \<Rightarrow> 'k node option" where
  "open_l1 hh fm g lg = from_genesis hh fm NoSections g lg"

definition open_v6 :: "header_hash \<Rightarrow> stored_block \<Rightarrow> 'k v6_setup \<Rightarrow> log_record list option \<Rightarrow> 'k node option" where
  "open_v6 hh g v6 lg = map_option (install_v6 (Some v6)) (from_genesis hh V5 V6 g lg)"

definition open_annulet :: "header_hash \<Rightarrow> block_header \<Rightarrow> genesis_note list \<Rightarrow> l2_fee_table \<Rightarrow> registry_leaf list
    \<Rightarrow> auth_context \<Rightarrow> log_record list option \<Rightarrow> 'k node option" where
  "open_annulet hh g notes fees leaves ctx lg =
    (if genesis_body_commitment_annulet_for notes (ac_form ctx) = Some (tx_body_commitment g)
     then (case (bound_to g notes fees leaves, annulet_genesis g) of
             (Inr setup, Some block) \<Rightarrow> from_genesis_with hh Annulet NoSections block lg (Some (setup\<lparr>an_auth := ctx\<rparr>))
           | _ \<Rightarrow> None)
     else None)"

section \<open>Applying a block to the state\<close>

text \<open>\<open>check_stored_binding_with\<close>: the body a stored block restores commits to what its header says.\<close>

definition stored_commitment :: "genesis_form \<Rightarrow> body_sections \<Rightarrow> l2_auth_form \<Rightarrow> u64 \<Rightarrow> block_body \<Rightarrow> hash32 option" where
  "stored_commitment fm sections l2_auth h b =
    (case (fm, sections) of
       (V5, V6) \<Rightarrow> commitment_v6 b
     | (_, V6) \<Rightarrow> None
     | (V4, _) \<Rightarrow> commitment_at h b
     | (V5, _) \<Rightarrow> commitment_v5_at h b
     | (Annulet, _) \<Rightarrow> body_commitment_annulet_for b l2_auth)"

definition check_stored_binding_with :: "genesis_form \<Rightarrow> body_sections \<Rightarrow> l2_auth_form \<Rightarrow> stored_block \<Rightarrow> (node_error, unit) run" where
  "check_stored_binding_with fm sections l2_auth b =
    (if sections = NoSections \<and> sb_sections b \<noteq> None then Some (Err (NodeBody (SectionOnForm ''finality/bundle'')))
     else (case stored_body b of
             None \<Rightarrow> None
           | Some body \<Rightarrow>
               (case check_tx_entry_counts body of
                  Inl e \<Rightarrow> Some (Err (NodeBody e))
                | Inr _ \<Rightarrow>
                    (case stored_commitment fm sections l2_auth (sb_height b) body of
                       None \<Rightarrow> None
                     | Some got \<Rightarrow>
                         if sh_tx_body_commitment (sb_header b) \<noteq> got
                         then Some (Err (BodyCommitmentMismatch (sb_height b) (sh_tx_body_commitment (sb_header b)) got))
                         else Some (Ok ())))))"

definition record_height_of :: "('k, 's) sig_scheme \<Rightarrow> stored_block \<Rightarrow> node_error + u64 option" where
  "record_height_of sg b =
    (case sb_sections b of
       None \<Rightarrow> Ok None
     | Some s \<Rightarrow>
         if ss_finality s = [] then Ok None
         else (case fr_decode (sg_enc sg) (sg_dec sg) (ss_finality s) of
                 Inl e \<Rightarrow> Err (NodeBody (FinalityRecord e))
               | Inr r \<Rightarrow> Ok (Some (cp_height (fr_cp r)))))"

definition fold_stored_bundle :: "'k node \<Rightarrow> stored_block \<Rightarrow> node_error + bundle_outcome option" where
  "fold_stored_bundle n b =
    (case bundle_ref_of b of
       None \<Rightarrow> Ok None
     | Some r \<Rightarrow>
         (case nd_wrapper n of
            None \<Rightarrow> Err (NodeBody (Bundle NoRule))
          | Some w \<Rightarrow> (case ws_fold w (nd_surface n) (br_bytes r) of Inl e \<Rightarrow> Err (NodeBody (Bundle e)) | Inr out \<Rightarrow> Ok (Some out))))"

definition exit_leaves :: "u64 \<Rightarrow> bundle_outcome option \<Rightarrow> node_error + hash32 list" where
  "exit_leaves h out =
    (case out of
       None \<Rightarrow> Ok []
     | Some x \<Rightarrow>
         if length (bo_exits x) > 256 then Err (NodeBody (Bundle (TooManyExits (length (bo_exits x)) 256)))
         else Ok (map (\<lambda>(i, key, v). exit_note_leaf h (word_of_nat i) (digest_from_bytes key) v) (enumerate 0 (bo_exits x))))"

definition supply_at :: "(u16 \<times> int) list \<Rightarrow> u16 \<Rightarrow> int" where
  "supply_at m a = (case map_of m a of None \<Rightarrow> 0 | Some v \<Rightarrow> v)"

definition stored_supply_delta :: "'k node \<Rightarrow> stored_block \<Rightarrow> (node_error, (u16 \<times> int) list) run" where
  "stored_supply_delta n b =
    (case nd_form n of
       Annulet \<Rightarrow>
         (case stored_body b of
            None \<Rightarrow> None
          | Some body \<Rightarrow>
              let delta = annulet_supply_delta body
              in (case find (\<lambda>(a, d). supply_at (nd_outstanding n) a + d < 0) delta of
                    Some (a, d) \<Rightarrow> Some (Err (SupplyUnderflow (sb_height b) a (supply_at (nd_outstanding n) a) d))
                  | None \<Rightarrow> Some (Ok delta)))
     | _ \<Rightarrow> Some (Ok []))"

definition check_registry_parent :: "'k node \<Rightarrow> block_header \<Rightarrow> block_body \<Rightarrow> node_error + unit" where
  "check_registry_parent n h b =
    (case nd_registry n of
       None \<Rightarrow> Ok ()
     | Some store \<Rightarrow>
         let pre = registry_root_bytes store
         in (case annulet_registry_write b of
               Inl e \<Rightarrow> Err (NodeBody e)
             | Inr None \<Rightarrow>
                 if annulet_registry_root h \<noteq> pre then Err (RegistryRootMismatch (height h) (annulet_registry_root h) pre) else Ok ()
             | Inr (Some (_, old, _)) \<Rightarrow>
                 if old \<noteq> pre then Err (RegistryWriteNotOnParent (height h) old pre) else Ok ()))"

definition registry_after :: "'k node \<Rightarrow> block_header \<Rightarrow> block_body \<Rightarrow> node_error + registry_tree option" where
  "registry_after n h b =
    rbind (check_registry_parent n h b) (\<lambda>_.
      case nd_registry n of
        None \<Rightarrow> Ok None
      | Some store \<Rightarrow>
          (case annulet_registry_write b of
             Inl e \<Rightarrow> Err (NodeBody e)
           | Inr None \<Rightarrow> Ok None
           | Inr (Some (_, _, w)) \<Rightarrow>
               (case apply_write (rw_leaf_lanes w) store of
                  Inl e \<Rightarrow> Err (RegistryWriteFailed (height h) e)
                | Inr nxt \<Rightarrow>
                    let rebuilt = registry_root_bytes nxt
                    in if rebuilt \<noteq> rw_new_root w then Err (RegistryWriteRootMismatch (height h) (rw_new_root w) rebuilt)
                       else if annulet_registry_root h \<noteq> rebuilt
                       then Err (RegistryRootMismatch (height h) (annulet_registry_root h) rebuilt)
                       else Ok (Some nxt))))"

definition stored_registry_after :: "'k node \<Rightarrow> stored_block \<Rightarrow> (node_error, registry_tree option) run" where
  "stored_registry_after n b =
    (case nd_form n of
       Annulet \<Rightarrow> (case stored_body b of None \<Rightarrow> None | Some body \<Rightarrow> Some (registry_after n (full_header b) body))
     | _ \<Rightarrow> Some (Ok None))"

text \<open>The nullifier scan: every nullifier new to the chain and to the block.\<close>

fun scan_nullifiers :: "hash32 set \<Rightarrow> nat \<Rightarrow> hash32 list \<Rightarrow> hash32 list list \<Rightarrow> node_error + hash32 list" where
  "scan_nullifiers spent i seen [] = Ok seen"
| "scan_nullifiers spent i seen ([] # ts) = scan_nullifiers spent (Suc i) seen ts"
| "scan_nullifiers spent i seen ((nf # nfs) # ts) =
    (if nf \<in> spent \<or> nf \<in> set seen then Err (NullifierSpent i)
     else scan_nullifiers spent i (seen @ [nf]) (nfs # ts))"

text \<open>The coinbase note that matures at the block's height, minted by its ancestor.\<close>

definition matured_leaf :: "'k node \<Rightarrow> stored_block \<Rightarrow> hash32 option option" where
  "matured_leaf n b =
    (case matures_coinbase_minted_at (sb_height b) of
       None \<Rightarrow> Some None
     | Some minted \<Rightarrow>
         (case ancestor_block (nd_chain n) minted (sb_prev b) of
            None \<Rightarrow> None
          | Some None \<Rightarrow> Some None
          | Some (Some a) \<Rightarrow>
              map_option (\<lambda>body. matured_coinbase_leaf_for (nd_form n) (sb_height b) (\<lambda>_. Some body)) (coinbase_view a)))"

record block_effects =
  be_record_height :: "u64 option"
  be_bundle :: "bundle_outcome option"
  be_exit_leaves :: "hash32 list"
  be_supply_delta :: "(u16 \<times> int) list"
  be_registry_after :: "registry_tree option"
  be_matured :: "hash32 option"

text \<open>The checks of \<open>apply_state\<close>, in its order; nothing has changed when one of them refuses.\<close>

definition state_checks :: "('k, 's) sig_scheme \<Rightarrow> 'k node \<Rightarrow> stored_block \<Rightarrow> (node_error, block_effects) run" where
  "state_checks sg n b =
    and_then (check_stored_binding_with (nd_form n) (nd_sections n) (ac_form (nd_auth n)) b) (\<lambda>_.
    and_then (Some (record_height_of sg b)) (\<lambda>rh.
    and_then (Some (fold_stored_bundle n b)) (\<lambda>out.
    and_then (Some (exit_leaves (sb_height b) out)) (\<lambda>leaves.
    and_then (stored_supply_delta n b) (\<lambda>delta.
    and_then (stored_registry_after n b) (\<lambda>reg.
    and_then (Some (scan_nullifiers (nd_nullifiers n) 0 [] (map st_nullifiers (sb_txs b)))) (\<lambda>_.
      map_option (\<lambda>m. Ok \<lparr>be_record_height = rh, be_bundle = out, be_exit_leaves = leaves, be_supply_delta = delta,
                       be_registry_after = reg, be_matured = m\<rparr>) (matured_leaf n b))))))))"

fun apply_stored_txs :: "stored_tx list \<Rightarrow> 'k node \<Rightarrow> 'k node option" where
  "apply_stored_txs [] n = Some n"
| "apply_stored_txs (t # ts) n =
    (case append_commitments (st_commitments t) n of
       None \<Rightarrow> None
     | Some n1 \<Rightarrow>
         apply_stored_txs ts (n1\<lparr>nd_nullifiers := nd_nullifiers n1 \<union> set (st_nullifiers t),
           nd_nullifiers_ordered := nd_nullifiers_ordered n1 @ st_nullifiers t\<rparr>))"

definition add_supply :: "(u16 \<times> int) list \<Rightarrow> (u16 \<times> int) list \<Rightarrow> (u16 \<times> int) list" where
  "add_supply delta m = fold (\<lambda>(a, d) m. bt_insert a (supply_at m a + d) m) delta m"

text \<open>The rest of the state after the riders: roots, record, wrapper surface, registry, supplies, retained bodies.\<close>

definition settle_effects :: "hash32 \<Rightarrow> stored_block \<Rightarrow> block_effects \<Rightarrow> 'k node \<Rightarrow> 'k node" where
  "settle_effects hash b fx n0 =
    (let n1 = record_root_at (sb_height b) n0;
         n2 = (case be_record_height fx of None \<Rightarrow> n1 | Some h \<Rightarrow> n1\<lparr>nd_recorded := bt_insert (sb_height b) h (nd_recorded n1)\<rparr>);
         n3 = (case be_bundle fx of None \<Rightarrow> n2
               | Some out \<Rightarrow> n2\<lparr>nd_surface := bo_surface out, nd_last_bundle_height := Some (sb_height b)\<rparr>);
         n4 = (case be_registry_after fx of None \<Rightarrow> n3 | Some reg \<Rightarrow> n3\<lparr>nd_registry := Some reg\<rparr>);
         n5 = (if be_supply_delta fx = [] then n4
               else n4\<lparr>nd_outstanding := add_supply (be_supply_delta fx) (nd_outstanding n4),
                       nd_supply_deltas := bt_insert (sb_height b) (be_supply_delta fx) (nd_supply_deltas n4)\<rparr>)
     in if rb_by_hash (nd_retained n5) = [] then n5
        else n5\<lparr>nd_retained := retained_prune_below (sb_height b) (retained_forget hash (nd_retained n5))\<rparr>)"

definition commit_block :: "header_hash \<Rightarrow> stored_block \<Rightarrow> block_effects \<Rightarrow> 'k node \<Rightarrow> ((node_error + hash32) \<times> 'k node) option" where
  "commit_block hh b fx n =
    (case put_block hh b (nd_chain n) of
       None \<Rightarrow> None
     | Some (Inl e, s) \<Rightarrow> Some (Err (NodeChain e), n\<lparr>nd_chain := s\<rparr>)
     | Some (Inr hash, s) \<Rightarrow>
         (case append_commitments (case be_matured fx of None \<Rightarrow> [] | Some x \<Rightarrow> [x]) (n\<lparr>nd_chain := s\<rparr>) of
            None \<Rightarrow> None
          | Some n1 \<Rightarrow>
         (case apply_stored_txs (sb_txs b) n1 of
            None \<Rightarrow> None
          | Some n2 \<Rightarrow>
         (case append_commitments (be_exit_leaves fx) n2 of
            None \<Rightarrow> None
          | Some n3 \<Rightarrow>
              (case apply_block_riders (nd_names n3) (sb_height b) (map st_rider (sb_txs b)) of
                 (Inl (i, e), reg) \<Rightarrow> Some (Err (NodeBody (Block_Body.RiderMalformed i e)), n3\<lparr>nd_names := reg\<rparr>)
               | (Inr _, reg) \<Rightarrow> Some (Ok hash, settle_effects hash b fx (n3\<lparr>nd_names := reg\<rparr>)))))))"

definition apply_state :: "header_hash \<Rightarrow> ('k, 's) sig_scheme \<Rightarrow> stored_block \<Rightarrow> 'k node \<Rightarrow> ((node_error + hash32) \<times> 'k node) option" where
  "apply_state hh sg b n =
    (case state_checks sg n b of
       None \<Rightarrow> None
     | Some (Inl e) \<Rightarrow> Some (Err e, n)
     | Some (Inr fx) \<Rightarrow> commit_block hh b fx n)"

section \<open>Blocks at the tip\<close>

datatype anchor_gate = Live | SettledHistory

definition append_log :: "log_record list \<Rightarrow> 'k node \<Rightarrow> 'k node" where
  "append_log recs n = n\<lparr>nd_log := map_option (\<lambda>l. l @ recs) (nd_log n)\<rparr>"

definition node_recorded_finality :: "'k node \<Rightarrow> u64 option" where
  "node_recorded_finality n = (if nd_recorded n = [] then None else Some (snd (last (nd_recorded n))))"

definition node_root_heights :: "'k node \<Rightarrow> hash32 \<Rightarrow> u64 list" where
  "node_root_heights n r = (case nd_anchor_heights n r of None \<Rightarrow> [] | Some hs \<Rightarrow> hs)"

text \<open>\<open>V6View\<close>: the chain as the V6 rules read it. The committee of a V6 node is installed when it is built.\<close>

definition v6_view :: "header_hash \<Rightarrow> 'k node \<Rightarrow> 'k committee \<Rightarrow> u64 \<Rightarrow> 'k v6_chain_view" where
  "v6_view hh n committee block_h =
    \<lparr>recorded_finality = node_recorded_finality n,
     ancestor_at = (\<lambda>h. if h \<ge> block_h then None
       else (case ancestor_block (nd_chain n) h (node_tip n) of Some (Some b) \<Rightarrow> hh (nd_form n) (full_header b) | _ \<Rightarrow> None)),
     committee0 = committee, root_heights = node_root_heights n, wrapper_surface = nd_surface n,
     last_bundle_height = nd_last_bundle_height n\<rparr>"

definition wrapper_rule :: "'k node \<Rightarrow> bundle_verifier" where
  "wrapper_rule n = (case nd_wrapper n of Some w \<Rightarrow> ws_verify w | None \<Rightarrow> refuse_all_bundles)"

definition validate_block_v6 :: "header_hash \<Rightarrow> ('k, 's) sig_scheme \<Rightarrow> block_header \<Rightarrow> block_body \<Rightarrow> (tx_entry \<Rightarrow> bool)
    \<Rightarrow> 'k node \<Rightarrow> (body_error, unit) run" where
  "validate_block_v6 hh sg h b verify_tx n =
    (if nd_sections n = V6 \<and> prev h = node_tip n
     then (case nd_committee0 n of
             None \<Rightarrow> None
           | Some c \<Rightarrow> validate_body_v6 sg h b verify_tx (v6_view hh n c (height h)) (wrapper_rule n) (registry_view (nd_names n)))
     else None)"

definition node_err :: "(body_error, 'a) run \<Rightarrow> (node_error, 'a) run" where
  "node_err r = map_option (\<lambda>x. case x of Inl e \<Rightarrow> Err (NodeBody e) | Inr v \<Rightarrow> Ok v) r"

definition gate_anchor :: "anchor_gate \<Rightarrow> 'k node \<Rightarrow> u64 \<Rightarrow> hash32 \<Rightarrow> bool" where
  "gate_anchor gate n h r = (case gate of Live \<Rightarrow> is_valid_anchor n r | SettledHistory \<Rightarrow> is_valid_anchor_as_of n r h)"

definition validate_gated :: "header_hash \<Rightarrow> ('k, 's) sig_scheme \<Rightarrow> block_header \<Rightarrow> block_body \<Rightarrow> (tx_entry \<Rightarrow> bool)
    \<Rightarrow> anchor_gate \<Rightarrow> 'k node \<Rightarrow> (node_error, unit) run" where
  "validate_gated hh sg h b verify_tx gate n =
    (if nd_sections n = V6 then node_err (validate_block_v6 hh sg h b verify_tx n)
     else (case nd_form n of
             V4 \<Rightarrow> node_err (validate_body_with_names sg h b verify_tx (gate_anchor gate n (height h)) (registry_view (nd_names n)))
           | V5 \<Rightarrow> node_err (validate_body_v5 sg h b verify_tx (gate_anchor gate n (height h)) (registry_view (nd_names n)))
           | Annulet \<Rightarrow> Some (Err UnsealedOnAnnulet)))"

definition apply_block_gated :: "header_hash \<Rightarrow> ('k, 's) sig_scheme \<Rightarrow> block_header \<Rightarrow> block_body \<Rightarrow> (tx_entry \<Rightarrow> bool)
    \<Rightarrow> anchor_gate \<Rightarrow> 'k node \<Rightarrow> ((node_error + hash32) \<times> 'k node) option" where
  "apply_block_gated hh sg h b verify_tx gate n =
    (if prev h \<noteq> node_tip n then Some (Err (NotExtendingTip (node_tip n) (prev h)), n)
     else (case validate_gated hh sg h b verify_tx gate n of
             None \<Rightarrow> None
           | Some (Inl e) \<Rightarrow> Some (Err e, n)
           | Some (Inr _) \<Rightarrow>
               (case from_parts h b of
                  None \<Rightarrow> None
                | Some block \<Rightarrow>
                    (case apply_state hh sg block n of
                       None \<Rightarrow> None
                     | Some (Inl e, n1) \<Rightarrow> Some (Err e, n1)
                     | Some (Inr hash, n1) \<Rightarrow> Some (Ok hash, append_log [LogBlock block] n1)))))"

definition apply_block :: "header_hash \<Rightarrow> ('k, 's) sig_scheme \<Rightarrow> block_header \<Rightarrow> block_body \<Rightarrow> (tx_entry \<Rightarrow> bool)
    \<Rightarrow> 'k node \<Rightarrow> ((node_error + hash32) \<times> 'k node) option" where
  "apply_block hh sg h b verify_tx n = apply_block_gated hh sg h b verify_tx Live n"

definition apply_sealed_block :: "header_hash \<Rightarrow> ('k, 's) sig_scheme \<Rightarrow> (bytes \<Rightarrow> hash32 \<Rightarrow> bytes \<Rightarrow> bool) \<Rightarrow> sealed_header
    \<Rightarrow> block_body \<Rightarrow> (tx_entry \<Rightarrow> bool) \<Rightarrow> 'k node \<Rightarrow> ((node_error + hash32) \<times> 'k node) option" where
  "apply_sealed_block hh sg lib sealed b verify_tx n =
    (case (nd_form n, nd_fees n) of
       (Annulet, Some fees) \<Rightarrow>
         let h = sl_header sealed
         in if prev h \<noteq> node_tip n then Some (Err (NotExtendingTip (node_tip n) (prev h)), n)
            else (case check_registry_parent n h b of
                    Inl e \<Rightarrow> Some (Err e, n)
                  | Inr _ \<Rightarrow>
                 (case validate_body_annulet_for lib h b verify_tx (is_valid_anchor n) fees (nd_auth n) of
                    None \<Rightarrow> None
                  | Some (Inl e) \<Rightarrow> Some (Err (NodeBody e), n)
                  | Some (Inr _) \<Rightarrow>
                 (case from_sealed_parts sealed b of
                    None \<Rightarrow> None
                  | Some block \<Rightarrow>
                 (case apply_state hh sg block n of
                    None \<Rightarrow> None
                  | Some (Inl e, n1) \<Rightarrow> Some (Err e, n1)
                  | Some (Inr hash, n1) \<Rightarrow>
                      (case store_set_finalized hash (nd_chain n1) of
                         None \<Rightarrow> None
                       | Some (Inl e, s) \<Rightarrow> Some (Err (AnnuletFinality e), n1\<lparr>nd_chain := s\<rparr>)
                       | Some (Inr _, s) \<Rightarrow>
                           Some (Ok hash, append_log [LogBlock block, LogFinalize hash] (n1\<lparr>nd_chain := s\<rparr>)))))))
     | _ \<Rightarrow> Some (Err (FormNotServed (nd_form n) ''an Annulet node (in_memory_annulet)''), n))"

section \<open>Finality and rewinding\<close>

datatype finalize_outcome = Recorded | Refused finalize_mark_error

definition finalize :: "hash32 \<Rightarrow> 'k node \<Rightarrow> (finalize_outcome \<times> 'k node) option" where
  "finalize hash n =
    (case store_set_finalized hash (nd_chain n) of
       None \<Rightarrow> None
     | Some (Inl e, s) \<Rightarrow> Some (Refused e, n\<lparr>nd_chain := s\<rparr>)
     | Some (Inr _, s) \<Rightarrow> Some (Recorded, append_log [LogFinalize hash] (n\<lparr>nd_chain := s\<rparr>)))"

record rewind_report =
  rr_from_height :: u64
  rr_from_hash :: hash32
  rr_to_height :: u64
  rr_to_hash :: hash32

fun apply_states :: "header_hash \<Rightarrow> ('k, 's) sig_scheme \<Rightarrow> stored_block list \<Rightarrow> 'k node \<Rightarrow> ((node_error + unit) \<times> 'k node) option" where
  "apply_states hh sg [] n = Some (Ok (), n)"
| "apply_states hh sg (b # bs) n =
    (case apply_state hh sg b n of
       None \<Rightarrow> None
     | Some (Inl e, n1) \<Rightarrow> Some (Err e, n1)
     | Some (Inr _, n1) \<Rightarrow> apply_states hh sg bs n1)"

text \<open>The blocks a rewind undoes, newest first.\<close>

partial_function (option) undone_walk :: "mem_chain_store \<Rightarrow> hash32 \<Rightarrow> hash32 \<Rightarrow> stored_block list option" where
  "undone_walk s target cursor =
    (if cursor = target then Some []
     else (case store_block s cursor of
             None \<Rightarrow> Some []
           | Some b \<Rightarrow> Option.bind (undone_walk s target (sb_prev b)) (\<lambda>bs. Some (b # bs))))"

definition rebuild_base :: "header_hash \<Rightarrow> 'k node \<Rightarrow> stored_block \<Rightarrow> 'k node option" where
  "rebuild_base hh n g =
    map_option (install_v6 (v6_setup_of n)) (from_genesis_with hh (nd_form n) (nd_sections n) g (nd_log n) (annulet_setup_of n))"

definition rewind_to :: "header_hash \<Rightarrow> ('k, 's) sig_scheme \<Rightarrow> hash32 \<Rightarrow> 'k node \<Rightarrow> ((node_error + rewind_report) \<times> 'k node) option" where
  "rewind_to hh sg target n =
    (let from_h = node_tip_height n; from_hash = node_tip n
     in if from_hash = target
        then Some (Ok \<lparr>rr_from_height = from_h, rr_from_hash = from_hash, rr_to_height = from_h, rr_to_hash = target\<rparr>, n)
        else (case rewind_path (nd_chain n) target of
                None \<Rightarrow> None
              | Some (Inl e) \<Rightarrow> Some (Err (NodeRewind e), n)
              | Some (Inr kept) \<Rightarrow>
             (case undone_walk (nd_chain n) target from_hash of
                None \<Rightarrow> None
              | Some undone \<Rightarrow>
             (case rebuild_base hh n (hd kept) of
                None \<Rightarrow> None
              | Some n0 \<Rightarrow>
             (case apply_states hh sg (tl kept) n0 of
                None \<Rightarrow> None
              | Some (Inl e, _) \<Rightarrow> Some (Err e, n)
              | Some (Inr _, n1) \<Rightarrow>
             (case store_restore_finalized (finalized_pair (nd_chain n)) (nd_chain n1) of
                None \<Rightarrow> None
              | Some s \<Rightarrow>
             (case retain_all hh undone (nd_retained n) of
                None \<Rightarrow> None
              | Some r1 \<Rightarrow>
             (case forget_all hh (tl kept) r1 of
                None \<Rightarrow> None
              | Some r2 \<Rightarrow>
                  let n2 = n1\<lparr>nd_chain := s, nd_retained := r2\<rparr>;
                      n3 = n2\<lparr>nd_retained := retained_prune_below (node_tip_height n2) r2\<rparr>
                  in Some (Ok \<lparr>rr_from_height = from_h, rr_from_hash = from_hash, rr_to_height = node_tip_height n3,
                             rr_to_hash = node_tip n3\<rparr>, n3)))))))))"

section \<open>Replaying the log\<close>

definition apply_logged_block :: "header_hash \<Rightarrow> ('k, 's) sig_scheme \<Rightarrow> stored_block \<Rightarrow> 'k node \<Rightarrow> ((node_error + unit) \<times> 'k node) option" where
  "apply_logged_block hh sg b n =
    (case (if sb_height b > 0 \<and> sb_prev b \<noteq> node_tip n
           then map_option (\<lambda>(r, n1). (case r of Inl e \<Rightarrow> Err e | Inr _ \<Rightarrow> Ok (), n1)) (rewind_to hh sg (sb_prev b) n)
           else Some (Ok (), n)) of
       None \<Rightarrow> None
     | Some (Inl e, n1) \<Rightarrow> Some (Err e, n1)
     | Some (Inr _, n1) \<Rightarrow>
         (case apply_state hh sg b n1 of
            None \<Rightarrow> None
          | Some (Inl e, n2) \<Rightarrow> Some (Err e, n2)
          | Some (Inr hash, n2) \<Rightarrow>
              (case nd_form n2 of
                 Annulet \<Rightarrow>
                   (case store_set_finalized hash (nd_chain n2) of
                      None \<Rightarrow> None
                    | Some (Inl e, s) \<Rightarrow> Some (Err (AnnuletFinality e), n2\<lparr>nd_chain := s\<rparr>)
                    | Some (Inr _, s) \<Rightarrow> Some (Ok (), n2\<lparr>nd_chain := s\<rparr>))
               | _ \<Rightarrow> Some (Ok (), n2))))"

definition replay_record :: "header_hash \<Rightarrow> ('k, 's) sig_scheme \<Rightarrow> log_record \<Rightarrow> 'k node \<Rightarrow> ((node_error + unit) \<times> 'k node) option" where
  "replay_record hh sg rec n =
    (case rec of
       LogBlock b \<Rightarrow> apply_logged_block hh sg b n
     | LogFinalize hash \<Rightarrow> map_option (\<lambda>(_, s). (Ok (), n\<lparr>nd_chain := s\<rparr>)) (store_set_finalized hash (nd_chain n)))"

fun replay_records :: "header_hash \<Rightarrow> ('k, 's) sig_scheme \<Rightarrow> log_record list \<Rightarrow> 'k node \<Rightarrow> ((node_error + unit) \<times> 'k node) option" where
  "replay_records hh sg [] n = Some (Ok (), n)"
| "replay_records hh sg (rec # recs) n =
    (case replay_record hh sg rec n of
       None \<Rightarrow> None
     | Some (Inl e, n1) \<Rightarrow> Some (Err e, n1)
     | Some (Inr _, n1) \<Rightarrow> replay_records hh sg recs n1)"

text \<open>The form check of \<open>open_inner\<close>, and \<open>resume_by_replay\<close> from the node the genesis builds.\<close>

fun check_log_form :: "genesis_form \<Rightarrow> log_record list \<Rightarrow> node_error + unit" where
  "check_log_form fm [] = Ok ()"
| "check_log_form fm (LogFinalize h # recs) = check_log_form fm recs"
| "check_log_form fm (LogBlock b # recs) =
    (if (fm = Annulet) \<noteq> (sb_annulet b \<noteq> None) then Err (LogFormMismatch fm (sb_height b)) else check_log_form fm recs)"

definition resume_by_replay :: "header_hash \<Rightarrow> ('k, 's) sig_scheme \<Rightarrow> genesis_form \<Rightarrow> body_sections \<Rightarrow> stored_block
    \<Rightarrow> annulet_setup option \<Rightarrow> 'k v6_setup option \<Rightarrow> log_record list \<Rightarrow> ((node_error + unit) \<times> 'k node) option" where
  "resume_by_replay hh sg fm sections g annulet v6 recs =
    (case from_genesis_with hh fm sections g (Some recs) annulet of
       None \<Rightarrow> None
     | Some n0 \<Rightarrow> replay_records hh sg recs (install_v6 v6 n0))"

section \<open>What the rest of the program reads\<close>

definition held_block :: "'k node \<Rightarrow> hash32 \<Rightarrow> stored_block option" where
  "held_block n h = (case store_block (nd_chain n) h of Some b \<Rightarrow> Some b | None \<Rightarrow> retained_get (nd_retained n) h)"

definition node_state_of :: "'k node \<Rightarrow> node_state" where
  "node_state_of n =
    \<lparr>ns_form = nd_form n, ns_fee_table = nd_fees n, ns_registry_root = map_option registry_root_bytes (nd_registry n),
     ns_outstanding = supply_at (nd_outstanding n),
     ns_write_root = (\<lambda>lanes. case nd_registry n of None \<Rightarrow> None
       | Some reg \<Rightarrow> Some (case apply_write lanes reg of Inl e \<Rightarrow> Err e | Inr nxt \<Rightarrow> Ok (registry_root_bytes nxt))),
     ns_auth_context = nd_auth n, ns_tip_height = node_tip_height n, ns_tip_hash = node_tip n,
     ns_finalized_height = node_finalized_height n, ns_commitment_root = node_root n,
     ns_commitment_count = word_of_nat (tree_len (nd_commitments n)), ns_is_spent = (\<lambda>nf. nf \<in> nd_nullifiers n),
     ns_nullifier_count = card (nd_nullifiers n), ns_is_valid_anchor = is_valid_anchor n\<rparr>"

section \<open>What an operation leaves alone\<close>

text \<open>\<open>remark f r lg n\<close> is \<open>n\<close> with another finalized point, other retained bodies and another log: the three
  parts of a node that are not a function of the blocks it applied.\<close>

definition remark :: "final_point option \<Rightarrow> retained_bodies \<Rightarrow> log_record list option \<Rightarrow> 'k node \<Rightarrow> 'k node" where
  "remark f r lg n = n\<lparr>nd_chain := set_fin f (nd_chain n), nd_retained := r, nd_log := lg\<rparr>"

lemma remark_sel [simp]:
  "nd_chain (remark f r lg n) = set_fin f (nd_chain n)" "nd_nullifiers (remark f r lg n) = nd_nullifiers n"
  "nd_commitments (remark f r lg n) = nd_commitments n" "nd_roots_by_height (remark f r lg n) = nd_roots_by_height n"
  "nd_anchor_heights (remark f r lg n) = nd_anchor_heights n" "nd_commitments_ordered (remark f r lg n) = nd_commitments_ordered n"
  "nd_nullifiers_ordered (remark f r lg n) = nd_nullifiers_ordered n" "nd_retained (remark f r lg n) = r"
  "nd_log (remark f r lg n) = lg" "nd_names (remark f r lg n) = nd_names n" "nd_form (remark f r lg n) = nd_form n"
  "nd_sections (remark f r lg n) = nd_sections n" "nd_committee0 (remark f r lg n) = nd_committee0 n"
  "nd_recorded (remark f r lg n) = nd_recorded n" "nd_wrapper (remark f r lg n) = nd_wrapper n"
  "nd_surface (remark f r lg n) = nd_surface n" "nd_last_bundle_height (remark f r lg n) = nd_last_bundle_height n"
  "nd_fees (remark f r lg n) = nd_fees n" "nd_auth (remark f r lg n) = nd_auth n" "nd_registry (remark f r lg n) = nd_registry n"
  "nd_registry_genesis (remark f r lg n) = nd_registry_genesis n" "nd_genesis_supply (remark f r lg n) = nd_genesis_supply n"
  "nd_annulet_genesis_cms (remark f r lg n) = nd_annulet_genesis_cms n" "nd_outstanding (remark f r lg n) = nd_outstanding n"
  "nd_supply_deltas (remark f r lg n) = nd_supply_deltas n" "remark f r lg (remark g q k n) = remark f r lg n"
  by (simp_all add: remark_def)

lemma remark_id: "remark (fin_of (nd_chain n)) (nd_retained n) (nd_log n) n = n"
  by (simp add: remark_def)

text \<open>The fields fixed when the node is built.\<close>

definition config :: "'k node \<Rightarrow> (genesis_form \<times> body_sections \<times> 'k committee option \<times> wrapper_setup option)
    \<times> (l2_fee_table option \<times> auth_context \<times> registry_tree option \<times> (u16 \<times> int) list \<times> hash32 list)" where
  "config n = ((nd_form n, nd_sections n, nd_committee0 n, nd_wrapper n),
     (nd_fees n, nd_auth n, nd_registry_genesis n, nd_genesis_supply n, nd_annulet_genesis_cms n))"

lemma config_remark [simp]: "config (remark f r lg n) = config n"
  by (simp add: config_def)

lemma configD:
  assumes "config n = config m"
  shows "nd_form n = nd_form m" and "nd_sections n = nd_sections m" and "v6_setup_of n = v6_setup_of m"
    and "annulet_setup_of n = annulet_setup_of m"
  using assms by (auto simp: config_def v6_setup_of_def annulet_setup_of_def split: option.splits)

lemma append_commitment_Some:
  "append_commitment x n = Some n' \<longleftrightarrow>
    (\<exists>i t. tree_append_bytes x (nd_commitments n) = Some (i, t)
      \<and> n' = n\<lparr>nd_commitments := t, nd_commitments_ordered := nd_commitments_ordered n @ [x]\<rparr>)"
  by (auto simp: append_commitment_def split: option.splits prod.splits)

text \<open>What appending a run of commitments does: the tree and the order, nothing else.\<close>

fun append_run :: "hash32 list \<Rightarrow> commitment_tree \<Rightarrow> commitment_tree option" where
  "append_run [] t = Some t"
| "append_run (x # xs) t = (case tree_append_bytes x t of None \<Rightarrow> None | Some (_, t1) \<Rightarrow> append_run xs t1)"

lemma append_run_append: "append_run (xs @ ys) t = Option.bind (append_run xs t) (append_run ys)"
  by (induction xs arbitrary: t) (auto split: option.splits)

lemma append_commitments_eq:
  "append_commitments xs n =
    map_option (\<lambda>t. n\<lparr>nd_commitments := t, nd_commitments_ordered := nd_commitments_ordered n @ xs\<rparr>) (append_run xs (nd_commitments n))"
  by (induction xs arbitrary: n) (auto simp: append_commitment_def split: option.splits prod.splits)

definition block_commitments :: "stored_tx list \<Rightarrow> hash32 list" where
  "block_commitments ts = concat (map st_commitments ts)"

definition block_nullifiers :: "stored_tx list \<Rightarrow> hash32 list" where
  "block_nullifiers ts = concat (map st_nullifiers ts)"

lemma apply_stored_txs_eq:
  "apply_stored_txs ts n =
    map_option (\<lambda>t. n\<lparr>nd_nullifiers := nd_nullifiers n \<union> set (block_nullifiers ts), nd_commitments := t,
        nd_commitments_ordered := nd_commitments_ordered n @ block_commitments ts,
        nd_nullifiers_ordered := nd_nullifiers_ordered n @ block_nullifiers ts\<rparr>)
      (append_run (block_commitments ts) (nd_commitments n))"
proof (induction ts arbitrary: n)
  case Nil
  then show ?case by (simp add: block_nullifiers_def block_commitments_def)
next
  case (Cons t ts)
  show ?case
    by (cases "append_run (st_commitments t) (nd_commitments n)")
      (simp_all add: append_commitments_eq Cons append_run_append block_nullifiers_def block_commitments_def Un_assoc option.map_comp comp_def)
qed

text \<open>The whole of \<open>commit_block\<close> after the insertion, on one line.\<close>

definition new_commitments :: "stored_block \<Rightarrow> block_effects \<Rightarrow> hash32 list" where
  "new_commitments b fx = (case be_matured fx of None \<Rightarrow> [] | Some x \<Rightarrow> [x]) @ block_commitments (sb_txs b) @ be_exit_leaves fx"

definition with_contents :: "stored_block \<Rightarrow> block_effects \<Rightarrow> commitment_tree \<Rightarrow> mem_chain_store \<Rightarrow> 'k node \<Rightarrow> 'k node" where
  "with_contents b fx t s n =
    n\<lparr>nd_chain := s, nd_nullifiers := nd_nullifiers n \<union> set (block_nullifiers (sb_txs b)), nd_commitments := t,
      nd_commitments_ordered := nd_commitments_ordered n @ new_commitments b fx,
      nd_nullifiers_ordered := nd_nullifiers_ordered n @ block_nullifiers (sb_txs b)\<rparr>"

lemma contents_order:
  "n\<lparr>nd_chain := s, nd_nullifiers := a, nd_nullifiers_ordered := d, nd_commitments := t, nd_commitments_ordered := c\<rparr>
    = n\<lparr>nd_chain := s, nd_nullifiers := a, nd_commitments := t, nd_commitments_ordered := c, nd_nullifiers_ordered := d\<rparr>"
  by (cases n) simp

lemma commit_block_eq:
  "commit_block hh b fx n =
    (case put_block hh b (nd_chain n) of
       None \<Rightarrow> None
     | Some (Inl e, s) \<Rightarrow> Some (Err (NodeChain e), n\<lparr>nd_chain := s\<rparr>)
     | Some (Inr hash, s) \<Rightarrow>
         (case append_run (new_commitments b fx) (nd_commitments n) of
            None \<Rightarrow> None
          | Some t \<Rightarrow>
              (case apply_block_riders (nd_names n) (sb_height b) (map st_rider (sb_txs b)) of
                 (Inl (i, e), reg) \<Rightarrow> Some (Err (NodeBody (Block_Body.RiderMalformed i e)), (with_contents b fx t s n)\<lparr>nd_names := reg\<rparr>)
               | (Inr _, reg) \<Rightarrow> Some (Ok hash, settle_effects hash b fx ((with_contents b fx t s n)\<lparr>nd_names := reg\<rparr>)))))"
  by (cases "append_run (case be_matured fx of None \<Rightarrow> [] | Some x \<Rightarrow> [x]) (nd_commitments n)")
    (auto simp: commit_block_def append_commitments_eq apply_stored_txs_eq new_commitments_def append_run_append with_contents_def
      option.map_comp comp_def contents_order split: option.splits prod.splits sum.splits)

end
