(* ===== verification/Node_Run.thy ===== *)
theory Node_Run
  imports Node
begin

text \<open>
  What the node's state machine keeps. A node reached from its genesis by applying blocks (under either
  anchor rule), sealing, finalizing and rewinding is, apart from its finalized mark, its retained bodies and
  its log, the fold of \<open>apply_state\<close> over the blocks of its chain. From this follow the exactness of a
  rewind, the restart from the log, and what the nullifier set, the commitment tree and the anchor index
  hold.
\<close>

section \<open>One step of the fold\<close>

definition settled_retained :: "hash32 \<Rightarrow> stored_block \<Rightarrow> retained_bodies \<Rightarrow> retained_bodies" where
  "settled_retained hash b r = (if rb_by_hash r = [] then r else retained_prune_below (sb_height b) (retained_forget hash r))"

text \<open>\<open>settle_effects\<close> as one update.\<close>

lemma settle_eq:
  "settle_effects hash b fx n =
    n\<lparr>nd_roots_by_height := bt_insert (sb_height b) (node_root n) (nd_roots_by_height n),
      nd_anchor_heights := (nd_anchor_heights n)(node_root n \<mapsto> node_root_heights n (node_root n) @ [sb_height b]),
      nd_recorded := (case be_record_height fx of None \<Rightarrow> nd_recorded n | Some h \<Rightarrow> bt_insert (sb_height b) h (nd_recorded n)),
      nd_surface := (case be_bundle fx of None \<Rightarrow> nd_surface n | Some out \<Rightarrow> bo_surface out),
      nd_last_bundle_height := (case be_bundle fx of None \<Rightarrow> nd_last_bundle_height n | Some out \<Rightarrow> Some (sb_height b)),
      nd_registry := (case be_registry_after fx of None \<Rightarrow> nd_registry n | Some reg \<Rightarrow> Some reg),
      nd_outstanding := (if be_supply_delta fx = [] then nd_outstanding n else add_supply (be_supply_delta fx) (nd_outstanding n)),
      nd_supply_deltas := (if be_supply_delta fx = [] then nd_supply_deltas n
        else bt_insert (sb_height b) (be_supply_delta fx) (nd_supply_deltas n)),
      nd_retained := settled_retained hash b (nd_retained n)\<rparr>"
  unfolding settle_effects_def record_root_at_def Let_def settled_retained_def node_root_heights_def
  by (cases "be_record_height fx"; cases "be_bundle fx"; cases "be_registry_after fx"; cases "be_supply_delta fx"; cases "rb_by_hash (nd_retained n)")
    (simp_all add: node_root_def)

lemma settle_remark:
  "settle_effects hash b fx (remark f r lg n) = remark f (settled_retained hash b r) lg (settle_effects hash b fx n)"
  unfolding settle_eq by (cases n) (simp add: remark_def node_root_def node_root_heights_def cong: option.case_cong)

lemma with_contents_remark: "with_contents b fx t (set_fin f s) (remark f r lg n) = remark f r lg (with_contents b fx t s n)"
  by (cases n) (simp add: with_contents_def remark_def)

lemma names_remark: "(remark f r lg n)\<lparr>nd_names := x\<rparr> = remark f r lg (n\<lparr>nd_names := x\<rparr>)"
  by (cases n) (simp add: remark_def)

lemma chain_remark: "(remark f r lg n)\<lparr>nd_chain := set_fin f s\<rparr> = remark f r lg (n\<lparr>nd_chain := s\<rparr>)"
  by (cases n) (simp add: remark_def)

lemma matured_remark:
  assumes "holds hh (nd_chain n) bs" and "sb_prev b = node_tip n" and "fin_ok f (main_hashes (nd_chain n))"
  shows "matured_leaf (remark f r lg n) b = matured_leaf n b"
proof -
  have i: "length bs - 1 < length bs" using holdsD(5) [OF assms(1)] by simp
  have tip: "sb_prev b = main_hashes (nd_chain n) ! (length bs - 1)" using assms(2) holds_tip(2) [OF assms(1)] by simp
  have "ancestor_block (set_fin f (nd_chain n)) h (sb_prev b) = ancestor_block (nd_chain n) h (sb_prev b)" for h
    using ancestor_branch [OF assms(1) i] ancestor_branch [OF holds_set_fin [OF assms(1,3)] i] by (simp add: tip)
  then show ?thesis by (simp add: matured_leaf_def cong: option.case_cong)
qed

lemma checks_remark:
  "fold_stored_bundle (remark f r lg n) b = fold_stored_bundle n b"
  "stored_supply_delta (remark f r lg n) b = stored_supply_delta n b"
  "check_registry_parent (remark f r lg n) h body = check_registry_parent n h body"
  "registry_after (remark f r lg n) h body = registry_after n h body"
  by (simp_all add: fold_stored_bundle_def stored_supply_delta_def registry_after_def check_registry_parent_def
      cong: option.case_cong genesis_form.case_cong)

lemma state_checks_remark:
  assumes "holds hh (nd_chain n) bs" and "sb_prev b = node_tip n" and "fin_ok f (main_hashes (nd_chain n))"
  shows "state_checks sg (remark f r lg n) b = state_checks sg n b"
  unfolding state_checks_def matured_remark [OF assms] checks_remark stored_registry_after_def by simp

text \<open>The headers the node applies: not so high that a height could wrap, and with a difficulty where the form counts it.\<close>

definition sane_header :: "genesis_form \<Rightarrow> block_header \<Rightarrow> bool" where
  "sane_header f h \<longleftrightarrow> height h < 2 ^ 62 \<and> (f = Annulet \<or> difficulty h \<noteq> 0)"

lemma sane_weight: "sane_header f h \<Longrightarrow> insert_weight f h \<noteq> 0"
  by (auto simp: sane_header_def insert_weight_def unat_u128_of word_neq_0_unat split: genesis_form.splits)

lemma apply_state_remark:
  assumes hold: "holds hh (nd_chain n) bs" and prev: "sb_prev b = node_tip n" and f: "fin_ok f (main_hashes (nd_chain n))"
    and sane: "sane_header (form (ms_chain (nd_chain n))) (full_header b)"
  shows "apply_state hh sg b (remark f r lg n) =
    map_option (\<lambda>(res, m). (res, remark f (case res of Inl e \<Rightarrow> r | Inr hash \<Rightarrow> settled_retained hash b r) lg m)) (apply_state hh sg b n)"
proof -
  have put: "put_block hh b (set_fin f (nd_chain n)) = map_option (\<lambda>(r, s'). (r, set_fin f s')) (put_block hh b (nd_chain n))"
    using put_set_fin [OF hold prev sane_weight [OF sane] f] .
  show ?thesis
    unfolding apply_state_def state_checks_remark [OF hold prev f] commit_block_eq
    by (auto simp: put with_contents_remark names_remark chain_remark settle_remark split: option.splits sum.splits prod.splits)
qed

lemma settle_sel [simp]:
  "config (settle_effects hash b fx n) = config n" "nd_log (settle_effects hash b fx n) = nd_log n"
  "nd_chain (settle_effects hash b fx n) = nd_chain n" "nd_nullifiers (settle_effects hash b fx n) = nd_nullifiers n"
  "nd_commitments (settle_effects hash b fx n) = nd_commitments n"
  "nd_nullifiers_ordered (settle_effects hash b fx n) = nd_nullifiers_ordered n"
  "nd_commitments_ordered (settle_effects hash b fx n) = nd_commitments_ordered n"
  "nd_names (settle_effects hash b fx n) = nd_names n"
  "nd_retained (settle_effects hash b fx n) = settled_retained hash b (nd_retained n)"
  by (simp_all add: settle_eq config_def)

lemma contents_sel [simp]:
  "config ((with_contents b fx t s n)\<lparr>nd_names := x\<rparr>) = config n" "nd_log (with_contents b fx t s n) = nd_log n"
  "nd_chain (with_contents b fx t s n) = s"
  by (simp_all add: with_contents_def config_def)

lemma apply_state_Ok:
  assumes hold: "holds hh (nd_chain n) bs" and prev: "sb_prev b = node_tip n"
    and sane: "sane_header (form (ms_chain (nd_chain n))) (full_header b)" and app: "apply_state hh sg b n = Some (Ok hash, n')"
  obtains fx t reg where "state_checks sg n b = Some (Ok fx)" "append_run (new_commitments b fx) (nd_commitments n) = Some t"
    "apply_block_riders (nd_names n) (sb_height b) (map st_rider (sb_txs b)) = (Ok (), reg)"
    "n' = settle_effects hash b fx ((with_contents b fx t (store_extend hash b (nd_chain n)) n)\<lparr>nd_names := reg\<rparr>)"
    "holds hh (nd_chain n') (bs @ [b])" "main_hashes (nd_chain n') = main_hashes (nd_chain n) @ [hash]"
    "fin_of (nd_chain n') = fin_of (nd_chain n)" "node_tip n' = hash" "config n' = config n" "nd_log n' = nd_log n"
    "hh (form (ms_chain (nd_chain n))) (full_header b) = Some hash" "sb_height b = word_of_nat (length bs)"
    "form (ms_chain (nd_chain n')) = form (ms_chain (nd_chain n))"
proof -
  obtain fx where fx: "state_checks sg n b = Some (Ok fx)" "commit_block hh b fx n = Some (Ok hash, n')"
    using app by (auto simp: apply_state_def split: option.splits sum.splits)
  from fx(2) obtain s t reg where p: "put_block hh b (nd_chain n) = Some (Ok hash, s)"
    "append_run (new_commitments b fx) (nd_commitments n) = Some t"
    "apply_block_riders (nd_names n) (sb_height b) (map st_rider (sb_txs b)) = (Ok (), reg)"
    "n' = settle_effects hash b fx ((with_contents b fx t s n)\<lparr>nd_names := reg\<rparr>)"
    unfolding commit_block_eq by (auto split: option.splits sum.splits prod.splits)
  note w = sane_weight [OF sane]
  have "put_block hh b (nd_chain n) = Some (Ok hash, s) \<Longrightarrow> sb_height b = word_of_nat (length bs)"
    using put_at_tip [OF hold prev w] by (auto split: option.splits if_splits)
  then have hb: "sb_height b = word_of_nat (length bs)" using p(1) by simp
  have "unat (sb_height b) = length bs" unfolding hb using holdsD(4) [OF hold] by (intro unat_of_nat_len) simp
  moreover have "unat (sb_height b) < 2 ^ 62" using sane by (simp add: sane_header_def word_less_nat_alt)
  ultimately have small: "length bs + 1 < 2 ^ 63" by simp
  note ext = holds_extend [OF hold prev w small p(1)]
  have n': "nd_chain n' = s" using p(4) by simp
  show thesis
    by (rule that [OF fx(1) p(2,3)])
      (use p(4) ext n' in \<open>simp_all add: store_extend_def chain_extend_def\<close>)
qed

lemma apply_state_Err:
  assumes hold: "holds hh (nd_chain n) bs" and prev: "sb_prev b = node_tip n"
    and sane: "sane_header (form (ms_chain (nd_chain n))) (full_header b)" and app: "apply_state hh sg b n = Some (Err e, n')"
    and riders: "\<forall>t \<in> set (sb_txs b). \<exists>op. decode_rider (st_rider t) = Ok op"
  shows "n' = n"
proof -
  have "\<exists>reg'. apply_riders h i rs reg = (Ok (), reg')" if "\<forall>r \<in> set rs. \<exists>op. decode_rider r = Ok op" for h i rs reg
    using that by (induction rs arbitrary: i reg) auto
  then have ok: "\<exists>reg'. apply_block_riders (nd_names n) (sb_height b) (map st_rider (sb_txs b)) = (Ok (), reg')"
    using riders by (simp add: apply_block_riders_def Let_def)
  show ?thesis
  proof (cases "state_checks sg n b")
    case (Some r)
    show ?thesis
    proof (cases r)
      case (Inr fx)
      then have com: "commit_block hh b fx n = Some (Err e, n')" using app Some by (simp add: apply_state_def)
      have "s = nd_chain n" if "put_block hh b (nd_chain n) = Some (Inl err, s)" for err s
        using that put_at_tip [OF hold prev sane_weight [OF sane]] by (auto split: option.splits if_splits)
      with com ok show ?thesis unfolding commit_block_eq by (auto split: option.splits sum.splits prod.splits)
    qed (use app Some in \<open>simp add: apply_state_def\<close>)
  qed (use app in \<open>simp add: apply_state_def\<close>)
qed

section \<open>The fold over a branch\<close>

inductive built :: "header_hash \<Rightarrow> ('k, 's) sig_scheme \<Rightarrow> 'k node \<Rightarrow> stored_block list \<Rightarrow> 'k node \<Rightarrow> bool" for hh sg n0 where
  Built_Start: "built hh sg n0 [] n0"
| Built_Block: "built hh sg n0 bs m \<Longrightarrow> sb_prev b = node_tip m \<Longrightarrow> sane_header (nd_form n0) (full_header b)
    \<Longrightarrow> apply_state hh sg b m = Some (Ok hash, m') \<Longrightarrow> built hh sg n0 (bs @ [b]) m'"

text \<open>A node as it is built from its genesis: its chain is the genesis alone, and rebuilding it gives it back.\<close>

definition start_ok :: "header_hash \<Rightarrow> stored_block \<Rightarrow> 'k node \<Rightarrow> bool" where
  "start_ok hh g n0 \<longleftrightarrow>
    holds hh (nd_chain n0) [g] \<and> form (ms_chain (nd_chain n0)) = nd_form n0 \<and> nd_retained n0 = retained_new (nd_form n0)
    \<and> rebuild_base hh n0 g = Some n0 \<and> (nd_form n0 = Annulet \<longrightarrow> fin_of (nd_chain n0) \<noteq> None)"

lemma built_facts:
  assumes "built hh sg n0 bs m" and "start_ok hh g n0"
  shows "holds hh (nd_chain m) (g # bs)" and "form (ms_chain (nd_chain m)) = nd_form n0" and "config m = config n0"
    and "nd_log m = nd_log n0" and "nd_retained m = nd_retained n0" and "fin_of (nd_chain m) = fin_of (nd_chain n0)"
proof -
  have "holds hh (nd_chain m) (g # bs) \<and> form (ms_chain (nd_chain m)) = nd_form n0 \<and> config m = config n0
    \<and> nd_log m = nd_log n0 \<and> nd_retained m = nd_retained n0 \<and> fin_of (nd_chain m) = fin_of (nd_chain n0)"
    using assms
  proof (induction rule: built.induct)
    case Built_Start
    then show ?case by (simp add: start_ok_def)
  next
    case (Built_Block bs m b hash m')
    have sane: "sane_header (form (ms_chain (nd_chain m))) (full_header b)" using Built_Block by simp
    have empty: "rb_by_hash (nd_retained m) = []" using Built_Block by (simp add: start_ok_def retained_new_def)
    show ?case
    proof (rule apply_state_Ok [OF _ Built_Block(2) sane Built_Block(4)])
      show "holds hh (nd_chain m) (g # bs)" using Built_Block by simp
      fix fx t reg
      assume "m' = settle_effects hash b fx ((with_contents b fx t (store_extend hash b (nd_chain m)) m)\<lparr>nd_names := reg\<rparr>)"
      then have "nd_retained m' = nd_retained m" using empty by (simp add: settled_retained_def with_contents_def)
      moreover assume "holds hh (nd_chain m') ((g # bs) @ [b])" "fin_of (nd_chain m') = fin_of (nd_chain m)" "config m' = config m"
        "nd_log m' = nd_log m" "form (ms_chain (nd_chain m')) = form (ms_chain (nd_chain m))"
      ultimately show ?thesis using Built_Block by simp
    qed
  qed
  then show "holds hh (nd_chain m) (g # bs)" "form (ms_chain (nd_chain m)) = nd_form n0" "config m = config n0"
    "nd_log m = nd_log n0" "nd_retained m = nd_retained n0" "fin_of (nd_chain m) = fin_of (nd_chain n0)" by auto
qed

lemma built_hashes:
  assumes "built hh sg n0 bs m" and "start_ok hh g n0" and "sb_prev b = node_tip m" and "sane_header (nd_form n0) (full_header b)"
    and "apply_state hh sg b m = Some (Ok hash, m')"
  shows "main_hashes (nd_chain m') = main_hashes (nd_chain m) @ [hash]" and "node_tip m' = hash"
    and "sb_height b = word_of_nat (Suc (length bs))"
proof -
  note f = built_facts [OF assms(1,2)]
  have sane: "sane_header (form (ms_chain (nd_chain m))) (full_header b)" using assms(4) f(2) by simp
  show "main_hashes (nd_chain m') = main_hashes (nd_chain m) @ [hash]" "node_tip m' = hash" "sb_height b = word_of_nat (Suc (length bs))"
    by (rule apply_state_Ok [OF f(1) assms(3) sane assms(5)], simp)+
qed

lemma built_inject: "built hh sg n0 bs m \<Longrightarrow> built hh sg n0 bs m' \<Longrightarrow> m = m'"
proof (induction arbitrary: m' rule: built.induct)
  case Built_Start
  then show ?case by (auto elim: built.cases)
next
  case (Built_Block bs m b hash m1)
  from Built_Block.prems obtain m2 hash2 where "built hh sg n0 bs m2" "apply_state hh sg b m2 = Some (Ok hash2, m')"
    by (auto elim: built.cases)
  with Built_Block show ?case by force
qed

lemma built_prefix:
  assumes "built hh sg n0 bs m" and "start_ok hh g n0" and "k \<le> length bs"
  obtains mk where "built hh sg n0 (take k bs) mk" "main_hashes (nd_chain mk) = take (Suc k) (main_hashes (nd_chain m))"
proof -
  have "\<exists>mk. built hh sg n0 (take k bs) mk \<and> main_hashes (nd_chain mk) = take (Suc k) (main_hashes (nd_chain m))"
    using assms
  proof (induction rule: built.induct)
    case Built_Start
    have "length (main_hashes (nd_chain n0)) = 1" using Built_Start(1) holdsD(6) by (fastforce simp: start_ok_def)
    with Built_Start show ?case by (intro exI [of _ n0]) (auto intro: built.intros)
  next
    case (Built_Block bs m b hash m')
    note len = holdsD(6) [OF built_facts(1) [OF Built_Block(1) Built_Block(6)]]
    note mc = built_hashes(1) [OF Built_Block(1) Built_Block(6) Built_Block(2-4)]
    show ?case
    proof (cases "k \<le> length bs")
      case True
      with Built_Block len show ?thesis by (simp add: mc)
    next
      case False
      then have "k = Suc (length bs)" using Built_Block by simp
      then show ?thesis using built.Built_Block [OF Built_Block(1-4)] len by (intro exI [of _ m']) (simp add: mc)
    qed
  qed
  then show thesis using that by blast
qed

text \<open>The fold itself, from the start node under any log.\<close>

lemma apply_states_snoc:
  "apply_states hh sg bs n = Some (Ok (), m) \<Longrightarrow> apply_state hh sg b m = Some (Ok hash, m')
    \<Longrightarrow> apply_states hh sg (bs @ [b]) n = Some (Ok (), m')"
  by (induction bs arbitrary: n) (auto split: option.splits sum.splits)

lemma built_fold:
  assumes "built hh sg n0 bs m" and "start_ok hh g n0"
  shows "apply_states hh sg bs (remark (fin_of (nd_chain n0)) (nd_retained n0) lg n0)
    = Some (Ok (), remark (fin_of (nd_chain n0)) (nd_retained n0) lg m)"
  using assms
proof (induction rule: built.induct)
  case Built_Start
  then show ?case by simp
next
  case (Built_Block bs m b hash m')
  note f = built_facts [OF Built_Block(1) Built_Block(6)]
  have sane: "sane_header (form (ms_chain (nd_chain m))) (full_header b)" using Built_Block f(2) by simp
  have fin: "fin_ok (fin_of (nd_chain n0)) (main_hashes (nd_chain m))" using holds_fin_ok [OF f(1)] f(6) by simp
  have "settled_retained hash b (nd_retained n0) = nd_retained n0"
    using Built_Block.prems by (simp add: settled_retained_def start_ok_def retained_new_def)
  then have "apply_state hh sg b (remark (fin_of (nd_chain n0)) (nd_retained n0) lg m)
      = Some (Ok hash, remark (fin_of (nd_chain n0)) (nd_retained n0) lg m')"
    by (simp add: apply_state_remark [OF f(1) Built_Block(2) fin sane] Built_Block(4))
  with Built_Block(5) [OF Built_Block(6)] show ?case by (rule apply_states_snoc)
qed

section \<open>Nodes built from a genesis\<close>

lemma bound_genesis_log:
  "from_bound_genesis hh fm sec g lg = map_option (\<lambda>n. n\<lparr>nd_log := lg\<rparr>) (from_bound_genesis hh fm sec g lg')"
  by (simp add: from_bound_genesis_def option.map_comp comp_def Let_def)

lemma bound_genesis_sel:
  assumes "from_bound_genesis hh fm sec g lg = Some n"
  shows "holds hh (nd_chain n) [g]" and "form (ms_chain (nd_chain n)) = fm" and "nd_form n = fm" and "nd_sections n = sec"
    and "nd_retained n = retained_new fm" and "nd_log n = lg" and "nd_committee0 n = None" and "nd_fees n = None"
    and "nd_wrapper n = None" and "nd_nullifiers n = {}" and "nd_nullifiers_ordered n = []" and "nd_commitments n = tree_new"
    and "nd_commitments_ordered n = []" and "fin_of (nd_chain n) = None"
    and "nd_roots_by_height n = [(0, node_root n)]" and "nd_anchor_heights n = [node_root n \<mapsto> [0]]"
proof -
  obtain s where s: "store_new_for hh fm g = Some s" and n: "n = the (from_bound_genesis hh fm sec g lg)" and "nd_chain n = s"
    using assms by (auto simp: from_bound_genesis_def Let_def)
  then show "holds hh (nd_chain n) [g]" using holds_new by simp
  obtain hash where "s = \<lparr>ms_chain = \<lparr>blocks = [(hash, \<lparr>e_header = full_header g, cumulative_work = u128_of (difficulty (full_header g))\<rparr>)],
        genesis = hash, tip = hash, main_chain_by_height = [hash], finalized_point = None, form = fm\<rparr>,
      ms_blocks = [(hash, g)], ms_genesis = hash\<rparr>"
    using store_new_sel [OF s] by metis
  with assms s show "form (ms_chain (nd_chain n)) = fm" "nd_form n = fm" "nd_sections n = sec"
    "nd_retained n = retained_new fm" "nd_log n = lg" "nd_committee0 n = None" "nd_fees n = None"
    "nd_wrapper n = None" "nd_nullifiers n = {}" "nd_nullifiers_ordered n = []" "nd_commitments n = tree_new"
    "nd_commitments_ordered n = []" "fin_of (nd_chain n) = None"
    "nd_roots_by_height n = [(0, node_root n)]" "nd_anchor_heights n = [node_root n \<mapsto> [0]]"
    by (auto simp: from_bound_genesis_def Let_def node_root_def)
qed

lemma from_genesis_bound: "from_genesis hh fm sec g lg = Some n \<Longrightarrow> from_bound_genesis hh fm sec g lg = Some n"
  by (auto simp: from_genesis_def split: option.splits if_splits)

lemma from_genesis_log: "from_genesis hh fm sec g lg = map_option (\<lambda>n. n\<lparr>nd_log := lg\<rparr>) (from_genesis hh fm sec g lg')"
  using bound_genesis_log [of hh fm sec g lg lg'] by (auto simp: from_genesis_def split: option.splits)

lemma annulet_genesis_sel:
  fixes n :: "'k node"
  assumes "from_genesis_with hh Annulet sec g lg (Some st) = Some n"
  obtains n1 t where "from_bound_genesis hh Annulet sec g lg = Some n1"
    "append_run (an_genesis_cms st) tree_new = Some t"
    "n = n1\<lparr>nd_chain := set_fin (Some \<lparr>fp_hash = main_hashes (nd_chain n1) ! 0, fp_height = 0\<rparr>) (nd_chain n1),
       nd_commitments := t, nd_commitments_ordered := an_genesis_cms st,
       nd_roots_by_height := [(0, digest_bytes (ct_root t))], nd_anchor_heights := [digest_bytes (ct_root t) \<mapsto> [0]],
       nd_fees := Some (an_fees st), nd_auth := an_auth st, nd_registry := Some (an_registry st),
       nd_registry_genesis := Some (an_registry st), nd_genesis_supply := an_genesis_supply st,
       nd_annulet_genesis_cms := an_genesis_cms st, nd_outstanding := an_genesis_supply st\<rparr>"
proof -
  obtain n1 :: "'k node" where n1: "from_bound_genesis hh Annulet sec g lg = Some n1"
    using assms by (auto simp: from_genesis_with_def split: option.splits)
  note b = bound_genesis_sel [OF n1]
  have gen: "ms_genesis (nd_chain n1) = main_hashes (nd_chain n1) ! 0"
    using holdsD(5-7) [OF b(1)] by (metis hd_conv_nth length_0_conv)
  have mark: "store_set_finalized (ms_genesis (nd_chain n1)) (nd_chain n1)
      = Some (Ok (), set_fin (Some \<lparr>fp_hash = main_hashes (nd_chain n1) ! 0, fp_height = 0\<rparr>) (nd_chain n1))"
    unfolding gen using mark_branch(1) [OF b(1), of 0] by (simp add: mark_result_def b(14))
  have "append_run (an_genesis_cms st) tree_new \<noteq> None"
    using assms by (cases "append_run (an_genesis_cms st) tree_new") (simp_all add: from_genesis_with_def n1 append_commitments_eq b(12) Let_def)
  then obtain t where t: "append_run (an_genesis_cms st) tree_new = Some t" by auto
  show thesis
    by (rule that [OF n1 t], use assms n1 t b mark in
      \<open>cases n1; simp add: from_genesis_with_def append_commitments_eq record_root_at_def node_root_def Let_def\<close>)
qed

lemma genesis_with_log:
  "(from_genesis_with hh fm sec g lg an :: 'k node option) = map_option (\<lambda>n. n\<lparr>nd_log := lg\<rparr>) (from_genesis_with hh fm sec g lg' an)"
proof (cases an)
  case None
  then show ?thesis using from_genesis_log [of hh fm sec g lg lg'] by (cases fm) (simp_all add: from_genesis_with_def)
next
  case (Some st)
  show ?thesis
  proof (cases fm)
    case Annulet
    show ?thesis
    proof (cases "from_bound_genesis hh Annulet sec g lg' :: 'k node option")
      case None
      moreover from this have "(from_bound_genesis hh Annulet sec g lg :: 'k node option) = None"
        by (subst bound_genesis_log [where lg' = lg']) simp
      ultimately show ?thesis by (simp add: from_genesis_with_def Some Annulet)
    next
      case (Some n1)
      moreover from this have "from_bound_genesis hh Annulet sec g lg = Some (n1\<lparr>nd_log := lg\<rparr>)"
        by (subst bound_genesis_log [where lg' = lg']) simp
      ultimately show ?thesis
        by (cases n1) (auto simp: from_genesis_with_def \<open>an = Some st\<close> Annulet append_commitments_eq record_root_at_def node_root_def Let_def
          split: option.splits sum.splits)
    qed
  qed (simp_all add: from_genesis_with_def Some)
qed

lemma rebuild_log:
  assumes "config n = config m"
  shows "rebuild_base hh n g = map_option (\<lambda>x. x\<lparr>nd_log := nd_log n\<rparr>) (rebuild_base hh m g)"
proof -
  have "install_v6 v (x\<lparr>nd_log := l\<rparr>) = (install_v6 v x)\<lparr>nd_log := l\<rparr>" for v :: "'a v6_setup option" and x l
    by (cases x) (simp add: install_v6_def split: option.splits)
  then show ?thesis
    unfolding rebuild_base_def configD [OF assms]
    by (subst genesis_with_log [where lg' = "nd_log m"]) (simp add: option.map_comp comp_def)
qed

lemma start_l1:
  assumes "open_l1 hh fm g lg = Some n"
  shows "start_ok hh g n"
proof -
  have b: "from_bound_genesis hh fm NoSections g lg = Some n" and fg: "from_genesis hh fm NoSections g lg = Some n"
    using assms from_genesis_bound by (auto simp: open_l1_def)
  note s = bound_genesis_sel [OF b]
  have "fm \<noteq> Annulet" using fg by (auto simp: from_genesis_def genesis_binding_def split: option.splits)
  then show ?thesis using s fg
    by (cases fm) (auto simp: start_ok_def rebuild_base_def from_genesis_with_def v6_setup_of_def annulet_setup_of_def install_v6_def)
qed

lemma start_v6:
  assumes "open_v6 hh g v6 lg = Some n"
  shows "start_ok hh g n"
proof -
  obtain m where fg: "from_genesis hh V5 V6 g lg = Some m" and n: "n = install_v6 (Some v6) m" using assms by (auto simp: open_v6_def)
  note s = bound_genesis_sel [OF from_genesis_bound [OF fg]]
  have "v6_setup_of n = Some v6" by (simp add: n v6_setup_of_def install_v6_def)
  then show ?thesis using s fg
    by (simp add: start_ok_def rebuild_base_def from_genesis_with_def annulet_setup_of_def) (simp add: n install_v6_def)
qed

lemma start_annulet:
  assumes "open_annulet hh g notes fees leaves ctx lg = Some n" and "annulet_genesis g = Some block"
  shows "start_ok hh block n"
proof -
  obtain st where fg: "from_genesis_with hh Annulet NoSections block lg (Some st) = Some n"
    using assms by (auto simp: open_annulet_def split: if_splits sum.splits option.splits)
  obtain n1 t where n: "from_bound_genesis hh Annulet NoSections block lg = Some n1"
    "n = n1\<lparr>nd_chain := set_fin (Some \<lparr>fp_hash = main_hashes (nd_chain n1) ! 0, fp_height = 0\<rparr>) (nd_chain n1),
       nd_commitments := t, nd_commitments_ordered := an_genesis_cms st,
       nd_roots_by_height := [(0, digest_bytes (ct_root t))], nd_anchor_heights := [digest_bytes (ct_root t) \<mapsto> [0]],
       nd_fees := Some (an_fees st), nd_auth := an_auth st, nd_registry := Some (an_registry st),
       nd_registry_genesis := Some (an_registry st), nd_genesis_supply := an_genesis_supply st,
       nd_annulet_genesis_cms := an_genesis_cms st, nd_outstanding := an_genesis_supply st\<rparr>"
    using annulet_genesis_sel [OF fg] by metis
  note s = bound_genesis_sel [OF n(1)]
  have "fin_ok (Some \<lparr>fp_hash = main_hashes (nd_chain n1) ! 0, fp_height = 0\<rparr>) (main_hashes (nd_chain n1))"
    using holdsD(5,6) [OF s(1)] by (simp add: fin_ok_def)
  then have h: "holds hh (nd_chain n) [block]" using holds_set_fin [OF s(1)] by (simp add: n(2))
  have "annulet_setup_of n = Some st" "v6_setup_of n = None" using s by (simp_all add: n(2) annulet_setup_of_def v6_setup_of_def)
  then have "rebuild_base hh n block = Some n"
    using fg s by (simp add: rebuild_base_def install_v6_def) (simp add: n(2) s)
  with h s show ?thesis by (simp add: start_ok_def) (simp add: n(2) s)
qed

section \<open>Reachable nodes\<close>

inductive reach :: "header_hash \<Rightarrow> ('k, 's) sig_scheme \<Rightarrow> (bytes \<Rightarrow> hash32 \<Rightarrow> bytes \<Rightarrow> bool) \<Rightarrow> 'k node \<Rightarrow> 'k node \<Rightarrow> bool" for hh sg lib n0 where
  Reach_Start: "reach hh sg lib n0 n0"
| Reach_Block: "reach hh sg lib n0 n \<Longrightarrow> sane_header (nd_form n0) h
    \<Longrightarrow> apply_block_gated hh sg h b verify_tx gate n = Some (r, n') \<Longrightarrow> reach hh sg lib n0 n'"
| Reach_Sealed: "reach hh sg lib n0 n \<Longrightarrow> sane_header (nd_form n0) (sl_header sealed)
    \<Longrightarrow> apply_sealed_block hh sg lib sealed b verify_tx n = Some (r1, n') \<Longrightarrow> reach hh sg lib n0 n'"
| Reach_Finalize: "reach hh sg lib n0 n \<Longrightarrow> finalize hash n = Some (r2, n') \<Longrightarrow> reach hh sg lib n0 n'"
| Reach_Rewind: "reach hh sg lib n0 n \<Longrightarrow> rewind_to hh sg target n = Some (r3, n') \<Longrightarrow> reach hh sg lib n0 n'"

text \<open>\<open>follows hh sg g n0 bs m n\<close>: the node \<open>n\<close> is the fold \<open>m\<close> of the blocks \<open>bs\<close> from \<open>n0\<close>, with a finalized point on
  its branch.\<close>

definition follows :: "header_hash \<Rightarrow> ('k, 's) sig_scheme \<Rightarrow> stored_block \<Rightarrow> 'k node \<Rightarrow> stored_block list \<Rightarrow> 'k node \<Rightarrow> 'k node \<Rightarrow> bool" where
  "follows hh sg g n0 bs m n \<longleftrightarrow>
    built hh sg n0 bs m \<and> fin_ok (fin_of (nd_chain n)) (main_hashes (nd_chain m))
    \<and> (fin_of (nd_chain n) = None \<longrightarrow> fin_of (nd_chain n0) = None) \<and> rb_form (nd_retained n) = nd_form n0
    \<and> n = remark (fin_of (nd_chain n)) (nd_retained n) (nd_log n) m"

lemma followsI:
  assumes "built hh sg n0 bs m" and "fin_ok f (main_hashes (nd_chain m))" and "f = None \<Longrightarrow> fin_of (nd_chain n0) = None"
    and "rb_form r = nd_form n0"
  shows "follows hh sg g n0 bs m (remark f r lg m)"
  using assms by (simp add: follows_def)

lemma follows_iff:
  "follows hh sg g n0 bs m n \<longleftrightarrow>
    (\<exists>f r lg. n = remark f r lg m \<and> built hh sg n0 bs m \<and> fin_ok f (main_hashes (nd_chain m))
      \<and> (f = None \<longrightarrow> fin_of (nd_chain n0) = None) \<and> rb_form r = nd_form n0)"
  by (auto simp: follows_def) blast

lemma followsE:
  assumes "follows hh sg g n0 bs m n" and "start_ok hh g n0"
  obtains f r lg where "n = remark f r lg m" "built hh sg n0 bs m" "fin_ok f (main_hashes (nd_chain m))"
    "f = None \<Longrightarrow> fin_of (nd_chain n0) = None" "rb_form r = nd_form n0" "holds hh (nd_chain m) (g # bs)" "config m = config n0"
    "form (ms_chain (nd_chain m)) = nd_form n0" "nd_form n = nd_form n0" "fin_of (nd_chain m) = fin_of (nd_chain n0)"
proof -
  have b: "built hh sg n0 bs m" using assms(1) by (simp add: follows_def)
  note f = built_facts [OF b assms(2)]
  have n: "n = remark (fin_of (nd_chain n)) (nd_retained n) (nd_log n) m" using assms(1) by (simp add: follows_def)
  have "nd_form m = nd_form n0" using f(3) by (simp add: config_def)
  then have "nd_form n = nd_form n0" by (subst n) simp
  with assms(1) b f n show thesis by (intro that [of "fin_of (nd_chain n)" "nd_retained n" "nd_log n"]) (simp_all add: follows_def)
qed

lemma follows_holds:
  assumes "follows hh sg g n0 bs m n" and "start_ok hh g n0"
  shows "holds hh (nd_chain n) (g # bs)"
proof (rule followsE [OF assms])
  fix f r lg assume "n = remark f r lg m" "fin_ok f (main_hashes (nd_chain m))" "holds hh (nd_chain m) (g # bs)"
  then show ?thesis by (simp add: holds_set_fin)
qed

lemma forget_form [simp]: "rb_form (retained_forget h r) = rb_form r"
  by (simp add: retained_forget_def split: option.splits)

lemma prune_form [simp]: "rb_form (retained_prune_below h r) = rb_form r"
  by (simp add: retained_prune_below_def Let_def)

lemma settled_form [simp]: "rb_form (settled_retained hash b r) = rb_form r"
  by (simp add: settled_retained_def)

lemma evict_form [simp]: "rb_form (evict_loop n r) = rb_form r"
  by (induction n r rule: evict_loop.induct) (auto split: option.splits)

lemma insert_form: "retained_insert hh b r = Some r' \<Longrightarrow> rb_form r' = rb_form r"
  by (auto simp: retained_insert_def Let_def retained_evict_def split: option.splits)

lemma retain_all_form: "retain_all hh bs r = Some r' \<Longrightarrow> rb_form r' = rb_form r"
  by (induction bs arbitrary: r) (auto dest: insert_form split: option.splits)

lemma forget_all_form: "forget_all hh bs r = Some r' \<Longrightarrow> rb_form r' = rb_form r"
  by (induction bs arbitrary: r) (auto split: option.splits)

text \<open>Applying a stored block at the tip: the fold takes one more step, or nothing happens.\<close>

lemma follows_apply:
  assumes fol: "follows hh sg g n0 bs m n" and start: "start_ok hh g n0"
    and prev: "sb_prev b = node_tip n" and sane: "sane_header (nd_form n0) (full_header b)"
    and app: "apply_state hh sg b n = Some (res, n')"
  shows "(\<exists>e m'. res = Err e \<and> apply_state hh sg b m = Some (Err e, m')) \<or>
    (\<exists>hash m'. res = Ok hash \<and> apply_state hh sg b m = Some (Ok hash, m') \<and> follows hh sg g n0 (bs @ [b]) m' n'
      \<and> main_hashes (nd_chain n') = main_hashes (nd_chain n) @ [hash] \<and> fin_of (nd_chain n') = fin_of (nd_chain n)
      \<and> nd_log n' = nd_log n \<and> node_tip n' = hash \<and> nd_retained n' = settled_retained hash b (nd_retained n))"
proof (rule followsE [OF fol start])
  fix f r lg
  assume n: "n = remark f r lg m" and b: "built hh sg n0 bs m" and f: "fin_ok f (main_hashes (nd_chain m))"
    and none: "f = None \<Longrightarrow> fin_of (nd_chain n0) = None" and r: "rb_form r = nd_form n0"
    and hold: "holds hh (nd_chain m) (g # bs)" and fm: "form (ms_chain (nd_chain m)) = nd_form n0"
  have prev': "sb_prev b = node_tip m" using prev n by simp
  have sane': "sane_header (form (ms_chain (nd_chain m))) (full_header b)" using sane fm by simp
  note step = apply_state_remark [OF hold prev' f sane', of sg r lg]
  from app obtain m' where m': "apply_state hh sg b m = Some (res, m')"
    "n' = remark f (case res of Inl e \<Rightarrow> r | Inr hash \<Rightarrow> settled_retained hash b r) lg m'"
    unfolding n step by auto
  show ?thesis
  proof (cases res)
    case (Inl e)
    then show ?thesis using m' by blast
  next
    case (Inr hash)
    have app': "apply_state hh sg b m = Some (Ok hash, m')" using m'(1) Inr by simp
    have b': "built hh sg n0 (bs @ [b]) m'" using built.Built_Block [OF b prev' sane app'] .
    note mc = built_hashes(1,2) [OF b start prev' sane app']
    have "follows hh sg g n0 (bs @ [b]) m' n'"
      unfolding m'(2) Inr by (simp, rule followsI) (use b' none r fin_ok_append [OF f] mc in simp_all)
    then show ?thesis using app' mc Inr m'(2) n by simp
  qed
qed

lemma follows_apply_Err:
  assumes fol: "follows hh sg g n0 bs m n" and start: "start_ok hh g n0"
    and prev: "sb_prev b = node_tip n" and sane: "sane_header (nd_form n0) (full_header b)"
    and app: "apply_state hh sg b n = Some (Err e, n')" and riders: "\<forall>t \<in> set (sb_txs b). \<exists>op. decode_rider (st_rider t) = Ok op"
  shows "n' = n"
proof (rule followsE [OF fol start])
  fix f r lg
  assume n: "n = remark f r lg m" and f: "fin_ok f (main_hashes (nd_chain m))" and hold: "holds hh (nd_chain m) (g # bs)"
    and fm: "form (ms_chain (nd_chain m)) = nd_form n0"
  have "holds hh (nd_chain n) (g # bs)" using follows_holds [OF fol start] .
  moreover have "sane_header (form (ms_chain (nd_chain n))) (full_header b)" using sane fm n by simp
  ultimately show ?thesis using apply_state_Err prev app riders by blast
qed

lemma append_log_remark: "append_log recs (remark f r lg n) = remark f r (map_option (\<lambda>l. l @ recs) lg) n"
  by (simp add: append_log_def remark_def)

lemma follows_log:
  assumes "follows hh sg g n0 bs m n"
  shows "follows hh sg g n0 bs m (append_log recs n)"
proof -
  obtain f r lg where n: "n = remark f r lg m" "built hh sg n0 bs m" "fin_ok f (main_hashes (nd_chain m))"
    "f = None \<longrightarrow> fin_of (nd_chain n0) = None" "rb_form r = nd_form n0"
    using assms unfolding follows_iff by blast
  show ?thesis unfolding n(1) append_log_remark by (rule followsI) (use n in auto)
qed

lemma follows_mark:
  assumes fol: "follows hh sg g n0 bs m n" and start: "start_ok hh g n0" and set: "store_set_finalized hash (nd_chain n) = Some (res, s)"
  shows "follows hh sg g n0 bs m (n\<lparr>nd_chain := s\<rparr>)" and "res = Err e \<Longrightarrow> s = nd_chain n"
proof -
  note hold = follows_holds [OF fol start]
  have "\<exists>f. s = set_fin f (nd_chain n) \<and> fin_ok f (main_hashes (nd_chain n)) \<and> (f = None \<longrightarrow> fin_of (nd_chain n) = None)
      \<and> (res = Err e \<longrightarrow> s = nd_chain n)"
  proof (cases "hash \<in> set (main_hashes (nd_chain n))")
    case True
    then obtain i where i: "i < length (g # bs)" "hash = main_hashes (nd_chain n) ! i"
      using holdsD(6) [OF hold] by (metis in_set_conv_nth)
    have "snd (mark_result (fin_of (nd_chain n)) hs i) = None \<longrightarrow> fin_of (nd_chain n) = None" for hs
      by (auto simp: mark_result_def split: option.splits if_splits)
    moreover have "fst (mark_result (fin_of (nd_chain n)) hs i) = Err e \<longrightarrow> snd (mark_result (fin_of (nd_chain n)) hs i) = fin_of (nd_chain n)" for hs
      by (auto simp: mark_result_def split: option.splits if_splits)
    ultimately show ?thesis using mark_branch [OF hold i(1)] set i(2) by auto
  next
    case False
    then have "s = nd_chain n" using mark_unknown [OF hold] set by simp
    then show ?thesis using holds_fin_ok [OF hold] by (intro exI [of _ "fin_of (nd_chain n)"]) simp
  qed
  then obtain f where f: "s = set_fin f (nd_chain n)" "fin_ok f (main_hashes (nd_chain n))" "f = None \<longrightarrow> fin_of (nd_chain n) = None"
    and err: "res = Err e \<longrightarrow> s = nd_chain n" by blast
  show "res = Err e \<Longrightarrow> s = nd_chain n" using err by simp
  obtain q r lg where n: "n = remark q r lg m" "built hh sg n0 bs m" "q = None \<longrightarrow> fin_of (nd_chain n0) = None" "rb_form r = nd_form n0"
    using fol unfolding follows_iff by blast
  have "n\<lparr>nd_chain := s\<rparr> = remark f r lg m" unfolding f(1) n(1) by (simp add: remark_def)
  moreover have "follows hh sg g n0 bs m (remark f r lg m)" by (rule followsI) (use n f in auto)
  ultimately show "follows hh sg g n0 bs m (n\<lparr>nd_chain := s\<rparr>)" by simp
qed

section \<open>Rewinding\<close>

lemma undone_branch:
  assumes hold: "holds hh s bs" and "i \<le> j" and "j < length bs"
  shows "undone_walk s (main_hashes s ! i) (main_hashes s ! j) = Some (rev (drop (Suc i) (take (Suc j) bs)))"
  using assms(2,3)
proof (induction j)
  case 0
  then show ?case by (subst undone_walk.simps) simp
next
  case (Suc j)
  show ?case
  proof (cases "i = Suc j")
    case True
    then show ?thesis by (subst undone_walk.simps) simp
  next
    case False
    have "main_hashes s ! Suc j \<noteq> main_hashes s ! i"
      using False holds_distinct [OF hold] Suc.prems holdsD(6) [OF hold] by (simp add: nth_eq_iff_index_eq)
    moreover have "sb_prev (bs ! Suc j) = main_hashes s ! j" using holds_height(3) [OF hold Suc.prems(2)] by simp
    moreover have "undone_walk s (main_hashes s ! i) (main_hashes s ! j) = Some (rev (drop (Suc i) (take (Suc j) bs)))"
      using Suc False by simp
    moreover have "drop (Suc i) (take (Suc (Suc j)) bs) = drop (Suc i) (take (Suc j) bs) @ [bs ! Suc j]"
      unfolding take_Suc_conv_app_nth [OF Suc.prems(2)] using Suc.prems False by (subst drop_append) simp
    ultimately show ?thesis
      using holds_nth(2) [OF hold Suc.prems(2)] by (subst undone_walk.simps) simp
  qed
qed

lemma retain_all_total:
  assumes "\<forall>b \<in> set bs. hh (rb_form r) (full_header b) \<noteq> None"
  shows "\<exists>r'. retain_all hh bs r = Some r' \<and> rb_form r' = rb_form r"
  using assms
proof (induction bs arbitrary: r)
  case (Cons b bs)
  obtain hash where "hh (rb_form r) (full_header b) = Some hash" using Cons.prems by auto
  then obtain r1 where r1: "retained_insert hh b r = Some r1" by (simp add: retained_insert_def Let_def)
  then have fm: "rb_form r1 = rb_form r" by (rule insert_form)
  then have "\<forall>b \<in> set bs. hh (rb_form r1) (full_header b) \<noteq> None" using Cons.prems by simp
  from Cons.IH [OF this] r1 fm show ?case by auto
qed simp

lemma forget_all_total:
  assumes "\<forall>b \<in> set bs. hh (rb_form r) (full_header b) \<noteq> None"
  shows "\<exists>r'. forget_all hh bs r = Some r' \<and> rb_form r' = rb_form r"
  using assms
proof (induction bs arbitrary: r)
  case (Cons b bs)
  then obtain hash where hash: "hh (rb_form r) (full_header b) = Some hash" by auto
  have "\<forall>b \<in> set bs. hh (rb_form (retained_forget hash r)) (full_header b) \<noteq> None" using Cons.prems by simp
  from Cons.IH [OF this] hash show ?case by auto
qed simp

text \<open>A rewind to an ancestor not below the finalized one gives the fold over the shorter branch.\<close>

lemma rewind_follows:
  assumes fol: "follows hh sg g n0 bs m n" and start: "start_ok hh g n0" and i: "i < length bs"
    and fin: "\<forall>p. fin_of (nd_chain n) = Some p \<longrightarrow> unat (fp_height p) \<le> i"
  obtains mk n' where "rewind_to hh sg (main_hashes (nd_chain n) ! i) n =
      Some (Ok \<lparr>rr_from_height = node_tip_height n, rr_from_hash = node_tip n, rr_to_height = node_tip_height n', rr_to_hash = node_tip n'\<rparr>, n')"
    "follows hh sg g n0 (take i bs) mk n'" "fin_of (nd_chain n') = fin_of (nd_chain n)" "nd_log n' = nd_log n"
    "main_hashes (nd_chain n') = take (Suc i) (main_hashes (nd_chain n))"
proof (rule followsE [OF fol start])
  fix f r lg
  assume n: "n = remark f r lg m" and b: "built hh sg n0 bs m" and f: "fin_ok f (main_hashes (nd_chain m))"
    and none: "f = None \<Longrightarrow> fin_of (nd_chain n0) = None" and r: "rb_form r = nd_form n0"
    and cfg: "config m = config n0" and fm: "form (ms_chain (nd_chain m)) = nd_form n0"
  have hold: "holds hh (nd_chain n) (g # bs)" using follows_holds [OF fol start] .
  have i': "i < length (g # bs)" using i by simp
  obtain mk where mk: "built hh sg n0 (take i bs) mk" "main_hashes (nd_chain mk) = take (Suc i) (main_hashes (nd_chain m))"
    using built_prefix [OF b start, of i] i by auto
  note k = built_facts [OF mk(1) start]
  have len: "length (main_hashes (nd_chain m)) = Suc (length bs)" using holdsD(6) [OF hold] n by simp
  have fk: "fin_ok f (main_hashes (nd_chain mk))"
    using f fin n i len by (auto simp: fin_ok_def mk(2))
  have ne: "node_tip n \<noteq> main_hashes (nd_chain n) ! i"
    using holds_tip(2) [OF hold] holds_distinct [OF hold] i holdsD(6) [OF hold] by (simp add: nth_eq_iff_index_eq)
  have path: "rewind_path (nd_chain n) (main_hashes (nd_chain n) ! i) = Some (Ok (g # take i bs))"
    using rewind_branch [OF hold i'] fin by (auto simp: rewind_result_def split: option.splits)
  obtain undone where und: "undone_walk (nd_chain n) (main_hashes (nd_chain n) ! i) (node_tip n) = Some undone"
    "set undone \<subseteq> set (g # bs)"
  proof -
    have "undone_walk (nd_chain n) (main_hashes (nd_chain n) ! i) (node_tip n)
        = Some (rev (drop (Suc i) (take (Suc (length bs)) (g # bs))))"
      using undone_branch [OF hold, of i "length bs"] i holds_tip(2) [OF hold] by simp
    then show thesis by (rule that) (auto dest: in_set_takeD in_set_dropD)
  qed
  have base: "rebuild_base hh n g = Some (remark (fin_of (nd_chain n0)) (nd_retained n0) (nd_log n) n0)"
  proof -
    have "config n = config n0" using cfg n by simp
    then have "rebuild_base hh n g = map_option (\<lambda>x. x\<lparr>nd_log := nd_log n\<rparr>) (rebuild_base hh n0 g)" by (rule rebuild_log)
    also have "rebuild_base hh n0 g = Some n0" using start by (simp add: start_ok_def)
    finally show ?thesis by (simp add: remark_def)
  qed
  define n1 where "n1 = remark (fin_of (nd_chain n0)) (nd_retained n0) (nd_log n) mk"
  have apps: "apply_states hh sg (take i bs) (remark (fin_of (nd_chain n0)) (nd_retained n0) (nd_log n) n0) = Some (Ok (), n1)"
    using built_fold [OF mk(1) start] by (simp add: n1_def)
  have c1: "nd_chain n1 = nd_chain mk" using k(6) by (simp add: n1_def flip: k(6))
  have pair: "finalized_pair (nd_chain n) = map_option (\<lambda>p. (fp_hash p, fp_height p)) f" by (simp add: finalized_pair_def n)
  have res: "store_restore_finalized (finalized_pair (nd_chain n)) (nd_chain n1) = Some (set_fin f (nd_chain mk))"
    unfolding pair c1 by (rule restore_branch [OF k(1) fk]) (use none k(6) in simp)
  have hh: "\<forall>x \<in> set (g # bs). hh (rb_form r) (full_header x) \<noteq> None"
  proof
    fix x assume "x \<in> set (g # bs)"
    then obtain j where "j < length (g # bs)" "x = (g # bs) ! j" by (metis in_set_conv_nth)
    then show "hh (rb_form r) (full_header x) \<noteq> None" using holds_nth(1) [OF hold, of j] r fm n by simp
  qed
  obtain r1 where r1: "retain_all hh undone r = Some r1" "rb_form r1 = rb_form r"
    using retain_all_total [of undone hh r] hh und(2) by blast
  obtain r2 where r2: "forget_all hh (take i bs) r1 = Some r2" "rb_form r2 = rb_form r"
    using forget_all_total [of "take i bs" hh r1] hh r1(2) by (auto dest: in_set_takeD)
  define n2 where "n2 = n1\<lparr>nd_chain := set_fin f (nd_chain mk), nd_retained := r2\<rparr>"
  define n3 where "n3 = n2\<lparr>nd_retained := retained_prune_below (node_tip_height n2) r2\<rparr>"
  have n3: "n3 = remark f (retained_prune_below (node_tip_height n2) r2) (nd_log n) mk"
    by (simp add: n3_def n2_def n1_def remark_def)
  have t: "node_tip n3 = node_tip n2" by (simp add: n3_def)
  have "rewind_to hh sg (main_hashes (nd_chain n) ! i) n = Some (Ok \<lparr>rr_from_height = node_tip_height n, rr_from_hash = node_tip n,
      rr_to_height = node_tip_height n3, rr_to_hash = node_tip n3\<rparr>, n3)"
    using ne path und(1) base apps res r1(1) r2(1) n
    by (simp add: rewind_to_def Let_def n2_def [symmetric] n3_def [symmetric] t)
  moreover have "follows hh sg g n0 (take i bs) mk n3"
    unfolding n3 by (rule followsI) (use mk(1) fk none r r2(2) in simp_all)
  ultimately show thesis using that n3 n mk(2) by simp
qed

text \<open>Every other case leaves the node alone.\<close>

lemma rewind_otherwise:
  assumes fol: "follows hh sg g n0 bs m n" and start: "start_ok hh g n0"
  shows "target \<notin> set (main_hashes (nd_chain n)) \<Longrightarrow> rewind_to hh sg target n = Some (Err (NodeRewind UnknownTarget), n)"
    and "i < length bs \<Longrightarrow> fin_of (nd_chain n) = Some p \<Longrightarrow> i < unat (fp_height p) \<Longrightarrow>
      rewind_to hh sg (main_hashes (nd_chain n) ! i) n = Some (Err (NodeRewind (PastFinalized (word_of_nat i) (fp_height p))), n)"
    and "rewind_to hh sg (node_tip n) n = Some (Ok \<lparr>rr_from_height = node_tip_height n, rr_from_hash = node_tip n,
      rr_to_height = node_tip_height n, rr_to_hash = node_tip n\<rparr>, n)"
proof -
  have hold: "holds hh (nd_chain n) (g # bs)" using follows_holds [OF fol start] .
  show "rewind_to hh sg (node_tip n) n = Some (Ok \<lparr>rr_from_height = node_tip_height n, rr_from_hash = node_tip n,
      rr_to_height = node_tip_height n, rr_to_hash = node_tip n\<rparr>, n)"
    by (simp add: rewind_to_def Let_def)
  show "rewind_to hh sg target n = Some (Err (NodeRewind UnknownTarget), n)" if "target \<notin> set (main_hashes (nd_chain n))"
  proof -
    have "node_tip n \<in> set (main_hashes (nd_chain n))" using holds_tip(2) [OF hold] holdsD(6) [OF hold] by simp
    then have "node_tip n \<noteq> target" using that by auto
    then show ?thesis using rewind_unknown [OF hold that] by (simp add: rewind_to_def Let_def)
  qed
  show "rewind_to hh sg (main_hashes (nd_chain n) ! i) n = Some (Err (NodeRewind (PastFinalized (word_of_nat i) (fp_height p))), n)"
    if i: "i < length bs" and p: "fin_of (nd_chain n) = Some p" "i < unat (fp_height p)"
  proof -
    have "node_tip n \<noteq> main_hashes (nd_chain n) ! i"
      using holds_tip(2) [OF hold] holds_distinct [OF hold] i holdsD(6) [OF hold] by (simp add: nth_eq_iff_index_eq)
    then show ?thesis using rewind_branch [OF hold, of i] i p by (simp add: rewind_to_def rewind_result_def Let_def)
  qed
qed

lemma follows_rewind:
  assumes fol: "follows hh sg g n0 bs m n" and start: "start_ok hh g n0" and rew: "rewind_to hh sg target n = Some (res, n')"
  shows "n' = n \<or> (\<exists>i mk. i < length bs \<and> follows hh sg g n0 (take i bs) mk n' \<and> fin_of (nd_chain n') = fin_of (nd_chain n)
    \<and> nd_log n' = nd_log n \<and> target = main_hashes (nd_chain n) ! i)"
proof (cases "target \<in> set (main_hashes (nd_chain n))")
  case False
  then show ?thesis using rewind_otherwise(1) [OF fol start] rew by simp
next
  case True
  have hold: "holds hh (nd_chain n) (g # bs)" using follows_holds [OF fol start] .
  obtain i where i: "i \<le> length bs" "target = main_hashes (nd_chain n) ! i"
    using True holdsD(6) [OF hold] by (auto simp: in_set_conv_nth less_Suc_eq_le)
  show ?thesis
  proof (cases "i = length bs")
    case True
    then show ?thesis using rewind_otherwise(3) [OF fol start] rew i(2) holds_tip(2) [OF hold] by simp
  next
    case False
    then have lt: "i < length bs" using i(1) by simp
    show ?thesis
    proof (cases "\<forall>p. fin_of (nd_chain n) = Some p \<longrightarrow> unat (fp_height p) \<le> i")
      case True
      obtain mk n1 where "rewind_to hh sg target n = Some (Ok \<lparr>rr_from_height = node_tip_height n, rr_from_hash = node_tip n,
          rr_to_height = node_tip_height n1, rr_to_hash = node_tip n1\<rparr>, n1)" "follows hh sg g n0 (take i bs) mk n1"
          "fin_of (nd_chain n1) = fin_of (nd_chain n)" "nd_log n1 = nd_log n"
        using rewind_follows [OF fol start lt True] i(2) by metis
      then show ?thesis using rew lt i(2) by auto
    next
      case False
      then show ?thesis using rewind_otherwise(2) [OF fol start lt] rew i(2) by fastforce
    qed
  qed
qed

section \<open>Reachable nodes follow their chain\<close>

lemma riders_decode: "riders_valid view h pending rs \<Longrightarrow> r \<in> set rs \<Longrightarrow> \<exists>op. decode_rider r = Ok op"
  by (induction rs arbitrary: pending) (auto split: sum.splits option.splits)

lemma validate_txs_riders:
  "validate_txs rule h verify_tx fin view recorded i seen pending ts = Some (Ok ()) \<Longrightarrow> t \<in> set ts \<Longrightarrow> \<exists>op. decode_rider (rider t) = Ok op"
  unfolding validate_txs_iff using riders_decode by fastforce

lemma body_form_riders:
  "validate_body_form sg rule h b verify_tx fin view = Some (Ok ()) \<Longrightarrow> t \<in> set (txs b) \<Longrightarrow> \<exists>op. decode_rider (rider t) = Ok op"
  unfolding validate_body_form_def by (auto simp: and_then_Ok split: if_splits dest: validate_txs_riders)

lemma node_err_Ok: "node_err r = Some (Ok v) \<longleftrightarrow> r = Some (Ok v)"
proof (cases r)
  case (Some x)
  then show ?thesis by (cases x) (simp_all add: node_err_def)
qed (simp add: node_err_def)

lemma gated_riders:
  assumes "validate_gated hh sg h b verify_tx gate n = Some (Ok ())" and "t \<in> set (txs b)"
  shows "\<exists>op. decode_rider (rider t) = Ok op"
proof -
  have "\<exists>rule fin view. validate_body_form sg rule h b verify_tx fin view = Some (Ok ())"
    using assms(1) unfolding validate_gated_def validate_block_v6_def validate_body_v6_def validate_body_with_names_def validate_body_above_def
      validate_body_v5_def validate_body_v5_above_def
    by (auto simp: node_err_Ok split: if_splits genesis_form.splits option.splits)
  then show ?thesis using body_form_riders assms(2) by blast
qed

lemma annulet_riders:
  "validate_txs_annulet lib h verify_tx fin fees ctx pre_root i seen ts = Some (Ok ()) \<Longrightarrow> t \<in> set ts \<Longrightarrow> rider t = rider_absent"
proof (induction ts arbitrary: i seen)
  case (Cons x ts)
  from Cons.prems(1) have "rider x = rider_absent"
    "\<exists>seen'. validate_txs_annulet lib h verify_tx fin fees ctx pre_root (Suc i) seen' ts = Some (Ok ())"
    by (auto simp: and_then_Ok Let_def split: if_splits sum.splits option.splits)
  with Cons show ?case by auto
qed simp

lemma annulet_body_riders:
  assumes "validate_body_annulet_for lib h b verify_tx fin fees ctx = Some (Ok ())" and "t \<in> set (txs b)"
  shows "\<exists>op. decode_rider (rider t) = Ok op"
proof -
  have "rider t = rider_absent"
    using assms unfolding validate_body_annulet_for_def
    by (auto simp: and_then_Ok split: if_splits option.splits dest: annulet_riders)
  then show ?thesis by (simp add: rider_absent_def decode_rider_def)
qed

text \<open>A block at the tip: refused without a trace, or one more step of the fold.\<close>

lemma gated_step:
  assumes fol: "follows hh sg g n0 bs m n" and start: "start_ok hh g n0" and sane: "sane_header (nd_form n0) h"
    and app: "apply_block_gated hh sg h b verify_tx gate n = Some (res, n')"
  shows "(\<exists>e. res = Err e \<and> n' = n) \<or>
    (\<exists>hash block m' n1. res = Ok hash \<and> from_parts h b = Some block \<and> sb_prev block = node_tip n
      \<and> validate_gated hh sg h b verify_tx gate n = Some (Ok ()) \<and> apply_state hh sg block n = Some (Ok hash, n1)
      \<and> apply_state hh sg block m = Some (Ok hash, m') \<and> follows hh sg g n0 (bs @ [block]) m' n1 \<and> n' = append_log [LogBlock block] n1)"
proof (cases "prev h = node_tip n \<and> validate_gated hh sg h b verify_tx gate n = Some (Ok ())")
  case True
  then obtain block where block: "from_parts h b = Some block" using app by (auto simp: apply_block_gated_def split: option.splits)
  have hd: "full_header block = h" using from_parts_header [OF block] by simp
  have prev: "sb_prev block = node_tip n" using full_header_sel(2) [of block] hd True by simp
  have riders: "\<forall>t \<in> set (sb_txs block). \<exists>op. decode_rider (st_rider t) = Ok op"
    using gated_riders True from_parts_txs [OF block] by (auto simp: stored_tx_of_def)
  obtain r1 n1 where st: "apply_state hh sg block n = Some (r1, n1)"
    using app True block by (auto simp: apply_block_gated_def split: option.splits)
  have sane': "sane_header (nd_form n0) (full_header block)" using sane hd by simp
  show ?thesis
  proof (cases r1)
    case (Inl e)
    then have "n1 = n" using follows_apply_Err [OF fol start prev sane'] st riders by blast
    then have "res = Err e \<and> n' = n" using app True block st Inl by (simp add: apply_block_gated_def)
    then show ?thesis by blast
  next
    case (Inr hash)
    then have "res = Ok hash" "n' = append_log [LogBlock block] n1"
      using app True block st by (simp_all add: apply_block_gated_def)
    then show ?thesis using follows_apply [OF fol start prev sane' st] True block st prev Inr by auto
  qed
next
  case False
  then show ?thesis using app by (auto simp: apply_block_gated_def split: if_splits option.splits sum.splits)
qed

lemma sealed_step:
  assumes fol: "follows hh sg g n0 bs m n" and start: "start_ok hh g n0" and sane: "sane_header (nd_form n0) (sl_header sealed)"
    and app: "apply_sealed_block hh sg lib sealed b verify_tx n = Some (res, n')"
  shows "(\<exists>e. res = Err e \<and> n' = n) \<or>
    (\<exists>hash block m' n1 s. res = Ok hash \<and> nd_form n = Annulet \<and> from_sealed_parts sealed b = Some block \<and> sb_prev block = node_tip n
      \<and> apply_state hh sg block n = Some (Ok hash, n1)
      \<and> apply_state hh sg block m = Some (Ok hash, m') \<and> follows hh sg g n0 (bs @ [block]) m' n1
      \<and> store_set_finalized hash (nd_chain n1) = Some (Ok (), s) \<and> follows hh sg g n0 (bs @ [block]) m' (n1\<lparr>nd_chain := s\<rparr>)
      \<and> n' = append_log [LogBlock block, LogFinalize hash] (n1\<lparr>nd_chain := s\<rparr>))"
proof (cases "\<exists>fees. nd_form n = Annulet \<and> nd_fees n = Some fees \<and> prev (sl_header sealed) = node_tip n
    \<and> check_registry_parent n (sl_header sealed) b = Ok ()
    \<and> validate_body_annulet_for lib (sl_header sealed) b verify_tx (is_valid_anchor n) fees (nd_auth n) = Some (Ok ())")
  case True
  then obtain fees where t: "nd_form n = Annulet" "nd_fees n = Some fees" "prev (sl_header sealed) = node_tip n"
    "check_registry_parent n (sl_header sealed) b = Ok ()"
    "validate_body_annulet_for lib (sl_header sealed) b verify_tx (is_valid_anchor n) fees (nd_auth n) = Some (Ok ())" by blast
  then obtain block where block: "from_sealed_parts sealed b = Some block"
    using app by (auto simp: apply_sealed_block_def Let_def split: option.splits)
  have hd: "full_header block = sl_header sealed" using from_sealed_header [OF block] by simp
  have prev: "sb_prev block = node_tip n" using full_header_sel(2) [of block] hd t(3) by simp
  have riders: "\<forall>t \<in> set (sb_txs block). \<exists>op. decode_rider (st_rider t) = Ok op"
    using annulet_body_riders [OF t(5)] from_sealed_txs [OF block] by (auto simp: stored_tx_of_def)
  obtain r1 n1 where st: "apply_state hh sg block n = Some (r1, n1)"
    using app t block by (auto simp: apply_sealed_block_def Let_def split: option.splits)
  have sane': "sane_header (nd_form n0) (full_header block)" using sane hd by simp
  show ?thesis
  proof (cases r1)
    case (Inl e)
    then have "n1 = n" using follows_apply_Err [OF fol start prev sane'] st riders by blast
    then have "res = Err e \<and> n' = n" using app t block st Inl by (simp add: apply_sealed_block_def Let_def)
    then show ?thesis by blast
  next
    case (Inr hash)
    obtain m' where m': "apply_state hh sg block m = Some (Ok hash, m')" "follows hh sg g n0 (bs @ [block]) m' n1"
      "main_hashes (nd_chain n1) = main_hashes (nd_chain n) @ [hash]" "fin_of (nd_chain n1) = fin_of (nd_chain n)"
      using follows_apply [OF fol start prev sane' st] Inr by auto
    note hold = follows_holds [OF fol start] and hold1 = follows_holds [OF m'(2) start]
    have i: "length (g # bs) < length (g # bs @ [block])" by simp
    have hash: "main_hashes (nd_chain n1) ! length (g # bs) = hash" using m'(3) holdsD(6) [OF hold] by (simp add: nth_append)
    have "fst (mark_result (fin_of (nd_chain n1)) (main_hashes (nd_chain n1)) (length (g # bs))) = Ok ()"
      using holds_fin_ok [OF hold] holdsD(6) [OF hold] m'(4) by (auto simp: mark_result_def fin_ok_def split: option.splits)
    then obtain s where s: "store_set_finalized hash (nd_chain n1) = Some (Ok (), s)"
      using mark_branch(1) [OF hold1 i] hash by auto
    have "res = Ok hash" "n' = append_log [LogBlock block, LogFinalize hash] (n1\<lparr>nd_chain := s\<rparr>)"
      using app t block st Inr s by (simp_all add: apply_sealed_block_def Let_def)
    then show ?thesis using m'(1,2) s follows_mark(1) [OF m'(2) start s] block st prev t(1) Inr by blast
  qed
next
  case False
  then show ?thesis using app
    by (auto simp: apply_sealed_block_def Let_def split: if_splits option.splits sum.splits genesis_form.splits)
qed

lemma reach_follows:
  assumes "reach hh sg lib n0 n" and "start_ok hh g n0"
  shows "\<exists>bs m. follows hh sg g n0 bs m n"
  using assms
proof (induction rule: reach.induct)
  case Reach_Start
  have "follows hh sg g n0 [] n0 (remark (fin_of (nd_chain n0)) (nd_retained n0) (nd_log n0) n0)"
    using Reach_Start holds_fin_ok by (intro followsI built.Built_Start) (auto simp: start_ok_def retained_new_def)
  then show ?case unfolding remark_id by blast
next
  case (Reach_Block n h b verify_tx gate r n')
  then obtain bs m where f: "follows hh sg g n0 bs m n" by blast
  from gated_step [OF f Reach_Block(5) Reach_Block(2,3)] show ?case using f follows_log by blast
next
  case (Reach_Sealed n sealed b verify_tx r1 n')
  then obtain bs m where f: "follows hh sg g n0 bs m n" by blast
  from sealed_step [OF f Reach_Sealed(5) Reach_Sealed(2,3)] show ?case using f follows_log by blast
next
  case (Reach_Finalize n hash r2 n')
  then obtain bs m where f: "follows hh sg g n0 bs m n" by blast
  obtain res s where s: "store_set_finalized hash (nd_chain n) = Some (res, s)"
    using Reach_Finalize(2) by (auto simp: finalize_def split: option.splits)
  note mk = follows_mark(1) [OF f Reach_Finalize(4) s]
  from mk follows_log [OF mk] show ?case using Reach_Finalize(2) s by (auto simp: finalize_def split: sum.splits)
next
  case (Reach_Rewind n target r3 n')
  then obtain bs m where f: "follows hh sg g n0 bs m n" by blast
  from follows_rewind [OF f Reach_Rewind(4) Reach_Rewind(2)] show ?case using f by blast
qed

end
