(* ===== verification/Node_Facts.thy ===== *)
theory Node_Facts
  imports Node_Run
begin

text \<open>
  The properties of the node's state machine: what a node opened from a genesis (\<open>opened\<close>) holds after any
  sequence of blocks, sealed blocks, finalizations and rewinds (\<open>reach\<close>): its state is the fold of its chain,
  a rewind and a restart land on that fold, a refusal changes nothing, no nullifier is spent twice, every
  recorded root is the Merkle root of the commitments at its height, and the anchor gates are the scans
  of the recorded roots they stand for.
\<close>

section \<open>Nodes opened from a genesis\<close>

inductive opened :: "header_hash \<Rightarrow> stored_block \<Rightarrow> 'k node \<Rightarrow> bool" for hh where
  Open_L1: "open_l1 hh fm g lg = Some n0 \<Longrightarrow> opened hh g n0"
| Open_V6: "open_v6 hh g v6 lg = Some n0 \<Longrightarrow> opened hh g n0"
| Open_Annulet: "annulet_genesis hdr = Some g \<Longrightarrow> open_annulet hh hdr notes fees leaves ctx lg = Some n0 \<Longrightarrow> opened hh g n0"

definition clean_start :: "'k node \<Rightarrow> bool" where
  "clean_start n0 \<longleftrightarrow>
    nd_nullifiers n0 = {} \<and> nd_nullifiers_ordered n0 = [] \<and> wf_tree (nd_commitments n0)
    \<and> ct_leaves (nd_commitments n0) = map digest_from_bytes (nd_commitments_ordered n0)
    \<and> nd_roots_by_height n0 = [(0, node_root n0)] \<and> nd_anchor_heights n0 = [node_root n0 \<mapsto> [0]]
    \<and> (nd_form n0 = Annulet \<longrightarrow> nd_sections n0 = NoSections)"

lemma tree_append_Some:
  assumes "tree_append c t = Some (i, t')" and "wf_tree t"
  shows "wf_tree t' \<and> ct_leaves t' = ct_leaves t @ [c]"
proof -
  have "length (ct_leaves t) < 2 ^ tree_depth" using assms(1) by (auto simp: tree_append_def Let_def split: if_splits)
  then show ?thesis using wf_tree_append [OF assms(2), of c] assms(1) by auto
qed

lemma append_run_wf:
  assumes "append_run cs t = Some t'" and "wf_tree t"
  shows "wf_tree t' \<and> ct_leaves t' = ct_leaves t @ map digest_from_bytes cs"
  using assms
proof (induction cs arbitrary: t)
  case (Cons c cs)
  from Cons.prems(1) obtain i t1 where t1: "tree_append (digest_from_bytes c) t = Some (i, t1)" "append_run cs t1 = Some t'"
    by (auto simp: tree_append_bytes_def split: option.splits)
  then show ?case using Cons.IH [OF t1(2)] tree_append_Some [OF t1(1) Cons.prems(2)] by simp
qed simp

lemma clean_l1:
  assumes "open_l1 hh fm g lg = Some n"
  shows "clean_start n"
proof -
  have b: "from_bound_genesis hh fm NoSections g lg = Some n"
    using assms from_genesis_bound by (auto simp: open_l1_def)
  show ?thesis using bound_genesis_sel [OF b] wf_tree_new by (simp add: clean_start_def tree_new_def)
qed

lemma clean_v6:
  assumes "open_v6 hh g v6 lg = Some n"
  shows "clean_start n"
proof -
  obtain m where fg: "from_genesis hh V5 V6 g lg = Some m" and n: "n = install_v6 (Some v6) m" using assms by (auto simp: open_v6_def)
  show ?thesis using bound_genesis_sel [OF from_genesis_bound [OF fg]] wf_tree_new
    by (simp add: clean_start_def n install_v6_def node_root_def tree_new_def)
qed

lemma clean_annulet:
  assumes "open_annulet hh g notes fees leaves ctx lg = Some n" and "annulet_genesis g = Some block"
  shows "clean_start n"
proof -
  obtain st where fg: "from_genesis_with hh Annulet NoSections block lg (Some st) = Some n"
    using assms by (auto simp: open_annulet_def split: if_splits sum.splits option.splits)
  show ?thesis
  proof (rule annulet_genesis_sel [OF fg])
    fix n1 t
    assume n1: "from_bound_genesis hh Annulet NoSections block lg = Some n1" and t: "append_run (an_genesis_cms st) tree_new = Some t"
      and n: "n = n1\<lparr>nd_chain := set_fin (Some \<lparr>fp_hash = main_hashes (nd_chain n1) ! 0, fp_height = 0\<rparr>) (nd_chain n1),
       nd_commitments := t, nd_commitments_ordered := an_genesis_cms st,
       nd_roots_by_height := [(0, digest_bytes (ct_root t))], nd_anchor_heights := [digest_bytes (ct_root t) \<mapsto> [0]],
       nd_fees := Some (an_fees st), nd_auth := an_auth st, nd_registry := Some (an_registry st),
       nd_registry_genesis := Some (an_registry st), nd_genesis_supply := an_genesis_supply st,
       nd_annulet_genesis_cms := an_genesis_cms st, nd_outstanding := an_genesis_supply st\<rparr>"
    have "ct_leaves tree_new = []" by (simp add: tree_new_def)
    then show ?thesis using append_run_wf [OF t wf_tree_new] bound_genesis_sel [OF n1]
      unfolding n clean_start_def node_root_def by simp
  qed
qed

lemma opened_start: "opened hh g n0 \<Longrightarrow> start_ok hh g n0"
  by (induction rule: opened.induct) (auto intro: start_l1 start_v6 start_annulet)

lemma opened_clean: "opened hh g n0 \<Longrightarrow> clean_start n0"
  by (induction rule: opened.induct) (auto intro: clean_l1 clean_v6 clean_annulet)

section \<open>What the fold accumulates\<close>

lemma scan_Ok:
  "scan_nullifiers spent i seen nfss = Ok seen' \<Longrightarrow> distinct seen \<Longrightarrow> set seen \<inter> spent = {}
    \<Longrightarrow> distinct (seen @ concat nfss) \<and> set (concat nfss) \<inter> spent = {}"
  by (induction spent i seen nfss rule: scan_nullifiers.induct) (auto split: if_splits)

lemma state_checks_scan:
  assumes "state_checks sg n b = Some (Ok fx)"
  shows "distinct (block_nullifiers (sb_txs b))" and "set (block_nullifiers (sb_txs b)) \<inter> nd_nullifiers n = {}"
proof -
  obtain seen where "scan_nullifiers (nd_nullifiers n) 0 [] (map st_nullifiers (sb_txs b)) = Ok seen"
    using assms unfolding state_checks_def by (auto simp: and_then_Ok)
  from scan_Ok [OF this] show "distinct (block_nullifiers (sb_txs b))" "set (block_nullifiers (sb_txs b)) \<inter> nd_nullifiers n = {}"
    by (simp_all add: block_nullifiers_def)
qed

text \<open>The anchor index of a node with the recorded roots \<open>rs\<close>, one for each height from the genesis up.\<close>

definition indexed :: "'k node \<Rightarrow> hash32 list \<Rightarrow> bool" where
  "indexed n rs \<longleftrightarrow>
    nd_roots_by_height n = map (\<lambda>(i, r). (word_of_nat i, r)) (enumerate 0 rs)
    \<and> (\<forall>r. nd_anchor_heights n r = (if r \<in> set rs then Some (map (\<lambda>(i, _). word_of_nat i) (filter (\<lambda>(_, x). x = r) (enumerate 0 rs))) else None))"

definition holds_contents :: "stored_block list \<Rightarrow> 'k node \<Rightarrow> bool" where
  "holds_contents bs m \<longleftrightarrow>
    nd_nullifiers_ordered m = concat (map (block_nullifiers \<circ> sb_txs) bs) \<and> distinct (nd_nullifiers_ordered m)
    \<and> nd_nullifiers m = set (nd_nullifiers_ordered m)
    \<and> wf_tree (nd_commitments m) \<and> ct_leaves (nd_commitments m) = map digest_from_bytes (nd_commitments_ordered m)"

lemma bt_insert_last: "\<forall>(k', v') \<in> set m. k' < k \<Longrightarrow> bt_insert k v m = m @ [(k, v)]"
  by (induction k v m rule: bt_insert.induct) auto

lemma indexed_extend:
  assumes "indexed n rs" and "h = word_of_nat (length rs)" and "length rs < 2 ^ 64"
    and "nd_roots_by_height n' = bt_insert h r (nd_roots_by_height n)"
    and "nd_anchor_heights n' = (nd_anchor_heights n)(r \<mapsto> node_root_heights n r @ [h])"
  shows "indexed n' (rs @ [r])"
proof -
  have below: "(word_of_nat i :: u64) < word_of_nat (length rs)" if "i < length rs" for i
    using that assms(3) by (subst word_less_nat_alt) (simp add: unat_of_nat_len)
  have "nd_roots_by_height n' = map (\<lambda>(i, r). (word_of_nat i, r)) (enumerate 0 rs) @ [(h, r)]"
    unfolding assms(4) using assms(1,2) below by (subst bt_insert_last) (auto simp: indexed_def in_set_enumerate_eq)
  then show ?thesis using assms(1,2)
    by (simp add: indexed_def enumerate_append_eq assms(5) node_root_heights_def)
      (auto simp: in_set_enumerate_eq filter_empty_conv dest: nth_mem)
qed

lemma built_contents:
  assumes "built hh sg n0 bs m" and "start_ok hh g n0" and "clean_start n0"
  shows "holds_contents bs m"
  using assms
proof (induction rule: built.induct)
  case Built_Start
  then show ?case by (simp add: clean_start_def holds_contents_def)
next
  case (Built_Block bs m b hash m')
  note f = built_facts [OF Built_Block(1) Built_Block(6)]
  have sane: "sane_header (form (ms_chain (nd_chain m))) (full_header b)" using Built_Block(3) f(2) by simp
  show ?case
  proof (rule apply_state_Ok [OF f(1) Built_Block(2) sane Built_Block(4)])
    fix fx t reg
    assume fx: "state_checks sg m b = Some (Ok fx)" and t: "append_run (new_commitments b fx) (nd_commitments m) = Some t"
      and m': "m' = settle_effects hash b fx ((with_contents b fx t (store_extend hash b (nd_chain m)) m)\<lparr>nd_names := reg\<rparr>)"
    have "wf_tree (nd_commitments m)" using Built_Block by (simp add: holds_contents_def)
    from append_run_wf [OF t this] state_checks_scan [OF fx] show ?thesis
      using Built_Block by (auto simp: m' with_contents_def holds_contents_def)
  qed
qed

lemma built_indexed:
  assumes "built hh sg n0 bs m" and "start_ok hh g n0" and "clean_start n0"
  shows "\<exists>rs. indexed m rs \<and> length rs = Suc (length bs)
    \<and> (\<forall>k \<le> length bs. \<exists>mk. built hh sg n0 (take k bs) mk \<and> rs ! k = node_root mk)"
  using assms
proof (induction rule: built.induct)
  case Built_Start
  then show ?case by (intro exI [of _ "[node_root n0]"]) (auto simp: clean_start_def indexed_def intro: built.intros)
next
  case (Built_Block bs m b hash m')
  note f = built_facts [OF Built_Block(1) Built_Block(6)]
  have sane: "sane_header (form (ms_chain (nd_chain m))) (full_header b)" using Built_Block(3) f(2) by simp
  obtain rs where rs: "indexed m rs" "length rs = Suc (length bs)"
    "\<And>k. k \<le> length bs \<Longrightarrow> \<exists>mk. built hh sg n0 (take k bs) mk \<and> rs ! k = node_root mk"
    using Built_Block.IH [OF Built_Block.prems] by blast
  have root: "nd_commitments m' = nd_commitments x \<Longrightarrow> node_root m' = node_root x" for x :: "'a node" by (simp add: node_root_def)
  show ?case
  proof (rule apply_state_Ok [OF f(1) Built_Block(2) sane Built_Block(4)])
    fix fx t reg
    define x where "x = (with_contents b fx t (store_extend hash b (nd_chain m)) m)\<lparr>nd_names := reg\<rparr>"
    assume "m' = settle_effects hash b fx ((with_contents b fx t (store_extend hash b (nd_chain m)) m)\<lparr>nd_names := reg\<rparr>)"
    then have m': "m' = settle_effects hash b fx x" by (simp add: x_def)
    have h: "sb_height b = word_of_nat (length rs)"
      using built_hashes(3) [OF Built_Block(1) Built_Block(6) Built_Block(2-4)] rs(2) by simp
    have len: "length rs < 2 ^ 64" using holdsD(4) [OF f(1)] rs(2) by simp
    have x: "nd_roots_by_height x = nd_roots_by_height m" "nd_anchor_heights x = nd_anchor_heights m"
      by (simp_all add: x_def with_contents_def)
    have "indexed m' (rs @ [node_root x])"
      by (rule indexed_extend [OF rs(1) h len]) (simp_all add: m' settle_eq x node_root_heights_def)
    moreover have "node_root x = node_root m'" by (simp add: m' node_root_def)
    ultimately have "indexed m' (rs @ [node_root m'])" by simp
    moreover have "\<exists>mk. built hh sg n0 (take k (bs @ [b])) mk \<and> (rs @ [node_root m']) ! k = node_root mk" if "k \<le> Suc (length bs)" for k
    proof (cases "k \<le> length bs")
      case True
      then show ?thesis using rs(2) rs(3) [OF True] by (simp add: nth_append)
    next
      case False
      then have "k = Suc (length bs)" using that by simp
      then show ?thesis using rs(2) built.Built_Block [OF Built_Block(1-4)] by (intro exI [of _ m']) (simp add: nth_append)
    qed
    ultimately show ?thesis using rs(2) by (intro exI [of _ "rs @ [node_root m']"]) simp
  qed
qed

section \<open>The chain of a node\<close>

definition chain_blocks :: "'k node \<Rightarrow> stored_block list" where
  "chain_blocks n = map (\<lambda>h. the (store_block (nd_chain n) h)) (main_hashes (nd_chain n))"

lemma holds_blocks:
  assumes "holds hh (nd_chain n) bs"
  shows "chain_blocks n = bs"
  unfolding chain_blocks_def using holds_nth(2) [OF assms] holdsD(6) [OF assms] by (intro nth_equalityI) simp_all

lemma follows_blocks: "follows hh sg g n0 bs m n \<Longrightarrow> start_ok hh g n0 \<Longrightarrow> chain_blocks n = g # bs"
  using holds_blocks follows_holds by blast

lemma follows_fold:
  assumes "follows hh sg g n0 bs m n" and "start_ok hh g n0"
  shows "apply_states hh sg bs n0 = Some (Ok (), m)" and "n = remark (fin_of (nd_chain n)) (nd_retained n) (nd_log n) m"
proof -
  have b: "built hh sg n0 bs m" using assms(1) by (simp add: follows_def)
  note f = built_facts [OF b assms(2)]
  show "apply_states hh sg bs n0 = Some (Ok (), m)"
    using built_fold [OF b assms(2), of "nd_log n0"] remark_id [of m] remark_id [of n0] f(4-6) by simp
qed (use assms(1) in \<open>simp add: follows_def\<close>)

lemma follows_tip_height:
  assumes "follows hh sg g n0 bs m n" and "start_ok hh g n0"
  shows "node_tip_height n = word_of_nat (length bs)"
  using holds_tip_height [OF follows_holds [OF assms]] by (simp add: node_tip_height_def)

section \<open>Restarting from the log\<close>

lemma follows_same_chain:
  assumes "follows hh sg g n0 bs m n" and "follows hh sg g n0 bs m' n'" and "fin_of (nd_chain n') = fin_of (nd_chain n)"
  shows "m' = m" and "nd_chain n' = nd_chain n"
proof -
  have "built hh sg n0 bs m" "built hh sg n0 bs m'" using assms(1,2) by (simp_all add: follows_def)
  then show m: "m' = m" using built_inject by blast
  have "nd_chain n = set_fin (fin_of (nd_chain n)) (nd_chain m)" using assms(1) remark_sel(1) unfolding follows_def by metis
  moreover have "nd_chain n' = set_fin (fin_of (nd_chain n')) (nd_chain m)"
    using assms(2) remark_sel(1) unfolding follows_def m by metis
  ultimately show "nd_chain n' = nd_chain n" using assms(3) by metis
qed

lemma follows_hashes_prefix:
  assumes "follows hh sg g n0 bs m n" and "follows hh sg g n0 (take k bs) m' n'" and "start_ok hh g n0" and "k \<le> length bs"
  shows "main_hashes (nd_chain n') = take (Suc k) (main_hashes (nd_chain n))"
proof -
  obtain f r l where n: "n = remark f r l m" "built hh sg n0 bs m" using assms(1) unfolding follows_iff by blast
  obtain f' r' l' where n': "n' = remark f' r' l' m'" "built hh sg n0 (take k bs) m'" using assms(2) unfolding follows_iff by blast
  obtain mk where "built hh sg n0 (take k bs) mk" "main_hashes (nd_chain mk) = take (Suc k) (main_hashes (nd_chain m))"
    using built_prefix [OF n(2) assms(3,4)] .
  moreover from this n'(2) have "m' = mk" using built_inject by blast
  ultimately show ?thesis by (simp add: n n')
qed

text \<open>\<open>behind n R\<close>: the replayed node \<open>R\<close> stands on the branch of \<open>n\<close> or on an extension of it a rewind undid.\<close>

definition behind :: "header_hash \<Rightarrow> ('k, 's) sig_scheme \<Rightarrow> stored_block \<Rightarrow> 'k node \<Rightarrow> 'k node \<Rightarrow> 'k node \<Rightarrow> bool" where
  "behind hh sg g n0 n R \<longleftrightarrow>
    (\<exists>bs m k m'. follows hh sg g n0 (take k bs) m n \<and> follows hh sg g n0 bs m' R \<and> k \<le> length bs
      \<and> fin_of (nd_chain R) = fin_of (nd_chain n))"

text \<open>The rewind that brings the replayed node back to the node's tip.\<close>

lemma behind_rewind:
  assumes "behind hh sg g n0 n R" and start: "start_ok hh g n0"
  obtains rep N bs m where "rewind_to hh sg (node_tip n) R = Some (Ok rep, N)" "follows hh sg g n0 bs m n" "follows hh sg g n0 bs m N"
    "fin_of (nd_chain N) = fin_of (nd_chain n)" "nd_log N = nd_log R" "nd_chain N = nd_chain n"
proof -
  obtain bs m k m' where f: "follows hh sg g n0 (take k bs) m n" "follows hh sg g n0 bs m' R" "k \<le> length bs"
    "fin_of (nd_chain R) = fin_of (nd_chain n)" using assms(1) unfolding behind_def by blast
  have hs: "main_hashes (nd_chain n) = take (Suc k) (main_hashes (nd_chain R))"
    using follows_hashes_prefix [OF f(2,1) start f(3)] .
  have len: "length (main_hashes (nd_chain R)) = Suc (length bs)" using holdsD(6) [OF follows_holds [OF f(2) start]] by simp
  have tip: "node_tip n = main_hashes (nd_chain R) ! k"
    using holds_tip(2) [OF follows_holds [OF f(1) start]] hs f(3) len by simp
  show thesis
  proof (cases "k = length bs")
    case True
    then have same: "m' = m" "nd_chain R = nd_chain n" using follows_same_chain [of hh sg g n0 bs m n m' R] f by simp_all
    show thesis
      by (rule that [of _ R, OF _ f(1)]) (use rewind_otherwise(3) [OF f(2) start] same f(2,4) True in simp_all)
  next
    case False
    then have lt: "k < length bs" using f(3) by simp
    have "fin_ok (fin_of (nd_chain n)) (main_hashes (nd_chain n))" using holds_fin_ok [OF follows_holds [OF f(1) start]] .
    then have "\<forall>p. fin_of (nd_chain R) = Some p \<longrightarrow> unat (fp_height p) \<le> k" using f(4) hs len by (auto simp: fin_ok_def)
    from rewind_follows [OF f(2) start lt this] obtain mk N where N: "rewind_to hh sg (node_tip n) R =
        Some (Ok \<lparr>rr_from_height = node_tip_height R, rr_from_hash = node_tip R, rr_to_height = node_tip_height N, rr_to_hash = node_tip N\<rparr>, N)"
      "follows hh sg g n0 (take k bs) mk N" "fin_of (nd_chain N) = fin_of (nd_chain R)" "nd_log N = nd_log R"
      unfolding tip by metis
    have "fin_of (nd_chain N) = fin_of (nd_chain n)" using N(3) f(4) by simp
    note same = follows_same_chain [OF f(1) N(2) this]
    show thesis by (rule that [OF N(1) f(1)]) (use N f(4) same in simp_all)
  qed
qed

text \<open>A block the node applied, replayed.\<close>

lemma behind_block:
  assumes beh: "behind hh sg g n0 n R" and start: "start_ok hh g n0" and fol: "follows hh sg g n0 bs m n"
    and prev: "sb_prev b = node_tip n" and sane: "sane_header (nd_form n0) (full_header b)"
    and app: "apply_state hh sg b m = Some (Ok hash, m')"
  obtains R0 R1 where "(if sb_height b > 0 \<and> sb_prev b \<noteq> node_tip R
           then map_option (\<lambda>(r, n1). (case r of Inl e \<Rightarrow> Err e | Inr _ \<Rightarrow> Ok (), n1)) (rewind_to hh sg (sb_prev b) R)
           else Some (Ok (), R)) = Some (Ok (), R0)" "apply_state hh sg b R0 = Some (Ok hash, R1)" "follows hh sg g n0 (bs @ [b]) m' R1"
    "fin_of (nd_chain R1) = fin_of (nd_chain n)" "nd_form R1 = nd_form n0" "nd_log R1 = nd_log R"
proof (rule behind_rewind [OF beh start])
  fix rep N bs' m1
  assume rew: "rewind_to hh sg (node_tip n) R = Some (Ok rep, N)" and f': "follows hh sg g n0 bs' m1 n" and N: "follows hh sg g n0 bs' m1 N"
    and fin: "fin_of (nd_chain N) = fin_of (nd_chain n)" and lg: "nd_log N = nd_log R" and ch: "nd_chain N = nd_chain n"
  have bs: "bs' = bs" using follows_blocks [OF fol start] follows_blocks [OF f' start] by simp
  then have m1: "m1 = m" using follows_same_chain(1) [OF fol, of m1 n] f' by simp
  have b: "built hh sg n0 bs m" using fol by (simp add: follows_def)
  have tip: "node_tip n = node_tip m" using follows_fold(2) [OF fol start] remark_sel(1) by (metis set_fin_sel(3))
  have prev': "sb_prev b = node_tip m" using prev tip by simp
  have "sb_height b = word_of_nat (Suc (length bs))" using built_hashes(3) [OF b start prev' sane app] .
  moreover have "Suc (length bs) < 2 ^ 64" using holdsD(4) [OF built_facts(1) [OF b start]] by simp
  ultimately have "unat (sb_height b) = Suc (length bs)" by (simp add: unat_of_nat_len del: of_nat_Suc)
  then have pos: "sb_height b > 0" by (metis Zero_not_Suc unat_0 word_gt_0)
  define R0 where "R0 = (if sb_prev b \<noteq> node_tip R then N else R)"
  have R0: "follows hh sg g n0 bs m R0 \<and> nd_chain R0 = nd_chain n \<and> nd_log R0 = nd_log R"
  proof (cases "sb_prev b = node_tip R")
    case True
    then have "N = R" using rewind_otherwise(3) rew prev by (simp add: rewind_to_def Let_def)
    then show ?thesis using N ch bs m1 by (simp add: R0_def)
  qed (use N ch lg bs m1 in \<open>simp add: R0_def\<close>)
  have step: "(if sb_height b > 0 \<and> sb_prev b \<noteq> node_tip R
           then map_option (\<lambda>(r, n1). (case r of Inl e \<Rightarrow> Err e | Inr _ \<Rightarrow> Ok (), n1)) (rewind_to hh sg (sb_prev b) R)
           else Some (Ok (), R)) = Some (Ok (), R0)"
    using rew prev pos by (simp add: R0_def)
  have prev0: "sb_prev b = node_tip R0" using R0 prev by simp
  show thesis
  proof (rule followsE [OF conjunct1 [OF R0] start])
    fix f r lg
    assume n: "R0 = remark f r lg m" and f: "fin_ok f (main_hashes (nd_chain m))" and hold: "holds hh (nd_chain m) (g # bs)"
      and fm: "form (ms_chain (nd_chain m)) = nd_form n0"
    have "sane_header (form (ms_chain (nd_chain m))) (full_header b)" using sane fm by simp
    from apply_state_remark [OF hold prev' f this, of sg r lg] app obtain R1 where R1: "apply_state hh sg b R0 = Some (Ok hash, R1)"
      unfolding n by auto
    from follows_apply [OF conjunct1 [OF R0] start prev0 sane R1] app
    have g: "follows hh sg g n0 (bs @ [b]) m' R1" "fin_of (nd_chain R1) = fin_of (nd_chain R0)" "nd_log R1 = nd_log R0" by auto
    have "nd_form R1 = nd_form n0" by (rule followsE [OF g(1) start])
    with g R0 show thesis by (intro that [OF step R1]) simp_all
  qed
qed

lemma mark_Ok:
  assumes hold: "holds hh s bs" and set: "store_set_finalized hash s = Some (Ok (), s')"
  obtains i where "i < length bs" "hash = main_hashes s ! i" "mark_result (fin_of s) (main_hashes s) i
      = (Ok (), Some \<lparr>fp_hash = hash, fp_height = word_of_nat i\<rparr>)" "s' = set_fin (Some \<lparr>fp_hash = hash, fp_height = word_of_nat i\<rparr>) s"
proof -
  have "hash \<in> set (main_hashes s)" using mark_unknown [OF hold, of hash] set by auto
  then obtain i where i: "i < length bs" "hash = main_hashes s ! i" using holdsD(6) [OF hold] by (metis in_set_conv_nth)
  from mark_branch(1) [OF hold i(1)] set have "fst (mark_result (fin_of s) (main_hashes s) i) = Ok ()"
    "s' = set_fin (snd (mark_result (fin_of s) (main_hashes s) i)) s" unfolding i(2) by simp_all
  then show thesis by (intro that [OF i]) (auto simp: mark_result_def i(2) split: option.splits if_splits)
qed

lemma mark_again:
  assumes hold: "holds hh s bs" and set: "store_set_finalized hash s = Some (Ok (), s')"
  shows "store_set_finalized hash s' = Some (Err NotAdvancingMark, s')"
proof (rule mark_Ok [OF hold set])
  fix i
  assume i: "i < length bs" "hash = main_hashes s ! i" and s': "s' = set_fin (Some \<lparr>fp_hash = hash, fp_height = word_of_nat i\<rparr>) s"
  have u: "unat (word_of_nat i :: u64) = i" using i(1) holdsD(4) [OF hold] by (intro unat_of_nat_len) simp
  then have "fin_ok (Some \<lparr>fp_hash = hash, fp_height = word_of_nat i\<rparr>) (main_hashes s)" using i holdsD(6) [OF hold] by (simp add: fin_ok_def)
  then have "holds hh s' bs" unfolding s' by (rule holds_set_fin [OF hold])
  from mark_branch(1) [OF this i(1)] show ?thesis by (simp add: s' i(2) mark_result_def u set_fin_def)
qed

lemma behind_mark:
  assumes beh: "behind hh sg g n0 n R" and start: "start_ok hh g n0" and set: "store_set_finalized hash (nd_chain n) = Some (Ok (), s)"
  shows "\<exists>s'. store_set_finalized hash (nd_chain R) = Some (Ok (), s') \<and> behind hh sg g n0 (n\<lparr>nd_chain := s\<rparr>) (R\<lparr>nd_chain := s'\<rparr>)"
proof -
  obtain bs m k m' where f: "follows hh sg g n0 (take k bs) m n" "follows hh sg g n0 bs m' R" "k \<le> length bs"
    "fin_of (nd_chain R) = fin_of (nd_chain n)" using beh unfolding behind_def by blast
  note hn = follows_holds [OF f(1) start] and hR = follows_holds [OF f(2) start]
  show ?thesis
  proof (rule mark_Ok [OF hn set])
    fix i
    assume i: "i < length (g # take k bs)" "hash = main_hashes (nd_chain n) ! i" and r: "mark_result (fin_of (nd_chain n)) (main_hashes (nd_chain n)) i
      = (Ok (), Some \<lparr>fp_hash = hash, fp_height = word_of_nat i\<rparr>)"
      and s: "s = set_fin (Some \<lparr>fp_hash = hash, fp_height = word_of_nat i\<rparr>) (nd_chain n)"
    have hs: "main_hashes (nd_chain n) = take (Suc k) (main_hashes (nd_chain R))" using follows_hashes_prefix [OF f(2,1) start f(3)] .
    have i': "i < length (g # bs)" "hash = main_hashes (nd_chain R) ! i" using i hs f(3) by simp_all
    have "mark_result (fin_of (nd_chain R)) (main_hashes (nd_chain R)) i = (Ok (), Some \<lparr>fp_hash = hash, fp_height = word_of_nat i\<rparr>)"
      using r f(4) i(2) i'(2) by (cases "fin_of (nd_chain n)") (auto simp: mark_result_def split: if_splits)
    with mark_branch(1) [OF hR i'(1)] i'(2) obtain s' where s': "store_set_finalized hash (nd_chain R) = Some (Ok (), s')"
      "s' = set_fin (Some \<lparr>fp_hash = hash, fp_height = word_of_nat i\<rparr>) (nd_chain R)" by auto
    have "fin_of s' = fin_of s" by (simp add: s s'(2))
    with follows_mark(1) [OF f(1) start set] follows_mark(1) [OF f(2) start s'(1)] f(3) show ?thesis
      by (intro exI [of _ s'] conjI s'(1)) (auto simp: behind_def)
  qed
qed

lemma append_log_sel [simp]:
  "nd_log (append_log recs n) = map_option (\<lambda>l. l @ recs) (nd_log n)" "nd_chain (append_log recs n) = nd_chain n"
  by (simp_all add: append_log_def)

lemma behind_log: "behind hh sg g n0 n R \<Longrightarrow> behind hh sg g n0 (append_log recs n) R"
  unfolding behind_def using follows_log by (metis append_log_sel(2))

lemma behind_same:
  "follows hh sg g n0 bs m n \<Longrightarrow> follows hh sg g n0 bs m R \<Longrightarrow> fin_of (nd_chain R) = fin_of (nd_chain n) \<Longrightarrow> behind hh sg g n0 n R"
  unfolding behind_def by (metis order_refl take_all)

lemma behind_rewound:
  assumes "behind hh sg g n0 n R" and start: "start_ok hh g n0" and "follows hh sg g n0 bs m n" and "i < length bs"
    and "follows hh sg g n0 (take i bs) mk n'" and "fin_of (nd_chain n') = fin_of (nd_chain n)"
  shows "behind hh sg g n0 n' R"
proof -
  obtain cs k m1 m' where f: "follows hh sg g n0 (take k cs) m1 n" "follows hh sg g n0 cs m' R" "k \<le> length cs"
    "fin_of (nd_chain R) = fin_of (nd_chain n)" using assms(1) unfolding behind_def by blast
  have "take k cs = bs" using follows_blocks [OF f(1) start] follows_blocks [OF assms(3) start] by simp
  then have "take i bs = take i cs" "i \<le> length cs" using assms(4) f(3) by auto
  then show ?thesis using f(2,4) assms(5,6) unfolding behind_def by metis
qed

lemma replay_append:
  "replay_records hh sg xs n = Some (Ok (), R) \<Longrightarrow> replay_records hh sg (xs @ ys) n = replay_records hh sg ys R"
  by (induction xs arbitrary: n) (auto split: option.splits sum.splits)

lemma gated_form:
  assumes "validate_gated hh sg h b verify_tx gate n = Some (Ok ())" and "nd_form n = Annulet \<longrightarrow> nd_sections n = NoSections"
  shows "nd_form n \<noteq> Annulet"
  using assms by (auto simp: validate_gated_def split: genesis_form.splits)

lemma follows_sections: "follows hh sg g n0 bs m n \<Longrightarrow> start_ok hh g n0 \<Longrightarrow> nd_form n = nd_form n0 \<and> nd_sections n = nd_sections n0"
proof (erule (1) followsE)
  fix f r lg assume "n = remark f r lg m" "config m = config n0"
  then show ?thesis using configD by auto
qed

lemma behind_sealed:
  assumes "nd_form R1 = Annulet" and "holds hh (nd_chain R1) cs" and "store_set_finalized hash (nd_chain R1) = Some (Ok (), s)"
    and "(if sb_height b > 0 \<and> sb_prev b \<noteq> node_tip R
           then map_option (\<lambda>(r, n1). (case r of Inl e \<Rightarrow> Err e | Inr _ \<Rightarrow> Ok (), n1)) (rewind_to hh sg (sb_prev b) R)
           else Some (Ok (), R)) = Some (Ok (), R0)" and "apply_state hh sg b R0 = Some (Ok hash, R1)"
  shows "replay_records hh sg [LogBlock b, LogFinalize hash] R = Some (Ok (), R1\<lparr>nd_chain := s\<rparr>)"
proof -
  have "replay_record hh sg (LogBlock b) R = Some (Ok (), R1\<lparr>nd_chain := s\<rparr>)"
    by (simp only: replay_record_def log_record.case apply_logged_block_def assms(4)) (simp add: assms(1,3,5))
  then show ?thesis using mark_again [OF assms(2,3)] by (simp add: replay_record_def)
qed

lemma behind_unsealed:
  assumes "nd_form R1 \<noteq> Annulet"
    and "(if sb_height b > 0 \<and> sb_prev b \<noteq> node_tip R
           then map_option (\<lambda>(r, n1). (case r of Inl e \<Rightarrow> Err e | Inr _ \<Rightarrow> Ok (), n1)) (rewind_to hh sg (sb_prev b) R)
           else Some (Ok (), R)) = Some (Ok (), R0)" and "apply_state hh sg b R0 = Some (Ok hash, R1)"
  shows "replay_records hh sg [LogBlock b] R = Some (Ok (), R1)"
proof -
  have "replay_record hh sg (LogBlock b) R = Some (Ok (), R1)"
    by (simp only: replay_record_def log_record.case apply_logged_block_def assms(2)) (use assms(1) in \<open>auto simp: assms(3) split: genesis_form.splits\<close>)
  then show ?thesis by simp
qed

text \<open>The log of \<open>n\<close>, replayed from the opened node, gives a node \<open>n\<close> is behind.\<close>

definition replays :: "header_hash \<Rightarrow> ('k, 's) sig_scheme \<Rightarrow> stored_block \<Rightarrow> 'k node \<Rightarrow> log_record list option \<Rightarrow> 'k node \<Rightarrow> bool" where
  "replays hh sg g n0 L n \<longleftrightarrow>
    (\<exists>l R. nd_log n = Some l \<and> replay_records hh sg l (n0\<lparr>nd_log := L\<rparr>) = Some (Ok (), R) \<and> behind hh sg g n0 n R \<and> nd_log R = L)"

lemma replaysE:
  assumes "replays hh sg g n0 L n"
  obtains l R where "nd_log n = Some l" "replay_records hh sg l (n0\<lparr>nd_log := L\<rparr>) = Some (Ok (), R)" "behind hh sg g n0 n R" "nd_log R = L"
  using assms unfolding replays_def by blast

lemma replays_log:
  assumes "nd_log n = Some l" and "replay_records hh sg (l @ recs) (n0\<lparr>nd_log := L\<rparr>) = Some (Ok (), R)" and "behind hh sg g n0 n R" and "nd_log R = L"
  shows "replays hh sg g n0 L (append_log recs n)"
  unfolding replays_def using assms behind_log [OF assms(3)] by auto

lemma replays_start:
  assumes start: "start_ok hh g n0" and lg: "nd_log n0 = Some []"
  shows "replays hh sg g n0 L n0"
proof -
  have f: "follows hh sg g n0 [] n0 (remark (fin_of (nd_chain n0)) (nd_retained n0) lg n0)" for lg
    using start holds_fin_ok by (intro followsI built.Built_Start) (auto simp: start_ok_def retained_new_def)
  have "follows hh sg g n0 [] n0 n0" using f [of "nd_log n0"] by (simp add: remark_id)
  moreover have "follows hh sg g n0 [] n0 (n0\<lparr>nd_log := L\<rparr>)" using f [of L] by (simp add: remark_def)
  ultimately have "behind hh sg g n0 n0 (n0\<lparr>nd_log := L\<rparr>)" by (rule behind_same) simp
  then show ?thesis using lg by (simp add: replays_def)
qed

lemma replays_block:
  assumes rep: "replays hh sg g n0 L n" and start: "start_ok hh g n0" and clean: "clean_start n0" and fol: "follows hh sg g n0 bs m n"
    and h: "sane_header (nd_form n0) h" and app: "apply_block_gated hh sg h b verify_tx gate n = Some (r, n')"
  shows "replays hh sg g n0 L n'"
proof (rule replaysE [OF rep])
  fix l R
  assume R: "nd_log n = Some l" "replay_records hh sg l (n0\<lparr>nd_log := L\<rparr>) = Some (Ok (), R)" "behind hh sg g n0 n R" "nd_log R = L"
  from gated_step [OF fol start h app] show ?thesis
  proof (elim disjE exE conjE)
    fix e assume "n' = n" then show ?thesis using rep by simp
  next
    fix hash block m' n1
    assume v: "from_parts h b = Some block" "sb_prev block = node_tip n" "validate_gated hh sg h b verify_tx gate n = Some (Ok ())"
      and st: "apply_state hh sg block n = Some (Ok hash, n1)" "apply_state hh sg block m = Some (Ok hash, m')"
      and f1: "follows hh sg g n0 (bs @ [block]) m' n1" and n': "n' = append_log [LogBlock block] n1"
    have sane: "sane_header (nd_form n0) (full_header block)" using h from_parts_header [OF v(1)] by simp
    have same: "fin_of (nd_chain n1) = fin_of (nd_chain n)" "nd_log n1 = nd_log n"
      using follows_apply [OF fol start v(2) sane st(1)] by auto
    have fm: "nd_form n0 \<noteq> Annulet"
      using gated_form [OF v(3)] follows_sections [OF fol start] clean by (simp add: clean_start_def)
    show ?thesis
    proof (rule behind_block [OF R(3) start fol v(2) sane st(2)])
      fix R0 R1
      assume r: "(if sb_height block > 0 \<and> sb_prev block \<noteq> node_tip R
           then map_option (\<lambda>(r, n1). (case r of Inl e \<Rightarrow> Err e | Inr _ \<Rightarrow> Ok (), n1)) (rewind_to hh sg (sb_prev block) R)
           else Some (Ok (), R)) = Some (Ok (), R0)" "apply_state hh sg block R0 = Some (Ok hash, R1)"
        and fr: "follows hh sg g n0 (bs @ [block]) m' R1" "fin_of (nd_chain R1) = fin_of (nd_chain n)" "nd_form R1 = nd_form n0" "nd_log R1 = nd_log R"
      have "nd_form R1 \<noteq> Annulet" using fr(3) fm by simp
      from replay_append [OF R(2)] behind_unsealed [OF this r]
      have "replay_records hh sg (l @ [LogBlock block]) (n0\<lparr>nd_log := L\<rparr>) = Some (Ok (), R1)" by simp
      moreover have "behind hh sg g n0 n1 R1" using behind_same [OF f1 fr(1)] fr(2) same by simp
      ultimately show ?thesis unfolding n' using R(1,4) fr(4) same by (intro replays_log [where R = R1]) simp_all
    qed
  qed
qed

lemma replays_sealed:
  assumes rep: "replays hh sg g n0 L n" and start: "start_ok hh g n0" and fol: "follows hh sg g n0 bs m n"
    and h: "sane_header (nd_form n0) (sl_header sealed)" and app: "apply_sealed_block hh sg lib sealed b verify_tx n = Some (r, n')"
  shows "replays hh sg g n0 L n'"
proof (rule replaysE [OF rep])
  fix l R
  assume R: "nd_log n = Some l" "replay_records hh sg l (n0\<lparr>nd_log := L\<rparr>) = Some (Ok (), R)" "behind hh sg g n0 n R" "nd_log R = L"
  from sealed_step [OF fol start h app] show ?thesis
  proof (elim disjE exE conjE)
    fix e assume "n' = n" then show ?thesis using rep by simp
  next
    fix hash block m' n1 s
    assume v: "nd_form n = Annulet" "from_sealed_parts sealed b = Some block" "sb_prev block = node_tip n"
      and st: "apply_state hh sg block n = Some (Ok hash, n1)" "apply_state hh sg block m = Some (Ok hash, m')"
      and f1: "follows hh sg g n0 (bs @ [block]) m' n1" and s: "store_set_finalized hash (nd_chain n1) = Some (Ok (), s)"
      and f2: "follows hh sg g n0 (bs @ [block]) m' (n1\<lparr>nd_chain := s\<rparr>)"
      and n': "n' = append_log [LogBlock block, LogFinalize hash] (n1\<lparr>nd_chain := s\<rparr>)"
    have sane: "sane_header (nd_form n0) (full_header block)" using h from_sealed_header [OF v(2)] by simp
    have same: "fin_of (nd_chain n1) = fin_of (nd_chain n)" "nd_log n1 = nd_log n"
      using follows_apply [OF fol start v(3) sane st(1)] by auto
    have fm: "nd_form n0 = Annulet" using v(1) follows_sections [OF fol start] by simp
    show ?thesis
    proof (rule behind_block [OF R(3) start fol v(3) sane st(2)])
      fix R0 R1
      assume r: "(if sb_height block > 0 \<and> sb_prev block \<noteq> node_tip R
           then map_option (\<lambda>(r, n1). (case r of Inl e \<Rightarrow> Err e | Inr _ \<Rightarrow> Ok (), n1)) (rewind_to hh sg (sb_prev block) R)
           else Some (Ok (), R)) = Some (Ok (), R0)" "apply_state hh sg block R0 = Some (Ok hash, R1)"
        and fr: "follows hh sg g n0 (bs @ [block]) m' R1" "fin_of (nd_chain R1) = fin_of (nd_chain n)" "nd_form R1 = nd_form n0" "nd_log R1 = nd_log R"
      have s1: "store_set_finalized hash (nd_chain R1) = Some (Ok (), s)" using s follows_same_chain(2) [OF f1 fr(1)] fr(2) same by simp
      have "nd_form R1 = Annulet" using fr(3) fm by simp
      from replay_append [OF R(2)] behind_sealed [OF this follows_holds [OF fr(1) start] s1 r]
      have "replay_records hh sg (l @ [LogBlock block, LogFinalize hash]) (n0\<lparr>nd_log := L\<rparr>) = Some (Ok (), R1\<lparr>nd_chain := s\<rparr>)" by simp
      moreover have "behind hh sg g n0 (n1\<lparr>nd_chain := s\<rparr>) (R1\<lparr>nd_chain := s\<rparr>)"
        by (rule behind_same [OF f2 follows_mark(1) [OF fr(1) start s1]]) simp
      ultimately show ?thesis unfolding n' using R(1,4) fr(4) same by (intro replays_log [where R = "R1\<lparr>nd_chain := s\<rparr>"]) simp_all
    qed
  qed
qed

lemma replays_finalize:
  assumes rep: "replays hh sg g n0 L n" and start: "start_ok hh g n0" and fol: "follows hh sg g n0 bs m n"
    and app: "finalize hash n = Some (r, n')"
  shows "replays hh sg g n0 L n'"
proof -
  obtain res s where s: "store_set_finalized hash (nd_chain n) = Some (res, s)" using app by (auto simp: finalize_def split: option.splits)
  show ?thesis
  proof (cases res)
    case (Inl e)
    then have "n' = n" using app s follows_mark(2) [OF fol start s] by (simp add: finalize_def)
    then show ?thesis using rep by simp
  next
    case (Inr u)
    then have n': "n' = append_log [LogFinalize hash] (n\<lparr>nd_chain := s\<rparr>)" using app s by (simp add: finalize_def)
    show ?thesis
    proof (rule replaysE [OF rep])
      fix l R
      assume R: "nd_log n = Some l" "replay_records hh sg l (n0\<lparr>nd_log := L\<rparr>) = Some (Ok (), R)" "behind hh sg g n0 n R" "nd_log R = L"
      obtain s' where s': "store_set_finalized hash (nd_chain R) = Some (Ok (), s')"
        "behind hh sg g n0 (n\<lparr>nd_chain := s\<rparr>) (R\<lparr>nd_chain := s'\<rparr>)"
        using behind_mark [OF R(3) start] s Inr by auto
      have "replay_records hh sg (l @ [LogFinalize hash]) (n0\<lparr>nd_log := L\<rparr>) = Some (Ok (), R\<lparr>nd_chain := s'\<rparr>)"
        unfolding replay_append [OF R(2)] by (simp add: replay_record_def s'(1))
      then show ?thesis unfolding n' using R(1,4) s'(2) by (intro replays_log [where R = "R\<lparr>nd_chain := s'\<rparr>"]) simp_all
    qed
  qed
qed

lemma replays_rewind:
  assumes rep: "replays hh sg g n0 L n" and start: "start_ok hh g n0" and fol: "follows hh sg g n0 bs m n"
    and app: "rewind_to hh sg target n = Some (r, n')"
  shows "replays hh sg g n0 L n'"
  using follows_rewind [OF fol start app]
proof (elim disjE exE conjE)
  assume "n' = n" then show ?thesis using rep by simp
next
  fix i mk
  assume "i < length bs" "follows hh sg g n0 (take i bs) mk n'" "fin_of (nd_chain n') = fin_of (nd_chain n)" "nd_log n' = nd_log n"
  then show ?thesis using rep behind_rewound [OF _ start fol] unfolding replays_def by metis
qed

lemma reach_replays:
  assumes "reach hh sg lib n0 n" and "start_ok hh g n0" and "clean_start n0" and "nd_log n0 = Some []"
  shows "replays hh sg g n0 L n"
  using assms
proof (induction rule: reach.induct)
  case Reach_Start
  then show ?case by (simp add: replays_start)
next
  case (Reach_Block n h b verify_tx gate r n')
  then show ?case using reach_follows [OF Reach_Block(1,5)] replays_block by blast
next
  case (Reach_Sealed n sealed b verify_tx r1 n')
  then show ?case using reach_follows [OF Reach_Sealed(1,5)] replays_sealed by blast
next
  case (Reach_Finalize n hash r2 n')
  then show ?case using reach_follows [OF Reach_Finalize(1,4)] replays_finalize by blast
next
  case (Reach_Rewind n target r3 n')
  then show ?case using reach_follows [OF Reach_Rewind(1,4)] replays_rewind by blast
qed

section \<open>The anchor gates\<close>

lemma first_seen_spec: "set (first_seen seen xs) = set (map snd xs) - set seen \<and> distinct (first_seen seen xs)"
  by (induction seen xs rule: first_seen.induct) auto

lemma window_iff: "sat_sub t f \<le> (h :: u64) \<longleftrightarrow> sat_sub t h \<le> f"
  by (auto simp: word_le_nat_alt unat_sat_sub)

lemma sorted_first:
  assumes "sorted hs"
  shows "(case drop (length (takeWhile (\<lambda>h. h < lo) hs)) hs of [] \<Rightarrow> False | h # _ \<Rightarrow> h < (b :: u64)) \<longleftrightarrow>
    (\<exists>h \<in> set hs. lo \<le> h \<and> h < b)"
  using assms by (induction hs) (auto simp: not_less)

lemma indexed_as_of:
  assumes ix: "indexed n rs" and len: "length rs < 2 ^ 64"
  shows "is_valid_anchor_as_of n rt b \<longleftrightarrow> (\<exists>h. (h, rt) \<in> set (nd_roots_by_height n) \<and> h < b \<and> sat_sub b max_anchor_age_blocks \<le> h)"
proof -
  define hs where "hs = (map (\<lambda>(i, _). word_of_nat i) (filter (\<lambda>(_, x). x = rt) (enumerate 0 rs)) :: u64 list)"
  have mem: "h \<in> set hs \<longleftrightarrow> (h, rt) \<in> set (nd_roots_by_height n)" for h
    using ix by (force simp: hs_def indexed_def)
  have "sorted (map (\<lambda>(i, _). (word_of_nat i :: u64)) (enumerate 0 rs))"
    using len by (auto simp: sorted_iff_nth_mono nth_enumerate_eq word_le_nat_alt unat_of_nat_len)
  then have sorted: "sorted hs" unfolding hs_def by (rule sorted_filter [where f = "\<lambda>(i, _). word_of_nat i"])
  have none: "rt \<notin> set rs \<Longrightarrow> hs = []" by (auto simp: hs_def filter_empty_conv in_set_enumerate_eq dest: nth_mem)
  have an: "nd_anchor_heights n rt = (if rt \<in> set rs then Some hs else None)" using ix by (simp add: indexed_def hs_def)
  show ?thesis
  proof (cases "rt \<in> set rs")
    case True
    then show ?thesis using sorted_first [OF sorted] mem by (auto simp: is_valid_anchor_as_of_def an Let_def)
  next
    case False
    then show ?thesis using none mem by (auto simp: is_valid_anchor_as_of_def an Let_def)
  qed
qed

lemma reach_built:
  assumes "opened hh g n0" and "reach hh sg lib n0 n"
  obtains bs m where "follows hh sg g n0 bs m n" "built hh sg n0 bs m" "start_ok hh g n0" "clean_start n0"
proof -
  obtain bs m where f: "follows hh sg g n0 bs m n" using reach_follows [OF assms(2) opened_start [OF assms(1)]] by blast
  then have "built hh sg n0 bs m" by (simp add: follows_def)
  with f show thesis by (rule that) (rule opened_start [OF assms(1)], rule opened_clean [OF assms(1)])
qed

lemma remark_indexed [simp]: "indexed (remark f r l m) rs = indexed m rs" "node_root (remark f r l m) = node_root m"
  by (simp_all add: indexed_def node_root_def)

lemma remark_retained: "remark f r l m = (remark f r' l m)\<lparr>nd_retained := r\<rparr>"
  by (simp add: remark_def)

section \<open>Properties\<close>

text \<open>C3: the state of a node is the fold of its chain: after any blocks, finalizations and rewinds, the nullifiers, the
  commitment tree, the roots, the names, the registry, the supplies and the wrapper surface are those of
  applying the blocks of the main chain, in order, to the genesis state; only the finalized point, the
  retained bodies and the log depend on how the node got there.\<close>

theorem node_is_fold:
  assumes "opened hh g n0" and "reach hh sg lib n0 n"
  shows "\<exists>bs m. chain_blocks n = g # bs \<and> apply_states hh sg bs n0 = Some (Ok (), m)
    \<and> n = remark (fin_of (nd_chain n)) (nd_retained n) (nd_log n) m \<and> node_tip_height n = word_of_nat (length bs)"
proof (rule reach_built [OF assms])
  fix bs m assume f: "follows hh sg g n0 bs m n" and start: "start_ok hh g n0"
  show ?thesis
    using follows_blocks [OF f start] follows_fold(1) [OF f start] follows_tip_height [OF f start]
    by (intro exI [of _ bs] exI [of _ m] conjI follows_fold(2) [OF f start])
qed

text \<open>C4: a rewind is exact or has no effect: a block that is not on the chain, or one below the finalized height, is
  refused and the node keeps its state; to any other block of the chain, the node becomes the fold of the
  blocks up to it, with its finalized point and its log kept.\<close>

theorem rewind_exact:
  assumes "opened hh g n0" and "reach hh sg lib n0 n" and "i + 1 < length (chain_blocks n)"
    and "target \<notin> set (main_hashes (nd_chain n))"
  shows "rewind_to hh sg target n = Some (Err (NodeRewind UnknownTarget), n)
    \<and> (case fin_of (nd_chain n) of
         Some p \<Rightarrow> (if i < unat (fp_height p)
           then rewind_to hh sg (main_hashes (nd_chain n) ! i) n = Some (Err (NodeRewind (PastFinalized (word_of_nat i) (fp_height p))), n)
           else \<exists>rep m r. rewind_to hh sg (main_hashes (nd_chain n) ! i) n = Some (Ok rep, remark (Some p) r (nd_log n) m)
             \<and> apply_states hh sg (take i (tl (chain_blocks n))) n0 = Some (Ok (), m))
       | None \<Rightarrow> \<exists>rep m r. rewind_to hh sg (main_hashes (nd_chain n) ! i) n = Some (Ok rep, remark None r (nd_log n) m)
             \<and> apply_states hh sg (take i (tl (chain_blocks n))) n0 = Some (Ok (), m))"
proof (rule reach_built [OF assms(1,2)])
  fix bs m assume f: "follows hh sg g n0 bs m n" and start: "start_ok hh g n0"
  have bs: "chain_blocks n = g # bs" using follows_blocks [OF f start] .
  then have i: "i < length bs" using assms(3) by simp
  have "\<exists>rep m r. rewind_to hh sg (main_hashes (nd_chain n) ! i) n = Some (Ok rep, remark (fin_of (nd_chain n)) r (nd_log n) m)
      \<and> apply_states hh sg (take i bs) n0 = Some (Ok (), m)"
    if "\<forall>p. fin_of (nd_chain n) = Some p \<longrightarrow> unat (fp_height p) \<le> i"
  proof (rule rewind_follows [OF f start i that])
    fix mk n'
    assume rew: "rewind_to hh sg (main_hashes (nd_chain n) ! i) n = Some (Ok \<lparr>rr_from_height = node_tip_height n, rr_from_hash = node_tip n,
        rr_to_height = node_tip_height n', rr_to_hash = node_tip n'\<rparr>, n')"
      and g: "follows hh sg g n0 (take i bs) mk n'" and k: "fin_of (nd_chain n') = fin_of (nd_chain n)" "nd_log n' = nd_log n"
    have "n' = remark (fin_of (nd_chain n)) (nd_retained n') (nd_log n) mk" using follows_fold(2) [OF g start] k by simp
    then show ?thesis using rew follows_fold(1) [OF g start] by metis
  qed
  then show ?thesis using rewind_otherwise(1) [OF f start assms(4)] rewind_otherwise(2) [OF f start i]
    by (auto simp: bs split: option.splits)
qed

text \<open>C5: a restart resumes where the node stopped: replaying the log from the genesis succeeds, and rewinding the result to
  the node's tip gives the node back, up to the bodies it retains for its peers.\<close>

theorem restart_resumes:
  assumes "opened hh g n0" and "reach hh sg lib n0 n" and "nd_log n0 = Some []"
  shows "\<exists>l R rep r. nd_log n = Some l
    \<and> resume_by_replay hh sg (nd_form n0) (nd_sections n0) g (annulet_setup_of n0) (v6_setup_of n0) l = Some (Ok (), R)
    \<and> rewind_to hh sg (node_tip n) R = Some (Ok rep, n\<lparr>nd_retained := r\<rparr>)"
proof -
  note start = opened_start [OF assms(1)] and clean = opened_clean [OF assms(1)]
  obtain l where l: "nd_log n = Some l"
    using reach_replays [OF assms(2) start clean assms(3)] by (rule replaysE)
  from reach_replays [OF assms(2) start clean assms(3), of "Some l"] l obtain R where
    R: "replay_records hh sg l (n0\<lparr>nd_log := Some l\<rparr>) = Some (Ok (), R)" "behind hh sg g n0 n R" "nd_log R = Some l"
    by (auto elim: replaysE)
  have "rebuild_base hh (n0\<lparr>nd_log := Some l\<rparr>) g = Some (n0\<lparr>nd_log := Some l\<rparr>)"
    using rebuild_log [of "n0\<lparr>nd_log := Some l\<rparr>" n0 hh g] start by (simp add: config_def start_ok_def)
  then have res: "resume_by_replay hh sg (nd_form n0) (nd_sections n0) g (annulet_setup_of n0) (v6_setup_of n0) l = Some (Ok (), R)"
    using R(1) by (auto simp: resume_by_replay_def rebuild_base_def annulet_setup_of_def v6_setup_of_def split: option.splits)
  show ?thesis
  proof (rule behind_rewind [OF R(2) start])
    fix rep N bs m
    assume rew: "rewind_to hh sg (node_tip n) R = Some (Ok rep, N)" and f: "follows hh sg g n0 bs m n" "follows hh sg g n0 bs m N"
      and k: "fin_of (nd_chain N) = fin_of (nd_chain n)" "nd_log N = nd_log R"
    have "n = remark (fin_of (nd_chain n)) (nd_retained n) (Some l) m" "N = remark (fin_of (nd_chain n)) (nd_retained N) (Some l) m"
      using follows_fold(2) [OF f(1) start] follows_fold(2) [OF f(2) start] k l R(3) by simp_all
    then have "N = n\<lparr>nd_retained := nd_retained N\<rparr>" using remark_retained by metis
    then show ?thesis using l res rew by metis
  qed
qed

text \<open>C6: no nullifier is spent twice on a chain: the nullifiers in the order they were spent are those of the blocks of the
  main chain, all different, and the spent set is exactly that list.\<close>

theorem nullifiers_spent_once:
  assumes "opened hh g n0" and "reach hh sg lib n0 n"
  shows "nd_nullifiers_ordered n = concat (map (block_nullifiers \<circ> sb_txs) (tl (chain_blocks n)))
    \<and> distinct (nd_nullifiers_ordered n) \<and> nd_nullifiers n = set (nd_nullifiers_ordered n)"
proof (rule reach_built [OF assms])
  fix bs m assume f: "follows hh sg g n0 bs m n" and b: "built hh sg n0 bs m" and start: "start_ok hh g n0" and clean: "clean_start n0"
  have "nd_nullifiers_ordered n = nd_nullifiers_ordered m" "nd_nullifiers n = nd_nullifiers m"
    using follows_fold(2) [OF f start] remark_sel by metis+
  moreover have "holds_contents bs m" using built_contents [OF b start clean] .
  ultimately show ?thesis unfolding holds_contents_def follows_blocks [OF f start] list.sel by metis
qed

lemma wf_tree_merkle: "wf_tree t \<Longrightarrow> ct_root t = merkle tree_depth (ct_leaves t)"
  using root_at_merkle [of t "length (ct_leaves t)"] by (simp add: wf_tree_def Let_def root_at_def tree_len_def)

lemma built_root:
  assumes "built hh sg n0 bs m" and "start_ok hh g n0" and "clean_start n0"
  shows "node_root m = digest_bytes (merkle tree_depth (map digest_from_bytes (nd_commitments_ordered m)))"
  using built_contents [OF assms] wf_tree_merkle by (simp add: holds_contents_def node_root_def)

lemma built_states:
  assumes "built hh sg n0 bs m" and "start_ok hh g n0"
  shows "apply_states hh sg bs n0 = Some (Ok (), m)"
  using built_fold [OF assms, of "nd_log n0"] remark_id [of m] remark_id [of n0] built_facts(4-6) [OF assms] by simp

lemma follows_indexed:
  assumes f: "follows hh sg g n0 bs m n" and start: "start_ok hh g n0" and clean: "clean_start n0"
  obtains rs where "indexed n rs" "length rs = Suc (length bs)" "length rs < 2 ^ 63"
    "\<And>k. k \<le> length bs \<Longrightarrow> \<exists>mk. apply_states hh sg (take k bs) n0 = Some (Ok (), mk)
      \<and> rs ! k = digest_bytes (merkle tree_depth (map digest_from_bytes (nd_commitments_ordered mk)))"
proof -
  have b: "built hh sg n0 bs m" using f by (simp add: follows_def)
  obtain rs where rs: "indexed m rs" "length rs = Suc (length bs)"
    "\<And>k. k \<le> length bs \<Longrightarrow> \<exists>mk. built hh sg n0 (take k bs) mk \<and> rs ! k = node_root mk"
    using built_indexed [OF b start clean] by blast
  have "indexed n rs" using rs(1) follows_fold(2) [OF f start] remark_indexed(1) by metis
  moreover have "length rs < 2 ^ 63" using holdsD(4) [OF built_facts(1) [OF b start]] rs(2) by simp
  moreover have "\<exists>mk. apply_states hh sg (take k bs) n0 = Some (Ok (), mk)
      \<and> rs ! k = digest_bytes (merkle tree_depth (map digest_from_bytes (nd_commitments_ordered mk)))" if k: "k \<le> length bs" for k
  proof -
    obtain mk where mk: "built hh sg n0 (take k bs) mk" "rs ! k = node_root mk" using rs(3) [OF k] by blast
    show ?thesis using built_states [OF mk(1) start] built_root [OF mk(1) start clean] mk(2) by simp
  qed
  ultimately show thesis using rs(2) by (intro that)
qed

text \<open>C18: the recorded roots are the history of the commitment tree: one for each height from the genesis to the tip, and the
  one of a height is the Merkle root of the commitments the blocks up to that height appended.\<close>

theorem roots_are_history:
  assumes "opened hh g n0" and "reach hh sg lib n0 n" and "k < length (chain_blocks n)"
  shows "map fst (nd_roots_by_height n) = map word_of_nat [0..<length (chain_blocks n)]
    \<and> (\<exists>mk. apply_states hh sg (take k (tl (chain_blocks n))) n0 = Some (Ok (), mk)
      \<and> snd (nd_roots_by_height n ! k) = digest_bytes (merkle tree_depth (map digest_from_bytes (nd_commitments_ordered mk))))"
proof (rule reach_built [OF assms(1,2)])
  fix bs m assume f: "follows hh sg g n0 bs m n" and start: "start_ok hh g n0" and clean: "clean_start n0"
  have bs: "chain_blocks n = g # bs" using follows_blocks [OF f start] .
  show ?thesis
  proof (rule follows_indexed [OF f start clean])
    fix rs
    assume rs: "indexed n rs" "length rs = Suc (length bs)" and hist: "\<And>k. k \<le> length bs \<Longrightarrow> \<exists>mk. apply_states hh sg (take k bs) n0 = Some (Ok (), mk)
      \<and> rs ! k = digest_bytes (merkle tree_depth (map digest_from_bytes (nd_commitments_ordered mk)))"
    have roots: "nd_roots_by_height n = map (\<lambda>(i, r). (word_of_nat i, r)) (enumerate 0 rs)" using rs(1) by (simp add: indexed_def)
    have "map fst (nd_roots_by_height n) = map word_of_nat (map fst (enumerate 0 rs))"
      unfolding roots by (simp only: map_map) (simp add: comp_def split_def)
    moreover have "snd (nd_roots_by_height n ! k) = rs ! k" using assms(3) rs(2) bs by (simp add: roots nth_enumerate_eq)
    ultimately show ?thesis using hist [of k] assms(3) rs(2) bs by (auto simp del: upt_Suc)
  qed
qed

text \<open>the settled anchor rule is a scan of the recorded roots: the index by root accepts an anchor for a block exactly
  when that root was recorded at a height below the block's and at most the maximal age below it.\<close>

theorem settled_gate_scans:
  assumes "opened hh g n0" and "reach hh sg lib n0 n"
  shows "is_valid_anchor_as_of n rt block_h \<longleftrightarrow>
    (\<exists>h. (h, rt) \<in> set (nd_roots_by_height n) \<and> h < block_h \<and> unat block_h \<le> unat h + unat max_anchor_age_blocks)"
proof (rule reach_built [OF assms])
  fix bs m assume f: "follows hh sg g n0 bs m n" and start: "start_ok hh g n0" and clean: "clean_start n0"
  show ?thesis
  proof (rule follows_indexed [OF f start clean])
    fix rs assume rs: "indexed n rs" "length rs < 2 ^ 63"
    have "length rs < 2 ^ 64" by (rule less_trans [OF rs(2)]) simp
    with rs(1) have "is_valid_anchor_as_of n rt block_h \<longleftrightarrow>
        (\<exists>h. (h, rt) \<in> set (nd_roots_by_height n) \<and> h < block_h \<and> sat_sub block_h max_anchor_age_blocks \<le> h)"
      by (rule indexed_as_of)
    moreover have "sat_sub block_h max_anchor_age_blocks \<le> h \<longleftrightarrow> unat block_h \<le> unat h + unat max_anchor_age_blocks" for h :: u64
      by (auto simp: word_le_nat_alt unat_sat_sub)
    ultimately show ?thesis by simp
  qed
qed

text \<open>C20: the live rule and the settled rule differ at the edge of the window: an anchor the live rule accepts for the next
  block is accepted by the settled rule at that block's height only if the root was recorded less than the
  maximal age below the tip; at exactly that age the block is accepted live and refused as history.\<close>

theorem live_anchor_settles_inside_window:
  assumes "opened hh g n0" and "reach hh sg lib n0 n" and "is_valid_anchor n rt"
  shows "is_valid_anchor_as_of n rt (node_tip_height n + 1) \<longleftrightarrow>
    (\<exists>h. (h, rt) \<in> set (nd_roots_by_height n) \<and> unat (node_tip_height n) < unat h + unat max_anchor_age_blocks)"
proof (rule reach_built [OF assms(1,2)])
  fix bs m assume f: "follows hh sg g n0 bs m n" and start: "start_ok hh g n0" and clean: "clean_start n0"
  show ?thesis
  proof (rule follows_indexed [OF f start clean])
    fix rs assume rs: "indexed n rs" "length rs = Suc (length bs)" "length rs < 2 ^ 63"
    have tip: "unat (node_tip_height n) = length bs"
      using rs(2,3) unfolding follows_tip_height [OF f start] by (intro unat_of_nat_len) simp
    then have next': "unat (node_tip_height n + 1) = Suc (length bs)" using rs(2,3) by (subst unat_add_lem [THEN iffD1]) simp_all
    have below: "h < node_tip_height n + 1" if mem: "(h, rt) \<in> set (nd_roots_by_height n)" for h
    proof -
      obtain i where "i < length rs" "h = word_of_nat i" using mem rs(1) by (auto simp: indexed_def in_set_enumerate_eq)
      then show ?thesis using rs(2,3) next' by (simp add: word_less_nat_alt unat_of_nat_len)
    qed
    have "sat_sub (node_tip_height n + 1) max_anchor_age_blocks \<le> h \<longleftrightarrow> unat (node_tip_height n) < unat h + unat max_anchor_age_blocks" for h
      by (auto simp: word_le_nat_alt unat_sat_sub next' tip)
    then show ?thesis using indexed_as_of [OF rs(1), of rt "node_tip_height n + 1"] below rs(3) by auto
  qed
qed

text \<open>C21: the anchors the node offers are the anchors it accepts: the list of the anchor endpoint holds each root the live
  rule accepts, once.\<close>

theorem anchors_offered_are_accepted:
  "set (valid_anchor_roots n) = {r. is_valid_anchor n r} \<and> distinct (valid_anchor_roots n)"
proof (cases "node_finalized_height n")
  case None
  then show ?thesis by (simp add: valid_anchor_roots_def is_valid_anchor_def)
next
  case (Some f)
  define lo where "lo = sat_sub (node_tip_height n) max_anchor_age_blocks"
  define window where "window = filter (\<lambda>(h, r). lo \<le> h \<and> h \<le> f) (nd_roots_by_height n)"
  define roots where "roots = first_seen [] window"
  have accepts: "is_valid_anchor n r \<longleftrightarrow> r \<in> set (map snd window)" for r
    by (force simp: is_valid_anchor_def Some window_def lo_def list_ex_iff window_iff)
  have roots: "set roots = set (map snd window)" "distinct roots" using first_seen_spec [of "[]" window] by (simp_all add: roots_def)
  show ?thesis
  proof (cases "lo > f")
    case True
    then have "window = []" by (auto simp: window_def filter_empty_conv)
    then show ?thesis using True accepts by (simp add: valid_anchor_roots_def Some lo_def)
  next
    case False
    define keyed where "keyed = map (\<lambda>r. (last (the (nd_anchor_heights n r)), r)) roots"
    have v: "valid_anchor_roots n = map snd (rev (sort_key fst keyed))"
      using False by (simp add: valid_anchor_roots_def Some Let_def lo_def keyed_def roots_def window_def)
    have "set (valid_anchor_roots n) = set roots" by (simp add: v keyed_def image_image)
    moreover have "distinct (map snd keyed)" using roots(2) by (simp add: keyed_def comp_def)
    then have "distinct (valid_anchor_roots n)"
      unfolding v by (simp add: distinct_map inj_on_def rev_map flip: rev_map)
    ultimately show ?thesis using accepts roots(1) by auto
  qed
qed

text \<open>C19: a refused block leaves no trace: when a block or a sealed block is refused, at whichever check, the node is the one
  it was, with nothing appended to its log.\<close>

theorem refused_block_leaves_no_trace:
  assumes "opened hh g n0" and "reach hh sg lib n0 n" and "sane_header (nd_form n0) (sl_header sealed)"
    and "apply_block_gated hh sg (sl_header sealed) b verify_tx gate n = Some (Err e, n')
      \<or> apply_sealed_block hh sg lib sealed b verify_tx n = Some (Err e, n')"
  shows "n' = n"
proof (rule reach_built [OF assms(1,2)])
  fix bs m assume f: "follows hh sg g n0 bs m n" and start: "start_ok hh g n0"
  from assms(4) show ?thesis
  proof
    assume a: "apply_block_gated hh sg (sl_header sealed) b verify_tx gate n = Some (Err e, n')"
    show ?thesis using gated_step [OF f start assms(3) a] by (elim disjE exE conjE) simp_all
  next
    assume a: "apply_sealed_block hh sg lib sealed b verify_tx n = Some (Err e, n')"
    show ?thesis using sealed_step [OF f start assms(3) a] by (elim disjE exE conjE) simp_all
  qed
qed

section \<open>The retained bodies\<close>

definition in_budget :: "retained_bodies \<Rightarrow> bool" where
  "in_budget r \<longleftrightarrow> retained_ok r \<and> \<not> over_budget r"

lemma budget_smaller:
  "\<not> over_budget r \<Longrightarrow> length (rb_by_hash r') \<le> length (rb_by_hash r) \<Longrightarrow> rb_bytes r' \<le> rb_bytes r \<Longrightarrow> \<not> over_budget r'"
  by (auto simp: over_budget_def)

lemma budget_forget:
  assumes "in_budget r"
  shows "in_budget (retained_forget h r)"
proof -
  have "rb_bytes (retained_forget h r) \<le> rb_bytes r" by (simp add: retained_forget_def split: option.splits)
  then show ?thesis
    using assms retained_forget_ok [of r h] budget_smaller [of r "retained_forget h r"] by (simp add: in_budget_def split: if_splits)
qed

lemma foldl_minus: "foldl (\<lambda>n x. n - f x) (a + sum_list (map f xs)) xs = (a :: nat)"
  by (induction xs arbitrary: a) simp_all

lemma sum_list_split: "sum_list (map f xs) = sum_list (map f (filter P xs)) + sum_list (map f (filter (\<lambda>x. \<not> P x) xs))" for f :: "'a \<Rightarrow> nat"
  by (induction xs) simp_all

lemma budget_prune:
  assumes "in_budget r"
  shows "in_budget (retained_prune_below h r)"
proof -
  define lo where "lo = sat_sub h (word_of_nat max_retained_bodies)"
  define live where "live = filter (\<lambda>(h, b). sb_height b > lo) (rb_by_hash r)"
  define dead where "dead = filter (\<lambda>(h, b). sb_height b \<le> lo) (rb_by_hash r)"
  have d: "dead = filter (\<lambda>x. \<not> (case x of (h, b) \<Rightarrow> sb_height b > lo)) (rb_by_hash r)"
    unfolding dead_def by (rule filter_cong) (auto simp: not_less)
  have ok: "hm_ok (rb_by_hash r)" "rb_bytes r = sum_list (map (retained_weight \<circ> snd) (rb_by_hash r))"
    using assms by (simp_all add: in_budget_def retained_ok_def)
  have "rb_bytes r = sum_list (map (retained_weight \<circ> snd) live) + sum_list (map (retained_weight \<circ> snd) dead)"
    unfolding ok(2) live_def d by (rule sum_list_split)
  then have bytes: "foldl (\<lambda>n (h, b). n - retained_weight b) (rb_bytes r) dead = sum_list (map (retained_weight \<circ> snd) live)"
    using foldl_minus [of "retained_weight \<circ> snd" _ dead] by (simp add: case_prod_unfold comp_def)
  have p: "retained_prune_below h r = r\<lparr>rb_by_hash := live, rb_bytes := sum_list (map (retained_weight \<circ> snd) live)\<rparr>"
    by (simp add: retained_prune_below_def Let_def lo_def [symmetric] live_def [symmetric] dead_def [symmetric] bytes)
  have "hm_ok live" using ok(1) by (auto simp: hm_ok_def live_def distinct_map_filter)
  moreover have "length live \<le> length (rb_by_hash r)" by (simp add: live_def)
  moreover have "sum_list (map (retained_weight \<circ> snd) live) \<le> rb_bytes r" unfolding ok(2) live_def by (subst (2) sum_list_split [where P = "\<lambda>(h, b). sb_height b > lo"]) simp
  ultimately show ?thesis using assms budget_smaller [of r "retained_prune_below h r"] unfolding in_budget_def p by (simp add: retained_ok_def)
qed

lemma budget_retain: "retain_all hh bs r = Some r' \<Longrightarrow> in_budget r \<Longrightarrow> in_budget r'"
proof (induction bs arbitrary: r)
  case (Cons b bs)
  from Cons.prems(1) obtain r1 where r1: "retained_insert hh b r = Some r1" "retain_all hh bs r1 = Some r'" by (auto split: option.splits)
  then show ?case using Cons.IH [OF r1(2)] retained_insert_ok [OF _ r1(1)] Cons.prems(2) by (simp add: in_budget_def)
qed simp

lemma budget_forget_all: "forget_all hh bs r = Some r' \<Longrightarrow> in_budget r \<Longrightarrow> in_budget r'"
  by (induction bs arbitrary: r) (auto simp: budget_forget split: option.splits)

lemma budget_apply:
  assumes "apply_state hh sg b n = Some (res, n')" and "in_budget (nd_retained n)"
  shows "in_budget (nd_retained n')"
proof -
  have "nd_retained n' \<in> {nd_retained n} \<union> range (\<lambda>hash. settled_retained hash b (nd_retained n))"
    using assms(1) unfolding apply_state_def commit_block_eq
    by (auto simp: with_contents_def split: option.splits sum.splits prod.splits)
  then show ?thesis using assms(2) budget_forget budget_prune by (auto simp: settled_retained_def)
qed

lemma budget_reach:
  assumes "reach hh sg lib n0 n" and "start_ok hh g n0"
  shows "in_budget (nd_retained n)"
  using assms
proof (induction rule: reach.induct)
  case Reach_Start
  then show ?case by (simp add: start_ok_def retained_new_def in_budget_def retained_ok_def over_budget_def hm_ok_def)
next
  case (Reach_Block n h b verify_tx gate r n')
  then show ?case
    by (auto simp: apply_block_gated_def append_log_def dest: budget_apply split: option.splits sum.splits prod.splits if_splits)
next
  case (Reach_Sealed n sealed b verify_tx r1 n')
  then show ?case
    by (auto simp: apply_sealed_block_def append_log_def Let_def dest: budget_apply
        split: option.splits sum.splits prod.splits if_splits genesis_form.splits)
next
  case (Reach_Finalize n hash r2 n')
  then show ?case by (auto simp: finalize_def append_log_def split: option.splits sum.splits prod.splits)
next
  case (Reach_Rewind n target r3 n')
  then show ?case
    by (auto simp: rewind_to_def Let_def budget_prune dest: budget_retain budget_forget_all
        split: option.splits sum.splits prod.splits if_splits)
qed

text \<open>C40: the bodies kept for peers stay within their budget: after any run at most 64 bodies are retained,
  the metered total is the sum of the metered weights of the bodies held, and it is within 64 MiB
  unless a single body is held (the weight of a body is the node's estimate, not its bytes in memory).\<close>

theorem retained_within_budget:
  assumes "opened hh g n0" and "reach hh sg lib n0 n"
  shows "length (rb_by_hash (nd_retained n)) \<le> max_retained_bodies
    \<and> (rb_bytes (nd_retained n) \<le> max_retained_body_bytes \<or> length (rb_by_hash (nd_retained n)) \<le> 1)
    \<and> rb_bytes (nd_retained n) = sum_list (map (retained_weight \<circ> snd) (rb_by_hash (nd_retained n)))"
  using budget_reach [OF assms(2) opened_start [OF assms(1)]] by (auto simp: in_budget_def retained_ok_def over_budget_def)

section \<open>A node with one block\<close>

definition first_genesis :: stored_block where
  "first_genesis =
    \<lparr>sb_header = \<lparr>sh_prev = zero_hash, sh_height = 0, sh_timestamp = 0, sh_difficulty = 5, sh_nonce = 0,
       sh_tx_body_commitment = the (commitment_v5_at 0 (body_new [] []))\<rparr>,
     sb_txs = [], sb_coinbase = 0, sb_coinbase_rkm = [0, 0, 0, 0], sb_annulet = None, sb_sections = None\<rparr>"

definition first_node :: "unit node" where
  "first_node = the (open_l1 sample_hash V5 first_genesis (Some []))"

definition first_body :: block_body where
  "first_body = \<lparr>txs = [], coinbase_payees = [\<lparr>rkm = [1, 2, 3, 4], amount = the (coinbase_exact 1)\<rparr>], finality_section = [], bundle_section = []\<rparr>"

definition first_header :: block_header where
  "first_header = \<lparr>prev = [0], height = 1, timestamp = 1, difficulty = 5, nonce = 1,
    tx_body_commitment = the (commitment_v5_above None 1 first_body), ext = L1\<rparr>"

lemma empty_commitment: "commitment_v5_at 0 (body_new [] []) \<noteq> None"
  using preimage_form_total [of FormV5 "body_new [] []" 1]
  by (simp add: commitment_v5_at_def commitment_v5_above_def payee_cap_v5_boundary_def coinbase_payee_cap_v5_above_def
      payee_cap_v5_at_birth_def body_new_def counts_Ok)

lemma first_commitment: "commitment_v5_above None 1 first_body = Some (tx_body_commitment first_header)"
  using preimage_form_total [of FormV5 first_body 1]
  by (auto simp: first_header_def commitment_v5_above_def coinbase_payee_cap_v5_above_def payee_cap_v5_at_birth_def first_body_def counts_Ok)

lemma first_body_of: "stored_body first_genesis = Some (body_new [] [])"
  by (simp add: stored_body_def coinbase_view_def first_genesis_def from_single_payee_def with_sections_def)

lemma first_store: "store_new_for sample_hash V5 first_genesis = Some \<lparr>ms_chain = \<lparr>blocks = [([0], \<lparr>e_header = full_header first_genesis, cumulative_work = 5\<rparr>)],
    genesis = [0], tip = [0], main_chain_by_height = [[0]], finalized_point = None, form = V5\<rparr>, ms_blocks = [([0], first_genesis)], ms_genesis = [0]\<rparr>"
  by (simp add: store_new_for_def chain_new_for_def first_genesis_def sample_hash_def full_header_def block_header_of_def u128_of_def)

lemma first_open: "open_l1 sample_hash V5 first_genesis (Some []) = Some first_node"
proof -
  have "sb_height first_genesis = 0" "sh_tx_body_commitment (sb_header first_genesis) = the (commitment_v5_at 0 (body_new [] []))"
    by (simp_all add: first_genesis_def)
  then have "(open_l1 sample_hash V5 first_genesis (Some []) :: unit node option) \<noteq> None"
    using empty_commitment by (simp add: open_l1_def from_genesis_def genesis_binding_def first_body_of from_bound_genesis_def first_store Let_def)
  then show ?thesis by (simp add: first_node_def)
qed

lemma first_opened: "opened sample_hash first_genesis first_node"
  using first_open by (rule opened.Open_L1)

lemma first_sel:
  "nd_form first_node = V5" "nd_sections first_node = NoSections" "nd_nullifiers first_node = {}" "nd_names first_node = name_registry_new"
  "nd_log first_node = Some []" "node_tip first_node = [0]" "nd_wrapper first_node = None" "nd_auth first_node = auth_context_none"
  "nd_chain first_node = the (store_new_for sample_hash V5 first_genesis)"
proof -
  have b: "from_bound_genesis sample_hash V5 NoSections first_genesis (Some []) = Some first_node"
    using first_open from_genesis_bound by (simp add: open_l1_def)
  then have n: "first_node = the (from_bound_genesis sample_hash V5 NoSections first_genesis (Some []))" by simp
  show "nd_form first_node = V5" "nd_sections first_node = NoSections" "nd_nullifiers first_node = {}"
    "nd_names first_node = name_registry_new" "nd_log first_node = Some []" "node_tip first_node = [0]"
    "nd_wrapper first_node = None" "nd_auth first_node = auth_context_none" "nd_chain first_node = the (store_new_for sample_hash V5 first_genesis)"
    by (simp_all add: n from_bound_genesis_def first_store Let_def)
qed

lemma first_valid: "validate_gated sample_hash sample_sig first_header first_body (\<lambda>_. True) Live first_node = Some (Ok ())"
proof -
  have h: "height first_header = 1" by (simp add: first_header_def)
  have cap: "coinbase_payee_cap_v5_above None 1 = 1" by (simp add: coinbase_payee_cap_v5_above_def payee_cap_v5_at_birth_def)
  have one: "length (coinbase_payees first_body) = 1" by (simp add: first_body_def)
  have bind: "check_body_binding_v5_above None first_header first_body = Some (Ok ())"
    unfolding binding_v5_Ok h cap one using first_commitment by simp
  have "(\<Sum>p\<leftarrow>coinbase_payees first_body. unat (amount p)) = scheduled 1" by (simp add: first_body_def scheduled_def)
  then have sch: "check_payees_capped_and_scheduled 1 1 (coinbase_payees first_body) = Some (Ok ())"
    using payees_scheduled_iff [of 1 1] one by simp
  have "validate_body_form sample_sig (RuleV5 None) first_header first_body (\<lambda>_. True) (gate_anchor Live first_node 1) (registry_view name_registry_new)
      = Some (Ok ())"
    using bind sch one
    by (simp add: validate_body_form_Ok check_binding_def check_schedule_def check_scheduled_coinbase_payees_above_def cap payee_cap_def h)
      (simp add: first_body_def check_sections_def mints_without_payee_def body_nullifiers_def)
  then show ?thesis
    by (simp add: validate_gated_def first_sel validate_body_v5_def validate_body_v5_above_def payee_cap_v5_boundary_def h node_err_def)
qed

definition first_block :: stored_block where
  "first_block =
    \<lparr>sb_header = header_fields first_header, sb_txs = [], sb_coinbase = the (coinbase_exact 1), sb_coinbase_rkm = [1, 2, 3, 4],
     sb_annulet = None, sb_sections = None\<rparr>"

lemma first_parts: "from_parts first_header first_body = Some first_block"
  by (simp add: from_parts_def single_payee_parts_def first_body_def stored_header_of_def first_header_def first_block_def has_v6_sections_def Let_def)

lemma first_block_body: "stored_body first_block = Some first_body"
  by (simp add: stored_body_def coinbase_view_def first_block_def from_single_payee_def with_sections_def first_body_def body_new_def)

lemma first_checks: "\<exists>fx. state_checks sample_sig first_node first_block = Some (Ok fx) \<and> be_matured fx = None \<and> be_exit_leaves fx = []"
proof -
  have h: "sb_height first_block = 1" "sh_tx_body_commitment (sb_header first_block) = tx_body_commitment first_header"
    by (simp_all add: first_block_def header_fields_def first_header_def)
  have c: "check_tx_entry_counts first_body = Ok ()" by (simp add: counts_Ok first_body_def)
  have n: "sb_sections first_block = None" "sb_txs first_block = []" by (simp_all add: first_block_def)
  have "check_stored_binding_with V5 NoSections (ac_form auth_context_none) first_block = Some (Ok ())"
    using first_commitment
    by (simp add: check_stored_binding_with_def first_block_body stored_commitment_def h n c commitment_v5_at_def payee_cap_v5_boundary_def)
  then show ?thesis
    by (simp add: state_checks_def first_sel n record_height_of_def fold_stored_bundle_def bundle_ref_of_def exit_leaves_def
        stored_supply_delta_def stored_registry_after_def matured_leaf_def h matures_coinbase_minted_at_def coinbase_maturity_blocks_def)
qed

lemma first_holds: "holds sample_hash (nd_chain first_node) [first_genesis]"
  using opened_start [OF first_opened] by (simp add: start_ok_def)

lemma first_put: "put_block sample_hash first_block (nd_chain first_node) = Some (Ok [1], store_extend [1] first_block (nd_chain first_node))"
proof -
  have "sb_prev first_block = tip (ms_chain (nd_chain first_node))" by (simp add: first_block_def header_fields_def first_header_def first_sel(6))
  moreover have "insert_weight (form (ms_chain (nd_chain first_node))) (full_header first_block) \<noteq> 0"
    by (rule sane_weight) (simp add: sane_header_def first_block_def header_fields_def first_header_def)
  moreover have "get_block (ms_chain (nd_chain first_node)) [1] = None" by (simp add: first_sel(9) first_store get_block_def)
  moreover have "sample_hash (form (ms_chain (nd_chain first_node))) (full_header first_block) = Some [1]" "sb_height first_block = 1"
    by (simp_all add: sample_hash_def full_header_def block_header_of_def first_block_def header_fields_def first_header_def)
  ultimately show ?thesis using put_at_tip [OF first_holds, of first_block] by simp
qed

definition first_next :: "unit node" where
  "first_next = snd (the (apply_block sample_hash sample_sig first_header first_body (\<lambda>_. True) first_node))"

lemma first_applied:
  "apply_block sample_hash sample_sig first_header first_body (\<lambda>_. True) first_node = Some (Ok [1], first_next)"
  "nd_chain first_next = store_extend [1] first_block (nd_chain first_node)"
proof -
  obtain fx where fx: "state_checks sample_sig first_node first_block = Some (Ok fx)" "be_matured fx = None" "be_exit_leaves fx = []"
    using first_checks by blast
  have "sb_txs first_block = []" by (simp add: first_block_def)
  then have "\<exists>n1. commit_block sample_hash first_block fx first_node = Some (Ok [1], n1)
      \<and> nd_chain n1 = store_extend [1] first_block (nd_chain first_node)"
    using fx(2,3) by (simp add: commit_block_eq first_put new_commitments_def block_commitments_def apply_block_riders_def Let_def)
  then have "\<exists>n1. apply_block sample_hash sample_sig first_header first_body (\<lambda>_. True) first_node = Some (Ok [1], n1)
      \<and> nd_chain n1 = store_extend [1] first_block (nd_chain first_node)"
    using first_valid first_parts fx(1) by (auto simp: apply_block_def apply_block_gated_def first_sel(6) apply_state_def first_header_def)
  then show "apply_block sample_hash sample_sig first_header first_body (\<lambda>_. True) first_node = Some (Ok [1], first_next)"
    "nd_chain first_next = store_extend [1] first_block (nd_chain first_node)" by (auto simp: first_next_def)
qed

lemma first_sane: "sane_header (nd_form first_node) first_header"
  by (simp add: sane_header_def first_header_def)

lemma first_reach: "reach sample_hash sample_sig (\<lambda>_ _ _. True) first_node first_next"
  using reach.Reach_Block [OF reach.Reach_Start first_sane] first_applied(1) unfolding apply_block_def by blast

lemma first_blocks: "chain_blocks first_next = [first_genesis, first_block]" "main_hashes (nd_chain first_next) = [[0], [1]]"
  "fin_of (nd_chain first_next) = None"
  by (simp_all add: chain_blocks_def first_applied(2) store_extend_def chain_extend_def first_sel(9) first_store store_block_def)

text \<open>The node after the block is finalized.\<close>

definition first_final :: "unit node" where
  "first_final = snd (the (finalize [1] first_next))"

lemma first_finalized: "finalize [1] first_next = Some (Recorded, first_final)"
  "nd_chain first_final = set_fin (Some \<lparr>fp_hash = [1], fp_height = 1\<rparr>) (nd_chain first_next)"
proof -
  have hold: "holds sample_hash (nd_chain first_next) [first_genesis, first_block]"
  proof (rule reach_built [OF first_opened first_reach])
    fix bs m assume "follows sample_hash sample_sig first_genesis first_node bs m first_next" "start_ok sample_hash first_genesis first_node"
    then show ?thesis using follows_holds follows_blocks first_blocks(1) by metis
  qed
  then have "store_set_finalized [1] (nd_chain first_next) = Some (Ok (), set_fin (Some \<lparr>fp_hash = [1], fp_height = 1\<rparr>) (nd_chain first_next))"
    using mark_branch(1) [OF hold, of 1] by (simp add: first_blocks mark_result_def)
  then show "finalize [1] first_next = Some (Recorded, first_final)"
    "nd_chain first_final = set_fin (Some \<lparr>fp_hash = [1], fp_height = 1\<rparr>) (nd_chain first_next)"
    by (simp_all add: first_final_def finalize_def)
qed

lemma first_final_reach: "reach sample_hash sample_sig (\<lambda>_ _ _. True) first_node first_final"
  using reach.Reach_Finalize [OF first_reach first_finalized(1)] .

lemma first_final_blocks: "chain_blocks first_final = [first_genesis, first_block]" "main_hashes (nd_chain first_final) = [[0], [1]]"
  using first_blocks by (simp_all add: first_finalized(2) chain_blocks_def)

lemma first_roots: "\<exists>r0 r1. nd_roots_by_height first_final = [(0, r0), (1, r1)]"
proof (rule reach_built [OF first_opened first_final_reach])
  fix bs m
  assume f: "follows sample_hash sample_sig first_genesis first_node bs m first_final" and start: "start_ok sample_hash first_genesis first_node"
    and clean: "clean_start first_node"
  have bs: "bs = [first_block]" using follows_blocks [OF f start] first_final_blocks(1) by simp
  show ?thesis
  proof (rule follows_indexed [OF f start clean])
    fix rs :: "hash32 list" assume "indexed first_final rs" "length rs = Suc (length bs)"
    then show ?thesis by (auto simp: bs indexed_def length_Suc_conv)
  qed
qed

lemma first_tip: "node_tip_height first_final = 1" "node_finalized_height first_final = Some 1"
proof -
  have "holds sample_hash (nd_chain first_final) [first_genesis, first_block]"
  proof (rule reach_built [OF first_opened first_final_reach])
    fix bs m assume "follows sample_hash sample_sig first_genesis first_node bs m first_final" "start_ok sample_hash first_genesis first_node"
    then show ?thesis using follows_holds follows_blocks first_final_blocks(1) by metis
  qed
  from holds_tip_height [OF this] show "node_tip_height first_final = 1" by (simp add: node_tip_height_def)
  show "node_finalized_height first_final = Some 1" by (simp add: node_finalized_height_def chain_finalized_height_def first_finalized(2))
qed

section \<open>Witnesses\<close>

lemma node_is_fold_witness:
  "\<exists>m. apply_states sample_hash sample_sig [first_block] first_node = Some (Ok (), m)
    \<and> first_final = remark (Some \<lparr>fp_hash = [1], fp_height = 1\<rparr>) (nd_retained first_final) (nd_log first_final) m
    \<and> node_tip_height first_final = 1"
  using node_is_fold [OF first_opened first_final_reach] by (simp add: first_final_blocks first_finalized(2) first_tip)

lemma rewind_exact_witness:
  "rewind_to sample_hash sample_sig [9] first_next = Some (Err (NodeRewind UnknownTarget), first_next)
    \<and> (\<exists>rep r. rewind_to sample_hash sample_sig [0] first_next = Some (Ok rep, remark None r (nd_log first_next) first_node))"
proof -
  have "0 + 1 < length (chain_blocks first_next)" "[9] \<notin> set (main_hashes (nd_chain first_next))" by (simp_all add: first_blocks)
  from rewind_exact [OF first_opened first_reach this] show ?thesis by (auto simp: first_blocks)
qed

lemma restart_resumes_witness:
  "\<exists>l R rep r. nd_log first_final = Some l
    \<and> resume_by_replay sample_hash sample_sig V5 NoSections first_genesis (annulet_setup_of first_node) (v6_setup_of first_node) l = Some (Ok (), R)
    \<and> rewind_to sample_hash sample_sig (node_tip first_final) R = Some (Ok rep, first_final\<lparr>nd_retained := r\<rparr>)"
  using restart_resumes [OF first_opened first_final_reach first_sel(5)] by (simp add: first_sel(1,2))

lemma nullifiers_spent_once_witness:
  "nd_nullifiers_ordered first_final = [] \<and> nd_nullifiers first_final = {}"
  using nullifiers_spent_once [OF first_opened first_final_reach]
  by (simp add: first_final_blocks block_nullifiers_def) (simp add: first_block_def)

lemma roots_are_history_witness:
  "map fst (nd_roots_by_height first_final) = [0, 1]
    \<and> (\<exists>mk. apply_states sample_hash sample_sig [first_block] first_node = Some (Ok (), mk)
      \<and> snd (nd_roots_by_height first_final ! 1) = digest_bytes (merkle tree_depth (map digest_from_bytes (nd_commitments_ordered mk))))"
proof -
  have "1 < length (chain_blocks first_final)" by (simp add: first_final_blocks)
  from roots_are_history [OF first_opened first_final_reach this] show ?thesis
    by (simp add: first_final_blocks upt_conv_Cons)
qed

lemma settled_gate_scans_witness:
  "is_valid_anchor_as_of first_final (snd (hd (nd_roots_by_height first_final))) 1"
proof -
  obtain r0 r1 where r: "nd_roots_by_height first_final = [(0, r0), (1, r1)]" using first_roots by blast
  then have "\<exists>h. (h, r0) \<in> set (nd_roots_by_height first_final) \<and> h < 1 \<and> unat (1 :: u64) \<le> unat h + unat max_anchor_age_blocks"
    by (intro exI [of _ 0]) (simp add: max_anchor_age_blocks_def)
  then show ?thesis using settled_gate_scans [OF first_opened first_final_reach, of r0 1] r by simp
qed

lemma live_anchor_settles_inside_window_witness:
  "is_valid_anchor first_final (snd (hd (nd_roots_by_height first_final)))
    \<and> is_valid_anchor_as_of first_final (snd (hd (nd_roots_by_height first_final))) 2"
proof -
  obtain r0 r1 where r: "nd_roots_by_height first_final = [(0, r0), (1, r1)]" using first_roots by blast
  have live: "is_valid_anchor first_final r0"
    by (simp add: is_valid_anchor_def first_tip r max_anchor_age_blocks_def sat_sub_def)
  have "\<exists>h. (h, r0) \<in> set (nd_roots_by_height first_final) \<and> unat (node_tip_height first_final) < unat h + unat max_anchor_age_blocks"
    by (intro exI [of _ 0]) (simp add: max_anchor_age_blocks_def first_tip r)
  then show ?thesis using live_anchor_settles_inside_window [OF first_opened first_final_reach live] live r first_tip by simp
qed

lemma refused_block_leaves_no_trace_witness:
  "apply_block_gated sample_hash sample_sig first_header first_body (\<lambda>_. True) Live first_final
    = Some (Err (NotExtendingTip [1] [0]), first_final)"
proof -
  define sealed where "sealed = \<lparr>sl_header = first_header, sl_sig = []\<rparr>"
  have tip: "node_tip first_final = [1]" by (simp add: first_finalized(2) first_applied(2) store_extend_def chain_extend_def)
  have "prev first_header = [0]" by (simp add: first_header_def)
  then have "\<exists>n'. apply_block_gated sample_hash sample_sig (sl_header sealed) first_body (\<lambda>_. True) Live first_final
      = Some (Err (NotExtendingTip [1] [0]), n')"
    by (simp add: apply_block_gated_def sealed_def tip)
  then obtain n' where a: "apply_block_gated sample_hash sample_sig (sl_header sealed) first_body (\<lambda>_. True) Live first_final
      = Some (Err (NotExtendingTip [1] [0]), n')" by blast
  have "n' = first_final"
    by (rule refused_block_leaves_no_trace [OF first_opened first_final_reach _ disjI1 [OF a]]) (simp add: sealed_def first_sane)
  then show ?thesis using a by (simp add: sealed_def)
qed

lemma retained_within_budget_witness:
  "length (rb_by_hash (nd_retained first_final)) \<le> 64
    \<and> rb_bytes (nd_retained first_final) = sum_list (map (retained_weight \<circ> snd) (rb_by_hash (nd_retained first_final)))"
  using retained_within_budget [OF first_opened first_final_reach] by (simp add: max_retained_bodies_def)

end
