(* ===== verification/Supply_Ledger.thy ===== *)
theory Supply_Ledger
  imports Node_Facts
begin

text \<open>
  The supply ledger of an Annulet chain, recomputed from its public bodies (\<open>AssetLedger\<close> of
  \<open>qlab-node/src/asset_supply.rs\<close>), and its agreement with the books the node keeps. The amounts are natural
  numbers and integers: a \<open>u128\<close> or \<open>i128\<close> sum of 64-bit amounts would need more than \<open>2^63\<close> terms to wrap.
  A divergence is a value and not a printed line; the attestation document and the comparison with a
  claimed one are not modelled.
\<close>

section \<open>The ledger\<close>

record flow =
  fl_minted :: nat
  fl_redeemed :: nat

definition no_flow :: flow where "no_flow = \<lparr>fl_minted = 0, fl_redeemed = 0\<rparr>"

definition flow_net :: "flow \<Rightarrow> int" where
  "flow_net f = int (fl_minted f) - int (fl_redeemed f)"

definition flow_plus :: "flow \<Rightarrow> flow \<Rightarrow> flow" where
  "flow_plus e f = \<lparr>fl_minted = fl_minted e + fl_minted f, fl_redeemed = fl_redeemed e + fl_redeemed f\<rparr>"

record asset_ledger =
  al_tip_height :: u64
  al_flows :: "(u64 \<times> (u16 \<times> flow) list) list"
  al_genesis :: "(u16 \<times> nat) list"

definition flow_at :: "(u16 \<times> flow) list \<Rightarrow> u16 \<Rightarrow> flow" where
  "flow_at per a = (case map_of per a of None \<Rightarrow> no_flow | Some f \<Rightarrow> f)"

definition flows_at :: "(u64 \<times> (u16 \<times> 'v) list) list \<Rightarrow> u64 \<Rightarrow> (u16 \<times> 'v) list" where
  "flows_at flows h = (case map_of flows h of None \<Rightarrow> [] | Some per \<Rightarrow> per)"

definition add_flow :: "vpublic_term \<Rightarrow> (u16 \<times> flow) list \<Rightarrow> (u16 \<times> flow) list" where
  "add_flow t per =
    (let f = flow_at per (vt_asset t)
     in bt_insert (vt_asset t)
          (if vt_redeem t then f\<lparr>fl_redeemed := fl_redeemed f + unat (vt_amount t)\<rparr>
           else f\<lparr>fl_minted := fl_minted f + unat (vt_amount t)\<rparr>) per)"

definition add_flow_at :: "u64 \<Rightarrow> vpublic_term \<Rightarrow> (u64 \<times> (u16 \<times> flow) list) list \<Rightarrow> (u64 \<times> (u16 \<times> flow) list) list" where
  "add_flow_at h t flows = (if vt_amount t = 0 then flows else bt_insert h (add_flow t (flows_at flows h)) flows)"

definition ledger_fold :: "u64 \<Rightarrow> (u64 \<times> block_body) list \<Rightarrow> asset_ledger" where
  "ledger_fold tiph bodies =
    \<lparr>al_tip_height = tiph,
     al_flows = bt_retain (\<lambda>_ m. m \<noteq> [])
       (fold (\<lambda>(h, b) flows. fold (\<lambda>t flows. fold (add_flow_at h) (tx_terms t) flows) (txs b) flows) bodies []),
     al_genesis = []\<rparr>"

definition with_genesis :: "(u16 \<times> nat) list \<Rightarrow> asset_ledger \<Rightarrow> asset_ledger" where
  "with_genesis issued l = l\<lparr>al_genesis := issued\<rparr>"

definition add_totals :: "(u16 \<times> flow) list \<Rightarrow> (u16 \<times> flow) list \<Rightarrow> (u16 \<times> flow) list" where
  "add_totals per t = fold (\<lambda>(a, f) t. bt_insert a (flow_plus (flow_at t a) f) t) per t"

definition ledger_totals :: "asset_ledger \<Rightarrow> (u16 \<times> flow) list" where
  "ledger_totals l = fold (\<lambda>(_, per) t. add_totals per t) (al_flows l) []"

definition ledger_outstanding :: "asset_ledger \<Rightarrow> (u16 \<times> int) list" where
  "ledger_outstanding l =
    fold (\<lambda>(a, f) out. bt_insert a (supply_at out a + flow_net f) out) (ledger_totals l) (map (\<lambda>(a, v). (a, int v)) (al_genesis l))"

section \<open>Comparing with the node\<close>

datatype divergence =
    OutstandingDiffers u16 int int
  | DeltaDiffers u64 u16 int int

definition key_union :: "('k::linorder \<times> 'v) list \<Rightarrow> ('k \<times> 'w) list \<Rightarrow> 'k list" where
  "key_union m n = sort (remdups (map fst m @ map fst n))"

definition outstanding_diff :: "(u16 \<times> int) list \<Rightarrow> (u16 \<times> int) list \<Rightarrow> divergence list" where
  "outstanding_diff mine theirs =
    concat (map (\<lambda>a. if supply_at mine a \<noteq> supply_at theirs a then [OutstandingDiffers a (supply_at mine a) (supply_at theirs a)] else [])
      (key_union mine theirs))"

definition delta_diff :: "u64 \<Rightarrow> (u16 \<times> int) list \<Rightarrow> (u16 \<times> int) list \<Rightarrow> divergence list" where
  "delta_diff h mine theirs =
    concat (map (\<lambda>a. if supply_at mine a \<noteq> supply_at theirs a then [DeltaDiffers h a (supply_at mine a) (supply_at theirs a)] else [])
      (key_union mine theirs))"

definition compare_with_node :: "asset_ledger \<Rightarrow> (u16 \<times> int) list \<Rightarrow> (u64 \<times> (u16 \<times> int) list) list \<Rightarrow> divergence list" where
  "compare_with_node l outstanding deltas =
    outstanding_diff (ledger_outstanding l) outstanding
    @ concat (map (\<lambda>h. delta_diff h (map (\<lambda>(a, f). (a, flow_net f)) (flows_at (al_flows l) h)) (flows_at deltas h))
        (key_union (al_flows l) deltas))"

section \<open>The attestation of a node\<close>

text \<open>\<open>main_chain_bodies\<close>, from the tip down to the genesis, and \<open>ledger_of\<close> (\<open>qumbra-explorer/src/attest.rs\<close>).
  A stored block whose body cannot be restored is the panic of \<open>body()\<close>.\<close>

partial_function (option) bodies_walk :: "mem_chain_store \<Rightarrow> hash32 \<Rightarrow> (u64 \<times> block_body) list option" where
  "bodies_walk s cur =
    (case store_block s cur of
       None \<Rightarrow> Some []
     | Some b \<Rightarrow>
         (case stored_body b of
            None \<Rightarrow> None
          | Some body \<Rightarrow>
              if sb_height b = 0 then Some [(sb_height b, body)]
              else Option.bind (bodies_walk s (sb_prev b)) (\<lambda>xs. Some ((sb_height b, body) # xs))))"

definition main_chain_bodies :: "mem_chain_store \<Rightarrow> (u64 \<times> (u64 \<times> block_body) list) option" where
  "main_chain_bodies s = map_option (\<lambda>xs. (case xs of [] \<Rightarrow> 0 | (h, _) # _ \<Rightarrow> h, xs)) (bodies_walk s (tip (ms_chain s)))"

definition ledger_of :: "'k node \<Rightarrow> (u16 \<times> nat) list \<Rightarrow> (asset_ledger \<times> divergence list) option option" where
  "ledger_of n issued =
    (case nd_registry n of
       None \<Rightarrow> Some None
     | Some _ \<Rightarrow>
         map_option (\<lambda>(tiph, bodies).
           let l = with_genesis issued (ledger_fold tiph bodies)
           in Some (l, compare_with_node l (nd_outstanding n) (nd_supply_deltas n)))
         (main_chain_bodies (nd_chain n)))"

section \<open>What the ledger adds up\<close>

definition body_terms :: "block_body \<Rightarrow> vpublic_term list" where
  "body_terms b = concat (map tx_terms (txs b))"

definition flows_net :: "(u64 \<times> (u16 \<times> flow) list) list \<Rightarrow> u64 \<Rightarrow> u16 \<Rightarrow> int" where
  "flows_net flows h a = flow_net (flow_at (flows_at flows h) a)"

definition flows_total :: "(u64 \<times> (u16 \<times> flow) list) list \<Rightarrow> u16 \<Rightarrow> int" where
  "flows_total flows a = (\<Sum>(_, per)\<leftarrow>flows. flow_net (flow_at per a))"

definition flows_ok :: "(u64 \<times> (u16 \<times> flow) list) list \<Rightarrow> bool" where
  "flows_ok flows \<longleftrightarrow> bt_ok flows \<and> (\<forall>(_, per) \<in> set flows. bt_ok per)"

lemma flow_net_no [simp]: "flow_net no_flow = 0"
  by (simp add: flow_net_def no_flow_def)

lemma flow_at_Nil [simp]: "flow_at [] a = no_flow"
  by (simp add: flow_at_def)

lemma add_flow_net: "flow_net (flow_at (add_flow t per) a) = flow_net (flow_at per a) + (if vt_asset t = a then signed_term t else 0)"
  by (simp add: add_flow_def Let_def flow_at_def map_of_bt_insert flow_net_def signed_term_def)

lemma sum_bt_insert:
  "bt_ok m \<Longrightarrow> (\<Sum>(_, v)\<leftarrow>bt_insert k v0 m. (f v :: int)) = (\<Sum>(_, v)\<leftarrow>m. f v) + f v0 - (case map_of m k of None \<Rightarrow> 0 | Some v \<Rightarrow> f v)"
proof (induction k v0 m rule: bt_insert.induct)
  case (2 k v k' v' m)
  have "k < k' \<Longrightarrow> map_of m k = None" using 2(2) by (auto simp: bt_ok_Cons map_of_eq_None_iff)
  with 2 show ?case by (auto simp: bt_ok_Cons)
qed simp

lemma flows_at_ok: "flows_ok flows \<Longrightarrow> bt_ok (flows_at flows h)"
  by (auto simp: flows_ok_def flows_at_def split: option.splits dest: map_of_SomeD)

lemma add_flow_at_spec:
  assumes "flows_ok flows"
  shows "flows_ok (add_flow_at h t flows)
    \<and> flows_net (add_flow_at h t flows) h' a = flows_net flows h' a + (if h' = h \<and> vt_asset t = a then signed_term t else 0)
    \<and> flows_total (add_flow_at h t flows) a = flows_total flows a + (if vt_asset t = a then signed_term t else 0)"
proof (cases "vt_amount t = 0")
  case True
  then show ?thesis using assms by (simp add: add_flow_at_def signed_term_def)
next
  case False
  have "bt_ok (add_flow t (flows_at flows h))" using flows_at_ok [OF assms] by (simp add: add_flow_def Let_def bt_ok_insert)
  then have "flows_ok (bt_insert h (add_flow t (flows_at flows h)) flows)"
    using assms by (auto simp: flows_ok_def bt_ok_insert dest!: bt_insert_mem)
  moreover have "flows_net (bt_insert h (add_flow t (flows_at flows h)) flows) h' a = flows_net flows h' a + (if h' = h \<and> vt_asset t = a then signed_term t else 0)"
    by (simp add: flows_net_def flows_at_def map_of_bt_insert add_flow_net)
  moreover have "flow_net (flow_at (flows_at flows h) a) = (case map_of flows h of None \<Rightarrow> 0 | Some per \<Rightarrow> flow_net (flow_at per a))"
    by (simp add: flows_at_def split: option.splits)
  then have "flows_total (bt_insert h (add_flow t (flows_at flows h)) flows) a = flows_total flows a + (if vt_asset t = a then signed_term t else 0)"
    using assms unfolding flows_total_def flows_ok_def
    by (subst sum_bt_insert [where f = "\<lambda>per. flow_net (flow_at per a)"]) (simp_all add: add_flow_net)
  ultimately show ?thesis using False by (simp add: add_flow_at_def)
qed

lemma add_flows_spec:
  "flows_ok flows \<Longrightarrow> flows_ok (fold (add_flow_at h) ts flows)
    \<and> flows_net (fold (add_flow_at h) ts flows) h' a = flows_net flows h' a + (if h' = h then asset_sum a ts else 0)
    \<and> flows_total (fold (add_flow_at h) ts flows) a = flows_total flows a + asset_sum a ts"
proof (induction ts arbitrary: flows)
  case (Cons t ts)
  then show ?case using add_flow_at_spec [OF Cons.prems, of h t h' a] by (simp add: asset_sum_def)
qed (simp add: asset_sum_def)

lemma fold_terms: "fold (\<lambda>t flows. fold (add_flow_at h) (tx_terms t) flows) ts flows = fold (add_flow_at h) (concat (map tx_terms ts)) flows"
  by (induction ts arbitrary: flows) simp_all

lemma add_bodies_spec:
  "flows_ok flows \<Longrightarrow> (let out = fold (\<lambda>(h, b) flows. fold (\<lambda>t flows. fold (add_flow_at h) (tx_terms t) flows) (txs b) flows) bodies flows
    in flows_ok out \<and> flows_net out h' a = flows_net flows h' a + (\<Sum>(h, b)\<leftarrow>bodies. if h' = h then asset_sum a (body_terms b) else 0)
      \<and> flows_total out a = flows_total flows a + (\<Sum>(h, b)\<leftarrow>bodies. asset_sum a (body_terms b)))"
proof (induction bodies arbitrary: flows)
  case (Cons x bodies)
  obtain h b where x: "x = (h, b)" by fastforce
  note s = add_flows_spec [OF Cons.prems, of h "body_terms b" h' a]
  show ?case using Cons.IH [of "fold (add_flow_at h) (body_terms b) flows"] s
    by (simp add: x fold_terms Let_def flip: body_terms_def)
qed (simp add: Let_def)

lemma ledger_fold_spec:
  "flows_ok (al_flows (ledger_fold tiph bodies))
    \<and> flows_net (al_flows (ledger_fold tiph bodies)) h a = (\<Sum>(h', b)\<leftarrow>bodies. if h = h' then asset_sum a (body_terms b) else 0)
    \<and> flows_total (al_flows (ledger_fold tiph bodies)) a = (\<Sum>(h, b)\<leftarrow>bodies. asset_sum a (body_terms b))"
proof -
  define out where "out = fold (\<lambda>(h, b) flows. fold (\<lambda>t flows. fold (add_flow_at h) (tx_terms t) flows) (txs b) flows) bodies []"
  have o: "flows_ok out" "flows_net out h a = (\<Sum>(h', b)\<leftarrow>bodies. if h = h' then asset_sum a (body_terms b) else 0)"
    "flows_total out a = (\<Sum>(h, b)\<leftarrow>bodies. asset_sum a (body_terms b))"
    using add_bodies_spec [of "[]" bodies h a]
    by (simp_all add: out_def [symmetric] Let_def flows_ok_def flows_net_def flows_at_def flows_total_def)
  have l: "al_flows (ledger_fold tiph bodies) = bt_retain (\<lambda>_ m. m \<noteq> []) out" by (simp add: ledger_fold_def out_def)
  have "flows_ok (bt_retain (\<lambda>_ m. m \<noteq> []) out)" using o(1) bt_ok_retain by (auto simp: flows_ok_def bt_retain_def)
  moreover have "flows_at (bt_retain (\<lambda>_ m. m \<noteq> []) out) h = flows_at out h"
    using map_of_retain_values [OF bt_ok_distinct, of out "\<lambda>m. m \<noteq> []" h] o(1) by (auto simp: flows_at_def flows_ok_def split: option.splits)
  moreover have "flows_total (bt_retain (\<lambda>_ m. m \<noteq> []) out) a = flows_total out a"
    unfolding flows_total_def bt_retain_def by (induction out) auto
  ultimately show ?thesis using o by (simp add: l flows_net_def)
qed

lemma keyed_sum:
  "bt_ok m \<Longrightarrow> (\<Sum>(k', v)\<leftarrow>m. if k' = k then (g v :: int) else 0) = (case map_of m k of None \<Rightarrow> 0 | Some v \<Rightarrow> g v)"
proof (induction m)
  case (Cons x m)
  obtain b v where x: "x = (b, v)" by fastforce
  have "map_of m b = None" using Cons.prems by (auto simp: x bt_ok_Cons map_of_eq_None_iff)
  then show ?case using Cons by (auto simp: x bt_ok_Cons)
qed simp

lemma flow_at_sum: "bt_ok per \<Longrightarrow> (\<Sum>(a', f)\<leftarrow>per. if a' = a then flow_net f else 0) = flow_net (flow_at per a)"
  by (simp add: keyed_sum flow_at_def split: option.splits)

lemma totals_step:
  "bt_ok t \<Longrightarrow> bt_ok (add_totals per t)
    \<and> flow_net (flow_at (add_totals per t) a) = flow_net (flow_at t a) + (\<Sum>(a', f)\<leftarrow>per. if a' = a then flow_net f else 0)"
proof (induction per arbitrary: t)
  case (Cons x per)
  obtain b f where x: "x = (b, f)" by fastforce
  have "bt_ok (bt_insert b (flow_plus (flow_at t b) f) t)" using Cons.prems by (rule bt_ok_insert)
  moreover have "flow_net (flow_at (bt_insert b (flow_plus (flow_at t b) f) t) a) = flow_net (flow_at t a) + (if b = a then flow_net f else 0)"
    by (simp add: flow_at_def map_of_bt_insert flow_plus_def flow_net_def)
  ultimately show ?case using Cons.IH [of "bt_insert b (flow_plus (flow_at t b) f) t"] by (simp add: x add_totals_def)
qed (simp add: add_totals_def)

lemma totals_fold:
  "bt_ok t \<Longrightarrow> flows_ok flows \<Longrightarrow> bt_ok (fold (\<lambda>(_, per) t. add_totals per t) flows t)
    \<and> flow_net (flow_at (fold (\<lambda>(_, per) t. add_totals per t) flows t) a) = flow_net (flow_at t a) + flows_total flows a"
proof (induction flows arbitrary: t)
  case (Cons x flows)
  obtain h per where x: "x = (h, per)" by fastforce
  have ok: "flows_ok flows" "bt_ok per" using Cons.prems(2) by (auto simp: x flows_ok_def bt_ok_Cons)
  show ?case using Cons.IH [OF conjunct1 [OF totals_step [OF Cons.prems(1), of per a]] ok(1)]
      totals_step [OF Cons.prems(1), of per a] flow_at_sum [OF ok(2), of a]
    by (simp add: x flows_total_def)
qed (simp add: flows_total_def)

lemma supply_fold:
  "supply_at (fold (\<lambda>(a, f) out. bt_insert a (supply_at out a + g f) out) xs out) a
    = supply_at out a + (\<Sum>(a', f)\<leftarrow>xs. if a' = a then g f else 0)"
proof (induction xs arbitrary: out)
  case (Cons x xs)
  obtain b f where x: "x = (b, f)" by fastforce
  have "supply_at (bt_insert b (supply_at out b + g f) out) a = supply_at out a + (if b = a then g f else 0)"
    by (simp add: supply_at_def map_of_bt_insert)
  then show ?case by (simp add: x Cons.IH)
qed simp

lemma outstanding_spec:
  assumes "flows_ok (al_flows l)"
  shows "supply_at (ledger_outstanding l) a = supply_at (map (\<lambda>(a, v). (a, int v)) (al_genesis l)) a + flows_total (al_flows l) a"
  using totals_fold [of "[]" "al_flows l" a] assms flow_at_sum [of "ledger_totals l" a]
  by (simp add: ledger_outstanding_def supply_fold ledger_totals_def)

lemma compare_agrees:
  assumes "\<And>a. supply_at (ledger_outstanding l) a = supply_at outs a"
    and "\<And>h a. flows_net (al_flows l) h a = supply_at (flows_at deltas h) a"
  shows "compare_with_node l outs deltas = []"
proof -
  have "supply_at (map (\<lambda>(a, f). (a, flow_net f)) per) a = flow_net (flow_at per a)" for per a
    by (simp add: supply_at_def flow_at_def map_of_map split: option.splits)
  then show ?thesis using assms by (simp add: compare_with_node_def outstanding_diff_def delta_diff_def flows_net_def)
qed

section \<open>What the node books\<close>

text \<open>The terms of a stored block.\<close>

definition block_terms :: "stored_block \<Rightarrow> vpublic_term list" where
  "block_terms b = (case stored_body b of None \<Rightarrow> [] | Some body \<Rightarrow> body_terms body)"

lemma delta_supply: "supply_at (annulet_supply_delta body) a = asset_sum a (body_terms body)"
  using supply_delta_is [of body a] by (auto simp: supply_at_def body_terms_def Let_def)

lemma supply_add:
  assumes "bt_ok delta"
  shows "supply_at (add_supply delta m) a = supply_at m a + supply_at delta a"
proof -
  have "(\<Sum>(a', d)\<leftarrow>delta. if a' = a then d else 0) = supply_at delta a"
    unfolding supply_at_def by (rule keyed_sum [OF assms])
  then show ?thesis using supply_fold [of "\<lambda>x. x" delta m a] by (simp add: add_supply_def)
qed

lemma checks_supply:
  assumes "state_checks sg n b = Some (Ok fx)" and "nd_form n = Annulet"
  shows "stored_body b \<noteq> None" and "bt_ok (be_supply_delta fx)" and "supply_at (be_supply_delta fx) a = asset_sum a (block_terms b)"
    and "0 \<le> supply_at (nd_outstanding n) a \<Longrightarrow> 0 \<le> supply_at (nd_outstanding n) a + supply_at (be_supply_delta fx) a"
proof -
  have "stored_supply_delta n b = Some (Ok (be_supply_delta fx))"
    using assms(1) unfolding state_checks_def by (auto simp: and_then_Ok)
  then obtain body where body: "stored_body b = Some body" "be_supply_delta fx = annulet_supply_delta body"
    and none: "find (\<lambda>(a, d). supply_at (nd_outstanding n) a + d < 0) (annulet_supply_delta body) = None"
    using assms(2) by (auto simp: stored_supply_delta_def Let_def split: option.splits)
  show "stored_body b \<noteq> None" using body by simp
  show ok: "bt_ok (be_supply_delta fx)" using supply_delta_is [of body] body by simp
  show "supply_at (be_supply_delta fx) a = asset_sum a (block_terms b)" by (simp add: body delta_supply block_terms_def)
  show "0 \<le> supply_at (nd_outstanding n) a + supply_at (be_supply_delta fx) a" if "0 \<le> supply_at (nd_outstanding n) a"
  proof (cases "map_of (annulet_supply_delta body) a")
    case None
    then show ?thesis using that by (simp add: body supply_at_def)
  next
    case (Some d)
    then have "(a, d) \<in> set (annulet_supply_delta body)" by (rule map_of_SomeD)
    then show ?thesis using none Some by (force simp: body supply_at_def find_None_iff)
  qed
qed

definition books :: "(u16 \<times> int) list \<Rightarrow> stored_block list \<Rightarrow> 'k node \<Rightarrow> bool" where
  "books issued bs m \<longleftrightarrow>
    (\<forall>a. supply_at (nd_outstanding m) a = supply_at issued a + (\<Sum>b\<leftarrow>bs. asset_sum a (block_terms b)) \<and> 0 \<le> supply_at (nd_outstanding m) a)
    \<and> (\<forall>h a. supply_at (flows_at (nd_supply_deltas m) h) a = (\<Sum>b\<leftarrow>bs. if h = sb_height b then asset_sum a (block_terms b) else 0))
    \<and> (\<forall>b \<in> set bs. stored_body b \<noteq> None)"

lemma sum_list_map_rev: "sum_list (map f (rev xs)) = sum_list (map f xs)" for f :: "'a \<Rightarrow> int"
  by (induction xs) simp_all

lemma flows_at_insert: "flows_at (bt_insert h v m) h' = (if h' = h then v else flows_at m h')"
  by (simp add: flows_at_def map_of_bt_insert)

lemma books_extend:
  assumes books: "books issued bs m" and fx: "state_checks sg m b = Some (Ok fx)" and fm: "nd_form m = Annulet"
    and fresh: "\<forall>b' \<in> set bs. sb_height b' \<noteq> sb_height b"
    and out: "nd_outstanding m' = (if be_supply_delta fx = [] then nd_outstanding m else add_supply (be_supply_delta fx) (nd_outstanding m))"
    and deltas: "nd_supply_deltas m' = (if be_supply_delta fx = [] then nd_supply_deltas m
      else bt_insert (sb_height b) (be_supply_delta fx) (nd_supply_deltas m))"
  shows "books issued (bs @ [b]) m'"
proof -
  note c = checks_supply [OF fx fm]
  have zero: "(\<Sum>b'\<leftarrow>bs. if sb_height b = sb_height b' then asset_sum a (block_terms b') else 0) = 0" for a
    using fresh by (induction bs) auto
  have "supply_at (nd_outstanding m') a = supply_at (nd_outstanding m) a + asset_sum a (block_terms b)" for a
  proof (cases "be_supply_delta fx = []")
    case True
    then show ?thesis using c(3) [of a] by (simp add: out) (simp add: supply_at_def)
  qed (simp add: out supply_add [OF c(2)] c(3))
  moreover have "0 \<le> supply_at (nd_outstanding m) a + asset_sum a (block_terms b)" for a
  proof -
    have "0 \<le> supply_at (nd_outstanding m) a" using books unfolding books_def by blast
    from c(4) [OF this] show ?thesis by (simp add: c(3))
  qed
  moreover have "supply_at (flows_at (nd_supply_deltas m') h) a
      = (\<Sum>b'\<leftarrow>bs @ [b]. if h = sb_height b' then asset_sum a (block_terms b') else 0)" for h a
  proof -
    have old: "supply_at (flows_at (nd_supply_deltas m) h) a = (\<Sum>b'\<leftarrow>bs. if h = sb_height b' then asset_sum a (block_terms b') else 0)"
      using books by (simp add: books_def)
    show ?thesis
    proof (cases "be_supply_delta fx = []")
      case True
      then have "asset_sum a (block_terms b) = 0" using c(3) [of a] by (simp add: supply_at_def)
      then show ?thesis using True old by (simp add: deltas)
    next
      case False
      then show ?thesis using old zero [of a] c(3) [of a] by (simp add: deltas flows_at_insert)
    qed
  qed
  ultimately show ?thesis using books c(1) by (simp add: books_def)
qed

lemma built_books:
  assumes "built hh sg n0 bs m" and "start_ok hh g n0" and "nd_form n0 = Annulet" and "nd_supply_deltas n0 = []"
    and "\<And>a. 0 \<le> supply_at (nd_outstanding n0) a" and "nd_registry n0 \<noteq> None"
  shows "books (nd_outstanding n0) bs m \<and> nd_registry m \<noteq> None"
  using assms
proof (induction rule: built.induct)
  case Built_Start
  then show ?case by (simp add: books_def flows_at_def supply_at_def)
next
  case (Built_Block bs m b hash m')
  note f = built_facts [OF Built_Block(1) Built_Block(6)]
  have sane: "sane_header (form (ms_chain (nd_chain m))) (full_header b)" using Built_Block(3) f(2) by simp
  have fm: "nd_form m = Annulet" using f(3) Built_Block(7) by (simp add: config_def)
  have IH: "books (nd_outstanding n0) bs m" "nd_registry m \<noteq> None" using Built_Block.IH [OF Built_Block.prems] by auto
  have h: "sb_height b = word_of_nat (Suc (length bs))" using built_hashes(3) [OF Built_Block(1) Built_Block(6) Built_Block(2-4)] .
  have fresh: "\<forall>b' \<in> set bs. sb_height b' \<noteq> sb_height b"
  proof
    fix b' assume "b' \<in> set bs"
    then obtain j where j: "j < length bs" "b' = bs ! j" by (auto simp: in_set_conv_nth)
    then have "unat (sb_height b') = Suc j" using holds_height(1) [OF f(1), of "Suc j"] by simp
    moreover have "Suc (length bs) < 2 ^ 64" using holdsD(4) [OF f(1)] by simp
    then have "unat (sb_height b) = Suc (length bs)" by (simp add: h unat_of_nat_len del: of_nat_Suc)
    ultimately show "sb_height b' \<noteq> sb_height b" using j(1) by auto
  qed
  show ?case
  proof (rule apply_state_Ok [OF f(1) Built_Block(2) sane Built_Block(4)])
    fix fx t reg
    assume fx: "state_checks sg m b = Some (Ok fx)"
      and m': "m' = settle_effects hash b fx ((with_contents b fx t (store_extend hash b (nd_chain m)) m)\<lparr>nd_names := reg\<rparr>)"
    have "books (nd_outstanding n0) (bs @ [b]) m'"
      by (rule books_extend [OF IH(1) fx fm fresh]) (simp_all add: m' settle_eq with_contents_def)
    moreover have "nd_registry m' \<noteq> None" using IH(2) by (simp add: m' settle_eq with_contents_def split: option.splits)
    ultimately show ?thesis by simp
  qed
qed

lemma bodies_branch:
  assumes hold: "holds hh s bs" and "i < length bs" and bodies: "\<forall>b \<in> set bs. stored_body b \<noteq> None"
  shows "bodies_walk s (main_hashes s ! i) = Some (map (\<lambda>b. (sb_height b, the (stored_body b))) (rev (take (Suc i) bs)))"
  using assms(2)
proof (induction i)
  case 0
  obtain body where "stored_body (bs ! 0) = Some body" using bodies 0 by (metis nth_mem not_None_eq)
  then show ?case using holds_nth(2) [OF hold 0] holds_height(2) [OF hold 0] 0
    by (subst bodies_walk.simps) (simp add: take_Suc_conv_app_nth)
next
  case (Suc i)
  obtain body where body: "stored_body (bs ! Suc i) = Some body" using bodies Suc.prems by (metis nth_mem not_None_eq)
  have "unat (sb_height (bs ! Suc i)) = Suc i" using holds_height(1) [OF hold Suc.prems] .
  then have "sb_height (bs ! Suc i) \<noteq> 0" by auto
  moreover have "sb_prev (bs ! Suc i) = main_hashes s ! i" using holds_height(3) [OF hold Suc.prems] by simp
  ultimately show ?case using holds_nth(2) [OF hold Suc.prems] body Suc
    by (subst bodies_walk.simps) (simp add: take_Suc_conv_app_nth)
qed

lemma annulet_books_start:
  assumes "opened hh g n0" and "nd_form n0 = Annulet"
  shows "nd_supply_deltas n0 = [] \<and> nd_outstanding n0 = nd_genesis_supply n0 \<and> nd_registry n0 \<noteq> None
    \<and> stored_body g \<noteq> None \<and> block_terms g = []"
  using assms
proof (induction rule: opened.induct)
  case (Open_L1 fm g lg n0)
  then have "from_genesis hh fm NoSections g lg = Some n0" by (simp add: open_l1_def)
  then show ?case using bound_genesis_sel(3) [OF from_genesis_bound] Open_L1(2) by (force simp: from_genesis_def genesis_binding_def split: option.splits if_splits)
next
  case (Open_V6 g v6 lg n0)
  then obtain m where "from_genesis hh V5 V6 g lg = Some m" "n0 = install_v6 (Some v6) m" by (auto simp: open_v6_def)
  then show ?case using bound_genesis_sel(3) [OF from_genesis_bound] Open_V6(2) by (force simp: install_v6_def)
next
  case (Open_Annulet hdr g nts fees leaves ctx lg n0)
  obtain st where fg: "from_genesis_with hh Annulet NoSections g lg (Some st) = Some n0"
    using Open_Annulet by (auto simp: open_annulet_def split: if_splits sum.splits option.splits)
  have "sb_txs g = []" "sb_sections g = None"
    using Open_Annulet(1) by (auto simp: annulet_genesis_def annulet_block_def empty_body_def body_new_def split: header_ext.splits if_splits)
  then have g: "stored_body g = Some (from_single_payee [] (sb_coinbase g) (sb_coinbase_rkm g))"
    by (simp add: stored_body_def coinbase_view_def with_sections_def)
  then have "stored_body g \<noteq> None \<and> block_terms g = []"
    by (simp add: block_terms_def body_terms_def from_single_payee_def body_new_def)
  moreover have "nd_supply_deltas n0 = [] \<and> nd_outstanding n0 = nd_genesis_supply n0 \<and> nd_registry n0 \<noteq> None"
    by (rule annulet_genesis_sel [OF fg]) (auto simp: from_bound_genesis_def Let_def)
  ultimately show ?case by simp
qed

section \<open>Properties\<close>

text \<open>C14: the books of an Annulet node are its chain's: on any node reached from the genesis, the supplies recomputed from the
  public bodies of its main chain and the genesis issuance agree with the node's, in total and for every
  block, and no asset is ever outstanding below zero.\<close>

theorem books_agree_with_bodies:
  assumes "opened hh g n0" and "reach hh sg lib n0 n" and "nd_form n0 = Annulet"
    and "nd_genesis_supply n0 = map (\<lambda>(a, v). (a, int v)) issued"
  shows "\<exists>l. ledger_of n issued = Some (Some (l, [])) \<and> (\<forall>a. 0 \<le> supply_at (nd_outstanding n) a)"
proof (rule reach_built [OF assms(1,2)])
  fix bs m assume f: "follows hh sg g n0 bs m n" and b: "built hh sg n0 bs m" and start: "start_ok hh g n0"
  note s = annulet_books_start [OF assms(1,3)]
  have pos: "0 \<le> supply_at (nd_outstanding n0) a" for a
    using s by (simp add: assms(4) supply_at_def map_of_map split: option.splits)
  have books: "books (nd_genesis_supply n0) bs m" "nd_registry m \<noteq> None"
    using built_books [OF b start assms(3) _ pos] s by auto
  have n: "nd_outstanding n = nd_outstanding m" "nd_supply_deltas n = nd_supply_deltas m" "nd_registry n = nd_registry m"
    using follows_fold(2) [OF f start] remark_sel by metis+
  have hold: "holds hh (nd_chain n) (g # bs)" using follows_holds [OF f start] .
  define bodies where "bodies = map (\<lambda>b. (sb_height b, the (stored_body b))) (rev (g # bs))"
  have "main_chain_bodies (nd_chain n) = Some (case bodies of [] \<Rightarrow> 0 | (h, _) # _ \<Rightarrow> h, bodies)"
    using bodies_branch [OF hold, of "length bs"] books(1) s holds_tip(2) [OF hold]
    by (simp add: main_chain_bodies_def bodies_def books_def)
  moreover have "compare_with_node (with_genesis issued (ledger_fold tiph bodies)) (nd_outstanding n) (nd_supply_deltas n) = []" for tiph
  proof (rule compare_agrees)
    have bt: "body_terms (the (stored_body x)) = block_terms x" if "x \<in> set (g # bs)" for x
      using that books(1) s by (auto simp: block_terms_def books_def)
    have "(\<Sum>(h', b)\<leftarrow>bodies. F h' (body_terms b)) = (\<Sum>x\<leftarrow>g # bs. F (sb_height x) (block_terms x))" for F :: "u64 \<Rightarrow> vpublic_term list \<Rightarrow> int"
      unfolding bodies_def map_map sum_list_map_rev by (rule arg_cong [where f = sum_list], rule map_cong) (simp_all add: bt)
    from this [of "\<lambda>h' ts. if _ = h' then asset_sum _ ts else 0"] this [of "\<lambda>_ ts. asset_sum _ ts"]
    have terms: "(\<Sum>(h', b)\<leftarrow>bodies. if h = h' then asset_sum a (body_terms b) else 0)
        = (\<Sum>b\<leftarrow>bs. if h = sb_height b then asset_sum a (block_terms b) else 0)"
      "(\<Sum>(h', b)\<leftarrow>bodies. asset_sum a (body_terms b)) = (\<Sum>b\<leftarrow>bs. asset_sum a (block_terms b))" for h a
      using s by (simp_all add: asset_sum_def)
    show "supply_at (ledger_outstanding (with_genesis issued (ledger_fold tiph bodies))) a = supply_at (nd_outstanding n) a" for a
      using outstanding_spec [of "with_genesis issued (ledger_fold tiph bodies)" a] ledger_fold_spec [of tiph bodies 0 a] books(1) terms(2)
      by (simp add: with_genesis_def n books_def assms(4))
    show "flows_net (al_flows (with_genesis issued (ledger_fold tiph bodies))) h a = supply_at (flows_at (nd_supply_deltas n) h) a" for h a
      using ledger_fold_spec [of tiph bodies h a] books(1) terms(1) by (simp add: with_genesis_def n books_def)
  qed
  moreover have "0 \<le> supply_at (nd_outstanding n) a" for a using books(1) unfolding n books_def by blast
  ultimately show ?thesis using books(2) n(3) by (auto simp: ledger_of_def Let_def)
qed

text \<open>A chain born with 700 units of one asset in one note.\<close>

definition issued_note :: l2_note where
  "issued_note = \<lparr>ln_value = 700, ln_asset = 7, ln_rkm = [1, 2, 3, 4], ln_rho = [5, 6, 7, 8], ln_rseed = [9, 10, 11, 12]\<rparr>"

definition issued_genesis_note :: genesis_note where
  "issued_genesis_note = \<lparr>gn_cm = digest_bytes (l2_commitment issued_note), gn_payload = genesis_plaintext_of issued_note\<rparr>"

definition issued_registry :: registry_tree where
  "issued_registry = (case from_leaves [leaf_cloaked 0, leaf_cloaked 7] of Inr t \<Rightarrow> t)"

lemma issued_registry: "from_leaves [leaf_cloaked 0, leaf_cloaked 7] = Ok issued_registry"
  using sample_registry by (auto simp: issued_registry_def)

definition issued_header :: block_header where
  "issued_header =
    \<lparr>prev = zero_hash, height = 0, timestamp = 0, difficulty = 5, nonce = 0,
     tx_body_commitment = the (genesis_body_commitment_annulet_for [issued_genesis_note] NoAuth),
     ext = ExtAnnulet \<lparr>l1_anchor_height = 0, l1_anchor_root = zero_hash, Header.annulet_header_fields.registry_root = registry_root_bytes issued_registry\<rparr>\<rparr>"

lemma issued_open: "genesis_plaintext_open (genesis_plaintext_of issued_note) = Some issued_note" "length (genesis_plaintext_of issued_note) = l2_payload_len"
  by code_simp+

lemma issued_commitment: "genesis_body_commitment_annulet_for [issued_genesis_note] NoAuth = Some (tx_body_commitment issued_header)"
  using issued_open(2)
  by (simp add: issued_header_def genesis_body_commitment_annulet_for_def genesis_body_commitment_annulet_def Let_def
      body_commitment_annulet_for_def body_commitment_annulet_def empty_body_def body_new_def issued_genesis_note_def)

lemma issued_bound: "bound_to issued_header [issued_genesis_note] fees [leaf_cloaked 0, leaf_cloaked 7]
    = Ok \<lparr>an_fees = fees, an_registry = issued_registry, an_genesis_cms = [gn_cm issued_genesis_note],
        an_genesis_supply = [(7, 700)], an_auth = auth_context_none\<rparr>"
proof -
  have "genesis_issuance [issued_genesis_note] = Ok [(7, 700)]"
    using issued_open(1) by (simp add: genesis_issuance_def issued_genesis_note_def issued_note_def bt_retain_def Let_def)
  then show ?thesis
    by (simp add: bound_to_def issued_registry annulet_registry_root_def issued_header_def)
qed

lemma issued_node:
  fixes fees :: l2_fee_table
  shows "\<exists>g (n :: unit node). annulet_genesis issued_header = Some g
    \<and> open_annulet sample_hash issued_header [issued_genesis_note] fees [leaf_cloaked 0, leaf_cloaked 7] auth_context_none None = Some n
    \<and> nd_form n = Annulet \<and> nd_genesis_supply n = [(7, 700)]"
proof -
  have "\<exists>g. annulet_genesis issued_header = Some g \<and> sb_height g = 0 \<and> sb_prev g = zero_hash \<and> full_header g = issued_header"
    by (simp add: annulet_genesis_def annulet_block_def issued_header_def full_header_def block_header_of_def header_fields_def)
  then obtain g where g: "annulet_genesis issued_header = Some g" "sb_height g = 0" "sb_prev g = zero_hash" "full_header g = issued_header" by blast
  have "store_new_for sample_hash Annulet g \<noteq> None"
    using g(2-4) by (simp add: store_new_for_def chain_new_for_def sample_hash_def issued_header_def)
  then obtain n1 :: "unit node" where n1: "from_bound_genesis sample_hash Annulet NoSections g None = Some n1"
    by (auto simp: from_bound_genesis_def Let_def)
  note b = bound_genesis_sel [OF n1]
  have "length (ct_leaves tree_new) < 2 ^ tree_depth" by (simp add: tree_new_def tree_depth_def)
  from wf_tree_append [OF wf_tree_new this, of "digest_from_bytes (gn_cm issued_genesis_note)"]
  obtain t where t: "append_run [gn_cm issued_genesis_note] tree_new = Some t" by (auto simp: tree_append_bytes_def)
  let ?st = "\<lparr>an_fees = fees, an_registry = issued_registry, an_genesis_cms = [gn_cm issued_genesis_note],
        an_genesis_supply = [(7, 700)], an_auth = auth_context_none\<rparr>"
  have "from_genesis_with sample_hash Annulet NoSections g None (Some ?st) \<noteq> (None :: unit node option)"
  proof -
    have gen: "ms_genesis (nd_chain n1) = main_hashes (nd_chain n1) ! 0"
      using holdsD(5-7) [OF b(1)] by (metis hd_conv_nth length_0_conv)
    have "store_set_finalized (ms_genesis (nd_chain n1)) (nd_chain n1)
        = Some (Ok (), set_fin (Some \<lparr>fp_hash = main_hashes (nd_chain n1) ! 0, fp_height = 0\<rparr>) (nd_chain n1))"
      unfolding gen using mark_branch(1) [OF b(1), of 0] by (simp add: mark_result_def b(14))
    then show ?thesis using t by (simp add: from_genesis_with_def n1 append_commitments_eq b(12) record_root_at_def Let_def)
  qed
  then obtain n :: "unit node" where n: "from_genesis_with sample_hash Annulet NoSections g None (Some ?st) = Some n" by auto
  have "nd_form n = Annulet \<and> nd_genesis_supply n = [(7, 700)]"
    by (rule annulet_genesis_sel [OF n]) (use bound_genesis_sel(3) in auto)
  moreover have "ac_form auth_context_none = NoAuth" by (simp add: auth_context_none_def)
  ultimately show ?thesis using g(1) n issued_commitment by (simp add: open_annulet_def issued_bound auth_context_none_def)
qed

lemma books_agree_with_bodies_witness:
  "\<exists>n l. ledger_of (n :: unit node) [(7, 700)] = Some (Some (l, []))"
proof -
  obtain g and n :: "unit node" where g: "annulet_genesis issued_header = Some g"
      "open_annulet sample_hash issued_header [issued_genesis_note] \<lparr>tier_s = 1, tier_p = 2, tier_r = 3\<rparr>
        [leaf_cloaked 0, leaf_cloaked 7] auth_context_none None = Some n"
      "nd_form n = Annulet" "nd_genesis_supply n = [(7, 700)]"
    using issued_node by blast
  have "opened sample_hash g n" using g(1,2) by (rule opened.Open_Annulet)
  from books_agree_with_bodies [OF this reach.Reach_Start g(3), of "[(7, 700)]"] g(4) show ?thesis by auto
qed

end
