(* ===== verification/Wire_Codec.thy ===== *)
theory Wire_Codec
  imports Node_Store Ebbflow
begin

text \<open>
  The payload codecs of the peer wire (\<open>qlab-p2p/src/codec.rs\<close>): the bounds-checked reader, headers on every
  form, sealed headers (\<open>qlab-devnet/src/annulet.rs\<close>), transactions with their optional sections, checkpoints and
  votes, equivocation evidence, inventories and locators. A reader is a position in the buffer, as in the
  varint theory; the capacity a decoder reserves is not modelled. A writer is the bytes it appends, an
  assertion of an encoder is \<open>None\<close>. The encoding of a signature belongs to the ML-DSA library and is a pair
  of arguments. Each reader is shown to be a codec, composed from those of its fields.
\<close>

section \<open>The reader\<close>

datatype decode_error =
    Truncated string
  | VarintBad
  | Trailing nat
  | BadHeaderTag nat u8
  | BadBucket u8
  | BadSignature
  | WrongHeaderLen nat nat
  | BadHeaderVersion u8
  | TooManyCoinbasePayees nat nat
  | BadL2Surface
  | BadAuthSection
  | TooManyEntries string nat
  | VarintRange u64 u64

fun decode_error_of :: "codec_error \<Rightarrow> decode_error" where
  "decode_error_of (codec_error.VarintOverflow) = VarintBad"
| "decode_error_of (codec_error.Truncated what) = Truncated what"
| "decode_error_of (codec_error.VarintRange got mx) = VarintRange got mx"
| "decode_error_of _ = VarintBad"

fun map_error :: "('e \<Rightarrow> 'f) \<Rightarrow> 'e + 'a \<Rightarrow> 'f + 'a" where
  "map_error f (Inl e) = Inl (f e)"
| "map_error f (Inr a) = Inr a"

type_synonym 'a reader = "bytes \<Rightarrow> nat \<Rightarrow> decode_error + ('a \<times> nat)"

definition rd_take :: "nat \<Rightarrow> string \<Rightarrow> bytes reader" where
  "rd_take n what b pos = (if pos + n \<le> length b then Ok (slice_at pos n b, pos + n) else Err (Truncated what))"

definition rd_u8 :: "string \<Rightarrow> u8 reader" where
  "rd_u8 what b pos = rbind (rd_take 1 what b pos) (\<lambda>(x, p). Ok (x ! 0, p))"

definition rd_u64 :: "string \<Rightarrow> u64 reader" where
  "rd_u64 what b pos = rbind (rd_take 8 what b pos) (\<lambda>(x, p). Ok (u64_from_le x, p))"

definition rd_hash32 :: "string \<Rightarrow> hash32 reader" where
  "rd_hash32 what b pos = rd_take 32 what b pos"

definition rd_varint_usize :: "nat reader" where
  "rd_varint_usize b pos = map_error decode_error_of (read_varint_usize b pos)"

definition rd_varint_u32 :: "u32 reader" where
  "rd_varint_u32 b pos = map_error decode_error_of (read_varint_u32 b pos)"

definition rd_remaining :: "bytes \<Rightarrow> nat \<Rightarrow> nat" where
  "rd_remaining b pos = length b - pos"

definition rd_finish :: "bytes \<Rightarrow> nat \<Rightarrow> decode_error + unit" where
  "rd_finish b pos = (if pos \<noteq> length b then Err (Trailing (length b - pos)) else Ok ())"

text \<open>The two shapes every decoder repeats: a length and that many bytes, and a whole buffer.\<close>

definition rd_section :: "string \<Rightarrow> bytes reader" where
  "rd_section what b pos = rbind (rd_varint_usize b pos) (\<lambda>(n, p). rd_take n what b p)"

definition rd_whole :: "'a reader \<Rightarrow> bytes \<Rightarrow> decode_error + 'a" where
  "rd_whole rd b = rbind (rd b 0) (\<lambda>(x, p). rbind (rd_finish b p) (\<lambda>_. Ok x))"

definition len_varint :: "'a list \<Rightarrow> bytes" where
  "len_varint xs = varint_bytes (word_of_nat (length xs))"

definition section_bytes :: "bytes \<Rightarrow> bytes" where
  "section_bytes x = len_varint x @ x"

section \<open>Composing codecs\<close>

lemma rbind_assoc: "rbind (rbind m f) g = rbind m (\<lambda>x. rbind (f x) g)"
  by (cases m) simp_all

lemma rbind_Ok_right: "rbind m Inr = m"
  by (cases m) simp_all

lemma map_error_Ok [simp]: "map_error f r = Inr x \<longleftrightarrow> r = Inr x"
  by (cases r) simp_all

lemma codecI:
  assumes "\<And>x pre rest. ok x \<Longrightarrow> dec (pre @ enc x @ rest) (length pre) = Inr (x, length pre + length (enc x))"
    and "\<And>b p x p'. dec b p = Inr (x, p') \<Longrightarrow> p' \<le> length b \<and> drop p b = enc x @ drop p' b \<and> ok x"
  shows "sized_codec enc dec ok"
proof unfold_locales
  show "dec b p = Inr (x, p') \<Longrightarrow> p' \<le> length b \<and> drop p b = enc x @ drop p' b" for b p x p' using assms(2) by blast
  show "dec b p = Inr (x, p') \<Longrightarrow> ok x" for b p x p' using assms(2) by blast
qed (rule assms(1))

lemma codecD:
  assumes "sized_codec enc dec ok"
  shows "ok x \<Longrightarrow> dec (pre @ enc x @ rest) (length pre) = Inr (x, length pre + length (enc x))"
    and "dec b p = Inr (x, p') \<Longrightarrow> p' \<le> length b \<and> drop p b = enc x @ drop p' b \<and> ok x"
  using sized_codec.axioms(1) [OF assms, unfolded prefix_codec_def] sized_codec.dec_ok [OF assms] by blast+

lemma codec_take: "sized_codec (\<lambda>x. x) (rd_take n what) (\<lambda>x. length x = n)"
proof (rule codecI)
  show "rd_take n what b p = Inr (x, p') \<Longrightarrow> p' \<le> length b \<and> drop p b = x @ drop p' b \<and> length x = n" for b p x p'
    using drop_slice_at [of p b n] by (auto simp: rd_take_def split: if_splits)
qed (auto simp: rd_take_def slice_at_def)

text \<open>A codec of one type read and written as another.\<close>

lemma codec_map:
  assumes c: "sized_codec enc dec ok" and there: "\<And>y. ok' y \<Longrightarrow> ok (f y) \<and> g (f y) = y" and here: "\<And>x. ok x \<Longrightarrow> ok' (g x) \<and> f (g x) = x"
    and dec': "\<And>b p. dec' b p = rbind (dec b p) (\<lambda>(x, p'). Inr (g x, p'))"
    and enc': "\<And>y. ok' y \<Longrightarrow> enc' y = enc (f y)"
  shows "sized_codec enc' dec' ok'"
proof (rule codecI)
  show "dec' (pre @ enc' y @ rest) (length pre) = Inr (y, length pre + length (enc' y))" if "ok' y" for y pre rest
    using codecD(1) [OF c, of "f y" pre rest] there [OF that] enc' [OF that] by (simp add: dec')
  show "p' \<le> length b \<and> drop p b = enc' y @ drop p' b \<and> ok' y" if "dec' b p = Inr (y, p')" for b p y p'
  proof -
    obtain x where x: "dec b p = Inr (x, p')" "y = g x" using \<open>dec' b p = Inr (y, p')\<close> by (auto simp: dec')
    note d = codecD(2) [OF c x(1)]
    have "ok' y" "f y = x" using here d x(2) by auto
    then show ?thesis using d enc' by simp
  qed
qed

text \<open>Two fields in sequence, the second may depend on the first.\<close>

lemma codec_bind:
  assumes c1: "sized_codec e1 d1 ok1" and c2: "\<And>x. ok1 x \<Longrightarrow> sized_codec (e2 x) (d2 x) (ok2 x)"
  shows "sized_codec (\<lambda>(x, y). e1 x @ e2 x y) (\<lambda>b p. rbind (d1 b p) (\<lambda>(x, p1). rbind (d2 x b p1) (\<lambda>(y, p2). Inr ((x, y), p2))))
    (\<lambda>(x, y). ok1 x \<and> ok2 x y)"
proof (rule codecI)
  fix z pre rest assume a: "case z of (x, y) \<Rightarrow> ok1 x \<and> ok2 x y"
  obtain x y where z: "z = (x, y)" by fastforce
  have "d1 (pre @ e1 x @ (e2 x y @ rest)) (length pre) = Inr (x, length pre + length (e1 x))"
    using codecD(1) [OF c1] a z by simp
  moreover have "d2 x ((pre @ e1 x) @ e2 x y @ rest) (length (pre @ e1 x)) = Inr (y, length (pre @ e1 x) + length (e2 x y))"
    by (rule codecD(1) [OF c2]) (use a z in auto)
  ultimately show "rbind (d1 (pre @ (case z of (x, y) \<Rightarrow> e1 x @ e2 x y) @ rest) (length pre))
      (\<lambda>(x, p1). rbind (d2 x (pre @ (case z of (x, y) \<Rightarrow> e1 x @ e2 x y) @ rest) p1) (\<lambda>(y, p2). Inr ((x, y), p2)))
      = Inr (z, length pre + length (case z of (x, y) \<Rightarrow> e1 x @ e2 x y))"
    by (simp add: z)
next
  fix b p z p'
  assume "rbind (d1 b p) (\<lambda>(x, p1). rbind (d2 x b p1) (\<lambda>(y, p2). Inr ((x, y), p2))) = Inr (z, p')"
  then obtain x y p1 where d: "d1 b p = Inr (x, p1)" "d2 x b p1 = Inr (y, p')" "z = (x, y)" by auto
  note f = codecD(2) [OF c1 d(1)]
  then have "sized_codec (e2 x) (d2 x) (ok2 x)" using c2 by blast
  from codecD(2) [OF this d(2)] f
  show "p' \<le> length b \<and> drop p b = (case z of (x, y) \<Rightarrow> e1 x @ e2 x y) @ drop p' b \<and> (case z of (x, y) \<Rightarrow> ok1 x \<and> ok2 x y)"
    by (simp add: d(3))
qed

lemma codec_pair:
  assumes "sized_codec e1 d1 ok1" and "sized_codec e2 d2 ok2"
  shows "sized_codec (\<lambda>(x, y). e1 x @ e2 y) (\<lambda>b p. rbind (d1 b p) (\<lambda>(x, p1). rbind (d2 b p1) (\<lambda>(y, p2). Inr ((x, y), p2))))
    (\<lambda>(x, y). ok1 x \<and> ok2 y)"
  by (rule codec_bind [OF assms(1), where ?e2.0 = "\<lambda>_. e2" and ?d2.0 = "\<lambda>_. d2" and ?ok2.0 = "\<lambda>_. ok2"]) (rule assms(2))

text \<open>A value refused when it fails a test.\<close>

lemma codec_guard:
  assumes c: "sized_codec enc dec ok"
  shows "sized_codec enc (\<lambda>b p. rbind (dec b p) (\<lambda>(x, p'). if good x then Inr (x, p') else Inl (err x))) (\<lambda>x. ok x \<and> good x)"
proof (rule codecI)
  show "rbind (dec (pre @ enc x @ rest) (length pre)) (\<lambda>(x, p'). if good x then Inr (x, p') else Inl (err x))
      = Inr (x, length pre + length (enc x))" if "ok x \<and> good x" for x pre rest
    using codecD(1) [OF c] that by simp
qed (use codecD(2) [OF c] in \<open>auto split: if_splits\<close>)

text \<open>A counted sequence, and a counted byte string.\<close>

lemma codec_counted:
  assumes n: "sized_codec en dn okn" and c: "sized_codec enc dec ok"
  shows "sized_codec (\<lambda>xs. en (length xs) @ concat (map enc xs)) (\<lambda>b p. rbind (dn b p) (\<lambda>(n, p1). read_times dec n b p1))
    (\<lambda>xs. okn (length xs) \<and> (\<forall>x \<in> set xs. ok x))"
proof (rule codecI)
  fix xs pre rest assume a: "okn (length xs) \<and> (\<forall>x \<in> set xs. ok x)"
  have "dn (pre @ en (length xs) @ (concat (map enc xs) @ rest)) (length pre) = Inr (length xs, length pre + length (en (length xs)))"
    using codecD(1) [OF n] a by simp
  moreover have "read_times dec (length xs) ((pre @ en (length xs)) @ concat (map enc xs) @ rest) (length (pre @ en (length xs)))
      = Inr (xs, length (pre @ en (length xs)) + length (concat (map enc xs)))"
    using sized_codec.read_times_enc [OF c] a by blast
  ultimately show "rbind (dn (pre @ (en (length xs) @ concat (map enc xs)) @ rest) (length pre))
      (\<lambda>(n, p1). read_times dec n (pre @ (en (length xs) @ concat (map enc xs)) @ rest) p1)
      = Inr (xs, length pre + length (en (length xs) @ concat (map enc xs)))" by simp
next
  fix b p xs p' assume "rbind (dn b p) (\<lambda>(n, p1). read_times dec n b p1) = Inr (xs, p')"
  then obtain m p1 where d: "dn b p = Inr (m, p1)" "read_times dec m b p1 = Inr (xs, p')" by auto
  note f = codecD(2) [OF n d(1)]
  with sized_codec.read_times_dec [OF c d(2)]
  show "p' \<le> length b \<and> drop p b = (en (length xs) @ concat (map enc xs)) @ drop p' b \<and> okn (length xs) \<and> (\<forall>x \<in> set xs. ok x)" by auto
qed

lemma codec_usize: "sized_codec (\<lambda>n. varint_bytes (word_of_nat n)) rd_varint_usize (\<lambda>n. n < 2 ^ 64)"
proof (rule codecI)
  show "rd_varint_usize (pre @ varint_bytes (word_of_nat n) @ rest) (length pre) = Inr (n, length pre + length (varint_bytes (word_of_nat n)))"
    if "n < 2 ^ 64" for n pre rest
    using varint.dec_enc [where x = "word_of_nat n" and pre = pre and rest = rest] that
    by (simp add: rd_varint_usize_def read_varint_usize_def read_varint_at_most_def unat_of_nat_len not_less word_order.extremum)
next
  fix b p n p' assume "rd_varint_usize b p = Inr (n, p')"
  then obtain v where v: "read_varint b p = Inr (v, p')" "n = unat v"
    by (auto simp: rd_varint_usize_def read_varint_usize_def read_varint_at_most_def split: if_splits)
  have "n < 2 ^ 64" using unat_lt_exp [of v] v(2) by simp
  then show "p' \<le> length b \<and> drop p b = varint_bytes (word_of_nat n) @ drop p' b \<and> n < 2 ^ 64"
    using varint.enc_dec [OF v(1)] v(2) by simp
qed

lemma codec_u32: "sized_codec (\<lambda>i. varint_bytes (ucast i)) rd_varint_u32 (\<lambda>_. True)"
proof (rule codecI)
  have le: "(ucast i :: u64) \<le> 0xFFFFFFFF" for i :: u32
    using unat_lt_exp [of i] by (simp add: word_le_nat_alt unsigned_ucast_eq take_bit_nat_eq_self)
  show "rd_varint_u32 (pre @ varint_bytes (ucast i) @ rest) (length pre) = Inr (i, length pre + length (varint_bytes (ucast i :: u64)))" for i pre rest
    using varint.dec_enc [where x = "ucast i" and pre = pre and rest = rest] le [of i]

    by (simp add: rd_varint_u32_def read_varint_u32_def read_varint_at_most_def not_less ucast_up_ucast_id is_up)
next
  fix b p i p' assume "rd_varint_u32 b p = Inr (i, p')"
  then obtain v where v: "read_varint b p = Inr (v, p')" "v \<le> 0xFFFFFFFF" "i = ucast v"
    by (auto simp: rd_varint_u32_def read_varint_u32_def read_varint_at_most_def split: if_splits)
  have "unat v < 2 ^ 32" using v(2) by (simp add: word_le_nat_alt)
  then have "unat (ucast (ucast v :: u32) :: u64) = unat v" by (simp add: unsigned_ucast_eq unsigned_take_bit_eq take_bit_nat_eq_self)
  then have "ucast (ucast v :: u32) = v" by (simp only: word_unat_eq_iff)
  then show "p' \<le> length b \<and> drop p b = varint_bytes (ucast i) @ drop p' b \<and> True"
    using varint.enc_dec [OF v(1)] v(3) by simp
qed

lemma codec_u64: "sized_codec u64_le (rd_u64 what) (\<lambda>_. True)"
  by (rule codec_map [OF codec_take [of 8 what], where f = u64_le and g = u64_from_le])
    (simp_all add: rd_u64_def u64_le_u64_from_le)

lemma codec_u8: "sized_codec (\<lambda>x. [x]) (rd_u8 what) (\<lambda>_. True)"
proof (rule codec_map [OF codec_take [of 1 what], where f = "\<lambda>x. [x]" and g = "\<lambda>x. x ! 0"])
  show "length x = 1 \<Longrightarrow> True \<and> [x ! 0] = x" for x :: bytes by (cases x) simp_all
qed (simp_all add: rd_u8_def)

lemma codec_hash32: "sized_codec (\<lambda>x. x) (rd_hash32 what) is_hash32"
  using codec_take [of 32 what] unfolding rd_hash32_def [abs_def] is_hash32_def [abs_def] .

lemma codec_section: "sized_codec section_bytes (rd_section what) (\<lambda>x. length x < 2 ^ 64)"
proof (rule codec_map [OF codec_bind [OF codec_usize codec_take], where f = "\<lambda>x. (length x, x)" and g = snd])
  show "rd_section what b p = rbind (rbind (rd_varint_usize b p) (\<lambda>(n, p1). rbind (rd_take n what b p1) (\<lambda>(y, p2). Inr ((n, y), p2))))
      (\<lambda>(x, p'). Inr (snd x, p'))" for b p
    by (simp add: rd_section_def rbind_assoc split_def rbind_Ok_right)
qed (auto simp: section_bytes_def len_varint_def)

text \<open>Reading a whole buffer.\<close>

lemma codec_whole: "sized_codec enc dec ok \<Longrightarrow> rd_whole dec b = Inr x \<longleftrightarrow> ok x \<and> enc x = b"
  using sized_codec.whole_buffer [of enc dec ok b x] by (auto simp: rd_whole_def rd_finish_def)

text \<open>A field that only some byte strings spell.\<close>

lemma codec_partial:
  assumes c: "sized_codec enc dec ok" and g: "\<And>x y. ok x \<Longrightarrow> g x = Some y \<longleftrightarrow> ok' y \<and> f y = x" and f: "\<And>y. ok' y \<Longrightarrow> ok (f y)"
    and dec': "\<And>b p. dec' b p = rbind (dec b p) (\<lambda>(x, p'). case g x of None \<Rightarrow> Inl (err x) | Some y \<Rightarrow> Inr (y, p'))"
  shows "sized_codec (\<lambda>y. enc (f y)) dec' ok'"
proof (rule codecI)
  show "dec' (pre @ enc (f y) @ rest) (length pre) = Inr (y, length pre + length (enc (f y)))" if "ok' y" for y pre rest
    using codecD(1) [OF c f [OF that], of pre rest] g [OF f [OF that], of y] that by (simp add: dec')
  show "p' \<le> length b \<and> drop p b = enc (f y) @ drop p' b \<and> ok' y" if "dec' b p = Inr (y, p')" for b p y p'
  proof -
    obtain x where x: "dec b p = Inr (x, p')" "g x = Some y"
      using \<open>dec' b p = Inr (y, p')\<close> by (auto simp: dec' split: option.splits)
    note d = codecD(2) [OF c x(1)]
    with g [of x y] x(2) show ?thesis by auto
  qed
qed

lemma rbind_if: "rbind (if c then m else n) f = (if c then rbind m f else rbind n f)"
  by simp

lemmas rbind_rules = rbind_assoc rbind_if split_def rbind_Ok_right

section \<open>Headers\<close>

definition header_wire_len :: "genesis_form \<Rightarrow> nat" where
  "header_wire_len fm = (case fm of V4 \<Rightarrow> 98 | V5 \<Rightarrow> 97 | Annulet \<Rightarrow> header_preimage_len_annulet)"

definition encode_header :: "genesis_form \<Rightarrow> block_header \<Rightarrow> bytes option" where
  "encode_header fm h = preimage_for fm h"

definition annulet_preimage_error :: "annulet_preimage_error \<Rightarrow> decode_error" where
  "annulet_preimage_error e =
    (case e of
       annulet_preimage_error.WrongLength got \<Rightarrow> WrongHeaderLen got header_preimage_len_annulet
     | annulet_preimage_error.BadVersion got \<Rightarrow> BadHeaderVersion got
     | annulet_preimage_error.BadReservedByte pos got \<Rightarrow> BadHeaderTag pos got)"

definition decode_header_annulet :: "bytes \<Rightarrow> decode_error + block_header" where
  "decode_header_annulet b = map_error annulet_preimage_error (from_annulet_preimage b)"

text \<open>The fields between the parent and the commitment, with the position of the tags.\<close>

definition rd_fields_v4 :: "(u64 \<times> u64 \<times> u64 \<times> u64) reader" where
  "rd_fields_v4 b p =
    rbind (rd_u64 ''height'' b p) (\<lambda>(h, p1).
    rbind (rd_u64 ''timestamp'' b p1) (\<lambda>(t, p2).
    rbind (rd_u64 ''difficulty'' b p2) (\<lambda>(d, p3).
    rbind (rd_u64 ''nonce'' b p3) (\<lambda>(n, p4). Ok ((h, n, t, d), p4)))))"

definition rd_fields_v5 :: "(u64 \<times> u64 \<times> u64 \<times> u64) reader" where
  "rd_fields_v5 b p =
    rbind (rd_u8 ''header_format_version'' b p) (\<lambda>(v, p1).
      if v \<noteq> header_version_byte_v5 then Err (BadHeaderVersion v)
      else rbind (rd_take 6 ''height_u48'' b p1) (\<lambda>(h6, p2).
      rbind (rd_u64 ''nonce'' b p2) (\<lambda>(n, p3).
      rbind (rd_u64 ''timestamp'' b p3) (\<lambda>(t, p4).
      rbind (rd_u64 ''difficulty'' b p4) (\<lambda>(d, p5). Ok ((u64_from_le (h6 @ [0, 0]), n, t, d), p5))))))"

definition rd_tags :: "nat \<Rightarrow> unit reader" where
  "rd_tags tag_pos b p =
    rbind (rd_u8 ''aggregate_proof_tag'' b p) (\<lambda>(a, p1).
      if a \<noteq> aggregate_proof_tag then Err (BadHeaderTag tag_pos a)
      else rbind (rd_u8 ''epoch_supply_tag'' b p1) (\<lambda>(e, p2).
        if e \<noteq> epoch_supply_tag then Err (BadHeaderTag (tag_pos + 1) e) else Ok ((), p2)))"

definition rd_header_l1 :: "genesis_form \<Rightarrow> block_header reader" where
  "rd_header_l1 fm b p =
    rbind (rd_hash32 ''prev'' b p) (\<lambda>(pr, p1).
    rbind (if fm = V4 then rd_fields_v4 b p1 else rd_fields_v5 b p1) (\<lambda>((h, n, t, d), p2).
    rbind (rd_hash32 ''tx_body_commitment'' b p2) (\<lambda>(c, p3).
    rbind (rd_tags (if fm = V4 then 96 else 95) b p3) (\<lambda>(_, p4).
      Ok (\<lparr>prev = pr, height = h, timestamp = t, difficulty = d, nonce = n, tx_body_commitment = c, ext = L1\<rparr>, p4)))))"

definition decode_header :: "genesis_form \<Rightarrow> bytes \<Rightarrow> decode_error + block_header" where
  "decode_header fm b =
    (if length b \<noteq> header_wire_len fm then Err (WrongHeaderLen (length b) (header_wire_len fm))
     else if fm = Annulet then decode_header_annulet b
     else rd_whole (rd_header_l1 fm) b)"

lemma codec_fields_v4: "sized_codec (\<lambda>(h, n, t, d). u64_le h @ u64_le t @ u64_le d @ u64_le n) rd_fields_v4 (\<lambda>_. True)"
proof (rule codec_map [OF codec_pair [OF codec_u64 codec_pair [OF codec_u64 codec_pair [OF codec_u64 codec_u64]]],
      where f = "\<lambda>(h, n, t, d). (h, t, d, n)" and g = "\<lambda>(h, t, d, n). (h, n, t, d)"])
  show "rd_fields_v4 b p = rbind (rbind (rd_u64 ''height'' b p) (\<lambda>(x, p1). rbind (rbind (rd_u64 ''timestamp'' b p1)
      (\<lambda>(x, p1). rbind (rbind (rd_u64 ''difficulty'' b p1) (\<lambda>(x, p1). rbind (rd_u64 ''nonce'' b p1) (\<lambda>(y, p2). Inr ((x, y), p2))))
      (\<lambda>(y, p2). Inr ((x, y), p2)))) (\<lambda>(y, p2). Inr ((x, y), p2)))) (\<lambda>(x, p'). Inr ((case x of (h, t, d, n) \<Rightarrow> (h, n, t, d)), p'))" for b p
    by (simp add: rd_fields_v4_def rbind_rules)
qed auto

lemma codec_version: "sized_codec (\<lambda>_. [v]) (\<lambda>b p. rbind (rd_u8 what b p) (\<lambda>(x, p'). if x \<noteq> v then Inl (err x) else Inr ((), p'))) (\<lambda>_. True)"
  by (rule codec_partial [OF codec_u8 [of what], where f = "\<lambda>_. v" and g = "\<lambda>x. if x = v then Some () else None" and err = err])
    (auto simp: split_def intro!: arg_cong [where f = "rbind _"] split: if_splits)

lemma codec_height6: "sized_codec (\<lambda>h. take 6 (u64_le h)) (\<lambda>b p. rbind (rd_take 6 what b p) (\<lambda>(x, p'). Inr (u64_from_le (x @ [0, 0]), p')))
    (\<lambda>h. h \<le> v5_max_height)"
proof (rule codec_map [OF codec_take [of 6 what], where f = "\<lambda>h. take 6 (u64_le h)" and g = "\<lambda>x. u64_from_le (x @ [0, 0])"])
  show "length (take 6 (u64_le h)) = 6 \<and> u64_from_le (take 6 (u64_le h) @ [0, 0]) = h" if "h \<le> v5_max_height" for h
    using u64_le_low6 [OF that] u64_from_le_u64_le [of h] by simp
  show "u64_from_le (x @ [0, 0]) \<le> v5_max_height \<and> take 6 (u64_le (u64_from_le (x @ [0, 0]))) = x" if "length x = 6" for x :: bytes
  proof -
    have "le_val (x @ [0, 0]) = le_val x" by (induction x) simp_all
    then have v: "le_val (x @ [0, 0]) < 2 ^ 48" using le_val_bound [of x] that by simp
    then have "unat (u64_from_le (x @ [0, 0])) < 2 ^ 48" by (simp add: u64_from_le_def unat_of_nat take_bit_nat_eq_self)
    then show ?thesis using that by (simp add: word_le_nat_alt unat_v5_max_height u64_le_u64_from_le)
  qed
qed simp_all

lemma codec_fields_v5: "sized_codec (\<lambda>(h, n, t, d). [header_version_byte_v5] @ take 6 (u64_le h) @ u64_le n @ u64_le t @ u64_le d) rd_fields_v5
    (\<lambda>(h, n, t, d). h \<le> v5_max_height)"
proof (rule codec_map [OF codec_pair [OF codec_version [where v = header_version_byte_v5 and what = "''header_format_version''" and err = BadHeaderVersion]
      codec_pair [OF codec_height6 [where what = "''height_u48''"] codec_pair [OF codec_u64 codec_pair [OF codec_u64 codec_u64]]]],
      where f = "\<lambda>y. ((), y)" and g = snd])
  show "rd_fields_v5 b p = rbind (rbind (rbind (rd_u8 ''header_format_version'' b p) (\<lambda>(x, p').
          if x \<noteq> header_version_byte_v5 then Inl (BadHeaderVersion x) else Inr ((), p')))
        (\<lambda>(x, p1). rbind (rbind (rbind (rd_take 6 ''height_u48'' b p1) (\<lambda>(x, p'). Inr (u64_from_le (x @ [0, 0]), p')))
          (\<lambda>(x, p1). rbind (rbind (rd_u64 ''nonce'' b p1) (\<lambda>(x, p1). rbind (rbind (rd_u64 ''timestamp'' b p1)
            (\<lambda>(x, p1). rbind (rd_u64 ''difficulty'' b p1) (\<lambda>(y, p2). Inr ((x, y), p2))))
            (\<lambda>(y, p2). Inr ((x, y), p2)))) (\<lambda>(y, p2). Inr ((x, y), p2)))) (\<lambda>(y, p2). Inr ((x, y), p2))))
      (\<lambda>(x, p'). Inr (snd x, p'))" for b p
    by (auto simp: rd_fields_v5_def rbind_rules intro!: arg_cong [where f = "rbind _"])
qed auto

lemma codec_tags: "sized_codec (\<lambda>_. [aggregate_proof_tag] @ [epoch_supply_tag]) (rd_tags pos) (\<lambda>_. True)"
proof (rule codec_map [OF codec_pair [OF codec_version [where v = aggregate_proof_tag and what = "''aggregate_proof_tag''" and err = "BadHeaderTag pos"]
      codec_version [where v = epoch_supply_tag and what = "''epoch_supply_tag''" and err = "BadHeaderTag (pos + 1)"]],
      where f = "\<lambda>_. ((), ())" and g = "\<lambda>_. ()"])
  show "rd_tags pos b p = rbind (rbind (rbind (rd_u8 ''aggregate_proof_tag'' b p) (\<lambda>(x, p'). if x \<noteq> aggregate_proof_tag then Inl (BadHeaderTag pos x) else Inr ((), p')))
      (\<lambda>(x, p1). rbind (rbind (rd_u8 ''epoch_supply_tag'' b p1) (\<lambda>(x, p'). if x \<noteq> epoch_supply_tag then Inl (BadHeaderTag (pos + 1) x) else Inr ((), p')))
        (\<lambda>(y, p2). Inr ((x, y), p2)))) (\<lambda>(x, p'). Inr ((), p'))" for b p
    by (auto simp: rd_tags_def rbind_rules intro!: arg_cong [where f = "rbind _"] ext)
qed auto

text \<open>An L1 header that fits the form.\<close>

definition l1_header_ok :: "genesis_form \<Rightarrow> block_header \<Rightarrow> bool" where
  "l1_header_ok fm h \<longleftrightarrow> wf_header h \<and> ext h = L1 \<and> (fm = V5 \<longrightarrow> height h \<le> v5_max_height)"

definition l1_header_bytes :: "genesis_form \<Rightarrow> block_header \<Rightarrow> bytes" where
  "l1_header_bytes fm h =
    prev h
    @ (if fm = V4 then u64_le (height h) @ u64_le (timestamp h) @ u64_le (difficulty h) @ u64_le (nonce h)
       else [header_version_byte_v5] @ take 6 (u64_le (height h)) @ u64_le (nonce h) @ u64_le (timestamp h) @ u64_le (difficulty h))
    @ tx_body_commitment h @ [aggregate_proof_tag] @ [epoch_supply_tag]"

lemma codec_header_l1:
  assumes "fm \<noteq> Annulet"
  shows "sized_codec (l1_header_bytes fm) (rd_header_l1 fm) (l1_header_ok fm)"
proof -
  let ?ef = "\<lambda>(h, n, t, d). if fm = V4 then u64_le h @ u64_le t @ u64_le d @ u64_le n
    else [header_version_byte_v5] @ take 6 (u64_le h) @ u64_le n @ u64_le t @ u64_le d"
  let ?df = "\<lambda>b p. if fm = V4 then rd_fields_v4 b p else rd_fields_v5 b p"
  let ?pos = "if fm = V4 then 96 else 95"
  have fields: "sized_codec ?ef ?df (\<lambda>(h, n, t, d). fm = V5 \<longrightarrow> h \<le> v5_max_height)"
    using codec_fields_v4 codec_fields_v5 assms by (cases fm) (simp_all add: split_def)
  show ?thesis
  proof (rule codec_map [OF codec_pair [OF codec_hash32 [of "''prev''"] codec_pair [OF fields codec_pair [OF codec_hash32 [of "''tx_body_commitment''"] codec_tags [of ?pos]]]],
        where f = "\<lambda>h. (prev h, (height h, nonce h, timestamp h, difficulty h), tx_body_commitment h, ())"
          and g = "\<lambda>(pr, (h, n, t, d), c, _). \<lparr>prev = pr, height = h, timestamp = t, difficulty = d, nonce = n, tx_body_commitment = c, ext = L1\<rparr>"])
  qed (auto simp: l1_header_ok_def l1_header_bytes_def wf_header_def wf_ext_def rd_header_l1_def rbind_assoc split_def)
qed

lemma length_l1_header: "fm \<noteq> Annulet \<Longrightarrow> l1_header_ok fm h \<Longrightarrow> length (l1_header_bytes fm h) = header_wire_len fm"
  by (cases fm) (simp_all add: l1_header_bytes_def l1_header_ok_def wf_header_def is_hash32_def header_wire_len_def)

lemma preimage_l1: "fm \<noteq> Annulet \<Longrightarrow> l1_header_ok fm h \<Longrightarrow> preimage_for fm h = Some (l1_header_bytes fm h)"
  by (cases fm) (simp_all add: l1_header_bytes_def l1_header_ok_def preimage_for_def preimage_v4_def preimage_v5_def)

lemma preimage_l1_ok: "fm \<noteq> Annulet \<Longrightarrow> wf_header h \<Longrightarrow> preimage_for fm h = Some b \<Longrightarrow> l1_header_ok fm h"
  by (cases fm) (auto simp: l1_header_ok_def preimage_for_def preimage_v4_def preimage_v5_def split: if_splits)

text \<open>On every form a header and its bytes determine each other.\<close>

lemma decode_header_iff: "decode_header fm b = Ok h \<longleftrightarrow> wf_header h \<and> encode_header fm h = Some b"
proof (cases "fm = Annulet")
  case True
  have "from_annulet_preimage b = Ok h \<longleftrightarrow> wf_header h \<and> preimage_annulet h = Some b"
    using from_preimage_annulet preimage_from_annulet by blast
  moreover have "from_annulet_preimage b = Ok h \<Longrightarrow> length b = header_preimage_len_annulet"
    by (auto simp: from_annulet_preimage_def split: if_splits)
  ultimately show ?thesis
    by (auto simp: True decode_header_def encode_header_def preimage_for_def header_wire_len_def decode_header_annulet_def)
next
  case False
  have "decode_header fm b = Ok h \<longleftrightarrow> length b = header_wire_len fm \<and> l1_header_ok fm h \<and> l1_header_bytes fm h = b"
    using codec_whole [OF codec_header_l1 [OF False], of b h] False by (simp add: decode_header_def)
  also have "\<dots> \<longleftrightarrow> wf_header h \<and> encode_header fm h = Some b"
    using length_l1_header [OF False] preimage_l1 [OF False] preimage_l1_ok [OF False] unfolding encode_header_def
    by (metis l1_header_ok_def option.inject)
  finally show ?thesis .
qed

section \<open>Sealed headers and header messages\<close>

definition annulet_sig_len :: nat where "annulet_sig_len = 3309"
definition sealed_header_len_annulet :: nat where "sealed_header_len_annulet = header_preimage_len_annulet + annulet_sig_len"

datatype sealed_header_error = SealedLength nat | SealedPreimage annulet_preimage_error

definition sealed_encode :: "sealed_header \<Rightarrow> bytes option" where
  "sealed_encode s = map_option (\<lambda>p. p @ sl_sig s) (preimage_for Annulet (sl_header s))"

definition sealed_decode :: "bytes \<Rightarrow> sealed_header_error + sealed_header" where
  "sealed_decode b =
    (if length b \<noteq> sealed_header_len_annulet then Err (SealedLength (length b))
     else rbind (map_error SealedPreimage (from_annulet_preimage (take header_preimage_len_annulet b))) (\<lambda>h.
       Ok \<lparr>sl_header = h, sl_sig = drop header_preimage_len_annulet b\<rparr>))"

datatype wire_header = WireL1 block_header | WireSealed sealed_header

definition wire_header_of :: "wire_header \<Rightarrow> block_header" where
  "wire_header_of w = (case w of WireL1 h \<Rightarrow> h | WireSealed s \<Rightarrow> sl_header s)"

definition header_msg_len :: "genesis_form \<Rightarrow> nat" where
  "header_msg_len fm = (case fm of Annulet \<Rightarrow> sealed_header_len_annulet | _ \<Rightarrow> header_wire_len fm)"

definition encode_wire_header :: "genesis_form \<Rightarrow> wire_header \<Rightarrow> bytes option" where
  "encode_wire_header fm w =
    (case (fm, w) of
       (V4, WireL1 h) \<Rightarrow> encode_header fm h
     | (V5, WireL1 h) \<Rightarrow> encode_header fm h
     | (Annulet, WireSealed s) \<Rightarrow> sealed_encode s
     | _ \<Rightarrow> None)"

definition decode_wire_header :: "genesis_form \<Rightarrow> bytes \<Rightarrow> decode_error + wire_header" where
  "decode_wire_header fm b =
    (case fm of
       Annulet \<Rightarrow>
         (case sealed_decode b of
            Inr s \<Rightarrow> Ok (WireSealed s)
          | Inl (SealedLength got) \<Rightarrow> Err (WrongHeaderLen got sealed_header_len_annulet)
          | Inl (SealedPreimage e) \<Rightarrow> Err (annulet_preimage_error e))
     | _ \<Rightarrow> rbind (decode_header fm b) (\<lambda>h. Ok (WireL1 h)))"

fun wire_headers_bytes :: "genesis_form \<Rightarrow> wire_header list \<Rightarrow> bytes option" where
  "wire_headers_bytes fm [] = Some []"
| "wire_headers_bytes fm (w # ws) =
    Option.bind (encode_wire_header fm w) (\<lambda>x. map_option (\<lambda>y. x @ y) (wire_headers_bytes fm ws))"

definition encode_wire_headers :: "genesis_form \<Rightarrow> wire_header list \<Rightarrow> bytes option" where
  "encode_wire_headers fm ws = map_option (\<lambda>y. len_varint ws @ y) (wire_headers_bytes fm ws)"

definition rd_wire_header :: "genesis_form \<Rightarrow> string \<Rightarrow> wire_header reader" where
  "rd_wire_header fm what b p =
    rbind (rd_take (header_msg_len fm) what b p) (\<lambda>(raw, p1). rbind (decode_wire_header fm raw) (\<lambda>w. Ok (w, p1)))"

definition decode_wire_headers :: "genesis_form \<Rightarrow> bytes \<Rightarrow> decode_error + wire_header list" where
  "decode_wire_headers fm b =
    rd_whole (\<lambda>b p. rbind (rd_varint_usize b p) (\<lambda>(n, p1). read_times (rd_wire_header fm ''headers.item'') n b p1)) b"

definition wf_wire_header :: "genesis_form \<Rightarrow> wire_header \<Rightarrow> bool" where
  "wf_wire_header fm w \<longleftrightarrow> wf_header (wire_header_of w)
    \<and> (case w of WireL1 _ \<Rightarrow> True | WireSealed s \<Rightarrow> length (sl_sig s) = annulet_sig_len) \<and> encode_wire_header fm w \<noteq> None"

lemma sealed_decode_iff:
  "sealed_decode b = Ok s \<longleftrightarrow> wf_header (sl_header s) \<and> length (sl_sig s) = annulet_sig_len \<and> sealed_encode s = Some b"
proof
  assume a: "sealed_decode b = Ok s"
  then have l: "length b = sealed_header_len_annulet" and d: "from_annulet_preimage (take header_preimage_len_annulet b) = Ok (sl_header s)"
    and sg: "sl_sig s = drop header_preimage_len_annulet b" by (auto simp: sealed_decode_def split: if_splits)
  show "wf_header (sl_header s) \<and> length (sl_sig s) = annulet_sig_len \<and> sealed_encode s = Some b"
    using preimage_from_annulet [OF d] l sg
    by (simp add: sealed_encode_def preimage_for_def sealed_header_len_annulet_def)
next
  assume a: "wf_header (sl_header s) \<and> length (sl_sig s) = annulet_sig_len \<and> sealed_encode s = Some b"
  then obtain p where p: "preimage_annulet (sl_header s) = Some p" "b = p @ sl_sig s" by (auto simp: sealed_encode_def preimage_for_def)
  have "length p = header_preimage_len_annulet"
    using length_preimage [of "sl_header s" Annulet p] a p(1) by (simp add: preimage_for_def header_preimage_len_annulet_def)
  then show "sealed_decode b = Ok s"
    using from_preimage_annulet [of "sl_header s" p] a p by (simp add: sealed_decode_def sealed_header_len_annulet_def)
qed

lemma decode_wire_header_iff:
  "decode_wire_header fm b = Ok w \<longleftrightarrow> wf_wire_header fm w \<and> encode_wire_header fm w = Some b"
proof (cases "fm = Annulet")
  case True
  then have "decode_wire_header fm b = Ok w \<longleftrightarrow> (\<exists>s. sealed_decode b = Ok s \<and> w = WireSealed s)"
    by (auto simp: decode_wire_header_def split: sum.splits sealed_header_error.splits)
  then show ?thesis using True
    by (cases w) (auto simp: sealed_decode_iff encode_wire_header_def wf_wire_header_def wire_header_of_def)
next
  case False
  then show ?thesis using decode_header_iff [of fm b]
    by (cases fm; cases w) (auto simp: decode_wire_header_def encode_wire_header_def wf_wire_header_def wire_header_of_def)
qed

lemma length_wire_header: "wf_wire_header fm w \<Longrightarrow> encode_wire_header fm w = Some b \<Longrightarrow> length b = header_msg_len fm"
  using length_preimage [of "wire_header_of w" fm]
  by (auto simp: encode_wire_header_def wf_wire_header_def wire_header_of_def header_msg_len_def header_wire_len_def encode_header_def
      sealed_encode_def sealed_header_len_annulet_def header_preimage_len_annulet_def split: genesis_form.splits wire_header.splits)

lemma codec_wire_header: "sized_codec (\<lambda>w. the (encode_wire_header fm w)) (rd_wire_header fm what) (wf_wire_header fm)"
proof (rule codecI)
  fix w pre rest assume w: "wf_wire_header fm w"
  then obtain b where b: "encode_wire_header fm w = Some b" by (auto simp: wf_wire_header_def)
  have "rd_take (header_msg_len fm) what (pre @ b @ rest) (length pre) = Inr (b, length pre + length b)"
    by (rule codecD(1) [OF codec_take]) (rule length_wire_header [OF w b])
  then show "rd_wire_header fm what (pre @ the (encode_wire_header fm w) @ rest) (length pre) = Inr (w, length pre + length (the (encode_wire_header fm w)))"
    using decode_wire_header_iff [of fm b w] w b by (simp add: rd_wire_header_def)
next
  fix b p w p' assume "rd_wire_header fm what b p = Inr (w, p')"
  then obtain raw where raw: "rd_take (header_msg_len fm) what b p = Inr (raw, p')" "decode_wire_header fm raw = Inr w"
    by (auto simp: rd_wire_header_def)
  then show "p' \<le> length b \<and> drop p b = the (encode_wire_header fm w) @ drop p' b \<and> wf_wire_header fm w"
    using codecD(2) [OF codec_take raw(1)] decode_wire_header_iff [of fm raw w] by simp
qed

lemma wire_headers_bytes_eq: "\<forall>w \<in> set ws. wf_wire_header fm w \<Longrightarrow> wire_headers_bytes fm ws = Some (concat (map (\<lambda>w. the (encode_wire_header fm w)) ws))"
  by (induction ws) (auto simp: wf_wire_header_def)

lemma codec_len_counted:
  assumes "sized_codec enc dec ok"
  shows "sized_codec (\<lambda>xs. len_varint xs @ concat (map enc xs)) (\<lambda>b p. rbind (rd_varint_usize b p) (\<lambda>(n, p1). read_times dec n b p1))
    (\<lambda>xs. length xs < 2 ^ 64 \<and> (\<forall>x \<in> set xs. ok x))"
  using codec_counted [OF codec_usize assms] by (simp add: len_varint_def)

text \<open>A page of headers decodes to exactly the headers that were sent, and only its encoding decodes to it.\<close>

lemma decode_wire_headers_iff:
  "decode_wire_headers fm b = Ok ws \<longleftrightarrow> length ws < 2 ^ 64 \<and> (\<forall>w \<in> set ws. wf_wire_header fm w) \<and> encode_wire_headers fm ws = Some b"
  using codec_whole [OF codec_len_counted [OF codec_wire_header], of fm "''headers.item''" b ws] wire_headers_bytes_eq [of ws fm]
  by (auto simp: decode_wire_headers_def encode_wire_headers_def)

section \<open>Transactions\<close>

definition max_tx_entries :: nat where "max_tx_entries = 255"

definition tx_count :: "string \<Rightarrow> nat reader" where
  "tx_count what b p =
    rbind (rd_varint_usize b p) (\<lambda>(got, p1). if got > max_tx_entries then Err (TooManyEntries what got) else Ok (got, p1))"

definition bucket_from_u8 :: "u8 \<Rightarrow> decode_error + arity_bucket" where
  "bucket_from_u8 v = (case from_wire_discriminant v of None \<Rightarrow> Err (BadBucket v) | Some k \<Rightarrow> Ok k)"

definition tx_core_bytes :: "bytes \<Rightarrow> bytes \<Rightarrow> tx_public \<Rightarrow> bytes" where
  "tx_core_bytes pf disc p =
    anchor p @ len_varint (tx_nullifiers p) @ concat (tx_nullifiers p) @ len_varint (commitments p) @ concat (commitments p)
    @ [wire_discriminant (bucket p)] @ u64_le (fee p) @ section_bytes pf @ section_bytes disc"

definition decode_tx_through_discovery :: "(bytes \<times> bytes \<times> tx_public) reader" where
  "decode_tx_through_discovery b p =
    rbind (rd_hash32 ''tx.anchor'' b p) (\<lambda>(an, p1).
    rbind (tx_count ''tx.nullifiers'' b p1) (\<lambda>(n_nf, p2).
    rbind (read_times (rd_hash32 ''tx.nf'') n_nf b p2) (\<lambda>(nfs, p3).
    rbind (tx_count ''tx.commitments'' b p3) (\<lambda>(n_cm, p4).
    rbind (read_times (rd_hash32 ''tx.cm'') n_cm b p4) (\<lambda>(cms, p5).
    rbind (rd_u8 ''tx.bucket'' b p5) (\<lambda>(v, p6).
    rbind (bucket_from_u8 v) (\<lambda>bk.
    rbind (rd_u64 ''tx.fee'' b p6) (\<lambda>(fe, p7).
    rbind (rd_section ''tx.proof'' b p7) (\<lambda>(pf, p8).
    rbind (rd_section ''tx.discovery'' b p8) (\<lambda>(disc, p9).
      Ok ((pf, disc, \<lparr>anchor = an, tx_nullifiers = nfs, commitments = cms, bucket = bk, fee = fe\<rparr>), p9)))))))))))"

definition encode_tx :: "tx_entry \<Rightarrow> bytes option" where
  "encode_tx t =
    (if l2 t \<noteq> l2_surface_absent then None
     else Some (tx_core_bytes (proof_bytes t) (discovery t) (public t)
       @ (if rider t \<noteq> rider_absent then section_bytes (rider t) else [])))"

definition decode_tx :: "bytes \<Rightarrow> decode_error + tx_entry" where
  "decode_tx b =
    rbind (decode_tx_through_discovery b 0) (\<lambda>((pf, disc, pub), p).
    rbind (if p < length b
           then rbind (rd_section ''tx.rider'' b p) (\<lambda>(x, p1). if x = rider_absent then Err (Trailing (length x)) else Ok (x, p1))
           else Ok (rider_absent, p)) (\<lambda>(rd, p2).
    rbind (rd_finish b p2) (\<lambda>_.
      Ok \<lparr>proof_bytes = pf, public = pub, discovery = disc, rider = rd, l2 = l2_surface_absent, auth = l2_auth_absent\<rparr>)))"

definition annulet_wire_bytes :: "tx_entry \<Rightarrow> bytes option" where
  "annulet_wire_bytes t =
    map_option (\<lambda>out. out @ section_bytes (l2 t) @ (if auth t \<noteq> l2_auth_absent then section_bytes (auth t) else []))
      (encode_tx (t\<lparr>l2 := l2_surface_absent, auth := l2_auth_absent\<rparr>))"

definition encode_tx_annulet :: "tx_entry \<Rightarrow> bytes option" where
  "encode_tx_annulet t = (if l2 t \<noteq> l2_surface_absent \<and> rider t = rider_absent then annulet_wire_bytes t else None)"

definition decode_tx_annulet_with :: "l2_auth_form \<Rightarrow> bytes \<Rightarrow> decode_error + tx_entry" where
  "decode_tx_annulet_with af b =
    rbind (decode_tx_through_discovery b 0) (\<lambda>((pf, disc, pub), p).
    rbind (rd_section ''tx.l2'' b p) (\<lambda>(sf, p1).
      case surface_decode sf of
        Inr (Some _) \<Rightarrow>
          rbind (if has_auth af \<and> rd_remaining b p1 > 0
                 then rbind (rd_section ''tx.auth'' b p1) (\<lambda>(x, p2).
                   if x = [] \<or> x = l2_auth_absent then Err BadAuthSection else Ok (x, p2))
                 else Ok (l2_auth_absent, p1)) (\<lambda>(au, p3).
          rbind (rd_finish b p3) (\<lambda>_.
            Ok \<lparr>proof_bytes = pf, public = pub, discovery = disc, rider = rider_absent, l2 = sf, auth = au\<rparr>))
      | _ \<Rightarrow> Err BadL2Surface))"

definition encode_tx_for :: "genesis_form \<Rightarrow> tx_entry \<Rightarrow> bytes option" where
  "encode_tx_for fm t = (case fm of Annulet \<Rightarrow> encode_tx_annulet t | _ \<Rightarrow> encode_tx t)"

definition decode_tx_for_auth :: "genesis_form \<Rightarrow> l2_auth_form \<Rightarrow> bytes \<Rightarrow> decode_error + tx_entry" where
  "decode_tx_for_auth fm af b = (case fm of Annulet \<Rightarrow> decode_tx_annulet_with af b | _ \<Rightarrow> decode_tx b)"

definition canonical_tx_wire :: "tx_entry \<Rightarrow> bytes option" where
  "canonical_tx_wire t = (if l2 t = l2_surface_absent then encode_tx t else annulet_wire_bytes t)"

definition tx_id :: "tx_entry \<Rightarrow> hash32 option" where
  "tx_id t = map_option keccak256 (canonical_tx_wire t)"

text \<open>What the wire can carry of a transaction.\<close>

definition wire_public_ok :: "tx_public \<Rightarrow> bool" where
  "wire_public_ok p \<longleftrightarrow> is_hash32 (anchor p) \<and> length (tx_nullifiers p) \<le> max_tx_entries \<and> (\<forall>x \<in> set (tx_nullifiers p). is_hash32 x)
    \<and> length (commitments p) \<le> max_tx_entries \<and> (\<forall>x \<in> set (commitments p). is_hash32 x)"

definition wire_tx_ok :: "genesis_form \<Rightarrow> l2_auth_form \<Rightarrow> tx_entry \<Rightarrow> bool" where
  "wire_tx_ok fm af t \<longleftrightarrow> wire_public_ok (public t) \<and> length (proof_bytes t) < 2 ^ 64 \<and> length (discovery t) < 2 ^ 64
    \<and> (if fm = Annulet
       then (\<exists>s. surface_decode (l2 t) = Ok (Some s)) \<and> length (l2 t) < 2 ^ 64 \<and> rider t = rider_absent
         \<and> (auth t = l2_auth_absent \<or> has_auth af \<and> auth t \<noteq> [] \<and> length (auth t) < 2 ^ 64)
       else length (rider t) < 2 ^ 64 \<and> l2 t = l2_surface_absent \<and> auth t = l2_auth_absent)"

lemma codec_count: "sized_codec (\<lambda>n. varint_bytes (word_of_nat n)) (tx_count what) (\<lambda>n. n < 2 ^ 64 \<and> n \<le> max_tx_entries)"
proof -
  have "tx_count what = (\<lambda>b p. rbind (rd_varint_usize b p) (\<lambda>(x, p'). if x \<le> max_tx_entries then Inr (x, p') else Inl (TooManyEntries what x)))"
    by (intro ext arg_cong [where f = "rbind _"]) (auto simp: tx_count_def intro!: arg_cong [where f = "rbind _"] ext)
  then show ?thesis using codec_guard [OF codec_usize, of "\<lambda>n. n \<le> max_tx_entries" "TooManyEntries what"] by simp
qed

lemma codec_bucket:
  "sized_codec (\<lambda>k. [wire_discriminant k]) (\<lambda>b p. rbind (rd_u8 what b p) (\<lambda>(v, p'). rbind (bucket_from_u8 v) (\<lambda>k. Inr (k, p')))) (\<lambda>_. True)"
proof (rule codec_partial [OF codec_u8 [of what], where f = wire_discriminant and g = from_wire_discriminant and err = BadBucket])
  show "from_wire_discriminant v = Some k \<longleftrightarrow> True \<and> wire_discriminant k = v" for v k
    by (cases k) (auto simp: from_wire_discriminant_def wire_discriminant_def)
qed (auto simp: bucket_from_u8_def intro!: arg_cong [where f = "rbind _"] ext split: option.splits)

lemma codec_tx_core:
  "sized_codec (\<lambda>(pf, disc, p). tx_core_bytes pf disc p) decode_tx_through_discovery
    (\<lambda>(pf, disc, p). length pf < 2 ^ 64 \<and> length disc < 2 ^ 64 \<and> wire_public_ok p)"
proof -
  note hashes = codec_counted [OF codec_count codec_hash32]
  show ?thesis
    by (rule codec_map [OF codec_pair [OF codec_hash32 [of "''tx.anchor''"] codec_pair [OF hashes [of "''tx.nullifiers''" "''tx.nf''"]
          codec_pair [OF hashes [of "''tx.commitments''" "''tx.cm''"] codec_pair [OF codec_bucket [of "''tx.bucket''"] codec_pair [OF codec_u64 [of "''tx.fee''"]
          codec_pair [OF codec_section [of "''tx.proof''"] codec_section [of "''tx.discovery''"]]]]]]],
        where f = "\<lambda>(pf, disc, p). (anchor p, tx_nullifiers p, commitments p, bucket p, fee p, pf, disc)"
          and g = "\<lambda>(an, nfs, cms, k, fe, pf, disc). (pf, disc, \<lparr>anchor = an, tx_nullifiers = nfs, commitments = cms, bucket = k, fee = fe\<rparr>)"])
      (auto simp: tx_core_bytes_def len_varint_def wire_public_ok_def max_tx_entries_def decode_tx_through_discovery_def rbind_assoc split_def)
qed

text \<open>A section that may follow to the end of the buffer.\<close>

lemma section_tail:
  assumes "p \<le> length b" and "bad absent"
  shows "(\<exists>p1. (if p < length b then rbind (rd_section what b p) (\<lambda>(x, p1). if bad x then Inl (err x) else Inr (x, p1)) else Inr (absent, p)) = Inr (x, p1)
      \<and> rd_finish b p1 = Inr ())
    \<longleftrightarrow> (x = absent \<or> \<not> bad x \<and> length x < 2 ^ 64) \<and> drop p b = (if x = absent then [] else section_bytes x)"
proof -
  have "(\<exists>p1. rd_section what b p = Inr (x, p1) \<and> rd_finish b p1 = Inr ()) \<longleftrightarrow> length x < 2 ^ 64 \<and> drop p b = section_bytes x"
  proof
    assume "\<exists>p1. rd_section what b p = Inr (x, p1) \<and> rd_finish b p1 = Inr ()"
    then show "length x < 2 ^ 64 \<and> drop p b = section_bytes x"
      using codecD(2) [OF codec_section] by (auto simp: rd_finish_def split: if_splits)
  next
    assume a: "length x < 2 ^ 64 \<and> drop p b = section_bytes x"
    then have b: "b = take p b @ section_bytes x @ []" by (metis append_take_drop_id append_Nil2)
    have l: "length (take p b) = p" using assms(1) by simp
    have "length b = p + length (section_bytes x)" using arg_cong [OF b, of length] l by simp
    then show "\<exists>p1. rd_section what b p = Inr (x, p1) \<and> rd_finish b p1 = Inr ()"
      using codecD(1) [OF codec_section [of what], of x "take p b" "[]"] a b l by (auto simp: rd_finish_def)
  qed
  then show ?thesis using assms by (auto simp: rd_finish_def section_bytes_def len_varint_def split: if_splits)
qed

text \<open>A field, and then the rest of the buffer.\<close>

lemma codec_then_tail:
  assumes c: "sized_codec enc dec ok" and p: "p \<le> length b" and T: "\<And>p1. p1 \<le> length b \<Longrightarrow> T p1 \<longleftrightarrow> R \<and> drop p1 b = X"
  shows "(\<exists>p1. dec b p = Inr (x, p1) \<and> T p1) \<longleftrightarrow> ok x \<and> R \<and> drop p b = enc x @ X"
proof
  assume "\<exists>p1. dec b p = Inr (x, p1) \<and> T p1"
  then obtain p1 where p1: "dec b p = Inr (x, p1)" "T p1" by blast
  from codecD(2) [OF c p1(1)] have f: "p1 \<le> length b" "drop p b = enc x @ drop p1 b" "ok x" by blast+
  then have "R" "drop p1 b = X" using T p1(2) by blast+
  then show "ok x \<and> R \<and> drop p b = enc x @ X" using f by metis
next
  assume a: "ok x \<and> R \<and> drop p b = enc x @ X"
  have b: "b = take p b @ enc x @ X" using a by (metis append_take_drop_id)
  let ?p = "p + length (enc x)"
  have "drop ?p b = drop (length (enc x)) (drop p b)" by (simp add: add.commute)
  then have d: "drop ?p b = X" using a by simp
  have "length (drop p b) = length (enc x) + length X" using a by simp
  then have le: "?p \<le> length b" using p by simp
  have "dec (take p b @ enc x @ X) (length (take p b)) = Inr (x, length (take p b) + length (enc x))"
    by (rule codecD(1) [OF c]) (use a in blast)
  then have "dec b p = Inr (x, ?p)" using b p by simp
  moreover have "T ?p" unfolding T [OF le] using a d by blast
  ultimately show "\<exists>p1. dec b p = Inr (x, p1) \<and> T p1" by blast
qed

lemma decode_tx_shape:
  "rbind core (\<lambda>((pf, disc, pub), p). rbind (rst p) (\<lambda>(rd, p2). rbind (fin p2) (\<lambda>_.
      Inr \<lparr>proof_bytes = pf, public = pub, discovery = disc, rider = rd, l2 = sf, auth = au\<rparr>))) = Inr t
    \<longleftrightarrow> (\<exists>p. core = Inr ((proof_bytes t, discovery t, public t), p) \<and> (\<exists>p1. rst p = Inr (rider t, p1) \<and> fin p1 = Inr ()))
      \<and> l2 t = sf \<and> auth t = au"
  by (cases t) auto

text \<open>An L1 transaction and its bytes determine each other.\<close>

lemma decode_tx_iff: "decode_tx b = Ok t \<longleftrightarrow> wire_tx_ok V4 af t \<and> encode_tx t = Some b"
proof -
  let ?T = "\<lambda>p. \<exists>p1. (if p < length b
      then rbind (rd_section ''tx.rider'' b p) (\<lambda>(x, p1). if x = rider_absent then Err (Trailing (length x)) else Ok (x, p1))
      else Ok (rider_absent, p)) = Ok (rider t, p1) \<and> rd_finish b p1 = Ok ()"
  have tail: "?T p \<longleftrightarrow> (rider t = rider_absent \<or> length (rider t) < 2 ^ 64) \<and> drop p b = (if rider t = rider_absent then [] else section_bytes (rider t))"
    if "p \<le> length b" for p
    using section_tail [OF that, where bad = "\<lambda>x. x = rider_absent" and absent = rider_absent and x = "rider t"
      and what = "''tx.rider''" and err = "\<lambda>x. Trailing (length x)"] by (simp add: disj_not1 imp_conv_disj)
  note core = codec_then_tail [OF codec_tx_core le0, where T = ?T, OF tail, where x = "(proof_bytes t, discovery t, public t)", unfolded prod.case drop_0]
  have "decode_tx b = Ok t \<longleftrightarrow> (\<exists>p. decode_tx_through_discovery b 0 = Ok ((proof_bytes t, discovery t, public t), p) \<and> ?T p)
      \<and> l2 t = l2_surface_absent \<and> auth t = l2_auth_absent"
    unfolding decode_tx_def by (rule decode_tx_shape)
  also have "\<dots> \<longleftrightarrow> ((length (proof_bytes t) < 2 ^ 64 \<and> length (discovery t) < 2 ^ 64 \<and> wire_public_ok (public t))
      \<and> (rider t = rider_absent \<or> length (rider t) < 2 ^ 64)
      \<and> b = tx_core_bytes (proof_bytes t) (discovery t) (public t) @ (if rider t = rider_absent then [] else section_bytes (rider t)))
      \<and> l2 t = l2_surface_absent \<and> auth t = l2_auth_absent"
    using core by simp
  also have "\<dots> \<longleftrightarrow> wire_tx_ok V4 af t \<and> encode_tx t = Some b"
  proof (cases "l2 t = l2_surface_absent")
    case True
    have "length rider_absent < 2 ^ 64" by (simp add: rider_absent_def)
    then show ?thesis using True by (cases "rider t = rider_absent") (auto simp: wire_tx_ok_def encode_tx_def)
  qed (simp add: encode_tx_def)
  finally show ?thesis .
qed

lemma decode_annulet_shape:
  "rbind core (\<lambda>((pf, disc, pub), p). rbind (sec p) (\<lambda>(sf, p1).
      case surface_decode sf of Inr (Some _) \<Rightarrow> rbind (rst p1) (\<lambda>(au, p3). rbind (fin p3) (\<lambda>_.
          Inr \<lparr>proof_bytes = pf, public = pub, discovery = disc, rider = rider_absent, l2 = sf, auth = au\<rparr>))
      | _ \<Rightarrow> Inl bad)) = Inr t
    \<longleftrightarrow> (\<exists>p. core = Inr ((proof_bytes t, discovery t, public t), p) \<and> (\<exists>p1. sec p = Inr (l2 t, p1) \<and> (\<exists>p2. rst p1 = Inr (auth t, p2) \<and> fin p2 = Inr ())))
      \<and> (\<exists>s. surface_decode (l2 t) = Inr (Some s)) \<and> rider t = rider_absent"
proof -
  have "(case v of Inr (Some _) \<Rightarrow> r | _ \<Rightarrow> Inl bad) = Inr t \<longleftrightarrow> (\<exists>s. v = Inr (Some s)) \<and> r = Inr t" for v :: "l2_surface_error + l2_surface option" and r
    by (auto split: sum.splits option.splits)
  then show ?thesis by (cases t) auto
qed

text \<open>An Annulet transaction and its bytes determine each other.\<close>

lemma decode_tx_annulet_iff: "decode_tx_annulet_with af b = Ok t \<longleftrightarrow> wire_tx_ok Annulet af t \<and> encode_tx_annulet t = Some b"
proof -
  let ?A = "\<lambda>p1. \<exists>p2. (if has_auth af \<and> rd_remaining b p1 > 0
      then rbind (rd_section ''tx.auth'' b p1) (\<lambda>(x, p2). if x = [] \<or> x = l2_auth_absent then Err BadAuthSection else Ok (x, p2))
      else Ok (l2_auth_absent, p1)) = Ok (auth t, p2) \<and> rd_finish b p2 = Ok ()"
  have tail: "?A p \<longleftrightarrow> (auth t = l2_auth_absent \<or> has_auth af \<and> auth t \<noteq> [] \<and> length (auth t) < 2 ^ 64)
      \<and> drop p b = (if auth t = l2_auth_absent then [] else section_bytes (auth t))" if "p \<le> length b" for p
  proof (cases "has_auth af")
    case True
    have "0 < rd_remaining b p \<longleftrightarrow> p < length b" by (auto simp: rd_remaining_def)
    then show ?thesis
      using section_tail [OF that, where bad = "\<lambda>x. x = [] \<or> x = l2_auth_absent" and absent = l2_auth_absent and x = "auth t"
        and what = "''tx.auth''" and err = "\<lambda>_. BadAuthSection"] True by (auto simp: l2_auth_absent_def)
  qed (use that in \<open>auto simp: rd_finish_def\<close>)
  let ?T = "\<lambda>p. \<exists>p1. rd_section ''tx.l2'' b p = Ok (l2 t, p1) \<and> ?A p1"
  have rest: "?T p \<longleftrightarrow> (length (l2 t) < 2 ^ 64 \<and> (auth t = l2_auth_absent \<or> has_auth af \<and> auth t \<noteq> [] \<and> length (auth t) < 2 ^ 64))
      \<and> drop p b = section_bytes (l2 t) @ (if auth t = l2_auth_absent then [] else section_bytes (auth t))" if "p \<le> length b" for p
    using codec_then_tail [OF codec_section that, where T = ?A, OF tail, where x = "l2 t"] by simp
  note core = codec_then_tail [OF codec_tx_core le0, where T = ?T, OF rest, where x = "(proof_bytes t, discovery t, public t)", unfolded prod.case drop_0]
  have "decode_tx_annulet_with af b = Ok t \<longleftrightarrow> (\<exists>p. decode_tx_through_discovery b 0 = Ok ((proof_bytes t, discovery t, public t), p) \<and> ?T p)
      \<and> (\<exists>s. surface_decode (l2 t) = Ok (Some s)) \<and> rider t = rider_absent"
    unfolding decode_tx_annulet_with_def by (rule decode_annulet_shape)
  also have "\<dots> \<longleftrightarrow> ((length (proof_bytes t) < 2 ^ 64 \<and> length (discovery t) < 2 ^ 64 \<and> wire_public_ok (public t))
      \<and> (length (l2 t) < 2 ^ 64 \<and> (auth t = l2_auth_absent \<or> has_auth af \<and> auth t \<noteq> [] \<and> length (auth t) < 2 ^ 64))
      \<and> b = tx_core_bytes (proof_bytes t) (discovery t) (public t) @ section_bytes (l2 t)
          @ (if auth t = l2_auth_absent then [] else section_bytes (auth t)))
      \<and> (\<exists>s. surface_decode (l2 t) = Ok (Some s)) \<and> rider t = rider_absent"
    using core by simp
  also have "\<dots> \<longleftrightarrow> wire_tx_ok Annulet af t \<and> encode_tx_annulet t = Some b"
  proof (cases "\<exists>s. surface_decode (l2 t) = Ok (Some s)")
    case True
    then have "l2 t \<noteq> l2_surface_absent" by (auto simp: surface_decode_def l2_surface_absent_def)
    then show ?thesis using True
      by (cases "auth t = l2_auth_absent") (auto simp: wire_tx_ok_def encode_tx_annulet_def annulet_wire_bytes_def encode_tx_def)
  qed (simp add: wire_tx_ok_def)
  finally show ?thesis .
qed

lemma decode_tx_for_iff: "decode_tx_for_auth fm af b = Ok t \<longleftrightarrow> wire_tx_ok fm af t \<and> encode_tx_for fm t = Some b"
  using decode_tx_iff [of b t] decode_tx_annulet_iff [of af b t]
  by (cases fm) (simp_all add: decode_tx_for_auth_def encode_tx_for_def wire_tx_ok_def)

text \<open>Within a form a transaction id names one transaction, or two encodings collide under Keccak.\<close>

lemma canonical_wire: "wire_tx_ok fm af t \<Longrightarrow> canonical_tx_wire t = encode_tx_for fm t \<and> encode_tx_for fm t \<noteq> None"
proof -
  assume a: "wire_tx_ok fm af t"
  have "surface_decode l2_surface_absent = Ok None" by (simp add: surface_decode_def l2_surface_absent_def)
  then have "fm = Annulet \<Longrightarrow> l2 t \<noteq> l2_surface_absent" using a by (auto simp: wire_tx_ok_def)
  then show ?thesis using a
    by (cases fm) (auto simp: canonical_tx_wire_def encode_tx_for_def encode_tx_annulet_def annulet_wire_bytes_def encode_tx_def wire_tx_ok_def)
qed

section \<open>Checkpoints, votes and evidence\<close>

definition checkpoint_bytes :: "checkpoint \<Rightarrow> bytes" where
  "checkpoint_bytes cp = u64_le (cp_height cp) @ cp_block_hash cp @ cp_root cp"

definition read_checkpoint :: "checkpoint reader" where
  "read_checkpoint b p =
    rbind (rd_u64 ''cp.height'' b p) (\<lambda>(h, p1).
    rbind (rd_hash32 ''cp.block_hash'' b p1) (\<lambda>(bh, p2).
    rbind (rd_hash32 ''cp.root'' b p2) (\<lambda>(r, p3). Ok (\<lparr>cp_height = h, cp_block_hash = bh, cp_root = r\<rparr>, p3))))"

definition wire_vote_bytes :: "('s \<Rightarrow> bytes) \<Rightarrow> 's vote \<Rightarrow> bytes" where
  "wire_vote_bytes sig_enc v = varint_bytes (word_of_nat (signer v)) @ section_bytes (sig_enc (signature v))"

definition read_vote :: "(bytes \<Rightarrow> 's option) \<Rightarrow> 's vote reader" where
  "read_vote sig_dec b p =
    rbind (rd_varint_usize b p) (\<lambda>(sg, p1).
    rbind (rd_section ''vote.signature'' b p1) (\<lambda>(raw, p2).
      if length raw \<noteq> sig_len then Err BadSignature
      else (case sig_dec raw of None \<Rightarrow> Err BadSignature | Some s \<Rightarrow> Ok (\<lparr>signer = sg, signature = s\<rparr>, p2))))"

definition encode_checkpoint_msg :: "('s \<Rightarrow> bytes) \<Rightarrow> checkpoint \<Rightarrow> 's vote list \<Rightarrow> bytes" where
  "encode_checkpoint_msg sig_enc cp votes = checkpoint_bytes cp @ len_varint votes @ concat (map (wire_vote_bytes sig_enc) votes)"

definition decode_checkpoint_msg :: "(bytes \<Rightarrow> 's option) \<Rightarrow> bytes \<Rightarrow> decode_error + (checkpoint \<times> 's vote list)" where
  "decode_checkpoint_msg sig_dec b =
    rd_whole (\<lambda>b p.
      rbind (read_checkpoint b p) (\<lambda>(cp, p1).
      rbind (rd_varint_usize b p1) (\<lambda>(n, p2).
      rbind (read_times (read_vote sig_dec) n b p2) (\<lambda>(vs, p3). Ok ((cp, vs), p3))))) b"

definition checkpoint_id :: "checkpoint \<Rightarrow> hash32" where
  "checkpoint_id cp = keccak256 (signing_message cp)"

definition encode_evidence_msg :: "('s \<Rightarrow> bytes) \<Rightarrow> 's equivocation_evidence \<Rightarrow> bytes" where
  "encode_evidence_msg sig_enc ev =
    checkpoint_bytes (cp_a ev) @ wire_vote_bytes sig_enc (vote_a ev) @ checkpoint_bytes (cp_b ev) @ wire_vote_bytes sig_enc (vote_b ev)"

definition decode_evidence_msg :: "(bytes \<Rightarrow> 's option) \<Rightarrow> bytes \<Rightarrow> decode_error + 's equivocation_evidence" where
  "decode_evidence_msg sig_dec b =
    rd_whole (\<lambda>b p.
      rbind (read_checkpoint b p) (\<lambda>(ca, p1).
      rbind (read_vote sig_dec b p1) (\<lambda>(va, p2).
      rbind (read_checkpoint b p2) (\<lambda>(cb, p3).
      rbind (read_vote sig_dec b p3) (\<lambda>(vb, p4).
        Ok (\<lparr>cp_a = ca, vote_a = va, cp_b = cb, vote_b = vb\<rparr>, p4)))))) b"

definition evidence_id :: "'s equivocation_evidence \<Rightarrow> hash32" where
  "evidence_id ev =
    keccak256 (signing_message (cp_a ev) @ signing_message (cp_b ev) @ u64_le (word_of_nat (signer (vote_a ev))))"

text \<open>What the codec relies on of the signature's: it reads back what it wrote, and only that, at one length.\<close>

definition sig_codec :: "('s \<Rightarrow> bytes) \<Rightarrow> (bytes \<Rightarrow> 's option) \<Rightarrow> bool" where
  "sig_codec sig_enc sig_dec \<longleftrightarrow> (\<forall>s. length (sig_enc s) = sig_len) \<and> (\<forall>x s. length x = sig_len \<longrightarrow> sig_dec x = Some s \<longleftrightarrow> sig_enc s = x)"

lemma codec_checkpoint: "sized_codec checkpoint_bytes read_checkpoint wf_checkpoint"
  by (rule codec_map [OF codec_pair [OF codec_u64 [of "''cp.height''"] codec_pair [OF codec_hash32 [of "''cp.block_hash''"] codec_hash32 [of "''cp.root''"]]],
      where f = "\<lambda>cp. (cp_height cp, cp_block_hash cp, cp_root cp)" and g = "\<lambda>(h, bh, r). \<lparr>cp_height = h, cp_block_hash = bh, cp_root = r\<rparr>"])
    (auto simp: checkpoint_bytes_def read_checkpoint_def wf_checkpoint_def rbind_assoc split_def)

lemma codec_vote:
  fixes sig_enc :: "'s \<Rightarrow> bytes"
  assumes "sig_codec sig_enc sig_dec"
  shows "sized_codec (wire_vote_bytes sig_enc) (read_vote sig_dec) (\<lambda>v. signer v < 2 ^ 64)"
proof -
  let ?g = "\<lambda>(sg, raw). if length raw = sig_len then map_option (\<lambda>s. \<lparr>signer = sg, signature = s\<rparr>) (sig_dec raw) else None"
  let ?f = "\<lambda>v :: 's vote. (signer v, sig_enc (signature v))"
  have "sized_codec (\<lambda>v. (\<lambda>(x, y). varint_bytes (word_of_nat x) @ section_bytes y) (?f v)) (read_vote sig_dec) (\<lambda>v. signer v < 2 ^ 64)"
  proof (rule codec_partial [OF codec_pair [OF codec_usize codec_section [of "''vote.signature''"]], where f = ?f and g = ?g and err = "\<lambda>_. BadSignature"])
    show "?g x = Some y \<longleftrightarrow> signer y < 2 ^ 64 \<and> ?f y = x" if "case x of (n, s) \<Rightarrow> n < 2 ^ 64 \<and> length s < 2 ^ 64" for x y
      using assms that by (cases y) (auto simp: sig_codec_def split: if_splits prod.splits)
  qed (use assms in \<open>auto simp: sig_codec_def sig_len_def read_vote_def rbind_assoc split_def intro!: arg_cong [where f = "rbind _"] ext split: option.splits\<close>)
  then show ?thesis by (simp add: wire_vote_bytes_def [abs_def] cong: prod.case_cong)
qed

text \<open>Checkpoint messages and evidence: the bytes and the value determine each other.\<close>

lemma decode_checkpoint_msg_iff:
  assumes "sig_codec sig_enc sig_dec"
  shows "decode_checkpoint_msg sig_dec b = Ok (cp, vs)
    \<longleftrightarrow> wf_checkpoint cp \<and> length vs < 2 ^ 64 \<and> (\<forall>v \<in> set vs. signer v < 2 ^ 64) \<and> encode_checkpoint_msg sig_enc cp vs = b"
proof -
  have "sized_codec (\<lambda>(cp, vs). encode_checkpoint_msg sig_enc cp vs) (\<lambda>b p.
      rbind (read_checkpoint b p) (\<lambda>(cp, p1). rbind (rd_varint_usize b p1) (\<lambda>(n, p2).
      rbind (read_times (read_vote sig_dec) n b p2) (\<lambda>(vs, p3). Ok ((cp, vs), p3)))))
      (\<lambda>(cp, vs). wf_checkpoint cp \<and> length vs < 2 ^ 64 \<and> (\<forall>v \<in> set vs. signer v < 2 ^ 64))"
    using codec_pair [OF codec_checkpoint codec_len_counted [OF codec_vote [OF assms]]]
    by (simp add: encode_checkpoint_msg_def rbind_assoc split_def)
  from codec_whole [OF this, of b "(cp, vs)"] show ?thesis by (simp add: decode_checkpoint_msg_def)
qed

lemma decode_evidence_msg_iff:
  assumes "sig_codec sig_enc sig_dec"
  shows "decode_evidence_msg sig_dec b = Ok ev
    \<longleftrightarrow> wf_checkpoint (cp_a ev) \<and> signer (vote_a ev) < 2 ^ 64 \<and> wf_checkpoint (cp_b ev) \<and> signer (vote_b ev) < 2 ^ 64
      \<and> encode_evidence_msg sig_enc ev = b"
proof -
  note v = codec_vote [OF assms]
  have "sized_codec (encode_evidence_msg sig_enc) (\<lambda>b p.
      rbind (read_checkpoint b p) (\<lambda>(ca, p1). rbind (read_vote sig_dec b p1) (\<lambda>(va, p2).
      rbind (read_checkpoint b p2) (\<lambda>(cb, p3). rbind (read_vote sig_dec b p3) (\<lambda>(vb, p4).
        Ok (\<lparr>cp_a = ca, vote_a = va, cp_b = cb, vote_b = vb\<rparr>, p4))))))
      (\<lambda>ev. wf_checkpoint (cp_a ev) \<and> signer (vote_a ev) < 2 ^ 64 \<and> wf_checkpoint (cp_b ev) \<and> signer (vote_b ev) < 2 ^ 64)"
    by (rule codec_map [OF codec_pair [OF codec_checkpoint codec_pair [OF v codec_pair [OF codec_checkpoint v]]],
        where f = "\<lambda>ev. (cp_a ev, vote_a ev, cp_b ev, vote_b ev)" and g = "\<lambda>(ca, va, cb, vb). \<lparr>cp_a = ca, vote_a = va, cp_b = cb, vote_b = vb\<rparr>"])
      (auto simp: encode_evidence_msg_def rbind_assoc split_def)
  from codec_whole [OF this, of b ev] show ?thesis by (simp add: decode_evidence_msg_def)
qed

section \<open>Inventories and locators\<close>

datatype inv_kind = InvTx | InvBlock | InvCheckpoint | InvBundle

definition inv_kind_u8 :: "inv_kind \<Rightarrow> u8" where
  "inv_kind_u8 k = (case k of InvTx \<Rightarrow> 1 | InvBlock \<Rightarrow> 2 | InvCheckpoint \<Rightarrow> 3 | InvBundle \<Rightarrow> 5)"

definition inv_kind_from_u8 :: "u8 \<Rightarrow> inv_kind option" where
  "inv_kind_from_u8 v =
    (if v = 1 then Some InvTx else if v = 2 then Some InvBlock else if v = 3 then Some InvCheckpoint
     else if v = 5 then Some InvBundle else None)"

record inv_item =
  ii_kind :: inv_kind
  ii_id :: hash32

record inv_vec =
  iv_items :: "inv_item list"
  iv_unknown_kinds :: nat

definition encode_inv :: "inv_item list \<Rightarrow> bytes" where
  "encode_inv items = len_varint items @ concat (map (\<lambda>it. [inv_kind_u8 (ii_kind it)] @ ii_id it) items)"

definition rd_inv_entry :: "(u8 \<times> hash32) reader" where
  "rd_inv_entry b p = rbind (rd_u8 ''inv.kind'' b p) (\<lambda>(k, p1). rbind (rd_hash32 ''inv.id'' b p1) (\<lambda>(h, p2). Ok ((k, h), p2)))"

definition inv_vec_of :: "(u8 \<times> hash32) list \<Rightarrow> inv_vec" where
  "inv_vec_of xs =
    \<lparr>iv_items = List.map_filter (\<lambda>(k, h). map_option (\<lambda>kind. \<lparr>ii_kind = kind, ii_id = h\<rparr>) (inv_kind_from_u8 k)) xs,
     iv_unknown_kinds = length (filter (\<lambda>(k, _). inv_kind_from_u8 k = None) xs)\<rparr>"

definition decode_inv :: "bytes \<Rightarrow> decode_error + inv_vec" where
  "decode_inv b =
    rbind (rd_whole (\<lambda>b p. rbind (rd_varint_usize b p) (\<lambda>(n, p1). read_times rd_inv_entry n b p1)) b) (\<lambda>xs. Ok (inv_vec_of xs))"

record locator =
  lo_have :: "hash32 list"
  lo_stop :: hash32

definition encode_locator :: "locator \<Rightarrow> bytes" where
  "encode_locator l = len_varint (lo_have l) @ concat (lo_have l) @ lo_stop l"

definition decode_locator :: "bytes \<Rightarrow> decode_error + locator" where
  "decode_locator b =
    rd_whole (\<lambda>b p.
      rbind (rd_varint_usize b p) (\<lambda>(n, p1).
      rbind (read_times (rd_hash32 ''loc.have'') n b p1) (\<lambda>(have, p2).
      rbind (rd_hash32 ''loc.stop'' b p2) (\<lambda>(stop, p3). Ok (\<lparr>lo_have = have, lo_stop = stop\<rparr>, p3))))) b"

lemma codec_inv_entry: "sized_codec (\<lambda>(k, h). [k] @ h) rd_inv_entry (\<lambda>(k, h). is_hash32 h)"
  using codec_pair [OF codec_u8 [of "''inv.kind''"] codec_hash32 [of "''inv.id''"]]
  by (simp add: rd_inv_entry_def [abs_def])

text \<open>What a peer announces of known kinds is read back; entries of other kinds are counted.\<close>

lemma inv_roundtrip:
  assumes "length items < 2 ^ 64" and "\<forall>it \<in> set items. is_hash32 (ii_id it)"
  shows "decode_inv (encode_inv items) = Ok \<lparr>iv_items = items, iv_unknown_kinds = 0\<rparr>"
proof -
  let ?xs = "map (\<lambda>it. (inv_kind_u8 (ii_kind it), ii_id it)) items"
  have k: "inv_kind_from_u8 (inv_kind_u8 x) = Some x" for x by (cases x) (simp_all add: inv_kind_u8_def inv_kind_from_u8_def)
  have "len_varint ?xs @ concat (map (\<lambda>(k, h). [k] @ h) ?xs) = encode_inv items"
    by (simp add: encode_inv_def len_varint_def comp_def)
  then have "rd_whole (\<lambda>b p. rbind (rd_varint_usize b p) (\<lambda>(n, p1). read_times rd_inv_entry n b p1)) (encode_inv items) = Ok ?xs"
    using codec_whole [OF codec_len_counted [OF codec_inv_entry], of "encode_inv items" ?xs] assms by auto
  moreover have "inv_vec_of ?xs = \<lparr>iv_items = items, iv_unknown_kinds = 0\<rparr>"
    by (induction items) (simp_all add: inv_vec_of_def List.map_filter_def k)
  ultimately show ?thesis by (simp add: decode_inv_def)
qed

lemma decode_locator_iff:
  "decode_locator b = Ok l \<longleftrightarrow> length (lo_have l) < 2 ^ 64 \<and> (\<forall>x \<in> set (lo_have l). is_hash32 x) \<and> is_hash32 (lo_stop l) \<and> encode_locator l = b"
proof -
  have "sized_codec encode_locator (\<lambda>b p.
      rbind (rd_varint_usize b p) (\<lambda>(n, p1). rbind (read_times (rd_hash32 ''loc.have'') n b p1) (\<lambda>(have, p2).
      rbind (rd_hash32 ''loc.stop'' b p2) (\<lambda>(stop, p3). Ok (\<lparr>lo_have = have, lo_stop = stop\<rparr>, p3)))))
      (\<lambda>l. length (lo_have l) < 2 ^ 64 \<and> (\<forall>x \<in> set (lo_have l). is_hash32 x) \<and> is_hash32 (lo_stop l))"
    by (rule codec_map [OF codec_pair [OF codec_len_counted [OF codec_hash32 [of "''loc.have''"]] codec_hash32 [of "''loc.stop''"]],
        where f = "\<lambda>l. (lo_have l, lo_stop l)" and g = "\<lambda>(have, stop). \<lparr>lo_have = have, lo_stop = stop\<rparr>"])
      (auto simp: encode_locator_def rbind_assoc split_def)
  from codec_whole [OF this, of b l] show ?thesis by (simp add: decode_locator_def)
qed

section \<open>Properties\<close>

text \<open>a transaction crosses the wire exactly: on every form the bytes a node accepts as a transaction are
  the encoding of the transaction they decode to, and every transaction of wire size decodes from its
  encoding; and within a form its id names it, or two encodings collide under Keccak.\<close>

theorem wire_tx_exact:
  "(decode_tx_for_auth fm af b = Ok t \<longleftrightarrow> wire_tx_ok fm af t \<and> encode_tx_for fm t = Some b)
    \<and> (wire_tx_ok fm af t \<and> wire_tx_ok fm af u \<and> tx_id t = tx_id u \<longrightarrow> t = u
      \<or> (\<exists>x y. encode_tx_for fm t = Some x \<and> encode_tx_for fm u = Some y \<and> x \<noteq> y \<and> keccak256 x = keccak256 y))"
proof (intro conjI impI)
  assume a: "wire_tx_ok fm af t \<and> wire_tx_ok fm af u \<and> tx_id t = tx_id u"
  then obtain x y where xy: "encode_tx_for fm t = Some x" "encode_tx_for fm u = Some y" using canonical_wire by blast
  then have h: "keccak256 x = keccak256 y" using a canonical_wire by (metis tx_id_def option.map(2) option.inject)
  show "t = u \<or> (\<exists>x y. encode_tx_for fm t = Some x \<and> encode_tx_for fm u = Some y \<and> x \<noteq> y \<and> keccak256 x = keccak256 y)"
  proof (cases "x = y")
    case True
    then have "decode_tx_for_auth fm af x = Ok t" "decode_tx_for_auth fm af x = Ok u" using decode_tx_for_iff a xy by blast+
    then show ?thesis by simp
  qed (use xy h in blast)
qed (rule decode_tx_for_iff)

definition wire_sample :: tx_entry where
  "wire_sample =
    \<lparr>proof_bytes = [7, 8, 9], public = \<lparr>anchor = replicate 32 1, tx_nullifiers = [replicate 32 2], commitments = [replicate 32 3, replicate 32 4],
       bucket = TwoByTwo, fee = 1000\<rparr>, discovery = [5], rider = rider_absent, l2 = l2_surface_absent, auth = l2_auth_absent\<rparr>"

lemma wire_tx_exact_witness:
  "wire_tx_ok V5 NoAuth wire_sample \<and> wire_tx_ok V5 NoAuth (wire_sample\<lparr>discovery := [6]\<rparr>)
    \<and> decode_tx_for_auth V5 NoAuth (the (encode_tx_for V5 wire_sample)) = Ok wire_sample"
proof -
  have ok: "wire_tx_ok V5 NoAuth wire_sample" "wire_tx_ok V5 NoAuth (wire_sample\<lparr>discovery := [6]\<rparr>)"
    by (simp_all add: wire_tx_ok_def wire_sample_def wire_public_ok_def is_hash32_def max_tx_entries_def rider_absent_def)
  have "encode_tx_for V5 wire_sample \<noteq> None" by (simp add: encode_tx_for_def encode_tx_def wire_sample_def)
  then have "encode_tx_for V5 wire_sample = Some (the (encode_tx_for V5 wire_sample))" by simp
  with wire_tx_exact [of V5 NoAuth "the (encode_tx_for V5 wire_sample)" wire_sample wire_sample] ok show ?thesis by blast
qed

end
