(* ===== verification/Relay.thy ===== *)
theory Relay
  imports Wire_Codec
begin

text \<open>
  Block relay (\<open>qlab-p2p/src/compact.rs\<close>): the block announcement with its short transaction ids, its codec on
  every wire form, the request and the supply of missing transactions, and the reconstruction of a block from
  the pool; the announcements a node builds (\<open>qlab-p2p/src/node.rs\<close>); and the body answer of the served chain
  (\<open>served.rs\<close>). The hash map of reconstruction is a map, filled in the order of the candidates. A panic is
  \<open>None\<close>.
\<close>

section \<open>Wire forms\<close>

record wire_form =
  wf_form :: genesis_form
  wf_sections :: body_sections
  wf_auth :: l2_auth_form

definition wf_plain :: "genesis_form \<Rightarrow> wire_form" where
  "wf_plain fm = \<lparr>wf_form = fm, wf_sections = NoSections, wf_auth = NoAuth\<rparr>"

definition wf_v6 :: wire_form where "wf_v6 = \<lparr>wf_form = V5, wf_sections = V6, wf_auth = NoAuth\<rparr>"
definition wf_annulet_auth :: wire_form where
  "wf_annulet_auth = \<lparr>wf_form = Annulet, wf_sections = NoSections, wf_auth = CandidateA\<rparr>"
definition wf_annulet_auth_v3 :: wire_form where
  "wf_annulet_auth_v3 = \<lparr>wf_form = Annulet, wf_sections = NoSections, wf_auth = CandidateAV3\<rparr>"

section \<open>Announcements\<close>

definition shortid_len :: nat where "shortid_len = 6"

definition short_id :: "u64 \<Rightarrow> hash32 \<Rightarrow> bytes" where
  "short_id nc tid = take shortid_len (keccak256 (u64_le nc @ tid))"

record prefilled_tx =
  pf_index :: u32
  pf_tx :: tx_entry

record block_announce =
  ba_header :: block_header
  ba_nonce :: u64
  ba_payees :: "coinbase_payee list"
  ba_short_ids :: "bytes list"
  ba_prefilled :: "prefilled_tx list"
  ba_seal :: "bytes option"
  ba_finality :: bytes
  ba_bundle :: bytes

datatype announce_encode_error = SectionOnForm

definition announce_header :: "block_announce \<Rightarrow> wire_header" where
  "announce_header a =
    (case ba_seal a of
       Some sg \<Rightarrow> WireSealed \<lparr>sl_header = ba_header a, sl_sig = sg\<rparr>
     | None \<Rightarrow> WireL1 (ba_header a))"

definition announce_payee_parts :: "coinbase_payee list \<Rightarrow> (u64 \<times> u64 list) option" where
  "announce_payee_parts ps =
    (case ps of [] \<Rightarrow> Some (0, [0, 0, 0, 0]) | [p] \<Rightarrow> Some (amount p, rkm p) | _ \<Rightarrow> None)"

definition announce_payee_cap :: "u64 option \<Rightarrow> wire_form \<Rightarrow> u64 \<Rightarrow> nat" where
  "announce_payee_cap boundary wr h =
    (case wf_sections wr of V6 \<Rightarrow> coinbase_payee_cap_v6 | NoSections \<Rightarrow> coinbase_payee_cap_v5_above boundary h)"

definition announce_payees_bytes :: "u64 option \<Rightarrow> wire_form \<Rightarrow> u64 \<Rightarrow> coinbase_payee list \<Rightarrow> bytes option" where
  "announce_payees_bytes boundary wr h ps =
    (case wf_form wr of
       Annulet \<Rightarrow> if ps = [] then Some [] else None
     | V4 \<Rightarrow> map_option (\<lambda>(c, k). u64_le c @ concat (map u64_le k)) (announce_payee_parts ps)
     | V5 \<Rightarrow>
         if length ps \<le> announce_payee_cap boundary wr h
         then Some (word_of_nat (length ps) # concat (map (\<lambda>p. concat (map u64_le (rkm p)) @ u64_le (amount p)) ps))
         else None)"

fun prefilled_bytes :: "genesis_form \<Rightarrow> prefilled_tx list \<Rightarrow> bytes option" where
  "prefilled_bytes fm [] = Some []"
| "prefilled_bytes fm (p # ps) =
    Option.bind (encode_tx_for fm (pf_tx p)) (\<lambda>x.
    map_option (\<lambda>y. (varint_bytes (ucast (pf_index p)) @ section_bytes x) @ y) (prefilled_bytes fm ps))"

definition encode_announce_inner :: "u64 option \<Rightarrow> wire_form \<Rightarrow> block_announce \<Rightarrow> bytes option" where
  "encode_announce_inner boundary wr a =
    Option.bind (encode_wire_header (wf_form wr) (announce_header a)) (\<lambda>hd.
    Option.bind (announce_payees_bytes boundary wr (height (ba_header a)) (ba_payees a)) (\<lambda>ps.
    map_option (\<lambda>pf.
      hd @ u64_le (ba_nonce a) @ ps
      @ (if wf_sections wr = V6 then section_bytes (ba_finality a) @ section_bytes (ba_bundle a) else [])
      @ len_varint (ba_short_ids a) @ concat (ba_short_ids a) @ len_varint (ba_prefilled a) @ pf)
      (prefilled_bytes (wf_form wr) (ba_prefilled a))))"

definition encode_announce_for :: "wire_form \<Rightarrow> block_announce \<Rightarrow> (announce_encode_error + bytes) option" where
  "encode_announce_for wr a =
    (if wf_sections wr = NoSections \<and> (ba_finality a \<noteq> [] \<or> ba_bundle a \<noteq> []) then Some (Err SectionOnForm)
     else map_option Inr (encode_announce_inner payee_cap_v5_boundary wr a))"

definition rd_announce_payees :: "u64 option \<Rightarrow> wire_form \<Rightarrow> u64 \<Rightarrow> coinbase_payee list reader" where
  "rd_announce_payees boundary wr h b p =
    (case wf_form wr of
       Annulet \<Rightarrow> Ok ([], p)
     | V4 \<Rightarrow>
         rbind (rd_u64 ''announce.coinbase'' b p) (\<lambda>(c, p1).
         rbind (read_times (rd_u64 ''announce.coinbase_rkm'') 4 b p1) (\<lambda>(k, p2).
           Ok (if c = 0 \<and> k = [0, 0, 0, 0] then [] else [\<lparr>rkm = k, amount = c\<rparr>], p2)))
     | V5 \<Rightarrow>
         rbind (rd_u8 ''announce.payee_count'' b p) (\<lambda>(n, p1).
           let count = unat n; cap = announce_payee_cap boundary wr h
           in if count > cap then Err (TooManyCoinbasePayees count cap)
              else read_times (\<lambda>b p.
                rbind (read_times (rd_u64 ''announce.payee_rkm'') 4 b p) (\<lambda>(k, p1).
                rbind (rd_u64 ''announce.payee_amount'' b p1) (\<lambda>(am, p2). Ok (\<lparr>rkm = k, amount = am\<rparr>, p2)))) count b p1))"

definition rd_announce_sections :: "wire_form \<Rightarrow> (bytes \<times> bytes) reader" where
  "rd_announce_sections wr b p =
    (if wf_sections wr = V6
     then rbind (rd_section ''announce.finality'' b p) (\<lambda>(f, p1). rbind (rd_section ''announce.bundle'' b p1) (\<lambda>(u, p2). Ok ((f, u), p2)))
     else Ok (([], []), p))"

definition rd_tx_section :: "wire_form \<Rightarrow> string \<Rightarrow> tx_entry reader" where
  "rd_tx_section wr what b p =
    rbind (rd_section what b p) (\<lambda>(x, p1). rbind (decode_tx_for_auth (wf_form wr) (wf_auth wr) x) (\<lambda>t. Ok (t, p1)))"

definition rd_prefilled :: "wire_form \<Rightarrow> prefilled_tx reader" where
  "rd_prefilled wr b p =
    rbind (rd_varint_u32 b p) (\<lambda>(i, p1).
    rbind (rd_tx_section wr ''announce.prefilled.tx'' b p1) (\<lambda>(t, p2). Ok (\<lparr>pf_index = i, pf_tx = t\<rparr>, p2)))"

definition rd_announce :: "u64 option \<Rightarrow> wire_form \<Rightarrow> block_announce reader" where
  "rd_announce boundary wr b p =
    rbind (rd_wire_header (wf_form wr) ''announce.header'' b p) (\<lambda>(w, p1).
    rbind (rd_u64 ''announce.nonce'' b p1) (\<lambda>(nc, p2).
    rbind (rd_announce_payees boundary wr (height (wire_header_of w)) b p2) (\<lambda>(ps, p3).
    rbind (rd_announce_sections wr b p3) (\<lambda>((fin, bun), p4).
    rbind (rbind (rd_varint_usize b p4) (\<lambda>(n, q). read_times (rd_take shortid_len ''announce.shortid'') n b q)) (\<lambda>(ss, p5).
    rbind (rbind (rd_varint_usize b p5) (\<lambda>(n, q). read_times (rd_prefilled wr) n b q)) (\<lambda>(pf, p6).
      Ok (\<lparr>ba_header = wire_header_of w, ba_nonce = nc, ba_payees = ps, ba_short_ids = ss, ba_prefilled = pf,
            ba_seal = (case w of WireL1 _ \<Rightarrow> None | WireSealed s \<Rightarrow> Some (sl_sig s)), ba_finality = fin, ba_bundle = bun\<rparr>, p6)))))))"

definition decode_announce_inner :: "u64 option \<Rightarrow> wire_form \<Rightarrow> bytes \<Rightarrow> decode_error + block_announce" where
  "decode_announce_inner boundary wr b = rd_whole (rd_announce boundary wr) b"

definition decode_announce_for :: "wire_form \<Rightarrow> bytes \<Rightarrow> decode_error + block_announce" where
  "decode_announce_for wr b = decode_announce_inner payee_cap_v5_boundary wr b"

section \<open>Missing transactions\<close>

record get_block_txn =
  gb_hash :: hash32
  gb_indexes :: "u32 list"

record block_txn =
  bx_hash :: hash32
  bx_txs :: "tx_entry list"

definition encode_get_block_txn :: "get_block_txn \<Rightarrow> bytes" where
  "encode_get_block_txn g = gb_hash g @ len_varint (gb_indexes g) @ concat (map (\<lambda>i. varint_bytes (ucast i)) (gb_indexes g))"

definition decode_get_block_txn :: "bytes \<Rightarrow> decode_error + get_block_txn" where
  "decode_get_block_txn b =
    rd_whole (\<lambda>b p.
      rbind (rd_hash32 ''gbt.block_hash'' b p) (\<lambda>(h, p1).
      rbind (rbind (rd_varint_usize b p1) (\<lambda>(n, q). read_times rd_varint_u32 n b q)) (\<lambda>(ix, p2).
        Ok (\<lparr>gb_hash = h, gb_indexes = ix\<rparr>, p2)))) b"

fun tx_list_bytes :: "genesis_form \<Rightarrow> tx_entry list \<Rightarrow> bytes option" where
  "tx_list_bytes fm [] = Some []"
| "tx_list_bytes fm (t # ts) =
    Option.bind (encode_tx_for fm t) (\<lambda>x. map_option (\<lambda>y. section_bytes x @ y) (tx_list_bytes fm ts))"

definition encode_block_txn_for :: "genesis_form \<Rightarrow> block_txn \<Rightarrow> bytes option" where
  "encode_block_txn_for fm x = map_option (\<lambda>y. bx_hash x @ len_varint (bx_txs x) @ y) (tx_list_bytes fm (bx_txs x))"

definition decode_block_txn_for_wire :: "wire_form \<Rightarrow> bytes \<Rightarrow> decode_error + block_txn" where
  "decode_block_txn_for_wire wr b =
    rd_whole (\<lambda>b p.
      rbind (rd_hash32 ''bt.block_hash'' b p) (\<lambda>(h, p1).
      rbind (rbind (rd_varint_usize b p1) (\<lambda>(n, q). read_times (rd_tx_section wr ''bt.tx'') n b q)) (\<lambda>(ts, p2).
        Ok (\<lparr>bx_hash = h, bx_txs = ts\<rparr>, p2)))) b"

section \<open>Reconstruction\<close>

datatype reconstruction = Complete "tx_entry list" | Missing "u32 list"

fun place_prefilled :: "prefilled_tx list \<Rightarrow> tx_entry option list \<Rightarrow> tx_entry option list" where
  "place_prefilled [] slots = slots"
| "place_prefilled (p # ps) slots =
    place_prefilled ps (if unat (pf_index p) < length slots then slots[unat (pf_index p) := Some (pf_tx p)] else slots)"

fun short_table :: "u64 \<Rightarrow> tx_entry list \<Rightarrow> (bytes \<rightharpoonup> tx_entry) \<Rightarrow> (bytes \<rightharpoonup> tx_entry) option" where
  "short_table nc [] m = Some m"
| "short_table nc (t # ts) m = (case tx_id t of None \<Rightarrow> None | Some i \<Rightarrow> short_table nc ts (m(short_id nc i \<mapsto> t)))"

fun fill_slots :: "(bytes \<rightharpoonup> tx_entry) \<Rightarrow> bytes list \<Rightarrow> tx_entry option list \<Rightarrow> tx_entry option list" where
  "fill_slots m ss [] = []"
| "fill_slots m ss (Some t # slots) = Some t # fill_slots m ss slots"
| "fill_slots m [] (None # slots) = None # slots"
| "fill_slots m (s # ss) (None # slots) = m s # fill_slots m ss slots"

definition reconstruct :: "block_announce \<Rightarrow> tx_entry list \<Rightarrow> reconstruction option" where
  "reconstruct a cands =
    map_option (\<lambda>m.
      let slots = fill_slots m (ba_short_ids a)
            (place_prefilled (ba_prefilled a) (replicate (length (ba_short_ids a) + length (ba_prefilled a)) None));
          missing = map word_of_nat (filter (\<lambda>i. slots ! i = None) [0..<length slots])
      in if missing = [] then Complete (map the slots) else Missing missing)
    (short_table (ba_nonce a) cands (\<lambda>_. None))"

section \<open>The announcements a node builds\<close>

definition announced_body :: "block_announce \<Rightarrow> tx_entry list \<Rightarrow> block_body" where
  "announced_body a ts = \<lparr>txs = ts, coinbase_payees = ba_payees a, finality_section = ba_finality a, bundle_section = ba_bundle a\<rparr>"

fun short_ids_of :: "u64 \<Rightarrow> tx_entry list \<Rightarrow> bytes list option" where
  "short_ids_of nc [] = Some []"
| "short_ids_of nc (t # ts) =
    (case tx_id t of None \<Rightarrow> None | Some i \<Rightarrow> map_option (\<lambda>ss. short_id nc i # ss) (short_ids_of nc ts))"

definition build_announce_parts :: "tx_entry list \<Rightarrow> u64 \<Rightarrow> (prefilled_tx list \<times> bytes list) option" where
  "build_announce_parts ts nc =
    (case ts of
       [] \<Rightarrow> Some ([], [])
     | t # rest \<Rightarrow> map_option (\<lambda>ss. ([\<lparr>pf_index = 0, pf_tx = t\<rparr>], ss)) (short_ids_of nc rest))"

definition block_announce_of :: "block_header \<Rightarrow> block_body \<Rightarrow> u64 \<Rightarrow> block_announce option" where
  "block_announce_of hdr b nc =
    map_option (\<lambda>(pf, ss).
      \<lparr>ba_header = hdr, ba_nonce = nc, ba_payees = coinbase_payees b, ba_short_ids = ss, ba_prefilled = pf,
       ba_seal = None, ba_finality = finality_section b, ba_bundle = bundle_section b\<rparr>)
    (build_announce_parts (txs b) nc)"

definition sealed_announce_of :: "sealed_header \<Rightarrow> block_body \<Rightarrow> u64 \<Rightarrow> block_announce option" where
  "sealed_announce_of s b nc =
    map_option (\<lambda>(pf, ss).
      \<lparr>ba_header = sl_header s, ba_nonce = nc, ba_payees = [], ba_short_ids = ss, ba_prefilled = pf,
       ba_seal = Some (sl_sig s), ba_finality = [], ba_bundle = []\<rparr>)
    (build_announce_parts (txs b) nc)"

definition whole_block_announce :: "wire_header \<Rightarrow> block_body \<Rightarrow> block_announce" where
  "whole_block_announce w b =
    \<lparr>ba_header = wire_header_of w, ba_nonce = 0, ba_payees = coinbase_payees b, ba_short_ids = [],
     ba_prefilled = map (\<lambda>(i, t). \<lparr>pf_index = word_of_nat i, pf_tx = t\<rparr>) (enumerate 0 (txs b)),
     ba_seal = (case w of WireL1 _ \<Rightarrow> None | WireSealed s \<Rightarrow> Some (sl_sig s)),
     ba_finality = finality_section b, ba_bundle = bundle_section b\<rparr>"

section \<open>The body answer of the served chain\<close>

definition served_chain_version :: u8 where "served_chain_version = 1"
definition max_served_body_bytes :: nat where "max_served_body_bytes = 24 * 1024 * 1024"
definition max_headers_page :: nat where "max_headers_page = 256"

datatype served_error =
    ServedTruncated
  | UnknownVersion u8
  | UnknownForm u8
  | WrongForm u8 u8
  | WrongFrom u64 u64
  | WrongHeight u64 u64
  | PageTooLong nat
  | BodyTooLong nat
  | ShortIdsInBody nat
  | PrefilledNotWhole nat u32
  | NoSealOnThisForm
  | BodiesPageTooLong nat nat
  | BodiesPageFraming
  | Frame decode_error

definition wire_form_byte :: "wire_form \<Rightarrow> u8 option" where
  "wire_form_byte wr =
    (case (wf_form wr, wf_sections wr, wf_auth wr) of
       (V4, NoSections, NoAuth) \<Rightarrow> Some 1
     | (V5, NoSections, NoAuth) \<Rightarrow> Some 2
     | (Annulet, NoSections, NoAuth) \<Rightarrow> Some 3
     | (V5, V6, NoAuth) \<Rightarrow> Some 4
     | (Annulet, NoSections, CandidateA) \<Rightarrow> Some 5
     | (Annulet, NoSections, CandidateAV3) \<Rightarrow> Some 6
     | _ \<Rightarrow> None)"

definition wire_form_of :: "u8 \<Rightarrow> wire_form option" where
  "wire_form_of b =
    (if b = 1 then Some (wf_plain V4) else if b = 2 then Some (wf_plain V5) else if b = 3 then Some (wf_plain Annulet)
     else if b = 4 then Some wf_v6 else if b = 5 then Some wf_annulet_auth else if b = 6 then Some wf_annulet_auth_v3 else None)"

definition served_prefix :: "wire_form \<Rightarrow> u64 \<Rightarrow> bytes option" where
  "served_prefix wr ht = map_option (\<lambda>x. [served_chain_version, x] @ u64_le ht) (wire_form_byte wr)"

definition read_prefix :: "wire_form \<Rightarrow> bytes \<Rightarrow> (served_error + (u64 \<times> bytes)) option" where
  "read_prefix want buf =
    (if length buf < 10 then Some (Err ServedTruncated)
     else if buf ! 0 \<noteq> served_chain_version then Some (Err (UnknownVersion (buf ! 0)))
     else if wire_form_of (buf ! 1) = None then Some (Err (UnknownForm (buf ! 1)))
     else (case wire_form_byte want of
             None \<Rightarrow> None
           | Some w \<Rightarrow>
               if buf ! 1 \<noteq> w then Some (Err (WrongForm w (buf ! 1)))
               else Some (Ok (u64_from_le (slice_at 2 8 buf), drop 10 buf))))"

definition encode_headers_page :: "wire_form \<Rightarrow> u64 \<Rightarrow> wire_header list \<Rightarrow> bytes option" where
  "encode_headers_page wr ht units =
    (if length units \<le> max_headers_page
     then Option.bind (served_prefix wr ht) (\<lambda>x. map_option (\<lambda>y. x @ y) (encode_wire_headers (wf_form wr) units)) else None)"

definition decode_headers_page :: "wire_form \<Rightarrow> u64 \<Rightarrow> bytes \<Rightarrow> (served_error + wire_header list) option" where
  "decode_headers_page wr ht buf =
    map_option (\<lambda>r. rbind r (\<lambda>(got, rest).
      if got \<noteq> ht then Err (WrongFrom ht got)
      else rbind (map_error Frame (decode_wire_headers (wf_form wr) rest)) (\<lambda>units.
        if length units > max_headers_page then Err (PageTooLong (length units)) else Ok units)))
    (read_prefix wr buf)"

definition encode_body_answer :: "wire_form \<Rightarrow> u64 \<Rightarrow> block_announce \<Rightarrow> (announce_encode_error + bytes) option" where
  "encode_body_answer wr ht a =
    Option.bind (served_prefix wr ht) (\<lambda>x. map_option (\<lambda>r. rbind r (\<lambda>y. Ok (x @ y))) (encode_announce_for wr a))"

definition decode_body_answer :: "wire_form \<Rightarrow> u64 \<Rightarrow> bytes \<Rightarrow> (served_error + block_announce) option" where
  "decode_body_answer wr ht buf =
    (if length buf > max_served_body_bytes + 10 then Some (Err (BodyTooLong (length buf)))
     else map_option (\<lambda>r. rbind r (\<lambda>(got, rest).
       if got \<noteq> ht then Err (WrongHeight ht got)
       else rbind (map_error Frame (decode_announce_for wr rest)) (\<lambda>a.
         if ba_short_ids a \<noteq> [] then Err (ShortIdsInBody (length (ba_short_ids a)))
         else (case find (\<lambda>(i, p). unat (pf_index p) \<noteq> i) (enumerate 0 (ba_prefilled a)) of
                 Some (i, p) \<Rightarrow> Err (PrefilledNotWhole i (pf_index p))
               | None \<Rightarrow> Ok a))))
     (read_prefix wr buf))"

definition sealed_unit :: "wire_header \<Rightarrow> served_error + sealed_header" where
  "sealed_unit w = (case w of WireSealed s \<Rightarrow> Ok s | WireL1 _ \<Rightarrow> Err NoSealOnThisForm)"

text \<open>A page of bodies: the count, then each answer after its length, both in 32 bits.\<close>

definition max_bodies_page :: nat where "max_bodies_page = max_headers_page"
definition max_bodies_page_bytes :: nat where
  "max_bodies_page_bytes = 10 + 4 + 4 * max_bodies_page + max_served_body_bytes + 10"

definition frame_bytes :: "bytes \<Rightarrow> bytes" where
  "frame_bytes a = u32_le (word_of_nat (length a)) @ a"

definition encode_bodies_page :: "wire_form \<Rightarrow> u64 \<Rightarrow> bytes list \<Rightarrow> bytes option" where
  "encode_bodies_page wr start answers =
    (if max_bodies_page < length answers \<or> list_ex (\<lambda>a. 2 ^ 32 \<le> length a) answers then None
     else Option.bind (served_prefix wr start) (\<lambda>x.
       let out = x @ u32_le (word_of_nat (length answers)) @ concat (map frame_bytes answers)
       in if length out \<le> max_bodies_page_bytes then Some out else None))"

fun split_frames :: "nat \<Rightarrow> bytes \<Rightarrow> served_error + bytes list \<times> bytes" where
  "split_frames 0 rest = Ok ([], rest)"
| "split_frames (Suc n) rest =
    (if length rest < 4 then Err BodiesPageFraming
     else let len = unat (u32_from_le (take 4 rest))
          in if length rest < 4 + len then Err BodiesPageFraming
             else rbind (split_frames n (drop (4 + len) rest)) (\<lambda>(bs, r). Ok (slice_at 4 len rest # bs, r)))"

definition split_bodies_page :: "wire_form \<Rightarrow> u64 \<Rightarrow> bytes \<Rightarrow> (served_error + bytes list) option" where
  "split_bodies_page wr start buf =
    (if length buf > max_bodies_page_bytes then Some (Err (BodiesPageTooLong 0 (length buf)))
     else map_option (\<lambda>r. rbind r (\<lambda>(got, rest).
       if got \<noteq> start then Err (WrongFrom start got)
       else if length rest < 4 then Err ServedTruncated
       else let n = unat (u32_from_le (take 4 rest))
            in if n > max_bodies_page then Err (BodiesPageTooLong n (length buf))
               else rbind (split_frames n (drop 4 rest)) (\<lambda>(bs, r).
                 if r \<noteq> [] then Err BodiesPageFraming else Ok bs)))
     (read_prefix wr buf))"

definition body_of :: "block_announce \<Rightarrow> block_body" where
  "body_of a = announced_body a (map pf_tx (ba_prefilled a))"

section \<open>The announcement codec\<close>

lemma codec_fixed:
  assumes c: "sized_codec enc dec ok" and n: "0 < n"
  shows "sized_codec (\<lambda>xs. concat (map enc xs)) (read_times dec n) (\<lambda>xs. length xs = n \<and> (\<forall>x \<in> set xs. ok x))"
proof (rule codecI)
  show "read_times dec n (pre @ concat (map enc xs) @ rest) (length pre) = Inr (xs, length pre + length (concat (map enc xs)))"
    if "length xs = n \<and> (\<forall>x \<in> set xs. ok x)" for xs pre rest
    using sized_codec.read_times_enc [OF c, of xs pre rest] that by auto
  show "p' \<le> length b \<and> drop p b = concat (map enc xs) @ drop p' b \<and> length xs = n \<and> (\<forall>x \<in> set xs. ok x)"
    if r: "read_times dec n b p = Inr (xs, p')" for b p xs p'
  proof -
    obtain m where m: "n = Suc m" using n by (cases n) auto
    obtain x p1 ys where d: "dec b p = Inr (x, p1)" "read_times dec m b p1 = Inr (ys, p')" "xs = x # ys" using r m by auto
    from codecD(2) [OF c d(1)] sized_codec.read_times_dec [OF c d(2)] show ?thesis by (auto simp: d(3) m)
  qed
qed

lemma codec_then_const:
  assumes c: "sized_codec enc dec ok"
  shows "sized_codec (\<lambda>(x, y). enc x) (\<lambda>b p. rbind (dec b p) (\<lambda>(x, p1). Inr ((x, k), p1))) (\<lambda>(x, y). ok x \<and> y = k)"
  by (rule codec_map [OF c, where f = fst and g = "\<lambda>x. (x, k)"]) auto

text \<open>The payees an announcement of a form can carry.\<close>

definition payees_ok :: "u64 option \<Rightarrow> wire_form \<Rightarrow> u64 \<Rightarrow> coinbase_payee list \<Rightarrow> bool" where
  "payees_ok boundary wr h ps \<longleftrightarrow>
    (\<forall>p \<in> set ps. length (rkm p) = 4)
    \<and> (case wf_form wr of
         Annulet \<Rightarrow> ps = []
       | V4 \<Rightarrow> length ps \<le> 1 \<and> (\<forall>p \<in> set ps. amount p \<noteq> 0 \<or> rkm p \<noteq> [0, 0, 0, 0])
       | V5 \<Rightarrow> length ps \<le> announce_payee_cap boundary wr h)"

lemma codec_lanes: "sized_codec (\<lambda>ks. concat (map u64_le ks)) (read_times (rd_u64 what) 4) (\<lambda>ks. length ks = 4)"
  using codec_fixed [OF codec_u64 [of what], of 4] by simp

lemma codec_payee:
  "sized_codec (\<lambda>p. concat (map u64_le (rkm p)) @ u64_le (amount p)) (\<lambda>b p.
      rbind (read_times (rd_u64 w1) 4 b p) (\<lambda>(k, p1). rbind (rd_u64 w2 b p1) (\<lambda>(am, p2). Inr (\<lparr>rkm = k, amount = am\<rparr>, p2))))
    (\<lambda>p. length (rkm p) = 4)"
  by (rule codec_map [OF codec_pair [OF codec_lanes [of w1] codec_u64 [of w2]], where f = "\<lambda>p. (rkm p, amount p)" and g = "\<lambda>(k, am). \<lparr>rkm = k, amount = am\<rparr>"])
    (auto simp: rbind_assoc split_def)

lemma cap_small: "announce_payee_cap boundary wr h \<le> 8"
  by (simp add: announce_payee_cap_def coinbase_payee_cap_v6_def coinbase_payee_cap_v5_above_def payee_cap_v5_raised_def
      payee_cap_v5_at_birth_def split: body_sections.splits option.splits)

lemma codec_payees_v5:
  "sized_codec (\<lambda>ps. [word_of_nat (length ps)] @ concat (map (\<lambda>p. concat (map u64_le (rkm p)) @ u64_le (amount p)) ps))
    (\<lambda>b p. rbind (rbind (rd_u8 w b p) (\<lambda>(v, p1). if unat v \<le> cap then Inr (unat v, p1) else Inl (TooManyCoinbasePayees (unat v) cap)))
      (\<lambda>(n, p1). read_times (\<lambda>b p. rbind (read_times (rd_u64 w1) 4 b p) (\<lambda>(k, p1). rbind (rd_u64 w2 b p1) (\<lambda>(am, p2). Inr (\<lparr>rkm = k, amount = am\<rparr>, p2)))) n b p1))
    (\<lambda>ps. length ps \<le> cap \<and> (\<forall>p \<in> set ps. length (rkm p) = 4))" if "cap \<le> 8"
proof -
  have "sized_codec (\<lambda>n. [word_of_nat n]) (\<lambda>b p. rbind (rd_u8 w b p) (\<lambda>(v, p1). if unat v \<le> cap then Inr (unat v, p1) else Inl (TooManyCoinbasePayees (unat v) cap)))
      (\<lambda>n. n \<le> cap)"
  proof (rule codec_partial [OF codec_u8 [of w], where f = "\<lambda>n. word_of_nat n" and g = "\<lambda>v. if unat v \<le> cap then Some (unat v) else None"
        and err = "\<lambda>v. TooManyCoinbasePayees (unat v) cap"])
    show "(if unat v \<le> cap then Some (unat v) else None) = Some n \<longleftrightarrow> n \<le> cap \<and> word_of_nat n = v" for v :: u8 and n
      using that by (auto simp: unat_of_nat_len)
  qed (auto simp: split_def intro!: arg_cong [where f = "rbind _"] ext)
  from codec_counted [OF this codec_payee [of w1 w2]] show ?thesis .
qed

lemma codec_payees:
  assumes "wf_form wr \<noteq> Annulet"
  shows "sized_codec (\<lambda>ps. the (announce_payees_bytes boundary wr h ps)) (rd_announce_payees boundary wr h) (payees_ok boundary wr h)"
proof (cases "wf_form wr")
  case V4
  let ?f = "\<lambda>ps :: coinbase_payee list. case ps of [] \<Rightarrow> (0, [0, 0, 0, 0]) | p # _ \<Rightarrow> (amount p, rkm p)"
  show ?thesis
    by (rule codec_map [OF codec_pair [OF codec_u64 [of "''announce.coinbase''"] codec_lanes [of "''announce.coinbase_rkm''"]],
          where f = ?f and g = "\<lambda>(c, k). if c = 0 \<and> k = [0, 0, 0, 0] then [] else [\<lparr>rkm = k, amount = c\<rparr>]"])
      (auto simp: V4 payees_ok_def rd_announce_payees_def announce_payees_bytes_def announce_payee_parts_def rbind_assoc split_def
        le_Suc_eq length_Suc_conv split: list.splits cong: if_cong)
next
  case V5
  have eq: "rd_announce_payees boundary wr h = (\<lambda>b p. rbind (rbind (rd_u8 ''announce.payee_count'' b p) (\<lambda>(v, p1).
        if unat v \<le> announce_payee_cap boundary wr h then Inr (unat v, p1) else Inl (TooManyCoinbasePayees (unat v) (announce_payee_cap boundary wr h))))
      (\<lambda>(n, p1). read_times (\<lambda>b p. rbind (read_times (rd_u64 ''announce.payee_rkm'') 4 b p) (\<lambda>(k, p1).
        rbind (rd_u64 ''announce.payee_amount'' b p1) (\<lambda>(am, p2). Inr (\<lparr>rkm = k, amount = am\<rparr>, p2)))) n b p1))"
    by (intro ext) (auto simp: V5 rd_announce_payees_def rbind_rules Let_def intro!: arg_cong [where f = "rbind _"] ext)
  have ok: "payees_ok boundary wr h = (\<lambda>ps. length ps \<le> announce_payee_cap boundary wr h \<and> (\<forall>p \<in> set ps. length (rkm p) = 4))"
    by (intro ext) (auto simp: V5 payees_ok_def)
  show ?thesis unfolding eq ok
    by (rule codec_map [OF codec_payees_v5 [OF cap_small], where f = "\<lambda>x. x" and g = "\<lambda>x. x"])
      (auto simp: V5 announce_payees_bytes_def rbind_Ok_right split_def)
qed (use assms in simp)

lemma codec_tx_section:
  "sized_codec (\<lambda>t. section_bytes (the (encode_tx_for (wf_form wr) t))) (rd_tx_section wr what)
    (\<lambda>t. wire_tx_ok (wf_form wr) (wf_auth wr) t \<and> length (the (encode_tx_for (wf_form wr) t)) < 2 ^ 64)"
proof (rule codecI)
  fix t pre rest
  assume t: "wire_tx_ok (wf_form wr) (wf_auth wr) t \<and> length (the (encode_tx_for (wf_form wr) t)) < 2 ^ 64"
  then obtain x where x: "encode_tx_for (wf_form wr) t = Some x" using canonical_wire by blast
  then have "decode_tx_for_auth (wf_form wr) (wf_auth wr) x = Inr t" using t decode_tx_for_iff by blast
  moreover have "rd_section what (pre @ section_bytes x @ rest) (length pre) = Inr (x, length pre + length (section_bytes x))"
    using codecD(1) [OF codec_section] t x by simp
  ultimately show "rd_tx_section wr what (pre @ section_bytes (the (encode_tx_for (wf_form wr) t)) @ rest) (length pre)
      = Inr (t, length pre + length (section_bytes (the (encode_tx_for (wf_form wr) t))))"
    by (simp add: rd_tx_section_def x)
next
  fix b p t p' assume "rd_tx_section wr what b p = Inr (t, p')"
  then obtain x where x: "rd_section what b p = Inr (x, p')" "decode_tx_for_auth (wf_form wr) (wf_auth wr) x = Inr t"
    by (auto simp: rd_tx_section_def)
  then show "p' \<le> length b \<and> drop p b = section_bytes (the (encode_tx_for (wf_form wr) t)) @ drop p' b
      \<and> wire_tx_ok (wf_form wr) (wf_auth wr) t \<and> length (the (encode_tx_for (wf_form wr) t)) < 2 ^ 64"
    using codecD(2) [OF codec_section x(1)] decode_tx_for_iff [of "wf_form wr" "wf_auth wr" x t] by simp
qed

definition sent_tx_ok :: "wire_form \<Rightarrow> tx_entry \<Rightarrow> bool" where
  "sent_tx_ok wr t \<longleftrightarrow> wire_tx_ok (wf_form wr) (wf_auth wr) t \<and> length (the (encode_tx_for (wf_form wr) t)) < 2 ^ 64"

definition prefilled_entry_bytes :: "genesis_form \<Rightarrow> prefilled_tx \<Rightarrow> bytes" where
  "prefilled_entry_bytes fm p = varint_bytes (ucast (pf_index p)) @ section_bytes (the (encode_tx_for fm (pf_tx p)))"

lemma codec_prefilled: "sized_codec (prefilled_entry_bytes (wf_form wr)) (rd_prefilled wr) (\<lambda>p. sent_tx_ok wr (pf_tx p))"
  by (rule codec_map [OF codec_pair [OF codec_u32 codec_tx_section [of wr "''announce.prefilled.tx''"]],
      where f = "\<lambda>p. (pf_index p, pf_tx p)" and g = "\<lambda>(i, t). \<lparr>pf_index = i, pf_tx = t\<rparr>"])
    (auto simp: prefilled_entry_bytes_def rd_prefilled_def sent_tx_ok_def rbind_assoc split_def)

lemma sent_encodes: "sent_tx_ok wr t \<Longrightarrow> encode_tx_for (wf_form wr) t = Some (the (encode_tx_for (wf_form wr) t))"
  using canonical_wire [of "wf_form wr" "wf_auth wr" t] by (auto simp: sent_tx_ok_def)

lemma prefilled_bytes_eq:
  "\<forall>p \<in> set ps. sent_tx_ok wr (pf_tx p) \<Longrightarrow> prefilled_bytes (wf_form wr) ps = Some (concat (map (prefilled_entry_bytes (wf_form wr)) ps))"
proof (induction ps)
  case (Cons p ps)
  then show ?case using sent_encodes [of wr "pf_tx p"] by (cases "encode_tx_for (wf_form wr) (pf_tx p)") (simp_all add: prefilled_entry_bytes_def)
qed simp

definition announce_ok :: "u64 option \<Rightarrow> wire_form \<Rightarrow> block_announce \<Rightarrow> bool" where
  "announce_ok boundary wr a \<longleftrightarrow>
    wf_wire_header (wf_form wr) (announce_header a)
    \<and> payees_ok boundary wr (height (ba_header a)) (ba_payees a)
    \<and> (if wf_sections wr = V6 then length (ba_finality a) < 2 ^ 64 \<and> length (ba_bundle a) < 2 ^ 64
       else ba_finality a = [] \<and> ba_bundle a = [])
    \<and> length (ba_short_ids a) < 2 ^ 64 \<and> (\<forall>s \<in> set (ba_short_ids a). length s = shortid_len)
    \<and> length (ba_prefilled a) < 2 ^ 64 \<and> (\<forall>p \<in> set (ba_prefilled a). sent_tx_ok wr (pf_tx p))"

lemma payees_bytes_ok: "payees_ok boundary wr h ps \<Longrightarrow> announce_payees_bytes boundary wr h ps = Some (the (announce_payees_bytes boundary wr h ps))"
  by (auto simp: payees_ok_def announce_payees_bytes_def announce_payee_parts_def le_Suc_eq length_Suc_conv split: genesis_form.splits)

lemma codec_head:
  "sized_codec (\<lambda>((nc, ps), f, u). (u64_le nc @ the (announce_payees_bytes boundary wr h ps))
      @ (if wf_sections wr = V6 then section_bytes f @ section_bytes u else []))
    (\<lambda>b p. rbind (rbind (rd_u64 ''announce.nonce'' b p) (\<lambda>(nc, p1). rbind (rd_announce_payees boundary wr h b p1) (\<lambda>(ps, p2). Inr ((nc, ps), p2))))
      (\<lambda>(x, p2). rbind (rd_announce_sections wr b p2) (\<lambda>(y, p3). Inr ((x, y), p3))))
    (\<lambda>((nc, ps), f, u). payees_ok boundary wr h ps
      \<and> (if wf_sections wr = V6 then length f < 2 ^ 64 \<and> length u < 2 ^ 64 else f = [] \<and> u = []))"
proof -
  let ?d = "\<lambda>b p. rbind (rd_u64 ''announce.nonce'' b p) (\<lambda>(nc, p1). rbind (rd_announce_payees boundary wr h b p1) (\<lambda>(ps, p2). Inr ((nc, ps), p2)))"
  have a: "sized_codec (\<lambda>(nc, ps). u64_le nc @ the (announce_payees_bytes boundary wr h ps)) ?d (\<lambda>(nc, ps). payees_ok boundary wr h ps)"
  proof (cases "wf_form wr = Annulet")
    case True
    show ?thesis
      by (rule codec_map [OF codec_u64 [of "''announce.nonce''"], where f = fst and g = "\<lambda>nc. (nc, [])"])
        (auto simp: True payees_ok_def rd_announce_payees_def announce_payees_bytes_def split_def)
  next
    case False
    from codec_pair [OF codec_u64 [of "''announce.nonce''"] codec_payees [OF False, of boundary h]]
    show ?thesis by (simp add: case_prod_beta)
  qed
  show ?thesis
  proof (cases "wf_sections wr")
    case V6
    show ?thesis
      by (rule codec_map [OF codec_pair [OF a codec_pair [OF codec_section [of "''announce.finality''"] codec_section [of "''announce.bundle''"]]],
            where f = "\<lambda>x. x" and g = "\<lambda>x. x"])
        (auto simp: V6 rd_announce_sections_def rbind_Ok_right split_def)
  next
    case NoSections
    show ?thesis
      by (rule codec_map [OF codec_then_const [OF a, of "([], [])"], where f = "\<lambda>x. x" and g = "\<lambda>x. x"])
        (auto simp: NoSections rd_announce_sections_def rbind_Ok_right split_def)
  qed
qed

definition announce_bytes :: "u64 option \<Rightarrow> wire_form \<Rightarrow> block_announce \<Rightarrow> bytes" where
  "announce_bytes boundary wr a =
    the (encode_wire_header (wf_form wr) (announce_header a))
    @ ((u64_le (ba_nonce a) @ the (announce_payees_bytes boundary wr (height (ba_header a)) (ba_payees a)))
      @ (if wf_sections wr = V6 then section_bytes (ba_finality a) @ section_bytes (ba_bundle a) else []))
    @ (len_varint (ba_short_ids a) @ concat (ba_short_ids a))
    @ (len_varint (ba_prefilled a) @ concat (map (prefilled_entry_bytes (wf_form wr)) (ba_prefilled a)))"

lemma wire_header_of_announce: "wire_header_of (announce_header a) = ba_header a"
  by (simp add: wire_header_of_def announce_header_def split: option.splits)

lemma codec_announce: "sized_codec (announce_bytes boundary wr) (rd_announce boundary wr) (announce_ok boundary wr)"
proof -
  let ?f = "\<lambda>a. (announce_header a, ((ba_nonce a, ba_payees a), ba_finality a, ba_bundle a), ba_short_ids a, ba_prefilled a)"
  let ?g = "\<lambda>(w, ((nc, ps), f, u), ss, pf).
    \<lparr>ba_header = wire_header_of w, ba_nonce = nc, ba_payees = ps, ba_short_ids = ss, ba_prefilled = pf,
     ba_seal = (case w of WireL1 _ \<Rightarrow> None | WireSealed s \<Rightarrow> Some (sl_sig s)), ba_finality = f, ba_bundle = u\<rparr>"
  note shorts = codec_len_counted [OF codec_take [of shortid_len "''announce.shortid''"]]
  note pre = codec_len_counted [OF codec_prefilled [of wr]]
  have c: "sized_codec (\<lambda>(w, y). the (encode_wire_header (wf_form wr) w) @ (case y of (h, r) \<Rightarrow>
        (\<lambda>((nc, ps), f, u). (u64_le nc @ the (announce_payees_bytes boundary wr (height (wire_header_of w)) ps))
          @ (if wf_sections wr = V6 then section_bytes f @ section_bytes u else [])) h
        @ (case r of (ss, pf) \<Rightarrow> (len_varint ss @ concat (map (\<lambda>x. x) ss)) @ (len_varint pf @ concat (map (prefilled_entry_bytes (wf_form wr)) pf)))))
      (\<lambda>b p. rbind (rd_wire_header (wf_form wr) ''announce.header'' b p) (\<lambda>(w, p1). rbind (rbind
        (rbind (rbind (rd_u64 ''announce.nonce'' b p1) (\<lambda>(nc, p1). rbind (rd_announce_payees boundary wr (height (wire_header_of w)) b p1) (\<lambda>(ps, p2). Inr ((nc, ps), p2))))
          (\<lambda>(x, p2). rbind (rd_announce_sections wr b p2) (\<lambda>(y, p3). Inr ((x, y), p3))))
        (\<lambda>(h, p2). rbind (rbind (rbind (rd_varint_usize b p2) (\<lambda>(n, q). read_times (rd_take shortid_len ''announce.shortid'') n b q))
          (\<lambda>(ss, p3). rbind (rbind (rd_varint_usize b p3) (\<lambda>(n, q). read_times (rd_prefilled wr) n b q)) (\<lambda>(pf, p4). Inr ((ss, pf), p4))))
          (\<lambda>(r, p3). Inr ((h, r), p3)))) (\<lambda>(y, p2). Inr ((w, y), p2))))
      (\<lambda>(w, y). wf_wire_header (wf_form wr) w \<and> (case y of (h, r) \<Rightarrow>
        (\<lambda>((nc, ps), f, u). payees_ok boundary wr (height (wire_header_of w)) ps
          \<and> (if wf_sections wr = V6 then length f < 2 ^ 64 \<and> length u < 2 ^ 64 else f = [] \<and> u = [])) h
        \<and> (case r of (ss, pf) \<Rightarrow> (length ss < 2 ^ 64 \<and> (\<forall>s \<in> set ss. length s = shortid_len))
          \<and> length pf < 2 ^ 64 \<and> (\<forall>p \<in> set pf. sent_tx_ok wr (pf_tx p)))))" (is "sized_codec ?E ?D ?P")
    by (rule codec_bind [OF codec_wire_header codec_pair [OF codec_head codec_pair [OF shorts pre]]])
  show ?thesis
  proof (rule codec_map [OF c, where f = ?f and g = ?g])
    show "announce_ok boundary wr (?g x) \<and> ?f (?g x) = x" if "case x of (w, y) \<Rightarrow> wf_wire_header (wf_form wr) w \<and> (case y of (h, r) \<Rightarrow>
        (\<lambda>((nc, ps), f, u). payees_ok boundary wr (height (wire_header_of w)) ps
          \<and> (if wf_sections wr = V6 then length f < 2 ^ 64 \<and> length u < 2 ^ 64 else f = [] \<and> u = [])) h
        \<and> (case r of (ss, pf) \<Rightarrow> (length ss < 2 ^ 64 \<and> (\<forall>s \<in> set ss. length s = shortid_len))
          \<and> length pf < 2 ^ 64 \<and> (\<forall>p \<in> set pf. sent_tx_ok wr (pf_tx p))))" for x
    proof -
      obtain w nc ps f u ss pf where x: "x = (w, ((nc, ps), f, u), ss, pf)" by (metis prod.exhaust)
      have "announce_header (?g x) = w" by (cases w) (simp_all add: x announce_header_def wire_header_of_def)
      then show ?thesis using that by (auto simp: x announce_ok_def split: if_splits)
    qed
    show "?P (?f a) \<and> ?g (?f a) = a" if "announce_ok boundary wr a" for a
    proof -
      have "?g (?f a) = a" by (cases a) (simp add: announce_header_def wire_header_of_def split: option.splits)
      moreover have "?P (?f a)" using that by (auto simp: announce_ok_def wire_header_of_announce split: if_splits)
      ultimately show ?thesis by blast
    qed
    show "announce_bytes boundary wr a = ?E (?f a)" if "announce_ok boundary wr a" for a
      by (simp add: announce_bytes_def wire_header_of_announce)
  qed (simp add: rd_announce_def rbind_assoc split_def)
qed
lemma announce_encodes:
  assumes "announce_ok boundary wr a"
  shows "encode_announce_inner boundary wr a = Some (announce_bytes boundary wr a)"
proof -
  have h: "encode_wire_header (wf_form wr) (announce_header a) = Some (the (encode_wire_header (wf_form wr) (announce_header a)))"
    using assms by (auto simp: announce_ok_def wf_wire_header_def)
  have p: "announce_payees_bytes boundary wr (height (ba_header a)) (ba_payees a)
      = Some (the (announce_payees_bytes boundary wr (height (ba_header a)) (ba_payees a)))"
    using assms by (intro payees_bytes_ok) (simp add: announce_ok_def)
  have t: "prefilled_bytes (wf_form wr) (ba_prefilled a) = Some (concat (map (prefilled_entry_bytes (wf_form wr)) (ba_prefilled a)))"
    using assms by (intro prefilled_bytes_eq) (simp add: announce_ok_def)
  show ?thesis
    by (subst encode_announce_inner_def, subst h, subst p, subst t) (simp add: announce_bytes_def)
qed

text \<open>An announcement decodes to exactly what was sent, and only its encoding decodes to it.\<close>

theorem announce_exact:
  "decode_announce_for wr b = Ok a \<longleftrightarrow>
    announce_ok payee_cap_v5_boundary wr a \<and> encode_announce_for wr a = Some (Ok b)"
proof -
  have "decode_announce_for wr b = Ok a \<longleftrightarrow> announce_ok payee_cap_v5_boundary wr a \<and> b = announce_bytes payee_cap_v5_boundary wr a"
    unfolding decode_announce_for_def decode_announce_inner_def using codec_whole [OF codec_announce [of payee_cap_v5_boundary wr], of b a] by (simp only: eq_commute [of b])
  also have "\<dots> \<longleftrightarrow> announce_ok payee_cap_v5_boundary wr a \<and> encode_announce_for wr a = Some (Ok b)"
  proof (rule conj_cong [OF refl])
    assume ok: "announce_ok payee_cap_v5_boundary wr a"
    then have "wf_sections wr = NoSections \<Longrightarrow> ba_finality a = [] \<and> ba_bundle a = []" by (simp add: announce_ok_def)
    then have "encode_announce_for wr a = Some (Ok (announce_bytes payee_cap_v5_boundary wr a))"
      using announce_encodes [OF ok] by (auto simp: encode_announce_for_def)
    then show "b = announce_bytes payee_cap_v5_boundary wr a \<longleftrightarrow> encode_announce_for wr a = Some (Ok b)" by auto
  qed
  finally show ?thesis .
qed

section \<open>Reconstruction is faithful\<close>

lemma short_table_spec:
  "(\<forall>t \<in> set ts. tx_id t \<noteq> None) \<Longrightarrow> \<exists>m'. short_table nc ts m = Some m'
    \<and> (\<forall>s. m' s = (case find (\<lambda>t. short_id nc (the (tx_id t)) = s) (rev ts) of Some t \<Rightarrow> Some t | None \<Rightarrow> m s))"
proof (induction ts arbitrary: m)
  case (Cons t ts)
  then obtain i where i: "tx_id t = Some i" by auto
  have app: "find P (xs @ ys) = (case find P xs of Some x \<Rightarrow> Some x | None \<Rightarrow> find P ys)" for P and xs ys :: "tx_entry list"
    by (induction xs) auto
  from Cons obtain m' where "short_table nc ts (m(short_id nc i \<mapsto> t)) = Some m'"
    "\<forall>s. m' s = (case find (\<lambda>t. short_id nc (the (tx_id t)) = s) (rev ts) of Some t \<Rightarrow> Some t | None \<Rightarrow> (m(short_id nc i \<mapsto> t)) s)"
    by fastforce
  then show ?case by (auto simp: i app split: option.splits)
qed simp

lemma short_ids_of_spec:
  "short_ids_of nc ts = Some ss \<longleftrightarrow> (\<forall>t \<in> set ts. tx_id t \<noteq> None) \<and> ss = map (\<lambda>t. short_id nc (the (tx_id t))) ts"
  by (induction ts arbitrary: ss) (auto split: option.splits)

lemma fill_all_empty: "fill_slots m ss (replicate (length ss) None) = map m ss"
  by (induction ss) simp_all

text \<open>What a candidate pool offers for a transaction: the last candidate with its short id.\<close>

definition offered :: "u64 \<Rightarrow> tx_entry list \<Rightarrow> tx_entry \<Rightarrow> tx_entry option" where
  "offered nc cands t = find (\<lambda>u. short_id nc (the (tx_id u)) = short_id nc (the (tx_id t))) (rev cands)"

lemma reconstruct_slots:
  assumes "block_announce_of hdr b nc = Some a" and "\<forall>t \<in> set cands. tx_id t \<noteq> None"
  shows "reconstruct a cands = Some (
    let slots = (case txs b of [] \<Rightarrow> [] | t # ts \<Rightarrow> Some t # map (offered nc cands) ts);
        missing = map word_of_nat (filter (\<lambda>i. slots ! i = None) [0..<length slots])
    in if missing = [] then Complete (map the slots) else Missing missing)"
proof -
  have opt_self: "(case x of Some t \<Rightarrow> Some t | None \<Rightarrow> None) = x" for x :: "tx_entry option" by (cases x) auto
  obtain m where m: "short_table nc cands (\<lambda>_. None) = Some m"
    "\<And>s. m s = find (\<lambda>t. short_id nc (the (tx_id t)) = s) (rev cands)"
    using short_table_spec [OF assms(2), of nc "\<lambda>_. None"] by (simp only: opt_self) blast
  have off: "m (short_id nc (the (tx_id t))) = offered nc cands t" for t by (simp add: m(2) offered_def)
  show ?thesis
  proof (cases "txs b")
    case Nil
    then show ?thesis using assms(1) m(1) by (auto simp: block_announce_of_def build_announce_parts_def reconstruct_def Let_def)
  next
    case (Cons t ts)
    then obtain ss where ss: "short_ids_of nc ts = Some ss"
      and a: "a = \<lparr>ba_header = hdr, ba_nonce = nc, ba_payees = coinbase_payees b, ba_short_ids = ss, ba_prefilled = [\<lparr>pf_index = 0, pf_tx = t\<rparr>],
        ba_seal = None, ba_finality = finality_section b, ba_bundle = bundle_section b\<rparr>"
      using assms(1) by (auto simp: block_announce_of_def build_announce_parts_def)
    have "ss = map (\<lambda>t. short_id nc (the (tx_id t))) ts" using ss by (simp add: short_ids_of_spec)
    then have "map m ss = map (offered nc cands) ts" by (simp add: off)
    moreover have "fill_slots m ss (place_prefilled [\<lparr>pf_index = 0, pf_tx = t\<rparr>] (replicate (length ss + 1) None)) = Some t # map m ss"
      by (simp add: fill_all_empty)
    ultimately show ?thesis using m(1) by (simp add: reconstruct_def a Cons Let_def)
  qed
qed

lemma offered_None: "offered nc cands t = None \<longleftrightarrow> (\<forall>u \<in> set cands. short_id nc (the (tx_id u)) \<noteq> short_id nc (the (tx_id t)))"
  by (auto simp: offered_def find_None_iff)

lemma offered_Some: "offered nc cands t = Some u \<Longrightarrow> u \<in> set cands \<and> short_id nc (the (tx_id u)) = short_id nc (the (tx_id t))"
  by (auto simp: offered_def find_Some_iff in_set_conv_nth rev_nth) (metis diff_Suc_less length_pos_if_in_set nth_mem in_set_conv_nth list.size(3) not_less_zero)

text \<open>Two transactions of one short id under one nonce.\<close>

definition short_clash :: "u64 \<Rightarrow> tx_entry \<Rightarrow> tx_entry \<Rightarrow> bool" where
  "short_clash nc t u \<longleftrightarrow> t \<noteq> u \<and> short_id nc (the (tx_id t)) = short_id nc (the (tx_id u))"

lemma missing_indexes:
  assumes "n < 2 ^ 32"
  shows "map unat (map word_of_nat (filter P [0..<n]) :: u32 list) = filter P [0..<n]"
proof -
  have "unat (word_of_nat i :: u32) = i" if "i \<in> set (filter P [0..<n])" for i
    using that assms by (intro unat_of_nat_len) auto
  note back' = this
  show ?thesis unfolding map_map by (rule map_idI) (simp only: comp_def back')
qed

text \<open>What a receiver rebuilds from an announcement, whatever its pool holds: it asks for exactly the
  transactions no candidate of the pool stands for, in order; and when it asks for none, it has the
  block's transactions, place by place, but for those where a candidate has the short id of another
  transaction. Without such a clash, a pool that holds the block's transactions rebuilds the block.\<close>

theorem relay_faithful:
  assumes "block_announce_of hdr b nc = Some a" and "\<forall>t \<in> set cands. tx_id t \<noteq> None" and "length (txs b) < 2 ^ 32"
  shows "\<exists>r. reconstruct a cands = Some r
    \<and> (case r of
         Missing ix \<Rightarrow> ix \<noteq> [] \<and> sorted (map unat ix) \<and> distinct ix
           \<and> unat ` set ix = {i. 0 < i \<and> i < length (txs b) \<and> (\<forall>u \<in> set cands. u \<noteq> txs b ! i \<and> \<not> short_clash nc u (txs b ! i))}
       | Complete ts \<Rightarrow> length ts = length (txs b)
           \<and> (\<forall>i < length ts. ts ! i = txs b ! i \<or> 0 < i \<and> ts ! i \<in> set cands \<and> short_clash nc (ts ! i) (txs b ! i)))
    \<and> (set (tl (txs b)) \<subseteq> set cands \<and> (\<forall>u \<in> set cands. \<forall>t \<in> set (tl (txs b)). \<not> short_clash nc u t) \<longrightarrow> r = Complete (txs b))"
proof -
  define slots where "slots = (case txs b of [] \<Rightarrow> [] | t # ts \<Rightarrow> Some t # map (offered nc cands) ts)"
  define gaps where "gaps = filter (\<lambda>i. slots ! i = None) [0..<length slots]"
  have r: "reconstruct a cands = Some (if gaps = [] then Complete (map the slots) else Missing (map word_of_nat gaps))"
    using reconstruct_slots [OF assms(1,2)] by (simp add: slots_def [symmetric] gaps_def [symmetric] Let_def)
  have len: "length slots = length (txs b)" by (simp add: slots_def split: list.splits)
  have slot: "slots ! i = (if i = 0 then Some (txs b ! 0) else offered nc cands (txs b ! i))" if "i < length (txs b)" for i
    using that by (cases "txs b"; cases i) (auto simp: slots_def)
  have stands: "offered nc cands t = None \<longleftrightarrow> (\<forall>u \<in> set cands. u \<noteq> t \<and> \<not> short_clash nc u t)" for t
    unfolding offered_None short_clash_def by blast
  have gap: "set gaps = {i. 0 < i \<and> i < length (txs b) \<and> (\<forall>u \<in> set cands. u \<noteq> txs b ! i \<and> \<not> short_clash nc u (txs b ! i))}"
  proof (intro set_eqI)
    fix i
    show "i \<in> set gaps \<longleftrightarrow> i \<in> {i. 0 < i \<and> i < length (txs b) \<and> (\<forall>u \<in> set cands. u \<noteq> txs b ! i \<and> \<not> short_clash nc u (txs b ! i))}"
      by (cases "i < length (txs b)"; cases "i = 0") (simp_all add: gaps_def len slot stands)
  qed
  have u: "map unat (map word_of_nat gaps :: u32 list) = gaps"
    unfolding gaps_def by (rule missing_indexes) (use assms(3) in \<open>simp add: len\<close>)
  have ix: "sorted (map unat (map word_of_nat gaps :: u32 list))" "distinct (map word_of_nat gaps :: u32 list)"
    "unat ` set (map word_of_nat gaps :: u32 list) = set gaps"
  proof -
    show "sorted (map unat (map word_of_nat gaps :: u32 list))" unfolding u by (simp add: gaps_def sorted_wrt_filter)
    have "distinct (map unat (map word_of_nat gaps :: u32 list))" unfolding u by (simp add: gaps_def)
    then show "distinct (map word_of_nat gaps :: u32 list)" by (simp only: distinct_map)
    show "unat ` set (map word_of_nat gaps :: u32 list) = set gaps" by (simp only: set_map [symmetric] u)
  qed
  have full: "map the slots ! i = txs b ! i \<or> 0 < i \<and> map the slots ! i \<in> set cands \<and> short_clash nc (map the slots ! i) (txs b ! i)"
    if i: "i < length (txs b)" and g: "gaps = []" for i
  proof (cases "i = 0")
    case False
    have "i \<notin> set gaps" using g by simp
    then have "offered nc cands (txs b ! i) \<noteq> None" using False i gap stands [of "txs b ! i"] by auto
    then obtain v where "offered nc cands (txs b ! i) = Some v" by auto
    then show ?thesis using offered_Some [of nc cands "txs b ! i" v] slot [OF i] False i len by (auto simp: short_clash_def)
  qed (use slot [OF i] i len in simp)
  have clean: "r' = Complete (txs b)" if h: "set (tl (txs b)) \<subseteq> set cands \<and> (\<forall>u \<in> set cands. \<forall>t \<in> set (tl (txs b)). \<not> short_clash nc u t)"
      and r': "r' = (if gaps = [] then Complete (map the slots) else Missing (map word_of_nat gaps))" for r'
  proof -
    have t: "txs b ! i \<in> set (tl (txs b))" if "0 < i" "i < length (txs b)" for i
      using that by (cases "txs b"; cases i) auto
    have "set gaps = {}" unfolding gap using h t by blast
    then have g: "gaps = []" by simp
    moreover have "map the slots = txs b"
    proof (rule nth_equalityI)
      fix i assume "i < length (map the slots)"
      then have i: "i < length (txs b)" by (simp add: len)
      show "map the slots ! i = txs b ! i" using full [OF i g] h t [OF _ i] by blast
    qed (simp add: len)
    ultimately show ?thesis using r' by simp
  qed
  define cs where "cs = map the slots"
  define ms :: "u32 list" where "ms = map word_of_nat gaps"
  have lc: "length cs = length (txs b)" by (simp add: cs_def len)
  have me: "ms = [] \<longleftrightarrow> gaps = []" by (simp add: ms_def)
  note facts = r [folded cs_def ms_def] full [folded cs_def] ix [folded ms_def, unfolded gap] clean [folded cs_def ms_def]
  show ?thesis
  proof (intro exI conjI impI)
    show "reconstruct a cands = Some (if gaps = [] then Complete cs else Missing ms)" by (rule facts(1))
    show "case (if gaps = [] then Complete cs else Missing ms) of
         Missing ix \<Rightarrow> ix \<noteq> [] \<and> sorted (map unat ix) \<and> distinct ix
           \<and> unat ` set ix = {i. 0 < i \<and> i < length (txs b) \<and> (\<forall>u \<in> set cands. u \<noteq> txs b ! i \<and> \<not> short_clash nc u (txs b ! i))}
       | Complete ts \<Rightarrow> length ts = length (txs b)
           \<and> (\<forall>i < length ts. ts ! i = txs b ! i \<or> 0 < i \<and> ts ! i \<in> set cands \<and> short_clash nc (ts ! i) (txs b ! i))"
    proof (cases "gaps = []")
      case True
      have "\<forall>i < length (txs b). cs ! i = txs b ! i \<or> 0 < i \<and> cs ! i \<in> set cands \<and> short_clash nc (cs ! i) (txs b ! i)"
        using facts(2) True by blast
      then show ?thesis by (simp add: True lc)
    next
      case False
      then show ?thesis using facts(3-5) by (simp add: me)
    qed
  qed (rule facts(6) [OF _ refl])
qed

section \<open>The served body\<close>

lemma wire_form_byte_of: "wire_form_byte wr = Some x \<Longrightarrow> wire_form_of x \<noteq> None"
  by (auto simp: wire_form_byte_def wire_form_of_def split: genesis_form.splits body_sections.splits l2_auth_form.splits)

lemma read_prefix_iff:
  assumes w: "wire_form_byte wr = Some w"
  shows "read_prefix wr buf = Some (Ok (got, rest)) \<longleftrightarrow> (\<exists>x. served_prefix wr got = Some x \<and> buf = x @ rest)"
proof
  assume r: "read_prefix wr buf = Some (Ok (got, rest))"
  then have len: "10 \<le> length buf" and b: "buf ! 0 = served_chain_version" "buf ! 1 = w"
      and g: "got = u64_from_le (slice_at 2 8 buf)" "rest = drop 10 buf"
    by (auto simp: read_prefix_def w split: if_splits)
  have s: "length (slice_at 2 8 buf) = 8" using len by (simp add: slice_at_def)
  have "buf = take 2 buf @ take 8 (drop 2 buf) @ drop 8 (drop 2 buf)" by (simp only: append_take_drop_id)
  also have "take 2 buf = [buf ! 0, buf ! 1]" using len by (cases buf; cases "tl buf") auto
  finally have "buf = ([served_chain_version, w] @ u64_le got) @ rest"
    using u64_le_u64_from_le [OF s] by (simp add: b(1) b(2) [simplified] g slice_at_def)
  then show "\<exists>x. served_prefix wr got = Some x \<and> buf = x @ rest" by (simp add: served_prefix_def w)
next
  assume "\<exists>x. served_prefix wr got = Some x \<and> buf = x @ rest"
  then have "buf = [served_chain_version, w] @ u64_le got @ rest" by (auto simp: served_prefix_def w)
  then show "read_prefix wr buf = Some (Ok (got, rest))"
    using wire_form_byte_of [OF w] by (simp add: read_prefix_def w slice_at_def)
qed

text \<open>A body answer decodes to an announcement exactly when it is its encoding at that height, in whole: no
  short ids, every transaction at its own index, within the size a client takes.\<close>

theorem body_answer_exact:
  assumes w: "wire_form_byte wr = Some w"
  shows "decode_body_answer wr ht buf = Some (Ok a) \<longleftrightarrow>
    encode_body_answer wr ht a = Some (Ok buf) \<and> announce_ok payee_cap_v5_boundary wr a
    \<and> length buf \<le> max_served_body_bytes + 10 \<and> ba_short_ids a = []
    \<and> (\<forall>i < length (ba_prefilled a). unat (pf_index (ba_prefilled a ! i)) = i)"
proof -
  have whole: "find (\<lambda>(i, p). unat (pf_index p) \<noteq> i) (enumerate 0 ps) = None \<longleftrightarrow> (\<forall>i < length ps. unat (pf_index (ps ! i)) = i)" for ps
    by (auto simp: find_None_iff in_set_enumerate_eq)
  obtain x where x: "served_prefix wr ht = Some x" by (simp add: served_prefix_def w)
  have enc: "encode_body_answer wr ht a = Some (Ok buf) \<longleftrightarrow> (\<exists>rest. buf = x @ rest \<and> encode_announce_for wr a = Some (Ok rest))"
    by (auto simp: encode_body_answer_def x)
  have last_check: "(if ss \<noteq> [] then Err e else (case F of Some (i, p) \<Rightarrow> Err (g i p) | None \<Rightarrow> Ok c)) = Ok a
      \<longleftrightarrow> ss = [] \<and> F = None \<and> c = a" for ss :: "bytes list" and F :: "(nat \<times> prefilled_tx) option" and e :: served_error and g and c
    by (cases F) auto
  have me: "map_error f r = Ok y \<longleftrightarrow> r = Ok y" for f :: "decode_error \<Rightarrow> served_error" and r and y :: block_announce by (cases r) auto
  have "decode_body_answer wr ht buf = Some (Ok a) \<longleftrightarrow> length buf \<le> max_served_body_bytes + 10
      \<and> (\<exists>rest. read_prefix wr buf = Some (Ok (ht, rest)) \<and> decode_announce_for wr rest = Ok a)
      \<and> ba_short_ids a = [] \<and> find (\<lambda>(i, p). unat (pf_index p) \<noteq> i) (enumerate 0 (ba_prefilled a)) = None"
    by (auto simp: decode_body_answer_def last_check me simp del: not_None_eq)
  then show ?thesis unfolding whole enc announce_exact read_prefix_iff [OF w] x by auto
qed

text \<open>What a server of the chain sends for a body is the body the client reads.\<close>

theorem served_body_roundtrip:
  assumes "wire_form_byte wr = Some w" and "announce_ok payee_cap_v5_boundary wr (whole_block_announce h b)"
    and "length (txs b) < 2 ^ 32"
    and "encode_body_answer wr ht (whole_block_announce h b) = Some (Ok buf)" and "length buf \<le> max_served_body_bytes + 10"
  shows "\<exists>a. decode_body_answer wr ht buf = Some (Ok a) \<and> body_of a = b \<and> ba_header a = wire_header_of h"
proof -
  let ?a = "whole_block_announce h b"
  have "unat (word_of_nat i :: u32) = i" if "i < length (txs b)" for i using that assms(3) by (intro unat_of_nat_len) simp
  then have "decode_body_answer wr ht buf = Some (Ok ?a)"
    unfolding body_answer_exact [OF assms(1)] using assms(2,4,5) by (simp add: whole_block_announce_def nth_enumerate_eq)
  moreover have "map (pf_tx \<circ> (\<lambda>(i, t). \<lparr>pf_index = word_of_nat i, pf_tx = t\<rparr>)) (enumerate 0 (txs b)) = map snd (enumerate 0 (txs b))"
    by (intro map_cong refl) auto
  then have "body_of ?a = b" by (simp add: body_of_def announced_body_def whole_block_announce_def)
  ultimately show ?thesis by (intro exI conjI) (auto simp: whole_block_announce_def)
qed

lemma split_frames_exact:
  "split_frames n rest = Ok (bs, r) \<longleftrightarrow>
    length bs = n \<and> (\<forall>b \<in> set bs. length b < 2 ^ 32) \<and> rest = concat (map frame_bytes bs) @ r"
proof (induction n arbitrary: rest bs)
  case (Suc n)
  show ?case
  proof
    assume s: "split_frames (Suc n) rest = Ok (bs, r)"
    define len where "len = unat (u32_from_le (take 4 rest))"
    from s obtain cs where long: "4 + len \<le> length rest" and cs: "split_frames n (drop (4 + len) rest) = Ok (cs, r)" "bs = slice_at 4 len rest # cs"
      by (auto simp: Let_def len_def [symmetric] split: if_splits)
    have small: "len < 2 ^ 32" unfolding len_def using unat_lt_exp [of "u32_from_le (take 4 rest)"] by simp
    have l: "length (slice_at 4 len rest) = len" using long by (simp add: slice_at_def)
    have "(word_of_nat len :: u32) = u32_from_le (take 4 rest)" by (simp add: len_def)
    then have "frame_bytes (slice_at 4 len rest) = take 4 rest @ take len (drop 4 rest)"
      using long u32_le_u32_from_le [of "take 4 rest"] by (simp only: frame_bytes_def l) (simp add: slice_at_def)
    moreover have "rest = take 4 rest @ take len (drop 4 rest) @ drop (4 + len) rest"
      by (metis append_take_drop_id drop_drop add.commute)
    moreover have "length cs = n" "\<forall>b \<in> set cs. length b < 2 ^ 32" "drop (4 + len) rest = concat (map frame_bytes cs) @ r"
      using Suc.IH [of "drop (4 + len) rest" cs] cs(1) by blast+
    ultimately show "length bs = Suc n \<and> (\<forall>b \<in> set bs. length b < 2 ^ 32) \<and> rest = concat (map frame_bytes bs) @ r"
      using l small by (simp add: cs(2))
  next
    assume a: "length bs = Suc n \<and> (\<forall>b \<in> set bs. length b < 2 ^ 32) \<and> rest = concat (map frame_bytes bs) @ r"
    then obtain b cs where bs: "bs = b # cs" by (cases bs) auto
    have rest: "rest = u32_le (word_of_nat (length b)) @ b @ concat (map frame_bytes cs) @ r"
      using a by (simp add: bs frame_bytes_def)
    have "unat (word_of_nat (length b) :: u32) = length b" using a by (intro unat_of_nat_len) (simp add: bs)
    then have len: "unat (u32_from_le (take 4 rest)) = length b" by (simp add: rest)
    have "split_frames n (drop (4 + length b) rest) = Ok (cs, r)" using Suc.IH a by (simp add: bs rest)
    then show "split_frames (Suc n) rest = Ok (bs, r)" using len by (simp add: Let_def bs) (simp add: rest slice_at_def)
  qed
qed auto

text \<open>A page of bodies splits into exactly the answers it was made of, and only its own bytes split into them.\<close>

theorem bodies_page_exact:
  assumes w: "wire_form_byte wr = Some w"
  shows "split_bodies_page wr start buf = Some (Ok answers) \<longleftrightarrow> encode_bodies_page wr start answers = Some buf"
proof -
  obtain x where x: "served_prefix wr start = Some x" by (simp add: served_prefix_def w)
  have split: "split_bodies_page wr start buf = Some (Ok answers) \<longleftrightarrow> length buf \<le> max_bodies_page_bytes
      \<and> (\<exists>rest. read_prefix wr buf = Some (Ok (start, rest)) \<and> 4 \<le> length rest
          \<and> unat (u32_from_le (take 4 rest)) \<le> max_bodies_page
          \<and> split_frames (unat (u32_from_le (take 4 rest))) (drop 4 rest) = Ok (answers, []))"
    by (auto simp: split_bodies_page_def Let_def not_less split: if_splits)
  have rest: "4 \<le> length rest \<and> unat (u32_from_le (take 4 rest)) \<le> max_bodies_page
        \<and> split_frames (unat (u32_from_le (take 4 rest))) (drop 4 rest) = Ok (answers, [])
      \<longleftrightarrow> length answers \<le> max_bodies_page \<and> (\<forall>a \<in> set answers. length a < 2 ^ 32)
        \<and> rest = u32_le (word_of_nat (length answers)) @ concat (map frame_bytes answers)" for rest
  proof (intro iffI; elim conjE)
    assume long: "4 \<le> length rest" and n: "unat (u32_from_le (take 4 rest)) \<le> max_bodies_page"
      and s: "split_frames (unat (u32_from_le (take 4 rest))) (drop 4 rest) = Ok (answers, [])"
    have f: "length answers = unat (u32_from_le (take 4 rest))" "\<forall>a \<in> set answers. length a < 2 ^ 32"
        "drop 4 rest = concat (map frame_bytes answers)"
      using s unfolding split_frames_exact by simp_all
    have "u32_le (word_of_nat (length answers)) = take 4 rest"
      using u32_le_u32_from_le [of "take 4 rest"] long by (simp add: f(1))
    then show "length answers \<le> max_bodies_page \<and> (\<forall>a \<in> set answers. length a < 2 ^ 32)
        \<and> rest = u32_le (word_of_nat (length answers)) @ concat (map frame_bytes answers)"
      using n f append_take_drop_id [of 4 rest] by metis
  next
    assume n: "length answers \<le> max_bodies_page" and a: "\<forall>a \<in> set answers. length a < 2 ^ 32"
      and r: "rest = u32_le (word_of_nat (length answers)) @ concat (map frame_bytes answers)"
    have "unat (word_of_nat (length answers) :: u32) = length answers"
      using n by (intro unat_of_nat_len) (simp add: max_bodies_page_def max_headers_page_def)
    then show "4 \<le> length rest \<and> unat (u32_from_le (take 4 rest)) \<le> max_bodies_page
        \<and> split_frames (unat (u32_from_le (take 4 rest))) (drop 4 rest) = Ok (answers, [])"
      using n a by (simp add: split_frames_exact) (simp add: r)
  qed
  have "encode_bodies_page wr start answers = Some buf \<longleftrightarrow> length answers \<le> max_bodies_page \<and> (\<forall>a \<in> set answers. length a < 2 ^ 32)
      \<and> buf = x @ u32_le (word_of_nat (length answers)) @ concat (map frame_bytes answers) \<and> length buf \<le> max_bodies_page_bytes"
    by (auto simp: encode_bodies_page_def x Let_def list_ex_iff not_less not_le)
  then show ?thesis unfolding split rest read_prefix_iff [OF w] x by auto
qed

text \<open>The same for a page of headers.\<close>

theorem headers_page_exact:
  assumes w: "wire_form_byte wr = Some w"
  shows "decode_headers_page wr ht buf = Some (Ok ws) \<longleftrightarrow>
    encode_headers_page wr ht ws = Some buf \<and> (\<forall>x \<in> set ws. wf_wire_header (wf_form wr) x)"
proof -
  obtain x where x: "served_prefix wr ht = Some x" by (simp add: served_prefix_def w)
  have dec: "decode_headers_page wr ht buf = Some (Ok ws) \<longleftrightarrow>
      (\<exists>rest. read_prefix wr buf = Some (Ok (ht, rest)) \<and> decode_wire_headers (wf_form wr) rest = Ok ws \<and> length ws \<le> max_headers_page)"
    by (auto simp: decode_headers_page_def not_less split: if_splits)
  have enc: "encode_headers_page wr ht ws = Some buf \<longleftrightarrow>
      length ws \<le> max_headers_page \<and> (\<exists>rest. buf = x @ rest \<and> encode_wire_headers (wf_form wr) ws = Some rest)"
    by (auto simp: encode_headers_page_def x)
  have "length ws \<le> max_headers_page \<Longrightarrow> length ws < 2 ^ 64" by (simp add: max_headers_page_def)
  then show ?thesis unfolding dec enc read_prefix_iff [OF w] x decode_wire_headers_iff by auto
qed

section \<open>A concrete announcement\<close>

definition lone_body :: block_body where
  "lone_body = body_new [plain_tx] []"

lemma relay_faithful_witness:
  "\<exists>a. block_announce_of (header_v5 1) lone_body 7 = Some a \<and> reconstruct a [] = Some (Complete [plain_tx])"
proof -
  have b: "txs lone_body = [plain_tx]" by (simp add: lone_body_def body_new_def)
  then obtain a where a: "block_announce_of (header_v5 1) lone_body 7 = Some a"
    by (auto simp: block_announce_of_def build_announce_parts_def)
  from relay_faithful [OF a, of "[]"] show ?thesis by (auto simp: b a)
qed

end
