(* ===== verification/Spec2Isabelle.thy ===== *)
theory Spec2Isabelle
  imports Chain Compact Names Halt Tally Epoch Ebbflow Pow_Schedule Weight Emission_Schedule Header
    Rate_Limit Spent Mempool Commit_Tree Supply_Ledger Relay
begin

text \<open>
  A verification development for qumbra-lab, the prototype of a post-quantum privacy chain written in Rust
  (\<open>src/crates/\<close>). It models the deterministic core the nodes of the network must agree on, and the parts of the
  wallet and the peer layer that are arithmetic and bookkeeping rather than input and output. Paths below
  are relative to \<open>src/crates/\<close>.

  The program. A block header (\<open>qlab-devnet/header.rs\<close>) extends a chain under one of three forms (V4, V5 and
  Annulet, \<open>forms.rs\<close>), with a difficulty retargeted by LWMA and a RandomX key schedule (\<open>qlab-pow\<close>). Its body
  (\<open>body.rs\<close>, \<open>annulet.rs\<close>) carries transactions of nullifiers, commitments, an anchor, a fee and a STARK proof,
  pays a coinbase under an exact emission curve (\<open>emission_exact.rs\<close>), and may carry riders of the name
  service, a finality record and a proof bundle. A committee votes on checkpoints every few blocks;
  a quorum finalizes a block, and the chain never reorganises below it. The node (\<open>qlab-node\<close>) folds accepted
  blocks into a nullifier set, a commitment tree and its roots, the name registry, and on an Annulet chain
  the asset registry and the supply of each asset; it keeps a pool from which it assembles the next block, logs
  what it applies and replays the log at start. Wallets (\<open>qlab-ledger\<close>) follow the published nullifiers.

  How the theories map to the code. Each theory holds the data, the operations and the lemmas of its part.
  \<^item> \<open>Prelude\<close>: results and errors, wrapping and saturating words, little-endian bytes, ordered maps
    (the \<open>BTreeMap\<close> of the sources as a sorted association list, \<open>bt_insert\<close>, \<open>bt_retain\<close>, \<open>bt_ok\<close>).
  \<^item> \<open>Hashing\<close>: Keccak-f[1600] and the sponge (\<open>qlab-air/reference.rs\<close>, \<open>qlab-devnet/hash.rs\<close>), bit for bit.
  \<^item> \<open>Varint\<close>, \<open>Compact\<close>: the codecs of \<open>qlab-note/compact.rs\<close> and \<open>wire.rs\<close>.
  \<^item> \<open>Header\<close>, \<open>Chain\<close>: forms, headers and preimages; insertion, fork choice, finality marks (\<open>chain.rs\<close>).
  \<^item> \<open>Pow_Schedule\<close>: \<open>lwma.rs\<close> and \<open>keyblock.rs\<close>. \<open>Halt\<close>: \<open>halt.rs\<close>.
  \<^item> \<open>Committee\<close>, \<open>Finality\<close>, \<open>Tally\<close>, \<open>Ebbflow\<close>, \<open>Epoch\<close>, \<open>Finality_Record\<close>: the files of those names in
    \<open>qlab-devnet\<close>: roster and votes, checkpoints, the vote tally, equivocation, epochs, the record in a block.
  \<^item> \<open>Weight\<close>, \<open>Emission\<close>, \<open>Emission_Schedule\<close>: fees, block weight and the fixed-point supply curve.
  \<^item> \<open>Names\<close>: the name service and its replay (\<open>names.rs\<close>, \<open>name_registry.rs\<close>).
  \<^item> \<open>Body_Form\<close>, \<open>Block_Body\<close>, \<open>Body_Validation\<close>: bodies and preimages, validation, what acceptance means.
  \<^item> \<open>Annulet_Surface\<close>, \<open>Annulet_Auth\<close>, \<open>Auth_Tree\<close>, \<open>Annulet_Body\<close>: the layer-2 surface, the intent an
    authorisation signs, the one-time key trees (\<open>qlab-remote-auth\<close>), the Annulet body rule (\<open>annulet.rs\<close>).
  \<^item> \<open>Registry\<close>, \<open>Commit_Tree\<close>: the sparse asset registry and the append-only commitment tree (\<open>qlab-cbserver\<close>).
  \<^item> \<open>Coinbase\<close>, \<open>Asset_Supply\<close>, \<open>Supply_Ledger\<close>: coinbase notes and maturity, genesis issuance, and the supply
    ledger recomputed from public bodies (\<open>asset_supply.rs\<close>, \<open>qumbra-explorer/attest.rs\<close>).
  \<^item> \<open>Node_Store\<close>, \<open>Node\<close>: stored blocks and the chain store (\<open>store.rs\<close>), and the node (\<open>node.rs\<close>): opening from a
    genesis, \<open>apply_block\<close> under the live and settled anchor rules, sealing, finalizing, \<open>rewind_to\<close>, replay.
    \<open>Node_Run\<close> and \<open>Node_Facts\<close> hold the reachable nodes and what they keep.
  \<^item> \<open>Mempool\<close>: admission, sweep and template assembly (\<open>mempool.rs\<close>).
  \<^item> \<open>Spent\<close>: catch-up and coverage of the wallet's spent set. \<open>Rate_Limit\<close>: the inbound budgets of \<open>qlab-p2p\<close>.
  \<^item> \<open>Wire_Codec\<close>, \<open>Relay\<close>: the payload codecs of the peer wire (\<open>codec.rs\<close>), block announcements, their
    reconstruction from a pool, and the answers of the served chain (\<open>compact.rs\<close>, \<open>served.rs\<close>).

  How they interact. \<open>Chain\<close> is used by \<open>Node_Store\<close> through \<open>insert_header\<close> and \<open>set_finalized\<close>; \<open>Node\<close> calls body
  validation (\<open>Block_Body\<close>, \<open>Annulet_Body\<close>), the trees, the registries and the store in the order of
  \<open>apply_block_gated\<close>; \<open>Mempool\<close> sees the node only through the read trait of the source (a record with one
  field per method). Interfaces are locales (the tree hash, the signature scheme, the header hash, the
  maps, and the contracts between client and provider), each interpreted on the model.

  What the lemmas show. Safety of finality and fork choice on every reachable chain; that a node is the
  fold of its chain whatever blocks, rewinds and finalizations led to it, that its nullifiers are spent
  once, its recorded roots are the Merkle roots of its history, a refused block leaves no trace, a rewind
  lands exactly on the kept blocks and a restart gives the node back; exact acceptance conditions of v5
  and Annulet bodies and totality of validation; conservation of supply (base coin and assets), the node's
  books equal to the public recomputation; injectivity (or its failure, see below) of the preimages, with
  binding reduced to an explicit hash collision; accountability of the committee; pool invariants and
  acceptance, on the V4 and V5 forms, of what the pool assembles; half-up rounding of the fixed-point
  curve; completeness of the wallet's spent set; round trips of the codecs, and that an announced block is
  rebuilt as it was, up to a clash of short ids. Where the code falls short of its documentation the fact
  is stated as a theorem:
  \<open>v6_preimage_ambiguous\<close>, \<open>txid_not_injective\<close>, \<open>annulet_ignores_sections\<close>, \<open>short_interval_overgrants\<close> and
  \<open>live_anchor_settles_inside_window\<close>.

  Parameters. The header hash (RandomX), the STARK verifier, the bundle verifier, ML-DSA and ML-KEM are
  functions the definitions take; no law of them is assumed except where a theorem names it. Keccak is
  computed, and a theorem that needs collision resistance has the collision as its other case.

  Bounds and fuel. Machine integers keep their width; \<open>u128\<close> accumulators that cannot wrap within the
  bounds of the inputs are naturals, and the theory says so. Reachable nodes take headers of height below
  \<open>2^62\<close> and nonzero difficulty (\<open>sane_header\<close>): a height is one more than its parent's, so a chain cannot get
  there. The commitment tree holds \<open>2^32\<close> leaves, the registry \<open>2^16\<close> slots, an authorisation tree has depth at
  most 31. Walks along parent hashes are \<open>partial_function (option)\<close>, where not returning is None, and the
  theorems about them prove a value. A panic of the source (an \<open>expect\<close>, an index, an assertion) is None in the
  result of the operation, an error its left side.

  Not modelled. The AIR constraints and the provers, wrappers and verifiers over Plonky3 (\<open>qlab-air\<close> except
  its reference functions, \<open>qlab-consensus\<close>, \<open>qlab-wprover\<close>, \<open>qlab-wrapper\<close>, \<open>qlab-l2\<close>): their meaning rests on a
  third-party field and proof library. Benchmarks and demos. The binaries, RPC servers, metrics and the
  socket side of the peer layer, the wallet's command line and the C interface: processes, files and
  sockets. Of the node: snapshots and sidecar files, and the cache of bundle verdicts. The floating-point
  emission curve below the exact boundary is a parameter of \<open>Coinbase\<close>.
\<close>

end
